(* ===== verification/Rid_Prelude.thy ===== *)
theory Rid_Prelude
  imports Main "HOL-Library.Sublist" "HOL-Library.Product_Lexorder" "HOL-Library.Option_ord"
begin

text \<open>
  Shared vocabulary of the development: Rust's checked and wrapping arithmetic on \<open>u32\<close>
  and \<open>u64\<close>, \<open>Result\<close> as a sum type with the combinators the code uses (the question
  mark operator, \<open>collect::<Result<Vec<_>, _>>\<close>, a fallible loop), bounds-checked list
  access, \<open>partition_point\<close>, \<open>windows(2)\<close>, and the generic list lemmas the component
  theories share.  The rules for the result combinators are collected in
  \<open>result_simps\<close>.
\<close>

named_theorems result_simps

section \<open>Machine integers\<close>

definition u32_max :: nat where
  "u32_max = 4294967295"

definition u64_max :: nat where
  "u64_max = 18446744073709551615"

definition checked_add_u32 :: "nat \<Rightarrow> nat \<Rightarrow> nat option" where
  "checked_add_u32 a b = (if a + b \<le> u32_max then Some (a + b) else None)"

definition checked_add_u64 :: "nat \<Rightarrow> nat \<Rightarrow> nat option" where
  "checked_add_u64 a b = (if a + b \<le> u64_max then Some (a + b) else None)"

definition checked_sub :: "nat \<Rightarrow> nat \<Rightarrow> nat option" where
  "checked_sub a b = (if b \<le> a then Some (a - b) else None)"

text \<open>Subtraction of two \<open>u32\<close> values as a release build computes it.\<close>

definition wrapping_sub_u32 :: "nat \<Rightarrow> nat \<Rightarrow> nat" where
  "wrapping_sub_u32 a b = (a + (u32_max + 1) - b) mod (u32_max + 1)"

lemma wrapping_sub_u32_exact [simp]:
  "b \<le> a \<Longrightarrow> a \<le> u32_max \<Longrightarrow> wrapping_sub_u32 a b = a - b"
proof -
  assume "b \<le> a" and "a \<le> u32_max"
  then have "a + (u32_max + 1) - b = (a - b) + (u32_max + 1)" and "a - b < u32_max + 1"
    by auto
  then show ?thesis
    unfolding wrapping_sub_u32_def by (metis mod_add_self2 mod_less)
qed

lemma wrapping_sub_u32_le: "wrapping_sub_u32 a b \<le> u32_max"
  by (simp add: wrapping_sub_u32_def less_Suc_eq_le [symmetric])

lemma checked_add_u32_Some [simp]:
  "checked_add_u32 a b = Some c \<longleftrightarrow> a + b \<le> u32_max \<and> c = a + b"
  by (auto simp: checked_add_u32_def)

lemma checked_add_u32_None [simp]: "checked_add_u32 a b = None \<longleftrightarrow> u32_max < a + b"
  by (auto simp: checked_add_u32_def)

lemma checked_sub_Some [simp]: "checked_sub a b = Some c \<longleftrightarrow> b \<le> a \<and> c = a - b"
  by (auto simp: checked_sub_def)

section \<open>Results\<close>

definition bind_result :: "'e + 'a \<Rightarrow> ('a \<Rightarrow> 'e + 'b) \<Rightarrow> 'e + 'b" where
  "bind_result r f = (case r of Inl e \<Rightarrow> Inl e | Inr x \<Rightarrow> f x)"

definition ok_or :: "'a option \<Rightarrow> 'e \<Rightarrow> 'e + 'a" where
  "ok_or x e = (case x of None \<Rightarrow> Inl e | Some y \<Rightarrow> Inr y)"

definition map_err :: "('e \<Rightarrow> 'f) \<Rightarrow> 'e + 'a \<Rightarrow> 'f + 'a" where
  "map_err f r = (case r of Inl e \<Rightarrow> Inl (f e) | Inr x \<Rightarrow> Inr x)"

definition check_that :: "bool \<Rightarrow> 'e \<Rightarrow> 'e + unit" where
  "check_that b e = (if b then Inr () else Inl e)"

primrec map_result :: "('a \<Rightarrow> 'e + 'b) \<Rightarrow> 'a list \<Rightarrow> 'e + 'b list" where
  "map_result f [] = Inr []"
| "map_result f (x # xs) =
     bind_result (f x) (\<lambda>y. bind_result (map_result f xs) (\<lambda>ys. Inr (y # ys)))"

primrec fold_result :: "('a \<Rightarrow> 's \<Rightarrow> 'e + 's) \<Rightarrow> 'a list \<Rightarrow> 's \<Rightarrow> 'e + 's" where
  "fold_result f [] s = Inr s"
| "fold_result f (x # xs) s = bind_result (f x s) (fold_result f xs)"

lemma bind_result_Inl [simp, result_simps]: "bind_result (Inl e) f = Inl e"
  by (simp add: bind_result_def)

lemma bind_result_Inr [simp, result_simps]: "bind_result (Inr x) f = f x"
  by (simp add: bind_result_def)

lemma bind_result_eq_Inr [result_simps]:
  "bind_result r f = Inr y \<longleftrightarrow> (\<exists>x. r = Inr x \<and> f x = Inr y)"
  by (cases r) auto

lemma bind_result_eq_Inl [result_simps]:
  "bind_result r f = Inl e \<longleftrightarrow> r = Inl e \<or> (\<exists>x. r = Inr x \<and> f x = Inl e)"
  by (cases r) auto

lemma bind_result_cong [fundef_cong]:
  assumes "r = r'" and "\<And>x. r' = Inr x \<Longrightarrow> f x = f' x"
  shows "bind_result r f = bind_result r' f'"
  using assms by (cases r') auto

lemma ok_or_eq_Inr [simp, result_simps]: "ok_or x e = Inr y \<longleftrightarrow> x = Some y"
  by (cases x) (auto simp: ok_or_def)

lemma ok_or_eq_Inl [simp, result_simps]: "ok_or x e = Inl e' \<longleftrightarrow> x = None \<and> e' = e"
  by (cases x) (auto simp: ok_or_def)

lemma ok_or_Some [simp]: "ok_or (Some y) e = Inr y" and ok_or_None [simp]: "ok_or None e = Inl e"
  by (simp_all add: ok_or_def)

lemma map_err_eq_Inr [simp, result_simps]: "map_err f r = Inr y \<longleftrightarrow> r = Inr y"
  by (cases r) (auto simp: map_err_def)

lemma map_err_Inr [simp]: "map_err f (Inr x) = Inr x" and map_err_Inl [simp]: "map_err f (Inl e) = Inl (f e)"
  by (simp_all add: map_err_def)

lemma check_that_eq_Inr [simp, result_simps]: "check_that b e = Inr u \<longleftrightarrow> b"
  by (auto simp: check_that_def)

lemma check_that_eq_Inl [simp, result_simps]: "check_that b e = Inl e' \<longleftrightarrow> \<not> b \<and> e' = e"
  by (auto simp: check_that_def)

lemma check_that_True [simp]: "check_that True e = Inr ()"
  by (simp add: check_that_def)

lemma check_that_False [simp]: "check_that False e = Inl e"
  by (simp add: check_that_def)

lemma map_result_eq_Inr:
  "map_result f xs = Inr ys \<longleftrightarrow> list_all2 (\<lambda>x y. f x = Inr y) xs ys"
  by (induction xs arbitrary: ys)
     (auto simp: bind_result_eq_Inr list_all2_Cons1 list_all2_Nil)

lemma map_result_length: "map_result f xs = Inr ys \<Longrightarrow> length ys = length xs"
  by (auto simp: map_result_eq_Inr dest: list_all2_lengthD)

lemma map_result_Inr_map: "(\<And>x. x \<in> set xs \<Longrightarrow> f x = Inr (g x)) \<Longrightarrow> map_result f xs = Inr (map g xs)"
  by (induction xs) auto

lemma map_result_cong [fundef_cong]:
  assumes "xs = ys" and "\<And>x. x \<in> set ys \<Longrightarrow> f x = g x"
  shows "map_result f xs = map_result g ys"
  using assms(2) unfolding assms(1) by (induction ys) auto

lemma map_result_ok_or: "map_result (\<lambda>x. ok_or x e) (map (\<lambda>u. Some (g u)) us) = Inr (map g us)"
  by (induction us) simp_all

lemma fold_result_append:
  "fold_result f (xs @ ys) s = bind_result (fold_result f xs s) (fold_result f ys)"
  by (induction xs arbitrary: s) (auto simp: bind_result_def split: sum.splits)

text \<open>A property of the accumulator that every step keeps holds for the result.\<close>

lemma fold_result_invariant:
  assumes "fold_result f xs s = Inr t" and "P s"
    and "\<And>x s t. x \<in> set xs \<Longrightarrow> P s \<Longrightarrow> f x s = Inr t \<Longrightarrow> P t"
  shows "P t"
  using assms by (induction xs arbitrary: s) (auto simp: bind_result_eq_Inr)

text \<open>Every element of a successful loop was accepted in some state between.\<close>

lemma fold_result_step:
  "fold_result f xs s = Inr t \<Longrightarrow> x \<in> set xs \<Longrightarrow> \<exists>s' t'. f x s' = Inr t'"
  by (induction xs arbitrary: s) (auto simp: bind_result_eq_Inr)

lemma filter_length_all: "length (filter P xs) = length xs \<longleftrightarrow> list_all P xs"
  using length_filter_less [of _ xs P] filter_True [of xs P] by (fastforce simp: list_all_iff)

section \<open>Slices\<close>

definition get_at :: "'a list \<Rightarrow> nat \<Rightarrow> 'a option" where
  "get_at xs i = (if i < length xs then Some (xs ! i) else None)"

lemma get_at_Some [simp]: "get_at xs i = Some x \<longleftrightarrow> i < length xs \<and> x = xs ! i"
  by (auto simp: get_at_def)

lemma get_at_None [simp]: "get_at xs i = None \<longleftrightarrow> length xs \<le> i"
  by (auto simp: get_at_def)

text \<open>
  \<open>partition_point\<close>: the number of leading elements that satisfy the predicate.  The
  standard library specifies it for slices that are partitioned by the predicate, which is
  where the code calls it.
\<close>

definition partition_point :: "('a \<Rightarrow> bool) \<Rightarrow> 'a list \<Rightarrow> nat" where
  "partition_point p xs = length (takeWhile p xs)"

lemma partition_point_Nil [simp]: "partition_point p [] = 0"
  by (simp add: partition_point_def)

lemma partition_point_le: "partition_point p xs \<le> length xs"
  by (simp add: partition_point_def length_takeWhile_le)

lemma partition_point_before: "i < partition_point p xs \<Longrightarrow> p (xs ! i)"
  unfolding partition_point_def
  by (metis nth_mem set_takeWhileD takeWhile_nth)

lemma partition_point_at: "partition_point p xs < length xs \<Longrightarrow> \<not> p (xs ! partition_point p xs)"
  by (simp add: partition_point_def nth_length_takeWhile)

lemma partition_point_iff:
  assumes "\<And>i j. i \<le> j \<Longrightarrow> j < length xs \<Longrightarrow> p (xs ! j) \<Longrightarrow> p (xs ! i)" and "i < length xs"
  shows "i < partition_point p xs \<longleftrightarrow> p (xs ! i)"
proof
  assume "i < partition_point p xs"
  then show "p (xs ! i)" by (rule partition_point_before)
next
  assume i: "p (xs ! i)"
  show "i < partition_point p xs"
  proof (rule ccontr)
    assume "\<not> i < partition_point p xs"
    then have le: "partition_point p xs \<le> i" by simp
    have "\<not> p (xs ! partition_point p xs)"
      by (rule partition_point_at) (use le assms(2) in simp)
    with assms(1) [OF le assms(2) i] show False by simp
  qed
qed

text \<open>\<open>windows(2)\<close>: the pairs of neighbours.\<close>

definition windows2 :: "'a list \<Rightarrow> ('a \<times> 'a) list" where
  "windows2 xs = zip xs (tl xs)"

lemma windows2_simps [simp]:
  "windows2 [] = []" "windows2 [x] = []" "windows2 (x # y # xs) = (x, y) # windows2 (y # xs)"
  by (simp_all add: windows2_def)

lemma windows2_sorted_wrt:
  assumes "transp r"
  shows "(\<forall>(a, b) \<in> set (windows2 xs). r a b) \<longleftrightarrow> sorted_wrt r xs"
proof (induction xs rule: induct_list012)
  case (3 x y zs)
  with assms show ?case by (auto dest: transpD)
qed auto

text \<open>
  Inserting into an ordered set is reported by \<open>BTreeSet::insert\<close>; collecting a list into a
  set and comparing the lengths is how the code tests for duplicates.
\<close>

lemma card_set_distinct: "card (set xs) = length xs \<longleftrightarrow> distinct xs"
  by (metis card_distinct distinct_card)

lemma set_enumerate_nth: "set (enumerate 0 xs) = (\<lambda>i. (i, xs ! i)) ` {..<length xs}"
  by (auto simp: enumerate_eq_zip set_zip image_iff intro!: exI)

lemma set_list_update_subset: "set (xs[i := x]) \<subseteq> insert x (set xs)"
  by (rule set_update_subset_insert)

text \<open>Counting the positions that still hold \<open>False\<close>: the measure of the marking loops.\<close>

definition unmarked :: "bool list \<Rightarrow> nat" where
  "unmarked bs = length (filter Not bs)"

lemma unmarked_mark: "i < length bs \<Longrightarrow> \<not> bs ! i \<Longrightarrow> Suc (unmarked (bs[i := True])) = unmarked bs"
proof (induction bs arbitrary: i)
  case (Cons b bs)
  then show ?case by (cases i) (auto simp: unmarked_def)
qed simp

lemma take_drop_map_nth: "b \<le> length xs \<Longrightarrow> take (b - a) (drop a xs) = map ((!) xs) [a..<b]"
  by (rule nth_equalityI) auto

lemma upt_split: "a \<le> b \<Longrightarrow> b \<le> c \<Longrightarrow> [a..<b] @ [b..<c] = [a..<c]"
  using upt_add_eq_append [of a b "c - b"] by simp

end
