(* ===== verification/Source_Model.thy ===== *)
theory Source_Model
  imports Rid_Prelude
begin

text \<open>
  The data of \<open>src/source.rs\<close>, \<open>src/source/derive.rs\<close> and
  \<open>src/source/declarative_macro.rs\<close>: byte ranges, written source units, owned pieces, the
  fact tables about derives and declarative macros, and the source inventory that every later
  phase reads.  Source text is its list of UTF-8 bytes (a Rust \<open>str\<close>); offsets and dense
  identifiers are the \<open>u32\<close> values themselves, read as natural numbers, and every place
  where the code converts, adds or subtracts them writes the \<open>u32\<close> limit out.
\<close>

section \<open>Byte ranges\<close>

text \<open>A \<open>ByteRange\<close> has a derived lexicographic order, which its \<open>linorder\<close> instance is.\<close>

datatype byte_range = ByteRange (br_start: nat) (br_end: nat)

instantiation byte_range :: linorder
begin

definition less_eq_byte_range :: "byte_range \<Rightarrow> byte_range \<Rightarrow> bool" where
  "less_eq_byte_range r s \<longleftrightarrow> (br_start r, br_end r) \<le> (br_start s, br_end s)"

definition less_byte_range :: "byte_range \<Rightarrow> byte_range \<Rightarrow> bool" where
  "less_byte_range r s \<longleftrightarrow> (br_start r, br_end r) < (br_start s, br_end s)"

instance
proof
  fix r s t :: byte_range
  show "r < s \<longleftrightarrow> r \<le> s \<and> \<not> s \<le> r"
    by (auto simp: less_eq_byte_range_def less_byte_range_def)
  show "r \<le> r"
    by (simp add: less_eq_byte_range_def)
  show "r \<le> s \<Longrightarrow> s \<le> t \<Longrightarrow> r \<le> t"
    by (auto simp: less_eq_byte_range_def)
  show "r \<le> s \<Longrightarrow> s \<le> r \<Longrightarrow> r = s"
    by (cases r; cases s) (auto simp: less_eq_byte_range_def)
  show "r \<le> s \<or> s \<le> r"
    by (auto simp: less_eq_byte_range_def)
qed

end

definition range_contains :: "byte_range \<Rightarrow> byte_range \<Rightarrow> bool" where
  "range_contains r s \<longleftrightarrow> br_start r \<le> br_start s \<and> br_end s \<le> br_end r"

definition range_len :: "byte_range \<Rightarrow> nat" where
  "range_len r = wrapping_sub_u32 (br_end r) (br_start r)"

definition range_is_empty :: "byte_range \<Rightarrow> bool" where
  "range_is_empty r \<longleftrightarrow> br_start r = br_end r"

text \<open>The offsets a half-open range covers.\<close>

definition range_bytes :: "byte_range \<Rightarrow> nat set" where
  "range_bytes r = {br_start r ..< br_end r}"

lemma range_contains_refl [simp]: "range_contains r r"
  by (simp add: range_contains_def)

lemma range_contains_trans [trans]:
  "range_contains r s \<Longrightarrow> range_contains s t \<Longrightarrow> range_contains r t"
  by (auto simp: range_contains_def)

lemma range_contains_bytes: "range_contains r s \<Longrightarrow> range_bytes s \<subseteq> range_bytes r"
  by (auto simp: range_contains_def range_bytes_def)

lemma range_len_exact [simp]:
  "br_start r \<le> br_end r \<Longrightarrow> br_end r \<le> u32_max \<Longrightarrow> range_len r = br_end r - br_start r"
  by (simp add: range_len_def)

text \<open>The offsets outside a deletion that lies in front of the others.\<close>

lemma filter_outside_Cons:
  assumes "c \<le> br_start d" and "br_start d \<le> br_end d" and "br_end d \<le> n"
    and "\<forall>d' \<in> set ds. br_end d \<le> br_start d'"
  shows "filter (\<lambda>i. \<forall>d' \<in> set (d # ds). i \<notin> range_bytes d') [c..<n]
    = [c..<br_start d] @ filter (\<lambda>i. \<forall>d' \<in> set ds. i \<notin> range_bytes d') [br_end d..<n]"
proof -
  let ?P = "\<lambda>i. \<forall>d' \<in> set (d # ds). i \<notin> range_bytes d'"
  have "[c..<n] = [c..<br_start d] @ [br_start d..<br_end d] @ [br_end d..<n]"
    using assms(1-3) by (simp add: upt_split)
  moreover have "filter ?P [c..<br_start d] = [c..<br_start d]"
  proof (rule filter_True, rule ballI)
    fix i
    assume "i \<in> set [c..<br_start d]"
    then have "i < br_start d" by simp
    moreover have "br_start d \<le> br_start d'" if "d' \<in> set (d # ds)" for d'
      using that assms(2,4) by (cases "d' = d") (auto dest: order_trans)
    ultimately show "?P i"
      by (metis atLeastLessThan_iff leD order_trans range_bytes_def)
  qed
  moreover have "filter ?P [br_start d..<br_end d] = []"
    by (auto simp: range_bytes_def filter_empty_conv)
  moreover have "filter ?P [br_end d..<n] = filter (\<lambda>i. \<forall>d \<in> set ds. i \<notin> range_bytes d) [br_end d..<n]"
    by (rule filter_cong) (auto simp: range_bytes_def)
  ultimately show ?thesis by simp
qed

section \<open>Source text\<close>

type_synonym bytes = "nat list"

text \<open>A UTF-8 continuation byte, and \<open>str::is_char_boundary\<close>.\<close>

definition continuation_byte :: "nat \<Rightarrow> bool" where
  "continuation_byte b \<longleftrightarrow> 128 \<le> b \<and> b < 192"

definition is_char_boundary :: "bytes \<Rightarrow> nat \<Rightarrow> bool" where
  "is_char_boundary s i \<longleftrightarrow>
     i = 0 \<or> i = length s \<or> i < length s \<and> \<not> continuation_byte (s ! i)"

text \<open>\<open>str::get(a..b)\<close>.\<close>

definition str_get :: "bytes \<Rightarrow> nat \<Rightarrow> nat \<Rightarrow> bytes option" where
  "str_get s a b =
     (if a \<le> b \<and> b \<le> length s \<and> is_char_boundary s a \<and> is_char_boundary s b
      then Some (take (b - a) (drop a s)) else None)"

text \<open>The range test shared by \<open>rewrite.rs\<close>, \<open>source.rs\<close> and \<open>validation.rs\<close>.\<close>

definition valid_source_range :: "bytes \<Rightarrow> byte_range \<Rightarrow> bool" where
  "valid_source_range s r \<longleftrightarrow>
     br_start r \<le> br_end r \<and> br_end r \<le> length s
     \<and> is_char_boundary s (br_start r) \<and> is_char_boundary s (br_end r)"

lemma str_get_valid:
  "valid_source_range s r \<Longrightarrow>
     str_get s (br_start r) (br_end r) = Some (take (br_end r - br_start r) (drop (br_start r) s))"
  by (simp add: valid_source_range_def str_get_def)

lemma is_char_boundary_ends [simp]: "is_char_boundary s 0" "is_char_boundary s (length s)"
  by (simp_all add: is_char_boundary_def)

section \<open>Written units\<close>

type_synonym source_unit_id = nat
type_synonym atomic_group_id = nat

datatype cfg_state = Active | Inactive

datatype written_unit_kind =
    CrateRoot | InlineModule | Item | TraitMember | ImplMember | UseItem | UseLeaf
  | MacroDefinition | MacroInvocation | NestedItem | MacroRule | NoEffectCfgAttr
  | InactiveCfgComponent

fun written_unit_kind_rank :: "written_unit_kind \<Rightarrow> nat" where
  "written_unit_kind_rank CrateRoot = 0"
| "written_unit_kind_rank InlineModule = 1"
| "written_unit_kind_rank Item = 2"
| "written_unit_kind_rank TraitMember = 3"
| "written_unit_kind_rank ImplMember = 4"
| "written_unit_kind_rank UseItem = 5"
| "written_unit_kind_rank UseLeaf = 6"
| "written_unit_kind_rank MacroDefinition = 7"
| "written_unit_kind_rank MacroInvocation = 8"
| "written_unit_kind_rank NestedItem = 9"
| "written_unit_kind_rank MacroRule = 10"
| "written_unit_kind_rank NoEffectCfgAttr = 11"
| "written_unit_kind_rank InactiveCfgComponent = 12"

lemma written_unit_kind_rank_inj: "inj written_unit_kind_rank"
proof (rule injI)
  fix j k
  show "written_unit_kind_rank j = written_unit_kind_rank k \<Longrightarrow> j = k"
    by (cases j; cases k) simp_all
qed

lemma written_unit_kind_rank_eq [simp]:
  "written_unit_kind_rank j = written_unit_kind_rank k \<longleftrightarrow> j = k"
  by (rule inj_eq [OF written_unit_kind_rank_inj])

text \<open>The derived order of the kinds is the order of their declaration, which the ranks follow.\<close>

instantiation written_unit_kind :: linorder
begin

definition less_eq_written_unit_kind :: "written_unit_kind \<Rightarrow> written_unit_kind \<Rightarrow> bool" where
  "less_eq_written_unit_kind j k \<longleftrightarrow> written_unit_kind_rank j \<le> written_unit_kind_rank k"

definition less_written_unit_kind :: "written_unit_kind \<Rightarrow> written_unit_kind \<Rightarrow> bool" where
  "less_written_unit_kind j k \<longleftrightarrow> written_unit_kind_rank j < written_unit_kind_rank k"

instance
  by standard (auto simp: less_eq_written_unit_kind_def less_written_unit_kind_def)

end

record written_unit =
  unit_id :: source_unit_id
  unit_kind :: written_unit_kind
  full_range :: byte_range
  unit_parent :: "source_unit_id option"
  unit_cfg :: cfg_state
  atomic_group :: atomic_group_id
  same_role_ordinal :: nat

datatype piece_kind = Token | Trivia

record owned_piece =
  piece_range :: byte_range
  piece_owner :: source_unit_id
  piece_kind :: piece_kind

section \<open>Fact tables\<close>

datatype macro_rule_facts =
    WholeRules (rules_definition: source_unit_id)
  | RefinedRules (rules_definition: source_unit_id) (refined_rules: "source_unit_id list")
      (observed_selections: "source_unit_id list")

record macro_template_facts =
  template_unit :: source_unit_id
  template_rule :: source_unit_id

record macro_capture_input =
  input_invocation :: source_unit_id
  input_capture_range :: byte_range
  input_deletion_range :: byte_range

record macro_capture_slot =
  slot_unit :: source_unit_id
  slot_rule :: source_unit_id
  slot_matcher_range :: byte_range
  slot_triggers :: "source_unit_id list"
  slot_inputs :: "macro_capture_input list"

record macro_repetition_element =
  element_unit :: source_unit_id
  separator_after :: "byte_range option"

record macro_repetition =
  rep_invocation :: source_unit_id
  rep_rule :: source_unit_id
  rep_matcher_range :: byte_range
  rep_parent :: source_unit_id
  rep_path :: "nat list"
  rep_input_range :: byte_range
  rep_elements :: "macro_repetition_element list"
  rep_minimum :: nat
  rep_maximum :: "nat option"

record derive_attribute_facts =
  derive_attribute :: source_unit_id
  derive_elements :: "source_unit_id list"
  directly_written :: bool

record derive_requirement =
  derive_trigger :: source_unit_id
  derive_required :: source_unit_id

record derive_helper =
  helper_attribute :: source_unit_id
  helper_provider :: source_unit_id

datatype derive_target_facts =
    OpaqueDerive (derive_target: source_unit_id) (derive_attributes: "derive_attribute_facts list")
      (helper_candidates: "byte_range list")
  | CompleteDerive (derive_target: source_unit_id) (derive_attributes: "derive_attribute_facts list")
      (helper_candidates: "byte_range list") (derive_influences: "derive_requirement list")
      (derive_helpers: "derive_helper list")

section \<open>The inventory\<close>

text \<open>
  The compiler drops a byte order mark and turns each carriage return, line feed pair into a line
  feed.  A record says by how much the positions from \<open>normalized_at\<close> on are shifted.
\<close>

record normalization_record =
  normalized_at :: nat
  norm_diff :: nat

record original_offset_map =
  om_original_len :: nat
  om_normalized_len :: nat
  norm_records :: "normalization_record list"

record source_inventory =
  src_original :: bytes
  src_normalized :: bytes
  src_offsets :: original_offset_map
  src_units :: "written_unit list"
  src_pieces :: "owned_piece list"
  src_derive_targets :: "derive_target_facts list"
  src_macro_rules :: "macro_rule_facts list"
  src_macro_templates :: "macro_template_facts list"
  src_macro_capture_slots :: "macro_capture_slot list"
  src_macro_repetitions :: "macro_repetition list"
  src_ownerless_attributes :: "source_unit_id list"

datatype source_error =
    SourceTooLarge | NormalizationMismatch | InvalidSpan | InvalidInventory
  | IncompleteAttributeObservation | IncompleteDeriveObservation
  | IncompleteMacroRuleObservation | IncompleteDeclarativeMacroObservation
  | IncompleteProceduralMacroObservation

text \<open>Looking a unit up by its dense identifier, where the code also re-checks the identifier.\<close>

definition unit_at :: "written_unit list \<Rightarrow> source_unit_id \<Rightarrow> written_unit option" where
  "unit_at us i = (case get_at us i of None \<Rightarrow> None | Some u \<Rightarrow> if unit_id u = i then Some u else None)"

lemma unit_at_Some [simp]:
  "unit_at us i = Some u \<longleftrightarrow> i < length us \<and> u = us ! i \<and> unit_id (us ! i) = i"
  by (auto simp: unit_at_def split: option.splits)

end
