(* ===== verification/Demand.thy ===== *)
theory Demand
  imports Rid_Prelude
begin

text \<open>
  The contract of a demand closure.  Several phases of the retention computation keep a
  growing set and a monotone operator that says which further elements the present ones
  require; their work-list algorithms promise the least set that contains the seed and is
  closed under the operator.  The locale \<open>monotone_demand\<close> states the one law a client needs
  of the operator and proves the facts about that least set once: the introduction rules, the
  characterisation as the least closed superset, and the incremental laws (closing after
  adding more seeds is closing the union) that let a closure be resumed.
\<close>

definition demand_closed :: "('a set \<Rightarrow> 'a set) \<Rightarrow> 'a set \<Rightarrow> bool" where
  "demand_closed consequence X \<longleftrightarrow> consequence X \<subseteq> X"

definition demand_closure :: "('a set \<Rightarrow> 'a set) \<Rightarrow> 'a set \<Rightarrow> 'a set" where
  "demand_closure consequence R = \<Inter>{X. R \<subseteq> X \<and> demand_closed consequence X}"

locale monotone_demand =
  fixes consequence :: "'a set \<Rightarrow> 'a set"
  assumes consequence_mono: "X \<subseteq> Y \<Longrightarrow> consequence X \<subseteq> consequence Y"
begin

lemma seed_in_closure: "R \<subseteq> demand_closure consequence R"
  by (auto simp: demand_closure_def)

lemma closure_least:
  "R \<subseteq> X \<Longrightarrow> demand_closed consequence X \<Longrightarrow> demand_closure consequence R \<subseteq> X"
  by (auto simp: demand_closure_def)

lemma closure_closed: "demand_closed consequence (demand_closure consequence R)"
proof -
  have "consequence (demand_closure consequence R) \<subseteq> X"
    if "R \<subseteq> X" and "demand_closed consequence X" for X
  proof -
    from that have "demand_closure consequence R \<subseteq> X" by (rule closure_least)
    then have "consequence (demand_closure consequence R) \<subseteq> consequence X"
      by (rule consequence_mono)
    with that(2) show ?thesis by (auto simp: demand_closed_def)
  qed
  then show ?thesis unfolding demand_closed_def demand_closure_def by blast
qed

lemma consequence_in_closure:
  "X \<subseteq> demand_closure consequence R \<Longrightarrow> consequence X \<subseteq> demand_closure consequence R"
  using closure_closed [of R] consequence_mono [of X "demand_closure consequence R"]
  unfolding demand_closed_def by blast

lemma closure_unique:
  "R \<subseteq> X \<Longrightarrow> demand_closed consequence X \<Longrightarrow> X \<subseteq> demand_closure consequence R \<Longrightarrow>
   X = demand_closure consequence R"
  using closure_least [of R X] by blast

lemma closure_mono: "R \<subseteq> S \<Longrightarrow> demand_closure consequence R \<subseteq> demand_closure consequence S"
  by (rule closure_least) (use seed_in_closure [of S] closure_closed in auto)

lemma closure_idem: "demand_closure consequence (demand_closure consequence R) = demand_closure consequence R"
  using closure_least [OF subset_refl closure_closed [of R]] seed_in_closure by blast

text \<open>Resuming: seeds that arrive after a closure give the closure of all seeds.\<close>

lemma closure_resume:
  assumes "R \<subseteq> X" and "X \<subseteq> demand_closure consequence R"
  shows "demand_closure consequence (X \<union> S) = demand_closure consequence (R \<union> S)"
proof
  have "X \<union> S \<subseteq> demand_closure consequence (R \<union> S)"
    using assms(2) closure_mono [of R "R \<union> S"] seed_in_closure [of "R \<union> S"] by blast
  then show "demand_closure consequence (X \<union> S) \<subseteq> demand_closure consequence (R \<union> S)"
    by (rule closure_least) (rule closure_closed)
  show "demand_closure consequence (R \<union> S) \<subseteq> demand_closure consequence (X \<union> S)"
    by (rule closure_mono) (use assms(1) in blast)
qed

lemma closure_of_closed: "demand_closed consequence X \<Longrightarrow> demand_closure consequence X = X"
  using closure_least [of X X] seed_in_closure [of X] by blast

end

end
