(* ===== verification/Source_Closure.thy ===== *)
theory Source_Closure
  imports Source_Model Demand
begin

text \<open>
  The source-retention closure of \<open>src/retention/source_closure.rs\<close>: the immutable reverse
  index over atomic groups, directed requirements and joint requirements, and the stateful
  work list that closes a retained set under them.
\<close>

datatype retention_error =
    InvalidSource | InvalidGraph | InvalidConstraint | IncompleteMemberConstraints
  | IncompleteExternalCrateConstraints | IncompleteOpaqueSourceConstraints
  | IncompleteMacroProductConstraints | UnsupportedExternalNativeLink

record source_requirement =
  req_trigger :: source_unit_id
  req_required :: source_unit_id

record conditional_source_requirement =
  cond_left :: source_unit_id
  cond_right :: source_unit_id
  cond_required :: source_unit_id

text \<open>\<open>retain_source_unit\<close> of \<open>retention.rs\<close>: whether the unit was inserted, and the new sets.\<close>

definition retain_source_unit ::
  "source_unit_id set \<Rightarrow> source_unit_id list \<Rightarrow> source_unit_id
     \<Rightarrow> bool \<times> source_unit_id set \<times> source_unit_id list" where
  "retain_source_unit retained newly unit =
     (if unit \<in> retained then (False, retained, newly)
      else (True, insert unit retained, newly @ [unit]))"

section \<open>The index\<close>

record source_requirement_index =
  atomic_groups :: "source_unit_id list list"
  atomic_group_by_unit :: "nat list"
  by_trigger :: "source_unit_id list list"
  by_joint_trigger :: "(source_unit_id \<times> source_unit_id) list list"

text \<open>
  The code fills \<open>atomic_group_by_unit\<close> from a vector of \<open>usize::MAX\<close> sentinels; the sentinel
  is \<open>None\<close> here.
\<close>

definition assign_member :: "nat \<Rightarrow> source_unit_id \<Rightarrow> nat option list \<Rightarrow> retention_error + nat option list" where
  "assign_member grp member slots =
     (case get_at slots member of
        None \<Rightarrow> Inl InvalidConstraint
      | Some (Some _) \<Rightarrow> Inl InvalidConstraint
      | Some None \<Rightarrow> Inr (slots[member := Some grp]))"

fun assign_groups ::
  "nat \<Rightarrow> source_unit_id list list \<Rightarrow> nat option list \<Rightarrow> retention_error + nat option list" where
  "assign_groups grp [] slots = Inr slots"
| "assign_groups grp (members # rest) slots =
     (if members = [] then Inl InvalidConstraint
      else bind_result (fold_result (assign_member grp) members slots)
             (assign_groups (Suc grp) rest))"

definition push_requirement ::
  "nat \<Rightarrow> source_requirement \<Rightarrow> source_unit_id list list \<Rightarrow> retention_error + source_unit_id list list" where
  "push_requirement unit_count r table =
     (if unit_count \<le> req_trigger r \<or> unit_count \<le> req_required r then Inl InvalidConstraint
      else Inr (table[req_trigger r := table ! req_trigger r @ [req_required r]]))"

definition push_joint_requirement ::
  "nat \<Rightarrow> conditional_source_requirement \<Rightarrow> (source_unit_id \<times> source_unit_id) list list
     \<Rightarrow> retention_error + (source_unit_id \<times> source_unit_id) list list" where
  "push_joint_requirement unit_count r table =
     (if (\<exists>u \<in> set [cond_left r, cond_right r, cond_required r]. unit_count \<le> u)
      then Inl InvalidConstraint
      else let left = table[cond_left r := table ! cond_left r @ [(cond_right r, cond_required r)]]
           in Inr (left[cond_right r := left ! cond_right r @ [(cond_left r, cond_required r)]]))"

text \<open>\<open>sort_unstable\<close> followed by \<open>dedup\<close>.\<close>

definition sort_dedup :: "'a::linorder list \<Rightarrow> 'a list" where
  "sort_dedup xs = remdups_adj (sort xs)"

lemma set_sort_dedup [simp]: "set (sort_dedup xs) = set xs"
  by (simp add: sort_dedup_def)

definition source_requirement_index_new ::
  "nat \<Rightarrow> source_unit_id list list \<Rightarrow> source_requirement list \<Rightarrow> source_requirement list
     \<Rightarrow> source_requirement list \<Rightarrow> source_requirement list \<Rightarrow> conditional_source_requirement list
     \<Rightarrow> retention_error + source_requirement_index" where
  "source_requirement_index_new unit_count groups ancestors shells derives macros joints =
     bind_result (assign_groups 0 groups (replicate unit_count None)) (\<lambda>slots.
       if None \<in> set slots then Inl InvalidConstraint
       else
         bind_result (fold_result (push_requirement unit_count)
             (ancestors @ shells @ derives @ macros) (replicate unit_count [])) (\<lambda>triggers.
         bind_result (fold_result (push_joint_requirement unit_count) joints
             (replicate unit_count [])) (\<lambda>joint_table.
           Inr \<lparr>atomic_groups = groups,
                atomic_group_by_unit = map the slots,
                by_trigger = map sort_dedup triggers,
                by_joint_trigger = map sort_dedup joint_table\<rparr>)))"

section \<open>The closure\<close>

record source_closure =
  sc_initialized :: bool
  sc_seen :: "bool list"
  sc_pending :: "source_unit_id list"
  sc_opened_groups :: "bool list"

definition source_closure_new :: "source_requirement_index \<Rightarrow> source_closure" where
  "source_closure_new index =
     \<lparr>sc_initialized = False,
      sc_seen = replicate (length (atomic_group_by_unit index)) False,
      sc_pending = [],
      sc_opened_groups = replicate (length (atomic_groups index)) False\<rparr>"

definition source_closure_add_one :: "source_unit_id \<Rightarrow> source_closure \<Rightarrow> retention_error + source_closure" where
  "source_closure_add_one unit c =
     (case get_at (sc_seen c) unit of
        None \<Rightarrow> Inl InvalidConstraint
      | Some seen \<Rightarrow>
          if seen then Inr c
          else Inr (c\<lparr>sc_seen := (sc_seen c)[unit := True], sc_pending := sc_pending c @ [unit]\<rparr>))"

definition source_closure_add :: "source_unit_id list \<Rightarrow> source_closure \<Rightarrow> retention_error + source_closure" where
  "source_closure_add units c = fold_result source_closure_add_one units c"

text \<open>\<open>seed\<close> iterates a \<open>BTreeSet\<close>, that is, the retained units in increasing order.\<close>

definition source_closure_seed :: "source_unit_id set \<Rightarrow> source_closure \<Rightarrow> retention_error + source_closure" where
  "source_closure_seed retained c =
     (if sc_initialized c then Inl InvalidConstraint
      else source_closure_add (sorted_list_of_set retained) (c\<lparr>sc_initialized := True\<rparr>))"

type_synonym source_work = "source_closure \<times> source_unit_id set \<times> source_unit_id list"

definition demand_source_unit :: "source_unit_id \<Rightarrow> source_work \<Rightarrow> retention_error + source_work" where
  "demand_source_unit unit w =
     (case w of (c, retained, newly) \<Rightarrow>
        case retain_source_unit retained newly unit of (inserted, retained', newly') \<Rightarrow>
          if inserted
          then bind_result (source_closure_add [unit] c) (\<lambda>c'. Inr (c', retained', newly'))
          else Inr (c, retained', newly'))"

definition demand_joint_unit :: "source_unit_id \<times> source_unit_id \<Rightarrow> source_work \<Rightarrow> retention_error + source_work" where
  "demand_joint_unit p w =
     (case p of (other, required) \<Rightarrow>
        if other \<in> fst (snd w) then demand_source_unit required w else Inr w)"

definition consume_source_unit ::
  "source_requirement_index \<Rightarrow> source_unit_id \<Rightarrow> source_work \<Rightarrow> retention_error + source_work" where
  "consume_source_unit index unit w =
     (case w of (c, retained, newly) \<Rightarrow>
        if unit \<notin> retained then Inl InvalidConstraint
        else
          let grp = atomic_group_by_unit index ! unit in
          bind_result
            (if sc_opened_groups c ! grp then Inr w
             else fold_result demand_source_unit (atomic_groups index ! grp)
                    (c\<lparr>sc_opened_groups := (sc_opened_groups c)[grp := True]\<rparr>, retained, newly))
            (\<lambda>w'. bind_result (fold_result demand_source_unit (by_trigger index ! unit) w')
               (fold_result demand_joint_unit (by_joint_trigger index ! unit))))"

text \<open>The measure of the work list: what is queued, and what can still be queued once.\<close>

definition source_work_size :: "source_closure \<Rightarrow> nat" where
  "source_work_size c = length (sc_pending c) + unmarked (sc_seen c)"

lemma add_one_work_size:
  "source_closure_add_one u c = Inr c' \<Longrightarrow> source_work_size c' = source_work_size c"
  by (auto simp: source_closure_add_one_def source_work_size_def dest: unmarked_mark
      split: option.splits if_splits)

lemma demand_work_size:
  "demand_source_unit u w = Inr w' \<Longrightarrow> source_work_size (fst w') = source_work_size (fst w)"
  by (auto simp: demand_source_unit_def source_closure_add_def result_simps
      split: prod.splits if_splits dest: add_one_work_size)

lemma demand_joint_work_size:
  "demand_joint_unit p w = Inr w' \<Longrightarrow> source_work_size (fst w') = source_work_size (fst w)"
  by (auto simp: demand_joint_unit_def split: prod.splits if_splits dest: demand_work_size)

lemma fold_demand_work_size:
  "fold_result demand_source_unit us w = Inr w' \<Longrightarrow> source_work_size (fst w') = source_work_size (fst w)"
  by (erule fold_result_invariant [where P = "\<lambda>v. source_work_size (fst v) = source_work_size (fst w)"])
     (auto dest: demand_work_size)

lemma fold_joint_work_size:
  "fold_result demand_joint_unit ps w = Inr w' \<Longrightarrow> source_work_size (fst w') = source_work_size (fst w)"
  by (erule fold_result_invariant [where P = "\<lambda>v. source_work_size (fst v) = source_work_size (fst w)"])
     (auto dest: demand_joint_work_size)

lemma consume_work_size:
  "consume_source_unit index u w = Inr w' \<Longrightarrow> source_work_size (fst w') = source_work_size (fst w)"
  by (auto simp: consume_source_unit_def Let_def result_simps source_work_size_def
      split: prod.splits if_splits dest!: fold_demand_work_size fold_joint_work_size)

function source_closure_close ::
  "source_requirement_index \<Rightarrow> source_work \<Rightarrow> retention_error + source_work" where
  "source_closure_close index w =
     (case sc_pending (fst w) of
        [] \<Rightarrow> Inr w
      | unit # rest \<Rightarrow>
          bind_result (consume_source_unit index unit ((fst w)\<lparr>sc_pending := rest\<rparr>, snd w))
            (source_closure_close index))"
  by pat_completeness auto
termination
proof (relation "measure (\<lambda>(index, w). source_work_size (fst w))", goal_cases)
  case (2 index w unit rest w')
  then show ?case
    by (auto dest!: consume_work_size simp: source_work_size_def)
qed simp

declare source_closure_close.simps [simp del]

section \<open>What the index holds\<close>

text \<open>The one-step consequences of a retained set, in terms of the requirements themselves.\<close>

definition source_consequences ::
  "source_unit_id list list \<Rightarrow> source_requirement list \<Rightarrow> conditional_source_requirement list
     \<Rightarrow> source_unit_id set \<Rightarrow> source_unit_id set" where
  "source_consequences groups reqs joints X =
     \<Union> {set g | g. g \<in> set groups \<and> set g \<inter> X \<noteq> {}}
     \<union> req_required ` {r \<in> set reqs. req_trigger r \<in> X}
     \<union> cond_required ` {r \<in> set joints. cond_left r \<in> X \<and> cond_right r \<in> X}"

lemma source_consequences_mono:
  assumes "X \<subseteq> Y"
  shows "source_consequences groups reqs joints X \<subseteq> source_consequences groups reqs joints Y"
  unfolding source_consequences_def
proof (intro Un_mono image_mono)
  show "\<Union> {set g | g. g \<in> set groups \<and> set g \<inter> X \<noteq> {}} \<subseteq> \<Union> {set g | g. g \<in> set groups \<and> set g \<inter> Y \<noteq> {}}"
    using assms by (intro Union_mono) auto
qed (use assms in auto)

interpretation source_demand: monotone_demand "source_consequences groups reqs joints" for groups reqs joints
  by unfold_locales (rule source_consequences_mono)

lemma source_closedI:
  assumes "\<And>g u. g \<in> set groups \<Longrightarrow> u \<in> set g \<Longrightarrow> u \<in> X \<Longrightarrow> set g \<subseteq> X"
    and "\<And>r. r \<in> set reqs \<Longrightarrow> req_trigger r \<in> X \<Longrightarrow> req_required r \<in> X"
    and "\<And>r. r \<in> set joints \<Longrightarrow> cond_left r \<in> X \<Longrightarrow> cond_right r \<in> X \<Longrightarrow> cond_required r \<in> X"
  shows "demand_closed (source_consequences groups reqs joints) X"
  using assms unfolding demand_closed_def source_consequences_def by blast

lemma source_closedD:
  assumes "demand_closed (source_consequences groups reqs joints) X"
  shows "g \<in> set groups \<Longrightarrow> u \<in> set g \<Longrightarrow> u \<in> X \<Longrightarrow> set g \<subseteq> X"
    and "r \<in> set reqs \<Longrightarrow> req_trigger r \<in> X \<Longrightarrow> req_required r \<in> X"
    and "j \<in> set joints \<Longrightarrow> cond_left j \<in> X \<Longrightarrow> cond_right j \<in> X \<Longrightarrow> cond_required j \<in> X"
  using assms unfolding demand_closed_def source_consequences_def by blast+

definition index_represents ::
  "nat \<Rightarrow> source_unit_id list list \<Rightarrow> source_requirement list \<Rightarrow> conditional_source_requirement list
     \<Rightarrow> source_requirement_index \<Rightarrow> bool" where
  "index_represents n groups reqs joints index \<longleftrightarrow>
     atomic_groups index = groups
     \<and> length (atomic_group_by_unit index) = n
     \<and> (\<forall>u < n. atomic_group_by_unit index ! u < length groups
                 \<and> u \<in> set (groups ! (atomic_group_by_unit index ! u)))
     \<and> (\<forall>g < length groups. \<forall>u \<in> set (groups ! g). u < n \<and> atomic_group_by_unit index ! u = g)
     \<and> length (by_trigger index) = n
     \<and> (\<forall>r \<in> set reqs. req_trigger r < n \<and> req_required r < n)
     \<and> (\<forall>u < n. set (by_trigger index ! u) = req_required ` {r \<in> set reqs. req_trigger r = u})
     \<and> length (by_joint_trigger index) = n
     \<and> (\<forall>r \<in> set joints. cond_left r < n \<and> cond_right r < n \<and> cond_required r < n)
     \<and> (\<forall>u < n. set (by_joint_trigger index ! u)
           = (\<lambda>r. (cond_right r, cond_required r)) ` {r \<in> set joints. cond_left r = u}
             \<union> (\<lambda>r. (cond_left r, cond_required r)) ` {r \<in> set joints. cond_right r = u})"

lemma assign_members_spec:
  "fold_result (assign_member g) ms slots = Inr slots' \<Longrightarrow>
     length slots' = length slots
     \<and> (\<forall>m \<in> set ms. m < length slots \<and> slots ! m = None)
     \<and> (\<forall>i < length slots. slots' ! i = (if i \<in> set ms then Some g else slots ! i))"
proof (induction ms arbitrary: slots)
  case (Cons m ms)
  then obtain mid where mid: "assign_member g m slots = Inr mid"
    and rest: "fold_result (assign_member g) ms mid = Inr slots'"
    by (auto simp: result_simps)
  from mid have m: "m < length slots" "slots ! m = None" "mid = slots[m := Some g]"
    by (auto simp: assign_member_def split: option.splits)
  from Cons.IH [OF rest] m show ?case by (auto simp: nth_list_update split: if_splits)
qed simp

lemma assign_groups_spec:
  "assign_groups g gs slots = Inr slots' \<Longrightarrow>
     length slots' = length slots
     \<and> (\<forall>k < length gs. \<forall>m \<in> set (gs ! k). m < length slots \<and> slots' ! m = Some (g + k))
     \<and> (\<forall>i < length slots. slots' ! i = slots ! i \<or> (\<exists>k < length gs. i \<in> set (gs ! k)))
     \<and> (\<forall>i < length slots. slots ! i \<noteq> None \<longrightarrow> slots' ! i = slots ! i)"
proof (induction g gs slots rule: assign_groups.induct)
  case (2 g ms rest slots)
  from "2.prems" obtain mid where ms: "ms \<noteq> []" and mid: "fold_result (assign_member g) ms slots = Inr mid"
    and tail: "assign_groups (Suc g) rest mid = Inr slots'"
    by (auto simp: result_simps split: if_splits)
  note M = assign_members_spec [OF mid]
  note IH = "2.IH" [OF ms mid tail]
  show ?case
  proof (intro conjI allI impI ballI)
    show "length slots' = length slots" using M IH by simp
  next
    fix k m
    assume k: "k < length (ms # rest)" and m: "m \<in> set ((ms # rest) ! k)"
    show "m < length slots" using k m M IH by (cases k) auto
    show "slots' ! m = Some (g + k)" using k m M IH by (cases k) auto
  next
    fix i
    assume i: "i < length slots"
    from M IH i consider "slots' ! i = mid ! i" | k where "k < length rest" "i \<in> set (rest ! k)"
      by auto
    then show "slots' ! i = slots ! i \<or> (\<exists>k < length (ms # rest). i \<in> set ((ms # rest) ! k))"
    proof cases
      case 1
      with M i show ?thesis by (cases "i \<in> set ms") (auto intro: exI [of _ 0])
    next
      case (2 k)
      then show ?thesis by (intro disjI2 exI [of _ "Suc k"]) auto
    qed
  next
    fix i
    assume "i < length slots" "slots ! i \<noteq> None"
    with M have "i \<notin> set ms" "mid ! i = slots ! i" by auto
    with IH M \<open>i < length slots\<close> \<open>slots ! i \<noteq> None\<close> show "slots' ! i = slots ! i" by auto
  qed
qed simp

lemma push_requirements_spec:
  "fold_result (push_requirement n) rs table = Inr table' \<Longrightarrow> length table = n \<Longrightarrow>
     length table' = n
     \<and> (\<forall>r \<in> set rs. req_trigger r < n \<and> req_required r < n)
     \<and> (\<forall>u < n. set (table' ! u) = set (table ! u) \<union> req_required ` {r \<in> set rs. req_trigger r = u})"
proof (induction rs arbitrary: table)
  case (Cons r rs)
  then obtain mid where mid: "push_requirement n r table = Inr mid"
    and rest: "fold_result (push_requirement n) rs mid = Inr table'"
    by (auto simp: result_simps)
  from mid have m: "req_trigger r < n" "req_required r < n"
    "mid = table[req_trigger r := table ! req_trigger r @ [req_required r]]"
    by (auto simp: push_requirement_def split: if_splits)
  with Cons.prems have "length mid = n" by simp
  from Cons.IH [OF rest this] m Cons.prems(2) show ?case
    by (auto simp: nth_list_update split: if_splits)
qed simp

lemma push_joints_spec:
  "fold_result (push_joint_requirement n) rs table = Inr table' \<Longrightarrow> length table = n \<Longrightarrow>
     length table' = n
     \<and> (\<forall>r \<in> set rs. cond_left r < n \<and> cond_right r < n \<and> cond_required r < n)
     \<and> (\<forall>u < n. set (table' ! u) = set (table ! u)
          \<union> (\<lambda>r. (cond_right r, cond_required r)) ` {r \<in> set rs. cond_left r = u}
          \<union> (\<lambda>r. (cond_left r, cond_required r)) ` {r \<in> set rs. cond_right r = u})"
proof (induction rs arbitrary: table)
  case (Cons r rs)
  then obtain mid where mid: "push_joint_requirement n r table = Inr mid"
    and rest: "fold_result (push_joint_requirement n) rs mid = Inr table'"
    by (auto simp: result_simps)
  from mid have m: "cond_left r < n" "cond_right r < n" "cond_required r < n"
    and mid_def: "mid = (let left = table[cond_left r := table ! cond_left r @ [(cond_right r, cond_required r)]]
           in left[cond_right r := left ! cond_right r @ [(cond_left r, cond_required r)]])"
    by (auto simp: push_joint_requirement_def Let_def split: if_splits)
  from mid_def Cons.prems(2) have len: "length mid = n" by (simp add: Let_def)
  have step: "set (mid ! u) = set (table ! u)
       \<union> (if cond_left r = u then {(cond_right r, cond_required r)} else {})
       \<union> (if cond_right r = u then {(cond_left r, cond_required r)} else {})" if "u < n" for u
    using that m Cons.prems(2) unfolding mid_def Let_def
    by (cases "cond_left r = cond_right r") (auto simp: nth_list_update)
  note IH = Cons.IH [OF rest len]
  show ?case
  proof (intro conjI ballI allI impI)
    show "length table' = n" using IH by simp
  next
    fix q assume "q \<in> set (r # rs)"
    with IH m show "cond_left q < n" "cond_right q < n" "cond_required q < n" by auto
  next
    fix u assume "u < n"
    with IH step [OF this] show "set (table' ! u) = set (table ! u)
          \<union> (\<lambda>r. (cond_right r, cond_required r)) ` {ra \<in> set (r # rs). cond_left ra = u}
          \<union> (\<lambda>r. (cond_left r, cond_required r)) ` {ra \<in> set (r # rs). cond_right ra = u}"
      by (auto split: if_splits)
  qed
qed simp

lemma index_new_represents:
  assumes "source_requirement_index_new n groups ancestors shells derives macros joints = Inr index"
  shows "index_represents n groups (ancestors @ shells @ derives @ macros) joints index"
proof -
  let ?reqs = "ancestors @ shells @ derives @ macros"
  from assms obtain slots triggers joint_table
    where slots: "assign_groups 0 groups (replicate n None) = Inr slots"
      and full: "None \<notin> set slots"
      and trig: "fold_result (push_requirement n) ?reqs (replicate n []) = Inr triggers"
      and joint: "fold_result (push_joint_requirement n) joints (replicate n []) = Inr joint_table"
      and index: "index = \<lparr>atomic_groups = groups, atomic_group_by_unit = map the slots,
                    by_trigger = map sort_dedup triggers, by_joint_trigger = map sort_dedup joint_table\<rparr>"
    unfolding source_requirement_index_new_def
    by (auto simp: result_simps split: if_splits)
  note S = assign_groups_spec [OF slots, simplified]
  note T = push_requirements_spec [OF trig, simplified]
  note J = push_joints_spec [OF joint, simplified]
  have group_of: "\<exists>k < length groups. u \<in> set (groups ! k) \<and> slots ! u = Some k" if "u < n" for u
  proof -
    from that full S have "slots ! u \<noteq> None" by (metis nth_mem)
    with that S show ?thesis by auto
  qed
  have by_unit: "map the slots ! u = k" if "slots ! u = Some k" "u < n" for u k
    using that S by simp
  show ?thesis
    unfolding index_represents_def index source_requirement_index.simps
  proof (intro conjI allI impI ballI)
    fix u assume u: "u < n"
    from group_of [OF u] obtain k where k: "k < length groups" "u \<in> set (groups ! k)" "slots ! u = Some k"
      by blast
    with u by_unit show "map the slots ! u < length groups" "u \<in> set (groups ! (map the slots ! u))"
      by auto
    show "set (map sort_dedup triggers ! u) = req_required ` {r \<in> set ?reqs. req_trigger r = u}"
      using T u by simp
    show "set (map sort_dedup joint_table ! u) =
        (\<lambda>r. (cond_right r, cond_required r)) ` {r \<in> set joints. cond_left r = u}
        \<union> (\<lambda>r. (cond_left r, cond_required r)) ` {r \<in> set joints. cond_right r = u}"
      using J u by simp
  next
    fix g u assume "g < length groups" "u \<in> set (groups ! g)"
    with S by_unit show "u < n" "map the slots ! u = g" by auto
  qed (use S T J in auto)
qed

section \<open>The work-list invariant\<close>

definition seen_matches :: "nat \<Rightarrow> source_closure \<Rightarrow> source_unit_id set \<Rightarrow> bool" where
  "seen_matches n c R \<longleftrightarrow>
     length (sc_seen c) = n \<and> R \<subseteq> {..<n} \<and> (\<forall>u < n. sc_seen c ! u \<longleftrightarrow> u \<in> R)"

text \<open>
  One or more demands extend a work state: the units that are new to the retained set are
  queued once each, in the order in which they are reported as newly retained.
\<close>

definition work_extends :: "nat \<Rightarrow> source_work \<Rightarrow> source_work \<Rightarrow> bool" where
  "work_extends n w w' \<longleftrightarrow>
     (\<exists>ds. sc_pending (fst w') = sc_pending (fst w) @ ds
        \<and> snd (snd w') = snd (snd w) @ ds
        \<and> set ds = fst (snd w') - fst (snd w) \<and> distinct ds
        \<and> fst (snd w) \<subseteq> fst (snd w')
        \<and> sc_opened_groups (fst w') = sc_opened_groups (fst w)
        \<and> sc_initialized (fst w') = sc_initialized (fst w)
        \<and> seen_matches n (fst w') (fst (snd w')))"

lemma work_extends_refl: "seen_matches n (fst w) (fst (snd w)) \<Longrightarrow> work_extends n w w"
  by (simp add: work_extends_def)

lemma work_extends_seen: "work_extends n w w' \<Longrightarrow> seen_matches n (fst w') (fst (snd w'))"
  unfolding work_extends_def by blast

lemma work_extends_grows: "work_extends n w w' \<Longrightarrow> fst (snd w) \<subseteq> fst (snd w')"
  unfolding work_extends_def by blast

lemma work_extends_trans:
  assumes "work_extends n u v" and "work_extends n v w"
  shows "work_extends n u w"
proof -
  from assms(1) obtain ds where ds: "sc_pending (fst v) = sc_pending (fst u) @ ds"
    "snd (snd v) = snd (snd u) @ ds" "set ds = fst (snd v) - fst (snd u)" "distinct ds"
    "fst (snd u) \<subseteq> fst (snd v)" "sc_opened_groups (fst v) = sc_opened_groups (fst u)"
    "sc_initialized (fst v) = sc_initialized (fst u)"
    unfolding work_extends_def by blast
  from assms(2) obtain es where es: "sc_pending (fst w) = sc_pending (fst v) @ es"
    "snd (snd w) = snd (snd v) @ es" "set es = fst (snd w) - fst (snd v)" "distinct es"
    "fst (snd v) \<subseteq> fst (snd w)" "sc_opened_groups (fst w) = sc_opened_groups (fst v)"
    "sc_initialized (fst w) = sc_initialized (fst v)" "seen_matches n (fst w) (fst (snd w))"
    unfolding work_extends_def by blast
  from ds es show ?thesis
    unfolding work_extends_def by (intro exI [of _ "ds @ es"]) auto
qed

lemma demand_source_unit_extends:
  assumes "seen_matches n (fst w) (fst (snd w))" and "u < n"
  shows "\<exists>w'. demand_source_unit u w = Inr w' \<and> work_extends n w w'
           \<and> fst (snd w') = insert u (fst (snd w))"
proof -
  obtain c R newly where w: "w = (c, R, newly)" by (cases w)
  show ?thesis
  proof (cases "u \<in> R")
    case True
    with assms w show ?thesis
      by (auto simp: demand_source_unit_def retain_source_unit_def work_extends_refl insert_absorb)
  next
    case False
    with assms w show ?thesis
      by (auto simp: demand_source_unit_def retain_source_unit_def source_closure_add_def
          source_closure_add_one_def get_at_def seen_matches_def work_extends_def nth_list_update
          intro!: exI [of _ "[u]"])
  qed
qed

lemma demand_units_extend:
  assumes "seen_matches n (fst w) (fst (snd w))" and "set us \<subseteq> {..<n}"
  shows "\<exists>w'. fold_result demand_source_unit us w = Inr w' \<and> work_extends n w w'
           \<and> fst (snd w') = fst (snd w) \<union> set us"
  using assms
proof (induction us arbitrary: w)
  case Nil
  then show ?case by (auto intro: work_extends_refl)
next
  case (Cons u us)
  from demand_source_unit_extends [OF Cons.prems(1), of u] Cons.prems(2)
  obtain v where v: "demand_source_unit u w = Inr v" "work_extends n w v"
    "fst (snd v) = insert u (fst (snd w))" by auto
  from v(2) have "seen_matches n (fst v) (fst (snd v))" by (rule work_extends_seen)
  from Cons.IH [OF this] Cons.prems(2) obtain w' where
    "fold_result demand_source_unit us v = Inr w'" "work_extends n v w'"
    "fst (snd w') = fst (snd v) \<union> set us" by auto
  with v show ?case by (auto intro: work_extends_trans)
qed

lemma demand_joints_extend:
  assumes "seen_matches n (fst w) (fst (snd w))" and "snd ` set ps \<subseteq> {..<n}"
  shows "\<exists>w'. fold_result demand_joint_unit ps w = Inr w' \<and> work_extends n w w'
           \<and> (\<forall>(q, v) \<in> set ps. q \<in> fst (snd w) \<longrightarrow> v \<in> fst (snd w'))
           \<and> (\<forall>D. fst (snd w) \<subseteq> D \<longrightarrow> (\<forall>(q, v) \<in> set ps. q \<in> D \<longrightarrow> v \<in> D) \<longrightarrow> fst (snd w') \<subseteq> D)"
  using assms
proof (induction ps arbitrary: w)
  case Nil
  then show ?case by (auto intro: work_extends_refl)
next
  case (Cons p ps)
  obtain q v where p: "p = (q, v)" by (cases p)
  have "\<exists>w1. demand_joint_unit p w = Inr w1 \<and> work_extends n w w1
          \<and> fst (snd w1) = (if q \<in> fst (snd w) then insert v (fst (snd w)) else fst (snd w))"
  proof (cases "q \<in> fst (snd w)")
    case True
    with demand_source_unit_extends [OF Cons.prems(1), of v] Cons.prems(2) show ?thesis
      by (simp add: p demand_joint_unit_def)
  next
    case False
    with Cons.prems(1) show ?thesis
      by (intro exI [of _ w]) (simp add: p demand_joint_unit_def work_extends_refl)
  qed
  then obtain w1 where w1: "demand_joint_unit p w = Inr w1" "work_extends n w w1"
    "fst (snd w1) = (if q \<in> fst (snd w) then insert v (fst (snd w)) else fst (snd w))" by blast
  from w1(2) have "seen_matches n (fst w1) (fst (snd w1))" by (rule work_extends_seen)
  from Cons.IH [OF this] Cons.prems(2) obtain w' where w':
    "fold_result demand_joint_unit ps w1 = Inr w'" "work_extends n w1 w'"
    "\<forall>(q, v) \<in> set ps. q \<in> fst (snd w1) \<longrightarrow> v \<in> fst (snd w')"
    "\<forall>D. fst (snd w1) \<subseteq> D \<longrightarrow> (\<forall>(q, v) \<in> set ps. q \<in> D \<longrightarrow> v \<in> D) \<longrightarrow> fst (snd w') \<subseteq> D"
    by auto
  from w'(2) have grow: "fst (snd w1) \<subseteq> fst (snd w')" by (rule work_extends_grows)
  show ?case
  proof (intro exI [of _ w'] conjI allI impI)
    show "fold_result demand_joint_unit (p # ps) w = Inr w'" using w1(1) w'(1) by simp
    show "work_extends n w w'" using w1(2) w'(2) by (rule work_extends_trans)
    show "\<forall>(q, v) \<in> set (p # ps). q \<in> fst (snd w) \<longrightarrow> v \<in> fst (snd w')"
      using w1(3) w'(3) grow by (auto simp: p split: if_splits)
  next
    fix D
    assume "fst (snd w) \<subseteq> D" and "\<forall>(q, v) \<in> set (p # ps). q \<in> D \<longrightarrow> v \<in> D"
    with w1(3) p have "fst (snd w1) \<subseteq> D" by auto
    with w'(4) \<open>\<forall>(q, v) \<in> set (p # ps). q \<in> D \<longrightarrow> v \<in> D\<close> show "fst (snd w') \<subseteq> D" by auto
  qed
qed

lemma consume_source_unit_spec:
  assumes rep: "index_represents n groups reqs joints index"
    and seen: "seen_matches n c R" and u: "u \<in> R"
    and opened: "length (sc_opened_groups c) = length groups"
      "\<And>g. g < length groups \<Longrightarrow> sc_opened_groups c ! g \<Longrightarrow> set (groups ! g) \<subseteq> R"
  shows "\<exists>w'. consume_source_unit index u (c, R, newly) = Inr w'
     \<and> work_extends n (c\<lparr>sc_opened_groups := sc_opened_groups (fst w')\<rparr>, R, newly) w'
     \<and> sc_opened_groups (fst w') = (sc_opened_groups c)[atomic_group_by_unit index ! u := True]
     \<and> set (groups ! (atomic_group_by_unit index ! u)) \<subseteq> fst (snd w')
     \<and> set (by_trigger index ! u) \<subseteq> fst (snd w')
     \<and> (\<forall>(q, v) \<in> set (by_joint_trigger index ! u). q \<in> R \<longrightarrow> v \<in> fst (snd w'))
     \<and> (\<forall>D. R \<subseteq> D \<longrightarrow> demand_closed (source_consequences groups reqs joints) D \<longrightarrow> fst (snd w') \<subseteq> D)"
proof -
  let ?g = "atomic_group_by_unit index ! u"
  let ?opened = "(sc_opened_groups c)[?g := True]"
  let ?w0 = "(c\<lparr>sc_opened_groups := ?opened\<rparr>, R, newly)"
  from seen u have un: "u < n" by (auto simp: seen_matches_def)
  with rep have g: "?g < length groups" "u \<in> set (groups ! ?g)" "set (groups ! ?g) \<subseteq> {..<n}"
    and groups: "atomic_groups index = groups"
    and trig: "set (by_trigger index ! u) = req_required ` {r \<in> set reqs. req_trigger r = u}"
      "set (by_trigger index ! u) \<subseteq> {..<n}"
    and joint: "set (by_joint_trigger index ! u)
           = (\<lambda>r. (cond_right r, cond_required r)) ` {r \<in> set joints. cond_left r = u}
             \<union> (\<lambda>r. (cond_left r, cond_required r)) ` {r \<in> set joints. cond_right r = u}"
      "snd ` set (by_joint_trigger index ! u) \<subseteq> {..<n}"
    by (auto simp: index_represents_def)
  have seen0: "seen_matches n (fst ?w0) (fst (snd ?w0))" using seen by (simp add: seen_matches_def)
  have "\<exists>w1. (if sc_opened_groups c ! ?g then Inr (c, R, newly)
              else fold_result demand_source_unit (atomic_groups index ! ?g) ?w0) = Inr w1
          \<and> work_extends n ?w0 w1 \<and> fst (snd w1) = R \<union> set (groups ! ?g)"
  proof (cases "sc_opened_groups c ! ?g")
    case True
    with opened(1) g(1) have "?opened = sc_opened_groups c" by (simp add: list_update_same_conv)
    with True opened(2) [OF g(1)] seen show ?thesis by (auto intro: work_extends_refl)
  next
    case False
    with demand_units_extend [OF seen0 g(3)] show ?thesis by (simp add: groups)
  qed
  then obtain w1 where w1: "(if sc_opened_groups c ! ?g then Inr (c, R, newly)
              else fold_result demand_source_unit (atomic_groups index ! ?g) ?w0) = Inr w1"
    "work_extends n ?w0 w1" "fst (snd w1) = R \<union> set (groups ! ?g)" by blast
  from w1(2) have "seen_matches n (fst w1) (fst (snd w1))" by (rule work_extends_seen)
  from demand_units_extend [OF this trig(2)] obtain w2 where w2:
    "fold_result demand_source_unit (by_trigger index ! u) w1 = Inr w2" "work_extends n w1 w2"
    "fst (snd w2) = fst (snd w1) \<union> set (by_trigger index ! u)" by blast
  from w2(2) have "seen_matches n (fst w2) (fst (snd w2))" by (rule work_extends_seen)
  from demand_joints_extend [OF this joint(2)] obtain w3 where w3:
    "fold_result demand_joint_unit (by_joint_trigger index ! u) w2 = Inr w3" "work_extends n w2 w3"
    "\<forall>(q, v) \<in> set (by_joint_trigger index ! u). q \<in> fst (snd w2) \<longrightarrow> v \<in> fst (snd w3)"
    "\<forall>D. fst (snd w2) \<subseteq> D \<longrightarrow> (\<forall>(q, v) \<in> set (by_joint_trigger index ! u). q \<in> D \<longrightarrow> v \<in> D)
        \<longrightarrow> fst (snd w3) \<subseteq> D" by blast
  from w1(2) w2(2) w3(2) have ext: "work_extends n ?w0 w3"
    by (blast intro: work_extends_trans)
  have sub: "fst (snd w2) \<subseteq> fst (snd w3)" using w3(2) by (rule work_extends_grows)
  have least: "fst (snd w3) \<subseteq> D"
    if D: "R \<subseteq> D" "demand_closed (source_consequences groups reqs joints) D" for D
  proof -
    have uD: "u \<in> D" using u D(1) by blast
    have "set (groups ! ?g) \<subseteq> D"
      using source_closedD(1) [OF D(2) _ g(2) uD] g(1) by simp
    moreover have "set (by_trigger index ! u) \<subseteq> D"
      unfolding trig(1) using source_closedD(2) [OF D(2)] uD by auto
    ultimately have "fst (snd w2) \<subseteq> D" using D(1) w1(3) w2(3) by auto
    moreover have "\<forall>(q, v) \<in> set (by_joint_trigger index ! u). q \<in> D \<longrightarrow> v \<in> D"
      unfolding joint(1) using source_closedD(3) [OF D(2)] uD by auto
    ultimately show ?thesis using w3(4) by blast
  qed
  have "consume_source_unit index u (c, R, newly) = Inr w3"
    using u w1(1) w2(1) w3(1) by (simp add: consume_source_unit_def Let_def)
  moreover have opened3: "sc_opened_groups (fst w3) = ?opened"
    using ext unfolding work_extends_def by auto
  ultimately show ?thesis
    using ext least w1(3) w2(3) w3(3) sub by (intro exI [of _ w3]) (auto simp: opened3)
qed

text \<open>
  The invariant between two turns of the loop: the seen flags are the retained set, and every
  retained unit that is no longer queued has had its group, its directed requirements and its
  joint requirements with other such units honoured.
\<close>

definition work_invariant ::
  "nat \<Rightarrow> source_unit_id list list \<Rightarrow> source_requirement_index \<Rightarrow> source_closure
     \<Rightarrow> source_unit_id set \<Rightarrow> bool" where
  "work_invariant n groups index c R \<longleftrightarrow>
     seen_matches n c R
     \<and> length (sc_opened_groups c) = length groups
     \<and> (\<forall>g < length groups. sc_opened_groups c ! g \<longrightarrow> set (groups ! g) \<subseteq> R)
     \<and> set (sc_pending c) \<subseteq> R
     \<and> (\<forall>u \<in> R - set (sc_pending c).
          sc_opened_groups c ! (atomic_group_by_unit index ! u)
          \<and> set (by_trigger index ! u) \<subseteq> R
          \<and> (\<forall>(q, v) \<in> set (by_joint_trigger index ! u). q \<in> R - set (sc_pending c) \<longrightarrow> v \<in> R))"

lemma consume_keeps_invariant:
  assumes rep: "index_represents n groups reqs joints index"
    and inv: "work_invariant n groups index c R" and pending: "sc_pending c = u # rest"
  shows "\<exists>c' R' newly'. consume_source_unit index u (c\<lparr>sc_pending := rest\<rparr>, R, newly) = Inr (c', R', newly')
     \<and> work_invariant n groups index c' R' \<and> R \<subseteq> R'
     \<and> (\<forall>D. R \<subseteq> D \<longrightarrow> demand_closed (source_consequences groups reqs joints) D \<longrightarrow> R' \<subseteq> D)
     \<and> (\<exists>ds. newly' = newly @ ds \<and> set ds = R' - R \<and> distinct ds)"
proof -
  let ?c = "c\<lparr>sc_pending := rest\<rparr>"
  let ?g = "atomic_group_by_unit index ! u"
  from inv pending have u: "u \<in> R" by (auto simp: work_invariant_def)
  with inv have un: "u < n" by (auto simp: work_invariant_def seen_matches_def)
  have "seen_matches n ?c R" "length (sc_opened_groups ?c) = length groups"
    "\<And>g. g < length groups \<Longrightarrow> sc_opened_groups ?c ! g \<Longrightarrow> set (groups ! g) \<subseteq> R"
    using inv by (auto simp: work_invariant_def seen_matches_def)
  from consume_source_unit_spec [OF rep this(1) u this(2,3), of newly] obtain c' R' newly' where
    step: "consume_source_unit index u (?c, R, newly) = Inr (c', R', newly')"
    and ext: "work_extends n (?c\<lparr>sc_opened_groups := sc_opened_groups c'\<rparr>, R, newly) (c', R', newly')"
    and op: "sc_opened_groups c' = (sc_opened_groups c)[?g := True]"
    and members: "set (groups ! ?g) \<subseteq> R'" and trig: "set (by_trigger index ! u) \<subseteq> R'"
    and joint: "\<forall>(q, v) \<in> set (by_joint_trigger index ! u). q \<in> R \<longrightarrow> v \<in> R'"
    and least: "\<forall>D. R \<subseteq> D \<longrightarrow> demand_closed (source_consequences groups reqs joints) D \<longrightarrow> R' \<subseteq> D"
    by auto
  from ext obtain ds where ds: "sc_pending c' = rest @ ds" "newly' = newly @ ds" "set ds = R' - R"
    "distinct ds" "R \<subseteq> R'" "seen_matches n c' R'" by (auto simp: work_extends_def)
  from rep un have g: "?g < length groups" by (simp add: index_represents_def)
  have settled: "x = u \<or> x \<in> R - set (sc_pending c)" if "x \<in> R' - set (sc_pending c')" for x
    using that ds(1,3) pending by auto
  have sym: "(x, v) \<in> set (by_joint_trigger index ! u)"
    if "(u, v) \<in> set (by_joint_trigger index ! x)" "x < n" for x v
    using rep that un by (auto simp: index_represents_def)
  have "work_invariant n groups index c' R'"
    unfolding work_invariant_def
  proof (intro conjI allI impI ballI)
    show "seen_matches n c' R'" by (rule ds(6))
    show "length (sc_opened_groups c') = length groups" using inv op by (simp add: work_invariant_def)
    show "set (sc_pending c') \<subseteq> R'" using inv pending ds by (auto simp: work_invariant_def)
  next
    fix h assume "h < length groups" "sc_opened_groups c' ! h"
    then show "set (groups ! h) \<subseteq> R'"
      using members inv op ds(5) by (cases "h = ?g") (auto simp: work_invariant_def)
  next
    fix x assume x: "x \<in> R' - set (sc_pending c')"
    from settled [OF x] show "sc_opened_groups c' ! (atomic_group_by_unit index ! x)"
      using inv op g by (auto simp: work_invariant_def nth_list_update)
    from settled [OF x] show "set (by_trigger index ! x) \<subseteq> R'"
    proof
      assume "x \<in> R - set (sc_pending c)"
      with inv have "set (by_trigger index ! x) \<subseteq> R" by (simp add: work_invariant_def)
      with ds(5) show ?thesis by blast
    qed (use trig in simp)
  next
    fix x p assume x: "x \<in> R' - set (sc_pending c')" and p: "p \<in> set (by_joint_trigger index ! x)"
    obtain q v where qv: "p = (q, v)" by (cases p)
    have xn: "x < n" using ds(6) x by (auto simp: seen_matches_def)
    show "case p of (q, v) \<Rightarrow> q \<in> R' - set (sc_pending c') \<longrightarrow> v \<in> R'"
    proof (clarsimp simp: qv)
      assume "q \<in> R'" "q \<notin> set (sc_pending c')"
      then have q: "q = u \<or> q \<in> R - set (sc_pending c)" using settled by blast
      from settled [OF x] show "v \<in> R'"
      proof
        assume "x = u"
        with q u p qv joint show ?thesis by auto
      next
        assume xr: "x \<in> R - set (sc_pending c)"
        from q show ?thesis
        proof
          assume "q = u"
          with sym [of v x] p qv xn xr joint show ?thesis by auto
        next
          assume "q \<in> R - set (sc_pending c)"
          with inv xr p qv have "v \<in> R" by (fastforce simp: work_invariant_def)
          with ds(5) show ?thesis by blast
        qed
      qed
    qed
  qed
  with step least ds show ?thesis by auto
qed

lemma finished_work_closed:
  assumes rep: "index_represents n groups reqs joints index"
    and inv: "work_invariant n groups index c R" and "sc_pending c = []"
  shows "demand_closed (source_consequences groups reqs joints) R"
proof (rule source_closedI)
  fix g u assume g: "g \<in> set groups" "u \<in> set g" and u: "u \<in> R"
  from g obtain k where k: "k < length groups" "groups ! k = g" by (auto simp: in_set_conv_nth)
  with rep g have "atomic_group_by_unit index ! u = k" by (auto simp: index_represents_def)
  with inv u k assms(3) show "set g \<subseteq> R" by (auto simp: work_invariant_def)
next
  fix r assume r: "r \<in> set reqs" and t: "req_trigger r \<in> R"
  then have "req_required r \<in> set (by_trigger index ! req_trigger r)"
    using rep by (auto simp: index_represents_def)
  with inv t assms(3) show "req_required r \<in> R" by (auto simp: work_invariant_def)
next
  fix r assume r: "r \<in> set joints" and lr: "cond_left r \<in> R" "cond_right r \<in> R"
  then have "(cond_right r, cond_required r) \<in> set (by_joint_trigger index ! cond_left r)"
    using rep by (auto simp: index_represents_def)
  with inv lr assms(3) show "cond_required r \<in> R" by (fastforce simp: work_invariant_def)
qed

lemma source_closure_close_loop:
  assumes rep: "index_represents n groups reqs joints index"
    and inv: "work_invariant n groups index c R"
  shows "\<exists>c' R' newly'. source_closure_close index (c, R, newly) = Inr (c', R', newly')
     \<and> work_invariant n groups index c' R' \<and> sc_pending c' = [] \<and> R \<subseteq> R'
     \<and> (\<forall>D. R \<subseteq> D \<longrightarrow> demand_closed (source_consequences groups reqs joints) D \<longrightarrow> R' \<subseteq> D)
     \<and> (\<exists>ds. newly' = newly @ ds \<and> set ds = R' - R \<and> distinct ds)"
  using inv
proof (induction "source_work_size c" arbitrary: c R newly rule: less_induct)
  case less
  show ?case
  proof (cases "sc_pending c")
    case Nil
    with less.prems show ?thesis by (auto simp: source_closure_close.simps)
  next
    case (Cons u rest)
    from consume_keeps_invariant [OF rep less.prems Cons, of newly] obtain c1 R1 newly1 ds where
      step: "consume_source_unit index u (c\<lparr>sc_pending := rest\<rparr>, R, newly) = Inr (c1, R1, newly1)"
      and inv1: "work_invariant n groups index c1 R1" and R1: "R \<subseteq> R1"
      and least1: "\<forall>D. R \<subseteq> D \<longrightarrow> demand_closed (source_consequences groups reqs joints) D \<longrightarrow> R1 \<subseteq> D"
      and ds: "newly1 = newly @ ds" "set ds = R1 - R" "distinct ds"
      by (elim exE conjE) (rule that, assumption+)
    from consume_work_size [OF step] Cons have "source_work_size c1 < source_work_size c"
      by (simp add: source_work_size_def)
    from less.hyps [OF this inv1, of newly1] obtain c2 R2 newly2 es where
      rest2: "source_closure_close index (c1, R1, newly1) = Inr (c2, R2, newly2)"
      and inv2: "work_invariant n groups index c2 R2" "sc_pending c2 = []" and R2: "R1 \<subseteq> R2"
      and least2: "\<forall>D. R1 \<subseteq> D \<longrightarrow> demand_closed (source_consequences groups reqs joints) D \<longrightarrow> R2 \<subseteq> D"
      and es: "newly2 = newly1 @ es" "set es = R2 - R1" "distinct es"
      by (elim exE conjE) (rule that, assumption+)
    have "source_closure_close index (c, R, newly) = Inr (c2, R2, newly2)"
      using Cons step rest2 by (subst source_closure_close.simps) simp
    moreover have "\<exists>fs. newly2 = newly @ fs \<and> set fs = R2 - R \<and> distinct fs"
      using ds es R1 R2 by (intro exI [of _ "ds @ es"]) auto
    moreover have "R2 \<subseteq> D" if "R \<subseteq> D" "demand_closed (source_consequences groups reqs joints) D" for D
      using least2 least1 that by simp
    moreover have "R \<subseteq> R2" using R1 R2 by (rule subset_trans)
    ultimately show ?thesis
      using inv2 by (rule_tac x = c2 in exI, rule_tac x = R2 in exI, rule_tac x = newly2 in exI) simp
  qed
qed

lemma source_closure_add_spec:
  assumes "work_invariant n groups index c R" and "set us \<subseteq> {..<n}"
  shows "\<exists>c'. source_closure_add us c = Inr c' \<and> work_invariant n groups index c' (R \<union> set us)
           \<and> sc_initialized c' = sc_initialized c"
  using assms
proof (induction us arbitrary: c R)
  case Nil
  then show ?case by (auto simp: source_closure_add_def)
next
  case (Cons u us)
  have "\<exists>c1. source_closure_add_one u c = Inr c1 \<and> work_invariant n groups index c1 (insert u R)
          \<and> sc_initialized c1 = sc_initialized c"
  proof (cases "u \<in> R")
    case True
    with Cons.prems show ?thesis
      by (auto simp: source_closure_add_one_def get_at_def work_invariant_def seen_matches_def insert_absorb)
  next
    case False
    with Cons.prems have "u < n" "\<not> sc_seen c ! u" "length (sc_seen c) = n"
      by (auto simp: work_invariant_def seen_matches_def)
    moreover have "R - insert u (set (sc_pending c)) = R - set (sc_pending c)" using False by blast
    ultimately show ?thesis using Cons.prems(1) False
      by (auto simp: source_closure_add_one_def get_at_def work_invariant_def seen_matches_def
          nth_list_update insert_Diff_if)
  qed
  then obtain c1 where c1: "source_closure_add_one u c = Inr c1"
    "work_invariant n groups index c1 (insert u R)" "sc_initialized c1 = sc_initialized c" by blast
  from Cons.IH [OF c1(2)] Cons.prems(2) c1 show ?case
    by (auto simp: source_closure_add_def)
qed

lemma source_closure_new_invariant:
  assumes "index_represents n groups reqs joints index"
  shows "work_invariant n groups index (source_closure_new index) {}"
  using assms by (auto simp: source_closure_new_def work_invariant_def seen_matches_def index_represents_def)

section \<open>When the index is accepted\<close>

lemma assign_members_ok:
  "(\<exists>slots'. fold_result (assign_member g) ms slots = Inr slots') \<longleftrightarrow>
     distinct ms \<and> (\<forall>m \<in> set ms. m < length slots \<and> slots ! m = None)"
proof (induction ms arbitrary: slots)
  case (Cons m ms)
  show ?case
  proof (cases "m < length slots \<and> slots ! m = None")
    case True
    then have "assign_member g m slots = Inr (slots[m := Some g])"
      by (simp add: assign_member_def get_at_def)
    moreover have "(\<forall>k \<in> set ms. k < length slots \<and> slots[m := Some g] ! k = None) \<longleftrightarrow>
        m \<notin> set ms \<and> (\<forall>k \<in> set ms. k < length slots \<and> slots ! k = None)"
      using True by (auto simp: nth_list_update)
    ultimately show ?thesis using Cons.IH [of "slots[m := Some g]"] True by auto
  next
    case False
    then have "assign_member g m slots = Inl InvalidConstraint"
      by (auto simp: assign_member_def get_at_def split: option.splits)
    with False show ?thesis by auto
  qed
qed simp

lemma assign_groups_ok:
  "(\<exists>slots'. assign_groups g gs slots = Inr slots') \<longleftrightarrow>
     [] \<notin> set gs \<and> distinct (concat gs) \<and> (\<forall>m \<in> set (concat gs). m < length slots \<and> slots ! m = None)"
proof (induction g gs slots rule: assign_groups.induct)
  case (2 g ms rest slots)
  show ?case
  proof (cases "\<exists>mid. fold_result (assign_member g) ms slots = Inr mid")
    case True
    then obtain mid where mid: "fold_result (assign_member g) ms slots = Inr mid" by blast
    note M = assign_members_spec [OF mid]
    from True have ok: "distinct ms" "\<forall>m \<in> set ms. m < length slots \<and> slots ! m = None"
      by (simp_all add: assign_members_ok)
    show ?thesis
    proof (cases "ms = []")
      case False
      have "(\<forall>m \<in> set (concat rest). m < length mid \<and> mid ! m = None) \<longleftrightarrow>
          set ms \<inter> set (concat rest) = {} \<and> (\<forall>m \<in> set (concat rest). m < length slots \<and> slots ! m = None)"
      proof -
        have "m < length mid \<and> mid ! m = None \<longleftrightarrow> m \<notin> set ms \<and> m < length slots \<and> slots ! m = None" for m
          using M by (cases "m < length slots"; cases "m \<in> set ms") auto
        then show ?thesis by blast
      qed
      moreover have "(\<exists>slots'. assign_groups g (ms # rest) slots = Inr slots') \<longleftrightarrow>
          (\<exists>slots'. assign_groups (Suc g) rest mid = Inr slots')"
        using False mid by simp
      ultimately have "(\<exists>slots'. assign_groups g (ms # rest) slots = Inr slots') \<longleftrightarrow>
          [] \<notin> set rest \<and> distinct (concat rest) \<and> set ms \<inter> set (concat rest) = {}
          \<and> (\<forall>m \<in> set (concat rest). m < length slots \<and> slots ! m = None)"
        using "2.IH" [OF False mid] by simp
      moreover have "[] \<notin> set (ms # rest) \<and> distinct (concat (ms # rest))
          \<and> (\<forall>m \<in> set (concat (ms # rest)). m < length slots \<and> slots ! m = None) \<longleftrightarrow>
          [] \<notin> set rest \<and> distinct (concat rest) \<and> set ms \<inter> set (concat rest) = {}
          \<and> (\<forall>m \<in> set (concat rest). m < length slots \<and> slots ! m = None)"
        using False ok unfolding concat.simps set_append distinct_append ball_Un by simp
      ultimately show ?thesis by (simp only:)
    qed simp
  next
    case False
    then have "\<not> (\<exists>slots'. assign_groups g (ms # rest) slots = Inr slots')"
      by (auto simp: result_simps split: if_splits)
    moreover from False have "\<not> (distinct ms \<and> (\<forall>m \<in> set ms. m < length slots \<and> slots ! m = None))"
      by (simp add: assign_members_ok)
    ultimately show ?thesis by auto
  qed
qed simp

lemma push_requirements_ok:
  "length table = n \<Longrightarrow> (\<exists>t. fold_result (push_requirement n) rs table = Inr t) \<longleftrightarrow>
     (\<forall>r \<in> set rs. req_trigger r < n \<and> req_required r < n)"
proof (induction rs arbitrary: table)
  case (Cons r rs)
  then show ?case
    by (auto simp: push_requirement_def not_le)
qed simp

lemma push_joints_ok:
  "length table = n \<Longrightarrow> (\<exists>t. fold_result (push_joint_requirement n) rs table = Inr t) \<longleftrightarrow>
     (\<forall>r \<in> set rs. cond_left r < n \<and> cond_right r < n \<and> cond_required r < n)"
proof (induction rs arbitrary: table)
  case (Cons r rs)
  then show ?case
    by (auto simp: push_joint_requirement_def Let_def not_le)
qed simp

section \<open>Properties\<close>

text \<open>
  The way \<open>compute_retention\<close> drives the closure: each batch of units it has itself added to
  the retained set is announced with \<open>add\<close> and the work list is closed again.
\<close>

fun source_closure_session ::
  "source_requirement_index \<Rightarrow> source_unit_id list list \<Rightarrow> source_work \<Rightarrow> retention_error + source_work" where
  "source_closure_session index [] w = Inr w"
| "source_closure_session index (batch # batches) (c, retained, newly) =
     bind_result (source_closure_add batch c) (\<lambda>c'.
       bind_result (source_closure_close index (c', retained \<union> set batch, newly))
         (source_closure_session index batches))"

lemma source_closure_session_spec:
  assumes rep: "index_represents n groups reqs joints index"
    and inv: "work_invariant n groups index c R" "sc_pending c = []"
    and batches: "\<forall>b \<in> set batches. set b \<subseteq> {..<n}"
  shows "\<exists>c' newly'. source_closure_session index batches (c, R, newly)
           = Inr (c', demand_closure (source_consequences groups reqs joints) (R \<union> set (concat batches)), newly')
           \<and> sc_pending c' = []"
  using inv batches
proof (induction batches arbitrary: c R newly)
  case Nil
  from finished_work_closed [OF rep Nil.prems(1,2)] Nil.prems show ?case
    by (simp add: source_demand.closure_of_closed)
next
  case (Cons b bs)
  let ?C = "demand_closure (source_consequences groups reqs joints)"
  from source_closure_add_spec [OF Cons.prems(1), of b] Cons.prems(3) obtain c1 where
    c1: "source_closure_add b c = Inr c1" "work_invariant n groups index c1 (R \<union> set b)" by auto
  from source_closure_close_loop [OF rep c1(2), of newly] obtain c2 R2 newly2 where
    c2: "source_closure_close index (c1, R \<union> set b, newly) = Inr (c2, R2, newly2)"
      "work_invariant n groups index c2 R2" "sc_pending c2 = []" "R \<union> set b \<subseteq> R2"
    and least: "\<forall>D. R \<union> set b \<subseteq> D \<longrightarrow> demand_closed (source_consequences groups reqs joints) D \<longrightarrow> R2 \<subseteq> D"
    by (elim exE conjE) (rule that, assumption+)
  have R2: "R2 = ?C (R \<union> set b)"
    by (rule source_demand.closure_unique [OF c2(4) finished_work_closed [OF rep c2(2,3)]])
      (rule least [rule_format, OF source_demand.seed_in_closure source_demand.closure_closed])
  from Cons.IH [OF c2(2,3), of newly2] Cons.prems(3) obtain c3 newly3 where
    c3: "source_closure_session index bs (c2, R2, newly2) = Inr (c3, ?C (R2 \<union> set (concat bs)), newly3)"
      "sc_pending c3 = []" by auto
  have "?C (R2 \<union> set (concat bs)) = ?C (R \<union> set b \<union> set (concat bs))"
    unfolding R2
    by (rule source_demand.closure_resume [OF source_demand.seed_in_closure subset_refl])
  with c1 c2 c3 show ?case by (simp add: Un_assoc)
qed

lemma seed_close_spec:
  assumes rep: "index_represents n groups reqs joints index" and R: "R \<subseteq> {..<n}"
  shows "\<exists>c c' newly. source_closure_seed R (source_closure_new index) = Inr c
     \<and> source_closure_close index (c, R, [])
         = Inr (c', demand_closure (source_consequences groups reqs joints) R, newly)
     \<and> work_invariant n groups index c' (demand_closure (source_consequences groups reqs joints) R)
     \<and> sc_pending c' = []
     \<and> set newly = demand_closure (source_consequences groups reqs joints) R - R \<and> distinct newly"
proof -
  let ?C = "demand_closure (source_consequences groups reqs joints) R"
  have fin: "finite R" using R by (rule finite_subset) simp
  have "work_invariant n groups index ((source_closure_new index)\<lparr>sc_initialized := True\<rparr>) {}"
    using source_closure_new_invariant [OF rep] by (simp add: work_invariant_def seen_matches_def)
  from source_closure_add_spec [OF this, of "sorted_list_of_set R"] R fin obtain c where
    c: "source_closure_add (sorted_list_of_set R) ((source_closure_new index)\<lparr>sc_initialized := True\<rparr>) = Inr c"
      "work_invariant n groups index c R" by auto
  from c(1) have seed: "source_closure_seed R (source_closure_new index) = Inr c"
    by (simp add: source_closure_seed_def source_closure_new_def)
  from source_closure_close_loop [OF rep c(2), of "[]"] obtain c' R' newly where
    close: "source_closure_close index (c, R, []) = Inr (c', R', newly)"
      "work_invariant n groups index c' R'" "sc_pending c' = []" "R \<subseteq> R'"
    and least: "\<And>D. R \<subseteq> D \<Longrightarrow> demand_closed (source_consequences groups reqs joints) D \<Longrightarrow> R' \<subseteq> D"
    and newly: "set newly = R' - R" "distinct newly" by auto
  have "R' = ?C"
    using source_demand.closure_unique [OF close(4) finished_work_closed [OF rep close(2,3)]]
      least [OF source_demand.seed_in_closure source_demand.closure_closed] .
  with seed close newly show ?thesis by blast
qed

text \<open>
  C2. On an index the code accepted, seeding the closure with any retained set of the inventory
  and closing it always succeeds and leaves exactly the least set that contains the seed and is
  closed under the atomic groups, the directed requirements and the joint requirements; the
  units reported as newly retained are the added ones, each once.
\<close>

theorem source_closure_is_least_fixed_point:
  assumes "source_requirement_index_new n groups ancestors shells derives macros joints = Inr index"
    and "R \<subseteq> {..<n}"
  shows "\<exists>c c' newly. source_closure_seed R (source_closure_new index) = Inr c
     \<and> source_closure_close index (c, R, [])
         = Inr (c', demand_closure
               (source_consequences groups (ancestors @ shells @ derives @ macros) joints) R, newly)
     \<and> set newly = demand_closure
               (source_consequences groups (ancestors @ shells @ derives @ macros) joints) R - R
     \<and> distinct newly"
  using seed_close_spec [OF index_new_represents [OF assms(1)] assms(2)] by blast

text \<open>
  C7. Closing incrementally loses nothing: after a seed and any sequence of later batches, each
  announced with \<open>add\<close> and closed, the retained set is the least closed set over the seed and
  all the batches together, whatever the batching.
\<close>

theorem source_closure_incremental:
  assumes "source_requirement_index_new n groups ancestors shells derives macros joints = Inr index"
    and "R \<subseteq> {..<n}" and "\<forall>b \<in> set batches. set b \<subseteq> {..<n}"
  shows "\<exists>c w c' newly. source_closure_seed R (source_closure_new index) = Inr c
     \<and> source_closure_close index (c, R, []) = Inr w
     \<and> source_closure_session index batches w
         = Inr (c', demand_closure
               (source_consequences groups (ancestors @ shells @ derives @ macros) joints)
               (R \<union> set (concat batches)), newly)"
proof -
  let ?f = "source_consequences groups (ancestors @ shells @ derives @ macros) joints"
  note rep = index_new_represents [OF assms(1)]
  from seed_close_spec [OF rep assms(2)] obtain c c1 newly where
    c: "source_closure_seed R (source_closure_new index) = Inr c"
      "source_closure_close index (c, R, []) = Inr (c1, demand_closure ?f R, newly)"
      "work_invariant n groups index c1 (demand_closure ?f R)" "sc_pending c1 = []" by blast
  from source_closure_session_spec [OF rep c(3,4) assms(3), of newly] obtain c' newly' where
    s: "source_closure_session index batches (c1, demand_closure ?f R, newly)
      = Inr (c', demand_closure ?f (demand_closure ?f R \<union> set (concat batches)), newly')" by blast
  have "demand_closure ?f (demand_closure ?f R \<union> set (concat batches)) = demand_closure ?f (R \<union> set (concat batches))"
    by (rule source_demand.closure_resume [OF source_demand.seed_in_closure subset_refl])
  with c s show ?thesis by auto
qed

text \<open>A witness inventory: three units in groups of their own, one ancestor, one joint requirement.\<close>

definition sample_closure_index :: source_requirement_index where
  "sample_closure_index =
     \<lparr>atomic_groups = [[0], [1], [2]], atomic_group_by_unit = [0, 1, 2],
      by_trigger = [[], [0], []], by_joint_trigger = [[(1, 2)], [(0, 2)], []]\<rparr>"

lemma sample_closure_index_new:
  "source_requirement_index_new 3 [[0], [1], [2]] [\<lparr>req_trigger = 1, req_required = 0\<rparr>] [] [] []
     [\<lparr>cond_left = 0, cond_right = 1, cond_required = 2\<rparr>] = Inr sample_closure_index"
  by code_simp

theorem source_closure_is_least_fixed_point_witness:
  "\<exists>c c' newly. source_closure_seed {1} (source_closure_new sample_closure_index) = Inr c
     \<and> source_closure_close sample_closure_index (c, {1}, []) = Inr (c', demand_closure
          (source_consequences [[0], [1], [2]] [\<lparr>req_trigger = 1, req_required = 0\<rparr>]
            [\<lparr>cond_left = 0, cond_right = 1, cond_required = 2\<rparr>]) {1}, newly)"
  using source_closure_is_least_fixed_point [OF sample_closure_index_new, of "{1}"] by auto

theorem source_closure_incremental_witness:
  "\<exists>c w c' newly. source_closure_seed {0} (source_closure_new sample_closure_index) = Inr c
     \<and> source_closure_close sample_closure_index (c, {0}, []) = Inr w
     \<and> source_closure_session sample_closure_index [[1]] w = Inr (c', demand_closure
          (source_consequences [[0], [1], [2]] [\<lparr>req_trigger = 1, req_required = 0\<rparr>]
            [\<lparr>cond_left = 0, cond_right = 1, cond_required = 2\<rparr>]) {0, 1}, newly)"
  using source_closure_incremental [OF sample_closure_index_new, of "{0}" "[[1]]"]
  by (simp add: insert_commute)

text \<open>
  The index is accepted exactly when the atomic groups are a partition of the inventory's
  units into nonempty groups and every requirement names units of the inventory.
\<close>

theorem source_requirement_index_accepts:
  "(\<exists>index. source_requirement_index_new n groups ancestors shells derives macros joints = Inr index) \<longleftrightarrow>
     [] \<notin> set groups \<and> distinct (concat groups) \<and> set (concat groups) = {..<n}
     \<and> list_all (\<lambda>r. req_trigger r < n \<and> req_required r < n) (ancestors @ shells @ derives @ macros)
     \<and> list_all (\<lambda>r. cond_left r < n \<and> cond_right r < n \<and> cond_required r < n) joints"
proof -
  have cover: "None \<notin> set slots \<longleftrightarrow> set (concat groups) = {..<n}"
    if slots: "assign_groups 0 groups (replicate n None) = Inr slots" for slots
  proof -
    note S = assign_groups_spec [OF slots, simplified]
    have mem: "m < n \<and> slots ! m \<noteq> None" if m: "m \<in> set (concat groups)" for m
    proof -
      from m obtain g where "g \<in> set groups" "m \<in> set g" by auto
      then obtain k where "k < length groups" "m \<in> set (groups ! k)" by (auto simp: in_set_conv_nth)
      with S show ?thesis by auto
    qed
    have covered: "m \<in> set (concat groups)" if "m < n" "slots ! m \<noteq> None" for m
    proof -
      from that S have "\<exists>k < length groups. m \<in> set (groups ! k)" by auto
      then show ?thesis by auto
    qed
    from S have "None \<notin> set slots \<longleftrightarrow> (\<forall>m < n. slots ! m \<noteq> None)" by (auto simp: in_set_conv_nth)
    then show ?thesis using mem covered by blast
  qed
  have groups_ok: "(\<exists>slots. assign_groups 0 groups (replicate n None) = Inr slots) \<longleftrightarrow>
      [] \<notin> set groups \<and> distinct (concat groups) \<and> set (concat groups) \<subseteq> {..<n}"
    by (auto simp: assign_groups_ok)
  have reqs_ok: "(\<exists>t. fold_result (push_requirement n) rs (replicate n []) = Inr t) \<longleftrightarrow>
     (\<forall>r \<in> set rs. req_trigger r < n \<and> req_required r < n)" for rs
    by (rule push_requirements_ok) simp
  have joints_ok: "(\<exists>t. fold_result (push_joint_requirement n) joints (replicate n []) = Inr t) \<longleftrightarrow>
     (\<forall>r \<in> set joints. cond_left r < n \<and> cond_right r < n \<and> cond_required r < n)"
    by (rule push_joints_ok) simp
  have "(\<exists>index. source_requirement_index_new n groups ancestors shells derives macros joints = Inr index) \<longleftrightarrow>
     (\<exists>slots. assign_groups 0 groups (replicate n None) = Inr slots \<and> None \<notin> set slots)
     \<and> (\<exists>t. fold_result (push_requirement n) (ancestors @ shells @ derives @ macros) (replicate n []) = Inr t)
     \<and> (\<exists>t. fold_result (push_joint_requirement n) joints (replicate n []) = Inr t)"
    unfolding source_requirement_index_new_def by (auto simp: result_simps split: if_splits)
  also have "(\<exists>slots. assign_groups 0 groups (replicate n None) = Inr slots \<and> None \<notin> set slots) \<longleftrightarrow>
     (\<exists>slots. assign_groups 0 groups (replicate n None) = Inr slots) \<and> set (concat groups) = {..<n}"
    using cover by metis
  also have "\<dots> \<longleftrightarrow> [] \<notin> set groups \<and> distinct (concat groups) \<and> set (concat groups) = {..<n}"
    unfolding groups_ok by (metis order_refl)
  finally show ?thesis unfolding reqs_ok joints_ok list_all_iff by (simp only: conj_assoc)
qed

end
