(* ===== verification/Splice.thy ===== *)
theory Splice
  imports Source_Model
begin

text \<open>
  The output side of \<open>src/rewrite.rs\<close>: merging the sorted deletion ranges, splicing the kept
  bytes together, the piece map that a rewrite carries, and the translation of output offsets
  and ranges back to the original source.
\<close>

datatype source_rewrite_error =
    RewriteInvalidInventory | RewriteInvalidRetention | RewriteInvalidUseTree

record source_piece =
  output_range :: byte_range
  original_range :: byte_range

record source_rewrite =
  rw_source :: bytes
  rw_pieces :: "source_piece list"
  rw_original_len :: nat

definition try_u32 :: "nat \<Rightarrow> nat option" where
  "try_u32 n = (if n \<le> u32_max then Some n else None)"

lemma try_u32_Some [simp]: "try_u32 n = Some m \<longleftrightarrow> n \<le> u32_max \<and> m = n"
  by (auto simp: try_u32_def)

section \<open>The operations\<close>

fun valid_pieces :: "nat \<Rightarrow> source_piece list \<Rightarrow> nat \<Rightarrow> nat \<Rightarrow> nat option" where
  "valid_pieces original_len [] output_cursor original_cursor = Some output_cursor"
| "valid_pieces original_len (p # ps) output_cursor original_cursor =
     (if br_start (output_range p) \<noteq> output_cursor
         \<or> br_start (output_range p) \<ge> br_end (output_range p)
         \<or> br_start (original_range p) \<ge> br_end (original_range p)
         \<or> range_len (output_range p) \<noteq> range_len (original_range p)
         \<or> br_start (original_range p) < original_cursor
         \<or> br_end (original_range p) > original_len
      then None
      else valid_pieces original_len ps (br_end (output_range p)) (br_end (original_range p)))"

definition valid_piece_map :: "source_rewrite \<Rightarrow> nat \<Rightarrow> bool" where
  "valid_piece_map rw source_len \<longleftrightarrow>
     (case valid_pieces (rw_original_len rw) (rw_pieces rw) 0 0 of
        None \<Rightarrow> False
      | Some output_cursor \<Rightarrow> output_cursor = source_len \<and> (source_len = 0 \<or> rw_pieces rw \<noteq> []))"

fun or_else :: "'a option \<Rightarrow> 'a option \<Rightarrow> 'a option" where
  "or_else (Some x) y = Some x"
| "or_else None y = y"

definition last_piece :: "source_piece list \<Rightarrow> source_piece option" where
  "last_piece ps = (if ps = [] then None else Some (last ps))"

definition original_offset :: "source_rewrite \<Rightarrow> nat \<Rightarrow> bool \<Rightarrow> source_rewrite_error + nat" where
  "original_offset rw offset right_biased =
     (case
        (if right_biased then
           or_else (find (\<lambda>p. br_start (output_range p) \<le> offset \<and> offset < br_end (output_range p)) (rw_pieces rw))
             (or_else (find (\<lambda>p. br_start (output_range p) = offset) (rw_pieces rw))
               (case last_piece (rw_pieces rw) of
                  None \<Rightarrow> None
                | Some p \<Rightarrow> if br_end (output_range p) = offset then Some p else None))
         else
           or_else (find (\<lambda>p. br_start (output_range p) < offset \<and> offset \<le> br_end (output_range p)) (rw_pieces rw))
             (find (\<lambda>p. br_end (output_range p) = offset) (rev (rw_pieces rw))))
      of
        None \<Rightarrow> if offset = 0 \<and> rw_pieces rw = [] then Inr 0 else Inl RewriteInvalidInventory
      | Some p \<Rightarrow>
          ok_or (checked_add_u32 (br_start (original_range p)) (wrapping_sub_u32 offset (br_start (output_range p))))
            RewriteInvalidInventory)"

definition rewrite_original_range :: "source_rewrite \<Rightarrow> byte_range \<Rightarrow> source_rewrite_error + byte_range" where
  "rewrite_original_range rw r =
     (case try_u32 (length (rw_source rw)) of
        None \<Rightarrow> Inl RewriteInvalidInventory
      | Some source_len \<Rightarrow>
          if br_start r > br_end r \<or> br_end r > source_len
             \<or> \<not> is_char_boundary (rw_source rw) (br_start r)
             \<or> \<not> is_char_boundary (rw_source rw) (br_end r)
          then Inl RewriteInvalidInventory
          else
            bind_result (original_offset rw (br_start r) True) (\<lambda>start.
            bind_result (original_offset rw (br_end r) (br_start r = br_end r)) (\<lambda>stop.
              if start \<le> stop then Inr (ByteRange start stop) else Inl RewriteInvalidInventory)))"

definition rewrite_original_crate_range :: "source_rewrite \<Rightarrow> byte_range \<Rightarrow> source_rewrite_error + byte_range" where
  "rewrite_original_crate_range rw r =
     (case try_u32 (length (rw_source rw)) of
        None \<Rightarrow> Inl RewriteInvalidInventory
      | Some source_len \<Rightarrow>
          if r \<noteq> ByteRange 0 source_len then Inl RewriteInvalidInventory
          else Inr (ByteRange 0 (rw_original_len rw)))"

definition validate_deletion_range :: "bytes \<Rightarrow> byte_range \<Rightarrow> nat set \<Rightarrow> source_rewrite_error + unit" where
  "validate_deletion_range source deletion piece_boundaries =
     (if br_start deletion = br_end deletion
         \<or> \<not> valid_source_range source deletion
         \<or> br_start deletion \<notin> piece_boundaries
         \<or> br_end deletion \<notin> piece_boundaries
      then Inl RewriteInvalidInventory else Inr ())"

definition merge_deletion :: "byte_range \<Rightarrow> byte_range list \<Rightarrow> byte_range list" where
  "merge_deletion deletion merged =
     (if merged \<noteq> [] \<and> br_start deletion \<le> br_end (last merged)
      then butlast merged
             @ [ByteRange (br_start (last merged)) (max (br_end (last merged)) (br_end deletion))]
      else merged @ [deletion])"

definition merge_deletions ::
  "bytes \<Rightarrow> byte_range list \<Rightarrow> nat set \<Rightarrow> source_rewrite_error + byte_range list" where
  "merge_deletions source deletions piece_boundaries =
     fold_result (\<lambda>deletion merged.
         bind_result (validate_deletion_range source deletion piece_boundaries)
           (\<lambda>_. Inr (merge_deletion deletion merged)))
       deletions []"

definition append_piece ::
  "bytes \<Rightarrow> nat \<Rightarrow> nat \<Rightarrow> bytes \<times> source_piece list \<Rightarrow> source_rewrite_error + bytes \<times> source_piece list" where
  "append_piece source start stop acc =
     (if start = stop then Inr acc
      else
        bind_result (ok_or (str_get source start stop) RewriteInvalidInventory) (\<lambda>text.
        bind_result (ok_or (try_u32 (length (fst acc))) RewriteInvalidInventory) (\<lambda>output_start.
        bind_result (ok_or (try_u32 (length (fst acc @ text))) RewriteInvalidInventory) (\<lambda>output_end.
          Inr (fst acc @ text,
               snd acc @ [\<lparr>output_range = ByteRange output_start output_end,
                           original_range = ByteRange start stop\<rparr>])))))"

fun append_kept ::
  "bytes \<Rightarrow> byte_range list \<Rightarrow> nat \<Rightarrow> bytes \<times> source_piece list
     \<Rightarrow> source_rewrite_error + bytes \<times> source_piece list" where
  "append_kept source [] cursor acc = append_piece source cursor (length source) acc"
| "append_kept source (d # ds) cursor acc =
     bind_result (append_piece source cursor (br_start d) acc) (append_kept source ds (br_end d))"

text \<open>The guard of \<open>splice\<close>: the deletions are valid, nonempty and in order, without overlap.\<close>

fun deletions_in_order :: "bytes \<Rightarrow> byte_range list \<Rightarrow> nat \<Rightarrow> bool" where
  "deletions_in_order source [] previous_end = True"
| "deletions_in_order source (d # ds) previous_end =
     (\<not> (br_start d < previous_end \<or> range_is_empty d \<or> \<not> valid_source_range source d)
      \<and> deletions_in_order source ds (br_end d))"

text \<open>The capacity computed for the output string is not part of the result and is left out.\<close>

definition splice_source :: "bytes \<Rightarrow> byte_range list \<Rightarrow> source_rewrite_error + source_rewrite" where
  "splice_source source deletions =
     bind_result (ok_or (try_u32 (length source)) RewriteInvalidInventory) (\<lambda>source_len.
       if \<not> deletions_in_order source deletions 0 then Inl RewriteInvalidInventory
       else
         bind_result (append_kept source deletions 0 ([], [])) (\<lambda>(output, ps).
           let rw = \<lparr>rw_source = output, rw_pieces = ps, rw_original_len = source_len\<rparr>
           in if valid_piece_map rw (length output) then Inr rw else Inl RewriteInvalidInventory))"

section \<open>What a piece map says\<close>

text \<open>The original offsets the pieces keep, in the order of the output.\<close>

definition piece_offsets :: "source_piece list \<Rightarrow> nat list" where
  "piece_offsets ps = concat (map (\<lambda>p. [br_start (original_range p) ..< br_end (original_range p)]) ps)"

text \<open>The specification of a splice: the offsets outside every deletion.\<close>

definition kept_offsets :: "nat \<Rightarrow> byte_range list \<Rightarrow> nat list" where
  "kept_offsets n deletions = filter (\<lambda>i. \<forall>d \<in> set deletions. i \<notin> range_bytes d) [0..<n]"

lemma piece_offsets_simps [simp]:
  "piece_offsets [] = []"
  "piece_offsets (p # ps) = [br_start (original_range p) ..< br_end (original_range p)] @ piece_offsets ps"
  "piece_offsets (ps @ qs) = piece_offsets ps @ piece_offsets qs"
  by (simp_all add: piece_offsets_def)

lemma valid_piecesD:
  assumes "valid_pieces n (p # ps) oc rc = Some e"
  shows "br_start (output_range p) = oc" "oc < br_end (output_range p)"
    "br_start (original_range p) < br_end (original_range p)"
    "range_len (output_range p) = range_len (original_range p)"
    "rc \<le> br_start (original_range p)" "br_end (original_range p) \<le> n"
    "valid_pieces n ps (br_end (output_range p)) (br_end (original_range p)) = Some e"
  using assms by (auto simp: not_le not_less split: if_splits)

lemma valid_pieces_le: "valid_pieces n ps oc rc = Some e \<Longrightarrow> oc \<le> e"
  by (induction n ps oc rc rule: valid_pieces.induct) (auto split: if_splits)

lemma valid_piece_width:
  assumes "valid_pieces n (p # ps) oc rc = Some e" and "e \<le> u32_max" and "n \<le> u32_max"
  shows "br_end (original_range p) - br_start (original_range p) = br_end (output_range p) - oc"
proof -
  note V = valid_piecesD [OF assms(1)]
  from valid_pieces_le [OF V(7)] assms(2,3) V show ?thesis by simp
qed

lemma valid_pieces_offsets:
  assumes "valid_pieces n ps oc rc = Some e" and "e \<le> u32_max" and "n \<le> u32_max"
  shows "length (piece_offsets ps) = e - oc \<and> sorted_wrt (<) (piece_offsets ps)
     \<and> (\<forall>x \<in> set (piece_offsets ps). rc \<le> x \<and> x < n)"
  using assms
proof (induction ps arbitrary: oc rc)
  case (Cons p ps)
  note V = valid_piecesD [OF Cons.prems(1)]
  note IH = Cons.IH [OF V(7) Cons.prems(2,3)]
  from valid_piece_width [OF Cons.prems] V valid_pieces_le [OF V(7)] IH show ?case
    by (auto simp: sorted_wrt_append strict_sorted_iff)
qed simp

text \<open>Where an output offset lies, and what it stands for, from the right and from the left.\<close>

lemma find_piece_right:
  assumes "valid_pieces n ps oc rc = Some e" and "e \<le> u32_max" and "n \<le> u32_max" and "oc \<le> j" and "j < e"
  shows "\<exists>p. find (\<lambda>p. br_start (output_range p) \<le> j \<and> j < br_end (output_range p)) ps = Some p
     \<and> br_start (output_range p) \<le> j
     \<and> br_start (original_range p) + (j - br_start (output_range p)) = piece_offsets ps ! (j - oc)"
  using assms
proof (induction ps arbitrary: oc rc)
  case (Cons p ps)
  note V = valid_piecesD [OF Cons.prems(1)]
  note W = valid_piece_width [OF Cons.prems(1-3)]
  show ?case
  proof (cases "j < br_end (output_range p)")
    case True
    with V W Cons.prems(4) show ?thesis by (auto simp: nth_append)
  next
    case False
    then have "br_end (output_range p) \<le> j" by simp
    from Cons.IH [OF V(7) Cons.prems(2,3) this Cons.prems(5)] False V W show ?thesis
      by (auto simp: nth_append)
  qed
qed simp

lemma find_piece_left:
  assumes "valid_pieces n ps oc rc = Some e" and "e \<le> u32_max" and "n \<le> u32_max" and "oc < j" and "j \<le> e"
  shows "\<exists>p. find (\<lambda>p. br_start (output_range p) < j \<and> j \<le> br_end (output_range p)) ps = Some p
     \<and> br_start (output_range p) < j
     \<and> br_start (original_range p) + (j - br_start (output_range p)) = Suc (piece_offsets ps ! (j - Suc oc))"
  using assms
proof (induction ps arbitrary: oc rc)
  case (Cons p ps)
  note V = valid_piecesD [OF Cons.prems(1)]
  note W = valid_piece_width [OF Cons.prems(1-3)]
  show ?case
  proof (cases "j \<le> br_end (output_range p)")
    case True
    with V W Cons.prems(4) show ?thesis by (auto simp: nth_append)
  next
    case False
    then have "br_end (output_range p) < j" by simp
    from Cons.IH [OF V(7) Cons.prems(2,3) this Cons.prems(5)] False V W show ?thesis
      by (auto simp: nth_append Suc_diff_Suc)
  qed
qed simp

lemma valid_pieces_bounds:
  assumes "valid_pieces n ps oc rc = Some e" and "p \<in> set ps"
  shows "br_start (output_range p) < e \<and> oc \<le> br_start (output_range p) \<and> br_end (output_range p) \<le> e"
  using assms
proof (induction ps arbitrary: oc rc)
  case (Cons q qs)
  note V = valid_piecesD [OF Cons.prems(1)]
  from Cons.IH [OF V(7)] Cons.prems(2) V valid_pieces_le [OF V(7)] show ?case by fastforce
qed simp

lemma valid_pieces_last:
  assumes "valid_pieces n ps oc rc = Some e" and "ps \<noteq> []" and "e \<le> u32_max" and "n \<le> u32_max"
  shows "br_end (output_range (last ps)) = e \<and> br_start (output_range (last ps)) < e
    \<and> br_start (original_range (last ps)) + (e - br_start (output_range (last ps))) = Suc (last (piece_offsets ps))
    \<and> piece_offsets ps \<noteq> []"
  using assms
proof (induction ps arbitrary: oc rc)
  case (Cons p ps)
  note V = valid_piecesD [OF Cons.prems(1)]
  note W = valid_piece_width [OF Cons.prems(1,3,4)]
  show ?case
  proof (cases "ps = []")
    case True
    with V W show ?thesis by auto
  next
    case False
    from Cons.IH [OF V(7) this Cons.prems(3,4)] False show ?thesis by simp
  qed
qed simp

definition well_mapped :: "source_rewrite \<Rightarrow> bool" where
  "well_mapped rw \<longleftrightarrow>
     length (rw_source rw) \<le> u32_max \<and> rw_original_len rw \<le> u32_max
     \<and> valid_piece_map rw (length (rw_source rw))"

lemma well_mapped_pieces:
  "well_mapped rw \<Longrightarrow> valid_pieces (rw_original_len rw) (rw_pieces rw) 0 0 = Some (length (rw_source rw))"
  by (auto simp: well_mapped_def valid_piece_map_def split: option.splits)

lemma well_mapped_offsets:
  assumes "well_mapped rw"
  shows "length (piece_offsets (rw_pieces rw)) = length (rw_source rw)"
    "sorted_wrt (<) (piece_offsets (rw_pieces rw))"
    "\<And>x. x \<in> set (piece_offsets (rw_pieces rw)) \<Longrightarrow> x < rw_original_len rw"
  using valid_pieces_offsets [OF well_mapped_pieces [OF assms]] assms by (auto simp: well_mapped_def)

lemma original_offset_inside:
  assumes "well_mapped rw" and "j < length (rw_source rw)"
  shows "original_offset rw j True = Inr (piece_offsets (rw_pieces rw) ! j)"
proof -
  from assms have u: "length (rw_source rw) \<le> u32_max" "rw_original_len rw \<le> u32_max"
    by (auto simp: well_mapped_def)
  from find_piece_right [OF well_mapped_pieces [OF assms(1)] u, of j] assms(2) obtain p where
    p: "find (\<lambda>p. br_start (output_range p) \<le> j \<and> j < br_end (output_range p)) (rw_pieces rw) = Some p"
      "br_start (output_range p) \<le> j"
      "br_start (original_range p) + (j - br_start (output_range p)) = piece_offsets (rw_pieces rw) ! j"
    by auto
  have "piece_offsets (rw_pieces rw) ! j < rw_original_len rw"
    using well_mapped_offsets [OF assms(1)] assms(2) by simp
  with p u assms(2) show ?thesis
    by (simp add: original_offset_def)
qed

lemma original_offset_left:
  assumes "well_mapped rw" and "0 < j" and "j \<le> length (rw_source rw)"
  shows "original_offset rw j False = Inr (Suc (piece_offsets (rw_pieces rw) ! (j - 1)))"
proof -
  from assms have u: "length (rw_source rw) \<le> u32_max" "rw_original_len rw \<le> u32_max"
    by (auto simp: well_mapped_def)
  from find_piece_left [OF well_mapped_pieces [OF assms(1)] u, of j] assms(2,3) obtain p where
    p: "find (\<lambda>p. br_start (output_range p) < j \<and> j \<le> br_end (output_range p)) (rw_pieces rw) = Some p"
      "br_start (output_range p) < j"
      "br_start (original_range p) + (j - br_start (output_range p)) = Suc (piece_offsets (rw_pieces rw) ! (j - 1))"
    by auto
  have "piece_offsets (rw_pieces rw) ! (j - 1) < rw_original_len rw"
    using well_mapped_offsets [OF assms(1)] assms(2,3) by simp
  with p u assms(3) show ?thesis
    by (simp add: original_offset_def)
qed

lemma original_offset_end:
  assumes "well_mapped rw" and "rw_source rw \<noteq> []"
  shows "original_offset rw (length (rw_source rw)) True = Inr (Suc (last (piece_offsets (rw_pieces rw))))"
proof -
  let ?n = "length (rw_source rw)"
  from assms have u: "?n \<le> u32_max" "rw_original_len rw \<le> u32_max" by (auto simp: well_mapped_def)
  note V = well_mapped_pieces [OF assms(1)]
  have ne: "rw_pieces rw \<noteq> []" using V assms(2) by (auto split: if_splits)
  note L = valid_pieces_last [OF V ne u]
  have "find (\<lambda>p. br_start (output_range p) \<le> ?n \<and> ?n < br_end (output_range p)) (rw_pieces rw) = None"
    "find (\<lambda>p. br_start (output_range p) = ?n) (rw_pieces rw) = None"
    by (auto simp: find_None_iff dest: valid_pieces_bounds [OF V])
  moreover have "last (piece_offsets (rw_pieces rw)) < rw_original_len rw"
    using well_mapped_offsets(3) [OF assms(1)] L by auto
  ultimately show ?thesis
    using ne L u by (simp add: original_offset_def last_piece_def)
qed

section \<open>Splicing\<close>

definition last_original_end :: "nat \<Rightarrow> source_piece list \<Rightarrow> nat" where
  "last_original_end c ps = (if ps = [] then c else br_end (original_range (last ps)))"

lemma valid_pieces_snoc:
  assumes "valid_pieces n ps oc rc = Some e" and "last_original_end rc ps \<le> a"
    and "a < b" and "b \<le> n" and "n \<le> u32_max" and "e + (b - a) \<le> u32_max"
  shows "valid_pieces n (ps @ [\<lparr>output_range = ByteRange e (e + (b - a)), original_range = ByteRange a b\<rparr>]) oc rc
    = Some (e + (b - a))"
  using assms
proof (induction ps arbitrary: oc rc)
  case Nil
  then show ?case by (simp add: last_original_end_def)
next
  case (Cons p ps)
  note V = valid_piecesD [OF Cons.prems(1)]
  have "last_original_end (br_end (original_range p)) ps \<le> a"
    using Cons.prems(2) by (auto simp: last_original_end_def)
  from Cons.IH [OF V(7) this Cons.prems(3-6)] V show ?case by (simp add: not_less not_le)
qed

definition splice_state :: "bytes \<Rightarrow> nat \<Rightarrow> bytes \<times> source_piece list \<Rightarrow> bool" where
  "splice_state source cursor acc \<longleftrightarrow>
     valid_pieces (length source) (snd acc) 0 0 = Some (length (fst acc))
     \<and> last_original_end 0 (snd acc) \<le> cursor
     \<and> length (fst acc) \<le> cursor
     \<and> fst acc = map ((!) source) (piece_offsets (snd acc))"

lemma append_piece_correct:
  assumes "splice_state source a acc" and "a \<le> b" and "b \<le> length source" and "length source \<le> u32_max"
    and "is_char_boundary source a" and "is_char_boundary source b"
  shows "\<exists>acc'. append_piece source a b acc = Inr acc' \<and> splice_state source b acc'
    \<and> piece_offsets (snd acc') = piece_offsets (snd acc) @ [a..<b]"
proof (cases "a = b")
  case True
  with assms(1) show ?thesis by (simp add: append_piece_def)
next
  case False
  obtain out ps where acc: "acc = (out, ps)" by (cases acc)
  let ?p = "\<lparr>output_range = ByteRange (length out) (length out + (b - a)), original_range = ByteRange a b\<rparr>"
  from assms(1) acc have st: "valid_pieces (length source) ps 0 0 = Some (length out)"
    "last_original_end 0 ps \<le> a" "length out \<le> a" "out = map ((!) source) (piece_offsets ps)"
    by (auto simp: splice_state_def)
  have g: "str_get source a b = Some (map ((!) source) [a..<b])"
    using assms(2,3,5,6) by (simp add: str_get_def take_drop_map_nth)
  have "append_piece source a b acc = Inr (out @ map ((!) source) [a..<b], ps @ [?p])"
    using False g acc st(3) assms(2-4) by (simp add: append_piece_def try_u32_def)
  moreover have "valid_pieces (length source) (ps @ [?p]) 0 0 = Some (length out + (b - a))"
    using valid_pieces_snoc [OF st(1,2)] False assms(2-4) st(3) by simp
  ultimately show ?thesis
    using st assms(2) acc by (auto simp: splice_state_def last_original_end_def)
qed

lemma deletions_in_order_start:
  "deletions_in_order source ds c \<Longrightarrow> d \<in> set ds \<Longrightarrow> c \<le> br_start d"
proof (induction ds arbitrary: c)
  case (Cons d' ds)
  from Cons.IH [of "br_end d'"] Cons.prems show ?case
    by (auto simp: valid_source_range_def)
qed simp

lemma append_kept_correct:
  assumes "splice_state source c acc" and "deletions_in_order source ds c"
    and "length source \<le> u32_max" and "c \<le> length source" and "is_char_boundary source c"
  shows "\<exists>acc'. append_kept source ds c acc = Inr acc' \<and> splice_state source (length source) acc'
    \<and> piece_offsets (snd acc')
      = piece_offsets (snd acc) @ filter (\<lambda>i. \<forall>d \<in> set ds. i \<notin> range_bytes d) [c..<length source]"
  using assms
proof (induction ds arbitrary: c acc)
  case Nil
  from append_piece_correct [OF Nil.prems(1,4) order_refl Nil.prems(3,5)] show ?case by simp
next
  case (Cons d ds)
  let ?n = "length source"
  from Cons.prems(2) have d: "c \<le> br_start d" "br_start d \<le> br_end d" "br_end d \<le> ?n"
    "is_char_boundary source (br_start d)" "is_char_boundary source (br_end d)"
    "deletions_in_order source ds (br_end d)"
    by (auto simp: valid_source_range_def)
  obtain acc1 where a1: "append_piece source c (br_start d) acc = Inr acc1"
    "splice_state source (br_start d) acc1"
    "piece_offsets (snd acc1) = piece_offsets (snd acc) @ [c..<br_start d]"
    using append_piece_correct [OF Cons.prems(1) d(1) _ Cons.prems(3,5) d(4)] d(2,3) by auto
  from a1(2) d(2) have "splice_state source (br_end d) acc1" by (auto simp: splice_state_def)
  from Cons.IH [OF this d(6) Cons.prems(3) d(3,5)] obtain acc2 where
    a2: "append_kept source ds (br_end d) acc1 = Inr acc2" "splice_state source ?n acc2"
      "piece_offsets (snd acc2)
        = piece_offsets (snd acc1) @ filter (\<lambda>i. \<forall>d \<in> set ds. i \<notin> range_bytes d) [br_end d..<?n]"
    by blast
  have later: "br_end d \<le> br_start d'" if "d' \<in> set ds" for d'
    using deletions_in_order_start [OF d(6) that] .
  with filter_outside_Cons [OF d(1-3)] have "filter (\<lambda>i. \<forall>d' \<in> set (d # ds). i \<notin> range_bytes d') [c..<?n]
      = [c..<br_start d] @ filter (\<lambda>i. \<forall>d \<in> set ds. i \<notin> range_bytes d) [br_end d..<?n]"
    by blast
  with a1 a2 show ?case by simp
qed

lemma append_kept_from_start:
  assumes "deletions_in_order source ds 0" and "length source \<le> u32_max"
  shows "\<exists>ps. append_kept source ds 0 ([], []) = Inr (map ((!) source) (kept_offsets (length source) ds), ps)
    \<and> valid_pieces (length source) ps 0 0 = Some (length (kept_offsets (length source) ds))
    \<and> piece_offsets ps = kept_offsets (length source) ds"
proof -
  have "splice_state source 0 ([], [])" by (simp add: splice_state_def last_original_end_def)
  from append_kept_correct [OF this assms] show ?thesis
    by (auto simp: splice_state_def kept_offsets_def)
qed

lemma splice_source_succeeds:
  assumes "deletions_in_order source ds 0" and "length source \<le> u32_max"
  shows "\<exists>rw. splice_source source ds = Inr rw \<and> well_mapped rw
    \<and> rw_original_len rw = length source
    \<and> rw_source rw = map ((!) source) (kept_offsets (length source) ds)
    \<and> piece_offsets (rw_pieces rw) = kept_offsets (length source) ds"
proof -
  from append_kept_from_start [OF assms] obtain ps where
    ps: "append_kept source ds 0 ([], []) = Inr (map ((!) source) (kept_offsets (length source) ds), ps)"
      "valid_pieces (length source) ps 0 0 = Some (length (kept_offsets (length source) ds))"
      "piece_offsets ps = kept_offsets (length source) ds"
    by blast
  let ?k = "kept_offsets (length source) ds"
  let ?rw = "\<lparr>rw_source = map ((!) source) ?k, rw_pieces = ps, rw_original_len = length source\<rparr>"
  have le: "length ?k \<le> length source"
    using length_filter_le [of _ "[0..<length source]"] by (simp add: kept_offsets_def)
  have "ps \<noteq> []" if "?k \<noteq> []"
    using ps(3) that by (cases ps) auto
  then have m: "valid_piece_map ?rw (length ?k)"
    using ps(2) by (simp add: valid_piece_map_def) blast
  have u: "try_u32 (length source) = Some (length source)"
    using assms(2) by simp
  have "splice_source source ds = Inr ?rw"
    using assms(1) m by (simp add: splice_source_def ps(1) u)
  moreover have "well_mapped ?rw"
    using m le assms(2) by (simp add: well_mapped_def)
  ultimately show ?thesis
    using ps(3) by (intro exI [of _ ?rw]) simp
qed

text \<open>
  Splicing is exact.  For a source that fits the \<open>u32\<close> offsets and deletions that are
  valid, nonempty and in order without overlap, \<open>splice\<close> succeeds; the output holds, in order,
  precisely the bytes outside every deletion, the piece map lists the same offsets and satisfies
  \<open>valid_piece_map\<close>.  Every other input is refused as an invalid inventory.
\<close>

theorem splice_source_exact:
  "if length source \<le> u32_max \<and> deletions_in_order source deletions 0
   then \<exists>rw. splice_source source deletions = Inr rw \<and> well_mapped rw
       \<and> rw_original_len rw = length source
       \<and> rw_source rw = map ((!) source) (kept_offsets (length source) deletions)
       \<and> piece_offsets (rw_pieces rw) = kept_offsets (length source) deletions
   else splice_source source deletions = Inl RewriteInvalidInventory"
proof (cases "length source \<le> u32_max \<and> deletions_in_order source deletions 0")
  case True
  with splice_source_succeeds [of source deletions] show ?thesis by simp
next
  case False
  then show ?thesis by (auto simp: splice_source_def try_u32_def)
qed

section \<open>Merging\<close>

definition separated :: "byte_range list \<Rightarrow> bool" where
  "separated ds \<longleftrightarrow> sorted_wrt (\<lambda>d d'. br_end d < br_start d') ds \<and> (\<forall>d \<in> set ds. br_start d < br_end d)"

lemma merge_deletion_step:
  assumes "separated ds" and "br_start d < br_end d" and "\<forall>d' \<in> set ds. br_start d' \<le> br_start d"
  shows "separated (merge_deletion d ds)
    \<and> \<Union> (range_bytes ` set (merge_deletion d ds)) = range_bytes d \<union> \<Union> (range_bytes ` set ds)
    \<and> (\<forall>d' \<in> set (merge_deletion d ds). br_start d' \<le> br_start d)"
proof (cases "ds \<noteq> [] \<and> br_start d \<le> br_end (last ds)")
  case True
  then obtain es l where ds: "ds = es @ [l]" by (metis append_butlast_last_id)
  let ?l = "ByteRange (br_start l) (max (br_end l) (br_end d))"
  have m: "merge_deletion d ds = es @ [?l]" using True by (simp add: merge_deletion_def ds)
  have "br_start l \<le> br_start d" "br_start d \<le> br_end l" using assms(3) True by (auto simp: ds)
  then have "range_bytes ?l = range_bytes d \<union> range_bytes l" by (auto simp: range_bytes_def)
  moreover have "separated (es @ [?l])"
    using assms(1,2) by (auto simp: separated_def ds sorted_wrt_append)
  ultimately show ?thesis using assms(3) m by (auto simp: ds)
next
  case False
  then have m: "merge_deletion d ds = ds @ [d]" by (auto simp: merge_deletion_def)
  have "br_end d' < br_start d" if "d' \<in> set ds" for d'
  proof -
    from that obtain es l where ds: "ds = es @ [l]" by (metis append_butlast_last_id empty_iff empty_set)
    with False have "br_end l < br_start d" by simp
    moreover have "br_end d' \<le> br_end l"
      using that assms(1) by (fastforce simp: ds separated_def sorted_wrt_append)
    ultimately show ?thesis by simp
  qed
  with assms(1-3) show ?thesis
    unfolding m by (auto simp: separated_def sorted_wrt_append)
qed

text \<open>
  The whole tail of \<open>rewrite_source\<close>: sort the collected deletions, merge them, splice.
\<close>

definition finish_rewrite ::
  "bytes \<Rightarrow> byte_range list \<Rightarrow> nat set \<Rightarrow> source_rewrite_error + source_rewrite" where
  "finish_rewrite source deletions piece_boundaries =
     bind_result (merge_deletions source (sort deletions) piece_boundaries) (splice_source source)"

lemma validate_deletion_range_Inr:
  "validate_deletion_range source d B = Inr u \<longleftrightarrow>
     br_start d < br_end d \<and> valid_source_range source d \<and> br_start d \<in> B \<and> br_end d \<in> B"
  by (auto simp: validate_deletion_range_def valid_source_range_def)

lemma merge_deletion_ranges:
  assumes "valid_source_range source d" and "\<forall>d' \<in> set ds. valid_source_range source d'" and "separated ds"
  shows "\<forall>d' \<in> set (merge_deletion d ds). valid_source_range source d'"
proof (cases "ds \<noteq> [] \<and> br_start d \<le> br_end (last ds)")
  case True
  then obtain es l where ds: "ds = es @ [l]" by (metis append_butlast_last_id)
  with assms True show ?thesis
    by (auto simp: merge_deletion_def valid_source_range_def max_def)
next
  case False
  with assms show ?thesis by (auto simp: merge_deletion_def)
qed

lemma merge_deletions_correct:
  assumes "sorted (ds0 @ ds)" and "separated m" and "\<Union> (range_bytes ` set m) = \<Union> (range_bytes ` set ds0)"
    and "\<forall>d' \<in> set m. valid_source_range source d'"
    and "\<forall>d' \<in> set m. \<exists>d \<in> set ds0. br_start d' \<le> br_start d"
    and "\<forall>d \<in> set ds. validate_deletion_range source d B = Inr ()"
  shows "\<exists>m'. fold_result (\<lambda>deletion merged.
         bind_result (validate_deletion_range source deletion B) (\<lambda>_. Inr (merge_deletion deletion merged))) ds m
       = Inr m' \<and> separated m' \<and> (\<forall>d' \<in> set m'. valid_source_range source d')
       \<and> \<Union> (range_bytes ` set m') = \<Union> (range_bytes ` set (ds0 @ ds))"
  using assms
proof (induction ds arbitrary: ds0 m)
  case Nil
  then show ?case by simp
next
  case (Cons d ds)
  from Cons.prems(6) have d: "br_start d < br_end d" "valid_source_range source d"
    "validate_deletion_range source d B = Inr ()"
    by (auto simp: validate_deletion_range_Inr)
  have "\<forall>d' \<in> set m. br_start d' \<le> br_start d"
  proof
    fix d'
    assume "d' \<in> set m"
    with Cons.prems(5) obtain e where e: "e \<in> set ds0" "br_start d' \<le> br_start e" by blast
    with Cons.prems(1) have "e \<le> d" by (simp add: sorted_append)
    with e(2) show "br_start d' \<le> br_start d" by (auto simp: less_eq_byte_range_def)
  qed
  note step = merge_deletion_step [OF Cons.prems(2) d(1) this]
  have "\<exists>m'. fold_result (\<lambda>deletion merged.
         bind_result (validate_deletion_range source deletion B) (\<lambda>_. Inr (merge_deletion deletion merged)))
         ds (merge_deletion d m)
       = Inr m' \<and> separated m' \<and> (\<forall>d' \<in> set m'. valid_source_range source d')
       \<and> \<Union> (range_bytes ` set m') = \<Union> (range_bytes ` set ((ds0 @ [d]) @ ds))"
  proof (rule Cons.IH)
    show "sorted ((ds0 @ [d]) @ ds)" using Cons.prems(1) by simp
    show "separated (merge_deletion d m)" using step by blast
    show "\<Union> (range_bytes ` set (merge_deletion d m)) = \<Union> (range_bytes ` set (ds0 @ [d]))"
      using step Cons.prems(3) by auto
    show "\<forall>d' \<in> set (merge_deletion d m). valid_source_range source d'"
      by (rule merge_deletion_ranges [OF d(2) Cons.prems(4,2)])
    show "\<forall>d' \<in> set (merge_deletion d m). \<exists>e \<in> set (ds0 @ [d]). br_start d' \<le> br_start e"
      using step by auto
    show "\<forall>d \<in> set ds. validate_deletion_range source d B = Inr ()"
      using Cons.prems(6) by simp
  qed
  with d(3) show ?case by simp
qed

lemma merge_deletions_fails:
  "\<exists>d \<in> set ds. validate_deletion_range source d B \<noteq> Inr () \<Longrightarrow>
   fold_result (\<lambda>deletion merged.
         bind_result (validate_deletion_range source deletion B) (\<lambda>_. Inr (merge_deletion deletion merged))) ds m
     = Inl RewriteInvalidInventory"
proof (induction ds arbitrary: m)
  case (Cons d ds)
  then show ?case by (auto simp: validate_deletion_range_def)
qed simp

lemma merge_deletions_Inr:
  assumes "merge_deletions source (sort ds) B = Inr m"
  shows "separated m" "\<Union> (range_bytes ` set m) = \<Union> (range_bytes ` set ds)"
proof -
  have "\<forall>d \<in> set (sort ds). validate_deletion_range source d B = Inr ()"
    using assms merge_deletions_fails [of "sort ds" source B "[]"] by (force simp: merge_deletions_def)
  with merge_deletions_correct [of "[]" "sort ds" "[]" source B] assms
  show "separated m" "\<Union> (range_bytes ` set m) = \<Union> (range_bytes ` set ds)"
    by (auto simp: merge_deletions_def separated_def)
qed

lemma separated_in_order:
  "separated ds \<Longrightarrow> \<forall>d \<in> set ds. valid_source_range source d \<Longrightarrow> \<forall>d \<in> set ds. c \<le> br_start d
     \<Longrightarrow> deletions_in_order source ds c"
proof (induction ds arbitrary: c)
  case (Cons d ds)
  then have "separated ds" "\<forall>d' \<in> set ds. br_end d \<le> br_start d'" "br_start d < br_end d"
    by (auto simp: separated_def dest: less_imp_le)
  with Cons.IH [of "br_end d"] Cons.prems(2,3) show ?case
    by (auto simp: range_is_empty_def)
qed simp

lemma kept_offsets_cong:
  "\<Union> (range_bytes ` set ds) = \<Union> (range_bytes ` set es) \<Longrightarrow> kept_offsets n ds = kept_offsets n es"
  unfolding kept_offsets_def by (rule filter_cong) (auto simp: set_eq_iff)

lemma finish_rewrite_result:
  "if length source \<le> u32_max \<and> list_all (\<lambda>d. validate_deletion_range source d piece_boundaries = Inr ()) deletions
   then \<exists>rw. finish_rewrite source deletions piece_boundaries = Inr rw \<and> well_mapped rw
       \<and> rw_original_len rw = length source
       \<and> rw_source rw = map ((!) source) (kept_offsets (length source) deletions)
       \<and> piece_offsets (rw_pieces rw) = kept_offsets (length source) deletions
   else finish_rewrite source deletions piece_boundaries = Inl RewriteInvalidInventory"
proof (cases "\<forall>d \<in> set deletions. validate_deletion_range source d piece_boundaries = Inr ()")
  case True
  from merge_deletions_correct [of "[]" "sort deletions" "[]" source piece_boundaries] True obtain m where
    m: "merge_deletions source (sort deletions) piece_boundaries = Inr m" "separated m"
      "\<forall>d' \<in> set m. valid_source_range source d'"
      "\<Union> (range_bytes ` set m) = \<Union> (range_bytes ` set deletions)"
    by (auto simp: merge_deletions_def separated_def)
  have ord: "deletions_in_order source m 0"
    by (rule separated_in_order [OF m(2,3)]) simp
  show ?thesis
  proof (cases "length source \<le> u32_max")
    case True
    from splice_source_succeeds [OF ord this] \<open>\<forall>d \<in> set deletions. _\<close> True show ?thesis
      by (simp add: finish_rewrite_def m(1) kept_offsets_cong [OF m(4)] list_all_iff)
  next
    case False
    then show ?thesis by (simp add: finish_rewrite_def m(1) splice_source_def try_u32_def)
  qed
next
  case False
  then have "finish_rewrite source deletions piece_boundaries = Inl RewriteInvalidInventory"
    unfolding finish_rewrite_def merge_deletions_def
    by (subst merge_deletions_fails) auto
  with False show ?thesis by (auto simp: list_all_iff)
qed

lemma finish_rewrite_Inr:
  assumes "finish_rewrite source deletions piece_boundaries = Inr rw"
  shows "well_mapped rw" "rw_original_len rw = length source"
    "rw_source rw = map ((!) source) (kept_offsets (length source) deletions)"
    "piece_offsets (rw_pieces rw) = kept_offsets (length source) deletions"
    "list_all (\<lambda>d. validate_deletion_range source d piece_boundaries = Inr ()) deletions"
  using finish_rewrite_result [of source piece_boundaries deletions] assms by (auto split: if_splits)

text \<open>
  C8. The tail of \<open>rewrite_source\<close> removes exactly what was asked for.  However the collected
  deletions overlap, nest, touch or repeat, when each one is a valid nonempty range between piece
  boundaries the rewrite succeeds and keeps, in order, precisely the bytes outside all of them,
  with a valid piece map; if one is not, or the source is too large, nothing is produced and the
  error is an invalid inventory.
\<close>

theorem finish_rewrite_exact:
  "if length source \<le> u32_max \<and> list_all (\<lambda>d. validate_deletion_range source d piece_boundaries = Inr ()) deletions
   then \<exists>rw. finish_rewrite source deletions piece_boundaries = Inr rw \<and> well_mapped rw
       \<and> rw_original_len rw = length source
       \<and> rw_source rw = map ((!) source) (kept_offsets (length source) deletions)
       \<and> piece_offsets (rw_pieces rw) = kept_offsets (length source) deletions
   else finish_rewrite source deletions piece_boundaries = Inl RewriteInvalidInventory"
  by (rule finish_rewrite_result)

section \<open>Reading output ranges back\<close>

lemma sorted_wrt_less_nth_mono:
  "sorted_wrt (<) xs \<Longrightarrow> i \<le> j \<Longrightarrow> j < length xs \<Longrightarrow> (xs ! i :: nat) \<le> xs ! j"
  by (cases "i = j") (auto dest: sorted_wrt_nth_less [of _ _ i j])

text \<open>
  C9. Output ranges are read back exactly.  On a rewrite whose piece map is valid, a nonempty
  output range between character boundaries maps to the original range from its first kept byte
  to just after its last kept byte; an empty one in front of a kept byte maps to the empty range at that byte; the empty
  range at the end maps to the end of the last kept byte, and to the start if nothing was kept.
  A range outside the output, or one that cuts a character, is refused.
\<close>

theorem rewrite_original_range_exact:
  assumes "well_mapped rw"
  shows "rewrite_original_range rw (ByteRange a b) =
     (let kept = piece_offsets (rw_pieces rw); n = length (rw_source rw)
      in if a > b \<or> b > n \<or> \<not> is_char_boundary (rw_source rw) a \<or> \<not> is_char_boundary (rw_source rw) b
         then Inl RewriteInvalidInventory
         else if a < b then Inr (ByteRange (kept ! a) (Suc (kept ! (b - 1))))
         else if a < n then Inr (ByteRange (kept ! a) (kept ! a))
         else if n = 0 then Inr (ByteRange 0 0)
         else Inr (ByteRange (Suc (last kept)) (Suc (last kept))))"
proof -
  let ?kept = "piece_offsets (rw_pieces rw)" and ?n = "length (rw_source rw)"
  have u: "try_u32 ?n = Some ?n" using assms by (simp add: well_mapped_def)
  note off = well_mapped_offsets [OF assms]
  consider (bad) "a > b \<or> b > ?n \<or> \<not> is_char_boundary (rw_source rw) a \<or> \<not> is_char_boundary (rw_source rw) b"
    | (ok) "a \<le> b" "b \<le> ?n" "is_char_boundary (rw_source rw) a" "is_char_boundary (rw_source rw) b"
    by fastforce
  then show ?thesis
  proof cases
    case bad
    then show ?thesis by (auto simp: rewrite_original_range_def u Let_def)
  next
    case ok
    have g: "rewrite_original_range rw (ByteRange a b) =
      bind_result (original_offset rw a True) (\<lambda>start.
        bind_result (original_offset rw b (a = b)) (\<lambda>stop.
          if start \<le> stop then Inr (ByteRange start stop) else Inl RewriteInvalidInventory))"
      using ok by (simp add: rewrite_original_range_def u)
    consider "a < b" | "a = b" "a < ?n" | "a = b" "a = ?n" "?n \<noteq> 0" | "a = b" "a = ?n" "?n = 0"
      using ok(1,2) by linarith
    then show ?thesis
    proof cases
      case 1
      have "?kept ! a \<le> ?kept ! (b - 1)"
        by (rule sorted_wrt_less_nth_mono [OF off(2)]) (use 1 ok(2) off(1) in auto)
      with 1 ok show ?thesis
        by (simp add: g Let_def original_offset_inside [OF assms] original_offset_left [OF assms])
    next
      case 2
      with ok show ?thesis unfolding g by (simp add: Let_def original_offset_inside [OF assms])
    next
      case 3
      then have "rw_source rw \<noteq> []" by auto
      from original_offset_end [OF assms this] 3 ok show ?thesis unfolding g by (cases "b = 0") (simp_all add: Let_def)
    next
      case 4
      then have "rw_pieces rw = []"
        using well_mapped_pieces [OF assms] by (cases "rw_pieces rw") (auto dest: valid_pieces_le split: if_splits)
      with 4 ok show ?thesis unfolding g
        by (simp add: Let_def original_offset_def last_piece_def)
    qed
  qed
qed

definition sample_rewrite :: source_rewrite where
  "sample_rewrite =
     \<lparr>rw_source = [97, 100, 101],
      rw_pieces = [\<lparr>output_range = ByteRange 0 1, original_range = ByteRange 0 1\<rparr>,
                   \<lparr>output_range = ByteRange 1 3, original_range = ByteRange 3 5\<rparr>],
      rw_original_len = 6\<rparr>"

lemma sample_rewrite_well_mapped: "well_mapped sample_rewrite"
  by (simp add: well_mapped_def sample_rewrite_def valid_piece_map_def u32_max_def range_len_def
      wrapping_sub_u32_def)

lemma rewrite_original_range_exact_witness:
  "rewrite_original_range sample_rewrite (ByteRange 0 2) = Inr (ByteRange 0 4)"
  unfolding rewrite_original_range_exact [OF sample_rewrite_well_mapped]
  by (simp add: sample_rewrite_def is_char_boundary_def continuation_byte_def)

end
