(* ===== verification/Syntax.thy ===== *)
theory Syntax
  imports Source_Model
begin

text \<open>
  \<open>src/source/syntax.rs\<close>: delimiter matching over the tokens of a byte range and the segments of
  a comma-separated list.  The lexer is \<open>rustc_lexer::tokenize\<close>, which is not part of the
  repository: it is the parameter \<open>tokenize\<close>, from a text to its tokens with their lengths.  The
  token kinds the code names are constructors; every other kind is \<open>OtherKind\<close>, and the doc
  style of a comment is an opaque code.
\<close>

datatype token_kind =
    OpenParen | OpenBrace | OpenBracket | CloseParen | CloseBrace | CloseBracket
  | CommaKind | PoundKind | Whitespace
  | LineComment "nat option" | BlockComment "nat option" bool | OtherKind nat

datatype delimiter = Parenthesis | Brace | Bracket

fun opening_delimiter :: "token_kind \<Rightarrow> delimiter option" where
  "opening_delimiter OpenParen = Some Parenthesis"
| "opening_delimiter OpenBrace = Some Brace"
| "opening_delimiter OpenBracket = Some Bracket"
| "opening_delimiter _ = None"

fun closing_delimiter :: "token_kind \<Rightarrow> delimiter option" where
  "closing_delimiter CloseParen = Some Parenthesis"
| "closing_delimiter CloseBrace = Some Brace"
| "closing_delimiter CloseBracket = Some Bracket"
| "closing_delimiter _ = None"

record source_token =
  token_kind :: token_kind
  token_range :: byte_range

record delimiter_pair =
  pair_delimiter :: delimiter
  pair_open :: nat
  pair_close :: nat

record comma_list_segment =
  segment_range :: byte_range
  previous_comma :: "byte_range option"
  following_comma :: "byte_range option"

datatype source_syntax_error = InvalidRange | SyntaxSourceTooLarge | InvalidSyntax

fun is_trivia :: "token_kind \<Rightarrow> bool" where
  "is_trivia Whitespace = True"
| "is_trivia (LineComment doc) = (doc = None)"
| "is_trivia (BlockComment doc _) = (doc = None)"
| "is_trivia _ = False"

type_synonym lexer = "bytes \<Rightarrow> (token_kind \<times> nat) list"

section \<open>Matching delimiters\<close>

fun balance_tokens ::
  "(token_kind \<times> nat) list \<Rightarrow> nat \<Rightarrow> source_token list \<Rightarrow> (delimiter \<times> nat) list \<Rightarrow> delimiter_pair list
     \<Rightarrow> source_syntax_error + nat \<times> source_token list \<times> (delimiter \<times> nat) list \<times> delimiter_pair list" where
  "balance_tokens [] offset tokens stack pairs = Inr (offset, tokens, stack, pairs)"
| "balance_tokens ((kind, len) # rest) offset tokens stack pairs =
     bind_result (ok_or (checked_add_u32 offset len) SyntaxSourceTooLarge) (\<lambda>stop.
       let index = length tokens;
           token = \<lparr>token_kind = kind, token_range = ByteRange offset stop\<rparr>
       in case opening_delimiter kind of
            Some delimiter \<Rightarrow> balance_tokens rest stop (tokens @ [token]) ((delimiter, index) # stack) pairs
          | None \<Rightarrow>
              (case closing_delimiter kind of
                 None \<Rightarrow> balance_tokens rest stop (tokens @ [token]) stack pairs
               | Some delimiter \<Rightarrow>
                   (case stack of
                      [] \<Rightarrow> Inl InvalidSyntax
                    | (opened, open_index) # below \<Rightarrow>
                        if opened \<noteq> delimiter then Inl InvalidSyntax
                        else balance_tokens rest stop (tokens @ [token]) below
                               (pairs @ [\<lparr>pair_delimiter = delimiter, pair_open = open_index,
                                          pair_close = index\<rparr>]))))"

definition tokenize_balanced_range ::
  "lexer \<Rightarrow> bytes \<Rightarrow> byte_range \<Rightarrow> source_syntax_error + source_token list \<times> delimiter_pair list" where
  "tokenize_balanced_range tokenize source r =
     bind_result (ok_or (str_get source (br_start r) (br_end r)) InvalidRange) (\<lambda>input.
     bind_result (balance_tokens (tokenize input) (br_start r) [] [] []) (\<lambda>(offset, tokens, stack, pairs).
       if offset \<noteq> br_end r \<or> stack \<noteq> [] then Inl InvalidSyntax else Inr (tokens, pairs)))"

section \<open>Comma-separated lists\<close>

text \<open>The loop over the tokens strictly between the delimiters, with their indices.\<close>

fun scan_commas ::
  "(nat \<times> token_kind) list \<Rightarrow> delimiter list \<Rightarrow> nat list \<Rightarrow> source_syntax_error + delimiter list \<times> nat list" where
  "scan_commas [] stack commas = Inr (stack, commas)"
| "scan_commas ((index, kind) # rest) stack commas =
     (case opening_delimiter kind of
        Some delimiter \<Rightarrow> scan_commas rest (delimiter # stack) commas
      | None \<Rightarrow>
          (case closing_delimiter kind of
             Some delimiter \<Rightarrow>
               (case stack of
                  [] \<Rightarrow> Inl InvalidSyntax
                | innermost # below \<Rightarrow>
                    if innermost \<noteq> delimiter then Inl InvalidSyntax else scan_commas rest below commas)
           | None \<Rightarrow>
               if kind = CommaKind \<and> stack = [] then scan_commas rest stack (commas @ [index])
               else scan_commas rest stack commas))"

definition comma_segment ::
  "source_token list \<Rightarrow> source_token \<Rightarrow> source_token \<Rightarrow> nat list \<Rightarrow> nat \<Rightarrow> comma_list_segment" where
  "comma_segment tokens opener closer commas index =
     (let previous = (case checked_sub index 1 of None \<Rightarrow> None | Some i \<Rightarrow> get_at commas i);
          following = get_at commas index
      in \<lparr>segment_range = ByteRange
            (case previous of None \<Rightarrow> br_end (token_range opener) | Some c \<Rightarrow> br_end (token_range (tokens ! c)))
            (case following of None \<Rightarrow> br_start (token_range closer) | Some c \<Rightarrow> br_start (token_range (tokens ! c))),
          previous_comma = map_option (\<lambda>c. token_range (tokens ! c)) previous,
          following_comma = map_option (\<lambda>c. token_range (tokens ! c)) following\<rparr>)"

definition comma_list_segments ::
  "source_token list \<Rightarrow> delimiter_pair \<Rightarrow> source_syntax_error + comma_list_segment list" where
  "comma_list_segments tokens pair =
     (case get_at tokens (pair_open pair) of
        None \<Rightarrow> Inl InvalidSyntax
      | Some opener \<Rightarrow>
          if opening_delimiter (token_kind opener) \<noteq> Some (pair_delimiter pair) then Inl InvalidSyntax
          else case get_at tokens (pair_close pair) of
            None \<Rightarrow> Inl InvalidSyntax
          | Some closer \<Rightarrow>
              if closing_delimiter (token_kind closer) \<noteq> Some (pair_delimiter pair)
                 \<or> pair_open pair \<ge> pair_close pair then Inl InvalidSyntax
              else
                bind_result
                  (scan_commas
                    (map (\<lambda>i. (i, token_kind (tokens ! i))) [Suc (pair_open pair) ..< pair_close pair]) [] [])
                  (\<lambda>(stack, commas).
                    if stack \<noteq> [] then Inl InvalidSyntax
                    else Inr (map (comma_segment tokens opener closer commas) [0 ..< Suc (length commas)])))"

section \<open>Balanced words\<close>

text \<open>The specification: the words of the bracket grammar.\<close>

inductive balanced :: "token_kind list \<Rightarrow> bool" where
  balanced_empty: "balanced []"
| balanced_neutral: "opening_delimiter k = None \<Longrightarrow> closing_delimiter k = None \<Longrightarrow> balanced w \<Longrightarrow> balanced (k # w)"
| balanced_pair: "opening_delimiter a = Some d \<Longrightarrow> closing_delimiter b = Some d \<Longrightarrow> balanced u \<Longrightarrow> balanced w
    \<Longrightarrow> balanced (a # u @ b # w)"

text \<open>The stack machine both loops run.\<close>

fun run_stack :: "delimiter list \<Rightarrow> token_kind list \<Rightarrow> delimiter list option" where
  "run_stack s [] = Some s"
| "run_stack s (k # w) =
     (case opening_delimiter k of
        Some d \<Rightarrow> run_stack (d # s) w
      | None \<Rightarrow>
          (case closing_delimiter k of
             None \<Rightarrow> run_stack s w
           | Some d \<Rightarrow> (case s of [] \<Rightarrow> None | e # below \<Rightarrow> if e = d then run_stack below w else None)))"

lemma closing_of_opening: "opening_delimiter k = Some d \<Longrightarrow> closing_delimiter k = None"
  by (cases k) auto

lemma run_stack_append:
  "run_stack s (u @ v) = (case run_stack s u of None \<Rightarrow> None | Some t \<Rightarrow> run_stack t v)"
  by (induction u arbitrary: s) (auto split: option.splits list.splits)

lemma run_stack_balanced: "balanced w \<Longrightarrow> run_stack s w = Some s"
proof (induction w arbitrary: s rule: balanced.induct)
  case (balanced_pair a d b u w)
  have "opening_delimiter b = None" using balanced_pair.hyps(2) closing_of_opening by (cases "opening_delimiter b") auto
  with balanced_pair show ?case by (simp add: run_stack_append)
qed auto

lemma balanced_append: "balanced u \<Longrightarrow> balanced v \<Longrightarrow> balanced (u @ v)"
  by (induction u rule: balanced.induct) (auto intro: balanced.intros)

lemma balanced_wrap: "opening_delimiter a = Some d \<Longrightarrow> closing_delimiter b = Some d \<Longrightarrow> balanced u \<Longrightarrow> balanced (a # u @ [b])"
  using balanced_pair [OF _ _ _ balanced_empty] by simp

lemma balanced_single: "opening_delimiter k = None \<Longrightarrow> closing_delimiter k = None \<Longrightarrow> balanced [k]"
  by (intro balanced_neutral balanced_empty)

text \<open>A word with unmatched openings: the stack lists them, with balanced words in between.\<close>

fun open_stack :: "token_kind list \<Rightarrow> (delimiter \<times> nat) list \<Rightarrow> bool" where
  "open_stack w [] = balanced w"
| "open_stack w ((d, i) # s) =
     (i < length w \<and> opening_delimiter (w ! i) = Some d \<and> balanced (drop (Suc i) w) \<and> open_stack (take i w) s)"

lemma open_stack_append: "open_stack w s \<Longrightarrow> balanced v \<Longrightarrow> open_stack (w @ v) s"
  by (cases s rule: remdups_adj.cases)
     (auto simp: nth_append intro: balanced_append)

lemma open_stack_run: "open_stack w s \<Longrightarrow> run_stack [] w = Some (map fst s)"
proof (induction w s rule: open_stack.induct)
  case (2 w d i s)
  then have "w = take i w @ w ! i # drop (Suc i) w" by (simp add: id_take_nth_drop)
  then have "run_stack [] w = run_stack [] (take i w @ w ! i # drop (Suc i) w)" by simp
  also have "\<dots> = Some (d # map fst s)"
    using 2 by (simp add: run_stack_append run_stack_balanced)
  finally show ?case by simp
qed (simp add: run_stack_balanced)

text \<open>A matching pair of delimiters in a word.\<close>

definition matching :: "token_kind list \<Rightarrow> delimiter \<Rightarrow> nat \<Rightarrow> nat \<Rightarrow> bool" where
  "matching w d i j \<longleftrightarrow>
     i < j \<and> j < length w \<and> opening_delimiter (w ! i) = Some d \<and> closing_delimiter (w ! j) = Some d
     \<and> balanced (take (j - Suc i) (drop (Suc i) w))"

lemma balanced_suffix_opening:
  assumes "balanced (x @ a # y)" and "opening_delimiter a = Some d" and "balanced y"
  shows False
proof -
  have "run_stack [] (x @ a # y) = Some []" by (rule run_stack_balanced [OF assms(1)])
  with assms(2,3) show False by (auto simp: run_stack_append run_stack_balanced split: option.splits)
qed

lemma open_stack_top_unique:
  assumes "i < length w" and "j < length w" and "opening_delimiter (w ! i) = Some d" and "opening_delimiter (w ! j) = Some e"
    and "balanced (drop (Suc i) w)" and "balanced (drop (Suc j) w)"
  shows "i = j"
proof -
  have no: False if "i < j" "j < length w" "opening_delimiter (w ! j) = Some e" "balanced (drop (Suc i) w)"
    "balanced (drop (Suc j) w)" for i j e
  proof -
    have "drop (Suc i) w = take (j - Suc i) (drop (Suc i) w) @ drop (j - Suc i) (drop (Suc i) w)"
      by (rule append_take_drop_id [symmetric])
    also have "drop (j - Suc i) (drop (Suc i) w) = w ! j # drop (Suc j) w"
      using that(1,2) by (simp add: Cons_nth_drop_Suc)
    finally show False using that balanced_suffix_opening by metis
  qed
  from no [of i j e] no [of j i d] assms show ?thesis by (metis linorder_neqE_nat)
qed

section \<open>What the matching loop computes\<close>

text \<open>The tokens of a lexed text, laid out from an offset.\<close>

fun layout_tokens :: "(token_kind \<times> nat) list \<Rightarrow> nat \<Rightarrow> source_token list" where
  "layout_tokens [] offset = []"
| "layout_tokens ((k, len) # rest) offset =
     \<lparr>token_kind = k, token_range = ByteRange offset (offset + len)\<rparr> # layout_tokens rest (offset + len)"

lemma layout_tokens_kinds: "map token_kind (layout_tokens ts offset) = map fst ts"
  by (induction ts offset rule: layout_tokens.induct) auto

lemma layout_tokens_append:
  "layout_tokens (xs @ ys) offset = layout_tokens xs offset @ layout_tokens ys (offset + sum_list (map snd xs))"
  by (induction xs offset rule: layout_tokens.induct) (auto simp: add.assoc)

lemma layout_tokens_length [simp]: "length (layout_tokens ts offset) = length ts"
  by (induction ts offset rule: layout_tokens.induct) auto

definition pair_matches :: "token_kind list \<Rightarrow> delimiter_pair \<Rightarrow> bool" where
  "pair_matches w p \<longleftrightarrow> matching w (pair_delimiter p) (pair_open p) (pair_close p)"

definition balance_state :: "token_kind list \<Rightarrow> (delimiter \<times> nat) list \<Rightarrow> delimiter_pair list \<Rightarrow> bool" where
  "balance_state w stack pairs \<longleftrightarrow>
     open_stack w stack \<and> set pairs = Collect (pair_matches w) \<and> sorted_wrt (<) (map pair_close pairs)"

lemma matching_snoc:
  "matching (w @ [k]) d i j \<longleftrightarrow>
     matching w d i j \<or>
     j = length w \<and> i < j \<and> opening_delimiter (w ! i) = Some d \<and> closing_delimiter k = Some d
       \<and> balanced (drop (Suc i) w)"
  by (auto simp: matching_def nth_append less_Suc_eq)

lemma balance_state_neutral:
  assumes "balance_state w stack pairs" and "opening_delimiter k = None" and "closing_delimiter k = None"
  shows "balance_state (w @ [k]) stack pairs"
  using assms open_stack_append [OF _ balanced_single [OF assms(2,3)]]
  by (auto simp: balance_state_def pair_matches_def matching_snoc)

lemma balance_state_open:
  assumes "balance_state w stack pairs" and "opening_delimiter k = Some d"
  shows "balance_state (w @ [k]) ((d, length w) # stack) pairs"
proof -
  have "Collect (pair_matches (w @ [k])) = Collect (pair_matches w)"
    by (simp add: pair_matches_def [abs_def] matching_snoc closing_of_opening [OF assms(2)])
  with assms show ?thesis
    by (simp add: balance_state_def balanced_empty)
qed

lemma balance_state_close:
  assumes "balance_state w ((d, i) # stack) pairs" and "closing_delimiter k = Some d"
  shows "balance_state (w @ [k]) stack
    (pairs @ [\<lparr>pair_delimiter = d, pair_open = i, pair_close = length w\<rparr>])"
proof -
  from assms have st: "i < length w" "opening_delimiter (w ! i) = Some d" "balanced (drop (Suc i) w)"
    "open_stack (take i w) stack" "set pairs = Collect (pair_matches w)"
    "sorted_wrt (<) (map pair_close pairs)"
    by (auto simp: balance_state_def)
  have w: "w @ [k] = take i w @ (w ! i # drop (Suc i) w @ [k])"
    using id_take_nth_drop [OF st(1)] by (metis append.assoc append_Cons)
  have "open_stack (w @ [k]) stack"
    unfolding w by (rule open_stack_append [OF st(4) balanced_wrap [OF st(2) assms(2) st(3)]])
  moreover have "pair_matches (w @ [k]) q \<longleftrightarrow>
      pair_matches w q \<or> q = \<lparr>pair_delimiter = d, pair_open = i, pair_close = length w\<rparr>" for q
  proof -
    have "j < length w \<and> opening_delimiter (w ! j) = Some e \<and> Some d = Some e
        \<and> balanced (drop (Suc j) w) \<longleftrightarrow> j = i \<and> e = d" for j e
      using st(1-3) open_stack_top_unique [OF _ st(1) _ st(2) _ st(3), of j d] by blast
    then show ?thesis
      unfolding pair_matches_def matching_snoc assms(2) by (cases q) auto
  qed
  moreover have "\<forall>q \<in> set pairs. pair_close q < length w"
    using st(5) by (auto simp: pair_matches_def matching_def)
  ultimately show ?thesis
    using st(5,6) by (auto simp: balance_state_def sorted_wrt_append)
qed

text \<open>The loop, started on any prefix, follows the stack machine.\<close>

lemma balance_tokens_follows:
  assumes "balance_state (map token_kind done_tokens) stack pairs"
  shows "case balance_tokens ts offset done_tokens stack pairs of
      Inl e \<Rightarrow> e = SyntaxSourceTooLarge \<and> u32_max < offset + sum_list (map snd ts)
        \<or> e = InvalidSyntax \<and> run_stack (map fst stack) (map fst ts) = None
    | Inr (offset', tokens', stack', pairs') \<Rightarrow>
        offset' = offset + sum_list (map snd ts)
        \<and> tokens' = done_tokens @ layout_tokens ts offset
        \<and> balance_state (map token_kind tokens') stack' pairs'
        \<and> run_stack (map fst stack) (map fst ts) = Some (map fst stack')
        \<and> (ts \<noteq> [] \<longrightarrow> offset' \<le> u32_max)"
  using assms
proof (induction ts arbitrary: offset done_tokens stack pairs)
  case Nil
  then show ?case by simp
next
  case (Cons t ts)
  obtain k len where t: "t = (k, len)" by (cases t)
  let ?w = "map token_kind done_tokens"
  let ?t = "\<lparr>token_kind = k, token_range = ByteRange offset (offset + len)\<rparr>"
  show ?case
  proof (cases "offset + len \<le> u32_max")
    case False
    then show ?thesis by (simp add: t checked_add_u32_def)
  next
    case True
    then have c: "checked_add_u32 offset len = Some (offset + len)"
      by (simp add: checked_add_u32_def)
    note step = balance_tokens.simps(2) [of k len ts offset done_tokens stack pairs, folded t,
        unfolded c ok_or_Some bind_result_Inr Let_def]
    show ?thesis
    proof (cases "opening_delimiter k")
      case (Some d)
      from balance_state_open [OF Cons.prems Some]
      have "balance_state (map token_kind (done_tokens @ [?t])) ((d, length done_tokens) # stack) pairs" by simp
      from Cons.IH [OF this, of "offset + len"] Some True show ?thesis
        unfolding step by (auto simp: t add.assoc split: sum.splits)
    next
      case None
      show ?thesis
      proof (cases "closing_delimiter k")
        case None': None
        from balance_state_neutral [OF Cons.prems None None']
        have "balance_state (map token_kind (done_tokens @ [?t])) stack pairs" by simp
        from Cons.IH [OF this, of "offset + len"] None None' True show ?thesis
          unfolding step by (auto simp: t add.assoc split: sum.splits)
      next
        case (Some d)
        show ?thesis
        proof (cases "\<exists>i below. stack = (d, i) # below")
          case in_place: True
          then obtain i below where s: "stack = (d, i) # below" by blast
          from balance_state_close [OF Cons.prems [unfolded s] Some]
          have "balance_state (map token_kind (done_tokens @ [?t])) below
            (pairs @ [\<lparr>pair_delimiter = d, pair_open = i, pair_close = length done_tokens\<rparr>])" by simp
          from Cons.IH [OF this, of "offset + len"] None Some \<open>offset + len \<le> u32_max\<close> show ?thesis
            unfolding step by (auto simp: t s add.assoc split: sum.splits)
        next
          case False
          with None Some show ?thesis
            unfolding step by (cases stack) (auto simp: t)
        qed
      qed
    qed
  qed
qed

lemma balance_state_empty: "balance_state [] [] []"
  by (simp add: balance_state_def balanced_empty pair_matches_def matching_def)

text \<open>The stack machine accepts the balanced words.\<close>

lemma run_stack_iff_balanced: "run_stack [] w = Some [] \<longleftrightarrow> balanced w"
proof
  assume r: "run_stack [] w = Some []"
  obtain ts :: "(token_kind \<times> nat) list" where f: "map fst ts = w" and z: "sum_list (map snd ts) = 0"
    by (rule that [of "map (\<lambda>k. (k, 0)) w"]) (simp_all add: comp_def)
  from balance_tokens_follows [of "[]" "[]" "[]" 0 ts, unfolded f z] balance_state_empty r
  have "\<exists>pairs. balance_state (map token_kind (layout_tokens ts 0)) [] pairs"
    by (auto split: sum.splits)
  with f show "balanced w"
    by (simp add: layout_tokens_kinds balance_state_def)
qed (rule run_stack_balanced)

text \<open>What the code relies on: the tokens of a text cover it.\<close>

definition lexer_covers :: "lexer \<Rightarrow> bool" where
  "lexer_covers tokenize \<longleftrightarrow> (\<forall>s. sum_list (map snd (tokenize s)) = length s)"

text \<open>
  C15. Delimiter matching is exact.  With a lexer whose tokens cover their input, a range that
  cuts no character is tokenized into consecutive tokens from its start to its end; the call succeeds
  exactly when the token kinds form a word of the bracket grammar, and then reports precisely the
  matching pairs, each once, in the order of their closing delimiters.  Other ranges are refused.
\<close>

theorem tokenize_balanced_range_exact:
  assumes "lexer_covers tokenize" and "br_end r \<le> u32_max"
  shows "case str_get source (br_start r) (br_end r) of
      None \<Rightarrow> tokenize_balanced_range tokenize source r = Inl InvalidRange
    | Some input \<Rightarrow>
        if balanced (map fst (tokenize input))
        then \<exists>pairs. tokenize_balanced_range tokenize source r
               = Inr (layout_tokens (tokenize input) (br_start r), pairs)
             \<and> set pairs = Collect (pair_matches (map fst (tokenize input)))
             \<and> sorted_wrt (<) (map pair_close pairs)
        else tokenize_balanced_range tokenize source r = Inl InvalidSyntax"
proof (cases "str_get source (br_start r) (br_end r)")
  case None
  then show ?thesis by (simp add: tokenize_balanced_range_def)
next
  case (Some input)
  then have "length input = br_end r - br_start r" "br_start r \<le> br_end r"
    by (auto simp: str_get_def split: if_splits)
  with assms(1) have total: "br_start r + sum_list (map snd (tokenize input)) = br_end r"
    by (simp add: lexer_covers_def)
  note F = balance_tokens_follows [of "[]" "[]" "[]" "br_start r" "tokenize input", unfolded total]
  show ?thesis
  proof (cases "balance_tokens (tokenize input) (br_start r) [] [] []")
    case (Inl e)
    with F assms(2) balance_state_empty run_stack_iff_balanced [of "map fst (tokenize input)"] Some show ?thesis
      by (auto simp: tokenize_balanced_range_def)
  next
    case (Inr res)
    obtain offset tokens stack pairs where res: "res = (offset, tokens, stack, pairs)" by (cases res)
    with F Inr balance_state_empty have
      o: "offset = br_end r" "tokens = layout_tokens (tokenize input) (br_start r)"
        "balance_state (map token_kind tokens) stack pairs"
        "run_stack [] (map fst (tokenize input)) = Some (map fst stack)"
      by auto
    have b: "balanced (map fst (tokenize input)) \<longleftrightarrow> stack = []"
      using o(4) run_stack_iff_balanced [of "map fst (tokenize input)"] by auto
    have "tokenize_balanced_range tokenize source r
        = (if stack \<noteq> [] then Inl InvalidSyntax else Inr (tokens, pairs))"
      using Some Inr by (simp add: tokenize_balanced_range_def res o(1))
    with Some b o(2,3) show ?thesis
      by (auto simp: balance_state_def layout_tokens_kinds)
  qed
qed

text \<open>A lexer of single bytes, to evaluate the definitions on.\<close>

definition byte_kind :: "nat \<Rightarrow> token_kind" where
  "byte_kind b =
     (if b = 40 then OpenParen else if b = 41 then CloseParen
      else if b = 123 then OpenBrace else if b = 125 then CloseBrace
      else if b = 44 then CommaKind else if b = 32 then Whitespace
      else if b = 35 then PoundKind else OtherKind b)"

definition byte_lexer :: lexer where
  "byte_lexer s = map (\<lambda>b. (byte_kind b, 1)) s"

lemma byte_lexer_covers: "lexer_covers byte_lexer"
  by (simp add: lexer_covers_def byte_lexer_def comp_def sum_list_triv)

lemma tokenize_balanced_range_exact_witness:
  "\<exists>pairs. tokenize_balanced_range byte_lexer [40, 97, 41] (ByteRange 0 3)
      = Inr (layout_tokens [(OpenParen, 1), (OtherKind 97, 1), (CloseParen, 1)] 0, pairs)
    \<and> set pairs = Collect (pair_matches [OpenParen, OtherKind 97, CloseParen])
    \<and> sorted_wrt (<) (map pair_close pairs)"
proof -
  have "balanced [OpenParen, OtherKind 97, CloseParen]"
    using balanced_wrap [of OpenParen Parenthesis CloseParen "[OtherKind 97]"] balanced_single [of "OtherKind 97"]
    by simp
  with tokenize_balanced_range_exact [OF byte_lexer_covers, of "ByteRange 0 3" "[40, 97, 41]"]
  show ?thesis
    by (simp add: byte_lexer_def byte_kind_def u32_max_def str_get_def is_char_boundary_def)
qed

section \<open>What the list segments are\<close>

definition token_slice :: "token_kind list \<Rightarrow> nat \<Rightarrow> nat \<Rightarrow> token_kind list" where
  "token_slice w i j = take (j - Suc i) (drop (Suc i) w)"

text \<open>The commas directly inside the pair: those behind a balanced word.\<close>

definition top_level_commas :: "token_kind list \<Rightarrow> nat \<Rightarrow> nat \<Rightarrow> nat list" where
  "top_level_commas w i j = filter (\<lambda>c. w ! c = CommaKind \<and> balanced (token_slice w i c)) [Suc i ..< j]"

lemma scan_commas_run:
  "scan_commas l stack commas =
     (case run_stack stack (map snd l) of
        None \<Rightarrow> Inl InvalidSyntax
      | Some s \<Rightarrow> Inr (s, commas @ map (\<lambda>j. fst (l ! j))
          (filter (\<lambda>j. snd (l ! j) = CommaKind \<and> run_stack stack (map snd (take j l)) = Some []) [0 ..< length l])))"
proof (induction l arbitrary: stack commas)
  case Nil
  then show ?case by simp
next
  case (Cons x l)
  obtain i k where x: "x = (i, k)" by (cases x)
  have u: "[0 ..< length (x # l)] = 0 # map Suc [0 ..< length l]"
    by (simp del: upt_Suc add: upt_conv_Cons map_Suc_upt)
  show ?case
  proof (cases "opening_delimiter k")
    case (Some d)
    then have "k \<noteq> CommaKind" by auto
    with Some show ?thesis
      unfolding u by (simp add: x Cons.IH filter_map comp_def split: option.splits)
  next
    case None
    show ?thesis
    proof (cases "closing_delimiter k")
      case None': None
      with None show ?thesis
        unfolding u by (auto simp add: x Cons.IH filter_map comp_def split: option.splits)
    next
      case (Some d)
      then have "k \<noteq> CommaKind" by auto
      with None Some show ?thesis
        unfolding u by (cases stack) (auto simp add: x Cons.IH filter_map comp_def split: option.splits)
    qed
  qed
qed

lemma scan_commas_inside:
  fixes tokens :: "source_token list" and i j :: nat
  defines "w \<equiv> map token_kind tokens"
  assumes "i < j" and "j < length tokens"
  shows "scan_commas (map (\<lambda>c. (c, token_kind (tokens ! c))) [Suc i ..< j]) [] [] =
    (case run_stack [] (token_slice w i j) of
       None \<Rightarrow> Inl InvalidSyntax
     | Some s \<Rightarrow> Inr (s, top_level_commas w i j))"
proof -
  let ?l = "map (\<lambda>c. (c, token_kind (tokens ! c))) [Suc i ..< j]"
  have sl: "token_slice w i c = map (\<lambda>c. token_kind (tokens ! c)) [Suc i ..< c]" if "c \<le> j" for c
    unfolding token_slice_def w_def using that assms(3)
    by (intro nth_equalityI) auto
  have snds: "map snd ?l = token_slice w i j"
    by (simp add: sl)
  have take: "map snd (take k ?l) = token_slice w i (Suc i + k)" if "k < length ?l" for k
    using that by (subst sl) (auto simp del: upt_Suc intro!: nth_equalityI)
  have "map (\<lambda>k. fst (?l ! k))
      (filter (\<lambda>k. snd (?l ! k) = CommaKind \<and> run_stack [] (map snd (take k ?l)) = Some []) [0 ..< length ?l])
    = map (\<lambda>k. Suc i + k)
      (filter (\<lambda>k. w ! (Suc i + k) = CommaKind \<and> balanced (token_slice w i (Suc i + k))) [0 ..< j - Suc i])"
    using assms(3) take
    by (intro map_cong filter_cong) (auto simp: run_stack_iff_balanced w_def)
  also have "\<dots> = top_level_commas w i j"
  proof -
    have "[Suc i ..< j] = map (\<lambda>k. Suc i + k) [0 ..< j - Suc i]"
      using assms(2) by (intro nth_equalityI) auto
    then show ?thesis by (simp add: top_level_commas_def filter_map comp_def)
  qed
  finally show ?thesis
    unfolding scan_commas_run snds by (simp only: append_Nil)
qed

text \<open>
  C16. Comma-separated lists are split exactly.  \<open>comma_list_segments\<close> accepts a pair precisely
  when it is a matching pair of delimiters around a balanced word, whatever pair is given.  Its
  segments are then one more than the commas that stand directly inside the pair: the first
  starts behind the opening delimiter, the last ends in front of the closing one, and two
  neighbours are separated by exactly the comma that both of them name.
\<close>

theorem comma_list_segments_exact:
  "if pair_matches (map token_kind tokens) pair
   then \<exists>segments. comma_list_segments tokens pair = Inr segments
     \<and> (let commas = top_level_commas (map token_kind tokens) (pair_open pair) (pair_close pair);
            n = length commas
        in length segments = Suc n
         \<and> br_start (segment_range (segments ! 0)) = br_end (token_range (tokens ! pair_open pair))
         \<and> br_end (segment_range (segments ! n)) = br_start (token_range (tokens ! pair_close pair))
         \<and> previous_comma (segments ! 0) = None \<and> following_comma (segments ! n) = None
         \<and> list_all (\<lambda>k. following_comma (segments ! k) = Some (token_range (tokens ! (commas ! k)))
              \<and> previous_comma (segments ! Suc k) = Some (token_range (tokens ! (commas ! k)))
              \<and> br_end (segment_range (segments ! k)) = br_start (token_range (tokens ! (commas ! k)))
              \<and> br_start (segment_range (segments ! Suc k)) = br_end (token_range (tokens ! (commas ! k))))
            [0 ..< n])
   else comma_list_segments tokens pair = Inl InvalidSyntax"
proof -
  let ?w = "map token_kind tokens" and ?i = "pair_open pair" and ?j = "pair_close pair"
  let ?commas = "top_level_commas ?w ?i ?j"
  let ?shape = "?i < ?j \<and> ?j < length tokens \<and> opening_delimiter (token_kind (tokens ! ?i)) = Some (pair_delimiter pair)
    \<and> closing_delimiter (token_kind (tokens ! ?j)) = Some (pair_delimiter pair)"
  have m: "pair_matches ?w pair \<longleftrightarrow> ?shape \<and> balanced (token_slice ?w ?i ?j)"
    by (auto simp: pair_matches_def matching_def token_slice_def)
  show ?thesis
  proof (cases ?shape)
    case False
    then have "comma_list_segments tokens pair = Inl InvalidSyntax"
      by (auto simp: comma_list_segments_def split: option.splits)
    moreover from False have "\<not> pair_matches ?w pair" unfolding m by blast
    ultimately show ?thesis by simp
  next
    case shape: True
    then have get: "get_at tokens ?i = Some (tokens ! ?i)" "get_at tokens ?j = Some (tokens ! ?j)"
      by (simp_all add: get_at_def)
    have code: "comma_list_segments tokens pair =
      (case run_stack [] (token_slice ?w ?i ?j) of
         None \<Rightarrow> Inl InvalidSyntax
       | Some s \<Rightarrow> if s \<noteq> [] then Inl InvalidSyntax
           else Inr (map (comma_segment tokens (tokens ! ?i) (tokens ! ?j) ?commas) [0 ..< Suc (length ?commas)]))"
      using shape scan_commas_inside [of ?i ?j tokens]
      by (simp add: comma_list_segments_def get split: option.splits)
    show ?thesis
    proof (cases "balanced (token_slice ?w ?i ?j)")
      case True
      let ?seg = "comma_segment tokens (tokens ! ?i) (tokens ! ?j) ?commas"
      let ?segs = "map ?seg [0 ..< Suc (length ?commas)]"
      have "comma_list_segments tokens pair = Inr ?segs"
        using True by (simp add: code run_stack_balanced)
      moreover have "?segs ! k = ?seg k" if "k \<le> length ?commas" for k
        using that by (simp del: upt_Suc)
      moreover have "pair_matches ?w pair" using shape True m by blast
      ultimately show ?thesis
        by (simp add: Let_def list_all_iff comma_segment_def checked_sub_def get_at_def del: upt_Suc)
    next
      case False
      then have "run_stack [] (token_slice ?w ?i ?j) \<noteq> Some []" by (simp add: run_stack_iff_balanced)
      with False m show ?thesis by (auto simp: code split: option.splits)
    qed
  qed
qed

end
