(* ===== verification/Token_Guard.thy ===== *)
theory Token_Guard
  imports Syntax
begin

text \<open>
  The parser-token guard of \<open>src/source/syntax.rs\<close>: the tokens of rustc's token-tree parser,
  the runs of \<open>#\<close> tokens, the re-lexing window around a deletion, and the test that deleting
  ranges inside one window leaves every other token with its identity.  The gluing of adjacent
  punctuation (\<open>rustc_ast\<close>'s \<open>Token::glue\<close>) is the parameter \<open>glue\<close>; the punctuation kinds the
  code names are constructors and every glued kind is \<open>AstGlued\<close>.
\<close>

datatype ast_token_kind =
    AstEq | AstLt | AstGt | AstBang | AstTilde | AstPlus | AstMinus | AstStar | AstSlash | AstPercent
  | AstCaret | AstAnd | AstOr | AstAt | AstDot | AstComma | AstSemi | AstColon | AstPound | AstDollar
  | AstQuestion | AstSingleQuote | AstGlued nat

type_synonym glue = "ast_token_kind \<Rightarrow> ast_token_kind \<Rightarrow> ast_token_kind option"

record parser_token =
  ptok_range :: byte_range
  ptok_text :: bytes
  ptok_lexer_kind :: token_kind
  ptok_punctuation :: "ast_token_kind option"

definition same_identity :: "parser_token \<Rightarrow> parser_token \<Rightarrow> bool" where
  "same_identity t u \<longleftrightarrow>
     ptok_text t = ptok_text u \<and> ptok_lexer_kind t = ptok_lexer_kind u
     \<and> ptok_punctuation t = ptok_punctuation u"

record token_rewrite_guard =
  guard_source :: bytes
  guard_tokens :: "parser_token list"
  pound_run_starts :: "nat list"
  pound_run_ends :: "nat list"

record deletion_boundary =
  deleted_start :: nat
  deleted_end :: nat
  left_start :: nat
  right_end :: nat
  window_start :: nat
  window_end :: nat

definition boundary_window :: "deletion_boundary \<Rightarrow> byte_range" where
  "boundary_window b = ByteRange (window_start b) (window_end b)"

section \<open>Parser tokens\<close>

definition parser_punctuation :: "bytes \<Rightarrow> ast_token_kind option" where
  "parser_punctuation text =
     (if text = [61] then Some AstEq else if text = [60] then Some AstLt
      else if text = [62] then Some AstGt else if text = [33] then Some AstBang
      else if text = [126] then Some AstTilde else if text = [43] then Some AstPlus
      else if text = [45] then Some AstMinus else if text = [42] then Some AstStar
      else if text = [47] then Some AstSlash else if text = [37] then Some AstPercent
      else if text = [94] then Some AstCaret else if text = [38] then Some AstAnd
      else if text = [124] then Some AstOr else if text = [64] then Some AstAt
      else if text = [46] then Some AstDot else if text = [44] then Some AstComma
      else if text = [59] then Some AstSemi else if text = [58] then Some AstColon
      else if text = [35] then Some AstPound else if text = [36] then Some AstDollar
      else if text = [63] then Some AstQuestion else if text = [39] then Some AstSingleQuote
      else None)"

text \<open>The previous token, when the code glues the next one onto it.\<close>

definition glued_token ::
  "glue \<Rightarrow> parser_token list \<Rightarrow> nat \<Rightarrow> bool \<Rightarrow> ast_token_kind option \<Rightarrow> (parser_token \<times> ast_token_kind) option" where
  "glued_token glue tokens offset separated punctuation =
     (if separated \<or> tokens = [] \<or> br_end (ptok_range (last tokens)) \<noteq> offset then None
      else case (ptok_punctuation (last tokens), punctuation) of
        (Some previous, Some current) \<Rightarrow> map_option (\<lambda>glued. (last tokens, glued)) (glue previous current)
      | _ \<Rightarrow> None)"

fun parser_tokens_loop ::
  "glue \<Rightarrow> bytes \<Rightarrow> (token_kind \<times> nat) list \<Rightarrow> parser_token list \<Rightarrow> nat \<Rightarrow> bool
     \<Rightarrow> source_syntax_error + parser_token list \<times> nat" where
  "parser_tokens_loop glue source [] tokens offset separated = Inr (tokens, offset)"
| "parser_tokens_loop glue source ((kind, len) # rest) tokens offset separated =
     bind_result (ok_or (checked_add_u32 offset len) SyntaxSourceTooLarge) (\<lambda>stop.
     bind_result (ok_or (str_get source offset stop) InvalidSyntax) (\<lambda>text.
       if is_trivia kind then parser_tokens_loop glue source rest tokens stop True
       else
         let punctuation = parser_punctuation text
         in case glued_token glue tokens offset separated punctuation of
              Some (previous, glued) \<Rightarrow>
                parser_tokens_loop glue source rest
                  (butlast tokens @
                    [previous\<lparr>ptok_range := ByteRange (br_start (ptok_range previous)) stop,
                              ptok_text := ptok_text previous @ text,
                              ptok_punctuation := Some glued\<rparr>]) stop False
            | None \<Rightarrow>
                parser_tokens_loop glue source rest
                  (tokens @
                    [\<lparr>ptok_range = ByteRange offset stop, ptok_text = text,
                      ptok_lexer_kind = kind, ptok_punctuation = punctuation\<rparr>]) stop False))"

definition tokenize_parser_tokens ::
  "lexer \<Rightarrow> glue \<Rightarrow> bytes \<Rightarrow> source_syntax_error + parser_token list" where
  "tokenize_parser_tokens tokenize glue source =
     bind_result (parser_tokens_loop glue source (tokenize source) [] 0 True) (\<lambda>(tokens, offset).
       if offset \<noteq> length source then Inl InvalidSyntax else Inr tokens)"

section \<open>Runs of pound signs\<close>

definition fill_range :: "'a list \<Rightarrow> nat \<Rightarrow> nat \<Rightarrow> 'a \<Rightarrow> 'a list" where
  "fill_range xs a b v = take a xs @ replicate (b - a) v @ drop b xs"

function pound_run_end :: "parser_token list \<Rightarrow> nat \<Rightarrow> nat" where
  "pound_run_end tokens stop =
     (if stop < length tokens \<and> ptok_lexer_kind (tokens ! stop) = PoundKind
      then pound_run_end tokens (Suc stop) else stop)"
  by auto
termination by (relation "measure (\<lambda>(tokens, stop). length tokens - stop)") auto

declare pound_run_end.simps [simp del]

lemma pound_run_end_ge: "stop \<le> pound_run_end tokens stop"
  by (induction tokens stop rule: pound_run_end.induct)
     (subst pound_run_end.simps, auto)

function pound_run_loop ::
  "parser_token list \<Rightarrow> nat \<Rightarrow> nat list \<Rightarrow> nat list \<Rightarrow> nat list \<times> nat list" where
  "pound_run_loop tokens start starts ends =
     (if \<not> start < length tokens then (starts, ends)
      else if ptok_lexer_kind (tokens ! start) \<noteq> PoundKind then pound_run_loop tokens (Suc start) starts ends
      else
        let stop = pound_run_end tokens (Suc start)
        in pound_run_loop tokens stop (fill_range starts start stop start) (fill_range ends start stop stop))"
  by auto
termination
proof (relation "measure (\<lambda>(tokens, start, starts, ends). length tokens - start)", goal_cases)
  case (3 tokens start starts ends stop)
  with pound_run_end_ge [of "Suc start" tokens] show ?case by auto
qed auto

declare pound_run_loop.simps [simp del]

definition pound_run_bounds :: "parser_token list \<Rightarrow> nat list \<times> nat list" where
  "pound_run_bounds tokens = pound_run_loop tokens 0 [0 ..< length tokens] [1 ..< Suc (length tokens)]"

definition token_rewrite_guard_new :: "lexer \<Rightarrow> glue \<Rightarrow> bytes \<Rightarrow> source_syntax_error + token_rewrite_guard" where
  "token_rewrite_guard_new tokenize glue source =
     bind_result (tokenize_parser_tokens tokenize glue source) (\<lambda>tokens.
       let (starts, ends) = pound_run_bounds tokens
       in Inr \<lparr>guard_source = source, guard_tokens = tokens, pound_run_starts = starts,
               pound_run_ends = ends\<rparr>)"

section \<open>The window of a deletion\<close>

fun scan_deleted :: "byte_range \<Rightarrow> parser_token list \<Rightarrow> nat \<Rightarrow> nat option" where
  "scan_deleted deletion [] right_start = Some right_start"
| "scan_deleted deletion (t # ts) right_start =
     (if br_start (ptok_range t) \<ge> br_end deletion then Some right_start
      else if \<not> range_contains deletion (ptok_range t) then None
      else scan_deleted deletion ts (Suc right_start))"

definition boundary_left :: "token_rewrite_guard \<Rightarrow> nat \<Rightarrow> nat" where
  "boundary_left g deleted_from =
     (if deleted_from = 0 then 0
      else
        let adjacent = deleted_from - 1
        in if ptok_lexer_kind (guard_tokens g ! adjacent) = PoundKind
           then pound_run_starts g ! adjacent - 2 else adjacent - 1)"

definition boundary_right :: "token_rewrite_guard \<Rightarrow> nat \<Rightarrow> nat" where
  "boundary_right g deleted_to =
     (if deleted_to < length (guard_tokens g)
      then
        min (if ptok_lexer_kind (guard_tokens g ! deleted_to) = PoundKind
             then pound_run_ends g ! deleted_to + 2 else deleted_to + 2)
          (length (guard_tokens g))
      else deleted_to)"

definition find_deletion_boundary :: "token_rewrite_guard \<Rightarrow> byte_range \<Rightarrow> deletion_boundary option" where
  "find_deletion_boundary g deletion =
     (if br_start deletion \<ge> br_end deletion \<or> br_end deletion > length (guard_source g)
         \<or> \<not> is_char_boundary (guard_source g) (br_start deletion)
         \<or> \<not> is_char_boundary (guard_source g) (br_end deletion)
      then None
      else
        let first = partition_point (\<lambda>t. br_end (ptok_range t) \<le> br_start deletion) (guard_tokens g)
        in case scan_deleted deletion (drop first (guard_tokens g)) first of
             None \<Rightarrow> None
           | Some past \<Rightarrow>
               let left = boundary_left g first; right = boundary_right g past
               in Some \<lparr>deleted_start = first, deleted_end = past, left_start = left, right_end = right,
                    window_start =
                      (if left < first then br_start (ptok_range (guard_tokens g ! left)) else br_start deletion),
                    window_end =
                      (if past < right then br_end (ptok_range (guard_tokens g ! (right - 1)))
                       else br_end deletion)\<rparr>)"

definition deletion_dependency_window :: "token_rewrite_guard \<Rightarrow> byte_range \<Rightarrow> byte_range option" where
  "deletion_dependency_window g deletion = map_option boundary_window (find_deletion_boundary g deletion)"

section \<open>The identity test\<close>

text \<open>The text of the window with the deletions left out; \<open>None\<close> where a slice is not valid.\<close>

fun window_text :: "bytes \<Rightarrow> byte_range list \<Rightarrow> nat \<Rightarrow> nat \<Rightarrow> bytes \<Rightarrow> bytes option" where
  "window_text source [] cursor stop acc = map_option (\<lambda>text. acc @ text) (str_get source cursor stop)"
| "window_text source (d # ds) cursor stop acc =
     (case str_get source cursor (br_start d) of
        None \<Rightarrow> None
      | Some text \<Rightarrow> window_text source ds (br_end d) stop (acc @ text))"

text \<open>The scan over the original tokens of the window, with the deletions still ahead.\<close>

fun compare_tokens :: "byte_range list \<Rightarrow> parser_token list \<Rightarrow> parser_token list \<Rightarrow> bool" where
  "compare_tokens deletions [] actual = (actual = [])"
| "compare_tokens deletions (t # ts) actual =
     (let ahead = dropWhile (\<lambda>d. br_end d \<le> br_start (ptok_range t)) deletions
      in if ahead \<noteq> [] \<and> range_contains (hd ahead) (ptok_range t) then compare_tokens ahead ts actual
         else case actual of
             [] \<Rightarrow> False
           | rewritten # rest \<Rightarrow> same_identity t rewritten \<and> compare_tokens ahead ts rest)"

definition deletions_preserve_identity ::
  "lexer \<Rightarrow> glue \<Rightarrow> token_rewrite_guard \<Rightarrow> byte_range list \<Rightarrow> bool" where
  "deletions_preserve_identity tokenize glue g deletions =
     (if deletions = [] \<or> list_ex (\<lambda>(a, b). br_end a > br_start b) (windows2 deletions) then False
      else case find_deletion_boundary g (hd deletions) of
        None \<Rightarrow> False
      | Some boundary \<Rightarrow>
          let window = boundary_window boundary
          in if list_ex (\<lambda>d. deletion_dependency_window g d \<noteq> Some window) (tl deletions) then False
             else case window_text (guard_source g) deletions (br_start window) (br_end window) [] of
               None \<Rightarrow> False
             | Some rewritten \<Rightarrow>
                 (case tokenize_parser_tokens tokenize glue rewritten of
                    Inl e \<Rightarrow> False
                  | Inr actual \<Rightarrow>
                      compare_tokens deletions
                        (drop (left_start boundary) (take (right_end boundary) (guard_tokens g))) actual))"

definition pound_deletion_preserves_identity :: "token_rewrite_guard \<Rightarrow> byte_range \<Rightarrow> bool" where
  "pound_deletion_preserves_identity g deletion =
     (case find_deletion_boundary g deletion of
        None \<Rightarrow> False
      | Some b \<Rightarrow>
          if deleted_end b \<noteq> deleted_start b + 1 then False
          else
            let i = deleted_start b; token = guard_tokens g ! i
            in if ptok_range token \<noteq> deletion \<or> ptok_lexer_kind token \<noteq> PoundKind then False
               else
                 i > pound_run_starts g ! i
                   \<and> br_end (ptok_range (guard_tokens g ! (i - 1))) < br_start (ptok_range token)
                 \<or> i + 1 < pound_run_ends g ! i
                   \<and> br_end (ptok_range token) < br_start (ptok_range (guard_tokens g ! (i + 1))))"

definition deletion_preserves_identity :: "lexer \<Rightarrow> glue \<Rightarrow> token_rewrite_guard \<Rightarrow> byte_range \<Rightarrow> bool" where
  "deletion_preserves_identity tokenize glue g deletion \<longleftrightarrow>
     pound_deletion_preserves_identity g deletion
     \<or> deletions_preserve_identity tokenize glue g [deletion]"

section \<open>The runs are maximal\<close>

lemma pound_run_end_spec:
  assumes "stop \<le> length tokens"
  shows "stop \<le> pound_run_end tokens stop \<and> pound_run_end tokens stop \<le> length tokens
    \<and> (\<forall>j. stop \<le> j \<and> j < pound_run_end tokens stop \<longrightarrow> ptok_lexer_kind (tokens ! j) = PoundKind)
    \<and> (pound_run_end tokens stop < length tokens
        \<longrightarrow> ptok_lexer_kind (tokens ! pound_run_end tokens stop) \<noteq> PoundKind)"
  using assms
proof (induction tokens stop rule: pound_run_end.induct)
  case (1 tokens stop)
  show ?case
  proof (cases "stop < length tokens \<and> ptok_lexer_kind (tokens ! stop) = PoundKind")
    case True
    then have e: "pound_run_end tokens stop = pound_run_end tokens (Suc stop)"
      by (subst pound_run_end.simps) simp
    from 1(1) [OF True] True show ?thesis
      unfolding e by (metis Suc_leD Suc_leI antisym_conv2)
  next
    case False
    then have "pound_run_end tokens stop = stop" by (subst pound_run_end.simps) (simp only: if_False)
    with False 1(2) show ?thesis by auto
  qed
qed

text \<open>The bounds of the run a token stands in: maximal for a pound sign, itself for another.\<close>

definition run_bounds_at :: "parser_token list \<Rightarrow> nat \<Rightarrow> nat \<Rightarrow> nat \<Rightarrow> bool" where
  "run_bounds_at tokens i a b \<longleftrightarrow>
     (if ptok_lexer_kind (tokens ! i) = PoundKind
      then a \<le> i \<and> i < b \<and> b \<le> length tokens
        \<and> list_all (\<lambda>j. ptok_lexer_kind (tokens ! j) = PoundKind) [a ..< b]
        \<and> (a = 0 \<or> ptok_lexer_kind (tokens ! (a - 1)) \<noteq> PoundKind)
        \<and> (b = length tokens \<or> ptok_lexer_kind (tokens ! b) \<noteq> PoundKind)
      else a = i \<and> b = Suc i)"

definition runs_upto :: "parser_token list \<Rightarrow> nat \<Rightarrow> nat list \<Rightarrow> nat list \<Rightarrow> bool" where
  "runs_upto tokens n starts ends \<longleftrightarrow>
     length starts = length tokens \<and> length ends = length tokens
     \<and> (\<forall>i < length tokens. if i < n then run_bounds_at tokens i (starts ! i) (ends ! i)
          else starts ! i = i \<and> ends ! i = Suc i)
     \<and> (n = 0 \<or> length tokens \<le> n \<or> ptok_lexer_kind (tokens ! (n - 1)) \<noteq> PoundKind
        \<or> ptok_lexer_kind (tokens ! n) \<noteq> PoundKind)"

lemma fill_range_nth:
  "a \<le> b \<Longrightarrow> b \<le> length xs \<Longrightarrow> i < length xs \<Longrightarrow>
     fill_range xs a b v ! i = (if a \<le> i \<and> i < b then v else xs ! i)"
  by (auto simp: fill_range_def nth_append min_def)

lemma fill_range_length [simp]: "a \<le> b \<Longrightarrow> b \<le> length xs \<Longrightarrow> length (fill_range xs a b v) = length xs"
  by (simp add: fill_range_def)

lemma runs_upto_other:
  assumes "runs_upto tokens n starts ends" and "n < length tokens"
    and "ptok_lexer_kind (tokens ! n) \<noteq> PoundKind"
  shows "runs_upto tokens (Suc n) starts ends"
  using assms unfolding runs_upto_def by (auto simp: less_Suc_eq run_bounds_at_def [of tokens n])

lemma runs_upto_run:
  assumes "runs_upto tokens n starts ends" and "n < length tokens"
    and "ptok_lexer_kind (tokens ! n) = PoundKind"
  defines "m \<equiv> pound_run_end tokens (Suc n)"
  shows "runs_upto tokens m (fill_range starts n m n) (fill_range ends n m m)"
proof -
  from assms(2) have "Suc n \<le> length tokens" by simp
  note P = pound_run_end_spec [OF this, folded m_def]
  have len: "length starts = length tokens" "length ends = length tokens"
    using assms(1) by (auto simp: runs_upto_def)
  have first: "n = 0 \<or> ptok_lexer_kind (tokens ! (n - 1)) \<noteq> PoundKind"
    using assms(1-3) by (auto simp: runs_upto_def)
  have all: "ptok_lexer_kind (tokens ! j) = PoundKind" if "n \<le> j" "j < m" for j
    using that P assms(3) by (cases "j = n") auto
  have "if i < m then run_bounds_at tokens i (fill_range starts n m n ! i) (fill_range ends n m m ! i)
      else fill_range starts n m n ! i = i \<and> fill_range ends n m m ! i = Suc i"
    if i: "i < length tokens" for i
  proof (cases "n \<le> i \<and> i < m")
    case True
    with P first all len i show ?thesis
      by (auto simp: fill_range_nth run_bounds_at_def list_all_iff)
  next
    case False
    with assms(1) P len i show ?thesis
      by (auto simp: fill_range_nth runs_upto_def)
  qed
  with P len show ?thesis
    unfolding runs_upto_def by (auto simp: not_less)
qed

lemma pound_run_loop_runs:
  assumes "runs_upto tokens n starts ends" and "n \<le> length tokens"
  shows "case pound_run_loop tokens n starts ends of (a, b) \<Rightarrow> runs_upto tokens (length tokens) a b"
  using assms
proof (induction tokens n starts ends rule: pound_run_loop.induct)
  case (1 tokens n starts ends)
  show ?case
  proof (cases "n < length tokens")
    case False
    with 1(3,4) show ?thesis by (subst pound_run_loop.simps) auto
  next
    case lt: True
    show ?thesis
    proof (cases "ptok_lexer_kind (tokens ! n) = PoundKind")
      case False
      with 1(1) [OF _ False runs_upto_other [OF 1(3) lt False]] lt show ?thesis
        by (subst pound_run_loop.simps) simp
    next
      case True
      from lt have "Suc n \<le> length tokens" by simp
      from pound_run_end_spec [OF this] have "pound_run_end tokens (Suc n) \<le> length tokens" by simp
      with 1(2) [OF _ _ refl runs_upto_run [OF 1(3) lt True]] lt True show ?thesis
        by (subst pound_run_loop.simps) (simp add: Let_def)
    qed
  qed
qed

text \<open>
  The precomputed runs are exact.  For every token, \<open>pound_run_bounds\<close> holds the maximal run
  of consecutive \<open>#\<close> tokens around it (the token itself when it is not a \<open>#\<close>), so
  the window of a deletion takes in the whole run that a raw string or raw identifier could read.
\<close>

theorem pound_run_bounds_exact:
  "length (fst (pound_run_bounds tokens)) = length tokens
   \<and> length (snd (pound_run_bounds tokens)) = length tokens
   \<and> list_all (\<lambda>i. run_bounds_at tokens i (fst (pound_run_bounds tokens) ! i) (snd (pound_run_bounds tokens) ! i))
       [0 ..< length tokens]"
proof -
  have "runs_upto tokens 0 [0 ..< length tokens] [1 ..< Suc (length tokens)]"
    by (auto simp: runs_upto_def simp del: upt_Suc)
  from pound_run_loop_runs [OF this] show ?thesis
    unfolding pound_run_bounds_def [symmetric]
    by (auto simp: runs_upto_def list_all_iff split: prod.splits)
qed

section \<open>Where parser tokens lie\<close>

text \<open>What the code relies on: no token of the lexer is empty.\<close>

definition lexer_positive :: "lexer \<Rightarrow> bool" where
  "lexer_positive tokenize \<longleftrightarrow> (\<forall>s. \<forall>t \<in> set (tokenize s). 0 < snd t)"

definition in_order :: "byte_range list \<Rightarrow> bool" where
  "in_order rs \<longleftrightarrow> sorted_wrt (\<lambda>a b. br_end a \<le> br_start b) rs"

definition tokens_placed :: "bytes \<Rightarrow> parser_token list \<Rightarrow> bool" where
  "tokens_placed source tokens \<longleftrightarrow>
     in_order (map ptok_range tokens)
     \<and> (\<forall>t \<in> set tokens. br_start (ptok_range t) < br_end (ptok_range t)
          \<and> valid_source_range source (ptok_range t)
          \<and> str_get source (br_start (ptok_range t)) (br_end (ptok_range t)) = Some (ptok_text t))"

lemma str_get_append:
  assumes "str_get s a b = Some u" and "str_get s b c = Some v"
  shows "str_get s a c = Some (u @ v)"
proof -
  have "map ((!) s) [a..<b] @ map ((!) s) [b..<c] = map ((!) s) [a..<c]" if "a \<le> b" "b \<le> c"
    using that by (metis map_append upt_split)
  with assms show ?thesis
    by (auto simp: str_get_def take_drop_map_nth split: if_splits)
qed

lemma tokens_placed_snoc:
  assumes "tokens_placed source tokens" and "\<forall>t \<in> set tokens. br_end (ptok_range t) \<le> offset"
    and "offset < stop" and "str_get source offset stop = Some text"
  shows "tokens_placed source (tokens @
      [\<lparr>ptok_range = ByteRange offset stop, ptok_text = text, ptok_lexer_kind = k, ptok_punctuation = q\<rparr>])"
  using assms
  by (auto simp: tokens_placed_def in_order_def sorted_wrt_append str_get_def valid_source_range_def
      split: if_splits)

lemma tokens_placed_glue:
  assumes "tokens_placed source (tokens @ [t])" and "br_end (ptok_range t) = offset"
    and "offset < stop" and "str_get source offset stop = Some text"
  shows "tokens_placed source (tokens @
      [t\<lparr>ptok_range := ByteRange (br_start (ptok_range t)) stop,
         ptok_text := ptok_text t @ text, ptok_punctuation := q\<rparr>])"
proof -
  from assms(1,2,4) have g: "str_get source (br_start (ptok_range t)) stop = Some (ptok_text t @ text)"
    by (auto simp: tokens_placed_def intro: str_get_append)
  then have "valid_source_range source (ByteRange (br_start (ptok_range t)) stop)"
    by (auto simp: str_get_def valid_source_range_def split: if_splits)
  moreover have "br_start (ptok_range t) < stop"
    using assms(1-3) by (auto simp: tokens_placed_def)
  ultimately show ?thesis
    using assms(1) g by (auto simp: tokens_placed_def in_order_def sorted_wrt_append)
qed

lemma glued_token_Some:
  "glued_token glue tokens offset separated q = Some (p, k) \<Longrightarrow>
     \<exists>ts. tokens = ts @ [p] \<and> br_end (ptok_range p) = offset"
  by (auto simp: glued_token_def split: if_splits option.splits intro: exI [of _ "butlast tokens"])

lemma parser_tokens_loop_placed:
  assumes "parser_tokens_loop glue source ts tokens offset separated = Inr (tokens', offset')"
    and "tokens_placed source tokens" and "\<forall>t \<in> set tokens. br_end (ptok_range t) \<le> offset"
    and "\<forall>t \<in> set ts. 0 < snd t"
  shows "tokens_placed source tokens'"
  using assms
proof (induction ts arbitrary: tokens offset separated)
  case Nil
  then show ?case by simp
next
  case (Cons t ts)
  obtain kind len where t: "t = (kind, len)" by (cases t)
  let ?stop = "offset + len"
  from Cons.prems(1) obtain piece where piece: "str_get source offset ?stop = Some piece" "?stop \<le> u32_max"
    by (auto simp: t bind_result_eq_Inr)
  have lt: "offset < ?stop" using Cons.prems(4) by (simp add: t)
  have step: "checked_add_u32 offset len = Some ?stop" using piece(2) by (simp add: checked_add_u32_def)
  note code = Cons.prems(1) [unfolded t parser_tokens_loop.simps(2) step ok_or_Some bind_result_Inr piece(1) Let_def]
  have pos: "\<forall>t \<in> set ts. 0 < snd t" using Cons.prems(4) by simp
  show ?case
  proof (cases "is_trivia kind")
    case True
    with code Cons.IH [OF _ Cons.prems(2) _ pos, of ?stop True] Cons.prems(3) lt show ?thesis
      by fastforce
  next
    case nt: False
    let ?g = "glued_token glue tokens offset separated (parser_punctuation piece)"
    show ?thesis
    proof (cases ?g)
      case None
      from tokens_placed_snoc [OF Cons.prems(2,3) lt piece(1), of kind "parser_punctuation piece"]
        Cons.IH [OF _ _ _ pos] code nt None Cons.prems(3) lt show ?thesis by fastforce
    next
      case (Some pk)
      obtain p k where pk: "pk = (p, k)" by (cases pk)
      from glued_token_Some [of glue tokens] Some pk obtain us where
        us: "tokens = us @ [p]" "br_end (ptok_range p) = offset" by blast
      from tokens_placed_glue [OF Cons.prems(2) [unfolded us(1)] us(2) lt piece(1), of "Some k"]
        Cons.IH [OF _ _ _ pos] code nt Some pk Cons.prems(3) lt us show ?thesis by fastforce
    qed
  qed
qed

lemma tokenize_parser_tokens_placed:
  assumes "lexer_positive tokenize" and "tokenize_parser_tokens tokenize glue source = Inr tokens"
  shows "tokens_placed source tokens"
proof -
  from assms(2) obtain offset where
    "parser_tokens_loop glue source (tokenize source) [] 0 True = Inr (tokens, offset)"
    by (auto simp: tokenize_parser_tokens_def bind_result_eq_Inr split: if_splits)
  then show ?thesis
    by (rule parser_tokens_loop_placed)
       (use assms(1) in \<open>auto simp: tokens_placed_def in_order_def lexer_positive_def\<close>)
qed

section \<open>The scan is a filter\<close>

lemma compare_tokens_filter:
  assumes "in_order ds" and "in_order (map ptok_range ts)" and "\<forall>d \<in> set ds. br_start d < br_end d"
    and "\<forall>t \<in> set ts. br_start (ptok_range t) < br_end (ptok_range t)"
  shows "compare_tokens ds ts actual \<longleftrightarrow>
    list_all2 same_identity (filter (\<lambda>t. \<forall>d \<in> set ds. \<not> range_contains d (ptok_range t)) ts) actual"
  using assms
proof (induction ts arbitrary: ds actual)
  case Nil
  then show ?case by simp
next
  case (Cons t ts)
  let ?past = "\<lambda>d. br_end d \<le> br_start (ptok_range t)"
  let ?ahead = "dropWhile ?past ds"
  let ?free = "\<lambda>ds t. \<forall>d \<in> set ds. \<not> range_contains d (ptok_range t)"
  have ds: "set ds = set (takeWhile ?past ds) \<union> set ?ahead"
    by (metis set_append takeWhile_dropWhile_id)
  have ahead: "in_order ?ahead" "\<forall>d \<in> set ?ahead. br_start d < br_end d"
    using Cons.prems(1,3) by (auto simp: in_order_def dest: set_dropWhileD)
  have later: "br_start (ptok_range t) \<le> br_start (ptok_range u)" if "u \<in> set (t # ts)" for u
    using that Cons.prems(2,4) by (fastforce simp: in_order_def)
  have "\<not> range_contains d (ptok_range u)" if "d \<in> set (takeWhile ?past ds)" "u \<in> set (t # ts)" for d u
    using set_takeWhileD [OF that(1)] later [OF that(2)] Cons.prems(4) that(2)
    by (fastforce simp: range_contains_def)
  then have free: "?free ds u \<longleftrightarrow> ?free ?ahead u" if "u \<in> set (t # ts)" for u
    using that by (auto simp: ds)
  then have eq: "filter (?free ds) (t # ts) = filter (?free ?ahead) (t # ts)"
    by (intro filter_cong) auto
  have hd: "?free ?ahead t \<longleftrightarrow> \<not> (?ahead \<noteq> [] \<and> range_contains (hd ?ahead) (ptok_range t))"
  proof (cases ?ahead)
    case (Cons h hs)
    then have "\<not> ?past h" by (metis hd_dropWhile list.sel(1) list.distinct(1))
    then have "\<not> range_contains d (ptok_range t)" if "d \<in> set hs" for d
      using that ahead(1) Cons by (fastforce simp: in_order_def range_contains_def)
    with Cons show ?thesis by auto
  next
    case Nil
    show ?thesis by (simp only: Nil list.set(1) ball_empty simp_thms)
  qed
  have IH: "compare_tokens ?ahead ts actual' \<longleftrightarrow> list_all2 same_identity (filter (?free ?ahead) ts) actual'" for actual'
    by (rule Cons.IH [OF ahead(1) _ ahead(2)]) (use Cons.prems(2,4) in \<open>auto simp: in_order_def\<close>)
  show ?case
  proof (cases "?ahead \<noteq> [] \<and> range_contains (hd ?ahead) (ptok_range t)")
    case True
    with hd have "\<not> ?free ?ahead t" by blast
    then have drop: "filter (?free ?ahead) (t # ts) = filter (?free ?ahead) ts" by (simp only: filter.simps if_False)
    show ?thesis unfolding eq drop compare_tokens.simps Let_def if_P [OF True] by (rule IH)
  next
    case False
    with hd have "?free ?ahead t" by blast
    then have keep: "filter (?free ?ahead) (t # ts) = t # filter (?free ?ahead) ts" by simp
    show ?thesis unfolding eq keep compare_tokens.simps Let_def if_not_P [OF False]
      by (cases actual) (simp_all only: list.case IH list_all2_Cons list_all2_Nil2 list.distinct(2) list.distinct(1))
  qed
qed

section \<open>What a window covers\<close>

lemma scan_deleted_spec:
  "scan_deleted d ts n = Some m \<Longrightarrow>
     n \<le> m \<and> m \<le> n + length ts
     \<and> (m < n + length ts \<longrightarrow> br_end d \<le> br_start (ptok_range (ts ! (m - n))))"
proof (induction ts arbitrary: n)
  case (Cons t ts)
  show ?case
  proof (cases "br_start (ptok_range t) \<ge> br_end d")
    case True
    with Cons.prems show ?thesis by simp
  next
    case False
    with Cons.prems have "scan_deleted d ts (Suc n) = Some m" by (simp split: if_splits)
    from Cons.IH [OF this] show ?thesis by (auto simp: nth_Cons')
  qed
qed simp

lemma boundary_covers:
  assumes "find_deletion_boundary g d = Some b" and placed: "tokens_placed (guard_source g) (guard_tokens g)"
  shows "br_start d < br_end d" "window_start b \<le> br_start d" "br_end d \<le> window_end b"
    "window_end b \<le> length (guard_source g)"
    "is_char_boundary (guard_source g) (window_start b)" "is_char_boundary (guard_source g) (window_end b)"
    "is_char_boundary (guard_source g) (br_start d)" "is_char_boundary (guard_source g) (br_end d)"
proof -
  let ?ts = "guard_tokens g" and ?src = "guard_source g"
  let ?first = "partition_point (\<lambda>t. br_end (ptok_range t) \<le> br_start d) ?ts"
  from assms(1) have d: "br_start d < br_end d" "br_end d \<le> length ?src"
    "is_char_boundary ?src (br_start d)" "is_char_boundary ?src (br_end d)"
    by (auto simp: find_deletion_boundary_def split: if_splits)
  from assms(1) d obtain past where past: "scan_deleted d (drop ?first ?ts) ?first = Some past"
    and b: "window_start b = (if boundary_left g ?first < ?first
        then br_start (ptok_range (?ts ! boundary_left g ?first)) else br_start d)"
      "window_end b = (if past < boundary_right g past
        then br_end (ptok_range (?ts ! (boundary_right g past - 1))) else br_end d)"
    by (auto simp: find_deletion_boundary_def Let_def split: if_splits option.splits)
  have place: "br_start (ptok_range (?ts ! i)) < br_end (ptok_range (?ts ! i))"
    "valid_source_range ?src (ptok_range (?ts ! i))" if "i < length ?ts" for i
    using placed that by (auto simp: tokens_placed_def)
  have order: "br_end (ptok_range (?ts ! i)) \<le> br_start (ptok_range (?ts ! j))" if "i < j" "j < length ?ts" for i j
    using placed that by (auto simp: tokens_placed_def in_order_def sorted_wrt_iff_nth_less)
  have first: "?first \<le> length ?ts" by (rule partition_point_le)
  have left: "window_start b \<le> br_start d \<and> is_char_boundary ?src (window_start b)"
  proof (cases "boundary_left g ?first < ?first")
    case True
    with first have "boundary_left g ?first < length ?ts" by simp
    with place [OF this] partition_point_before [OF True] True d show ?thesis
      by (auto simp: b valid_source_range_def)
  qed (simp add: b d)
  have right: "br_end d \<le> window_end b \<and> window_end b \<le> length ?src \<and> is_char_boundary ?src (window_end b)"
  proof (cases "past < boundary_right g past")
    case True
    then have len: "past < length ?ts" by (auto simp: boundary_right_def split: if_splits)
    with True have r: "past \<le> boundary_right g past - 1" "boundary_right g past - 1 < length ?ts"
      by (auto simp: boundary_right_def)
    have "br_end d \<le> br_start (ptok_range (?ts ! past))"
      using scan_deleted_spec [OF past] len first by auto
    also have "\<dots> < br_end (ptok_range (?ts ! past))" by (rule place(1) [OF len])
    also have "\<dots> \<le> br_end (ptok_range (?ts ! (boundary_right g past - 1)))"
      using r place(1) [OF r(2)] order [of past "boundary_right g past - 1"]
      by (cases "past = boundary_right g past - 1") auto
    finally show ?thesis using True place(2) [OF r(2)] by (auto simp: b valid_source_range_def)
  qed (simp add: b d)
  from left right d show "br_start d < br_end d" "window_start b \<le> br_start d" "br_end d \<le> window_end b"
    "window_end b \<le> length ?src" "is_char_boundary ?src (window_start b)"
    "is_char_boundary ?src (window_end b)" "is_char_boundary ?src (br_start d)" "is_char_boundary ?src (br_end d)"
    by auto
qed

lemma window_text_outside:
  assumes "in_order ds" and "\<forall>d \<in> set ds. br_start d < br_end d \<and> c \<le> br_start d \<and> br_end d \<le> stop
      \<and> is_char_boundary source (br_start d) \<and> is_char_boundary source (br_end d)"
    and "c \<le> stop" and "stop \<le> length source" and "is_char_boundary source c" and "is_char_boundary source stop"
  shows "window_text source ds c stop acc
    = Some (acc @ map ((!) source) (filter (\<lambda>i. \<forall>d \<in> set ds. i \<notin> range_bytes d) [c..<stop]))"
  using assms
proof (induction ds arbitrary: c acc)
  case Nil
  then show ?case by (simp add: str_get_def take_drop_map_nth)
next
  case (Cons d ds)
  from Cons.prems have d: "c \<le> br_start d" "br_start d \<le> br_end d" "br_end d \<le> stop"
    "is_char_boundary source (br_start d)" "is_char_boundary source (br_end d)"
    "\<forall>d' \<in> set ds. br_end d \<le> br_start d'" "in_order ds"
    by (auto simp: in_order_def less_imp_le)
  have "str_get source c (br_start d) = Some (map ((!) source) [c..<br_start d])"
    using d Cons.prems(4,5) by (simp add: str_get_def take_drop_map_nth)
  moreover have "window_text source ds (br_end d) stop (acc @ map ((!) source) [c..<br_start d])
    = Some ((acc @ map ((!) source) [c..<br_start d])
        @ map ((!) source) (filter (\<lambda>i. \<forall>d \<in> set ds. i \<notin> range_bytes d) [br_end d..<stop]))"
    by (rule Cons.IH) (use d Cons.prems in auto)
  ultimately show ?case
    unfolding filter_outside_Cons [OF d(1-3,6)] by simp
qed

lemma windows2_in_order:
  assumes "\<forall>d \<in> set ds. br_start d < br_end d"
  shows "list_ex (\<lambda>(a, b). br_end a > br_start b) (windows2 ds) \<longleftrightarrow> \<not> in_order ds"
  using assms
proof (induction ds rule: induct_list012)
  case (3 x y zs)
  then have IH: "list_ex (\<lambda>(a, b). br_start b < br_end a) (windows2 (y # zs)) \<longleftrightarrow> \<not> in_order (y # zs)"
    by simp
  have "in_order (x # y # zs) \<longleftrightarrow> br_end x \<le> br_start y \<and> in_order (y # zs)"
    using 3(3) unfolding in_order_def by (fastforce simp: less_imp_le)
  with IH show ?case by (simp add: not_less) (metis not_less)
qed (auto simp: in_order_def)

lemma token_rewrite_guard_new_placed:
  assumes "lexer_positive tokenize" and "token_rewrite_guard_new tokenize glue source = Inr g"
  shows "tokens_placed (guard_source g) (guard_tokens g)" and "guard_source g = source"
proof -
  from assms(2) obtain tokens where "tokenize_parser_tokens tokenize glue source = Inr tokens"
    "guard_source g = source" "guard_tokens g = tokens"
    by (auto simp: token_rewrite_guard_new_def bind_result_eq_Inr split_def Let_def)
  with tokenize_parser_tokens_placed [OF assms(1)]
  show "tokens_placed (guard_source g) (guard_tokens g)" and "guard_source g = source" by auto
qed

text \<open>
  C17. The identity test does what it says.  On a guard built for a source, with a lexer that
  yields no empty token, \<open>deletions_preserve_identity\<close> accepts a list of deletions exactly when
  they are in order without overlap, all of them have the same re-lexing window, and lexing the
  window's text without the deleted bytes gives, one by one and with the same text and kinds, the
  original tokens of the window that no deletion contains.  The scan with its moving index and the
  slicing of the window never change this answer.
\<close>

theorem deletions_preserve_identity_exact:
  assumes "lexer_positive tokenize" and "token_rewrite_guard_new tokenize glue source = Inr g"
  shows "deletions_preserve_identity tokenize glue g ds \<longleftrightarrow>
    ds \<noteq> [] \<and> in_order ds
    \<and> (\<exists>b actual. find_deletion_boundary g (hd ds) = Some b
        \<and> list_all (\<lambda>d. deletion_dependency_window g d = Some (boundary_window b)) ds
        \<and> tokenize_parser_tokens tokenize glue
            (map ((!) source) (filter (\<lambda>i. list_all (\<lambda>d. i \<notin> range_bytes d) ds) [window_start b..<window_end b]))
          = Inr actual
        \<and> list_all2 same_identity
            (filter (\<lambda>t. list_all (\<lambda>d. \<not> range_contains d (ptok_range t)) ds)
              (drop (left_start b) (take (right_end b) (guard_tokens g)))) actual)"
proof -
  have placed: "tokens_placed (guard_source g) (guard_tokens g)"
    by (rule token_rewrite_guard_new_placed [OF assms])
  have src: "guard_source g = source"
    by (rule token_rewrite_guard_new_placed [OF assms])
  show ?thesis
  proof (cases "ds \<noteq> [] \<and> (\<exists>b. find_deletion_boundary g (hd ds) = Some b
      \<and> list_all (\<lambda>d. deletion_dependency_window g d = Some (boundary_window b)) ds)")
    case False
    have "\<not> deletions_preserve_identity tokenize glue g ds"
    proof
      assume a: "deletions_preserve_identity tokenize glue g ds"
      then have "ds \<noteq> []" by (auto simp: deletions_preserve_identity_def)
      with a False show False
        by (cases ds) (auto simp: deletions_preserve_identity_def deletion_dependency_window_def list_ex_iff
            list_all_iff Let_def split: option.splits if_splits)
    qed
    with False show ?thesis by blast
  next
    case True
    then obtain b where b: "ds \<noteq> []" "find_deletion_boundary g (hd ds) = Some b"
      "list_all (\<lambda>d. deletion_dependency_window g d = Some (boundary_window b)) ds" by blast
    have each: "br_start d < br_end d \<and> window_start b \<le> br_start d \<and> br_end d \<le> window_end b
        \<and> is_char_boundary source (br_start d) \<and> is_char_boundary source (br_end d)" if "d \<in> set ds" for d
    proof -
      from b(3) that obtain c where c: "find_deletion_boundary g d = Some c" "boundary_window c = boundary_window b"
        by (auto simp: list_all_iff deletion_dependency_window_def)
      from boundary_covers [OF c(1) placed] c(2) show ?thesis by (simp add: boundary_window_def src)
    qed
    note cov = boundary_covers [OF b(2) placed, unfolded src]
    have ne: "\<forall>d \<in> set ds. br_start d < br_end d" using each by blast
    note order = windows2_in_order [OF ne]
    have tl: "\<not> list_ex (\<lambda>d. deletion_dependency_window g d \<noteq> Some (boundary_window b)) (tl ds)"
      using b(1,3) by (cases ds) (auto simp: list_ex_iff list_all_iff)
    have win: "br_start (boundary_window b) = window_start b" "br_end (boundary_window b) = window_end b"
      by (simp_all add: boundary_window_def)
    show ?thesis
    proof (cases "in_order ds")
      case False
      then show ?thesis unfolding deletions_preserve_identity_def order by simp
    next
      case io: True
      let ?out = "map ((!) source) (filter (\<lambda>i. \<forall>d \<in> set ds. i \<notin> range_bytes d) [window_start b..<window_end b])"
      have wt: "window_text source ds (window_start b) (window_end b) [] = Some ?out"
        using window_text_outside [OF io, of "window_start b" "window_end b" source "[]"] each cov by auto
      let ?ts = "drop (left_start b) (take (right_end b) (guard_tokens g))"
      have ts: "in_order (map ptok_range ?ts)" "\<forall>t \<in> set ?ts. br_start (ptok_range t) < br_end (ptok_range t)"
        using placed
        by (auto simp: tokens_placed_def in_order_def drop_map [symmetric] take_map [symmetric]
            dest!: in_set_dropD in_set_takeD)
      show ?thesis
        using b io
        unfolding deletions_preserve_identity_def order
        by (simp add: Let_def tl src wt win compare_tokens_filter [OF io ts(1) ne ts(2)] list_all_iff
            split: sum.splits)
    qed
  qed
qed

text \<open>The guard of the text \<open>a,b\<close> under the lexer of single bytes, gluing nothing.\<close>

definition sample_guard :: token_rewrite_guard where
  "sample_guard =
     \<lparr>guard_source = [97, 44, 98],
      guard_tokens =
        [\<lparr>ptok_range = ByteRange 0 1, ptok_text = [97], ptok_lexer_kind = OtherKind 97, ptok_punctuation = None\<rparr>,
         \<lparr>ptok_range = ByteRange 1 2, ptok_text = [44], ptok_lexer_kind = CommaKind, ptok_punctuation = Some AstComma\<rparr>,
         \<lparr>ptok_range = ByteRange 2 3, ptok_text = [98], ptok_lexer_kind = OtherKind 98, ptok_punctuation = None\<rparr>],
      pound_run_starts = [0, 1, 2], pound_run_ends = [1, 2, 3]\<rparr>"

lemmas guard_evaluation =
  token_rewrite_guard_new_def tokenize_parser_tokens_def byte_lexer_def byte_kind_def checked_add_u32_def
  u32_max_def str_get_def is_char_boundary_def continuation_byte_def parser_punctuation_def glued_token_def
  sample_guard_def Let_def pound_run_bounds_def

lemma sample_guard_new: "token_rewrite_guard_new byte_lexer (\<lambda>_ _. None) [97, 44, 98] = Inr sample_guard"
  by (simp add: guard_evaluation pound_run_loop.simps pound_run_end.simps upt_rec)

lemma byte_lexer_positive: "lexer_positive byte_lexer"
  by (simp add: lexer_positive_def byte_lexer_def)

lemma sample_guard_deletion:
  "deletions_preserve_identity byte_lexer (\<lambda>_ _. None) sample_guard [ByteRange 1 2]"
  by (simp add: guard_evaluation deletions_preserve_identity_def find_deletion_boundary_def partition_point_def
      boundary_left_def boundary_right_def boundary_window_def range_contains_def same_identity_def)

lemma deletions_preserve_identity_exact_witness:
  "\<exists>b actual. find_deletion_boundary sample_guard (ByteRange 1 2) = Some b
    \<and> tokenize_parser_tokens byte_lexer (\<lambda>_ _. None)
        (map ((!) [97, 44, 98]) (filter (\<lambda>i. i \<notin> range_bytes (ByteRange 1 2)) [window_start b..<window_end b]))
      = Inr actual
    \<and> list_all2 same_identity
        (filter (\<lambda>t. \<not> range_contains (ByteRange 1 2) (ptok_range t))
          (drop (left_start b) (take (right_end b) (guard_tokens sample_guard)))) actual"
  using deletions_preserve_identity_exact [OF byte_lexer_positive sample_guard_new, THEN iffD1,
      OF sample_guard_deletion]
  by auto

end
