(* ===== verification/Offsets.thy ===== *)
theory Offsets
  imports Source_Model
begin

text \<open>
  \<open>OriginalOffsetMap\<close> of \<open>src/source.rs\<close>: normalizing a source the way the compiler does, the
  records that say by how much each later position is shifted, and the translation of positions
  and ranges between the normalized and the original text.  A Rust \<open>str\<close> is valid UTF-8, so the
  bytes the code drops or copies leave valid UTF-8 and \<open>String::from_utf8\<close> always accepts them;
  the check is left out.
\<close>

section \<open>Normalizing\<close>

definition byte_order_mark :: bytes where
  "byte_order_mark = [239, 187, 191]"

fun normalize_loop ::
  "bytes \<Rightarrow> bytes \<Rightarrow> normalization_record list \<Rightarrow> nat \<Rightarrow> source_error + bytes \<times> normalization_record list" where
  "normalize_loop [] normalized records diff = Inr (normalized, records)"
| "normalize_loop (b # rest) normalized records diff =
     (if b = 13 \<and> rest \<noteq> [] \<and> hd rest = 10 then
        (let normalized' = normalized @ [10]
         in if length normalized' > u32_max then Inl SourceTooLarge
            else normalize_loop (tl rest) normalized'
                   (records @ [\<lparr>normalized_at = length normalized', norm_diff = diff + 1\<rparr>]) (diff + 1))
      else normalize_loop rest (normalized @ [b]) records diff)"

section \<open>Mapping positions\<close>

text \<open>
  \<open>binary_search_by_key\<close> over the strictly increasing \<open>normalized_at\<close>: the index of the
  record with the key, or the index where it would be inserted.
\<close>

definition search_record :: "normalization_record list \<Rightarrow> nat \<Rightarrow> nat + nat" where
  "search_record records key =
     (let i = partition_point (\<lambda>r. normalized_at r < key) records
      in if i < length records \<and> normalized_at (records ! i) = key then Inr i else Inl i)"

definition map_endpoint :: "original_offset_map \<Rightarrow> nat \<Rightarrow> bool \<Rightarrow> source_error + nat" where
  "map_endpoint m normalized right_bias =
     (if normalized > om_normalized_len m then Inl InvalidSpan
      else
        let diff =
          (case search_record (norm_records m) normalized of
             Inr index \<Rightarrow>
               if right_bias then norm_diff (norm_records m ! index)
               else if index = 0 then 0 else norm_diff (norm_records m ! (index - 1))
           | Inl index \<Rightarrow> if index = 0 then 0 else norm_diff (norm_records m ! (index - 1)))
        in case checked_add_u32 normalized diff of
             None \<Rightarrow> Inl InvalidSpan
           | Some position \<Rightarrow> if position \<le> om_original_len m then Inr position else Inl InvalidSpan)"

definition offset_left :: "original_offset_map \<Rightarrow> nat \<Rightarrow> source_error + nat" where
  "offset_left m normalized = map_endpoint m normalized False"

definition offset_right :: "original_offset_map \<Rightarrow> nat \<Rightarrow> source_error + nat" where
  "offset_right m normalized = map_endpoint m normalized True"

fun normalized_scan :: "normalization_record list \<Rightarrow> nat \<Rightarrow> nat \<Rightarrow> source_error + nat" where
  "normalized_scan [] original previous_diff = ok_or (checked_sub original previous_diff) InvalidSpan"
| "normalized_scan (r # rs) original previous_diff =
     (if original < normalized_at r + previous_diff then ok_or (checked_sub original previous_diff) InvalidSpan
      else if original \<le> normalized_at r + norm_diff r then Inr (normalized_at r)
      else normalized_scan rs original (norm_diff r))"

definition normalized_from_original :: "original_offset_map \<Rightarrow> nat \<Rightarrow> source_error + nat" where
  "normalized_from_original m original =
     (if original > om_original_len m then Inl InvalidSpan else normalized_scan (norm_records m) original 0)"

definition offset_original_range :: "original_offset_map \<Rightarrow> byte_range \<Rightarrow> source_error + byte_range" where
  "offset_original_range m r =
     (if br_start r > br_end r \<or> br_end r > om_normalized_len m then Inl InvalidSpan
      else if br_start r = br_end r then
        bind_result (offset_right m (br_start r)) (\<lambda>point. Inr (ByteRange point point))
      else
        bind_result (offset_right m (br_start r)) (\<lambda>start.
        bind_result (offset_left m (br_end r)) (\<lambda>stop.
          if start > stop then Inl InvalidSpan else Inr (ByteRange start stop))))"

section \<open>Validation and construction\<close>

fun validate_records ::
  "original_offset_map \<Rightarrow> normalization_record list \<Rightarrow> bool \<Rightarrow> nat \<Rightarrow> nat \<Rightarrow> source_error + unit" where
  "validate_records m [] first previous_normalized previous_diff = Inr ()"
| "validate_records m (r # rs) first previous_normalized previous_diff =
     (if normalized_at r > om_normalized_len m
         \<or> norm_diff r \<le> previous_diff
         \<or> (\<not> first \<and> normalized_at r \<le> previous_normalized)
         \<or> checked_add_u32 (normalized_at r) (norm_diff r) = None
         \<or> normalized_at r + norm_diff r > om_original_len m
      then Inl NormalizationMismatch
      else
        bind_result (offset_left m (normalized_at r)) (\<lambda>l.
        bind_result (normalized_from_original m l) (\<lambda>from_left.
          if from_left \<noteq> normalized_at r then Inl NormalizationMismatch
          else
            bind_result (offset_right m (normalized_at r)) (\<lambda>r'.
            bind_result (normalized_from_original m r') (\<lambda>from_right.
              if from_right \<noteq> normalized_at r then Inl NormalizationMismatch
              else validate_records m rs False (normalized_at r) (norm_diff r))))))"

definition validate_offset_map :: "original_offset_map \<Rightarrow> source_error + unit" where
  "validate_offset_map m =
     bind_result (validate_records m (norm_records m) True 0 0) (\<lambda>_.
     bind_result (offset_right m (om_normalized_len m)) (\<lambda>last.
       if last \<noteq> om_original_len m then Inl NormalizationMismatch
       else
         bind_result (normalized_from_original m (om_original_len m)) (\<lambda>back.
           if back \<noteq> om_normalized_len m then Inl NormalizationMismatch else Inr ())))"

definition offset_map_from_source :: "bytes \<Rightarrow> source_error + bytes \<times> original_offset_map" where
  "offset_map_from_source source =
     (if length source \<ge> u32_max then Inl SourceTooLarge
      else
        let marked = take 3 source = byte_order_mark;
            records = (if marked then [\<lparr>normalized_at = 0, norm_diff = 3\<rparr>] else []);
            diff = (if marked then 3 else 0)
        in bind_result (normalize_loop (drop diff source) [] records diff) (\<lambda>(normalized, all_records).
             if length normalized > u32_max then Inl SourceTooLarge
             else
               let m = \<lparr>om_original_len = length source, om_normalized_len = length normalized,
                        norm_records = all_records\<rparr>
               in bind_result (validate_offset_map m) (\<lambda>_. Inr (normalized, m))))"

section \<open>What the records say\<close>

text \<open>The shift in front of a normalized position, and behind it.\<close>

fun shift_below :: "normalization_record list \<Rightarrow> nat \<Rightarrow> nat \<Rightarrow> nat" where
  "shift_below [] k d = d"
| "shift_below (r # rs) k d = (if normalized_at r < k then shift_below rs k (norm_diff r) else d)"

fun shift_upto :: "normalization_record list \<Rightarrow> nat \<Rightarrow> nat \<Rightarrow> nat" where
  "shift_upto [] k d = d"
| "shift_upto (r # rs) k d = (if normalized_at r \<le> k then shift_upto rs k (norm_diff r) else d)"

definition records_increasing :: "normalization_record list \<Rightarrow> nat \<Rightarrow> bool" where
  "records_increasing rs d \<longleftrightarrow>
     sorted_wrt (<) (map normalized_at rs) \<and> sorted_wrt (<) (d # map norm_diff rs)"

definition last_diff :: "normalization_record list \<Rightarrow> nat \<Rightarrow> nat" where
  "last_diff rs d = (if rs = [] then d else norm_diff (last rs))"

definition offset_map_ok :: "original_offset_map \<Rightarrow> bool" where
  "offset_map_ok m \<longleftrightarrow>
     records_increasing (norm_records m) 0
     \<and> (\<forall>r \<in> set (norm_records m). normalized_at r \<le> om_normalized_len m)
     \<and> om_normalized_len m + last_diff (norm_records m) 0 = om_original_len m
     \<and> om_original_len m \<le> u32_max"

lemma records_increasing_Cons [simp]:
  "records_increasing (r # rs) d \<longleftrightarrow>
     d < norm_diff r \<and> records_increasing rs (norm_diff r) \<and> (\<forall>r' \<in> set rs. normalized_at r < normalized_at r')"
  by (auto simp: records_increasing_def)

lemma shift_below_ge: "records_increasing rs d \<Longrightarrow> d \<le> shift_below rs k d"
  by (induction rs arbitrary: d) (auto dest: less_imp_le intro: order_trans)

lemma shift_upto_none: "\<forall>r \<in> set rs. k < normalized_at r \<Longrightarrow> shift_upto rs k d = d"
  by (cases rs) auto

lemma shift_below_none: "\<forall>r \<in> set rs. k \<le> normalized_at r \<Longrightarrow> shift_below rs k d = d"
  by (cases rs) auto

lemma shift_below_upto: "records_increasing rs d \<Longrightarrow> shift_below rs k d \<le> shift_upto rs k d"
proof (induction rs arbitrary: d)
  case (Cons r rs)
  have "d \<le> shift_upto rs k (norm_diff r)"
    using Cons.prems Cons.IH [of "norm_diff r"] shift_below_ge [of rs "norm_diff r" k] by auto
  with Cons show ?case by auto
qed simp

lemma shift_upto_last: "records_increasing rs d \<Longrightarrow> shift_upto rs k d \<le> last_diff rs d"
proof (induction rs arbitrary: d)
  case (Cons r rs)
  have "norm_diff r \<le> last_diff rs (norm_diff r)"
    using Cons.prems by (cases rs) (auto simp: last_diff_def records_increasing_def dest: less_imp_le)
  moreover have "last_diff (r # rs) d = last_diff rs (norm_diff r)"
    by (simp add: last_diff_def)
  ultimately show ?case
    using Cons.prems Cons.IH [of "norm_diff r"] by auto
qed (simp add: last_diff_def)

lemma shift_upto_mono: "records_increasing rs d \<Longrightarrow> j \<le> k \<Longrightarrow> shift_upto rs j d \<le> shift_upto rs k d"
proof (induction rs arbitrary: d)
  case (Cons r rs)
  have "d \<le> shift_upto rs k (norm_diff r)"
    using Cons.prems shift_below_ge [of rs "norm_diff r" k] shift_below_upto [of rs "norm_diff r" k] by auto
  with Cons show ?case by auto
qed simp

lemma shift_upto_all:
  "\<forall>r \<in> set rs. normalized_at r \<le> k \<Longrightarrow> shift_upto rs k d = last_diff rs d"
  by (induction rs arbitrary: d) (auto simp: last_diff_def)

lemma search_record_shift_below:
  "shift_below rs k d =
     (let i = partition_point (\<lambda>r. normalized_at r < k) rs in if i = 0 then d else norm_diff (rs ! (i - 1)))"
proof (induction rs arbitrary: d)
  case (Cons r rs)
  then show ?case
    by (auto simp: partition_point_def Let_def nth_Cons' split: if_splits)
qed (simp add: partition_point_def)

lemma search_record_shift_upto:
  assumes "records_increasing rs d"
  shows "shift_upto rs k d =
     (let i = partition_point (\<lambda>r. normalized_at r < k) rs
      in if i < length rs \<and> normalized_at (rs ! i) = k then norm_diff (rs ! i) else shift_below rs k d)"
  using assms
proof (induction rs arbitrary: d)
  case (Cons r rs)
  from Cons.prems have rest: "records_increasing rs (norm_diff r)"
    "\<forall>r' \<in> set rs. normalized_at r < normalized_at r'" by auto
  consider "normalized_at r < k" | "normalized_at r = k" | "k < normalized_at r" by linarith
  then show ?case
  proof cases
    case 1
    with Cons.IH [OF rest(1)] show ?thesis by (simp add: partition_point_def Let_def)
  next
    case 2
    with shift_upto_none [of rs k "norm_diff r"] rest(2) show ?thesis
      by (simp add: partition_point_def Let_def)
  next
    case 3
    then show ?thesis by (simp add: partition_point_def Let_def)
  qed
qed (simp add: partition_point_def)

lemma map_endpoint_shift:
  assumes "offset_map_ok m" and "k \<le> om_normalized_len m"
  shows "offset_left m k = Inr (k + shift_below (norm_records m) k 0)"
    "offset_right m k = Inr (k + shift_upto (norm_records m) k 0)"
proof -
  let ?rs = "norm_records m"
  from assms(1) have inc: "records_increasing ?rs 0" by (simp add: offset_map_ok_def)
  have bound: "k + shift_upto ?rs k 0 \<le> om_original_len m" "om_original_len m \<le> u32_max"
    using assms shift_upto_last [OF inc, of k] by (auto simp: offset_map_ok_def)
  with shift_below_upto [OF inc, of k] have bound': "k + shift_below ?rs k 0 \<le> om_original_len m"
    by simp
  show "offset_left m k = Inr (k + shift_below ?rs k 0)"
    using assms(2) bound' bound(2)
    by (simp add: offset_left_def map_endpoint_def search_record_def Let_def checked_add_u32_def
        search_record_shift_below [of ?rs k 0] split: if_splits)
  let ?i = "partition_point (\<lambda>r. normalized_at r < k) ?rs"
  show "offset_right m k = Inr (k + shift_upto ?rs k 0)"
  proof (cases "?i < length ?rs \<and> normalized_at (?rs ! ?i) = k")
    case True
    then have "shift_upto ?rs k 0 = norm_diff (?rs ! ?i)" "search_record ?rs k = Inr ?i"
      by (simp_all add: search_record_shift_upto [OF inc, of k] search_record_def Let_def)
    with assms(2) bound show ?thesis
      by (simp add: offset_right_def map_endpoint_def Let_def checked_add_u32_def)
  next
    case False
    then have "shift_upto ?rs k 0 = shift_below ?rs k 0" "search_record ?rs k = Inl ?i"
      by (auto simp add: search_record_shift_upto [OF inc, of k] search_record_def Let_def)
    with assms(2) bound bound' show ?thesis
      by (simp add: offset_right_def map_endpoint_def Let_def checked_add_u32_def
          search_record_shift_below [of ?rs k 0] split: if_splits)
  qed
qed

lemma normalized_scan_iff:
  assumes "records_increasing rs d" and "d \<le> original"
  shows "normalized_scan rs original d = Inr k \<longleftrightarrow>
    k + shift_below rs k d \<le> original \<and> original \<le> k + shift_upto rs k d"
  using assms
proof (induction rs arbitrary: d)
  case Nil
  then show ?case by (auto simp: checked_sub_def)
next
  case (Cons r rs)
  let ?at = "normalized_at r" and ?diff = "norm_diff r"
  from Cons.prems have r: "d < ?diff" "records_increasing rs ?diff"
    "\<forall>r' \<in> set rs. ?at < normalized_at r'" by auto
  have far: "?diff \<le> shift_below rs k ?diff" by (rule shift_below_ge [OF r(2)])
  have near: "shift_below rs k ?diff = ?diff \<and> shift_upto rs k ?diff = ?diff" if "k \<le> ?at"
    using r(3) that by (intro conjI shift_below_none shift_upto_none) auto
  consider (before) "original < ?at + d" | (inside) "?at + d \<le> original" "original \<le> ?at + ?diff"
    | (behind) "?at + ?diff < original"
    by linarith
  then show ?case
  proof cases
    case before
    with Cons.prems(2) r(1) far near show ?thesis
      by (auto simp: checked_sub_def)
  next
    case inside
    with r(1) far near show ?thesis
      by (cases "k < ?at"; cases "k = ?at") auto
  next
    case behind
    then have "normalized_scan (r # rs) original d = normalized_scan rs original ?diff"
      using r(1) by simp
    with Cons.IH [OF r(2)] behind r(1) near show ?thesis
      by (cases "k < ?at"; cases "k = ?at") auto
  qed
qed

lemma normalized_from_original_iff:
  assumes "offset_map_ok m" and "original \<le> om_original_len m"
  shows "normalized_from_original m original = Inr k \<longleftrightarrow>
    k + shift_below (norm_records m) k 0 \<le> original \<and> original \<le> k + shift_upto (norm_records m) k 0"
  using assms normalized_scan_iff [of "norm_records m" 0 original k]
  by (simp add: normalized_from_original_def offset_map_ok_def)

lemma normalized_from_original_ends:
  assumes "offset_map_ok m" and "k \<le> om_normalized_len m"
  shows "normalized_from_original m (k + shift_below (norm_records m) k 0) = Inr k"
    "normalized_from_original m (k + shift_upto (norm_records m) k 0) = Inr k"
proof -
  from assms have inc: "records_increasing (norm_records m) 0" by (simp add: offset_map_ok_def)
  have up: "k + shift_upto (norm_records m) k 0 \<le> om_original_len m"
    using assms shift_upto_last [OF inc, of k] by (auto simp: offset_map_ok_def)
  note le = shift_below_upto [OF inc, of k]
  show "normalized_from_original m (k + shift_below (norm_records m) k 0) = Inr k"
    "normalized_from_original m (k + shift_upto (norm_records m) k 0) = Inr k"
    using up le by (simp_all add: normalized_from_original_iff [OF assms(1)])
qed

lemma validate_records_ok:
  assumes "offset_map_ok m" and "norm_records m = past @ rs" and "records_increasing rs d"
    and "first \<or> (\<forall>r \<in> set rs. a < normalized_at r)"
  shows "validate_records m rs first a d = Inr ()"
  using assms(2-)
proof (induction rs arbitrary: past first a d)
  case (Cons r rs)
  have k: "normalized_at r \<le> om_normalized_len m"
    using assms(1) Cons.prems(1) by (auto simp: offset_map_ok_def)
  have inc: "records_increasing (norm_records m) 0" using assms(1) by (simp add: offset_map_ok_def)
  have "norm_diff r \<le> last_diff (norm_records m) 0"
  proof -
    have "sorted_wrt (<) (map norm_diff (norm_records m))"
      using inc by (simp add: records_increasing_def)
    then show ?thesis
      unfolding Cons.prems(1) last_diff_def
      by (cases rs rule: rev_cases) (auto simp: sorted_wrt_append)
  qed
  with k assms(1) have "normalized_at r + norm_diff r \<le> om_original_len m" "om_original_len m \<le> u32_max"
    by (auto simp: offset_map_ok_def)
  moreover have "validate_records m rs False (normalized_at r) (norm_diff r) = Inr ()"
    by (rule Cons.IH [of "past @ [r]"]) (use Cons.prems in auto)
  ultimately show ?case
    using Cons.prems(2,3) k
    by (auto simp: map_endpoint_shift [OF assms(1) k] normalized_from_original_ends [OF assms(1) k])
qed simp

lemma validate_offset_map_ok:
  assumes "offset_map_ok m"
  shows "validate_offset_map m = Inr ()"
proof -
  have inc: "records_increasing (norm_records m) 0" using assms by (simp add: offset_map_ok_def)
  have r: "om_normalized_len m + shift_upto (norm_records m) (om_normalized_len m) 0 = om_original_len m"
    using assms shift_upto_all [of "norm_records m" "om_normalized_len m" 0] by (simp add: offset_map_ok_def)
  have "validate_records m (norm_records m) True 0 0 = Inr ()"
    by (rule validate_records_ok [OF assms, of "[]"]) (use inc in auto)
  with r map_endpoint_shift(2) [OF assms order_refl] normalized_from_original_ends(2) [OF assms order_refl]
  show ?thesis by (simp add: validate_offset_map_def)
qed

section \<open>Maps built from a source\<close>

text \<open>The specification: the normalized text, and where each of its bytes starts in the original.\<close>

fun normalize_newlines :: "bytes \<Rightarrow> bytes" where
  "normalize_newlines [] = []"
| "normalize_newlines (b # rest) =
     (if b = 13 \<and> rest \<noteq> [] \<and> hd rest = 10 then 10 # normalize_newlines (tl rest)
      else b # normalize_newlines rest)"

fun byte_positions :: "nat \<Rightarrow> bytes \<Rightarrow> nat list" where
  "byte_positions offset [] = [offset]"
| "byte_positions offset (b # rest) =
     (if b = 13 \<and> rest \<noteq> [] \<and> hd rest = 10 then offset # byte_positions (offset + 2) (tl rest)
      else offset # byte_positions (offset + 1) rest)"

definition mark_length :: "bytes \<Rightarrow> nat" where
  "mark_length source = (if take 3 source = byte_order_mark then 3 else 0)"

lemma mark_length_le: "mark_length source \<le> length source"
  by (auto simp: mark_length_def byte_order_mark_def dest: arg_cong [of _ _ length])

lemma byte_positions_length: "length (byte_positions offset s) = Suc (length (normalize_newlines s))"
  by (induction offset s rule: byte_positions.induct) auto

lemma shift_upto_snoc: "k < normalized_at r \<Longrightarrow> shift_upto (rs @ [r]) k d = shift_upto rs k d"
  by (induction rs arbitrary: d) auto

lemma records_increasing_snoc:
  "records_increasing (rs @ [r]) d \<longleftrightarrow>
     records_increasing rs d \<and> last_diff rs d < norm_diff r \<and> (\<forall>r' \<in> set rs. normalized_at r' < normalized_at r)"
proof (induction rs arbitrary: d)
  case (Cons x rs)
  have "last_diff (x # rs) d = last_diff rs (norm_diff x)" by (simp add: last_diff_def)
  with Cons show ?case by auto
qed (auto simp: records_increasing_def last_diff_def)

definition normalize_state ::
  "nat \<Rightarrow> bytes \<Rightarrow> bytes \<Rightarrow> normalization_record list \<Rightarrow> nat \<Rightarrow> bool" where
  "normalize_state full_len rest normalized records diff \<longleftrightarrow>
     records_increasing records 0
     \<and> (\<forall>r \<in> set records. normalized_at r \<le> length normalized)
     \<and> last_diff records 0 = diff
     \<and> length normalized + diff + length rest = full_len"

lemma normalize_loop_exact:
  assumes "normalize_state full_len rest normalized records diff" and "full_len < u32_max"
  shows "\<exists>records'. normalize_loop rest normalized records diff = Inr (normalized @ normalize_newlines rest, records')
    \<and> (\<exists>diff'. normalize_state full_len [] (normalized @ normalize_newlines rest) records' diff')
    \<and> map (\<lambda>k. k + shift_upto records' k 0) [0 ..< Suc (length (normalized @ normalize_newlines rest))]
      = map (\<lambda>k. k + shift_upto records k 0) [0 ..< length normalized]
        @ byte_positions (length normalized + diff) rest"
  using assms
proof (induction rest normalized records diff rule: normalize_loop.induct)
  case (1 normalized records diff)
  then have "shift_upto records (length normalized) 0 = diff"
    by (auto simp: normalize_state_def shift_upto_all)
  with 1 show ?case by auto
next
  case (2 b rest normalized records diff)
  have here: "shift_upto records (length normalized) 0 = diff"
    using 2(3) by (auto simp: normalize_state_def shift_upto_all)
  show ?case
  proof (cases "b = 13 \<and> rest \<noteq> [] \<and> hd rest = 10")
    case True
    let ?N = "normalized @ [10]"
    let ?r = "\<lparr>normalized_at = length ?N, norm_diff = diff + 1\<rparr>"
    obtain rest' where rest: "rest = 10 # rest'" using True by (cases rest) auto
    have st: "normalize_state full_len rest' ?N (records @ [?r]) (diff + 1)"
      using 2(3) by (auto simp: normalize_state_def records_increasing_snoc rest last_diff_def)
    have small: "\<not> length ?N > u32_max"
      using 2(3,4) by (auto simp: normalize_state_def)
    have "map (\<lambda>k. k + shift_upto (records @ [?r]) k 0) [0 ..< length ?N]
        = map (\<lambda>k. k + shift_upto records k 0) [0 ..< length ?N]"
      by (rule map_cong) (auto simp: shift_upto_snoc)
    with here 2(1) [OF True refl small] st 2(4) small show ?thesis
      by (auto simp: rest True Let_def)
  next
    case False
    have st: "normalize_state full_len rest (normalized @ [b]) records diff"
      using 2(3) by (auto simp: normalize_state_def)
    with here 2(2) [OF False st 2(4)] False show ?thesis by auto
  qed
qed

lemma shift_below_Suc: "shift_below rs (Suc k) d = shift_upto rs k d"
  by (induction rs arbitrary: d) auto

lemma offset_map_from_source_ok:
  assumes "length source < u32_max"
  shows "\<exists>m. offset_map_from_source source
        = Inr (normalize_newlines (drop (mark_length source) source), m)
    \<and> offset_map_ok m \<and> om_original_len m = length source
    \<and> om_normalized_len m = length (normalize_newlines (drop (mark_length source) source))
    \<and> map (\<lambda>k. k + shift_upto (norm_records m) k 0) [0 ..< Suc (om_normalized_len m)]
      = byte_positions (mark_length source) (drop (mark_length source) source)"
proof -
  let ?d = "mark_length source" and ?r0 = "if take 3 source = byte_order_mark
      then [\<lparr>normalized_at = 0, norm_diff = 3\<rparr>] else []"
  let ?N = "normalize_newlines (drop (mark_length source) source)"
  have "normalize_state (length source) (drop ?d source) [] ?r0 ?d"
    using mark_length_le [of source]
    by (auto simp: normalize_state_def mark_length_def records_increasing_def last_diff_def)
  from normalize_loop_exact [OF this assms] obtain rs d' where
    loop: "normalize_loop (drop ?d source) [] ?r0 ?d = Inr (?N, rs)"
      "normalize_state (length source) [] ?N rs d'"
      "map (\<lambda>k. k + shift_upto rs k 0) [0 ..< Suc (length ?N)] = byte_positions ?d (drop ?d source)"
    by auto
  let ?m = "\<lparr>om_original_len = length source, om_normalized_len = length ?N, norm_records = rs\<rparr>"
  have ok: "offset_map_ok ?m"
    using loop(2) assms by (auto simp: offset_map_ok_def normalize_state_def)
  have len: "length ?N \<le> u32_max"
    using loop(2) assms by (auto simp: normalize_state_def)
  have "offset_map_from_source source = Inr (?N, ?m)"
    using loop(1) assms len validate_offset_map_ok [OF ok]
    by (simp add: offset_map_from_source_def Let_def mark_length_def)
  with ok loop(3) show ?thesis by (intro exI [of _ ?m]) simp
qed

text \<open>
  C10. Normalization and its offset map are exact, and never a mismatch.  For every source below
  the \<open>u32\<close> limit \<open>from_source\<close> succeeds (its own validation included); the text is the source
  without a leading byte order mark and with each carriage return, line feed pair turned into a
  line feed.  Each normalized position maps on its right side to where its byte starts in the
  original (the end of the source for the last position), on its left side to just behind the
  start of the previous byte, and an original position maps back to a normalized one exactly when it lies
  between the two.  A larger source is refused as too large.
\<close>

theorem offset_map_from_source_exact:
  "if length source < u32_max
   then \<exists>m. offset_map_from_source source = Inr (normalize_newlines (drop (mark_length source) source), m)
     \<and> om_original_len m = length source
     \<and> (let positions = byte_positions (mark_length source) (drop (mark_length source) source);
            start_of = (\<lambda>k. positions ! k);
            end_before = (\<lambda>k. if k = 0 then 0 else Suc (positions ! (k - 1)))
        in Suc (om_normalized_len m) = length positions
         \<and> list_all (\<lambda>k. offset_right m k = Inr (start_of k) \<and> offset_left m k = Inr (end_before k)
               \<and> list_all (\<lambda>p. (normalized_from_original m p = Inr k) = (end_before k \<le> p \<and> p \<le> start_of k))
                   [0 ..< Suc (length source)])
             [0 ..< length positions])
   else offset_map_from_source source = Inl SourceTooLarge"
proof (cases "length source < u32_max")
  case True
  let ?positions = "byte_positions (mark_length source) (drop (mark_length source) source)"
  from offset_map_from_source_ok [OF True] obtain m where
    m: "offset_map_from_source source = Inr (normalize_newlines (drop (mark_length source) source), m)"
      "offset_map_ok m" "om_original_len m = length source"
      "om_normalized_len m = length (normalize_newlines (drop (mark_length source) source))"
      "map (\<lambda>k. k + shift_upto (norm_records m) k 0) [0 ..< Suc (om_normalized_len m)] = ?positions"
    by blast
  have len: "length ?positions = Suc (om_normalized_len m)"
    unfolding m(4) by (rule byte_positions_length)
  have nth: "?positions ! k = k + shift_upto (norm_records m) k 0" if "k \<le> om_normalized_len m" for k
    unfolding m(5) [symmetric] using that by (subst nth_map) (auto simp del: upt_Suc)
  have before: "(if k = 0 then 0 else Suc (?positions ! (k - 1))) = k + shift_below (norm_records m) k 0"
    if "k \<le> om_normalized_len m" for k
    using that nth [of "k - 1"] by (cases k) (auto simp: shift_below_Suc shift_below_none)
  have "offset_right m k = Inr (?positions ! k)
      \<and> offset_left m k = Inr (if k = 0 then 0 else Suc (?positions ! (k - 1)))
      \<and> (\<forall>p \<le> length source. (normalized_from_original m p = Inr k)
            = ((if k = 0 then 0 else Suc (?positions ! (k - 1))) \<le> p \<and> p \<le> ?positions ! k))"
    if "k \<le> om_normalized_len m" for k
    unfolding before [OF that] nth [OF that]
    using map_endpoint_shift [OF m(2) that] normalized_from_original_iff [OF m(2), unfolded m(3)] by simp
  then have "list_all (\<lambda>k. offset_right m k = Inr (?positions ! k)
      \<and> offset_left m k = Inr (if k = 0 then 0 else Suc (?positions ! (k - 1)))
      \<and> list_all (\<lambda>p. (normalized_from_original m p = Inr k)
            = ((if k = 0 then 0 else Suc (?positions ! (k - 1))) \<le> p \<and> p \<le> ?positions ! k))
          [0 ..< Suc (length source)])
      [0 ..< length ?positions]"
    unfolding len list_all_iff by (simp only: set_upt atLeast0LessThan lessThan_iff less_Suc_eq_le ball_simps Ball_def) blast
  with True m(1,3) len show ?thesis
    by (simp only: Let_def if_True) blast
next
  case False
  then show ?thesis by (simp add: offset_map_from_source_def)
qed

text \<open>
  Compiler spans are read back exactly.  On the map of a source, a nonempty range of the
  normalized text is the original range from the start of its first byte to just behind the start
  of its last byte, an empty range is the point where its position starts, and a range outside the
  normalized text is refused; the second bounds check of the code never fires.
\<close>

theorem offset_original_range_exact:
  assumes "offset_map_from_source source = Inr (normalized, m)"
  shows "offset_original_range m (ByteRange a b) =
    (let positions = byte_positions (mark_length source) (drop (mark_length source) source)
     in if a > b \<or> b > length normalized then Inl InvalidSpan
        else if a = b then Inr (ByteRange (positions ! a) (positions ! a))
        else Inr (ByteRange (positions ! a) (Suc (positions ! (b - 1)))))"
proof -
  let ?positions = "byte_positions (mark_length source) (drop (mark_length source) source)"
  have "length source < u32_max"
    using assms by (auto simp: offset_map_from_source_def split: if_splits)
  from offset_map_from_source_ok [OF this] assms have
    m: "offset_map_ok m" "om_normalized_len m = length normalized"
      "map (\<lambda>k. k + shift_upto (norm_records m) k 0) [0 ..< Suc (length normalized)] = ?positions"
    by auto
  have nth: "?positions ! k = k + shift_upto (norm_records m) k 0" if "k \<le> length normalized" for k
    unfolding m(3) [symmetric] using that by (subst nth_map) (auto simp del: upt_Suc)
  have inc: "records_increasing (norm_records m) 0" using m(1) by (simp add: offset_map_ok_def)
  note ends = map_endpoint_shift [OF m(1), unfolded m(2)]
  show ?thesis
  proof (cases "a < b \<and> b \<le> length normalized")
    case True
    then obtain b' where b: "b = Suc b'" by (cases b) auto
    have "shift_upto (norm_records m) a 0 \<le> shift_upto (norm_records m) b' 0"
      using True b by (intro shift_upto_mono [OF inc]) simp
    with True b show ?thesis
      by (simp add: offset_original_range_def m(2) ends nth shift_below_Suc Let_def)
  next
    case False
    then show ?thesis
      by (auto simp: offset_original_range_def m(2) ends nth Let_def)
  qed
qed

lemma offset_original_range_exact_witness:
  "\<exists>m. offset_map_from_source [97, 13, 10, 98] = Inr ([97, 10, 98], m)
    \<and> offset_original_range m (ByteRange 1 2) = Inr (ByteRange 1 2)
    \<and> offset_original_range m (ByteRange 1 3) = Inr (ByteRange 1 4)"
proof -
  have "length [97, 13, 10, 98 :: nat] < u32_max" by (simp add: u32_max_def)
  from offset_map_from_source_ok [OF this] obtain m where
    "offset_map_from_source [97, 13, 10, 98] = Inr ([97, 10, 98], m)"
    by (auto simp: mark_length_def byte_order_mark_def)
  with offset_original_range_exact [OF this, of 1 2] offset_original_range_exact [OF this, of 1 3]
  show ?thesis
    by (intro exI [of _ m]) (simp add: mark_length_def byte_order_mark_def numeral_nat)
qed

end
