(* ===== verification/Source_Units.thy ===== *)
theory Source_Units
  imports Source_Model "HOL-Library.Multiset"
begin

text \<open>
  The validation of a source inventory (\<open>unit_depths\<close>, \<open>validate_units\<close> and
  \<open>validate_inventory\<close> of \<open>src/source.rs\<close>), and the index that finds the macro rule a
  selected range stands for (\<open>MacroRuleSelectionIndex\<close>).
\<close>

section \<open>Depths and validation\<close>

text \<open>The walk from a unit to the root; \<open>seen\<close> stops it on a cycle.\<close>

function parent_walk :: "written_unit list \<Rightarrow> source_unit_id option \<Rightarrow> nat \<Rightarrow> nat \<Rightarrow> source_error + nat" where
  "parent_walk us None depth seen = Inr depth"
| "parent_walk us (Some parent) depth seen =
     (case get_at us parent of
        None \<Rightarrow> Inl InvalidInventory
      | Some u \<Rightarrow>
          if Suc seen > length us then Inl InvalidInventory
          else parent_walk us (unit_parent u) (Suc depth) (Suc seen))"
  by pat_completeness auto
termination by (relation "measure (\<lambda>(us, cursor, depth, seen). Suc (length us) - seen)") auto

definition unit_depths :: "written_unit list \<Rightarrow> source_error + nat list" where
  "unit_depths us =
     bind_result
       (fold_result
         (\<lambda>u depths. bind_result (parent_walk us (unit_parent u) 0 0)
            (\<lambda>depth. Inr (depths[unit_id u := Some depth])))
         us (replicate (length us) None))
       (map_result (\<lambda>depth. ok_or depth InvalidInventory))"

definition validate_unit :: "bytes \<Rightarrow> written_unit list \<Rightarrow> nat \<Rightarrow> written_unit \<Rightarrow> source_error + unit" where
  "validate_unit original us index u =
     (if unit_id u \<noteq> index
         \<or> br_start (full_range u) > br_end (full_range u)
         \<or> br_end (full_range u) > length original
         \<or> \<not> is_char_boundary original (br_start (full_range u))
         \<or> \<not> is_char_boundary original (br_end (full_range u))
      then Inl InvalidInventory
      else case unit_parent u of
        None \<Rightarrow> Inr ()
      | Some p \<Rightarrow>
          (case get_at us p of
             None \<Rightarrow> Inl InvalidInventory
           | Some parent \<Rightarrow>
               if \<not> range_contains (full_range parent) (full_range u) then Inl InvalidInventory
               else if unit_cfg parent = Inactive \<and> unit_cfg u \<noteq> Inactive then Inl InvalidInventory
               else if unit_kind u = InactiveCfgComponent
                       \<and> (unit_cfg u \<noteq> Inactive \<or> unit_cfg parent \<noteq> Active)
                 then Inl InvalidInventory
               else Inr ()))"

definition validate_units :: "bytes \<Rightarrow> written_unit list \<Rightarrow> source_error + unit" where
  "validate_units original us =
     (if length original > u32_max then Inl SourceTooLarge
      else
        let roots = filter (\<lambda>u. unit_parent u = None) us
        in if length roots \<noteq> 1
              \<or> unit_kind (roots ! 0) \<noteq> CrateRoot
              \<or> full_range (roots ! 0) \<noteq> ByteRange 0 (length original)
           then Inl InvalidInventory
           else
             bind_result (fold_result (\<lambda>(index, u) _. validate_unit original us index u) (enumerate 0 us) ()) (\<lambda>_.
             bind_result (unit_depths us) (\<lambda>_. Inr ())))"

fun validate_pieces :: "bytes \<Rightarrow> written_unit list \<Rightarrow> owned_piece list \<Rightarrow> nat \<Rightarrow> source_error + nat" where
  "validate_pieces original us [] cursor = Inr cursor"
| "validate_pieces original us (p # ps) cursor =
     (if br_start (piece_range p) \<noteq> cursor
         \<or> br_start (piece_range p) \<ge> br_end (piece_range p)
         \<or> br_end (piece_range p) > length original
         \<or> \<not> is_char_boundary original (br_start (piece_range p))
         \<or> \<not> is_char_boundary original (br_end (piece_range p))
         \<or> (case get_at us (piece_owner p) of
              None \<Rightarrow> True | Some owner \<Rightarrow> \<not> range_contains (full_range owner) (piece_range p))
      then Inl InvalidInventory
      else validate_pieces original us ps (br_end (piece_range p)))"

definition validate_inventory :: "bytes \<Rightarrow> written_unit list \<Rightarrow> owned_piece list \<Rightarrow> source_error + unit" where
  "validate_inventory original us ps =
     bind_result (validate_units original us) (\<lambda>_.
     bind_result (validate_pieces original us ps 0) (\<lambda>cursor.
       if cursor \<noteq> length original then Inl InvalidInventory else Inr ()))"

section \<open>Trees of units\<close>

text \<open>The units whose parents lead to a root, with the number of steps.\<close>

inductive rooted :: "written_unit list \<Rightarrow> source_unit_id \<Rightarrow> nat \<Rightarrow> bool" for us where
  rooted_root: "i < length us \<Longrightarrow> unit_parent (us ! i) = None \<Longrightarrow> rooted us i 0"
| rooted_child: "i < length us \<Longrightarrow> unit_parent (us ! i) = Some p \<Longrightarrow> rooted us p d \<Longrightarrow> rooted us i (Suc d)"

inductive_cases rootedE: "rooted us i d"

lemma rooted_bound: "rooted us i d \<Longrightarrow> i < length us"
  by (induction rule: rooted.induct) auto

lemma rooted_unique: "rooted us i d \<Longrightarrow> rooted us i e \<Longrightarrow> d = e"
proof (induction arbitrary: e rule: rooted.induct)
  case (rooted_root i)
  then show ?case by (auto elim: rootedE)
next
  case (rooted_child i p d)
  from rooted_child.prems rooted_child.hyps(2) obtain e' where "e = Suc e'" "rooted us p e'"
    by (auto elim: rootedE)
  with rooted_child.IH show ?case by simp
qed

lemma rooted_below: "rooted us i d \<Longrightarrow> e \<le> d \<Longrightarrow> \<exists>j. rooted us j e"
proof (induction arbitrary: e rule: rooted.induct)
  case (rooted_child i p d)
  then show ?case
    by (cases "e = Suc d") (auto intro: rooted.rooted_child dest: le_SucE)
qed (auto intro: rooted.rooted_root)

text \<open>A path to a root has no repetition, so it is shorter than the list.\<close>

lemma rooted_depth_less:
  assumes "rooted us i d"
  shows "d < length us"
proof -
  define f where "f e = (SOME j. rooted us j e)" for e
  have f: "rooted us (f e) e" if "e \<le> d" for e
    unfolding f_def by (rule someI_ex) (rule rooted_below [OF assms that])
  have "inj_on f {..d}"
    by (rule inj_onI) (metis atMost_iff f rooted_unique)
  moreover have "f ` {..d} \<subseteq> {..< length us}"
    using f by (auto dest: rooted_bound)
  ultimately have "card {..d} \<le> card {..< length us}"
    by (metis card_image card_mono finite_lessThan)
  then show ?thesis by simp
qed

lemma parent_walk_rooted:
  "parent_walk us cursor depth seen = Inr n \<Longrightarrow>
     case cursor of None \<Rightarrow> n = depth | Some p \<Rightarrow> \<exists>d. rooted us p d \<and> n = depth + Suc d"
proof (induction us cursor depth seen rule: parent_walk.induct)
  case (2 us p depth seen)
  from 2(2) have p: "p < length us" "\<not> Suc seen > length us"
    "parent_walk us (unit_parent (us ! p)) (Suc depth) (Suc seen) = Inr n"
    by (auto split: option.splits if_splits)
  from p(1) have "get_at us p = Some (us ! p)" by simp
  from 2(1) [OF this p(2,3)] p(1) show ?case
    by (auto split: option.splits intro: rooted.intros)
qed simp

lemma rooted_parent_walk:
  "rooted us p d \<Longrightarrow> seen + Suc d \<le> length us \<Longrightarrow> parent_walk us (Some p) depth seen = Inr (depth + Suc d)"
proof (induction arbitrary: depth seen rule: rooted.induct)
  case (rooted_child i p d)
  then show ?case by (simp add: get_at_def)
qed (simp add: get_at_def)

definition depth_of :: "written_unit list \<Rightarrow> source_unit_id \<Rightarrow> nat" where
  "depth_of us i = (case parent_walk us (unit_parent (us ! i)) 0 0 of Inl e \<Rightarrow> 0 | Inr d \<Rightarrow> d)"

lemma parent_walk_depth:
  assumes "i < length us"
  shows "parent_walk us (unit_parent (us ! i)) 0 0 = Inr d \<longleftrightarrow> rooted us i d"
proof
  assume "parent_walk us (unit_parent (us ! i)) 0 0 = Inr d"
  from parent_walk_rooted [OF this] assms show "rooted us i d"
    by (auto split: option.splits intro: rooted.intros)
next
  assume r: "rooted us i d"
  note lt = rooted_depth_less [OF r]
  from r show "parent_walk us (unit_parent (us ! i)) 0 0 = Inr d"
  proof (cases rule: rooted.cases)
    case (rooted_child p e)
    with rooted_parent_walk [of us p e 0 0] lt show ?thesis by simp
  qed simp
qed

lemma rooted_depth_of: "rooted us i d \<Longrightarrow> depth_of us i = d"
  using parent_walk_depth [of i us d] rooted_bound [of us i d] by (auto simp: depth_of_def split: sum.splits)

definition all_rooted :: "written_unit list \<Rightarrow> bool" where
  "all_rooted us \<longleftrightarrow> (\<forall>i < length us. \<exists>d. rooted us i d)"

definition dense_ids :: "written_unit list \<Rightarrow> bool" where
  "dense_ids us \<longleftrightarrow> (\<forall>i < length us. unit_id (us ! i) = i)"

lemma depth_fold:
  assumes "\<forall>u \<in> set vs. \<exists>d. parent_walk us (unit_parent u) 0 0 = Inr d"
    and "\<forall>i < length vs. unit_id (vs ! i) = k + i" and "length ds = k + length vs"
  shows "fold_result (\<lambda>u depths. bind_result (parent_walk us (unit_parent u) 0 0)
            (\<lambda>depth. Inr (depths[unit_id u := Some depth]))) vs ds
    = Inr (take k ds @ map (\<lambda>u. Some (projr (parent_walk us (unit_parent u) 0 0))) vs)"
  using assms
proof (induction vs arbitrary: k ds)
  case (Cons v vs)
  from Cons.prems(1) obtain d where d: "parent_walk us (unit_parent v) 0 0 = Inr d" by auto
  have id: "unit_id v = k" using Cons.prems(2) by (metis Suc_length_conv add_0_right length_Cons nth_Cons_0 zero_less_Suc)
  have ids: "\<forall>i < length vs. unit_id (vs ! i) = Suc k + i"
    using Cons.prems(2) by (metis add_Suc_shift length_Cons not_less_eq nth_Cons_Suc)
  have "take (Suc k) (ds[k := Some d]) = take k ds @ [Some d]"
    using Cons.prems(3) by (simp add: take_Suc_conv_app_nth)
  with Cons.IH [of "Suc k" "ds[k := Some d]"] ids Cons.prems(1,3) d id show ?case by simp
qed simp

lemma depth_fold_fails:
  "\<exists>u \<in> set vs. \<exists>e. parent_walk us (unit_parent u) 0 0 = Inl e \<Longrightarrow>
   \<exists>e. fold_result (\<lambda>u depths. bind_result (parent_walk us (unit_parent u) 0 0)
            (\<lambda>depth. Inr (depths[unit_id u := Some depth]))) vs ds = Inl e"
proof (induction vs arbitrary: ds)
  case (Cons v vs)
  then show ?case by (cases "parent_walk us (unit_parent v) 0 0") auto
qed simp

lemma parent_walk_error: "parent_walk us cursor depth seen = Inl e \<Longrightarrow> e = InvalidInventory"
  by (induction us cursor depth seen rule: parent_walk.induct) (auto split: option.splits if_splits)

text \<open>On dense identifiers the depths are computed exactly when no parent chain is broken or cyclic.\<close>

lemma unit_depths_rooted:
  assumes "dense_ids us"
  shows "unit_depths us = (if all_rooted us then Inr (map (depth_of us) [0 ..< length us]) else Inl InvalidInventory)"
proof (cases "all_rooted us")
  case True
  have "\<exists>d. parent_walk us (unit_parent u) 0 0 = Inr d" if "u \<in> set us" for u
    using that True parent_walk_depth by (fastforce simp: all_rooted_def in_set_conv_nth)
  then have "unit_depths us = map_result (\<lambda>depth. ok_or depth InvalidInventory)
      (map (\<lambda>u. Some (projr (parent_walk us (unit_parent u) 0 0))) us)"
    using depth_fold [of us us 0 "replicate (length us) None"] assms
    by (simp add: unit_depths_def dense_ids_def)
  also have "\<dots> = Inr (map (\<lambda>u. projr (parent_walk us (unit_parent u) 0 0)) us)"
    by (rule map_result_ok_or)
  also have "map (\<lambda>u. projr (parent_walk us (unit_parent u) 0 0)) us = map (depth_of us) [0 ..< length us]"
  proof (rule nth_equalityI)
    fix i
    assume "i < length (map (\<lambda>u. projr (parent_walk us (unit_parent u) 0 0)) us)"
    then have i: "i < length us" by simp
    with True obtain d where "rooted us i d" by (auto simp: all_rooted_def)
    with i parent_walk_depth [OF i, of d]
    show "map (\<lambda>u. projr (parent_walk us (unit_parent u) 0 0)) us ! i = map (depth_of us) [0 ..< length us] ! i"
      by (simp add: depth_of_def)
  qed simp
  finally show ?thesis using True by simp
next
  case False
  then obtain i where i: "i < length us" "\<nexists>d. rooted us i d" by (auto simp: all_rooted_def)
  then obtain e where "parent_walk us (unit_parent (us ! i)) 0 0 = Inl e"
    using parent_walk_depth [OF i(1)] by (cases "parent_walk us (unit_parent (us ! i)) 0 0") auto
  with i(1) have "\<exists>u \<in> set us. \<exists>e. parent_walk us (unit_parent u) 0 0 = Inl e"
    by (auto intro: nth_mem)
  from depth_fold_fails [OF this] obtain e where
    e: "fold_result (\<lambda>u depths. bind_result (parent_walk us (unit_parent u) 0 0)
            (\<lambda>depth. Inr (depths[unit_id u := Some depth]))) us (replicate (length us) None) = Inl e" by blast
  have "e = InvalidInventory"
  proof -
    have "fold_result (\<lambda>u depths. bind_result (parent_walk us (unit_parent u) 0 0)
            (\<lambda>depth. Inr (depths[unit_id u := Some depth]))) vs ds = Inl e \<Longrightarrow> e = InvalidInventory" for vs ds
      by (induction vs arbitrary: ds) (auto simp: bind_result_eq_Inl dest: parent_walk_error)
    with e show ?thesis by blast
  qed
  with e False show ?thesis by (simp add: unit_depths_def)
qed

section \<open>What validation accepts\<close>

text \<open>The local conditions on a unit and its parent.\<close>

definition well_formed_unit :: "bytes \<Rightarrow> written_unit list \<Rightarrow> nat \<Rightarrow> bool" where
  "well_formed_unit original us i \<longleftrightarrow>
     unit_id (us ! i) = i \<and> valid_source_range original (full_range (us ! i))
     \<and> (case unit_parent (us ! i) of
          None \<Rightarrow> True
        | Some p \<Rightarrow> p < length us
            \<and> range_contains (full_range (us ! p)) (full_range (us ! i))
            \<and> (unit_cfg (us ! i) = Active \<longrightarrow> unit_cfg (us ! p) = Active)
            \<and> (unit_kind (us ! i) = InactiveCfgComponent
                \<longrightarrow> unit_cfg (us ! i) = Inactive \<and> unit_cfg (us ! p) = Active))"

text \<open>One tree under one crate root that covers the source.\<close>

definition well_formed_units :: "bytes \<Rightarrow> written_unit list \<Rightarrow> bool" where
  "well_formed_units original us \<longleftrightarrow>
     (\<exists>r < length us. unit_kind (us ! r) = CrateRoot \<and> full_range (us ! r) = ByteRange 0 (length original)
        \<and> (\<forall>i < length us. unit_parent (us ! i) = None \<longleftrightarrow> i = r))
     \<and> (\<forall>i < length us. well_formed_unit original us i \<and> (\<exists>d. rooted us i d))"

lemma validate_unit_iff:
  "validate_unit original us i (us ! i) = Inr () \<longleftrightarrow> well_formed_unit original us i"
  by (cases "unit_cfg (us ! i)")
     (auto simp: validate_unit_def well_formed_unit_def valid_source_range_def get_at_def
       split: option.splits cfg_state.splits intro: cfg_state.exhaust)

lemma validate_unit_error: "validate_unit original us i u = Inl e \<Longrightarrow> e = InvalidInventory"
  by (auto simp: validate_unit_def split: if_splits option.splits)

lemma fold_unit_result:
  "fold_result (\<lambda>x _. f x) xs () = Inr () \<longleftrightarrow> (\<forall>x \<in> set xs. f x = Inr ())"
  by (induction xs) (auto simp: bind_result_eq_Inr)

lemma fold_unit_error:
  "fold_result (\<lambda>x _. f x) xs () = Inl e \<Longrightarrow> \<exists>x \<in> set xs. f x = Inl e"
  by (induction xs) (auto simp: bind_result_eq_Inl)

lemma single_root:
  "length (filter P xs) = 1 \<longleftrightarrow> (\<exists>r < length xs. \<forall>i < length xs. P (xs ! i) \<longleftrightarrow> i = r)"
proof -
  have "length (filter P xs) = card {i. i < length xs \<and> P (xs ! i)}"
    by (rule length_filter_conv_card)
  moreover have "card {i. i < length xs \<and> P (xs ! i)} = 1 \<longleftrightarrow> (\<exists>r. {i. i < length xs \<and> P (xs ! i)} = {r})"
    by (simp add: card_1_singleton_iff)
  ultimately show ?thesis by (auto simp: set_eq_iff)
qed

lemma filter_single:
  assumes "r < length xs" and "\<forall>i < length xs. P (xs ! i) \<longleftrightarrow> i = r"
  shows "filter P xs = [xs ! r]"
proof -
  have "length (filter P xs) = 1" unfolding single_root using assms by blast
  then obtain x where x: "filter P xs = [x]" by (cases "filter P xs") auto
  then have "x \<in> set (filter P xs)" by simp
  then have "x \<in> set xs" "P x" by auto
  with assms(2) x show ?thesis by (auto simp: in_set_conv_nth)
qed

lemma validate_units_result:
  "validate_units original us =
     (if length original > u32_max then Inl SourceTooLarge
      else if well_formed_units original us then Inr () else Inl InvalidInventory)"
proof (cases "length original > u32_max")
  case True
  then show ?thesis by (simp add: validate_units_def)
next
  case small: False
  let ?roots = "filter (\<lambda>u. unit_parent u = None) us"
  let ?fold = "fold_result (\<lambda>(index, u) _. validate_unit original us index u) (enumerate 0 us) ()"
  have each: "?fold = Inr () \<longleftrightarrow> (\<forall>i < length us. well_formed_unit original us i)"
  proof -
    have "?fold = Inr () \<longleftrightarrow> (\<forall>x \<in> set (enumerate 0 us). (\<lambda>(index, u). validate_unit original us index u) x = Inr ())"
      using fold_unit_result [of "\<lambda>(index, u). validate_unit original us index u"]
      by (simp add: case_prod_beta')
    also have "\<dots> \<longleftrightarrow> (\<forall>i < length us. well_formed_unit original us i)"
      by (simp only: set_enumerate_nth ball_simps prod.case validate_unit_iff) auto
    finally show ?thesis .
  qed
  have error: "e = InvalidInventory" if "?fold = Inl e" for e
    using fold_unit_error [of "\<lambda>(index, u). validate_unit original us index u"] that validate_unit_error
    by (force simp: case_prod_beta')
  let ?root = "\<lambda>r. r < length us \<and> unit_kind (us ! r) = CrateRoot
    \<and> full_range (us ! r) = ByteRange 0 (length original)
    \<and> (\<forall>i < length us. unit_parent (us ! i) = None \<longleftrightarrow> i = r)"
  show ?thesis
  proof (cases "\<exists>r. ?root r")
    case True
    then obtain r where r: "?root r" by blast
    then have roots: "?roots = [us ! r]" by (intro filter_single) auto
    have code: "validate_units original us = bind_result ?fold (\<lambda>_. bind_result (unit_depths us) (\<lambda>_. Inr ()))"
      using small r by (simp add: validate_units_def roots)
    have wf: "well_formed_units original us \<longleftrightarrow> (\<forall>i < length us. well_formed_unit original us i) \<and> all_rooted us"
      using r by (auto simp: well_formed_units_def all_rooted_def)
    show ?thesis
    proof (cases "\<forall>i < length us. well_formed_unit original us i")
      case True
      then have "dense_ids us" by (simp add: dense_ids_def well_formed_unit_def)
      with True small show ?thesis
        unfolding code wf using each by (simp add: unit_depths_rooted)
    next
      case False
      with each have "?fold \<noteq> Inr ()" by blast
      then obtain e where "?fold = Inl e" by (cases ?fold) auto
      with error False small show ?thesis unfolding code wf by auto
    qed
  next
    case False
    have "\<not> (length ?roots = 1 \<and> unit_kind (?roots ! 0) = CrateRoot
        \<and> full_range (?roots ! 0) = ByteRange 0 (length original))"
    proof
      assume a: "length ?roots = 1 \<and> unit_kind (?roots ! 0) = CrateRoot
        \<and> full_range (?roots ! 0) = ByteRange 0 (length original)"
      then obtain r where r: "r < length us" "\<forall>i < length us. unit_parent (us ! i) = None \<longleftrightarrow> i = r"
        using single_root [of "\<lambda>u. unit_parent u = None" us] by blast
      then have "?roots = [us ! r]" by (rule filter_single)
      with a r False show False by auto
    qed
    then have "validate_units original us = Inl InvalidInventory"
      using small by (auto simp: validate_units_def Let_def)
    moreover have "\<not> well_formed_units original us"
      using False by (auto simp: well_formed_units_def)
    ultimately show ?thesis using small by simp
  qed
qed

lemma validate_units_Inr:
  "validate_units original us = Inr () \<longleftrightarrow> length original \<le> u32_max \<and> well_formed_units original us"
  by (simp add: validate_units_result)

text \<open>
  C11. Unit validation is exact.  \<open>validate_units\<close> accepts exactly the inventories whose units form
  one tree: identifiers are their positions, precisely one unit has no parent and it is the crate
  root covering the whole source, every parent chain reaches it, children lie in their parent's range on
  character boundaries, an active unit has an active parent, and an inactive component is itself
  inactive below an active parent.  Everything else is refused as too large or as an invalid inventory.
\<close>

theorem validate_units_exact:
  "validate_units original us =
     (if length original > u32_max then Inl SourceTooLarge
      else if well_formed_units original us then Inr () else Inl InvalidInventory)"
  by (rule validate_units_result)

text \<open>The units a unit lies in, itself included.\<close>

inductive ancestor :: "written_unit list \<Rightarrow> source_unit_id \<Rightarrow> source_unit_id \<Rightarrow> bool" for us where
  ancestor_self: "i < length us \<Longrightarrow> ancestor us i i"
| ancestor_parent: "i < length us \<Longrightarrow> unit_parent (us ! i) = Some p \<Longrightarrow> ancestor us a p \<Longrightarrow> ancestor us a i"

lemma ancestor_range:
  assumes "well_formed_units original us" and "ancestor us a i"
  shows "range_contains (full_range (us ! a)) (full_range (us ! i))
    \<and> (unit_cfg (us ! i) = Active \<longrightarrow> unit_cfg (us ! a) = Active)"
  using assms(2)
proof (induction rule: ancestor.induct)
  case (ancestor_parent i p a)
  with assms(1) have "range_contains (full_range (us ! p)) (full_range (us ! i))"
    "unit_cfg (us ! i) = Active \<longrightarrow> unit_cfg (us ! p) = Active"
    by (auto simp: well_formed_units_def well_formed_unit_def split: option.splits)
  with ancestor_parent.IH show ?case by (auto intro: range_contains_trans)
qed simp

lemma rooted_ancestor: "rooted us i d \<Longrightarrow> \<exists>r. ancestor us r i \<and> unit_parent (us ! r) = None"
  by (induction rule: rooted.induct) (auto intro: ancestor.intros)

text \<open>
  C12. Validated units nest.  When \<open>validate_units\<close> accepts, one unit is an ancestor of every unit,
  it is the crate root; every ancestor's range contains the unit's range, all ancestors of an
  active unit are active, and \<open>unit_depths\<close> returns for each unit its distance from the root,
  which is less than the number of units.
\<close>

theorem validated_units_nest:
  assumes "validate_units original us = Inr ()"
  shows "(\<exists>r < length us. unit_kind (us ! r) = CrateRoot \<and> list_all (\<lambda>i. ancestor us r i) [0 ..< length us])
    \<and> (\<forall>a i. ancestor us a i \<longrightarrow> range_contains (full_range (us ! a)) (full_range (us ! i))
        \<and> (unit_cfg (us ! i) = Active \<longrightarrow> unit_cfg (us ! a) = Active))
    \<and> (\<exists>depths. unit_depths us = Inr depths \<and> length depths = length us
        \<and> list_all (\<lambda>i. rooted us i (depths ! i) \<and> depths ! i < length us) [0 ..< length us])"
proof -
  have wf: "well_formed_units original us"
    using assms by (simp add: validate_units_Inr)
  then obtain r where r: "r < length us" "unit_kind (us ! r) = CrateRoot"
    "\<forall>i < length us. unit_parent (us ! i) = None \<longleftrightarrow> i = r"
    by (auto simp: well_formed_units_def)
  have rooted: "\<exists>d. rooted us i d" if "i < length us" for i
    using wf that by (auto simp: well_formed_units_def)
  have root: "ancestor us r i" if i: "i < length us" for i
  proof -
    from rooted [OF i] rooted_ancestor obtain q where q: "ancestor us q i" "unit_parent (us ! q) = None" by blast
    have "q < length us" using q(1) by (induction rule: ancestor.induct) auto
    with q r(3) show ?thesis by auto
  qed
  have "dense_ids us" using wf by (auto simp: dense_ids_def well_formed_units_def well_formed_unit_def)
  then have depths: "unit_depths us = Inr (map (depth_of us) [0 ..< length us])"
    using rooted by (simp add: unit_depths_rooted all_rooted_def)
  have "rooted us i (depth_of us i) \<and> depth_of us i < length us" if "i < length us" for i
    using rooted [OF that] rooted_depth_of rooted_depth_less by fastforce
  then have d: "list_all (\<lambda>i. rooted us i (map (depth_of us) [0 ..< length us] ! i)
      \<and> map (depth_of us) [0 ..< length us] ! i < length us) [0 ..< length us]"
    by (simp add: list_all_iff)
  have "list_all (\<lambda>i. ancestor us r i) [0 ..< length us]"
    using root by (simp add: list_all_iff)
  with r depths d ancestor_range [OF wf] show ?thesis
    by (intro conjI exI [of _ r] exI [of _ "map (depth_of us) [0 ..< length us]"]) auto
qed

definition sample_units :: "written_unit list" where
  "sample_units =
     [\<lparr>unit_id = 0, unit_kind = CrateRoot, full_range = ByteRange 0 4, unit_parent = None,
       unit_cfg = Active, atomic_group = 0, same_role_ordinal = 0\<rparr>,
      \<lparr>unit_id = 1, unit_kind = Item, full_range = ByteRange 0 2, unit_parent = Some 0,
       unit_cfg = Active, atomic_group = 1, same_role_ordinal = 0\<rparr>]"

lemma sample_units_valid: "validate_units [97, 98, 99, 100] sample_units = Inr ()"
  by (simp add: validate_units_def sample_units_def validate_unit_def unit_depths_def u32_max_def
      is_char_boundary_def continuation_byte_def range_contains_def get_at_def)

lemma validated_units_nest_witness:
  "\<exists>depths. unit_depths sample_units = Inr depths \<and> length depths = 2"
  using validated_units_nest [OF sample_units_valid] by (auto simp: sample_units_def)

section \<open>Pieces\<close>

text \<open>What a piece must satisfy by itself.\<close>

definition well_formed_piece :: "bytes \<Rightarrow> written_unit list \<Rightarrow> owned_piece \<Rightarrow> bool" where
  "well_formed_piece original us p \<longleftrightarrow>
     br_start (piece_range p) < br_end (piece_range p)
     \<and> valid_source_range original (piece_range p)
     \<and> piece_owner p < length us
     \<and> range_contains (full_range (us ! piece_owner p)) (piece_range p)"

definition piece_bytes :: "owned_piece list \<Rightarrow> nat list" where
  "piece_bytes ps = concat (map (\<lambda>p. [br_start (piece_range p) ..< br_end (piece_range p)]) ps)"

lemma validate_pieces_iff:
  "c \<le> stop \<Longrightarrow> validate_pieces original us ps c = Inr stop \<longleftrightarrow>
     list_all (well_formed_piece original us) ps \<and> piece_bytes ps = [c ..< stop]"
proof (induction ps arbitrary: c)
  case Nil
  then show ?case by (cases "c = stop") (auto simp: piece_bytes_def upt_conv_Cons)
next
  case (Cons p ps)
  let ?a = "br_start (piece_range p)" and ?b = "br_end (piece_range p)"
  have split: "piece_bytes (p # ps) = [?a ..< ?b] @ piece_bytes ps"
    by (simp add: piece_bytes_def)
  have mono: "validate_pieces original us qs b = Inr e \<Longrightarrow> b \<le> e" for qs b e
  proof (induction qs arbitrary: b)
    case (Cons q qs)
    from Cons.prems have "validate_pieces original us qs (br_end (piece_range q)) = Inr e"
      "b < br_end (piece_range q)"
      by (auto split: if_splits)
    with Cons.IH [of "br_end (piece_range q)"] show ?case by simp
  qed simp
  show ?case
  proof
    assume v: "validate_pieces original us (p # ps) c = Inr stop"
    then have p: "?a = c" "?a < ?b" "well_formed_piece original us p"
      "validate_pieces original us ps ?b = Inr stop"
      by (auto simp: well_formed_piece_def valid_source_range_def get_at_def not_less not_le
          split: if_splits)
    from Cons.IH [OF mono [OF p(4)]] p mono [OF p(4)] upt_split [of c ?b stop]
    show "list_all (well_formed_piece original us) (p # ps) \<and> piece_bytes (p # ps) = [c ..< stop]"
      by (simp add: split)
  next
    assume a: "list_all (well_formed_piece original us) (p # ps) \<and> piece_bytes (p # ps) = [c ..< stop]"
    then have p: "well_formed_piece original us p" "?a < ?b" by (auto simp: well_formed_piece_def)
    from a have bytes: "[?a ..< ?b] @ piece_bytes ps = [c ..< stop]" by (simp add: split)
    then have len: "length (piece_bytes ps) + (?b - ?a) = stop - c"
      by (metis add.commute length_append length_upt)
    have "hd ([?a ..< ?b] @ piece_bytes ps) = ?a" using p(2) by simp
    moreover have "hd [c ..< stop] = c" using len p(2) by simp
    ultimately have start: "?a = c" using bytes by simp
    with len p(2) have le: "?b \<le> stop" by simp
    with bytes start p(2) have "piece_bytes ps = [?b ..< stop]"
      by (metis append_same_eq less_imp_le same_append_eq upt_split)
    with Cons.IH [OF le] a have "validate_pieces original us ps ?b = Inr stop" by simp
    with p start show "validate_pieces original us (p # ps) c = Inr stop"
      by (auto simp: well_formed_piece_def valid_source_range_def get_at_def)
  qed
qed

lemma validate_pieces_error: "validate_pieces original us ps c = Inl e \<Longrightarrow> e = InvalidInventory"
  by (induction ps arbitrary: c) (auto split: if_splits)

lemma validate_pieces_stop:
  "validate_pieces original us ps c = Inr e \<Longrightarrow> c \<le> length original \<Longrightarrow> e \<le> length original"
  by (induction ps arbitrary: c) (auto split: if_splits)

lemma validate_inventory_result:
  "validate_inventory original us ps =
     (if length original > u32_max then Inl SourceTooLarge
      else if well_formed_units original us \<and> list_all (well_formed_piece original us) ps
        \<and> piece_bytes ps = [0 ..< length original]
      then Inr () else Inl InvalidInventory)"
proof (cases "validate_units original us = Inr ()")
  case False
  then show ?thesis by (auto simp: validate_inventory_def validate_units_result split: if_splits)
next
  case True
  then have wf: "well_formed_units original us" "\<not> length original > u32_max"
    by (simp_all add: validate_units_Inr)
  show ?thesis
  proof (cases "validate_pieces original us ps 0")
    case (Inl e)
    with True wf validate_pieces_error [OF Inl] validate_pieces_iff [of 0 "length original" original us ps]
    show ?thesis by (simp add: validate_inventory_def)
  next
    case (Inr e)
    with True wf validate_pieces_iff [of 0 "length original" original us ps]
    show ?thesis by (auto simp: validate_inventory_def)
  qed
qed

lemma validate_inventory_Inr:
  "validate_inventory original us ps = Inr () \<longleftrightarrow>
     length original \<le> u32_max \<and> well_formed_units original us \<and> list_all (well_formed_piece original us) ps
     \<and> piece_bytes ps = [0 ..< length original]"
  by (simp add: validate_inventory_result)

text \<open>
  C13. The pieces of an accepted inventory tile the source.  \<open>validate_inventory\<close> accepts units
  and pieces exactly when \<open>validate_units\<close> accepts the units, every piece is nonempty, lies on
  character boundaries and inside the range of its owner, and the bytes of the pieces, in the
  order of the list, are the bytes of the source, each once.
\<close>

theorem validate_inventory_exact:
  "validate_inventory original us ps =
     (if length original > u32_max then Inl SourceTooLarge
      else if well_formed_units original us \<and> list_all (well_formed_piece original us) ps
        \<and> piece_bytes ps = [0 ..< length original]
      then Inr () else Inl InvalidInventory)"
  by (rule validate_inventory_result)

section \<open>The macro rule a range selects\<close>

datatype exact_rule_match = UniqueRule source_unit_id | AmbiguousRule

record whole_definition_prefix =
  prefix_start :: nat
  largest_ends :: "nat option \<times> nat option"

record macro_rule_selection_index =
  exact_rules :: "byte_range \<rightharpoonup> exact_rule_match"
  whole_prefixes :: "whole_definition_prefix list"

definition add_exact_rule ::
  "written_unit \<Rightarrow> (byte_range \<rightharpoonup> exact_rule_match) \<Rightarrow> (byte_range \<rightharpoonup> exact_rule_match)" where
  "add_exact_rule u rules =
     (case rules (full_range u) of
        None \<Rightarrow> rules(full_range u \<mapsto> UniqueRule (unit_id u))
      | Some _ \<Rightarrow> rules(full_range u \<mapsto> AmbiguousRule))"

definition whole_definition_range :: "written_unit list \<Rightarrow> source_unit_id \<Rightarrow> source_error + byte_range" where
  "whole_definition_range us definition_id =
     (case get_at us definition_id of
        None \<Rightarrow> Inl InvalidInventory
      | Some u \<Rightarrow>
          if unit_id u = definition_id \<and> unit_kind u = MacroDefinition \<and> unit_cfg u = Active
          then Inr (full_range u) else Inl InvalidInventory)"

definition push_end :: "nat \<Rightarrow> nat option \<times> nat option \<Rightarrow> nat option \<times> nat option" where
  "push_end stop ends =
     (if (case fst ends of None \<Rightarrow> True | Some largest \<Rightarrow> stop \<ge> largest) then (Some stop, fst ends)
      else if (case snd ends of None \<Rightarrow> True | Some second \<Rightarrow> stop > second) then (fst ends, Some stop)
      else ends)"

fun build_prefixes ::
  "byte_range list \<Rightarrow> nat option \<times> nat option \<Rightarrow> whole_definition_prefix list" where
  "build_prefixes [] ends = []"
| "build_prefixes (r # rs) ends =
     \<lparr>prefix_start = br_start r, largest_ends = push_end (br_end r) ends\<rparr>
       # build_prefixes rs (push_end (br_end r) ends)"

text \<open>The key \<open>(start, Reverse(end))\<close>: ends are at most \<open>u32::MAX\<close>, so the difference reverses them.\<close>

definition whole_range_key :: "byte_range \<Rightarrow> nat \<times> nat" where
  "whole_range_key r = (br_start r, u32_max - br_end r)"

definition macro_rule_selection_index_new ::
  "written_unit list \<Rightarrow> macro_rule_facts list \<Rightarrow> source_error + macro_rule_selection_index" where
  "macro_rule_selection_index_new us macro_rules =
     (let exact = fold add_exact_rule
        (filter (\<lambda>u. unit_kind u = MacroRule \<and> unit_cfg u = Active) us) (\<lambda>_. None);
          whole = concat (map (\<lambda>facts. case facts of WholeRules d \<Rightarrow> [d] | RefinedRules _ _ _ \<Rightarrow> []) macro_rules)
      in bind_result (map_result (whole_definition_range us) whole) (\<lambda>ranges.
           Inr \<lparr>exact_rules = exact,
                whole_prefixes = build_prefixes (sort_key whole_range_key ranges) (None, None)\<rparr>))"

definition selected_rule ::
  "macro_rule_selection_index \<Rightarrow> byte_range \<Rightarrow> source_error + source_unit_id option" where
  "selected_rule index selected =
     (case exact_rules index selected of
        Some (UniqueRule rule) \<Rightarrow> Inr (Some rule)
      | Some AmbiguousRule \<Rightarrow> Inl InvalidInventory
      | None \<Rightarrow>
          let prefix_count = partition_point (\<lambda>p. prefix_start p \<le> br_start selected) (whole_prefixes index);
              enclosing =
                (case checked_sub prefix_count 1 of
                   None \<Rightarrow> 0
                 | Some i \<Rightarrow>
                     (case get_at (whole_prefixes index) i of
                        None \<Rightarrow> 0
                      | Some p \<Rightarrow>
                          length (filter (\<lambda>stop. case stop of None \<Rightarrow> False | Some e \<Rightarrow> br_end selected \<le> e)
                            [fst (largest_ends p), snd (largest_ends p)])))
          in if enclosing = 1 then Inr None else Inl IncompleteMacroRuleObservation)"

lemma add_exact_rules:
  "fold add_exact_rule us (\<lambda>_. None) r =
     (case filter (\<lambda>u. full_range u = r) us of
        [] \<Rightarrow> None | [u] \<Rightarrow> Some (UniqueRule (unit_id u)) | _ # _ # _ \<Rightarrow> Some AmbiguousRule)"
proof (induction us rule: rev_induct)
  case (snoc u us)
  show ?case
  proof (cases "full_range u = r")
    case True
    with snoc show ?thesis
      by (cases "filter (\<lambda>u. full_range u = r) us"; cases "tl (filter (\<lambda>u. full_range u = r) us)")
         (auto simp: add_exact_rule_def split: list.splits)
  next
    case False
    with snoc show ?thesis by (auto simp: add_exact_rule_def split: option.splits)
  qed
qed simp

text \<open>The two largest ends seen so far, with all the others behind them.\<close>

definition two_largest :: "nat multiset \<Rightarrow> nat option \<times> nat option \<Rightarrow> bool" where
  "two_largest ms ends \<longleftrightarrow>
     (case ends of
        (None, None) \<Rightarrow> ms = {#}
      | (Some a, None) \<Rightarrow> ms = {#a#}
      | (Some a, Some b) \<Rightarrow> b \<le> a \<and> (\<exists>rest. ms = {#a, b#} + rest \<and> (\<forall>x \<in># rest. x \<le> b))
      | (None, Some _) \<Rightarrow> False)"

lemma two_largest_push:
  assumes "two_largest ms ends"
  shows "two_largest (add_mset x ms) (push_end x ends)"
proof -
  obtain f s where ends: "ends = (f, s)" by (cases ends)
  show ?thesis
  proof (cases f)
    case None
    with assms show ?thesis by (cases s) (auto simp: ends two_largest_def push_end_def)
  next
    case (Some a)
    show ?thesis
    proof (cases s)
      case None
      with assms Some show ?thesis
        by (auto simp: ends two_largest_def push_end_def add_mset_commute)
    next
      case (Some b)
      with assms \<open>f = Some a\<close> obtain rest where r: "b \<le> a" "ms = {#a, b#} + rest" "\<forall>x \<in># rest. x \<le> b"
        by (auto simp: ends two_largest_def)
      have "add_mset x ms = {#x, a#} + add_mset b rest" "add_mset x ms = {#a, x#} + add_mset b rest"
        "add_mset x ms = {#a, b#} + add_mset x rest"
        using r(2) by (simp_all add: add_mset_commute)
      with r \<open>f = Some a\<close> Some show ?thesis
        by (cases "a \<le> x"; cases "b < x")
           (auto simp: ends two_largest_def push_end_def not_le not_less intro!: exI dest: order_trans)
    qed
  qed
qed

lemma two_largest_count:
  assumes "two_largest ms ends"
  shows "length (filter (\<lambda>stop. case stop of None \<Rightarrow> False | Some v \<Rightarrow> e \<le> v) [fst ends, snd ends])
    = min 2 (size (filter_mset (\<lambda>v. e \<le> v) ms))"
proof -
  obtain f s where ends: "ends = (f, s)" by (cases ends)
  show ?thesis
  proof (cases "f = None \<or> s = None")
    case True
    with assms show ?thesis by (cases f; cases s) (auto simp: ends two_largest_def)
  next
    case False
    then obtain a b where fs: "f = Some a" "s = Some b" by auto
    with assms obtain rest where r: "b \<le> a" "ms = {#a, b#} + rest" "\<forall>x \<in># rest. x \<le> b"
      by (auto simp: ends two_largest_def)
    have none: "filter_mset (\<lambda>v. e \<le> v) rest = {#}" if "\<not> e \<le> b"
      using r(3) that by (auto simp: filter_mset_eq_mempty_iff)
    show ?thesis using r(1,2) fs
      by (cases "e \<le> a"; cases "e \<le> b") (simp_all add: ends none)
  qed
qed

lemma build_prefixes_length [simp]: "length (build_prefixes rs ends) = length rs"
  by (induction rs arbitrary: ends) auto

lemma build_prefixes_starts: "map prefix_start (build_prefixes rs ends) = map br_start rs"
  by (induction rs arbitrary: ends) auto

lemma build_prefixes_ends:
  "two_largest ms ends \<Longrightarrow> i < length rs \<Longrightarrow>
     two_largest (ms + mset (map br_end (take (Suc i) rs))) (largest_ends (build_prefixes rs ends ! i))"
proof (induction rs arbitrary: i ms ends)
  case (Cons r rs)
  note step = two_largest_push [OF Cons.prems(1), of "br_end r"]
  show ?case
  proof (cases i)
    case 0
    with step show ?thesis by simp
  next
    case (Suc j)
    with Cons.IH [OF step, of j] Cons.prems(2) show ?thesis by simp
  qed
qed simp

lemma takeWhile_sorted_filter:
  "sorted (map f xs) \<Longrightarrow> takeWhile (\<lambda>x. f x \<le> c) xs = filter (\<lambda>x. f x \<le> c) xs" for c :: "'b::linorder"
proof (induction xs)
  case (Cons x xs)
  then have "f x \<le> c \<or> filter (\<lambda>x. f x \<le> c) xs = []"
    by (auto simp: filter_empty_conv) (metis order_trans)
  with Cons show ?case by auto
qed simp

lemma whole_range_sorted: "sorted (map br_start (sort_key whole_range_key rs))"
proof -
  have "sorted (map whole_range_key (sort_key whole_range_key rs))" by simp
  then show ?thesis
    unfolding sorted_map by (rule sorted_wrt_mono_rel [rotated]) (auto simp: whole_range_key_def)
qed

text \<open>The whole definitions of a fact table, and those around a range.\<close>

definition whole_definitions :: "macro_rule_facts list \<Rightarrow> source_unit_id list" where
  "whole_definitions macro_rules =
     concat (map (\<lambda>facts. case facts of WholeRules d \<Rightarrow> [d] | RefinedRules _ _ _ \<Rightarrow> []) macro_rules)"

text \<open>
  C14. Rule selection agrees with a scan of all units.  On an index built from units and rule
  facts, \<open>selected_rule\<close> returns the one active rule with exactly the selected range; it is an
  error when two have it; when none has it, the result is a whole definition (no rule) exactly when
  one and only one of the whole definitions starts at or before the range and ends at or behind
  it.  Keeping only the two largest ends of each prefix never changes the answer.
\<close>

theorem selected_rule_exact:
  assumes "macro_rule_selection_index_new us macro_rules = Inr index"
  shows "selected_rule index r =
    (case filter (\<lambda>u. unit_kind u = MacroRule \<and> unit_cfg u = Active \<and> full_range u = r) us of
       [u] \<Rightarrow> Inr (Some (unit_id u))
     | _ # _ # _ \<Rightarrow> Inl InvalidInventory
     | [] \<Rightarrow>
         if length (filter (\<lambda>d. range_contains (full_range (us ! d)) r) (whole_definitions macro_rules)) = 1
         then Inr None else Inl IncompleteMacroRuleObservation)"
proof -
  from assms obtain ranges where
    ranges: "map_result (whole_definition_range us) (whole_definitions macro_rules) = Inr ranges"
    and index: "exact_rules index = fold add_exact_rule
        (filter (\<lambda>u. unit_kind u = MacroRule \<and> unit_cfg u = Active) us) (\<lambda>_. None)"
      "whole_prefixes index = build_prefixes (sort_key whole_range_key ranges) (None, None)"
    by (auto simp: macro_rule_selection_index_new_def whole_definitions_def Let_def bind_result_eq_Inr)
  have map: "ranges = map (\<lambda>d. full_range (us ! d)) (whole_definitions macro_rules)"
    using ranges unfolding map_result_eq_Inr
    by (auto simp: list_eq_iff_nth_eq list_all2_conv_all_nth whole_definition_range_def
        split: option.splits if_splits)
  have rules: "exact_rules index r =
    (case filter (\<lambda>u. unit_kind u = MacroRule \<and> unit_cfg u = Active \<and> full_range u = r) us of
        [] \<Rightarrow> None | [u] \<Rightarrow> Some (UniqueRule (unit_id u)) | _ # _ # _ \<Rightarrow> Some AmbiguousRule)"
    unfolding index(1) add_exact_rules filter_filter by (simp add: conj_ac)
  let ?sorted = "sort_key whole_range_key ranges"
  let ?ps = "whole_prefixes index"
  let ?n = "partition_point (\<lambda>p. prefix_start p \<le> br_start r) ?ps"
  have n: "?n = length (filter (\<lambda>q. br_start q \<le> br_start r) ?sorted)"
  proof -
    have "?n = length (takeWhile (\<lambda>v. v \<le> br_start r) (map prefix_start ?ps))"
      by (simp add: partition_point_def takeWhile_map comp_def)
    also have "\<dots> = length (takeWhile (\<lambda>q. br_start q \<le> br_start r) ?sorted)"
      by (simp add: index(2) build_prefixes_starts takeWhile_map comp_def)
    finally show ?thesis by (simp add: takeWhile_sorted_filter [OF whole_range_sorted])
  qed
  have tk: "take ?n ?sorted = filter (\<lambda>q. br_start q \<le> br_start r) ?sorted"
    unfolding n takeWhile_sorted_filter [OF whole_range_sorted, symmetric] by (rule takeWhile_eq_take [symmetric])
  let ?count = "length (filter (\<lambda>q. range_contains q r) ranges)"
  have count: "size (filter_mset (\<lambda>v. br_end r \<le> v) (mset (map br_end (take ?n ?sorted)))) = ?count"
  proof -
    have "size (filter_mset (\<lambda>v. br_end r \<le> v) (mset (map br_end (take ?n ?sorted))))
        = length (filter (\<lambda>q. br_end r \<le> br_end q) (filter (\<lambda>q. br_start q \<le> br_start r) ?sorted))"
      unfolding tk mset_filter [symmetric] size_mset by (simp add: filter_map comp_def)
    also have "\<dots> = size (filter_mset (\<lambda>q. range_contains q r) (mset ?sorted))"
      unfolding mset_filter [symmetric] size_mset filter_filter by (simp add: range_contains_def conj_commute)
    also have "\<dots> = ?count"
      by (simp only: mset_sort mset_filter [symmetric] size_mset)
    finally show ?thesis .
  qed
  have enclosing: "(case checked_sub ?n 1 of
        None \<Rightarrow> 0
      | Some i \<Rightarrow>
          (case get_at ?ps i of
             None \<Rightarrow> 0
           | Some p \<Rightarrow>
               length (filter (\<lambda>stop. case stop of None \<Rightarrow> False | Some e \<Rightarrow> br_end r \<le> e)
                 [fst (largest_ends p), snd (largest_ends p)]))) = min 2 ?count"
  proof (cases ?n)
    case 0
    then have "?count = 0" using count by simp
    with 0 show ?thesis by (simp add: checked_sub_def)
  next
    case (Suc i)
    then have i: "i < length ?sorted" using n by (metis Suc_le_lessD length_filter_le)
    have "two_largest {#} (None, None)" by (simp add: two_largest_def)
    from build_prefixes_ends [OF this i]
    have "two_largest (mset (map br_end (take ?n ?sorted))) (largest_ends (?ps ! i))"
      by (simp add: index(2) Suc [unfolded index(2)])
    from two_largest_count [OF this, of "br_end r"] count i show ?thesis
      unfolding Suc by (simp add: checked_sub_def get_at_def index(2))
  qed
  have one: "min 2 ?count = 1 \<longleftrightarrow> ?count = 1" by auto
  have final: "?count = length (filter (\<lambda>d. range_contains (full_range (us ! d)) r) (whole_definitions macro_rules))"
    by (simp add: map filter_map comp_def)
  show ?thesis
    unfolding selected_rule_def rules Let_def enclosing one final
    by (auto split: list.splits)
qed

definition sample_macro_units :: "written_unit list" where
  "sample_macro_units =
     [\<lparr>unit_id = 0, unit_kind = CrateRoot, full_range = ByteRange 0 9, unit_parent = None,
       unit_cfg = Active, atomic_group = 0, same_role_ordinal = 0\<rparr>,
      \<lparr>unit_id = 1, unit_kind = MacroDefinition, full_range = ByteRange 0 5, unit_parent = Some 0,
       unit_cfg = Active, atomic_group = 1, same_role_ordinal = 0\<rparr>,
      \<lparr>unit_id = 2, unit_kind = MacroRule, full_range = ByteRange 6 8, unit_parent = Some 0,
       unit_cfg = Active, atomic_group = 2, same_role_ordinal = 0\<rparr>]"

lemma selected_rule_exact_witness:
  "\<exists>index. macro_rule_selection_index_new sample_macro_units [WholeRules 1] = Inr index
    \<and> selected_rule index (ByteRange 1 3) = Inr None
    \<and> selected_rule index (ByteRange 6 8) = Inr (Some 2)
    \<and> selected_rule index (ByteRange 6 7) = Inl IncompleteMacroRuleObservation"
proof -
  obtain index where i: "macro_rule_selection_index_new sample_macro_units [WholeRules 1] = Inr index"
    by (simp add: macro_rule_selection_index_new_def whole_definition_range_def get_at_def
        sample_macro_units_def Let_def)
  from selected_rule_exact [OF i] i show ?thesis
    by (intro exI [of _ index]) (simp add: sample_macro_units_def whole_definitions_def range_contains_def)
qed

end
