(* ===== verification/Site_Owners.thy ===== *)
theory Site_Owners
  imports Source_Units Source_Closure "HOL-Library.Multiset"
begin

text \<open>
  \<open>src/retention/source_sites.rs\<close>: the depths of the source units, and the containment index
  that finds, for a source range the compiler observed, the innermost active units around it.  The
  index is a persistent segment tree over the unit ends, with one version per unit start; its
  nodes live in one growing vector, node 0 is the empty tree.
\<close>

section \<open>Depths\<close>

fun pop_path :: "nat list \<Rightarrow> nat \<Rightarrow> nat option list \<Rightarrow> nat list
    \<Rightarrow> retention_error + nat option list \<times> nat list" where
  "pop_path [] next_depth depths states = Inr (depths, states)"
| "pop_path (u # path) next_depth depths states =
     bind_result (ok_or (checked_add_u32 next_depth 1) InvalidGraph) (\<lambda>d.
       pop_path path d (depths[u := Some d]) (states[u := 2]))"

text \<open>Every step of the cursor loop marks a unit that was not on the path.\<close>

definition off_path :: "nat list \<Rightarrow> nat" where
  "off_path states = length (filter (\<lambda>s. s \<noteq> 1) states)"

lemma off_path_mark: "i < length states \<Longrightarrow> states ! i \<noteq> 1 \<Longrightarrow> off_path (states[i := 1]) < off_path states"
proof (induction states arbitrary: i)
  case (Cons s states)
  then show ?case by (cases i) (auto simp: off_path_def)
qed simp

text \<open>The inner loop from a cursor; \<open>path\<close> has the latest unit first.\<close>

function depth_walk :: "written_unit list \<Rightarrow> nat \<Rightarrow> nat list \<Rightarrow> nat option list \<Rightarrow> nat list
    \<Rightarrow> retention_error + nat option list \<times> nat list" where
  "depth_walk us cursor path depths states =
     (if \<not> cursor < length states then Inl InvalidGraph
      else case depths ! cursor of
        Some depth \<Rightarrow> pop_path path depth depths states
      | None \<Rightarrow>
          if states ! cursor = 1 then Inl InvalidGraph
          else
            (case unit_parent (us ! cursor) of
               None \<Rightarrow> pop_path path 0 (depths[cursor := Some 0]) (states[cursor := 2])
             | Some parent \<Rightarrow>
                 if parent \<ge> length us \<or> parent = cursor then Inl InvalidGraph
                 else depth_walk us parent (cursor # path) depths (states[cursor := 1])))"
  by pat_completeness auto

termination
  by (relation "measure (\<lambda>(us, cursor, path, depths, states). off_path states)")
     (auto simp: off_path_mark [unfolded One_nat_def])

declare depth_walk.simps [simp del]

definition check_unit_bounds :: "bytes \<Rightarrow> written_unit list \<Rightarrow> bool" where
  "check_unit_bounds original us \<longleftrightarrow>
     list_all (\<lambda>(index, u). \<not> (unit_id u \<noteq> index
       \<or> br_start (full_range u) > br_end (full_range u)
       \<or> br_end (full_range u) > length original)) (enumerate 0 us)"

definition source_unit_depths :: "source_inventory \<Rightarrow> retention_error + nat list" where
  "source_unit_depths source =
     (let us = src_units source
      in if \<not> check_unit_bounds (src_original source) us then Inl InvalidGraph
         else
           bind_result
             (fold_result
               (\<lambda>start (depths, states).
                  if depths ! start \<noteq> None then Inr (depths, states)
                  else depth_walk us start [] depths states)
               [0 ..< length us] (replicate (length us) None, replicate (length us) 0))
             (\<lambda>(depths, states). map_result (\<lambda>d. ok_or d InvalidGraph) depths))"

section \<open>The persistent tree\<close>

type_synonym owner_rank = "nat \<times> nat"

text \<open>The rank \<open>(length, Reverse(depth))\<close>: depths are \<open>u32\<close>, so the difference reverses them.\<close>

definition owner_rank :: "nat \<Rightarrow> nat \<Rightarrow> owner_rank" where
  "owner_rank len depth = (len, u32_max - depth)"

record owner_record =
  owner_id :: source_unit_id
  owner_range :: byte_range

record min_node =
  node_left :: nat
  node_right :: nat
  node_best :: "owner_rank option"

record site_owner_index =
  si_starts :: "nat list"
  si_roots :: "nat list"
  si_ends :: "nat list"
  si_nodes :: "min_node list"
  si_owners :: "owner_rank \<rightharpoonup> owner_record list"

definition empty_node :: min_node where
  "empty_node = \<lparr>node_left = 0, node_right = 0, node_best = None\<rparr>"

fun min_rank :: "'a::linorder option \<Rightarrow> 'a option \<Rightarrow> 'a option" where
  "min_rank (Some a) (Some b) = Some (min a b)"
| "min_rank (Some a) None = Some a"
| "min_rank None (Some b) = Some b"
| "min_rank None None = None"

text \<open>
  Inserting returns the grown node vector and the new root.  The code tests for an interval of one
  position; empty intervals are never visited and end the recursion here.
\<close>

function node_insert :: "min_node list \<Rightarrow> nat \<Rightarrow> nat \<Rightarrow> nat \<Rightarrow> nat \<Rightarrow> owner_rank \<Rightarrow> min_node list \<times> nat" where
  "node_insert nodes previous b e position rank =
     (let node = nodes ! previous
      in if e - b \<le> 1 then
           (nodes @ [node\<lparr>node_best := Some (case node_best node of None \<Rightarrow> rank | Some best \<Rightarrow> min best rank)\<rparr>],
            length nodes)
         else
           let middle = b + (e - b) div 2
           in if position < middle then
                let (nodes', child) = node_insert nodes (node_left node) b middle position rank;
                    node' = node\<lparr>node_left := child,
                      node_best := min_rank (node_best (nodes' ! child)) (node_best (nodes' ! node_right node))\<rparr>
                in (nodes' @ [node'], length nodes')
              else
                let (nodes', child) = node_insert nodes (node_right node) middle e position rank;
                    node' = node\<lparr>node_right := child,
                      node_best := min_rank (node_best (nodes' ! node_left node)) (node_best (nodes' ! child))\<rparr>
                in (nodes' @ [node'], length nodes'))"
  by pat_completeness auto
termination
  by (relation "measure (\<lambda>(nodes, previous, b, e, position, rank). e - b)") auto

declare node_insert.simps [simp del]

function suffix_best :: "min_node list \<Rightarrow> nat \<Rightarrow> nat \<Rightarrow> nat \<Rightarrow> nat \<Rightarrow> owner_rank option" where
  "suffix_best nodes node b e first =
     (if node = 0 \<or> e \<le> first then None
      else if first \<le> b then node_best (nodes ! node)
      else
        let middle = b + (e - b) div 2
        in min_rank (suffix_best nodes (node_left (nodes ! node)) b middle first)
             (suffix_best nodes (node_right (nodes ! node)) middle e first))"
  by pat_completeness auto
termination
proof (relation "measure (\<lambda>(nodes, node, b, e, first). e - b)", goal_cases)
  case (2 nodes node b e first middle)
  then show ?case by auto
qed auto

declare suffix_best.simps [simp del]

section \<open>Building and asking\<close>

record site_record =
  sr_start :: nat
  sr_end :: nat
  sr_rank :: owner_rank
  sr_id :: source_unit_id

definition insert_record ::
  "site_record \<Rightarrow> nat \<times> site_owner_index \<Rightarrow> nat \<times> site_owner_index" where
  "insert_record r state =
     (case state of (root, index) \<Rightarrow>
        let end_index = partition_point (\<lambda>e. e < sr_end r) (si_ends index);
            (nodes, root') = node_insert (si_nodes index) root 0 (length (si_ends index)) end_index (sr_rank r);
            entry = (case si_owners index (sr_rank r) of None \<Rightarrow> [] | Some owners \<Rightarrow> owners)
              @ [\<lparr>owner_id = sr_id r, owner_range = ByteRange (sr_start r) (sr_end r)\<rparr>]
        in (root', index\<lparr>si_nodes := nodes, si_owners := (si_owners index)(sr_rank r \<mapsto> entry)\<rparr>))"

text \<open>The outer loop: one version per start, after all records with that start.\<close>

function build_versions :: "site_record list \<Rightarrow> nat \<Rightarrow> site_owner_index \<Rightarrow> site_owner_index" where
  "build_versions records root index =
     (case records of
        [] \<Rightarrow> index
      | r # _ \<Rightarrow>
          let batch = takeWhile (\<lambda>s. sr_start s = sr_start r) records;
              (root', index') = fold insert_record batch (root, index)
          in build_versions (dropWhile (\<lambda>s. sr_start s = sr_start r) records) root'
               (index'\<lparr>si_starts := si_starts index' @ [sr_start r], si_roots := si_roots index' @ [root']\<rparr>))"
  by pat_completeness auto
termination
  by (relation "measure (\<lambda>(records, root, index). length records)")
     (auto simp: less_Suc_eq_le length_dropWhile_le)

declare build_versions.simps [simp del]

definition site_records :: "written_unit list \<Rightarrow> nat list \<Rightarrow> site_record list" where
  "site_records us depths =
     sort_key (\<lambda>r. (sr_start r, sr_end r, sr_rank r, sr_id r))
       (map (\<lambda>u. \<lparr>sr_start = br_start (full_range u), sr_end = br_end (full_range u),
                   sr_rank = owner_rank (range_len (full_range u)) (depths ! unit_id u), sr_id = unit_id u\<rparr>)
         (filter (\<lambda>u. unit_cfg u = Active) us))"

definition site_owner_index_new :: "source_inventory \<Rightarrow> retention_error + site_owner_index" where
  "site_owner_index_new source =
     bind_result (source_unit_depths source) (\<lambda>depths.
       let records = site_records (src_units source) depths;
           index = build_versions records 0
             \<lparr>si_starts = [], si_roots = [], si_ends = sort_dedup (map sr_end records),
              si_nodes = [empty_node], si_owners = Map.empty\<rparr>
       in Inr (index\<lparr>si_owners := \<lambda>rank. map_option
             (sort_key (\<lambda>r. (br_start (owner_range r), owner_id r))) (si_owners index rank)\<rparr>))"

definition site_owners :: "site_owner_index \<Rightarrow> byte_range \<Rightarrow> retention_error + source_unit_id list" where
  "site_owners index site =
     (let version = partition_point (\<lambda>start. start \<le> br_start site) (si_starts index)
      in if version = 0 then Inl InvalidGraph
         else
           let first_end = partition_point (\<lambda>e. e < br_end site) (si_ends index)
           in if first_end = length (si_ends index) then Inl InvalidGraph
              else
                case suffix_best (si_nodes index) (si_roots index ! (version - 1)) 0 (length (si_ends index)) first_end of
                  None \<Rightarrow> Inl InvalidGraph
                | Some rank \<Rightarrow>
                    (case si_owners index rank of
                       None \<Rightarrow> Inl InvalidGraph
                     | Some candidates \<Rightarrow>
                         let first_start = br_end site - fst rank;
                             begin_at = partition_point (\<lambda>r. br_start (owner_range r) < first_start) candidates;
                             end_at = partition_point (\<lambda>r. br_start (owner_range r) \<le> br_start site) candidates;
                             owners = map owner_id (filter (\<lambda>r. range_contains (owner_range r) site)
                               (drop begin_at (take end_at candidates)))
                         in if owners = [] then Inl InvalidGraph else Inr (sort owners)))"

definition source_site_is_retained ::
  "site_owner_index \<Rightarrow> source_unit_id set \<Rightarrow> byte_range \<Rightarrow> retention_error + bool" where
  "source_site_is_retained index retained site =
     bind_result (site_owners index site) (\<lambda>owners.
       let states = (\<lambda>u. u \<in> retained) ` set owners
       in if card states \<noteq> 1 then Inl InvalidGraph else Inr (True \<in> states))"

definition source_site_owner :: "site_owner_index \<Rightarrow> byte_range \<Rightarrow> retention_error + source_unit_id" where
  "source_site_owner index site =
     bind_result (site_owners index site) (\<lambda>owners.
       case owners of [owner] \<Rightarrow> Inr owner | _ \<Rightarrow> Inl IncompleteMemberConstraints)"

section \<open>Depths are distances from the root\<close>

fun path_chain :: "written_unit list \<Rightarrow> nat list \<Rightarrow> nat \<Rightarrow> bool" where
  "path_chain us [] c = True"
| "path_chain us (u # path) c = (u < length us \<and> unit_parent (us ! u) = Some c \<and> path_chain us path u)"

definition depths_sound :: "written_unit list \<Rightarrow> nat list \<Rightarrow> nat option list \<Rightarrow> nat list \<Rightarrow> bool" where
  "depths_sound us path depths states \<longleftrightarrow>
     length depths = length us \<and> length states = length us
     \<and> (\<forall>i < length us. \<forall>d. depths ! i = Some d \<longrightarrow> rooted us i d)
     \<and> (\<forall>i < length us. states ! i = 1 \<longrightarrow> i \<in> set path)"

lemma path_chain_deeper:
  "path_chain us path c \<Longrightarrow> rooted us c d \<Longrightarrow> u \<in> set path \<Longrightarrow> \<exists>e > d. rooted us u e"
proof (induction path arbitrary: c d)
  case (Cons v path)
  from Cons.prems have v: "rooted us v (Suc d)" by (auto intro: rooted.rooted_child)
  with Cons.IH [of v "Suc d"] Cons.prems show ?case by (auto intro: Suc_lessD)
qed simp

lemma pop_path_sound:
  assumes "depths_sound us path depths states" and "path_chain us path c" and "rooted us c d"
    and "length us \<le> u32_max"
  shows "\<exists>depths' states'. pop_path path d depths states = Inr (depths', states')
    \<and> depths_sound us [] depths' states'
    \<and> (\<forall>i < length us. i \<in> set path \<or> depths ! i \<noteq> None \<longrightarrow> depths' ! i \<noteq> None)"
  using assms(1-3)
proof (induction path arbitrary: c d depths states)
  case (Cons u path)
  from Cons.prems(2,3) have u: "u < length us" "rooted us u (Suc d)" "path_chain us path u"
    by (auto intro: rooted.rooted_child)
  from rooted_depth_less [OF u(2)] assms(4)
  have a: "pop_path (u # path) d depths states = pop_path path (Suc d) (depths[u := Some (Suc d)]) (states[u := 2])"
    by (simp add: checked_add_u32_def)
  have "depths_sound us path (depths[u := Some (Suc d)]) (states[u := 2])"
    using Cons.prems(1) u(1,2) by (auto simp: depths_sound_def nth_list_update)
  from Cons.IH [OF this u(3,2)] obtain depths' states' where
    r: "pop_path path (Suc d) (depths[u := Some (Suc d)]) (states[u := 2]) = Inr (depths', states')"
      "depths_sound us [] depths' states'"
      "\<forall>i < length us. i \<in> set path \<or> depths[u := Some (Suc d)] ! i \<noteq> None \<longrightarrow> depths' ! i \<noteq> None" by blast
  have "length depths = length us" using Cons.prems(1) by (simp add: depths_sound_def)
  with r(3) u(1) have "\<forall>i < length us. i \<in> set (u # path) \<or> depths ! i \<noteq> None \<longrightarrow> depths' ! i \<noteq> None"
    by (metis nth_list_update option.distinct(1) set_ConsD)
  with r(1,2) show ?case unfolding a by blast
qed (auto simp: depths_sound_def)

lemma rooted_parent_iff:
  assumes "i < length us" and "unit_parent (us ! i) = Some p"
  shows "(\<exists>d. rooted us i d) \<longleftrightarrow> (\<exists>d. rooted us p d)"
proof
  assume "\<exists>d. rooted us i d"
  then obtain d where "rooted us i d" by blast
  then show "\<exists>d. rooted us p d" using assms(2) by (cases rule: rooted.cases) auto
next
  assume "\<exists>d. rooted us p d"
  then show "\<exists>d. rooted us i d" using assms by (blast intro: rooted.rooted_child)
qed

lemma rooted_own_parent: "i < length us \<Longrightarrow> unit_parent (us ! i) = Some i \<Longrightarrow> \<not> rooted us i d"
  by (metis n_not_Suc_n rooted.rooted_child rooted_unique)

lemma depth_walk_spec:
  assumes "depths_sound us path depths states" and "path_chain us path cursor" and "cursor < length us"
    and "length us \<le> u32_max"
  shows "if \<exists>d. rooted us cursor d
    then \<exists>depths' states'. depth_walk us cursor path depths states = Inr (depths', states')
      \<and> depths_sound us [] depths' states'
      \<and> (\<forall>i < length us. i = cursor \<or> i \<in> set path \<or> depths ! i \<noteq> None \<longrightarrow> depths' ! i \<noteq> None)
    else depth_walk us cursor path depths states = Inl InvalidGraph"
  using assms
proof (induction us cursor path depths states rule: depth_walk.induct)
  case (1 us cursor path depths states)
  have len: "length states = length us" "length depths = length us"
    using 1(2) by (simp_all add: depths_sound_def)
  show ?case
  proof (cases "depths ! cursor")
    case (Some d)
    then have r: "rooted us cursor d" using 1(2,4) by (simp add: depths_sound_def)
    have "depth_walk us cursor path depths states = pop_path path d depths states"
      using Some len 1(4) by (subst depth_walk.simps) simp
    with pop_path_sound [OF 1(2,3) r 1(5)] r Some 1(4) show ?thesis by auto
  next
    case None
    show ?thesis
    proof (cases "states ! cursor = 1")
      case True
      then have "cursor \<in> set path" using 1(2,4) by (simp add: depths_sound_def)
      with path_chain_deeper [OF 1(3)] have "\<not> (\<exists>d. rooted us cursor d)"
        by (metis nat_neq_iff rooted_unique)
      moreover have "depth_walk us cursor path depths states = Inl InvalidGraph"
        using None True len 1(4) by (subst depth_walk.simps) simp
      ultimately show ?thesis by simp
    next
      case fresh: False
      show ?thesis
      proof (cases "unit_parent (us ! cursor)")
        case root: None
        then have r: "rooted us cursor 0" using 1(4) by (auto intro: rooted.rooted_root)
        have "depths_sound us path (depths[cursor := Some 0]) (states[cursor := 2])"
          using 1(2,4) r by (auto simp: depths_sound_def nth_list_update)
        from pop_path_sound [OF this 1(3) r 1(5)] obtain depths' states' where
          p: "pop_path path 0 (depths[cursor := Some 0]) (states[cursor := 2]) = Inr (depths', states')"
            "depths_sound us [] depths' states'"
            "\<forall>i < length us. i \<in> set path \<or> depths[cursor := Some 0] ! i \<noteq> None \<longrightarrow> depths' ! i \<noteq> None"
          by blast
        have "depth_walk us cursor path depths states = Inr (depths', states')"
          using None fresh root len 1(4) p(1) by (subst depth_walk.simps) simp
        moreover have "\<forall>i < length us. i = cursor \<or> i \<in> set path \<or> depths ! i \<noteq> None \<longrightarrow> depths' ! i \<noteq> None"
          using p(3) len 1(4) by (metis nth_list_update option.distinct(1))
        ultimately show ?thesis using r p(2) by auto
      next
        case (Some parent)
        have child: "(\<exists>d. rooted us cursor d) \<longleftrightarrow> (\<exists>d. rooted us parent d)"
          by (rule rooted_parent_iff [OF 1(4) Some])
        show ?thesis
        proof (cases "parent \<ge> length us \<or> parent = cursor")
          case True
          then have "\<not> (\<exists>d. rooted us cursor d)"
            using child rooted_own_parent [OF 1(4)] Some by (auto dest: rooted_bound)
          moreover have "depth_walk us cursor path depths states = Inl InvalidGraph"
            using None fresh Some True len 1(4) by (subst depth_walk.simps) auto
          ultimately show ?thesis by simp
        next
          case False
          have "depths_sound us (cursor # path) depths (states[cursor := 1])"
            using 1(2,4) by (auto simp: depths_sound_def nth_list_update)
          moreover have "path_chain us (cursor # path) parent" using 1(3,4) Some by simp
          ultimately have IH: "if \<exists>d. rooted us parent d
            then \<exists>depths' states'. depth_walk us parent (cursor # path) depths (states[cursor := 1]) = Inr (depths', states')
              \<and> depths_sound us [] depths' states'
              \<and> (\<forall>i < length us. i = parent \<or> i \<in> set (cursor # path) \<or> depths ! i \<noteq> None \<longrightarrow> depths' ! i \<noteq> None)
            else depth_walk us parent (cursor # path) depths (states[cursor := 1]) = Inl InvalidGraph"
            using 1(1) [OF _ None fresh Some False] len 1(4,5) False by simp
          have "depth_walk us cursor path depths states = depth_walk us parent (cursor # path) depths (states[cursor := 1])"
            using None fresh Some False len 1(4) by (subst depth_walk.simps) simp
          with IH show ?thesis unfolding child by (auto split: if_splits)
        qed
      qed
    qed
  qed
qed

lemma depth_fold_spec:
  assumes "n \<le> length us" and "length us \<le> u32_max" and "depths_sound us [] ds ss"
  shows "case fold_result (\<lambda>start (depths, states).
        if depths ! start \<noteq> None then Inr (depths, states) else depth_walk us start [] depths states)
      [length us - n ..< length us] (ds, ss) of
      Inl e \<Rightarrow> e = InvalidGraph \<and> \<not> all_rooted us
    | Inr (depths, states) \<Rightarrow> depths_sound us [] depths states
        \<and> (\<forall>i < length us. length us - n \<le> i \<or> ds ! i \<noteq> None \<longrightarrow> depths ! i \<noteq> None)"
  using assms(1,3)
proof (induction n arbitrary: ds ss)
  case (Suc n)
  let ?i = "length us - Suc n"
  have list: "[?i ..< length us] = ?i # [length us - n ..< length us]"
    using Suc.prems(1) by (simp add: upt_conv_Cons Suc_diff_Suc)
  have i: "?i < length us" using Suc.prems(1) by simp
  have cover: "length us - n \<le> j \<or> j = ?i" if "?i \<le> j" for j using that by linarith
  show ?case
  proof (cases "ds ! ?i")
    case (Some d)
    with Suc.IH [OF _ Suc.prems(2)] Suc.prems(1) show ?thesis
      unfolding list by (auto split: sum.splits dest!: cover)
  next
    case None
    have pc: "path_chain us [] ?i" by simp
    have walk: "if \<exists>d. rooted us ?i d
      then \<exists>ds' ss'. depth_walk us ?i [] ds ss = Inr (ds', ss') \<and> depths_sound us [] ds' ss'
        \<and> (\<forall>j < length us. j = ?i \<or> ds ! j \<noteq> None \<longrightarrow> ds' ! j \<noteq> None)
      else depth_walk us ?i [] ds ss = Inl InvalidGraph"
      using depth_walk_spec [OF Suc.prems(2) pc i assms(2)] by (simp only: list.set(1) empty_iff simp_thms)
    show ?thesis
    proof (cases "\<exists>d. rooted us ?i d")
      case True
      with walk obtain ds' ss' where w: "depth_walk us ?i [] ds ss = Inr (ds', ss')" "depths_sound us [] ds' ss'"
        "\<forall>j < length us. j = ?i \<or> ds ! j \<noteq> None \<longrightarrow> ds' ! j \<noteq> None" by auto
      from Suc.IH [OF _ w(2)] Suc.prems(1) w(1,3) None show ?thesis
        unfolding list by (fastforce split: sum.splits dest!: cover)
    next
      case False
      with walk None i show ?thesis unfolding list by (auto simp: all_rooted_def)
    qed
  qed
qed simp

definition well_bounded :: "source_inventory \<Rightarrow> bool" where
  "well_bounded source \<longleftrightarrow>
     (\<forall>i < length (src_units source).
        unit_id (src_units source ! i) = i
        \<and> br_start (full_range (src_units source ! i)) \<le> br_end (full_range (src_units source ! i))
        \<and> br_end (full_range (src_units source ! i)) \<le> length (src_original source))"

lemma check_unit_bounds_iff: "check_unit_bounds (src_original source) (src_units source) \<longleftrightarrow> well_bounded source"
  by (auto simp: check_unit_bounds_def well_bounded_def list_all_iff set_enumerate_nth not_less)

lemma source_unit_depths_spec:
  assumes "length (src_units source) \<le> u32_max"
  shows "source_unit_depths source =
    (if well_bounded source \<and> all_rooted (src_units source)
     then Inr (map (depth_of (src_units source)) [0 ..< length (src_units source)])
     else Inl InvalidGraph)"
proof (cases "well_bounded source")
  case False
  then show ?thesis by (simp add: source_unit_depths_def check_unit_bounds_iff Let_def)
next
  case True
  let ?us = "src_units source"
  let ?fold = "fold_result (\<lambda>start (depths, states).
        if depths ! start \<noteq> None then Inr (depths, states) else depth_walk ?us start [] depths states)
      [0 ..< length ?us] (replicate (length ?us) None, replicate (length ?us) 0)"
  have code: "source_unit_depths source =
      bind_result ?fold (\<lambda>(depths, states). map_result (\<lambda>d. ok_or d InvalidGraph) depths)"
    using True by (simp add: source_unit_depths_def check_unit_bounds_iff Let_def)
  have "depths_sound ?us [] (replicate (length ?us) None) (replicate (length ?us) 0)"
    by (simp add: depths_sound_def)
  note spec = depth_fold_spec [OF order_refl assms this]
  show ?thesis
  proof (cases ?fold)
    case (Inl e)
    with spec True show ?thesis unfolding code by simp
  next
    case (Inr res)
    obtain depths states where res: "res = (depths, states)" by (cases res)
    with spec Inr have d: "depths_sound ?us [] depths states" "\<forall>i < length ?us. depths ! i \<noteq> None" by auto
    then have r: "\<exists>d. rooted ?us i d \<and> depths ! i = Some d" if "i < length ?us" for i
      using that by (force simp: depths_sound_def)
    then have "all_rooted ?us" by (force simp: all_rooted_def)
    moreover have "depths = map (\<lambda>i. Some (depth_of ?us i)) [0 ..< length ?us]"
      using d(1) r rooted_depth_of by (intro nth_equalityI) (force simp: depths_sound_def)+
    then have "map_result (\<lambda>d. ok_or d InvalidGraph) depths = Inr (map (depth_of ?us) [0 ..< length ?us])"
      using map_result_ok_or [of InvalidGraph "depth_of ?us"] by simp
    ultimately show ?thesis unfolding code using Inr res True by simp
  qed
qed

section \<open>What a tree node stands for\<close>

lemma min_rank_None [simp]: "min_rank a None = a" "min_rank None a = a"
  by (cases a; simp)+

lemma min_rank_assoc: "min_rank (min_rank a b) c = min_rank a (min_rank b c)"
  by (cases a; cases b; cases c) (simp_all add: min.assoc)

lemma min_rank_commute: "min_rank a b = min_rank b a"
  by (cases a; cases b) (simp_all add: min.commute)

definition best_of :: "'a::linorder option list \<Rightarrow> 'a option" where
  "best_of xs = foldr min_rank xs None"

lemma best_of_simps [simp]:
  "best_of [] = None"
  "best_of (x # xs) = min_rank x (best_of xs)"
  "best_of (xs @ ys) = min_rank (best_of xs) (best_of ys)"
proof -
  show "best_of (xs @ ys) = min_rank (best_of xs) (best_of ys)"
    by (induction xs) (simp_all add: best_of_def min_rank_assoc)
qed (simp_all add: best_of_def)

lemma best_of_None: "best_of xs = None \<longleftrightarrow> (\<forall>x \<in> set xs. x = None)"
proof (induction xs)
  case (Cons x xs)
  then show ?case by (cases x; cases "best_of xs") auto
qed simp

lemma best_of_Some:
  "best_of xs = Some r \<longleftrightarrow> Some r \<in> set xs \<and> (\<forall>q. Some q \<in> set xs \<longrightarrow> r \<le> q)"
proof (induction xs arbitrary: r)
  case (Cons x xs)
  show ?case
  proof (cases x)
    case None
    with Cons show ?thesis by auto
  next
    case (Some a)
    show ?thesis
    proof (cases "best_of xs")
      case None
      then have "\<forall>x \<in> set xs. x = None" by (simp add: best_of_None)
      with None Some show ?thesis by fastforce
    next
      case (Some b)
      with Cons.IH [of b] have b: "Some b \<in> set xs" "\<forall>q. Some q \<in> set xs \<longrightarrow> b \<le> q" by auto
      show ?thesis
      proof
        assume "best_of (x # xs) = Some r"
        then have "r = min a b" using Some \<open>x = Some a\<close> by simp
        with b \<open>x = Some a\<close> show "Some r \<in> set (x # xs) \<and> (\<forall>q. Some q \<in> set (x # xs) \<longrightarrow> r \<le> q)"
          by (auto simp: min_def intro: order_trans)
      next
        assume "Some r \<in> set (x # xs) \<and> (\<forall>q. Some q \<in> set (x # xs) \<longrightarrow> r \<le> q)"
        then have "r \<le> a" "r \<le> b" "r = a \<or> b \<le> r" using b \<open>x = Some a\<close> by auto
        then show "best_of (x # xs) = Some r" using Some \<open>x = Some a\<close> by (auto simp: min_def)
      qed
    qed
  qed
qed simp

function seg_rep :: "min_node list \<Rightarrow> nat \<Rightarrow> nat \<Rightarrow> nat \<Rightarrow> (nat \<Rightarrow> owner_rank option) \<Rightarrow> bool" where
  "seg_rep nodes n b e f \<longleftrightarrow>
     (if n = 0 then \<forall>p. b \<le> p \<and> p < e \<longrightarrow> f p = None
      else n < length nodes \<and> node_best (nodes ! n) = best_of (map f [b ..< e])
        \<and> (if 1 < e - b
           then seg_rep nodes (node_left (nodes ! n)) b (b + (e - b) div 2) f
             \<and> seg_rep nodes (node_right (nodes ! n)) (b + (e - b) div 2) e f
           else True))"
  by pat_completeness auto
termination by (relation "measure (\<lambda>(nodes, n, b, e, f). e - b)") auto

declare seg_rep.simps [simp del]

lemma seg_rep_append: "seg_rep nodes n b e f \<Longrightarrow> seg_rep (nodes @ xs) n b e f"
proof (induction nodes n b e f rule: seg_rep.induct)
  case (1 nodes n b e f)
  show ?case
  proof (cases "n = 0")
    case True
    with 1(3) show ?thesis by (simp add: seg_rep.simps)
  next
    case False
    with 1(3) have n: "n < length nodes" by (simp add: seg_rep.simps [of nodes])
    with 1 False show ?thesis
      by (simp add: seg_rep.simps [of nodes n] seg_rep.simps [of "nodes @ xs" n] nth_append split: if_splits)
  qed
qed

lemma middle_le: "b \<le> e \<Longrightarrow> b + (e - b) div 2 \<le> (e :: nat)"
  by presburger

lemma seg_rep_cong:
  "seg_rep nodes n b e f \<Longrightarrow> (\<And>p. b \<le> p \<Longrightarrow> p < e \<Longrightarrow> f p = g p) \<Longrightarrow> seg_rep nodes n b e g"
proof (induction nodes n b e f rule: seg_rep.induct)
  case (1 nodes n b e f)
  have eq: "map f [b ..< e] = map g [b ..< e]" using 1(4) by simp
  show ?case
  proof (cases "n = 0")
    case True
    with 1(3,4) show ?thesis by (simp add: seg_rep.simps)
  next
    case n: False
    show ?thesis
    proof (cases "1 < e - b")
      case True
      then have m: "b + (e - b) div 2 \<le> e" by (intro middle_le) simp
      from n True 1(3) have kids: "seg_rep nodes (node_left (nodes ! n)) b (b + (e - b) div 2) f"
        "seg_rep nodes (node_right (nodes ! n)) (b + (e - b) div 2) e f"
        by (simp_all add: seg_rep.simps [of nodes n])
      have "seg_rep nodes (node_left (nodes ! n)) b (b + (e - b) div 2) g"
        by (rule 1(1) [OF n True kids(1)]) (use m 1(4) in auto)
      moreover have "seg_rep nodes (node_right (nodes ! n)) (b + (e - b) div 2) e g"
        by (rule 1(2) [OF n True kids(2)]) (use 1(4) in auto)
      ultimately show ?thesis
        using n True 1(3) eq by (simp add: seg_rep.simps [of nodes n])
    next
      case False
      with n 1(3) eq show ?thesis by (simp add: seg_rep.simps [of nodes n])
    qed
  qed
qed

lemma seg_rep_best:
  assumes "seg_rep nodes n b e f" and "nodes ! 0 = empty_node"
  shows "node_best (nodes ! n) = best_of (map f [b ..< e])"
proof (cases "n = 0")
  case True
  with assms(1) have "best_of (map f [b ..< e]) = None"
    by (auto simp: seg_rep.simps best_of_None)
  with assms(2) True show ?thesis by (simp add: empty_node_def)
next
  case False
  with assms(1) show ?thesis by (simp add: seg_rep.simps)
qed

lemma seg_rep_children:
  assumes "seg_rep nodes n b e f" and "nodes ! 0 = empty_node" and "1 < e - b"
  shows "seg_rep nodes (node_left (nodes ! n)) b (b + (e - b) div 2) f"
    and "seg_rep nodes (node_right (nodes ! n)) (b + (e - b) div 2) e f"
proof -
  have "seg_rep nodes (node_left (nodes ! n)) b (b + (e - b) div 2) f
    \<and> seg_rep nodes (node_right (nodes ! n)) (b + (e - b) div 2) e f"
  proof (cases "n = 0")
    case True
    moreover have "b + (e - b) div 2 \<le> e" using assms(3) by (intro middle_le) simp
    ultimately show ?thesis using assms by (auto simp: empty_node_def seg_rep.simps)
  next
    case False
    with assms(1,3) show ?thesis by (subst (asm) seg_rep.simps) simp
  qed
  then show "seg_rep nodes (node_left (nodes ! n)) b (b + (e - b) div 2) f"
    and "seg_rep nodes (node_right (nodes ! n)) (b + (e - b) div 2) e f" by auto
qed

lemma upt_middle: "1 < e - b \<Longrightarrow> [b ..< e] = [b ..< b + (e - b) div 2] @ [b + (e - b) div 2 ..< e]"
  by (rule upt_split [symmetric]) auto

lemma node_insert_rep:
  assumes "nodes \<noteq> []" and "nodes ! 0 = empty_node" and "seg_rep nodes previous b e f"
    and "b \<le> position" and "position < e"
  shows "case node_insert nodes previous b e position rank of (nodes', root) \<Rightarrow>
    root \<noteq> 0 \<and> (\<exists>xs. nodes' = nodes @ xs)
    \<and> seg_rep nodes' root b e (f(position := min_rank (f position) (Some rank)))"
  using assms
proof (induction nodes previous b e position rank rule: node_insert.induct)
  case (1 nodes previous b e position rank)
  let ?f = "f(position := min_rank (f position) (Some rank))"
  note best = seg_rep_best [OF 1(5,4)]
  show ?case
  proof (cases "e - b \<le> 1")
    case True
    with 1(6,7) have eb: "e = Suc b" "position = b" by auto
    have "node_best (nodes ! previous) = f b" using best eb by simp
    with True eb 1(3) show ?thesis
      by (cases "f b") (auto simp: node_insert.simps [of nodes previous] seg_rep.simps Let_def)
  next
    case False
    then have big: "1 < e - b" by simp
    let ?m = "b + (e - b) div 2"
    note kids = seg_rep_children [OF 1(5,4) big]
    show ?thesis
    proof (cases "position < ?m")
      case True
      obtain nodes' child where r: "node_insert nodes (node_left (nodes ! previous)) b ?m position rank = (nodes', child)"
        by (cases "node_insert nodes (node_left (nodes ! previous)) b ?m position rank")
      from 1(1) [OF refl False refl True 1(3,4) kids(1) 1(6) True] r obtain xs where
        c: "child \<noteq> 0" "nodes' = nodes @ xs" "seg_rep nodes' child b ?m ?f" by (auto simp del: fun_upd_apply)
      have zero: "nodes' ! 0 = empty_node" using 1(3,4) c(2) by (simp add: nth_append)
      have right: "seg_rep nodes' (node_right (nodes ! previous)) ?m e ?f"
        unfolding c(2) by (rule seg_rep_append, rule seg_rep_cong [OF kids(2)]) (use True in auto)
      let ?node = "(nodes ! previous)\<lparr>node_left := child,
        node_best := min_rank (node_best (nodes' ! child)) (node_best (nodes' ! node_right (nodes ! previous)))\<rparr>"
      have "node_best ?node = best_of (map ?f [b ..< e])"
        unfolding upt_middle [OF big] using seg_rep_best [OF c(3) zero] seg_rep_best [OF right zero] by simp
      moreover have "nodes' \<noteq> []" using 1(3) c(2) by simp
      ultimately have "seg_rep (nodes' @ [?node]) (length nodes') b e ?f"
        using seg_rep_append [OF c(3), of "[?node]"] seg_rep_append [OF right, of "[?node]"]
        by (subst seg_rep.simps) simp
      then show ?thesis
        using r c(2) True False \<open>nodes' \<noteq> []\<close> by (subst node_insert.simps) (simp add: Let_def)
    next
      case right_side: False
      obtain nodes' child where r: "node_insert nodes (node_right (nodes ! previous)) ?m e position rank = (nodes', child)"
        by (cases "node_insert nodes (node_right (nodes ! previous)) ?m e position rank")
      have "?m \<le> position" using right_side by simp
      from 1(2) [OF refl False refl right_side 1(3,4) kids(2) this 1(7)] r obtain xs where
        c: "child \<noteq> 0" "nodes' = nodes @ xs" "seg_rep nodes' child ?m e ?f" by (auto simp del: fun_upd_apply)
      have zero: "nodes' ! 0 = empty_node" using 1(3,4) c(2) by (simp add: nth_append)
      have left: "seg_rep nodes' (node_left (nodes ! previous)) b ?m ?f"
        unfolding c(2) by (rule seg_rep_append, rule seg_rep_cong [OF kids(1)]) (use right_side in auto)
      let ?node = "(nodes ! previous)\<lparr>node_right := child,
        node_best := min_rank (node_best (nodes' ! node_left (nodes ! previous))) (node_best (nodes' ! child))\<rparr>"
      have "node_best ?node = best_of (map ?f [b ..< e])"
        unfolding upt_middle [OF big] using seg_rep_best [OF c(3) zero] seg_rep_best [OF left zero] by simp
      moreover have "nodes' \<noteq> []" using 1(3) c(2) by simp
      ultimately have "seg_rep (nodes' @ [?node]) (length nodes') b e ?f"
        using seg_rep_append [OF c(3), of "[?node]"] seg_rep_append [OF left, of "[?node]"]
        by (subst seg_rep.simps) simp
      then show ?thesis
        using r c(2) right_side False \<open>nodes' \<noteq> []\<close> by (subst node_insert.simps) (simp add: Let_def)
    qed
  qed
qed

lemma suffix_best_rep:
  assumes "seg_rep nodes n b e f"
  shows "suffix_best nodes n b e first = best_of (map f [max b first ..< e])"
  using assms
proof (induction nodes n b e first rule: suffix_best.induct)
  case (1 nodes n b e first)
  show ?case
  proof (cases "n = 0 \<or> e \<le> first")
    case True
    then have "best_of (map f [max b first ..< e]) = None"
      using 1(3) by (auto simp: seg_rep.simps best_of_None)
    with True show ?thesis by (subst suffix_best.simps) simp
  next
    case ne: False
    show ?thesis
    proof (cases "first \<le> b")
      case True
      with ne 1(3) show ?thesis
        by (subst suffix_best.simps) (simp add: seg_rep.simps [of nodes n] max_def)
    next
      case False
      with ne have big: "1 < e - b" by linarith
      let ?m = "b + (e - b) div 2"
      from 1(3) ne big have kids: "seg_rep nodes (node_left (nodes ! n)) b ?m f"
        "seg_rep nodes (node_right (nodes ! n)) ?m e f"
        by (simp_all add: seg_rep.simps [of nodes n])
      have m: "?m \<le> e" using big by (intro middle_le) simp
      have "[max b first ..< e] = [max b first ..< ?m] @ [max ?m first ..< e]"
        using m ne by (cases "first \<le> ?m") (auto simp: max_def upt_split)
      then have "best_of (map f [max b first ..< e])
          = min_rank (best_of (map f [max b first ..< ?m])) (best_of (map f [max ?m first ..< e]))"
        by simp
      with 1(1) [OF ne False refl kids(1)] 1(2) [OF ne False refl kids(2)] ne False show ?thesis
        by (subst suffix_best.simps) (simp add: Let_def)
    qed
  qed
qed

section \<open>What the index holds\<close>

definition to_owner :: "site_record \<Rightarrow> owner_record" where
  "to_owner r = \<lparr>owner_id = sr_id r, owner_range = ByteRange (sr_start r) (sr_end r)\<rparr>"

definition ends_best :: "nat list \<Rightarrow> site_record list \<Rightarrow> nat \<Rightarrow> owner_rank option" where
  "ends_best ends rs p = best_of (map (\<lambda>r. Some (sr_rank r)) (filter (\<lambda>r. sr_end r = ends ! p) rs))"

definition index_state :: "nat list \<Rightarrow> site_record list \<Rightarrow> nat \<Rightarrow> site_owner_index \<Rightarrow> bool" where
  "index_state ends rs root index \<longleftrightarrow>
     si_ends index = ends \<and> si_nodes index \<noteq> [] \<and> si_nodes index ! 0 = empty_node
     \<and> seg_rep (si_nodes index) root 0 (length ends) (ends_best ends rs)
     \<and> (\<forall>rank. si_owners index rank
          = (let found = filter (\<lambda>r. sr_rank r = rank) rs
             in if found = [] then None else Some (map to_owner found)))"

lemma partition_point_nth:
  assumes "sorted xs" and "distinct xs" and "x \<in> set xs"
  shows "partition_point (\<lambda>e. e < x) xs < length xs \<and> xs ! partition_point (\<lambda>e. e < x) xs = (x :: 'a::linorder)"
proof -
  let ?p = "partition_point (\<lambda>e. e < x) xs"
  from assms(3) obtain i where i: "i < length xs" "xs ! i = x" by (auto simp: in_set_conv_nth)
  have "\<not> i < ?p" using partition_point_before [of i "\<lambda>e. e < x" xs] i by auto
  then have p: "?p \<le> i" "?p < length xs" using i(1) by auto
  from partition_point_at [OF p(2)] have "x \<le> xs ! ?p" by simp
  moreover have "xs ! ?p \<le> xs ! i" using p(1) i(1) assms(1) by (simp add: sorted_nth_mono)
  ultimately show ?thesis using p(2) i by simp
qed

lemma insert_record_state:
  assumes "index_state ends rs root index" and "sorted ends" and "distinct ends" and "sr_end r \<in> set ends"
  shows "case insert_record r (root, index) of (root', index') \<Rightarrow>
    index_state ends (rs @ [r]) root' index' \<and> (\<exists>xs. si_nodes index' = si_nodes index @ xs)
    \<and> si_starts index' = si_starts index \<and> si_roots index' = si_roots index"
proof -
  let ?p = "partition_point (\<lambda>e. e < sr_end r) ends"
  note p = partition_point_nth [OF assms(2-4)]
  from assms(1) have st: "si_ends index = ends" "si_nodes index \<noteq> []" "si_nodes index ! 0 = empty_node"
    "seg_rep (si_nodes index) root 0 (length ends) (ends_best ends rs)"
    "\<And>rank. si_owners index rank = (let found = filter (\<lambda>r. sr_rank r = rank) rs
       in if found = [] then None else Some (map to_owner found))"
    by (auto simp: index_state_def)
  obtain nodes root' where ins: "node_insert (si_nodes index) root 0 (length ends) ?p (sr_rank r) = (nodes, root')"
    by (cases "node_insert (si_nodes index) root 0 (length ends) ?p (sr_rank r)")
  from node_insert_rep [OF st(2-4), of ?p "sr_rank r"] p ins obtain xs where
    n: "nodes = si_nodes index @ xs"
      "seg_rep nodes root' 0 (length ends)
        ((ends_best ends rs)(?p := min_rank (ends_best ends rs ?p) (Some (sr_rank r))))"
    by (auto simp del: fun_upd_apply)
  have "seg_rep nodes root' 0 (length ends) (ends_best ends (rs @ [r]))"
  proof (rule seg_rep_cong [OF n(2)])
    fix q
    assume "q < length ends"
    with p assms(3) have "sr_end r = ends ! q \<longleftrightarrow> q = ?p" by (metis nth_eq_iff_index_eq)
    with p show "((ends_best ends rs)(?p := min_rank (ends_best ends rs ?p) (Some (sr_rank r)))) q
        = ends_best ends (rs @ [r]) q"
      by (auto simp: ends_best_def)
  qed
  moreover have "nodes ! 0 = empty_node" using n(1) st(2,3) by (simp add: nth_append)
  ultimately show ?thesis
    using st ins n(1)
    by (auto simp: insert_record_def index_state_def Let_def to_owner_def)
qed

lemma fold_insert_state:
  assumes "index_state ends rs root index" and "sorted ends" and "distinct ends"
    and "\<forall>r \<in> set batch. sr_end r \<in> set ends"
  shows "case fold insert_record batch (root, index) of (root', index') \<Rightarrow>
    index_state ends (rs @ batch) root' index' \<and> (\<exists>xs. si_nodes index' = si_nodes index @ xs)
    \<and> si_starts index' = si_starts index \<and> si_roots index' = si_roots index"
  using assms(1,4)
proof (induction batch arbitrary: rs root index)
  case (Cons r batch)
  obtain root1 index1 where i: "insert_record r (root, index) = (root1, index1)"
    by (cases "insert_record r (root, index)")
  from insert_record_state [OF Cons.prems(1) assms(2,3), of r] Cons.prems(2) i
  have s: "index_state ends (rs @ [r]) root1 index1" "\<exists>xs. si_nodes index1 = si_nodes index @ xs"
    "si_starts index1 = si_starts index" "si_roots index1 = si_roots index" by auto
  from Cons.IH [OF s(1)] Cons.prems(2) s(2-4) show ?case
    by (auto simp: i split: prod.splits)
qed simp

definition versions_ok :: "nat list \<Rightarrow> site_record list \<Rightarrow> site_record list \<Rightarrow> site_owner_index \<Rightarrow> bool" where
  "versions_ok ends all_records rs index \<longleftrightarrow>
     length (si_roots index) = length (si_starts index)
     \<and> sorted_wrt (<) (si_starts index) \<and> set (si_starts index) = set (map sr_start rs)
     \<and> (\<forall>v < length (si_starts index). seg_rep (si_nodes index) (si_roots index ! v) 0 (length ends)
          (ends_best ends (filter (\<lambda>r. sr_start r \<le> si_starts index ! v) all_records)))"

lemma build_versions_state:
  assumes "index_state ends rs root index" and "versions_ok ends all_records rs index"
    and "all_records = rs @ records" and "sorted (map sr_start records)"
    and "\<forall>d \<in> set rs. \<forall>r \<in> set records. sr_start d < sr_start r"
    and "sorted ends" and "distinct ends" and "\<forall>r \<in> set records. sr_end r \<in> set ends"
  shows "\<exists>root'. index_state ends all_records root' (build_versions records root index)
    \<and> versions_ok ends all_records all_records (build_versions records root index)"
  using assms(1-5,8)
proof (induction records root index arbitrary: rs rule: build_versions.induct)
  case (1 records root index)
  show ?case
  proof (cases records)
    case Nil
    with 1(2-4) show ?thesis by (subst (1 2) build_versions.simps) auto
  next
    case (Cons r rest)
    let ?batch = "takeWhile (\<lambda>s. sr_start s = sr_start r) records"
    let ?later = "dropWhile (\<lambda>s. sr_start s = sr_start r) records"
    have split: "records = ?batch @ ?later" by simp
    have ge: "\<forall>s \<in> set records. sr_start r \<le> sr_start s" using 1(5) Cons by auto
    have "?batch = takeWhile (\<lambda>s. sr_start s \<le> sr_start r) records"
      using ge by (intro takeWhile_cong) auto
    then have batch: "?batch = filter (\<lambda>s. sr_start s \<le> sr_start r) records"
      using takeWhile_sorted_filter [OF 1(5)] by simp
    have sorted_later: "sorted (map sr_start ?later)"
    proof -
      have "sorted (map sr_start ?batch @ map sr_start ?later)"
        unfolding map_append [symmetric] takeWhile_dropWhile_id by (rule 1(5))
      then show ?thesis by (simp only: sorted_append)
    qed
    have later: "sr_start r < sr_start s" if s: "s \<in> set ?later" for s
    proof -
      from s obtain s0 rest0 where l: "?later = s0 # rest0" by (cases ?later) auto
      then have "?later \<noteq> []" by simp
      from hd_dropWhile [OF this] l have "sr_start s0 \<noteq> sr_start r" by simp
      moreover have "s0 \<in> set ?later" unfolding l by simp
      then have "s0 \<in> set records" by (rule set_dropWhileD)
      then have "sr_start r \<le> sr_start s0" using ge by blast
      moreover have "sorted (map sr_start ?later)" by (rule sorted_later)
      ultimately show ?thesis using s l by auto
    qed
    obtain root1 index1 where f: "fold insert_record ?batch (root, index) = (root1, index1)"
      by (cases "fold insert_record ?batch (root, index)")
    have "\<forall>s \<in> set ?batch. sr_end s \<in> set ends" using 1(7) by (auto dest: set_takeWhileD)
    from fold_insert_state [OF 1(2) assms(6,7) this] f obtain xs where
      s1: "index_state ends (rs @ ?batch) root1 index1" "si_nodes index1 = si_nodes index @ xs"
        "si_starts index1 = si_starts index" "si_roots index1 = si_roots index" by auto
    let ?index = "index1\<lparr>si_starts := si_starts index1 @ [sr_start r], si_roots := si_roots index1 @ [root1]\<rparr>"
    have all: "all_records = (rs @ ?batch) @ ?later" using 1(4) by simp
    have "filter (\<lambda>s. sr_start s \<le> sr_start r) all_records = rs @ ?batch"
    proof -
      have "filter (\<lambda>s. sr_start s \<le> sr_start r) rs = rs"
        using 1(6) Cons by (intro filter_True) (auto dest: less_imp_le)
      with batch show ?thesis by (simp add: 1(4))
    qed
    then have new: "seg_rep (si_nodes index1) root1 0 (length ends)
        (ends_best ends (filter (\<lambda>s. sr_start s \<le> sr_start r) all_records))"
      using s1(1) by (simp add: index_state_def)
    have starts: "sr_start ` set ?batch = {sr_start r}"
      using Cons by (auto dest: set_takeWhileD)
    have rin: "r \<in> set records" using Cons by simp
    have old: "length (si_roots index) = length (si_starts index)" "sorted_wrt (<) (si_starts index)"
      "set (si_starts index) = sr_start ` set rs"
      "\<And>v. v < length (si_starts index) \<Longrightarrow> seg_rep (si_nodes index1) (si_roots index ! v) 0 (length ends)
        (ends_best ends (filter (\<lambda>s. sr_start s \<le> si_starts index ! v) all_records))"
      using 1(3) seg_rep_append by (auto simp: versions_ok_def s1(2))
    have v: "versions_ok ends all_records (rs @ ?batch) ?index"
      unfolding versions_ok_def
    proof (intro conjI allI impI)
      show "length (si_roots ?index) = length (si_starts ?index)" using old(1) s1(3,4) by simp
      show "sorted_wrt (<) (si_starts ?index)"
        using old(2,3) s1(3) 1(6) rin by (auto simp: sorted_wrt_append)
      show "set (si_starts ?index) = set (map sr_start (rs @ ?batch))"
        using old(3) s1(3) starts by simp
    next
      fix v
      assume "v < length (si_starts ?index)"
      then have "v < length (si_starts index) \<or> v = length (si_starts index)" using s1(3) by auto
      then show "seg_rep (si_nodes ?index) (si_roots ?index ! v) 0 (length ends)
          (ends_best ends (filter (\<lambda>s. sr_start s \<le> si_starts ?index ! v) all_records))"
        using old(1,4) new s1(3,4) by (auto simp: nth_append)
    qed
    have "index_state ends (rs @ ?batch) root1 ?index" using s1(1) by (simp add: index_state_def)
    moreover note sorted_later
    moreover have "\<forall>d \<in> set (rs @ ?batch). \<forall>s \<in> set ?later. sr_start d < sr_start s"
      using 1(6) later by (auto dest: set_takeWhileD set_dropWhileD)
    moreover have "\<forall>s \<in> set ?later. sr_end s \<in> set ends" using 1(7) by (auto dest: set_dropWhileD)
    ultimately have IH: "\<exists>root'. index_state ends all_records root' (build_versions ?later root1 ?index)
        \<and> versions_ok ends all_records all_records (build_versions ?later root1 ?index)"
      using 1(1) [OF Cons refl f [symmetric] refl _ v all] by simp
    have "build_versions records root index = build_versions ?later root1 ?index"
      using Cons f by (subst build_versions.simps) (simp add: Let_def)
    with IH show ?thesis by simp
  qed
qed

section \<open>What a question answers\<close>

definition records_around :: "site_record list \<Rightarrow> byte_range \<Rightarrow> site_record list" where
  "records_around rs site = filter (\<lambda>r. sr_start r \<le> br_start site \<and> br_end site \<le> sr_end r) rs"

definition built_index :: "site_record list \<Rightarrow> site_owner_index \<Rightarrow> bool" where
  "built_index rs index \<longleftrightarrow>
     versions_ok (si_ends index) rs rs index
     \<and> sorted (si_ends index) \<and> distinct (si_ends index) \<and> set (si_ends index) = sr_end ` set rs
     \<and> (\<forall>rank. si_owners index rank
          = (let found = filter (\<lambda>r. sr_rank r = rank) rs
             in if found = [] then None
                else Some (sort_key (\<lambda>r. (br_start (owner_range r), owner_id r)) (map to_owner found))))"

lemma partition_point_sorted:
  "sorted xs \<Longrightarrow> i < length xs \<Longrightarrow> i < partition_point (\<lambda>e. e < x) xs \<longleftrightarrow> xs ! i < (x :: 'a::linorder)"
  "sorted xs \<Longrightarrow> i < length xs \<Longrightarrow> i < partition_point (\<lambda>e. e \<le> x) xs \<longleftrightarrow> xs ! i \<le> x"
  by (rule partition_point_iff; use sorted_nth_mono in \<open>blast intro: order.trans le_less_trans\<close>)+

lemma best_of_ends:
  assumes "sr_end ` set rs \<subseteq> set ends"
  shows "best_of (map (ends_best ends rs) (filter (\<lambda>p. br_end site \<le> ends ! p) [0 ..< length ends]))
    = best_of (map (\<lambda>r. Some (sr_rank r)) (filter (\<lambda>r. br_end site \<le> sr_end r) rs))"
    (is "best_of ?tree = best_of ?flat")
proof -
  have tree: "Some q \<in> set ?tree \<longrightarrow> Some q \<in> set ?flat" for q
  proof
    assume "Some q \<in> set ?tree"
    then obtain p where p: "br_end site \<le> ends ! p"
      "best_of (map (\<lambda>r. Some (sr_rank r)) (filter (\<lambda>r. sr_end r = ends ! p) rs)) = Some q"
      by (auto simp: ends_best_def)
    then have "Some q \<in> set (map (\<lambda>r. Some (sr_rank r)) (filter (\<lambda>r. sr_end r = ends ! p) rs))"
      by (simp only: best_of_Some)
    with p(1) show "Some q \<in> set ?flat" by auto
  qed
  have flat: "\<exists>q' \<le> q. Some q' \<in> set ?tree" if q: "Some q \<in> set ?flat" for q
  proof -
    from q obtain r where r: "r \<in> set rs" "br_end site \<le> sr_end r" "q = sr_rank r" by auto
    with assms obtain p where p: "p < length ends" "ends ! p = sr_end r" by (metis imageI in_set_conv_nth subsetD)
    let ?here = "map (\<lambda>r. Some (sr_rank r)) (filter (\<lambda>r. sr_end r = ends ! p) rs)"
    have mem: "Some q \<in> set ?here" using r p by auto
    then obtain q' where q': "best_of ?here = Some q'"
      by (metis best_of_None not_Some_eq)
    from iffD1 [OF best_of_Some q'] mem have "q' \<le> q" by blast
    moreover have "Some q' \<in> set ?tree"
      using q' p r(2) by (auto simp: ends_best_def image_iff intro!: bexI [of _ p])
    ultimately show ?thesis by blast
  qed
  show ?thesis
  proof (cases "best_of ?flat")
    case None
    then have "\<forall>q. Some q \<notin> set ?flat" by (force simp: best_of_None)
    with tree have "\<forall>x \<in> set ?tree. x = None" by (metis not_Some_eq)
    with None show ?thesis by (simp add: best_of_None)
  next
    case (Some q)
    then have q: "Some q \<in> set ?flat" "\<And>q'. Some q' \<in> set ?flat \<Longrightarrow> q \<le> q'" by (simp_all only: best_of_Some)
    from flat [OF q(1)] obtain q' where q': "q' \<le> q" "Some q' \<in> set ?tree" by blast
    with tree q(2) have "q' = q" by (meson order_antisym)
    with q' tree q(2) have "best_of ?tree = Some q" by (simp only: best_of_Some) blast
    with Some show ?thesis by simp
  qed
qed

lemma filter_slice:
  "(\<And>i. i < length xs \<Longrightarrow> P (xs ! i) \<Longrightarrow> b \<le> i \<and> i < e) \<Longrightarrow> filter P (drop b (take e xs)) = filter P xs"
proof -
  assume out: "\<And>i. i < length xs \<Longrightarrow> P (xs ! i) \<Longrightarrow> b \<le> i \<and> i < e"
  have "\<not> P x" if "x \<in> set (drop e xs)" for x
  proof
    assume "P x"
    from that obtain i where "i < length (drop e xs)" "x = drop e xs ! i" by (auto simp: in_set_conv_nth)
    then have "e + i < length xs" "x = xs ! (e + i)" by auto
    with out [of "e + i"] \<open>P x\<close> show False by simp
  qed
  then have "filter P (drop e xs) = []" by (simp add: filter_empty_conv)
  then have 1: "filter P xs = filter P (take e xs)"
    by (metis append_Nil2 append_take_drop_id filter_append)
  have "\<not> P x" if "x \<in> set (take b (take e xs))" for x
  proof
    assume "P x"
    from that obtain i where "i < b" "i < length xs" "x = xs ! i" by (auto simp: in_set_conv_nth)
    with out [of i] \<open>P x\<close> show False by simp
  qed
  then have "filter P (take b (take e xs)) = []" by (simp add: filter_empty_conv)
  then have "filter P (take e xs) = filter P (drop b (take e xs))"
    by (metis append_Nil append_take_drop_id filter_append)
  with 1 show ?thesis by simp
qed

lemma sort_mset_eq: "mset xs = mset ys \<Longrightarrow> sort xs = sort ys"
  by (metis mset_sort properties_for_sort sorted_sort)

lemma filter_upt_from: "filter (\<lambda>p. k \<le> p) [0 ..< n] = [k ..< n]"
  by (induction n) auto

lemma sorted_start_of_pair:
  "sorted (map (\<lambda>r. br_start (owner_range r)) (sort_key (\<lambda>r. (br_start (owner_range r), owner_id r)) xs))"
proof -
  let ?key = "\<lambda>r. (br_start (owner_range r), owner_id r)"
  have "sorted (map ?key (sort_key ?key xs))" by (rule sorted_sort_key)
  then show ?thesis
    unfolding sorted_map by (rule sorted_wrt_mono_rel [rotated]) auto
qed

text \<open>
  The answer over the records: the ranks of the records around the site compete, and the owners of
  the least rank are returned in order of their ids.  A record's width is the first part of its rank.
\<close>

lemma site_owners_records:
  assumes "built_index rs index" and "\<forall>r \<in> set rs. fst (sr_rank r) = sr_end r - sr_start r"
  shows "site_owners index site =
    (case best_of (map (\<lambda>r. Some (sr_rank r)) (records_around rs site)) of
       None \<Rightarrow> Inl InvalidGraph
     | Some rank \<Rightarrow> Inr (sort (map sr_id (filter (\<lambda>r. sr_rank r = rank) (records_around rs site)))))"
proof -
  let ?starts = "si_starts index" and ?ends = "si_ends index"
  let ?v = "partition_point (\<lambda>s. s \<le> br_start site) ?starts"
  let ?e = "partition_point (\<lambda>e. e < br_end site) ?ends"
  from assms(1) have vo: "length (si_roots index) = length ?starts" "sorted_wrt (<) ?starts"
    "set ?starts = sr_start ` set rs"
    "\<And>v. v < length ?starts \<Longrightarrow> seg_rep (si_nodes index) (si_roots index ! v) 0 (length ?ends)
        (ends_best ?ends (filter (\<lambda>r. sr_start r \<le> ?starts ! v) rs))"
    and ends: "sorted ?ends" "distinct ?ends" "set ?ends = sr_end ` set rs"
    and owners: "\<And>rank. si_owners index rank = (let found = filter (\<lambda>r. sr_rank r = rank) rs
             in if found = [] then None
                else Some (sort_key (\<lambda>r. (br_start (owner_range r), owner_id r)) (map to_owner found)))"
    by (auto simp: built_index_def versions_ok_def)
  have sorted_starts: "sorted ?starts" using vo(2) by (simp add: strict_sorted_iff)
  note v_iff = partition_point_sorted(2) [OF sorted_starts, of _ "br_start site"]
  note e_iff = partition_point_sorted(1) [OF ends(1), of _ "br_end site"]
  let ?around = "records_around rs site"
  show ?thesis
  proof (cases "?v = 0")
    case True
    have "?around = []"
    proof (rule ccontr)
      assume "?around \<noteq> []"
      then obtain r where "r \<in> set rs" "sr_start r \<le> br_start site"
        by (auto simp: records_around_def filter_empty_conv)
      then obtain i where "i < length ?starts" "?starts ! i \<le> br_start site"
        using vo(3) by (metis imageI in_set_conv_nth)
      with v_iff True show False by auto
    qed
    with True show ?thesis by (simp add: site_owners_def)
  next
    case v: False
    then have vl: "?v - 1 < length ?starts" using partition_point_le [of _ ?starts] by (metis One_nat_def Suc_pred le_simps(3) not_gr_zero)
    have below: "sr_start r \<le> ?starts ! (?v - 1) \<longleftrightarrow> sr_start r \<le> br_start site" if "r \<in> set rs" for r
    proof
      assume "sr_start r \<le> ?starts ! (?v - 1)"
      moreover have "?starts ! (?v - 1) \<le> br_start site" using v_iff [OF vl] v by simp
      ultimately show "sr_start r \<le> br_start site" by (rule order.trans)
    next
      assume le: "sr_start r \<le> br_start site"
      from that vo(3) obtain i where i: "i < length ?starts" "?starts ! i = sr_start r"
        by (metis imageI in_set_conv_nth)
      with v_iff [OF i(1)] le have "i \<le> ?v - 1" by simp
      with i sorted_starts vl show "sr_start r \<le> ?starts ! (?v - 1)" by (metis sorted_nth_mono)
    qed
    let ?early = "filter (\<lambda>r. sr_start r \<le> br_start site) rs"
    have early: "filter (\<lambda>r. sr_start r \<le> ?starts ! (?v - 1)) rs = ?early" using below by (intro filter_cong) auto
    have around: "?around = filter (\<lambda>r. br_end site \<le> sr_end r) ?early"
      by (auto simp: records_around_def intro: filter_cong)
    let ?best = "best_of (map (\<lambda>r. Some (sr_rank r)) ?around)"
    have tree: "suffix_best (si_nodes index) (si_roots index ! (?v - 1)) 0 (length ?ends) ?e = ?best"
    proof -
      have "suffix_best (si_nodes index) (si_roots index ! (?v - 1)) 0 (length ?ends) ?e
          = best_of (map (ends_best ?ends ?early) [max 0 ?e ..< length ?ends])"
        using suffix_best_rep [OF vo(4) [OF vl]] unfolding early by blast
      also have "[max 0 ?e ..< length ?ends] = filter (\<lambda>p. br_end site \<le> ?ends ! p) [0 ..< length ?ends]"
      proof -
        have "filter (\<lambda>p. br_end site \<le> ?ends ! p) [0 ..< length ?ends] = filter (\<lambda>p. ?e \<le> p) [0 ..< length ?ends]"
          using e_iff by (intro filter_cong) (auto simp: not_less [symmetric])
        also have "\<dots> = [?e ..< length ?ends]" by (rule filter_upt_from)
        finally show ?thesis by simp
      qed
      also have "best_of (map (ends_best ?ends ?early) \<dots>) = ?best"
        unfolding around by (rule best_of_ends) (use ends(3) in auto)
      finally show ?thesis .
    qed
    have none: "?best = None" if "?e = length ?ends"
      using that unfolding tree [symmetric] by (subst suffix_best.simps) simp
    show ?thesis
    proof (cases ?best)
      case None
      with v tree show ?thesis by (simp add: site_owners_def Let_def del: One_nat_def)
    next
      case (Some rank)
      let ?found = "filter (\<lambda>r. sr_rank r = rank) rs"
      let ?cands = "sort_key (\<lambda>r. (br_start (owner_range r), owner_id r)) (map to_owner ?found)"
      let ?b = "partition_point (\<lambda>r. br_start (owner_range r) < br_end site - fst rank) ?cands"
      let ?c = "partition_point (\<lambda>r. br_start (owner_range r) \<le> br_start site) ?cands"
      let ?holds = "\<lambda>r. range_contains (owner_range r) site"
      have "Some rank \<in> set (map (\<lambda>r. Some (sr_rank r)) ?around)" using Some by (simp only: best_of_Some)
      then obtain r where r: "r \<in> set ?around" "sr_rank r = rank" by auto
      then have "?found \<noteq> []" by (auto simp: records_around_def filter_empty_conv)
      then have own: "si_owners index rank = Some ?cands" using owners [of rank] by (simp add: Let_def)
      have cand: "fst rank = br_end (owner_range q) - br_start (owner_range q)" if "q \<in> set ?cands" for q
        using that assms(2) by (auto simp: to_owner_def)
      have starts: "sorted (map (\<lambda>r. br_start (owner_range r)) ?cands)"
        by (rule sorted_start_of_pair)
      have slice: "filter ?holds (drop ?b (take ?c ?cands)) = filter ?holds ?cands"
      proof (rule filter_slice)
        fix i
        assume i: "i < length ?cands" "?holds (?cands ! i)"
        have "\<not> i < ?b"
        proof
          assume "i < ?b"
          from partition_point_before [OF this] cand [OF nth_mem [OF i(1)]] i(2) show False
            by (simp add: range_contains_def) linarith
        qed
        moreover have "i < ?c"
        proof (subst partition_point_iff)
          fix a c
          assume "a \<le> c" and "c < length ?cands" and "br_start (owner_range (?cands ! c)) \<le> br_start site"
          moreover from this have "br_start (owner_range (?cands ! a)) \<le> br_start (owner_range (?cands ! c))"
            using starts by (simp add: sorted_iff_nth_mono)
          ultimately show "br_start (owner_range (?cands ! a)) \<le> br_start site" by simp
        qed (use i in \<open>simp_all add: range_contains_def\<close>)
        ultimately show "?b \<le> i \<and> i < ?c" by simp
      qed
      have "mset (map owner_id (filter ?holds ?cands)) = mset (map sr_id (filter (\<lambda>r. sr_rank r = rank) ?around))"
      proof -
        have "mset (filter ?holds ?cands) = mset (filter ?holds (map to_owner ?found))"
          by (simp only: mset_filter mset_sort)
        then have "mset (map owner_id (filter ?holds ?cands)) = mset (map owner_id (filter ?holds (map to_owner ?found)))"
          by (simp only: mset_map)
        also have "map owner_id (filter ?holds (map to_owner ?found)) = map sr_id (filter (\<lambda>r. sr_rank r = rank) ?around)"
          by (induction rs) (auto simp: records_around_def to_owner_def range_contains_def)
        finally show ?thesis .
      qed
      then have sorts: "sort (map owner_id (filter ?holds ?cands)) = sort (map sr_id (filter (\<lambda>r. sr_rank r = rank) ?around))"
        by (rule sort_mset_eq)
      have "sort (map sr_id (filter (\<lambda>r. sr_rank r = rank) ?around)) \<noteq> []"
      proof -
        have "sr_id r \<in> set (sort (map sr_id (filter (\<lambda>r. sr_rank r = rank) ?around)))" using r by auto
        then show ?thesis by (metis empty_iff list.set(1))
      qed
      with sorts have "map owner_id (filter ?holds ?cands) \<noteq> []" by auto
      moreover have "?e \<noteq> length ?ends" using none Some by auto
      ultimately show ?thesis
        using v tree own slice Some sorts by (simp add: site_owners_def Let_def del: One_nat_def)
    qed
  qed
qed

lemma distinct_remdups_adj_sorted: "sorted (xs :: 'a::linorder list) \<Longrightarrow> distinct (remdups_adj xs)"
  by (induction xs rule: remdups_adj.induct) auto

lemma site_owner_index_new_built:
  assumes "site_owner_index_new source = Inr index" and "source_unit_depths source = Inr depths"
  shows "built_index (site_records (src_units source) depths) index"
proof -
  let ?rs = "site_records (src_units source) depths"
  let ?ends = "sort_dedup (map sr_end ?rs)"
  let ?empty = "\<lparr>si_starts = [], si_roots = [], si_ends = ?ends, si_nodes = [empty_node], si_owners = Map.empty\<rparr>"
  have ends: "sorted ?ends" "distinct ?ends" "set ?ends = sr_end ` set ?rs"
    by (simp_all add: sort_dedup_def distinct_remdups_adj_sorted)
  have "index_state ?ends [] 0 ?empty"
    by (simp add: index_state_def seg_rep.simps ends_best_def)
  moreover have "versions_ok ?ends ?rs [] ?empty" by (simp add: versions_ok_def)
  moreover have "sorted (map sr_start ?rs)"
  proof -
    let ?key = "\<lambda>r. (sr_start r, sr_end r, sr_rank r, sr_id r)"
    have "sorted (map ?key ?rs)" unfolding site_records_def by (rule sorted_sort_key)
    then show ?thesis unfolding sorted_map by (rule sorted_wrt_mono_rel [rotated]) auto
  qed
  ultimately obtain root where b: "index_state ?ends ?rs root (build_versions ?rs 0 ?empty)"
    "versions_ok ?ends ?rs ?rs (build_versions ?rs 0 ?empty)"
    using build_versions_state [of ?ends "[]" 0 ?empty ?rs ?rs] ends by auto
  have "index = (build_versions ?rs 0 ?empty)\<lparr>si_owners := \<lambda>rank. map_option
      (sort_key (\<lambda>r. (br_start (owner_range r), owner_id r))) (si_owners (build_versions ?rs 0 ?empty) rank)\<rparr>"
    using assms by (simp add: site_owner_index_new_def Let_def)
  with b ends show ?thesis
    by (auto simp: built_index_def index_state_def versions_ok_def Let_def)
qed

text \<open>The specification: the active units around a site, and the innermost of them.\<close>

definition units_around :: "written_unit list \<Rightarrow> byte_range \<Rightarrow> written_unit list" where
  "units_around us site = filter (\<lambda>u. unit_cfg u = Active \<and> range_contains (full_range u) site) us"

definition innermost_units :: "written_unit list \<Rightarrow> byte_range \<Rightarrow> written_unit list" where
  "innermost_units us site =
     (let around = units_around us site
      in filter (\<lambda>u. list_all (\<lambda>w.
           range_len (full_range u) < range_len (full_range w)
           \<or> range_len (full_range u) = range_len (full_range w)
             \<and> depth_of us (unit_id w) \<le> depth_of us (unit_id u)) around) around)"

definition unit_rank :: "written_unit list \<Rightarrow> written_unit \<Rightarrow> owner_rank" where
  "unit_rank us u = owner_rank (range_len (full_range u)) (depth_of us (unit_id u))"

lemma best_of_least:
  assumes "x \<in> set xs"
  shows "\<exists>q. best_of (map (\<lambda>x. Some (f x)) xs) = Some q
    \<and> filter (\<lambda>x. f x = q) xs = filter (\<lambda>x. list_all (\<lambda>y. f x \<le> f y) xs) xs \<and> filter (\<lambda>x. f x = q) xs \<noteq> []"
proof -
  obtain q where q: "best_of (map (\<lambda>x. Some (f x)) xs) = Some q"
    using assms by (cases "best_of (map (\<lambda>x. Some (f x)) xs)") (auto simp: best_of_None)
  from iffD1 [OF best_of_Some q] obtain x where x: "x \<in> set xs" "f x = q" by auto
  from iffD1 [OF best_of_Some q] have least: "q \<le> f y" if "y \<in> set xs" for y using that by auto
  have "f y = q \<longleftrightarrow> list_all (\<lambda>z. f y \<le> f z) xs" if "y \<in> set xs" for y
    using least [OF that] least x by (auto simp: list_all_iff intro: order_antisym)
  then have "filter (\<lambda>x. f x = q) xs = filter (\<lambda>x. list_all (\<lambda>y. f x \<le> f y) xs) xs" by (rule filter_cong [OF refl])
  moreover have "x \<in> set (filter (\<lambda>x. f x = q) xs)" using x by simp
  then have "filter (\<lambda>x. f x = q) xs \<noteq> []" by (metis empty_iff list.set(1))
  ultimately show ?thesis using q by blast
qed

lemma best_of_least_Nil:
  "filter (\<lambda>x. list_all (\<lambda>y. f x \<le> (f y :: 'a::linorder)) xs) xs = [] \<longleftrightarrow> xs = []"
proof
  assume none: "filter (\<lambda>x. list_all (\<lambda>y. f x \<le> f y) xs) xs = []"
  show "xs = []"
  proof (rule ccontr)
    assume "xs \<noteq> []"
    then have "hd xs \<in> set xs" by simp
    from best_of_least [OF this, of f] none show False by auto
  qed
qed simp

lemma innermost_some: "innermost_units us site = [] \<longleftrightarrow> units_around us site = []"
proof -
  let ?around = "units_around us site" and ?d = "\<lambda>u. depth_of us (unit_id u)"
  let ?m = "Max (?d ` set ?around)"
  let ?key = "\<lambda>u. (range_len (full_range u), ?m - ?d u)"
  have "?key u \<le> ?key w \<longleftrightarrow> range_len (full_range u) < range_len (full_range w)
      \<or> range_len (full_range u) = range_len (full_range w) \<and> ?d w \<le> ?d u"
    if "u \<in> set ?around" "w \<in> set ?around" for u w
  proof -
    have "?d u \<le> ?m" "?d w \<le> ?m" using that by (auto intro: Max_ge)
    then show ?thesis by auto
  qed
  then have "innermost_units us site = filter (\<lambda>u. list_all (\<lambda>w. ?key u \<le> ?key w) ?around) ?around"
    unfolding innermost_units_def Let_def list_all_iff by (intro filter_cong) auto
  with best_of_least_Nil [of ?key ?around] show ?thesis by simp
qed

lemma best_of_set_eq:
  assumes "set xs = set ys"
  shows "best_of xs = best_of ys"
proof (cases "best_of ys")
  case None
  then have "best_of xs = None" unfolding best_of_None assms .
  with None show ?thesis by simp
next
  case (Some q)
  then have "best_of xs = Some q" unfolding best_of_Some assms .
  with Some show ?thesis by simp
qed

lemma site_owners_units:
  assumes "site_owner_index_new source = Inr index" and "well_bounded source" and "all_rooted (src_units source)"
    and "length (src_units source) \<le> u32_max" and "length (src_original source) \<le> u32_max"
  shows "site_owners index site =
    (if units_around (src_units source) site = [] then Inl InvalidGraph
     else Inr (map unit_id (innermost_units (src_units source) site)))"
proof -
  let ?us = "src_units source"
  let ?depths = "map (depth_of ?us) [0 ..< length ?us]"
  let ?rec = "\<lambda>u. \<lparr>sr_start = br_start (full_range u), sr_end = br_end (full_range u),
      sr_rank = unit_rank ?us u, sr_id = unit_id u\<rparr>"
  let ?rs = "site_records ?us ?depths" and ?flat = "map ?rec (filter (\<lambda>u. unit_cfg u = Active) ?us)"
  let ?around = "units_around ?us site"
  have ids: "map unit_id ?us = [0 ..< length ?us]"
    using assms(2) by (intro nth_equalityI) (auto simp: well_bounded_def)
  have unit: "br_start (full_range u) \<le> br_end (full_range u)" "br_end (full_range u) \<le> u32_max"
    "unit_id u < length ?us" "depth_of ?us (unit_id u) \<le> u32_max" if "u \<in> set ?us" for u
  proof -
    from that obtain i where i: "i < length ?us" "u = ?us ! i" by (auto simp: in_set_conv_nth)
    with assms(2,5) show "br_start (full_range u) \<le> br_end (full_range u)" "br_end (full_range u) \<le> u32_max"
      "unit_id u < length ?us" by (auto simp: well_bounded_def)
    from i assms(3) obtain d where d: "rooted ?us i d" by (auto simp: all_rooted_def)
    from rooted_depth_of [OF d] rooted_depth_less [OF d] assms(2,4) i show "depth_of ?us (unit_id u) \<le> u32_max"
      by (auto simp: well_bounded_def)
  qed
  have rs: "mset ?rs = mset ?flat"
    unfolding site_records_def mset_sort
    by (intro arg_cong [of _ _ mset] map_cong refl) (auto simp: unit_rank_def unit(3))
  have flat: "records_around ?flat site = map ?rec ?around"
    unfolding records_around_def units_around_def filter_map filter_filter comp_def range_contains_def
    by (intro arg_cong [of _ _ "map ?rec"] filter_cong) auto
  have around: "mset (records_around ?rs site) = mset (map ?rec ?around)"
    unfolding flat [symmetric] records_around_def mset_filter rs ..
  have built: "built_index ?rs index"
    using site_owner_index_new_built [OF assms(1)] source_unit_depths_spec [OF assms(4)] assms(2,3) by simp
  have "\<forall>r \<in> set ?flat. fst (sr_rank r) = sr_end r - sr_start r"
    using unit by (auto simp: unit_rank_def owner_rank_def)
  then have "\<forall>r \<in> set ?rs. fst (sr_rank r) = sr_end r - sr_start r"
    using mset_eq_setD [OF rs] by simp
  note code = site_owners_records [OF built this, of site]
  have "best_of (map (\<lambda>r. Some (sr_rank r)) (records_around ?rs site))
      = best_of (map (\<lambda>u. Some (unit_rank ?us u)) ?around)"
    by (rule best_of_set_eq) (simp add: mset_eq_setD [OF around] image_image)
  note code = code [unfolded this]
  have ids_of: "sort (map sr_id (filter (\<lambda>r. sr_rank r = q) (records_around ?rs site)))
      = map unit_id (filter (\<lambda>u. unit_rank ?us u = q) ?around)" for q
  proof -
    have "mset (map sr_id (filter (\<lambda>r. sr_rank r = q) (records_around ?rs site)))
        = mset (map sr_id (filter (\<lambda>r. sr_rank r = q) (map ?rec ?around)))"
      by (simp only: mset_map mset_filter around)
    also have "map sr_id (filter (\<lambda>r. sr_rank r = q) (map ?rec ?around))
        = map unit_id (filter (\<lambda>u. unit_rank ?us u = q) ?around)"
      by (simp add: filter_map comp_def)
    finally have "sort (map sr_id (filter (\<lambda>r. sr_rank r = q) (records_around ?rs site)))
        = sort (map unit_id (filter (\<lambda>u. unit_rank ?us u = q) ?around))" by (rule sort_mset_eq)
    also have "\<dots> = map unit_id (filter (\<lambda>u. unit_rank ?us u = q) ?around)"
      unfolding units_around_def by (intro sorted_sort_id sorted_filter) (simp add: ids)
    finally show ?thesis .
  qed
  have order: "unit_rank ?us u \<le> unit_rank ?us w \<longleftrightarrow>
      range_len (full_range u) < range_len (full_range w)
      \<or> range_len (full_range u) = range_len (full_range w) \<and> depth_of ?us (unit_id w) \<le> depth_of ?us (unit_id u)"
    if "u \<in> set ?around" "w \<in> set ?around" for u w
    using unit(4) [of u] unit(4) [of w] that by (auto simp: unit_rank_def owner_rank_def units_around_def)
  have inner: "filter (\<lambda>u. list_all (\<lambda>w. unit_rank ?us u \<le> unit_rank ?us w) ?around) ?around = innermost_units ?us site"
    unfolding innermost_units_def Let_def list_all_iff using order by (intro filter_cong) auto
  show ?thesis
  proof (cases ?around)
    case Nil
    with code show ?thesis by simp
  next
    case (Cons u rest)
    then have "u \<in> set ?around" by simp
    from best_of_least [OF this, of "unit_rank ?us"] obtain q where
      "best_of (map (\<lambda>u. Some (unit_rank ?us u)) ?around) = Some q"
      "filter (\<lambda>u. unit_rank ?us u = q) ?around = innermost_units ?us site" unfolding inner by blast
    with code ids_of [of q] Cons show ?thesis by simp
  qed
qed

text \<open>
  C18. The containment index is built exactly for inventories whose units carry their positions as
  ids, have ranges inside the source and reach a root along their parents.  A site is then owned by
  the active units around it of least width and, among those, of greatest depth, in order of their
  ids; a site that no active unit contains is refused.
\<close>

theorem site_owners_exact:
  assumes "length (src_units source) \<le> u32_max" and "length (src_original source) \<le> u32_max"
  shows "case site_owner_index_new source of
      Inl e \<Rightarrow> e = InvalidGraph \<and> (if well_bounded source then \<not> all_rooted (src_units source) else True)
    | Inr index \<Rightarrow> well_bounded source \<and> all_rooted (src_units source)
        \<and> site_owners index site =
            (if units_around (src_units source) site = [] then Inl InvalidGraph
             else Inr (map unit_id (innermost_units (src_units source) site)))"
proof (cases "site_owner_index_new source")
  case (Inl e)
  with source_unit_depths_spec [OF assms(1)] show ?thesis
    by (auto simp: site_owner_index_new_def Let_def split: if_splits)
next
  case (Inr index)
  then have ok: "well_bounded source" "all_rooted (src_units source)"
    using source_unit_depths_spec [OF assms(1)]
    by (auto simp: site_owner_index_new_def Let_def split: if_splits)
  from site_owners_units [OF Inr ok assms] Inr ok show ?thesis by simp
qed

section \<open>Clients of the owner lookup\<close>

text \<open>
  What a client relies on: on a usable index the lookup answers with the ids a specification
  promises, and never with an empty list.
\<close>

locale owner_lookup =
  fixes lookup :: "'i \<Rightarrow> byte_range \<Rightarrow> retention_error + source_unit_id list"
    and promised :: "'i \<Rightarrow> byte_range \<Rightarrow> source_unit_id list"
    and usable :: "'i \<Rightarrow> bool"
  assumes lookup_promised: "usable i \<Longrightarrow>
    lookup i site = (if promised i site = [] then Inl InvalidGraph else Inr (promised i site))"
begin

lemma lookup_retained:
  assumes "usable i"
  shows "bind_result (lookup i site) (\<lambda>owners.
     let states = (\<lambda>u. u \<in> retained) ` set owners
     in if card states \<noteq> 1 then Inl InvalidGraph else Inr (True \<in> states))
   = (if promised i site = [] then Inl InvalidGraph
      else if set (promised i site) \<subseteq> retained then Inr True
      else if set (promised i site) \<inter> retained = {} then Inr False
      else Inl InvalidGraph)"
proof (cases "promised i site = []")
  case False
  let ?states = "(\<lambda>u. u \<in> retained) ` set (promised i site)"
  consider (all) "set (promised i site) \<subseteq> retained" "?states = {True}"
    | (none) "set (promised i site) \<inter> retained = {}" "\<not> set (promised i site) \<subseteq> retained" "?states = {False}"
    | (mixed) "\<not> set (promised i site) \<subseteq> retained" "set (promised i site) \<inter> retained \<noteq> {}" "?states = {True, False}"
  proof (cases "set (promised i site) \<subseteq> retained")
    case True
    with False have "?states = {True}" by (cases "promised i site") auto
    with True all show ?thesis by blast
  next
    case some_out: False
    show ?thesis
    proof (cases "set (promised i site) \<inter> retained = {}")
      case True
      with False have "?states = {False}" by (cases "promised i site") auto
      with True some_out none show ?thesis by blast
    next
      case in_and_out: False
      with some_out have "?states = {True, False}" by (auto simp: image_iff)
      with some_out in_and_out mixed show ?thesis by blast
    qed
  qed
  then show ?thesis
    by cases (use False in \<open>simp_all add: lookup_promised [OF assms] Let_def\<close>)
qed (simp add: lookup_promised [OF assms])

lemma lookup_owner:
  assumes "usable i"
  shows "bind_result (lookup i site) (\<lambda>owners.
     case owners of [owner] \<Rightarrow> Inr owner | _ \<Rightarrow> Inl IncompleteMemberConstraints)
   = (case promised i site of [] \<Rightarrow> Inl InvalidGraph | [owner] \<Rightarrow> Inr owner | _ \<Rightarrow> Inl IncompleteMemberConstraints)"
  by (simp add: lookup_promised [OF assms] split: list.splits)

end

interpretation site_index: owner_lookup "\<lambda>(source, index). site_owners index"
  "\<lambda>(source, index) site. map unit_id (innermost_units (src_units source) site)"
  "\<lambda>(source, index). site_owner_index_new source = Inr index
     \<and> length (src_units source) \<le> u32_max \<and> length (src_original source) \<le> u32_max"
proof (unfold_locales, clarify)
  fix source index site
  assume new: "site_owner_index_new source = Inr index"
    and b: "length (src_units source) \<le> u32_max" "length (src_original source) \<le> u32_max"
  have ok: "well_bounded source" "all_rooted (src_units source)"
    using source_unit_depths_spec [OF b(1)] new
    by (auto simp: site_owner_index_new_def Let_def split: if_splits)
  let ?us = "src_units source"
  have "innermost_units ?us site = [] \<longleftrightarrow> units_around ?us site = []"
    using innermost_some site_owners_units [OF new ok b] by blast
  with site_owners_units [OF new ok b, of site]
  show "site_owners index site = (if map unit_id (innermost_units ?us site) = [] then Inl InvalidGraph
      else Inr (map unit_id (innermost_units ?us site)))" by simp
qed

text \<open>
  C19. A source site counts as retained only if all of its innermost units are retained and as
  dropped only if all of them are dropped; a site without owners or with owners of both kinds is
  refused.
\<close>

theorem source_site_is_retained_exact:
  assumes "site_owner_index_new source = Inr index"
    and "length (src_units source) \<le> u32_max" and "length (src_original source) \<le> u32_max"
  shows "source_site_is_retained index retained site =
    (let owners = map unit_id (innermost_units (src_units source) site)
     in if owners = [] then Inl InvalidGraph
        else if set owners \<subseteq> retained then Inr True
        else if set owners \<inter> retained = {} then Inr False
        else Inl InvalidGraph)"
  using site_index.lookup_retained [of "(source, index)" site retained] assms
  by (simp add: source_site_is_retained_def Let_def del: map_is_Nil_conv)

definition sample_site_source :: source_inventory where
  "sample_site_source =
     \<lparr>src_original = [97, 98, 99, 100], src_normalized = [97, 98, 99, 100],
      src_offsets = \<lparr>om_original_len = 4, om_normalized_len = 4, norm_records = []\<rparr>,
      src_units = sample_units, src_pieces = [], src_derive_targets = [], src_macro_rules = [],
      src_macro_templates = [], src_macro_capture_slots = [], src_macro_repetitions = [],
      src_ownerless_attributes = []\<rparr>"

lemma sample_units_rooted: "all_rooted sample_units"
  using sample_units_valid by (simp add: validate_units_Inr well_formed_units_def all_rooted_def)

lemma sample_site_index: "\<exists>index. site_owner_index_new sample_site_source = Inr index"
proof -
  have "well_bounded sample_site_source"
    by (auto simp: well_bounded_def sample_site_source_def sample_units_def less_Suc_eq numeral_2_eq_2)
  with sample_units_rooted source_unit_depths_spec [of sample_site_source] show ?thesis
    by (auto simp: sample_site_source_def site_owner_index_new_def sample_units_def u32_max_def Let_def)
qed

theorem site_owners_exact_witness:
  "\<exists>index. site_owner_index_new sample_site_source = Inr index
     \<and> site_owners index (ByteRange 3 4) = Inr [0]"
proof -
  obtain index where "site_owner_index_new sample_site_source = Inr index" using sample_site_index by blast
  with site_owners_exact [of sample_site_source "ByteRange 3 4"] show ?thesis
    by (auto simp: sample_site_source_def u32_max_def units_around_def innermost_units_def Let_def
        sample_units_def range_contains_def)
qed

theorem source_site_is_retained_exact_witness:
  "\<exists>index. site_owner_index_new sample_site_source = Inr index
     \<and> source_site_is_retained index {0} (ByteRange 3 4) = Inr True"
proof -
  obtain index where "site_owner_index_new sample_site_source = Inr index" using sample_site_index by blast
  with source_site_is_retained_exact [of sample_site_source index "{0}" "ByteRange 3 4"] show ?thesis
    by (auto simp: sample_site_source_def u32_max_def units_around_def innermost_units_def Let_def
        sample_units_def range_contains_def)
qed

end
