(* ===== verification/Ordered_Map.thy ===== *)
theory Ordered_Map
  imports Rid_Prelude
begin

text \<open>
  The ordered collections of the standard library as the code uses them.  A \<open>BTreeMap\<close> that is
  iterated is the list of its entries in key order, a \<open>BTreeSet\<close> is a set that is listed in order
  when it is collected.  An enumeration with a derived order is ordered by the positions of its
  constructors, an enumeration with data by the position followed by the data; \<open>position_of\<close> and
  the lemmas about it serve those \<open>linorder\<close> instances.
\<close>

section \<open>Derived orders\<close>

definition position_of :: "'a list \<Rightarrow> 'a \<Rightarrow> nat" where
  "position_of xs x = length (takeWhile (\<lambda>y. y \<noteq> x) xs)"

lemma position_of_nth: "x \<in> set xs \<Longrightarrow> xs ! position_of xs x = x"
  unfolding position_of_def
  using nth_length_takeWhile [of "\<lambda>y. y \<noteq> x" xs]
  by (metis (mono_tags) linorder_less_linear length_takeWhile_le not_le takeWhile_eq_all_conv takeWhile_eq_take take_all)

lemma position_of_inj: "set xs = UNIV \<Longrightarrow> position_of xs x = position_of xs y \<longleftrightarrow> x = y"
  by (metis UNIV_I position_of_nth)

section \<open>Maps\<close>

text \<open>\<open>entry(k)\<close> followed by a change of the value, \<open>None\<close> standing for a vacant entry.\<close>

fun entry_update :: "'k::linorder \<Rightarrow> ('v option \<Rightarrow> 'v) \<Rightarrow> ('k \<times> 'v) list \<Rightarrow> ('k \<times> 'v) list" where
  "entry_update k f [] = [(k, f None)]"
| "entry_update k f ((k', v) # m) =
     (if k < k' then (k, f None) # (k', v) # m
      else if k = k' then (k, f (Some v)) # m
      else (k', v) # entry_update k f m)"

definition ordered_keys :: "('k::linorder \<times> 'v) list \<Rightarrow> bool" where
  "ordered_keys m \<longleftrightarrow> sorted_wrt (<) (map fst m)"

lemma ordered_keys_Nil [simp]: "ordered_keys []"
  by (simp add: ordered_keys_def)

lemma entry_update_keys: "fst ` set (entry_update k f m) = insert k (fst ` set m)"
proof (induction m)
  case (Cons e m)
  then show ?case by (cases e) (simp add: insert_commute)
qed simp

lemma entry_update_ordered: "ordered_keys m \<Longrightarrow> ordered_keys (entry_update k f m)"
proof (induction m)
  case (Cons e m)
  obtain k' v where e: "e = (k', v)" by (cases e)
  from Cons.prems e have m: "ordered_keys m" "\<forall>j \<in> fst ` set m. k' < j"
    by (auto simp: ordered_keys_def)
  show ?case
  proof (cases "k < k' \<or> k = k'")
    case True
    with Cons.prems e show ?thesis by (auto simp: ordered_keys_def)
  next
    case False
    then have "k' < k" by auto
    with Cons.IH [OF m(1)] m(2) e entry_update_keys [of k f m] show ?thesis
      by (auto simp: ordered_keys_def)
  qed
qed (simp add: ordered_keys_def)

lemma entry_update_map_of:
  "ordered_keys m \<Longrightarrow> map_of (entry_update k f m) = (map_of m)(k \<mapsto> f (map_of m k))"
proof (induction m)
  case (Cons e m)
  obtain k' v where e: "e = (k', v)" by (cases e)
  from Cons.prems e have m: "ordered_keys m" "\<And>j w. (j, w) \<in> set m \<Longrightarrow> k' < j"
    by (force simp: ordered_keys_def)+
  have "map_of m k = None" if "k \<le> k'"
    using m(2) that by (metis map_of_SomeD not_le option.exhaust)
  with Cons.IH [OF m(1)] e show ?case by (auto simp: fun_eq_iff)
qed simp

lemma entry_update_after:
  "\<forall>j \<in> fst ` set m. j < k \<Longrightarrow> entry_update k f m = m @ [(k, f None)]"
  by (induction m) auto

text \<open>Grouping a list by a key, as \<open>entry(k).or_default()\<close> followed by an extension.\<close>

definition group_entries :: "('e \<Rightarrow> 'k::linorder) \<Rightarrow> ('e \<Rightarrow> 'v option \<Rightarrow> 'v) \<Rightarrow> 'e list \<Rightarrow> ('k \<times> 'v) list" where
  "group_entries key add es = fold (\<lambda>e. entry_update (key e) (add e)) es []"

lemma fold_entries_ordered:
  "ordered_keys m \<Longrightarrow> ordered_keys (fold (\<lambda>e. entry_update (key e) (add e)) es m)"
  by (induction es arbitrary: m) (auto simp: entry_update_ordered)

lemma group_entries_ordered: "ordered_keys (group_entries key add es)"
  by (simp add: group_entries_def fold_entries_ordered)

lemma fold_entries_map_of:
  "ordered_keys m \<Longrightarrow> map_of (fold (\<lambda>e. entry_update (key e) (add e)) es m) k
     = fold (\<lambda>e v. Some (add e v)) (filter (\<lambda>e. key e = k) es) (map_of m k)"
  by (induction es arbitrary: m) (auto simp: entry_update_ordered entry_update_map_of)

lemma group_entries_map_of:
  "map_of (group_entries key add es) k = fold (\<lambda>e v. Some (add e v)) (filter (\<lambda>e. key e = k) es) None"
  by (simp add: group_entries_def fold_entries_map_of)

lemma group_entries_keys: "fst ` set (group_entries key add es) = key ` set es"
proof -
  have "fst ` set (fold (\<lambda>e. entry_update (key e) (add e)) es m) = fst ` set m \<union> key ` set es" for m
    by (induction es arbitrary: m) (simp_all add: entry_update_keys)
  then show ?thesis by (simp add: group_entries_def)
qed

text \<open>Entries that arrive in key order are appended.\<close>

lemma group_entries_sorted:
  assumes "sorted_wrt (<) (map key es)"
  shows "group_entries key add es = map (\<lambda>e. (key e, add e None)) es"
proof -
  have "fold (\<lambda>e. entry_update (key e) (add e)) es m = m @ map (\<lambda>e. (key e, add e None)) es"
    if "\<forall>j \<in> fst ` set m. \<forall>e \<in> set es. j < key e" for m
    using assms that
  proof (induction es arbitrary: m)
    case (Cons e es)
    have "entry_update (key e) (add e) m = m @ [(key e, add e None)]"
      using Cons.prems(2) by (intro entry_update_after) auto
    moreover have "\<forall>j \<in> fst ` set (m @ [(key e, add e None)]). \<forall>e \<in> set es. j < key e"
      using Cons.prems by auto
    ultimately show ?case using Cons.IH [of "m @ [(key e, add e None)]"] Cons.prems(1) by simp
  qed simp
  then show ?thesis by (simp add: group_entries_def)
qed

text \<open>Values that are sets collect the sets of the elements with the key.\<close>

definition extend_entry :: "('e \<Rightarrow> 's set) \<Rightarrow> 'e \<Rightarrow> 's set option \<Rightarrow> 's set" where
  "extend_entry sites e old = (case old of None \<Rightarrow> {} | Some s \<Rightarrow> s) \<union> sites e"

lemma fold_extend:
  "fold (\<lambda>e v. Some (extend_entry sites e v)) es old
     = (if es = [] then old else Some ((case old of None \<Rightarrow> {} | Some s \<Rightarrow> s) \<union> \<Union> (sites ` set es)))"
  by (induction es arbitrary: old) (auto simp: extend_entry_def split: option.splits)

end
