(* ===== verification/Definition_Graph.thy ===== *)
theory Definition_Graph
  imports Source_Model Ordered_Map "HOL-Library.List_Lexorder"
begin

text \<open>
  \<open>src/graph.rs\<close>: the definition-level dependency graph.  Definitions form a tree under the crate
  root, carry a key path that is independent of the compiler's numbering, and are joined by typed
  edges with their source sites.  \<open>definition_graph_new\<close> is the only way to build a graph; it
  validates the definitions, groups the edges and demands exactly one parent edge per definition.
  Constructors that several of the code's enumerations share are prefixed here.
\<close>

section \<open>Definitions\<close>

type_synonym definition_id = nat
type_synonym external_definition_id = nat

datatype definition_kind =
    DefCrate | DefModule | DefFunction | DefStatic | DefConst | DefTypeAlias | DefOpaqueType
  | DefStruct | DefEnum | DefUnion | DefVariant | DefField | DefConstructor | DefTrait
  | DefTraitAlias | DefAssociatedType | DefAssociatedFunction | DefAssociatedConst | DefImpl
  | DefTypeParameter | DefConstParameter | DefLifetimeParameter | DefExternCrate | DefUse
  | DefForeignModule | DefForeignType | DefGlobalAsm | DefClosure | DefCoroutine
  | DefCoroutineClosure | DefSyntheticCoroutineBody | DefAnonymousConst | DefInlineConst
  | DefMacro

definition definition_kind_order :: "definition_kind list" where
  "definition_kind_order = [DefCrate, DefModule, DefFunction, DefStatic, DefConst,
     DefTypeAlias, DefOpaqueType, DefStruct, DefEnum, DefUnion, DefVariant, DefField,
     DefConstructor, DefTrait, DefTraitAlias, DefAssociatedType, DefAssociatedFunction,
     DefAssociatedConst, DefImpl, DefTypeParameter, DefConstParameter, DefLifetimeParameter,
     DefExternCrate, DefUse, DefForeignModule, DefForeignType, DefGlobalAsm, DefClosure,
     DefCoroutine, DefCoroutineClosure, DefSyntheticCoroutineBody, DefAnonymousConst,
     DefInlineConst, DefMacro]"

lemma definition_kind_order_UNIV: "set definition_kind_order = UNIV"
proof -
  have "k \<in> set definition_kind_order" for k
    by (cases k) (simp_all add: definition_kind_order_def)
  then show ?thesis by auto
qed

instantiation definition_kind :: linorder
begin

definition less_eq_definition_kind :: "definition_kind \<Rightarrow> definition_kind \<Rightarrow> bool" where
  "less_eq_definition_kind j k \<longleftrightarrow> position_of definition_kind_order j \<le> position_of definition_kind_order k"

definition less_definition_kind :: "definition_kind \<Rightarrow> definition_kind \<Rightarrow> bool" where
  "less_definition_kind j k \<longleftrightarrow> position_of definition_kind_order j < position_of definition_kind_order k"

instance
  by standard (auto simp: less_eq_definition_kind_def less_definition_kind_def
    position_of_inj [OF definition_kind_order_UNIV])

end

datatype generated_role =
    GenAnonymousAssociatedType | GenAnonymousConst | GenCoroutine | GenCoroutineBody
  | GenCoroutineClosure | GenElidedLifetime | GenNestedStatic | GenOpaqueLifetime | GenOpaqueType

datatype injected_role = InjectedExternCrate | InjectedPreludeImport

datatype definition_origin =
    Written (origin_unit: source_unit_id) (origin_unit_range: byte_range) (origin_anchor: byte_range)
      (origin_unit_kind: written_unit_kind) (origin_unit_ordinal: nat)
  | Expanded (origin_invocation: source_unit_id) (origin_invocation_range: byte_range)
      (origin_generated_role: "generated_role option") (origin_ordinal: nat)
  | CompilerGenerated (origin_role: generated_role) (origin_ordinal: nat)
  | Injected (origin_injected: injected_role) (origin_ordinal: nat)

text \<open>The part of an origin that is independent of compiler ids and of the inventory's numbering.\<close>

datatype definition_origin_key =
    KeyWritten byte_range written_unit_kind
  | KeyExpanded byte_range "generated_role option"
  | KeyCompilerGenerated generated_role
  | KeyInjected injected_role

fun origin_key :: "definition_origin \<Rightarrow> definition_origin_key" where
  "origin_key (Written unit unit_range anchor kind ordinal) = KeyWritten anchor kind"
| "origin_key (Expanded invocation invocation_range role ordinal) = KeyExpanded invocation_range role"
| "origin_key (CompilerGenerated role ordinal) = KeyCompilerGenerated role"
| "origin_key (Injected role ordinal) = KeyInjected role"

record definition_key_part =
  part_kind :: definition_kind
  part_origin :: definition_origin_key
  part_name :: "string option"
  part_ordinal :: nat

type_synonym definition_key = "definition_key_part list"

record definition_node_data =
  def_id :: definition_id
  def_key :: definition_key
  def_kind :: definition_kind
  def_parent :: "definition_id option"
  def_origin :: definition_origin

record external_definition_key =
  crate_identity :: nat
  crate_name :: string
  def_path_hash :: bytes

record external_definition =
  ext_id :: external_definition_id
  ext_key :: external_definition_key
  ext_path :: string

section \<open>Edges\<close>

text \<open>The derived order compares the variants first.\<close>

datatype definition_target = Local definition_id | External external_definition_id

fun definition_target_key :: "definition_target \<Rightarrow> nat \<times> nat" where
  "definition_target_key (Local i) = (0, i)"
| "definition_target_key (External i) = (1, i)"

lemma definition_target_key_inj [simp]: "definition_target_key s = definition_target_key t \<longleftrightarrow> s = t"
  by (cases s; cases t) simp_all

instantiation definition_target :: linorder
begin

definition less_eq_definition_target :: "definition_target \<Rightarrow> definition_target \<Rightarrow> bool" where
  "less_eq_definition_target j k \<longleftrightarrow> definition_target_key j \<le> definition_target_key k"

definition less_definition_target :: "definition_target \<Rightarrow> definition_target \<Rightarrow> bool" where
  "less_definition_target j k \<longleftrightarrow> definition_target_key j < definition_target_key k"

instance
proof
  fix j k l :: definition_target
  show "(j < k) = (j \<le> k \<and> \<not> k \<le> j)" by (simp only: less_eq_definition_target_def less_definition_target_def less_le_not_le)
  show "j \<le> j" by (simp add: less_eq_definition_target_def)
  show "j \<le> k \<Longrightarrow> k \<le> l \<Longrightarrow> j \<le> l" unfolding less_eq_definition_target_def by (rule order_trans)
  show "j \<le> k \<Longrightarrow> k \<le> j \<Longrightarrow> j = k" unfolding less_eq_definition_target_def by (drule (1) order_antisym) simp
  show "j \<le> k \<or> k \<le> j" unfolding less_eq_definition_target_def by (rule linear)
qed

end

datatype definition_dependency =
    DepParent | DepSignatureType | DepReturnType | DepGenericDefault | DepPredicate
  | DepFieldType | DepDiscriminant | DepVisibilityPath | DepSuperTrait | DepImplSelfType
  | DepImplementedTrait | DepAssociatedTypeBound | DepOpaqueHiddenType | DepConstExpression
  | DepValuePath | DepTypePath | DepMacroPath | DepPatternConstructor | DepImportLeaf
  | DepMethodTarget | DepAssociatedItemTarget | DepOverloadedOperator | DepDerefTarget
  | DepIndexTarget | DepCallableTrait | DepResolvedGenericArgument | DepAdjustmentType
  | DepClosureCaptureType | DepFieldTarget | DepOpaqueSource

definition definition_dependency_order :: "definition_dependency list" where
  "definition_dependency_order = [DepParent, DepSignatureType, DepReturnType,
     DepGenericDefault, DepPredicate, DepFieldType, DepDiscriminant, DepVisibilityPath,
     DepSuperTrait, DepImplSelfType, DepImplementedTrait, DepAssociatedTypeBound,
     DepOpaqueHiddenType, DepConstExpression, DepValuePath, DepTypePath, DepMacroPath,
     DepPatternConstructor, DepImportLeaf, DepMethodTarget, DepAssociatedItemTarget,
     DepOverloadedOperator, DepDerefTarget, DepIndexTarget, DepCallableTrait,
     DepResolvedGenericArgument, DepAdjustmentType, DepClosureCaptureType, DepFieldTarget,
     DepOpaqueSource]"

lemma definition_dependency_order_UNIV: "set definition_dependency_order = UNIV"
proof -
  have "k \<in> set definition_dependency_order" for k
    by (cases k) (simp_all add: definition_dependency_order_def)
  then show ?thesis by auto
qed

instantiation definition_dependency :: linorder
begin

definition less_eq_definition_dependency :: "definition_dependency \<Rightarrow> definition_dependency \<Rightarrow> bool" where
  "less_eq_definition_dependency j k \<longleftrightarrow> position_of definition_dependency_order j \<le> position_of definition_dependency_order k"

definition less_definition_dependency :: "definition_dependency \<Rightarrow> definition_dependency \<Rightarrow> bool" where
  "less_definition_dependency j k \<longleftrightarrow> position_of definition_dependency_order j < position_of definition_dependency_order k"

instance
  by standard (auto simp: less_eq_definition_dependency_def less_definition_dependency_def
    position_of_inj [OF definition_dependency_order_UNIV])

end

record definition_edge =
  de_from :: definition_id
  de_to :: definition_target
  de_kind :: definition_dependency
  de_sites :: "byte_range list"

record definition_graph =
  dg_definitions :: "definition_node_data list"
  dg_external :: "external_definition list"
  dg_edges :: "definition_edge list"

datatype graph_error = InvalidDefinition | InvalidExternalDefinition | GraphInvalidEdge

section \<open>Building a graph\<close>

definition dense_by :: "('a \<Rightarrow> nat) \<Rightarrow> 'a list \<Rightarrow> bool" where
  "dense_by ident xs \<longleftrightarrow> list_all (\<lambda>(index, x). ident x = index) (enumerate 0 xs)"

lemma dense_by_nth: "dense_by ident xs \<longleftrightarrow> (\<forall>i < length xs. ident (xs ! i) = i)"
  by (auto simp: dense_by_def list_all_iff set_enumerate_nth)

text \<open>The single root is the written crate.\<close>

definition valid_definition_roots :: "definition_node_data list \<Rightarrow> bool" where
  "valid_definition_roots roots \<longleftrightarrow>
     length roots = 1 \<and> def_kind (roots ! 0) = DefCrate \<and> length (def_key (roots ! 0)) = 1
     \<and> (case def_origin (roots ! 0) of Written _ _ _ kind _ \<Rightarrow> kind = CrateRoot | _ \<Rightarrow> False)"

definition parent_in_front :: "definition_node_data list \<Rightarrow> definition_node_data \<Rightarrow> bool" where
  "parent_in_front definitions d \<longleftrightarrow>
     (case def_parent d of None \<Rightarrow> True | Some parent \<Rightarrow> parent < def_id d \<and> parent < length definitions)"

definition leaf_describes :: "definition_node_data \<Rightarrow> bool" where
  "leaf_describes d \<longleftrightarrow>
     def_key d \<noteq> [] \<and> part_kind (last (def_key d)) = def_kind d
     \<and> part_origin (last (def_key d)) = origin_key (def_origin d)"

definition key_extends_parent :: "definition_node_data list \<Rightarrow> definition_node_data \<Rightarrow> bool" where
  "key_extends_parent definitions d \<longleftrightarrow>
     (case def_parent d of
        None \<Rightarrow> True
      | Some parent \<Rightarrow>
          let parent_key = def_key (definitions ! parent)
          in length (def_key d) = length parent_key + 1 \<and> prefix parent_key (def_key d))"

definition ordinal_agrees :: "definition_node_data \<Rightarrow> bool" where
  "ordinal_agrees d \<longleftrightarrow>
     (case def_origin d of
        Written _ _ _ _ _ \<Rightarrow> True
      | Expanded _ _ _ ordinal \<Rightarrow> ordinal = part_ordinal (last (def_key d))
      | CompilerGenerated _ ordinal \<Rightarrow> ordinal = part_ordinal (last (def_key d))
      | Injected _ ordinal \<Rightarrow> ordinal = part_ordinal (last (def_key d)))"

definition valid_definition :: "definition_node_data list \<Rightarrow> definition_node_data \<Rightarrow> bool" where
  "valid_definition definitions d \<longleftrightarrow>
     parent_in_front definitions d \<and> leaf_describes d \<and> key_extends_parent definitions d
     \<and> ordinal_agrees d"

definition valid_definition_edge :: "nat \<Rightarrow> nat \<Rightarrow> definition_edge \<Rightarrow> bool" where
  "valid_definition_edge definitions external edge \<longleftrightarrow>
     de_from edge < definitions
     \<and> (case de_to edge of Local target \<Rightarrow> target < definitions | External target \<Rightarrow> target < external)
     \<and> \<not> list_ex (\<lambda>site. br_start site > br_end site) (de_sites edge)
     \<and> \<not> (de_kind edge \<noteq> DepParent \<and> de_sites edge = [])"

definition edge_key :: "definition_edge \<Rightarrow> definition_id \<times> definition_target \<times> definition_dependency" where
  "edge_key edge = (de_from edge, de_to edge, de_kind edge)"

text \<open>The grouping loop and the collection of its map into edges.\<close>

definition group_definition_edges :: "definition_edge list \<Rightarrow> definition_edge list" where
  "group_definition_edges edges =
     map (\<lambda>((source, target, kind), sites).
         \<lparr>de_from = source, de_to = target, de_kind = kind, de_sites = sorted_list_of_set sites\<rparr>)
       (group_entries edge_key (extend_entry (\<lambda>edge. set (de_sites edge))) edges)"

definition expected_parent_sites :: "definition_origin \<Rightarrow> byte_range list" where
  "expected_parent_sites origin =
     (case origin of
        Written _ _ anchor _ _ \<Rightarrow> [anchor]
      | Expanded _ invocation_range _ _ \<Rightarrow> [invocation_range]
      | CompilerGenerated _ _ \<Rightarrow> []
      | Injected _ _ \<Rightarrow> [])"

definition parent_edge_exact :: "definition_edge list \<Rightarrow> definition_node_data \<Rightarrow> bool" where
  "parent_edge_exact edges d \<longleftrightarrow>
     (case def_parent d of
        None \<Rightarrow> True
      | Some parent \<Rightarrow>
          let own = filter (\<lambda>edge. de_from edge = def_id d \<and> de_kind edge = DepParent) edges
          in length (filter (\<lambda>edge. de_to edge = Local parent) own) = 1
             \<and> \<not> list_ex (\<lambda>edge. de_to edge \<noteq> Local parent) own
             \<and> \<not> list_ex (\<lambda>edge. de_to edge = Local parent
                   \<and> de_sites edge \<noteq> expected_parent_sites (def_origin d)) own)"

definition definition_graph_new ::
  "definition_node_data list \<Rightarrow> external_definition list \<Rightarrow> definition_edge list \<Rightarrow> graph_error + definition_graph" where
  "definition_graph_new ds es edges =
     (let definitions = sort_key def_id ds;
          external = sort_key ext_id es;
          roots = filter (\<lambda>d. def_parent d = None) definitions
      in if \<not> dense_by def_id definitions then Inl InvalidDefinition
         else if \<not> dense_by ext_id external then Inl InvalidExternalDefinition
         else if \<not> valid_definition_roots roots then Inl InvalidDefinition
         else if \<not> list_all (valid_definition definitions) definitions then Inl InvalidDefinition
         else if card (def_key ` set definitions) \<noteq> length definitions then Inl InvalidDefinition
         else if card (ext_key ` set external) \<noteq> length external then Inl InvalidExternalDefinition
         else if \<not> list_all (valid_definition_edge (length definitions) (length external)) edges
         then Inl GraphInvalidEdge
         else
           let grouped = group_definition_edges edges
           in if \<not> list_all (parent_edge_exact grouped) definitions then Inl GraphInvalidEdge
              else if list_ex (\<lambda>edge. de_from edge = def_id (roots ! 0) \<and> de_kind edge = DepParent) grouped
              then Inl GraphInvalidEdge
              else Inr \<lparr>dg_definitions = definitions, dg_external = external, dg_edges = grouped\<rparr>)"

section \<open>Grouping\<close>

lemma grouped_edges_map:
  "map (\<lambda>e. (edge_key e, de_sites e)) (group_definition_edges edges)
     = map (\<lambda>(k, sites). (k, sorted_list_of_set sites))
         (group_entries edge_key (extend_entry (\<lambda>edge. set (de_sites edge))) edges)"
  by (auto simp: group_definition_edges_def edge_key_def)

lemma grouped_keys_map:
  "map edge_key (group_definition_edges edges)
     = map fst (group_entries edge_key (extend_entry (\<lambda>edge. set (de_sites edge))) edges)"
  by (auto simp: group_definition_edges_def edge_key_def)

lemma grouped_keys_sorted: "sorted_wrt (<) (map edge_key (group_definition_edges edges))"
  unfolding grouped_keys_map by (rule group_entries_ordered [unfolded ordered_keys_def])

lemma grouped_keys: "edge_key ` set (group_definition_edges edges) = edge_key ` set edges"
proof -
  have "set (map edge_key (group_definition_edges edges)) = edge_key ` set edges"
    unfolding grouped_keys_map by (simp add: group_entries_keys)
  then show ?thesis by simp
qed

definition sites_of_key :: "definition_edge list \<Rightarrow> definition_id \<times> definition_target \<times> definition_dependency \<Rightarrow> byte_range set" where
  "sites_of_key edges k = (\<Union>e \<in> set (filter (\<lambda>e. edge_key e = k) edges). set (de_sites e))"

lemma grouped_sites:
  assumes "e \<in> set (group_definition_edges edges)"
  shows "de_sites e = sorted_list_of_set (sites_of_key edges (edge_key e))"
proof -
  let ?m = "group_entries edge_key (extend_entry (\<lambda>edge. set (de_sites edge))) edges"
  from assms have "(edge_key e, de_sites e) \<in> set (map (\<lambda>(k, sites). (k, sorted_list_of_set sites)) ?m)"
    unfolding grouped_edges_map [symmetric] by (auto intro: rev_image_eqI)
  then obtain sites where s: "(edge_key e, sites) \<in> set ?m" "de_sites e = sorted_list_of_set sites" by auto
  have "distinct (map fst ?m)"
    using group_entries_ordered [unfolded ordered_keys_def] strict_sorted_iff by blast
  with s(1) have "map_of ?m (edge_key e) = Some sites" by simp
  then have "sites = sites_of_key edges (edge_key e)"
    unfolding group_entries_map_of fold_extend sites_of_key_def by (auto split: if_splits)
  with s(2) show ?thesis by simp
qed

lemma sites_of_key_finite [simp]: "finite (sites_of_key edges k)"
  by (auto simp: sites_of_key_def)

lemma grouped_set_sites:
  "e \<in> set (group_definition_edges edges) \<Longrightarrow> set (de_sites e) = sites_of_key edges (edge_key e)"
  by (simp add: grouped_sites)

lemma group_definition_edges_idem:
  "group_definition_edges (group_definition_edges edges) = group_definition_edges edges"
proof -
  let ?g = "group_definition_edges edges"
  have "group_definition_edges ?g = map (\<lambda>e. e\<lparr>de_sites := sorted_list_of_set (set (de_sites e))\<rparr>) ?g"
    unfolding group_definition_edges_def [of ?g] group_entries_sorted [OF grouped_keys_sorted]
    by (simp add: edge_key_def extend_entry_def)
  also have "\<dots> = map (\<lambda>e. e) ?g"
    by (rule map_cong [OF refl]) (simp add: grouped_sites [of _ edges])
  finally show ?thesis by simp
qed

section \<open>What an accepted graph promises\<close>

lemma definition_graph_new_Inr:
  "definition_graph_new ds es edges = Inr g \<longleftrightarrow>
     dense_by def_id (sort_key def_id ds) \<and> dense_by ext_id (sort_key ext_id es)
     \<and> valid_definition_roots (filter (\<lambda>d. def_parent d = None) (sort_key def_id ds))
     \<and> list_all (valid_definition (sort_key def_id ds)) (sort_key def_id ds)
     \<and> card (def_key ` set ds) = length ds \<and> card (ext_key ` set es) = length es
     \<and> list_all (valid_definition_edge (length ds) (length es)) edges
     \<and> list_all (parent_edge_exact (group_definition_edges edges)) (sort_key def_id ds)
     \<and> \<not> list_ex (\<lambda>edge. de_from edge = def_id (filter (\<lambda>d. def_parent d = None) (sort_key def_id ds) ! 0)
           \<and> de_kind edge = DepParent) (group_definition_edges edges)
     \<and> g = \<lparr>dg_definitions = sort_key def_id ds, dg_external = sort_key ext_id es,
            dg_edges = group_definition_edges edges\<rparr>"
  by (auto simp: definition_graph_new_def Let_def)

lemma dense_by_sorted: "dense_by ident xs \<Longrightarrow> sort_key ident xs = xs"
  by (intro sort_key_id_if_sorted) (simp add: dense_by_nth sorted_iff_nth_mono)

lemma grouped_edges_valid:
  assumes "list_all (valid_definition_edge n m) edges"
  shows "list_all (valid_definition_edge n m) (group_definition_edges edges)"
  unfolding list_all_iff
proof
  fix e
  assume e: "e \<in> set (group_definition_edges edges)"
  have "edge_key e \<in> edge_key ` set edges" using e grouped_keys by blast
  then obtain e0 where e0: "e0 \<in> set edges" "edge_key e0 = edge_key e" by auto
  note sites = grouped_set_sites [OF e]
  from assms e0 have v: "valid_definition_edge n m e0" by (simp add: list_all_iff)
  have same: "de_from e0 = de_from e" "de_to e0 = de_to e" "de_kind e0 = de_kind e"
    using e0(2) by (simp_all add: edge_key_def)
  have "br_start s \<le> br_end s" if "s \<in> set (de_sites e)" for s
    using that assms unfolding sites sites_of_key_def
    by (auto simp: list_all_iff valid_definition_edge_def list_ex_iff not_less)
  moreover have "set (de_sites e0) \<subseteq> set (de_sites e)"
    unfolding sites sites_of_key_def using e0 by auto
  ultimately show "valid_definition_edge n m e"
    using v same by (auto simp: valid_definition_edge_def list_ex_iff not_less)
qed

text \<open>
  A graph is built by grouping: its edges have pairwise different keys (source, target, kind) in
  increasing order, exactly the keys of the given edges, and the sites of an edge are the sites of
  all given edges with its key, in order and without repetition.
\<close>

theorem definition_graph_edges_grouped:
  assumes "definition_graph_new ds es edges = Inr g"
  shows "sorted_wrt (<) (map edge_key (dg_edges g))
    \<and> edge_key ` set (dg_edges g) = edge_key ` set edges
    \<and> list_all (\<lambda>e. de_sites e = sorted_list_of_set
         (\<Union>e' \<in> {e' \<in> set edges. edge_key e' = edge_key e}. set (de_sites e'))) (dg_edges g)"
proof -
  from assms have g: "dg_edges g = group_definition_edges edges"
    unfolding definition_graph_new_Inr by simp
  have "de_sites e = sorted_list_of_set
      (\<Union>e' \<in> {e' \<in> set edges. edge_key e' = edge_key e}. set (de_sites e'))"
    if "e \<in> set (group_definition_edges edges)" for e
    using grouped_sites [OF that] by (simp add: sites_of_key_def)
  then show ?thesis unfolding g list_all_iff using grouped_keys_sorted grouped_keys by auto
qed

text \<open>
  Building a graph again from the parts of a graph gives the same graph: the validation and the
  grouping accept what they produced and change nothing.
\<close>

theorem definition_graph_rebuild:
  assumes "definition_graph_new ds es edges = Inr g"
  shows "definition_graph_new (dg_definitions g) (dg_external g) (dg_edges g) = Inr g"
proof -
  note new = assms [unfolded definition_graph_new_Inr]
  then have "sort_key def_id (dg_definitions g) = dg_definitions g" "sort_key ext_id (dg_external g) = dg_external g"
    by (auto intro: dense_by_sorted)
  with new show ?thesis
    unfolding definition_graph_new_Inr
    by (simp add: group_definition_edges_idem grouped_edges_valid)
qed

section \<open>Ancestors\<close>

inductive owned_by :: "definition_node_data list \<Rightarrow> definition_id \<Rightarrow> definition_id \<Rightarrow> bool"
  for ds where
  owned_self: "i < length ds \<Longrightarrow> owned_by ds i i"
| owned_parent: "i < length ds \<Longrightarrow> def_parent (ds ! i) = Some p \<Longrightarrow> owned_by ds a p \<Longrightarrow> owned_by ds a i"

inductive_cases owned_by_cases: "owned_by ds a i"

lemma strict_prefix_snoc: "prefix xs (ys @ [y]) \<Longrightarrow> xs \<noteq> ys @ [y] \<Longrightarrow> prefix xs ys"
  by simp

lemma valid_definition_parent:
  assumes "valid_definition ds d" and "def_parent d = Some p"
  shows "p < def_id d" "p < length ds" "\<exists>x. def_key d = def_key (ds ! p) @ [x]"
proof -
  from assms show "p < def_id d" "p < length ds"
    by (simp_all add: valid_definition_def parent_in_front_def)
  from assms have "prefix (def_key (ds ! p)) (def_key d)" "length (def_key d) = length (def_key (ds ! p)) + 1"
    by (simp_all add: valid_definition_def key_extends_parent_def Let_def)
  then obtain xs where "def_key d = def_key (ds ! p) @ xs" "length xs = 1" by (auto elim: prefixE)
  then show "\<exists>x. def_key d = def_key (ds ! p) @ [x]" by (auto simp: length_Suc_conv)
qed

text \<open>
  C25. In an accepted graph the key paths are the tree: the path of one definition is a prefix of the
  path of another exactly if the first is the other or one of its ancestors.
\<close>

theorem definition_keys_are_paths:
  assumes "definition_graph_new ds es edges = Inr g"
    and "a < length (dg_definitions g)" and "i < length (dg_definitions g)"
  shows "prefix (def_key (dg_definitions g ! a)) (def_key (dg_definitions g ! i))
    \<longleftrightarrow> owned_by (dg_definitions g) a i"
proof -
  let ?ds = "dg_definitions g"
  note new = assms(1) [unfolded definition_graph_new_Inr]
  then have ds: "?ds = sort_key def_id ds" by simp
  have ids: "def_id (?ds ! i) = i" if "i < length ?ds" for i
    using new that unfolding ds dense_by_nth by auto
  have valid: "valid_definition ?ds (?ds ! i)" if "i < length ?ds" for i
    using new that unfolding ds list_all_length by auto
  have root: "length (def_key (?ds ! i)) = 1" if "i < length ?ds" "def_parent (?ds ! i) = None" for i
  proof -
    have "?ds ! i \<in> set (filter (\<lambda>d. def_parent d = None) ?ds)" using that by simp
    moreover have "valid_definition_roots (filter (\<lambda>d. def_parent d = None) ?ds)"
      using new unfolding ds by simp
    ultimately show ?thesis
      by (auto simp: valid_definition_roots_def length_Suc_conv simp del: set_filter)
  qed
  have "distinct (map def_key ?ds)"
    using new unfolding ds by (intro card_distinct) simp
  then have same: "j = k" if "def_key (?ds ! j) = def_key (?ds ! k)" "j < length ?ds" "k < length ?ds" for j k
    using that by (metis length_map nth_eq_iff_index_eq nth_map)
  have "owned_by ?ds a i" if "prefix (def_key (?ds ! a)) (def_key (?ds ! i))"
    using assms(3) that
  proof (induction i rule: less_induct)
    case (less i)
    show ?case
    proof (cases "a = i")
      case True
      with assms(2) show ?thesis by (simp add: owned_self)
    next
      case False
      then have ne: "def_key (?ds ! a) \<noteq> def_key (?ds ! i)" using same less.prems(1) assms(2) by blast
      show ?thesis
      proof (cases "def_parent (?ds ! i)")
        case None
        from root [OF less.prems(1) None] obtain x where "def_key (?ds ! i) = [x]" by (auto simp: length_Suc_conv)
        with less.prems(2) ne have "def_key (?ds ! a) = []" by (auto simp: prefix_Cons)
        with valid [OF assms(2)] show ?thesis by (simp add: valid_definition_def leaf_describes_def)
      next
        case (Some p)
        note p = valid_definition_parent [OF valid [OF less.prems(1)] Some]
        then obtain x where x: "def_key (?ds ! i) = def_key (?ds ! p) @ [x]" by blast
        have "prefix (def_key (?ds ! a)) (def_key (?ds ! p))"
          using less.prems(2) ne unfolding x by (rule strict_prefix_snoc)
        with less.IH [of p] p(1,2) ids [OF less.prems(1)] have "owned_by ?ds a p" by simp
        with less.prems(1) Some show ?thesis by (rule owned_parent)
      qed
    qed
  qed
  moreover have "prefix (def_key (?ds ! a)) (def_key (?ds ! i))" if "owned_by ?ds a i"
    using that
  proof induction
    case (owned_parent i p a)
    from valid_definition_parent(3) [OF valid [OF owned_parent(1)] owned_parent(2)] owned_parent.IH
    show ?case by auto
  qed simp
  ultimately show ?thesis by blast
qed

section \<open>A sample graph\<close>

definition sample_root :: definition_node_data where
  "sample_root =
     \<lparr>def_id = 0,
      def_key = [\<lparr>part_kind = DefCrate, part_origin = KeyWritten (ByteRange 0 4) CrateRoot,
                  part_name = None, part_ordinal = 0\<rparr>],
      def_kind = DefCrate, def_parent = None,
      def_origin = Written 0 (ByteRange 0 4) (ByteRange 0 4) CrateRoot 0\<rparr>"

definition sample_child :: definition_node_data where
  "sample_child =
     \<lparr>def_id = 1,
      def_key = def_key sample_root @ [\<lparr>part_kind = DefFunction, part_origin = KeyCompilerGenerated GenOpaqueType,
                  part_name = None, part_ordinal = 0\<rparr>],
      def_kind = DefFunction, def_parent = Some 0, def_origin = CompilerGenerated GenOpaqueType 0\<rparr>"

definition sample_edges :: "definition_edge list" where
  "sample_edges =
     [\<lparr>de_from = 1, de_to = Local 0, de_kind = DepParent, de_sites = []\<rparr>,
      \<lparr>de_from = 1, de_to = Local 0, de_kind = DepValuePath, de_sites = [ByteRange 2 3]\<rparr>,
      \<lparr>de_from = 1, de_to = Local 0, de_kind = DepValuePath, de_sites = [ByteRange 1 2]\<rparr>]"

lemma sample_definition_graph: "\<exists>g. definition_graph_new [sample_child, sample_root] [] sample_edges = Inr g
  \<and> dg_definitions g = [sample_root, sample_child]"
proof -
  have order: "sort_key def_id [sample_child, sample_root] = [sample_root, sample_child]"
    by (simp add: sample_child_def sample_root_def)
  have "DepParent < DepValuePath" "DepParent \<noteq> DepValuePath"
    by (simp_all add: less_definition_dependency_def definition_dependency_order_def position_of_def)
  then have groups: "group_definition_edges sample_edges =
      [\<lparr>de_from = 1, de_to = Local 0, de_kind = DepParent, de_sites = []\<rparr>,
       \<lparr>de_from = 1, de_to = Local 0, de_kind = DepValuePath, de_sites = [ByteRange 1 2, ByteRange 2 3]\<rparr>]"
    by (simp add: group_definition_edges_def group_entries_def sample_edges_def edge_key_def
        extend_entry_def less_byte_range_def less_eq_byte_range_def)
  show ?thesis
    unfolding definition_graph_new_Inr order groups
    by (simp add: dense_by_def valid_definition_roots_def sample_child_def sample_root_def
        valid_definition_def parent_in_front_def leaf_describes_def key_extends_parent_def
        ordinal_agrees_def sample_edges_def valid_definition_edge_def parent_edge_exact_def
        expected_parent_sites_def Let_def)
qed

theorem definition_graph_edges_grouped_witness:
  "\<exists>g. definition_graph_new [sample_child, sample_root] [] sample_edges = Inr g
     \<and> sorted_wrt (<) (map edge_key (dg_edges g))"
  using sample_definition_graph definition_graph_edges_grouped [of "[sample_child, sample_root]" "[]" sample_edges]
  by blast

theorem definition_graph_rebuild_witness:
  "\<exists>g. definition_graph_new [sample_child, sample_root] [] sample_edges = Inr g
     \<and> definition_graph_new [sample_root, sample_child] (dg_external g) (dg_edges g) = Inr g"
  using sample_definition_graph definition_graph_rebuild [of "[sample_child, sample_root]" "[]" sample_edges]
  by metis

theorem definition_keys_are_paths_witness:
  "owned_by [sample_root, sample_child] 0 1"
proof -
  from sample_definition_graph obtain g where
    g: "definition_graph_new [sample_child, sample_root] [] sample_edges = Inr g"
      "dg_definitions g = [sample_root, sample_child]" by blast
  from definition_keys_are_paths [OF g(1), of 0 1] g(2) show ?thesis
    by (simp add: sample_child_def)
qed

end
