(* ===== verification/Graph_Data.thy ===== *)
theory Graph_Data
  imports Definition_Graph
begin

text \<open>
  The data of \<open>src/dependency_graph.rs\<close>: expansions, proofs, monomorphic items, allocations, the
  typed edges between them and the roots.  Identifiers are their \<open>u32\<close> values.  A constructor whose
  name several enumerations of the code share carries a prefix.  The derived orders of the types
  that are keys of ordered maps or elements of ordered sets are their \<open>linorder\<close> instances.
\<close>

type_synonym expansion_id = nat
type_synonym proof_id = nat
type_synonym mono_id = nat

datatype definition_reference_key =
    ReferenceLocal definition_key | ReferenceExternal external_definition_key

section \<open>Nodes\<close>

datatype graph_node =
    NodeDefinition definition_id | NodeExternal external_definition_id
  | NodeExpansion expansion_id | NodeProof proof_id | NodeMono mono_id

fun graph_node_key :: "graph_node \<Rightarrow> nat \<times> nat" where
  "graph_node_key (NodeDefinition i) = (0, i)"
| "graph_node_key (NodeExternal i) = (1, i)"
| "graph_node_key (NodeExpansion i) = (2, i)"
| "graph_node_key (NodeProof i) = (3, i)"
| "graph_node_key (NodeMono i) = (4, i)"

lemma graph_node_key_inj [simp]: "graph_node_key m = graph_node_key n \<longleftrightarrow> m = n"
  by (cases m; cases n) simp_all

instantiation graph_node :: linorder
begin

definition less_eq_graph_node :: "graph_node \<Rightarrow> graph_node \<Rightarrow> bool" where
  "less_eq_graph_node j k \<longleftrightarrow> graph_node_key j \<le> graph_node_key k"

definition less_graph_node :: "graph_node \<Rightarrow> graph_node \<Rightarrow> bool" where
  "less_graph_node j k \<longleftrightarrow> graph_node_key j < graph_node_key k"

instance
proof
  fix j k l :: graph_node
  show "(j < k) = (j \<le> k \<and> \<not> k \<le> j)" by (simp only: less_eq_graph_node_def less_graph_node_def less_le_not_le)
  show "j \<le> j" by (simp add: less_eq_graph_node_def)
  show "j \<le> k \<Longrightarrow> k \<le> l \<Longrightarrow> j \<le> l" unfolding less_eq_graph_node_def by (rule order_trans)
  show "j \<le> k \<Longrightarrow> k \<le> j \<Longrightarrow> j = k" unfolding less_eq_graph_node_def by (drule (1) order_antisym) simp
  show "j \<le> k \<or> k \<le> j" unfolding less_eq_graph_node_def by (rule linear)
qed

end

section \<open>Expansions\<close>

datatype macro_style = BangMacro | AttributeMacro | DeriveMacro

datatype ast_pass_kind = StandardImports | TestHarness | ProcMacroHarness

datatype desugaring_kind =
    DesugarQuestionMark | DesugarTryBlock | DesugarYeetExpression | DesugarOpaqueType
  | DesugarAsync | DesugarAwait | DesugarForLoop | DesugarWhileLoop | DesugarBoundModifier
  | DesugarContract | DesugarPatternTypeRange | DesugarWrittenFormatLiteral
  | DesugarExpandedFormatLiteral | DesugarRangeExpression

datatype expansion_kind =
    MacroExpansion macro_style string | AstPass ast_pass_kind | Desugaring desugaring_kind

datatype expansion_fragment_kind =
    FragmentOptionalExpression | FragmentMethodReceiverExpression | FragmentExpression
  | FragmentPattern | FragmentType | FragmentStatements | FragmentItems | FragmentTraitItems
  | FragmentImplItems | FragmentTraitImplItems | FragmentForeignItems | FragmentArms
  | FragmentExpressionFields | FragmentPatternFields | FragmentGenericParameters
  | FragmentParameters | FragmentFieldDefinitions | FragmentVariants | FragmentWherePredicates
  | FragmentCrate

datatype macro_implementation_kind =
    ImplementedBuiltin | ImplementedDeclarative | ImplementedProcedural | ImplementedLegacy
  | ImplementedInertAttribute | ImplementedGlobDelegation

record expansion_key_part =
  xp_kind :: expansion_kind
  xp_fragment :: "expansion_fragment_kind option"
  xp_implementation :: "macro_implementation_kind option"
  xp_invocation_range :: "byte_range option"
  xp_node_range :: "byte_range option"
  xp_target_range :: "byte_range option"
  xp_macro_definition :: "definition_reference_key option"
  xp_selected_macro_rule :: "byte_range option"
  xp_same_role_ordinal :: nat

type_synonym expansion_key = "expansion_key_part list"

record expansion_node =
  x_id :: expansion_id
  x_key :: expansion_key
  x_kind :: expansion_kind
  x_fragment :: "expansion_fragment_kind option"
  x_implementation :: "macro_implementation_kind option"
  discovered_in :: "expansion_id option"
  semantic_parent :: "expansion_id option"
  source_call_parent :: "expansion_id option"
  written_invocation :: "source_unit_id option"
  source_owner :: "definition_id option"
  macro_definition :: "definition_target option"

section \<open>Proofs\<close>

text \<open>\<open>CanonicalCompilerTerm\<close> of \<open>src/compiler_terms.rs\<close>.\<close>

record canonical_term =
  term_schema :: nat
  term_bytes :: bytes

datatype selection_source_kind = SelectUserDefined | SelectParameter | SelectBuiltin

datatype builtin_trait_target_kind = BuiltinTraitDefinition | BuiltinAutoTrait

record builtin_trait_target =
  builtin_kind :: builtin_trait_target_kind
  builtin_target :: definition_target

record selection_source =
  sel_kind :: selection_source_kind
  sel_term :: canonical_term
  sel_implementation :: "definition_target option"
  sel_builtin_trait :: "builtin_trait_target option"

datatype projection_outcome = Progress canonical_term | NoProgress canonical_term

datatype projection_source_kind =
    ProjectedParameterEnvironment | ProjectedTraitDefinition | ProjectedObject
  | ProjectedSelectedUserDefined | ProjectedSelectedParameter | ProjectedSelectedBuiltin
  | ProjectedNoApplicableCandidate

record solver_trace =
  trace_root :: proof_id
  trace_obligations :: "proof_id list"
  trace_trait_selections :: "proof_id list"
  trace_projections :: "proof_id list"
  trace_fulfillments :: "proof_id list"
  trace_cycles :: "proof_id list"

record mono_instance_key =
  mi_definition :: definition_reference_key
  mi_arguments :: canonical_term
  mi_kind :: canonical_term

datatype mono_instance_role = Callable | ConstRole "nat option"

datatype proof_key =
    KeyObligation canonical_term canonical_term
  | KeyProjection canonical_term canonical_term
  | KeyAssociatedItem canonical_term mono_instance_key mono_instance_key
  | KeyCycle "proof_key list" bool

datatype specialization_node_kind = SpecializationImpl | SpecializationTrait

record specialization_node =
  sn_kind :: specialization_node_kind
  sn_target :: definition_target

text \<open>The fields of the four kinds of proof nodes, in the order of the code.\<close>

record obligation_data =
  ob_environment :: canonical_term
  ob_predicate :: canonical_term
  ob_source :: "selection_source option"
  ob_selection_nested :: "proof_id list option"
  ob_fulfillment_nested :: "proof_id list option"
  ob_query_trace :: "solver_trace option"

record projection_data =
  pr_environment :: canonical_term
  pr_alias :: canonical_term
  pr_source_kind :: projection_source_kind
  pr_source :: canonical_term
  pr_outcome :: projection_outcome
  pr_selected_trait :: "proof_id option"
  pr_selected_impl :: "definition_target option"
  pr_selected_item :: "definition_target option"
  pr_owners :: "proof_id list"
  pr_nested :: "proof_id list"
  pr_query_trace :: "solver_trace option"
  pr_normalized_result :: "canonical_term option"

record associated_data =
  as_request :: canonical_term
  as_raw_instance :: mono_instance_key
  as_codegen_instance :: mono_instance_key
  as_selection :: proof_id
  as_source_kind :: selection_source_kind
  as_leaf :: "definition_target option"
  as_defining_node :: "specialization_node option"
  as_finalizing_node :: "specialization_node option"
  as_ancestor_path :: "specialization_node list"

datatype proof_node_kind =
    Obligation obligation_data
  | Projection projection_data
  | AssociatedItem associated_data
  | Cycle (cycle_members: "proof_id list") (cycle_coinductive: bool)

record proof_node =
  proof_id :: proof_id
  proof_key :: proof_key
  proof_kind :: proof_node_kind

section \<open>Monomorphic items\<close>

datatype mono_collection =
    Used | Mentioned

definition mono_collection_order :: "mono_collection list" where
  "mono_collection_order = [Used, Mentioned]"

lemma mono_collection_order_UNIV: "set mono_collection_order = UNIV"
proof -
  have "k \<in> set mono_collection_order" for k
    by (cases k) (simp_all add: mono_collection_order_def)
  then show ?thesis by auto
qed

instantiation mono_collection :: linorder
begin

definition less_eq_mono_collection :: "mono_collection \<Rightarrow> mono_collection \<Rightarrow> bool" where
  "less_eq_mono_collection j k \<longleftrightarrow> position_of mono_collection_order j \<le> position_of mono_collection_order k"

definition less_mono_collection :: "mono_collection \<Rightarrow> mono_collection \<Rightarrow> bool" where
  "less_mono_collection j k \<longleftrightarrow> position_of mono_collection_order j < position_of mono_collection_order k"

instance
  by standard (auto simp: less_eq_mono_collection_def less_mono_collection_def
    position_of_inj [OF mono_collection_order_UNIV])

end

datatype mono_dependency_kind =
    DirectCall | FunctionPointer | ClosureFunctionPointer | InlineAsmSymbol | StaticReference
  | ThreadLocalReference | DropGlue | VTableConstruction | VTableMethod | VTableDrop
  | SupertraitVTable | ConstAllocation | AllocationReference | ThreadLocalShim
  | CompilerRequirement | SourceAssociatedItem

definition mono_dependency_kind_order :: "mono_dependency_kind list" where
  "mono_dependency_kind_order = [DirectCall, FunctionPointer, ClosureFunctionPointer,
     InlineAsmSymbol, StaticReference, ThreadLocalReference, DropGlue, VTableConstruction,
     VTableMethod, VTableDrop, SupertraitVTable, ConstAllocation, AllocationReference,
     ThreadLocalShim, CompilerRequirement, SourceAssociatedItem]"

lemma mono_dependency_kind_order_UNIV: "set mono_dependency_kind_order = UNIV"
proof -
  have "k \<in> set mono_dependency_kind_order" for k
    by (cases k) (simp_all add: mono_dependency_kind_order_def)
  then show ?thesis by auto
qed

instantiation mono_dependency_kind :: linorder
begin

definition less_eq_mono_dependency_kind :: "mono_dependency_kind \<Rightarrow> mono_dependency_kind \<Rightarrow> bool" where
  "less_eq_mono_dependency_kind j k \<longleftrightarrow> position_of mono_dependency_kind_order j \<le> position_of mono_dependency_kind_order k"

definition less_mono_dependency_kind :: "mono_dependency_kind \<Rightarrow> mono_dependency_kind \<Rightarrow> bool" where
  "less_mono_dependency_kind j k \<longleftrightarrow> position_of mono_dependency_kind_order j < position_of mono_dependency_kind_order k"

instance
  by standard (auto simp: less_eq_mono_dependency_kind_def less_mono_dependency_kind_def
    position_of_inj [OF mono_dependency_kind_order_UNIV])

end

datatype allocation_path_site =
    PathSource byte_range | PathExternalSource | PathAllocationReference | PathCompilerGenerated

record allocation_path_part =
  ap_relation :: mono_dependency_kind
  ap_collection :: mono_collection
  ap_site :: allocation_path_site
  ap_ordinal :: nat

datatype allocation_root_key =
    RootInstance mono_instance_key mono_instance_role
  | RootStatic definition_key
  | RootVTable canonical_term "canonical_term option"

record allocation_key =
  alloc_root :: allocation_root_key
  alloc_path :: "allocation_path_part list"

datatype allocation_descriptor =
    DescribesMemory
  | DescribesFunction canonical_term
  | DescribesStatic definition_reference_key
  | DescribesVTable canonical_term canonical_term
  | DescribesTypeId canonical_term

datatype mono_key =
    Instance mono_instance_key mono_instance_role
  | Static definition_key
  | GlobalAsm definition_key
  | VTable canonical_term "canonical_term option"
  | Allocation allocation_key

record mono_node =
  mono_id :: mono_id
  mono_key :: mono_key
  materialized_definition :: "definition_target option"
  allocation_observation :: "allocation_descriptor option"

section \<open>Edges, roots and the graph\<close>

datatype observation_site =
    SourceSite byte_range | ExternalSourceSite | AllocationOffset nat | VTableSlot nat
  | CompilerGeneratedSite

fun observation_site_key :: "observation_site \<Rightarrow> nat \<times> nat \<times> nat" where
  "observation_site_key (SourceSite r) = (0, br_start r, br_end r)"
| "observation_site_key ExternalSourceSite = (1, 0, 0)"
| "observation_site_key (AllocationOffset i) = (2, i, 0)"
| "observation_site_key (VTableSlot i) = (3, i, 0)"
| "observation_site_key CompilerGeneratedSite = (4, 0, 0)"

lemma observation_site_key_inj [simp]: "observation_site_key s = observation_site_key t \<longleftrightarrow> s = t"
  by (cases s; cases t) (auto intro: byte_range.expand)

instantiation observation_site :: linorder
begin

definition less_eq_observation_site :: "observation_site \<Rightarrow> observation_site \<Rightarrow> bool" where
  "less_eq_observation_site j k \<longleftrightarrow> observation_site_key j \<le> observation_site_key k"

definition less_observation_site :: "observation_site \<Rightarrow> observation_site \<Rightarrow> bool" where
  "less_observation_site j k \<longleftrightarrow> observation_site_key j < observation_site_key k"

instance
proof
  fix j k l :: observation_site
  show "(j < k) = (j \<le> k \<and> \<not> k \<le> j)" by (simp only: less_eq_observation_site_def less_observation_site_def less_le_not_le)
  show "j \<le> j" by (simp add: less_eq_observation_site_def)
  show "j \<le> k \<Longrightarrow> k \<le> l \<Longrightarrow> j \<le> l" unfolding less_eq_observation_site_def by (rule order_trans)
  show "j \<le> k \<Longrightarrow> k \<le> j \<Longrightarrow> j = k" unfolding less_eq_observation_site_def by (drule (1) order_antisym) simp
  show "j \<le> k \<or> k \<le> j" unfolding less_eq_observation_site_def by (rule linear)
qed

end

datatype evidence_origin =
    EvidenceCompiler | EvidencePatchedObserver | EvidenceDerived | EvidenceMultiple

definition evidence_origin_order :: "evidence_origin list" where
  "evidence_origin_order = [EvidenceCompiler, EvidencePatchedObserver, EvidenceDerived,
     EvidenceMultiple]"

lemma evidence_origin_order_UNIV: "set evidence_origin_order = UNIV"
proof -
  have "k \<in> set evidence_origin_order" for k
    by (cases k) (simp_all add: evidence_origin_order_def)
  then show ?thesis by auto
qed

instantiation evidence_origin :: linorder
begin

definition less_eq_evidence_origin :: "evidence_origin \<Rightarrow> evidence_origin \<Rightarrow> bool" where
  "less_eq_evidence_origin j k \<longleftrightarrow> position_of evidence_origin_order j \<le> position_of evidence_origin_order k"

definition less_evidence_origin :: "evidence_origin \<Rightarrow> evidence_origin \<Rightarrow> bool" where
  "less_evidence_origin j k \<longleftrightarrow> position_of evidence_origin_order j < position_of evidence_origin_order k"

instance
  by standard (auto simp: less_eq_evidence_origin_def less_evidence_origin_def
    position_of_inj [OF evidence_origin_order_UNIV])

end

datatype proof_relation_kind =
    RelatesTraceObligation | RelatesTraceTraitSelection | RelatesTraceProjection
  | RelatesTraceFulfillment | RelatesTraceCycle | RelatesQueryTraceRoot
  | RelatesTraitSelectionNested | RelatesProjectionOwner | RelatesProjectionSelectedTrait
  | RelatesProjectionNested | RelatesFulfillmentNested | RelatesCycleMember
  | RelatesAssociatedSelection | RelatesAssociatedLeaf | RelatesAssociatedDefining
  | RelatesAssociatedFinalizing | RelatesSpecializationAncestor | RelatesSelectedImpl
  | RelatesSelectedTraitItem | RelatesAutoTraitProof | RelatesTraitDefinition

definition proof_relation_kind_order :: "proof_relation_kind list" where
  "proof_relation_kind_order = [RelatesTraceObligation, RelatesTraceTraitSelection,
     RelatesTraceProjection, RelatesTraceFulfillment, RelatesTraceCycle, RelatesQueryTraceRoot,
     RelatesTraitSelectionNested, RelatesProjectionOwner, RelatesProjectionSelectedTrait,
     RelatesProjectionNested, RelatesFulfillmentNested, RelatesCycleMember,
     RelatesAssociatedSelection, RelatesAssociatedLeaf, RelatesAssociatedDefining,
     RelatesAssociatedFinalizing, RelatesSpecializationAncestor, RelatesSelectedImpl,
     RelatesSelectedTraitItem, RelatesAutoTraitProof, RelatesTraitDefinition]"

lemma proof_relation_kind_order_UNIV: "set proof_relation_kind_order = UNIV"
proof -
  have "k \<in> set proof_relation_kind_order" for k
    by (cases k) (simp_all add: proof_relation_kind_order_def)
  then show ?thesis by auto
qed

instantiation proof_relation_kind :: linorder
begin

definition less_eq_proof_relation_kind :: "proof_relation_kind \<Rightarrow> proof_relation_kind \<Rightarrow> bool" where
  "less_eq_proof_relation_kind j k \<longleftrightarrow> position_of proof_relation_kind_order j \<le> position_of proof_relation_kind_order k"

definition less_proof_relation_kind :: "proof_relation_kind \<Rightarrow> proof_relation_kind \<Rightarrow> bool" where
  "less_proof_relation_kind j k \<longleftrightarrow> position_of proof_relation_kind_order j < position_of proof_relation_kind_order k"

instance
  by standard (auto simp: less_eq_proof_relation_kind_def less_proof_relation_kind_def
    position_of_inj [OF proof_relation_kind_order_UNIV])

end

datatype dependency_kind =
    DefinitionDependency definition_dependency
  | ExpansionDiscoveredIn | ExpansionSemanticParent | ExpansionSourceCallParent
  | MacroDefinitionUse | ExpansionUse | GeneratedBy
  | SelectionProof mono_dependency_kind mono_collection
  | ProofRelation proof_relation_kind nat
  | MaterializesDefinition
  | MonoDependency mono_dependency_kind mono_collection

fun dependency_kind_key :: "dependency_kind \<Rightarrow> nat \<times> nat \<times> nat" where
  "dependency_kind_key (DefinitionDependency k) = (0, position_of definition_dependency_order k, 0)"
| "dependency_kind_key ExpansionDiscoveredIn = (1, 0, 0)"
| "dependency_kind_key ExpansionSemanticParent = (2, 0, 0)"
| "dependency_kind_key ExpansionSourceCallParent = (3, 0, 0)"
| "dependency_kind_key MacroDefinitionUse = (4, 0, 0)"
| "dependency_kind_key ExpansionUse = (5, 0, 0)"
| "dependency_kind_key GeneratedBy = (6, 0, 0)"
| "dependency_kind_key (SelectionProof r c) =
     (7, position_of mono_dependency_kind_order r, position_of mono_collection_order c)"
| "dependency_kind_key (ProofRelation r n) = (8, position_of proof_relation_kind_order r, n)"
| "dependency_kind_key MaterializesDefinition = (9, 0, 0)"
| "dependency_kind_key (MonoDependency r c) =
     (10, position_of mono_dependency_kind_order r, position_of mono_collection_order c)"

lemma dependency_kind_key_inj [simp]: "dependency_kind_key j = dependency_kind_key k \<longleftrightarrow> j = k"
  by (cases j; cases k)
     (simp_all add: position_of_inj definition_dependency_order_UNIV mono_dependency_kind_order_UNIV
       mono_collection_order_UNIV proof_relation_kind_order_UNIV)

instantiation dependency_kind :: linorder
begin

definition less_eq_dependency_kind :: "dependency_kind \<Rightarrow> dependency_kind \<Rightarrow> bool" where
  "less_eq_dependency_kind j k \<longleftrightarrow> dependency_kind_key j \<le> dependency_kind_key k"

definition less_dependency_kind :: "dependency_kind \<Rightarrow> dependency_kind \<Rightarrow> bool" where
  "less_dependency_kind j k \<longleftrightarrow> dependency_kind_key j < dependency_kind_key k"

instance
proof
  fix j k l :: dependency_kind
  show "(j < k) = (j \<le> k \<and> \<not> k \<le> j)" by (simp only: less_eq_dependency_kind_def less_dependency_kind_def less_le_not_le)
  show "j \<le> j" by (simp add: less_eq_dependency_kind_def)
  show "j \<le> k \<Longrightarrow> k \<le> l \<Longrightarrow> j \<le> l" unfolding less_eq_dependency_kind_def by (rule order_trans)
  show "j \<le> k \<Longrightarrow> k \<le> j \<Longrightarrow> j = k" unfolding less_eq_dependency_kind_def by (drule (1) order_antisym) simp
  show "j \<le> k \<or> k \<le> j" unfolding less_eq_dependency_kind_def by (rule linear)
qed

end

record dependency_edge =
  e_from :: graph_node
  e_to :: graph_node
  e_kind :: dependency_kind
  e_sites :: "observation_site list"
  e_evidence :: evidence_origin

datatype root_reason =
    RootMain | RootExplicitEntry | RootDownstreamSelection | RootStartInstance
  | RootUsedAttribute | RootExternalSymbol | RootNativeLink | RootGlobalAssembly

definition root_reason_order :: "root_reason list" where
  "root_reason_order = [RootMain, RootExplicitEntry, RootDownstreamSelection,
     RootStartInstance, RootUsedAttribute, RootExternalSymbol, RootNativeLink,
     RootGlobalAssembly]"

lemma root_reason_order_UNIV: "set root_reason_order = UNIV"
proof -
  have "k \<in> set root_reason_order" for k
    by (cases k) (simp_all add: root_reason_order_def)
  then show ?thesis by auto
qed

instantiation root_reason :: linorder
begin

definition less_eq_root_reason :: "root_reason \<Rightarrow> root_reason \<Rightarrow> bool" where
  "less_eq_root_reason j k \<longleftrightarrow> position_of root_reason_order j \<le> position_of root_reason_order k"

definition less_root_reason :: "root_reason \<Rightarrow> root_reason \<Rightarrow> bool" where
  "less_root_reason j k \<longleftrightarrow> position_of root_reason_order j < position_of root_reason_order k"

instance
  by standard (auto simp: less_eq_root_reason_def less_root_reason_def
    position_of_inj [OF root_reason_order_UNIV])

end

record root_record =
  root_node :: graph_node
  root_reason :: root_reason

record dependency_graph =
  g_definitions :: definition_graph
  g_expansions :: "expansion_node list"
  g_proofs :: "proof_node list"
  g_mono :: "mono_node list"
  g_edges :: "dependency_edge list"
  g_roots :: "root_record list"

datatype dependency_graph_error =
    InvalidExpansion | InvalidProof | InvalidMonoNode | InvalidEdge | InvalidRoot

section \<open>References between the parts\<close>

definition invalid_expansion_ref :: "expansion_id option \<Rightarrow> nat \<Rightarrow> bool" where
  "invalid_expansion_ref v len = (case v of None \<Rightarrow> False | Some i \<Rightarrow> i \<ge> len)"

definition invalid_definition_target :: "definition_target option \<Rightarrow> definition_graph \<Rightarrow> bool" where
  "invalid_definition_target v definitions =
     (case v of
        None \<Rightarrow> False
      | Some (Local i) \<Rightarrow> i \<ge> length (dg_definitions definitions)
      | Some (External i) \<Rightarrow> i \<ge> length (dg_external definitions))"

fun definition_node :: "definition_target \<Rightarrow> graph_node" where
  "definition_node (Local i) = NodeDefinition i"
| "definition_node (External i) = NodeExternal i"

fun definition_reference_key_of :: "definition_graph \<Rightarrow> definition_target \<Rightarrow> definition_reference_key" where
  "definition_reference_key_of definitions (Local i) = ReferenceLocal (def_key (dg_definitions definitions ! i))"
| "definition_reference_key_of definitions (External i) = ReferenceExternal (ext_key (dg_external definitions ! i))"

definition definition_edges :: "definition_graph \<Rightarrow> dependency_edge list" where
  "definition_edges definitions =
     map (\<lambda>edge. \<lparr>e_from = NodeDefinition (de_from edge), e_to = definition_node (de_to edge),
                 e_kind = DefinitionDependency (de_kind edge), e_sites = map SourceSite (de_sites edge),
                 e_evidence = EvidenceCompiler\<rparr>)
       (dg_edges definitions)"

fun valid_node :: "graph_node \<Rightarrow> definition_graph \<Rightarrow> expansion_node list \<Rightarrow> proof_node list
    \<Rightarrow> mono_node list \<Rightarrow> bool" where
  "valid_node (NodeDefinition i) definitions expansions proofs monos = (i < length (dg_definitions definitions))"
| "valid_node (NodeExternal i) definitions expansions proofs monos = (i < length (dg_external definitions))"
| "valid_node (NodeExpansion i) definitions expansions proofs monos = (i < length expansions)"
| "valid_node (NodeProof i) definitions expansions proofs monos = (i < length proofs)"
| "valid_node (NodeMono i) definitions expansions proofs monos = (i < length monos)"

fun structural_relation :: "dependency_kind \<Rightarrow> bool" where
  "structural_relation (DefinitionDependency k) = (k = DepParent)"
| "structural_relation ExpansionDiscoveredIn = True"
| "structural_relation ExpansionSemanticParent = True"
| "structural_relation ExpansionSourceCallParent = True"
| "structural_relation MacroDefinitionUse = True"
| "structural_relation GeneratedBy = True"
| "structural_relation (ProofRelation r n) = True"
| "structural_relation MaterializesDefinition = True"
| "structural_relation ExpansionUse = False"
| "structural_relation (SelectionProof r c) = False"
| "structural_relation (MonoDependency r c) = False"

definition is_definition_node :: "graph_node \<Rightarrow> bool" where
  "is_definition_node n = (case n of NodeDefinition _ \<Rightarrow> True | NodeExternal _ \<Rightarrow> True | _ \<Rightarrow> False)"

definition is_local_definition :: "graph_node \<Rightarrow> bool" where
  "is_local_definition n = (case n of NodeDefinition _ \<Rightarrow> True | _ \<Rightarrow> False)"

definition is_expansion_node :: "graph_node \<Rightarrow> bool" where
  "is_expansion_node n = (case n of NodeExpansion _ \<Rightarrow> True | _ \<Rightarrow> False)"

definition is_proof_node :: "graph_node \<Rightarrow> bool" where
  "is_proof_node n = (case n of NodeProof _ \<Rightarrow> True | _ \<Rightarrow> False)"

definition is_mono_node :: "graph_node \<Rightarrow> bool" where
  "is_mono_node n = (case n of NodeMono _ \<Rightarrow> True | _ \<Rightarrow> False)"

definition relates_to_definition :: "proof_relation_kind \<Rightarrow> bool" where
  "relates_to_definition r \<longleftrightarrow>
     r \<in> {RelatesAssociatedLeaf, RelatesAssociatedDefining, RelatesAssociatedFinalizing,
          RelatesSpecializationAncestor, RelatesSelectedImpl, RelatesSelectedTraitItem,
          RelatesAutoTraitProof, RelatesTraitDefinition}"

fun valid_edge_shape :: "graph_node \<Rightarrow> graph_node \<Rightarrow> dependency_kind \<Rightarrow> bool" where
  "valid_edge_shape s t (DefinitionDependency k) = (is_local_definition s \<and> is_definition_node t)"
| "valid_edge_shape s t ExpansionDiscoveredIn = (is_expansion_node s \<and> is_expansion_node t)"
| "valid_edge_shape s t ExpansionSemanticParent = (is_expansion_node s \<and> is_expansion_node t)"
| "valid_edge_shape s t ExpansionSourceCallParent = (is_expansion_node s \<and> is_expansion_node t)"
| "valid_edge_shape s t MacroDefinitionUse = (is_expansion_node s \<and> is_definition_node t)"
| "valid_edge_shape s t ExpansionUse = (is_local_definition s \<and> is_expansion_node t)"
| "valid_edge_shape s t GeneratedBy = (is_local_definition s \<and> is_expansion_node t)"
| "valid_edge_shape s t (SelectionProof r c) = (is_mono_node s \<and> is_proof_node t)"
| "valid_edge_shape s t (ProofRelation r n) =
     (if relates_to_definition r then is_proof_node s \<and> is_definition_node t
      else is_proof_node s \<and> is_proof_node t)"
| "valid_edge_shape s t MaterializesDefinition = (is_mono_node s \<and> is_definition_node t)"
| "valid_edge_shape s t (MonoDependency r c) =
     (r \<noteq> SourceAssociatedItem \<and> is_mono_node s \<and> is_mono_node t)"

end
