(* ===== verification/Expansions.thy ===== *)
theory Expansions
  imports Graph_Data
begin

text \<open>
  The expansion part of \<open>src/dependency_graph.rs\<close>: which expansions survive when written
  invocations are dropped, the test that the three parent relations have no cycles, and the
  validation of one expansion against the edges of the graph.
\<close>

section \<open>Survival\<close>

definition parents_of :: "expansion_node \<Rightarrow> expansion_id list" where
  "parents_of node =
     concat (map (\<lambda>p. case p of None \<Rightarrow> [] | Some i \<Rightarrow> [i])
       [discovered_in node, semantic_parent node, source_call_parent node])"

definition initial_survival ::
  "expansion_node list \<Rightarrow> (source_unit_id \<Rightarrow> bool option) \<Rightarrow> bool list option" where
  "initial_survival expansions written_unit_survives =
     those (map (\<lambda>(index, node).
         if x_id node \<noteq> index then None
         else case written_invocation node of None \<Rightarrow> Some True | Some unit \<Rightarrow> written_unit_survives unit)
       (enumerate 0 expansions))"

text \<open>The parents are asked in order until one does not survive.\<close>

fun parents_survive :: "expansion_node list \<Rightarrow> expansion_id \<Rightarrow> bool list \<Rightarrow> expansion_id list \<Rightarrow> bool option" where
  "parents_survive expansions self surviving [] = Some True"
| "parents_survive expansions self surviving (p # ps) =
     (if p < length expansions \<and> x_id (expansions ! p) = p \<and> p \<noteq> self \<and> p < length surviving
      then if surviving ! p then parents_survive expansions self surviving ps else Some False
      else None)"

text \<open>One pass over the nodes.  The ids are positions, so indexing the vector cannot fail.\<close>

fun survival_pass :: "expansion_node list \<Rightarrow> expansion_node list \<Rightarrow> bool list \<times> bool \<Rightarrow> (bool list \<times> bool) option" where
  "survival_pass expansions [] state = Some state"
| "survival_pass expansions (node # nodes) (surviving, changed) =
     (case get_at surviving (x_id node) of
        None \<Rightarrow> None
      | Some False \<Rightarrow> survival_pass expansions nodes (surviving, changed)
      | Some True \<Rightarrow>
          (case parents_survive expansions (x_id node) surviving (parents_of node) of
             None \<Rightarrow> None
           | Some True \<Rightarrow> survival_pass expansions nodes (surviving, changed)
           | Some False \<Rightarrow> survival_pass expansions nodes (surviving[x_id node := False], True)))"

text \<open>A pass that changes something drops a survivor, so the loop ends.\<close>

definition survivors :: "bool list \<Rightarrow> nat" where
  "survivors s = length (filter id s)"

lemma survivors_drop: "i < length s \<Longrightarrow> s ! i \<Longrightarrow> Suc (survivors (s[i := False])) = survivors s"
proof (induction s arbitrary: i)
  case (Cons b s)
  then show ?case by (cases i) (auto simp: survivors_def)
qed simp

lemma survival_pass_survivors:
  "survival_pass expansions nodes (s, changed) = Some (s', changed') \<Longrightarrow>
     survivors s' \<le> survivors s \<and> (changed' \<noteq> changed \<longrightarrow> survivors s' < survivors s)"
proof (induction nodes arbitrary: s changed)
  case (Cons node nodes)
  consider "survival_pass expansions nodes (s, changed) = Some (s', changed')"
    | "x_id node < length s" "s ! x_id node"
      "survival_pass expansions nodes (s[x_id node := False], True) = Some (s', changed')"
    using Cons.prems by (auto split: option.splits bool.splits)
  then show ?case
  proof cases
    case 1
    then show ?thesis by (rule Cons.IH)
  next
    case 2
    from Cons.IH [OF 2(3)] survivors_drop [OF 2(1,2)] show ?thesis by auto
  qed
qed simp

function survival_loop :: "expansion_node list \<Rightarrow> bool list \<Rightarrow> bool list option" where
  "survival_loop expansions surviving =
     (case survival_pass expansions expansions (surviving, False) of
        None \<Rightarrow> None
      | Some (surviving', changed) \<Rightarrow>
          if changed then survival_loop expansions surviving' else Some surviving')"
  by pat_completeness auto
termination
  by (relation "measure (\<lambda>(expansions, surviving). survivors surviving)")
     (auto dest!: survival_pass_survivors)

declare survival_loop.simps [simp del]

definition expansion_source_survival ::
  "expansion_node list \<Rightarrow> (source_unit_id \<Rightarrow> bool option) \<Rightarrow> bool list option" where
  "expansion_source_survival expansions written_unit_survives =
     (case initial_survival expansions written_unit_survives of
        None \<Rightarrow> None
      | Some surviving \<Rightarrow> survival_loop expansions surviving)"

section \<open>Acyclic parent relations\<close>

text \<open>Following one relation from a node, with the set of the visited ids.\<close>

function chain_acyclic :: "expansion_node list \<Rightarrow> (expansion_node \<Rightarrow> expansion_id option)
    \<Rightarrow> expansion_id option \<Rightarrow> expansion_id set \<Rightarrow> bool" where
  "chain_acyclic expansions relation current seen =
     (case current of
        None \<Rightarrow> True
      | Some i \<Rightarrow>
          if i \<in> seen then False
          else chain_acyclic expansions relation
            (case get_at expansions i of None \<Rightarrow> None | Some node \<Rightarrow> relation node) (insert i seen))"
  by pat_completeness auto
termination
proof (relation "measure (\<lambda>(expansions, relation, current, seen).
    case current of None \<Rightarrow> 0 | Some (i :: expansion_id) \<Rightarrow> Suc (card ({..<length expansions} - seen)))", goal_cases)
  case (2 expansions relation current seen i)
  show ?case
  proof (cases "i < length expansions")
    case True
    with 2 have "{..<length expansions} - insert i seen \<subset> {..<length expansions} - seen" by auto
    then have "card ({..<length expansions} - insert i seen) < card ({..<length expansions} - seen)"
      by (rule psubset_card_mono [rotated]) simp
    with 2 show ?thesis by (auto split: option.split)
  next
    case False
    with 2 show ?thesis by (simp add: get_at_def)
  qed
qed simp

declare chain_acyclic.simps [simp del]

definition expansion_relations_are_acyclic :: "expansion_node list \<Rightarrow> bool" where
  "expansion_relations_are_acyclic expansions \<longleftrightarrow>
     list_all (\<lambda>relation. list_all (\<lambda>start. chain_acyclic expansions relation (Some (x_id start)) {}) expansions)
       [discovered_in, semantic_parent, source_call_parent]"

section \<open>Edges of one expansion\<close>

definition leaf_matches :: "definition_graph \<Rightarrow> expansion_node \<Rightarrow> bool" where
  "leaf_matches definitions node \<longleftrightarrow>
     x_key node \<noteq> []
     \<and> xp_kind (last (x_key node)) = x_kind node
     \<and> xp_fragment (last (x_key node)) = x_fragment node
     \<and> xp_implementation (last (x_key node)) = x_implementation node
     \<and> xp_macro_definition (last (x_key node))
         = map_option (definition_reference_key_of definitions) (macro_definition node)"

text \<open>\<open>Option::or\<close>.\<close>

definition first_of :: "'a option \<Rightarrow> 'a option \<Rightarrow> 'a option" where
  "first_of x y = (case x of None \<Rightarrow> y | Some _ \<Rightarrow> x)"

definition identity_parent :: "expansion_node \<Rightarrow> expansion_id option" where
  "identity_parent node =
     first_of (first_of (discovered_in node) (source_call_parent node)) (semantic_parent node)"

definition key_below_parent :: "expansion_node list \<Rightarrow> expansion_node \<Rightarrow> bool" where
  "key_below_parent expansions node \<longleftrightarrow>
     (case identity_parent node of
        None \<Rightarrow> length (x_key node) = 1
      | Some p \<Rightarrow>
          (case get_at expansions p of
             None \<Rightarrow> False
           | Some parent \<Rightarrow>
               x_id parent \<noteq> x_id node
               \<and> length (x_key node) = length (x_key parent) + 1
               \<and> prefix (x_key parent) (x_key node)))"

definition exact_edge :: "dependency_edge list \<Rightarrow> graph_node \<Rightarrow> dependency_kind \<Rightarrow> graph_node option \<Rightarrow> bool" where
  "exact_edge edges source kind target \<longleftrightarrow>
     (let matching = filter (\<lambda>edge. e_from edge = source \<and> e_kind edge = kind) edges
      in case target of
           Some t \<Rightarrow> length matching = 1 \<and> e_to (matching ! 0) = t
         | None \<Rightarrow> matching = [])"

definition valid_expansion_edges ::
  "definition_graph \<Rightarrow> expansion_node list \<Rightarrow> dependency_edge list \<Rightarrow> expansion_node \<Rightarrow> bool" where
  "valid_expansion_edges definitions expansions edges node \<longleftrightarrow>
     leaf_matches definitions node \<and> key_below_parent expansions node
     \<and> (let self = NodeExpansion (x_id node)
        in exact_edge edges self ExpansionDiscoveredIn (map_option NodeExpansion (discovered_in node))
           \<and> exact_edge edges self ExpansionSemanticParent (map_option NodeExpansion (semantic_parent node))
           \<and> exact_edge edges self ExpansionSourceCallParent (map_option NodeExpansion (source_call_parent node))
           \<and> exact_edge edges self MacroDefinitionUse (map_option definition_node (macro_definition node))
           \<and> (let uses = filter (\<lambda>edge. e_to edge = self \<and> e_kind edge = ExpansionUse) edges
              in case source_owner node of
                   Some owner \<Rightarrow> length uses = 1 \<and> e_from (uses ! 0) = NodeDefinition owner
                 | None \<Rightarrow> uses = []))"

section \<open>Survival is survival of all ancestors\<close>

definition has_parent :: "expansion_node \<Rightarrow> expansion_id \<Rightarrow> bool" where
  "has_parent node p \<longleftrightarrow>
     discovered_in node = Some p \<or> semantic_parent node = Some p \<or> source_call_parent node = Some p"

lemma parents_of_iff: "p \<in> set (parents_of node) \<longleftrightarrow> has_parent node p"
  by (auto simp: parents_of_def has_parent_def split: option.splits)

inductive expansion_ancestor :: "expansion_node list \<Rightarrow> expansion_id \<Rightarrow> expansion_id \<Rightarrow> bool" for xs where
  ancestor_self: "expansion_ancestor xs i i"
| ancestor_parent: "i < length xs \<Longrightarrow> has_parent (xs ! i) p \<Longrightarrow> expansion_ancestor xs p a
    \<Longrightarrow> expansion_ancestor xs i a"

definition unit_outcome :: "(source_unit_id \<Rightarrow> bool option) \<Rightarrow> expansion_node \<Rightarrow> bool option" where
  "unit_outcome survives node =
     (case written_invocation node of None \<Rightarrow> Some True | Some unit \<Rightarrow> survives unit)"

definition all_ancestors_survive ::
  "expansion_node list \<Rightarrow> (source_unit_id \<Rightarrow> bool option) \<Rightarrow> expansion_id \<Rightarrow> bool" where
  "all_ancestors_survive xs survives i \<longleftrightarrow>
     (\<forall>a. expansion_ancestor xs i a \<longrightarrow> a < length xs \<and> unit_outcome survives (xs ! a) = Some True)"

definition parents_in_range :: "expansion_node list \<Rightarrow> expansion_node \<Rightarrow> bool" where
  "parents_in_range xs node \<longleftrightarrow> (\<forall>p. has_parent node p \<longrightarrow> p < length xs \<and> p \<noteq> x_id node)"

lemma those_Some: "those ys = Some zs \<longleftrightarrow> ys = map Some zs"
  by (induction ys arbitrary: zs) (auto split: option.splits)

lemma initial_survival_Some:
  "initial_survival xs survives = Some s \<longleftrightarrow>
     length s = length xs \<and> (\<forall>i < length xs. x_id (xs ! i) = i \<and> unit_outcome survives (xs ! i) = Some (s ! i))"
proof -
  let ?f = "\<lambda>(index, node). if x_id node \<noteq> index then None else unit_outcome survives node"
  have "initial_survival xs survives = Some s \<longleftrightarrow> map ?f (enumerate 0 xs) = map Some s"
    unfolding initial_survival_def those_Some unit_outcome_def ..
  also have "\<dots> \<longleftrightarrow> length s = length xs \<and> (\<forall>i < length xs. ?f (i, xs ! i) = Some (s ! i))"
    by (auto simp: list_eq_iff_nth_eq nth_enumerate_eq)
  also have "\<dots> \<longleftrightarrow> length s = length xs
      \<and> (\<forall>i < length xs. x_id (xs ! i) = i \<and> unit_outcome survives (xs ! i) = Some (s ! i))"
    by (auto split: if_splits)
  finally show ?thesis .
qed

lemma initial_survival_None:
  "initial_survival xs survives = None \<longleftrightarrow>
     \<not> (dense_by x_id xs \<and> list_all (\<lambda>node. unit_outcome survives node \<noteq> None) xs)"
proof
  assume none: "initial_survival xs survives = None"
  show "\<not> (dense_by x_id xs \<and> list_all (\<lambda>node. unit_outcome survives node \<noteq> None) xs)"
  proof
    assume "dense_by x_id xs \<and> list_all (\<lambda>node. unit_outcome survives node \<noteq> None) xs"
    then have "initial_survival xs survives = Some (map (\<lambda>node. the (unit_outcome survives node)) xs)"
      by (auto simp: initial_survival_Some dense_by_nth list_all_length)
    with none show False by simp
  qed
next
  assume not_ok: "\<not> (dense_by x_id xs \<and> list_all (\<lambda>node. unit_outcome survives node \<noteq> None) xs)"
  show "initial_survival xs survives = None"
  proof (cases "initial_survival xs survives")
    case (Some s)
    with not_ok show ?thesis by (auto simp: initial_survival_Some dense_by_nth list_all_length)
  qed
qed

lemma parents_survive_cases:
  assumes "dense_by x_id xs" and "length s = length xs"
  shows "case parents_survive xs self s ps of
      None \<Rightarrow> \<exists>p \<in> set ps. \<not> (p < length xs \<and> p \<noteq> self)
    | Some True \<Rightarrow> \<forall>p \<in> set ps. p < length xs \<and> s ! p
    | Some False \<Rightarrow> \<exists>p \<in> set ps. p < length xs \<and> \<not> s ! p"
proof (induction ps)
  case (Cons p ps)
  show ?case
  proof (cases "p < length xs \<and> p \<noteq> self \<and> s ! p")
    case True
    then have "parents_survive xs self s (p # ps) = parents_survive xs self s ps"
      using assms by (simp add: dense_by_nth)
    with Cons True show ?thesis by (auto split: option.splits bool.splits)
  next
    case False
    with assms show ?thesis by (auto simp: dense_by_nth)
  qed
qed simp

text \<open>Every dropped node has an ancestor that does not survive.\<close>

definition drops_sound :: "expansion_node list \<Rightarrow> (source_unit_id \<Rightarrow> bool option) \<Rightarrow> bool list \<Rightarrow> bool" where
  "drops_sound xs survives s \<longleftrightarrow>
     length s = length xs
     \<and> (\<forall>i < length xs. if s ! i then unit_outcome survives (xs ! i) = Some True
          else \<not> all_ancestors_survive xs survives i)"

lemma ancestors_of_parent:
  "i < length xs \<Longrightarrow> has_parent (xs ! i) p \<Longrightarrow> all_ancestors_survive xs survives i
    \<Longrightarrow> all_ancestors_survive xs survives p"
  by (auto simp: all_ancestors_survive_def intro: ancestor_parent)

lemma drops_sound_drop:
  assumes "drops_sound xs survives s" and "\<not> all_ancestors_survive xs survives i"
  shows "drops_sound xs survives (s[i := False])"
  unfolding drops_sound_def
proof (intro conjI allI impI)
  show "length (s[i := False]) = length xs" using assms(1) by (simp add: drops_sound_def)
  fix j
  assume "j < length xs"
  with assms(1) have "j < length s"
    "if s ! j then unit_outcome survives (xs ! j) = Some True else \<not> all_ancestors_survive xs survives j"
    by (auto simp: drops_sound_def)
  with assms(2) show "if s[i := False] ! j then unit_outcome survives (xs ! j) = Some True
      else \<not> all_ancestors_survive xs survives j"
    by (cases "i = j") auto
qed

lemma survival_pass_spec:
  assumes "dense_by x_id xs" and "drops_sound xs survives s" and "set nodes \<subseteq> set xs"
  shows "case survival_pass xs nodes (s, changed) of
      None \<Rightarrow> \<not> list_all (parents_in_range xs) xs
    | Some (s', changed') \<Rightarrow> drops_sound xs survives s'
        \<and> (changed' \<or> s' = s \<and> \<not> changed \<and> (\<forall>node \<in> set nodes. s ! x_id node \<longrightarrow>
             (\<forall>p. has_parent node p \<longrightarrow> p < length xs \<and> s ! p)))"
  using assms(2,3)
proof (induction nodes arbitrary: s changed)
  case (Cons node nodes)
  from Cons.prems obtain i where i: "i < length xs" "node = xs ! i" by (auto simp: in_set_conv_nth)
  with assms(1) have id: "x_id node = i" by (simp add: dense_by_nth)
  have len: "length s = length xs" using Cons.prems(1) by (simp add: drops_sound_def)
  have sub: "set nodes \<subseteq> set xs" using Cons.prems(2) by simp
  note ps = parents_survive_cases [OF assms(1) len, where self = i and ps = "parents_of node"]
  show ?case
  proof (cases "s ! i")
    case False
    then have "survival_pass xs (node # nodes) (s, changed) = survival_pass xs nodes (s, changed)"
      using i len id by (simp add: get_at_def)
    with Cons.IH [OF Cons.prems(1) sub, of changed] False id show ?thesis
      by (auto split: option.splits)
  next
    case live: True
    show ?thesis
    proof (cases "parents_survive xs i s (parents_of node)")
      case None
      then have "survival_pass xs (node # nodes) (s, changed) = None"
        using live i len id by (simp add: get_at_def)
      moreover have "node \<in> set xs" using i by simp
      moreover have "\<not> parents_in_range xs node"
        using ps None id by (auto simp: parents_in_range_def parents_of_iff)
      ultimately show ?thesis by (auto simp: list_all_iff)
    next
      case (Some b)
      show ?thesis
      proof (cases b)
        case True
        then have "survival_pass xs (node # nodes) (s, changed) = survival_pass xs nodes (s, changed)"
          using Some live i len id by (simp add: get_at_def)
        with Cons.IH [OF Cons.prems(1) sub, of changed] ps Some True id show ?thesis
          by (auto simp: parents_of_iff split: option.splits)
      next
        case False
        with ps Some obtain p where p: "has_parent node p" "p < length xs" "\<not> s ! p"
          by (auto simp: parents_of_iff)
        have "\<not> all_ancestors_survive xs survives p"
          using Cons.prems(1) p(2,3) by (auto simp: drops_sound_def)
        then have "\<not> all_ancestors_survive xs survives i"
          using ancestors_of_parent [OF i(1)] p(1) i(2) by blast
        with Cons.prems(1) have "drops_sound xs survives (s[i := False])" by (rule drops_sound_drop)
        from Cons.IH [OF this sub, of True]
        have IH: "case survival_pass xs nodes (s[i := False], True) of
            None \<Rightarrow> \<not> list_all (parents_in_range xs) xs
          | Some (s', changed') \<Rightarrow> drops_sound xs survives s' \<and> changed'" by (auto split: option.splits)
        have "survival_pass xs (node # nodes) (s, changed) = survival_pass xs nodes (s[i := False], True)"
          using Some False live i len id by (simp add: get_at_def)
        with IH show ?thesis by (auto split: option.splits)
      qed
    qed
  qed
qed simp

lemma closed_survivors:
  assumes "drops_sound xs survives s" and "dense_by x_id xs"
    and "\<forall>node \<in> set xs. s ! x_id node \<longrightarrow> (\<forall>p. has_parent node p \<longrightarrow> p < length xs \<and> s ! p)"
  shows "s = map (all_ancestors_survive xs survives) [0 ..< length xs]"
proof (rule nth_equalityI)
  show "length s = length (map (all_ancestors_survive xs survives) [0 ..< length xs])"
    using assms(1) by (simp add: drops_sound_def)
  fix i
  assume "i < length s"
  then have i: "i < length xs" using assms(1) by (simp add: drops_sound_def)
  have "a < length xs \<and> s ! a" if "expansion_ancestor xs i a" "i < length xs" "s ! i" for a i
    using that
  proof induction
    case (ancestor_parent i p a)
    then have "xs ! i \<in> set xs" "x_id (xs ! i) = i" using assms(2) by (auto simp: dense_by_nth)
    with assms(3) ancestor_parent show ?case by metis
  qed simp
  then have "all_ancestors_survive xs survives i" if "s ! i"
    using that i assms(1) by (auto simp: all_ancestors_survive_def drops_sound_def)
  moreover have "if s ! i then unit_outcome survives (xs ! i) = Some True
      else \<not> all_ancestors_survive xs survives i"
    using i assms(1) by (simp add: drops_sound_def)
  then have "s ! i" if "all_ancestors_survive xs survives i"
    using that by (simp split: if_splits)
  ultimately show "s ! i = map (all_ancestors_survive xs survives) [0 ..< length xs] ! i" using i by auto
qed

lemma survival_loop_spec:
  assumes "dense_by x_id xs" and "drops_sound xs survives s"
  shows "case survival_loop xs s of
      None \<Rightarrow> \<not> list_all (parents_in_range xs) xs
    | Some s' \<Rightarrow> s' = map (all_ancestors_survive xs survives) [0 ..< length xs]"
  using assms
proof (induction xs s rule: survival_loop.induct)
  case (1 xs s)
  note pass = survival_pass_spec [OF 1(2,3) subset_refl, of False]
  show ?case
  proof (cases "survival_pass xs xs (s, False)")
    case None
    with pass show ?thesis by (simp add: survival_loop.simps [of xs s])
  next
    case (Some state)
    obtain s' changed where state: "state = (s', changed)" by (cases state)
    show ?thesis
    proof (cases changed)
      case True
      with Some state have "survival_loop xs s = survival_loop xs s'" by (simp add: survival_loop.simps [of xs s])
      moreover have "drops_sound xs survives s'" using pass Some state by simp
      ultimately show ?thesis using 1(1) [OF Some state [symmetric] True 1(2)] by simp
    next
      case False
      with Some state have "survival_loop xs s = Some s'" by (simp add: survival_loop.simps [of xs s])
      with pass Some state False closed_survivors [OF 1(3,2)] show ?thesis by auto
    qed
  qed
qed

text \<open>
  C26. An expansion survives exactly if all of its ancestors along the three parent relations exist
  and their written invocations survive.  Asking for the survival of the expansions always ends, and
  fails only if an id is not the position of its node, a written unit is unknown, or a parent is out
  of range or the node itself.
\<close>

theorem expansion_source_survival_exact:
  "case expansion_source_survival xs survives of
      None \<Rightarrow> \<not> (dense_by x_id xs \<and> list_all (\<lambda>node. unit_outcome survives node \<noteq> None) xs
        \<and> list_all (parents_in_range xs) xs)
    | Some s \<Rightarrow> s = map (all_ancestors_survive xs survives) [0 ..< length xs]"
proof (cases "initial_survival xs survives")
  case None
  then have "expansion_source_survival xs survives = None" by (simp add: expansion_source_survival_def)
  with None [unfolded initial_survival_None] show ?thesis by auto
next
  case (Some s)
  then have dense: "dense_by x_id xs" by (auto simp: initial_survival_Some dense_by_nth)
  have "drops_sound xs survives s"
    using Some by (auto simp: initial_survival_Some drops_sound_def all_ancestors_survive_def intro: ancestor_self)
  from survival_loop_spec [OF dense this] Some show ?thesis
    by (auto simp: expansion_source_survival_def split: option.splits)
qed

section \<open>Acyclicity\<close>

definition parent_steps :: "expansion_node list \<Rightarrow> (expansion_node \<Rightarrow> expansion_id option) \<Rightarrow> expansion_id rel" where
  "parent_steps xs relation = {(i, p). i < length xs \<and> relation (xs ! i) = Some p}"

lemma chain_on_cycle:
  "current = Some i \<Longrightarrow> (i, i) \<in> (parent_steps xs relation)\<^sup>+ \<Longrightarrow> \<not> chain_acyclic xs relation current seen"
proof (induction xs relation current seen arbitrary: i rule: chain_acyclic.induct)
  case (1 xs relation current seen)
  from tranclD [OF 1(3)] obtain p where p: "(i, p) \<in> parent_steps xs relation" "(p, i) \<in> (parent_steps xs relation)\<^sup>*"
    by blast
  have "(p, p) \<in> (parent_steps xs relation)\<^sup>+" by (rule rtrancl_into_trancl1 [OF p(2,1)])
  moreover have next_p: "(case get_at xs i of None \<Rightarrow> None | Some node \<Rightarrow> relation node) = Some p"
    using p(1) by (simp add: parent_steps_def get_at_def)
  ultimately have "i \<notin> seen \<Longrightarrow> \<not> chain_acyclic xs relation (Some p) (insert i seen)"
    using 1(1) [OF 1(2), of p] by simp
  with next_p 1(2) show ?case by (subst chain_acyclic.simps) simp
qed

lemma chain_finds_cycle:
  assumes "\<not> chain_acyclic xs relation current seen"
    and "\<forall>j \<in> seen. \<exists>i. current = Some i \<and> (j, i) \<in> (parent_steps xs relation)\<^sup>+ \<or> current = None"
  shows "\<not> acyclic (parent_steps xs relation)"
  using assms
proof (induction xs relation current seen rule: chain_acyclic.induct)
  case (1 xs relation current seen)
  let ?r = "parent_steps xs relation"
  show ?case
  proof (cases current)
    case None
    with 1(2) show ?thesis by (simp add: chain_acyclic.simps)
  next
    case (Some i)
    show ?thesis
    proof (cases "i \<in> seen")
      case True
      with 1(3) Some have "(i, i) \<in> ?r\<^sup>+" by auto
      then show ?thesis by (auto simp: acyclic_def)
    next
      case False
      let ?next = "case get_at xs i of None \<Rightarrow> None | Some node \<Rightarrow> relation node"
      have step: "\<not> chain_acyclic xs relation ?next (insert i seen)"
        using 1(2) Some False by (subst (asm) chain_acyclic.simps) simp
      have "(j, p) \<in> ?r\<^sup>+" if "j \<in> insert i seen" "?next = Some p" for j p
      proof -
        have "(i, p) \<in> ?r" using that(2) by (auto simp: parent_steps_def get_at_def split: if_splits)
        with that(1) 1(3) Some show ?thesis by (auto intro: trancl.intros)
      qed
      then have "\<forall>j \<in> insert i seen. \<exists>p. ?next = Some p \<and> (j, p) \<in> ?r\<^sup>+ \<or> ?next = None"
        by (cases ?next) auto
      with 1(1) [OF Some False step] show ?thesis by blast
    qed
  qed
qed

lemma acyclic_relations_iff:
  assumes "dense_by x_id xs"
  shows "expansion_relations_are_acyclic xs \<longleftrightarrow>
    acyclic (parent_steps xs discovered_in) \<and> acyclic (parent_steps xs semantic_parent)
    \<and> acyclic (parent_steps xs source_call_parent)"
proof -
  have "list_all (\<lambda>start. chain_acyclic xs relation (Some (x_id start)) {}) xs \<longleftrightarrow> acyclic (parent_steps xs relation)"
    for relation
  proof
    assume all: "list_all (\<lambda>start. chain_acyclic xs relation (Some (x_id start)) {}) xs"
    show "acyclic (parent_steps xs relation)"
    proof (rule acyclicI, rule allI, rule notI)
      fix i
      assume i: "(i, i) \<in> (parent_steps xs relation)\<^sup>+"
      from tranclD [OF i] have "i < length xs" by (auto simp: parent_steps_def)
      with assms all have "chain_acyclic xs relation (Some i) {}" by (auto simp: list_all_length dense_by_nth)
      with chain_on_cycle [OF refl i] show False by blast
    qed
  next
    assume "acyclic (parent_steps xs relation)"
    then have "chain_acyclic xs relation (Some (x_id start)) {}" for start
      using chain_finds_cycle [of xs relation "Some (x_id start)" "{}"] by blast
    then show "list_all (\<lambda>start. chain_acyclic xs relation (Some (x_id start)) {}) xs"
      unfolding list_all_iff by blast
  qed
  then show ?thesis by (simp add: expansion_relations_are_acyclic_def)
qed

lemma acyclic_relations:
  "dense_by x_id xs \<Longrightarrow> expansion_relations_are_acyclic xs \<Longrightarrow>
     acyclic (parent_steps xs discovered_in) \<and> acyclic (parent_steps xs semantic_parent)
     \<and> acyclic (parent_steps xs source_call_parent)"
  by (simp add: acyclic_relations_iff)

text \<open>
  The acyclicity test, which follows each relation from every expansion and always ends, accepts
  exactly expansions none of whose three parent relations has a cycle.
\<close>

theorem expansion_relations_are_acyclic_exact:
  assumes "dense_by x_id xs"
  shows "expansion_relations_are_acyclic xs \<longleftrightarrow>
    acyclic (parent_steps xs discovered_in) \<and> acyclic (parent_steps xs semantic_parent)
    \<and> acyclic (parent_steps xs source_call_parent)"
  using assms by (rule acyclic_relations_iff)

section \<open>A sample\<close>

definition sample_expansion :: "expansion_id \<Rightarrow> expansion_id option \<Rightarrow> expansion_node" where
  "sample_expansion i parent =
     \<lparr>x_id = i, x_key = [], x_kind = AstPass StandardImports, x_fragment = None, x_implementation = None,
      discovered_in = parent, semantic_parent = None, source_call_parent = None,
      written_invocation = None, source_owner = None, macro_definition = None\<rparr>"

theorem expansion_relations_are_acyclic_exact_witness:
  "acyclic (parent_steps [sample_expansion 0 None, sample_expansion 1 (Some 0)] discovered_in)
   \<and> \<not> expansion_relations_are_acyclic [sample_expansion 0 (Some 1), sample_expansion 1 (Some 0)]"
proof
  let ?xs = "[sample_expansion 0 None, sample_expansion 1 (Some 0)]"
  have "dense_by x_id ?xs" by (simp add: dense_by_def sample_expansion_def)
  moreover have "expansion_relations_are_acyclic ?xs"
    by (simp add: expansion_relations_are_acyclic_def chain_acyclic.simps get_at_def sample_expansion_def)
  ultimately show "acyclic (parent_steps ?xs discovered_in)"
    using expansion_relations_are_acyclic_exact by blast
  show "\<not> expansion_relations_are_acyclic [sample_expansion 0 (Some 1), sample_expansion 1 (Some 0)]"
    by (simp add: expansion_relations_are_acyclic_def chain_acyclic.simps get_at_def sample_expansion_def)
qed

end
