(* ===== verification/Proof_Checks.thy ===== *)
theory Proof_Checks
  imports Graph_Data
begin

text \<open>
  The validation of proof nodes in \<open>src/dependency_graph.rs\<close>: the payload of each node agrees with
  its key and refers to proofs of the right kind, and the proof relation edges of a node are exactly
  the ones its payload describes, in order.
\<close>

section \<open>Nodes\<close>

definition obligation_kind :: "proof_node_kind \<Rightarrow> bool" where
  "obligation_kind k = (case k of Obligation _ \<Rightarrow> True | _ \<Rightarrow> False)"

definition projection_kind :: "proof_node_kind \<Rightarrow> bool" where
  "projection_kind k = (case k of Projection _ \<Rightarrow> True | _ \<Rightarrow> False)"

definition cycle_kind :: "proof_node_kind \<Rightarrow> bool" where
  "cycle_kind k = (case k of Cycle _ _ \<Rightarrow> True | _ \<Rightarrow> False)"

definition invalid_proof_ids :: "proof_id list \<Rightarrow> proof_node list \<Rightarrow> (proof_node_kind \<Rightarrow> bool) \<Rightarrow> bool" where
  "invalid_proof_ids ids proofs expected =
     list_ex (\<lambda>i. case get_at proofs i of None \<Rightarrow> True | Some node \<Rightarrow> \<not> expected (proof_kind node)) ids"

definition invalid_optional_proof_ids ::
  "proof_id list option \<Rightarrow> proof_node list \<Rightarrow> (proof_node_kind \<Rightarrow> bool) \<Rightarrow> bool" where
  "invalid_optional_proof_ids ids proofs expected =
     (case ids of None \<Rightarrow> False | Some is \<Rightarrow> invalid_proof_ids is proofs expected)"

definition invalid_selection_source :: "selection_source \<Rightarrow> definition_graph \<Rightarrow> bool" where
  "invalid_selection_source source definitions \<longleftrightarrow>
     (case sel_kind source of
        SelectUserDefined \<Rightarrow> sel_implementation source = None \<or> sel_builtin_trait source \<noteq> None
      | SelectParameter \<Rightarrow> sel_implementation source \<noteq> None \<or> sel_builtin_trait source \<noteq> None
      | SelectBuiltin \<Rightarrow> sel_implementation source \<noteq> None \<or> sel_builtin_trait source = None)
     \<or> invalid_definition_target (sel_implementation source) definitions
     \<or> (case sel_builtin_trait source of
          None \<Rightarrow> False
        | Some builtin \<Rightarrow> invalid_definition_target (Some (builtin_target builtin)) definitions)"

definition invalid_trace_payload :: "solver_trace \<Rightarrow> proof_node list \<Rightarrow> bool" where
  "invalid_trace_payload trace proofs \<longleftrightarrow>
     \<not> List.member (trace_obligations trace) (trace_root trace)
     \<or> invalid_proof_ids [trace_root trace] proofs obligation_kind
     \<or> invalid_proof_ids (trace_obligations trace) proofs obligation_kind
     \<or> invalid_proof_ids (trace_trait_selections trace) proofs obligation_kind
     \<or> list_ex (\<lambda>i. \<not> List.member (trace_obligations trace) i) (trace_trait_selections trace)
     \<or> invalid_proof_ids (trace_projections trace) proofs projection_kind
     \<or> invalid_proof_ids (trace_fulfillments trace) proofs obligation_kind
     \<or> list_ex (\<lambda>i. \<not> List.member (trace_obligations trace) i) (trace_fulfillments trace)
     \<or> invalid_proof_ids (trace_cycles trace) proofs cycle_kind"

definition invalid_optional_trace :: "solver_trace option \<Rightarrow> proof_node list \<Rightarrow> bool" where
  "invalid_optional_trace trace proofs =
     (case trace of None \<Rightarrow> False | Some t \<Rightarrow> invalid_trace_payload t proofs)"

definition associated_selection_matches :: "proof_node option \<Rightarrow> selection_source_kind
    \<Rightarrow> definition_target option \<Rightarrow> specialization_node option \<Rightarrow> specialization_node option
    \<Rightarrow> specialization_node list \<Rightarrow> bool" where
  "associated_selection_matches selection source_kind leaf defining finalizing ancestors =
     (case selection of
        None \<Rightarrow> False
      | Some node \<Rightarrow>
          (case proof_kind node of
             Obligation ob \<Rightarrow>
               (case ob_source ob of
                  None \<Rightarrow> False
                | Some source \<Rightarrow>
                    if sel_kind source \<noteq> source_kind then False
                    else
                      (case source_kind of
                         SelectUserDefined \<Rightarrow>
                           (case (sel_implementation source, leaf, defining) of
                              (Some implementation, Some _, Some def_node) \<Rightarrow>
                                ancestors \<noteq> []
                                \<and> sel_builtin_trait source = None
                                \<and> sn_kind (hd ancestors) = SpecializationImpl
                                \<and> sn_target (hd ancestors) = implementation
                                \<and> sn_kind (last ancestors) = SpecializationTrait
                                \<and> List.member ancestors def_node
                                \<and> (case finalizing of None \<Rightarrow> True | Some n \<Rightarrow> List.member ancestors n)
                            | _ \<Rightarrow> False)
                       | SelectParameter \<Rightarrow>
                           sel_implementation source = None \<and> sel_builtin_trait source = None
                           \<and> leaf = None \<and> defining = None \<and> finalizing = None \<and> ancestors = []
                       | SelectBuiltin \<Rightarrow>
                           sel_implementation source = None \<and> sel_builtin_trait source \<noteq> None
                           \<and> leaf = None \<and> defining = None \<and> finalizing = None \<and> ancestors = []))
           | _ \<Rightarrow> False))"

text \<open>\<open>matches!(id in range, kind)\<close> for one referenced proof.\<close>

definition not_obligation :: "proof_node list \<Rightarrow> proof_id \<Rightarrow> bool" where
  "not_obligation proofs i \<longleftrightarrow> i \<ge> length proofs \<or> \<not> obligation_kind (proof_kind (proofs ! i))"

fun invalid_proof_payload ::
  "proof_node_kind \<Rightarrow> proof_key \<Rightarrow> proof_node list \<Rightarrow> definition_graph \<Rightarrow> bool" where
  "invalid_proof_payload (Obligation ob) key proofs definitions \<longleftrightarrow>
     key \<noteq> KeyObligation (ob_environment ob) (ob_predicate ob)
     \<or> (case ob_source ob of None \<Rightarrow> False | Some source \<Rightarrow> invalid_selection_source source definitions)
     \<or> (ob_selection_nested ob \<noteq> None) \<noteq> (ob_source ob \<noteq> None)
     \<or> invalid_optional_proof_ids (ob_selection_nested ob) proofs obligation_kind
     \<or> invalid_optional_proof_ids (ob_fulfillment_nested ob) proofs obligation_kind
     \<or> invalid_optional_trace (ob_query_trace ob) proofs"
| "invalid_proof_payload (Projection pr) key proofs definitions \<longleftrightarrow>
     key \<noteq> KeyProjection (pr_environment pr) (pr_alias pr)
     \<or> (case pr_selected_trait pr of None \<Rightarrow> False | Some i \<Rightarrow> not_obligation proofs i)
     \<or> (pr_source_kind pr = ProjectedSelectedUserDefined) \<noteq> (pr_selected_impl pr \<noteq> None)
     \<or> (pr_source_kind pr \<in> {ProjectedSelectedUserDefined, ProjectedSelectedParameter, ProjectedSelectedBuiltin})
         \<noteq> (pr_selected_trait pr \<noteq> None)
     \<or> (pr_source_kind pr = ProjectedSelectedUserDefined) \<noteq> (pr_selected_item pr \<noteq> None)
     \<or> invalid_definition_target (pr_selected_impl pr) definitions
     \<or> invalid_definition_target (pr_selected_item pr) definitions
     \<or> pr_owners pr = []
     \<or> invalid_proof_ids (pr_owners pr) proofs obligation_kind
     \<or> invalid_proof_ids (pr_nested pr) proofs obligation_kind
     \<or> (pr_query_trace pr \<noteq> None) \<noteq> (pr_normalized_result pr \<noteq> None)
     \<or> invalid_optional_trace (pr_query_trace pr) proofs"
| "invalid_proof_payload (AssociatedItem as) key proofs definitions \<longleftrightarrow>
     key \<noteq> KeyAssociatedItem (as_request as) (as_raw_instance as) (as_codegen_instance as)
     \<or> as_selection as \<ge> length proofs
     \<or> \<not> associated_selection_matches (get_at proofs (as_selection as)) (as_source_kind as) (as_leaf as)
         (as_defining_node as) (as_finalizing_node as) (as_ancestor_path as)
     \<or> invalid_definition_target (as_leaf as) definitions
     \<or> invalid_definition_target (map_option sn_target (as_defining_node as)) definitions
     \<or> invalid_definition_target (map_option sn_target (as_finalizing_node as)) definitions
     \<or> list_ex (\<lambda>node. invalid_definition_target (Some (sn_target node)) definitions) (as_ancestor_path as)"
| "invalid_proof_payload (Cycle members coinductive) key proofs definitions \<longleftrightarrow>
     members = []
     \<or> list_ex (not_obligation proofs) members
     \<or> key \<noteq> KeyCycle (map (\<lambda>i. proof_key (proofs ! i)) members) coinductive"

definition invalid_proof_node :: "proof_node list \<Rightarrow> definition_graph \<Rightarrow> proof_node \<Rightarrow> bool" where
  "invalid_proof_node proofs definitions node =
     invalid_proof_payload (proof_kind node) (proof_key node) proofs definitions"

section \<open>Relation edges\<close>

definition relation_slot :: "dependency_edge \<Rightarrow> (proof_relation_kind \<times> nat) option" where
  "relation_slot edge = (case e_kind edge of ProofRelation r n \<Rightarrow> Some (r, n) | _ \<Rightarrow> None)"

fun slots_unique :: "dependency_edge list \<Rightarrow> (graph_node \<times> proof_relation_kind \<times> nat) set \<Rightarrow> bool" where
  "slots_unique [] slots = True"
| "slots_unique (edge # edges) slots =
     (case relation_slot edge of
        None \<Rightarrow> slots_unique edges slots
      | Some slot \<Rightarrow>
          (e_from edge, slot) \<notin> slots \<and> slots_unique edges (insert (e_from edge, slot) slots))"

definition proof_relation_slots_are_unique :: "dependency_edge list \<Rightarrow> bool" where
  "proof_relation_slots_are_unique edges = slots_unique edges {}"

text \<open>The groups of relation edges, each sorted by its ordinals.\<close>

definition relation_entries :: "dependency_edge list \<Rightarrow> ((graph_node \<times> proof_relation_kind) \<times> nat \<times> graph_node) list" where
  "relation_entries edges =
     List.map_filter (\<lambda>edge. map_option (\<lambda>(r, n). ((e_from edge, r), n, e_to edge)) (relation_slot edge)) edges"

definition relation_targets :: "dependency_edge list \<Rightarrow> ((graph_node \<times> proof_relation_kind) \<times> (nat \<times> graph_node) list) list" where
  "relation_targets edges =
     map (\<lambda>(k, targets). (k, sort_key fst targets))
       (group_entries fst (\<lambda>entry old. (case old of None \<Rightarrow> [] | Some targets \<Rightarrow> targets) @ [snd entry])
         (relation_entries edges))"

definition proof_nodes :: "proof_id list \<Rightarrow> graph_node list" where
  "proof_nodes = map NodeProof"

definition optional_definition :: "definition_target option \<Rightarrow> graph_node list" where
  "optional_definition t = (case t of None \<Rightarrow> [] | Some target \<Rightarrow> [definition_node target])"

fun insert_trace_expectations ::
  "(proof_relation_kind \<Rightarrow> graph_node list) \<Rightarrow> solver_trace option \<Rightarrow> proof_relation_kind \<Rightarrow> graph_node list" where
  "insert_trace_expectations expected None = expected"
| "insert_trace_expectations expected (Some trace) =
     expected(RelatesQueryTraceRoot := [NodeProof (trace_root trace)],
       RelatesTraceObligation := proof_nodes (trace_obligations trace),
       RelatesTraceTraitSelection := proof_nodes (trace_trait_selections trace),
       RelatesTraceProjection := proof_nodes (trace_projections trace),
       RelatesTraceFulfillment := proof_nodes (trace_fulfillments trace),
       RelatesTraceCycle := proof_nodes (trace_cycles trace))"

definition no_relations :: "proof_relation_kind \<Rightarrow> graph_node list" where
  "no_relations = (\<lambda>relation. [])"

definition builtin_expectation ::
  "(proof_relation_kind \<Rightarrow> graph_node list) \<Rightarrow> builtin_trait_target option \<Rightarrow> proof_relation_kind \<Rightarrow> graph_node list" where
  "builtin_expectation expected builtin =
     (case builtin of
        None \<Rightarrow> expected
      | Some b \<Rightarrow>
          expected((case builtin_kind b of
              BuiltinTraitDefinition \<Rightarrow> RelatesTraitDefinition
            | BuiltinAutoTrait \<Rightarrow> RelatesAutoTraitProof) := [definition_node (builtin_target b)]))"

fun expected_relations :: "proof_node_kind \<Rightarrow> proof_relation_kind \<Rightarrow> graph_node list" where
  "expected_relations (Obligation ob) =
     insert_trace_expectations
       (builtin_expectation
         (no_relations
           (RelatesSelectedImpl := (case ob_source ob of
                None \<Rightarrow> [] | Some source \<Rightarrow> optional_definition (sel_implementation source)),
            RelatesTraitSelectionNested := (case ob_selection_nested ob of None \<Rightarrow> [] | Some is \<Rightarrow> proof_nodes is),
            RelatesFulfillmentNested := (case ob_fulfillment_nested ob of None \<Rightarrow> [] | Some is \<Rightarrow> proof_nodes is)))
         (case ob_source ob of None \<Rightarrow> None | Some source \<Rightarrow> sel_builtin_trait source))
       (ob_query_trace ob)"
| "expected_relations (Projection pr) =
     insert_trace_expectations
       (no_relations
         (RelatesProjectionOwner := proof_nodes (pr_owners pr),
          RelatesProjectionSelectedTrait := (case pr_selected_trait pr of None \<Rightarrow> [] | Some i \<Rightarrow> [NodeProof i]),
          RelatesProjectionNested := proof_nodes (pr_nested pr),
          RelatesSelectedImpl := optional_definition (pr_selected_impl pr),
          RelatesSelectedTraitItem := optional_definition (pr_selected_item pr)))
       (pr_query_trace pr)"
| "expected_relations (AssociatedItem as) =
     no_relations
       (RelatesAssociatedSelection := [NodeProof (as_selection as)],
        RelatesAssociatedLeaf := optional_definition (as_leaf as),
        RelatesAssociatedDefining := optional_definition (map_option sn_target (as_defining_node as)),
        RelatesAssociatedFinalizing := optional_definition (map_option sn_target (as_finalizing_node as)),
        RelatesSpecializationAncestor := map (\<lambda>node. definition_node (sn_target node)) (as_ancestor_path as))"
| "expected_relations (Cycle members coinductive) =
     no_relations(RelatesCycleMember := proof_nodes members)"

definition valid_proof_relations :: "proof_node list \<Rightarrow> dependency_edge list \<Rightarrow> bool" where
  "valid_proof_relations proofs edges \<longleftrightarrow>
     (let groups = relation_targets edges
      in list_all (\<lambda>(k, targets). list_all (\<lambda>(expected, n, _). n = expected) (enumerate 0 targets)) groups
         \<and> list_all (\<lambda>proof.
              list_all (\<lambda>relation.
                map snd (case map_of groups (NodeProof (proof_id proof), relation) of None \<Rightarrow> [] | Some v \<Rightarrow> v)
                  = expected_relations (proof_kind proof) relation)
                proof_relation_kind_order) proofs)"

section \<open>The edges a payload describes\<close>

lemma fold_append_entries:
  "fold (\<lambda>e v. Some ((case v of None \<Rightarrow> [] | Some ts \<Rightarrow> ts) @ [snd e])) es old
     = (if es = [] then old else Some ((case old of None \<Rightarrow> [] | Some ts \<Rightarrow> ts) @ map snd es))"
  by (induction es arbitrary: old) (auto split: option.splits)

lemma map_of_map_snd: "map_of (map (\<lambda>(k, v). (k, f v)) m) k = map_option f (map_of m k)"
  by (induction m) auto

lemma relation_targets_map_of:
  "map_of (relation_targets edges) k =
     (let found = filter (\<lambda>e. fst e = k) (relation_entries edges)
      in if found = [] then None else Some (sort_key fst (map snd found)))"
  unfolding relation_targets_def map_of_map_snd group_entries_map_of fold_append_entries
  by (auto simp: Let_def)

lemma relation_slot_Some: "relation_slot e = Some (r, n) \<longleftrightarrow> e_kind e = ProofRelation r n"
  by (cases "e_kind e") (auto simp: relation_slot_def)

lemma relation_entries_set:
  "((s, r), n, t) \<in> set (relation_entries edges) \<longleftrightarrow>
     (\<exists>e \<in> set edges. e_from e = s \<and> e_kind e = ProofRelation r n \<and> e_to e = t)"
proof (induction edges)
  case (Cons e edges)
  show ?case
  proof (cases "relation_slot e")
    case None
    then have "e_kind e \<noteq> ProofRelation r n" using relation_slot_Some [of e r n] by simp
    with None Cons show ?thesis by (auto simp: relation_entries_def List.map_filter_simps)
  next
    case (Some slot)
    obtain r' n' where slot: "slot = (r', n')" by (cases slot)
    with Some have "e_kind e = ProofRelation r' n'" by (simp add: relation_slot_Some)
    with Some slot Cons show ?thesis by (auto simp: relation_entries_def List.map_filter_simps)
  qed
qed (simp add: relation_entries_def List.map_filter_simps)

definition relation_edges :: "dependency_edge list \<Rightarrow> proof_id \<Rightarrow> proof_relation_kind \<Rightarrow> (nat \<times> graph_node) set" where
  "relation_edges edges i r =
     (\<lambda>e. (case e_kind e of ProofRelation _ n \<Rightarrow> n | _ \<Rightarrow> 0, e_to e))
       ` {e \<in> set edges. e_from e = NodeProof i \<and> (\<exists>n. e_kind e = ProofRelation r n)}"

lemma relation_edges_entries:
  "relation_edges edges i r = snd ` {e \<in> set (relation_entries edges). fst e = (NodeProof i, r)}"
proof -
  have "(n, t) \<in> relation_edges edges i r
      \<longleftrightarrow> (n, t) \<in> snd ` {e \<in> set (relation_entries edges). fst e = (NodeProof i, r)}" for n t
  proof -
    have "(n, t) \<in> snd ` {e \<in> set (relation_entries edges). fst e = (NodeProof i, r)}
        \<longleftrightarrow> ((NodeProof i, r), n, t) \<in> set (relation_entries edges)"
      by (auto simp: image_iff)
    then show ?thesis by (auto simp: relation_edges_def relation_entries_set image_iff)
  qed
  then show ?thesis by auto
qed

lemma numbered_from:
  "list_all (\<lambda>(expected, n, _). n = expected) (enumerate k xs) \<longleftrightarrow> map fst xs = [k ..< k + length xs]"
proof (induction xs arbitrary: k)
  case (Cons x xs)
  have "[k ..< k + length (x # xs)] = k # [Suc k ..< Suc k + length xs]"
    by (subst upt_conv_Cons) simp_all
  with Cons [of "Suc k"] show ?case by (cases x) simp
qed simp

lemmas numbered_iff = numbered_from [of 0, unfolded add_0]

text \<open>
  C27. In an accepted graph the relation edges of a proof are the relations its payload lists: the
  edges of a relation are numbered from 0 without gaps, and edge \<open>n\<close> leads to the \<open>n\<close>-th reference.
\<close>

theorem valid_proof_relations_exact:
  assumes "valid_proof_relations proofs edges" and "proof \<in> set proofs"
  shows "relation_edges edges (proof_id proof) r
    = (\<lambda>n. (n, expected_relations (proof_kind proof) r ! n)) ` {..< length (expected_relations (proof_kind proof) r)}"
proof -
  let ?k = "(NodeProof (proof_id proof), r)"
  let ?found = "map snd (filter (\<lambda>e. fst e = ?k) (relation_entries edges))"
  let ?targets = "sort_key fst ?found" and ?expected = "expected_relations (proof_kind proof) r"
  have "set ?found = relation_edges edges (proof_id proof) r"
    by (simp add: relation_edges_entries)
  then have set_eq: "relation_edges edges (proof_id proof) r = set ?targets" by simp
  have "r \<in> set proof_relation_kind_order" by (simp add: proof_relation_kind_order_UNIV)
  with assms have "map snd (case map_of (relation_targets edges) ?k of None \<Rightarrow> [] | Some v \<Rightarrow> v) = ?expected"
    by (auto simp: valid_proof_relations_def Let_def list_all_iff)
  then have snds: "map snd ?targets = ?expected"
    unfolding relation_targets_map_of Let_def by (cases "filter (\<lambda>e. fst e = ?k) (relation_entries edges)") simp_all
  have fsts: "map fst ?targets = [0 ..< length ?targets]"
  proof (cases "?found = []")
    case False
    then have "map_of (relation_targets edges) ?k = Some ?targets" by (auto simp: relation_targets_map_of Let_def)
    then have "(?k, ?targets) \<in> set (relation_targets edges)" by (rule map_of_SomeD)
    with assms(1) have "list_all (\<lambda>(expected, n, _). n = expected) (enumerate 0 ?targets)"
      by (auto simp: valid_proof_relations_def Let_def list_all_iff)
    then show ?thesis by (rule iffD1 [OF numbered_iff])
  qed simp
  have len: "length ?targets = length ?expected" by (metis length_map snds)
  have nth: "?targets ! n = (n, ?expected ! n)" if n: "n < length ?targets" for n
  proof (rule prod_eqI)
    have "fst (?targets ! n) = map fst ?targets ! n" using n by (simp only: nth_map)
    also have "\<dots> = [0 ..< length ?targets] ! n" by (simp only: fsts)
    also have "\<dots> = n" using n by simp
    finally show "fst (?targets ! n) = fst (n, ?expected ! n)" by simp
    have "snd (?targets ! n) = map snd ?targets ! n" using n by (simp only: nth_map)
    also have "\<dots> = ?expected ! n" by (simp only: snds)
    finally show "snd (?targets ! n) = snd (n, ?expected ! n)" by simp
  qed
  have "set ?targets = (\<lambda>n. ?targets ! n) ` {..< length ?targets}"
    by (auto simp: set_conv_nth image_iff)
  also have "\<dots> = (\<lambda>n. (n, ?expected ! n)) ` {..< length ?expected}"
    unfolding len [symmetric] using nth by (intro image_cong) auto
  finally show ?thesis using set_eq by simp
qed


section \<open>A sample\<close>

text \<open>An obligation whose selection rests on itself, as in a coinductive cycle.\<close>

definition sample_obligation :: proof_node where
  "sample_obligation =
     \<lparr>proof_id = 0,
      proof_key = KeyObligation \<lparr>term_schema = 2, term_bytes = [1]\<rparr> \<lparr>term_schema = 2, term_bytes = [2]\<rparr>,
      proof_kind = Obligation \<lparr>ob_environment = \<lparr>term_schema = 2, term_bytes = [1]\<rparr>,
        ob_predicate = \<lparr>term_schema = 2, term_bytes = [2]\<rparr>, ob_source = None, ob_selection_nested = None,
        ob_fulfillment_nested = Some [0], ob_query_trace = None\<rparr>\<rparr>"

definition sample_relation :: dependency_edge where
  "sample_relation = \<lparr>e_from = NodeProof 0, e_to = NodeProof 0, e_kind = ProofRelation RelatesFulfillmentNested 0,
     e_sites = [], e_evidence = EvidenceCompiler\<rparr>"

theorem valid_proof_relations_exact_witness:
  "relation_edges [sample_relation] 0 RelatesFulfillmentNested = {(0, NodeProof 0)}"
proof -
  have "valid_proof_relations [sample_obligation] [sample_relation]"
    by (simp add: valid_proof_relations_def relation_targets_def relation_entries_def relation_slot_def
        sample_relation_def sample_obligation_def List.map_filter_simps group_entries_def
        proof_relation_kind_order_def no_relations_def builtin_expectation_def proof_nodes_def Let_def)
  from valid_proof_relations_exact [OF this, of sample_obligation RelatesFulfillmentNested] show ?thesis
    by (simp add: sample_obligation_def no_relations_def builtin_expectation_def proof_nodes_def lessThan_Suc)
qed

end
