(* ===== verification/Mono_Checks.thy ===== *)
theory Mono_Checks
  imports Graph_Data
begin

text \<open>
  The validation of monomorphic items in \<open>src/dependency_graph.rs\<close>: single nodes, the paths of
  allocations, the roots, what is reachable from them, and the agreement between the selections of
  associated items and the items they lead to.
\<close>

section \<open>Single nodes\<close>

definition valid_path_part :: "allocation_path_part \<Rightarrow> bool" where
  "valid_path_part part =
     (case (ap_relation part, ap_site part) of
        (AllocationReference, PathAllocationReference) \<Rightarrow> True
      | (AllocationReference, PathCompilerGenerated) \<Rightarrow> True
      | (ConstAllocation, PathSource _) \<Rightarrow> True
      | (ConstAllocation, PathExternalSource) \<Rightarrow> True
      | (ConstAllocation, PathCompilerGenerated) \<Rightarrow> True
      | _ \<Rightarrow> False)"

definition is_allocation :: "mono_key \<Rightarrow> bool" where
  "is_allocation key = (case key of Allocation _ \<Rightarrow> True | _ \<Rightarrow> False)"

definition invalid_mono_node :: "definition_graph \<Rightarrow> mono_node \<Rightarrow> bool" where
  "invalid_mono_node definitions node =
     (let target = materialized_definition node
      in if invalid_definition_target target definitions then True
         else if is_allocation (mono_key node) \<noteq> (allocation_observation node \<noteq> None) then True
         else
           (case mono_key node of
              Instance inst role \<Rightarrow>
                (case target of
                   None \<Rightarrow> True
                 | Some t \<Rightarrow> mi_definition inst \<noteq> definition_reference_key_of definitions t)
            | Static definition \<Rightarrow>
                (case target of
                   None \<Rightarrow> True
                 | Some t \<Rightarrow> definition_reference_key_of definitions t \<noteq> ReferenceLocal definition)
            | GlobalAsm definition \<Rightarrow>
                (case target of
                   Some (Local i) \<Rightarrow>
                     (case get_at (dg_definitions definitions) i of
                        None \<Rightarrow> True
                      | Some materialized \<Rightarrow>
                          def_kind materialized \<noteq> DefGlobalAsm \<or> def_key materialized \<noteq> definition)
                 | _ \<Rightarrow> True)
            | VTable _ _ \<Rightarrow> target \<noteq> None
            | Allocation allocation \<Rightarrow>
                target \<noteq> None \<or> alloc_path allocation = []
                \<or> list_ex (\<lambda>part. \<not> valid_path_part part) (alloc_path allocation)))"

definition global_assembly_nodes_match_definitions :: "definition_graph \<Rightarrow> mono_node list \<Rightarrow> bool" where
  "global_assembly_nodes_match_definitions definitions monos \<longleftrightarrow>
     def_key ` set (filter (\<lambda>d. def_kind d = DefGlobalAsm) (dg_definitions definitions))
       = set (List.map_filter (\<lambda>node. case mono_key node of GlobalAsm d \<Rightarrow> Some d | _ \<Rightarrow> None) monos)"

section \<open>Allocation paths\<close>

fun key_matches_allocation_root :: "mono_key \<Rightarrow> allocation_root_key \<Rightarrow> bool" where
  "key_matches_allocation_root (Instance inst role) (RootInstance root_inst root_role) =
     (inst = root_inst \<and> role = root_role)"
| "key_matches_allocation_root (Static definition) (RootStatic root_definition) = (definition = root_definition)"
| "key_matches_allocation_root (VTable concrete trait) (RootVTable root_concrete root_trait) =
     (concrete = root_concrete \<and> trait = root_trait)"
| "key_matches_allocation_root _ _ = False"

fun allocation_site_matches :: "allocation_path_site \<Rightarrow> observation_site \<Rightarrow> bool" where
  "allocation_site_matches (PathSource expected) (SourceSite actual) = (expected = actual)"
| "allocation_site_matches PathExternalSource ExternalSourceSite = True"
| "allocation_site_matches PathAllocationReference (AllocationOffset _) = True"
| "allocation_site_matches PathCompilerGenerated CompilerGeneratedSite = True"
| "allocation_site_matches _ _ = False"

definition allocation_path_site_of :: "mono_dependency_kind \<Rightarrow> observation_site \<Rightarrow> allocation_path_site option" where
  "allocation_path_site_of relation site =
     (case (relation, site) of
        (ConstAllocation, SourceSite r) \<Rightarrow> Some (PathSource r)
      | (ConstAllocation, ExternalSourceSite) \<Rightarrow> Some PathExternalSource
      | (ConstAllocation, CompilerGeneratedSite) \<Rightarrow> Some PathCompilerGenerated
      | (AllocationReference, CompilerGeneratedSite) \<Rightarrow> Some PathCompilerGenerated
      | (AllocationReference, AllocationOffset _) \<Rightarrow> Some PathAllocationReference
      | _ \<Rightarrow> None)"

type_synonym allocation_role = "mono_id \<times> mono_dependency_kind \<times> mono_collection \<times> allocation_path_site"

text \<open>The nodes whose allocation, or whose own key, is one step above an allocation.\<close>

definition allocation_parent :: "allocation_key \<Rightarrow> allocation_path_part list \<Rightarrow> mono_node \<Rightarrow> bool" where
  "allocation_parent allocation prefix_parts candidate =
     (case mono_key candidate of
        Allocation parent \<Rightarrow>
          prefix_parts \<noteq> [] \<and> alloc_root parent = alloc_root allocation \<and> alloc_path parent = prefix_parts
      | key \<Rightarrow> prefix_parts = [] \<and> key_matches_allocation_root key (alloc_root allocation))"

definition path_edges :: "dependency_edge list \<Rightarrow> mono_id \<Rightarrow> mono_id \<Rightarrow> allocation_path_part \<Rightarrow> dependency_edge list" where
  "path_edges edges parent child part =
     filter (\<lambda>edge. e_from edge = NodeMono parent \<and> e_to edge = NodeMono child
         \<and> e_kind edge = MonoDependency (ap_relation part) (ap_collection part)
         \<and> list_ex (allocation_site_matches (ap_site part)) (e_sites edge)) edges"

text \<open>The first loop; its result is the recorded ordinals by role, \<open>None\<close> an early \<open>false\<close>.\<close>

fun allocation_ordinals ::
  "mono_node list \<Rightarrow> dependency_edge list \<Rightarrow> mono_node list \<Rightarrow> (allocation_role \<times> nat) list option" where
  "allocation_ordinals monos edges [] = Some []"
| "allocation_ordinals monos edges (node # nodes) =
     (case mono_key node of
        Allocation allocation \<Rightarrow>
          (if alloc_path allocation = [] then None
           else
             let part = last (alloc_path allocation)
             in case filter (allocation_parent allocation (butlast (alloc_path allocation))) monos of
                  [parent] \<Rightarrow>
                    if length (path_edges edges (mono_id parent) (mono_id node) part) \<noteq> 1 then None
                    else map_option
                      ((#) ((mono_id parent, ap_relation part, ap_collection part, ap_site part), ap_ordinal part))
                      (allocation_ordinals monos edges nodes)
                | _ \<Rightarrow> None)
      | _ \<Rightarrow> allocation_ordinals monos edges nodes)"

definition leads_to_allocation :: "mono_node list \<Rightarrow> dependency_edge \<Rightarrow> bool" where
  "leads_to_allocation monos edge =
     (case e_to edge of NodeMono t \<Rightarrow> is_allocation (mono_key (monos ! t)) | _ \<Rightarrow> False)"

definition edge_roles :: "dependency_edge \<Rightarrow> allocation_role option list option" where
  "edge_roles edge =
     (case (e_kind edge, e_from edge) of
        (MonoDependency relation collection, NodeMono source) \<Rightarrow>
          Some (map (\<lambda>site. map_option (\<lambda>s. (source, relation, collection, s))
            (allocation_path_site_of relation site)) (e_sites edge))
      | _ \<Rightarrow> None)"

definition invalid_allocation_edge :: "mono_node list \<Rightarrow> dependency_edge \<Rightarrow> bool" where
  "invalid_allocation_edge monos edge \<longleftrightarrow>
     leads_to_allocation monos edge
     \<and> (case edge_roles edge of None \<Rightarrow> True | Some roles \<Rightarrow> list_ex (\<lambda>r. r = None) roles)"

text \<open>The allocations that edges of a role lead to.\<close>

definition allocation_targets :: "mono_node list \<Rightarrow> dependency_edge list \<Rightarrow> allocation_role \<Rightarrow> graph_node set" where
  "allocation_targets monos edges role =
     set (map e_to (filter (\<lambda>edge. leads_to_allocation monos edge
       \<and> (case edge_roles edge of None \<Rightarrow> False | Some roles \<Rightarrow> List.member roles (Some role))) edges))"

definition valid_allocation_paths :: "mono_node list \<Rightarrow> dependency_edge list \<Rightarrow> bool" where
  "valid_allocation_paths monos edges =
     (case allocation_ordinals monos edges monos of
        None \<Rightarrow> False
      | Some ordinals \<Rightarrow>
          if list_ex (invalid_allocation_edge monos) edges then False
          else list_all (\<lambda>role.
            let values = sort (map snd (filter (\<lambda>(r, _). r = role) ordinals));
                targets = allocation_targets monos edges role
            in list_all (\<lambda>(a, b). a \<noteq> b) (windows2 values)
               \<and> targets \<noteq> {} \<and> list_all (\<lambda>ordinal. ordinal < card targets) values)
            (map fst ordinals))"

section \<open>Roots\<close>

definition is_downstream_selection_candidate :: "definition_graph \<Rightarrow> definition_id \<Rightarrow> bool" where
  "is_downstream_selection_candidate definitions i =
     (case get_at (dg_definitions definitions) i of
        None \<Rightarrow> False
      | Some d \<Rightarrow>
          def_kind d \<in> {DefTrait, DefImpl}
          \<or> def_kind d \<in> {DefAssociatedType, DefAssociatedFunction, DefAssociatedConst}
            \<and> (case def_parent d of
                 None \<Rightarrow> False
               | Some p \<Rightarrow>
                   (case get_at (dg_definitions definitions) p of
                      None \<Rightarrow> False
                    | Some parent \<Rightarrow> def_kind parent \<in> {DefTrait, DefImpl})))"

definition mono_key_at :: "mono_node list \<Rightarrow> graph_node \<Rightarrow> mono_key option" where
  "mono_key_at monos node =
     (case node of NodeMono i \<Rightarrow> map_option mono_key (get_at monos i) | _ \<Rightarrow> None)"

definition local_callable :: "mono_key \<Rightarrow> bool" where
  "local_callable key =
     (case key of
        Instance inst Callable \<Rightarrow> (case mi_definition inst of ReferenceLocal _ \<Rightarrow> True | _ \<Rightarrow> False)
      | _ \<Rightarrow> False)"

definition callable :: "mono_key \<Rightarrow> bool" where
  "callable key = (case key of Instance _ Callable \<Rightarrow> True | _ \<Rightarrow> False)"

definition static_key :: "mono_key \<Rightarrow> bool" where
  "static_key key = (case key of Static _ \<Rightarrow> True | _ \<Rightarrow> False)"

definition global_asm_key :: "mono_key \<Rightarrow> bool" where
  "global_asm_key key = (case key of GlobalAsm _ \<Rightarrow> True | _ \<Rightarrow> False)"

definition key_satisfies :: "(mono_key \<Rightarrow> bool) \<Rightarrow> mono_key option \<Rightarrow> bool" where
  "key_satisfies p key = (case key of None \<Rightarrow> False | Some k \<Rightarrow> p k)"

definition native_link_root :: "definition_graph \<Rightarrow> definition_id \<Rightarrow> bool" where
  "native_link_root definitions i =
     (case get_at (dg_definitions definitions) i of
        None \<Rightarrow> False
      | Some d \<Rightarrow>
          (if def_kind d = DefForeignModule then True
           else if def_kind d \<in> {DefFunction, DefStatic} then
             (case def_parent d of
                None \<Rightarrow> False
              | Some p \<Rightarrow>
                  (case get_at (dg_definitions definitions) p of
                     None \<Rightarrow> False
                   | Some parent \<Rightarrow> def_kind parent = DefForeignModule))
           else False))"

definition valid_root :: "definition_graph \<Rightarrow> mono_node list \<Rightarrow> root_record \<Rightarrow> bool" where
  "valid_root definitions monos root =
     (let key = mono_key_at monos (root_node root)
      in case root_reason root of
           RootMain \<Rightarrow> key_satisfies local_callable key
         | RootExplicitEntry \<Rightarrow>
             (case root_node root of
                NodeDefinition d \<Rightarrow>
                  (case get_at (dg_definitions definitions) d of
                     None \<Rightarrow> False
                   | Some def \<Rightarrow> def_kind def \<in> {DefFunction, DefUse})
              | _ \<Rightarrow> key_satisfies (\<lambda>k. local_callable k \<or> static_key k) key)
         | RootDownstreamSelection \<Rightarrow>
             (case root_node root of
                NodeDefinition d \<Rightarrow> is_downstream_selection_candidate definitions d
              | _ \<Rightarrow> False)
         | RootStartInstance \<Rightarrow> key_satisfies callable key
         | RootUsedAttribute \<Rightarrow> key_satisfies static_key key
         | RootExternalSymbol \<Rightarrow> key_satisfies (\<lambda>k. callable k \<or> static_key k) key
         | RootNativeLink \<Rightarrow>
             (case root_node root of NodeDefinition d \<Rightarrow> native_link_root definitions d | _ \<Rightarrow> False)
         | RootGlobalAssembly \<Rightarrow> key_satisfies global_asm_key key)"

definition valid_roots :: "root_record list \<Rightarrow> definition_graph \<Rightarrow> mono_node list \<Rightarrow> bool" where
  "valid_roots roots definitions monos =
     (let reason_count = (\<lambda>reason. length (filter (\<lambda>root. root_reason root = reason) roots));
          global_asm_count = length (filter (\<lambda>node. global_asm_key (mono_key node)) monos)
      in if card (set roots) \<noteq> length roots then False
         else if reason_count RootMain > 1 \<or> reason_count RootStartInstance > 1
           \<or> reason_count RootMain \<noteq> reason_count RootStartInstance
           \<or> reason_count RootGlobalAssembly \<noteq> global_asm_count
         then False
         else list_all (valid_root definitions monos) roots)"

section \<open>Reachability\<close>

text \<open>
  Both searches pop the last element of their work list and go on with the new targets of its edges
  in order; \<open>steps\<close> lists the edges they may follow as pairs.  The work list has its last element
  first.
\<close>

definition push_target :: "nat \<Rightarrow> nat set \<times> nat list \<Rightarrow> nat set \<times> nat list" where
  "push_target target state =
     (case state of (reachable, work) \<Rightarrow>
        if target \<in> reachable then (reachable, work) else (insert target reachable, target # work))"

lemma fold_push_target:
  "\<exists>new. fold push_target ts (reachable, work) = (reachable \<union> set ts, new @ work)
     \<and> set new = set ts - reachable \<and> distinct new"
proof (induction ts arbitrary: reachable work)
  case (Cons t ts)
  show ?case
  proof (cases "t \<in> reachable")
    case True
    then have "fold push_target (t # ts) (reachable, work) = fold push_target ts (reachable, work)"
      "reachable \<union> set (t # ts) = reachable \<union> set ts" "set (t # ts) - reachable = set ts - reachable"
      by (auto simp: push_target_def)
    with Cons [of reachable work] show ?thesis by simp
  next
    case False
    from Cons [of "insert t reachable" "t # work"] obtain new where
      n: "fold push_target ts (insert t reachable, t # work) = (insert t reachable \<union> set ts, new @ t # work)"
      "set new = set ts - insert t reachable" "distinct new" by blast
    from False have "fold push_target (t # ts) (reachable, work) = (reachable \<union> set (t # ts), (new @ [t]) @ work)"
      using n(1) by (simp add: push_target_def)
    moreover have "set (new @ [t]) = set (t # ts) - reachable" using n(2) False by auto
    moreover have "distinct (new @ [t])" using n(2,3) by simp
    ultimately show ?thesis by blast
  qed
qed simp

function reach_loop :: "(nat \<times> nat) list \<Rightarrow> nat set \<Rightarrow> nat list \<Rightarrow> nat set" where
  "reach_loop steps reachable [] = reachable"
| "reach_loop steps reachable (i # work) =
     (case fold push_target (map snd (filter (\<lambda>(s, t). s = i) steps)) (reachable, work) of
        (reachable', work') \<Rightarrow> reach_loop steps reachable' work')"
  by pat_completeness auto
termination
proof (relation "measure (\<lambda>(steps, reachable, work). card (snd ` set steps - reachable) + length work)", goal_cases)
  case (2 steps reachable i work reachable' work')
  let ?ts = "map snd (filter (\<lambda>(s, t). s = i) steps)"
  from fold_push_target [of ?ts reachable work] 2 obtain new where
    n: "reachable' = reachable \<union> set ?ts" "work' = new @ work" "set new = set ?ts - reachable" "distinct new" by auto
  let ?u = "snd ` set steps"
  have "set new \<subseteq> ?u - reachable" using n(3) by auto
  then have "card (set new) \<le> card (?u - reachable)" by (rule card_mono [rotated]) simp
  moreover have "?u - reachable' = (?u - reachable) - set new" using n(1,3) by auto
  then have "card (?u - reachable') = card (?u - reachable) - card (set new)"
    using \<open>set new \<subseteq> ?u - reachable\<close> by (simp add: card_Diff_subset)
  moreover have "card (set new) = length new" using n(4) by (rule distinct_card)
  ultimately show ?case using n(2) by simp
qed simp

definition mono_steps :: "dependency_edge list \<Rightarrow> (mono_id \<times> mono_id) list" where
  "mono_steps edges =
     List.map_filter (\<lambda>edge. case (e_from edge, e_kind edge, e_to edge) of
         (NodeMono s, MonoDependency _ _, NodeMono t) \<Rightarrow> Some (s, t) | _ \<Rightarrow> None) edges"

definition proof_steps :: "dependency_edge list \<Rightarrow> (proof_id \<times> proof_id) list" where
  "proof_steps edges =
     List.map_filter (\<lambda>edge. case (e_from edge, e_kind edge, e_to edge) of
         (NodeProof s, ProofRelation _ _, NodeProof t) \<Rightarrow> Some (s, t) | _ \<Rightarrow> None) edges"

definition reachable_mono_nodes :: "mono_id list \<Rightarrow> dependency_edge list \<Rightarrow> mono_id set" where
  "reachable_mono_nodes roots edges = reach_loop (mono_steps edges) (set roots) (rev roots)"

definition selected_proofs :: "mono_id set \<Rightarrow> dependency_edge list \<Rightarrow> proof_id list" where
  "selected_proofs monos edges =
     List.map_filter (\<lambda>edge. case (e_from edge, e_kind edge, e_to edge) of
         (NodeMono s, SelectionProof _ _, NodeProof t) \<Rightarrow> if s \<in> monos then Some t else None
       | _ \<Rightarrow> None) edges"

definition reachable_proof_nodes :: "mono_id set \<Rightarrow> dependency_edge list \<Rightarrow> proof_id set" where
  "reachable_proof_nodes monos edges =
     (case fold push_target (selected_proofs monos edges) ({}, []) of
        (reachable, work) \<Rightarrow> reach_loop (proof_steps edges) reachable work)"

section \<open>Selections of associated items\<close>

definition selection_sites_match_mono ::
  "mono_dependency_kind \<Rightarrow> observation_site list \<Rightarrow> observation_site list \<Rightarrow> bool" where
  "selection_sites_match_mono relation proof_sites mono_sites =
     (if relation \<noteq> DirectCall then proof_sites = mono_sites
      else list_all (\<lambda>p. list_ex (\<lambda>m.
        case (p, m) of
          (SourceSite ps, SourceSite ms) \<Rightarrow> br_start ms \<le> br_start ps \<and> br_end ps \<le> br_end ms
        | _ \<Rightarrow> p = m) mono_sites) proof_sites)"

definition callable_instance :: "mono_instance_key \<Rightarrow> mono_key \<Rightarrow> bool" where
  "callable_instance inst key = (case key of Instance i Callable \<Rightarrow> i = inst | _ \<Rightarrow> False)"

definition source_selection_valid :: "mono_node list \<Rightarrow> mono_collection \<Rightarrow> observation_site list \<Rightarrow> mono_id
    \<Rightarrow> proof_node \<Rightarrow> bool" where
  "source_selection_valid monos collection sites source proof_node =
     (if collection \<noteq> Mentioned \<or> sites = []
        \<or> \<not> list_all (\<lambda>site. case site of SourceSite _ \<Rightarrow> True | ExternalSourceSite \<Rightarrow> True
             | CompilerGeneratedSite \<Rightarrow> True | _ \<Rightarrow> False) sites
        \<or> \<not> key_satisfies callable (map_option mono_key (get_at monos source))
      then False
      else case proof_kind proof_node of
             AssociatedItem as \<Rightarrow> as_raw_instance as = as_codegen_instance as
           | _ \<Rightarrow> True)"

definition matching_mono_edges :: "mono_node list \<Rightarrow> dependency_edge list \<Rightarrow> dependency_edge
    \<Rightarrow> mono_dependency_kind \<Rightarrow> mono_collection \<Rightarrow> mono_instance_key \<Rightarrow> dependency_edge list" where
  "matching_mono_edges monos edges proof_edge relation collection inst =
     filter (\<lambda>edge. e_from edge = e_from proof_edge \<and> e_kind edge = MonoDependency relation collection
         \<and> selection_sites_match_mono relation (e_sites proof_edge) (e_sites edge)
         \<and> (case e_to edge of NodeMono t \<Rightarrow> callable_instance inst (mono_key (monos ! t)) | _ \<Rightarrow> False)) edges"

definition valid_selection_join :: "proof_node list \<Rightarrow> mono_node list \<Rightarrow> dependency_edge list
    \<Rightarrow> dependency_edge \<Rightarrow> bool" where
  "valid_selection_join proofs monos edges proof_edge =
     (case e_kind proof_edge of
        SelectionProof relation collection \<Rightarrow>
          (case (e_to proof_edge, e_from proof_edge) of
             (NodeProof p, NodeMono source) \<Rightarrow>
               (case get_at proofs p of
                  None \<Rightarrow> False
                | Some proof_node \<Rightarrow>
                    if relation = SourceAssociatedItem
                    then source_selection_valid monos collection (e_sites proof_edge) source proof_node
                    else
                      (case proof_kind proof_node of
                         AssociatedItem as \<Rightarrow>
                           (let inst = as_codegen_instance as
                            in if relation = ConstAllocation
                               then mono_key (monos ! source) = Instance inst (ConstRole None)
                               else if relation \<notin> {DirectCall, FunctionPointer, InlineAsmSymbol, VTableMethod}
                               then False
                               else
                                 case matching_mono_edges monos edges proof_edge relation collection inst of
                                   [] \<Rightarrow>
                                     (if (case mi_definition inst of ReferenceExternal _ \<Rightarrow> True | _ \<Rightarrow> False)
                                         \<and> \<not> list_ex (\<lambda>node. callable_instance inst (mono_key node)) monos
                                      then True
                                      else as_leaf as = None \<and> as_source_kind as \<noteq> SelectUserDefined
                                        \<and> relation \<in> {DirectCall, VTableMethod})
                                 | [edge] \<Rightarrow>
                                     (case e_to edge of
                                        NodeMono t \<Rightarrow> callable_instance inst (mono_key (monos ! t))
                                      | _ \<Rightarrow> False)
                                 | _ \<Rightarrow> False)
                       | _ \<Rightarrow> True))
           | _ \<Rightarrow> False)
      | _ \<Rightarrow> True)"

definition valid_associated_item_selection_joins ::
  "proof_node list \<Rightarrow> mono_node list \<Rightarrow> dependency_edge list \<Rightarrow> bool" where
  "valid_associated_item_selection_joins proofs monos edges \<longleftrightarrow>
     list_all (valid_selection_join proofs monos edges) edges"

section \<open>The searches find everything\<close>

lemma reach_loop_rtrancl:
  assumes "set work \<subseteq> reachable" and "\<forall>i \<in> reachable - set work. \<forall>t. (i, t) \<in> set steps \<longrightarrow> t \<in> reachable"
  shows "reach_loop steps reachable work = (set steps)\<^sup>* `` reachable"
  using assms
proof (induction steps reachable work rule: reach_loop.induct)
  case (1 steps reachable)
  have "y \<in> reachable" if "(x, y) \<in> (set steps)\<^sup>*" "x \<in> reachable" for x y
    using that by induction (use 1(2) in auto)
  then show ?case by auto
next
  case (2 steps reachable i work)
  let ?ts = "map snd (filter (\<lambda>(s, t). s = i) steps)"
  from fold_push_target [of ?ts reachable work] obtain new where
    n: "fold push_target ?ts (reachable, work) = (reachable \<union> set ?ts, new @ work)"
      "set new = set ?ts - reachable" by blast
  have ts: "t \<in> set ?ts \<longleftrightarrow> (i, t) \<in> set steps" for t by force
  have "set (new @ work) \<subseteq> reachable \<union> set ?ts" using n(2) 2(2) by auto
  moreover have "\<forall>j \<in> (reachable \<union> set ?ts) - set (new @ work). \<forall>t. (j, t) \<in> set steps \<longrightarrow> t \<in> reachable \<union> set ?ts"
  proof (intro ballI allI impI)
    fix j t
    assume j: "j \<in> (reachable \<union> set ?ts) - set (new @ work)" and t: "(j, t) \<in> set steps"
    show "t \<in> reachable \<union> set ?ts"
    proof (cases "j = i")
      case True
      with t ts show ?thesis by blast
    next
      case False
      with j n(2) have "j \<in> reachable - set (i # work)" by auto
      with 2(3) t show ?thesis by blast
    qed
  qed
  ultimately have "reach_loop steps (reachable \<union> set ?ts) (new @ work) = (set steps)\<^sup>* `` (reachable \<union> set ?ts)"
    using 2(1) n(1) by simp
  moreover have "(set steps)\<^sup>* `` (reachable \<union> set ?ts) = (set steps)\<^sup>* `` reachable"
  proof -
    have "i \<in> reachable" using 2(2) by simp
    then have "set ?ts \<subseteq> (set steps)\<^sup>* `` reachable" using ts by blast
    then have "(set steps)\<^sup>* `` set ?ts \<subseteq> (set steps)\<^sup>* `` reachable"
      by (metis Image_mono rtrancl_idemp rtrancl_idemp_self_comp relcomp_Image subset_refl)
    then show ?thesis by auto
  qed
  ultimately show ?case using n(1) by simp
qed

lemma mono_steps_set:
  "(s, t) \<in> set (mono_steps edges) \<longleftrightarrow>
     (\<exists>e \<in> set edges. \<exists>r c. e_from e = NodeMono s \<and> e_kind e = MonoDependency r c \<and> e_to e = NodeMono t)"
proof (induction edges)
  case (Cons e edges)
  then show ?case
    by (cases "e_from e"; cases "e_kind e"; cases "e_to e")
       (auto simp: mono_steps_def List.map_filter_simps)
qed (simp add: mono_steps_def List.map_filter_simps)

lemma reachable_mono_nodes_rtrancl:
  "reachable_mono_nodes roots edges = (set (mono_steps edges))\<^sup>* `` set roots"
  unfolding reachable_mono_nodes_def by (rule reach_loop_rtrancl) auto

lemma reachable_proof_nodes_rtrancl:
  "reachable_proof_nodes monos edges = (set (proof_steps edges))\<^sup>* `` set (selected_proofs monos edges)"
proof -
  from fold_push_target [of "selected_proofs monos edges" "{}" "[]"] obtain new where
    n: "fold push_target (selected_proofs monos edges) ({}, []) = (set (selected_proofs monos edges), new)"
      "set new = set (selected_proofs monos edges)" by auto
  have "reach_loop (proof_steps edges) (set (selected_proofs monos edges)) new
      = (set (proof_steps edges))\<^sup>* `` set (selected_proofs monos edges)"
    by (rule reach_loop_rtrancl) (use n(2) in auto)
  with n(1) show ?thesis by (simp add: reachable_proof_nodes_def)
qed

text \<open>
  C28. The work list searches end and find exactly the items that dependency edges reach from the
  roots, and exactly the proofs that relation edges reach from the proofs selected by those items.
\<close>

theorem reachability_exact:
  "reachable_mono_nodes roots edges = (set (mono_steps edges))\<^sup>* `` set roots
   \<and> reachable_proof_nodes monos edges = (set (proof_steps edges))\<^sup>* `` set (selected_proofs monos edges)"
  using reachable_mono_nodes_rtrancl reachable_proof_nodes_rtrancl by auto

section \<open>Allocation paths lead from their root\<close>

lemma allocation_ordinals_parent:
  assumes "allocation_ordinals monos edges nodes \<noteq> None" and "node \<in> set nodes"
    and "mono_key node = Allocation allocation"
  shows "alloc_path allocation \<noteq> [] \<and> (\<exists>parent \<in> set monos.
    allocation_parent allocation (butlast (alloc_path allocation)) parent
    \<and> (mono_id parent, mono_id node) \<in> set (mono_steps edges))"
  using assms
proof (induction nodes)
  case (Cons n nodes)
  show ?case
  proof (cases "node = n")
    case True
    with Cons.prems have path: "alloc_path allocation \<noteq> []" by (auto split: if_splits)
    let ?part = "last (alloc_path allocation)"
    let ?parents = "filter (allocation_parent allocation (butlast (alloc_path allocation))) monos"
    from Cons.prems True path obtain parent where p: "?parents = [parent]"
      "length (path_edges edges (mono_id parent) (mono_id node) ?part) = 1"
      by (auto simp: Let_def split: list.splits if_splits)
    then have "parent \<in> set ?parents" by simp
    then have par: "parent \<in> set monos" "allocation_parent allocation (butlast (alloc_path allocation)) parent"
      by auto
    from p(2) obtain e where "e \<in> set (path_edges edges (mono_id parent) (mono_id node) ?part)"
      by (cases "path_edges edges (mono_id parent) (mono_id node) ?part") auto
    then have "(mono_id parent, mono_id node) \<in> set (mono_steps edges)"
      by (auto simp: path_edges_def mono_steps_set)
    with path par show ?thesis by blast
  next
    case False
    with Cons.prems have "allocation_ordinals monos edges nodes \<noteq> None"
      by (auto simp: Let_def split: mono_key.splits list.splits if_splits)
    with Cons.IH Cons.prems False show ?thesis by simp
  qed
qed simp

text \<open>
  C29. If the allocation paths are accepted, every allocation hangs from its root: some node has the
  key of the allocation's root, and dependency edges lead from it to the allocation in exactly as
  many steps as the path has parts.
\<close>

theorem valid_allocation_paths_rooted:
  assumes "valid_allocation_paths monos edges" and "node \<in> set monos"
    and "mono_key node = Allocation allocation"
  shows "\<exists>root \<in> set monos. key_matches_allocation_root (mono_key root) (alloc_root allocation)
    \<and> (mono_id root, mono_id node) \<in> set (mono_steps edges) ^^ length (alloc_path allocation)"
  using assms(2,3)
proof (induction "length (alloc_path allocation)" arbitrary: node allocation rule: less_induct)
  case less
  have "allocation_ordinals monos edges monos \<noteq> None"
    using assms(1) by (auto simp: valid_allocation_paths_def split: option.splits)
  from allocation_ordinals_parent [OF this less.prems] obtain parent where
    p: "alloc_path allocation \<noteq> []" "parent \<in> set monos"
      "allocation_parent allocation (butlast (alloc_path allocation)) parent"
      "(mono_id parent, mono_id node) \<in> set (mono_steps edges)" by blast
  then have len: "length (alloc_path allocation) = Suc (length (butlast (alloc_path allocation)))" by simp
  show ?case
  proof (cases "mono_key parent")
    case (Allocation above)
    with p(3) have above: "alloc_root above = alloc_root allocation"
      "alloc_path above = butlast (alloc_path allocation)" by (auto simp: allocation_parent_def)
    have short: "length (alloc_path above) < length (alloc_path allocation)" using len above(2) by simp
    from less.hyps [OF short p(2) Allocation] obtain root where
      r: "root \<in> set monos" "key_matches_allocation_root (mono_key root) (alloc_root allocation)"
        "(mono_id root, mono_id parent) \<in> set (mono_steps edges) ^^ length (butlast (alloc_path allocation))"
      unfolding above by blast
    from r(3) p(4) have "(mono_id root, mono_id node) \<in> set (mono_steps edges) ^^ length (alloc_path allocation)"
      unfolding len by auto
    with r(1,2) show ?thesis by blast
  next
    case (Instance inst role)
    then show ?thesis using p len by (intro bexI [of _ parent]) (auto simp: allocation_parent_def)
  next
    case (Static d)
    then show ?thesis using p len by (intro bexI [of _ parent]) (auto simp: allocation_parent_def)
  next
    case (GlobalAsm d)
    then show ?thesis using p by (simp add: allocation_parent_def)
  next
    case (VTable concrete trait)
    then show ?thesis using p len by (intro bexI [of _ parent]) (auto simp: allocation_parent_def)
  qed
qed


section \<open>A sample\<close>

text \<open>A vtable whose memory is one allocation.\<close>

definition sample_key_term :: canonical_term where
  "sample_key_term = \<lparr>term_schema = 2, term_bytes = []\<rparr>"

definition sample_part :: allocation_path_part where
  "sample_part = \<lparr>ap_relation = AllocationReference, ap_collection = Used,
     ap_site = PathCompilerGenerated, ap_ordinal = 0\<rparr>"

definition sample_allocation :: allocation_key where
  "sample_allocation = \<lparr>alloc_root = RootVTable sample_key_term None, alloc_path = [sample_part]\<rparr>"

definition sample_monos :: "mono_node list" where
  "sample_monos =
     [\<lparr>mono_id = 0, mono_key = VTable sample_key_term None, materialized_definition = None,
       allocation_observation = None\<rparr>,
      \<lparr>mono_id = 1, mono_key = Allocation sample_allocation, materialized_definition = None,
       allocation_observation = Some DescribesMemory\<rparr>]"

definition sample_allocation_edge :: dependency_edge where
  "sample_allocation_edge = \<lparr>e_from = NodeMono 0, e_to = NodeMono 1, e_kind = MonoDependency AllocationReference Used,
     e_sites = [CompilerGeneratedSite], e_evidence = EvidenceCompiler\<rparr>"

theorem valid_allocation_paths_rooted_witness:
  "\<exists>root \<in> set sample_monos. key_matches_allocation_root (mono_key root) (RootVTable sample_key_term None)
     \<and> (mono_id root, 1) \<in> set (mono_steps [sample_allocation_edge]) ^^ 1"
proof -
  have roles: "allocation_ordinals sample_monos [sample_allocation_edge] sample_monos
      = Some [((0, AllocationReference, Used, PathCompilerGenerated), 0)]"
    by (simp add: sample_monos_def sample_allocation_def sample_part_def allocation_parent_def
        path_edges_def sample_allocation_edge_def Let_def)
  have "leads_to_allocation sample_monos sample_allocation_edge"
    by (simp add: leads_to_allocation_def sample_allocation_edge_def sample_monos_def is_allocation_def)
  moreover have "edge_roles sample_allocation_edge = Some [Some (0, AllocationReference, Used, PathCompilerGenerated)]"
    by (simp add: edge_roles_def sample_allocation_edge_def allocation_path_site_of_def)
  ultimately have "valid_allocation_paths sample_monos [sample_allocation_edge]"
    by (simp add: valid_allocation_paths_def roles invalid_allocation_edge_def allocation_targets_def Let_def)
  from valid_allocation_paths_rooted [OF this, of "sample_monos ! 1" sample_allocation] show ?thesis
    by (simp add: sample_monos_def sample_allocation_def)
qed

end
