(* ===== verification/Dependency_Graph.thy ===== *)
theory Dependency_Graph
  imports Expansions Proof_Checks Mono_Checks
begin

text \<open>
  \<open>DependencyGraph::new\<close> of \<open>src/dependency_graph.rs\<close>: the only way to build a dependency graph.  It
  sorts the nodes, validates every part against the others, adds the definition edges, groups all
  edges, and refuses graphs with nodes that nothing reaches.
\<close>

section \<open>Grouping\<close>

type_synonym dependency_edge_key = "graph_node \<times> graph_node \<times> dependency_kind"

definition dependency_key :: "dependency_edge \<Rightarrow> dependency_edge_key" where
  "dependency_key edge = (e_from edge, e_to edge, e_kind edge)"

definition add_observation :: "dependency_edge \<Rightarrow> (observation_site set \<times> evidence_origin set) option
    \<Rightarrow> observation_site set \<times> evidence_origin set" where
  "add_observation edge old =
     (case old of
        None \<Rightarrow> (set (e_sites edge), {e_evidence edge})
      | Some (sites, evidence) \<Rightarrow> (sites \<union> set (e_sites edge), insert (e_evidence edge) evidence))"

definition merged_evidence :: "evidence_origin set \<Rightarrow> evidence_origin" where
  "merged_evidence evidence =
     (case sorted_list_of_set evidence of [origin] \<Rightarrow> origin | _ \<Rightarrow> EvidenceMultiple)"

definition group_dependency_edges :: "dependency_edge list \<Rightarrow> dependency_edge list" where
  "group_dependency_edges edges =
     map (\<lambda>((source, target, kind), (sites, evidence)).
         \<lparr>e_from = source, e_to = target, e_kind = kind, e_sites = sorted_list_of_set sites,
          e_evidence = merged_evidence evidence\<rparr>)
       (group_entries dependency_key add_observation edges)"

section \<open>The constructor\<close>

definition invalid_expansion_node :: "definition_graph \<Rightarrow> nat \<Rightarrow> expansion_node \<Rightarrow> bool" where
  "invalid_expansion_node definitions len node \<longleftrightarrow>
     x_key node = []
     \<or> invalid_expansion_ref (discovered_in node) len
     \<or> invalid_expansion_ref (semantic_parent node) len
     \<or> invalid_expansion_ref (source_call_parent node) len
     \<or> invalid_definition_target (macro_definition node) definitions
     \<or> (case source_owner node of None \<Rightarrow> False | Some owner \<Rightarrow> owner \<ge> length (dg_definitions definitions))"

definition valid_expansions :: "definition_graph \<Rightarrow> expansion_node list \<Rightarrow> bool" where
  "valid_expansions definitions expansions \<longleftrightarrow>
     dense_by x_id expansions \<and> card (x_key ` set expansions) = length expansions
     \<and> \<not> list_ex (invalid_expansion_node definitions (length expansions)) expansions"

definition valid_proofs :: "definition_graph \<Rightarrow> proof_node list \<Rightarrow> bool" where
  "valid_proofs definitions proofs \<longleftrightarrow>
     dense_by proof_id proofs \<and> card (proof_key ` set proofs) = length proofs
     \<and> \<not> list_ex (invalid_proof_node proofs definitions) proofs"

definition valid_mono_nodes :: "definition_graph \<Rightarrow> mono_node list \<Rightarrow> bool" where
  "valid_mono_nodes definitions monos \<longleftrightarrow>
     dense_by mono_id monos \<and> card (mono_key ` set monos) = length monos
     \<and> \<not> list_ex (invalid_mono_node definitions) monos
     \<and> global_assembly_nodes_match_definitions definitions monos"

definition valid_dependency_edge :: "definition_graph \<Rightarrow> expansion_node list \<Rightarrow> proof_node list
    \<Rightarrow> mono_node list \<Rightarrow> dependency_edge \<Rightarrow> bool" where
  "valid_dependency_edge definitions expansions proofs monos edge \<longleftrightarrow>
     valid_node (e_from edge) definitions expansions proofs monos
     \<and> valid_node (e_to edge) definitions expansions proofs monos
     \<and> valid_edge_shape (e_from edge) (e_to edge) (e_kind edge)
     \<and> \<not> (e_sites edge = [] \<and> \<not> structural_relation (e_kind edge))"

definition mono_roots :: "root_record list \<Rightarrow> mono_id list" where
  "mono_roots roots = List.map_filter (\<lambda>root. case root_node root of NodeMono i \<Rightarrow> Some i | _ \<Rightarrow> None) roots"

definition generated_once :: "dependency_edge list \<Rightarrow> definition_node_data \<Rightarrow> bool" where
  "generated_once edges d \<longleftrightarrow>
     (case def_origin d of
        Expanded _ _ _ _ \<Rightarrow>
          length (filter (\<lambda>edge. e_from edge = NodeDefinition (def_id d) \<and> e_kind edge = GeneratedBy) edges) = 1
      | _ \<Rightarrow> True)"

definition materialization_exact :: "dependency_edge list \<Rightarrow> mono_node \<Rightarrow> bool" where
  "materialization_exact edges node \<longleftrightarrow>
     exact_edge edges (NodeMono (mono_id node)) MaterializesDefinition
       (map_option definition_node (materialized_definition node))"

definition dependency_graph_new :: "definition_graph \<Rightarrow> expansion_node list \<Rightarrow> proof_node list
    \<Rightarrow> mono_node list \<Rightarrow> dependency_edge list \<Rightarrow> root_record list
    \<Rightarrow> dependency_graph_error + dependency_graph" where
  "dependency_graph_new definitions xs ps ms es rs =
     (let expansions = sort_key x_id xs;
          proofs = sort_key proof_id ps;
          monos = sort_key mono_id ms;
          roots = sort_key (\<lambda>r. (root_node r, root_reason r)) rs
      in if \<not> valid_expansions definitions expansions then Inl InvalidExpansion
         else if \<not> valid_proofs definitions proofs then Inl InvalidProof
         else if \<not> valid_mono_nodes definitions monos then Inl InvalidMonoNode
         else if \<not> valid_roots roots definitions monos then Inl InvalidRoot
         else if \<not> proof_relation_slots_are_unique es then Inl InvalidProof
         else if \<not> list_all (valid_dependency_edge definitions expansions proofs monos)
                (definition_edges definitions @ es)
         then Inl InvalidEdge
         else
           let edges = group_dependency_edges (definition_edges definitions @ es)
           in if \<not> valid_allocation_paths monos edges then Inl InvalidMonoNode
              else if \<not> valid_proof_relations proofs edges then Inl InvalidProof
              else if \<not> valid_associated_item_selection_joins proofs monos edges then Inl InvalidProof
              else
                let reachable_mono = reachable_mono_nodes (mono_roots roots) edges
                in if card reachable_mono \<noteq> length monos then Inl InvalidMonoNode
                   else if card (reachable_proof_nodes reachable_mono edges) \<noteq> length proofs then Inl InvalidProof
                   else if \<not> list_all (valid_expansion_edges definitions expansions edges) expansions
                     \<or> \<not> expansion_relations_are_acyclic expansions
                     \<or> \<not> list_all (generated_once edges) (dg_definitions definitions)
                   then Inl InvalidExpansion
                   else if \<not> list_all (materialization_exact edges) monos then Inl InvalidMonoNode
                   else Inr \<lparr>g_definitions = definitions, g_expansions = expansions, g_proofs = proofs,
                             g_mono = monos, g_edges = edges, g_roots = roots\<rparr>)"

section \<open>Grouped edges\<close>

lemma grouped_dependency_keys:
  "map dependency_key (group_dependency_edges edges) = map fst (group_entries dependency_key add_observation edges)"
  by (auto simp: group_dependency_edges_def dependency_key_def)

lemma grouped_dependency_sorted: "sorted_wrt (<) (map dependency_key (group_dependency_edges edges))"
  unfolding grouped_dependency_keys by (rule group_entries_ordered [unfolded ordered_keys_def])

lemma grouped_dependency_key_set: "dependency_key ` set (group_dependency_edges edges) = dependency_key ` set edges"
proof -
  have "set (map dependency_key (group_dependency_edges edges)) = dependency_key ` set edges"
    unfolding grouped_dependency_keys by (simp add: group_entries_keys)
  then show ?thesis by simp
qed

lemma fold_observations:
  "fold (\<lambda>e v. Some (add_observation e v)) es (Some (sites, evidence))
     = Some (sites \<union> (\<Union>e \<in> set es. set (e_sites e)), evidence \<union> e_evidence ` set es)"
  by (induction es arbitrary: sites evidence) (auto simp: add_observation_def)

lemma fold_observations_None:
  "fold (\<lambda>e v. Some (add_observation e v)) es None
     = (if es = [] then None else Some (\<Union>e \<in> set es. set (e_sites e), e_evidence ` set es))"
proof (cases es)
  case (Cons e rest)
  have "add_observation e None = (set (e_sites e), {e_evidence e})" by (simp add: add_observation_def)
  with Cons show ?thesis by (simp add: fold_observations)
qed simp

definition with_key :: "dependency_edge list \<Rightarrow> dependency_edge_key \<Rightarrow> dependency_edge set" where
  "with_key edges k = {e \<in> set edges. dependency_key e = k}"

lemma grouped_dependency_edge:
  assumes "g \<in> set (group_dependency_edges edges)"
  shows "e_sites g = sorted_list_of_set (\<Union>e \<in> with_key edges (dependency_key g). set (e_sites e))"
    and "e_evidence g = merged_evidence (e_evidence ` with_key edges (dependency_key g))"
proof -
  let ?m = "group_entries dependency_key add_observation edges"
  from assms obtain sites evidence where g: "(dependency_key g, sites, evidence) \<in> set ?m"
    "e_sites g = sorted_list_of_set sites" "e_evidence g = merged_evidence evidence"
    by (auto simp: group_dependency_edges_def dependency_key_def)
  have "distinct (map fst ?m)"
    using group_entries_ordered [unfolded ordered_keys_def] strict_sorted_iff by blast
  with g(1) have "map_of ?m (dependency_key g) = Some (sites, evidence)" by simp
  then have "sites = (\<Union>e \<in> with_key edges (dependency_key g). set (e_sites e))"
    "evidence = e_evidence ` with_key edges (dependency_key g)"
    unfolding group_entries_map_of fold_observations_None with_key_def by (auto split: if_splits)
  with g(2,3) show "e_sites g = sorted_list_of_set (\<Union>e \<in> with_key edges (dependency_key g). set (e_sites e))"
    and "e_evidence g = merged_evidence (e_evidence ` with_key edges (dependency_key g))" by simp_all
qed

lemma grouped_edges_accepted:
  assumes "list_all (valid_dependency_edge definitions expansions proofs monos) edges"
  shows "list_all (valid_dependency_edge definitions expansions proofs monos) (group_dependency_edges edges)"
  unfolding list_all_iff
proof
  fix g
  assume g: "g \<in> set (group_dependency_edges edges)"
  have "dependency_key g \<in> dependency_key ` set edges" using g grouped_dependency_key_set by blast
  then obtain e where e: "e \<in> set edges" "dependency_key e = dependency_key g" by auto
  have same: "e_from e = e_from g" "e_to e = e_to g" "e_kind e = e_kind g"
    using e(2) by (simp_all add: dependency_key_def)
  have "finite (\<Union>e \<in> with_key edges (dependency_key g). set (e_sites e))" by (simp add: with_key_def)
  then have "set (e_sites g) = (\<Union>e \<in> with_key edges (dependency_key g). set (e_sites e))"
    using grouped_dependency_edge(1) [OF g] by simp
  then have "set (e_sites e) \<subseteq> set (e_sites g)" using e by (auto simp: with_key_def)
  moreover have "valid_dependency_edge definitions expansions proofs monos e"
    using assms e(1) by (simp add: list_all_iff)
  ultimately show "valid_dependency_edge definitions expansions proofs monos g"
    using same by (auto simp: valid_dependency_edge_def)
qed

section \<open>What an accepted graph promises\<close>

lemma dependency_graph_new_Inr:
  "dependency_graph_new definitions xs ps ms es rs = Inr g \<longleftrightarrow>
     (let expansions = sort_key x_id xs; proofs = sort_key proof_id ps; monos = sort_key mono_id ms;
          roots = sort_key (\<lambda>r. (root_node r, root_reason r)) rs;
          edges = group_dependency_edges (definition_edges definitions @ es);
          reachable = reachable_mono_nodes (mono_roots roots) edges
      in valid_expansions definitions expansions \<and> valid_proofs definitions proofs
         \<and> valid_mono_nodes definitions monos \<and> valid_roots roots definitions monos
         \<and> proof_relation_slots_are_unique es
         \<and> list_all (valid_dependency_edge definitions expansions proofs monos) (definition_edges definitions @ es)
         \<and> valid_allocation_paths monos edges \<and> valid_proof_relations proofs edges
         \<and> valid_associated_item_selection_joins proofs monos edges
         \<and> card reachable = length monos \<and> card (reachable_proof_nodes reachable edges) = length proofs
         \<and> list_all (valid_expansion_edges definitions expansions edges) expansions
         \<and> expansion_relations_are_acyclic expansions
         \<and> list_all (generated_once edges) (dg_definitions definitions)
         \<and> list_all (materialization_exact edges) monos
         \<and> g = \<lparr>g_definitions = definitions, g_expansions = expansions, g_proofs = proofs,
                g_mono = monos, g_edges = edges, g_roots = roots\<rparr>)"
  unfolding dependency_graph_new_def Let_def by (auto split: if_splits)


lemma list_all_members: "list_all p xs \<Longrightarrow> x \<in> set xs \<Longrightarrow> p x"
  by (simp add: list_all_iff)

text \<open>Roots and steps stay inside the vector of the items.\<close>

lemma mono_roots_set: "i \<in> set (mono_roots roots) \<longleftrightarrow> (\<exists>root \<in> set roots. root_node root = NodeMono i)"
proof (induction roots)
  case (Cons root roots)
  then show ?case by (cases "root_node root") (auto simp: mono_roots_def List.map_filter_simps)
qed (simp add: mono_roots_def List.map_filter_simps)

lemma valid_root_mono: "valid_root definitions monos root \<Longrightarrow> root_node root = NodeMono i \<Longrightarrow> i < length monos"
  by (cases "root_reason root") (auto simp: valid_root_def mono_key_at_def key_satisfies_def split: option.splits)

lemma rtrancl_stays: "(x, y) \<in> R\<^sup>* \<Longrightarrow> R \<subseteq> A \<times> A \<Longrightarrow> x \<in> A \<Longrightarrow> y \<in> A"
  by (induction rule: rtrancl_induct) auto

lemma mono_steps_bounded:
  assumes "list_all (valid_dependency_edge definitions expansions proofs monos) edges"
  shows "set (mono_steps edges) \<subseteq> {..<length monos} \<times> {..<length monos}"
proof
  fix st
  assume st: "st \<in> set (mono_steps edges)"
  obtain s t where pair: "st = (s, t)" by (cases st)
  with st obtain e where "e \<in> set edges" "e_from e = NodeMono s" "e_to e = NodeMono t"
    unfolding pair mono_steps_set by blast
  with pair list_all_members [OF assms, of e] show "st \<in> {..<length monos} \<times> {..<length monos}"
    by (auto simp: valid_dependency_edge_def)
qed

lemma proof_steps_set:
  "(s, t) \<in> set (proof_steps edges) \<longleftrightarrow>
     (\<exists>e \<in> set edges. \<exists>r n. e_from e = NodeProof s \<and> e_kind e = ProofRelation r n \<and> e_to e = NodeProof t)"
proof (induction edges)
  case (Cons e edges)
  then show ?case
    by (cases "e_from e"; cases "e_kind e"; cases "e_to e")
       (auto simp: proof_steps_def List.map_filter_simps)
qed (simp add: proof_steps_def List.map_filter_simps)

lemma proof_steps_bounded:
  assumes "list_all (valid_dependency_edge definitions expansions proofs monos) edges"
  shows "set (proof_steps edges) \<subseteq> {..<length proofs} \<times> {..<length proofs}"
proof
  fix st
  assume st: "st \<in> set (proof_steps edges)"
  obtain s t where pair: "st = (s, t)" by (cases st)
  with st obtain e where "e \<in> set edges" "e_from e = NodeProof s" "e_to e = NodeProof t"
    unfolding pair proof_steps_set by blast
  with pair list_all_members [OF assms, of e] show "st \<in> {..<length proofs} \<times> {..<length proofs}"
    by (auto simp: valid_dependency_edge_def)
qed

lemma selected_proofs_set:
  "t \<in> set (selected_proofs monos edges) \<longleftrightarrow>
     (\<exists>e \<in> set edges. \<exists>s r c. s \<in> monos \<and> e_from e = NodeMono s \<and> e_kind e = SelectionProof r c \<and> e_to e = NodeProof t)"
proof (induction edges)
  case (Cons e edges)
  then show ?case
    by (cases "e_from e"; cases "e_kind e"; cases "e_to e")
       (auto simp: selected_proofs_def List.map_filter_simps)
qed (simp add: selected_proofs_def List.map_filter_simps)

lemma full_card: "R \<subseteq> {..<n} \<Longrightarrow> card R = n \<Longrightarrow> R = {..<n}"
  by (rule card_subset_eq) simp_all

definition edges_sound :: "dependency_graph \<Rightarrow> bool" where
  "edges_sound g \<longleftrightarrow>
     sorted_wrt (<) (map dependency_key (g_edges g))
     \<and> list_all (\<lambda>e. valid_node (e_from e) (g_definitions g) (g_expansions g) (g_proofs g) (g_mono g)
          \<and> valid_node (e_to e) (g_definitions g) (g_expansions g) (g_proofs g) (g_mono g)
          \<and> valid_edge_shape (e_from e) (e_to e) (e_kind e)) (g_edges g)"

definition nothing_idle :: "dependency_graph \<Rightarrow> bool" where
  "nothing_idle g \<longleftrightarrow>
     (set (mono_steps (g_edges g)))\<^sup>* `` set (mono_roots (g_roots g)) = {..< length (g_mono g)}
     \<and> (set (proof_steps (g_edges g)))\<^sup>* `` set (selected_proofs {..< length (g_mono g)} (g_edges g))
         = {..< length (g_proofs g)}"

text \<open>An instance names the definition it materializes, and an edge leads to that definition.\<close>

definition instance_materialized :: "dependency_graph \<Rightarrow> mono_node \<Rightarrow> bool" where
  "instance_materialized g node =
     (case mono_key node of
        Instance inst role \<Rightarrow>
          (case materialized_definition node of
             None \<Rightarrow> False
           | Some t \<Rightarrow>
               mi_definition inst = definition_reference_key_of (g_definitions g) t
               \<and> list_ex (\<lambda>edge. e_from edge = NodeMono (mono_id node) \<and> e_to edge = definition_node t
                   \<and> e_kind edge = MaterializesDefinition) (g_edges g))
      | _ \<Rightarrow> True)"

lemma exact_edge_Some:
  assumes "exact_edge edges source kind (Some t)"
  shows "list_ex (\<lambda>edge. e_from edge = source \<and> e_to edge = t \<and> e_kind edge = kind) edges"
proof -
  let ?matching = "filter (\<lambda>edge. e_from edge = source \<and> e_kind edge = kind) edges"
  have one: "length ?matching = 1" and target: "e_to (?matching ! 0) = t"
    using assms by (simp_all add: exact_edge_def Let_def)
  from one have "?matching ! 0 \<in> set ?matching" by (intro nth_mem) simp
  with target show ?thesis by (auto simp: list_ex_iff)
qed

lemma accepted_instance_materialized:
  assumes "\<not> invalid_mono_node (g_definitions g) node" "materialization_exact (g_edges g) node"
  shows "instance_materialized g node"
  using assms
  by (auto simp: invalid_mono_node_def instance_materialized_def materialization_exact_def Let_def
      dest: exact_edge_Some split: mono_key.splits option.splits if_splits)

text \<open>
  C30. An accepted dependency graph is sound: its edges have different keys in increasing order and
  join existing nodes of the sorts their kinds demand; every monomorphic item is reached from a root
  along dependency edges and every proof from a selection of an item along relation edges; every
  instance names the definition it materializes and has an edge to it; and none of the three parent
  relations of its expansions has a cycle.
\<close>

theorem dependency_graph_sound:
  assumes "dependency_graph_new definitions xs ps ms es rs = Inr g"
  shows "edges_sound g \<and> nothing_idle g \<and> list_all (instance_materialized g) (g_mono g)
    \<and> acyclic (parent_steps (g_expansions g) discovered_in)
    \<and> acyclic (parent_steps (g_expansions g) semantic_parent)
    \<and> acyclic (parent_steps (g_expansions g) source_call_parent)"
proof -
  note new = assms [unfolded dependency_graph_new_Inr Let_def]
  let ?all = "definition_edges definitions @ es"
  have parts: "g_definitions g = definitions" "g_expansions g = sort_key x_id xs" "g_proofs g = sort_key proof_id ps"
    "g_mono g = sort_key mono_id ms" "g_edges g = group_dependency_edges ?all"
    "g_roots g = sort_key (\<lambda>r. (root_node r, root_reason r)) rs" using new by simp_all
  note new = new [folded parts(2-6)]
  have valid: "list_all (valid_dependency_edge definitions (g_expansions g) (g_proofs g) (g_mono g)) (g_edges g)"
    unfolding parts(5) by (rule grouped_edges_accepted) (use new in blast)
  have sound: "edges_sound g"
    unfolding edges_sound_def parts(1)
  proof
    show "sorted_wrt (<) (map dependency_key (g_edges g))" unfolding parts(5) by (rule grouped_dependency_sorted)
    show "list_all (\<lambda>e. valid_node (e_from e) definitions (g_expansions g) (g_proofs g) (g_mono g)
          \<and> valid_node (e_to e) definitions (g_expansions g) (g_proofs g) (g_mono g)
          \<and> valid_edge_shape (e_from e) (e_to e) (e_kind e)) (g_edges g)"
      using valid by (simp add: list_all_iff valid_dependency_edge_def)
  qed
  let ?monos = "(set (mono_steps (g_edges g)))\<^sup>* `` set (mono_roots (g_roots g))"
  have "list_all (valid_root definitions (g_mono g)) (g_roots g)"
    using new by (auto simp: valid_roots_def Let_def split: if_splits)
  then have "set (mono_roots (g_roots g)) \<subseteq> {..<length (g_mono g)}"
    unfolding list_all_iff mono_roots_set subset_iff lessThan_iff using valid_root_mono by metis
  then have "?monos \<subseteq> {..<length (g_mono g)}"
    using rtrancl_stays [OF _ mono_steps_bounded [OF valid]] by blast
  moreover have "card ?monos = length (g_mono g)"
    using new unfolding reachable_mono_nodes_rtrancl by simp
  ultimately have mono_all: "?monos = {..<length (g_mono g)}" by (rule full_card)
  let ?proofs = "(set (proof_steps (g_edges g)))\<^sup>* `` set (selected_proofs {..<length (g_mono g)} (g_edges g))"
  have "set (selected_proofs {..<length (g_mono g)} (g_edges g)) \<subseteq> {..<length (g_proofs g)}"
    using list_all_members [OF valid] by (fastforce simp: selected_proofs_set valid_dependency_edge_def)
  with rtrancl_stays [OF _ proof_steps_bounded [OF valid]] have "?proofs \<subseteq> {..<length (g_proofs g)}" by blast
  moreover have "card ?proofs = length (g_proofs g)"
    using new unfolding reachable_mono_nodes_rtrancl mono_all reachable_proof_nodes_rtrancl by simp
  ultimately have proofs: "?proofs = {..<length (g_proofs g)}" by (rule full_card)
  have "\<not> list_ex (invalid_mono_node (g_definitions g)) (g_mono g)" "list_all (materialization_exact (g_edges g)) (g_mono g)"
    using new parts(1) by (simp_all add: valid_mono_nodes_def)
  then have instances: "list_all (instance_materialized g) (g_mono g)"
    unfolding list_all_iff list_ex_iff using accepted_instance_materialized by blast
  have "dense_by x_id (g_expansions g)" "expansion_relations_are_acyclic (g_expansions g)"
    using new by (simp_all add: valid_expansions_def)
  from acyclic_relations [OF this] sound mono_all proofs instances show ?thesis by (simp add: nothing_idle_def)
qed

section \<open>Rebuilding\<close>

lemma merged_evidence_single: "merged_evidence {origin} = origin"
  by (simp add: merged_evidence_def)

lemma merged_evidence_many:
  assumes "finite X" and "x \<in> X" and "y \<in> X" and "x \<noteq> y"
  shows "merged_evidence X = EvidenceMultiple"
proof -
  have "sorted_list_of_set X \<noteq> [z]" for z
  proof
    assume "sorted_list_of_set X = [z]"
    then have "X = {z}" using assms(1) by (metis list.simps(15) empty_set set_sorted_list_of_set)
    with assms show False by simp
  qed
  then show ?thesis by (auto simp: merged_evidence_def split: list.splits)
qed

definition merged_edge :: "dependency_edge list \<Rightarrow> dependency_edge_key \<Rightarrow> dependency_edge" where
  "merged_edge edges k =
     \<lparr>e_from = fst k, e_to = fst (snd k), e_kind = snd (snd k),
      e_sites = sorted_list_of_set (\<Union>e \<in> with_key edges k. set (e_sites e)),
      e_evidence = merged_evidence (e_evidence ` with_key edges k)\<rparr>"

lemma grouped_is_merged:
  "g \<in> set (group_dependency_edges edges) \<Longrightarrow> g = merged_edge edges (dependency_key g)"
  using grouped_dependency_edge [of g edges] by (simp add: merged_edge_def dependency_key_def)

lemma group_dependency_edges_merged:
  "group_dependency_edges edges
     = map (merged_edge edges) (map dependency_key (group_dependency_edges edges))"
  unfolding map_map comp_def by (rule sym, rule map_idI) (rule grouped_is_merged [symmetric])

lemma merged_edge_key [simp]: "dependency_key (merged_edge edges k) = k"
  by (simp add: merged_edge_def dependency_key_def)

lemma with_key_regrouped:
  assumes "k \<in> dependency_key ` set edges"
  shows "with_key (group_dependency_edges edges) k = {merged_edge edges k}"
proof -
  have "g = merged_edge edges k" if "g \<in> with_key (group_dependency_edges edges) k" for g
    using that grouped_is_merged [of g edges] by (simp add: with_key_def)
  moreover obtain g where "g \<in> set (group_dependency_edges edges)" "dependency_key g = k"
    using assms grouped_dependency_key_set [of edges] by (metis imageE)
  then have "with_key (group_dependency_edges edges) k \<noteq> {}" by (auto simp: with_key_def)
  ultimately show ?thesis by blast
qed

lemma with_key_append: "with_key (xs @ ys) k = with_key xs k \<union> with_key ys k"
  by (auto simp: with_key_def)

lemma finite_with_key [simp]: "finite (with_key edges k)"
  by (simp add: with_key_def)

text \<open>Adding edges of one origin again to the groups they are in changes nothing.\<close>

lemma merged_edge_again:
  assumes "\<forall>d \<in> set ds. e_evidence d = origin" and "k \<in> dependency_key ` set (ds @ es)"
  shows "merged_edge (ds @ group_dependency_edges (ds @ es)) k = merged_edge (ds @ es) k"
proof -
  let ?all = "ds @ es"
  let ?old = "with_key ?all k" and ?ds = "with_key ds k"
  have old: "with_key (ds @ group_dependency_edges ?all) k = insert (merged_edge ?all k) ?ds"
    using with_key_regrouped [OF assms(2)] by (simp add: with_key_append)
  have sub: "?ds \<subseteq> ?old" by (simp add: with_key_append)
  have "set (e_sites (merged_edge ?all k)) = (\<Union>e \<in> ?old. set (e_sites e))" by (simp add: merged_edge_def)
  then have sites: "(\<Union>e \<in> insert (merged_edge ?all k) ?ds. set (e_sites e)) = (\<Union>e \<in> ?old. set (e_sites e))"
    using sub by auto
  have ev: "e_evidence (merged_edge ?all k) = merged_evidence (e_evidence ` ?old)" by (simp add: merged_edge_def)
  have evidence: "merged_evidence (e_evidence ` insert (merged_edge ?all k) ?ds) = merged_evidence (e_evidence ` ?old)"
  proof (cases "?ds = {}")
    case True
    then show ?thesis using ev by (simp add: merged_evidence_single)
  next
    case False
    then have ds: "e_evidence ` ?ds = {origin}" using assms(1) by (auto simp: with_key_def)
    with sub have origin: "origin \<in> e_evidence ` ?old" by blast
    show ?thesis
    proof (cases "e_evidence ` ?old = {origin}")
      case True
      with ev ds show ?thesis by (simp add: merged_evidence_single)
    next
      case many: False
      with origin obtain other where "other \<in> e_evidence ` ?old" "other \<noteq> origin" by blast
      then have multiple: "merged_evidence (e_evidence ` ?old) = EvidenceMultiple"
        using merged_evidence_many [OF _ _ origin] by simp
      then have new: "e_evidence ` insert (merged_edge ?all k) ?ds = {EvidenceMultiple, origin}"
        using ev ds by simp
      show ?thesis
      proof (cases "origin = EvidenceMultiple")
        case True
        with new have "e_evidence ` insert (merged_edge ?all k) ?ds = {EvidenceMultiple}" by simp
        then show ?thesis by (simp only: merged_evidence_single multiple)
      next
        case False
        then have "merged_evidence {EvidenceMultiple, origin} = EvidenceMultiple"
          using merged_evidence_many [of "{EvidenceMultiple, origin}" EvidenceMultiple origin] by simp
        with new multiple show ?thesis by simp
      qed
    qed
  qed
  have "merged_edge (ds @ group_dependency_edges ?all) k =
      \<lparr>e_from = fst k, e_to = fst (snd k), e_kind = snd (snd k),
       e_sites = sorted_list_of_set (\<Union>e \<in> insert (merged_edge ?all k) ?ds. set (e_sites e)),
       e_evidence = merged_evidence (e_evidence ` insert (merged_edge ?all k) ?ds)\<rparr>"
    by (simp only: merged_edge_def [of "ds @ group_dependency_edges ?all" k] old)
  then show ?thesis unfolding sites evidence by (simp only: merged_edge_def [of ?all k])
qed

lemma group_dependency_edges_again:
  assumes "\<forall>d \<in> set ds. e_evidence d = origin"
  shows "group_dependency_edges (ds @ group_dependency_edges (ds @ es)) = group_dependency_edges (ds @ es)"
proof -
  let ?g = "group_dependency_edges (ds @ es)"
  let ?g' = "group_dependency_edges (ds @ ?g)"
  have keys: "map dependency_key ?g' = map dependency_key ?g"
  proof (rule strict_sorted_equal)
    show "sorted_wrt (<) (map dependency_key ?g)" by (rule grouped_dependency_sorted)
    show "sorted_wrt (<) (map dependency_key ?g')" by (rule grouped_dependency_sorted)
    have "dependency_key ` set ?g' = dependency_key ` set ds \<union> dependency_key ` set ?g"
      unfolding grouped_dependency_key_set [of "ds @ ?g"] by (simp only: set_append image_Un)
    also have "\<dots> = dependency_key ` set ?g"
      unfolding grouped_dependency_key_set by auto
    finally show "set (map dependency_key ?g') = set (map dependency_key ?g)" by simp
  qed
  have "?g' = map (merged_edge (ds @ ?g)) (map dependency_key ?g)"
    using group_dependency_edges_merged [of "ds @ ?g"] unfolding keys .
  also have "\<dots> = map (merged_edge (ds @ es)) (map dependency_key ?g)"
  proof (rule map_cong [OF refl])
    fix k
    assume "k \<in> set (map dependency_key ?g)"
    then have "k \<in> dependency_key ` set (ds @ es)" using grouped_dependency_key_set by auto
    from merged_edge_again [OF assms this]
    show "merged_edge (ds @ ?g) k = merged_edge (ds @ es) k" .
  qed
  also have "\<dots> = ?g" by (rule group_dependency_edges_merged [symmetric])
  finally show ?thesis .
qed

definition slots_of :: "dependency_edge list \<Rightarrow> (graph_node \<times> proof_relation_kind \<times> nat) list" where
  "slots_of edges = List.map_filter (\<lambda>e. map_option (Pair (e_from e)) (relation_slot e)) edges"

lemma slots_unique_distinct:
  "slots_unique edges slots \<longleftrightarrow> distinct (slots_of edges) \<and> set (slots_of edges) \<inter> slots = {}"
proof (induction edges arbitrary: slots)
  case (Cons e edges)
  then show ?case by (cases "relation_slot e") (auto simp: slots_of_def List.map_filter_simps)
qed (simp add: slots_of_def List.map_filter_simps)

lemma slots_of_distinct:
  "distinct (slots_of edges) \<Longrightarrow> e \<in> set edges \<Longrightarrow> e' \<in> set edges \<Longrightarrow> e_from e = e_from e'
     \<Longrightarrow> relation_slot e = Some slot \<Longrightarrow> relation_slot e' = Some slot \<Longrightarrow> e = e'"
proof (induction edges)
  case (Cons x edges)
  have mem: "(e_from y, s) \<in> set (slots_of edges)" if "y \<in> set edges" "relation_slot y = Some s" for y s
    using that by (induction edges) (auto simp: slots_of_def List.map_filter_simps split: option.splits)
  show ?case
  proof (cases "x = e \<or> x = e'")
    case True
    with Cons.prems mem [of e slot] mem [of e' slot] show ?thesis
      by (auto simp: slots_of_def List.map_filter_simps)
  next
    case False
    moreover from Cons.prems(1) have "distinct (slots_of edges)"
      by (cases "relation_slot x") (auto simp: slots_of_def List.map_filter_simps)
    ultimately show ?thesis using Cons by auto
  qed
qed simp

lemma relation_slot_key: "dependency_key e = dependency_key e' \<Longrightarrow> relation_slot e = relation_slot e'"
  by (simp add: dependency_key_def relation_slot_def)

lemma slots_of_distinctI:
  assumes "distinct edges"
    and "\<And>e e' slot. e \<in> set edges \<Longrightarrow> e' \<in> set edges \<Longrightarrow> e_from e = e_from e'
      \<Longrightarrow> relation_slot e = Some slot \<Longrightarrow> relation_slot e' = Some slot \<Longrightarrow> e = e'"
  shows "distinct (slots_of edges)"
  using assms
proof (induction edges)
  case (Cons x edges)
  have mem: "\<exists>y \<in> set edges. e_from y = n \<and> relation_slot y = Some s" if "(n, s) \<in> set (slots_of edges)" for n s
    using that by (induction edges) (auto simp: slots_of_def List.map_filter_simps split: option.splits)
  have rest: "distinct (slots_of edges)"
  proof (rule Cons.IH)
    show "distinct edges" using Cons.prems(1) by simp
    fix e e' slot
    assume e: "e \<in> set edges" "e' \<in> set edges" "e_from e = e_from e'" "relation_slot e = Some slot"
      "relation_slot e' = Some slot"
    show "e = e'" by (rule Cons.prems(2) [OF _ _ e(3-5)]) (simp_all add: e(1,2))
  qed
  show ?case
  proof (cases "relation_slot x")
    case None
    with rest show ?thesis by (simp add: slots_of_def List.map_filter_simps)
  next
    case (Some s)
    have "(e_from x, s) \<notin> set (slots_of edges)"
    proof
      assume "(e_from x, s) \<in> set (slots_of edges)"
      from mem [OF this] obtain y where y: "y \<in> set edges" "e_from y = e_from x" "relation_slot y = Some s" by blast
      have "x = y" by (rule Cons.prems(2) [OF _ _ y(2) [symmetric] Some y(3)]) (simp_all add: y(1))
      with y(1) Cons.prems(1) show False by simp
    qed
    with Some rest show ?thesis by (simp add: slots_of_def List.map_filter_simps)
  qed
qed (simp add: slots_of_def List.map_filter_simps)

lemma definition_edges_slot: "d \<in> set (definition_edges definitions) \<Longrightarrow> relation_slot d = None"
  by (auto simp: definition_edges_def relation_slot_def)

lemma regrouped_slots_unique:
  assumes "proof_relation_slots_are_unique es"
  shows "proof_relation_slots_are_unique (group_dependency_edges (definition_edges definitions @ es))"
proof -
  let ?g = "group_dependency_edges (definition_edges definitions @ es)"
  have "distinct (map dependency_key ?g)" using grouped_dependency_sorted strict_sorted_iff by blast
  then have dist: "distinct ?g" "inj_on dependency_key (set ?g)" by (simp_all add: distinct_map)
  have es: "distinct (slots_of es)"
    using assms by (simp add: proof_relation_slots_are_unique_def slots_unique_distinct)
  have orig: "\<exists>x \<in> set es. dependency_key x = dependency_key e" if "e \<in> set ?g" "relation_slot e = Some slot" for e slot
  proof -
    have "dependency_key e \<in> dependency_key ` set (definition_edges definitions @ es)"
      using that(1) grouped_dependency_key_set by blast
    then obtain x where x: "x \<in> set (definition_edges definitions @ es)" "dependency_key x = dependency_key e"
      by (metis imageE)
    with relation_slot_key [OF x(2)] that(2) definition_edges_slot [of x definitions] have "x \<in> set es" by auto
    with x(2) show ?thesis by blast
  qed
  have "distinct (slots_of ?g)"
  proof (rule slots_of_distinctI [OF dist(1)])
    fix e e' slot
    assume e: "e \<in> set ?g" "e' \<in> set ?g" "e_from e = e_from e'" "relation_slot e = Some slot" "relation_slot e' = Some slot"
    from orig [OF e(1,4)] obtain x where x: "x \<in> set es" "dependency_key x = dependency_key e" by blast
    from orig [OF e(2,5)] obtain y where y: "y \<in> set es" "dependency_key y = dependency_key e'" by blast
    have "e_from x = e_from y" using x(2) y(2) e(3) by (simp add: dependency_key_def)
    from slots_of_distinct [OF es x(1) y(1) this] relation_slot_key [OF x(2)] relation_slot_key [OF y(2)] e(4,5)
    have "x = y" by simp
    with x(2) y(2) have "dependency_key e = dependency_key e'" by simp
    with dist(2) e(1,2) show "e = e'" by (simp add: inj_on_eq_iff)
  qed
  then show ?thesis by (simp add: proof_relation_slots_are_unique_def slots_unique_distinct)
qed

text \<open>
  C31. Building a dependency graph again from the parts of a graph gives the same graph: the
  constructor accepts what it produced, and adding the definition edges once more, grouping once
  more and sorting once more change nothing.
\<close>

theorem dependency_graph_rebuild:
  assumes "dependency_graph_new definitions xs ps ms es rs = Inr g"
  shows "dependency_graph_new (g_definitions g) (g_expansions g) (g_proofs g) (g_mono g) (g_edges g) (g_roots g) = Inr g"
proof -
  note new = assms [unfolded dependency_graph_new_Inr Let_def]
  let ?ds = "definition_edges definitions"
  have parts: "g_definitions g = definitions" "g_expansions g = sort_key x_id xs" "g_proofs g = sort_key proof_id ps"
    "g_mono g = sort_key mono_id ms" "g_edges g = group_dependency_edges (?ds @ es)"
    "g_roots g = sort_key (\<lambda>r. (root_node r, root_reason r)) rs" using new by simp_all
  note new = new [folded parts(2-6)]
  have sorts: "sort_key x_id (g_expansions g) = g_expansions g" "sort_key proof_id (g_proofs g) = g_proofs g"
    "sort_key mono_id (g_mono g) = g_mono g" "sort_key (\<lambda>r. (root_node r, root_reason r)) (g_roots g) = g_roots g"
    unfolding parts by (simp_all add: sort_key_id_if_sorted)
  have "\<forall>d \<in> set ?ds. e_evidence d = EvidenceCompiler" by (auto simp: definition_edges_def)
  from group_dependency_edges_again [OF this, of es]
  have again: "group_dependency_edges (?ds @ g_edges g) = g_edges g" unfolding parts(5) .
  have all: "list_all (valid_dependency_edge definitions (g_expansions g) (g_proofs g) (g_mono g)) (?ds @ g_edges g)"
    using new grouped_edges_accepted [of definitions "g_expansions g" "g_proofs g" "g_mono g" "?ds @ es"]
    unfolding parts(5) by simp
  have slots: "proof_relation_slots_are_unique (g_edges g)"
    unfolding parts(5) by (rule regrouped_slots_unique) (use new in blast)
  show ?thesis
    unfolding dependency_graph_new_Inr Let_def parts(1) sorts again
    using new all slots parts(1) by simp
qed

section \<open>A sample graph\<close>

definition sample_term :: canonical_term where
  "sample_term = \<lparr>term_schema = 2, term_bytes = []\<rparr>"

definition sample_definitions :: definition_graph where
  "sample_definitions = \<lparr>dg_definitions = [sample_root, sample_child], dg_external = [],
     dg_edges = [\<lparr>de_from = 1, de_to = Local 0, de_kind = DepParent, de_sites = []\<rparr>]\<rparr>"

lemma sample_definitions_accepted:
  "definition_graph_new [sample_child, sample_root] [] (dg_edges sample_definitions) = Inr sample_definitions"
proof -
  have order: "sort_key def_id [sample_child, sample_root] = [sample_root, sample_child]"
    by (simp add: sample_child_def sample_root_def)
  have groups: "group_definition_edges (dg_edges sample_definitions) = dg_edges sample_definitions"
    by (simp add: group_definition_edges_def group_entries_def sample_definitions_def edge_key_def extend_entry_def)
  show ?thesis
    unfolding definition_graph_new_def order groups
    by (simp add: dense_by_def valid_definition_roots_def sample_child_def sample_root_def sample_definitions_def
        valid_definition_def parent_in_front_def leaf_describes_def key_extends_parent_def ordinal_agrees_def
        valid_definition_edge_def parent_edge_exact_def expected_parent_sites_def Let_def)
qed

definition sample_main :: mono_node where
  "sample_main = \<lparr>mono_id = 0,
     mono_key = Instance \<lparr>mi_definition = ReferenceLocal (def_key sample_child),
       mi_arguments = sample_term, mi_kind = sample_term\<rparr> Callable,
     materialized_definition = Some (Local 1), allocation_observation = None\<rparr>"

definition sample_vtable :: mono_node where
  "sample_vtable = \<lparr>mono_id = 1, mono_key = VTable sample_term None,
     materialized_definition = None, allocation_observation = None\<rparr>"

definition sample_mono_edge :: dependency_edge where
  "sample_mono_edge = \<lparr>e_from = NodeMono 0, e_to = NodeMono 1, e_kind = MonoDependency VTableConstruction Used,
     e_sites = [CompilerGeneratedSite], e_evidence = EvidenceCompiler\<rparr>"

definition sample_materialization :: dependency_edge where
  "sample_materialization = \<lparr>e_from = NodeMono 0, e_to = NodeDefinition 1, e_kind = MaterializesDefinition,
     e_sites = [], e_evidence = EvidenceDerived\<rparr>"

definition sample_roots :: "root_record list" where
  "sample_roots = [\<lparr>root_node = NodeMono 0, root_reason = RootMain\<rparr>, \<lparr>root_node = NodeMono 0, root_reason = RootStartInstance\<rparr>]"

definition sample_all_edges :: "dependency_edge list" where
  "sample_all_edges = [\<lparr>e_from = NodeDefinition 1, e_to = NodeDefinition 0, e_kind = DefinitionDependency DepParent,
     e_sites = [], e_evidence = EvidenceCompiler\<rparr>, sample_materialization, sample_mono_edge]"

lemma sample_edges_grouped:
  "group_dependency_edges (definition_edges sample_definitions @ [sample_mono_edge, sample_materialization]) = sample_all_edges"
  by (simp add: group_dependency_edges_def group_entries_def definition_edges_def sample_definitions_def
      sample_mono_edge_def sample_materialization_def sample_all_edges_def dependency_key_def add_observation_def
      less_graph_node_def less_eq_graph_node_def merged_evidence_single)

lemma sample_roots_sorted:
  "sort_key (\<lambda>r. (root_node r, root_reason r)) sample_roots = sample_roots"
  by (simp add: sample_roots_def less_eq_root_reason_def root_reason_order_def position_of_def)

lemma sample_graph_accepted:
  "\<exists>g. dependency_graph_new sample_definitions [] [] [sample_vtable, sample_main] [sample_mono_edge, sample_materialization] sample_roots = Inr g"
proof -
  let ?monos = "[sample_main, sample_vtable]"
  have order: "sort_key mono_id [sample_vtable, sample_main] = ?monos"
    by (simp add: sample_vtable_def sample_main_def)
  have 1: "valid_mono_nodes sample_definitions ?monos"
    by (simp add: valid_mono_nodes_def dense_by_def sample_vtable_def sample_main_def invalid_mono_node_def
        invalid_definition_target_def is_allocation_def global_assembly_nodes_match_definitions_def
        sample_definitions_def sample_root_def sample_child_def List.map_filter_simps Let_def)
  have 2: "valid_roots sample_roots sample_definitions ?monos"
    by (simp add: valid_roots_def sample_roots_def valid_root_def mono_key_at_def key_satisfies_def
        local_callable_def callable_def global_asm_key_def sample_main_def sample_vtable_def get_at_def Let_def)
  have 3: "list_all (valid_dependency_edge sample_definitions [] [] ?monos)
      (definition_edges sample_definitions @ [sample_mono_edge, sample_materialization])"
    by (simp add: valid_dependency_edge_def definition_edges_def sample_definitions_def sample_mono_edge_def sample_materialization_def
        is_local_definition_def is_definition_node_def is_mono_node_def)
  have 4: "valid_allocation_paths ?monos sample_all_edges"
    by (simp add: valid_allocation_paths_def sample_main_def sample_vtable_def sample_all_edges_def
        sample_mono_edge_def sample_materialization_def invalid_allocation_edge_def leads_to_allocation_def is_allocation_def)
  have 5: "valid_proof_relations [] sample_all_edges" "valid_associated_item_selection_joins [] ?monos sample_all_edges"
    by (simp_all add: valid_proof_relations_def relation_targets_def relation_entries_def sample_all_edges_def
        sample_mono_edge_def sample_materialization_def relation_slot_def List.map_filter_simps group_entries_def
        valid_associated_item_selection_joins_def valid_selection_join_def)
  have 6: "reachable_mono_nodes (mono_roots sample_roots) sample_all_edges = {0, 1}"
    by (simp add: reachable_mono_nodes_def mono_roots_def sample_roots_def mono_steps_def sample_all_edges_def
        sample_mono_edge_def sample_materialization_def List.map_filter_simps push_target_def insert_commute)
  have 7: "reachable_proof_nodes {0, 1} sample_all_edges = {}"
    by (simp add: reachable_proof_nodes_def selected_proofs_def proof_steps_def sample_all_edges_def
        sample_mono_edge_def sample_materialization_def List.map_filter_simps)
  have 8: "list_all (generated_once sample_all_edges) (dg_definitions sample_definitions)"
    "list_all (materialization_exact sample_all_edges) ?monos"
    by (simp_all add: generated_once_def materialization_exact_def exact_edge_def sample_all_edges_def
        sample_mono_edge_def sample_materialization_def sample_definitions_def sample_root_def sample_child_def sample_main_def
        sample_vtable_def Let_def)
  have 9: "valid_expansions sample_definitions []" "valid_proofs sample_definitions []"
    "expansion_relations_are_acyclic []" "proof_relation_slots_are_unique [sample_mono_edge, sample_materialization]"
    by (simp_all add: valid_expansions_def valid_proofs_def dense_by_def expansion_relations_are_acyclic_def
        proof_relation_slots_are_unique_def relation_slot_def sample_mono_edge_def sample_materialization_def)
  show ?thesis
    unfolding dependency_graph_new_Inr order sample_edges_grouped sample_roots_sorted Let_def
    using 1 2 3 4 5 6 7 8 9 by simp
qed

theorem dependency_graph_sound_witness:
  "\<exists>g. dependency_graph_new sample_definitions [] [] [sample_vtable, sample_main] [sample_mono_edge, sample_materialization] sample_roots = Inr g
     \<and> edges_sound g \<and> nothing_idle g \<and> list_all (instance_materialized g) (g_mono g)"
  using sample_graph_accepted
    dependency_graph_sound [of sample_definitions "[]" "[]" "[sample_vtable, sample_main]" "[sample_mono_edge, sample_materialization]" sample_roots]
  by blast

theorem dependency_graph_rebuild_witness:
  "\<exists>g. dependency_graph_new sample_definitions [] [] [sample_vtable, sample_main] [sample_mono_edge, sample_materialization] sample_roots = Inr g
     \<and> dependency_graph_new (g_definitions g) (g_expansions g) (g_proofs g) (g_mono g) (g_edges g) (g_roots g) = Inr g"
  using sample_graph_accepted
    dependency_graph_rebuild [of sample_definitions "[]" "[]" "[sample_vtable, sample_main]" "[sample_mono_edge, sample_materialization]" sample_roots]
  by blast

end
