(* ===== verification/Chain_Walk.thy ===== *)
theory Chain_Walk
  imports Rid_Prelude
begin

text \<open>
  The memoised walk along parent chains that \<open>source/declarative_macro/validation.rs\<close> runs twice:
  for every start the chain is followed until it ends with a value or meets a node that is already
  resolved, and the value is recorded for the whole path.  A node has state 0 while it is
  unresolved, 1 while it is on the path and 2 when it is resolved; meeting the path again or leaving
  the vector is an error.  What a node does with the walk is the parameter \<open>step\<close>: an error, the end
  of the chain with a value (an option, as both callers have it), or the next node.
\<close>

datatype 'v chain_step = ChainEnd 'v | ChainNext nat

type_synonym 'v walk_state = "nat list \<times> 'v list"

definition resolve_path :: "nat list \<Rightarrow> 'v \<Rightarrow> 'v walk_state \<Rightarrow> 'v walk_state" where
  "resolve_path path v state =
     fold (\<lambda>i (states, vals). (states[i := 2], vals[i := v])) path state"

definition unvisited :: "nat list \<Rightarrow> nat" where
  "unvisited states = length (filter (\<lambda>s. s = 0) states)"

lemma unvisited_mark: "i < length states \<Longrightarrow> states ! i = 0 \<Longrightarrow> unvisited (states[i := Suc 0]) < unvisited states"
proof (induction states arbitrary: i)
  case (Cons s states)
  then show ?case by (cases i) (auto simp: unvisited_def)
qed simp

text \<open>\<open>path\<close> has the latest node first.\<close>

function chain_walk :: "(nat \<Rightarrow> 'e + 'v chain_step) \<Rightarrow> 'e \<Rightarrow> nat \<Rightarrow> nat list \<Rightarrow> 'v walk_state \<Rightarrow> 'e + 'v walk_state" where
  "chain_walk step err current path (states, vals) =
     (if \<not> current < length states then Inl err
      else if states ! current = 2 then Inr (resolve_path path (vals ! current) (states, vals))
      else if states ! current \<noteq> 0 then Inl err
      else
        (case step current of
           Inl e \<Rightarrow> Inl e
         | Inr (ChainEnd v) \<Rightarrow> Inr (resolve_path (current # path) v (states[current := 1], vals))
         | Inr (ChainNext i) \<Rightarrow> chain_walk step err i (current # path) (states[current := 1], vals)))"
  by pat_completeness auto
termination
  by (relation "measure (\<lambda>(step, err, current, path, (states, vals)). unvisited states)")
     (auto simp: unvisited_mark)

declare chain_walk.simps [simp del]

definition chain_values :: "(nat \<Rightarrow> 'e + 'v option chain_step) \<Rightarrow> 'e \<Rightarrow> nat \<Rightarrow> 'e + 'v option list" where
  "chain_values step err n =
     bind_result
       (fold_result
         (\<lambda>start (states, vals).
           if states ! start = 2 then Inr (states, vals) else chain_walk step err start [] (states, vals))
         [0 ..< n] (replicate n 0, replicate n None))
       (\<lambda>(states, vals). Inr vals)"

section \<open>The values\<close>

text \<open>What the chain of a node ends with, if it ends inside the first \<open>n\<close> nodes.\<close>

inductive chain_value :: "(nat \<Rightarrow> 'e + 'v chain_step) \<Rightarrow> nat \<Rightarrow> nat \<Rightarrow> 'v \<Rightarrow> bool" for step n where
  chain_value_end: "i < n \<Longrightarrow> step i = Inr (ChainEnd v) \<Longrightarrow> chain_value step n i v"
| chain_value_next: "i < n \<Longrightarrow> step i = Inr (ChainNext j) \<Longrightarrow> chain_value step n j v \<Longrightarrow> chain_value step n i v"

inductive_cases chain_valueE: "chain_value step n i v"

lemma chain_value_unique: "chain_value step n i v \<Longrightarrow> chain_value step n i w \<Longrightarrow> v = w"
proof (induction arbitrary: w rule: chain_value.induct)
  case (chain_value_end i v)
  from chain_value_end(3) show ?case by (cases rule: chain_value.cases) (use chain_value_end(2) in auto)
next
  case (chain_value_next i j v)
  from chain_value_next(5) show ?case
    by (cases rule: chain_value.cases) (use chain_value_next(2,4) in auto)
qed

lemma chain_value_bound: "chain_value step n i v \<Longrightarrow> i < n"
  by (induction rule: chain_value.induct) auto

fun chain_path :: "(nat \<Rightarrow> 'e + 'v chain_step) \<Rightarrow> nat \<Rightarrow> nat list \<Rightarrow> nat \<Rightarrow> bool" where
  "chain_path step n [] c = True"
| "chain_path step n (i # path) c = (i < n \<and> step i = Inr (ChainNext c) \<and> chain_path step n path i)"

lemma chain_path_value: "chain_path step n path c \<Longrightarrow> chain_value step n c v \<Longrightarrow> i \<in> set path \<Longrightarrow> chain_value step n i v"
proof (induction path arbitrary: c)
  case (Cons j path)
  from Cons.prems have "chain_value step n j v" by (auto intro: chain_value_next)
  with Cons show ?case by auto
qed simp

lemma chain_path_no_value:
  "chain_path step n path c \<Longrightarrow> \<nexists>v. chain_value step n c v \<Longrightarrow> i \<in> set path \<Longrightarrow> \<nexists>v. chain_value step n i v"
proof (induction path arbitrary: c)
  case (Cons j path)
  from Cons.prems have "\<nexists>v. chain_value step n j v" by (auto elim: chain_valueE)
  with Cons show ?case by auto
qed simp

text \<open>A node above itself on the path has no value.\<close>

inductive chain_height :: "(nat \<Rightarrow> 'e + 'v chain_step) \<Rightarrow> nat \<Rightarrow> nat \<Rightarrow> nat \<Rightarrow> bool" for step n where
  chain_height_end: "i < n \<Longrightarrow> step i = Inr (ChainEnd v) \<Longrightarrow> chain_height step n i 0"
| chain_height_next: "i < n \<Longrightarrow> step i = Inr (ChainNext j) \<Longrightarrow> chain_height step n j h \<Longrightarrow> chain_height step n i (Suc h)"

inductive_cases chain_heightE: "chain_height step n i h"

lemma chain_height_unique: "chain_height step n i h \<Longrightarrow> chain_height step n i k \<Longrightarrow> h = k"
proof (induction arbitrary: k rule: chain_height.induct)
  case (chain_height_end i v)
  from chain_height_end(3) show ?case by (cases rule: chain_height.cases) (use chain_height_end(2) in auto)
next
  case (chain_height_next i j h)
  from chain_height_next(5) show ?case
    by (cases rule: chain_height.cases) (use chain_height_next(2,4) in auto)
qed

lemma chain_value_has_height: "chain_value step n i v \<Longrightarrow> \<exists>h. chain_height step n i h"
  by (induction rule: chain_value.induct) (auto intro: chain_height.intros)

lemma chain_path_height:
  "chain_path step n path c \<Longrightarrow> chain_height step n c h \<Longrightarrow> i \<in> set path \<Longrightarrow> \<exists>k > h. chain_height step n i k"
proof (induction path arbitrary: c h)
  case (Cons j path)
  from Cons.prems have j: "chain_height step n j (Suc h)" by (auto intro: chain_height_next)
  show ?case
  proof (cases "i = j")
    case True
    with j show ?thesis by blast
  next
    case False
    with Cons.prems have "i \<in> set path" "chain_path step n path j" by auto
    from Cons.IH [OF this(2) j this(1)] obtain k where "Suc h < k" "chain_height step n i k" by blast
    then show ?thesis by (auto intro: Suc_lessD)
  qed
qed simp

lemma chain_cycle_no_value: "chain_path step n path c \<Longrightarrow> c \<in> set path \<Longrightarrow> \<nexists>v. chain_value step n c v"
  by (metis chain_path_height chain_height_unique chain_value_has_height nat_neq_iff)

section \<open>The walk computes the values\<close>

definition walk_ok :: "(nat \<Rightarrow> 'e + 'v chain_step) \<Rightarrow> nat \<Rightarrow> nat list \<Rightarrow> 'v walk_state \<Rightarrow> bool" where
  "walk_ok step n path st \<longleftrightarrow>
     length (fst st) = n \<and> length (snd st) = n \<and> set path \<subseteq> {..<n} \<and>
     (\<forall>i<n. fst st ! i = (if i \<in> set path then 1 else if fst st ! i = 2 then 2 else 0)) \<and>
     (\<forall>i<n. fst st ! i = 2 \<longrightarrow> chain_value step n i (snd st ! i))"

lemma resolve_path_Cons:
  "resolve_path (i # path) v (states, vals) = resolve_path path v (states[i := 2], vals[i := v])"
  by (simp add: resolve_path_def)

lemma resolve_path_nth:
  "set path \<subseteq> {..<length states} \<Longrightarrow> length vals = length states \<Longrightarrow>
   length (fst (resolve_path path v (states, vals))) = length states \<and>
   length (snd (resolve_path path v (states, vals))) = length states \<and>
   (\<forall>i<length states.
      fst (resolve_path path v (states, vals)) ! i = (if i \<in> set path then 2 else states ! i) \<and>
      snd (resolve_path path v (states, vals)) ! i = (if i \<in> set path then v else vals ! i))"
proof (induction path arbitrary: states vals)
  case Nil
  then show ?case by (simp add: resolve_path_def)
next
  case (Cons j path)
  from Cons.prems have j: "j < length states" by simp
  have ih: "length (fst (resolve_path path v (states[j := 2], vals[j := v]))) = length states \<and>
      length (snd (resolve_path path v (states[j := 2], vals[j := v]))) = length states \<and>
      (\<forall>i<length states.
        fst (resolve_path path v (states[j := 2], vals[j := v])) ! i = (if i \<in> set path then 2 else states[j := 2] ! i) \<and>
        snd (resolve_path path v (states[j := 2], vals[j := v])) ! i = (if i \<in> set path then v else vals[j := v] ! i))"
    using Cons.IH [of "states[j := 2]" "vals[j := v]"] Cons.prems by simp
  then show ?case using j Cons.prems(2) by (auto simp: resolve_path_Cons nth_list_update)
qed

lemma resolve_path_ok:
  assumes "walk_ok step n path (states, vals)" and "\<forall>i \<in> set path. chain_value step n i v"
  shows "walk_ok step n [] (resolve_path path v (states, vals)) \<and>
         (\<forall>i \<in> set path. fst (resolve_path path v (states, vals)) ! i = 2) \<and>
         (\<forall>i<n. states ! i = 2 \<longrightarrow> fst (resolve_path path v (states, vals)) ! i = 2)"
proof -
  from assms(1) have n: "length states = n" "length vals = n" "set path \<subseteq> {..<n}"
    and st: "\<forall>i<n. states ! i = (if i \<in> set path then 1 else if states ! i = 2 then 2 else 0)"
    and vs: "\<forall>i<n. states ! i = 2 \<longrightarrow> chain_value step n i (vals ! i)"
    by (simp_all add: walk_ok_def)
  let ?r = "resolve_path path v (states, vals)"
  from resolve_path_nth [of path states vals v] n
  have r: "length (fst ?r) = n" "length (snd ?r) = n"
    and nth1: "\<And>i. i < n \<Longrightarrow> fst ?r ! i = (if i \<in> set path then 2 else states ! i)"
    and nth2: "\<And>i. i < n \<Longrightarrow> snd ?r ! i = (if i \<in> set path then v else vals ! i)"
    by simp_all
  have "fst ?r ! i = (if i \<in> set [] then 1 else if fst ?r ! i = 2 then 2 else 0)" if "i < n" for i
    using nth1 [OF that] st that by (cases "i \<in> set path") auto
  moreover have "chain_value step n i (snd ?r ! i)" if "i < n" "fst ?r ! i = 2" for i
    using nth1 [OF that(1)] nth2 [OF that(1)] that vs assms(2) by (cases "i \<in> set path") auto
  moreover have "fst ?r ! i = 2" if "i \<in> set path" for i
    using nth1 [of i] n(3) that by auto
  moreover have "fst ?r ! i = 2" if "i < n" "states ! i = 2" for i
    using nth1 [OF that(1)] that(2) by simp
  ultimately show ?thesis using r by (simp add: walk_ok_def)
qed

lemma walk_ok_push:
  assumes "walk_ok step n path (states, vals)" "current < n" "states ! current = 0"
  shows "walk_ok step n (current # path) (states[current := 1], vals)"
proof -
  from assms(1) have n: "length states = n" "length vals = n" "set path \<subseteq> {..<n}"
    and st: "\<And>i. i < n \<Longrightarrow> states ! i = (if i \<in> set path then 1 else if states ! i = 2 then 2 else 0)"
    and vs: "\<And>i. i < n \<Longrightarrow> states ! i = 2 \<Longrightarrow> chain_value step n i (vals ! i)"
    by (simp_all add: walk_ok_def)
  have "states[current := 1] ! i = (if i \<in> set (current # path) then 1 else if states[current := 1] ! i = 2 then 2 else 0)"
    if "i < n" for i
  proof (cases "i = current")
    case True
    then show ?thesis using assms(2) n by simp
  next
    case False
    then show ?thesis using st [OF that] by (cases "i \<in> set path") (simp_all split: if_splits)
  qed
  moreover have "chain_value step n i (vals ! i)" if "i < n" "states[current := 1] ! i = 2" for i
    using vs [OF that(1)] that n by (cases "i = current") (simp_all add: assms)
  ultimately show ?thesis using n assms(2) by (simp add: walk_ok_def)
qed

lemma chain_walk_exact:
  "walk_ok step n path (states, vals) \<Longrightarrow> chain_path step n path current \<Longrightarrow>
   case chain_walk step err current path (states, vals) of
     Inl e \<Rightarrow> \<nexists>v. chain_value step n current v
   | Inr st \<Rightarrow> walk_ok step n [] st \<and> current < n \<and> (\<forall>i \<in> insert current (set path). fst st ! i = 2) \<and>
       (\<forall>i<n. states ! i = 2 \<longrightarrow> fst st ! i = 2)"
proof (induction step err current path "(states, vals)" arbitrary: states rule: chain_walk.induct)
  case (1 step err current path states)
  note ok = "1.prems"(1) and path = "1.prems"(2)
  have n: "length states = n" using ok by (simp add: walk_ok_def)
  consider "\<not> current < n" | "current < n" "states ! current = 2"
    | "current < n" "states ! current \<noteq> 2" "states ! current \<noteq> 0"
    | "current < n" "states ! current = 0"
    by linarith
  then show ?case
  proof cases
    case 1
    then show ?thesis using n by (subst chain_walk.simps) (auto dest: chain_value_bound)
  next
    case 2
    then have v: "chain_value step n current (vals ! current)" using ok by (simp add: walk_ok_def)
    with path have "\<forall>i \<in> set path. chain_value step n i (vals ! current)" by (blast intro: chain_path_value)
    from resolve_path_ok [OF ok this] 2 n show ?thesis by (subst chain_walk.simps) simp
  next
    case 3
    then have "current \<in> set path" using ok by (auto simp: walk_ok_def split: if_splits)
    with path have "\<nexists>v. chain_value step n current v" by (rule chain_cycle_no_value)
    then show ?thesis using 3 n by (subst chain_walk.simps) simp
  next
    case 4
    note push = walk_ok_push [OF ok 4]
    show ?thesis
    proof (cases "step current")
      case (Inl e)
      then have "\<nexists>v. chain_value step n current v" by (auto elim: chain_value.cases)
      then show ?thesis using 4 n Inl by (subst chain_walk.simps) simp
    next
      case (Inr s)
      show ?thesis
      proof (cases s)
        case (ChainEnd v)
        with Inr 4 have v: "chain_value step n current v" by (simp add: chain_value_end)
        with path have "\<forall>i \<in> set (current # path). chain_value step n i v"
          by (auto intro: chain_path_value)
        from resolve_path_ok [OF push this] have
          "walk_ok step n [] (resolve_path (current # path) v (states[current := 1], vals))"
          "\<forall>i \<in> set (current # path). fst (resolve_path (current # path) v (states[current := 1], vals)) ! i = 2"
          "\<forall>i<n. states ! i = 2 \<longrightarrow> fst (resolve_path (current # path) v (states[current := 1], vals)) ! i = 2"
          using 4 by (simp, simp, metis nth_list_update_neq zero_neq_numeral)
        then show ?thesis using 4 n Inr ChainEnd by (subst chain_walk.simps) simp
      next
        case (ChainNext j)
        have walk: "chain_walk step err current path (states, vals)
            = chain_walk step err j (current # path) (states[current := 1], vals)"
          using 4 n Inr ChainNext by (subst chain_walk.simps) simp
        have path': "chain_path step n (current # path) j" using Inr ChainNext path 4 by simp
        have ih: "case chain_walk step err j (current # path) (states[current := 1], vals) of
            Inl e \<Rightarrow> \<nexists>v. chain_value step n j v
          | Inr st \<Rightarrow> walk_ok step n [] st \<and> j < n \<and> (\<forall>i \<in> insert j (set (current # path)). fst st ! i = 2) \<and>
              (\<forall>i<n. states[current := 1] ! i = 2 \<longrightarrow> fst st ! i = 2)"
          by (rule "1.hyps" [OF _ _ _ Inr ChainNext push path']) (use 4 n in simp_all)
        show ?thesis
        proof (cases "chain_walk step err j (current # path) (states[current := 1], vals)")
          case L: (Inl e)
          with ih have "\<nexists>v. chain_value step n j v" by simp
          then have "\<nexists>v. chain_value step n current v"
            using chain_path_no_value [OF path'] by simp
          then show ?thesis unfolding walk L by simp
        next
          case R: (Inr st)
          with ih have "walk_ok step n [] st" "\<forall>i \<in> set (current # path). fst st ! i = 2"
            "\<forall>i<n. states[current := 1] ! i = 2 \<longrightarrow> fst st ! i = 2" by simp_all
          then show ?thesis using 4 unfolding walk R by (simp, metis nth_list_update_neq zero_neq_numeral)
        qed
      qed
    qed
  qed
qed

lemma chain_values_walks:
  "walk_ok step n [] (states, vals) \<Longrightarrow> set starts \<subseteq> {..<n} \<Longrightarrow>
   case fold_result
       (\<lambda>start (states, vals).
         if states ! start = 2 then Inr (states, vals) else chain_walk step err start [] (states, vals))
       starts (states, vals) of
     Inl e \<Rightarrow> \<exists>i \<in> set starts. \<nexists>v. chain_value step n i v
   | Inr st \<Rightarrow> walk_ok step n [] st \<and> (\<forall>i \<in> set starts. fst st ! i = 2) \<and>
       (\<forall>i<n. states ! i = 2 \<longrightarrow> fst st ! i = 2)"
proof (induction starts arbitrary: states vals)
  case Nil
  then show ?case by simp
next
  case (Cons start starts)
  let ?step = "\<lambda>start (states, vals).
         if states ! start = 2 then Inr (states, vals) else chain_walk step err start [] (states, vals)"
  from Cons.prems have s: "start < n" "set starts \<subseteq> {..<n}" by simp_all
  show ?case
  proof (cases "states ! start = 2")
    case True
    from Cons.IH [OF Cons.prems(1) s(2)] True s(1) show ?thesis
      by (cases "fold_result ?step starts (states, vals)") auto
  next
    case False
    from chain_walk_exact [OF Cons.prems(1), of start err]
    have w: "case chain_walk step err start [] (states, vals) of
        Inl e \<Rightarrow> \<nexists>v. chain_value step n start v
      | Inr st \<Rightarrow> walk_ok step n [] st \<and> start < n \<and> (\<forall>i \<in> insert start (set []). fst st ! i = 2) \<and>
          (\<forall>i<n. states ! i = 2 \<longrightarrow> fst st ! i = 2)" by simp
    show ?thesis
    proof (cases "chain_walk step err start [] (states, vals)")
      case (Inl e)
      with w False show ?thesis by simp
    next
      case (Inr st)
      obtain states' vals' where st: "st = (states', vals')" by (cases st)
      from w Inr st have w': "walk_ok step n [] (states', vals')" "states' ! start = 2"
        "\<forall>i<n. states ! i = 2 \<longrightarrow> states' ! i = 2" by simp_all
      from Cons.IH [OF w'(1) s(2)] w' Inr st False s(1) show ?thesis
        by (cases "fold_result ?step starts (states', vals')") auto
    qed
  qed
qed

text \<open>
  The outcome is the list of the values of all nodes; it is an error exactly when a chain leaves the
  vector, does not end or fails a check.
\<close>

lemma chain_values_exact:
  "case chain_values step err n of
     Inl e \<Rightarrow> \<exists>i<n. \<nexists>v. chain_value step n i v
   | Inr vals \<Rightarrow> length vals = n \<and> (\<forall>i<n. chain_value step n i (vals ! i))"
proof -
  let ?step = "\<lambda>start (states, vals).
         if states ! start = 2 then Inr (states, vals) else chain_walk step err start [] (states, vals)"
  have init: "walk_ok step n [] (replicate n 0, replicate n None)" by (simp add: walk_ok_def)
  have "set [0..<n] \<subseteq> {..<n}" by auto
  from chain_values_walks [OF init this, of err] show ?thesis
    by (cases "fold_result ?step [0..<n] (replicate n 0, replicate n None)")
       (auto simp: chain_values_def walk_ok_def)
qed

lemma chain_values_Inr_iff:
  "chain_values step err n = Inr vals \<longleftrightarrow>
     length vals = n \<and> (\<forall>i<n. chain_value step n i (vals ! i))" (is "?l \<longleftrightarrow> ?r")
proof
  assume ?l
  with chain_values_exact [where step = step and err = err and n = n] show ?r by simp
next
  assume r: ?r
  show ?l
  proof (cases "chain_values step err n")
    case (Inl e)
    with chain_values_exact [where step = step and err = err and n = n] r show ?thesis by auto
  next
    case (Inr vals')
    with chain_values_exact [where step = step and err = err and n = n] have "length vals' = n" "\<forall>i<n. chain_value step n i (vals' ! i)"
      by simp_all
    with r have "vals' = vals" by (intro nth_equalityI) (auto intro: chain_value_unique)
    with Inr show ?thesis by simp
  qed
qed

text \<open>The error is the one the walk reports itself or one of the steps.\<close>

lemma chain_walk_error:
  "chain_walk step err current path st = Inl e \<Longrightarrow> e = err \<or> (\<exists>i. step i = Inl e)"
proof (induction step err current path st rule: chain_walk.induct)
  case (1 step err current path states vals)
  have ih: "chain_walk step err j (current # path) (states[current := 1], vals) = Inl e \<Longrightarrow> ?case"
    if "current < length states" "states ! current = 0" "step current = Inr (ChainNext j)" for j
    by (rule "1.IH" [OF _ _ _ that(3) refl]) (use that in simp_all)
  from "1.prems" ih show ?case
    by (subst (asm) chain_walk.simps) (auto split: if_splits sum.splits chain_step.splits)
qed

lemma chain_values_error:
  assumes "chain_values step err n = Inl e" "\<And>i f. step i = Inl f \<Longrightarrow> f = err"
  shows "e = err"
proof -
  let ?step = "\<lambda>start (states, vals).
         if states ! start = 2 then Inr (states, vals) else chain_walk step err start [] (states, vals)"
  have "fold_result ?step starts st = Inl e \<Longrightarrow> e = err" for starts st
  proof (induction starts arbitrary: st)
    case (Cons start starts)
    obtain states vals where st: "st = (states, vals)" by (cases st)
    with Cons show ?case
      by (cases "?step start st") (auto split: if_splits dest!: chain_walk_error assms(2))
  qed simp
  with assms(1) show ?thesis by (auto simp: chain_values_def bind_result_eq_Inl)
qed

end
