(* ===== verification/Macro_Facts.thy ===== *)
theory Macro_Facts
  imports Chain_Walk Source_Units Ordered_Map
begin

text \<open>
  The tables about declarative macros, first half: which written units a macro rule's template or
  an invocation's input gave rise to (\<open>declarative_unit_census\<close>), the classification of the
  definitions and rules (\<open>validate_macro_rule_facts\<close>), the links of the tables to observed rules
  (\<open>validate_refined_rule_links\<close>), the templates, and the attribute invocations without an owner.
  Sources: \<open>src/source/declarative_macro/validation.rs\<close> and \<open>src/source.rs\<close>.
\<close>

section \<open>The census of refined units\<close>

datatype declarative_boundary = BoundaryRule | BoundaryInvocation

datatype declarative_unit_kind = TemplateComponent | MatcherElement

definition parent_step :: "written_unit list \<Rightarrow> written_unit \<Rightarrow> source_error + 'v option chain_step" where
  "parent_step us u =
     (case unit_parent u of
        None \<Rightarrow> Inr (ChainEnd None)
      | Some p \<Rightarrow> (case unit_at us p of None \<Rightarrow> Inl InvalidInventory | Some _ \<Rightarrow> Inr (ChainNext p)))"

definition census_step :: "written_unit list \<Rightarrow> nat \<Rightarrow> source_error + declarative_boundary option chain_step" where
  "census_step us current =
     (if unit_id (us ! current) \<noteq> current then Inl InvalidInventory
      else if unit_kind (us ! current) = MacroRule then Inr (ChainEnd (Some BoundaryRule))
      else if unit_kind (us ! current) = MacroInvocation then Inr (ChainEnd (Some BoundaryInvocation))
      else parent_step us (us ! current))"

record unit_census =
  census_kinds :: "declarative_unit_kind option list"
  template_units :: "source_unit_id set"
  matcher_units :: "source_unit_id set"

definition census_unit :: "declarative_boundary option list \<Rightarrow> written_unit \<Rightarrow> unit_census \<Rightarrow> unit_census" where
  "census_unit boundaries u census =
     (if unit_cfg u \<noteq> Active then census
      else case Option.bind (unit_parent u) (\<lambda>p. Option.bind (get_at boundaries p) (\<lambda>b. b)) of
        Some BoundaryRule \<Rightarrow>
          if unit_kind u \<in> {NestedItem, UseItem, UseLeaf} then
            census\<lparr>template_units := insert (unit_id u) (template_units census),
                   census_kinds := (if unit_kind u = NestedItem
                     then (census_kinds census)[unit_id u := Some TemplateComponent]
                     else census_kinds census)\<rparr>
          else census
      | Some BoundaryInvocation \<Rightarrow>
          if unit_kind u = NestedItem then
            census\<lparr>matcher_units := insert (unit_id u) (matcher_units census),
                   census_kinds := (census_kinds census)[unit_id u := Some MatcherElement]\<rparr>
          else census
      | None \<Rightarrow> census)"

definition declarative_unit_census :: "written_unit list \<Rightarrow> source_error + unit_census" where
  "declarative_unit_census us =
     bind_result (chain_values (census_step us) InvalidInventory (length us)) (\<lambda>boundaries.
       Inr (fold (census_unit boundaries) us
         \<lparr>census_kinds = replicate (length us) None, template_units = {}, matcher_units = {}\<rparr>))"

definition declarative_unit_kinds :: "written_unit list \<Rightarrow> source_error + declarative_unit_kind option list" where
  "declarative_unit_kinds us = bind_result (declarative_unit_census us) (\<lambda>census. Inr (census_kinds census))"

definition ancestor_step :: "written_unit list \<Rightarrow> nat \<Rightarrow> source_error + source_unit_id option chain_step" where
  "ancestor_step us current =
     (if unit_id (us ! current) \<noteq> current then Inl InvalidInventory
      else if unit_kind (us ! current) = MacroRule then Inr (ChainEnd (Some (unit_id (us ! current))))
      else parent_step us (us ! current))"

definition nearest_macro_rule_ancestors :: "written_unit list \<Rightarrow> source_error + source_unit_id option list" where
  "nearest_macro_rule_ancestors us = chain_values (ancestor_step us) InvalidInventory (length us)"

section \<open>Macro definitions and rules\<close>

definition validate_rule :: "written_unit list \<Rightarrow> source_unit_id \<Rightarrow> source_unit_id \<Rightarrow> source_unit_id set \<Rightarrow> source_error + source_unit_id set" where
  "validate_rule us owner rule classified =
     (case get_at us rule of
        None \<Rightarrow> Inl InvalidInventory
      | Some u \<Rightarrow>
          if unit_kind u \<noteq> MacroRule \<or> unit_cfg u \<noteq> Active \<or> unit_parent u \<noteq> Some owner \<or> rule \<in> classified
          then Inl InvalidInventory else Inr (insert rule classified))"

fun validate_rule_facts ::
  "written_unit list \<Rightarrow> macro_rule_facts \<Rightarrow> source_unit_id set \<times> source_unit_id set
     \<Rightarrow> source_error + source_unit_id set \<times> source_unit_id set" where
  "validate_rule_facts us facts (seen, classified) =
     (case get_at us (rules_definition facts) of
        None \<Rightarrow> Inl InvalidInventory
      | Some owner \<Rightarrow>
          if unit_kind owner \<noteq> MacroDefinition \<or> unit_cfg owner \<noteq> Active \<or> unit_id owner \<in> seen
          then Inl InvalidInventory
          else case facts of
            WholeRules _ \<Rightarrow> Inr (insert (unit_id owner) seen, classified)
          | RefinedRules _ rules observed \<Rightarrow>
              if rules = [] \<or> card (set rules) \<noteq> length rules \<or> \<not> set observed \<subseteq> set rules
                 \<or> list_ex (\<lambda>(a, b). a > b) (windows2 observed)
              then Inl InvalidInventory
              else bind_result (fold_result (validate_rule us (unit_id owner)) (sorted_list_of_set (set rules)) classified)
                     (\<lambda>classified. Inr (insert (unit_id owner) seen, classified)))"

definition validate_macro_rule_facts :: "written_unit list \<Rightarrow> macro_rule_facts list \<Rightarrow> source_error + unit" where
  "validate_macro_rule_facts us tables =
     bind_result (fold_result (validate_rule_facts us) tables ({}, {})) (\<lambda>(seen, classified).
       if classified \<noteq> set (map unit_id (filter (\<lambda>u. unit_kind u = MacroRule) us)) then Inl InvalidInventory
       else if seen \<noteq> set (map unit_id (filter (\<lambda>u. unit_kind u = MacroDefinition \<and> unit_cfg u = Active) us))
       then Inl InvalidInventory
       else Inr ())"

section \<open>Links to the observed rules\<close>

text \<open>
  The map from a refined rule to whether it was selected.  \<open>validate_macro_rule_facts\<close> ran before,
  so the rules are positions of units.
\<close>

definition refine_rule ::
  "source_unit_id list \<Rightarrow> source_unit_id \<Rightarrow> (source_unit_id \<rightharpoonup> bool) \<Rightarrow> source_error + (source_unit_id \<rightharpoonup> bool)" where
  "refine_rule observed rule refined =
     (if refined rule \<noteq> None then Inl InvalidInventory else Inr (refined(rule \<mapsto> rule \<in> set observed)))"

fun refine_rules ::
  "written_unit list \<Rightarrow> macro_rule_facts \<Rightarrow> (source_unit_id \<rightharpoonup> bool) \<Rightarrow> source_error + (source_unit_id \<rightharpoonup> bool)" where
  "refine_rules us (WholeRules _) refined = Inr refined"
| "refine_rules us (RefinedRules _ rules observed) refined =
     (if list_ex (\<lambda>(a, b). br_start (full_range (us ! a)) \<ge> br_start (full_range (us ! b))) (windows2 rules)
      then Inl InvalidInventory
      else fold_result (refine_rule observed) rules refined)"

definition validate_refined_rule_links ::
  "written_unit list \<Rightarrow> macro_rule_facts list \<Rightarrow> macro_template_facts list \<Rightarrow> macro_capture_slot list
     \<Rightarrow> macro_repetition list \<Rightarrow> source_error + unit" where
  "validate_refined_rule_links us tables templates slots repetitions =
     bind_result (fold_result (refine_rules us) tables Map.empty) (\<lambda>refined.
       if list_ex (\<lambda>t. refined (template_rule t) \<noteq> Some True) templates
          \<or> list_ex (\<lambda>s. refined (slot_rule s) \<noteq> Some True) slots
          \<or> list_ex (\<lambda>r. refined (rep_rule r) \<noteq> Some True) repetitions
       then Inl InvalidInventory else Inr ())"

section \<open>Templates\<close>

definition active_unit :: "written_unit list \<Rightarrow> source_unit_id \<Rightarrow> source_error + written_unit" where
  "active_unit us i =
     ok_or (case get_at us i of
              None \<Rightarrow> None | Some u \<Rightarrow> if unit_id u = i \<and> unit_cfg u = Active then Some u else None)
       InvalidInventory"

definition validate_template ::
  "written_unit list \<Rightarrow> source_unit_id option list \<Rightarrow> macro_template_facts \<Rightarrow> source_unit_id set
     \<Rightarrow> source_error + source_unit_id set" where
  "validate_template us ancestors facts actual =
     bind_result (active_unit us (template_unit facts)) (\<lambda>u.
     bind_result (active_unit us (template_rule facts)) (\<lambda>rule.
       if unit_kind u \<notin> {NestedItem, UseItem, UseLeaf} \<or> unit_kind rule \<noteq> MacroRule
          \<or> range_is_empty (full_range u) \<or> ancestors ! unit_id u \<noteq> Some (unit_id rule) \<or> unit_id u \<in> actual
       then Inl InvalidInventory else Inr (insert (unit_id u) actual)))"

definition template_key :: "macro_template_facts \<Rightarrow> source_unit_id \<times> source_unit_id" where
  "template_key t = (template_unit t, template_rule t)"

definition validate_templates ::
  "written_unit list \<Rightarrow> macro_template_facts list \<Rightarrow> macro_capture_slot list \<Rightarrow> source_unit_id set
     \<Rightarrow> source_error + unit" where
  "validate_templates us templates slots expected =
     (if list_ex (\<lambda>(a, b). template_key a \<ge> template_key b) (windows2 templates) then Inl InvalidInventory
      else
        bind_result (nearest_macro_rule_ancestors us) (\<lambda>ancestors.
        bind_result (fold_result (validate_template us ancestors) templates {}) (\<lambda>actual.
          let capture_units = set (map slot_unit slots)
          in if card capture_units \<noteq> length slots \<or> actual \<inter> capture_units \<noteq> {} then Inl InvalidInventory
             else check_that (actual \<union> capture_units = expected) InvalidInventory)))"

section \<open>Attribute invocations without an owner\<close>

definition ownerless_target ::
  "written_unit list \<Rightarrow> source_unit_id \<Rightarrow> (source_unit_id \<times> source_unit_id set) list
     \<Rightarrow> source_error + (source_unit_id \<times> source_unit_id set) list" where
  "ownerless_target us i targets =
     bind_result (ok_or (get_at us i) InvalidInventory) (\<lambda>invocation.
     bind_result (ok_or (unit_parent invocation) InvalidInventory) (\<lambda>target_id.
     bind_result (ok_or (get_at us target_id) InvalidInventory) (\<lambda>target.
       if unit_kind invocation \<noteq> MacroInvocation \<or> unit_cfg invocation \<noteq> Active
          \<or> unit_parent invocation \<noteq> Some (unit_id target)
          \<or> atomic_group invocation \<noteq> atomic_group target
          \<or> unit_cfg target \<noteq> Active
          \<or> unit_kind target \<notin> {MacroInvocation, Item, NestedItem, InlineModule}
       then Inl InvalidInventory
       else if unit_kind target \<noteq> MacroInvocation then
         Inr (entry_update (unit_id target)
                (\<lambda>old. insert (unit_id invocation) (case old of None \<Rightarrow> {} | Some s \<Rightarrow> s)) targets)
       else Inr targets)))"

definition ownerless_conflict :: "source_unit_id \<Rightarrow> source_unit_id set \<Rightarrow> written_unit \<Rightarrow> bool" where
  "ownerless_conflict target allowed u \<longleftrightarrow>
     unit_parent u = Some target \<and> unit_id u \<notin> allowed
     \<or> (case unit_parent u of None \<Rightarrow> False | Some p \<Rightarrow> p \<in> allowed)"

definition validate_ownerless_attribute_invocations ::
  "written_unit list \<Rightarrow> source_unit_id list \<Rightarrow> source_error + unit" where
  "validate_ownerless_attribute_invocations us invocations =
     (if list_ex (\<lambda>(a, b). a \<ge> b) (windows2 invocations) then Inl InvalidInventory
      else
        bind_result (fold_result (ownerless_target us) invocations []) (\<lambda>targets.
          if list_ex (\<lambda>(target, allowed). list_ex (ownerless_conflict target allowed) us) targets
          then Inl InvalidInventory else Inr ()))"

section \<open>The census is the nearest syntax boundary\<close>

inductive nearest_boundary :: "written_unit list \<Rightarrow> source_unit_id \<Rightarrow> declarative_boundary option \<Rightarrow> bool" for us where
  boundary_rule: "i < length us \<Longrightarrow> unit_kind (us ! i) = MacroRule \<Longrightarrow> nearest_boundary us i (Some BoundaryRule)"
| boundary_invocation: "i < length us \<Longrightarrow> unit_kind (us ! i) = MacroInvocation
    \<Longrightarrow> nearest_boundary us i (Some BoundaryInvocation)"
| boundary_none: "i < length us \<Longrightarrow> unit_kind (us ! i) \<notin> {MacroRule, MacroInvocation} \<Longrightarrow> unit_parent (us ! i) = None
    \<Longrightarrow> nearest_boundary us i None"
| boundary_above: "i < length us \<Longrightarrow> unit_kind (us ! i) \<notin> {MacroRule, MacroInvocation} \<Longrightarrow> unit_parent (us ! i) = Some p
    \<Longrightarrow> nearest_boundary us p b \<Longrightarrow> nearest_boundary us i b"

inductive_cases nearest_boundaryE: "nearest_boundary us i b"

lemma census_step_boundary:
  assumes "chain_value (census_step us) (length us) i b"
  shows "nearest_boundary us i b"
  using assms
proof (induction rule: chain_value.induct)
  case (chain_value_end i v)
  then show ?case
    by (auto simp: census_step_def parent_step_def split: if_splits option.splits intro: nearest_boundary.intros)
next
  case (chain_value_next i j v)
  then have "unit_kind (us ! i) \<notin> {MacroRule, MacroInvocation}" "unit_parent (us ! i) = Some j"
    by (auto simp: census_step_def parent_step_def split: if_splits option.splits)
  with chain_value_next show ?case by (blast intro: boundary_above)
qed

lemma nearest_boundary_bound: "nearest_boundary us i b \<Longrightarrow> i < length us"
  by (induction rule: nearest_boundary.induct) auto

lemma boundary_census_step:
  assumes "nearest_boundary us i b" "dense_ids us"
  shows "chain_value (census_step us) (length us) i b"
  using assms(1)
proof (induction rule: nearest_boundary.induct)
  case (boundary_above i p b)
  then have "p < length us" using nearest_boundary_bound by blast
  with boundary_above assms(2) have "census_step us i = Inr (ChainNext p)"
    by (simp add: census_step_def parent_step_def dense_ids_def unit_at_def get_at_def)
  with boundary_above show ?case by (blast intro: chain_value_next)
qed (use assms(2) in \<open>auto simp: census_step_def parent_step_def dense_ids_def intro!: chain_value_end\<close>)

definition boundaries_resolve :: "written_unit list \<Rightarrow> bool" where
  "boundaries_resolve us \<longleftrightarrow> dense_ids us \<and> (\<forall>i < length us. \<exists>b. nearest_boundary us i b)"

lemma census_step_id: "chain_value (census_step us) n i b \<Longrightarrow> unit_id (us ! i) = i"
  by (erule chain_value.cases) (auto simp: census_step_def split: if_splits)

lemma census_values:
  "case chain_values (census_step us) InvalidInventory (length us) of
     Inl e \<Rightarrow> \<not> boundaries_resolve us
   | Inr bs \<Rightarrow> dense_ids us \<and> length bs = length us \<and> (\<forall>i < length us. nearest_boundary us i (bs ! i))"
proof (cases "chain_values (census_step us) InvalidInventory (length us)")
  case (Inl e)
  with chain_values_exact [where step = "census_step us" and err = InvalidInventory and n = "length us"]
  obtain i where "i < length us" "\<nexists>b. chain_value (census_step us) (length us) i b" by auto
  then have "\<not> boundaries_resolve us" by (auto simp: boundaries_resolve_def dest: boundary_census_step)
  with Inl show ?thesis by simp
next
  case (Inr bs)
  with chain_values_exact [where step = "census_step us" and err = InvalidInventory and n = "length us"]
  show ?thesis by (auto simp: dense_ids_def dest: census_step_boundary census_step_id)
qed

lemma nearest_boundary_unique: "nearest_boundary us i b \<Longrightarrow> nearest_boundary us i c \<Longrightarrow> b = c"
proof (induction arbitrary: c rule: nearest_boundary.induct)
  case (boundary_above i p b)
  from boundary_above(6) show ?case
    by (cases rule: nearest_boundary.cases) (use boundary_above(2,3,5) in auto)
qed (erule nearest_boundary.cases; simp)+

text \<open>What refinement made of a unit: decided by its own state and kind and the boundary above it.\<close>

definition boundary_above_unit :: "written_unit list \<Rightarrow> written_unit \<Rightarrow> declarative_boundary \<Rightarrow> bool" where
  "boundary_above_unit us u b \<longleftrightarrow>
     unit_cfg u = Active \<and> (\<exists>p. unit_parent u = Some p \<and> nearest_boundary us p (Some b))"

definition template_member :: "written_unit list \<Rightarrow> written_unit \<Rightarrow> bool" where
  "template_member us u \<longleftrightarrow>
     boundary_above_unit us u BoundaryRule \<and> unit_kind u \<in> {NestedItem, UseItem, UseLeaf}"

definition matcher_member :: "written_unit list \<Rightarrow> written_unit \<Rightarrow> bool" where
  "matcher_member us u \<longleftrightarrow> boundary_above_unit us u BoundaryInvocation \<and> unit_kind u = NestedItem"

definition refined_kind :: "written_unit list \<Rightarrow> written_unit \<Rightarrow> declarative_unit_kind option" where
  "refined_kind us u =
     (if template_member us u \<and> unit_kind u = NestedItem then Some TemplateComponent
      else if matcher_member us u then Some MatcherElement else None)"

lemma boundary_lookup:
  assumes "length bs = length us" "\<forall>i < length us. nearest_boundary us i (bs ! i)"
  shows "Option.bind (unit_parent u) (\<lambda>p. Option.bind (get_at bs p) (\<lambda>b. b)) = Some b
    \<longleftrightarrow> (\<exists>p. unit_parent u = Some p \<and> nearest_boundary us p (Some b))"
proof (cases "unit_parent u")
  case (Some p)
  show ?thesis
  proof (cases "p < length us")
    case True
    from Some True assms(1) have l: "Option.bind (unit_parent u) (\<lambda>p. Option.bind (get_at bs p) (\<lambda>b. b)) = bs ! p"
      by (simp add: get_at_def)
    from assms(2) True have "nearest_boundary us p (bs ! p)" by simp
    then have "nearest_boundary us p (Some b) \<longleftrightarrow> bs ! p = Some b" by (auto dest: nearest_boundary_unique)
    with Some l show ?thesis by simp
  next
    case False
    then have "Option.bind (get_at bs p) (\<lambda>b. b) = None" using assms(1) by (simp add: get_at_def)
    with Some False show ?thesis by (auto dest: nearest_boundary_bound)
  qed
qed simp

lemma census_unit_cases:
  assumes "length bs = length us" "\<forall>i < length us. nearest_boundary us i (bs ! i)"
  shows "census_unit bs u census =
    census\<lparr>template_units := (if template_member us u then insert (unit_id u) (template_units census) else template_units census),
           matcher_units := (if matcher_member us u then insert (unit_id u) (matcher_units census) else matcher_units census),
           census_kinds := (case refined_kind us u of None \<Rightarrow> census_kinds census
              | Some k \<Rightarrow> (census_kinds census)[unit_id u := Some k])\<rparr>"
proof -
  let ?b = "Option.bind (unit_parent u) (\<lambda>p. Option.bind (get_at bs p) (\<lambda>b. b))"
  note look = boundary_lookup [OF assms, of u]
  consider "unit_cfg u \<noteq> Active" | "unit_cfg u = Active" "?b = None"
    | b where "unit_cfg u = Active" "?b = Some b" by (cases ?b) auto
  then show ?thesis
  proof cases
    case 3
    have above: "boundary_above_unit us u c \<longleftrightarrow> c = b" for c
      using look [of c] 3 by (auto simp: boundary_above_unit_def)
    show ?thesis
      by (cases b) (simp_all add: census_unit_def 3 template_member_def matcher_member_def refined_kind_def above)
  qed (use look in \<open>auto simp: census_unit_def template_member_def matcher_member_def refined_kind_def boundary_above_unit_def\<close>)
qed

lemma census_fold:
  assumes "length bs = length us" "\<forall>i < length us. nearest_boundary us i (bs ! i)" "dense_ids us" "k \<le> length us"
  shows "fold (census_unit bs) (take k us)
      \<lparr>census_kinds = replicate (length us) None, template_units = {}, matcher_units = {}\<rparr>
    = \<lparr>census_kinds = map (\<lambda>i. refined_kind us (us ! i)) [0..<k] @ replicate (length us - k) None,
       template_units = {i. i < k \<and> template_member us (us ! i)},
       matcher_units = {i. i < k \<and> matcher_member us (us ! i)}\<rparr>"
  using assms(4)
proof (induction k)
  case (Suc k)
  then have k: "k < length us" "take (Suc k) us = take k us @ [us ! k]" by (simp_all add: take_Suc_conv_app_nth)
  have id: "unit_id (us ! k) = k" using assms(3) k by (simp add: dense_ids_def)
  have sets: "{i. i < Suc k \<and> P i} = (if P k then insert k {i. i < k \<and> P i} else {i. i < k \<and> P i})" for P
    by (auto simp: less_Suc_eq)
  have repl: "replicate (length us - k) None = None # replicate (length us - Suc k) None"
    using k by (metis Suc_diff_Suc replicate_Suc)
  show ?case
    using Suc.IH k id by (simp add: census_unit_cases [OF assms(1,2)] sets repl list_update_append split: option.splits)
qed simp

text \<open>C32. The census of refined units succeeds exactly when the identifiers are dense and every parent
  chain reaches a macro rule, an invocation or the root, and then lists as template units the active
  items, uses and use leaves whose nearest boundary above is a rule, as matcher units the active items
  whose nearest boundary above is an invocation, and the kind of each.\<close>

theorem declarative_unit_census_exact:
  "case declarative_unit_census us of
     Inl e \<Rightarrow> \<not> boundaries_resolve us
   | Inr census \<Rightarrow> boundaries_resolve us
       \<and> template_units census = {i. i < length us \<and> template_member us (us ! i)}
       \<and> matcher_units census = {i. i < length us \<and> matcher_member us (us ! i)}
       \<and> census_kinds census = map (refined_kind us) us"
proof (cases "chain_values (census_step us) InvalidInventory (length us)")
  case (Inl e)
  with census_values [of us] show ?thesis by (simp add: declarative_unit_census_def)
next
  case (Inr bs)
  with census_values [of us] have bs: "length bs = length us" "\<forall>i < length us. nearest_boundary us i (bs ! i)"
    "dense_ids us" by simp_all
  have "map (\<lambda>i. refined_kind us (us ! i)) [0..<length us] = map (refined_kind us) us"
    by (rule nth_equalityI) simp_all
  with census_fold [OF bs order_refl] bs show ?thesis
    by (auto simp: declarative_unit_census_def Inr boundaries_resolve_def)
qed

section \<open>The classification of definitions and rules\<close>

fun pairwise_disjoint :: "'a set list \<Rightarrow> bool" where
  "pairwise_disjoint [] = True"
| "pairwise_disjoint (A # As) = (A \<inter> \<Union> (set As) = {} \<and> pairwise_disjoint As)"

definition rules_of :: "macro_rule_facts \<Rightarrow> source_unit_id list" where
  "rules_of facts = (case facts of WholeRules _ \<Rightarrow> [] | RefinedRules _ rules _ \<Rightarrow> rules)"

definition rule_under :: "written_unit list \<Rightarrow> source_unit_id \<Rightarrow> source_unit_id \<Rightarrow> bool" where
  "rule_under us owner r \<longleftrightarrow>
     r < length us \<and> unit_kind (us ! r) = MacroRule \<and> unit_cfg (us ! r) = Active \<and> unit_parent (us ! r) = Some owner"

definition rule_entry_ok :: "written_unit list \<Rightarrow> macro_rule_facts \<Rightarrow> bool" where
  "rule_entry_ok us facts \<longleftrightarrow>
     rules_definition facts < length us
     \<and> unit_kind (us ! rules_definition facts) = MacroDefinition
     \<and> unit_cfg (us ! rules_definition facts) = Active
     \<and> (case facts of WholeRules _ \<Rightarrow> True
        | RefinedRules owner rules observed \<Rightarrow>
            rules \<noteq> [] \<and> distinct rules \<and> set observed \<subseteq> set rules \<and> sorted observed
            \<and> list_all (rule_under us owner) rules)"

lemma validate_rules_fold:
  "fold_result (validate_rule us owner) rs classified =
     (if list_all (rule_under us owner) rs \<and> distinct rs \<and> set rs \<inter> classified = {}
      then Inr (classified \<union> set rs) else Inl InvalidInventory)"
proof (induction rs arbitrary: classified)
  case (Cons r rs)
  have "validate_rule us owner r classified =
      (if rule_under us owner r \<and> r \<notin> classified then Inr (insert r classified) else Inl InvalidInventory)"
    by (auto simp: validate_rule_def rule_under_def get_at_def)
  with Cons show ?case by auto
qed simp

lemma observed_sorted: "list_ex (\<lambda>(a, b). a > b) (windows2 xs) \<longleftrightarrow> \<not> sorted (xs :: nat list)"
proof -
  have "\<not> list_ex (\<lambda>(a, b). a > b) (windows2 xs) \<longleftrightarrow> (\<forall>(a, b) \<in> set (windows2 xs). a \<le> b)"
    by (auto simp: list_ex_iff)
  also have "\<dots> \<longleftrightarrow> sorted xs" by (rule windows2_sorted_wrt) simp
  finally show ?thesis by blast
qed

declare validate_rule_facts.simps [simp del]

lemma validate_rule_facts_step:
  assumes "dense_ids us"
  shows "validate_rule_facts us facts (seen, classified) =
    (if rule_entry_ok us facts \<and> rules_definition facts \<notin> seen \<and> set (rules_of facts) \<inter> classified = {}
     then Inr (insert (rules_definition facts) seen, classified \<union> set (rules_of facts))
     else Inl InvalidInventory)"
proof (cases "rules_definition facts < length us")
  case True
  then have id: "unit_id (us ! rules_definition facts) = rules_definition facts"
    using assms by (simp add: dense_ids_def)
  show ?thesis
  proof (cases facts)
    case (WholeRules owner)
    with True id show ?thesis by (simp add: validate_rule_facts.simps rule_entry_ok_def rules_of_def get_at_def)
  next
    case (RefinedRules owner rules observed)
    have "list_all (rule_under us owner) (sorted_list_of_set (set rules)) = list_all (rule_under us owner) rules"
      by (simp add: list_all_iff)
    with True id RefinedRules show ?thesis
      by (auto simp: validate_rule_facts.simps rule_entry_ok_def rules_of_def get_at_def validate_rules_fold observed_sorted card_set_distinct)
  qed
next
  case False
  then show ?thesis by (simp add: validate_rule_facts.simps rule_entry_ok_def get_at_def)
qed

lemma validate_rule_facts_fold:
  assumes "dense_ids us"
  shows "fold_result (validate_rule_facts us) tables (seen, classified) =
    (if list_all (rule_entry_ok us) tables \<and> distinct (map rules_definition tables)
        \<and> set (map rules_definition tables) \<inter> seen = {}
        \<and> pairwise_disjoint (map (\<lambda>t. set (rules_of t)) tables)
        \<and> \<Union> (set (map (\<lambda>t. set (rules_of t)) tables)) \<inter> classified = {}
     then Inr (seen \<union> set (map rules_definition tables), classified \<union> \<Union> (set (map (\<lambda>t. set (rules_of t)) tables)))
     else Inl InvalidInventory)"
proof (induction tables arbitrary: seen classified)
  case (Cons t tables)
  show ?case
  proof (cases "rule_entry_ok us t \<and> rules_definition t \<notin> seen \<and> set (rules_of t) \<inter> classified = {}")
    case True
    then have "fold_result (validate_rule_facts us) (t # tables) (seen, classified)
      = fold_result (validate_rule_facts us) tables (insert (rules_definition t) seen, classified \<union> set (rules_of t))"
      by (simp add: validate_rule_facts_step [OF assms])
    also note Cons.IH
    finally show ?thesis using True by (auto simp: Un_assoc)
  next
    case False
    then show ?thesis by (auto simp: validate_rule_facts_step [OF assms])
  qed
qed simp

text \<open>
  What the two tables of a consistent inventory say: every active macro definition is listed once,
  and the rules of the refined ones partition the macro rules.
\<close>

definition rule_tables_ok :: "written_unit list \<Rightarrow> macro_rule_facts list \<Rightarrow> bool" where
  "rule_tables_ok us tables \<longleftrightarrow>
     list_all (rule_entry_ok us) tables
     \<and> distinct (map rules_definition tables)
     \<and> pairwise_disjoint (map (\<lambda>t. set (rules_of t)) tables)
     \<and> set (map rules_definition tables)
         = {i. i < length us \<and> unit_kind (us ! i) = MacroDefinition \<and> unit_cfg (us ! i) = Active}
     \<and> \<Union> (set (map (\<lambda>t. set (rules_of t)) tables)) = {i. i < length us \<and> unit_kind (us ! i) = MacroRule}"

lemma unit_ids_where:
  assumes "dense_ids us"
  shows "unit_id ` {u \<in> set us. P u} = {i. i < length us \<and> P (us ! i)}"
proof (intro equalityI subsetI)
  fix i assume "i \<in> unit_id ` {u \<in> set us. P u}"
  then obtain j where "j < length us" "P (us ! j)" "i = unit_id (us ! j)" by (auto simp: in_set_conv_nth)
  with assms show "i \<in> {i. i < length us \<and> P (us ! i)}" by (simp add: dense_ids_def)
next
  fix i assume "i \<in> {i. i < length us \<and> P (us ! i)}"
  with assms have "us ! i \<in> {u \<in> set us. P u}" "i = unit_id (us ! i)" by (simp_all add: dense_ids_def)
  then show "i \<in> unit_id ` {u \<in> set us. P u}" by blast
qed

lemma dense_ids_iff: "dense_ids us \<longleftrightarrow> map unit_id us = [0..<length us]"
proof
  assume "dense_ids us"
  then show "map unit_id us = [0..<length us]" by (intro nth_equalityI) (simp_all add: dense_ids_def)
next
  assume "map unit_id us = [0..<length us]"
  then have "map unit_id us ! i = [0..<length us] ! i" for i by simp
  then show "dense_ids us" by (simp add: dense_ids_def) (metis add_0 nth_map nth_upt)
qed

lemma tables_decision:
  "bind_result (if P \<and> Q \<and> s \<inter> {} = {} \<and> R \<and> c \<inter> {} = {} then Inr ({} \<union> s, {} \<union> c) else Inl e)
      (\<lambda>(seen, classified). if classified \<noteq> C then Inl e else if seen \<noteq> D then Inl e else Inr ())
    = (if P \<and> Q \<and> R \<and> s = D \<and> c = C then Inr () else Inl e)"
  by simp

text \<open>C33. The classification of macro definitions and rules is accepted exactly when it lists every
  active macro definition once, each refined entry has distinct active rules of that definition with a
  sorted list of selections among them, and the refined rules are together all macro rules, none twice;
  it is rejected as an invalid inventory otherwise.\<close>

theorem validate_macro_rule_facts_exact:
  assumes "dense_ids us"
  shows "validate_macro_rule_facts us tables = (if rule_tables_ok us tables then Inr () else Inl InvalidInventory)"
proof -
  obtain D C where dc: "D = {i. i < length us \<and> unit_kind (us ! i) = MacroDefinition \<and> unit_cfg (us ! i) = Active}"
      "C = {i. i < length us \<and> unit_kind (us ! i) = MacroRule}" by blast
  then have "set (map unit_id (filter (\<lambda>u. unit_kind u = MacroDefinition \<and> unit_cfg u = Active) us)) = D"
      "set (map unit_id (filter (\<lambda>u. unit_kind u = MacroRule) us)) = C"
    by (simp_all add: unit_ids_where [OF assms])
  then show ?thesis
    unfolding validate_macro_rule_facts_def validate_rule_facts_fold [OF assms] rule_tables_ok_def dc [symmetric]
    by (simp only: tables_decision)
qed

definition sample_unit :: "source_unit_id \<Rightarrow> written_unit_kind \<Rightarrow> nat \<Rightarrow> nat \<Rightarrow> source_unit_id option \<Rightarrow> written_unit" where
  "sample_unit i k a b p =
     \<lparr>unit_id = i, unit_kind = k, full_range = ByteRange a b, unit_parent = p, unit_cfg = Active,
      atomic_group = i, same_role_ordinal = 0\<rparr>"

definition sample_macro_units :: "written_unit list" where
  "sample_macro_units =
     [sample_unit 0 CrateRoot 0 40 None, sample_unit 1 MacroDefinition 0 30 (Some 0),
      sample_unit 2 MacroRule 5 15 (Some 1), sample_unit 3 MacroRule 16 28 (Some 1)]"

lemma validate_macro_rule_facts_exact_witness:
  "validate_macro_rule_facts sample_macro_units [RefinedRules 1 [2, 3] [2, 2]]
     = (if rule_tables_ok sample_macro_units [RefinedRules 1 [2, 3] [2, 2]] then Inr () else Inl InvalidInventory)"
  by (rule validate_macro_rule_facts_exact)
     (simp add: dense_ids_iff sample_macro_units_def sample_unit_def upt_rec)

section \<open>Templates and slots share out the template units\<close>

inductive nearest_rule :: "written_unit list \<Rightarrow> source_unit_id \<Rightarrow> source_unit_id option \<Rightarrow> bool" for us where
  rule_found: "i < length us \<Longrightarrow> unit_kind (us ! i) = MacroRule \<Longrightarrow> nearest_rule us i (Some i)"
| rule_none: "i < length us \<Longrightarrow> unit_kind (us ! i) \<noteq> MacroRule \<Longrightarrow> unit_parent (us ! i) = None \<Longrightarrow> nearest_rule us i None"
| rule_above: "i < length us \<Longrightarrow> unit_kind (us ! i) \<noteq> MacroRule \<Longrightarrow> unit_parent (us ! i) = Some p
    \<Longrightarrow> nearest_rule us p r \<Longrightarrow> nearest_rule us i r"

lemma nearest_rule_bound: "nearest_rule us i r \<Longrightarrow> i < length us"
  by (induction rule: nearest_rule.induct) auto

lemma ancestor_step_rule:
  "chain_value (ancestor_step us) (length us) i r \<Longrightarrow> nearest_rule us i r"
proof (induction rule: chain_value.induct)
  case (chain_value_end i v)
  then show ?case
    by (auto simp: ancestor_step_def parent_step_def split: if_splits option.splits intro: nearest_rule.intros)
next
  case (chain_value_next i j v)
  then have "unit_kind (us ! i) \<noteq> MacroRule" "unit_parent (us ! i) = Some j"
    by (auto simp: ancestor_step_def parent_step_def split: if_splits option.splits)
  with chain_value_next show ?case by (blast intro: rule_above)
qed

lemma rule_ancestor_step:
  assumes "nearest_rule us i r" "dense_ids us"
  shows "chain_value (ancestor_step us) (length us) i r"
  using assms(1)
proof (induction rule: nearest_rule.induct)
  case (rule_above i p r)
  then have "p < length us" using nearest_rule_bound by blast
  with rule_above assms(2) have "ancestor_step us i = Inr (ChainNext p)"
    by (simp add: ancestor_step_def parent_step_def dense_ids_def unit_at_def get_at_def)
  with rule_above show ?case by (blast intro: chain_value_next)
qed (use assms(2) in \<open>auto simp: ancestor_step_def parent_step_def dense_ids_def intro!: chain_value_end\<close>)

lemma nearest_rule_iff:
  "dense_ids us \<Longrightarrow> chain_value (ancestor_step us) (length us) i r \<longleftrightarrow> nearest_rule us i r"
  using ancestor_step_rule rule_ancestor_step by blast

lemma nearest_rule_unique: "nearest_rule us i r \<Longrightarrow> nearest_rule us i q \<Longrightarrow> r = q"
proof (induction arbitrary: q rule: nearest_rule.induct)
  case (rule_above i p r)
  from rule_above(6) show ?case
    by (cases rule: nearest_rule.cases) (use rule_above(2,3,5) in auto)
qed (erule nearest_rule.cases; simp)+

lemma ancestor_step_error: "ancestor_step us i = Inl e \<Longrightarrow> e = InvalidInventory"
  by (auto simp: ancestor_step_def parent_step_def split: if_splits option.splits)

lemma nearest_rules:
  assumes "dense_ids us"
  shows "case nearest_macro_rule_ancestors us of
     Inl e \<Rightarrow> e = InvalidInventory \<and> (\<exists>i < length us. \<nexists>r. nearest_rule us i r)
   | Inr rs \<Rightarrow> length rs = length us \<and> (\<forall>i < length us. nearest_rule us i (rs ! i))"
proof (cases "nearest_macro_rule_ancestors us")
  case (Inl e)
  then have v: "chain_values (ancestor_step us) InvalidInventory (length us) = Inl e"
    by (simp add: nearest_macro_rule_ancestors_def)
  have "e = InvalidInventory" by (rule chain_values_error [OF v]) (rule ancestor_step_error)
  moreover have "\<exists>i < length us. \<nexists>r. nearest_rule us i r"
    using chain_values_exact [where step = "ancestor_step us" and err = InvalidInventory and n = "length us"] v
    by (simp add: nearest_rule_iff [OF assms])
  ultimately show ?thesis using Inl by simp
next
  case (Inr rs)
  with chain_values_exact [where step = "ancestor_step us" and err = InvalidInventory and n = "length us"]
  show ?thesis by (simp add: nearest_macro_rule_ancestors_def nearest_rule_iff [OF assms])
qed

definition active_at :: "written_unit list \<Rightarrow> source_unit_id \<Rightarrow> bool" where
  "active_at us i \<longleftrightarrow> i < length us \<and> unit_id (us ! i) = i \<and> unit_cfg (us ! i) = Active"

lemma active_unit_cases: "active_unit us i = (if active_at us i then Inr (us ! i) else Inl InvalidInventory)"
  by (simp add: active_unit_def active_at_def get_at_def)

definition template_ok :: "written_unit list \<Rightarrow> macro_template_facts \<Rightarrow> bool" where
  "template_ok us t \<longleftrightarrow>
     active_at us (template_unit t) \<and> active_at us (template_rule t)
     \<and> unit_kind (us ! template_unit t) \<in> {NestedItem, UseItem, UseLeaf}
     \<and> unit_kind (us ! template_rule t) = MacroRule
     \<and> \<not> range_is_empty (full_range (us ! template_unit t))
     \<and> nearest_rule us (template_unit t) (Some (template_rule t))"

lemma validate_template_step:
  assumes "length rs = length us" "\<forall>i < length us. nearest_rule us i (rs ! i)"
  shows "validate_template us rs t actual =
    (if template_ok us t \<and> template_unit t \<notin> actual then Inr (insert (template_unit t) actual) else Inl InvalidInventory)"
proof (cases "active_at us (template_unit t) \<and> active_at us (template_rule t)")
  case True
  then have ids: "unit_id (us ! template_unit t) = template_unit t" "unit_id (us ! template_rule t) = template_rule t"
    and bound: "template_unit t < length us" by (simp_all add: active_at_def)
  from assms(2) bound have "nearest_rule us (template_unit t) (rs ! template_unit t)" by simp
  then have "rs ! template_unit t = Some (template_rule t) \<longleftrightarrow> nearest_rule us (template_unit t) (Some (template_rule t))"
    by (auto dest: nearest_rule_unique)
  with True ids show ?thesis by (simp add: validate_template_def active_unit_cases template_ok_def)
next
  case False
  then show ?thesis by (auto simp: validate_template_def active_unit_cases template_ok_def)
qed

lemma validate_templates_fold:
  assumes "length rs = length us" "\<forall>i < length us. nearest_rule us i (rs ! i)"
  shows "fold_result (validate_template us rs) ts actual =
    (if list_all (template_ok us) ts \<and> distinct (map template_unit ts) \<and> set (map template_unit ts) \<inter> actual = {}
     then Inr (actual \<union> set (map template_unit ts)) else Inl InvalidInventory)"
  by (induction ts arbitrary: actual) (auto simp: validate_template_step [OF assms])

definition templates_ok ::
  "written_unit list \<Rightarrow> macro_template_facts list \<Rightarrow> macro_capture_slot list \<Rightarrow> source_unit_id set \<Rightarrow> bool" where
  "templates_ok us templates slots expected \<longleftrightarrow>
     sorted_wrt (<) (map template_key templates)
     \<and> (\<forall>i < length us. \<exists>r. nearest_rule us i r)
     \<and> list_all (template_ok us) templates
     \<and> distinct (map template_unit templates @ map slot_unit slots)
     \<and> set (map template_unit templates @ map slot_unit slots) = expected"

lemma windows2_map: "windows2 (map f xs) = map (\<lambda>(a, b). (f a, f b)) (windows2 xs)"
  by (induction xs rule: induct_list012) simp_all

lemma keys_increasing:
  fixes key :: "'a \<Rightarrow> 'k::linorder"
  shows "list_ex (\<lambda>(a, b). key a \<ge> key b) (windows2 xs) \<longleftrightarrow> \<not> sorted_wrt (<) (map key xs)"
proof -
  have "sorted_wrt (<) (map key xs) \<longleftrightarrow> (\<forall>(a, b) \<in> set (windows2 (map key xs)). a < b)"
    by (rule windows2_sorted_wrt [symmetric]) (simp add: transp_on_less)
  also have "\<dots> \<longleftrightarrow> \<not> list_ex (\<lambda>(a, b). key a \<ge> key b) (windows2 xs)"
    by (auto simp: windows2_map list_ex_iff not_le)
  finally show ?thesis by blast
qed

text \<open>The template table is accepted exactly when it is strictly ordered, every entry names an
  active item, use or use leaf with a non-empty range whose nearest macro rule is the entry's active
  rule, and the templates and the capture slots together share out the expected template units, each
  unit to one entry.\<close>

theorem validate_templates_exact:
  assumes "dense_ids us"
  shows "validate_templates us templates slots expected =
    (if templates_ok us templates slots expected then Inr () else Inl InvalidInventory)"
proof (cases "nearest_macro_rule_ancestors us")
  case (Inl e)
  with nearest_rules [OF assms] have "e = InvalidInventory" "\<not> (\<forall>i < length us. \<exists>r. nearest_rule us i r)" by simp_all
  with Inl show ?thesis by (simp add: validate_templates_def templates_ok_def)
next
  case (Inr rs)
  with nearest_rules [OF assms] have rs: "length rs = length us" "\<forall>i < length us. nearest_rule us i (rs ! i)"
    by simp_all
  have exist: "\<forall>i < length us. \<exists>r. nearest_rule us i r" using rs(2) by blast
  have slots: "card (set (map slot_unit slots)) \<noteq> length slots \<longleftrightarrow> \<not> distinct (map slot_unit slots)"
    using card_set_distinct [of "map slot_unit slots"] by simp
  have decide: "bind_result (if P \<and> Q \<and> A \<inter> {} = {} then Inr ({} \<union> A) else Inl InvalidInventory)
      (\<lambda>actual. if \<not> D \<or> actual \<inter> B \<noteq> {} then Inl InvalidInventory
         else check_that (actual \<union> B = expected) InvalidInventory)
    = (if P \<and> Q \<and> D \<and> A \<inter> B = {} \<and> A \<union> B = expected then Inr () else Inl InvalidInventory)"
    for P Q D and A B :: "source_unit_id set"
    by (simp add: check_that_def)
  show ?thesis
    unfolding validate_templates_def Inr bind_result_Inr validate_templates_fold [OF rs] Let_def slots
      keys_increasing decide templates_ok_def
    using exist by simp
qed

lemma validate_templates_exact_witness:
  "validate_templates sample_macro_units [] [] {} =
     (if templates_ok sample_macro_units [] [] {} then Inr () else Inl InvalidInventory)"
  by (rule validate_templates_exact)
     (simp add: dense_ids_iff sample_macro_units_def sample_unit_def upt_rec)

end
