(* ===== verification/Macro_Captures.thy ===== *)
theory Macro_Captures
  imports Macro_Facts Token_Guard "HOL-Library.List_Lexorder"
begin

text \<open>
  The tables about declarative macros, second half: capture slots and repetitions, and the whole
  validation \<open>validate_declarative_macro_source_facts\<close> (\<open>declarative_macro/validation.rs\<close>), with
  the layout of a capture's deletion from \<open>declarative_macro/capture.rs\<close>.  Texts are compared as
  bytes, and \<open>tokenize\<close> and \<open>glue\<close> are the lexer's parameters of \<open>Syntax\<close> and \<open>Token_Guard\<close>.
\<close>

section \<open>Token tests\<close>

definition same_single_parser_token :: "lexer \<Rightarrow> glue \<Rightarrow> bytes \<Rightarrow> byte_range \<Rightarrow> byte_range \<Rightarrow> bool" where
  "same_single_parser_token tokenize glue source l r =
     (case (str_get source (br_start l) (br_end l), str_get source (br_start r) (br_end r)) of
        (Some left, Some right) \<Rightarrow>
          (case (tokenize_parser_tokens tokenize glue left, tokenize_parser_tokens tokenize glue right) of
             (Inr [t], Inr [u]) \<Rightarrow> same_identity t u
           | _ \<Rightarrow> False)
      | _ \<Rightarrow> False)"

text \<open>
  The deletion that removes a captured run of tokens: with the separator behind it when there is
  one.  The token in front must open a group or be a separator.
\<close>

definition opens_or_separates :: "bytes \<Rightarrow> bool" where
  "opens_or_separates text \<longleftrightarrow> text \<in> {[40], [123], [91], [44], [59]}"

definition is_separator :: "bytes \<Rightarrow> bool" where
  "is_separator text \<longleftrightarrow> text \<in> {[44], [59]}"

definition closes_group :: "bytes \<Rightarrow> bool" where
  "closes_group text \<longleftrightarrow> text \<in> {[41], [125], [93]}"

definition capture_deletion_layout ::
  "parser_token list \<Rightarrow> byte_range \<Rightarrow> (byte_range \<times> byte_range option) option" where
  "capture_deletion_layout tokens capture =
     (if range_is_empty capture then None
      else
        let first = partition_point (\<lambda>t. br_end (ptok_range t) \<le> br_start capture) tokens;
            stop = partition_point (\<lambda>t. br_start (ptok_range t) < br_end capture) tokens
        in if first > stop \<or> stop > length tokens then None
           else
             let captured = take (stop - first) (drop first tokens)
             in if captured = [] then None
                else if br_start (ptok_range (hd captured)) \<noteq> br_start capture
                   \<or> br_end (ptok_range (last captured)) \<noteq> br_end capture
                   \<or> list_ex (\<lambda>t. \<not> range_contains capture (ptok_range t)) captured
                then None
                else case checked_sub first 1 of
                  None \<Rightarrow> None
                | Some before \<Rightarrow>
                    (case get_at tokens before of
                       None \<Rightarrow> None
                     | Some previous \<Rightarrow>
                         if \<not> opens_or_separates (ptok_text previous) then None
                         else case get_at tokens stop of
                           None \<Rightarrow> None
                         | Some following \<Rightarrow>
                             if is_separator (ptok_text following)
                             then Some (ByteRange (br_start capture) (br_end (ptok_range following)),
                                        Some (ptok_range following))
                             else if closes_group (ptok_text following) then Some (capture, None)
                             else None))"

fun shape_body :: "parser_token list \<Rightarrow> parser_token list" where
  "shape_body tokens =
     (if tokens \<noteq> [] \<and> is_separator (ptok_text (last tokens)) then butlast tokens else tokens)"

text \<open>A capture slot's unit is \<open>$name:fragment\<close>, with or without the separator behind it.\<close>

definition capture_slot_unit_shape :: "lexer \<Rightarrow> glue \<Rightarrow> bytes \<Rightarrow> byte_range \<Rightarrow> bool" where
  "capture_slot_unit_shape tokenize glue source r =
     (case str_get source (br_start r) (br_end r) of
        None \<Rightarrow> False
      | Some text \<Rightarrow>
          (case tokenize_parser_tokens tokenize glue text of
             Inl _ \<Rightarrow> False
           | Inr tokens \<Rightarrow>
               (case shape_body tokens of
                  [dollar, _, colon, _] \<Rightarrow> ptok_text dollar = [36] \<and> ptok_text colon = [58]
                | _ \<Rightarrow> False)))"

definition ranges_overlap :: "byte_range \<Rightarrow> byte_range \<Rightarrow> bool" where
  "ranges_overlap l r \<longleftrightarrow> br_start l < br_end r \<and> br_start r < br_end l"

fun trivia_length :: "(token_kind \<times> nat) list \<Rightarrow> nat \<Rightarrow> nat option" where
  "trivia_length [] n = Some n"
| "trivia_length ((kind, len) # rest) n =
     (case checked_add_u32 n len of
        None \<Rightarrow> None | Some stop \<Rightarrow> if is_trivia kind then trivia_length rest stop else None)"

definition range_is_trivia :: "lexer \<Rightarrow> bytes \<Rightarrow> byte_range \<Rightarrow> bool" where
  "range_is_trivia tokenize source r =
     (case str_get source (br_start r) (br_end r) of
        None \<Rightarrow> False
      | Some text \<Rightarrow> trivia_length (tokenize text) 0 = Some (range_len r))"

definition separator_token :: "lexer \<Rightarrow> glue \<Rightarrow> bytes \<Rightarrow> byte_range \<Rightarrow> bytes option" where
  "separator_token tokenize glue source r =
     (case str_get source (br_start r) (br_end r) of
        None \<Rightarrow> None
      | Some text \<Rightarrow>
          (case tokenize_parser_tokens tokenize glue text of
             Inr [t] \<Rightarrow> Some (ptok_text t) | _ \<Rightarrow> None))"

section \<open>Capture slots\<close>

definition push_entry :: "'v \<Rightarrow> 'v list option \<Rightarrow> 'v list" where
  "push_entry x old = (case old of None \<Rightarrow> [] | Some xs \<Rightarrow> xs) @ [x]"

type_synonym range_groups = "(source_unit_id \<times> byte_range list) list"

record capture_state =
  matcher_deletions :: range_groups
  input_deletions :: range_groups
  invocations_by_rule :: "source_unit_id \<rightharpoonup> source_unit_id set"
  capture_order :: "((source_unit_id \<times> source_unit_id) \<times> (byte_range \<times> byte_range) list) list"

definition input_key :: "macro_capture_input \<Rightarrow> source_unit_id \<times> byte_range \<times> byte_range" where
  "input_key i = (input_invocation i, input_capture_range i, input_deletion_range i)"

definition slot_key ::
  "macro_capture_slot \<Rightarrow> source_unit_id \<times> source_unit_id \<times> byte_range \<times> source_unit_id list
     \<times> (source_unit_id \<times> byte_range \<times> byte_range) list" where
  "slot_key s = (slot_unit s, slot_rule s, slot_matcher_range s, slot_triggers s, map input_key (slot_inputs s))"

definition observed_of :: "macro_rule_facts \<Rightarrow> source_unit_id list" where
  "observed_of facts = (case facts of WholeRules _ \<Rightarrow> [] | RefinedRules _ _ observed \<Rightarrow> observed)"

definition rule_selection_counts :: "macro_rule_facts list \<Rightarrow> (source_unit_id \<rightharpoonup> nat)" where
  "rule_selection_counts tables =
     fold (\<lambda>rule m. m(rule \<mapsto> (case m rule of None \<Rightarrow> 0 | Some n \<Rightarrow> n) + 1))
       (concat (map observed_of tables)) Map.empty"

definition template_rules :: "macro_template_facts list \<Rightarrow> (source_unit_id \<rightharpoonup> source_unit_id)" where
  "template_rules templates = fold (\<lambda>t m. m(template_unit t \<mapsto> template_rule t)) templates Map.empty"

definition check_trigger ::
  "written_unit list \<Rightarrow> source_unit_id set \<Rightarrow> (source_unit_id \<rightharpoonup> source_unit_id) \<Rightarrow> source_unit_id
     \<Rightarrow> source_unit_id \<Rightarrow> unit \<Rightarrow> source_error + unit" where
  "check_trigger us slot_units rules rule trigger _ =
     bind_result (active_unit us trigger) (\<lambda>u.
       if unit_id u \<in> slot_units \<or> rules (unit_id u) \<noteq> Some rule then Inl InvalidInventory else Inr ())"

definition validate_capture_input ::
  "lexer \<Rightarrow> glue \<Rightarrow> bytes \<Rightarrow> written_unit list \<Rightarrow> token_rewrite_guard \<Rightarrow> byte_range option \<Rightarrow> source_unit_id
     \<Rightarrow> byte_range \<Rightarrow> macro_capture_input \<Rightarrow> source_unit_id set \<times> capture_state
     \<Rightarrow> source_error + source_unit_id set \<times> capture_state" where
  "validate_capture_input tokenize glue original us guard separator rule matcher_range input = (\<lambda>(seen, state).
     bind_result (active_unit us (input_invocation input)) (\<lambda>invocation.
       if unit_kind invocation \<noteq> MacroInvocation
          \<or> range_is_empty (input_capture_range input)
          \<or> br_start (input_deletion_range input) \<noteq> br_start (input_capture_range input)
          \<or> \<not> range_contains (input_deletion_range input) (input_capture_range input)
          \<or> \<not> range_contains (full_range invocation) (input_deletion_range input)
          \<or> \<not> deletion_preserves_identity tokenize glue guard (input_deletion_range input)
          \<or> unit_id invocation \<in> seen
       then Inl InvalidInventory
       else if (case separator of
              Some sep \<Rightarrow>
                input_deletion_range input = input_capture_range input
                \<or> \<not> same_single_parser_token tokenize glue original sep
                      (ByteRange (br_end (input_capture_range input)) (br_end (input_deletion_range input)))
            | None \<Rightarrow> input_deletion_range input \<noteq> input_capture_range input)
       then Inl InvalidInventory
       else Inr (insert (unit_id invocation) seen,
         state\<lparr>input_deletions :=
                 entry_update (unit_id invocation) (push_entry (input_deletion_range input)) (input_deletions state),
               capture_order :=
                 entry_update (rule, unit_id invocation)
                   (push_entry (matcher_range, input_capture_range input)) (capture_order state)\<rparr>)))"

definition validate_capture_slot ::
  "lexer \<Rightarrow> glue \<Rightarrow> bytes \<Rightarrow> written_unit list \<Rightarrow> token_rewrite_guard \<Rightarrow> parser_token list
     \<Rightarrow> (source_unit_id \<rightharpoonup> nat) \<Rightarrow> (source_unit_id \<rightharpoonup> source_unit_id) \<Rightarrow> source_unit_id set
     \<Rightarrow> macro_capture_slot \<Rightarrow> capture_state \<Rightarrow> source_error + capture_state" where
  "validate_capture_slot tokenize glue original us guard tokens counts rules slot_units slot state =
     bind_result (active_unit us (slot_unit slot)) (\<lambda>u.
     bind_result (active_unit us (slot_rule slot)) (\<lambda>rule.
     case counts (unit_id rule) of
       None \<Rightarrow> Inl InvalidInventory
     | Some selection_count \<Rightarrow>
         if unit_kind u \<noteq> NestedItem \<or> unit_kind rule \<noteq> MacroRule \<or> unit_parent u \<noteq> Some (unit_id rule)
            \<or> range_is_empty (slot_matcher_range slot)
            \<or> \<not> range_contains (full_range u) (slot_matcher_range slot)
            \<or> \<not> capture_slot_unit_shape tokenize glue original (full_range u)
            \<or> list_ex (\<lambda>(a, b). a \<ge> b) (windows2 (slot_triggers slot))
            \<or> list_ex (\<lambda>(a, b). input_key a \<ge> input_key b) (windows2 (slot_inputs slot))
            \<or> length (slot_inputs slot) \<noteq> selection_count
         then Inl InvalidInventory
         else case capture_deletion_layout tokens (slot_matcher_range slot) of
           None \<Rightarrow> Inl InvalidInventory
         | Some (matcher_deletion, separator) \<Rightarrow>
             if matcher_deletion \<noteq> full_range u
                \<or> \<not> deletion_preserves_identity tokenize glue guard matcher_deletion
             then Inl InvalidInventory
             else
               let state = state\<lparr>matcher_deletions :=
                     entry_update (unit_id rule) (push_entry matcher_deletion) (matcher_deletions state)\<rparr>
               in bind_result (fold_result (check_trigger us slot_units rules (unit_id rule)) (slot_triggers slot) ()) (\<lambda>_.
                  bind_result
                    (fold_result
                      (validate_capture_input tokenize glue original us guard separator (unit_id rule)
                        (slot_matcher_range slot))
                      (slot_inputs slot) ({}, state)) (\<lambda>(slot_invocations, state).
                    if (case invocations_by_rule state (unit_id rule) of
                          None \<Rightarrow> False | Some previous \<Rightarrow> previous \<noteq> slot_invocations)
                    then Inl InvalidInventory
                    else Inr (state\<lparr>invocations_by_rule :=
                          (invocations_by_rule state)(unit_id rule \<mapsto> slot_invocations)\<rparr>)))))"

definition captures_in_order :: "(byte_range \<times> byte_range) list \<Rightarrow> bool" where
  "captures_in_order captures \<longleftrightarrow>
     \<not> list_ex (\<lambda>(a, b). snd a \<ge> snd b) (windows2 (sort_key fst captures))"

definition ranges_disjoint :: "byte_range list \<Rightarrow> bool" where
  "ranges_disjoint ranges \<longleftrightarrow> \<not> list_ex (\<lambda>(a, b). ranges_overlap a b) (windows2 (sort ranges))"

definition validate_capture_slots ::
  "lexer \<Rightarrow> glue \<Rightarrow> bytes \<Rightarrow> written_unit list \<Rightarrow> macro_rule_facts list \<Rightarrow> macro_template_facts list
     \<Rightarrow> macro_capture_slot list \<Rightarrow> source_error + unit" where
  "validate_capture_slots tokenize glue original us tables templates slots =
     (if list_ex (\<lambda>(a, b). slot_key a \<ge> slot_key b) (windows2 slots) then Inl InvalidInventory
      else if slots = [] then Inr ()
      else
        bind_result (map_err (\<lambda>_. InvalidInventory) (tokenize_parser_tokens tokenize glue original)) (\<lambda>tokens.
        bind_result (map_err (\<lambda>_. InvalidInventory) (token_rewrite_guard_new tokenize glue original)) (\<lambda>guard.
          let slot_units = set (map slot_unit slots)
          in if card slot_units \<noteq> length slots then Inl InvalidInventory
             else
               bind_result
                 (fold_result
                   (validate_capture_slot tokenize glue original us guard tokens (rule_selection_counts tables)
                     (template_rules templates) slot_units)
                   slots
                   \<lparr>matcher_deletions = [], input_deletions = [], invocations_by_rule = Map.empty,
                    capture_order = []\<rparr>)
                 (\<lambda>state.
                   if list_ex (\<lambda>(_, captures). \<not> captures_in_order captures) (capture_order state)
                      \<or> list_ex (\<lambda>(_, ranges). \<not> ranges_disjoint ranges)
                           (matcher_deletions state @ input_deletions state)
                   then Inl InvalidInventory else Inr ()))))"

section \<open>Sorted windows and disjointness\<close>

lemma sorted_wrt_insort:
  assumes "symp R"
  shows "sorted_wrt R (insort_key f x xs) \<longleftrightarrow> (\<forall>y \<in> set xs. R x y) \<and> sorted_wrt R xs"
  by (induction xs) (auto simp: set_insort_key dest: sympD [OF assms])

lemma sorted_wrt_sort_key:
  assumes "symp R"
  shows "sorted_wrt R (sort_key f xs) \<longleftrightarrow> sorted_wrt R xs"
  by (induction xs) (simp_all add: sorted_wrt_insort [OF assms])

definition apart :: "byte_range \<Rightarrow> byte_range \<Rightarrow> bool" where
  "apart a b \<longleftrightarrow> \<not> ranges_overlap a b"

lemma symp_apart: "symp apart"
  by (auto simp: apart_def ranges_overlap_def intro: sympI)

definition before_range :: "byte_range \<Rightarrow> byte_range \<Rightarrow> bool" where
  "before_range a b \<longleftrightarrow> br_start a < br_end a \<and> br_start b < br_end b \<and> br_end a \<le> br_start b"

lemma ranges_disjoint_apart:
  assumes "ranges_disjoint rs" and "\<forall>r \<in> set rs. br_start r < br_end r"
  shows "sorted_wrt apart rs"
proof -
  have sorted: "sorted_wrt (\<le>) (sort rs)" by simp
  have windows: "\<forall>(a, b) \<in> set (windows2 (sort rs)). a \<le> b"
    using sorted windows2_sorted_wrt [of "(\<le>)" "sort rs"] by (simp add: transp_on_le)
  have mem: "(a, b) \<in> set (windows2 (sort rs)) \<Longrightarrow> a \<in> set rs \<and> b \<in> set rs" for a b
  proof -
    assume "(a, b) \<in> set (windows2 (sort rs))"
    then have "a \<in> set (sort rs)" "b \<in> set (tl (sort rs))"
      unfolding windows2_def by (rule set_zip_leftD, auto dest: set_zip_rightD)
    then have "a \<in> set (sort rs)" "b \<in> set (sort rs)" by (simp, metis list.set_sel(2) tl_Nil)
    then show ?thesis by simp
  qed
  have "before_range a b" if "(a, b) \<in> set (windows2 (sort rs))" for a b
  proof -
    have "a \<le> b" using windows that by auto
    then have "br_start a \<le> br_start b" by (auto simp: less_eq_byte_range_def)
    moreover have "\<not> ranges_overlap a b" using assms(1) that by (auto simp: ranges_disjoint_def list_ex_iff)
    ultimately show ?thesis using assms(2) mem [OF that] by (auto simp: before_range_def ranges_overlap_def)
  qed
  then have "sorted_wrt before_range (sort rs)"
    by (subst windows2_sorted_wrt [symmetric]) (auto simp: before_range_def intro: transpI)
  then have "sorted_wrt apart (sort rs)"
    by (rule sorted_wrt_mono_rel [rotated]) (auto simp: before_range_def apart_def ranges_overlap_def)
  then show ?thesis by (simp add: sorted_wrt_sort_key [OF symp_apart])
qed

section \<open>Accepted deletions do not overlap\<close>

lemma preserved_deletion_forward:
  "deletion_preserves_identity tokenize glue g d \<Longrightarrow> br_start d < br_end d"
  by (auto simp: deletion_preserves_identity_def pound_deletion_preserves_identity_def
      deletions_preserve_identity_def find_deletion_boundary_def Let_def split: if_splits option.splits)

definition slot_deletion :: "written_unit list \<Rightarrow> macro_capture_slot \<Rightarrow> byte_range" where
  "slot_deletion us s = full_range (us ! slot_unit s)"

lemma push_fold:
  "fold (\<lambda>e v. Some (push_entry (f e) v)) es old
    = (if es = [] then old else Some ((case old of None \<Rightarrow> [] | Some xs \<Rightarrow> xs) @ map f es))"
  by (induction es arbitrary: old) (auto simp: push_entry_def split: option.splits)

lemma push_groups:
  "map_of (group_entries key (\<lambda>e. push_entry (f e)) es) k
    = (if filter (\<lambda>e. key e = k) es = [] then None else Some (map f (filter (\<lambda>e. key e = k) es)))"
  by (simp add: group_entries_map_of push_fold)

lemma active_unit_eq:
  "active_unit us i = Inr u \<longleftrightarrow> active_at us i \<and> u = us ! i"
  by (auto simp: active_unit_cases)

lemma validate_capture_input_Inr:
  assumes "validate_capture_input tokenize glue original us guard separator rule m input (seen, st) = Inr (seen', st')"
  shows "br_start (input_deletion_range input) < br_end (input_deletion_range input)
    \<and> input_deletions st' = entry_update (input_invocation input) (push_entry (input_deletion_range input)) (input_deletions st)
    \<and> matcher_deletions st' = matcher_deletions st"
proof -
  from assms obtain inv where act: "active_unit us (input_invocation input) = Inr inv"
    and d: "deletion_preserves_identity tokenize glue guard (input_deletion_range input)"
    and st: "st' = st\<lparr>input_deletions :=
                 entry_update (unit_id inv) (push_entry (input_deletion_range input)) (input_deletions st),
               capture_order :=
                 entry_update (rule, unit_id inv) (push_entry (m, input_capture_range input)) (capture_order st)\<rparr>"
    by (auto simp: validate_capture_input_def bind_result_eq_Inr split: if_splits)
  from act have "unit_id inv = input_invocation input" by (simp add: active_unit_eq active_at_def)
  with st preserved_deletion_forward [OF d] show ?thesis by simp
qed

lemma validate_capture_inputs_Inr:
  "fold_result (validate_capture_input tokenize glue original us guard separator rule m) inputs (seen, st)
      = Inr (seen', st') \<Longrightarrow>
    list_all (\<lambda>i. br_start (input_deletion_range i) < br_end (input_deletion_range i)) inputs
    \<and> input_deletions st' = fold (\<lambda>i. entry_update (input_invocation i) (push_entry (input_deletion_range i))) inputs (input_deletions st)
    \<and> matcher_deletions st' = matcher_deletions st"
proof (induction inputs arbitrary: seen st)
  case (Cons i inputs)
  from Cons.prems obtain mid midst where
    one: "validate_capture_input tokenize glue original us guard separator rule m i (seen, st) = Inr (mid, midst)"
    and rest: "fold_result (validate_capture_input tokenize glue original us guard separator rule m) inputs (mid, midst)
        = Inr (seen', st')"
    by (auto simp: bind_result_eq_Inr)
  from validate_capture_input_Inr [OF one] Cons.IH [OF rest] show ?case by simp
qed simp

lemma validate_capture_slot_Inr:
  assumes "validate_capture_slot tokenize glue original us guard tokens counts rules slot_units s st = Inr st'"
  shows "counts (slot_rule s) = Some (length (slot_inputs s))
    \<and> br_start (slot_deletion us s) < br_end (slot_deletion us s)
    \<and> list_all (\<lambda>i. br_start (input_deletion_range i) < br_end (input_deletion_range i)) (slot_inputs s)
    \<and> input_deletions st' = fold (\<lambda>i. entry_update (input_invocation i) (push_entry (input_deletion_range i)))
        (slot_inputs s) (input_deletions st)
    \<and> matcher_deletions st' = entry_update (slot_rule s) (push_entry (slot_deletion us s)) (matcher_deletions st)"
proof -
  from assms have act: "active_at us (slot_unit s)" "active_at us (slot_rule s)"
    by (auto simp: validate_capture_slot_def active_unit_cases split: if_splits)
  then have id: "unit_id (us ! slot_rule s) = slot_rule s" by (simp add: active_at_def)
  from assms act obtain separator where
    count: "counts (slot_rule s) = Some (length (slot_inputs s))"
    and keep: "deletion_preserves_identity tokenize glue guard (slot_deletion us s)"
    and inputs: "bind_result
      (fold_result (validate_capture_input tokenize glue original us guard separator (slot_rule s)
        (slot_matcher_range s)) (slot_inputs s)
        ({}, st\<lparr>matcher_deletions := entry_update (slot_rule s) (push_entry (slot_deletion us s)) (matcher_deletions st)\<rparr>))
      (\<lambda>(seen, mid). if (case invocations_by_rule mid (slot_rule s) of None \<Rightarrow> False | Some previous \<Rightarrow> previous \<noteq> seen)
        then Inl InvalidInventory
        else Inr (mid\<lparr>invocations_by_rule := (invocations_by_rule mid)(unit_id (us ! slot_rule s) \<mapsto> seen)\<rparr>)) = Inr st'"
    unfolding validate_capture_slot_def Let_def
    by (auto simp: active_unit_cases id slot_deletion_def bind_result_eq_Inr [of "fold_result (check_trigger _ _ _ _) _ _"]
        split: if_splits option.splits)
  from inputs obtain seen mid where
    "fold_result (validate_capture_input tokenize glue original us guard separator (slot_rule s)
        (slot_matcher_range s)) (slot_inputs s)
        ({}, st\<lparr>matcher_deletions := entry_update (slot_rule s) (push_entry (slot_deletion us s)) (matcher_deletions st)\<rparr>)
      = Inr (seen, mid)"
    and st': "st' = mid\<lparr>invocations_by_rule := (invocations_by_rule mid)(slot_rule s \<mapsto> seen)\<rparr>"
    by (auto simp: bind_result_eq_Inr id split: if_splits)
  from validate_capture_inputs_Inr [OF this(1)] count preserved_deletion_forward [OF keep] st' show ?thesis
    by simp
qed

lemma validate_capture_slots_fold:
  "fold_result (validate_capture_slot tokenize glue original us guard tokens counts rules slot_units) slots st = Inr st' \<Longrightarrow>
    list_all (\<lambda>s. counts (slot_rule s) = Some (length (slot_inputs s))) slots
    \<and> list_all (\<lambda>s. br_start (slot_deletion us s) < br_end (slot_deletion us s)) slots
    \<and> list_all (\<lambda>i. br_start (input_deletion_range i) < br_end (input_deletion_range i)) (concat (map slot_inputs slots))
    \<and> input_deletions st' = fold (\<lambda>i. entry_update (input_invocation i) (push_entry (input_deletion_range i)))
        (concat (map slot_inputs slots)) (input_deletions st)
    \<and> matcher_deletions st' = fold (\<lambda>s. entry_update (slot_rule s) (push_entry (slot_deletion us s))) slots (matcher_deletions st)"
proof (induction slots arbitrary: st)
  case (Cons s slots)
  from Cons.prems obtain mid where
    one: "validate_capture_slot tokenize glue original us guard tokens counts rules slot_units s st = Inr mid"
    and rest: "fold_result (validate_capture_slot tokenize glue original us guard tokens counts rules slot_units) slots mid = Inr st'"
    by (auto simp: bind_result_eq_Inr)
  from validate_capture_slot_Inr [OF one] Cons.IH [OF rest] show ?case by simp
qed simp

lemma selection_counts:
  "rule_selection_counts tables r =
     (let n = count_list (concat (map observed_of tables)) r in if n = 0 then None else Some n)"
proof -
  have "fold (\<lambda>rule m. m(rule \<mapsto> (case m rule of None \<Rightarrow> 0 | Some n \<Rightarrow> n) + 1)) rs m r =
     (let n = count_list rs r in if n = 0 then m r else Some ((case m r of None \<Rightarrow> 0 | Some n \<Rightarrow> n) + n))"
    for rs and m :: "source_unit_id \<rightharpoonup> nat"
    by (induction rs arbitrary: m) (auto simp: Let_def split: option.splits)
  then show ?thesis by (simp add: rule_selection_counts_def Let_def)
qed

definition slots_of_rule :: "macro_capture_slot list \<Rightarrow> source_unit_id \<Rightarrow> macro_capture_slot list" where
  "slots_of_rule slots rule = filter (\<lambda>s. slot_rule s = rule) slots"

definition inputs_of_invocation :: "macro_capture_slot list \<Rightarrow> source_unit_id \<Rightarrow> macro_capture_input list" where
  "inputs_of_invocation slots invocation =
     filter (\<lambda>i. input_invocation i = invocation) (concat (map slot_inputs slots))"

lemma apart_group:
  assumes "list_all (\<lambda>(_, ranges). ranges_disjoint ranges) (group_entries key (\<lambda>e. push_entry (f e)) es)"
    and "list_all (\<lambda>e. br_start (f e) < br_end (f e)) es"
  shows "sorted_wrt apart (map f (filter (\<lambda>e. key e = k) es))"
proof (cases "filter (\<lambda>e. key e = k) es = []")
  case False
  then have "map_of (group_entries key (\<lambda>e. push_entry (f e)) es) k = Some (map f (filter (\<lambda>e. key e = k) es))"
    by (simp add: push_groups)
  from map_of_SomeD [OF this] assms(1) have "ranges_disjoint (map f (filter (\<lambda>e. key e = k) es))"
    by (auto simp: list_all_iff)
  then show ?thesis by (rule ranges_disjoint_apart) (use assms(2) in \<open>auto simp: list_all_iff\<close>)
qed simp

text \<open>C34. The capture slots that are accepted can be deleted independently: the slots of one rule do not
  overlap, the input deletions inside one invocation do not overlap, and every slot has one input for
  each observed selection of its rule.\<close>

theorem capture_deletions_apart:
  assumes "validate_capture_slots tokenize glue original us tables templates slots = Inr ()"
  shows "sorted_wrt apart (map (slot_deletion us) (slots_of_rule slots rule))
    \<and> sorted_wrt apart (map input_deletion_range (inputs_of_invocation slots invocation))
    \<and> list_all (\<lambda>s. length (slot_inputs s) = count_list (concat (map observed_of tables)) (slot_rule s)) slots"
proof (cases "slots = []")
  case False
  from assms False obtain tokens guard st where
    fold: "fold_result (validate_capture_slot tokenize glue original us guard tokens (rule_selection_counts tables)
        (template_rules templates) (set (map slot_unit slots))) slots
      \<lparr>matcher_deletions = [], input_deletions = [], invocations_by_rule = Map.empty, capture_order = []\<rparr> = Inr st"
    and ex: "\<not> list_ex (\<lambda>(_, ranges). \<not> ranges_disjoint ranges) (matcher_deletions st @ input_deletions st)"
    by (auto simp: validate_capture_slots_def Let_def bind_result_eq_Inr split: if_splits)
  then have disj: "list_all (\<lambda>(_, ranges). ranges_disjoint ranges) (matcher_deletions st @ input_deletions st)"
    by (auto simp: list_ex_iff list_all_iff)
  note all = validate_capture_slots_fold [OF fold]
  have groups: "matcher_deletions st = group_entries slot_rule (\<lambda>s. push_entry (slot_deletion us s)) slots"
    "input_deletions st = group_entries input_invocation (\<lambda>i. push_entry (input_deletion_range i)) (concat (map slot_inputs slots))"
    using all by (simp_all add: group_entries_def)
  have counts: "rule_selection_counts tables r = Some n \<Longrightarrow> n = count_list (concat (map observed_of tables)) r" for r n
    by (simp add: selection_counts Let_def split: if_splits)
  have "list_all (\<lambda>s. length (slot_inputs s) = count_list (concat (map observed_of tables)) (slot_rule s)) slots"
    using all counts by (auto simp: list_all_iff)
  then show ?thesis
    using all disj unfolding groups slots_of_rule_def inputs_of_invocation_def
    by (auto intro!: apart_group)
qed (simp add: slots_of_rule_def inputs_of_invocation_def)

text \<open>A rule \<open>a{$a:b}\<close> whose only capture is a slot, and an invocation \<open>{x}\<close> of it.\<close>

definition slot_source :: bytes where
  "slot_source = [97, 123, 36, 97, 58, 98, 125, 123, 120, 125]"

definition slot_units :: "written_unit list" where
  "slot_units =
     [sample_unit 0 CrateRoot 0 10 None, sample_unit 1 MacroDefinition 0 7 (Some 0),
      sample_unit 2 MacroRule 0 7 (Some 1), sample_unit 3 NestedItem 2 6 (Some 2),
      sample_unit 4 MacroInvocation 7 10 (Some 0)]"

definition slot_table :: "macro_capture_slot list" where
  "slot_table =
     [\<lparr>slot_unit = 3, slot_rule = 2, slot_matcher_range = ByteRange 2 6, slot_triggers = [],
       slot_inputs = [\<lparr>input_invocation = 4, input_capture_range = ByteRange 8 9,
                       input_deletion_range = ByteRange 8 9\<rparr>]\<rparr>]"

definition single_token :: "nat \<Rightarrow> nat \<Rightarrow> parser_token" where
  "single_token i b =
     \<lparr>ptok_range = ByteRange i (i + 1), ptok_text = [b], ptok_lexer_kind = byte_kind b,
      ptok_punctuation = parser_punctuation [b]\<rparr>"

definition slot_tokens :: "parser_token list" where
  "slot_tokens =
     [single_token 0 97, single_token 1 123, single_token 2 36, single_token 3 97, single_token 4 58,
      single_token 5 98, single_token 6 125, single_token 7 123, single_token 8 120, single_token 9 125]"

definition slot_guard :: token_rewrite_guard where
  "slot_guard =
     \<lparr>guard_source = slot_source, guard_tokens = slot_tokens,
      pound_run_starts = [0, 1, 2, 3, 4, 5, 6, 7, 8, 9], pound_run_ends = [1, 2, 3, 4, 5, 6, 7, 8, 9, 10]\<rparr>"

lemmas slot_evaluation =
  guard_evaluation slot_source_def slot_tokens_def single_token_def

lemma slot_source_tokens: "tokenize_parser_tokens byte_lexer (\<lambda>_ _. None) slot_source = Inr slot_tokens"
  by (simp add: slot_evaluation)

lemma slot_source_guard: "token_rewrite_guard_new byte_lexer (\<lambda>_ _. None) slot_source = Inr slot_guard"
  by (simp add: token_rewrite_guard_new_def slot_source_tokens)
     (simp add: slot_evaluation slot_guard_def pound_run_loop.simps pound_run_end.simps upt_rec)

lemma slot_deletions_preserved:
  "deletion_preserves_identity byte_lexer (\<lambda>_ _. None) slot_guard (ByteRange 2 6)"
  "deletion_preserves_identity byte_lexer (\<lambda>_ _. None) slot_guard (ByteRange 8 9)"
  by (simp_all add: slot_evaluation slot_guard_def deletion_preserves_identity_def deletions_preserve_identity_def
      find_deletion_boundary_def partition_point_def boundary_left_def boundary_right_def boundary_window_def
      range_contains_def same_identity_def)

lemma slot_shape:
  "capture_slot_unit_shape byte_lexer (\<lambda>_ _. None) slot_source (ByteRange 2 6)"
  by (simp add: slot_evaluation capture_slot_unit_shape_def is_separator_def)

lemma slot_layout: "capture_deletion_layout slot_tokens (ByteRange 2 6) = Some (ByteRange 2 6, None)"
  by (simp add: slot_evaluation capture_deletion_layout_def range_is_empty_def partition_point_def
      range_contains_def get_at_def checked_sub_def opens_or_separates_def is_separator_def closes_group_def)

lemma slot_table_valid:
  "validate_capture_slots byte_lexer (\<lambda>_ _. None) slot_source slot_units [RefinedRules 1 [2] [2]] [] slot_table = Inr ()"
  by (simp add: validate_capture_slots_def slot_table_def slot_source_tokens slot_source_guard Let_def
      validate_capture_slot_def validate_capture_input_def slot_units_def sample_unit_def active_unit_def get_at_def
      rule_selection_counts_def observed_of_def range_is_empty_def range_contains_def slot_shape slot_layout
      slot_deletions_preserved push_entry_def captures_in_order_def ranges_disjoint_def)

lemma capture_deletions_apart_witness:
  "sorted_wrt apart (map (slot_deletion slot_units) (slots_of_rule slot_table 2))
    \<and> sorted_wrt apart (map input_deletion_range (inputs_of_invocation slot_table 4))
    \<and> list_all (\<lambda>s. length (slot_inputs s) = count_list (concat (map observed_of [RefinedRules 1 [2] [2]])) (slot_rule s))
        slot_table"
  by (rule capture_deletions_apart [OF slot_table_valid])

end
