(* ===== verification/Macro_Repetitions.thy ===== *)
theory Macro_Repetitions
  imports Macro_Captures
begin

text \<open>
  The repetitions of declarative macro invocations (\<open>validate_repetitions\<close> of
  \<open>declarative_macro/validation.rs\<close>) and \<open>validate_declarative_macro_source_facts\<close>, the check of all
  the tables about declarative macros.
\<close>

section \<open>Validation\<close>

definition repetition_key :: "macro_repetition \<Rightarrow> source_unit_id \<times> source_unit_id \<times> nat list" where
  "repetition_key r = (rep_invocation r, rep_parent r, rep_path r)"

definition as_u32 :: "nat \<Rightarrow> nat" where
  "as_u32 n = n mod (u32_max + 1)"

type_synonym sequence_input = "source_unit_id \<times> source_unit_id \<times> nat list \<times> byte_range"

record repetition_state =
  actual_elements :: "source_unit_id set"
  element_owners :: "source_unit_id \<rightharpoonup> source_unit_id \<times> source_unit_id \<times> nat list"
  invocation_rules :: "source_unit_id \<rightharpoonup> source_unit_id"
  matcher_identities :: "((source_unit_id \<times> nat list) \<times> byte_range) list"
  sequence_inputs :: "sequence_input list"

definition all_elements :: "macro_repetition list \<Rightarrow> source_unit_id set" where
  "all_elements repetitions = set (concat (map (\<lambda>r. map element_unit (rep_elements r)) repetitions))"

text \<open>The conditions on a repetition that only read the inventory.\<close>

definition repetition_shape ::
  "bytes \<Rightarrow> source_unit_id set \<Rightarrow> macro_repetition \<Rightarrow> written_unit \<Rightarrow> written_unit \<Rightarrow> written_unit \<Rightarrow> bool" where
  "repetition_shape original expected r invocation rule parent \<longleftrightarrow>
     unit_kind invocation = MacroInvocation
     \<and> unit_kind rule = MacroRule
     \<and> (unit_kind parent = MacroInvocation \<or> unit_id parent \<in> expected)
     \<and> rep_path r \<noteq> []
     \<and> rep_minimum r \<le> 1
     \<and> (rep_minimum r \<le> 1 \<and> rep_maximum r = None \<or> rep_minimum r = 0 \<and> rep_maximum r = Some 1)
     \<and> valid_source_range original (rep_matcher_range r)
     \<and> \<not> range_is_empty (rep_matcher_range r)
     \<and> range_contains (full_range rule) (rep_matcher_range r)
     \<and> valid_source_range original (rep_input_range r)
     \<and> range_contains (full_range parent) (rep_input_range r)
     \<and> (case rep_maximum r of None \<Rightarrow> True | Some maximum \<Rightarrow> \<not> as_u32 (length (rep_elements r)) > maximum)
     \<and> \<not> as_u32 (length (rep_elements r)) < rep_minimum r"

definition separator_ok ::
  "lexer \<Rightarrow> bytes \<Rightarrow> byte_range \<Rightarrow> byte_range \<Rightarrow> byte_range \<Rightarrow> byte_range \<Rightarrow> bool" where
  "separator_ok tokenize original input element separator following \<longleftrightarrow>
     valid_source_range original separator
     \<and> \<not> range_is_empty separator
     \<and> \<not> br_start separator < br_end element
     \<and> \<not> br_end separator > br_start following
     \<and> range_contains input separator
     \<and> range_is_trivia tokenize original (ByteRange (br_end element) (br_start separator))
     \<and> range_is_trivia tokenize original (ByteRange (br_end separator) (br_start following))"

text \<open>The state of the loop over the elements of one repetition.\<close>

record element_state =
  previous_element :: "byte_range option"
  separator_identity :: "bytes option"
  seen_elements :: "source_unit_id set"
  owners :: "source_unit_id \<rightharpoonup> source_unit_id \<times> source_unit_id \<times> nat list"

definition check_separator ::
  "lexer \<Rightarrow> glue \<Rightarrow> bytes \<Rightarrow> macro_repetition \<Rightarrow> written_unit list \<Rightarrow> bool \<Rightarrow> nat
     \<Rightarrow> macro_repetition_element \<Rightarrow> written_unit \<Rightarrow> bytes option \<Rightarrow> source_error + bytes option" where
  "check_separator tokenize glue original r elements separated index facts element identity =
     (if (separator_after facts \<noteq> None) \<noteq> (index + 1 < length (rep_elements r) \<and> separated)
      then Inl InvalidInventory
      else case separator_after facts of
        Some separator \<Rightarrow>
          bind_result (ok_or (get_at elements (index + 1)) InvalidInventory) (\<lambda>following.
            if \<not> separator_ok tokenize original (rep_input_range r) (full_range element) separator
                   (full_range following)
            then Inl InvalidInventory
            else
              bind_result (ok_or (separator_token tokenize glue original separator) InvalidInventory) (\<lambda>token.
                if identity \<noteq> None \<and> identity \<noteq> Some token then Inl InvalidInventory
                else Inr (Some token)))
      | None \<Rightarrow>
          (case get_at elements (index + 1) of
             Some following \<Rightarrow>
               if \<not> range_is_trivia tokenize original
                      (ByteRange (br_end (full_range element)) (br_start (full_range following)))
               then Inl InvalidInventory else Inr identity
           | None \<Rightarrow> Inr identity))"

definition validate_element ::
  "lexer \<Rightarrow> glue \<Rightarrow> bytes \<Rightarrow> macro_repetition \<Rightarrow> source_unit_id \<Rightarrow> written_unit list \<Rightarrow> bool
     \<Rightarrow> nat \<times> macro_repetition_element \<times> written_unit \<Rightarrow> element_state \<Rightarrow> source_error + element_state" where
  "validate_element tokenize glue original r parent elements separated = (\<lambda>(index, facts, element) st.
     if unit_kind element \<noteq> NestedItem
        \<or> unit_parent element \<noteq> Some parent
        \<or> unit_id element \<in> seen_elements st
        \<or> \<not> range_contains (rep_input_range r) (full_range element)
        \<or> range_is_empty (full_range element)
        \<or> (case previous_element st of
             None \<Rightarrow> False | Some previous \<Rightarrow> br_end previous > br_start (full_range element))
     then Inl InvalidInventory
     else
       bind_result
         (check_separator tokenize glue original r elements separated index facts element (separator_identity st))
         (\<lambda>identity.
           Inr \<lparr>previous_element = Some (full_range element),
                separator_identity = identity,
                seen_elements = insert (unit_id element) (seen_elements st),
                owners = (owners st)(unit_id element \<mapsto> (rep_invocation r, rep_rule r, rep_path r))\<rparr>))"

definition input_spans :: "macro_repetition \<Rightarrow> written_unit list \<Rightarrow> bool" where
  "input_spans r elements \<longleftrightarrow>
     (if elements = [] then range_is_empty (rep_input_range r)
      else br_start (rep_input_range r) = br_start (full_range (hd elements))
        \<and> br_end (rep_input_range r) = br_end (full_range (last elements)))"

definition validate_repetition ::
  "lexer \<Rightarrow> glue \<Rightarrow> bytes \<Rightarrow> written_unit list \<Rightarrow> source_unit_id set \<Rightarrow> macro_repetition \<Rightarrow> repetition_state
     \<Rightarrow> source_error + repetition_state" where
  "validate_repetition tokenize glue original us expected r state =
     bind_result (active_unit us (rep_invocation r)) (\<lambda>invocation.
     bind_result (active_unit us (rep_rule r)) (\<lambda>rule.
     bind_result (active_unit us (rep_parent r)) (\<lambda>parent.
       if \<not> repetition_shape original expected r invocation rule parent then Inl InvalidInventory
       else if (case invocation_rules state (unit_id invocation) of
                  None \<Rightarrow> False | Some previous \<Rightarrow> previous \<noteq> unit_id rule) then Inl InvalidInventory
       else if (case map_of (matcher_identities state) (unit_id rule, rep_path r) of
                  None \<Rightarrow> False | Some previous \<Rightarrow> previous \<noteq> rep_matcher_range r) then Inl InvalidInventory
       else if (if rep_parent r = rep_invocation r then unit_id parent \<noteq> unit_id invocation
                else unit_id parent \<notin> expected) then Inl InvalidInventory
       else
         bind_result (map_result (\<lambda>facts. active_unit us (element_unit facts)) (rep_elements r)) (\<lambda>elements.
           if \<not> input_spans r elements then Inl InvalidInventory
           else
             let separated = (rep_elements r \<noteq> [] \<and> separator_after (hd (rep_elements r)) \<noteq> None)
             in bind_result
                  (fold_result
                    (validate_element tokenize glue original r (unit_id parent) elements separated)
                    (enumerate 0 (zip (rep_elements r) elements))
                    \<lparr>previous_element = None, separator_identity = None,
                     seen_elements = actual_elements state, owners = element_owners state\<rparr>)
                  (\<lambda>st.
                    Inr \<lparr>actual_elements = seen_elements st,
                         element_owners = owners st,
                         invocation_rules = (invocation_rules state)(unit_id invocation \<mapsto> unit_id rule),
                         matcher_identities =
                           entry_update (unit_id rule, rep_path r) (\<lambda>_. rep_matcher_range r)
                             (matcher_identities state),
                         sequence_inputs =
                           sequence_inputs state
                             @ [(unit_id invocation, unit_id parent, rep_path r, rep_input_range r)]\<rparr>)))))"

text \<open>A nested repetition belongs to the element above it: same macro, path one step longer.\<close>

definition nested_ok ::
  "(source_unit_id \<rightharpoonup> source_unit_id \<times> source_unit_id \<times> nat list) \<Rightarrow> macro_repetition \<Rightarrow> bool" where
  "nested_ok owners_of r \<longleftrightarrow>
     rep_parent r = rep_invocation r
     \<or> (case owners_of (rep_parent r) of
          None \<Rightarrow> False
        | Some (invocation, rule, path) \<Rightarrow>
            invocation = rep_invocation r \<and> rule = rep_rule r
            \<and> length path + 1 = length (rep_path r) \<and> take (length path) (rep_path r) = path)"

definition sequence_key :: "sequence_input \<Rightarrow> source_unit_id \<times> source_unit_id \<times> nat \<times> nat" where
  "sequence_key = (\<lambda>(invocation, parent, _, r). (invocation, parent, br_start r, br_end r))"

definition sequence_conflict :: "sequence_input \<times> sequence_input \<Rightarrow> bool" where
  "sequence_conflict = (\<lambda>((i, p, _, r), (j, q, _, s)). i = j \<and> p = q \<and> ranges_overlap r s)"

definition sequences_disjoint :: "sequence_input list \<Rightarrow> bool" where
  "sequences_disjoint inputs \<longleftrightarrow> \<not> list_ex sequence_conflict (windows2 (sort_key sequence_key inputs))"

definition add_matcher_sibling ::
  "((source_unit_id \<times> nat list) \<times> byte_range) list \<Rightarrow> (source_unit_id \<times> nat list) \<times> byte_range
     \<Rightarrow> ((source_unit_id \<times> nat list) \<times> byte_range list) list
     \<Rightarrow> source_error + ((source_unit_id \<times> nat list) \<times> byte_range list) list" where
  "add_matcher_sibling identities = (\<lambda>((rule, path), r) siblings.
     if path = [] then Inl InvalidInventory
     else
       let parent_path = butlast path
       in if parent_path \<noteq> []
             \<and> (case map_of identities (rule, parent_path) of
                  None \<Rightarrow> True
                | Some parent_range \<Rightarrow> \<not> range_contains parent_range r \<or> parent_range = r)
          then Inl InvalidInventory
          else Inr (entry_update (rule, parent_path) (push_entry r) siblings))"

definition siblings_disjoint :: "byte_range list \<Rightarrow> bool" where
  "siblings_disjoint ranges \<longleftrightarrow>
     \<not> list_ex (\<lambda>(a, b). ranges_overlap a b) (windows2 (sort_key (\<lambda>r. (br_start r, br_end r)) ranges))"

definition validate_repetitions ::
  "lexer \<Rightarrow> glue \<Rightarrow> bytes \<Rightarrow> written_unit list \<Rightarrow> macro_repetition list \<Rightarrow> source_unit_id set
     \<Rightarrow> source_error + unit" where
  "validate_repetitions tokenize glue original us repetitions expected_matcher =
     (if list_ex (\<lambda>(a, b). repetition_key a \<ge> repetition_key b) (windows2 repetitions) then Inl InvalidInventory
      else
        let expected = all_elements repetitions
        in bind_result
             (fold_result (validate_repetition tokenize glue original us expected) repetitions
               \<lparr>actual_elements = {}, element_owners = Map.empty, invocation_rules = Map.empty,
                matcher_identities = [], sequence_inputs = []\<rparr>)
             (\<lambda>state.
               if actual_elements state \<noteq> expected \<or> actual_elements state \<noteq> expected_matcher
               then Inl InvalidInventory
               else if list_ex (\<lambda>r. \<not> nested_ok (element_owners state) r) repetitions then Inl InvalidInventory
               else if \<not> sequences_disjoint (sequence_inputs state) then Inl InvalidInventory
               else
                 bind_result
                   (fold_result (add_matcher_sibling (matcher_identities state)) (matcher_identities state) [])
                   (\<lambda>siblings.
                     if list_ex (\<lambda>(_, ranges). \<not> siblings_disjoint ranges) siblings
                     then Inl InvalidInventory else Inr ())))"

section \<open>All tables\<close>

definition validate_declarative_macro_source_facts ::
  "lexer \<Rightarrow> glue \<Rightarrow> bytes \<Rightarrow> written_unit list \<Rightarrow> macro_rule_facts list \<Rightarrow> macro_template_facts list
     \<Rightarrow> macro_capture_slot list \<Rightarrow> macro_repetition list \<Rightarrow> source_error + unit" where
  "validate_declarative_macro_source_facts tokenize glue original us tables templates slots repetitions =
     bind_result (declarative_unit_census us) (\<lambda>census.
     bind_result (validate_macro_rule_facts us tables) (\<lambda>_.
     bind_result (validate_refined_rule_links us tables templates slots repetitions) (\<lambda>_.
     bind_result (validate_templates us templates slots (template_units census)) (\<lambda>_.
     bind_result (validate_capture_slots tokenize glue original us tables templates slots) (\<lambda>_.
       validate_repetitions tokenize glue original us repetitions (matcher_units census))))))"

section \<open>The elements of a repetition\<close>

lemma active_unit_Inr [simp]: "active_unit us i = Inr u \<longleftrightarrow> active_at us i \<and> u = us ! i"
  by (auto simp: active_unit_cases)

definition element_order :: "byte_range \<Rightarrow> byte_range \<Rightarrow> bool" where
  "element_order a b \<longleftrightarrow> br_end a \<le> br_start b"

definition element_fits :: "macro_repetition \<Rightarrow> source_unit_id \<Rightarrow> written_unit \<Rightarrow> bool" where
  "element_fits r parent u \<longleftrightarrow>
     unit_kind u = NestedItem \<and> unit_parent u = Some parent
     \<and> range_contains (rep_input_range r) (full_range u) \<and> \<not> range_is_empty (full_range u)"

lemma validate_element_Inr:
  assumes "validate_element tokenize glue original r parent elements separated (index, facts, u) st = Inr st'"
  shows "element_fits r parent u \<and> unit_id u \<notin> seen_elements st
    \<and> (case previous_element st of None \<Rightarrow> True | Some previous \<Rightarrow> element_order previous (full_range u))
    \<and> previous_element st' = Some (full_range u)
    \<and> seen_elements st' = insert (unit_id u) (seen_elements st)
    \<and> owners st' = (owners st)(unit_id u \<mapsto> (rep_invocation r, rep_rule r, rep_path r))"
  using assms
  by (auto simp: validate_element_def element_fits_def element_order_def bind_result_eq_Inr
      split: if_splits option.splits)

definition follows_previous :: "byte_range option \<Rightarrow> byte_range list \<Rightarrow> bool" where
  "follows_previous previous ranges \<longleftrightarrow>
     (case previous of None \<Rightarrow> successively element_order ranges
      | Some p \<Rightarrow> successively element_order (p # ranges))"

lemma validate_elements_Inr:
  "fold_result (validate_element tokenize glue original r parent elements separated) es st = Inr st' \<Longrightarrow>
     list_all (\<lambda>(_, _, u). element_fits r parent u) es
     \<and> distinct (map (\<lambda>(_, _, u). unit_id u) es)
     \<and> set (map (\<lambda>(_, _, u). unit_id u) es) \<inter> seen_elements st = {}
     \<and> follows_previous (previous_element st) (map (\<lambda>(_, _, u). full_range u) es)
     \<and> seen_elements st' = seen_elements st \<union> set (map (\<lambda>(_, _, u). unit_id u) es)
     \<and> owners st' = (\<lambda>i. if i \<in> set (map (\<lambda>(_, _, u). unit_id u) es)
          then Some (rep_invocation r, rep_rule r, rep_path r) else owners st i)"
proof (induction es arbitrary: st)
  case Nil
  then show ?case by (auto simp: follows_previous_def split: option.splits)
next
  case (Cons e es)
  obtain index facts u where e: "e = (index, facts, u)" by (cases e)
  from Cons.prems e obtain mid where
    mid: "validate_element tokenize glue original r parent elements separated (index, facts, u) st = Inr mid"
    and rest: "fold_result (validate_element tokenize glue original r parent elements separated) es mid = Inr st'"
    by (auto simp: bind_result_eq_Inr)
  note one = validate_element_Inr [OF mid] and more = Cons.IH [OF rest]
  have "follows_previous (previous_element st) (full_range u # map (\<lambda>(_, _, u). full_range u) es)"
    using one more by (cases "previous_element st") (auto simp: follows_previous_def)
  moreover have "owners st' = (\<lambda>i. if i \<in> set (map (\<lambda>(_, _, u). unit_id u) (e # es))
          then Some (rep_invocation r, rep_rule r, rep_path r) else owners st i)"
    using one more e by (auto simp: fun_eq_iff)
  ultimately show ?case using one more e by auto
qed

lemma zip_enumerate_units:
  assumes "length facts = length us"
  shows "map (\<lambda>(_, _, u). f u) (enumerate k (zip facts us)) = map f us"
  using assms by (intro nth_equalityI) (simp_all add: nth_enumerate_eq)

text \<open>What a repetition that passed says about its elements, and how it changes the state.\<close>

definition element_ranges :: "written_unit list \<Rightarrow> macro_repetition \<Rightarrow> byte_range list" where
  "element_ranges us r = map (\<lambda>e. full_range (us ! element_unit e)) (rep_elements r)"

definition element_units :: "macro_repetition \<Rightarrow> source_unit_id list" where
  "element_units r = map element_unit (rep_elements r)"

lemma active_elements:
  assumes "map_result (\<lambda>facts. active_unit us (element_unit facts)) es = Inr elements"
  shows "elements = map (\<lambda>e. us ! element_unit e) es \<and> list_all (\<lambda>e. active_at us (element_unit e)) es"
proof -
  from assms have l: "list_all2 (\<lambda>e u. active_at us (element_unit e) \<and> u = us ! element_unit e) es elements"
    by (simp add: map_result_eq_Inr)
  then show ?thesis by (induction rule: list_all2_induct) auto
qed

lemma validate_repetition_Inr:
  assumes "validate_repetition tokenize glue original us expected r state = Inr state'"
  shows "repetition_shape original expected r (us ! rep_invocation r) (us ! rep_rule r) (us ! rep_parent r)"
    "active_at us (rep_invocation r)" "active_at us (rep_rule r)" "active_at us (rep_parent r)"
    "list_all (active_at us) (element_units r)"
    "distinct (element_units r)" "set (element_units r) \<inter> actual_elements state = {}"
    "list_all (element_fits r (rep_parent r)) (map (\<lambda>i. us ! i) (element_units r))"
    "successively element_order (element_ranges us r)"
    "input_spans r (map (\<lambda>i. us ! i) (element_units r))"
    "actual_elements state' = actual_elements state \<union> set (element_units r)"
    "element_owners state' = (\<lambda>i. if i \<in> set (element_units r)
        then Some (rep_invocation r, rep_rule r, rep_path r) else element_owners state i)"
    "case map_of (matcher_identities state) (rep_rule r, rep_path r) of None \<Rightarrow> True | Some m \<Rightarrow> m = rep_matcher_range r"
    "matcher_identities state' = entry_update (rep_rule r, rep_path r) (\<lambda>_. rep_matcher_range r) (matcher_identities state)"
proof -
  from assms obtain elements st where
    act: "active_at us (rep_invocation r)" "active_at us (rep_rule r)" "active_at us (rep_parent r)"
    and shape: "repetition_shape original expected r (us ! rep_invocation r) (us ! rep_rule r) (us ! rep_parent r)"
    and ident: "case map_of (matcher_identities state) (unit_id (us ! rep_rule r), rep_path r) of
        None \<Rightarrow> True | Some m \<Rightarrow> m = rep_matcher_range r"
    and els: "map_result (\<lambda>facts. active_unit us (element_unit facts)) (rep_elements r) = Inr elements"
    and spans: "input_spans r elements"
    and fold: "fold_result
        (validate_element tokenize glue original r (unit_id (us ! rep_parent r)) elements
          (rep_elements r \<noteq> [] \<and> separator_after (hd (rep_elements r)) \<noteq> None))
        (enumerate 0 (zip (rep_elements r) elements))
        \<lparr>previous_element = None, separator_identity = None,
         seen_elements = actual_elements state, owners = element_owners state\<rparr> = Inr st"
    and state': "actual_elements state' = seen_elements st" "element_owners state' = owners st"
      "matcher_identities state' = entry_update (unit_id (us ! rep_rule r), rep_path r) (\<lambda>_. rep_matcher_range r)
         (matcher_identities state)"
    unfolding validate_repetition_def
    by (auto simp: bind_result_eq_Inr Let_def split: if_splits option.splits)
  have ids: "unit_id (us ! rep_rule r) = rep_rule r" "unit_id (us ! rep_parent r) = rep_parent r"
    using act by (simp_all add: active_at_def)
  from active_elements [OF els] have elements: "elements = map (\<lambda>e. us ! element_unit e) (rep_elements r)"
    and acts: "list_all (\<lambda>e. active_at us (element_unit e)) (rep_elements r)" by simp_all
  have len: "length (rep_elements r) = length elements" by (simp add: elements)
  have uids: "map unit_id elements = element_units r"
    using acts by (auto simp: elements element_units_def list_all_iff active_at_def)
  have ranges: "map full_range elements = element_ranges us r" by (simp add: elements element_ranges_def)
  have fits: "list_all (\<lambda>(_, _, u). element_fits r (rep_parent r) u) (enumerate 0 (zip (rep_elements r) elements))
      \<longleftrightarrow> list_all (element_fits r (rep_parent r)) elements"
  proof -
    have "list_all (\<lambda>(_, _, u). element_fits r (rep_parent r) u) (enumerate 0 (zip (rep_elements r) elements))
      \<longleftrightarrow> list_all (\<lambda>b. b) (map (\<lambda>(_, _, u). element_fits r (rep_parent r) u) (enumerate 0 (zip (rep_elements r) elements)))"
      by (simp add: list_all_iff)
    also have "\<dots> \<longleftrightarrow> list_all (element_fits r (rep_parent r)) elements"
      by (simp only: zip_enumerate_units [OF len] list.pred_map) (simp add: list_all_iff)
    finally show ?thesis .
  qed
  note all = validate_elements_Inr [OF fold, unfolded zip_enumerate_units [OF len] ids uids ranges fits]
  have els': "elements = map (\<lambda>i. us ! i) (element_units r)" by (simp add: elements element_units_def)
  show "active_at us (rep_invocation r)" "active_at us (rep_rule r)" "active_at us (rep_parent r)"
    "repetition_shape original expected r (us ! rep_invocation r) (us ! rep_rule r) (us ! rep_parent r)"
    by (fact act shape)+
  show "list_all (active_at us) (element_units r)" using acts by (simp add: element_units_def list_all_iff)
  show "distinct (element_units r)" "set (element_units r) \<inter> actual_elements state = {}"
    "successively element_order (element_ranges us r)"
    using all by (simp_all add: follows_previous_def)
  show "list_all (element_fits r (rep_parent r)) (map (\<lambda>i. us ! i) (element_units r))"
    using all by (simp add: els' [symmetric])
  show "input_spans r (map (\<lambda>i. us ! i) (element_units r))" using spans by (simp add: els' [symmetric])
  show "actual_elements state' = actual_elements state \<union> set (element_units r)"
    "element_owners state' = (\<lambda>i. if i \<in> set (element_units r)
        then Some (rep_invocation r, rep_rule r, rep_path r) else element_owners state i)"
    using all state' by (simp_all add: fun_eq_iff)
  show "case map_of (matcher_identities state) (rep_rule r, rep_path r) of None \<Rightarrow> True | Some m \<Rightarrow> m = rep_matcher_range r"
    "matcher_identities state' = entry_update (rep_rule r, rep_path r) (\<lambda>_. rep_matcher_range r) (matcher_identities state)"
    using ident state' by (simp_all add: ids)
qed

lemma repetition_separator:
  assumes "validate_repetition tokenize glue original us expected r state = Inr state'"
    and "i < length (rep_elements r)" "separator_after (rep_elements r ! i) = Some s"
  shows "Suc i < length (rep_elements r)
    \<and> br_end (element_ranges us r ! i) \<le> br_start s \<and> br_start s < br_end s
    \<and> br_end s \<le> br_start (element_ranges us r ! Suc i) \<and> range_contains (rep_input_range r) s"
proof -
  from assms(1) obtain parent elements separated st0 st where
    els: "map_result (\<lambda>facts. active_unit us (element_unit facts)) (rep_elements r) = Inr elements"
    and fold: "fold_result (validate_element tokenize glue original r parent elements separated)
        (enumerate 0 (zip (rep_elements r) elements)) st0 = Inr st"
    unfolding validate_repetition_def
    by (auto simp: bind_result_eq_Inr Let_def split: if_splits option.splits)
  from active_elements [OF els] have elements: "elements = map (\<lambda>e. us ! element_unit e) (rep_elements r)" by simp
  have "(i, rep_elements r ! i, elements ! i) \<in> set (enumerate 0 (zip (rep_elements r) elements))"
    using assms(2) by (auto simp: set_enumerate_nth elements intro!: image_eqI [of _ _ i])
  from fold_result_step [OF fold this] obtain s0 s1 where
    "validate_element tokenize glue original r parent elements separated (i, rep_elements r ! i, elements ! i) s0 = Inr s1"
    by blast
  then obtain identity where
    "check_separator tokenize glue original r elements separated i (rep_elements r ! i) (elements ! i) (separator_identity s0)
       = Inr identity"
    by (auto simp: validate_element_def bind_result_eq_Inr split: if_splits)
  then have "Suc i < length (rep_elements r)"
    "separator_ok tokenize original (rep_input_range r) (full_range (elements ! i)) s (full_range (elements ! Suc i))"
    using assms(2,3) by (auto simp: check_separator_def bind_result_eq_Inr elements split: if_splits)
  then show ?thesis
    by (auto simp: separator_ok_def elements element_ranges_def valid_source_range_def range_is_empty_def)
qed

definition empty_repetition_state :: repetition_state where
  "empty_repetition_state =
     \<lparr>actual_elements = {}, element_owners = Map.empty, invocation_rules = Map.empty,
      matcher_identities = [], sequence_inputs = []\<rparr>"

text \<open>The tables the loop over the repetitions collects.\<close>

definition identities_of :: "macro_repetition list \<Rightarrow> ((source_unit_id \<times> nat list) \<times> byte_range) list \<Rightarrow> bool" where
  "identities_of rs m \<longleftrightarrow>
     (\<forall>r \<in> set rs. map_of m (rep_rule r, rep_path r) = Some (rep_matcher_range r))"

definition owners_of ::
  "macro_repetition list \<Rightarrow> (source_unit_id \<rightharpoonup> source_unit_id \<times> source_unit_id \<times> nat list) \<Rightarrow> bool" where
  "owners_of rs m \<longleftrightarrow>
     (\<forall>i x. m i = Some x \<longrightarrow> (\<exists>r \<in> set rs. i \<in> set (element_units r) \<and> x = (rep_invocation r, rep_rule r, rep_path r)))"

lemma repetitions_fold:
  assumes "fold_result (validate_repetition tokenize glue original us expected) rs state = Inr state'"
    and "ordered_keys (matcher_identities state)" "identities_of done_rs (matcher_identities state)"
    and "owners_of done_rs (element_owners state)"
  shows "ordered_keys (matcher_identities state') \<and> identities_of (done_rs @ rs) (matcher_identities state')
    \<and> owners_of (done_rs @ rs) (element_owners state')"
  using assms
proof (induction rs arbitrary: state done_rs)
  case (Cons r rs)
  from Cons.prems(1) obtain mid where
    mid: "validate_repetition tokenize glue original us expected r state = Inr mid"
    and rest: "fold_result (validate_repetition tokenize glue original us expected) rs mid = Inr state'"
    by (auto simp: bind_result_eq_Inr)
  note one = validate_repetition_Inr [OF mid]
  have ord: "ordered_keys (matcher_identities mid)"
    using Cons.prems(2) by (simp add: one(14) entry_update_ordered)
  have same: "map_of (matcher_identities state) (rep_rule r, rep_path r) = Some m \<Longrightarrow> m = rep_matcher_range r" for m
    using one(13) by simp
  have upd: "map_of (matcher_identities mid)
      = (map_of (matcher_identities state))((rep_rule r, rep_path r) \<mapsto> rep_matcher_range r)"
    by (simp add: one(14) entry_update_map_of [OF Cons.prems(2)])
  have ids: "identities_of (done_rs @ [r]) (matcher_identities mid)"
    unfolding identities_of_def
  proof
    fix q
    assume q: "q \<in> set (done_rs @ [r])"
    show "map_of (matcher_identities mid) (rep_rule q, rep_path q) = Some (rep_matcher_range q)"
    proof (cases "q = r")
      case False
      with q Cons.prems(3) have old: "map_of (matcher_identities state) (rep_rule q, rep_path q) = Some (rep_matcher_range q)"
        by (auto simp: identities_of_def)
      show ?thesis
      proof (cases "(rep_rule q, rep_path q) = (rep_rule r, rep_path r)")
        case True
        then have "rep_matcher_range q = rep_matcher_range r" using old same by simp
        then show ?thesis using True by (simp add: upd)
      next
        case False
        then show ?thesis using old unfolding upd by (subst fun_upd_other) simp_all
      qed
    qed (simp add: upd)
  qed
  have own: "owners_of (done_rs @ [r]) (element_owners mid)"
    using Cons.prems(4) by (auto simp: owners_of_def one(12) split: if_splits)
  from Cons.IH [OF rest ord ids own] show ?case by simp
qed simp

lemma siblings_fold:
  "fold_result (add_matcher_sibling identities) es siblings = Inr siblings' \<Longrightarrow> ((rule, path), r) \<in> set es \<Longrightarrow>
     butlast path \<noteq> [] \<Longrightarrow>
     \<exists>parent. map_of identities (rule, butlast path) = Some parent \<and> range_contains parent r \<and> parent \<noteq> r"
  by (drule (1) fold_result_step) (auto simp: add_matcher_sibling_def Let_def split: if_splits option.splits)

definition matchers_nested :: "((source_unit_id \<times> nat list) \<times> byte_range) list \<Rightarrow> bool" where
  "matchers_nested identities \<longleftrightarrow>
     (\<forall>rule path m. map_of identities (rule, path) = Some m \<longrightarrow> butlast path \<noteq> [] \<longrightarrow>
        (\<exists>parent. map_of identities (rule, butlast path) = Some parent
           \<and> range_contains parent m \<and> parent \<noteq> m))"

lemma validate_repetitions_Inr:
  assumes "validate_repetitions tokenize glue original us repetitions expected_matcher = Inr ()"
  obtains state where
    "fold_result (validate_repetition tokenize glue original us (all_elements repetitions)) repetitions
       empty_repetition_state = Inr state"
    "list_all (nested_ok (element_owners state)) repetitions"
    "matchers_nested (matcher_identities state)"
    "ordered_keys (matcher_identities state)"
    "identities_of repetitions (matcher_identities state)"
    "owners_of repetitions (element_owners state)"
    "actual_elements state = expected_matcher"
    "all_elements repetitions = expected_matcher"
proof -
  from assms obtain state siblings where
    fold: "fold_result (validate_repetition tokenize glue original us (all_elements repetitions)) repetitions
       empty_repetition_state = Inr state"
    and nested: "list_all (nested_ok (element_owners state)) repetitions"
    and sib: "fold_result (add_matcher_sibling (matcher_identities state)) (matcher_identities state) [] = Inr siblings"
    and els: "actual_elements state = expected_matcher" "all_elements repetitions = expected_matcher"
    by (auto simp: validate_repetitions_def empty_repetition_state_def Let_def bind_result_eq_Inr
        list_all_iff list_ex_iff split: if_splits)
  have "ordered_keys (matcher_identities state) \<and> identities_of ([] @ repetitions) (matcher_identities state)
    \<and> owners_of ([] @ repetitions) (element_owners state)"
    by (rule repetitions_fold [OF fold])
       (simp_all add: empty_repetition_state_def identities_of_def owners_of_def)
  then have inv: "ordered_keys (matcher_identities state)" "identities_of repetitions (matcher_identities state)"
    "owners_of repetitions (element_owners state)" by simp_all
  have nest: "matchers_nested (matcher_identities state)"
    unfolding matchers_nested_def
    by (intro allI impI) (rule siblings_fold [OF sib map_of_SomeD])
  show thesis by (rule that [OF fold nested nest inv els])
qed

lemma validated_repetition:
  assumes "validate_repetitions tokenize glue original us repetitions expected_matcher = Inr ()"
    and "r \<in> set repetitions"
  obtains state state' where
    "validate_repetition tokenize glue original us (all_elements repetitions) r state = Inr state'"
  using assms by (elim validate_repetitions_Inr) (metis fold_result_step)

text \<open>C35. A repetition that was accepted respects its bounds: it has at least its minimum of elements
  and at most its maximum, never more than there are units, each inside the input range and each
  ending before the next one starts.\<close>

theorem repetition_bounds:
  assumes "validate_repetitions tokenize glue original us repetitions expected_matcher = Inr ()"
    and "r \<in> set repetitions" and "length us \<le> u32_max"
  shows "rep_minimum r \<le> length (rep_elements r)
    \<and> length (rep_elements r) \<le> (case rep_maximum r of None \<Rightarrow> length us | Some m \<Rightarrow> min m (length us))
    \<and> list_all (range_contains (rep_input_range r)) (element_ranges us r)
    \<and> successively element_order (element_ranges us r)"
proof -
  from assms(1,2) obtain state state' where
    "validate_repetition tokenize glue original us (all_elements repetitions) r state = Inr state'"
    by (rule validated_repetition)
  note one = validate_repetition_Inr [OF this]
  have "set (element_units r) \<subseteq> {..<length us}"
    using one(5) by (auto simp: list_all_iff active_at_def)
  then have "card (set (element_units r)) \<le> length us"
    by (metis card_lessThan card_mono finite_lessThan)
  then have len: "length (rep_elements r) \<le> length us"
    using distinct_card [OF one(6)] by (simp add: element_units_def)
  then have "as_u32 (length (rep_elements r)) = length (rep_elements r)"
    using assms(3) by (simp add: as_u32_def)
  with one(1) have "rep_minimum r \<le> length (rep_elements r)"
    "case rep_maximum r of None \<Rightarrow> True | Some m \<Rightarrow> length (rep_elements r) \<le> m"
    by (auto simp: repetition_shape_def not_less split: option.splits)
  moreover have "list_all (range_contains (rep_input_range r)) (element_ranges us r)"
    using one(8) by (auto simp: list_all_iff element_fits_def element_ranges_def element_units_def)
  ultimately show ?thesis using one(9) len by (auto split: option.splits)
qed

text \<open>A repetition below another one belongs to it: its parent is an element of a repetition of the
  same invocation and rule whose path is one step shorter, and whose matcher strictly contains its own.\<close>

theorem repetition_nesting:
  assumes "validate_repetitions tokenize glue original us repetitions expected_matcher = Inr ()"
    and "r \<in> set repetitions" and "rep_parent r \<noteq> rep_invocation r"
  shows "\<exists>p \<in> set repetitions.
    rep_parent r \<in> set (element_units p) \<and> rep_invocation p = rep_invocation r \<and> rep_rule p = rep_rule r
    \<and> rep_path r = rep_path p @ [last (rep_path r)]
    \<and> range_contains (rep_matcher_range p) (rep_matcher_range r) \<and> rep_matcher_range p \<noteq> rep_matcher_range r"
proof -
  from assms(1) obtain state :: repetition_state where
    nested: "list_all (nested_ok (element_owners state)) repetitions"
    and nest: "matchers_nested (matcher_identities state)"
    and ids: "identities_of repetitions (matcher_identities state)"
    and own: "owners_of repetitions (element_owners state)"
    by (rule validate_repetitions_Inr)
  from nested assms(2,3) obtain path where
    owner: "element_owners state (rep_parent r) = Some (rep_invocation r, rep_rule r, path)"
    and path: "length path + 1 = length (rep_path r)" "take (length path) (rep_path r) = path"
    by (auto simp: list_all_iff nested_ok_def split: option.splits)
  from own owner obtain p where p: "p \<in> set repetitions" "rep_parent r \<in> set (element_units p)"
    "rep_invocation p = rep_invocation r" "rep_rule p = rep_rule r" "rep_path p = path"
    unfolding owners_of_def by fastforce
  have "length (rep_path r) - 1 = length path" using path(1) by simp
  then have bl: "butlast (rep_path r) = path" using path(2) by (simp only: butlast_conv_take)
  from assms(1) p(1) obtain s s' where
    "validate_repetition tokenize glue original us (all_elements repetitions) p s = Inr s'"
    by (rule validated_repetition)
  from validate_repetition_Inr(1) [OF this] have "path \<noteq> []" using p(5) by (simp add: repetition_shape_def)
  with bl have ne: "butlast (rep_path r) \<noteq> []" by simp
  have "map_of (matcher_identities state) (rep_rule r, rep_path r) = Some (rep_matcher_range r)"
    "map_of (matcher_identities state) (rep_rule p, rep_path p) = Some (rep_matcher_range p)"
    using ids assms(2) p(1) by (auto simp: identities_of_def)
  with nest ne bl p
  have "range_contains (rep_matcher_range p) (rep_matcher_range r) \<and> rep_matcher_range p \<noteq> rep_matcher_range r"
    unfolding matchers_nested_def by (metis option.inject)
  moreover have "rep_path r = rep_path p @ [last (rep_path r)]"
    using bl p(5) path(1) by (metis add_is_0 append_butlast_last_id list.size(3) one_neq_zero)
  ultimately show ?thesis using p by auto
qed

text \<open>An invocation \<open>{a b}\<close> over a rule: two elements at path 0, the second with one element below it.\<close>

definition sample_repetition_units :: "written_unit list" where
  "sample_repetition_units =
     [sample_unit 0 CrateRoot 0 12 None, sample_unit 1 MacroDefinition 0 6 (Some 0),
      sample_unit 2 MacroRule 1 6 (Some 1), sample_unit 3 MacroInvocation 7 12 (Some 0),
      sample_unit 4 NestedItem 8 9 (Some 3), sample_unit 5 NestedItem 9 11 (Some 3),
      sample_unit 6 NestedItem 10 11 (Some 5)]"

definition sample_source :: bytes where
  "sample_source = [97, 97, 97, 97, 97, 97, 97, 97, 97, 97, 97, 97]"

definition plain_element :: "source_unit_id \<Rightarrow> macro_repetition_element" where
  "plain_element i = \<lparr>element_unit = i, separator_after = None\<rparr>"

definition sample_repetition :: "byte_range \<Rightarrow> source_unit_id \<Rightarrow> nat list \<Rightarrow> byte_range \<Rightarrow> source_unit_id list \<Rightarrow> macro_repetition" where
  "sample_repetition matcher parent path inp es =
     \<lparr>rep_invocation = 3, rep_rule = 2, rep_matcher_range = matcher, rep_parent = parent, rep_path = path,
      rep_input_range = inp, rep_elements = map plain_element es, rep_minimum = 1, rep_maximum = None\<rparr>"

definition sample_repetitions :: "macro_repetition list" where
  "sample_repetitions =
     [sample_repetition (ByteRange 2 6) 3 [0] (ByteRange 8 11) [4, 5],
      sample_repetition (ByteRange 3 5) 5 [0, 0] (ByteRange 10 11) [6]]"

lemmas repetition_evaluation =
  sample_repetitions_def sample_repetition_def sample_repetition_units_def sample_unit_def sample_source_def
  plain_element_def validate_repetitions_def validate_repetition_def validate_element_def check_separator_def
  repetition_shape_def all_elements_def active_unit_def get_at_def repetition_key_def Let_def
  input_spans_def range_is_empty_def range_contains_def valid_source_range_def is_char_boundary_def
  continuation_byte_def range_is_trivia_def str_get_def byte_lexer_def nested_ok_def as_u32_def u32_max_def
  sequences_disjoint_def sequence_key_def sequence_conflict_def siblings_disjoint_def add_matcher_sibling_def
  push_entry_def ranges_overlap_def

lemma sample_repetitions_valid:
  "validate_repetitions byte_lexer (\<lambda>_ _. None) sample_source sample_repetition_units sample_repetitions {4, 5, 6} = Inr ()"
  by (simp add: repetition_evaluation nth_Cons' insert_commute)

lemma repetition_bounds_witness:
  "\<exists>r \<in> set sample_repetitions. rep_minimum r \<le> length (rep_elements r)
    \<and> length (rep_elements r) \<le> (case rep_maximum r of None \<Rightarrow> length sample_repetition_units
        | Some m \<Rightarrow> min m (length sample_repetition_units))
    \<and> list_all (range_contains (rep_input_range r)) (element_ranges sample_repetition_units r)
    \<and> successively element_order (element_ranges sample_repetition_units r)"
proof
  let ?r = "sample_repetition (ByteRange 2 6) 3 [0] (ByteRange 8 11) [4, 5]"
  show mem: "?r \<in> set sample_repetitions" by (simp add: sample_repetitions_def)
  show "rep_minimum ?r \<le> length (rep_elements ?r)
    \<and> length (rep_elements ?r) \<le> (case rep_maximum ?r of None \<Rightarrow> length sample_repetition_units
        | Some m \<Rightarrow> min m (length sample_repetition_units))
    \<and> list_all (range_contains (rep_input_range ?r)) (element_ranges sample_repetition_units ?r)
    \<and> successively element_order (element_ranges sample_repetition_units ?r)"
    by (rule repetition_bounds [OF sample_repetitions_valid mem])
       (simp add: sample_repetition_units_def u32_max_def)
qed

lemma repetition_nesting_witness:
  "\<exists>p \<in> set sample_repetitions. 5 \<in> set (element_units p) \<and> rep_path p = [0]
     \<and> range_contains (rep_matcher_range p) (ByteRange 3 5)"
proof -
  let ?r = "sample_repetition (ByteRange 3 5) 5 [0, 0] (ByteRange 10 11) [6]"
  have "?r \<in> set sample_repetitions" "rep_parent ?r \<noteq> rep_invocation ?r"
    by (simp_all add: sample_repetitions_def sample_repetition_def)
  from repetition_nesting [OF sample_repetitions_valid this] show ?thesis
    by (auto simp: sample_repetition_def)
qed

end
