(* ===== verification/Segments.thy ===== *)
theory Segments
  imports Token_Guard
begin

text \<open>
  What the two users of \<open>comma_list_segments\<close>, the derive attributes and the use trees, need of the
  segments of a list: they follow each other with one comma between two neighbours, and cutting a
  run of segments together with a comma removes exactly these segments.  Besides, the tokens and
  pairs that a successful \<open>tokenize_balanced_range\<close> returns.
\<close>

section \<open>Tokens of a range\<close>

definition tokens_of :: "lexer \<Rightarrow> bytes \<Rightarrow> byte_range \<Rightarrow> source_token list" where
  "tokens_of tokenize source r =
     layout_tokens (tokenize (take (br_end r - br_start r) (drop (br_start r) source))) (br_start r)"

lemma tokenize_balanced_range_Inr:
  assumes "tokenize_balanced_range tokenize source r = Inr (tokens, pairs)"
  shows "tokens = tokens_of tokenize source r"
    "set pairs = Collect (pair_matches (map token_kind tokens))"
    "sorted_wrt (<) (map pair_close pairs)"
proof -
  from assms obtain input offset stack where
    input: "str_get source (br_start r) (br_end r) = Some input"
    and run: "balance_tokens (tokenize input) (br_start r) [] [] [] = Inr (offset, tokens, [], pairs)"
    by (auto simp: tokenize_balanced_range_def bind_result_eq_Inr split: if_splits)
  from input have "input = take (br_end r - br_start r) (drop (br_start r) source)"
    by (auto simp: str_get_def split: if_splits)
  with balance_tokens_follows [where done_tokens = "[]" and stack = "[]" and pairs = "[]"
      and ts = "tokenize input" and offset = "br_start r"] run balance_state_empty
  show "tokens = tokens_of tokenize source r"
    "set pairs = Collect (pair_matches (map token_kind tokens))"
    "sorted_wrt (<) (map pair_close pairs)"
    by (simp_all add: tokens_of_def balance_state_def)
qed

lemma layout_tokens_range:
  "i < length ts \<Longrightarrow> token_range (layout_tokens ts offset ! i)
     = ByteRange (offset + sum_list (map snd (take i ts))) (offset + sum_list (map snd (take (Suc i) ts)))"
proof (induction ts offset arbitrary: i rule: layout_tokens.induct)
  case (2 k len rest offset)
  then show ?case by (cases i) auto
qed simp

definition tokens_ordered :: "source_token list \<Rightarrow> bool" where
  "tokens_ordered tokens \<longleftrightarrow>
     (\<forall>i < length tokens. br_start (token_range (tokens ! i)) \<le> br_end (token_range (tokens ! i)))
     \<and> (\<forall>i j. i < j \<longrightarrow> j < length tokens \<longrightarrow>
          br_end (token_range (tokens ! i)) \<le> br_start (token_range (tokens ! j)))"

lemma sum_take_mono: "i \<le> j \<Longrightarrow> sum_list (map snd (take i ts)) \<le> sum_list (map snd (take j (ts :: ('a \<times> nat) list)))"
proof -
  assume "i \<le> j"
  then have "take j ts = take i ts @ drop i (take j ts)"
    by (metis append_take_drop_id min.absorb1 take_take)
  then have "sum_list (map snd (take j ts)) = sum_list (map snd (take i ts)) + sum_list (map snd (drop i (take j ts)))"
    by (metis map_append sum_list_append)
  then show ?thesis by simp
qed

lemma tokens_of_ordered: "tokens_ordered (tokens_of tokenize source r)"
  by (auto simp: tokens_ordered_def tokens_of_def layout_tokens_range intro: sum_take_mono)

lemma tokens_of_inside:
  assumes "lexer_covers tokenize" "br_start r \<le> br_end r" "i < length (tokens_of tokenize source r)"
  shows "range_contains r (token_range (tokens_of tokenize source r ! i))"
proof -
  let ?s = "take (br_end r - br_start r) (drop (br_start r) source)"
  let ?ts = "tokenize ?s"
  have i: "Suc i \<le> length ?ts" using assms(3) by (simp add: tokens_of_def)
  have "sum_list (map snd (take (Suc i) ?ts)) \<le> sum_list (map snd (take (length ?ts) ?ts))"
    by (rule sum_take_mono [OF i])
  also have "\<dots> = length ?s" using assms(1) by (simp add: lexer_covers_def)
  finally have "sum_list (map snd (take (Suc i) ?ts)) \<le> br_end r - br_start r" by simp
  with assms(2) i show ?thesis by (simp add: tokens_of_def layout_tokens_range range_contains_def)
qed

definition tokens_nonempty :: "source_token list \<Rightarrow> bool" where
  "tokens_nonempty tokens \<longleftrightarrow>
     (\<forall>i < length tokens. br_start (token_range (tokens ! i)) < br_end (token_range (tokens ! i)))"

lemma tokens_of_nonempty:
  assumes "lexer_positive tokenize"
  shows "tokens_nonempty (tokens_of tokenize source r)"
proof -
  have "0 < snd (tokenize s ! i)" if "i < length (tokenize s)" for s i
    using assms nth_mem [OF that] by (auto simp: lexer_positive_def)
  then show ?thesis by (simp add: tokens_nonempty_def tokens_of_def layout_tokens_range take_Suc_conv_app_nth)
qed

text \<open>An opening delimiter has one partner.\<close>

lemma matching_unique:
  assumes "matching w d i j" "matching w e i k"
  shows "d = e \<and> j = k"
proof -
  have no: False if m: "matching w d i j" "matching w e i k" "j < k" for d e j k
  proof -
    let ?u = "take (j - Suc i) (drop (Suc i) w)" and ?v = "take (k - Suc i) (drop (Suc i) w)"
    have "i < j" "j < length w" "closing_delimiter (w ! j) = Some d" using m(1) by (simp_all add: matching_def)
    then have none: "opening_delimiter (w ! j) = None"
      using closing_of_opening by (cases "opening_delimiter (w ! j)") auto
    have "take (j - Suc i) ?v = ?u" using m(3) by (simp add: min_def)
    moreover have "?v ! (j - Suc i) = w ! j" "j - Suc i < length ?v"
      using \<open>i < j\<close> \<open>j < length w\<close> m(2,3) by (auto simp: matching_def)
    ultimately have "?v = ?u @ w ! j # drop (Suc (j - Suc i)) ?v"
      using id_take_nth_drop by metis
    then have "run_stack [] ?v = run_stack [] (?u @ w ! j # drop (Suc (j - Suc i)) ?v)" by simp
    also have "\<dots> = None"
      using m(1) none \<open>closing_delimiter (w ! j) = Some d\<close> by (simp add: run_stack_append run_stack_balanced matching_def)
    finally have "run_stack [] ?v = None" .
    moreover have "run_stack [] ?v = Some []" using m(2) by (simp add: run_stack_balanced matching_def)
    ultimately show False by simp
  qed
  have "j = k" using no [OF assms] no [OF assms(2,1)] by (meson linorder_neqE_nat)
  moreover have "d = e" using assms by (auto simp: matching_def)
  ultimately show ?thesis by simp
qed

lemma pair_matches_unique: "pair_matches w p \<Longrightarrow> pair_matches w q \<Longrightarrow> pair_open p = pair_open q \<Longrightarrow> p = q"
  by (cases p; cases q) (auto simp: pair_matches_def dest: matching_unique)

section \<open>Chains of segments\<close>

definition segment_chain :: "comma_list_segment list \<Rightarrow> bool" where
  "segment_chain segs \<longleftrightarrow>
     segs \<noteq> [] \<and> previous_comma (segs ! 0) = None \<and> following_comma (segs ! (length segs - 1)) = None
     \<and> (\<forall>k < length segs. br_start (segment_range (segs ! k)) \<le> br_end (segment_range (segs ! k)))
     \<and> (\<forall>k. Suc k < length segs \<longrightarrow>
          (\<exists>c. following_comma (segs ! k) = Some c \<and> previous_comma (segs ! Suc k) = Some c
             \<and> br_end (segment_range (segs ! k)) = br_start c \<and> br_start c \<le> br_end c
             \<and> br_end c = br_start (segment_range (segs ! Suc k))))"

lemma top_level_commas_bounds:
  "c \<in> set (top_level_commas w i j) \<Longrightarrow> i < c \<and> c < j"
  by (auto simp: top_level_commas_def)

lemma top_level_commas_sorted: "sorted_wrt (<) (top_level_commas w i j)"
  unfolding top_level_commas_def by (rule sorted_wrt_filter) simp

lemma comma_list_segments_Inr:
  assumes "comma_list_segments tokens pair = Inr segs"
  obtains commas where
    "segs = map (comma_segment tokens (tokens ! pair_open pair) (tokens ! pair_close pair) commas) [0 ..< Suc (length commas)]"
    "sorted_wrt (<) commas" "\<And>c. c \<in> set commas \<Longrightarrow> pair_open pair < c \<and> c < pair_close pair"
    "pair_open pair < pair_close pair" "pair_close pair < length tokens"
proof -
  let ?w = "map token_kind tokens" and ?i = "pair_open pair" and ?j = "pair_close pair"
  from assms have bounds: "?i < ?j" "?j < length tokens"
    by (auto simp: comma_list_segments_def split: option.splits if_splits)
  from assms bounds obtain stack where
    "(case run_stack [] (token_slice ?w ?i ?j) of None \<Rightarrow> Inl InvalidSyntax | Some s \<Rightarrow> Inr (s, top_level_commas ?w ?i ?j))
      = Inr (stack, top_level_commas ?w ?i ?j)"
    and "segs = map (comma_segment tokens (tokens ! ?i) (tokens ! ?j) (top_level_commas ?w ?i ?j))
      [0 ..< Suc (length (top_level_commas ?w ?i ?j))]"
    using scan_commas_inside [OF bounds]
    by (auto simp: comma_list_segments_def get_at_def bind_result_eq_Inr simp del: upt_Suc split: option.splits if_splits)
  then show thesis
    using that bounds top_level_commas_bounds top_level_commas_sorted by blast
qed

lemma comma_list_segments_chain:
  assumes "comma_list_segments tokens pair = Inr segs" and "tokens_ordered tokens"
  shows "segment_chain segs"
proof -
  from assms(1) obtain commas where
    segs: "segs = map (comma_segment tokens (tokens ! pair_open pair) (tokens ! pair_close pair) commas) [0 ..< Suc (length commas)]"
    and sorted: "sorted_wrt (<) commas" and inside: "\<And>c. c \<in> set commas \<Longrightarrow> pair_open pair < c \<and> c < pair_close pair"
    and bounds: "pair_open pair < pair_close pair" "pair_close pair < length tokens"
    by (rule comma_list_segments_Inr) blast
  let ?n = "length commas" and ?r = "\<lambda>i. token_range (tokens ! i)"
  have ord: "br_end (?r i) \<le> br_start (?r j)" if "i < j" "j < length tokens" for i j
    using assms(2) that by (simp add: tokens_ordered_def)
  have seg: "segs ! k = comma_segment tokens (tokens ! pair_open pair) (tokens ! pair_close pair) commas k" if "k \<le> ?n" for k
    using that by (simp add: segs del: upt_Suc)
  have comma: "pair_open pair < commas ! k" "commas ! k < pair_close pair" if "k < ?n" for k
    using inside that by simp_all
  have step: "commas ! k < commas ! Suc k" if "Suc k < ?n" for k
    using sorted that by (simp add: sorted_wrt_iff_nth_less)
  have start_le: "br_start (segment_range (segs ! k)) \<le> br_end (segment_range (segs ! k))" if "k \<le> ?n" for k
  proof (cases k)
    case 0
    then show ?thesis
      using ord [OF comma(1) [of 0]] ord [OF bounds] comma(2) [of 0] bounds(2)
      by (auto simp: seg comma_segment_def checked_sub_def get_at_def)
  next
    case (Suc m)
    then have m: "m < ?n" using that by simp
    show ?thesis
    proof (cases "k < ?n")
      case True
      then have "br_end (?r (commas ! m)) \<le> br_start (?r (commas ! k))"
        using ord step [of m] Suc comma(2) [OF True] bounds(2) by simp
      then show ?thesis using that True Suc m by (simp add: seg comma_segment_def checked_sub_def get_at_def)
    next
      case False
      then show ?thesis using that Suc m ord [OF comma(2) [OF m] bounds(2)]
        by (simp add: seg comma_segment_def checked_sub_def get_at_def)
    qed
  qed
  have pair: "following_comma (segs ! k) = Some (?r (commas ! k)) \<and> previous_comma (segs ! Suc k) = Some (?r (commas ! k))
      \<and> br_end (segment_range (segs ! k)) = br_start (?r (commas ! k))
      \<and> br_end (?r (commas ! k)) = br_start (segment_range (segs ! Suc k))" if "k < ?n" for k
    using that by (simp add: seg comma_segment_def checked_sub_def get_at_def)
  have token: "br_start (?r (commas ! k)) \<le> br_end (?r (commas ! k))" if "k < ?n" for k
    using assms(2) comma(2) [OF that] bounds(2) by (simp add: tokens_ordered_def)
  have len: "length segs = Suc ?n" by (simp add: segs)
  show ?thesis
    unfolding segment_chain_def
  proof (intro conjI allI impI)
    show "segs \<noteq> []" using len by auto
    show "previous_comma (segs ! 0) = None" by (simp add: seg comma_segment_def checked_sub_def Let_def)
    show "following_comma (segs ! (length segs - 1)) = None"
      by (simp add: len seg comma_segment_def get_at_def Let_def)
    show "br_start (segment_range (segs ! k)) \<le> br_end (segment_range (segs ! k))" if "k < length segs" for k
      using start_le that len by simp
    show "\<exists>c. following_comma (segs ! k) = Some c \<and> previous_comma (segs ! Suc k) = Some c
             \<and> br_end (segment_range (segs ! k)) = br_start c \<and> br_start c \<le> br_end c
             \<and> br_end c = br_start (segment_range (segs ! Suc k))" if "Suc k < length segs" for k
      using pair [of k] token [of k] that len by auto
  qed
qed

lemma segment_forward:
  "segment_chain segs \<Longrightarrow> k < length segs \<Longrightarrow> br_start (segment_range (segs ! k)) \<le> br_end (segment_range (segs ! k))"
  by (simp add: segment_chain_def)

lemma segment_comma:
  assumes "segment_chain segs" "Suc k < length segs"
  obtains c where "following_comma (segs ! k) = Some c" "previous_comma (segs ! Suc k) = Some c"
    "br_end (segment_range (segs ! k)) = br_start c" "br_start c \<le> br_end c"
    "br_end c = br_start (segment_range (segs ! Suc k))"
  using assms unfolding segment_chain_def by blast

lemma segment_chain_order:
  assumes "segment_chain segs" "i < j" "j < length segs"
  shows "br_end (segment_range (segs ! i)) \<le> br_start (segment_range (segs ! j))"
  using assms(2,3)
proof (induction j)
  case (Suc j)
  from assms(1) Suc.prems obtain c where c: "br_end (segment_range (segs ! j)) = br_start c" "br_start c \<le> br_end c"
    "br_end c = br_start (segment_range (segs ! Suc j))"
    by (elim segment_comma)
  show ?case
  proof (cases "i = j")
    case True
    then show ?thesis using c by simp
  next
    case False
    then have "br_end (segment_range (segs ! i)) \<le> br_start (segment_range (segs ! j))" using Suc by simp
    also have "\<dots> \<le> br_end (segment_range (segs ! j))" using assms(1) Suc.prems by (simp add: segment_forward)
    finally show ?thesis using c by simp
  qed
qed simp

lemma segment_chain_mono:
  assumes "segment_chain segs" "i \<le> j" "j < length segs"
  shows "br_start (segment_range (segs ! i)) \<le> br_start (segment_range (segs ! j))"
    and "br_end (segment_range (segs ! i)) \<le> br_end (segment_range (segs ! j))"
proof -
  have "br_start (segment_range (segs ! i)) \<le> br_start (segment_range (segs ! j))
    \<and> br_end (segment_range (segs ! i)) \<le> br_end (segment_range (segs ! j))"
  proof (cases "i = j")
    case False
    then have "i < j" using assms(2) by simp
    with segment_chain_order [OF assms(1) this assms(3)] segment_forward [OF assms(1), of i]
      segment_forward [OF assms(1,3)] assms(3) show ?thesis by linarith
  qed simp
  then show "br_start (segment_range (segs ! i)) \<le> br_start (segment_range (segs ! j))"
    "br_end (segment_range (segs ! i)) \<le> br_end (segment_range (segs ! j))" by simp_all
qed

lemma comma_list_segments_ends:
  assumes "comma_list_segments tokens pair = Inr segs"
  shows "br_start (segment_range (segs ! 0)) = br_end (token_range (tokens ! pair_open pair))
    \<and> br_end (segment_range (segs ! (length segs - 1))) = br_start (token_range (tokens ! pair_close pair))"
proof -
  from assms obtain commas where
    segs: "segs = map (comma_segment tokens (tokens ! pair_open pair) (tokens ! pair_close pair) commas) [0 ..< Suc (length commas)]"
    by (rule comma_list_segments_Inr) blast
  then have "segs ! 0 = comma_segment tokens (tokens ! pair_open pair) (tokens ! pair_close pair) commas 0"
    "segs ! (length segs - 1) = comma_segment tokens (tokens ! pair_open pair) (tokens ! pair_close pair) commas (length commas)"
    by (simp_all del: upt_Suc)
  then show ?thesis by (simp add: comma_segment_def checked_sub_def get_at_def Let_def)
qed

section \<open>Cutting a run of segments\<close>

text \<open>With the comma behind the run, and without one with the comma in front of it.\<close>

definition cut_range :: "comma_list_segment list \<Rightarrow> nat \<Rightarrow> nat \<Rightarrow> byte_range option" where
  "cut_range segs first final =
     (case following_comma (segs ! final) of
        Some c \<Rightarrow> Some (ByteRange (br_start (segment_range (segs ! first))) (br_end c))
      | None \<Rightarrow> map_option (\<lambda>c. ByteRange (br_start c) (br_end (segment_range (segs ! final))))
          (previous_comma (segs ! first)))"

lemma cut_range_bounds:
  assumes "segment_chain segs" "first \<le> final" "final < length segs" "cut_range segs first final = Some d"
  shows "br_start d \<le> br_start (segment_range (segs ! first)) \<and> br_end (segment_range (segs ! final)) \<le> br_end d
    \<and> (0 < first \<longrightarrow> br_end (segment_range (segs ! (first - 1))) \<le> br_start d)
    \<and> (Suc final < length segs \<longrightarrow> br_end d \<le> br_start (segment_range (segs ! Suc final)))"
proof -
  have prev: "\<exists>c. previous_comma (segs ! first) = Some c \<and> br_end (segment_range (segs ! (first - 1))) = br_start c
      \<and> br_start c \<le> br_end c \<and> br_end c = br_start (segment_range (segs ! first))" if pos: "0 < first"
  proof -
    have "Suc (first - 1) < length segs" using assms(2,3) pos by simp
    from segment_comma [OF assms(1) this] pos show ?thesis by (metis Suc_diff_1)
  qed
  show ?thesis
  proof (cases "Suc final < length segs")
    case True
    with assms(1) obtain c where c: "following_comma (segs ! final) = Some c"
      "br_end (segment_range (segs ! final)) = br_start c" "br_start c \<le> br_end c"
      "br_end c = br_start (segment_range (segs ! Suc final))"
      by (elim segment_comma)
    then have d: "d = ByteRange (br_start (segment_range (segs ! first))) (br_end c)"
      using assms(4) by (simp add: cut_range_def)
    show ?thesis using c d prev by (cases "first = 0") auto
  next
    case False
    then have final: "final = length segs - 1" using assms(3) by simp
    with assms(1) have none: "following_comma (segs ! final) = None" by (simp add: segment_chain_def)
    have "previous_comma (segs ! 0) = None" using assms(1) by (simp add: segment_chain_def)
    with assms(4) none have pos: "0 < first" by (cases "first = 0") (simp_all add: cut_range_def)
    from prev [OF pos] obtain c where c: "previous_comma (segs ! first) = Some c"
      "br_end (segment_range (segs ! (first - 1))) = br_start c"
      "br_start c \<le> br_end c" "br_end c = br_start (segment_range (segs ! first))" by blast
    have "d = ByteRange (br_start c) (br_end (segment_range (segs ! final)))"
      using assms(4) c none by (simp add: cut_range_def)
    then show ?thesis using c False by simp
  qed
qed

lemma cut_range_covers:
  assumes "segment_chain segs" "first \<le> final" "final < length segs" "cut_range segs first final = Some d"
    and "first \<le> k" "k \<le> final"
  shows "range_contains d (segment_range (segs ! k))"
proof -
  note b = cut_range_bounds [OF assms(1-4)]
  have "br_start (segment_range (segs ! first)) \<le> br_start (segment_range (segs ! k))"
    by (rule segment_chain_mono) (use assms in auto)
  moreover have "br_end (segment_range (segs ! k)) \<le> br_end (segment_range (segs ! final))"
    by (rule segment_chain_mono) (use assms in auto)
  ultimately show ?thesis using b by (simp add: range_contains_def)
qed

lemma cut_range_spares:
  assumes "segment_chain segs" "first \<le> final" "final < length segs" "cut_range segs first final = Some d"
    and "k < first \<or> final < k" "k < length segs"
  shows "br_end (segment_range (segs ! k)) \<le> br_start d \<or> br_end d \<le> br_start (segment_range (segs ! k))"
proof -
  note b = cut_range_bounds [OF assms(1-4)]
  from assms(5) show ?thesis
  proof
    assume k: "k < first"
    then have "br_end (segment_range (segs ! k)) \<le> br_end (segment_range (segs ! (first - 1)))"
      by (intro segment_chain_mono) (use assms in auto)
    then show ?thesis using b k by simp
  next
    assume k: "final < k"
    then have "br_start (segment_range (segs ! Suc final)) \<le> br_start (segment_range (segs ! k))"
      by (intro segment_chain_mono) (use assms in auto)
    then show ?thesis using b k assms(6) by simp
  qed
qed

text \<open>A range that a deletion does not touch, and one that it covers.\<close>

definition spares :: "byte_range \<Rightarrow> byte_range \<Rightarrow> bool" where
  "spares r d \<longleftrightarrow> br_end r \<le> br_start d \<or> br_end d \<le> br_start r"

lemma spares_contained: "spares r d \<Longrightarrow> range_contains r e \<Longrightarrow> spares e d"
  by (auto simp: spares_def range_contains_def)

definition edited :: "bool \<Rightarrow> byte_range \<Rightarrow> byte_range list \<Rightarrow> bool" where
  "edited keep r deletions \<longleftrightarrow>
     (if keep then list_all (spares r) deletions else list_ex (\<lambda>d. range_contains d r) deletions)"

lemma edited_append:
  "edited keep r ds \<Longrightarrow> list_all (spares r) es \<Longrightarrow> edited keep r (ds @ es) \<and> edited keep r (es @ ds)"
  by (auto simp: edited_def split: if_splits)

text \<open>A deletion that belongs to one segment of a list: it spares all the others and stays inside the list.\<close>

definition inside_segment :: "comma_list_segment list \<Rightarrow> nat \<Rightarrow> byte_range \<Rightarrow> bool" where
  "inside_segment segs k d \<longleftrightarrow>
     (\<forall>j < length segs. j \<noteq> k \<longrightarrow> spares (segment_range (segs ! j)) d)
     \<and> br_start (segment_range (segs ! 0)) \<le> br_start d
     \<and> br_end d \<le> br_end (segment_range (segs ! (length segs - 1)))"

lemma cut_range_inside:
  assumes "segment_chain segs" "first \<le> final" "final < length segs" "cut_range segs first final = Some d"
  shows "br_start (segment_range (segs ! 0)) \<le> br_start d"
    and "br_end d \<le> br_end (segment_range (segs ! (length segs - 1)))"
proof -
  note b = cut_range_bounds [OF assms]
  show "br_start (segment_range (segs ! 0)) \<le> br_start d"
  proof (cases "first = 0")
    case True
    have "previous_comma (segs ! 0) = None" using assms(1) by (simp add: segment_chain_def)
    with assms(4) True show ?thesis by (auto simp: cut_range_def split: option.splits)
  next
    case False
    have "br_start (segment_range (segs ! 0)) \<le> br_start (segment_range (segs ! (first - 1)))"
      by (rule segment_chain_mono) (use assms in auto)
    also have "\<dots> \<le> br_end (segment_range (segs ! (first - 1)))"
      by (rule segment_forward) (use assms in auto)
    finally show ?thesis using b False by simp
  qed
  show "br_end d \<le> br_end (segment_range (segs ! (length segs - 1)))"
  proof (cases "Suc final < length segs")
    case True
    then have "br_end d \<le> br_start (segment_range (segs ! Suc final))" using b by simp
    also have "\<dots> \<le> br_end (segment_range (segs ! Suc final))" by (rule segment_forward) (use assms True in auto)
    also have "\<dots> \<le> br_end (segment_range (segs ! (length segs - 1)))"
      by (rule segment_chain_mono) (use assms True in auto)
    finally show ?thesis .
  next
    case False
    then have k: "final = length segs - 1" using assms(3) by simp
    with assms(1) have "following_comma (segs ! final) = None" by (simp add: segment_chain_def)
    with assms(4) k show ?thesis by (auto simp: cut_range_def)
  qed
qed

lemma cut_inside_segment:
  assumes "segment_chain segs" "k < length segs" "cut_range segs k k = Some d"
  shows "inside_segment segs k d"
proof -
  have "spares (segment_range (segs ! j)) d" if "j < length segs" "j \<noteq> k" for j
  proof -
    have "j < k \<or> k < j" using that(2) by auto
    from cut_range_spares [OF assms(1) order_refl assms(2,3) this that(1)] show ?thesis by (simp add: spares_def)
  qed
  with cut_range_inside [OF assms(1) order_refl assms(2,3)] show ?thesis by (simp add: inside_segment_def)
qed

lemma contained_inside_segment:
  assumes "segment_chain segs" "k < length segs" "range_contains (segment_range (segs ! k)) d"
  shows "inside_segment segs k d"
proof -
  have "spares (segment_range (segs ! j)) d" if "j < length segs" "j \<noteq> k" for j
  proof (cases "j < k")
    case True
    from segment_chain_order [OF assms(1) True assms(2)] assms(3) show ?thesis
      by (simp add: spares_def range_contains_def)
  next
    case False
    then have "k < j" using that by simp
    from segment_chain_order [OF assms(1) this that(1)] assms(3) show ?thesis
      by (simp add: spares_def range_contains_def)
  qed
  moreover have "br_start (segment_range (segs ! 0)) \<le> br_start (segment_range (segs ! k))"
    "br_end (segment_range (segs ! k)) \<le> br_end (segment_range (segs ! (length segs - 1)))"
    by (rule segment_chain_mono; use assms in auto)+
  ultimately show ?thesis using assms(3) by (auto simp: inside_segment_def range_contains_def)
qed

end
