(* ===== verification/Repetition_Plan.thy ===== *)
theory Repetition_Plan
  imports Macro_Repetitions Splice Segments
begin

text \<open>
  Deletions inside the input of a repetition (\<open>src/rewrite/macro_repetition.rs\<close>): the runs of
  elements that are not retained, the range that removes a run together with a separator, the plan
  for one repetition and the deletions of all of them, which must keep the identity of every other
  parser token.
\<close>

section \<open>Runs\<close>

record retention_model =
  model_retained :: nat
  unretained_runs :: "(nat \<times> nat) list"

definition validate_count :: "macro_repetition \<Rightarrow> nat \<Rightarrow> source_rewrite_error + unit" where
  "validate_count r n =
     (if n < rep_minimum r \<or> (case rep_maximum r of None \<Rightarrow> False | Some maximum \<Rightarrow> n > maximum)
      then Inl RewriteInvalidRetention else Inr ())"

fun run_loop :: "bool list \<Rightarrow> nat \<Rightarrow> nat option \<Rightarrow> (nat \<times> nat) list \<Rightarrow> nat option \<times> (nat \<times> nat) list" where
  "run_loop [] index run_start runs = (run_start, runs)"
| "run_loop (retained # rest) index run_start runs =
     (if retained then
        (case run_start of
           Some first \<Rightarrow> run_loop rest (Suc index) None (entry_update first (\<lambda>_. index - 1) runs)
         | None \<Rightarrow> run_loop rest (Suc index) None runs)
      else
        run_loop rest (Suc index) (case run_start of None \<Rightarrow> Some index | Some first \<Rightarrow> Some first) runs)"

definition runs_of :: "bool list \<Rightarrow> (nat \<times> nat) list" where
  "runs_of retained =
     (case run_loop retained 0 None [] of
        (Some first, runs) \<Rightarrow> entry_update first (\<lambda>_. length retained - 1) runs
      | (None, runs) \<Rightarrow> runs)"

definition from_retained_elements ::
  "macro_repetition \<Rightarrow> bool list \<Rightarrow> source_rewrite_error + retention_model" where
  "from_retained_elements r retained =
     (if length retained \<noteq> length (rep_elements r) then Inl RewriteInvalidInventory
      else
        let n = length (filter (\<lambda>b. b) retained)
        in bind_result (validate_count r n) (\<lambda>_.
             Inr \<lparr>model_retained = n, unretained_runs = runs_of retained\<rparr>))"

section \<open>The plan\<close>

definition nested_unit :: "written_unit list \<Rightarrow> source_unit_id \<Rightarrow> source_rewrite_error + written_unit" where
  "nested_unit us i =
     ok_or (case unit_at us i of
              None \<Rightarrow> None | Some u \<Rightarrow> if unit_kind u = NestedItem then Some u else None)
       RewriteInvalidInventory"

definition macro_repetition_run_deletion_range ::
  "source_inventory \<Rightarrow> macro_repetition \<Rightarrow> nat \<Rightarrow> nat \<Rightarrow> source_rewrite_error + byte_range" where
  "macro_repetition_run_deletion_range inventory r first final =
     (if first > final \<or> final \<ge> length (rep_elements r) then Inl RewriteInvalidInventory
      else
        bind_result (nested_unit (src_units inventory) (element_unit (rep_elements r ! first))) (\<lambda>first_unit.
        bind_result (nested_unit (src_units inventory) (element_unit (rep_elements r ! final))) (\<lambda>final_unit.
          let whole = (first = 0 \<and> final + 1 = length (rep_elements r));
              run = (if whole then rep_input_range r
                     else ByteRange (br_start (full_range first_unit)) (br_end (full_range final_unit)));
              cut =
                (if whole then run
                 else case separator_after (rep_elements r ! final) of
                   Some separator \<Rightarrow> ByteRange (br_start run) (br_end separator)
                 | None \<Rightarrow>
                     if final + 1 = length (rep_elements r) \<and> first > 0 then
                       (case separator_after (rep_elements r ! (first - 1)) of
                          Some separator \<Rightarrow> ByteRange (br_start separator) (br_end run)
                        | None \<Rightarrow> run)
                     else run)
          in if range_is_empty cut \<or> \<not> valid_source_range (src_original inventory) cut
             then Inl RewriteInvalidInventory else Inr cut)))"

definition plan_macro_repetition_deletions ::
  "source_inventory \<Rightarrow> source_unit_id set \<Rightarrow> macro_repetition \<Rightarrow> source_rewrite_error + byte_range list" where
  "plan_macro_repetition_deletions inventory retained r =
     (if rep_parent r \<notin> retained then Inr []
      else
        bind_result
          (map_result
            (\<lambda>e. bind_result (nested_unit (src_units inventory) (element_unit e)) (\<lambda>u. Inr (unit_id u \<in> retained)))
            (rep_elements r)) (\<lambda>retained_elements.
        bind_result (from_retained_elements r retained_elements) (\<lambda>model.
          if model_retained model = length retained_elements then Inr []
          else map_result (\<lambda>(first, final). macro_repetition_run_deletion_range inventory r first final)
                 (unretained_runs model))))"

definition add_cohort ::
  "token_rewrite_guard \<Rightarrow> byte_range \<Rightarrow> (byte_range \<times> byte_range list) list
     \<Rightarrow> unit + (byte_range \<times> byte_range list) list" where
  "add_cohort guard deletion cohorts =
     (case deletion_dependency_window guard deletion of
        None \<Rightarrow> Inl ()
      | Some window \<Rightarrow> Inr (entry_update window (push_entry deletion) cohorts))"

definition deletions_preserve_parser_tokens :: "lexer \<Rightarrow> glue \<Rightarrow> bytes \<Rightarrow> byte_range list \<Rightarrow> bool" where
  "deletions_preserve_parser_tokens tokenize glue source deletions =
     (if list_ex (\<lambda>(a, b). br_end a \<ge> br_start b) (windows2 deletions) then False
      else case token_rewrite_guard_new tokenize glue source of
        Inl _ \<Rightarrow> False
      | Inr guard \<Rightarrow>
          (case fold_result (add_cohort guard) deletions [] of
             Inl _ \<Rightarrow> False
           | Inr cohorts \<Rightarrow> list_all (\<lambda>(_, cohort). deletions_preserve_identity tokenize glue guard cohort) cohorts))"

definition macro_repetition_deletions ::
  "lexer \<Rightarrow> glue \<Rightarrow> source_inventory \<Rightarrow> source_unit_id set \<Rightarrow> nat set \<Rightarrow> source_rewrite_error + byte_range list" where
  "macro_repetition_deletions tokenize glue inventory retained piece_boundaries =
     bind_result (map_result (plan_macro_repetition_deletions inventory retained) (src_macro_repetitions inventory))
       (\<lambda>plans.
         bind_result (merge_deletions (src_original inventory) (sort (concat plans)) piece_boundaries) (\<lambda>merged.
           if merged \<noteq> [] \<and> \<not> deletions_preserve_parser_tokens tokenize glue (src_original inventory) merged
           then Inl RewriteInvalidRetention else Inr merged))"

section \<open>The runs are the maximal ones\<close>

definition maximal_run :: "bool list \<Rightarrow> nat \<times> nat \<Rightarrow> bool" where
  "maximal_run retained = (\<lambda>(first, final).
     first \<le> final \<and> final < length retained
     \<and> (\<forall>i. first \<le> i \<longrightarrow> i \<le> final \<longrightarrow> \<not> retained ! i)
     \<and> (first = 0 \<or> retained ! (first - 1))
     \<and> (Suc final = length retained \<or> retained ! Suc final))"

text \<open>Before the element at \<open>index\<close>: the finished runs and the open one.\<close>

definition run_state :: "bool list \<Rightarrow> nat \<Rightarrow> nat option \<Rightarrow> (nat \<times> nat) list \<Rightarrow> bool" where
  "run_state retained index run_start runs \<longleftrightarrow>
     index \<le> length retained
     \<and> set runs = {(a, b). a \<le> b \<and> Suc b < index \<and> (\<forall>i. a \<le> i \<longrightarrow> i \<le> b \<longrightarrow> \<not> retained ! i)
          \<and> (a = 0 \<or> retained ! (a - 1)) \<and> retained ! Suc b}
     \<and> sorted_wrt (<) (map fst runs)
     \<and> (case run_start of
          None \<Rightarrow> index = 0 \<or> retained ! (index - 1)
        | Some a \<Rightarrow> a < index \<and> (\<forall>i. a \<le> i \<longrightarrow> i < index \<longrightarrow> \<not> retained ! i) \<and> (a = 0 \<or> retained ! (a - 1)))"

lemma finished_runs_snoc:
  assumes "run_state retained index (Some a) runs"
  shows "entry_update a (\<lambda>_. index - 1) runs = runs @ [(a, index - 1)]"
proof (rule entry_update_after, rule ballI)
  fix j
  assume "j \<in> fst ` set runs"
  then obtain b where b: "(j, b) \<in> set runs" by auto
  with assms have "Suc b < index" "retained ! Suc b" "j \<le> b"
    and a: "\<forall>i. a \<le> i \<longrightarrow> i < index \<longrightarrow> \<not> retained ! i" by (auto simp: run_state_def)
  then show "j < a" by (metis le_SucI le_less_trans not_le)
qed

lemma run_unique:
  assumes "\<forall>i. a \<le> i \<longrightarrow> i \<le> b \<longrightarrow> \<not> retained ! i" "a = 0 \<or> retained ! (a - 1)"
    and "\<forall>i. c \<le> i \<longrightarrow> i \<le> b \<longrightarrow> \<not> retained ! i" "c = 0 \<or> retained ! (c - 1)" and "a \<le> b" "c \<le> b"
  shows "a = (c :: nat)"
proof (rule ccontr)
  assume "a \<noteq> c"
  then consider "a < c" | "c < a" by linarith
  then show False
  proof cases
    case 1
    then have "retained ! (c - 1)" "a \<le> c - 1" "c - 1 \<le> b" using assms(4,6) by auto
    with assms(1) show False by blast
  next
    case 2
    then have "retained ! (a - 1)" "c \<le> a - 1" "a - 1 \<le> b" using assms(2,5) by auto
    with assms(3) show False by blast
  qed
qed

lemma run_state_step:
  assumes st: "run_state retained index run_start runs" and lt: "index < length retained"
  shows "retained ! index \<Longrightarrow> run_start = None \<Longrightarrow> run_state retained (Suc index) None runs"
    and "retained ! index \<Longrightarrow> run_start = Some a \<Longrightarrow> run_state retained (Suc index) None (runs @ [(a, index - 1)])"
    and "\<not> retained ! index \<Longrightarrow> run_state retained (Suc index) (case run_start of None \<Rightarrow> Some index | Some a \<Rightarrow> Some a) runs"
proof -
  let ?fin = "\<lambda>n. {(a, b). a \<le> b \<and> Suc b < n \<and> (\<forall>i. a \<le> i \<longrightarrow> i \<le> b \<longrightarrow> \<not> retained ! i)
          \<and> (a = 0 \<or> retained ! (a - 1)) \<and> retained ! Suc b}"
  from st have runs: "set runs = ?fin index" and sorted: "sorted_wrt (<) (map fst runs)"
    by (simp_all add: run_state_def)
  {
    assume r: "retained ! index" and none: "run_start = None"
    have "?fin (Suc index) = ?fin index"
    proof -
      have "index = 0 \<or> retained ! (index - 1)" using st none by (simp add: run_state_def)
      then have "\<not> (\<exists>a b. a \<le> b \<and> Suc b = index \<and> (\<forall>i. a \<le> i \<longrightarrow> i \<le> b \<longrightarrow> \<not> retained ! i))" by auto
      then show ?thesis by (auto simp: less_Suc_eq)
    qed
    then show "run_state retained (Suc index) None runs"
      using lt r runs sorted by (simp add: run_state_def)
  next
    assume r: "retained ! index" and some: "run_start = Some a"
    then have a: "a < index" "\<forall>i. a \<le> i \<longrightarrow> i < index \<longrightarrow> \<not> retained ! i" "a = 0 \<or> retained ! (a - 1)"
      using st by (simp_all add: run_state_def)
    have new: "c \<le> b \<and> Suc b = index \<and> (\<forall>i. c \<le> i \<longrightarrow> i \<le> b \<longrightarrow> \<not> retained ! i) \<and> (c = 0 \<or> retained ! (c - 1))
        \<longleftrightarrow> c = a \<and> b = index - 1" for c b
    proof
      assume h: "c \<le> b \<and> Suc b = index \<and> (\<forall>i. c \<le> i \<longrightarrow> i \<le> b \<longrightarrow> \<not> retained ! i) \<and> (c = 0 \<or> retained ! (c - 1))"
      then have "\<forall>i. a \<le> i \<longrightarrow> i \<le> b \<longrightarrow> \<not> retained ! i" using a(2) by auto
      with h a have "c = a" by (intro run_unique [of c b retained a]) auto
      moreover from h have "b = index - 1" by linarith
      ultimately show "c = a \<and> b = index - 1" by blast
    qed (use a in auto)
    have "?fin (Suc index) = insert (a, index - 1) (?fin index)"
    proof (rule set_eqI)
      fix x :: "nat \<times> nat"
      obtain c b where x: "x = (c, b)" by (cases x)
      have "Suc b < Suc index \<longleftrightarrow> Suc b < index \<or> Suc b = index" by auto
      then show "x \<in> ?fin (Suc index) \<longleftrightarrow> x \<in> insert (a, index - 1) (?fin index)"
        using new [of c b] r unfolding x by auto
    qed
    moreover have "\<forall>j \<in> set (map fst runs). j < a"
    proof
      fix j
      assume "j \<in> set (map fst runs)"
      then obtain b where "(j, b) \<in> set runs" by auto
      with runs have "Suc b < index" "retained ! Suc b" "j \<le> b" by auto
      with a(2) show "j < a" by (metis le_SucI le_less_trans not_le)
    qed
    ultimately show "run_state retained (Suc index) None (runs @ [(a, index - 1)])"
      using lt r runs sorted by (simp add: run_state_def sorted_wrt_append)
  next
    assume r: "\<not> retained ! index"
    have "?fin (Suc index) = ?fin index"
      using r by (auto simp: less_Suc_eq)
    moreover have "case (case run_start of None \<Rightarrow> Some index | Some a \<Rightarrow> Some a) of None \<Rightarrow> False
        | Some a \<Rightarrow> a < Suc index \<and> (\<forall>i. a \<le> i \<longrightarrow> i < Suc index \<longrightarrow> \<not> retained ! i) \<and> (a = 0 \<or> retained ! (a - 1))"
      using st r by (cases run_start) (auto simp: run_state_def less_Suc_eq)
    ultimately show "run_state retained (Suc index) (case run_start of None \<Rightarrow> Some index | Some a \<Rightarrow> Some a) runs"
      using lt runs sorted by (cases run_start) (simp_all add: run_state_def)
  }
qed

lemma run_loop_state:
  "run_state retained index run_start runs \<Longrightarrow> rest = drop index retained \<Longrightarrow>
   run_loop rest index run_start runs = (run_start', runs') \<Longrightarrow>
   run_state retained (length retained) run_start' runs'"
proof (induction rest index run_start runs rule: run_loop.induct)
  case (1 index run_start runs)
  then have "length retained \<le> index" by simp
  then have "index = length retained" using 1(1) by (simp add: run_state_def)
  with 1 show ?case by simp
next
  case (2 flag rest index run_start runs)
  from 2(5) have lt: "index < length retained" by (metis drop_all list.distinct(1) not_less)
  then have flag: "flag = retained ! index" "rest = drop (Suc index) retained"
    using 2(5) by (simp_all add: Cons_nth_drop_Suc [symmetric])
  show ?case
  proof (cases flag)
    case True
    show ?thesis
    proof (cases run_start)
      case None
      with True 2(6) have "run_loop rest (Suc index) None runs = (run_start', runs')" by simp
      with 2(1) [OF True None] run_state_step(1) [OF 2(4) lt] flag True None show ?thesis by simp
    next
      case (Some a)
      have app: "entry_update a (\<lambda>_. index - 1) runs = runs @ [(a, index - 1)]"
        using finished_runs_snoc 2(4) Some by blast
      with True Some 2(6) have "run_loop rest (Suc index) None (runs @ [(a, index - 1)]) = (run_start', runs')" by simp
      with 2(2) [OF True Some] run_state_step(2) [OF 2(4) lt, of a] flag True Some app show ?thesis by simp
    qed
  next
    case False
    with 2(6) have "run_loop rest (Suc index) (case run_start of None \<Rightarrow> Some index | Some first \<Rightarrow> Some first) runs
        = (run_start', runs')" by simp
    with 2(3) [OF False] run_state_step(3) [OF 2(4) lt] flag False show ?thesis by simp
  qed
qed

text \<open>The runs collected from the elements are exactly the maximal runs of elements that are not retained,
  in increasing order.\<close>

lemma runs_of_exact:
  "set (runs_of retained) = Collect (maximal_run retained) \<and> sorted_wrt (<) (map fst (runs_of retained))"
proof -
  obtain run_start runs where loop: "run_loop retained 0 None [] = (run_start, runs)" by (cases "run_loop retained 0 None []")
  have init: "run_state retained 0 None []" by (simp add: run_state_def)
  have st: "run_state retained (length retained) run_start runs"
    by (rule run_loop_state [OF init _ loop]) simp
  let ?n = "length retained"
  have split: "Collect (maximal_run retained) =
      {(a, b). a \<le> b \<and> Suc b < ?n \<and> (\<forall>i. a \<le> i \<longrightarrow> i \<le> b \<longrightarrow> \<not> retained ! i) \<and> (a = 0 \<or> retained ! (a - 1)) \<and> retained ! Suc b}
      \<union> {(a, b). a \<le> b \<and> Suc b = ?n \<and> (\<forall>i. a \<le> i \<longrightarrow> i \<le> b \<longrightarrow> \<not> retained ! i) \<and> (a = 0 \<or> retained ! (a - 1))}"
  proof (rule set_eqI)
    fix x :: "nat \<times> nat"
    obtain a b where x: "x = (a, b)" by (cases x)
    have "b < ?n \<longleftrightarrow> Suc b < ?n \<or> Suc b = ?n" by auto
    then show "x \<in> Collect (maximal_run retained) \<longleftrightarrow> x \<in>
      {(a, b). a \<le> b \<and> Suc b < ?n \<and> (\<forall>i. a \<le> i \<longrightarrow> i \<le> b \<longrightarrow> \<not> retained ! i) \<and> (a = 0 \<or> retained ! (a - 1)) \<and> retained ! Suc b}
      \<union> {(a, b). a \<le> b \<and> Suc b = ?n \<and> (\<forall>i. a \<le> i \<longrightarrow> i \<le> b \<longrightarrow> \<not> retained ! i) \<and> (a = 0 \<or> retained ! (a - 1))}"
      unfolding x maximal_run_def by auto
  qed
  show ?thesis
  proof (cases run_start)
    case None
    with st have "?n = 0 \<or> retained ! (?n - 1)" by (simp add: run_state_def)
    then have empty: "{(a, b). a \<le> b \<and> Suc b = ?n \<and> (\<forall>i. a \<le> i \<longrightarrow> i \<le> b \<longrightarrow> \<not> retained ! i) \<and> (a = 0 \<or> retained ! (a - 1))} = {}"
      by auto
    show ?thesis unfolding split empty using st None by (simp add: runs_of_def loop run_state_def)
  next
    case (Some a)
    with st have a: "a < ?n" "\<forall>i. a \<le> i \<longrightarrow> i < ?n \<longrightarrow> \<not> retained ! i" "a = 0 \<or> retained ! (a - 1)"
      by (simp_all add: run_state_def)
    have final: "{(c, b). c \<le> b \<and> Suc b = ?n \<and> (\<forall>i. c \<le> i \<longrightarrow> i \<le> b \<longrightarrow> \<not> retained ! i) \<and> (c = 0 \<or> retained ! (c - 1))}
        = {(a, ?n - 1)}"
    proof -
      have "c \<le> b \<and> Suc b = ?n \<and> (\<forall>i. c \<le> i \<longrightarrow> i \<le> b \<longrightarrow> \<not> retained ! i) \<and> (c = 0 \<or> retained ! (c - 1))
          \<longleftrightarrow> c = a \<and> b = ?n - 1" for c b
      proof
        assume h: "c \<le> b \<and> Suc b = ?n \<and> (\<forall>i. c \<le> i \<longrightarrow> i \<le> b \<longrightarrow> \<not> retained ! i) \<and> (c = 0 \<or> retained ! (c - 1))"
        then have "\<forall>i. a \<le> i \<longrightarrow> i \<le> b \<longrightarrow> \<not> retained ! i" "a \<le> b" using a by auto
        with h a(3) have "c = a" by (intro run_unique [of c b retained a]) blast+
        moreover from h have "b = ?n - 1" by linarith
        ultimately show "c = a \<and> b = ?n - 1" by blast
      next
        assume "c = a \<and> b = ?n - 1"
        with a show "c \<le> b \<and> Suc b = ?n \<and> (\<forall>i. c \<le> i \<longrightarrow> i \<le> b \<longrightarrow> \<not> retained ! i) \<and> (c = 0 \<or> retained ! (c - 1))"
          by auto
      qed
      then show ?thesis by (simp only:) auto
    qed
    have app: "runs_of retained = runs @ [(a, ?n - 1)]"
      using finished_runs_snoc [of retained ?n a runs] st Some by (simp add: runs_of_def loop)
    have "\<forall>j \<in> fst ` set runs. j < a"
    proof (intro ballI)
      fix j
      assume "j \<in> fst ` set runs"
      then obtain b where "(j, b) \<in> set runs" by auto
      with st have "Suc b < ?n" "retained ! Suc b" "j \<le> b" by (auto simp: run_state_def)
      with a(2) show "j < a" by (metis le_SucI le_less_trans not_le)
    qed
    then show ?thesis unfolding split final using st by (simp add: app run_state_def sorted_wrt_append)
  qed
qed

section \<open>Deleting runs edits exactly the dropped elements\<close>

lemma run_through_start:
  "\<not> flags ! k \<Longrightarrow> \<exists>a \<le> k. (\<forall>i. a \<le> i \<longrightarrow> i \<le> k \<longrightarrow> \<not> flags ! i) \<and> (a = 0 \<or> flags ! (a - 1))"
proof (induction k)
  case (Suc k)
  show ?case
  proof (cases "flags ! k")
    case True
    then show ?thesis using Suc.prems by (intro exI [of _ "Suc k"]) (auto simp: le_Suc_eq)
  next
    case False
    from Suc.IH [OF this] obtain a where "a \<le> k" "\<forall>i. a \<le> i \<longrightarrow> i \<le> k \<longrightarrow> \<not> flags ! i" "a = 0 \<or> flags ! (a - 1)"
      by blast
    then show ?thesis using Suc.prems by (intro exI [of _ a]) (auto simp: le_Suc_eq)
  qed
qed auto

lemma run_through_end:
  "k < length flags \<Longrightarrow> \<not> flags ! k \<Longrightarrow>
     \<exists>b \<ge> k. b < length flags \<and> (\<forall>i. k \<le> i \<longrightarrow> i \<le> b \<longrightarrow> \<not> flags ! i) \<and> (Suc b = length flags \<or> flags ! Suc b)"
proof (induction "length flags - k" arbitrary: k)
  case (Suc n)
  show ?case
  proof (cases "Suc k = length flags \<or> flags ! Suc k")
    case True
    then show ?thesis using Suc.prems by (intro exI [of _ k]) (auto simp: le_antisym)
  next
    case False
    then have "Suc k < length flags" "\<not> flags ! Suc k" using Suc.prems by auto
    with Suc.hyps obtain b where b: "Suc k \<le> b" "b < length flags"
      "\<forall>i. Suc k \<le> i \<longrightarrow> i \<le> b \<longrightarrow> \<not> flags ! i" "Suc b = length flags \<or> flags ! Suc b"
      by (metis Suc_diff_Suc Suc_inject Suc.prems(1))
    then show ?thesis using Suc.prems
      by (intro exI [of _ b]) (metis Suc_leD Suc_leI le_neq_implies_less)
  qed
qed simp

lemma maximal_run_through:
  assumes "k < length flags" "\<not> flags ! k"
  obtains a b where "maximal_run flags (a, b)" "a \<le> k" "k \<le> b"
proof -
  from run_through_start [OF assms(2)] obtain a where
    a: "a \<le> k" "\<forall>i. a \<le> i \<longrightarrow> i \<le> k \<longrightarrow> \<not> flags ! i" "a = 0 \<or> flags ! (a - 1)" by blast
  from run_through_end [OF assms] obtain b where
    b: "k \<le> b" "b < length flags" "\<forall>i. k \<le> i \<longrightarrow> i \<le> b \<longrightarrow> \<not> flags ! i" "Suc b = length flags \<or> flags ! Suc b"
    by blast
  have "\<not> flags ! i" if "a \<le> i" "i \<le> b" for i
    using that a(2) b(3) by (cases "i \<le> k") auto
  with a b have "maximal_run flags (a, b)" by (simp add: maximal_run_def)
  with a(1) b(1) show thesis by (rule that [rotated 1])
qed

text \<open>Elements in order inside the input, with the separators between them.\<close>

definition separator_between :: "byte_range \<Rightarrow> byte_range list \<Rightarrow> nat \<Rightarrow> byte_range \<Rightarrow> bool" where
  "separator_between input ranges i s \<longleftrightarrow>
     Suc i < length ranges \<and> br_end (ranges ! i) \<le> br_start s \<and> br_start s < br_end s
     \<and> br_end s \<le> br_start (ranges ! Suc i) \<and> range_contains input s"

definition placed_elements :: "written_unit list \<Rightarrow> macro_repetition \<Rightarrow> bool" where
  "placed_elements us r \<longleftrightarrow>
     list_all (\<lambda>i. active_at us i \<and> unit_kind (us ! i) = NestedItem \<and> unit_parent (us ! i) = Some (rep_parent r))
       (element_units r)
     \<and> list_all (\<lambda>e. br_start e < br_end e \<and> range_contains (rep_input_range r) e) (element_ranges us r)
     \<and> successively element_order (element_ranges us r)
     \<and> (\<forall>i < length (rep_elements r). \<forall>s. separator_after (rep_elements r ! i) = Some s
          \<longrightarrow> separator_between (rep_input_range r) (element_ranges us r) i s)"

lemma element_ranges_length [simp]: "length (element_ranges us r) = length (rep_elements r)"
  by (simp add: element_ranges_def)

lemma validated_elements_placed:
  assumes "validate_repetitions tokenize glue original us repetitions expected_matcher = Inr ()"
    and "well_formed_units original us" "r \<in> set repetitions"
  shows "placed_elements us r"
proof -
  from assms(1,3) obtain state state' where
    v: "validate_repetition tokenize glue original us (all_elements repetitions) r state = Inr state'"
    by (rule validated_repetition)
  note one = validate_repetition_Inr [OF v]
  have forward: "br_start (full_range (us ! i)) \<le> br_end (full_range (us ! i))" if "i < length us" for i
    using assms(2) that by (simp add: well_formed_units_def well_formed_unit_def valid_source_range_def)
  have fits: "active_at us i" "element_fits r (rep_parent r) (us ! i)" if "i \<in> set (element_units r)" for i
    using one(5,8) that by (simp_all add: list_all_iff)
  have ranges: "br_start e < br_end e \<and> range_contains (rep_input_range r) e" if "e \<in> set (element_ranges us r)" for e
  proof -
    from that obtain i where i: "i \<in> set (element_units r)" "e = full_range (us ! i)"
      by (auto simp: element_ranges_def element_units_def)
    with fits [OF i(1)] forward [of i] show ?thesis
      by (auto simp: active_at_def element_fits_def range_is_empty_def)
  qed
  have "separator_between (rep_input_range r) (element_ranges us r) i s"
    if "i < length (rep_elements r)" "separator_after (rep_elements r ! i) = Some s" for i s
    using repetition_separator [OF v that] by (simp add: separator_between_def)
  with one(9) fits ranges show ?thesis
    by (simp add: placed_elements_def list_all_iff element_fits_def)
qed

lemma placed_forward:
  "placed_elements us r \<Longrightarrow> i < length (rep_elements r) \<Longrightarrow>
     br_start (element_ranges us r ! i) < br_end (element_ranges us r ! i)
     \<and> range_contains (rep_input_range r) (element_ranges us r ! i)"
  by (simp add: placed_elements_def list_all_length)

lemma placed_order:
  assumes "placed_elements us r" "i < j" "j < length (rep_elements r)"
  shows "br_end (element_ranges us r ! i) \<le> br_start (element_ranges us r ! j)"
  using assms(2,3)
proof (induction j)
  case (Suc j)
  have step: "br_end (element_ranges us r ! j) \<le> br_start (element_ranges us r ! Suc j)"
    using assms(1) Suc.prems by (auto simp: placed_elements_def successively_conv_nth element_order_def)
  show ?case
  proof (cases "i = j")
    case False
    then have "br_end (element_ranges us r ! i) \<le> br_start (element_ranges us r ! j)" using Suc by simp
    with step placed_forward [OF assms(1), of j] Suc.prems show ?thesis by simp
  qed (use step in simp)
qed simp

lemma placed_inside_run:
  assumes "placed_elements us r" "a \<le> k" "k \<le> b" "b < length (rep_elements r)"
  shows "br_start (element_ranges us r ! a) \<le> br_start (element_ranges us r ! k)"
    "br_end (element_ranges us r ! k) \<le> br_end (element_ranges us r ! b)"
proof -
  show "br_start (element_ranges us r ! a) \<le> br_start (element_ranges us r ! k)"
  proof (cases "a = k")
    case False
    then have "a < k" using assms(2) by simp
    then show ?thesis
      using placed_order [OF assms(1), of a k] placed_forward [OF assms(1), of a] assms(3,4) by simp
  qed simp
  show "br_end (element_ranges us r ! k) \<le> br_end (element_ranges us r ! b)"
  proof (cases "k = b")
    case False
    then have "k < b" using assms(3) by simp
    then show ?thesis
      using placed_order [OF assms(1), of k b] placed_forward [OF assms(1,4)] assms(4) by simp
  qed simp
qed

text \<open>Where the deletion of a run starts and ends.\<close>

lemma run_deletion_bounds:
  assumes placed: "placed_elements (src_units inventory) r"
    and cut: "macro_repetition_run_deletion_range inventory r a b = Inr d"
  shows "a \<le> b \<and> b < length (rep_elements r) \<and> range_contains (rep_input_range r) d
    \<and> br_start d \<le> br_start (element_ranges (src_units inventory) r ! a)
    \<and> br_end (element_ranges (src_units inventory) r ! b) \<le> br_end d
    \<and> (0 < a \<longrightarrow> br_end (element_ranges (src_units inventory) r ! (a - 1)) \<le> br_start d)
    \<and> (Suc b < length (rep_elements r) \<longrightarrow> br_end d \<le> br_start (element_ranges (src_units inventory) r ! Suc b))"
proof -
  let ?rs = "element_ranges (src_units inventory) r" and ?n = "length (rep_elements r)"
    and ?input = "rep_input_range r"
  have ab: "a \<le> b" "b < ?n" using cut by (auto simp: macro_repetition_run_deletion_range_def split: if_splits)
  have ids: "?rs ! i = full_range (src_units inventory ! element_unit (rep_elements r ! i))" if "i < ?n" for i
    using that by (simp add: element_ranges_def)
  have "a < ?n" using ab by simp
  note fa = placed_forward [OF placed this] and fb = placed_forward [OF placed ab(2)]
  have sep: "separator_between ?input ?rs i s" if "i < ?n" "separator_after (rep_elements r ! i) = Some s" for i s
    using placed that by (simp add: placed_elements_def)
  consider (whole) "a = 0" "Suc b = ?n" "d = ?input"
    | (behind) s where "separator_after (rep_elements r ! b) = Some s" "d = ByteRange (br_start (?rs ! a)) (br_end s)"
    | (before) s where "0 < a" "Suc b = ?n" "separator_after (rep_elements r ! (a - 1)) = Some s"
        "d = ByteRange (br_start s) (br_end (?rs ! b))"
    | (bare) "d = ByteRange (br_start (?rs ! a)) (br_end (?rs ! b))"
    using cut ab unfolding macro_repetition_run_deletion_range_def nested_unit_def
    by (auto simp: bind_result_eq_Inr Let_def ids split: if_splits option.splits)
  then show ?thesis
  proof cases
    case whole
    then show ?thesis using ab fa fb by (auto simp: range_contains_def)
  next
    case (behind s)
    have "0 < a \<Longrightarrow> br_end (?rs ! (a - 1)) \<le> br_start (?rs ! a)" using placed_order [OF placed, of "a - 1" a] ab by simp
    with sep [OF ab(2) behind(1)] behind(2) ab fa fb show ?thesis
      by (auto simp: separator_between_def range_contains_def)
  next
    case (before s)
    have "a - 1 < ?n" using ab by simp
    from sep [OF this before(3)] before ab fa fb show ?thesis
      by (auto simp: separator_between_def range_contains_def)
  next
    case bare
    have "0 < a \<Longrightarrow> br_end (?rs ! (a - 1)) \<le> br_start (?rs ! a)" using placed_order [OF placed, of "a - 1" a] ab by simp
    moreover have "Suc b < ?n \<Longrightarrow> br_end (?rs ! b) \<le> br_start (?rs ! Suc b)"
      using placed_order [OF placed, of b "Suc b"] by simp
    ultimately show ?thesis using bare ab fa fb by (auto simp: range_contains_def)
  qed
qed

lemma run_deletion_edits:
  assumes placed: "placed_elements (src_units inventory) r"
    and cut: "macro_repetition_run_deletion_range inventory r a b = Inr d" and k: "k < length (rep_elements r)"
  shows "if a \<le> k \<and> k \<le> b then range_contains d (element_ranges (src_units inventory) r ! k)
    else spares (element_ranges (src_units inventory) r ! k) d"
proof -
  let ?rs = "element_ranges (src_units inventory) r"
  note bounds = run_deletion_bounds [OF placed cut]
  consider "a \<le> k" "k \<le> b" | "k < a" | "b < k" by linarith
  then show ?thesis
  proof cases
    case 1
    with bounds placed_inside_run [OF placed 1] show ?thesis by (auto simp: range_contains_def)
  next
    case 2
    then have "k \<le> a - 1" "a - 1 < length (rep_elements r)" using bounds by auto
    then have "br_end (?rs ! k) \<le> br_end (?rs ! (a - 1))"
      by (intro placed_inside_run(2) [OF placed order_refl])
    with 2 bounds show ?thesis by (auto simp: spares_def)
  next
    case 3
    then have "br_start (?rs ! Suc b) \<le> br_start (?rs ! k)"
      using placed_inside_run(1) [OF placed, of "Suc b" k k] k by simp
    with 3 k bounds show ?thesis by (auto simp: spares_def)
  qed
qed

text \<open>The plan for one repetition.\<close>

lemma planned_elements:
  assumes "map_result (\<lambda>e. bind_result (nested_unit us (element_unit e)) (\<lambda>u. Inr (unit_id u \<in> retained))) es = Inr flags"
  shows "flags = map (\<lambda>e. element_unit e \<in> retained) es"
proof -
  from assms have "list_all2 (\<lambda>e f. bind_result (nested_unit us (element_unit e)) (\<lambda>u. Inr (unit_id u \<in> retained)) = Inr f) es flags"
    by (simp add: map_result_eq_Inr)
  then show ?thesis
    by (induction rule: list_all2_induct)
      (auto simp: bind_result_eq_Inr nested_unit_def split: option.splits if_splits)
qed

lemma plan_Inr:
  assumes "plan_macro_repetition_deletions inventory retained r = Inr ds" "rep_parent r \<in> retained"
  shows "list_all2 (\<lambda>(a, b) d. macro_repetition_run_deletion_range inventory r a b = Inr d)
    (runs_of (map (\<lambda>e. element_unit e \<in> retained) (rep_elements r))) ds"
proof -
  let ?flags = "map (\<lambda>e. element_unit e \<in> retained) (rep_elements r)"
  from assms obtain flags where
    flags: "map_result (\<lambda>e. bind_result (nested_unit (src_units inventory) (element_unit e))
        (\<lambda>u. Inr (unit_id u \<in> retained))) (rep_elements r) = Inr flags"
    and choice: "(if length (filter (\<lambda>b. b) flags) = length flags
      then Inr [] else map_result (\<lambda>(a, b). macro_repetition_run_deletion_range inventory r a b) (runs_of flags)) = Inr ds"
    by (auto simp: plan_macro_repetition_deletions_def from_retained_elements_def Let_def bind_result_eq_Inr split: if_splits)
  have "(if length (filter (\<lambda>b. b) ?flags) = length ?flags
      then Inr [] else map_result (\<lambda>(a, b). macro_repetition_run_deletion_range inventory r a b) (runs_of ?flags)) = Inr ds"
    using choice unfolding planned_elements [OF flags] .
  moreover have "runs_of ?flags = []" if all: "length (filter (\<lambda>b. b) ?flags) = length ?flags"
  proof -
    have "?flags ! i" if "i < length ?flags" for i
      using all that by (simp only: filter_length_all list_all_length)
    then have "Collect (maximal_run ?flags) = {}" by (auto simp: maximal_run_def)
    then have "set (runs_of ?flags) = {}" using runs_of_exact [of ?flags] by argo
    then show ?thesis by (simp only: set_empty)
  qed
  ultimately show ?thesis by (auto simp: map_result_eq_Inr case_prod_beta' simp del: length_map split: if_splits)
qed

lemma plan_all_retained:
  assumes "plan_macro_repetition_deletions inventory retained r = Inr ds" "rep_parent r \<in> retained"
    and "set (element_units r) \<subseteq> retained"
  shows "ds = []"
proof -
  let ?flags = "map (\<lambda>e. element_unit e \<in> retained) (rep_elements r)"
  have "?flags ! i" if "i < length ?flags" for i
    using assms(3) that by (auto simp: element_units_def)
  then have "Collect (maximal_run ?flags) = {}" by (auto simp: maximal_run_def)
  then have "set (runs_of ?flags) = {}" using runs_of_exact [of ?flags] by argo
  then show ?thesis using plan_Inr [OF assms(1,2)] by simp
qed

lemma plan_edits:
  assumes placed: "placed_elements (src_units inventory) r"
    and plan: "plan_macro_repetition_deletions inventory retained r = Inr ds" "rep_parent r \<in> retained"
  shows "list_all (\<lambda>i. edited (i \<in> retained) (full_range (src_units inventory ! i)) ds) (element_units r)"
    and "list_all (range_contains (rep_input_range r)) ds"
proof -
  let ?rs = "element_ranges (src_units inventory) r"
  let ?flags = "map (\<lambda>e. element_unit e \<in> retained) (rep_elements r)"
  note l = plan_Inr [OF plan]
  have run_of: "\<exists>a b. maximal_run ?flags (a, b) \<and> macro_repetition_run_deletion_range inventory r a b = Inr d" if "d \<in> set ds" for d
  proof -
    from that l obtain i where i: "i < length ds" "d = ds ! i" by (auto simp: in_set_conv_nth)
    obtain a b where ab: "runs_of ?flags ! i = (a, b)" by (cases "runs_of ?flags ! i")
    have "(a, b) \<in> set (runs_of ?flags)" using i l ab by (metis list_all2_lengthD nth_mem)
    then have "maximal_run ?flags (a, b)" using runs_of_exact [of ?flags] by blast
    moreover have "macro_repetition_run_deletion_range inventory r a b = Inr d"
      using list_all2_nthD2 [OF l i(1)] unfolding ab i(2) prod.case .
    ultimately show ?thesis by blast
  qed
  have of_run: "\<exists>d \<in> set ds. macro_repetition_run_deletion_range inventory r a b = Inr d" if "maximal_run ?flags (a, b)" for a b
  proof -
    from that runs_of_exact [of ?flags] have "(a, b) \<in> set (runs_of ?flags)" by blast
    then obtain i where i: "i < length (runs_of ?flags)" "runs_of ?flags ! i = (a, b)" by (auto simp: in_set_conv_nth)
    have "macro_repetition_run_deletion_range inventory r a b = Inr (ds ! i)"
      using list_all2_nthD [OF l i(1)] unfolding i(2) prod.case .
    moreover have "ds ! i \<in> set ds" using list_all2_lengthD [OF l] i(1) by simp
    ultimately show ?thesis by blast
  qed
  show "list_all (range_contains (rep_input_range r)) ds"
    using run_of run_deletion_bounds [OF placed] by (fastforce simp: list_all_iff)
  have "edited (?flags ! k) (?rs ! k) ds" if k: "k < length (rep_elements r)" for k
  proof (cases "?flags ! k")
    case True
    have "spares (?rs ! k) d" if d: "d \<in> set ds" for d
    proof -
      from run_of [OF d] obtain a b where "maximal_run ?flags (a, b)"
        "macro_repetition_run_deletion_range inventory r a b = Inr d" by blast
      with True k run_deletion_edits [OF placed _ k, of a b d] show ?thesis
        by (auto simp: maximal_run_def split: if_splits)
    qed
    with True show ?thesis by (simp add: edited_def list_all_iff)
  next
    case False
    then obtain a b where ab: "maximal_run ?flags (a, b)" "a \<le> k" "k \<le> b"
      using maximal_run_through [of k ?flags] k by auto
    from of_run [OF ab(1)] obtain d where "d \<in> set ds" "macro_repetition_run_deletion_range inventory r a b = Inr d"
      by blast
    with ab run_deletion_edits [OF placed _ k, of a b d] False show ?thesis
      by (auto simp: edited_def list_ex_iff)
  qed
  then show "list_all (\<lambda>i. edited (i \<in> retained) (full_range (src_units inventory ! i)) ds) (element_units r)"
    by (simp add: list_all_length element_units_def element_ranges_def)
qed

lemma macro_repetition_deletions_bytes:
  assumes "macro_repetition_deletions tokenize glue inventory retained B = Inr merged"
  obtains plans where
    "list_all2 (\<lambda>r ds. plan_macro_repetition_deletions inventory retained r = Inr ds) (src_macro_repetitions inventory) plans"
    "\<Union> (range_bytes ` set merged) = \<Union> (range_bytes ` set (concat plans))"
proof -
  from assms obtain plans where
    plans: "map_result (plan_macro_repetition_deletions inventory retained) (src_macro_repetitions inventory) = Inr plans"
    and merged: "merge_deletions (src_original inventory) (sort (concat plans)) B = Inr merged"
    by (auto simp: macro_repetition_deletions_def bind_result_eq_Inr split: if_splits)
  from that [OF plans [unfolded map_result_eq_Inr] merge_deletions_Inr(2) [OF merged]] show thesis .
qed

end
