(* ===== verification/Derive_Layout.thy ===== *)
theory Derive_Layout
  imports Segments Source_Units
begin

text \<open>
  Derive attributes: the layout of their element list (\<open>derive_attribute_layout\<close>) and the validation
  of the derive tables (\<open>validate_derive_target_facts\<close>) of \<open>src/source/derive.rs\<close>, with the search
  for the innermost active unit that \<open>src/source.rs\<close> uses for derive helpers and attribute
  invocations.
\<close>

section \<open>The innermost unit\<close>

text \<open>The active unit of least length that matches; it must be the only one of that length.\<close>

definition smallest_unique_active_unit :: "written_unit list \<Rightarrow> (written_unit \<Rightarrow> bool) \<Rightarrow> source_error + written_unit" where
  "smallest_unique_active_unit us matches =
     (let candidates = filter (\<lambda>u. unit_cfg u = Active \<and> matches u) us
      in if candidates = [] then Inl IncompleteAttributeObservation
         else
           let smallest = Min (set (map (\<lambda>u. range_len (full_range u)) candidates))
           in case filter (\<lambda>u. range_len (full_range u) = smallest) candidates of
                [u] \<Rightarrow> Inr u
              | _ \<Rightarrow> Inl IncompleteAttributeObservation)"

definition derive_helper_owner ::
  "written_unit list \<Rightarrow> source_unit_id \<Rightarrow> byte_range \<Rightarrow> source_unit_id option \<Rightarrow> source_error + source_unit_id" where
  "derive_helper_owner us target_id helper_range helper =
     bind_result
       (ok_or (case unit_at us target_id of
                 None \<Rightarrow> None | Some u \<Rightarrow> if unit_cfg u = Active then Some u else None) InvalidInventory)
       (\<lambda>target.
         bind_result
           (smallest_unique_active_unit us
             (\<lambda>u. Some (unit_id u) \<noteq> helper \<and> range_contains (full_range target) (full_range u)
                 \<and> range_contains (full_range u) helper_range))
           (\<lambda>u. Inr (unit_id u)))"

datatype attribute_role = AtomicMember | DeriveAttribute | DeriveHelper

record attribute_source =
  attribute_invocation :: "source_unit_id option"
  attribute_target :: source_unit_id

definition role_matches ::
  "derive_target_facts list \<Rightarrow> written_unit \<Rightarrow> byte_range \<Rightarrow> attribute_role \<Rightarrow> written_unit \<Rightarrow> bool" where
  "role_matches targets target target_range role u =
     (case role of
        AtomicMember \<Rightarrow>
          unit_parent u = Some (unit_id target) \<and> atomic_group u = atomic_group target
          \<and> br_end (full_range u) \<le> br_start target_range
      | DeriveAttribute \<Rightarrow>
          (case find (\<lambda>facts. derive_target facts = unit_id target) targets of
             None \<Rightarrow> False
           | Some facts \<Rightarrow> list_ex (\<lambda>a. derive_attribute a = unit_id u) (derive_attributes facts))
      | DeriveHelper \<Rightarrow>
          unit_parent u = Some (unit_id target)
          \<and> list_ex (\<lambda>facts. case facts of
                OpaqueDerive _ _ _ \<Rightarrow> False
              | CompleteDerive _ _ _ _ helpers \<Rightarrow> list_ex (\<lambda>h. helper_attribute h = unit_id u) helpers) targets)"

definition resolve_attribute_source_with_role ::
  "source_inventory \<Rightarrow> byte_range \<Rightarrow> byte_range \<Rightarrow> byte_range \<Rightarrow> attribute_role \<Rightarrow> source_error + attribute_source" where
  "resolve_attribute_source_with_role inventory invocation_range node_range target_range role =
     (if br_start invocation_range \<ge> br_end invocation_range
         \<or> \<not> range_contains node_range invocation_range
         \<or> \<not> range_contains node_range target_range
      then Inl IncompleteAttributeObservation
      else
        bind_result
          (smallest_unique_active_unit (src_units inventory)
            (\<lambda>u. range_contains (full_range u) node_range \<and> range_contains (full_range u) target_range
                \<and> range_contains (full_range u) invocation_range))
          (\<lambda>target.
            case map unit_id
                (filter (\<lambda>u. unit_kind u = MacroInvocation \<and> unit_cfg u = Active
                    \<and> (full_range u = invocation_range \<or> range_contains (full_range u) invocation_range)
                    \<and> role_matches (src_derive_targets inventory) target target_range role u)
                  (src_units inventory)) of
              [] \<Rightarrow> Inr \<lparr>attribute_invocation = None, attribute_target = unit_id target\<rparr>
            | [invocation] \<Rightarrow>
                Inr \<lparr>attribute_invocation = Some invocation, attribute_target = unit_id target\<rparr>
            | _ \<Rightarrow> Inl IncompleteAttributeObservation))"

definition resolve_attribute_source ::
  "source_inventory \<Rightarrow> byte_range \<Rightarrow> byte_range \<Rightarrow> byte_range \<Rightarrow> source_error + attribute_source" where
  "resolve_attribute_source inventory invocation_range node_range target_range =
     resolve_attribute_source_with_role inventory invocation_range node_range target_range AtomicMember"

definition resolve_derive_helper_source ::
  "source_inventory \<Rightarrow> byte_range \<Rightarrow> byte_range \<Rightarrow> byte_range \<Rightarrow> source_error + attribute_source option" where
  "resolve_derive_helper_source inventory invocation_range node_range target_range =
     bind_result
       (resolve_attribute_source_with_role inventory invocation_range node_range target_range DeriveHelper)
       (\<lambda>source.
         Inr (map_option
           (\<lambda>invocation. \<lparr>attribute_invocation = Some invocation, attribute_target = attribute_target source\<rparr>)
           (attribute_invocation source)))"

datatype editable_macro_source_role = ProducesDefinitions | TransparentAttribute

definition resolve_outer_attribute_source ::
  "source_inventory \<Rightarrow> byte_range \<Rightarrow> byte_range \<Rightarrow> byte_range
     \<Rightarrow> source_error + attribute_source \<times> editable_macro_source_role" where
  "resolve_outer_attribute_source inventory invocation_range node_range target_range =
     bind_result
       (resolve_attribute_source_with_role inventory invocation_range node_range target_range DeriveAttribute)
       (\<lambda>derive.
         if attribute_invocation derive \<noteq> None then Inr (derive, TransparentAttribute)
         else
           bind_result (resolve_attribute_source inventory invocation_range node_range target_range)
             (\<lambda>source. Inr (source, ProducesDefinitions)))"

section \<open>The layout of a derive list\<close>

record derive_entry =
  entry_element :: byte_range
  entry_segment :: byte_range
  entry_previous :: "byte_range option"
  entry_following :: "byte_range option"

definition derive_containers ::
  "source_token list \<Rightarrow> delimiter_pair list \<Rightarrow> byte_range list \<Rightarrow> (nat \<times> delimiter_pair) list" where
  "derive_containers tokens pairs elements =
     map (\<lambda>p. (range_len (ByteRange (br_end (token_range (tokens ! pair_open p)))
                  (br_start (token_range (tokens ! pair_close p)))), p))
       (filter (\<lambda>p. pair_delimiter p = Parenthesis
           \<and> list_all (range_contains (ByteRange (br_end (token_range (tokens ! pair_open p)))
               (br_start (token_range (tokens ! pair_close p))))) elements) pairs)"

fun is_comment_or_space :: "token_kind \<Rightarrow> bool" where
  "is_comment_or_space Whitespace = True"
| "is_comment_or_space (LineComment _) = True"
| "is_comment_or_space (BlockComment _ _) = True"
| "is_comment_or_space _ = False"

definition stray_token :: "byte_range \<Rightarrow> byte_range option \<Rightarrow> source_token \<Rightarrow> bool" where
  "stray_token segment element t \<longleftrightarrow>
     range_contains segment (token_range t) \<and> \<not> is_comment_or_space (token_kind t)
     \<and> (case element of None \<Rightarrow> True | Some e \<Rightarrow> \<not> range_contains e (token_range t))"

definition layout_segment ::
  "source_token list \<Rightarrow> byte_range list \<Rightarrow> nat \<Rightarrow> nat \<times> comma_list_segment
     \<Rightarrow> byte_range set \<times> derive_entry list \<Rightarrow> source_error + byte_range set \<times> derive_entry list" where
  "layout_segment tokens elements comma_count = (\<lambda>(index, list_segment) (assigned, layout).
     let segment = segment_range list_segment
     in bind_result
          (case filter (range_contains segment) elements of
             [] \<Rightarrow> if index = length elements \<and> comma_count = length elements then Inr None
                  else Inl IncompleteDeriveObservation
           | [element] \<Rightarrow> Inr (Some element)
           | _ \<Rightarrow> Inl IncompleteDeriveObservation)
          (\<lambda>element.
            if (case element of None \<Rightarrow> False | Some e \<Rightarrow> e \<in> assigned) then Inl IncompleteDeriveObservation
            else if list_ex (stray_token segment element) tokens then Inl IncompleteDeriveObservation
            else case element of
              None \<Rightarrow> Inr (assigned, layout)
            | Some e \<Rightarrow>
                Inr (insert e assigned,
                     layout @ [\<lparr>entry_element = e, entry_segment = segment,
                                entry_previous = previous_comma list_segment,
                                entry_following = following_comma list_segment\<rparr>])))"

definition derive_syntax_error :: "source_syntax_error \<Rightarrow> source_error" where
  "derive_syntax_error e = (case e of SyntaxSourceTooLarge \<Rightarrow> SourceTooLarge | _ \<Rightarrow> IncompleteDeriveObservation)"

definition derive_attribute_layout ::
  "lexer \<Rightarrow> bytes \<Rightarrow> byte_range \<Rightarrow> byte_range list \<Rightarrow> source_error + derive_entry list" where
  "derive_attribute_layout tokenize source attribute elements =
     (if \<not> valid_source_range source attribute \<or> range_is_empty attribute
         \<or> list_ex (\<lambda>e. range_is_empty e \<or> \<not> range_contains attribute e \<or> \<not> valid_source_range source e) elements
         \<or> list_ex (\<lambda>(a, b). br_end a > br_start b) (windows2 elements)
      then Inl IncompleteDeriveObservation
      else
        bind_result (map_err derive_syntax_error (tokenize_balanced_range tokenize source attribute)) (\<lambda>(tokens, pairs).
          case sort_key (\<lambda>(len, p). (len, pair_open p, pair_close p)) (derive_containers tokens pairs elements) of
            [] \<Rightarrow> Inl IncompleteDeriveObservation
          | (smallest, pair) # rest \<Rightarrow>
              if (case rest of [] \<Rightarrow> False | (len, _) # _ \<Rightarrow> len = smallest) then Inl IncompleteDeriveObservation
              else
                bind_result (map_err (\<lambda>_. IncompleteDeriveObservation) (comma_list_segments tokens pair)) (\<lambda>segments.
                bind_result (ok_or (checked_sub (length segments) 1) IncompleteDeriveObservation) (\<lambda>comma_count.
                  if comma_count \<noteq> length elements - 1 \<and> comma_count \<noteq> length elements
                  then Inl IncompleteDeriveObservation
                  else
                    bind_result
                      (fold_result (layout_segment tokens elements comma_count) (enumerate 0 segments) ({}, []))
                      (\<lambda>(assigned, layout).
                        if card assigned \<noteq> length elements then Inl IncompleteDeriveObservation
                        else Inr (sort_key entry_element layout))))))"

section \<open>Validation of the derive tables\<close>

definition influence_key :: "derive_requirement \<Rightarrow> source_unit_id \<times> source_unit_id" where
  "influence_key q = (derive_trigger q, derive_required q)"

definition helper_key :: "derive_helper \<Rightarrow> source_unit_id \<times> source_unit_id" where
  "helper_key h = (helper_attribute h, helper_provider h)"

record derive_state =
  attributes_seen :: "source_unit_id set"
  elements_seen :: "source_unit_id set"
  helper_attributes :: "source_unit_id set"

text \<open>The state of the loop over the attributes of one target.\<close>

record target_state =
  previous_attribute :: "byte_range option"
  refined_groups :: "atomic_group_id set"
  target_elements :: "source_unit_id set"
  ts_attributes :: "source_unit_id set"
  ts_elements :: "source_unit_id set"

definition ends_after :: "byte_range option \<Rightarrow> byte_range \<Rightarrow> bool" where
  "ends_after previous r \<longleftrightarrow> (case previous of None \<Rightarrow> False | Some p \<Rightarrow> br_end p > br_start r)"

definition validate_derive_element ::
  "written_unit list \<Rightarrow> written_unit \<Rightarrow> source_unit_id \<Rightarrow> source_unit_id \<Rightarrow> byte_range option \<times> target_state
     \<Rightarrow> source_error + byte_range option \<times> target_state" where
  "validate_derive_element us target attribute_id element_id = (\<lambda>(previous, st).
     bind_result (ok_or (get_at us element_id) InvalidInventory) (\<lambda>element.
       if unit_kind element \<noteq> MacroInvocation \<or> unit_parent element \<noteq> Some attribute_id
          \<or> unit_cfg element \<noteq> unit_cfg target
          \<or> range_is_empty (full_range element)
          \<or> unit_id element \<in> ts_elements st \<or> unit_id element \<in> target_elements st
          \<or> ends_after previous (full_range element)
       then Inl InvalidInventory
       else Inr (Some (full_range element),
         st\<lparr>ts_elements := insert (unit_id element) (ts_elements st),
            target_elements := insert (unit_id element) (target_elements st)\<rparr>)))"

text \<open>Refined groups are all different; \<open>insert\<close> into the set reports a repetition.\<close>

definition insert_group :: "atomic_group_id \<Rightarrow> atomic_group_id set \<Rightarrow> source_error + atomic_group_id set" where
  "insert_group g groups = (if g \<in> groups then Inl InvalidInventory else Inr (insert g groups))"

definition validate_derive_groups ::
  "written_unit list \<Rightarrow> derive_target_facts \<Rightarrow> written_unit \<Rightarrow> written_unit \<Rightarrow> derive_attribute_facts
     \<Rightarrow> atomic_group_id set \<Rightarrow> source_error + atomic_group_id set" where
  "validate_derive_groups us facts target attribute attribute_facts groups =
     (case facts of
        OpaqueDerive _ _ _ \<Rightarrow>
          if atomic_group attribute \<noteq> atomic_group target
             \<or> list_ex (\<lambda>e. atomic_group (us ! e) \<noteq> atomic_group target) (derive_elements attribute_facts)
          then Inl InvalidInventory else Inr groups
      | CompleteDerive _ _ _ _ _ \<Rightarrow>
          if unit_cfg target \<noteq> Active \<or> \<not> directly_written attribute_facts then Inl InvalidInventory
          else
            fold_result insert_group
              (atomic_group attribute # map (\<lambda>e. atomic_group (us ! e)) (derive_elements attribute_facts)) groups)"

definition validate_derive_attribute ::
  "written_unit list \<Rightarrow> derive_target_facts \<Rightarrow> written_unit \<Rightarrow> derive_attribute_facts \<Rightarrow> target_state
     \<Rightarrow> source_error + target_state" where
  "validate_derive_attribute us facts target attribute_facts st =
     bind_result (ok_or (get_at us (derive_attribute attribute_facts)) InvalidInventory) (\<lambda>attribute.
       if unit_kind attribute \<noteq> MacroInvocation \<or> unit_parent attribute \<noteq> Some (unit_id target)
          \<or> unit_cfg attribute \<noteq> unit_cfg target
          \<or> unit_id attribute \<in> ts_attributes st
          \<or> ends_after (previous_attribute st) (full_range attribute)
          \<or> \<not> directly_written attribute_facts \<and> derive_elements attribute_facts \<noteq> []
       then Inl InvalidInventory
       else if list_ex (\<lambda>c. br_start c < br_end (full_range attribute) \<and> br_start (full_range attribute) < br_end c)
                 (helper_candidates facts)
       then Inl InvalidInventory
       else
         bind_result
           (fold_result (validate_derive_element us target (unit_id attribute)) (derive_elements attribute_facts)
             (None, st\<lparr>ts_attributes := insert (unit_id attribute) (ts_attributes st),
                       previous_attribute := Some (full_range attribute)\<rparr>))
           (\<lambda>(_, st).
             bind_result (validate_derive_groups us facts target attribute attribute_facts (refined_groups st))
               (\<lambda>groups. Inr (st\<lparr>refined_groups := groups\<rparr>))))"

definition validate_derive_helper ::
  "written_unit list \<Rightarrow> derive_target_facts \<Rightarrow> written_unit \<Rightarrow> source_unit_id set \<Rightarrow> derive_helper
     \<Rightarrow> source_unit_id set \<Rightarrow> source_error + source_unit_id set" where
  "validate_derive_helper us facts target elements helper seen =
     bind_result (ok_or (unit_at us (helper_attribute helper)) InvalidInventory) (\<lambda>attribute.
     bind_result
       (map_err (\<lambda>_. InvalidInventory)
         (derive_helper_owner us (unit_id target) (full_range attribute) (Some (unit_id attribute))))
       (\<lambda>owner.
         if helper_provider helper \<notin> elements
            \<or> unit_kind attribute \<noteq> MacroInvocation
            \<or> unit_parent attribute \<noteq> Some owner
            \<or> unit_cfg attribute \<noteq> Active
            \<or> atomic_group attribute = atomic_group (us ! owner)
            \<or> \<not> range_contains (full_range target) (full_range attribute)
            \<or> full_range attribute \<notin> set (helper_candidates facts)
            \<or> unit_id attribute \<in> seen
         then Inl InvalidInventory else Inr (insert (unit_id attribute) seen)))"

text \<open>
  The candidates are in strict order when the helper's range is searched in them, so the binary
  search of the code is membership.
\<close>

definition validate_derive_target ::
  "written_unit list \<Rightarrow> derive_target_facts \<Rightarrow> derive_state \<Rightarrow> source_error + derive_state" where
  "validate_derive_target us facts st =
     bind_result (ok_or (unit_at us (derive_target facts)) InvalidInventory) (\<lambda>target.
       if unit_kind target \<notin> {Item, NestedItem, InlineModule, MacroInvocation}
          \<or> derive_attributes facts = []
          \<or> list_ex (\<lambda>(a, b). a \<ge> b) (windows2 (helper_candidates facts))
          \<or> list_ex (\<lambda>c. range_is_empty c \<or> \<not> range_contains (full_range target) c) (helper_candidates facts)
       then Inl InvalidInventory
       else
         bind_result
           (fold_result (validate_derive_attribute us facts target) (derive_attributes facts)
             \<lparr>previous_attribute = None, refined_groups = {atomic_group target}, target_elements = {},
              ts_attributes = attributes_seen st, ts_elements = elements_seen st\<rparr>)
           (\<lambda>ts.
             let st = st\<lparr>attributes_seen := ts_attributes ts, elements_seen := ts_elements ts\<rparr>
             in case facts of
                  OpaqueDerive _ _ _ \<Rightarrow> Inr st
                | CompleteDerive _ _ _ influences helpers \<Rightarrow>
                    if list_ex (\<lambda>(a, b). influence_key a \<ge> influence_key b) (windows2 influences)
                       \<or> list_ex (\<lambda>(a, b). helper_key a \<ge> helper_key b) (windows2 helpers)
                       \<or> list_ex (\<lambda>q. derive_trigger q \<notin> target_elements ts \<or> derive_required q \<notin> target_elements ts)
                           influences
                    then Inl InvalidInventory
                    else
                      bind_result
                        (fold_result (validate_derive_helper us facts target (target_elements ts)) helpers
                          (helper_attributes st))
                        (\<lambda>seen. Inr (st\<lparr>helper_attributes := seen\<rparr>))))"

definition validate_derive_target_facts ::
  "written_unit list \<Rightarrow> derive_target_facts list \<Rightarrow> source_error + unit" where
  "validate_derive_target_facts us targets =
     (if list_ex (\<lambda>(a, b). derive_target a \<ge> derive_target b) (windows2 targets) then Inl InvalidInventory
      else
        bind_result
          (fold_result (validate_derive_target us) targets
            \<lparr>attributes_seen = {}, elements_seen = {}, helper_attributes = {}\<rparr>)
          (\<lambda>_. Inr ()))"

section \<open>Every element is one segment\<close>

definition entry_of :: "comma_list_segment \<Rightarrow> byte_range \<Rightarrow> derive_entry" where
  "entry_of s e =
     \<lparr>entry_element = e, entry_segment = segment_range s, entry_previous = previous_comma s,
      entry_following = following_comma s\<rparr>"

lemma layout_segment_Inr:
  assumes "layout_segment tokens elements n (index, s) (A, L) = Inr (A', L')"
  obtains (element) e where "A' = insert e A" "L' = L @ [entry_of s e]" "e \<in> set elements" "e \<notin> A"
      "range_contains (segment_range s) e"
  | (trailing) "A' = A" "L' = L" "index = length elements" "n = length elements"
proof (cases "filter (range_contains (segment_range s)) elements")
  case Nil
  then show thesis using assms trailing by (auto simp: layout_segment_def Let_def split: if_splits)
next
  case (Cons e rest)
  then have "e \<in> set (filter (range_contains (segment_range s)) elements)" by simp
  then have e: "e \<in> set elements" "range_contains (segment_range s) e" by auto
  show thesis
  proof (cases rest)
    case Nil
    with Cons assms have "A' = insert e A" "L' = L @ [entry_of s e]" "e \<notin> A"
      by (auto simp: layout_segment_def Let_def entry_of_def split: if_splits)
    then show thesis using e element by blast
  next
    case (Cons f rest')
    with \<open>filter _ elements = e # rest\<close> assms show thesis by (auto simp: layout_segment_def Let_def)
  qed
qed

lemma layout_segments_fold:
  "j + length ss = Suc n \<Longrightarrow>
   fold_result (layout_segment tokens elements n) (enumerate j ss) (A, L) = Inr (A', L') \<Longrightarrow>
   \<exists>es. length es \<le> length ss \<and> L' = L @ map2 entry_of (take (length es) ss) es \<and> A' = A \<union> set es
     \<and> distinct es \<and> set es \<inter> A = {} \<and> set es \<subseteq> set elements
     \<and> list_all2 (\<lambda>s e. range_contains (segment_range s) e) (take (length es) ss) es"
proof (induction ss arbitrary: j A L)
  case Nil
  then show ?case by (intro exI [of _ "[]"]) simp
next
  case (Cons s ss)
  from Cons.prems(2) obtain mid midl where
    one: "layout_segment tokens elements n (j, s) (A, L) = Inr (mid, midl)"
    and rest: "fold_result (layout_segment tokens elements n) (enumerate (Suc j) ss) (mid, midl) = Inr (A', L')"
    by (auto simp: bind_result_eq_Inr)
  from one show ?case
  proof (cases rule: layout_segment_Inr)
    case (element e)
    have "Suc j + length ss = Suc n" using Cons.prems(1) by simp
    from Cons.IH [OF this rest] obtain es where es: "length es \<le> length ss"
      "L' = midl @ map2 entry_of (take (length es) ss) es" "A' = mid \<union> set es"
      "distinct es" "set es \<inter> mid = {}" "set es \<subseteq> set elements"
      "list_all2 (\<lambda>s e. range_contains (segment_range s) e) (take (length es) ss) es" by blast
    then show ?thesis using element by (intro exI [of _ "e # es"]) auto
  next
    case trailing
    then have "ss = []" using Cons.prems(1) by simp
    with rest trailing show ?thesis by (intro exI [of _ "[]"]) simp
  qed
qed

definition range_before :: "byte_range \<Rightarrow> byte_range \<Rightarrow> bool" where
  "range_before a b \<longleftrightarrow> br_start a < br_end a \<and> br_end a \<le> br_start b \<and> br_start b < br_end b"

lemma range_before_less: "range_before a b \<Longrightarrow> a < b"
  by (auto simp: range_before_def less_byte_range_def)

lemma transp_range_before: "transp range_before"
  by (auto simp: range_before_def intro: transpI)

lemma range_before_sorted: "sorted_wrt range_before rs \<Longrightarrow> sorted_wrt (<) rs"
  using sorted_wrt_mono_rel [of rs range_before "(<)"] range_before_less by blast

lemma elements_before:
  assumes "\<not> list_ex (\<lambda>(a, b). br_end a > br_start b) (windows2 es)" "\<forall>e \<in> set es. br_start e < br_end e"
  shows "sorted_wrt range_before es"
proof -
  have "(a, b) \<in> set (windows2 es) \<Longrightarrow> range_before a b" for a b
  proof -
    assume w: "(a, b) \<in> set (windows2 es)"
    then have "a \<in> set es" "b \<in> set (tl es)" by (auto simp: windows2_def dest: set_zip_leftD set_zip_rightD)
    then have "a \<in> set es" "b \<in> set es" by (simp_all add: list.set_sel(2)) (metis list.sel(2) list.set_sel(2))
    with assms w show "range_before a b" by (auto simp: list_ex_iff range_before_def)
  qed
  then show ?thesis
    using windows2_sorted_wrt [OF transp_range_before, of es] by auto
qed

lemma contained_before:
  assumes "segment_chain segs" "i < j" "j < length segs"
    and "range_contains (segment_range (segs ! i)) a" "range_contains (segment_range (segs ! j)) b"
    and "br_start a < br_end a" "br_start b < br_end b"
  shows "range_before a b"
  using segment_chain_order [OF assms(1-3)] assms(4-) by (auto simp: range_contains_def range_before_def)

text \<open>Elements found in the segments of a chain are found in order.\<close>

lemma chain_elements_sorted:
  assumes "segment_chain segs" "length es \<le> length segs"
    and "list_all2 (\<lambda>s e. range_contains (segment_range s) e) (take (length es) segs) es"
    and "\<forall>e \<in> set es. br_start e < br_end e"
  shows "sorted_wrt range_before es"
  unfolding sorted_wrt_iff_nth_less
proof (intro allI impI)
  fix i j
  assume "i < j" "j < length es"
  with assms show "range_before (es ! i) (es ! j)"
    by (intro contained_before [OF assms(1) \<open>i < j\<close>]) (auto simp: list_all2_conv_all_nth)
qed

text \<open>
  The layout lists the elements in order, each with the segment it is alone in; the segments are the
  first ones of the list between the parentheses.
\<close>

lemma derive_attribute_layout_Inr:
  assumes "derive_attribute_layout tokenize source attribute elements = Inr layout"
  obtains segs where "segment_chain segs" "length elements \<le> length segs"
    "layout = map2 entry_of (take (length elements) segs) elements"
    "list_all2 (\<lambda>s e. range_contains (segment_range s) e) (take (length elements) segs) elements"
    "sorted_wrt range_before elements"
    "lexer_covers tokenize \<Longrightarrow> br_start attribute \<le> br_start (segment_range (segs ! 0))
      \<and> br_end (segment_range (segs ! (length segs - 1))) \<le> br_end attribute"
proof -
  let ?containers = "\<lambda>tokens pairs. sort_key (\<lambda>(len, p). (len, pair_open p, pair_close p)) (derive_containers tokens pairs elements)"
  from assms have
    ok: "\<not> list_ex (\<lambda>e. range_is_empty e \<or> \<not> range_contains attribute e \<or> \<not> valid_source_range source e) elements"
      "\<not> list_ex (\<lambda>(a, b). br_end a > br_start b) (windows2 elements)"
    by (auto simp: derive_attribute_layout_def simp del: not_less split: if_splits)
  from assms obtain tokens pairs where toks: "tokenize_balanced_range tokenize source attribute = Inr (tokens, pairs)"
    by (auto simp: derive_attribute_layout_def bind_result_eq_Inr split: if_splits)
  with assms obtain pair segs A L where
    segs: "comma_list_segments tokens pair = Inr segs"
    and fold: "fold_result (layout_segment tokens elements (length segs - 1)) (enumerate 0 segs) ({}, []) = Inr (A, L)"
    and card: "card A = length elements" and layout: "layout = sort_key entry_element L" and ne: "1 \<le> length segs"
    by (cases "?containers tokens pairs")
      (auto simp: derive_attribute_layout_def bind_result_eq_Inr split: if_splits prod.splits)
  have forward: "\<forall>e \<in> set elements. br_start e < br_end e"
    using ok(1) by (auto simp: list_ex_iff range_is_empty_def valid_source_range_def)
  have sorted: "sorted_wrt range_before elements" by (rule elements_before [OF ok(2) forward])
  have chain: "segment_chain segs"
    using comma_list_segments_chain [OF segs] tokenize_balanced_range_Inr(1) [OF toks] tokens_of_ordered by simp
  have "0 + length segs = Suc (length segs - 1)" using ne by simp
  from layout_segments_fold [OF this fold] obtain es where es: "length es \<le> length segs"
    "L = map2 entry_of (take (length es) segs) es" "A = set es" "distinct es" "set es \<subseteq> set elements"
    "list_all2 (\<lambda>s e. range_contains (segment_range s) e) (take (length es) segs) es" by auto
  have es_sorted: "sorted_wrt range_before es"
    using chain es forward by (intro chain_elements_sorted [OF chain es(1,6)]) auto
  have len: "length es = length elements" using card es(3,4) by (simp add: distinct_card)
  have dist: "distinct elements" using range_before_sorted [OF sorted] by (simp add: strict_sorted_iff)
  have "set es = set elements"
    by (rule card_subset_eq) (use es(3-5) len dist card in \<open>simp_all add: distinct_card\<close>)
  then have "es = elements"
    using range_before_sorted [OF sorted] range_before_sorted [OF es_sorted] by (simp add: strict_sorted_equal)
  moreover have "map entry_element L = es"
    using es(1) unfolding es(2) by (intro nth_equalityI) (simp_all add: entry_of_def)
  then have "sorted (map entry_element L)"
    using range_before_sorted [OF es_sorted] by (simp add: strict_sorted_imp_sorted)
  then have "layout = L" using layout by (simp add: sort_key_id_if_sorted)
  moreover have "br_start attribute \<le> br_start (segment_range (segs ! 0))
      \<and> br_end (segment_range (segs ! (length segs - 1))) \<le> br_end attribute" if covers: "lexer_covers tokenize"
  proof -
    have forward: "br_start attribute \<le> br_end attribute"
      using assms by (auto simp: derive_attribute_layout_def valid_source_range_def split: if_splits)
    have "pair_open pair < length tokens" "pair_close pair < length tokens"
      using segs by (auto simp: comma_list_segments_def split: option.splits if_splits)
    with tokens_of_inside [OF covers forward] tokenize_balanced_range_Inr(1) [OF toks]
      tokens_of_ordered [of tokenize source attribute]
    have "br_start attribute \<le> br_end (token_range (tokens ! pair_open pair))"
      "br_start (token_range (tokens ! pair_close pair)) \<le> br_end attribute"
      by (auto simp: tokens_ordered_def range_contains_def intro: order_trans)
    then show ?thesis using comma_list_segments_ends [OF segs] by simp
  qed
  ultimately show thesis using that [OF chain] es len sorted by simp
qed

end
