(* ===== verification/Use_Trees.thy ===== *)
theory Use_Trees
  imports Segments Splice Source_Units
begin

text \<open>
  Deleting leaves of a use tree (\<open>rewrite_use_item\<close>, \<open>enclosing_brace\<close> and \<open>rewrite_group\<close> of
  \<open>src/rewrite.rs\<close>).  \<open>rewrite_group\<close> calls itself on the brace group inside a segment; the model
  counts the calls with fuel and returns \<open>None\<close> when it runs out.  The groups of a call chain open at
  ever later tokens, so one more than the number of tokens is always enough, which is proved below.
\<close>

section \<open>The operations\<close>

text \<open>\<open>Iterator::min_by_key\<close>: the first of the least elements.\<close>

fun min_by_key :: "('a \<Rightarrow> 'k::linorder) \<Rightarrow> 'a list \<Rightarrow> 'a option" where
  "min_by_key f [] = None"
| "min_by_key f (x # xs) =
     (case min_by_key f xs of None \<Rightarrow> Some x | Some y \<Rightarrow> if f x \<le> f y then Some x else Some y)"

definition pair_interior :: "source_token list \<Rightarrow> delimiter_pair \<Rightarrow> byte_range" where
  "pair_interior tokens p =
     ByteRange (br_end (token_range (tokens ! pair_open p))) (br_start (token_range (tokens ! pair_close p)))"

definition encloses :: "source_token list \<Rightarrow> byte_range list \<Rightarrow> byte_range option \<Rightarrow> delimiter_pair \<Rightarrow> bool" where
  "encloses tokens leaves within p \<longleftrightarrow>
     pair_delimiter p = Brace
     \<and> (case within of None \<Rightarrow> True | Some outer \<Rightarrow> range_contains outer (pair_interior tokens p))
     \<and> list_all (range_contains (pair_interior tokens p)) leaves"

definition enclosing_brace ::
  "source_token list \<Rightarrow> delimiter_pair list \<Rightarrow> byte_range list \<Rightarrow> byte_range option \<Rightarrow> delimiter_pair option" where
  "enclosing_brace tokens pairs leaves within =
     map_option snd
       (min_by_key (\<lambda>(n, p). (n, pair_open p, pair_close p))
         (map (\<lambda>p. (range_len (pair_interior tokens p), p)) (filter (encloses tokens leaves within) pairs)))"

definition segment_deletion :: "comma_list_segment \<Rightarrow> source_rewrite_error + byte_range" where
  "segment_deletion s =
     bind_result
       (case following_comma s of
          Some comma \<Rightarrow> Inr (ByteRange (br_start (segment_range s)) (br_end comma))
        | None \<Rightarrow>
            (case previous_comma s of
               Some comma \<Rightarrow> Inr (ByteRange (br_start comma) (br_end (segment_range s)))
             | None \<Rightarrow> Inl RewriteInvalidUseTree))
       (\<lambda>deletion. if br_start deletion = br_end deletion then Inl RewriteInvalidUseTree else Inr deletion)"

type_synonym group_state = "source_unit_id set \<times> byte_range list"

text \<open>One segment; \<open>descend\<close> is the call on the group inside it.\<close>

definition rewrite_segment ::
  "(delimiter_pair \<Rightarrow> written_unit list \<Rightarrow> byte_range list \<Rightarrow> (source_rewrite_error + byte_range list) option)
     \<Rightarrow> source_token list \<Rightarrow> delimiter_pair list \<Rightarrow> delimiter_pair \<Rightarrow> written_unit list \<Rightarrow> source_unit_id set
     \<Rightarrow> comma_list_segment \<Rightarrow> group_state \<Rightarrow> (source_rewrite_error + group_state) option" where
  "rewrite_segment descend tokens pairs pair leaves retained s = (\<lambda>(assigned, deletions).
     let segment = segment_range s;
         segment_leaves = filter (\<lambda>leaf. range_contains segment (full_range leaf)) leaves
     in if segment_leaves = [] then Some (Inr (assigned, deletions))
        else if \<not> distinct (map unit_id segment_leaves) \<or> set (map unit_id segment_leaves) \<inter> assigned \<noteq> {}
        then Some (Inl RewriteInvalidUseTree)
        else
          let assigned = assigned \<union> set (map unit_id segment_leaves);
              kept = length (filter (\<lambda>leaf. unit_id leaf \<in> retained) segment_leaves)
          in if kept = length segment_leaves then Some (Inr (assigned, deletions))
             else if kept = 0 then
               Some (bind_result (segment_deletion s) (\<lambda>deletion. Inr (assigned, deletions @ [deletion])))
             else
               (case enclosing_brace tokens pairs (map full_range segment_leaves) (Some segment) of
                  None \<Rightarrow> Some (Inl RewriteInvalidUseTree)
                | Some child \<Rightarrow>
                    if child = pair then Some (Inl RewriteInvalidUseTree)
                    else
                      map_option (\<lambda>r. bind_result r (\<lambda>deletions. Inr (assigned, deletions)))
                        (descend child segment_leaves deletions)))"

primrec fold_fuel :: "('a \<Rightarrow> 's \<Rightarrow> ('e + 's) option) \<Rightarrow> 'a list \<Rightarrow> 's \<Rightarrow> ('e + 's) option" where
  "fold_fuel f [] s = Some (Inr s)"
| "fold_fuel f (x # xs) s =
     (case f x s of
        None \<Rightarrow> None
      | Some (Inl e) \<Rightarrow> Some (Inl e)
      | Some (Inr s') \<Rightarrow> fold_fuel f xs s')"

fun rewrite_group ::
  "nat \<Rightarrow> source_token list \<Rightarrow> delimiter_pair list \<Rightarrow> source_unit_id set \<Rightarrow> delimiter_pair \<Rightarrow> written_unit list
     \<Rightarrow> byte_range list \<Rightarrow> (source_rewrite_error + byte_range list) option" where
  "rewrite_group 0 tokens pairs retained pair leaves deletions = None"
| "rewrite_group (Suc fuel) tokens pairs retained pair leaves deletions =
     (case comma_list_segments tokens pair of
        Inl _ \<Rightarrow> Some (Inl RewriteInvalidUseTree)
      | Inr segments \<Rightarrow>
          map_option
            (\<lambda>r. bind_result r (\<lambda>(assigned, deletions).
               if card assigned \<noteq> length leaves then Inl RewriteInvalidUseTree else Inr deletions))
            (fold_fuel
              (rewrite_segment (rewrite_group fuel tokens pairs retained) tokens pairs pair leaves retained)
              segments ({}, deletions)))"

definition use_tree_error :: "source_syntax_error \<Rightarrow> source_rewrite_error" where
  "use_tree_error e = (case e of InvalidRange \<Rightarrow> RewriteInvalidInventory | _ \<Rightarrow> RewriteInvalidUseTree)"

text \<open>The leaves of a use item, in the order of their ranges.\<close>

definition use_leaves :: "written_unit list \<Rightarrow> written_unit \<Rightarrow> written_unit list" where
  "use_leaves us item =
     sort_key full_range (filter (\<lambda>u. unit_kind u = UseLeaf \<and> unit_parent u = Some (unit_id item)) us)"

definition rewrite_use_item ::
  "lexer \<Rightarrow> source_inventory \<Rightarrow> written_unit \<Rightarrow> source_unit_id set \<Rightarrow> source_rewrite_error + byte_range list" where
  "rewrite_use_item tokenize inventory item retained =
     (let leaves = use_leaves (src_units inventory) item;
          kept = length (filter (\<lambda>leaf. unit_id leaf \<in> retained) leaves)
      in if list_ex (\<lambda>(a, b). br_end (full_range a) > br_start (full_range b)) (windows2 leaves)
         then Inl RewriteInvalidUseTree
         else if leaves = [] then Inr []
         else if kept = length leaves then Inr []
         else if kept = 0 then Inl RewriteInvalidRetention
         else
           bind_result (map_err use_tree_error (tokenize_balanced_range tokenize (src_original inventory) (full_range item)))
             (\<lambda>(tokens, pairs).
               case enclosing_brace tokens pairs (map full_range leaves) None of
                 None \<Rightarrow> Inl RewriteInvalidUseTree
               | Some pair \<Rightarrow>
                   (case rewrite_group (Suc (length tokens)) tokens pairs retained pair leaves [] of
                      None \<Rightarrow> Inl RewriteInvalidUseTree
                    | Some r \<Rightarrow> r)))"

section \<open>Exactly the dropped leaves are deleted\<close>

lemma min_by_key_mem: "min_by_key f xs = Some x \<Longrightarrow> x \<in> set xs"
  by (induction xs arbitrary: x) (auto split: option.splits if_splits)

lemma enclosing_brace_Some:
  assumes "enclosing_brace tokens pairs ls within = Some p"
  shows "p \<in> set pairs" "encloses tokens ls within p"
proof -
  from assms obtain n where
    "min_by_key (\<lambda>(n, p). (n, pair_open p, pair_close p))
       (map (\<lambda>p. (range_len (pair_interior tokens p), p)) (filter (encloses tokens ls within) pairs)) = Some (n, p)"
    by (auto simp: enclosing_brace_def)
  from min_by_key_mem [OF this] show "p \<in> set pairs" "encloses tokens ls within p" by auto
qed

lemma segment_deletion_cut:
  "segment_deletion (segs ! k) = Inr d \<Longrightarrow> cut_range segs k k = Some d"
  by (auto simp: segment_deletion_def cut_range_def split: option.splits if_splits)

definition leaf_edited :: "source_unit_id set \<Rightarrow> byte_range list \<Rightarrow> written_unit \<Rightarrow> bool" where
  "leaf_edited retained deletions leaf \<longleftrightarrow> edited (unit_id leaf \<in> retained) (full_range leaf) deletions"

definition leaves_in :: "comma_list_segment \<Rightarrow> written_unit list \<Rightarrow> written_unit list" where
  "leaves_in s leaves = filter (\<lambda>leaf. range_contains (segment_range s) (full_range leaf)) leaves"

text \<open>What a call on a group promises.\<close>

definition group_edits ::
  "source_token list \<Rightarrow> source_unit_id set \<Rightarrow> delimiter_pair \<Rightarrow> written_unit list \<Rightarrow> byte_range list
     \<Rightarrow> byte_range list \<Rightarrow> bool" where
  "group_edits tokens retained pair leaves ds ds' \<longleftrightarrow>
     (\<exists>new. ds' = ds @ new \<and> list_all (leaf_edited retained new) leaves
        \<and> list_all (range_contains (pair_interior tokens pair)) new)"

lemma rewrite_segment_edits:
  assumes chain: "segment_chain segs" "k < length segs"
    and step: "rewrite_segment descend tokens pairs pair leaves retained (segs ! k) (A, D) = Some (Inr (A', D'))"
    and calls: "\<And>child ls ds ds'. descend child ls ds = Some (Inr ds') \<Longrightarrow> distinct (map unit_id ls)
      \<Longrightarrow> group_edits tokens retained child ls ds ds'"
  obtains new where "D' = D @ new" "A' = A \<union> set (map unit_id (leaves_in (segs ! k) leaves))"
    "list_all (leaf_edited retained new) (leaves_in (segs ! k) leaves)"
    "list_all (inside_segment segs k) new"
proof -
  let ?ls = "leaves_in (segs ! k) leaves" and ?kept = "\<lambda>leaf. unit_id leaf \<in> retained"
  consider (none) "?ls = []" "D' = D" "A' = A"
    | (all) "list_all ?kept ?ls" "D' = D" "A' = A \<union> set (map unit_id ?ls)"
    | (cut) d where "length (filter ?kept ?ls) = 0" "segment_deletion (segs ! k) = Inr d" "D' = D @ [d]"
        "A' = A \<union> set (map unit_id ?ls)"
    | (child) child where "enclosing_brace tokens pairs (map full_range ?ls) (Some (segment_range (segs ! k))) = Some child"
        "descend child ?ls D = Some (Inr D')" "distinct (map unit_id ?ls)" "A' = A \<union> set (map unit_id ?ls)"
    using step unfolding rewrite_segment_def Let_def leaves_in_def [symmetric] filter_length_all
    by (auto simp: bind_result_eq_Inr split: if_splits option.splits)
  then show thesis
  proof cases
    case none
    then show thesis using that [of "[]"] by simp
  next
    case all
    then show thesis using that [of "[]"] by (simp add: list_all_iff leaf_edited_def edited_def)
  next
    case (cut d)
    have c: "cut_range segs k k = Some d" by (rule segment_deletion_cut [OF cut(2)])
    have "range_contains d (segment_range (segs ! k))"
      by (rule cut_range_covers [OF chain(1) order_refl chain(2) c]) simp_all
    then have "list_all (leaf_edited retained [d]) ?ls"
      using cut(1) by (auto simp: list_all_iff leaf_edited_def edited_def leaves_in_def filter_empty_conv
          intro: range_contains_trans)
    then show thesis using that [of "[d]"] cut cut_inside_segment [OF chain c] by simp
  next
    case (child child)
    from calls [OF child(2,3)] obtain new where new: "D' = D @ new" "list_all (leaf_edited retained new) ?ls"
      "list_all (range_contains (pair_interior tokens child)) new"
      by (auto simp: group_edits_def)
    have "range_contains (segment_range (segs ! k)) (pair_interior tokens child)"
      using enclosing_brace_Some(2) [OF child(1)] by (simp add: encloses_def)
    then have "list_all (inside_segment segs k) new"
      using new(3) contained_inside_segment [OF chain] by (auto simp: list_all_iff intro: range_contains_trans)
    then show thesis using that [OF new(1) child(4) new(2)] by simp
  qed
qed

lemma inside_spares_leaf:
  "inside_segment segs k d \<Longrightarrow> j < length segs \<Longrightarrow> j \<noteq> k \<Longrightarrow> leaf \<in> set (leaves_in (segs ! j) leaves)
     \<Longrightarrow> spares (full_range leaf) d"
  by (auto simp: inside_segment_def leaves_in_def intro: spares_contained)

lemma rewrite_segments_edit:
  assumes chain: "segment_chain segs"
    and calls: "\<And>child ls ds ds'. descend child ls ds = Some (Inr ds') \<Longrightarrow> distinct (map unit_id ls)
      \<Longrightarrow> group_edits tokens retained child ls ds ds'"
  shows "fold_fuel (rewrite_segment descend tokens pairs pair leaves retained) ss (A, D) = Some (Inr (A', D')) \<Longrightarrow>
    ss = drop m segs \<Longrightarrow>
    \<exists>new. D' = D @ new
      \<and> A' = A \<union> (\<Union>k \<in> {m ..< length segs}. set (map unit_id (leaves_in (segs ! k) leaves)))
      \<and> (\<forall>k \<in> {m ..< length segs}. list_all (leaf_edited retained new) (leaves_in (segs ! k) leaves))
      \<and> (\<forall>d \<in> set new. \<exists>k \<in> {m ..< length segs}. inside_segment segs k d)"
proof (induction ss arbitrary: A D m)
  case Nil
  then show ?case by (intro exI [of _ "[]"]) simp
next
  case (Cons s ss)
  from Cons.prems(2) have m: "m < length segs" by (metis drop_all list.distinct(1) not_less)
  then have s: "s = segs ! m" "ss = drop (Suc m) segs" using Cons.prems(2) by (simp_all add: Cons_nth_drop_Suc [symmetric])
  from Cons.prems(1) obtain mid midd where
    one: "rewrite_segment descend tokens pairs pair leaves retained (segs ! m) (A, D) = Some (Inr (mid, midd))"
    and rest: "fold_fuel (rewrite_segment descend tokens pairs pair leaves retained) ss (mid, midd) = Some (Inr (A', D'))"
    by (auto simp: s split: option.splits sum.splits)
  obtain new1 where n1: "midd = D @ new1" "mid = A \<union> set (map unit_id (leaves_in (segs ! m) leaves))"
    "list_all (leaf_edited retained new1) (leaves_in (segs ! m) leaves)" "list_all (inside_segment segs m) new1"
    by (rule rewrite_segment_edits [OF chain m one calls])
  from Cons.IH [OF rest s(2)] obtain new2 where n2: "D' = midd @ new2"
    "A' = mid \<union> (\<Union>k \<in> {Suc m ..< length segs}. set (map unit_id (leaves_in (segs ! k) leaves)))"
    "\<forall>k \<in> {Suc m ..< length segs}. list_all (leaf_edited retained new2) (leaves_in (segs ! k) leaves)"
    "\<forall>d \<in> set new2. \<exists>k \<in> {Suc m ..< length segs}. inside_segment segs k d" by blast
  have split: "{m ..< length segs} = insert m {Suc m ..< length segs}" using m by auto
  have first: "list_all (leaf_edited retained (new1 @ new2)) (leaves_in (segs ! m) leaves)"
    unfolding list_all_iff
  proof
    fix leaf
    assume leaf: "leaf \<in> set (leaves_in (segs ! m) leaves)"
    have "spares (full_range leaf) d" if "d \<in> set new2" for d
    proof -
      from n2(4) that obtain k where "Suc m \<le> k" "k < length segs" "inside_segment segs k d"
        by (metis atLeastLessThan_iff)
      then show ?thesis using inside_spares_leaf [OF _ m _ leaf] by auto
    qed
    moreover have "leaf_edited retained new1 leaf" using n1(3) leaf by (simp add: list_all_iff)
    ultimately show "leaf_edited retained (new1 @ new2) leaf"
      unfolding leaf_edited_def by (simp add: edited_append list_all_iff)
  qed
  have later: "list_all (leaf_edited retained (new1 @ new2)) (leaves_in (segs ! k) leaves)"
    if "k \<in> {Suc m ..< length segs}" for k
    unfolding list_all_iff
  proof
    fix leaf
    assume leaf: "leaf \<in> set (leaves_in (segs ! k) leaves)"
    have "spares (full_range leaf) d" if "d \<in> set new1" for d
      using n1(4) that \<open>k \<in> _\<close> inside_spares_leaf [OF _ _ _ leaf, of m d] by (auto simp: list_all_iff)
    moreover have "leaf_edited retained new2 leaf" using n2(3) that leaf by (simp add: list_all_iff)
    ultimately show "leaf_edited retained (new1 @ new2) leaf"
      unfolding leaf_edited_def by (simp add: edited_append list_all_iff)
  qed
  show ?case
    using n1 n2 first later unfolding split
    by (intro exI [of _ "new1 @ new2"]) (auto simp: list_all_iff)
qed

lemma rewrite_group_edits:
  assumes "tokens_ordered tokens"
  shows "rewrite_group fuel tokens pairs retained pair leaves D = Some (Inr D') \<Longrightarrow> distinct (map unit_id leaves) \<Longrightarrow>
    group_edits tokens retained pair leaves D D'"
proof (induction fuel arbitrary: pair leaves D D')
  case (Suc fuel)
  from Suc.prems(1) obtain segs A where segs: "comma_list_segments tokens pair = Inr segs"
    and fold: "fold_fuel (rewrite_segment (rewrite_group fuel tokens pairs retained) tokens pairs pair leaves retained)
        segs ({}, D) = Some (Inr (A, D'))"
    and card: "card A = length leaves"
    by (auto simp: bind_result_eq_Inr split: sum.splits if_splits)
  have chain: "segment_chain segs" by (rule comma_list_segments_chain [OF segs assms])
  from rewrite_segments_edit [OF chain Suc.IH fold, of 0] obtain new where new: "D' = D @ new"
    "A = (\<Union>k \<in> {0 ..< length segs}. set (map unit_id (leaves_in (segs ! k) leaves)))"
    "\<forall>k \<in> {0 ..< length segs}. list_all (leaf_edited retained new) (leaves_in (segs ! k) leaves)"
    "\<forall>d \<in> set new. \<exists>k \<in> {0 ..< length segs}. inside_segment segs k d" by auto
  have sub: "A \<subseteq> set (map unit_id leaves)" by (auto simp: new(2) leaves_in_def)
  have all: "A = set (map unit_id leaves)"
    by (rule card_subset_eq [OF _ sub]) (use card Suc.prems(2) distinct_card in fastforce)+
  have "leaf_edited retained new leaf" if "leaf \<in> set leaves" for leaf
  proof -
    have "unit_id leaf \<in> A" using that all by simp
    then obtain k other where k: "k < length segs" "other \<in> set (leaves_in (segs ! k) leaves)" "unit_id other = unit_id leaf"
      by (auto simp: new(2))
    then have "other \<in> set leaves" by (simp add: leaves_in_def)
    then have "other = leaf" using that k(3) Suc.prems(2) by (auto simp: distinct_map inj_on_def)
    with k new(3) show ?thesis by (auto simp: list_all_iff)
  qed
  moreover have "range_contains (pair_interior tokens pair) d" if "d \<in> set new" for d
    using new(4) that comma_list_segments_ends [OF segs]
    by (auto simp: inside_segment_def pair_interior_def range_contains_def)
  ultimately show ?case using new(1) by (auto simp: group_edits_def list_all_iff)
qed simp

section \<open>The fuel is enough\<close>

lemma fold_fuel_None: "fold_fuel f xs s = None \<Longrightarrow> \<exists>x \<in> set xs. \<exists>t. f x t = None"
  by (induction xs arbitrary: s) (auto split: option.splits sum.splits)

lemma rewrite_segment_None:
  assumes "rewrite_segment descend tokens pairs pair leaves retained s st = None"
  obtains child ls ds where "descend child ls ds = None" "child \<in> set pairs" "child \<noteq> pair"
    "range_contains (segment_range s) (pair_interior tokens child)"
proof -
  obtain A D where st: "st = (A, D)" by (cases st)
  from assms obtain child ls ds where
    "enclosing_brace tokens pairs (map full_range ls) (Some (segment_range s)) = Some child"
    "descend child ls ds = None" "child \<noteq> pair"
    by (auto simp: st rewrite_segment_def Let_def split: if_splits option.splits)
  moreover from this(1) have "child \<in> set pairs" "range_contains (segment_range s) (pair_interior tokens child)"
    using enclosing_brace_Some [of tokens pairs "map full_range ls" "Some (segment_range s)" child]
    by (simp_all add: encloses_def)
  ultimately show thesis using that by blast
qed

lemma later_token:
  assumes "tokens_ordered tokens" "tokens_nonempty tokens" "i < length tokens" "j < length tokens"
    and "br_end (token_range (tokens ! i)) \<le> br_end (token_range (tokens ! j))"
  shows "i \<le> j"
proof (rule ccontr)
  assume "\<not> i \<le> j"
  then have "br_end (token_range (tokens ! j)) \<le> br_start (token_range (tokens ! i))"
    using assms(1,3) by (simp add: tokens_ordered_def)
  moreover have "br_start (token_range (tokens ! i)) < br_end (token_range (tokens ! i))"
    using assms(2,3) by (simp add: tokens_nonempty_def)
  ultimately show False using assms(5) by simp
qed

lemma rewrite_group_fuel:
  assumes tokens: "tokens_ordered tokens" "tokens_nonempty tokens"
    and pairs: "set pairs \<subseteq> Collect (pair_matches (map token_kind tokens))"
  shows "pair \<in> set pairs \<Longrightarrow> length tokens < fuel + pair_open pair \<Longrightarrow>
    rewrite_group fuel tokens pairs retained pair leaves ds \<noteq> None"
proof (induction fuel arbitrary: pair leaves ds)
  case 0
  then show ?case using pairs by (auto simp: pair_matches_def matching_def)
next
  case (Suc fuel)
  show ?case
  proof
    assume none: "rewrite_group (Suc fuel) tokens pairs retained pair leaves ds = None"
    then obtain segs where segs: "comma_list_segments tokens pair = Inr segs"
      and fold: "fold_fuel (rewrite_segment (rewrite_group fuel tokens pairs retained) tokens pairs pair leaves retained)
        segs ({}, ds) = None"
      by (auto split: sum.splits)
    from fold_fuel_None [OF fold] obtain s st where s: "s \<in> set segs"
      and "rewrite_segment (rewrite_group fuel tokens pairs retained) tokens pairs pair leaves retained s st = None"
      by blast
    then obtain child ls es where child: "rewrite_group fuel tokens pairs retained child ls es = None"
      "child \<in> set pairs" "child \<noteq> pair" "range_contains (segment_range s) (pair_interior tokens child)"
      by (elim rewrite_segment_None)
    obtain k where k: "k < length segs" "s = segs ! k" using s by (auto simp: in_set_conv_nth)
    have chain: "segment_chain segs" by (rule comma_list_segments_chain [OF segs tokens(1)])
    have "br_start (segment_range (segs ! 0)) \<le> br_start (segment_range s)"
      unfolding k(2) by (rule segment_chain_mono [OF chain _ k(1)]) simp
    then have ends: "br_end (token_range (tokens ! pair_open pair)) \<le> br_end (token_range (tokens ! pair_open child))"
      using child(4) comma_list_segments_ends [OF segs] by (simp add: range_contains_def pair_interior_def)
    have m: "pair_matches (map token_kind tokens) pair" "pair_matches (map token_kind tokens) child"
      using subsetD [OF pairs Suc.prems(1)] subsetD [OF pairs child(2)] by simp_all
    then have bounds: "pair_open pair < length tokens" "pair_open child < length tokens"
      by (simp_all add: pair_matches_def matching_def)
    have "pair_open pair \<le> pair_open child" by (rule later_token [OF tokens bounds ends])
    moreover have "pair_open pair \<noteq> pair_open child"
      using pair_matches_unique [OF m] child(3) by auto
    ultimately have "length tokens < fuel + pair_open child" using Suc.prems(2) by simp
    with Suc.IH [OF child(2)] child(1) show False by blast
  qed
qed

text \<open>C36. Rewriting a brace group always returns: on the tokens and pairs of a tokenized range one call
  more than there are tokens is enough fuel, whatever group, leaves and retained set are given.\<close>

theorem rewrite_group_returns:
  assumes "lexer_positive tokenize" and "tokenize_balanced_range tokenize source r = Inr (tokens, pairs)"
    and "pair \<in> set pairs" and "length tokens < fuel"
  shows "\<exists>result. rewrite_group fuel tokens pairs retained pair leaves ds = Some result"
proof -
  note t = tokenize_balanced_range_Inr [OF assms(2)]
  have "rewrite_group fuel tokens pairs retained pair leaves ds \<noteq> None"
  proof (rule rewrite_group_fuel [OF _ _ _ assms(3)])
    show "tokens_ordered tokens" unfolding t(1) by (rule tokens_of_ordered)
    show "tokens_nonempty tokens" unfolding t(1) by (rule tokens_of_nonempty [OF assms(1)])
    show "set pairs \<subseteq> Collect (pair_matches (map token_kind tokens))" using t(2) by simp
    show "length tokens < fuel + pair_open pair" using assms(4) by simp
  qed
  then show ?thesis by blast
qed

lemma sample_braces:
  "tokenize_balanced_range byte_lexer [123, 97, 44, 98, 125] (ByteRange 0 5) =
     Inr (layout_tokens [(OpenBrace, Suc 0), (OtherKind 97, Suc 0), (CommaKind, Suc 0), (OtherKind 98, Suc 0), (CloseBrace, Suc 0)] 0,
       [\<lparr>pair_delimiter = Brace, pair_open = 0, pair_close = 4\<rparr>])"
  by (simp add: tokenize_balanced_range_def byte_lexer_def byte_kind_def str_get_def is_char_boundary_def
      u32_max_def checked_add_u32_def get_at_def continuation_byte_def)

theorem rewrite_group_returns_witness:
  "\<exists>tokens pairs result. tokenize_balanced_range byte_lexer [123, 97, 44, 98, 125] (ByteRange 0 5) = Inr (tokens, pairs)
     \<and> rewrite_group 6 tokens pairs {} \<lparr>pair_delimiter = Brace, pair_open = 0, pair_close = 4\<rparr> [] [] = Some result"
proof -
  from rewrite_group_returns [OF byte_lexer_positive sample_braces, of _ 6 "{}" "[]" "[]"] sample_braces
  show ?thesis by (simp del: rewrite_group.simps) 
qed

section \<open>Use items\<close>

lemma use_leaves_distinct: "distinct (map unit_id us) \<Longrightarrow> distinct (map unit_id (use_leaves us item))"
proof -
  assume "distinct (map unit_id us)"
  then have "distinct (map unit_id (filter (\<lambda>u. unit_kind u = UseLeaf \<and> unit_parent u = Some (unit_id item)) us))"
    by (rule distinct_map_filter)
  then show ?thesis by (simp add: use_leaves_def distinct_map)
qed

lemma rewrite_use_item_edits:
  assumes "rewrite_use_item tokenize inventory item retained = Inr ds"
    and "distinct (map unit_id (src_units inventory))"
    and "leaf \<in> set (src_units inventory)" "unit_kind leaf = UseLeaf" "unit_parent leaf = Some (unit_id item)"
  shows "edited (unit_id leaf \<in> retained) (full_range leaf) ds"
proof -
  let ?leaves = "use_leaves (src_units inventory) item" and ?kept = "\<lambda>leaf. unit_id leaf \<in> retained"
  have mem: "leaf \<in> set ?leaves" using assms(3-5) by (simp add: use_leaves_def)
  have "distinct (map unit_id ?leaves)" using assms(2) by (rule use_leaves_distinct)
  show ?thesis
  proof (cases "list_all ?kept ?leaves")
    case True
    then have "ds = []"
      using assms(1) mem by (auto simp: rewrite_use_item_def Let_def filter_length_all split: if_splits)
    moreover have "?kept leaf" using True mem by (auto simp: list_all_iff)
    ultimately show ?thesis by (simp add: edited_def)
  next
    case False
    then obtain tokens pairs pair where
      toks: "tokenize_balanced_range tokenize (src_original inventory) (full_range item) = Inr (tokens, pairs)"
      and group: "rewrite_group (Suc (length tokens)) tokens pairs retained pair ?leaves [] = Some (Inr ds)"
      using assms(1) mem
      by (auto simp: rewrite_use_item_def Let_def filter_length_all bind_result_eq_Inr simp del: rewrite_group.simps
          split: if_splits option.splits)
    have "tokens_ordered tokens" using tokenize_balanced_range_Inr(1) [OF toks] tokens_of_ordered by simp
    from rewrite_group_edits [OF this group \<open>distinct (map unit_id ?leaves)\<close>] obtain new where
      "ds = new" "list_all (leaf_edited retained new) ?leaves" by (auto simp: group_edits_def)
    with mem show ?thesis by (auto simp: list_all_iff leaf_edited_def)
  qed
qed

lemma rewrite_use_item_inside:
  assumes "lexer_covers tokenize" and "distinct (map unit_id (src_units inventory))"
    and "rewrite_use_item tokenize inventory item retained = Inr ds"
  shows "list_all (range_contains (full_range item)) ds"
proof (cases "ds = []")
  case False
  let ?leaves = "use_leaves (src_units inventory) item" and ?r = "full_range item"
  from False assms(3) obtain tokens pairs pair where
    toks: "tokenize_balanced_range tokenize (src_original inventory) ?r = Inr (tokens, pairs)"
    and brace: "enclosing_brace tokens pairs (map full_range ?leaves) None = Some pair"
    and group: "rewrite_group (Suc (length tokens)) tokens pairs retained pair ?leaves [] = Some (Inr ds)"
    by (auto simp: rewrite_use_item_def Let_def bind_result_eq_Inr simp del: rewrite_group.simps
        split: if_splits option.splits)
  note t = tokenize_balanced_range_Inr [OF toks]
  have "distinct (map unit_id ?leaves)" using assms(2) by (rule use_leaves_distinct)
  with rewrite_group_edits [OF _ group] t(1) tokens_of_ordered
  have new: "list_all (range_contains (pair_interior tokens pair)) ds" by (auto simp: group_edits_def)
  have forward: "br_start ?r \<le> br_end ?r"
    using toks by (auto simp: tokenize_balanced_range_def str_get_def bind_result_eq_Inr split: if_splits)
  have "pair_matches (map token_kind tokens) pair" using enclosing_brace_Some(1) [OF brace] t(2) by auto
  then have ends: "pair_open pair < length tokens" "pair_close pair < length tokens"
    by (auto simp: pair_matches_def matching_def)
  have "range_contains ?r (pair_interior tokens pair)"
    using tokens_of_inside [OF assms(1) forward ends(1) [unfolded t(1)]]
      tokens_of_inside [OF assms(1) forward ends(2) [unfolded t(1)]]
      tokens_of_ordered [of tokenize "src_original inventory" ?r] ends
    by (auto simp: t(1) [symmetric] tokens_ordered_def range_contains_def pair_interior_def intro: order_trans)
  with new show ?thesis by (auto simp: list_all_iff intro: range_contains_trans)
qed simp

text \<open>C37. A successful rewrite of a use item deletes inside the item only, covers every leaf that is not
  retained and touches no byte of a retained leaf.\<close>

theorem rewrite_use_item_exact:
  assumes "lexer_covers tokenize" and "distinct (map unit_id (src_units inventory))"
    and "rewrite_use_item tokenize inventory item retained = Inr ds"
  shows "list_all (range_contains (full_range item)) ds
    \<and> list_all (\<lambda>leaf. edited (unit_id leaf \<in> retained) (full_range leaf) ds)
       (filter (\<lambda>u. unit_kind u = UseLeaf \<and> unit_parent u = Some (unit_id item)) (src_units inventory))"
  using rewrite_use_item_inside [OF assms] rewrite_use_item_edits [OF assms(3,2)]
  by (auto simp: list_all_iff)

definition sample_use_unit :: "source_unit_id \<Rightarrow> written_unit_kind \<Rightarrow> nat \<Rightarrow> nat \<Rightarrow> source_unit_id option \<Rightarrow> written_unit" where
  "sample_use_unit i k a b p =
     \<lparr>unit_id = i, unit_kind = k, full_range = ByteRange a b, unit_parent = p, unit_cfg = Active,
      atomic_group = i, same_role_ordinal = 0\<rparr>"

definition sample_use_inventory :: source_inventory where
  "sample_use_inventory =
     \<lparr>src_original = [123, 97, 44, 98, 125], src_normalized = [123, 97, 44, 98, 125],
      src_offsets = \<lparr>om_original_len = 5, om_normalized_len = 5, norm_records = []\<rparr>,
      src_units = [sample_use_unit 0 CrateRoot 0 5 None, sample_use_unit 1 UseItem 0 5 (Some 0),
        sample_use_unit 2 UseLeaf 1 2 (Some 1), sample_use_unit 3 UseLeaf 3 4 (Some 1)],
      src_pieces = map (\<lambda>(a, b, owner). \<lparr>piece_range = ByteRange a b, piece_owner = owner, piece_kind = Token\<rparr>)
        [(0, 1, 1), (1, 2, 2), (2, 3, 1), (3, 4, 3), (4, 5, 1)], src_derive_targets = [], src_macro_rules = [], src_macro_templates = [],
      src_macro_capture_slots = [], src_macro_repetitions = [], src_ownerless_attributes = []\<rparr>"

lemma sample_use_leaves:
  "use_leaves (src_units sample_use_inventory) (src_units sample_use_inventory ! 1)
    = [sample_use_unit 2 UseLeaf 1 2 (Some 1), sample_use_unit 3 UseLeaf 3 4 (Some 1)]"
  by (simp add: use_leaves_def sample_use_inventory_def sample_use_unit_def less_eq_byte_range_def)

abbreviation sample_use_tokens :: "source_token list" where
  "sample_use_tokens \<equiv>
     layout_tokens [(OpenBrace, Suc 0), (OtherKind 97, Suc 0), (CommaKind, Suc 0), (OtherKind 98, Suc 0), (CloseBrace, Suc 0)] 0"

abbreviation sample_use_pair :: delimiter_pair where
  "sample_use_pair \<equiv> \<lparr>pair_delimiter = Brace, pair_open = 0, pair_close = 4\<rparr>"

lemma sample_use_segments:
  "comma_list_segments sample_use_tokens sample_use_pair =
     Inr [\<lparr>segment_range = ByteRange (Suc 0) 2, previous_comma = None, following_comma = Some (ByteRange 2 3)\<rparr>,
       \<lparr>segment_range = ByteRange 3 4, previous_comma = Some (ByteRange 2 3), following_comma = None\<rparr>]"
  by (simp add: comma_list_segments_def get_at_def comma_segment_def checked_sub_def upt_rec numeral_eq_Suc)

lemma sample_use_brace:
  "enclosing_brace sample_use_tokens [sample_use_pair] [ByteRange (Suc 0) 2, ByteRange 3 4] None = Some sample_use_pair"
  by (simp add: enclosing_brace_def encloses_def pair_interior_def range_contains_def numeral_eq_Suc)

lemma sample_use_rewrite:
  "rewrite_use_item byte_lexer sample_use_inventory (src_units sample_use_inventory ! 1) {0, 1, 3} = Inr [ByteRange 1 3]"
  unfolding rewrite_use_item_def sample_use_leaves
  by (simp add: sample_use_inventory_def sample_use_unit_def sample_braces sample_use_brace sample_use_segments
      rewrite_segment_def segment_deletion_def range_contains_def del: layout_tokens.simps)

theorem rewrite_use_item_exact_witness:
  "rewrite_use_item byte_lexer sample_use_inventory (src_units sample_use_inventory ! 1) {0, 1, 3} = Inr [ByteRange 1 3]
     \<and> list_all (range_contains (full_range (src_units sample_use_inventory ! 1))) [ByteRange 1 3]
     \<and> list_all (\<lambda>leaf. edited (unit_id leaf \<in> {0, 1, 3}) (full_range leaf) [ByteRange 1 3])
         (filter (\<lambda>u. unit_kind u = UseLeaf \<and> unit_parent u = Some (unit_id (src_units sample_use_inventory ! 1)))
           (src_units sample_use_inventory))"
proof -
  have "distinct (map unit_id (src_units sample_use_inventory))"
    by (simp add: sample_use_inventory_def sample_use_unit_def)
  from rewrite_use_item_exact [OF byte_lexer_covers this sample_use_rewrite] sample_use_rewrite
  show ?thesis by blast
qed

end
