(* ===== verification/Rewrite.thy ===== *)
theory Rewrite
  imports Repetition_Plan Derive_Layout Use_Trees
begin

text \<open>
  \<open>rewrite_source\<close> of \<open>src/rewrite.rs\<close>: the validation of the inventory and of the retained set, the
  deletions at the frontier between retained and dropped units, inside derive attributes, use items,
  repetitions and captures, and their removal from the source.
\<close>

section \<open>Validation\<close>

definition leaf_in_use_item :: "written_unit list \<Rightarrow> written_unit \<Rightarrow> bool" where
  "leaf_in_use_item us leaf \<longleftrightarrow>
     (case unit_parent leaf of
        None \<Rightarrow> False
      | Some p \<Rightarrow> unit_kind (us ! p) = UseItem \<and> br_start (full_range leaf) \<noteq> br_end (full_range leaf))"

definition piece_boundaries_of :: "source_inventory \<Rightarrow> nat set" where
  "piece_boundaries_of inventory =
     {0, length (src_original inventory)}
     \<union> set (concat (map (\<lambda>p. [br_start (piece_range p), br_end (piece_range p)]) (src_pieces inventory)))"

definition validate_rewrite_inventory :: "lexer \<Rightarrow> glue \<Rightarrow> source_inventory \<Rightarrow> source_rewrite_error + nat set" where
  "validate_rewrite_inventory tokenize glue inventory =
     bind_result (ok_or (try_u32 (length (src_original inventory))) RewriteInvalidInventory) (\<lambda>_.
     bind_result
       (map_err (\<lambda>_. RewriteInvalidInventory)
         (validate_inventory (src_original inventory) (src_units inventory) (src_pieces inventory))) (\<lambda>_.
       if list_ex (\<lambda>u. unit_kind u = UseLeaf \<and> \<not> leaf_in_use_item (src_units inventory) u) (src_units inventory)
       then Inl RewriteInvalidInventory
       else
         let boundaries = piece_boundaries_of inventory
         in if list_ex (\<lambda>u. br_start (full_range u) \<notin> boundaries \<or> br_end (full_range u) \<notin> boundaries)
                 (src_units inventory)
            then Inl RewriteInvalidInventory
            else
              bind_result
                (map_err (\<lambda>_. RewriteInvalidInventory)
                  (validate_derive_target_facts (src_units inventory) (src_derive_targets inventory))) (\<lambda>_.
              bind_result
                (map_err (\<lambda>_. RewriteInvalidInventory)
                  (validate_declarative_macro_source_facts tokenize glue (src_original inventory)
                    (src_units inventory) (src_macro_rules inventory) (src_macro_templates inventory)
                    (src_macro_capture_slots inventory) (src_macro_repetitions inventory))) (\<lambda>_.
                Inr boundaries))))"

definition check_group ::
  "source_unit_id set \<Rightarrow> written_unit \<Rightarrow> (atomic_group_id \<rightharpoonup> bool) \<Rightarrow> source_rewrite_error + (atomic_group_id \<rightharpoonup> bool)" where
  "check_group retained u groups =
     (let state = (unit_id u \<in> retained)
      in if (case groups (atomic_group u) of None \<Rightarrow> False | Some previous \<Rightarrow> previous \<noteq> state)
         then Inl RewriteInvalidRetention else Inr (groups(atomic_group u \<mapsto> state)))"

definition validate_retention ::
  "source_inventory \<Rightarrow> source_unit_id set \<Rightarrow> source_rewrite_error + unit" where
  "validate_retention inventory retained =
     (if \<not> retained \<subseteq> {..<length (src_units inventory)} then Inl RewriteInvalidRetention
      else
        bind_result (ok_or (find (\<lambda>u. unit_parent u = None) (src_units inventory)) RewriteInvalidInventory) (\<lambda>root.
          if unit_id root \<notin> retained
             \<or> list_ex (\<lambda>u. unit_id u \<in> retained
                  \<and> (case unit_parent u of None \<Rightarrow> False | Some p \<Rightarrow> p \<notin> retained)) (src_units inventory)
          then Inl RewriteInvalidRetention
          else bind_result (fold_result (check_group retained) (src_units inventory) Map.empty) (\<lambda>_. Inr ())))"

section \<open>Deletions\<close>

definition complete_attributes :: "source_inventory \<Rightarrow> derive_attribute_facts list" where
  "complete_attributes inventory =
     concat (map (\<lambda>facts. case facts of OpaqueDerive _ _ _ \<Rightarrow> [] | CompleteDerive _ attributes _ _ _ \<Rightarrow> attributes)
       (src_derive_targets inventory))"

definition list_elements :: "source_inventory \<Rightarrow> source_unit_id set" where
  "list_elements inventory =
     all_elements (src_macro_repetitions inventory)
     \<union> set (concat (map derive_elements (complete_attributes inventory)))"

text \<open>Dropped units below retained ones, without those a list edits.\<close>

definition at_frontier :: "source_inventory \<Rightarrow> source_unit_id set \<Rightarrow> written_unit \<Rightarrow> bool" where
  "at_frontier inventory retained u \<longleftrightarrow>
     unit_kind u \<noteq> UseLeaf \<and> unit_id u \<notin> list_elements inventory \<and> unit_id u \<notin> retained
     \<and> (case unit_parent u of None \<Rightarrow> False | Some p \<Rightarrow> p \<in> retained)"

definition frontier_deletions ::
  "source_inventory \<Rightarrow> source_unit_id set \<Rightarrow> source_rewrite_error + byte_range list" where
  "frontier_deletions inventory retained =
     map_result
       (\<lambda>u. if br_start (full_range u) = br_end (full_range u) then Inl RewriteInvalidInventory else Inr (full_range u))
       (filter (at_frontier inventory retained) (src_units inventory))"

definition capture_slot_deletions ::
  "source_inventory \<Rightarrow> source_unit_id set \<Rightarrow> nat set \<Rightarrow> macro_capture_slot \<Rightarrow> byte_range list \<times> byte_range list
     \<Rightarrow> source_rewrite_error + byte_range list \<times> byte_range list" where
  "capture_slot_deletions inventory retained piece_boundaries slot = (\<lambda>(inputs, checked).
     if slot_unit slot \<in> retained then Inr (inputs, checked)
     else if list_ex (\<lambda>trigger. trigger \<in> retained) (slot_triggers slot) then Inl RewriteInvalidRetention
     else if slot_rule slot \<notin> retained then
       (if list_ex (\<lambda>i. input_invocation i \<in> retained) (slot_inputs slot) then Inl RewriteInvalidRetention
        else Inr (inputs, checked))
     else
       bind_result (ok_or (unit_at (src_units inventory) (slot_unit slot)) RewriteInvalidInventory) (\<lambda>u.
       bind_result (validate_deletion_range (src_original inventory) (full_range u) piece_boundaries) (\<lambda>_.
         fold_result
           (\<lambda>i (inputs, checked).
             if input_invocation i \<notin> retained then Inr (inputs, checked)
             else
               bind_result
                 (validate_deletion_range (src_original inventory) (input_deletion_range i) piece_boundaries)
                 (\<lambda>_. Inr (inputs @ [input_deletion_range i], checked @ [input_deletion_range i])))
           (slot_inputs slot) (inputs, checked @ [full_range u]))))"

definition macro_capture_input_deletions ::
  "lexer \<Rightarrow> glue \<Rightarrow> source_inventory \<Rightarrow> source_unit_id set \<Rightarrow> nat set \<Rightarrow> source_rewrite_error + byte_range list" where
  "macro_capture_input_deletions tokenize glue inventory retained piece_boundaries =
     bind_result
       (fold_result (capture_slot_deletions inventory retained piece_boundaries)
         (src_macro_capture_slots inventory) ([], []))
       (\<lambda>(inputs, checked).
         let merged = fold merge_deletion (sort checked) []
         in if merged \<noteq> [] \<and> \<not> deletions_preserve_parser_tokens tokenize glue (src_original inventory) merged
            then Inl RewriteInvalidRetention else Inr inputs)"

section \<open>Derive attributes\<close>

definition derive_deletion :: "derive_entry list \<Rightarrow> nat \<Rightarrow> nat \<Rightarrow> source_rewrite_error + byte_range" where
  "derive_deletion layout first stop =
     (let final = stop - 1
      in bind_result
           (if stop < length layout \<or> entry_following (layout ! final) \<noteq> None then
              bind_result (ok_or (entry_following (layout ! final)) RewriteInvalidInventory) (\<lambda>comma.
                Inr (ByteRange (br_start (entry_segment (layout ! first))) (br_end comma)))
            else
              bind_result (ok_or (entry_previous (layout ! first)) RewriteInvalidRetention) (\<lambda>comma.
                Inr (ByteRange (br_start comma) (br_end (entry_segment (layout ! final))))))
           (\<lambda>deletion. if range_is_empty deletion then Inl RewriteInvalidInventory else Inr deletion))"

definition run_stop :: "bool list \<Rightarrow> nat \<Rightarrow> nat" where
  "run_stop kept first = first + length (takeWhile Not (drop first kept))"

lemma run_stop_greater: "first < length kept \<Longrightarrow> \<not> kept ! first \<Longrightarrow> first < run_stop kept first"
  by (simp add: run_stop_def Cons_nth_drop_Suc [symmetric])

function derive_loop ::
  "derive_entry list \<Rightarrow> bool list \<Rightarrow> nat \<Rightarrow> byte_range list \<Rightarrow> source_rewrite_error + byte_range list" where
  "derive_loop layout kept index deletions =
     (if \<not> index < length kept then Inr deletions
      else if kept ! index then derive_loop layout kept (Suc index) deletions
      else
        bind_result (derive_deletion layout index (run_stop kept index)) (\<lambda>deletion.
          derive_loop layout kept (run_stop kept index) (deletions @ [deletion])))"
  by auto
termination
  by (relation "measure (\<lambda>(layout, kept, index, deletions). length kept - index)")
     (auto intro!: diff_less_mono2 run_stop_greater)

declare derive_loop.simps [simp del]

definition rewrite_derive_attribute ::
  "lexer \<Rightarrow> source_inventory \<Rightarrow> derive_attribute_facts \<Rightarrow> source_unit_id set \<Rightarrow> source_rewrite_error + byte_range list" where
  "rewrite_derive_attribute tokenize inventory facts retained =
     bind_result (ok_or (unit_at (src_units inventory) (derive_attribute facts)) RewriteInvalidInventory) (\<lambda>attribute.
     bind_result
       (map_result (\<lambda>e. ok_or (unit_at (src_units inventory) e) RewriteInvalidInventory) (derive_elements facts))
       (\<lambda>elements.
         let retained_count = length (filter (\<lambda>e. unit_id e \<in> retained) elements)
         in if retained_count = length elements then Inr []
            else if retained_count = 0 then Inl RewriteInvalidRetention
            else
              bind_result
                (map_err (\<lambda>_. RewriteInvalidInventory)
                  (derive_attribute_layout tokenize (src_original inventory) (full_range attribute)
                    (map full_range elements))) (\<lambda>layout.
                let by_range = fold (\<lambda>e m. m(full_range e \<mapsto> unit_id e)) elements Map.empty
                in bind_result
                     (map_result
                       (\<lambda>entry. ok_or (map_option (\<lambda>e. e \<in> retained) (by_range (entry_element entry)))
                          RewriteInvalidInventory) layout)
                     (\<lambda>kept. derive_loop layout kept 0 []))))"

section \<open>The rewrite\<close>

definition use_item_deletions ::
  "lexer \<Rightarrow> source_inventory \<Rightarrow> source_unit_id set \<Rightarrow> source_rewrite_error + byte_range list list" where
  "use_item_deletions tokenize inventory retained =
     map_result (\<lambda>item. rewrite_use_item tokenize inventory item retained)
       (filter (\<lambda>u. unit_kind u = UseItem \<and> unit_id u \<in> retained) (src_units inventory))"

definition derive_deletions ::
  "lexer \<Rightarrow> source_inventory \<Rightarrow> source_unit_id set \<Rightarrow> source_rewrite_error + byte_range list list" where
  "derive_deletions tokenize inventory retained =
     map_result (\<lambda>facts. rewrite_derive_attribute tokenize inventory facts retained)
       (filter (\<lambda>facts. derive_attribute facts \<in> retained) (complete_attributes inventory))"

definition rewrite_source ::
  "lexer \<Rightarrow> glue \<Rightarrow> source_inventory \<Rightarrow> source_unit_id set \<Rightarrow> source_rewrite_error + source_rewrite" where
  "rewrite_source tokenize glue inventory retained =
     bind_result (validate_rewrite_inventory tokenize glue inventory) (\<lambda>piece_boundaries.
     bind_result (validate_retention inventory retained) (\<lambda>_.
     bind_result (frontier_deletions inventory retained) (\<lambda>frontier.
     bind_result (use_item_deletions tokenize inventory retained) (\<lambda>uses.
     bind_result (derive_deletions tokenize inventory retained) (\<lambda>derives.
     bind_result (macro_repetition_deletions tokenize glue inventory retained piece_boundaries) (\<lambda>repetitions.
     bind_result (macro_capture_input_deletions tokenize glue inventory retained piece_boundaries) (\<lambda>captures.
       finish_rewrite (src_original inventory)
         (frontier @ concat uses @ concat derives @ repetitions @ captures) piece_boundaries)))))))"

section \<open>A derive attribute loses exactly the dropped elements\<close>

lemma run_stop_bounds: "first \<le> length kept \<Longrightarrow> run_stop kept first \<le> length kept"
  using length_takeWhile_le [of Not "drop first kept"] by (simp add: run_stop_def)

lemma run_stop_dropped:
  assumes "first \<le> k" "k < run_stop kept first" "first < length kept"
  shows "\<not> kept ! k"
proof -
  let ?run = "takeWhile Not (drop first kept)"
  have k: "k - first < length ?run" using assms by (simp add: run_stop_def)
  then have "?run ! (k - first) \<in> set ?run" by (rule nth_mem)
  then have "\<not> ?run ! (k - first)" by (rule set_takeWhileD [THEN conjunct2])
  moreover have "?run ! (k - first) = drop first kept ! (k - first)" by (rule takeWhile_nth [OF k])
  ultimately show ?thesis using assms by simp
qed

definition derive_entries :: "comma_list_segment list \<Rightarrow> byte_range list \<Rightarrow> derive_entry list" where
  "derive_entries segs elements = map2 entry_of (take (length elements) segs) elements"

lemma derive_entries_nth:
  "length elements \<le> length segs \<Longrightarrow> i < length elements \<Longrightarrow> derive_entries segs elements ! i = entry_of (segs ! i) (elements ! i)"
  by (simp add: derive_entries_def)

lemma derive_entries_length: "length elements \<le> length segs \<Longrightarrow> length (derive_entries segs elements) = length elements"
  by (simp add: derive_entries_def)

lemma derive_deletion_cut:
  assumes "segment_chain segs" "length elements \<le> length segs" "first < stop" "stop \<le> length elements"
    and "derive_deletion (derive_entries segs elements) first stop = Inr d"
  shows "cut_range segs first (stop - 1) = Some d"
proof -
  have at: "derive_entries segs elements ! first = entry_of (segs ! first) (elements ! first)"
    "derive_entries segs elements ! (stop - 1) = entry_of (segs ! (stop - 1)) (elements ! (stop - 1))"
    using assms(2-4) by (simp_all add: derive_entries_nth)
  from assms(5) show ?thesis
    unfolding derive_deletion_def Let_def at
    by (auto simp: cut_range_def entry_of_def bind_result_eq_Inr split: if_splits option.splits)
qed

lemma derive_loop_edits:
  assumes chain: "segment_chain segs" "length elements \<le> length segs"
  shows "derive_loop layout kept index ds = Inr ds' \<Longrightarrow> layout = derive_entries segs elements \<Longrightarrow>
    length kept = length elements \<Longrightarrow> index \<le> length kept \<Longrightarrow>
    \<exists>new. ds' = ds @ new
      \<and> (\<forall>k < length kept. if index \<le> k then edited (kept ! k) (segment_range (segs ! k)) new
           else list_all (spares (segment_range (segs ! k))) new)
      \<and> list_all (range_contains (ByteRange (br_start (segment_range (segs ! 0)))
           (br_end (segment_range (segs ! (length segs - 1)))))) new"
proof (induction layout kept index ds rule: derive_loop.induct)
  case (1 layout kept index ds)
  note len = 1(4,5)
  show ?case
  proof (cases "index < length kept")
    case False
    then show ?thesis using 1(3,6) by (subst (asm) derive_loop.simps) (auto simp: edited_def)
  next
    case index: True
    show ?thesis
    proof (cases "kept ! index")
      case True
      with index 1(3) have "derive_loop layout kept (Suc index) ds = Inr ds'" by (simp add: derive_loop.simps)
      with 1(1) [OF _ True] index len obtain new where new: "ds' = ds @ new"
        "\<forall>k < length kept. if Suc index \<le> k then edited (kept ! k) (segment_range (segs ! k)) new
           else list_all (spares (segment_range (segs ! k))) new"
        "list_all (range_contains (ByteRange (br_start (segment_range (segs ! 0)))
           (br_end (segment_range (segs ! (length segs - 1)))))) new"
        by auto
      have "if index \<le> k then edited (kept ! k) (segment_range (segs ! k)) new
           else list_all (spares (segment_range (segs ! k))) new" if "k < length kept" for k
        using new(2) that True by (cases "k = index") (auto simp: edited_def split: if_splits)
      with new show ?thesis by blast
    next
      case False
      let ?stop = "run_stop kept index"
      have stop: "index < ?stop" "?stop \<le> length kept"
        using run_stop_greater [OF index False] run_stop_bounds [of index kept] index by simp_all
      from False index 1(3) obtain d where d: "derive_deletion layout index ?stop = Inr d"
        and rest: "derive_loop layout kept ?stop (ds @ [d]) = Inr ds'"
        by (subst (asm) (2) derive_loop.simps) (auto simp: bind_result_eq_Inr)
      from 1(2) [OF _ False d rest] index len stop obtain new where new: "ds' = (ds @ [d]) @ new"
        "\<forall>k < length kept. if ?stop \<le> k then edited (kept ! k) (segment_range (segs ! k)) new
           else list_all (spares (segment_range (segs ! k))) new"
        "list_all (range_contains (ByteRange (br_start (segment_range (segs ! 0)))
           (br_end (segment_range (segs ! (length segs - 1)))))) new"
        by auto
      have cut: "cut_range segs index (?stop - 1) = Some d"
        by (rule derive_deletion_cut [OF chain]) (use d stop len in auto)
      have seg: "index \<le> ?stop - 1" "?stop - 1 < length segs" using stop len chain(2) by auto
      have each: "if index \<le> k then edited (kept ! k) (segment_range (segs ! k)) (d # new)
           else list_all (spares (segment_range (segs ! k))) (d # new)" if k: "k < length kept" for k
      proof -
        consider "k < index" | "index \<le> k" "k < ?stop" | "?stop \<le> k" by linarith
        then show ?thesis
        proof cases
          case 1
          then have "spares (segment_range (segs ! k)) d"
            using cut_range_spares [OF chain(1) seg cut, of k] seg by (auto simp: spares_def)
          with 1 new(2) k stop show ?thesis by auto
        next
          case 2
          then have "range_contains d (segment_range (segs ! k))"
            by (intro cut_range_covers [OF chain(1) seg cut]) auto
          with 2 run_stop_dropped [OF 2 index] show ?thesis by (simp add: edited_def)
        next
          case 3
          then have "spares (segment_range (segs ! k)) d"
            using cut_range_spares [OF chain(1) seg cut, of k] k len chain(2) stop by (auto simp: spares_def)
          with 3 new(2) k stop show ?thesis by (auto simp: edited_def)
        qed
      qed
      have "list_all (range_contains (ByteRange (br_start (segment_range (segs ! 0)))
           (br_end (segment_range (segs ! (length segs - 1)))))) (d # new)"
        using cut_range_inside [OF chain(1) seg cut] new(3) by (simp add: range_contains_def)
      moreover have "ds' = ds @ (d # new)" using new(1) by simp
      ultimately show ?thesis using each by blast
    qed
  qed
qed

lemma edited_inside:
  "edited keep r ds \<Longrightarrow> range_contains r e \<Longrightarrow> edited keep e ds"
  by (auto simp: edited_def list_all_iff list_ex_iff intro: spares_contained range_contains_trans split: if_splits)

lemma fold_map_entries:
  "distinct (map f xs) \<Longrightarrow> x \<in> set xs \<Longrightarrow> fold (\<lambda>e m. m(f e \<mapsto> g e)) xs m0 (f x) = Some (g x)"
proof (induction xs rule: rev_induct)
  case (snoc y xs)
  then show ?case by (cases "x = y") (auto simp: image_iff)
qed simp

lemma found_units:
  assumes "map_result (\<lambda>e. ok_or (unit_at us e) RewriteInvalidInventory) ids = Inr elements"
  shows "elements = map ((!) us) ids" "map unit_id elements = ids"
proof -
  from assms have "list_all2 (\<lambda>e u. u = us ! e \<and> unit_id u = e) ids elements"
    by (auto simp: map_result_eq_Inr elim!: list_all2_mono)
  then have "elements = map ((!) us) ids \<and> map unit_id elements = ids"
    by (induction rule: list_all2_induct) auto
  then show "elements = map ((!) us) ids" "map unit_id elements = ids" by blast+
qed

text \<open>Either nothing is deleted because every element stays, or the loop runs over the layout.\<close>

lemma rewrite_derive_attribute_Inr:
  assumes "rewrite_derive_attribute tokenize inventory facts retained = Inr ds"
  obtains (nothing) "ds = []" "set (derive_elements facts) \<subseteq> retained"
    | (loop) layout where "\<not> set (derive_elements facts) \<subseteq> retained"
      "derive_attribute_layout tokenize (src_original inventory) (full_range (src_units inventory ! derive_attribute facts))
         (map (\<lambda>i. full_range (src_units inventory ! i)) (derive_elements facts)) = Inr layout"
      "map entry_element layout = map (\<lambda>i. full_range (src_units inventory ! i)) (derive_elements facts) \<Longrightarrow>
       distinct (map (\<lambda>i. full_range (src_units inventory ! i)) (derive_elements facts)) \<Longrightarrow>
         derive_loop layout (map (\<lambda>i. i \<in> retained) (derive_elements facts)) 0 [] = Inr ds"
proof -
  let ?us = "src_units inventory" and ?ids = "derive_elements facts"
  from assms obtain elements where
    els: "map_result (\<lambda>e. ok_or (unit_at ?us e) RewriteInvalidInventory) ?ids = Inr elements"
    by (auto simp: rewrite_derive_attribute_def bind_result_eq_Inr)
  note found = found_units [OF els]
  have ranges: "map full_range elements = map (\<lambda>i. full_range (?us ! i)) ?ids" by (simp add: found(1))
  have count: "length (filter (\<lambda>e. unit_id e \<in> retained) elements) = length elements \<longleftrightarrow> set ?ids \<subseteq> retained"
    unfolding filter_length_all found(2) [symmetric] by (auto simp: list_all_iff)
  show thesis
  proof (cases "set ?ids \<subseteq> retained")
    case True
    with assms els count have "ds = []"
      by (auto simp: rewrite_derive_attribute_def bind_result_eq_Inr Let_def split: if_splits)
    then show thesis using True by (rule nothing)
  next
    case False
    with assms els count obtain layout kept where
      layout: "derive_attribute_layout tokenize (src_original inventory) (full_range (?us ! derive_attribute facts))
         (map full_range elements) = Inr layout"
      and kept: "map_result (\<lambda>entry. ok_or (map_option (\<lambda>e. e \<in> retained)
           (fold (\<lambda>e m. m(full_range e \<mapsto> unit_id e)) elements Map.empty (entry_element entry)))
         RewriteInvalidInventory) layout = Inr kept"
      and run: "derive_loop layout kept 0 [] = Inr ds"
      by (auto simp: rewrite_derive_attribute_def bind_result_eq_Inr Let_def split: if_splits)
    have "kept = map (\<lambda>i. i \<in> retained) ?ids"
      if entries: "map entry_element layout = map (\<lambda>i. full_range (?us ! i)) ?ids"
        and dist: "distinct (map (\<lambda>i. full_range (?us ! i)) ?ids)"
    proof (rule nth_equalityI)
      from kept have all2: "list_all2 (\<lambda>entry k. map_option (\<lambda>e. e \<in> retained)
           (fold (\<lambda>e m. m(full_range e \<mapsto> unit_id e)) elements Map.empty (entry_element entry)) = Some k) layout kept"
        by (auto simp: map_result_eq_Inr elim!: list_all2_mono)
      have len: "length layout = length ?ids" using entries by (metis length_map)
      then show "length kept = length (map (\<lambda>i. i \<in> retained) ?ids)" using list_all2_lengthD [OF all2] by simp
      fix i
      assume "i < length kept"
      then have i: "i < length layout" "i < length ?ids" using list_all2_lengthD [OF all2] len by simp_all
      have el: "entry_element (layout ! i) = full_range (?us ! (?ids ! i))"
        using entries i by (metis nth_map)
      have "fold (\<lambda>e m. m(full_range e \<mapsto> unit_id e)) elements Map.empty (full_range (elements ! i)) = Some (unit_id (elements ! i))"
        by (rule fold_map_entries) (use dist i in \<open>simp_all only: ranges, simp_all add: found(1)\<close>)
      moreover have "elements ! i = ?us ! (?ids ! i)" "unit_id (elements ! i) = ?ids ! i"
        using i found by (simp, metis length_map nth_map)
      ultimately show "kept ! i = map (\<lambda>i. i \<in> retained) ?ids ! i"
        using list_all2_nthD [OF all2 i(1)] i by (simp add: el)
    qed
    with run have "map entry_element layout = map (\<lambda>i. full_range (?us ! i)) ?ids \<Longrightarrow>
       distinct (map (\<lambda>i. full_range (?us ! i)) ?ids) \<Longrightarrow>
         derive_loop layout (map (\<lambda>i. i \<in> retained) ?ids) 0 [] = Inr ds" by simp
    with False layout [unfolded ranges] show thesis by (rule loop)
  qed
qed

lemma rewrite_derive_attribute_edits:
  assumes "rewrite_derive_attribute tokenize inventory facts retained = Inr ds"
  shows "list_all (\<lambda>i. edited (i \<in> retained) (full_range (src_units inventory ! i)) ds) (derive_elements facts)"
    and "lexer_covers tokenize \<Longrightarrow>
      list_all (range_contains (full_range (src_units inventory ! derive_attribute facts))) ds"
proof -
  let ?us = "src_units inventory" and ?ids = "derive_elements facts"
  let ?ranges = "map (\<lambda>i. full_range (?us ! i)) ?ids"
  have "list_all (\<lambda>i. edited (i \<in> retained) (full_range (?us ! i)) ds) ?ids
    \<and> (lexer_covers tokenize \<longrightarrow> list_all (range_contains (full_range (?us ! derive_attribute facts))) ds)"
    using assms
  proof (cases rule: rewrite_derive_attribute_Inr)
    case nothing
    then show ?thesis by (auto simp: list_all_iff edited_def)
  next
    case (loop layout)
    from loop(2) obtain segs where chain: "segment_chain segs" "length ?ranges \<le> length segs"
      and layout: "layout = map2 entry_of (take (length ?ranges) segs) ?ranges"
      and inside: "list_all2 (\<lambda>s e. range_contains (segment_range s) e) (take (length ?ranges) segs) ?ranges"
      and sorted: "sorted_wrt range_before ?ranges"
      and bounds: "lexer_covers tokenize \<Longrightarrow> br_start (full_range (?us ! derive_attribute facts)) \<le> br_start (segment_range (segs ! 0))
        \<and> br_end (segment_range (segs ! (length segs - 1))) \<le> br_end (full_range (?us ! derive_attribute facts))"
      by (rule derive_attribute_layout_Inr) blast
    have entries: "layout = derive_entries segs ?ranges" by (simp only: layout derive_entries_def)
    have "map entry_element layout = ?ranges"
      by (rule nth_equalityI)
        (use chain(2) derive_entries_nth [OF chain(2)] derive_entries_length [OF chain(2)] in
          \<open>simp_all add: entries entry_of_def\<close>)
    moreover have "distinct ?ranges" using range_before_sorted [OF sorted] by (simp add: strict_sorted_iff)
    ultimately have "derive_loop layout (map (\<lambda>i. i \<in> retained) ?ids) 0 [] = Inr ds" by (rule loop(3))
    from derive_loop_edits [OF chain this entries] have
      each: "\<forall>k < length ?ids. edited (map (\<lambda>i. i \<in> retained) ?ids ! k) (segment_range (segs ! k)) ds"
      and within: "list_all (range_contains (ByteRange (br_start (segment_range (segs ! 0)))
           (br_end (segment_range (segs ! (length segs - 1)))))) ds"
      by auto
    have "edited (?ids ! k \<in> retained) (?ranges ! k) ds" if k: "k < length ?ids" for k
    proof (rule edited_inside)
      show "edited (?ids ! k \<in> retained) (segment_range (segs ! k)) ds" using each k by simp
      show "range_contains (segment_range (segs ! k)) (?ranges ! k)"
        using list_all2_nthD2 [OF inside, of k] k chain(2) by simp
    qed
    then have "list_all (\<lambda>i. edited (i \<in> retained) (full_range (?us ! i)) ds) ?ids"
      by (simp add: list_all_length)
    moreover have "list_all (range_contains (full_range (?us ! derive_attribute facts))) ds" if "lexer_covers tokenize"
      using within bounds [OF that] by (auto simp: list_all_iff range_contains_def)
    ultimately show ?thesis by blast
  qed
  then show "list_all (\<lambda>i. edited (i \<in> retained) (full_range (?us ! i)) ds) ?ids"
    "lexer_covers tokenize \<Longrightarrow> list_all (range_contains (full_range (?us ! derive_attribute facts))) ds" by simp_all
qed

end
