(* ===== verification/Rewrite_Source.thy ===== *)
theory Rewrite_Source
  imports Rewrite
begin

text \<open>
  What \<open>rewrite_source\<close> promises: the validated inventory and retained set, the topmost dropped unit
  above every dropped unit, and the refinement of the abstract operation that removes the bytes of
  the dropped units from the text.
\<close>

section \<open>What the validations establish\<close>

lemma validate_rewrite_inventory_Inr:
  assumes "validate_rewrite_inventory tokenize glue inventory = Inr boundaries"
  shows "well_formed_units (src_original inventory) (src_units inventory)"
    and "list_all (\<lambda>u. unit_kind u = UseLeaf \<longrightarrow> leaf_in_use_item (src_units inventory) u) (src_units inventory)"
    and "validate_derive_target_facts (src_units inventory) (src_derive_targets inventory) = Inr ()"
    and "\<exists>expected. validate_repetitions tokenize glue (src_original inventory) (src_units inventory)
      (src_macro_repetitions inventory) expected = Inr ()"
proof -
  from assms have parts: "validate_inventory (src_original inventory) (src_units inventory) (src_pieces inventory) = Inr ()"
    "\<not> list_ex (\<lambda>u. unit_kind u = UseLeaf \<and> \<not> leaf_in_use_item (src_units inventory) u) (src_units inventory)"
    "validate_derive_target_facts (src_units inventory) (src_derive_targets inventory) = Inr ()"
    "validate_declarative_macro_source_facts tokenize glue (src_original inventory) (src_units inventory)
       (src_macro_rules inventory) (src_macro_templates inventory) (src_macro_capture_slots inventory)
       (src_macro_repetitions inventory) = Inr ()"
    by (auto simp: validate_rewrite_inventory_def Let_def bind_result_eq_Inr split: if_splits)
  show "well_formed_units (src_original inventory) (src_units inventory)"
    using parts(1) by (simp add: validate_inventory_Inr)
  show "list_all (\<lambda>u. unit_kind u = UseLeaf \<longrightarrow> leaf_in_use_item (src_units inventory) u) (src_units inventory)"
    using parts(2) by (auto simp: list_all_iff list_ex_iff)
  show "validate_derive_target_facts (src_units inventory) (src_derive_targets inventory) = Inr ()" by (rule parts(3))
  show "\<exists>expected. validate_repetitions tokenize glue (src_original inventory) (src_units inventory)
      (src_macro_repetitions inventory) expected = Inr ()"
    using parts(4) by (auto simp: validate_declarative_macro_source_facts_def bind_result_eq_Inr)
qed

lemma validate_rewrite_inventory_accepts:
  assumes "length (src_original inventory) \<le> u32_max"
    and "validate_inventory (src_original inventory) (src_units inventory) (src_pieces inventory) = Inr ()"
    and "\<not> list_ex (\<lambda>u. unit_kind u = UseLeaf \<and> \<not> leaf_in_use_item (src_units inventory) u) (src_units inventory)"
    and "\<not> list_ex (\<lambda>u. br_start (full_range u) \<notin> piece_boundaries_of inventory
        \<or> br_end (full_range u) \<notin> piece_boundaries_of inventory) (src_units inventory)"
    and "validate_derive_target_facts (src_units inventory) (src_derive_targets inventory) = Inr ()"
    and "validate_declarative_macro_source_facts tokenize glue (src_original inventory) (src_units inventory)
       (src_macro_rules inventory) (src_macro_templates inventory) (src_macro_capture_slots inventory)
       (src_macro_repetitions inventory) = Inr ()"
  shows "validate_rewrite_inventory tokenize glue inventory = Inr (piece_boundaries_of inventory)"
  using assms by (simp add: validate_rewrite_inventory_def try_u32_def Let_def)

lemma dense_distinct: "well_formed_units original us \<Longrightarrow> distinct (map unit_id us)"
proof -
  assume "well_formed_units original us"
  then have "map unit_id us = [0 ..< length us]"
    by (intro nth_equalityI) (simp_all add: well_formed_units_def well_formed_unit_def)
  then show ?thesis by (metis distinct_upt)
qed

text \<open>A retained set that a rewrite accepts.\<close>

definition retention_closed :: "written_unit list \<Rightarrow> source_unit_id set \<Rightarrow> bool" where
  "retention_closed us retained \<longleftrightarrow>
     retained \<subseteq> {..<length us}
     \<and> (\<forall>i < length us. case unit_parent (us ! i) of None \<Rightarrow> i \<in> retained | Some p \<Rightarrow> i \<in> retained \<longrightarrow> p \<in> retained)
     \<and> (\<forall>i < length us. \<forall>j < length us. atomic_group (us ! i) = atomic_group (us ! j) \<longrightarrow> (i \<in> retained \<longleftrightarrow> j \<in> retained))"

definition same_state :: "source_unit_id set \<Rightarrow> written_unit \<Rightarrow> written_unit \<Rightarrow> bool" where
  "same_state retained u v \<longleftrightarrow> (atomic_group u = atomic_group v \<longrightarrow> (unit_id u \<in> retained \<longleftrightarrow> unit_id v \<in> retained))"

definition known_state :: "source_unit_id set \<Rightarrow> (atomic_group_id \<rightharpoonup> bool) \<Rightarrow> written_unit \<Rightarrow> bool" where
  "known_state retained groups u \<longleftrightarrow>
     (case groups (atomic_group u) of None \<Rightarrow> True | Some state \<Rightarrow> state = (unit_id u \<in> retained))"

definition groups_agree :: "source_unit_id set \<Rightarrow> written_unit list \<Rightarrow> (atomic_group_id \<rightharpoonup> bool) \<Rightarrow> bool" where
  "groups_agree retained us groups \<longleftrightarrow>
     (\<forall>u \<in> set us. \<forall>v \<in> set us. same_state retained u v) \<and> (\<forall>u \<in> set us. known_state retained groups u)"

lemma known_state_upd:
  "known_state retained groups u \<Longrightarrow>
     known_state retained (groups(atomic_group u \<mapsto> unit_id u \<in> retained)) v
       \<longleftrightarrow> known_state retained groups v \<and> same_state retained u v"
  by (auto simp: known_state_def same_state_def split: option.splits)

lemma same_state_sym: "same_state retained u v \<longleftrightarrow> same_state retained v u"
  by (auto simp: same_state_def)

lemma groups_agree_Cons:
  "groups_agree retained (u # us) groups \<longleftrightarrow>
     known_state retained groups u \<and> groups_agree retained us (groups(atomic_group u \<mapsto> unit_id u \<in> retained))"
proof (cases "known_state retained groups u")
  case True
  have "same_state retained u u" by (simp add: same_state_def)
  then show ?thesis
    using True same_state_sym unfolding groups_agree_def known_state_upd [OF True] list.set ball_simps by blast
qed (simp add: groups_agree_def)

lemma check_groups:
  "fold_result (check_group retained) us groups =
     (if groups_agree retained us groups
      then Inr (fold (\<lambda>u m. m(atomic_group u \<mapsto> unit_id u \<in> retained)) us groups) else Inl RewriteInvalidRetention)"
proof (induction us arbitrary: groups)
  case Nil
  then show ?case by (simp add: groups_agree_def)
next
  case (Cons u us)
  have "check_group retained u groups =
      (if known_state retained groups u then Inr (groups(atomic_group u \<mapsto> unit_id u \<in> retained))
       else Inl RewriteInvalidRetention)"
    by (auto simp: check_group_def known_state_def Let_def split: option.splits)
  then show ?case using Cons.IH [of "groups(atomic_group u \<mapsto> unit_id u \<in> retained)"]
    by (simp add: groups_agree_Cons del: fun_upd_apply)
qed

lemma decide_retention:
  "(if \<not> bounded then Inl e
    else bind_result (ok_or (Some root) e') (\<lambda>root.
      if f root \<notin> retained \<or> \<not> closed then Inl e
      else bind_result (if agree then Inr groups else Inl e) (\<lambda>_. Inr ()))) =
   (if bounded \<and> (f root \<in> retained \<and> closed) \<and> agree then Inr () else Inl e)"
  by simp

lemma validate_retention_result:
  assumes "well_formed_units original (src_units inventory)"
  shows "validate_retention inventory retained =
    (if retention_closed (src_units inventory) retained then Inr () else Inl RewriteInvalidRetention)"
proof -
  let ?us = "src_units inventory"
  have dense: "unit_id (?us ! i) = i" if "i < length ?us" for i
    using assms that by (simp add: well_formed_units_def well_formed_unit_def)
  from assms obtain r where r: "r < length ?us" "\<forall>i < length ?us. unit_parent (?us ! i) = None \<longleftrightarrow> i = r"
    by (auto simp: well_formed_units_def)
  have root: "find (\<lambda>u. unit_parent u = None) ?us = Some (?us ! r)"
    unfolding find_Some_iff using r by (intro exI [of _ r]) auto
  have parents: "list_ex (\<lambda>u. unit_id u \<in> retained \<and> (case unit_parent u of None \<Rightarrow> False | Some p \<Rightarrow> p \<notin> retained)) ?us
      \<longleftrightarrow> \<not> (\<forall>i < length ?us. case unit_parent (?us ! i) of None \<Rightarrow> True | Some p \<Rightarrow> i \<in> retained \<longrightarrow> p \<in> retained)"
    using dense by (simp add: list_ex_length not_all option.case_eq_if cong: conj_cong)
  have groups: "groups_agree retained ?us Map.empty \<longleftrightarrow>
      (\<forall>i < length ?us. \<forall>j < length ?us. atomic_group (?us ! i) = atomic_group (?us ! j) \<longrightarrow> (i \<in> retained \<longleftrightarrow> j \<in> retained))"
  proof -
    have "same_state retained (?us ! i) (?us ! j) \<longleftrightarrow>
        (atomic_group (?us ! i) = atomic_group (?us ! j) \<longrightarrow> (i \<in> retained \<longleftrightarrow> j \<in> retained))"
      if "i < length ?us" "j < length ?us" for i j
      unfolding same_state_def dense [OF that(1)] dense [OF that(2)] by (rule refl)
    then show ?thesis by (simp add: groups_agree_def known_state_def all_set_conv_all_nth)
  qed
  have tops: "(\<forall>i < length ?us. case unit_parent (?us ! i) of None \<Rightarrow> i \<in> retained | Some p \<Rightarrow> i \<in> retained \<longrightarrow> p \<in> retained)
      \<longleftrightarrow> r \<in> retained \<and> (\<forall>i < length ?us. case unit_parent (?us ! i) of None \<Rightarrow> True | Some p \<Rightarrow> i \<in> retained \<longrightarrow> p \<in> retained)"
  proof (intro iffI conjI allI impI)
    assume a: "\<forall>i < length ?us. case unit_parent (?us ! i) of None \<Rightarrow> i \<in> retained | Some p \<Rightarrow> i \<in> retained \<longrightarrow> p \<in> retained"
    have "unit_parent (?us ! r) = None" using r by blast
    with a [rule_format, OF r(1)] show "r \<in> retained" by simp
    fix i
    assume "i < length ?us"
    from a [rule_format, OF this]
    show "case unit_parent (?us ! i) of None \<Rightarrow> True | Some p \<Rightarrow> i \<in> retained \<longrightarrow> p \<in> retained"
      by (simp split: option.splits)
  next
    fix i
    assume a: "r \<in> retained \<and> (\<forall>i < length ?us. case unit_parent (?us ! i) of None \<Rightarrow> True | Some p \<Rightarrow> i \<in> retained \<longrightarrow> p \<in> retained)"
      and i: "i < length ?us"
    show "case unit_parent (?us ! i) of None \<Rightarrow> i \<in> retained | Some p \<Rightarrow> i \<in> retained \<longrightarrow> p \<in> retained"
      using a [THEN conjunct2, rule_format, OF i] a [THEN conjunct1] r(2) [rule_format, OF i] by (cases "unit_parent (?us ! i)") simp_all
  qed
  show ?thesis
    unfolding validate_retention_def root check_groups retention_closed_def parents groups tops
    by (simp only: decide_retention dense [OF r(1)])
qed

section \<open>Dropped units lie below the frontier\<close>

lemma topmost_dropped:
  assumes "retention_closed us retained" and "rooted us i d" "i \<notin> retained"
  shows "\<exists>t p. ancestor us t i \<and> t < length us \<and> t \<notin> retained \<and> unit_parent (us ! t) = Some p \<and> p \<in> retained"
  using assms(2,3)
proof (induction rule: rooted.induct)
  case (rooted_root i)
  have "case unit_parent (us ! i) of None \<Rightarrow> i \<in> retained | Some p \<Rightarrow> i \<in> retained \<longrightarrow> p \<in> retained"
    using assms(1) rooted_root(1) unfolding retention_closed_def by blast
  with rooted_root show ?case by simp
next
  case (rooted_child i p d)
  show ?case
  proof (cases "p \<in> retained")
    case True
    then show ?thesis using rooted_child by (blast intro: ancestor_self)
  next
    case False
    with rooted_child show ?thesis by (blast intro: ancestor_parent)
  qed
qed

lemma validate_derive_element_Inr:
  "validate_derive_element us target attribute e (previous, st) = Inr st' \<Longrightarrow>
     e < length us \<and> unit_parent (us ! e) = Some attribute"
  by (auto simp: validate_derive_element_def bind_result_eq_Inr split: if_splits)

lemma derive_element_parent:
  assumes "validate_derive_target_facts us targets = Inr ()" and "facts \<in> set targets"
    and "attribute \<in> set (derive_attributes facts)" "e \<in> set (derive_elements attribute)"
  shows "derive_attribute attribute < length us" "e < length us"
    "unit_parent (us ! e) = Some (unit_id (us ! derive_attribute attribute))"
proof -
  from assms(1) obtain st where "fold_result (validate_derive_target us) targets
      \<lparr>attributes_seen = {}, elements_seen = {}, helper_attributes = {}\<rparr> = Inr st"
    by (auto simp: validate_derive_target_facts_def bind_result_eq_Inr split: if_splits)
  from fold_result_step [OF this assms(2)] obtain st1 st2 where "validate_derive_target us facts st1 = Inr st2" by blast
  then obtain target ts0 ts where
    "fold_result (validate_derive_attribute us facts target) (derive_attributes facts) ts0 = Inr ts"
    by (auto simp: validate_derive_target_def bind_result_eq_Inr split: if_splits)
  from fold_result_step [OF this assms(3)] obtain ts1 ts2 where
    "validate_derive_attribute us facts target attribute ts1 = Inr ts2" by blast
  then obtain st3 st4 where in_range: "derive_attribute attribute < length us"
    and "fold_result (validate_derive_element us target (unit_id (us ! derive_attribute attribute)))
      (derive_elements attribute) st3 = Inr st4"
    by (auto simp: validate_derive_attribute_def bind_result_eq_Inr get_at_def split: if_splits)
  from fold_result_step [OF this(2) assms(4)] obtain previous st5 st6 where
    "validate_derive_element us target (unit_id (us ! derive_attribute attribute)) e (previous, st5) = Inr st6" by auto
  from validate_derive_element_Inr [OF this] in_range
  show "derive_attribute attribute < length us" "e < length us"
    "unit_parent (us ! e) = Some (unit_id (us ! derive_attribute attribute))" by simp_all
qed

section \<open>The bytes of the deletions\<close>

definition bytes_of :: "byte_range list \<Rightarrow> nat set" where
  "bytes_of ds = \<Union> (range_bytes ` set ds)"

lemma bytes_of_append [simp]: "bytes_of (xs @ ys) = bytes_of xs \<union> bytes_of ys"
  by (simp add: bytes_of_def)

lemma edited_drop_bytes: "edited False r ds \<Longrightarrow> range_bytes r \<subseteq> bytes_of ds"
  by (auto simp: edited_def list_ex_iff bytes_of_def dest!: range_contains_bytes)

lemma bytes_inside: "list_all (range_contains r) ds \<Longrightarrow> bytes_of ds \<subseteq> range_bytes r"
  by (auto simp: list_all_iff bytes_of_def dest: range_contains_bytes)

lemma bytes_of_concat: "bytes_of (concat dss) = \<Union> (bytes_of ` set dss)"
  by (auto simp: bytes_of_def)

lemma rewrite_source_Inr:
  assumes "rewrite_source tokenize glue inventory retained = Inr rw"
  obtains boundaries frontier uses derives repetitions captures where
    "validate_rewrite_inventory tokenize glue inventory = Inr boundaries"
    "validate_retention inventory retained = Inr ()"
    "frontier_deletions inventory retained = Inr frontier"
    "use_item_deletions tokenize inventory retained = Inr uses"
    "derive_deletions tokenize inventory retained = Inr derives"
    "macro_repetition_deletions tokenize glue inventory retained boundaries = Inr repetitions"
    "macro_capture_input_deletions tokenize glue inventory retained boundaries = Inr captures"
    "finish_rewrite (src_original inventory) (frontier @ concat uses @ concat derives @ repetitions @ captures) boundaries = Inr rw"
  using assms unfolding rewrite_source_def by (auto simp: bind_result_eq_Inr)

text \<open>What the parts of the deletions amount to, in bytes.\<close>

lemma frontier_bytes:
  assumes "frontier_deletions inventory retained = Inr frontier"
  shows "bytes_of frontier = (\<Union>u \<in> {u \<in> set (src_units inventory). at_frontier inventory retained u}. range_bytes (full_range u))"
proof -
  let ?us = "filter (at_frontier inventory retained) (src_units inventory)"
  from assms have "list_all2 (\<lambda>u d. d = full_range u) ?us frontier"
    unfolding frontier_deletions_def map_result_eq_Inr
    by (elim list_all2_mono) (simp split: if_splits)
  then have "frontier = map full_range ?us" by (simp add: list_all2_eq list_all2_map1 list_all2_map2) (induction rule: list_all2_induct, auto)
  then show ?thesis by (auto simp: bytes_of_def)
qed

lemma map_result_member:
  assumes "map_result f xs = Inr ys" "x \<in> set xs"
  obtains y where "y \<in> set ys" "f x = Inr y"
proof -
  from assms(2) obtain i where i: "i < length xs" "x = xs ! i" by (auto simp: in_set_conv_nth)
  from assms(1) have l: "list_all2 (\<lambda>x y. f x = Inr y) xs ys" by (simp add: map_result_eq_Inr)
  from list_all2_nthD [OF l i(1)] list_all2_lengthD [OF l] i that [of "ys ! i"] show thesis by simp
qed

lemma map_result_image:
  assumes "map_result f xs = Inr ys" "y \<in> set ys"
  obtains x where "x \<in> set xs" "f x = Inr y"
proof -
  from assms(2) obtain i where i: "i < length ys" "y = ys ! i" by (auto simp: in_set_conv_nth)
  from assms(1) have l: "list_all2 (\<lambda>x y. f x = Inr y) xs ys" by (simp add: map_result_eq_Inr)
  from list_all2_nthD2 [OF l i(1)] list_all2_lengthD [OF l] i that [of "xs ! i"] show thesis by simp
qed

section \<open>The lists a rewrite edits\<close>

definition edited_use_items :: "source_inventory \<Rightarrow> source_unit_id set \<Rightarrow> byte_range list" where
  "edited_use_items inventory retained =
     map full_range (filter (\<lambda>item. unit_kind item = UseItem \<and> unit_id item \<in> retained
         \<and> list_ex (\<lambda>leaf. unit_kind leaf = UseLeaf \<and> unit_parent leaf = Some (unit_id item) \<and> unit_id leaf \<notin> retained)
             (src_units inventory))
       (src_units inventory))"

definition edited_derives :: "source_inventory \<Rightarrow> source_unit_id set \<Rightarrow> byte_range list" where
  "edited_derives inventory retained =
     map (\<lambda>a. full_range (src_units inventory ! derive_attribute a))
       (filter (\<lambda>a. derive_attribute a \<in> retained \<and> list_ex (\<lambda>e. e \<notin> retained) (derive_elements a))
         (complete_attributes inventory))"

definition edited_repetitions :: "source_inventory \<Rightarrow> source_unit_id set \<Rightarrow> byte_range list" where
  "edited_repetitions inventory retained =
     map rep_input_range (filter (\<lambda>r. rep_parent r \<in> retained \<and> list_ex (\<lambda>e. e \<notin> retained) (element_units r))
       (src_macro_repetitions inventory))"

definition slot_cuts :: "source_unit_id set \<Rightarrow> macro_capture_slot \<Rightarrow> byte_range list" where
  "slot_cuts retained slot =
     (if slot_unit slot \<in> retained then []
      else map input_deletion_range (filter (\<lambda>i. input_invocation i \<in> retained) (slot_inputs slot)))"

definition edited_captures :: "source_inventory \<Rightarrow> source_unit_id set \<Rightarrow> byte_range list" where
  "edited_captures inventory retained = concat (map (slot_cuts retained) (src_macro_capture_slots inventory))"

definition edited_ranges :: "source_inventory \<Rightarrow> source_unit_id set \<Rightarrow> byte_range list" where
  "edited_ranges inventory retained =
     edited_use_items inventory retained @ edited_derives inventory retained
     @ edited_repetitions inventory retained @ edited_captures inventory retained"

definition dropped_ranges :: "source_inventory \<Rightarrow> source_unit_id set \<Rightarrow> byte_range list" where
  "dropped_ranges inventory retained = map full_range (filter (\<lambda>u. unit_id u \<notin> retained) (src_units inventory))"

lemma slot_inputs_fold:
  "fold_result
     (\<lambda>i (inputs, checked).
       if input_invocation i \<notin> retained then Inr (inputs, checked)
       else
         bind_result (validate_deletion_range source (input_deletion_range i) boundaries)
           (\<lambda>_. Inr (inputs @ [input_deletion_range i], checked @ [input_deletion_range i])))
     is (inputs, checked) = Inr (inputs', checked') \<Longrightarrow>
   inputs' = inputs @ map input_deletion_range (filter (\<lambda>i. input_invocation i \<in> retained) is)"
proof (induction "is" arbitrary: inputs checked)
  case (Cons i "is")
  note IH = Cons.IH [of "if input_invocation i \<in> retained then inputs @ [input_deletion_range i] else inputs"
      "if input_invocation i \<in> retained then checked @ [input_deletion_range i] else checked"]
  show ?case
    using IH Cons.prems by (cases "input_invocation i \<in> retained") (auto simp: bind_result_eq_Inr)
qed simp

lemma capture_slot_cuts:
  assumes "capture_slot_deletions inventory retained boundaries slot (inputs, checked) = Inr (inputs', checked')"
  shows "inputs' = inputs @ slot_cuts retained slot"
proof -
  consider "slot_unit slot \<in> retained" "inputs' = inputs"
    | "slot_unit slot \<notin> retained" "\<not> list_ex (\<lambda>i. input_invocation i \<in> retained) (slot_inputs slot)" "inputs' = inputs"
    | checked0 where "slot_unit slot \<notin> retained"
      "fold_result
         (\<lambda>i (inputs, checked).
           if input_invocation i \<notin> retained then Inr (inputs, checked)
           else
             bind_result (validate_deletion_range (src_original inventory) (input_deletion_range i) boundaries)
               (\<lambda>_. Inr (inputs @ [input_deletion_range i], checked @ [input_deletion_range i])))
         (slot_inputs slot) (inputs, checked0) = Inr (inputs', checked')"
    using assms by (auto simp: capture_slot_deletions_def bind_result_eq_Inr split: if_splits)
  then show ?thesis
  proof cases
    case 3
    from slot_inputs_fold [OF 3(2)] 3(1) show ?thesis by (simp add: slot_cuts_def)
  qed (auto simp: slot_cuts_def list_ex_iff filter_empty_conv)
qed

lemma capture_slots_fold:
  "fold_result (capture_slot_deletions inventory retained boundaries) slots (inputs, checked) = Inr (inputs', checked') \<Longrightarrow>
     inputs' = inputs @ concat (map (slot_cuts retained) slots)"
proof (induction slots arbitrary: inputs checked)
  case (Cons slot slots)
  from Cons.prems obtain inputs1 checked1 where
    one: "capture_slot_deletions inventory retained boundaries slot (inputs, checked) = Inr (inputs1, checked1)"
    and more: "fold_result (capture_slot_deletions inventory retained boundaries) slots (inputs1, checked1) = Inr (inputs', checked')"
    by (auto simp: bind_result_eq_Inr)
  from capture_slot_cuts [OF one] Cons.IH [OF more] show ?case by simp
qed simp

lemma capture_deletions_cuts:
  assumes "macro_capture_input_deletions tokenize glue inventory retained boundaries = Inr captures"
  shows "captures = edited_captures inventory retained"
proof -
  from assms obtain checked where
    "fold_result (capture_slot_deletions inventory retained boundaries) (src_macro_capture_slots inventory) ([], [])
      = Inr (captures, checked)"
    by (auto simp: macro_capture_input_deletions_def bind_result_eq_Inr Let_def split: if_splits)
  from capture_slots_fold [OF this] show ?thesis by (simp add: edited_captures_def)
qed

lemma use_deletion_bytes:
  assumes "lexer_covers tokenize" "distinct (map unit_id (src_units inventory))"
    and "use_item_deletions tokenize inventory retained = Inr uses"
  shows "bytes_of (concat uses) \<subseteq> bytes_of (edited_use_items inventory retained)"
proof -
  have "bytes_of ds \<subseteq> bytes_of (edited_use_items inventory retained)" if "ds \<in> set uses" for ds
  proof -
    from assms(3) that obtain item where item: "item \<in> set (src_units inventory)" "unit_kind item = UseItem"
      "unit_id item \<in> retained" and ds: "rewrite_use_item tokenize inventory item retained = Inr ds"
      unfolding use_item_deletions_def by (elim map_result_image) auto
    show ?thesis
    proof (cases "list_all (\<lambda>leaf. unit_id leaf \<in> retained) (use_leaves (src_units inventory) item)")
      case True
      then have "ds = []" using ds by (auto simp: rewrite_use_item_def Let_def filter_length_all split: if_splits)
      then show ?thesis by (simp add: bytes_of_def)
    next
      case False
      then have "full_range item \<in> set (edited_use_items inventory retained)"
        using item by (auto simp: edited_use_items_def use_leaves_def list_all_iff list_ex_iff)
      moreover have "bytes_of ds \<subseteq> range_bytes (full_range item)"
        by (rule bytes_inside [OF rewrite_use_item_inside [OF assms(1,2) ds]])
      ultimately show ?thesis by (auto simp: bytes_of_def)
    qed
  qed
  then show ?thesis by (auto simp: bytes_of_concat)
qed

lemma derive_deletion_bytes:
  assumes "lexer_covers tokenize" "derive_deletions tokenize inventory retained = Inr derives"
  shows "bytes_of (concat derives) \<subseteq> bytes_of (edited_derives inventory retained)"
proof -
  have "bytes_of ds \<subseteq> bytes_of (edited_derives inventory retained)" if "ds \<in> set derives" for ds
  proof -
    from assms(2) that obtain a where a: "a \<in> set (complete_attributes inventory)" "derive_attribute a \<in> retained"
      and ds: "rewrite_derive_attribute tokenize inventory a retained = Inr ds"
      unfolding derive_deletions_def by (elim map_result_image) auto
    show ?thesis
    proof (cases "set (derive_elements a) \<subseteq> retained")
      case True
      have "ds = []" using ds
        by (cases rule: rewrite_derive_attribute_Inr) (use True in auto)
      then show ?thesis by (simp add: bytes_of_def)
    next
      case False
      then have "full_range (src_units inventory ! derive_attribute a) \<in> set (edited_derives inventory retained)"
        using a by (auto simp: edited_derives_def list_ex_iff)
      moreover have "bytes_of ds \<subseteq> range_bytes (full_range (src_units inventory ! derive_attribute a))"
        by (rule bytes_inside [OF rewrite_derive_attribute_edits(2) [OF ds assms(1)]])
      ultimately show ?thesis by (auto simp: bytes_of_def)
    qed
  qed
  then show ?thesis by (auto simp: bytes_of_concat)
qed

lemma repetition_deletion_bytes:
  assumes "macro_repetition_deletions tokenize glue inventory retained boundaries = Inr merged"
    and "\<And>r. r \<in> set (src_macro_repetitions inventory) \<Longrightarrow> placed_elements (src_units inventory) r"
  shows "bytes_of merged \<subseteq> bytes_of (edited_repetitions inventory retained)"
    and "r \<in> set (src_macro_repetitions inventory) \<Longrightarrow> rep_parent r \<in> retained \<Longrightarrow> i \<in> set (element_units r) \<Longrightarrow>
      i \<notin> retained \<Longrightarrow> range_bytes (full_range (src_units inventory ! i)) \<subseteq> bytes_of merged"
proof -
  let ?reps = "src_macro_repetitions inventory"
  from assms(1) obtain plans where
    plans: "list_all2 (\<lambda>r ds. plan_macro_repetition_deletions inventory retained r = Inr ds) ?reps plans"
    and "\<Union> (range_bytes ` set merged) = \<Union> (range_bytes ` set (concat plans))"
    by (rule macro_repetition_deletions_bytes)
  then have merged: "bytes_of merged = \<Union> (bytes_of ` set plans)"
    by (simp only: bytes_of_concat [symmetric]) (simp only: bytes_of_def)
  have result: "map_result (plan_macro_repetition_deletions inventory retained) ?reps = Inr plans"
    using plans by (simp add: map_result_eq_Inr)
  have "bytes_of ds \<subseteq> bytes_of (edited_repetitions inventory retained)" if "ds \<in> set plans" for ds
  proof -
    from result that obtain r where r: "r \<in> set ?reps" "plan_macro_repetition_deletions inventory retained r = Inr ds"
      by (rule map_result_image)
    show ?thesis
    proof (cases "rep_parent r \<in> retained \<and> \<not> set (element_units r) \<subseteq> retained")
      case True
      then have "rep_input_range r \<in> set (edited_repetitions inventory retained)"
        using r(1) by (auto simp: edited_repetitions_def list_ex_iff)
      moreover have "bytes_of ds \<subseteq> range_bytes (rep_input_range r)"
        using plan_edits(2) [OF assms(2) [OF r(1)] r(2)] True by (intro bytes_inside) simp
      ultimately show ?thesis by (auto simp: bytes_of_def)
    next
      case False
      have "ds = []"
      proof (cases "rep_parent r \<in> retained")
        case True
        with False plan_all_retained [OF r(2) True] show ?thesis by blast
      next
        case False
        then show ?thesis using r(2) by (simp add: plan_macro_repetition_deletions_def)
      qed
      then show ?thesis by (simp add: bytes_of_def)
    qed
  qed
  then show "bytes_of merged \<subseteq> bytes_of (edited_repetitions inventory retained)" by (auto simp: merged)
  assume r: "r \<in> set ?reps" "rep_parent r \<in> retained" and i: "i \<in> set (element_units r)" "i \<notin> retained"
  from result r(1) obtain ds where ds: "ds \<in> set plans" "plan_macro_repetition_deletions inventory retained r = Inr ds"
    by (rule map_result_member)
  from plan_edits(1) [OF assms(2) [OF r(1)] ds(2) r(2)] i
  have "edited False (full_range (src_units inventory ! i)) ds" by (auto simp: list_all_iff)
  from edited_drop_bytes [OF this] ds(1) show "range_bytes (full_range (src_units inventory ! i)) \<subseteq> bytes_of merged"
    by (auto simp: merged)
qed

lemma list_element_deleted:
  assumes inventory: "validate_rewrite_inventory tokenize glue inventory = Inr boundaries"
    and derives: "derive_deletions tokenize inventory retained = Inr derives"
    and repetitions: "macro_repetition_deletions tokenize glue inventory retained boundaries = Inr repetitions"
    and t: "t \<in> list_elements inventory" "t \<notin> retained" "unit_parent (src_units inventory ! t) = Some p" "p \<in> retained"
  shows "range_bytes (full_range (src_units inventory ! t)) \<subseteq> bytes_of (concat derives) \<union> bytes_of repetitions"
proof -
  let ?us = "src_units inventory"
  note valid = validate_rewrite_inventory_Inr [OF inventory]
  from valid(4) obtain expected where
    reps: "validate_repetitions tokenize glue (src_original inventory) ?us (src_macro_repetitions inventory) expected = Inr ()"
    by blast
  note placed = validated_elements_placed [OF reps valid(1)]
  from t(1) consider
      (repetition) r where "r \<in> set (src_macro_repetitions inventory)" "t \<in> set (element_units r)"
    | (derive) a where "a \<in> set (complete_attributes inventory)" "t \<in> set (derive_elements a)"
    by (auto simp: list_elements_def all_elements_def element_units_def)
  then show ?thesis
  proof cases
    case (repetition r)
    with placed [OF repetition(1)] have "unit_parent (?us ! t) = Some (rep_parent r)"
      by (simp add: placed_elements_def list_all_iff)
    with t have "rep_parent r \<in> retained" by simp
    from repetition_deletion_bytes(2) [OF repetitions placed repetition(1) this repetition(2) t(2)] show ?thesis by blast
  next
    case (derive a)
    then obtain facts where facts: "facts \<in> set (src_derive_targets inventory)" "a \<in> set (derive_attributes facts)"
      by (auto simp: complete_attributes_def split: derive_target_facts.splits)
    note parent = derive_element_parent [OF valid(3) facts derive(2)]
    have "unit_id (?us ! derive_attribute a) = derive_attribute a"
      using valid(1) parent(1) by (simp add: well_formed_units_def well_formed_unit_def)
    with parent(3) t have "derive_attribute a \<in> retained" by simp
    with derive(1) have "a \<in> set (filter (\<lambda>a. derive_attribute a \<in> retained) (complete_attributes inventory))" by simp
    from map_result_member [OF derives [unfolded derive_deletions_def] this] obtain ds where
      ds: "ds \<in> set derives" "rewrite_derive_attribute tokenize inventory a retained = Inr ds" .
    from rewrite_derive_attribute_edits(1) [OF ds(2)] derive(2) t(2)
    have "edited False (full_range (?us ! t)) ds" by (auto simp: list_all_iff)
    from edited_drop_bytes [OF this] ds(1) show ?thesis by (auto simp: bytes_of_concat)
  qed
qed

lemma use_leaf_deleted:
  assumes inventory: "validate_rewrite_inventory tokenize glue inventory = Inr boundaries"
    and uses: "use_item_deletions tokenize inventory retained = Inr uses"
    and t: "t < length (src_units inventory)" "unit_kind (src_units inventory ! t) = UseLeaf" "t \<notin> retained"
    and p: "unit_parent (src_units inventory ! t) = Some p" "p < length (src_units inventory)" "p \<in> retained"
  shows "range_bytes (full_range (src_units inventory ! t)) \<subseteq> bytes_of (concat uses)"
proof -
  let ?us = "src_units inventory"
  note valid = validate_rewrite_inventory_Inr [OF inventory]
  have dense: "unit_id (?us ! i) = i" if "i < length ?us" for i
    using valid(1) that by (simp add: well_formed_units_def well_formed_unit_def)
  have "leaf_in_use_item ?us (?us ! t)" using valid(2) t by (simp add: list_all_iff)
  with p dense have "?us ! p \<in> set (filter (\<lambda>u. unit_kind u = UseItem \<and> unit_id u \<in> retained) ?us)"
    by (simp add: leaf_in_use_item_def)
  from map_result_member [OF uses [unfolded use_item_deletions_def] this] obtain ds where
    ds: "ds \<in> set uses" "rewrite_use_item tokenize inventory (?us ! p) retained = Inr ds" .
  have "distinct (map unit_id ?us)" by (rule dense_distinct [OF valid(1)])
  from rewrite_use_item_edits [OF ds(2) this nth_mem [OF t(1)] t(2)] p dense t
  have "edited False (full_range (?us ! t)) ds" by simp
  from edited_drop_bytes [OF this] ds(1) show ?thesis by (auto simp: bytes_of_concat)
qed

section \<open>The rewrite refines the removal of bytes\<close>

text \<open>The abstract operation: the text without a set of offsets.\<close>

definition kept_positions :: "bytes \<Rightarrow> nat set \<Rightarrow> nat list" where
  "kept_positions source deleted = filter (\<lambda>i. i \<notin> deleted) [0 ..< length source]"

definition text_without :: "bytes \<Rightarrow> nat set \<Rightarrow> bytes" where
  "text_without source deleted = map ((!) source) (kept_positions source deleted)"

lemma dropped_unit_deleted:
  assumes inventory: "validate_rewrite_inventory tokenize glue inventory = Inr boundaries"
    and retention: "validate_retention inventory retained = Inr ()"
    and frontier: "frontier_deletions inventory retained = Inr frontier"
    and uses: "use_item_deletions tokenize inventory retained = Inr uses"
    and derives: "derive_deletions tokenize inventory retained = Inr derives"
    and repetitions: "macro_repetition_deletions tokenize glue inventory retained boundaries = Inr repetitions"
    and i: "i < length (src_units inventory)" "i \<notin> retained"
  shows "range_bytes (full_range (src_units inventory ! i))
    \<subseteq> bytes_of (frontier @ concat uses @ concat derives @ repetitions)"
proof -
  let ?us = "src_units inventory"
  note valid = validate_rewrite_inventory_Inr [OF inventory]
  have closed: "retention_closed ?us retained"
    using retention validate_retention_result [OF valid(1)] by (simp split: if_splits)
  from valid(1) i(1) obtain d where "rooted ?us i d" by (auto simp: well_formed_units_def)
  from topmost_dropped [OF closed this i(2)] obtain t p where
    t: "ancestor ?us t i" "t < length ?us" "t \<notin> retained" and p: "unit_parent (?us ! t) = Some p" "p \<in> retained"
    by blast
  have p_bound: "p < length ?us" using closed p(2) by (auto simp: retention_closed_def)
  have dense: "unit_id (?us ! t) = t" using valid(1) t(2) by (simp add: well_formed_units_def well_formed_unit_def)
  have "range_bytes (full_range (?us ! t)) \<subseteq> bytes_of (frontier @ concat uses @ concat derives @ repetitions)"
  proof (cases "unit_kind (?us ! t) = UseLeaf")
    case True
    from use_leaf_deleted [OF inventory uses t(2) True t(3) p(1) p_bound p(2)] show ?thesis by auto
  next
    case False
    show ?thesis
    proof (cases "t \<in> list_elements inventory")
      case True
      from list_element_deleted [OF inventory derives repetitions True t(3) p] show ?thesis by auto
    next
      case no_element: False
      have "?us ! t \<in> {u \<in> set ?us. at_frontier inventory retained u}"
        using t p dense False no_element by (simp add: at_frontier_def)
      then have "range_bytes (full_range (?us ! t)) \<subseteq> bytes_of frontier"
        unfolding frontier_bytes [OF frontier] by blast
      then show ?thesis by auto
    qed
  qed
  moreover have "range_bytes (full_range (?us ! i)) \<subseteq> range_bytes (full_range (?us ! t))"
    using ancestor_range [OF valid(1) t(1)] by (simp add: range_contains_bytes)
  ultimately show ?thesis by (rule order_trans [rotated])
qed

lemma deletions_bounded:
  assumes covers: "lexer_covers tokenize"
    and inventory: "validate_rewrite_inventory tokenize glue inventory = Inr boundaries"
    and frontier: "frontier_deletions inventory retained = Inr frontier"
    and uses: "use_item_deletions tokenize inventory retained = Inr uses"
    and derives: "derive_deletions tokenize inventory retained = Inr derives"
    and repetitions: "macro_repetition_deletions tokenize glue inventory retained boundaries = Inr repetitions"
    and captures: "macro_capture_input_deletions tokenize glue inventory retained boundaries = Inr captures"
  shows "bytes_of (frontier @ concat uses @ concat derives @ repetitions @ captures)
    \<subseteq> bytes_of (dropped_ranges inventory retained @ edited_ranges inventory retained)"
proof -
  note valid = validate_rewrite_inventory_Inr [OF inventory]
  from valid(4) obtain expected where "validate_repetitions tokenize glue (src_original inventory) (src_units inventory)
      (src_macro_repetitions inventory) expected = Inr ()" by blast
  note placed = validated_elements_placed [OF this valid(1)]
  have "bytes_of frontier \<subseteq> bytes_of (dropped_ranges inventory retained)"
    unfolding frontier_bytes [OF frontier] by (auto simp: at_frontier_def dropped_ranges_def bytes_of_def)
  moreover note use_deletion_bytes [OF covers dense_distinct [OF valid(1)] uses]
    derive_deletion_bytes [OF covers derives] repetition_deletion_bytes(1) [OF repetitions placed]
  moreover have "bytes_of captures = bytes_of (edited_captures inventory retained)"
    by (simp add: capture_deletions_cuts [OF captures])
  ultimately show ?thesis unfolding edited_ranges_def bytes_of_append by blast
qed

text \<open>C1. A successful rewrite refines the removal of bytes: its output is the original text without a set of
  offsets, which the piece map lists, and this set contains every byte of every unit that is not
  retained and nothing but such bytes and, where a retained use item, derive attribute or repetition loses
  elements or a macro call loses an argument, bytes of this list.\<close>

theorem rewrite_source_refines:
  assumes "lexer_covers tokenize" and "rewrite_source tokenize glue inventory retained = Inr rw"
  shows "\<exists>deleted. bytes_of (dropped_ranges inventory retained) \<subseteq> deleted
    \<and> deleted \<subseteq> bytes_of (dropped_ranges inventory retained) \<union> bytes_of (edited_ranges inventory retained)
    \<and> rw_source rw = text_without (src_original inventory) deleted
    \<and> piece_offsets (rw_pieces rw) = kept_positions (src_original inventory) deleted
    \<and> well_mapped rw \<and> rw_original_len rw = length (src_original inventory)"
  using assms(2)
proof (rule rewrite_source_Inr)
  fix boundaries frontier uses derives repetitions captures
  assume parts: "validate_rewrite_inventory tokenize glue inventory = Inr boundaries"
    "validate_retention inventory retained = Inr ()"
    "frontier_deletions inventory retained = Inr frontier"
    "use_item_deletions tokenize inventory retained = Inr uses"
    "derive_deletions tokenize inventory retained = Inr derives"
    "macro_repetition_deletions tokenize glue inventory retained boundaries = Inr repetitions"
    "macro_capture_input_deletions tokenize glue inventory retained boundaries = Inr captures"
    and finish: "finish_rewrite (src_original inventory)
      (frontier @ concat uses @ concat derives @ repetitions @ captures) boundaries = Inr rw"
  let ?ds = "frontier @ concat uses @ concat derives @ repetitions @ captures"
  have kept: "kept_offsets (length (src_original inventory)) ?ds = kept_positions (src_original inventory) (bytes_of ?ds)"
    unfolding kept_offsets_def kept_positions_def by (rule filter_cong) (auto simp: bytes_of_def)
  have dense: "unit_id (src_units inventory ! i) = i" if "i < length (src_units inventory)" for i
    using validate_rewrite_inventory_Inr(1) [OF parts(1)] that by (simp add: well_formed_units_def well_formed_unit_def)
  have "bytes_of (dropped_ranges inventory retained) \<subseteq> bytes_of (frontier @ concat uses @ concat derives @ repetitions)"
  proof
    fix x
    assume "x \<in> bytes_of (dropped_ranges inventory retained)"
    then obtain u where u: "u \<in> set (src_units inventory)" "unit_id u \<notin> retained" "x \<in> range_bytes (full_range u)"
      by (auto simp: dropped_ranges_def bytes_of_def)
    from u(1) obtain i where i: "i < length (src_units inventory)" "u = src_units inventory ! i" by (auto simp: in_set_conv_nth)
    then have "i \<notin> retained" using u(2) dense by simp
    from dropped_unit_deleted [OF parts(1-6) i(1) this] u(3) i(2)
    show "x \<in> bytes_of (frontier @ concat uses @ concat derives @ repetitions)" by blast
  qed
  then have "bytes_of (dropped_ranges inventory retained) \<subseteq> bytes_of ?ds" by auto
  with deletions_bounded [OF assms(1) parts(1,3-7)] finish_rewrite_Inr [OF finish] show ?thesis
    by (intro exI [of _ "bytes_of ?ds"]) (simp add: kept text_without_def)
qed

text \<open>C38. The retained set is validated exactly: on a well-formed tree a set is accepted precisely when it
  only names units, holds the root, is closed under parents and takes every atomic group as a whole.\<close>

theorem validate_retention_exact:
  assumes "well_formed_units (src_original inventory) (src_units inventory)"
  shows "validate_retention inventory retained =
    (if retention_closed (src_units inventory) retained then Inr () else Inl RewriteInvalidRetention)"
  by (rule validate_retention_result [OF assms])

section \<open>A rewrite\<close>

lemmas sample_unfold = sample_use_inventory_def sample_use_unit_def

lemma sample_use_valid:
  "validate_inventory (src_original sample_use_inventory) (src_units sample_use_inventory) (src_pieces sample_use_inventory) = Inr ()"
  by (simp add: sample_unfold validate_inventory_def validate_units_def validate_unit_def unit_depths_def parent_walk.simps
      range_contains_def get_at_def u32_max_def is_char_boundary_def continuation_byte_def)

lemmas chain_evaluation =
  chain_values_def chain_walk.simps resolve_path_def parent_step_def unit_at_def get_at_def upt_rec numeral_eq_Suc

lemma sample_use_tables:
  "validate_declarative_macro_source_facts byte_lexer (\<lambda>_ _. None) (src_original sample_use_inventory)
     (src_units sample_use_inventory) [] [] [] [] = Inr ()"
proof -
  have "declarative_unit_census (src_units sample_use_inventory)
      = Inr \<lparr>census_kinds = [None, None, None, None], template_units = {}, matcher_units = {}\<rparr>"
    by (simp add: sample_unfold declarative_unit_census_def chain_evaluation census_step_def census_unit_def)
  moreover have "nearest_macro_rule_ancestors (src_units sample_use_inventory) = Inr [None, None, None, None]"
    by (simp add: sample_unfold nearest_macro_rule_ancestors_def chain_evaluation ancestor_step_def)
  moreover have "validate_macro_rule_facts (src_units sample_use_inventory) [] = Inr ()"
    by (simp add: sample_unfold validate_macro_rule_facts_def)
  ultimately show ?thesis
    by (simp add: validate_declarative_macro_source_facts_def validate_refined_rule_links_def validate_templates_def
        validate_capture_slots_def validate_repetitions_def all_elements_def sequences_disjoint_def)
qed

lemma sample_use_rewritten:
  "\<exists>rw. rewrite_source byte_lexer (\<lambda>_ _. None) sample_use_inventory {0, 1, 3} = Inr rw \<and> rw_source rw = [123, 98, 125]"
proof -
  let ?inv = sample_use_inventory and ?retained = "{0, 1, 3} :: nat set" and ?boundaries = "{0, 1, 2, 3, 4, 5} :: nat set"
  have lens: "length (src_original ?inv) = 5" "src_derive_targets ?inv = []" "src_macro_repetitions ?inv = []"
    "src_macro_capture_slots ?inv = []" "src_macro_rules ?inv = []" "src_macro_templates ?inv = []"
    by (simp_all add: sample_unfold)
  have boundaries: "piece_boundaries_of ?inv = ?boundaries" by (auto simp: sample_unfold piece_boundaries_of_def)
  have inventory: "validate_rewrite_inventory byte_lexer (\<lambda>_ _. None) ?inv = Inr (piece_boundaries_of ?inv)"
  proof (rule validate_rewrite_inventory_accepts)
    show "\<not> list_ex (\<lambda>u. unit_kind u = UseLeaf \<and> \<not> leaf_in_use_item (src_units ?inv) u) (src_units ?inv)"
      by (simp add: sample_unfold leaf_in_use_item_def)
    show "\<not> list_ex (\<lambda>u. br_start (full_range u) \<notin> piece_boundaries_of ?inv \<or> br_end (full_range u) \<notin> piece_boundaries_of ?inv)
        (src_units ?inv)"
      unfolding boundaries by (simp add: sample_unfold)
    show "validate_derive_target_facts (src_units ?inv) (src_derive_targets ?inv) = Inr ()"
      by (simp add: lens validate_derive_target_facts_def)
  qed (use sample_use_valid sample_use_tables in \<open>simp_all add: lens u32_max_def\<close>)
  have retention: "validate_retention ?inv ?retained = Inr ()"
    by (simp add: sample_unfold validate_retention_def check_group_def)
  have frontier: "frontier_deletions ?inv ?retained = Inr []"
    by (simp add: sample_unfold frontier_deletions_def at_frontier_def list_elements_def all_elements_def complete_attributes_def)
  have "filter (\<lambda>u. unit_kind u = UseItem \<and> unit_id u \<in> ?retained) (src_units ?inv) = [src_units ?inv ! 1]"
    by (simp add: sample_unfold)
  then have uses: "use_item_deletions byte_lexer ?inv ?retained = Inr [[ByteRange 1 3]]"
    unfolding use_item_deletions_def using sample_use_rewrite by simp
  have derives: "derive_deletions byte_lexer ?inv ?retained = Inr []"
    by (simp add: lens derive_deletions_def complete_attributes_def)
  have repetitions: "macro_repetition_deletions byte_lexer (\<lambda>_ _. None) ?inv ?retained ?boundaries = Inr []"
    by (simp add: lens macro_repetition_deletions_def merge_deletions_def)
  have captures: "macro_capture_input_deletions byte_lexer (\<lambda>_ _. None) ?inv ?retained ?boundaries = Inr []"
    by (simp add: lens macro_capture_input_deletions_def)
  have "validate_deletion_range (src_original ?inv) (ByteRange 1 3) ?boundaries = Inr ()"
    by (simp add: sample_unfold validate_deletion_range_def valid_source_range_def is_char_boundary_def continuation_byte_def)
  then obtain rw where "finish_rewrite (src_original ?inv) [ByteRange 1 3] ?boundaries = Inr rw"
    "rw_source rw = map ((!) (src_original ?inv)) (kept_offsets 5 [ByteRange 1 3])"
    using finish_rewrite_result [of "src_original ?inv" ?boundaries "[ByteRange 1 3]"]
    by (auto simp: lens u32_max_def)
  moreover have "map ((!) (src_original ?inv)) (kept_offsets 5 [ByteRange 1 3]) = [123, 98, 125]"
    by (simp add: sample_unfold kept_offsets_def range_bytes_def upt_rec)
  ultimately show ?thesis
    unfolding rewrite_source_def inventory boundaries bind_result_Inr retention frontier uses derives repetitions captures
    by simp
qed

theorem rewrite_source_refines_witness:
  "\<exists>rw deleted. rewrite_source byte_lexer (\<lambda>_ _. None) sample_use_inventory {0, 1, 3} = Inr rw
    \<and> rw_source rw = [123, 98, 125] \<and> 1 \<in> deleted \<and> rw_source rw = text_without (src_original sample_use_inventory) deleted"
proof -
  obtain rw where rw: "rewrite_source byte_lexer (\<lambda>_ _. None) sample_use_inventory {0, 1, 3} = Inr rw"
    "rw_source rw = [123, 98, 125]" using sample_use_rewritten by blast
  have "1 \<in> bytes_of (dropped_ranges sample_use_inventory {0, 1, 3})"
    by (simp add: sample_unfold dropped_ranges_def bytes_of_def range_bytes_def)
  with rewrite_source_refines [OF byte_lexer_covers rw(1)] rw show ?thesis by blast
qed

theorem validate_retention_exact_witness:
  "validate_retention sample_use_inventory {0, 3} = Inl RewriteInvalidRetention"
proof -
  have wf: "well_formed_units (src_original sample_use_inventory) (src_units sample_use_inventory)"
    using sample_use_valid by (simp add: validate_inventory_Inr)
  have "\<not> retention_closed (src_units sample_use_inventory) {0, 3}"
    by (auto simp: retention_closed_def sample_unfold intro: exI [of _ 3])
  with validate_retention_exact [OF wf, of "{0, 3}"] show ?thesis by simp
qed

section \<open>Lists lose exactly their dropped elements\<close>

text \<open>C39. The plan for an accepted repetition whose parent is retained edits exactly: it deletes inside the
  input of the repetition only, covers every element that is not retained and touches no byte of a
  retained one.\<close>

theorem repetition_plan_exact:
  assumes "validate_repetitions tokenize glue (src_original inventory) (src_units inventory)
      (src_macro_repetitions inventory) expected = Inr ()"
    and "well_formed_units (src_original inventory) (src_units inventory)"
    and "r \<in> set (src_macro_repetitions inventory)" "rep_parent r \<in> retained"
    and "plan_macro_repetition_deletions inventory retained r = Inr ds"
  shows "list_all (\<lambda>i. edited (i \<in> retained) (full_range (src_units inventory ! i)) ds) (element_units r)
    \<and> list_all (range_contains (rep_input_range r)) ds"
  using plan_edits [OF validated_elements_placed [OF assms(1-3)] assms(5,4)] by blast

definition sample_repetition_inventory :: source_inventory where
  "sample_repetition_inventory = sample_use_inventory\<lparr>src_original := sample_source,
     src_units := sample_repetition_units, src_macro_repetitions := sample_repetitions\<rparr>"

theorem repetition_plan_exact_witness:
  "plan_macro_repetition_deletions sample_repetition_inventory {0, 1, 2, 3, 4} (sample_repetitions ! 0) = Inr [ByteRange 9 11]
    \<and> list_all (\<lambda>i. edited (i \<in> {0, 1, 2, 3, 4}) (full_range (sample_repetition_units ! i)) [ByteRange 9 11])
        (element_units (sample_repetitions ! 0))"
proof -
  let ?inv = sample_repetition_inventory and ?r = "sample_repetitions ! 0"
  have parts: "src_original ?inv = sample_source" "src_units ?inv = sample_repetition_units"
    "src_macro_repetitions ?inv = sample_repetitions" by (simp_all add: sample_repetition_inventory_def)
  have r: "?r \<in> set (src_macro_repetitions ?inv)" "rep_parent ?r \<in> {0, 1, 2, 3, 4}"
    by (simp_all add: parts sample_repetitions_def sample_repetition_def)
  have "validate_units sample_source sample_repetition_units = Inr ()"
    by (simp add: sample_source_def sample_repetition_units_def sample_unit_def validate_units_def validate_unit_def
        unit_depths_def range_contains_def get_at_def u32_max_def is_char_boundary_def continuation_byte_def)
  then have wf: "well_formed_units (src_original ?inv) (src_units ?inv)" by (simp add: validate_units_Inr parts)
  have plan: "plan_macro_repetition_deletions ?inv {0, 1, 2, 3, 4} ?r = Inr [ByteRange 9 11]"
    by (simp add: parts plan_macro_repetition_deletions_def sample_repetitions_def sample_repetition_def plain_element_def
        sample_repetition_units_def sample_unit_def sample_source_def nested_unit_def unit_at_def get_at_def
        from_retained_elements_def validate_count_def runs_of_def Let_def macro_repetition_run_deletion_range_def
        range_is_empty_def valid_source_range_def is_char_boundary_def continuation_byte_def)
  have "validate_repetitions byte_lexer (\<lambda>_ _. None) (src_original ?inv) (src_units ?inv)
      (src_macro_repetitions ?inv) {4, 5, 6} = Inr ()"
    unfolding parts by (rule sample_repetitions_valid)
  from repetition_plan_exact [OF this wf r plan] plan show ?thesis unfolding parts by blast
qed

text \<open>C40. Rewriting a derive attribute edits exactly: it deletes inside the attribute only, covers every
  derive that is not retained and touches no byte of a retained one.\<close>

theorem rewrite_derive_attribute_exact:
  assumes "lexer_covers tokenize" and "rewrite_derive_attribute tokenize inventory facts retained = Inr ds"
  shows "list_all (\<lambda>i. edited (i \<in> retained) (full_range (src_units inventory ! i)) ds) (derive_elements facts)
    \<and> list_all (range_contains (full_range (src_units inventory ! derive_attribute facts))) ds"
  using rewrite_derive_attribute_edits [OF assms(2)] assms(1) by blast

definition sample_derive :: derive_attribute_facts where
  "sample_derive = \<lparr>derive_attribute = 1, derive_elements = [2, 3], directly_written = True\<rparr>"

definition sample_derive_inventory :: source_inventory where
  "sample_derive_inventory = sample_use_inventory\<lparr>src_original := [40, 97, 44, 98, 41],
     src_units := [sample_use_unit 0 CrateRoot 0 5 None, sample_use_unit 1 MacroInvocation 0 5 (Some 0),
        sample_use_unit 2 MacroInvocation 1 2 (Some 1), sample_use_unit 3 MacroInvocation 3 4 (Some 1)]\<rparr>"

abbreviation sample_derive_tokens :: "source_token list" where
  "sample_derive_tokens \<equiv>
     layout_tokens [(OpenParen, Suc 0), (OtherKind 97, Suc 0), (CommaKind, Suc 0), (OtherKind 98, Suc 0), (CloseParen, Suc 0)] 0"

abbreviation sample_derive_pair :: delimiter_pair where
  "sample_derive_pair \<equiv> \<lparr>pair_delimiter = Parenthesis, pair_open = 0, pair_close = 4\<rparr>"

lemma sample_derive_tokenized:
  "tokenize_balanced_range byte_lexer [40, 97, 44, 98, 41] (ByteRange 0 5) = Inr (sample_derive_tokens, [sample_derive_pair])"
  by (simp add: tokenize_balanced_range_def byte_lexer_def byte_kind_def str_get_def is_char_boundary_def
      u32_max_def checked_add_u32_def get_at_def continuation_byte_def)

lemma sample_derive_segments:
  "comma_list_segments sample_derive_tokens sample_derive_pair =
     Inr [\<lparr>segment_range = ByteRange (Suc 0) 2, previous_comma = None, following_comma = Some (ByteRange 2 3)\<rparr>,
       \<lparr>segment_range = ByteRange 3 4, previous_comma = Some (ByteRange 2 3), following_comma = None\<rparr>]"
  by (simp add: comma_list_segments_def get_at_def comma_segment_def checked_sub_def upt_rec numeral_eq_Suc)

lemma sample_derive_containers:
  "derive_containers sample_derive_tokens [sample_derive_pair] [ByteRange (Suc 0) 2, ByteRange 3 4] = [(3, sample_derive_pair)]"
proof -
  have "range_len (ByteRange (Suc 0) 4) = 3" by (simp add: u32_max_def)
  then have "range_len (ByteRange (Suc 0) (Suc (Suc (Suc (Suc 0))))) = 3" by (simp add: numeral_eq_Suc)
  then show ?thesis by (simp add: derive_containers_def range_contains_def numeral_eq_Suc)
qed

abbreviation sample_derive_entries :: "derive_entry list" where
  "sample_derive_entries \<equiv>
     [\<lparr>entry_element = ByteRange (Suc 0) 2, entry_segment = ByteRange (Suc 0) 2, entry_previous = None,
         entry_following = Some (ByteRange 2 3)\<rparr>,
       \<lparr>entry_element = ByteRange 3 4, entry_segment = ByteRange 3 4, entry_previous = Some (ByteRange 2 3),
         entry_following = None\<rparr>]"

lemma sample_derive_fold:
  "fold_result (layout_segment sample_derive_tokens [ByteRange (Suc 0) 2, ByteRange 3 4] (Suc 0))
     (enumerate 0 [\<lparr>segment_range = ByteRange (Suc 0) 2, previous_comma = None, following_comma = Some (ByteRange 2 3)\<rparr>,
       \<lparr>segment_range = ByteRange 3 4, previous_comma = Some (ByteRange 2 3), following_comma = None\<rparr>]) ({}, [])
   = Inr ({ByteRange (Suc 0) 2, ByteRange 3 4}, sample_derive_entries)"
  by (simp add: layout_segment_def Let_def range_contains_def stray_token_def numeral_eq_Suc insert_commute)

lemma sample_derive_layout:
  "derive_attribute_layout byte_lexer [40, 97, 44, 98, 41] (ByteRange 0 5) [ByteRange (Suc 0) 2, ByteRange 3 4] =
     Inr sample_derive_entries"
proof -
  have ok: "valid_source_range [40, 97, 44, 98, 41] (ByteRange 0 5)"
    "valid_source_range [40, 97, 44, 98, 41] (ByteRange (Suc 0) 2)" "valid_source_range [40, 97, 44, 98, 41] (ByteRange 3 4)"
    by (simp_all add: valid_source_range_def is_char_boundary_def continuation_byte_def)
  show ?thesis
    unfolding derive_attribute_layout_def
    by (simp add: ok sample_derive_tokenized sample_derive_containers sample_derive_segments sample_derive_fold
        range_is_empty_def range_contains_def checked_sub_def less_eq_byte_range_def
        del: layout_tokens.simps enumerate_simps)
qed

lemma sample_derive_rewrite:
  "rewrite_derive_attribute byte_lexer sample_derive_inventory sample_derive {0, 1, 3} = Inr [ByteRange (Suc 0) 3]"
  by (simp add: rewrite_derive_attribute_def sample_derive_inventory_def sample_derive_def sample_use_unit_def
      sample_derive_layout unit_at_def get_at_def derive_loop.simps derive_deletion_def run_stop_def range_is_empty_def)

theorem rewrite_derive_attribute_exact_witness:
  "rewrite_derive_attribute byte_lexer sample_derive_inventory sample_derive {0, 1, 3} = Inr [ByteRange (Suc 0) 3]
    \<and> list_all (\<lambda>i. edited (i \<in> {0, 1, 3}) (full_range (src_units sample_derive_inventory ! i)) [ByteRange (Suc 0) 3])
        (derive_elements sample_derive)"
  using rewrite_derive_attribute_exact [OF byte_lexer_covers sample_derive_rewrite] sample_derive_rewrite by blast

end
