(* ===== verification/Expansion_Components.thy ===== *)
theory Expansion_Components
  imports Expansions Source_Closure
begin

text \<open>
  The components of the expansions (\<open>expansion_components\<close> of \<open>src/retention/reachability.rs\<close>): the
  three parent relations are collapsed into strongly connected components by two depth-first searches,
  the first along the parents for the finish order, the second along the children in reverse finish
  order.  \<open>usize::MAX\<close>, the mark of an expansion without a component, is \<open>None\<close>.
\<close>

section \<open>The parent and child lists\<close>

definition add_parent :: "nat \<Rightarrow> nat \<Rightarrow> expansion_id \<Rightarrow> nat list list \<times> nat list list
    \<Rightarrow> retention_error + nat list list \<times> nat list list" where
  "add_parent n index parent = (\<lambda>(parents, children).
     if parent \<ge> n \<or> parent = index then Inl InvalidGraph
     else Inr (parents[index := parents ! index @ [parent]], children[parent := children ! parent @ [index]]))"

definition add_expansion :: "nat \<Rightarrow> nat \<times> expansion_node \<Rightarrow> nat list list \<times> nat list list
    \<Rightarrow> retention_error + nat list list \<times> nat list list" where
  "add_expansion n = (\<lambda>(index, node) state.
     if x_id node \<noteq> index then Inl InvalidGraph
     else bind_result (fold_result (add_parent n index) (parents_of node) state) (\<lambda>(parents, children).
       Inr (parents[index := sort_dedup (parents ! index)], children)))"

definition expansion_relations :: "expansion_node list \<Rightarrow> retention_error + nat list list \<times> nat list list" where
  "expansion_relations expansions =
     bind_result
       (fold_result (add_expansion (length expansions)) (enumerate 0 expansions)
         (replicate (length expansions) [], replicate (length expansions) []))
       (\<lambda>(parents, children). Inr (parents, map sort_dedup children))"

section \<open>The finish order\<close>

type_synonym search_state = "bool list \<times> nat list \<times> (nat \<times> nat) list"

text \<open>The top of the stack comes first.  The relations only hold positions, so the tests of the
  bounds never fail.\<close>

definition unvisited_count :: "bool list \<Rightarrow> nat" where
  "unvisited_count visited = length (filter Not visited)"

lemma unvisited_count_mark: "i < length v \<Longrightarrow> \<not> v ! i \<Longrightarrow> unvisited_count (v[i := True]) < unvisited_count v"
proof (induction v arbitrary: i)
  case (Cons b v)
  then show ?case by (cases i) (auto simp: unvisited_count_def)
qed simp

function finish_loop :: "nat list list \<Rightarrow> search_state \<Rightarrow> bool list \<times> nat list" where
  "finish_loop parents (visited, finish, []) = (visited, finish)"
| "finish_loop parents (visited, finish, (node, next_parent) # rest) =
     (if next_parent < length (parents ! node) then
        let parent = parents ! node ! next_parent in
        if parent < length visited \<and> \<not> visited ! parent
        then finish_loop parents (visited[parent := True], finish, (parent, 0) # (node, Suc next_parent) # rest)
        else finish_loop parents (visited, finish, (node, Suc next_parent) # rest)
      else finish_loop parents (visited, finish @ [node], rest))"
  by pat_completeness auto
termination
  by (relation "measures [\<lambda>(parents, visited, finish, stack). unvisited_count visited,
        \<lambda>(parents, visited, finish, stack).
          (\<Sum>(node, next_parent) \<leftarrow> stack. Suc (length (parents ! node) - next_parent))]")
     (auto simp: unvisited_count_mark)

declare finish_loop.simps [simp del]

definition finish_start :: "nat list list \<Rightarrow> nat \<Rightarrow> bool list \<times> nat list \<Rightarrow> bool list \<times> nat list" where
  "finish_start parents start = (\<lambda>(visited, finish).
     if visited ! start then (visited, finish)
     else finish_loop parents (visited[start := True], finish, [(start, 0)]))"

definition finish_order :: "nat list list \<Rightarrow> nat list" where
  "finish_order parents =
     snd (fold (finish_start parents) [0 ..< length parents] (replicate (length parents) False, []))"

section \<open>The components\<close>

definition assign_child :: "nat \<Rightarrow> nat \<Rightarrow> nat option list \<times> nat list \<Rightarrow> nat option list \<times> nat list" where
  "assign_child component child = (\<lambda>(assigned, stack).
     if child < length assigned \<and> assigned ! child = None
     then (assigned[child := Some component], child # stack) else (assigned, stack))"

lemma assign_child_new: "child < length assigned \<and> assigned ! child = None
    \<Longrightarrow> assign_child component child (assigned, stack) = (assigned[child := Some component], child # stack)"
  and assign_child_old: "\<not> (child < length assigned \<and> assigned ! child = None)
    \<Longrightarrow> assign_child component child (assigned, stack) = (assigned, stack)"
  by (simp_all add: assign_child_def)

definition unassigned_count :: "nat option list \<Rightarrow> nat" where
  "unassigned_count assigned = length (filter (\<lambda>c. c = None) assigned)"

lemma unassigned_count_mark:
  "i < length a \<Longrightarrow> a ! i = None \<Longrightarrow> Suc (unassigned_count (a[i := Some c])) = unassigned_count a"
proof (induction a arbitrary: i)
  case (Cons b a)
  then show ?case by (cases i) (auto simp: unassigned_count_def)
qed simp

lemma fold_assign_child_measure:
  "fold (assign_child component) cs (assigned, stack) = (assigned', stack') \<Longrightarrow>
     unassigned_count assigned' + length stack' = unassigned_count assigned + length stack"
proof (induction cs arbitrary: assigned stack)
  case (Cons c cs)
  show ?case
  proof (cases "c < length assigned \<and> assigned ! c = None")
    case True
    with Cons.prems
    have "fold (assign_child component) cs (assigned[c := Some component], c # stack) = (assigned', stack')"
      by (simp add: assign_child_new)
    from Cons.IH [OF this] unassigned_count_mark [of c assigned component] True show ?thesis by simp
  next
    case False
    with Cons.prems have "fold (assign_child component) cs (assigned, stack) = (assigned', stack')"
      by (simp add: assign_child_old)
    then show ?thesis by (rule Cons.IH)
  qed
qed simp

function component_loop :: "nat list list \<Rightarrow> nat \<Rightarrow> nat option list \<Rightarrow> nat list \<Rightarrow> nat list
    \<Rightarrow> nat option list \<times> nat list" where
  "component_loop children component assigned members [] = (assigned, members)"
| "component_loop children component assigned members (node # rest) =
     (case fold (assign_child component) (children ! node) (assigned, rest) of
        (assigned', rest') \<Rightarrow> component_loop children component assigned' (members @ [node]) rest')"
  by pat_completeness auto
termination
  by (relation "measure (\<lambda>(children, component, assigned, members, stack). unassigned_count assigned + length stack)")
     (auto dest: fold_assign_child_measure [OF sym])

declare component_loop.simps [simp del]

definition component_start :: "nat list list \<Rightarrow> nat \<Rightarrow> nat option list \<times> nat list list \<Rightarrow> nat option list \<times> nat list list" where
  "component_start children start = (\<lambda>(assigned, members).
     if assigned ! start \<noteq> None then (assigned, members)
     else case component_loop children (length members) (assigned[start := Some (length members)]) [] [start] of
       (assigned', new) \<Rightarrow> (assigned', members @ [sort new]))"

definition assign_components :: "nat list list \<Rightarrow> nat list list \<Rightarrow> nat option list \<times> nat list list" where
  "assign_components parents children =
     fold (component_start children) (rev (finish_order parents)) (replicate (length parents) None, [])"

record expansion_component =
  comp_sources :: "source_unit_id list"
  comp_parents :: "nat list"
  comp_children :: "nat list"
  comp_target_edges :: "nat list"

definition add_member ::
  "source_inventory \<Rightarrow> expansion_node list \<Rightarrow> nat list list \<Rightarrow> nat option list \<Rightarrow> nat \<Rightarrow> nat
     \<Rightarrow> source_unit_id list \<times> nat list \<Rightarrow> retention_error + source_unit_id list \<times> nat list" where
  "add_member source expansions parents assigned component expansion = (\<lambda>(units, above).
     bind_result
       (case written_invocation (expansions ! expansion) of
          None \<Rightarrow> Inr units
        | Some unit \<Rightarrow>
            (case unit_at (src_units source) unit of
               None \<Rightarrow> Inl InvalidGraph
             | Some written \<Rightarrow>
                 if unit_kind written = MacroInvocation \<and> unit_cfg written = Active
                 then Inr (units @ [unit_id written]) else Inl InvalidGraph))
       (\<lambda>units.
         Inr (units,
           above @ filter (\<lambda>c. c \<noteq> component) (map (\<lambda>parent. the (assigned ! parent)) (parents ! expansion)))))"

definition component_facts ::
  "source_inventory \<Rightarrow> expansion_node list \<Rightarrow> nat list list \<Rightarrow> nat option list \<Rightarrow> nat \<times> nat list
     \<Rightarrow> retention_error + expansion_component" where
  "component_facts source expansions parents assigned = (\<lambda>(component, members).
     bind_result (fold_result (add_member source expansions parents assigned component) members ([], []))
       (\<lambda>(units, above).
         Inr \<lparr>comp_sources = sort_dedup units, comp_parents = sort_dedup above,
              comp_children = [], comp_target_edges = []\<rparr>))"

definition add_component_child :: "nat \<Rightarrow> nat \<Rightarrow> expansion_component list \<Rightarrow> expansion_component list" where
  "add_component_child component parent components =
     components[parent := (components ! parent)\<lparr>comp_children := comp_children (components ! parent) @ [component]\<rparr>]"

definition link_children :: "expansion_component list \<Rightarrow> expansion_component list" where
  "link_children components =
     map (\<lambda>c. c\<lparr>comp_children := sort_dedup (comp_children c)\<rparr>)
       (fold (\<lambda>(component, facts) components. fold (add_component_child component) (comp_parents facts) components)
         (enumerate 0 components) components)"

definition expansion_components ::
  "source_inventory \<Rightarrow> dependency_graph \<Rightarrow> retention_error + nat option list \<times> expansion_component list" where
  "expansion_components source graph =
     bind_result (expansion_relations (g_expansions graph)) (\<lambda>(parents, children).
       let (assigned, members) = assign_components parents children
       in bind_result
            (map_result (component_facts source (g_expansions graph) parents assigned) (enumerate 0 members))
            (\<lambda>components. Inr (assigned, link_children components)))"

end
