(* ===== verification/Component_Search.thy ===== *)
theory Component_Search
  imports Expansion_Components
begin

text \<open>
  The two searches of \<open>expansion_components\<close> compute the strongly connected components of the
  parent relation: the finish order of the first search puts, for every edge that leaves a finished
  prefix, the last node of the prefix within reach of the edge's target, and so the nodes the second
  search collects from the last unassigned node are exactly those mutually reachable with it.
\<close>

section \<open>The parent relation\<close>

definition parent_edge :: "nat list list \<Rightarrow> nat \<Rightarrow> nat \<Rightarrow> bool" where
  "parent_edge parents v w \<longleftrightarrow> v < length parents \<and> w \<in> set (parents ! v)"

definition parents_bounded :: "nat list list \<Rightarrow> bool" where
  "parents_bounded parents \<longleftrightarrow> (\<forall>v w. parent_edge parents v w \<longrightarrow> w < length parents)"

abbreviation reaches :: "nat list list \<Rightarrow> nat \<Rightarrow> nat \<Rightarrow> bool" where
  "reaches parents \<equiv> (parent_edge parents)\<^sup>*\<^sup>*"

definition mutual :: "nat list list \<Rightarrow> nat \<Rightarrow> nat \<Rightarrow> bool" where
  "mutual parents v w \<longleftrightarrow> reaches parents v w \<and> reaches parents w v"

lemma mutual_refl: "mutual parents v v"
  and mutual_sym: "mutual parents v w \<Longrightarrow> mutual parents w v"
  and mutual_trans: "mutual parents u v \<Longrightarrow> mutual parents v w \<Longrightarrow> mutual parents u w"
  by (auto simp: mutual_def)

section \<open>The first search\<close>

text \<open>What the finish order promises: an edge that leaves a finished prefix leads to a node that
  reaches the last node of the prefix.\<close>

definition prefix_exits :: "nat list list \<Rightarrow> nat list \<Rightarrow> bool" where
  "prefix_exits parents finish \<longleftrightarrow>
     (\<forall>A r B v w. finish = A @ r # B \<longrightarrow> v \<in> insert r (set A) \<longrightarrow> parent_edge parents v w
        \<longrightarrow> w \<notin> insert r (set A) \<longrightarrow> reaches parents w r)"

lemma prefix_exitsD:
  "prefix_exits parents (A @ r # B) \<Longrightarrow> v \<in> insert r (set A) \<Longrightarrow> parent_edge parents v w
    \<Longrightarrow> w \<notin> insert r (set A) \<Longrightarrow> reaches parents w r"
  unfolding prefix_exits_def by blast

lemma prefix_exits_snoc:
  assumes "prefix_exits parents finish"
    and "\<And>v w. v \<in> insert r (set finish) \<Longrightarrow> parent_edge parents v w \<Longrightarrow> w \<notin> insert r (set finish)
      \<Longrightarrow> reaches parents w r"
  shows "prefix_exits parents (finish @ [r])"
  unfolding prefix_exits_def
proof (intro allI impI)
  fix A q B v w
  assume split: "finish @ [r] = A @ q # B" and v: "v \<in> insert q (set A)" and e: "parent_edge parents v w"
    and w: "w \<notin> insert q (set A)"
  show "reaches parents w q"
  proof (cases B rule: rev_cases)
    case Nil
    with split have "finish = A" "r = q" by simp_all
    with assms(2) v e w show ?thesis by blast
  next
    case (snoc B' b)
    with split have "finish = A @ q # B'" by simp
    with assms(1) v e w show ?thesis by (blast intro: prefix_exitsD)
  qed
qed

definition marked :: "bool list \<Rightarrow> nat set" where
  "marked visited = {w. w < length visited \<and> visited ! w}"

lemma marked_iff: "w \<in> marked visited \<longleftrightarrow> w < length visited \<and> visited ! w"
  by (simp add: marked_def)

lemma marked_mark: "i < length visited \<Longrightarrow> marked (visited[i := True]) = insert i (marked visited)"
  by (auto simp: marked_def nth_list_update)

definition scanned :: "nat list list \<Rightarrow> bool list \<Rightarrow> nat \<times> nat \<Rightarrow> bool" where
  "scanned parents visited = (\<lambda>(node, next_parent). set (take next_parent (parents ! node)) \<subseteq> marked visited)"

lemma scanned_mono: "scanned parents visited entry \<Longrightarrow> marked visited \<subseteq> marked visited'
    \<Longrightarrow> scanned parents visited' entry"
  by (auto simp: scanned_def)

definition search_ok :: "nat list list \<Rightarrow> bool list \<Rightarrow> nat list \<Rightarrow> (nat \<times> nat) list \<Rightarrow> bool" where
  "search_ok parents visited finish stack \<longleftrightarrow>
     length visited = length parents
     \<and> distinct (finish @ map fst stack)
     \<and> marked visited = set finish \<union> fst ` set stack
     \<and> sorted_wrt (\<lambda>upper lower. reaches parents lower upper) (map fst stack)
     \<and> (\<forall>v \<in> set finish. set (parents ! v) \<subseteq> marked visited)
     \<and> (\<forall>entry \<in> set stack. scanned parents visited entry)
     \<and> prefix_exits parents finish"

lemma search_ok_step_child:
  assumes ok: "search_ok parents visited finish ((node, i) # rest)" and i: "i < length (parents ! node)"
    and new: "parents ! node ! i < length visited" "\<not> visited ! (parents ! node ! i)"
  shows "search_ok parents (visited[parents ! node ! i := True]) finish
    ((parents ! node ! i, 0) # (node, Suc i) # rest)"
proof -
  let ?p = "parents ! node ! i"
  let ?v = "visited[?p := True]"
  have m: "marked visited = set finish \<union> fst ` set ((node, i) # rest)"
    and sorted: "sorted_wrt (\<lambda>upper lower. reaches parents lower upper) (node # map fst rest)"
    using ok by (simp_all add: search_ok_def)
  have m': "marked ?v = insert ?p (marked visited)" using new(1) by (rule marked_mark)
  have "node \<in> marked visited" using m by simp
  then have "node < length parents" using ok by (simp add: marked_iff search_ok_def)
  then have edge: "reaches parents node ?p" using i by (intro r_into_rtranclp) (simp add: parent_edge_def)
  have fresh: "?p \<notin> marked visited" using new by (simp add: marked_iff)
  have "scanned parents visited (node, i)" using ok by (simp add: search_ok_def)
  then have "scanned parents ?v (node, Suc i)" using i m' by (auto simp: scanned_def take_Suc_conv_app_nth)
  moreover have "scanned parents ?v (?p, 0)" by (simp add: scanned_def)
  moreover have "scanned parents ?v e" if "e \<in> set rest" for e
  proof (rule scanned_mono)
    show "scanned parents visited e" using ok that by (simp add: search_ok_def)
  qed (use m' in blast)
  moreover have "reaches parents lower ?p" if "lower \<in> set (node # map fst rest)" for lower
    using that sorted edge by (auto intro: rtranclp_trans)
  ultimately show ?thesis
    using ok fresh m m' sorted unfolding search_ok_def by auto
qed

lemma search_ok_step_skip:
  assumes "search_ok parents visited finish ((node, i) # rest)" and "i < length (parents ! node)"
    and "parents ! node ! i < length visited \<and> visited ! (parents ! node ! i)"
  shows "search_ok parents visited finish ((node, Suc i) # rest)"
proof -
  have "scanned parents visited (node, i)" using assms(1) by (simp add: search_ok_def)
  with assms(2,3) have "scanned parents visited (node, Suc i)"
    by (simp add: scanned_def take_Suc_conv_app_nth marked_iff)
  with assms(1) show ?thesis
    unfolding search_ok_def list.map fst_conv list.set image_insert by blast
qed

lemma search_ok_step_finish:
  assumes ok: "search_ok parents visited finish ((node, i) # rest)" and i: "\<not> i < length (parents ! node)"
  shows "search_ok parents visited (finish @ [node]) rest"
proof -
  have "scanned parents visited (node, i)" using ok by (simp add: search_ok_def)
  with i have all: "set (parents ! node) \<subseteq> marked visited" by (simp add: scanned_def)
  have m: "marked visited = set finish \<union> fst ` set ((node, i) # rest)"
    and sorted: "sorted_wrt (\<lambda>upper lower. reaches parents lower upper) (node # map fst rest)"
    using ok by (simp_all add: search_ok_def)
  have done_before: "\<forall>v \<in> set finish. set (parents ! v) \<subseteq> marked visited"
    using ok unfolding search_ok_def by blast
  have "reaches parents w node"
    if "v \<in> insert node (set finish)" "parent_edge parents v w" "w \<notin> insert node (set finish)" for v w
  proof -
    have "set (parents ! v) \<subseteq> marked visited" using done_before all that(1) by blast
    with that(2) have "w \<in> marked visited" by (auto simp: parent_edge_def)
    with m that(3) have "w \<in> set (map fst rest)" by auto
    with sorted show ?thesis by auto
  qed
  with ok have "prefix_exits parents (finish @ [node])"
    by (intro prefix_exits_snoc) (simp_all add: search_ok_def)
  moreover have "\<forall>v \<in> set (finish @ [node]). set (parents ! v) \<subseteq> marked visited"
    using done_before all by simp
  moreover have "marked visited = set (finish @ [node]) \<union> fst ` set rest" "distinct ((finish @ [node]) @ map fst rest)"
    using ok by (simp_all add: search_ok_def)
  ultimately show ?thesis using ok unfolding search_ok_def by (intro conjI) simp_all
qed

lemma search_ok_start:
  assumes "search_ok parents visited finish []" and "start < length parents" and "\<not> visited ! start"
  shows "search_ok parents (visited[start := True]) finish [(start, 0)]"
proof -
  have len: "start < length visited" and m: "marked visited = set finish"
    using assms(1,2) by (simp_all add: search_ok_def)
  have "marked (visited[start := True]) = insert start (set finish)"
    using marked_mark [OF len] m by simp
  moreover have "start \<notin> set finish" using m assms(3) by (auto simp: marked_iff)
  moreover have "scanned parents (visited[start := True]) (start, 0)" by (simp add: scanned_def)
  ultimately show ?thesis using assms(1) unfolding search_ok_def by auto
qed

lemma finish_loop_child:
  "i < length (parents ! node) \<Longrightarrow> parents ! node ! i < length visited \<and> \<not> visited ! (parents ! node ! i)
    \<Longrightarrow> finish_loop parents (visited, finish, (node, i) # rest)
      = finish_loop parents (visited[parents ! node ! i := True], finish,
          (parents ! node ! i, 0) # (node, Suc i) # rest)"
  by (subst finish_loop.simps) (simp add: Let_def)

lemma finish_loop_skip:
  "i < length (parents ! node) \<Longrightarrow> \<not> (parents ! node ! i < length visited \<and> \<not> visited ! (parents ! node ! i))
    \<Longrightarrow> finish_loop parents (visited, finish, (node, i) # rest)
      = finish_loop parents (visited, finish, (node, Suc i) # rest)"
  by (subst finish_loop.simps) (auto simp: Let_def)

lemma finish_loop_pop:
  "\<not> i < length (parents ! node) \<Longrightarrow> finish_loop parents (visited, finish, (node, i) # rest)
      = finish_loop parents (visited, finish @ [node], rest)"
  by (subst finish_loop.simps) simp

text \<open>A run of the loop ends with an empty stack and keeps what was finished and visited.\<close>

lemma finish_loop_ok:
  "search_ok parents visited finish stack \<Longrightarrow> parents_bounded parents \<Longrightarrow>
     finish_loop parents (visited, finish, stack) = (visited', finish') \<Longrightarrow>
     search_ok parents visited' finish' [] \<and> marked visited \<subseteq> marked visited'"
proof (induction parents "(visited, finish, stack)" arbitrary: visited finish stack rule: finish_loop.induct)
  case (1 parents visited finish)
  then show ?case by (simp add: finish_loop.simps)
next
  case (2 parents visited finish node i rest)
  let ?p = "parents ! node ! i"
  note ok = 2(4) and bounded = 2(5)
  show ?case
  proof (cases "i < length (parents ! node)")
    case False
    have "finish_loop parents (visited, finish @ [node], rest) = (visited', finish')"
      using 2(6) False by (simp add: finish_loop_pop)
    with 2(3) [OF False] search_ok_step_finish [OF ok False] bounded show ?thesis by blast
  next
    case True
    show ?thesis
    proof (cases "?p < length visited \<and> \<not> visited ! ?p")
      case fresh: True
      have "finish_loop parents (visited[?p := True], finish, (?p, 0) # (node, Suc i) # rest) = (visited', finish')"
        using 2(6) by (simp add: finish_loop_child [OF True fresh])
      with 2(1) [OF True refl fresh] search_ok_step_child [OF ok True] fresh bounded
      have "search_ok parents visited' finish' []" "marked (visited[?p := True]) \<subseteq> marked visited'" by blast+
      then show ?thesis using fresh by (simp add: marked_mark)
    next
      case old: False
      have "node \<in> marked visited" using ok by (simp add: search_ok_def)
      then have "parent_edge parents node ?p" using True ok by (simp add: parent_edge_def marked_iff search_ok_def)
      with bounded have "?p < length parents" by (auto simp: parents_bounded_def)
      with ok old have "?p < length visited \<and> visited ! ?p" by (simp add: search_ok_def)
      moreover have "finish_loop parents (visited, finish, (node, Suc i) # rest) = (visited', finish')"
        using 2(6) by (simp add: finish_loop_skip [OF True old])
      ultimately show ?thesis using 2(2) [OF True refl old] search_ok_step_skip [OF ok True] bounded by blast
    qed
  qed
qed

lemma finish_order_ok:
  assumes "parents_bounded parents"
  shows "prefix_exits parents (finish_order parents)" and "distinct (finish_order parents)"
    and "set (finish_order parents) = {..< length parents}"
proof -
  let ?run = "\<lambda>k. fold (finish_start parents) [0 ..< k] (replicate (length parents) False, [])"
  have run: "case ?run k of (visited, finish) \<Rightarrow> search_ok parents visited finish [] \<and> {..< k} \<subseteq> marked visited"
    if "k \<le> length parents" for k
    using that
  proof (induction k)
    case 0
    show ?case by (auto simp: search_ok_def marked_iff prefix_exits_def)
  next
    case (Suc k)
    obtain visited finish where r: "?run k = (visited, finish)" by force
    with Suc have ok: "search_ok parents visited finish []" and sub: "{..< k} \<subseteq> marked visited" by auto
    have len: "k < length visited" using ok Suc.prems by (simp add: search_ok_def)
    have step: "?run (Suc k) = finish_start parents k (visited, finish)" using r by simp
    show ?case
    proof (cases "visited ! k")
      case True
      with len have "k \<in> marked visited" by (simp add: marked_iff)
      with True ok sub show ?thesis unfolding step by (auto simp: finish_start_def less_Suc_eq)
    next
      case False
      obtain visited' finish' where l: "finish_loop parents (visited[k := True], finish, [(k, 0)]) = (visited', finish')"
        by force
      have "search_ok parents (visited[k := True]) finish [(k, 0)]"
        using ok Suc.prems False by (intro search_ok_start) simp_all
      from finish_loop_ok [OF this assms l]
      have "search_ok parents visited' finish' []" "insert k (marked visited) \<subseteq> marked visited'"
        using len by (simp_all add: marked_mark)
      with False l sub show ?thesis unfolding step by (auto simp: finish_start_def less_Suc_eq)
    qed
  qed
  obtain visited finish where r: "?run (length parents) = (visited, finish)" by force
  with run [of "length parents"] have ok: "search_ok parents visited finish []"
    and sub: "{..< length parents} \<subseteq> marked visited" by auto
  have "finish_order parents = finish" using r by (simp add: finish_order_def)
  moreover have "marked visited = set finish" "length visited = length parents" using ok by (simp_all add: search_ok_def)
  ultimately show "prefix_exits parents (finish_order parents)" "distinct (finish_order parents)"
    "set (finish_order parents) = {..< length parents}"
    using ok sub by (auto simp: search_ok_def marked_iff)
qed

section \<open>The nodes that reach the last one\<close>

text \<open>Along edges within the prefix, every node that reaches the prefix's last node is reached by it.\<close>

definition inner_edge :: "nat list list \<Rightarrow> nat set \<Rightarrow> nat \<Rightarrow> nat \<Rightarrow> bool" where
  "inner_edge parents U v w \<longleftrightarrow> parent_edge parents v w \<and> v \<in> U \<and> w \<in> U"

lemma reached_by_last:
  assumes exits: "prefix_exits parents finish" and finish: "finish = A @ r # B" and dist: "distinct finish"
    and U: "U \<subseteq> insert r (set A)" and path: "(inner_edge parents U)\<^sup>*\<^sup>* u r"
  shows "reaches parents r u"
proof -
  have "reaches parents r u \<and>
      (\<forall>C. u \<in> C \<and> r \<notin> C \<longrightarrow> (\<exists>v x. v \<in> C \<and> x \<notin> C \<and> parent_edge parents v x \<and> reaches parents r x))"
    using path
  proof (induction rule: converse_rtranclp_induct)
    case base
    show ?case by auto
  next
    case (step u w)
    have e: "parent_edge parents u w" and u: "u \<in> insert r (set A)" using step.hyps(1) U by (auto simp: inner_edge_def)
    have exit: "\<exists>v x. v \<in> C \<and> x \<notin> C \<and> parent_edge parents v x \<and> reaches parents r x"
      if "u \<in> C" "r \<notin> C" for C
      using that step.IH e by (cases "w \<in> C") blast+
    have "reaches parents r u"
    proof (cases "u = r")
      case False
      with u obtain A1 A2 where A: "A = A1 @ u # A2" by (auto simp: in_set_conv_decomp)
      then have "r \<notin> insert u (set A1)" using dist finish by auto
      from exit [OF _ this] obtain v x where vx: "v \<in> insert u (set A1)" "x \<notin> insert u (set A1)"
        "parent_edge parents v x" "reaches parents r x" by blast
      have "prefix_exits parents (A1 @ u # A2 @ r # B)" using exits finish A by simp
      from prefix_exitsD [OF this vx(1,3,2)] vx(4) show ?thesis by (rule rtranclp_trans [rotated])
    qed simp
    with exit show ?case by blast
  qed
  then show ?thesis by simp
qed

section \<open>The second search\<close>

definition transposed :: "nat list list \<Rightarrow> nat list list \<Rightarrow> bool" where
  "transposed parents children \<longleftrightarrow>
     length children = length parents
     \<and> (\<forall>v w. v < length parents \<longrightarrow> (w \<in> set (children ! v) \<longleftrightarrow> parent_edge parents w v))"

lemma transposedD: "transposed parents children \<Longrightarrow> v < length parents
    \<Longrightarrow> w \<in> set (children ! v) \<longleftrightarrow> parent_edge parents w v"
  by (simp add: transposed_def)

definition unassigned :: "nat option list \<Rightarrow> nat set" where
  "unassigned assigned = {v. v < length assigned \<and> assigned ! v = None}"

lemma unassigned_iff: "v \<in> unassigned assigned \<longleftrightarrow> v < length assigned \<and> assigned ! v = None"
  by (simp add: unassigned_def)

text \<open>What one search does to the assignment: the nodes it collects get the component.\<close>

definition assign_all :: "nat \<Rightarrow> nat set \<Rightarrow> nat option list \<Rightarrow> nat option list" where
  "assign_all component M assigned =
     map (\<lambda>v. if v \<in> M then Some component else assigned ! v) [0 ..< length assigned]"

lemma assign_all_length [simp]: "length (assign_all component M assigned) = length assigned"
  by (simp add: assign_all_def)

lemma assign_all_nth: "v < length assigned
    \<Longrightarrow> assign_all component M assigned ! v = (if v \<in> M then Some component else assigned ! v)"
  by (simp add: assign_all_def)

lemma assign_all_insert:
  "v < length assigned \<Longrightarrow>
     (assign_all component M assigned)[v := Some component] = assign_all component (insert v M) assigned"
  by (rule nth_equalityI) (auto simp: assign_all_nth nth_list_update)

lemma assign_children_all:
  assumes "M \<subseteq> unassigned assigned" and "distinct (members @ stack)" and "set members \<union> set stack = M"
  shows "\<exists>new. fold (assign_child component) cs (assign_all component M assigned, stack)
       = (assign_all component (M \<union> (set cs \<inter> unassigned assigned)) assigned, new @ stack)
     \<and> distinct (members @ new @ stack) \<and> set members \<union> set (new @ stack) = M \<union> (set cs \<inter> unassigned assigned)"
  using assms
proof (induction cs arbitrary: M stack)
  case Nil
  then show ?case by simp
next
  case (Cons c cs)
  let ?now = "assign_all component M assigned"
  show ?case
  proof (cases "c \<in> unassigned assigned - M")
    case True
    then have c: "c < length assigned" "c \<notin> M" "c \<in> unassigned assigned" by (auto simp: unassigned_iff)
    then have "c < length ?now \<and> ?now ! c = None" by (simp add: assign_all_nth unassigned_iff)
    from assign_child_new [OF this] c(1)
    have step: "assign_child component c (?now, stack) = (assign_all component (insert c M) assigned, c # stack)"
      by (simp add: assign_all_insert)
    have "\<exists>new. fold (assign_child component) cs (assign_all component (insert c M) assigned, c # stack)
         = (assign_all component (insert c M \<union> (set cs \<inter> unassigned assigned)) assigned, new @ c # stack)
       \<and> distinct (members @ new @ c # stack)
       \<and> set members \<union> set (new @ c # stack) = insert c M \<union> (set cs \<inter> unassigned assigned)"
      using Cons.prems c by (intro Cons.IH) auto
    then obtain new where new: "fold (assign_child component) cs (assign_all component (insert c M) assigned, c # stack)
         = (assign_all component (insert c M \<union> (set cs \<inter> unassigned assigned)) assigned, new @ c # stack)"
       "distinct (members @ new @ c # stack)"
       "set members \<union> set (new @ c # stack) = insert c M \<union> (set cs \<inter> unassigned assigned)" by blast
    have "insert c M \<union> (set cs \<inter> unassigned assigned) = M \<union> (set (c # cs) \<inter> unassigned assigned)"
      using c(3) by auto
    with new step show ?thesis by (intro exI [of _ "new @ [c]"]) simp
  next
    case False
    then have "\<not> (c < length ?now \<and> ?now ! c = None)" by (auto simp: assign_all_nth unassigned_iff)
    from assign_child_old [OF this]
    have step: "fold (assign_child component) (c # cs) (?now, stack) = fold (assign_child component) cs (?now, stack)"
      by simp
    have "M \<union> (set cs \<inter> unassigned assigned) = M \<union> (set (c # cs) \<inter> unassigned assigned)" using False by auto
    with Cons.IH [OF Cons.prems] step show ?thesis by simp
  qed
qed

text \<open>The nodes a search collects are those with a path to its start through unassigned nodes.\<close>

definition collected :: "nat list list \<Rightarrow> nat option list \<Rightarrow> nat \<Rightarrow> nat set" where
  "collected parents assigned start = {u. (inner_edge parents (unassigned assigned))\<^sup>*\<^sup>* u start}"

lemma component_loop_collects:
  assumes "component_loop children component (assign_all component M assigned) members stack = (assigned', members')"
    and "transposed parents children" and "length assigned = length parents" and "start \<in> M"
    and "M \<subseteq> unassigned assigned" and "M \<subseteq> collected parents assigned start"
    and "distinct (members @ stack)" and "set members \<union> set stack = M"
    and "\<And>u v. v \<in> set members \<Longrightarrow> inner_edge parents (unassigned assigned) u v \<Longrightarrow> u \<in> M"
  shows "assigned' = assign_all component (collected parents assigned start) assigned
      \<and> distinct members' \<and> set members' = collected parents assigned start"
  using assms
proof (induction children component "assign_all component M assigned" members stack
    arbitrary: M rule: component_loop.induct)
  case (1 children component members)
  have "u \<in> M" if "(inner_edge parents (unassigned assigned))\<^sup>*\<^sup>* u start" for u
    using that
  proof (induction rule: converse_rtranclp_induct)
    case base
    show ?case by (rule 1(4))
  next
    case (step u w)
    with 1(8) have "w \<in> set members" by simp
    then show ?case using step(1) by (rule 1(9))
  qed
  with 1(6) have "M = collected parents assigned start" by (auto simp: collected_def)
  with 1(1,7,8) show ?case by (simp add: component_loop.simps)
next
  case (2 children component members node rest)
  note prems = 2(2-)
  let ?U = "unassigned assigned"
  let ?M = "M \<union> (set (children ! node) \<inter> ?U)"
  have node: "node \<in> M" using prems(8) by auto
  then have node': "node \<in> ?U" using prems(5) by blast
  then have n: "node < length parents" using prems(3) by (simp add: unassigned_iff)
  have "distinct ((members @ [node]) @ rest)" "set (members @ [node]) \<union> set rest = M"
    using prems(7,8) by auto
  from assign_children_all [OF prems(5) this, of component "children ! node"]
  obtain new where new: "fold (assign_child component) (children ! node) (assign_all component M assigned, rest)
         = (assign_all component ?M assigned, new @ rest)"
      "distinct ((members @ [node]) @ new @ rest)" "set (members @ [node]) \<union> set (new @ rest) = ?M" by blast
  have run: "component_loop children component (assign_all component ?M assigned) (members @ [node]) (new @ rest)
       = (assigned', members')"
    using prems(1) new(1) by (simp add: component_loop.simps)
  have kids: "u \<in> ?M" if "inner_edge parents ?U u node" for u
    using that transposedD [OF prems(2) n] by (simp add: inner_edge_def)
  have sub: "?M \<subseteq> collected parents assigned start"
  proof (rule Un_least [OF prems(6)], rule subsetI)
    fix u
    assume "u \<in> set (children ! node) \<inter> ?U"
    then have "inner_edge parents ?U u node"
      using transposedD [OF prems(2) n] node' by (simp add: inner_edge_def)
    moreover have "node \<in> collected parents assigned start" using node prems(6) by blast
    ultimately show "u \<in> collected parents assigned start"
      unfolding collected_def by (auto intro: converse_rtranclp_into_rtranclp)
  qed
  show ?case
  proof (rule 2(1) [OF new(1) [symmetric] run prems(2,3)])
    show "start \<in> ?M" using prems(4) by blast
    show "?M \<subseteq> ?U" using prems(5) by blast
    show "u \<in> ?M" if "v \<in> set (members @ [node])" "inner_edge parents ?U u v" for u v
      using that kids prems(9) by auto
  qed (rule sub new)+
qed

section \<open>The components are the strongly connected ones\<close>

definition class_of :: "nat list list \<Rightarrow> nat \<Rightarrow> nat set" where
  "class_of parents v = {w. mutual parents v w}"

lemma class_of_eq: "w \<in> class_of parents v \<Longrightarrow> class_of parents w = class_of parents v"
  unfolding class_of_def by (auto intro: mutual_trans mutual_sym)

lemma self_in_class: "v \<in> class_of parents v"
  by (simp add: class_of_def mutual_refl)

lemma reaches_bounded: "reaches parents v w \<Longrightarrow> parents_bounded parents \<Longrightarrow> v < length parents \<Longrightarrow> w < length parents"
  by (induction rule: rtranclp_induct) (auto simp: parents_bounded_def)

lemma class_of_bounded:
  "parents_bounded parents \<Longrightarrow> v < length parents \<Longrightarrow> w \<in> class_of parents v \<Longrightarrow> w < length parents"
  by (auto simp: class_of_def mutual_def intro: reaches_bounded)

definition assigned_as :: "nat option list \<Rightarrow> nat list list \<Rightarrow> bool" where
  "assigned_as assigned members \<longleftrightarrow>
     (\<forall>v < length assigned. \<forall>c. assigned ! v = Some c \<longleftrightarrow> c < length members \<and> v \<in> set (members ! c))"

lemma assigned_asD: "assigned_as assigned members \<Longrightarrow> v < length assigned
    \<Longrightarrow> assigned ! v = Some c \<longleftrightarrow> c < length members \<and> v \<in> set (members ! c)"
  unfolding assigned_as_def by blast

definition classes_ok :: "nat list list \<Rightarrow> nat option list \<Rightarrow> nat list list \<Rightarrow> bool" where
  "classes_ok parents assigned members \<longleftrightarrow>
     length assigned = length parents \<and> assigned_as assigned members
     \<and> list_all (\<lambda>ms. sorted_wrt (<) ms \<and> (\<exists>r < length parents. set ms = class_of parents r)) members"

lemma classes_ok_member:
  assumes "classes_ok parents assigned members" and "v < length parents" and "assigned ! v = Some c"
  shows "c < length members" and "set (members ! c) = class_of parents v"
proof -
  from assms(1) have a: "assigned_as assigned members" "v < length assigned"
    using assms(2) by (simp_all add: classes_ok_def)
  with assms(3) assigned_asD [OF a] have c: "c < length members" "v \<in> set (members ! c)" by simp_all
  then show "c < length members" by simp
  with assms(1) obtain r where "set (members ! c) = class_of parents r"
    by (auto simp: classes_ok_def list_all_length)
  with c(2) class_of_eq show "set (members ! c) = class_of parents v" by metis
qed

lemma classes_ok_class:
  assumes ok: "classes_ok parents assigned members" and v: "v < length parents" and some: "assigned ! v = Some c"
    and bounded: "parents_bounded parents" and w: "w \<in> class_of parents v"
  shows "assigned ! w = Some c"
proof -
  have "w < length assigned" using class_of_bounded [OF bounded v w] ok by (simp add: classes_ok_def)
  moreover have "assigned_as assigned members" using ok by (simp add: classes_ok_def)
  ultimately show ?thesis
    using classes_ok_member [OF ok v some] w assigned_asD by blast
qed

lemma collected_class:
  assumes "parents_bounded parents" and "classes_ok parents assigned members"
    and "prefix_exits parents finish" and "distinct finish" and "set finish = {..< length parents}"
    and "finish = A @ r # B" and "set B \<inter> unassigned assigned = {}" and "r \<in> unassigned assigned"
  shows "collected parents assigned r = class_of parents r"
proof
  let ?U = "unassigned assigned"
  have len: "length assigned = length parents" using assms(2) by (simp add: classes_ok_def)
  have r: "r < length parents" using assms(8) len by (simp add: unassigned_iff)
  have U: "?U \<subseteq> insert r (set A)"
  proof
    fix u
    assume u: "u \<in> ?U"
    then have "u \<in> set finish" using assms(5) len by (simp add: unassigned_iff)
    with u assms(6,7) show "u \<in> insert r (set A)" by auto
  qed
  show "collected parents assigned r \<subseteq> class_of parents r"
  proof
    fix u
    assume "u \<in> collected parents assigned r"
    then have path: "(inner_edge parents ?U)\<^sup>*\<^sup>* u r" by (simp add: collected_def)
    have "reaches parents u r"
      using path by (rule rtranclp_mono [THEN predicate2D, rotated]) (auto simp: inner_edge_def)
    moreover have "reaches parents r u" by (rule reached_by_last [OF assms(3,6,4) U path])
    ultimately show "u \<in> class_of parents r" by (simp add: class_of_def mutual_def)
  qed
  have class_U: "class_of parents r \<subseteq> ?U"
  proof
    fix u
    assume u: "u \<in> class_of parents r"
    then have "u < length parents" by (rule class_of_bounded [OF assms(1) r])
    moreover have "assigned ! u = None"
    proof (rule ccontr)
      assume "assigned ! u \<noteq> None"
      then obtain c where "assigned ! u = Some c" by blast
      moreover have "r \<in> class_of parents u" using self_in_class class_of_eq [OF u] by metis
      ultimately have "assigned ! r = Some c"
        using classes_ok_class [OF assms(2) \<open>u < length parents\<close> _ assms(1)] by blast
      with assms(8) show False by (simp add: unassigned_iff)
    qed
    ultimately show "u \<in> ?U" using len by (simp add: unassigned_iff)
  qed
  show "class_of parents r \<subseteq> collected parents assigned r"
  proof
    fix u
    assume "u \<in> class_of parents r"
    then have "reaches parents u r" "reaches parents r u" by (auto simp: class_of_def mutual_def)
    then have "(inner_edge parents ?U)\<^sup>*\<^sup>* u r"
    proof (induction rule: converse_rtranclp_induct)
      case (step u w)
      have "reaches parents r w" using step.prems step.hyps(1) by (rule rtranclp.rtrancl_into_rtrancl)
      moreover have "reaches parents w r" by (rule step.hyps(2))
      moreover have "reaches parents u r" using step.hyps by (rule converse_rtranclp_into_rtranclp)
      ultimately have "u \<in> class_of parents r" "w \<in> class_of parents r"
        using step.prems unfolding class_of_def mutual_def by blast+
      then have "u \<in> ?U" "w \<in> ?U" using class_U by blast+
      with step.hyps(1) have "inner_edge parents ?U u w" unfolding inner_edge_def by blast
      then show ?case using step.IH [OF \<open>reaches parents r w\<close>] by (rule converse_rtranclp_into_rtranclp)
    qed simp
    then show "u \<in> collected parents assigned r" by (simp add: collected_def)
  qed
qed

lemma component_start_ok:
  assumes bounded: "parents_bounded parents" and trans: "transposed parents children"
    and ok: "classes_ok parents assigned members"
    and finish: "prefix_exits parents finish" "distinct finish" "set finish = {..< length parents}"
      "finish = A @ r # B"
    and B: "set B \<inter> unassigned assigned = {}"
    and step: "component_start children r (assigned, members) = (assigned', members')"
  shows "classes_ok parents assigned' members' \<and> set (r # B) \<inter> unassigned assigned' = {}"
proof (cases "assigned ! r = None")
  case False
  with step have "assigned' = assigned" "members' = members" by (auto simp: component_start_def)
  with False ok B show ?thesis by (simp add: unassigned_iff)
next
  case True
  have len: "length assigned = length parents" using ok by (simp add: classes_ok_def)
  have r: "r < length parents" using finish(3,4) by auto
  with True len have new: "r \<in> unassigned assigned" by (simp add: unassigned_iff)
  let ?c = "length members"
  have "assign_all ?c {r} assigned = assigned[r := Some ?c]"
    using r len by (intro nth_equalityI) (auto simp: assign_all_nth nth_list_update)
  with step True obtain ms where
    run: "component_loop children ?c (assign_all ?c {r} assigned) [] [r] = (assigned', ms)"
      and members': "members' = members @ [sort ms]"
    by (auto simp: component_start_def split: prod.splits)
  have C: "collected parents assigned r = class_of parents r"
    by (rule collected_class [OF bounded ok finish B new])
  have "assigned' = assign_all ?c (collected parents assigned r) assigned
      \<and> distinct ms \<and> set ms = collected parents assigned r"
  proof (rule component_loop_collects [OF run trans len])
    show "{r} \<subseteq> collected parents assigned r" by (simp add: collected_def)
  qed (use new in auto)
  then have a': "assigned' = assign_all ?c (class_of parents r) assigned"
    and ms: "distinct ms" "set ms = class_of parents r" by (simp_all add: C)
  have fresh: "v \<in> unassigned assigned" if "v \<in> class_of parents r" for v
  proof -
    from that C have "(inner_edge parents (unassigned assigned))\<^sup>*\<^sup>* v r" by (auto simp: collected_def)
    then show ?thesis by (cases rule: converse_rtranclpE) (auto simp: inner_edge_def new)
  qed
  have old: "assigned_as assigned members" using ok by (simp add: classes_ok_def)
  have "assigned_as assigned' members'"
    unfolding assigned_as_def
  proof (intro allI impI)
    fix v c
    assume "v < length assigned'"
    then have v: "v < length assigned" by (simp add: a')
    note v_old = assigned_asD [OF old v]
    show "assigned' ! v = Some c \<longleftrightarrow> c < length members' \<and> v \<in> set (members' ! c)"
    proof (cases "v \<in> class_of parents r")
      case True
      then have "assigned ! v = None" using fresh by (auto simp: unassigned_iff)
      with v_old have "v \<notin> set (members ! c)" if "c < ?c" for c using that by force
      with True v ms show ?thesis by (auto simp: a' assign_all_nth members' nth_append)
    next
      case False
      with v ms v_old show ?thesis by (auto simp: a' assign_all_nth members' nth_append)
    qed
  qed
  moreover have "sorted_wrt (<) (sort ms)" using ms(1) by (simp add: strict_sorted_iff)
  ultimately have "classes_ok parents assigned' members'"
    using ok r ms(2) a' members' by (auto simp: classes_ok_def)
  moreover have "set (r # B) \<inter> unassigned assigned' = {}"
    using B by (auto simp: a' disjoint_iff unassigned_iff assign_all_nth self_in_class)
  ultimately show ?thesis by blast
qed

lemma assign_components_ok:
  assumes "parents_bounded parents" and "transposed parents children"
    and "assign_components parents children = (assigned, members)"
  shows "classes_ok parents assigned members \<and> unassigned assigned = {}"
proof -
  let ?f = "finish_order parents"
  note order = finish_order_ok [OF assms(1)]
  have run: "classes_ok parents a m \<and> set B \<inter> unassigned a = {}"
    if "?f = A @ B" "fold (component_start children) (rev B) (replicate (length parents) None, []) = (a, m)" for A B a m
    using that
  proof (induction B arbitrary: A a m)
    case Nil
    then show ?case by (auto simp: classes_ok_def assigned_as_def)
  next
    case (Cons r B)
    obtain a0 m0 where prev: "fold (component_start children) (rev B) (replicate (length parents) None, []) = (a0, m0)"
      by force
    have "?f = (A @ [r]) @ B" using Cons.prems(1) by simp
    from Cons.IH [OF this prev] have ok: "classes_ok parents a0 m0" and B: "set B \<inter> unassigned a0 = {}" by simp_all
    have "component_start children r (a0, m0) = (a, m)" using Cons.prems(2) prev by simp
    from component_start_ok [OF assms(1,2) ok order Cons.prems(1) B this] show ?case .
  qed
  have "classes_ok parents assigned members \<and> set ?f \<inter> unassigned assigned = {}"
    using run [of "[]" ?f] assms(3) by (simp add: assign_components_def)
  with order(3) show ?thesis by (auto simp: classes_ok_def unassigned_def)
qed

section \<open>The relations of the expansions\<close>

lemma add_parent_Inr: "add_parent n index parent (parents, children) =
    (if parent \<ge> n \<or> parent = index then Inl InvalidGraph
     else Inr (parents[index := parents ! index @ [parent]], children[parent := children ! parent @ [index]]))"
  by (simp add: add_parent_def)

lemma add_parents_Inr:
  "fold_result (add_parent n index) ps (parents, children) = Inr (parents', children') \<Longrightarrow>
     length parents = n \<Longrightarrow> length children = n \<Longrightarrow> index < n \<Longrightarrow>
     length parents' = n \<and> length children' = n
     \<and> (\<forall>p \<in> set ps. p < n \<and> p \<noteq> index)
     \<and> parents' = parents[index := parents ! index @ ps]
     \<and> (\<forall>v < n. set (children' ! v) = set (children ! v) \<union> (if v \<in> set ps then {index} else {}))"
proof (induction ps arbitrary: parents children)
  case Nil
  then show ?case by simp
next
  case (Cons p ps)
  let ?ps = "parents[index := parents ! index @ [p]]" and ?cs = "children[p := children ! p @ [index]]"
  have p: "p < n" "p \<noteq> index" and rest: "fold_result (add_parent n index) ps (?ps, ?cs) = Inr (parents', children')"
    using Cons.prems(1) by (simp_all add: add_parent_Inr split: if_splits)
  have "length parents' = n \<and> length children' = n \<and> (\<forall>p \<in> set ps. p < n \<and> p \<noteq> index)
      \<and> parents' = ?ps[index := ?ps ! index @ ps]
      \<and> (\<forall>v < n. set (children' ! v) = set (?cs ! v) \<union> (if v \<in> set ps then {index} else {}))"
    using Cons.prems(2-4) by (intro Cons.IH [OF rest]) simp_all
  with p Cons.prems(2-4) show ?case by (auto simp: nth_list_update)
qed

lemma add_parents_Inl:
  "fold_result (add_parent n index) ps state = Inl e \<Longrightarrow>
     e = InvalidGraph \<and> \<not> (\<forall>p \<in> set ps. p < n \<and> p \<noteq> index)"
proof (induction ps arbitrary: state)
  case (Cons p ps)
  then show ?case
    by (cases state) (auto simp: add_parent_def bind_result_def split: if_splits)
qed simp

text \<open>The state after the first expansions: their parents are recorded on both sides.\<close>

definition relations_upto :: "expansion_node list \<Rightarrow> nat \<Rightarrow> nat list list \<times> nat list list \<Rightarrow> bool" where
  "relations_upto xs k = (\<lambda>(parents, children).
     length parents = length xs \<and> length children = length xs
     \<and> (\<forall>i < k. x_id (xs ! i) = i \<and> parents_in_range xs (xs ! i))
     \<and> (\<forall>i < length xs. set (parents ! i) = (if i < k then set (parents_of (xs ! i)) else {}))
     \<and> (\<forall>v < length xs. \<forall>w. w \<in> set (children ! v) \<longleftrightarrow> w < k \<and> v \<in> set (parents_of (xs ! w))))"

lemma relations_upto_step:
  assumes ok: "relations_upto xs k state" and k: "k < length xs"
    and step: "add_expansion (length xs) (k, xs ! k) state = Inr state'"
  shows "relations_upto xs (Suc k) state'"
proof -
  obtain parents children where state: "state = (parents, children)" by force
  have id: "x_id (xs ! k) = k"
    using step state by (auto simp: add_expansion_def split: if_splits)
  obtain parents' children' where
    add: "fold_result (add_parent (length xs) k) (parents_of (xs ! k)) (parents, children) = Inr (parents', children')"
    and state': "state' = (parents'[k := sort_dedup (parents' ! k)], children')"
    using step state by (auto simp: add_expansion_def bind_result_def split: if_splits sum.splits)
  have len: "length parents = length xs" "length children = length xs"
    and empty: "set (parents ! k) = {}"
    using ok k by (simp_all add: relations_upto_def state)
  note facts = add_parents_Inr [OF add len k]
  have "parents_in_range xs (xs ! k)" using facts id by (auto simp: parents_in_range_def parents_of_iff)
  then show ?thesis
    using ok k facts id empty
    by (auto simp: relations_upto_def state state' nth_list_update less_Suc_eq split: if_splits)
qed

lemma expansion_relations_Inr:
  assumes "expansion_relations xs = Inr (parents, children)"
  shows "dense_by x_id xs" and "list_all (parents_in_range xs) xs"
    and "length parents = length xs" and "parents_bounded parents" and "transposed parents children"
    and "\<And>v w. parent_edge parents v w \<longleftrightarrow> v < length xs \<and> has_parent (xs ! v) w"
proof -
  let ?n = "length xs"
  have run: "fold_result (add_expansion ?n) (enumerate k (drop k xs)) state = Inr state' \<Longrightarrow>
      relations_upto xs k state \<Longrightarrow> k \<le> ?n \<Longrightarrow> relations_upto xs ?n state'" for k state state'
  proof (induction "?n - k" arbitrary: k state)
    case 0
    then show ?case by simp
  next
    case (Suc d)
    then have k: "k < ?n" by simp
    then have "enumerate k (drop k xs) = (k, xs ! k) # enumerate (Suc k) (drop (Suc k) xs)"
      by (simp add: Cons_nth_drop_Suc [symmetric])
    with Suc.prems(1) obtain state1 where "add_expansion ?n (k, xs ! k) state = Inr state1"
      and rest: "fold_result (add_expansion ?n) (enumerate (Suc k) (drop (Suc k) xs)) state1 = Inr state'"
      by (auto simp: bind_result_def split: sum.splits)
    from relations_upto_step [OF Suc.prems(2) k this(1)] rest k Suc.hyps(2) show ?case
      by (intro Suc.hyps(1) [OF _ rest]) simp_all
  qed
  obtain children0 where fold: "fold_result (add_expansion ?n) (enumerate 0 xs) (replicate ?n [], replicate ?n [])
      = Inr (parents, children0)" and children: "children = map sort_dedup children0"
    using assms by (auto simp: expansion_relations_def bind_result_def split: sum.splits)
  have "relations_upto xs 0 (replicate ?n [], replicate ?n [])" by (simp add: relations_upto_def)
  from run [of 0, simplified, OF fold this] have ok: "relations_upto xs ?n (parents, children0)" .
  then show "dense_by x_id xs" "list_all (parents_in_range xs) xs" "length parents = ?n"
    by (simp_all add: relations_upto_def dense_by_nth list_all_length)
  show edge: "parent_edge parents v w \<longleftrightarrow> v < ?n \<and> has_parent (xs ! v) w" for v w
    using ok by (auto simp: relations_upto_def parent_edge_def parents_of_iff)
  have bound: "w < ?n" if "v < ?n" "has_parent (xs ! v) w" for v w
    using ok that by (auto simp: relations_upto_def parents_in_range_def)
  then show "parents_bounded parents" using edge ok by (auto simp: parents_bounded_def relations_upto_def)
  show "transposed parents children"
    using ok by (auto simp: transposed_def relations_upto_def children parent_edge_def)
qed

lemma expansion_relations_Inl:
  "expansion_relations xs = Inl e \<Longrightarrow>
     e = InvalidGraph \<and> \<not> (dense_by x_id xs \<and> list_all (parents_in_range xs) xs)"
proof -
  assume "expansion_relations xs = Inl e"
  then have "fold_result (add_expansion (length xs)) (enumerate 0 xs) (replicate (length xs) [], replicate (length xs) [])
      = Inl e"
    by (auto simp: expansion_relations_def bind_result_def split: sum.splits)
  moreover have "fold_result (add_expansion (length xs)) ys state = Inl e \<Longrightarrow>
      \<exists>(i, node) \<in> set ys. e = InvalidGraph \<and> (x_id node \<noteq> i \<or> \<not> (\<forall>p \<in> set (parents_of node). p < length xs \<and> p \<noteq> i))"
    for ys state
  proof (induction ys arbitrary: state)
    case (Cons y ys)
    obtain i node where y: "y = (i, node)" by force
    show ?case
    proof (cases "add_expansion (length xs) y state")
      case (Inl e')
      with Cons.prems have "e' = e" by (simp add: bind_result_def)
      with Inl y show ?thesis
        by (cases state)
          (auto simp: add_expansion_def bind_result_def split: if_splits sum.splits dest!: add_parents_Inl)
    next
      case (Inr state1)
      with Cons.prems have "fold_result (add_expansion (length xs)) ys state1 = Inl e" by (simp add: bind_result_def)
      from Cons.IH [OF this] show ?thesis by auto
    qed
  qed simp
  ultimately obtain i node where i: "(i, node) \<in> set (enumerate 0 xs)" "e = InvalidGraph"
    "x_id node \<noteq> i \<or> \<not> (\<forall>p \<in> set (parents_of node). p < length xs \<and> p \<noteq> i)" by blast
  then have "i < length xs" "node = xs ! i" by (auto simp: in_set_enumerate_eq)
  with i(2,3) show ?thesis
    by (force simp: dense_by_nth list_all_length parents_in_range_def parents_of_iff)
qed

lemma distinct_sort_dedup [simp]: "distinct (sort_dedup xs)"
proof -
  have "sorted ys \<Longrightarrow> distinct (remdups_adj ys)" for ys :: "'a list"
    by (induction ys rule: remdups_adj.induct) auto
  then show ?thesis by (simp add: sort_dedup_def)
qed

section \<open>The facts of the components\<close>

definition written_units :: "expansion_node list \<Rightarrow> nat set \<Rightarrow> source_unit_id set" where
  "written_units xs ms = {u. \<exists>e \<in> ms. written_invocation (xs ! e) = Some u}"

definition active_invocation :: "source_inventory \<Rightarrow> source_unit_id \<Rightarrow> bool" where
  "active_invocation source unit \<longleftrightarrow>
     (case unit_at (src_units source) unit of None \<Rightarrow> False
      | Some written \<Rightarrow> unit_kind written = MacroInvocation \<and> unit_cfg written = Active)"

definition components_above ::
  "nat list list \<Rightarrow> nat option list \<Rightarrow> nat \<Rightarrow> nat set \<Rightarrow> nat set" where
  "components_above parents assigned component ms =
     {c. c \<noteq> component \<and> (\<exists>e \<in> ms. \<exists>p \<in> set (parents ! e). the (assigned ! p) = c)}"

lemma written_units_insert:
  "written_units xs (insert e ms) = set_option (written_invocation (xs ! e)) \<union> written_units xs ms"
  by (cases "written_invocation (xs ! e)") (auto simp: written_units_def)

lemma add_member_eq:
  "add_member source xs parents assigned c e (units, over) =
     (if pred_option (active_invocation source) (written_invocation (xs ! e))
      then Inr (units @ (case written_invocation (xs ! e) of None \<Rightarrow> [] | Some u \<Rightarrow> [u]),
        over @ filter (\<lambda>d. d \<noteq> c) (map (\<lambda>p. the (assigned ! p)) (parents ! e)))
      else Inl InvalidGraph)"
proof (cases "written_invocation (xs ! e)")
  case None
  then show ?thesis by (simp add: add_member_def)
next
  case (Some u)
  show ?thesis
  proof (cases "unit_at (src_units source) u")
    case None
    with Some show ?thesis by (simp add: add_member_def active_invocation_def)
  next
    case written: (Some written)
    then have "unit_id written = u" by simp
    with Some written show ?thesis
      by (simp add: add_member_def active_invocation_def del: unit_at_Some)
  qed
qed

lemma add_members_Inr:
  "fold_result (add_member source xs parents assigned c) ms (units, over) = Inr (units', over') \<Longrightarrow>
     set units' = set units \<union> written_units xs (set ms)
     \<and> set over' = set over \<union> components_above parents assigned c (set ms)
     \<and> (\<forall>u \<in> written_units xs (set ms). active_invocation source u)"
proof (induction ms arbitrary: units over)
  case Nil
  then show ?case by (auto simp: written_units_def components_above_def)
next
  case (Cons e ms)
  let ?w = "written_invocation (xs ! e)"
  let ?us = "units @ (case ?w of None \<Rightarrow> [] | Some u \<Rightarrow> [u])"
  let ?as = "over @ filter (\<lambda>d. d \<noteq> c) (map (\<lambda>p. the (assigned ! p)) (parents ! e))"
  from Cons.prems have w: "pred_option (active_invocation source) ?w"
    and rest: "fold_result (add_member source xs parents assigned c) ms (?us, ?as) = Inr (units', over')"
    by (simp_all add: add_member_eq split: if_splits)
  from Cons.IH [OF rest] have IH: "set units' = set ?us \<union> written_units xs (set ms)"
    "set over' = set ?as \<union> components_above parents assigned c (set ms)"
    "\<forall>u \<in> written_units xs (set ms). active_invocation source u" by blast+
  have "set (case ?w of None \<Rightarrow> [] | Some u \<Rightarrow> [u]) = set_option ?w" by (cases ?w) simp_all
  moreover have "components_above parents assigned c (set (e # ms))
      = set (filter (\<lambda>d. d \<noteq> c) (map (\<lambda>p. the (assigned ! p)) (parents ! e))) \<union> components_above parents assigned c (set ms)"
    by (auto simp: components_above_def)
  ultimately show ?case
    using IH w by (auto simp: written_units_insert option.pred_set)
qed

lemma add_members_Inl:
  "fold_result (add_member source xs parents assigned c) ms (units, over) = Inl err \<Longrightarrow>
     err = InvalidGraph \<and> (\<exists>u \<in> written_units xs (set ms). \<not> active_invocation source u)"
proof (induction ms arbitrary: units over)
  case (Cons e ms)
  show ?case
  proof (cases "pred_option (active_invocation source) (written_invocation (xs ! e))")
    case True
    with Cons.prems have "\<exists>units over. fold_result (add_member source xs parents assigned c) ms (units, over) = Inl err"
      by (auto simp: add_member_eq)
    then have "err = InvalidGraph \<and> (\<exists>u \<in> written_units xs (set ms). \<not> active_invocation source u)"
      using Cons.IH by blast
    then show ?thesis by (auto simp: written_units_def)
  next
    case False
    with Cons.prems show ?thesis
      by (auto simp: add_member_eq written_units_def option.pred_set)
  qed
qed simp

lemma fold_add_component_child:
  "list_all (\<lambda>p. p < length components) ps \<Longrightarrow>
     let components' = fold (add_component_child c) ps components
     in length components' = length components
        \<and> (\<forall>d < length components.
             (components' ! d)\<lparr>comp_children := []\<rparr> = (components ! d)\<lparr>comp_children := []\<rparr>
             \<and> set (comp_children (components' ! d)) = set (comp_children (components ! d)) \<union> (if d \<in> set ps then {c} else {}))"
proof (induction ps arbitrary: components)
  case Nil
  then show ?case by (simp add: Let_def)
next
  case (Cons p ps)
  let ?next = "add_component_child c p components"
  have p: "p < length components" "list_all (\<lambda>p. p < length ?next) ps"
    using Cons.prems by (simp_all add: add_component_child_def)
  have len: "length ?next = length components" by (simp add: add_component_child_def)
  have nth: "?next ! d = (if d = p then (components ! d)\<lparr>comp_children := comp_children (components ! d) @ [c]\<rparr> else components ! d)"
    if "d < length components" for d
    using that p(1) by (simp add: add_component_child_def)
  let ?final = "fold (add_component_child c) ps ?next"
  from Cons.IH [OF p(2)] have IH: "length ?final = length components"
    "\<And>d. d < length components \<Longrightarrow> (?final ! d)\<lparr>comp_children := []\<rparr> = (?next ! d)\<lparr>comp_children := []\<rparr>"
    "\<And>d. d < length components \<Longrightarrow>
       set (comp_children (?final ! d)) = set (comp_children (?next ! d)) \<union> (if d \<in> set ps then {c} else {})"
    unfolding Let_def len by blast+
  have "(?final ! d)\<lparr>comp_children := []\<rparr> = (components ! d)\<lparr>comp_children := []\<rparr>
      \<and> set (comp_children (?final ! d)) = set (comp_children (components ! d)) \<union> (if d \<in> set (p # ps) then {c} else {})"
    if "d < length components" for d
  proof
    have "(?next ! d)\<lparr>comp_children := []\<rparr> = (components ! d)\<lparr>comp_children := []\<rparr>"
      using nth [OF that] by (cases "d = p") simp_all
    with IH(2) [OF that] show "(?final ! d)\<lparr>comp_children := []\<rparr> = (components ! d)\<lparr>comp_children := []\<rparr>" by (rule trans)
    show "set (comp_children (?final ! d)) = set (comp_children (components ! d)) \<union> (if d \<in> set (p # ps) then {c} else {})"
      using IH(3) [OF that] nth [OF that] by auto
  qed
  with IH(1) show ?case by (simp add: Let_def)
qed

lemma link_children_ok:
  assumes "\<And>c. c < length components \<Longrightarrow> list_all (\<lambda>p. p < length components) (comp_parents (components ! c))"
    and "\<And>c. c < length components \<Longrightarrow> comp_children (components ! c) = []"
  shows "length (link_children components) = length components"
    and "c < length components \<Longrightarrow>
      (link_children components ! c)\<lparr>comp_children := []\<rparr> = (components ! c)\<lparr>comp_children := []\<rparr>
      \<and> distinct (comp_children (link_children components ! c))
      \<and> set (comp_children (link_children components ! c))
          = {d. d < length components \<and> c \<in> set (comp_parents (components ! d))}"
proof -
  let ?n = "length components"
  let ?step = "\<lambda>(component, facts) cs. fold (add_component_child component) (comp_parents facts) cs"
  have run: "k \<le> ?n \<Longrightarrow>
      length (fold ?step (take k (enumerate 0 components)) components) = ?n
      \<and> (\<forall>d < ?n. (fold ?step (take k (enumerate 0 components)) components ! d)\<lparr>comp_children := []\<rparr>
            = (components ! d)\<lparr>comp_children := []\<rparr>
          \<and> set (comp_children (fold ?step (take k (enumerate 0 components)) components ! d))
            = {e. e < k \<and> d \<in> set (comp_parents (components ! e))})" for k
  proof (induction k)
    case 0
    show ?case using assms(2) by simp
  next
    case (Suc k)
    let ?cs = "fold ?step (take k (enumerate 0 components)) components"
    have k: "k < ?n" using Suc.prems by simp
    have IH: "length ?cs = ?n" "\<And>d. d < ?n \<Longrightarrow> (?cs ! d)\<lparr>comp_children := []\<rparr> = (components ! d)\<lparr>comp_children := []\<rparr>"
      "\<And>d. d < ?n \<Longrightarrow> set (comp_children (?cs ! d)) = {e. e < k \<and> d \<in> set (comp_parents (components ! e))}"
      using Suc.IH k by auto
    have "take (Suc k) (enumerate 0 components) = take k (enumerate 0 components) @ [(k, components ! k)]"
      using k by (simp add: take_Suc_conv_app_nth nth_enumerate_eq)
    then have step: "fold ?step (take (Suc k) (enumerate 0 components)) components
        = fold (add_component_child k) (comp_parents (components ! k)) ?cs" by simp
    have "list_all (\<lambda>p. p < length ?cs) (comp_parents (components ! k))" using assms(1) k IH(1) by simp
    note next_facts = fold_add_component_child [OF this, of k, unfolded Let_def IH(1)]
    let ?next = "fold (add_component_child k) (comp_parents (components ! k)) ?cs"
    have "(?next ! d)\<lparr>comp_children := []\<rparr> = (components ! d)\<lparr>comp_children := []\<rparr>
        \<and> set (comp_children (?next ! d)) = {e. e < Suc k \<and> d \<in> set (comp_parents (components ! e))}" if d: "d < ?n" for d
    proof
      have "(?next ! d)\<lparr>comp_children := []\<rparr> = (?cs ! d)\<lparr>comp_children := []\<rparr>"
        using next_facts d by blast
      then show "(?next ! d)\<lparr>comp_children := []\<rparr> = (components ! d)\<lparr>comp_children := []\<rparr>"
        using IH(2) [OF d] by (rule trans)
      have "set (comp_children (?next ! d)) = set (comp_children (?cs ! d))
          \<union> (if d \<in> set (comp_parents (components ! k)) then {k} else {})" using next_facts d by blast
      then show "set (comp_children (?next ! d)) = {e. e < Suc k \<and> d \<in> set (comp_parents (components ! e))}"
        using IH(3) [OF d] by (auto simp: less_Suc_eq)
    qed
    then show ?case unfolding step using next_facts by blast
  qed
  have all: "take ?n (enumerate 0 components) = enumerate 0 components" by simp
  let ?cs = "fold ?step (enumerate 0 components) components"
  have link: "link_children components = map (\<lambda>c. c\<lparr>comp_children := sort_dedup (comp_children c)\<rparr>) ?cs"
    by (simp add: link_children_def)
  note facts = run [of ?n, unfolded all, OF order_refl]
  show "length (link_children components) = ?n" using facts by (simp add: link)
  assume c: "c < ?n"
  have at: "link_children components ! c = (?cs ! c)\<lparr>comp_children := sort_dedup (comp_children (?cs ! c))\<rparr>"
    using c facts by (simp add: link)
  have "(?cs ! c)\<lparr>comp_children := []\<rparr> = (components ! c)\<lparr>comp_children := []\<rparr>"
    "set (comp_children (?cs ! c)) = {d. d < ?n \<and> c \<in> set (comp_parents (components ! d))}"
    using facts c by blast+
  then show "(link_children components ! c)\<lparr>comp_children := []\<rparr> = (components ! c)\<lparr>comp_children := []\<rparr>
      \<and> distinct (comp_children (link_children components ! c))
      \<and> set (comp_children (link_children components ! c))
          = {d. d < ?n \<and> c \<in> set (comp_parents (components ! d))}"
    by (simp add: at)
qed

section \<open>The result\<close>

text \<open>The expansions that are each other's ancestors.\<close>

definition expansion_class :: "expansion_node list \<Rightarrow> expansion_id \<Rightarrow> expansion_id set" where
  "expansion_class xs v = {w. expansion_ancestor xs v w \<and> expansion_ancestor xs w v}"

lemma reaches_ancestor:
  assumes "\<And>v w. parent_edge parents v w \<longleftrightarrow> v < length xs \<and> has_parent (xs ! v) w"
  shows "reaches parents v w \<longleftrightarrow> expansion_ancestor xs v w"
proof
  assume "reaches parents v w"
  then show "expansion_ancestor xs v w"
    by (induction rule: converse_rtranclp_induct) (auto simp: assms intro: expansion_ancestor.intros)
next
  assume "expansion_ancestor xs v w"
  then show "reaches parents v w"
    by induction (auto simp: assms intro: converse_rtranclp_into_rtranclp)
qed

definition component_of :: "nat option list \<Rightarrow> nat \<Rightarrow> nat" where
  "component_of assigned v = the (assigned ! v)"

text \<open>
  The components the code computes: the assignment is total and has the same value exactly on the
  expansions that are each other's ancestors, no component is empty, and the lists of a component
  are the written invocations of its members, the components of their parents, and the components
  they are parents of.
\<close>

definition component_lists ::
  "expansion_node list \<Rightarrow> nat option list \<Rightarrow> expansion_component list \<Rightarrow> expansion_id \<Rightarrow> nat \<Rightarrow> bool" where
  "component_lists xs assigned components v c \<longleftrightarrow>
     distinct (comp_sources (components ! c))
     \<and> set (comp_sources (components ! c)) = written_units xs (expansion_class xs v)
     \<and> distinct (comp_parents (components ! c))
     \<and> set (comp_parents (components ! c))
         = {d. d \<noteq> c \<and> (\<exists>e \<in> expansion_class xs v. \<exists>p. has_parent (xs ! e) p \<and> component_of assigned p = d)}
     \<and> distinct (comp_children (components ! c))
     \<and> set (comp_children (components ! c))
         = {d. d < length components \<and> c \<in> set (comp_parents (components ! d))}
     \<and> comp_target_edges (components ! c) = []"

definition components_exact ::
  "expansion_node list \<Rightarrow> nat option list \<Rightarrow> expansion_component list \<Rightarrow> bool" where
  "components_exact xs assigned components \<longleftrightarrow>
     length assigned = length xs \<and> None \<notin> set assigned
     \<and> (\<forall>c. c < length components \<longleftrightarrow> (\<exists>v < length xs. component_of assigned v = c))
     \<and> (\<forall>v < length xs. \<forall>w < length xs.
          component_of assigned v = component_of assigned w \<longleftrightarrow> w \<in> expansion_class xs v)
     \<and> (\<forall>v < length xs. component_lists xs assigned components v (component_of assigned v))"

definition expansions_indexable :: "source_inventory \<Rightarrow> expansion_node list \<Rightarrow> bool" where
  "expansions_indexable source xs \<longleftrightarrow>
     dense_by x_id xs \<and> list_all (parents_in_range xs) xs
     \<and> list_all (\<lambda>node. pred_option (active_invocation source) (written_invocation node)) xs"

lemma component_facts_Inr:
  "component_facts source xs parents assigned (c, ms) = Inr k \<longleftrightarrow>
     (\<exists>units over. fold_result (add_member source xs parents assigned c) ms ([], []) = Inr (units, over)
       \<and> k = \<lparr>comp_sources = sort_dedup units, comp_parents = sort_dedup over,
              comp_children = [], comp_target_edges = []\<rparr>)"
  by (auto simp: component_facts_def bind_result_eq_Inr)

lemma component_facts_exact:
  assumes "component_facts source xs parents assigned (c, ms) = Inr k"
  shows "distinct (comp_sources k)" and "set (comp_sources k) = written_units xs (set ms)"
    and "distinct (comp_parents k)" and "set (comp_parents k) = components_above parents assigned c (set ms)"
    and "comp_children k = []" and "comp_target_edges k = []"
    and "\<forall>u \<in> written_units xs (set ms). active_invocation source u"
proof -
  from assms obtain units over where
    run: "fold_result (add_member source xs parents assigned c) ms ([], []) = Inr (units, over)"
    and k: "k = \<lparr>comp_sources = sort_dedup units, comp_parents = sort_dedup over,
              comp_children = [], comp_target_edges = []\<rparr>"
    unfolding component_facts_Inr by blast
  show "distinct (comp_sources k)" "set (comp_sources k) = written_units xs (set ms)"
    "distinct (comp_parents k)" "set (comp_parents k) = components_above parents assigned c (set ms)"
    "comp_children k = []" "comp_target_edges k = []"
    "\<forall>u \<in> written_units xs (set ms). active_invocation source u"
    using add_members_Inr [OF run] by (simp_all add: k)
qed

lemma classes_ok_total:
  assumes ok: "classes_ok parents assigned members" and all: "unassigned assigned = {}"
    and bounded: "parents_bounded parents" and v: "v < length parents"
  shows "assigned ! v = Some (component_of assigned v)"
    and "component_of assigned v < length members"
    and "set (members ! component_of assigned v) = class_of parents v"
    and "w < length parents \<Longrightarrow> component_of assigned v = component_of assigned w \<longleftrightarrow> w \<in> class_of parents v"
proof -
  have len: "length assigned = length parents" using ok by (simp add: classes_ok_def)
  have total: "assigned ! u = Some (component_of assigned u)" if "u < length parents" for u
  proof -
    have "u \<notin> unassigned assigned" using all by simp
    with that len show ?thesis by (auto simp: unassigned_iff component_of_def)
  qed
  show v_some: "assigned ! v = Some (component_of assigned v)" using v by (rule total)
  show "component_of assigned v < length members" "set (members ! component_of assigned v) = class_of parents v"
    by (rule classes_ok_member [OF ok v v_some])+
  assume w: "w < length parents"
  show "component_of assigned v = component_of assigned w \<longleftrightarrow> w \<in> class_of parents v"
  proof
    assume eq: "component_of assigned v = component_of assigned w"
    have "class_of parents v = class_of parents w"
      using classes_ok_member(2) [OF ok v v_some] classes_ok_member(2) [OF ok w total [OF w]] eq by simp
    then show "w \<in> class_of parents v" using self_in_class by blast
  next
    assume "w \<in> class_of parents v"
    from classes_ok_class [OF ok v v_some bounded this] show "component_of assigned v = component_of assigned w"
      by (simp add: component_of_def)
  qed
qed

lemma assign_components_class:
  assumes rel: "expansion_relations xs = Inr (parents, children)"
    and search: "assign_components parents children = (assigned, members)"
  shows "length assigned = length xs" and "None \<notin> set assigned"
    and "\<And>v. v < length xs \<Longrightarrow> component_of assigned v < length members
          \<and> set (members ! component_of assigned v) = expansion_class xs v"
    and "\<And>v w. v < length xs \<Longrightarrow> w < length xs \<Longrightarrow>
          component_of assigned v = component_of assigned w \<longleftrightarrow> w \<in> expansion_class xs v"
    and "\<And>c. c < length members \<Longrightarrow> \<exists>v < length xs. component_of assigned v = c"
proof -
  note facts = expansion_relations_Inr [OF rel]
  have ok: "classes_ok parents assigned members" and total: "unassigned assigned = {}"
    using assign_components_ok [OF facts(4,5) search] by simp_all
  note each = classes_ok_total [OF ok total facts(4), unfolded facts(3)]
  have cls: "class_of parents v = expansion_class xs v" for v
    using reaches_ancestor [OF facts(6)] by (simp add: class_of_def mutual_def expansion_class_def)
  show len: "length assigned = length xs" using ok facts(3) by (simp add: classes_ok_def)
  show "None \<notin> set assigned" using total len by (auto simp: in_set_conv_nth unassigned_def)
  show "component_of assigned v < length members \<and> set (members ! component_of assigned v) = expansion_class xs v"
    if "v < length xs" for v using each(2,3) [OF that] cls by simp
  show "component_of assigned v = component_of assigned w \<longleftrightarrow> w \<in> expansion_class xs v"
    if "v < length xs" "w < length xs" for v w using each(4) [OF that] cls by simp
  show "\<exists>v < length xs. component_of assigned v = c" if c: "c < length members" for c
  proof -
    obtain r where r: "r < length xs" "set (members ! c) = class_of parents r"
      using ok c facts(3) by (auto simp: classes_ok_def list_all_length)
    have "r \<in> set (members ! c)" using self_in_class [of r parents] r(2) by simp
    moreover have "assigned_as assigned members" using ok by (simp add: classes_ok_def)
    ultimately have "assigned ! r = Some c" using assigned_asD [of assigned members r c] len r(1) c by simp
    with r(1) show ?thesis by (auto simp: component_of_def)
  qed
qed

lemma components_above_iff:
  assumes "\<And>v w. parent_edge parents v w \<longleftrightarrow> v < length xs \<and> has_parent (xs ! v) w"
    and "ms \<subseteq> {..< length xs}" and "length parents = length xs"
  shows "d \<in> components_above parents assigned c ms \<longleftrightarrow>
    d \<noteq> c \<and> (\<exists>e \<in> ms. \<exists>p. has_parent (xs ! e) p \<and> component_of assigned p = d)"
proof -
  have "p \<in> set (parents ! e) \<longleftrightarrow> has_parent (xs ! e) p" if "e \<in> ms" for e p
  proof -
    have "e < length xs" using that assms(2) by auto
    then show ?thesis using assms(1) [of e p] assms(3) by (simp add: parent_edge_def)
  qed
  then show ?thesis by (auto simp: components_above_def component_of_def)
qed

lemma classes_cover:
  assumes "\<And>c. c < length members \<Longrightarrow> \<exists>v < length xs. component_of assigned v = c"
    and "\<And>v. v < length xs \<Longrightarrow> component_of assigned v < length members
          \<and> set (members ! component_of assigned v) = expansion_class xs v"
    and "c < length members"
  obtains v where "v < length xs" and "component_of assigned v = c" and "set (members ! c) = expansion_class xs v"
  using assms by blast

lemma component_lists_linked:
  assumes "distinct (comp_sources k)" and "set (comp_sources k) = written_units xs (expansion_class xs v)"
    and "distinct (comp_parents k)"
    and "set (comp_parents k) = {d. d \<noteq> c \<and> (\<exists>e \<in> expansion_class xs v. \<exists>p. has_parent (xs ! e) p \<and> component_of assigned p = d)}"
    and "comp_target_edges k = []"
    and "(components ! c)\<lparr>comp_children := []\<rparr> = k\<lparr>comp_children := []\<rparr>"
    and "distinct (comp_children (components ! c))"
    and "set (comp_children (components ! c)) = {d. d < length components \<and> c \<in> set (comp_parents (components ! d))}"
  shows "component_lists xs assigned components v c"
proof -
  have "comp_sources (components ! c) = comp_sources k" "comp_parents (components ! c) = comp_parents k"
    "comp_target_edges (components ! c) = comp_target_edges k"
    using arg_cong [OF assms(6), of comp_sources] arg_cong [OF assms(6), of comp_parents]
      arg_cong [OF assms(6), of comp_target_edges] by simp_all
  with assms show ?thesis by (simp add: component_lists_def)
qed

lemma expansion_components_Inr:
  assumes "expansion_components source graph = Inr (assigned, components)"
  shows "components_exact (g_expansions graph) assigned components"
    and "expansions_indexable source (g_expansions graph)"
proof -
  let ?xs = "g_expansions graph"
  from assms obtain parents children members facts where
    rel: "expansion_relations ?xs = Inr (parents, children)"
    and search: "assign_components parents children = (assigned, members)"
    and fs: "map_result (component_facts source ?xs parents assigned) (enumerate 0 members) = Inr facts"
    and linked: "components = link_children facts"
  proof -
    obtain parents children where rel: "expansion_relations ?xs = Inr (parents, children)"
      using assms by (auto simp: expansion_components_def bind_result_eq_Inr)
    obtain a members where search: "assign_components parents children = (a, members)" by force
    with rel assms show thesis by (auto simp: expansion_components_def bind_result_eq_Inr intro: that)
  qed
  note r = expansion_relations_Inr [OF rel] and a = assign_components_class [OF rel search]
  have len: "length facts = length members" using map_result_length [OF fs] by simp
  have fact: "component_facts source ?xs parents assigned (c, members ! c) = Inr (facts ! c)" if "c < length members" for c
    using list_all2_nthD [OF fs [unfolded map_result_eq_Inr], of c] that by (simp add: nth_enumerate_eq)
  have inside: "expansion_class ?xs v \<subseteq> {..< length ?xs}" if "v < length ?xs" for v
  proof -
    have "expansion_class ?xs v = class_of parents v"
      using reaches_ancestor [OF r(6)] by (simp add: class_of_def mutual_def expansion_class_def)
    with class_of_bounded [OF r(4)] that r(3) show ?thesis by auto
  qed
  have over: "set (comp_parents (facts ! c))
      = {d. d \<noteq> c \<and> (\<exists>e \<in> expansion_class ?xs v. \<exists>p. has_parent (?xs ! e) p \<and> component_of assigned p = d)}"
    if "c < length members" "v < length ?xs" "set (members ! c) = expansion_class ?xs v" for c v
    using component_facts_exact(4) [OF fact [OF that(1)]] components_above_iff [OF r(6) inside [OF that(2)] r(3)]
    unfolding that(3) by blast
  have parent_bound: "list_all (\<lambda>p. p < length facts) (comp_parents (facts ! c))" if "c < length facts" for c
  proof -
    from that len have c: "c < length members" by simp
    obtain v where v: "v < length ?xs" "set (members ! c) = expansion_class ?xs v"
      using classes_cover [OF a(5,3) c] by blast
    have "component_of assigned p < length facts" if "e \<in> expansion_class ?xs v" "has_parent (?xs ! e) p" for e p
    proof -
      have "parents_in_range ?xs (?xs ! e)" using inside [OF v(1)] that(1) r(2) by (auto simp: list_all_length)
      with that(2) have "p < length ?xs" by (simp add: parents_in_range_def)
      with a(3) len show ?thesis by simp
    qed
    with over [OF c v] show ?thesis by (auto simp: list_all_iff)
  qed
  have no_children: "comp_children (facts ! c) = []" if "c < length facts" for c
    using component_facts_exact(5) [OF fact] that len by simp
  have link: "length components = length facts"
    "\<And>c. c < length facts \<Longrightarrow> (components ! c)\<lparr>comp_children := []\<rparr> = (facts ! c)\<lparr>comp_children := []\<rparr>
      \<and> distinct (comp_children (components ! c))
      \<and> set (comp_children (components ! c)) = {d. d < length facts \<and> c \<in> set (comp_parents (facts ! d))}"
    unfolding linked using link_children_ok [of facts] parent_bound no_children by blast+
  have len': "length components = length members" using link(1) len by simp
  have parents_same: "comp_parents (components ! c) = comp_parents (facts ! c)" if "c < length facts" for c
    using arg_cong [of _ _ comp_parents, OF link(2) [OF that, THEN conjunct1]] by simp
  have lists: "component_lists ?xs assigned components v (component_of assigned v)" if v: "v < length ?xs" for v
  proof -
    let ?c = "component_of assigned v"
    have c: "?c < length members" "set (members ! ?c) = expansion_class ?xs v" using a(3) [OF v] by simp_all
    note k = component_facts_exact [OF fact [OF c(1)], unfolded c(2)]
    have l: "(components ! ?c)\<lparr>comp_children := []\<rparr> = (facts ! ?c)\<lparr>comp_children := []\<rparr>"
      "distinct (comp_children (components ! ?c))"
      "set (comp_children (components ! ?c)) = {d. d < length facts \<and> ?c \<in> set (comp_parents (facts ! d))}"
      using link(2) [of ?c] c(1) len by simp_all
    have "{d. d < length facts \<and> ?c \<in> set (comp_parents (facts ! d))}
        = {d. d < length components \<and> ?c \<in> set (comp_parents (components ! d))}"
      using parents_same len len' by auto
    with l(3) have "set (comp_children (components ! ?c))
        = {d. d < length components \<and> ?c \<in> set (comp_parents (components ! d))}" by simp
    from component_lists_linked [OF k(1,2,3) over [OF c(1) v c(2)] k(6) l(1,2) this] show ?thesis .
  qed
  have bound: "c < length components \<longleftrightarrow> (\<exists>v < length ?xs. component_of assigned v = c)" for c
    using a(3,5) len' by auto
  show "components_exact ?xs assigned components"
    unfolding components_exact_def using a(1,2,4) bound lists by blast
  have "pred_option (active_invocation source) (written_invocation node)" if "node \<in> set ?xs" for node
  proof -
    from that obtain i where i: "i < length ?xs" "node = ?xs ! i" by (auto simp: in_set_conv_nth)
    have c: "component_of assigned i < length members" "set (members ! component_of assigned i) = expansion_class ?xs i"
      using a(3) [OF i(1)] by simp_all
    have "i \<in> expansion_class ?xs i" by (simp add: expansion_class_def ancestor_self)
    with component_facts_exact(7) [OF fact [OF c(1)], unfolded c(2)] i(2) show ?thesis
      by (auto simp: written_units_def option.pred_set)
  qed
  with r(1,2) show "expansions_indexable source ?xs" by (simp add: expansions_indexable_def list_all_iff)
qed

lemma map_result_Inl: "map_result f xs = Inl e \<Longrightarrow> \<exists>x \<in> set xs. f x = Inl e"
  by (induction xs) (auto simp: bind_result_eq_Inl)

lemma expansion_components_Inl:
  assumes "expansion_components source graph = Inl e"
  shows "e = InvalidGraph \<and> \<not> expansions_indexable source (g_expansions graph)"
proof (cases "expansion_relations (g_expansions graph)")
  case (Inl e')
  with assms have "e' = e" by (simp add: expansion_components_def)
  with expansion_relations_Inl [OF Inl] show ?thesis by (auto simp: expansions_indexable_def)
next
  let ?xs = "g_expansions graph"
  case (Inr rel)
  obtain parents children assigned members where
    rel: "rel = (parents, children)" and search: "assign_components parents children = (assigned, members)"
    by (cases rel, cases "assign_components (fst rel) (snd rel)") auto
  have relations: "expansion_relations ?xs = Inr (parents, children)" using Inr rel by simp
  with assms search have "map_result (component_facts source ?xs parents assigned) (enumerate 0 members) = Inl e"
    by (auto simp: expansion_components_def bind_result_eq_Inl)
  from map_result_Inl [OF this] obtain c ms where c: "(c, ms) \<in> set (enumerate 0 members)"
    "component_facts source ?xs parents assigned (c, ms) = Inl e" by auto
  then have c': "c < length members" "ms = members ! c" by (auto simp: in_set_enumerate_eq)
  from c(2) have "fold_result (add_member source ?xs parents assigned c) ms ([], []) = Inl e"
    by (auto simp: component_facts_def bind_result_eq_Inl)
  from add_members_Inl [OF this] obtain u where e: "e = InvalidGraph" and u: "u \<in> written_units ?xs (set ms)"
    "\<not> active_invocation source u" by blast
  note r = expansion_relations_Inr [OF relations] and a = assign_components_class [OF relations search]
  obtain v where v: "v < length ?xs" "set ms = expansion_class ?xs v"
    using classes_cover [OF a(5,3) c'(1)] c'(2) by blast
  from u(1) obtain w where w: "w \<in> set ms" "written_invocation (?xs ! w) = Some u" by (auto simp: written_units_def)
  have "w \<in> class_of parents v"
    using w(1) v(2) reaches_ancestor [OF r(6)] by (simp add: class_of_def mutual_def expansion_class_def)
  with class_of_bounded [OF r(4)] v(1) r(3) have "?xs ! w \<in> set ?xs" by simp
  with w(2) u(2) have "\<not> list_all (\<lambda>node. pred_option (active_invocation source) (written_invocation node)) ?xs"
    by (force simp: list_all_iff)
  with e show ?thesis by (simp add: expansions_indexable_def)
qed

text \<open>
  C21.  The collapse of the expansion graph: \<open>expansion_components\<close> succeeds exactly when the ids are
  the positions, every parent is another expansion and every written invocation is an active macro
  invocation of the source.  Its components are then the strongly connected components of the union
  of the three parent relations, each with the written invocations of its members, the components
  above it and the components below it.
\<close>

theorem expansion_components_exact:
  "case expansion_components source graph of
     Inr (assigned, components) \<Rightarrow>
       expansions_indexable source (g_expansions graph)
       \<and> components_exact (g_expansions graph) assigned components
   | Inl e \<Rightarrow> e = InvalidGraph \<and> \<not> expansions_indexable source (g_expansions graph)"
  using expansion_components_Inr [of source graph] expansion_components_Inl [of source graph]
  by (auto split: sum.split)

end
