(* ===== verification/Reachability_Index.thy ===== *)
theory Reachability_Index
  imports Component_Search Site_Owners
begin

text \<open>
  The immutable index of \<open>src/retention/reachability.rs\<close> (\<open>CompilerReachabilityIndex\<close>): the compiler
  edges by position and by source node, the source sites that gate edges with their owners, and the
  expansion components that gate edges to expansions.
\<close>

section \<open>The index\<close>

record indexed_compiler_edge =
  ie_from :: graph_node
  ie_to :: graph_node
  ie_unconditional :: bool
  ie_component :: "nat option"

record indexed_source_site =
  is_owners :: "source_unit_id list"
  is_edges :: "nat list"

record reachability_index =
  ri_edges :: "indexed_compiler_edge list"
  ri_by_from :: "graph_node \<rightharpoonup> nat list"
  ri_sites :: "indexed_source_site list"
  ri_sites_by_source :: "nat list list"
  ri_components :: "expansion_component list"
  ri_components_by_source :: "nat list list"

text \<open>\<open>is_compiler_dependency\<close> of \<open>retention.rs\<close> matches every kind.\<close>

definition is_compiler_dependency :: "dependency_kind \<Rightarrow> bool" where
  "is_compiler_dependency kind = True"

definition edge_skipped :: "expansion_id set \<Rightarrow> dependency_edge \<Rightarrow> bool" where
  "edge_skipped delegated edge \<longleftrightarrow>
     \<not> is_compiler_dependency (e_kind edge)
     \<or> e_kind edge = ExpansionUse
        \<and> (case e_to edge of NodeExpansion expansion \<Rightarrow> expansion \<in> delegated | _ \<Rightarrow> False)"

definition comes_from_definition :: "graph_node \<Rightarrow> bool" where
  "comes_from_definition node \<longleftrightarrow> (case node of NodeDefinition _ \<Rightarrow> True | _ \<Rightarrow> False)"

definition is_source_site :: "observation_site \<Rightarrow> bool" where
  "is_source_site site \<longleftrightarrow> (case site of SourceSite _ \<Rightarrow> True | _ \<Rightarrow> False)"

definition site_unconditional :: "dependency_edge \<Rightarrow> bool" where
  "site_unconditional edge \<longleftrightarrow>
     e_sites edge = [] \<or> \<not> comes_from_definition (e_from edge)
     \<or> list_ex (\<lambda>site. \<not> is_source_site site) (e_sites edge)"

text \<open>The edge's target when its kind makes the target's expansion a gate.\<close>

definition gated_expansion :: "dependency_edge \<Rightarrow> expansion_id option" where
  "gated_expansion edge =
     (case e_to edge of
        NodeExpansion expansion \<Rightarrow>
          (if e_kind edge = ExpansionUse \<or> e_kind edge = GeneratedBy then Some expansion else None)
      | _ \<Rightarrow> None)"

definition target_component :: "nat option list \<Rightarrow> dependency_edge \<Rightarrow> nat option" where
  "target_component assigned edge =
     (case gated_expansion edge of
        None \<Rightarrow> None
      | Some expansion \<Rightarrow> (case get_at assigned expansion of None \<Rightarrow> None | Some component \<Rightarrow> component))"

record index_build =
  ib_edges :: "indexed_compiler_edge list"
  ib_by_from :: "graph_node \<rightharpoonup> nat list"
  ib_sites :: "indexed_source_site list"
  ib_site_ids :: "byte_range \<rightharpoonup> nat"
  ib_sites_by_source :: "nat list list"
  ib_components :: "expansion_component list"

definition push_at :: "nat \<Rightarrow> nat \<Rightarrow> nat list list \<Rightarrow> nat list list" where
  "push_at x i table = table[i := table ! i @ [x]]"

definition index_site ::
  "source_inventory \<Rightarrow> site_owner_index \<Rightarrow> byte_range \<Rightarrow> index_build \<times> nat list
     \<Rightarrow> retention_error + index_build \<times> nat list" where
  "index_site source owner_index site_range = (\<lambda>(build, edge_sites).
     case ib_site_ids build site_range of
       Some site_id \<Rightarrow> Inr (build, edge_sites @ [site_id])
     | None \<Rightarrow>
         bind_result (site_owners owner_index site_range) (\<lambda>found.
           let owners = sort_dedup found
           in if owners = [] \<or> list_ex (\<lambda>owner. unit_at (src_units source) owner = None) owners
              then Inl InvalidGraph
              else
                let site_id = length (ib_sites build)
                in Inr
                  (build\<lparr>ib_sites_by_source := fold (push_at site_id) owners (ib_sites_by_source build),
                     ib_sites := ib_sites build @ [\<lparr>is_owners = owners, is_edges = []\<rparr>],
                     ib_site_ids := (ib_site_ids build)(site_range \<mapsto> site_id)\<rparr>,
                   edge_sites @ [site_id])))"

definition index_edge_site ::
  "source_inventory \<Rightarrow> site_owner_index \<Rightarrow> observation_site \<Rightarrow> index_build \<times> nat list
     \<Rightarrow> retention_error + index_build \<times> nat list" where
  "index_edge_site source owner_index site state =
     (case site of SourceSite site_range \<Rightarrow> index_site source owner_index site_range state | _ \<Rightarrow> Inr state)"

definition add_site_edge :: "nat \<Rightarrow> nat \<Rightarrow> indexed_source_site list \<Rightarrow> indexed_source_site list" where
  "add_site_edge edge_id site sites =
     sites[site := (sites ! site)\<lparr>is_edges := is_edges (sites ! site) @ [edge_id]\<rparr>]"

definition add_target_edge :: "nat \<Rightarrow> nat option \<Rightarrow> expansion_component list \<Rightarrow> expansion_component list" where
  "add_target_edge edge_id target components =
     (case target of
        None \<Rightarrow> components
      | Some c \<Rightarrow>
          components[c := (components ! c)\<lparr>comp_target_edges := comp_target_edges (components ! c) @ [edge_id]\<rparr>])"

definition push_edge_entry :: "'k \<Rightarrow> nat \<Rightarrow> ('k \<rightharpoonup> nat list) \<Rightarrow> 'k \<rightharpoonup> nat list" where
  "push_edge_entry k x m = m(k \<mapsto> (case m k of None \<Rightarrow> [] | Some xs \<Rightarrow> xs) @ [x])"

definition index_edge ::
  "source_inventory \<Rightarrow> site_owner_index \<Rightarrow> nat option list \<Rightarrow> expansion_id set \<Rightarrow> dependency_edge
     \<Rightarrow> index_build \<Rightarrow> retention_error + index_build" where
  "index_edge source owner_index assigned delegated edge build =
     (if edge_skipped delegated edge then Inr build
      else
        bind_result
          (if site_unconditional edge then Inr (build, [])
           else fold_result (index_edge_site source owner_index) (e_sites edge) (build, []))
          (\<lambda>(build, found).
            let edge_sites = sort_dedup found; target = target_component assigned edge;
                edge_id = length (ib_edges build)
            in if gated_expansion edge \<noteq> None \<and> target = None
                 \<or> \<not> site_unconditional edge \<and> edge_sites = []
               then Inl InvalidGraph
               else Inr
                 (build\<lparr>ib_edges := ib_edges build @
                      [\<lparr>ie_from = e_from edge, ie_to = e_to edge,
                        ie_unconditional = site_unconditional edge, ie_component = target\<rparr>],
                    ib_by_from := push_edge_entry (e_from edge) edge_id (ib_by_from build),
                    ib_sites := fold (add_site_edge edge_id) edge_sites (ib_sites build),
                    ib_components := add_target_edge edge_id target (ib_components build)\<rparr>)))"

definition component_entries :: "nat \<times> expansion_component \<Rightarrow> nat list list \<Rightarrow> nat list list" where
  "component_entries = (\<lambda>(component, facts). fold (push_at component) (comp_sources facts))"

definition reachability_index_new ::
  "source_inventory \<Rightarrow> site_owner_index \<Rightarrow> dependency_graph \<Rightarrow> expansion_id set
     \<Rightarrow> retention_error + reachability_index" where
  "reachability_index_new source owner_index graph delegated =
     bind_result (expansion_components source graph) (\<lambda>(assigned, components).
     bind_result
       (fold_result (index_edge source owner_index assigned delegated) (g_edges graph)
         \<lparr>ib_edges = [], ib_by_from = Map.empty, ib_sites = [], ib_site_ids = Map.empty,
          ib_sites_by_source = replicate (length (src_units source)) [], ib_components = components\<rparr>)
       (\<lambda>build.
         let components = map (\<lambda>c. c\<lparr>comp_target_edges := sort_dedup (comp_target_edges c)\<rparr>) (ib_components build)
         in Inr
           \<lparr>ri_edges = ib_edges build,
            ri_by_from = (\<lambda>node. map_option sort_dedup (ib_by_from build node)),
            ri_sites = ib_sites build,
            ri_sites_by_source = map sort_dedup (ib_sites_by_source build),
            ri_components = components,
            ri_components_by_source =
              fold component_entries (enumerate 0 components) (replicate (length (src_units source)) [])\<rparr>))"

section \<open>The sites of the index\<close>

definition site_ranges :: "dependency_edge \<Rightarrow> byte_range set" where
  "site_ranges edge = {r. SourceSite r \<in> set (e_sites edge)}"

definition valid_owners :: "source_inventory \<Rightarrow> source_unit_id list \<Rightarrow> bool" where
  "valid_owners source owners \<longleftrightarrow>
     owners \<noteq> [] \<and> list_all (\<lambda>owner. unit_at (src_units source) owner \<noteq> None) owners"

definition site_indexed :: "source_inventory \<Rightarrow> site_owner_index \<Rightarrow> byte_range \<Rightarrow> indexed_source_site \<Rightarrow> bool" where
  "site_indexed source owner_index r site \<longleftrightarrow>
     (case site_owners owner_index r of Inl _ \<Rightarrow> False
      | Inr found \<Rightarrow> valid_owners source found \<and> is_owners site = sort_dedup found)"

definition site_tables_ok :: "source_inventory \<Rightarrow> site_owner_index \<Rightarrow> index_build \<Rightarrow> bool" where
  "site_tables_ok source owner_index build \<longleftrightarrow>
     (\<forall>r s. ib_site_ids build r = Some s \<longrightarrow>
        s < length (ib_sites build) \<and> site_indexed source owner_index r (ib_sites build ! s))
     \<and> (\<forall>s < length (ib_sites build). \<exists>r. ib_site_ids build r = Some s)
     \<and> inj_on (ib_site_ids build) (dom (ib_site_ids build))
     \<and> length (ib_sites_by_source build) = length (src_units source)
     \<and> (\<forall>u < length (src_units source). set (ib_sites_by_source build ! u)
          = {s. s < length (ib_sites build) \<and> u \<in> set (is_owners (ib_sites build ! s))})"

definition site_edges_ok :: "dependency_edge list \<Rightarrow> index_build \<Rightarrow> bool" where
  "site_edges_ok es build \<longleftrightarrow>
     (\<forall>i < length es. \<not> site_unconditional (es ! i) \<longrightarrow> site_ranges (es ! i) \<subseteq> dom (ib_site_ids build))
     \<and> (\<forall>r s. ib_site_ids build r = Some s \<longrightarrow>
          distinct (is_edges (ib_sites build ! s))
          \<and> set (is_edges (ib_sites build ! s))
              = {i. i < length es \<and> \<not> site_unconditional (es ! i) \<and> r \<in> site_ranges (es ! i)})"

lemma set_push_at_fold:
  "distinct is \<Longrightarrow> list_all (\<lambda>i. i < length table) is \<Longrightarrow> length (fold (push_at x) is table) = length table
    \<and> (\<forall>u < length table. set (fold (push_at x) is table ! u) = set (table ! u) \<union> (if u \<in> set is then {x} else {}))"
proof (induction "is" arbitrary: table)
  case (Cons i js)
  have len: "length (push_at x i table) = length table" by (simp add: push_at_def)
  have "distinct js" "list_all (\<lambda>i. i < length (push_at x i table)) js" using Cons.prems by (auto simp: push_at_def)
  from Cons.IH [OF this(1), of "push_at x i table"] Cons.prems len
  have IH: "length (fold (push_at x) js (push_at x i table)) = length table"
    "\<And>u. u < length table \<Longrightarrow> set (fold (push_at x) js (push_at x i table) ! u)
       = set (push_at x i table ! u) \<union> (if u \<in> set js then {x} else {})" by auto
  have "set (push_at x i table ! u) = set (table ! u) \<union> (if u = i then {x} else {})" if "u < length table" for u
    using that by (auto simp: push_at_def nth_list_update)
  with IH show ?case by auto
qed simp

lemma index_site_new:
  assumes "ib_site_ids build r = None" and "index_site source owner_index r (build, edge_sites) = Inr (build', edge_sites')"
  obtains found where "site_owners owner_index r = Inr found" and "valid_owners source found"
    and "build' = build\<lparr>ib_sites_by_source :=
            fold (push_at (length (ib_sites build))) (sort_dedup found) (ib_sites_by_source build),
          ib_sites := ib_sites build @ [\<lparr>is_owners = sort_dedup found, is_edges = []\<rparr>],
          ib_site_ids := (ib_site_ids build)(r \<mapsto> length (ib_sites build))\<rparr>"
    and "edge_sites' = edge_sites @ [length (ib_sites build)]"
proof -
  from assms obtain found where found: "site_owners owner_index r = Inr found"
    and ok: "\<not> (sort_dedup found = [] \<or> list_ex (\<lambda>owner. unit_at (src_units source) owner = None) (sort_dedup found))"
    and res: "build' = build\<lparr>ib_sites_by_source :=
            fold (push_at (length (ib_sites build))) (sort_dedup found) (ib_sites_by_source build),
          ib_sites := ib_sites build @ [\<lparr>is_owners = sort_dedup found, is_edges = []\<rparr>],
          ib_site_ids := (ib_site_ids build)(r \<mapsto> length (ib_sites build))\<rparr>"
      "edge_sites' = edge_sites @ [length (ib_sites build)]"
    unfolding index_site_def prod.case assms(1) option.case bind_result_eq_Inr Let_def
    by (auto split: if_splits)
  have "sort_dedup found = [] \<longleftrightarrow> found = []" by (metis set_empty set_sort_dedup)
  with ok have "valid_owners source found" by (auto simp: valid_owners_def list_ex_iff list_all_iff)
  with found res show thesis by (rule_tac that)
qed

lemma index_site_tables:
  assumes ok: "site_tables_ok source owner_index build" "site_edges_ok es build"
    and step: "index_site source owner_index r (build, edge_sites) = Inr (build', edge_sites')"
  shows "site_tables_ok source owner_index build' \<and> site_edges_ok es build'
    \<and> ib_site_ids build \<subseteq>\<^sub>m ib_site_ids build'
    \<and> (\<exists>s. ib_site_ids build' r = Some s \<and> edge_sites' = edge_sites @ [s])
    \<and> (ib_edges build', ib_by_from build', ib_components build') = (ib_edges build, ib_by_from build, ib_components build)"
proof (cases "ib_site_ids build r")
  case (Some s)
  with step ok show ?thesis by (auto simp: index_site_def)
next
  case None
  let ?n = "length (ib_sites build)"
  from index_site_new [OF None step] obtain found where found: "site_owners owner_index r = Inr found"
    "valid_owners source found"
    and b: "build' = build\<lparr>ib_sites_by_source :=
            fold (push_at ?n) (sort_dedup found) (ib_sites_by_source build),
          ib_sites := ib_sites build @ [\<lparr>is_owners = sort_dedup found, is_edges = []\<rparr>],
          ib_site_ids := (ib_site_ids build)(r \<mapsto> ?n)\<rparr>"
    and sites': "edge_sites' = edge_sites @ [?n]" .
  have bound: "s < ?n" "site_indexed source owner_index q (ib_sites build ! s)"
    if "ib_site_ids build q = Some s" for q s
    using ok(1) that unfolding site_tables_ok_def by blast+
  have covered: "\<exists>q. ib_site_ids build q = Some s" if "s < ?n" for s
    using ok(1) that unfolding site_tables_ok_def by blast
  have inj: "inj_on (ib_site_ids build) (dom (ib_site_ids build))"
    and len: "length (ib_sites_by_source build) = length (src_units source)"
    using ok(1) by (simp_all add: site_tables_ok_def)
  have owners_bound: "list_all (\<lambda>i. i < length (ib_sites_by_source build)) (sort_dedup found)"
    using found(2) len by (auto simp: valid_owners_def list_all_iff)
  note push = set_push_at_fold [OF distinct_sort_dedup owners_bound, of ?n]
  have tables: "site_tables_ok source owner_index build'"
    unfolding site_tables_ok_def
  proof (intro conjI allI impI)
    fix q s
    assume q: "ib_site_ids build' q = Some s"
    show "s < length (ib_sites build')" using q bound(1) [of q s] by (auto simp: b split: if_splits)
    show "site_indexed source owner_index q (ib_sites build' ! s)"
      using q bound [of q s] found by (auto simp: b nth_append site_indexed_def split: if_splits)
  next
    fix s
    assume s: "s < length (ib_sites build')"
    show "\<exists>q. ib_site_ids build' q = Some s"
    proof (cases "s = ?n")
      case True
      then show ?thesis by (auto simp: b intro: exI [of _ r])
    next
      case False
      with s have "s < ?n" by (simp add: b)
      then obtain q where "ib_site_ids build q = Some s" using covered by blast
      with None show ?thesis by (auto simp: b intro!: exI [of _ q])
    qed
  next
    show "inj_on (ib_site_ids build') (dom (ib_site_ids build'))"
    proof (rule inj_onI)
      fix p q
      assume p: "p \<in> dom (ib_site_ids build')" and q: "q \<in> dom (ib_site_ids build')"
        and eq: "ib_site_ids build' p = ib_site_ids build' q"
      have fresh: "ib_site_ids build t \<noteq> Some ?n" for t using bound(1) [of t ?n] by auto
      show "p = q"
      proof (cases "p = r \<or> q = r")
        case True
        with eq fresh [of p] fresh [of q] show ?thesis by (auto simp: b split: if_splits)
      next
        case False
        with p q eq have "p \<in> dom (ib_site_ids build)" "q \<in> dom (ib_site_ids build)"
          "ib_site_ids build p = ib_site_ids build q" by (auto simp: b)
        with inj show ?thesis by (auto dest: inj_onD)
      qed
    qed
  next
    show "length (ib_sites_by_source build') = length (src_units source)" using push len by (simp add: b)
  next
    fix u
    assume u: "u < length (src_units source)"
    have "set (ib_sites_by_source build' ! u)
        = set (ib_sites_by_source build ! u) \<union> (if u \<in> set found then {?n} else {})"
      using push u len by (simp add: b)
    also have "set (ib_sites_by_source build ! u) = {s. s < ?n \<and> u \<in> set (is_owners (ib_sites build ! s))}"
      using ok(1) u by (simp add: site_tables_ok_def)
    finally show "set (ib_sites_by_source build' ! u)
        = {s. s < length (ib_sites build') \<and> u \<in> set (is_owners (ib_sites build' ! s))}"
      by (auto simp: b nth_append less_Suc_eq)
  qed
  have cond: "site_ranges (es ! i) \<subseteq> dom (ib_site_ids build)" if "i < length es" "\<not> site_unconditional (es ! i)" for i
    using ok(2) that by (simp add: site_edges_ok_def)
  have edges: "distinct (is_edges (ib_sites build ! s))"
    "set (is_edges (ib_sites build ! s)) = {i. i < length es \<and> \<not> site_unconditional (es ! i) \<and> q \<in> site_ranges (es ! i)}"
    if "ib_site_ids build q = Some s" for q s
    using ok(2) that unfolding site_edges_ok_def by blast+
  have none: "{i. i < length es \<and> \<not> site_unconditional (es ! i) \<and> r \<in> site_ranges (es ! i)} = {}"
    using cond None by blast
  have "site_edges_ok es build'"
    unfolding site_edges_ok_def
  proof (intro conjI allI impI)
    fix i
    assume "i < length es" "\<not> site_unconditional (es ! i)"
    from cond [OF this] show "site_ranges (es ! i) \<subseteq> dom (ib_site_ids build')" by (auto simp: b)
  next
    fix q s
    assume q: "ib_site_ids build' q = Some s"
    show "distinct (is_edges (ib_sites build' ! s))"
      "set (is_edges (ib_sites build' ! s)) = {i. i < length es \<and> \<not> site_unconditional (es ! i) \<and> q \<in> site_ranges (es ! i)}"
    proof (atomize (full), cases "q = r")
      case True
      with q have "s = ?n" by (simp add: b)
      with none True show "distinct (is_edges (ib_sites build' ! s))
        \<and> set (is_edges (ib_sites build' ! s)) = {i. i < length es \<and> \<not> site_unconditional (es ! i) \<and> q \<in> site_ranges (es ! i)}"
        by (simp add: b)
    next
      case False
      with q have old: "ib_site_ids build q = Some s" by (simp add: b)
      from bound(1) [OF old] have "ib_sites build' ! s = ib_sites build ! s" by (simp add: b nth_append)
      with edges [OF old] show "distinct (is_edges (ib_sites build' ! s))
        \<and> set (is_edges (ib_sites build' ! s)) = {i. i < length es \<and> \<not> site_unconditional (es ! i) \<and> q \<in> site_ranges (es ! i)}"
        by simp
    qed
  qed
  with tables None show ?thesis by (auto simp: b sites' map_le_def)
qed

definition same_rest :: "index_build \<Rightarrow> index_build \<Rightarrow> bool" where
  "same_rest build build' \<longleftrightarrow>
     (ib_edges build', ib_by_from build', ib_components build') = (ib_edges build, ib_by_from build, ib_components build)"

definition ids_of :: "index_build \<Rightarrow> byte_range set \<Rightarrow> nat set" where
  "ids_of build ranges = {s. \<exists>r \<in> ranges. ib_site_ids build r = Some s}"

lemma index_edge_sites_tables:
  assumes "fold_result (index_edge_site source owner_index) ss (build, found) = Inr (build', found')"
    and "site_tables_ok source owner_index build" and "site_edges_ok es build"
    and "R \<subseteq> dom (ib_site_ids build)" and "set found = ids_of build R"
  shows "site_tables_ok source owner_index build' \<and> site_edges_ok es build' \<and> same_rest build build'
    \<and> R \<union> {r. SourceSite r \<in> set ss} \<subseteq> dom (ib_site_ids build')
    \<and> set found' = ids_of build' (R \<union> {r. SourceSite r \<in> set ss})"
  using assms
proof (induction ss arbitrary: build found R)
  case Nil
  then show ?case by (simp add: same_rest_def)
next
  case (Cons t ss)
  from Cons.prems(1) obtain build1 found1 where
    step: "index_edge_site source owner_index t (build, found) = Inr (build1, found1)"
    and rest: "fold_result (index_edge_site source owner_index) ss (build1, found1) = Inr (build', found')"
    by (auto simp: bind_result_eq_Inr)
  show ?case
  proof (cases "is_source_site t")
    case False
    then have t: "SourceSite r \<noteq> t" for r by (auto simp: is_source_site_def)
    from False step have "build1 = build" "found1 = found"
      by (auto simp: index_edge_site_def is_source_site_def split: observation_site.splits)
    with Cons.IH [OF rest] Cons.prems(2-) t show ?thesis by simp
  next
    case True
    then obtain r where t: "t = SourceSite r" by (cases t) (auto simp: is_source_site_def)
    with step have "index_site source owner_index r (build, found) = Inr (build1, found1)"
      by (simp add: index_edge_site_def)
    from index_site_tables [OF Cons.prems(2,3) this] obtain s where
      ok: "site_tables_ok source owner_index build1" "site_edges_ok es build1" "same_rest build build1"
      and sub: "ib_site_ids build \<subseteq>\<^sub>m ib_site_ids build1" and s: "ib_site_ids build1 r = Some s" "found1 = found @ [s]"
      by (auto simp: same_rest_def)
    have keep: "ib_site_ids build1 q = ib_site_ids build q" if "q \<in> R" for q
      using sub that Cons.prems(4) unfolding map_le_def by (metis subsetD)
    then have "ids_of build1 R = ids_of build R" by (simp add: ids_of_def)
    moreover have "ids_of build1 (insert r R) = insert s (ids_of build1 R)"
      using s(1) by (auto simp: ids_of_def)
    ultimately have found1: "set found1 = ids_of build1 (insert r R)" using s(2) Cons.prems(5) by simp
    have dom: "insert r R \<subseteq> dom (ib_site_ids build1)" using keep Cons.prems(4) s(1) by (auto simp: dom_def)
    have eq: "R \<union> {q. SourceSite q \<in> set (t # ss)} = insert r R \<union> {q. SourceSite q \<in> set ss}" by (auto simp: t)
    show ?thesis using Cons.IH [OF rest ok(1,2) dom found1] ok(3) unfolding eq by (simp add: same_rest_def)
  qed
qed

section \<open>The whole index\<close>

definition compiler_edges :: "expansion_id set \<Rightarrow> dependency_graph \<Rightarrow> dependency_edge list" where
  "compiler_edges delegated graph = filter (\<lambda>edge. \<not> edge_skipped delegated edge) (g_edges graph)"

definition indexed_of :: "nat option list \<Rightarrow> dependency_edge \<Rightarrow> indexed_compiler_edge" where
  "indexed_of assigned edge =
     \<lparr>ie_from = e_from edge, ie_to = e_to edge, ie_unconditional = site_unconditional edge,
      ie_component = target_component assigned edge\<rparr>"

definition from_ok :: "dependency_edge list \<Rightarrow> (graph_node \<rightharpoonup> nat list) \<Rightarrow> bool" where
  "from_ok es m \<longleftrightarrow> (\<forall>n. set (case m n of None \<Rightarrow> [] | Some is \<Rightarrow> is) = {i. i < length es \<and> e_from (es ! i) = n})"

definition targets_ok :: "nat option list \<Rightarrow> expansion_component list \<Rightarrow> dependency_edge list
    \<Rightarrow> expansion_component list \<Rightarrow> bool" where
  "targets_ok assigned initial es components \<longleftrightarrow>
     map (comp_target_edges_update (\<lambda>_. [])) components = map (comp_target_edges_update (\<lambda>_. [])) initial
     \<and> (\<forall>c < length components. set (comp_target_edges (components ! c))
          = {i. i < length es \<and> target_component assigned (es ! i) = Some c})
     \<and> list_all (\<lambda>edge. (gated_expansion edge = None) = (target_component assigned edge = None)) es"

definition build_ok :: "source_inventory \<Rightarrow> site_owner_index \<Rightarrow> nat option list \<Rightarrow> expansion_component list
    \<Rightarrow> dependency_edge list \<Rightarrow> index_build \<Rightarrow> bool" where
  "build_ok source owner_index assigned initial es build \<longleftrightarrow>
     ib_edges build = map (indexed_of assigned) es
     \<and> from_ok es (ib_by_from build)
     \<and> site_tables_ok source owner_index build \<and> site_edges_ok es build
     \<and> targets_ok assigned initial es (ib_components build)"

lemma from_ok_push:
  "from_ok es m \<Longrightarrow> from_ok (es @ [edge]) (push_edge_entry (e_from edge) (length es) m)"
  unfolding from_ok_def push_edge_entry_def
  by (auto simp: nth_append less_Suc_eq split: option.splits)

lemma fold_add_site_edge:
  "distinct ss \<Longrightarrow> list_all (\<lambda>s. s < length sites) ss \<Longrightarrow>
     length (fold (add_site_edge i) ss sites) = length sites
     \<and> (\<forall>s < length sites. fold (add_site_edge i) ss sites ! s
          = (sites ! s)\<lparr>is_edges := is_edges (sites ! s) @ (if s \<in> set ss then [i] else [])\<rparr>)"
proof (induction ss arbitrary: sites)
  case (Cons t ss)
  have len: "length (add_site_edge i t sites) = length sites" by (simp add: add_site_edge_def)
  have "distinct ss" "list_all (\<lambda>s. s < length (add_site_edge i t sites)) ss" using Cons.prems by (auto simp: len)
  from Cons.IH [OF this]
  have IH: "length (fold (add_site_edge i) ss (add_site_edge i t sites)) = length sites"
    "\<And>s. s < length sites \<Longrightarrow> fold (add_site_edge i) ss (add_site_edge i t sites) ! s
       = (add_site_edge i t sites ! s)\<lparr>is_edges := is_edges (add_site_edge i t sites ! s) @ (if s \<in> set ss then [i] else [])\<rparr>"
    by (auto simp: len)
  have "add_site_edge i t sites ! s = (sites ! s)\<lparr>is_edges := is_edges (sites ! s) @ (if s = t then [i] else [])\<rparr>"
    if "s < length sites" for s using that by (simp add: add_site_edge_def nth_list_update)
  with IH Cons.prems(1) show ?case by auto
qed simp

lemma targets_ok_add:
  assumes "targets_ok assigned initial es components"
    and "(gated_expansion edge = None) = (target_component assigned edge = None)"
    and "\<And>c. target_component assigned edge = Some c \<Longrightarrow> c < length components"
  shows "targets_ok assigned initial (es @ [edge])
    (add_target_edge (length es) (target_component assigned edge) components)"
proof -
  let ?t = "target_component assigned edge"
  let ?cs = "add_target_edge (length es) ?t components"
  have len: "length ?cs = length components" by (simp add: add_target_edge_def split: option.split)
  have nth: "?cs ! c = (components ! c)\<lparr>comp_target_edges :=
      comp_target_edges (components ! c) @ (if ?t = Some c then [length es] else [])\<rparr>" if "c < length components" for c
    using that assms(3) by (auto simp: add_target_edge_def nth_list_update split: option.split)
  have "map (comp_target_edges_update (\<lambda>_. [])) ?cs = map (comp_target_edges_update (\<lambda>_. [])) components"
    by (rule nth_equalityI) (simp_all add: len nth)
  moreover have "set (comp_target_edges (?cs ! c))
      = {i. i < length (es @ [edge]) \<and> target_component assigned ((es @ [edge]) ! i) = Some c}" if "c < length components" for c
    using assms(1) that by (auto simp: nth targets_ok_def nth_append less_Suc_eq)
  ultimately show ?thesis using assms(1,2) unfolding targets_ok_def by (simp add: len)
qed

definition components_assigned :: "nat option list \<Rightarrow> expansion_component list \<Rightarrow> bool" where
  "components_assigned assigned components \<longleftrightarrow> (\<forall>c. Some c \<in> set assigned \<longrightarrow> c < length components)"

lemma target_component_bound:
  "components_assigned assigned components \<Longrightarrow> target_component assigned edge = Some c \<Longrightarrow> c < length components"
  by (auto simp: target_component_def components_assigned_def get_at_def in_set_conv_nth split: option.splits if_splits)

lemma targets_ok_length: "targets_ok assigned initial es components \<Longrightarrow> length components = length initial"
  unfolding targets_ok_def by (metis length_map)

lemma snoc_positions:
  "{i. i < length (es @ [e]) \<and> P ((es @ [e]) ! i)} = {i. i < length es \<and> P (es ! i)} \<union> (if P e then {length es} else {})"
  by (auto simp: nth_append less_Suc_eq)

lemma site_edges_ok_skip:
  "site_edges_ok es build \<Longrightarrow> site_unconditional edge \<Longrightarrow> site_edges_ok (es @ [edge]) build"
  unfolding site_edges_ok_def by (auto simp: nth_append less_Suc_eq)

lemma site_edges_ok_add:
  assumes edges: "site_edges_ok es build" and tables: "site_tables_ok source owner_index build"
    and "\<not> site_unconditional edge" and dom: "site_ranges edge \<subseteq> dom (ib_site_ids build)"
    and found: "set ss = ids_of build (site_ranges edge)" and "distinct ss"
    and b: "ib_site_ids build' = ib_site_ids build"
      "ib_sites build' = fold (add_site_edge (length es)) ss (ib_sites build)"
  shows "site_edges_ok (es @ [edge]) build'"
proof -
  have "list_all (\<lambda>s. s < length (ib_sites build)) ss"
    using tables found by (auto simp: site_tables_ok_def ids_of_def list_all_iff)
  note add = fold_add_site_edge [OF assms(6) this, of "length es"]
  have mem: "s \<in> set ss \<longleftrightarrow> q \<in> site_ranges edge" if "ib_site_ids build q = Some s" for q s
  proof -
    have "inj_on (ib_site_ids build) (dom (ib_site_ids build))" using tables by (simp add: site_tables_ok_def)
    then have "p = q" if "ib_site_ids build p = Some s" for p
      using that \<open>ib_site_ids build q = Some s\<close> unfolding inj_on_def by (metis domI)
    with that show ?thesis unfolding found ids_of_def by blast
  qed
  show ?thesis
    unfolding site_edges_ok_def b(1)
  proof (intro conjI allI impI)
    fix i
    assume "i < length (es @ [edge])" "\<not> site_unconditional ((es @ [edge]) ! i)"
    then show "site_ranges ((es @ [edge]) ! i) \<subseteq> dom (ib_site_ids build)"
      using edges dom by (auto simp: site_edges_ok_def nth_append less_Suc_eq split: if_splits)
  next
    fix q s
    assume q: "ib_site_ids build q = Some s"
    then have s: "s < length (ib_sites build)" using tables by (simp add: site_tables_ok_def)
    have old: "distinct (is_edges (ib_sites build ! s))"
      "set (is_edges (ib_sites build ! s)) = {i. i < length es \<and> \<not> site_unconditional (es ! i) \<and> q \<in> site_ranges (es ! i)}"
      using edges q unfolding site_edges_ok_def by blast+
    have at: "is_edges (ib_sites build' ! s) = is_edges (ib_sites build ! s) @ (if s \<in> set ss then [length es] else [])"
      using add s by (simp add: b(2))
    show "distinct (is_edges (ib_sites build' ! s))" using old by (simp add: at)
    show "set (is_edges (ib_sites build' ! s))
        = {i. i < length (es @ [edge]) \<and> \<not> site_unconditional ((es @ [edge]) ! i) \<and> q \<in> site_ranges ((es @ [edge]) ! i)}"
      using mem [OF q] assms(3)
      unfolding snoc_positions [of es edge "\<lambda>e. \<not> site_unconditional e \<and> q \<in> site_ranges e"] at set_append old(2)
      by simp
  qed
qed

lemma site_tables_ok_edges:
  assumes tables: "site_tables_ok source owner_index build"
    and ss: "distinct ss" "set ss = ids_of build R"
    and b: "ib_site_ids build' = ib_site_ids build" "ib_sites_by_source build' = ib_sites_by_source build"
      "ib_sites build' = fold (add_site_edge i) ss (ib_sites build)"
  shows "site_tables_ok source owner_index build'"
proof -
  have "list_all (\<lambda>s. s < length (ib_sites build)) ss"
    using tables ss by (auto simp: site_tables_ok_def ids_of_def list_all_iff)
  note add = fold_add_site_edge [OF ss(1) this, of i]
  have len: "length (ib_sites build') = length (ib_sites build)" using add by (simp add: b(3))
  have owners: "is_owners (ib_sites build' ! s) = is_owners (ib_sites build ! s)" if "s < length (ib_sites build)" for s
    using add that by (simp add: b(3))
  have "site_indexed source owner_index r (ib_sites build' ! s) = site_indexed source owner_index r (ib_sites build ! s)"
    if "s < length (ib_sites build)" for r s unfolding site_indexed_def owners [OF that] ..
  moreover have "{s. s < length (ib_sites build) \<and> u \<in> set (is_owners (ib_sites build' ! s))}
      = {s. s < length (ib_sites build) \<and> u \<in> set (is_owners (ib_sites build ! s))}" for u
    using owners by auto
  ultimately show ?thesis using tables unfolding site_tables_ok_def b(1,2) len by simp
qed

lemma index_edge_ok:
  assumes step: "index_edge source owner_index assigned delegated edge build = Inr build'"
    and ok: "build_ok source owner_index assigned initial es build"
    and assigned: "components_assigned assigned initial"
  shows "build_ok source owner_index assigned initial (if edge_skipped delegated edge then es else es @ [edge]) build'"
proof (cases "edge_skipped delegated edge")
  case True
  with step ok show ?thesis by (simp add: index_edge_def)
next
  case False
  have parts: "ib_edges build = map (indexed_of assigned) es" "from_ok es (ib_by_from build)"
    "site_tables_ok source owner_index build" "site_edges_ok es build"
    "targets_ok assigned initial es (ib_components build)"
    using ok by (simp_all add: build_ok_def)
  from step False obtain build1 found where
    sites: "(if site_unconditional edge then Inr (build, [])
           else fold_result (index_edge_site source owner_index) (e_sites edge) (build, [])) = Inr (build1, found)"
    and target: "\<not> (gated_expansion edge \<noteq> None \<and> target_component assigned edge = None)"
    and b: "build' = build1\<lparr>ib_edges := ib_edges build1 @
                      [\<lparr>ie_from = e_from edge, ie_to = e_to edge,
                        ie_unconditional = site_unconditional edge, ie_component = target_component assigned edge\<rparr>],
                    ib_by_from := push_edge_entry (e_from edge) (length (ib_edges build1)) (ib_by_from build1),
                    ib_sites := fold (add_site_edge (length (ib_edges build1))) (sort_dedup found) (ib_sites build1),
                    ib_components := add_target_edge (length (ib_edges build1)) (target_component assigned edge) (ib_components build1)\<rparr>"
    by (auto simp: index_edge_def bind_result_eq_Inr Let_def split: if_splits)
  have sites1: "same_rest build build1 \<and> site_tables_ok source owner_index build1
      \<and> site_edges_ok es build1 \<and> set found = ids_of build1 (if site_unconditional edge then {} else site_ranges edge)
      \<and> (if site_unconditional edge then True else site_ranges edge \<subseteq> dom (ib_site_ids build1))"
  proof (cases "site_unconditional edge")
    case True
    with sites parts show ?thesis by (auto simp: same_rest_def ids_of_def)
  next
    case cond: False
    with sites have "fold_result (index_edge_site source owner_index) (e_sites edge) (build, []) = Inr (build1, found)"
      by simp
    from index_edge_sites_tables [OF this parts(3,4), of "{}"] cond show ?thesis
      by (simp add: ids_of_def site_ranges_def)
  qed
  then have rest: "ib_edges build1 = ib_edges build" "ib_by_from build1 = ib_by_from build"
    "ib_components build1 = ib_components build" by (simp_all add: same_rest_def)
  have n: "length (ib_edges build1) = length es" using rest parts(1) by simp
  have gated: "(gated_expansion edge = None) = (target_component assigned edge = None)"
    using target by (auto simp: target_component_def)
  have "site_edges_ok (es @ [edge]) build'"
  proof (cases "site_unconditional edge")
    case True
    with sites1 have "sort_dedup found = []" by (simp add: ids_of_def sort_dedup_def)
    then have "site_edges_ok (es @ [edge]) build' = site_edges_ok (es @ [edge]) build1"
      by (simp add: b site_edges_ok_def)
    with sites1 True show ?thesis by (simp add: site_edges_ok_skip)
  next
    case cond: False
    show ?thesis
    proof (rule site_edges_ok_add)
      show "site_edges_ok es build1" "site_tables_ok source owner_index build1"
        "site_ranges edge \<subseteq> dom (ib_site_ids build1)" "set (sort_dedup found) = ids_of build1 (site_ranges edge)"
        using sites1 cond by simp_all
    qed (simp_all add: b n cond)
  qed
  moreover have "site_tables_ok source owner_index build'"
    by (rule site_tables_ok_edges [of _ _ build1 "sort_dedup found"
          "if site_unconditional edge then {} else site_ranges edge" _ "length es"])
      (use sites1 in \<open>simp_all add: b n\<close>)
  moreover have "from_ok (es @ [edge]) (ib_by_from build')"
    using from_ok_push [OF parts(2), of edge] parts(1) by (simp add: b rest)
  moreover have "targets_ok assigned initial (es @ [edge]) (ib_components build')"
  proof -
    have "c < length (ib_components build)" if "target_component assigned edge = Some c" for c
      using target_component_bound [OF assigned that] targets_ok_length [OF parts(5)] by simp
    from targets_ok_add [OF parts(5) gated this] show ?thesis using parts(1) by (simp add: b rest)
  qed
  moreover have "ib_edges build' = map (indexed_of assigned) (es @ [edge])"
    by (simp add: b rest parts(1) indexed_of_def)
  ultimately show ?thesis using False by (simp add: build_ok_def)
qed

lemma index_edges_ok:
  assumes "fold_result (index_edge source owner_index assigned delegated) edges build = Inr build'"
    and "build_ok source owner_index assigned initial es build" and "components_assigned assigned initial"
  shows "build_ok source owner_index assigned initial
    (es @ filter (\<lambda>edge. \<not> edge_skipped delegated edge) edges) build'"
  using assms(1,2)
proof (induction edges arbitrary: build es)
  case (Cons edge edges)
  then obtain build1 where step: "index_edge source owner_index assigned delegated edge build = Inr build1"
    and rest: "fold_result (index_edge source owner_index assigned delegated) edges build1 = Inr build'"
    by (auto simp: bind_result_eq_Inr)
  from Cons.IH [OF rest index_edge_ok [OF step Cons.prems(2) assms(3)]] show ?case
    by (simp split: if_splits)
qed simp

section \<open>What a closure relies on\<close>

definition edges_from :: "reachability_index \<Rightarrow> graph_node \<Rightarrow> nat list" where
  "edges_from index n = (case ri_by_from index n of None \<Rightarrow> [] | Some is \<Rightarrow> is)"

definition source_count :: "reachability_index \<Rightarrow> nat" where
  "source_count index = length (ri_sites_by_source index)"

definition site_wf :: "reachability_index \<Rightarrow> indexed_source_site \<Rightarrow> bool" where
  "site_wf index site \<longleftrightarrow>
     is_owners site \<noteq> [] \<and> distinct (is_owners site) \<and> set (is_owners site) \<subseteq> {..< source_count index}
     \<and> distinct (is_edges site) \<and> set (is_edges site) \<subseteq> {..< length (ri_edges index)}"

definition component_wf :: "reachability_index \<Rightarrow> nat \<Rightarrow> bool" where
  "component_wf index c \<longleftrightarrow>
     (let facts = ri_components index ! c; n = length (ri_components index)
      in distinct (comp_sources facts) \<and> set (comp_sources facts) \<subseteq> {..< source_count index}
         \<and> distinct (comp_parents facts) \<and> set (comp_parents facts) \<subseteq> {..< n} - {c}
         \<and> distinct (comp_children facts)
         \<and> set (comp_children facts) = {d. d < n \<and> c \<in> set (comp_parents (ri_components index ! d))}
         \<and> set (comp_target_edges facts) = {i. i < length (ri_edges index) \<and> ie_component (ri_edges index ! i) = Some c})"

definition index_wf :: "reachability_index \<Rightarrow> bool" where
  "index_wf index \<longleftrightarrow>
     (\<forall>n. set (edges_from index n) = {i. i < length (ri_edges index) \<and> ie_from (ri_edges index ! i) = n})
     \<and> list_all (site_wf index) (ri_sites index)
     \<and> (\<forall>u < source_count index. distinct (ri_sites_by_source index ! u)
          \<and> set (ri_sites_by_source index ! u)
              = {s. s < length (ri_sites index) \<and> u \<in> set (is_owners (ri_sites index ! s))})
     \<and> length (ri_components_by_source index) = source_count index
     \<and> (\<forall>u < source_count index. distinct (ri_components_by_source index ! u)
          \<and> set (ri_components_by_source index ! u)
              = {c. c < length (ri_components index) \<and> u \<in> set (comp_sources (ri_components index ! c))})
     \<and> (\<forall>c < length (ri_components index). component_wf index c)
     \<and> list_all (\<lambda>e. pred_option (\<lambda>c. c < length (ri_components index)) (ie_component e)) (ri_edges index)"

text \<open>
  The meaning of the index in terms of the graph: its edges are the compiler edges in order, and the
  owner sets of the sites of a conditional edge are those the owner lookup answers for its ranges.
\<close>

definition site_owner_sets :: "site_owner_index \<Rightarrow> dependency_edge \<Rightarrow> source_unit_id set set" where
  "site_owner_sets owner_index edge =
     {owners. \<exists>r \<in> site_ranges edge. \<exists>found. site_owners owner_index r = Inr found \<and> owners = set found}"

definition indexed_owner_sets :: "reachability_index \<Rightarrow> nat \<Rightarrow> source_unit_id set set" where
  "indexed_owner_sets index i =
     {owners. \<exists>s < length (ri_sites index). i \<in> set (is_edges (ri_sites index ! s)) \<and> owners = set (is_owners (ri_sites index ! s))}"

definition index_means :: "site_owner_index \<Rightarrow> nat option list \<Rightarrow> expansion_component list
    \<Rightarrow> dependency_edge list \<Rightarrow> reachability_index \<Rightarrow> bool" where
  "index_means owner_index assigned components es index \<longleftrightarrow>
     ri_edges index = map (indexed_of assigned) es
     \<and> (\<forall>i < length es. indexed_owner_sets index i
          = (if site_unconditional (es ! i) then {} else site_owner_sets owner_index (es ! i)))
     \<and> (\<forall>i < length es. \<not> site_unconditional (es ! i) \<longrightarrow>
          (\<forall>r \<in> site_ranges (es ! i). \<exists>found. site_owners owner_index r = Inr found))
     \<and> list_all (\<lambda>edge. (gated_expansion edge = None) = (target_component assigned edge = None)) es
     \<and> map (comp_target_edges_update (\<lambda>_. [])) (ri_components index)
         = map (comp_target_edges_update (\<lambda>_. [])) components"

lemma component_entries_fold:
  assumes "list_all (\<lambda>facts. distinct (comp_sources facts) \<and> set (comp_sources facts) \<subseteq> {..< n}) components"
  shows "length (fold component_entries (enumerate 0 components) (replicate n [])) = n
    \<and> (\<forall>u < n. distinct (fold component_entries (enumerate 0 components) (replicate n []) ! u)
        \<and> set (fold component_entries (enumerate 0 components) (replicate n []) ! u)
            = {c. c < length components \<and> u \<in> set (comp_sources (components ! c))})"
proof -
  let ?run = "\<lambda>k. fold component_entries (take k (enumerate 0 components)) (replicate n [])"
  have "k \<le> length components \<Longrightarrow> length (?run k) = n
      \<and> (\<forall>u < n. distinct (?run k ! u) \<and> set (?run k ! u) = {c. c < k \<and> u \<in> set (comp_sources (components ! c))})" for k
  proof (induction k)
    case (Suc k)
    then have k: "k < length components" by simp
    let ?t = "?run k" and ?f = "comp_sources (components ! k)"
    have IH: "length ?t = n" "\<And>u. u < n \<Longrightarrow> distinct (?t ! u)"
      "\<And>u. u < n \<Longrightarrow> set (?t ! u) = {c. c < k \<and> u \<in> set (comp_sources (components ! c))}"
      using Suc.IH k by auto
    have step: "?run (Suc k) = fold (push_at k) ?f ?t"
      using k by (simp add: take_Suc_conv_app_nth nth_enumerate_eq component_entries_def)
    have f: "distinct ?f" "list_all (\<lambda>i. i < length ?t) ?f"
    proof -
      have "distinct ?f \<and> set ?f \<subseteq> {..< n}" using assms k by (simp add: list_all_length)
      then show "distinct ?f" "list_all (\<lambda>i. i < length ?t) ?f" by (auto simp: list_all_iff IH(1))
    qed
    have push: "distinct js \<Longrightarrow> list_all (\<lambda>i. i < length t) js \<Longrightarrow> u < length t \<Longrightarrow>
        fold (push_at k) js t ! u = t ! u @ (if u \<in> set js then [k] else [])" for js t u
    proof (induction js arbitrary: t)
      case (Cons j js)
      then have "fold (push_at k) js (push_at k j t) ! u = push_at k j t ! u @ (if u \<in> set js then [k] else [])"
        by (intro Cons.IH) (auto simp: push_at_def)
      moreover have "push_at k j t ! u = t ! u @ (if u = j then [k] else [])"
        using Cons.prems by (simp add: push_at_def nth_list_update)
      ultimately show ?case using Cons.prems(1) by auto
    qed simp
    note len = set_push_at_fold [OF f, of k]
    have "distinct (?run (Suc k) ! u)
        \<and> set (?run (Suc k) ! u) = {c. c < Suc k \<and> u \<in> set (comp_sources (components ! c))}" if u: "u < n" for u
      using push [OF f, of u] u IH unfolding step by (auto simp: less_Suc_eq)
    moreover have "length (?run (Suc k)) = n" using len IH(1) by (simp add: step)
    ultimately show ?case by blast
  qed simp
  from this [of "length components"] show ?thesis by simp
qed

lemma components_exact_bounds:
  assumes "components_exact xs assigned components" and "list_all (parents_in_range xs) xs" and "c < length components"
  obtains v where "v < length xs" and "component_of assigned v = c" and "component_lists xs assigned components v c"
    and "set (comp_parents (components ! c)) \<subseteq> {..< length components} - {c}"
    and "expansion_class xs v \<subseteq> {..< length xs}"
proof -
  obtain v where v: "v < length xs" "component_of assigned v = c"
    using assms(1,3) unfolding components_exact_def by blast
  then have lists: "component_lists xs assigned components v c"
    using assms(1) unfolding components_exact_def by blast
  have sub: "expansion_class xs v \<subseteq> {..< length xs}"
  proof
    fix w
    assume "w \<in> expansion_class xs v"
    then have "expansion_ancestor xs v w" by (simp add: expansion_class_def)
    from this v(1) show "w \<in> {..< length xs}"
    proof induction
      case (ancestor_parent i p a)
      with assms(2) show ?case by (auto simp: list_all_length parents_in_range_def)
    qed simp
  qed
  have "component_of assigned p < length components" if "e \<in> expansion_class xs v" "has_parent (xs ! e) p" for e p
  proof -
    have "parents_in_range xs (xs ! e)" using sub that(1) assms(2) by (auto simp: list_all_length)
    with that(2) have "p < length xs" by (simp add: parents_in_range_def)
    with assms(1) show ?thesis unfolding components_exact_def by blast
  qed
  then have "set (comp_parents (components ! c)) \<subseteq> {..< length components} - {c}"
    using lists by (auto simp: component_lists_def)
  with v lists sub show thesis by (rule_tac that)
qed

lemma components_exact_assigned:
  assumes "components_exact xs assigned components"
  shows "components_assigned assigned components"
  unfolding components_assigned_def
proof (intro allI impI)
  fix c
  assume "Some c \<in> set assigned"
  then obtain v where v: "v < length assigned" "assigned ! v = Some c" by (auto simp: in_set_conv_nth)
  then have "component_of assigned v = c" "v < length xs"
    using assms by (simp_all add: component_of_def components_exact_def)
  with assms show "c < length components" unfolding components_exact_def by blast
qed

lemma site_tables_okD:
  assumes "site_tables_ok source owner_index build" and "ib_site_ids build r = Some s"
  shows "\<exists>found. site_owners owner_index r = Inr found \<and> set (is_owners (ib_sites build ! s)) = set found"
proof -
  have "site_indexed source owner_index r (ib_sites build ! s)" using assms unfolding site_tables_ok_def by blast
  then show ?thesis unfolding site_indexed_def by (cases "site_owners owner_index r") auto
qed

lemma reachability_index_new_Inr:
  assumes "reachability_index_new source owner_index graph delegated = Inr index"
  obtains assigned components where "expansion_components source graph = Inr (assigned, components)"
    and "index_wf index" and "source_count index = length (src_units source)"
    and "index_means owner_index assigned components (compiler_edges delegated graph) index"
proof -
  let ?n = "length (src_units source)" and ?es = "compiler_edges delegated graph"
  let ?start = "\<lambda>components. \<lparr>ib_edges = [], ib_by_from = Map.empty, ib_sites = [], ib_site_ids = Map.empty,
          ib_sites_by_source = replicate ?n [], ib_components = components\<rparr>"
  from assms obtain assigned components build where
    comps: "expansion_components source graph = Inr (assigned, components)"
    and run: "fold_result (index_edge source owner_index assigned delegated) (g_edges graph) (?start components) = Inr build"
    and index: "index =
           \<lparr>ri_edges = ib_edges build,
            ri_by_from = (\<lambda>node. map_option sort_dedup (ib_by_from build node)),
            ri_sites = ib_sites build,
            ri_sites_by_source = map sort_dedup (ib_sites_by_source build),
            ri_components = map (\<lambda>c. c\<lparr>comp_target_edges := sort_dedup (comp_target_edges c)\<rparr>) (ib_components build),
            ri_components_by_source =
              fold component_entries
                (enumerate 0 (map (\<lambda>c. c\<lparr>comp_target_edges := sort_dedup (comp_target_edges c)\<rparr>) (ib_components build)))
                (replicate ?n [])\<rparr>"
    by (auto simp: reachability_index_new_def bind_result_eq_Inr Let_def split: prod.splits)
  note exact = expansion_components_Inr [OF comps]
  let ?xs = "g_expansions graph"
  have in_range: "list_all (parents_in_range ?xs) ?xs" using exact(2) by (simp add: expansions_indexable_def)
  have "build_ok source owner_index assigned components [] (?start components)"
  proof -
    have "comp_target_edges (components ! c) = []" if "c < length components" for c
      using components_exact_bounds [OF exact(1) in_range that] by (metis component_lists_def)
    then show ?thesis
      by (simp add: build_ok_def from_ok_def site_tables_ok_def site_edges_ok_def targets_ok_def)
  qed
  from index_edges_ok [OF run this components_exact_assigned [OF exact(1)]]
  have ok: "build_ok source owner_index assigned components ?es build" by (simp add: compiler_edges_def)
  then have edges: "ib_edges build = map (indexed_of assigned) ?es" and from_edges: "from_ok ?es (ib_by_from build)"
    and tables: "site_tables_ok source owner_index build" and site_edges: "site_edges_ok ?es build"
    and targets: "targets_ok assigned components ?es (ib_components build)" by (simp_all add: build_ok_def)
  let ?cs = "ri_components index"
  have len: "length ?cs = length components" using targets_ok_length [OF targets] by (simp add: index)
  have same: "map (comp_target_edges_update (\<lambda>_. [])) ?cs = map (comp_target_edges_update (\<lambda>_. [])) components"
    using targets by (simp add: index targets_ok_def o_def)
  have at: "(?cs ! c)\<lparr>comp_target_edges := []\<rparr> = (components ! c)\<lparr>comp_target_edges := []\<rparr>" if "c < length components" for c
    using arg_cong [OF same, of "\<lambda>l. l ! c"] that len by simp
  have fields: "comp_sources (?cs ! c) = comp_sources (components ! c)" "comp_parents (?cs ! c) = comp_parents (components ! c)"
    "comp_children (?cs ! c) = comp_children (components ! c)" if "c < length components" for c
    using arg_cong [OF at [OF that], of comp_sources] arg_cong [OF at [OF that], of comp_parents]
      arg_cong [OF at [OF that], of comp_children] by simp_all
  have count: "source_count index = ?n" using tables by (simp add: index source_count_def site_tables_ok_def)
  have sources: "distinct (comp_sources (components ! c))" "set (comp_sources (components ! c)) \<subseteq> {..< ?n}"
    if "c < length components" for c
  proof -
    from components_exact_bounds [OF exact(1) in_range that] obtain v where
      v: "component_lists ?xs assigned components v c" "expansion_class ?xs v \<subseteq> {..< length ?xs}" by metis
    then show "distinct (comp_sources (components ! c))" by (simp add: component_lists_def)
    show "set (comp_sources (components ! c)) \<subseteq> {..< ?n}"
    proof
      fix u
      assume "u \<in> set (comp_sources (components ! c))"
      with v(1) obtain e where e: "e \<in> expansion_class ?xs v" "written_invocation (?xs ! e) = Some u"
        by (auto simp: component_lists_def written_units_def)
      with v(2) have "?xs ! e \<in> set ?xs" by auto
      with exact(2) e(2) have "active_invocation source u"
        by (fastforce simp: expansions_indexable_def list_all_iff)
      then have "unit_at (src_units source) u \<noteq> None"
        by (cases "unit_at (src_units source) u") (simp_all add: active_invocation_def)
      then show "u \<in> {..< ?n}" by auto
    qed
  qed
  have comp_wf: "component_wf index c" if c: "c < length components" for c
  proof -
    from components_exact_bounds [OF exact(1) in_range c] obtain v where
      v: "component_lists ?xs assigned components v c"
        "set (comp_parents (components ! c)) \<subseteq> {..< length components} - {c}" by metis
    have kids: "{d. d < length components \<and> c \<in> set (comp_parents (components ! d))}
        = {d. d < length components \<and> c \<in> set (comp_parents (?cs ! d))}" using fields(2) by auto
    have "set (comp_target_edges (?cs ! c)) = set (comp_target_edges (ib_components build ! c))"
      using c len by (simp add: index)
    also have "\<dots> = {i. i < length ?es \<and> target_component assigned (?es ! i) = Some c}"
      using targets c targets_ok_length [OF targets] by (simp add: targets_ok_def)
    also have "\<dots> = {i. i < length (ri_edges index) \<and> ie_component (ri_edges index ! i) = Some c}"
      by (auto simp: index edges indexed_of_def)
    finally have "set (comp_target_edges (?cs ! c))
        = {i. i < length (ri_edges index) \<and> ie_component (ri_edges index ! i) = Some c}" .
    with v sources [OF c] kids show ?thesis
      unfolding component_wf_def Let_def fields [OF c] len count by (simp add: component_lists_def)
  qed
  have site_wf: "site_wf index site" if site: "site \<in> set (ri_sites index)" for site
  proof -
    from site obtain s where s: "s < length (ib_sites build)" "site = ib_sites build ! s"
      by (auto simp: index in_set_conv_nth)
    then obtain r where r: "ib_site_ids build r = Some s" using tables by (auto simp: site_tables_ok_def)
    have "site_indexed source owner_index r site" using tables r s(2) by (simp add: site_tables_ok_def)
    then obtain found where found: "valid_owners source found" "is_owners site = sort_dedup found"
      by (auto simp: site_indexed_def split: sum.splits)
    have "sort_dedup found \<noteq> []" using found(1) by (metis set_empty set_sort_dedup valid_owners_def)
    moreover have "set found \<subseteq> {..< ?n}" using found(1) by (auto simp: valid_owners_def list_all_iff)
    moreover have "distinct (is_edges site)" "set (is_edges site) \<subseteq> {..< length ?es}"
      using site_edges r s(2) by (auto simp: site_edges_ok_def)
    ultimately show ?thesis using found(2) count by (simp add: site_wf_def index edges)
  qed
  have "set (edges_from index n) = {i. i < length ?es \<and> e_from (?es ! i) = n}" for n
    using from_edges [unfolded from_ok_def, rule_format, of n]
    by (simp add: edges_from_def index split: option.split)
  then have from_wf: "\<forall>n. set (edges_from index n) = {i. i < length (ri_edges index) \<and> ie_from (ri_edges index ! i) = n}"
    by (auto simp: index edges indexed_of_def)
  have cbs: "length (ri_components_by_source index) = ?n
    \<and> (\<forall>u < ?n. distinct (ri_components_by_source index ! u)
        \<and> set (ri_components_by_source index ! u) = {c. c < length ?cs \<and> u \<in> set (comp_sources (?cs ! c))})"
  proof -
    have "list_all (\<lambda>facts. distinct (comp_sources facts) \<and> set (comp_sources facts) \<subseteq> {..< ?n}) ?cs"
      using sources fields(1) by (simp add: list_all_length len)
    from component_entries_fold [OF this] show ?thesis by (simp add: index)
  qed
  have sbs: "distinct (ri_sites_by_source index ! u) \<and> set (ri_sites_by_source index ! u)
      = {s. s < length (ri_sites index) \<and> u \<in> set (is_owners (ri_sites index ! s))}" if "u < ?n" for u
    using tables that by (simp add: index site_tables_ok_def)
  have "pred_option (\<lambda>c. c < length ?cs) (ie_component e)" if "e \<in> set (ri_edges index)" for e
  proof -
    from that obtain edge where "e = indexed_of assigned edge" by (auto simp: index edges)
    then show ?thesis using target_component_bound [OF components_exact_assigned [OF exact(1)]]
      by (auto simp: indexed_of_def len option.pred_set)
  qed
  then have wf: "index_wf index"
    unfolding index_wf_def count using from_wf site_wf sbs cbs comp_wf len by (simp add: list_all_iff)
  have means: "indexed_owner_sets index i
      = (if site_unconditional (?es ! i) then {} else site_owner_sets owner_index (?es ! i))" if i: "i < length ?es" for i
  proof -
    have edge_iff: "i \<in> set (is_edges (ib_sites build ! s)) \<longleftrightarrow> \<not> site_unconditional (?es ! i) \<and> r \<in> site_ranges (?es ! i)"
      if "ib_site_ids build r = Some s" for r s
      using site_edges that i by (simp add: site_edges_ok_def)
    have owners: "\<exists>found. site_owners owner_index r = Inr found \<and> set (is_owners (ib_sites build ! s)) = set found"
      if "ib_site_ids build r = Some s" for r s
      by (rule site_tables_okD [OF tables that])
    have covered: "\<exists>r. ib_site_ids build r = Some s" if "s < length (ib_sites build)" for s
      using tables that by (auto simp: site_tables_ok_def)
    have bound: "s < length (ib_sites build)" if "ib_site_ids build r = Some s" for r s
      using tables that by (simp add: site_tables_ok_def)
    show ?thesis
    proof (cases "site_unconditional (?es ! i)")
      case True
      then have "i \<notin> set (is_edges (ib_sites build ! s))" if "s < length (ib_sites build)" for s
        using edge_iff covered [OF that] by blast
      with True show ?thesis unfolding indexed_owner_sets_def by (auto simp: index)
    next
      case False
      have known: "\<exists>s. ib_site_ids build r = Some s" if "r \<in> site_ranges (?es ! i)" for r
        using site_edges i False that by (auto simp: site_edges_ok_def)
      have "indexed_owner_sets index i = site_owner_sets owner_index (?es ! i)"
      proof (intro equalityI subsetI)
        fix owners
        assume "owners \<in> indexed_owner_sets index i"
        then obtain s where s: "s < length (ib_sites build)" "i \<in> set (is_edges (ib_sites build ! s))"
          "owners = set (is_owners (ib_sites build ! s))" by (auto simp: indexed_owner_sets_def index)
        then obtain r where r: "ib_site_ids build r = Some s" using covered by blast
        with s edge_iff owners show "owners \<in> site_owner_sets owner_index (?es ! i)" unfolding site_owner_sets_def by blast
      next
        fix owners
        assume "owners \<in> site_owner_sets owner_index (?es ! i)"
        then obtain r found where r: "r \<in> site_ranges (?es ! i)" "site_owners owner_index r = Inr found"
          "owners = set found" by (auto simp: site_owner_sets_def)
        with known obtain s where s: "ib_site_ids build r = Some s" by blast
        from owners [OF s] r(2,3) have "owners = set (is_owners (ib_sites build ! s))" by auto
        with s r(1) edge_iff [OF s] bound [OF s] False show "owners \<in> indexed_owner_sets index i"
          by (auto simp: indexed_owner_sets_def index)
      qed
      with False show ?thesis by simp
    qed
  qed
  have found: "\<exists>found. site_owners owner_index r = Inr found"
    if "i < length ?es" "\<not> site_unconditional (?es ! i)" "r \<in> site_ranges (?es ! i)" for i r
  proof -
    have "site_ranges (?es ! i) \<subseteq> dom (ib_site_ids build)" using site_edges that(1,2) unfolding site_edges_ok_def by blast
    with that(3) obtain s where "ib_site_ids build r = Some s" by blast
    from site_tables_okD [OF tables this] show ?thesis by blast
  qed
  have "index_means owner_index assigned components ?es index"
    unfolding index_means_def using means found same targets by (simp add: index edges targets_ok_def)
  with comps wf count show thesis by (rule_tac that)
qed

end
