(* ===== verification/Reachability_Closure.thy ===== *)
theory Reachability_Closure
  imports Reachability_Index
begin

text \<open>
  The stateful closure of \<open>src/retention/reachability.rs\<close> (\<open>CompilerReachabilityClosure\<close>): source
  units, expansion components, nodes and edges are consumed when one of their gates opens.  The
  queues are lists whose front comes first, the ordered sets are sets that are iterated in increasing
  order.  The index only holds positions of its own vectors, so the tests of the bounds before an
  edge is fired and before a component is released never fail.
\<close>

section \<open>State\<close>

record reachability_closure =
  rc_initialized :: bool
  rc_sources :: "bool list"
  rc_nodes :: "graph_node set"
  rc_site_owners :: "nat list"
  rc_site_states :: "nat list"
  rc_dirty :: "nat set"
  rc_missing_sources :: "nat list"
  rc_missing_parents :: "nat list"
  rc_survives :: "bool list"
  rc_open :: "bool list"
  rc_partial :: "nat list"
  rc_fired :: "bool list"
  rc_queued :: "bool list"
  rc_pending_nodes :: "graph_node list"
  rc_pending_components :: "nat list"
  rc_pending_edges :: "nat list"

definition queue_component_if_ready :: "nat \<Rightarrow> reachability_closure \<Rightarrow> reachability_closure" where
  "queue_component_if_ready component c =
     (if \<not> rc_survives c ! component \<and> rc_missing_sources c ! component = 0 \<and> rc_missing_parents c ! component = 0
      then c\<lparr>rc_pending_components := rc_pending_components c @ [component]\<rparr> else c)"

definition queue_edge :: "nat \<Rightarrow> reachability_closure \<Rightarrow> reachability_closure" where
  "queue_edge edge c =
     (if \<not> rc_fired c ! edge \<and> \<not> rc_queued c ! edge
      then c\<lparr>rc_queued := (rc_queued c)[edge := True], rc_pending_edges := rc_pending_edges c @ [edge]\<rparr> else c)"

definition reachability_closure_new :: "reachability_index \<Rightarrow> reachability_closure" where
  "reachability_closure_new index =
     fold queue_component_if_ready [0 ..< length (ri_components index)]
       \<lparr>rc_initialized = False,
        rc_sources = replicate (length (ri_sites_by_source index)) False,
        rc_nodes = {},
        rc_site_owners = replicate (length (ri_sites index)) 0,
        rc_site_states = replicate (length (ri_sites index)) 0,
        rc_dirty = {},
        rc_missing_sources = map (\<lambda>facts. length (comp_sources facts)) (ri_components index),
        rc_missing_parents = map (\<lambda>facts. length (comp_parents facts)) (ri_components index),
        rc_survives = replicate (length (ri_components index)) False,
        rc_open = map ie_unconditional (ri_edges index),
        rc_partial = replicate (length (ri_edges index)) 0,
        rc_fired = replicate (length (ri_edges index)) False,
        rc_queued = replicate (length (ri_edges index)) False,
        rc_pending_nodes = [], rc_pending_components = [], rc_pending_edges = []\<rparr>"

section \<open>New nodes and sources\<close>

definition add_node :: "graph_node \<Rightarrow> reachability_closure \<Rightarrow> reachability_closure" where
  "add_node node c =
     (if node \<in> rc_nodes c then c
      else c\<lparr>rc_nodes := insert node (rc_nodes c), rc_pending_nodes := rc_pending_nodes c @ [node]\<rparr>)"

definition closure_add_reachable :: "graph_node list \<Rightarrow> reachability_closure \<Rightarrow> reachability_closure" where
  "closure_add_reachable nodes = fold add_node nodes"

definition count_owner :: "nat \<Rightarrow> reachability_closure \<Rightarrow> reachability_closure" where
  "count_owner site c =
     c\<lparr>rc_site_owners := (rc_site_owners c)[site := Suc (rc_site_owners c ! site)],
       rc_dirty := insert site (rc_dirty c)\<rparr>"

definition count_source ::
  "nat \<Rightarrow> reachability_closure \<times> nat set \<Rightarrow> retention_error + reachability_closure \<times> nat set" where
  "count_source component = (\<lambda>(c, affected).
     if rc_missing_sources c ! component = 0 then Inl InvalidGraph
     else Inr
       (c\<lparr>rc_missing_sources := (rc_missing_sources c)[component := rc_missing_sources c ! component - 1]\<rparr>,
        insert component affected))"

definition closure_add_source ::
  "reachability_index \<Rightarrow> source_unit_id \<Rightarrow> reachability_closure \<times> nat set
     \<Rightarrow> retention_error + reachability_closure \<times> nat set" where
  "closure_add_source index unit = (\<lambda>(c, affected).
     case get_at (rc_sources c) unit of
       None \<Rightarrow> Inl InvalidGraph
     | Some retained \<Rightarrow>
         if retained then Inr (c, affected)
         else fold_result count_source (ri_components_by_source index ! unit)
           (fold count_owner (ri_sites_by_source index ! unit) (c\<lparr>rc_sources := (rc_sources c)[unit := True]\<rparr>), affected))"

definition closure_add_sources ::
  "reachability_index \<Rightarrow> source_unit_id list \<Rightarrow> reachability_closure \<Rightarrow> retention_error + reachability_closure" where
  "closure_add_sources index units c =
     bind_result (fold_result (closure_add_source index) units (c, {})) (\<lambda>(c, affected).
       Inr (fold queue_component_if_ready (sorted_list_of_set affected) c))"

definition reachability_seed ::
  "reachability_index \<Rightarrow> graph_node set \<Rightarrow> source_unit_id set \<Rightarrow> reachability_closure
     \<Rightarrow> retention_error + reachability_closure" where
  "reachability_seed index reachable retained c =
     (if rc_initialized c then Inl InvalidConstraint
      else bind_result
        (closure_add_sources index (sorted_list_of_set retained) (c\<lparr>rc_initialized := True\<rparr>))
        (\<lambda>c. Inr (closure_add_reachable (sorted_list_of_set reachable) c)))"

section \<open>Dirty sites\<close>

definition update_site_edge :: "nat \<Rightarrow> nat \<Rightarrow> nat \<Rightarrow> reachability_closure \<Rightarrow> retention_error + reachability_closure" where
  "update_site_edge previous state edge c =
     bind_result
       (if previous = 1 then
          (if rc_partial c ! edge = 0 then Inl InvalidGraph
           else Inr (c\<lparr>rc_partial := (rc_partial c)[edge := rc_partial c ! edge - 1]\<rparr>))
        else Inr c)
       (\<lambda>c. Inr (queue_edge edge
         (if state = 1 then c\<lparr>rc_partial := (rc_partial c)[edge := Suc (rc_partial c ! edge)]\<rparr>
          else if state = 2 then c\<lparr>rc_open := (rc_open c)[edge := True]\<rparr>
          else c)))"

definition site_state :: "nat \<Rightarrow> nat \<Rightarrow> nat" where
  "site_state retained owners = (if retained = 0 then 0 else if retained = owners then 2 else 1)"

definition update_site :: "reachability_index \<Rightarrow> nat \<Rightarrow> reachability_closure \<Rightarrow> retention_error + reachability_closure" where
  "update_site index site c =
     (let retained = rc_site_owners c ! site; owners = length (is_owners (ri_sites index ! site));
          state = site_state retained owners; previous = rc_site_states c ! site
      in if retained > owners then Inl InvalidGraph
         else if state = previous then Inr c
         else fold_result (update_site_edge previous state) (is_edges (ri_sites index ! site))
                (c\<lparr>rc_site_states := (rc_site_states c)[site := state]\<rparr>))"

definition update_sites :: "reachability_index \<Rightarrow> reachability_closure \<Rightarrow> retention_error + reachability_closure" where
  "update_sites index c =
     fold_result (update_site index) (sorted_list_of_set (rc_dirty c)) (c\<lparr>rc_dirty := {}\<rparr>)"

section \<open>Pending work\<close>

definition release_child :: "nat \<Rightarrow> reachability_closure \<Rightarrow> reachability_closure" where
  "release_child child c =
     queue_component_if_ready child
       (if rc_missing_parents c ! child \<noteq> 0
        then c\<lparr>rc_missing_parents := (rc_missing_parents c)[child := rc_missing_parents c ! child - 1]\<rparr> else c)"

definition release_component :: "reachability_index \<Rightarrow> nat \<Rightarrow> reachability_closure \<Rightarrow> reachability_closure" where
  "release_component index component c =
     fold release_child (comp_children (ri_components index ! component))
       (fold queue_edge (comp_target_edges (ri_components index ! component))
         (c\<lparr>rc_survives := (rc_survives c)[component := True]\<rparr>))"

lemma queue_edge_fields [simp]:
  "rc_survives (queue_edge e c) = rc_survives c" "rc_fired (queue_edge e c) = rc_fired c"
  "rc_pending_nodes (queue_edge e c) = rc_pending_nodes c" "rc_nodes (queue_edge e c) = rc_nodes c"
  "rc_pending_components (queue_edge e c) = rc_pending_components c"
  "rc_missing_sources (queue_edge e c) = rc_missing_sources c"
  "rc_missing_parents (queue_edge e c) = rc_missing_parents c"
  "rc_sources (queue_edge e c) = rc_sources c" "rc_site_owners (queue_edge e c) = rc_site_owners c"
  "rc_site_states (queue_edge e c) = rc_site_states c" "rc_dirty (queue_edge e c) = rc_dirty c"
  "rc_open (queue_edge e c) = rc_open c" "rc_partial (queue_edge e c) = rc_partial c"
  by (simp_all add: queue_edge_def)

lemma release_child_fields [simp]:
  "rc_survives (release_child d c) = rc_survives c" "rc_fired (release_child d c) = rc_fired c"
  "rc_pending_nodes (release_child d c) = rc_pending_nodes c"
  by (simp_all add: release_child_def queue_component_if_ready_def)

text \<open>A field that a step leaves alone is left alone by a fold of the step.\<close>

lemma fold_keeps: "(\<And>x s. f (g x s) = f s) \<Longrightarrow> f (fold g xs s) = f s"
  by (induction xs arbitrary: s) simp_all

lemma release_component_fields:
  "rc_survives (release_component index component c) = (rc_survives c)[component := True]"
  "rc_fired (release_component index component c) = rc_fired c"
  "rc_pending_nodes (release_component index component c) = rc_pending_nodes c"
  unfolding release_component_def
  by (simp_all add: fold_keeps [of rc_survives] fold_keeps [of rc_fired] fold_keeps [of rc_pending_nodes])

function close_components :: "reachability_index \<Rightarrow> reachability_closure \<Rightarrow> reachability_closure" where
  "close_components index c =
     (case rc_pending_components c of
        [] \<Rightarrow> c
      | component # rest \<Rightarrow>
          if component < length (rc_survives c) \<and> \<not> rc_survives c ! component
             \<and> rc_missing_sources c ! component = 0 \<and> rc_missing_parents c ! component = 0
          then close_components index (release_component index component (c\<lparr>rc_pending_components := rest\<rparr>))
          else close_components index (c\<lparr>rc_pending_components := rest\<rparr>))"
  by pat_completeness auto
termination
  by (relation "measures [\<lambda>(index, c). unvisited_count (rc_survives c), \<lambda>(index, c). length (rc_pending_components c)]")
     (auto simp: release_component_fields unvisited_count_mark)

declare close_components.simps [simp del]

definition visit_node :: "reachability_index \<Rightarrow> graph_node \<Rightarrow> reachability_closure \<Rightarrow> reachability_closure" where
  "visit_node index node c =
     (case ri_by_from index node of None \<Rightarrow> c | Some edges \<Rightarrow> fold queue_edge edges c)"

text \<open>Visiting a node queues no node, and visiting an edge queues no edge.\<close>

definition close_nodes :: "reachability_index \<Rightarrow> reachability_closure \<Rightarrow> reachability_closure" where
  "close_nodes index c = fold (visit_node index) (rc_pending_nodes c) (c\<lparr>rc_pending_nodes := []\<rparr>)"

type_synonym reachability_work = "reachability_closure \<times> graph_node set \<times> graph_node list"

definition visit_edge :: "reachability_index \<Rightarrow> nat \<Rightarrow> reachability_work \<Rightarrow> retention_error + reachability_work" where
  "visit_edge index edge = (\<lambda>(c, reachable, newly).
     let c = c\<lparr>rc_queued := (rc_queued c)[edge := False]\<rparr>; facts = ri_edges index ! edge
     in if edge \<ge> length (rc_fired c) \<or> rc_fired c ! edge then Inr (c, reachable, newly)
        else if ie_from facts \<notin> rc_nodes c
               \<or> (case ie_component facts of None \<Rightarrow> False | Some component \<Rightarrow> \<not> rc_survives c ! component)
        then Inr (c, reachable, newly)
        else if \<not> rc_open c ! edge
        then (if rc_partial c ! edge \<noteq> 0 then Inl InvalidGraph else Inr (c, reachable, newly))
        else Inr
          (add_node (ie_to facts) (c\<lparr>rc_fired := (rc_fired c)[edge := True]\<rparr>),
           insert (ie_to facts) reachable,
           if ie_to facts \<in> reachable then newly else newly @ [ie_to facts]))"

definition close_edges :: "reachability_index \<Rightarrow> reachability_work \<Rightarrow> retention_error + reachability_work" where
  "close_edges index = (\<lambda>(c, reachable, newly).
     fold_result (visit_edge index) (rc_pending_edges c) (c\<lparr>rc_pending_edges := []\<rparr>, reachable, newly))"

definition closure_round :: "reachability_index \<Rightarrow> reachability_work \<Rightarrow> retention_error + reachability_work" where
  "closure_round index = (\<lambda>(c, reachable, newly).
     close_edges index (close_nodes index (close_components index c), reachable, newly))"

definition nothing_pending :: "reachability_closure \<Rightarrow> bool" where
  "nothing_pending c \<longleftrightarrow> rc_pending_components c = [] \<and> rc_pending_nodes c = [] \<and> rc_pending_edges c = []"

lemma close_components_Nil: "rc_pending_components c = [] \<Longrightarrow> close_components index c = c"
  by (subst close_components.simps) simp

lemma close_components_release:
  "rc_pending_components c = component # rest \<Longrightarrow>
     component < length (rc_survives c) \<and> \<not> rc_survives c ! component
       \<and> rc_missing_sources c ! component = 0 \<and> rc_missing_parents c ! component = 0 \<Longrightarrow>
     close_components index c
       = close_components index (release_component index component (c\<lparr>rc_pending_components := rest\<rparr>))"
  by (subst close_components.simps) simp

lemma close_components_skip:
  "rc_pending_components c = component # rest \<Longrightarrow>
     \<not> (component < length (rc_survives c) \<and> \<not> rc_survives c ! component
       \<and> rc_missing_sources c ! component = 0 \<and> rc_missing_parents c ! component = 0) \<Longrightarrow>
     close_components index c = close_components index (c\<lparr>rc_pending_components := rest\<rparr>)"
  by (subst close_components.simps) (simp only: list.case if_False)

lemma close_components_fields:
  "rc_pending_components (close_components index c) = []
   \<and> rc_fired (close_components index c) = rc_fired c
   \<and> rc_pending_nodes (close_components index c) = rc_pending_nodes c"
proof (induction index c rule: close_components.induct)
  case (1 index c)
  show ?case
  proof (cases "rc_pending_components c")
    case Nil
    then show ?thesis by (simp add: close_components_Nil)
  next
    case (Cons component rest)
    note IH = 1 [OF Cons]
    show ?thesis
    proof (cases "component < length (rc_survives c) \<and> \<not> rc_survives c ! component
             \<and> rc_missing_sources c ! component = 0 \<and> rc_missing_parents c ! component = 0")
      case True
      with IH(1) [OF True] close_components_release [OF Cons True, of index] show ?thesis
        by (simp add: release_component_fields)
    next
      case False
      with IH(2) [OF False] close_components_skip [OF Cons False, of index] show ?thesis by simp
    qed
  qed
qed

lemma visit_node_fields [simp]:
  "rc_pending_components (visit_node index n c) = rc_pending_components c"
  "rc_fired (visit_node index n c) = rc_fired c" "rc_pending_nodes (visit_node index n c) = rc_pending_nodes c"
  "rc_survives (visit_node index n c) = rc_survives c" "rc_nodes (visit_node index n c) = rc_nodes c"
  by (simp_all add: visit_node_def fold_keeps [of rc_pending_components] fold_keeps [of rc_fired]
      fold_keeps [of rc_pending_nodes] fold_keeps [of rc_survives] fold_keeps [of rc_nodes] split: option.split)

lemma close_nodes_fields:
  "rc_pending_components (close_nodes index c) = rc_pending_components c"
  "rc_fired (close_nodes index c) = rc_fired c" "rc_pending_nodes (close_nodes index c) = []"
  unfolding close_nodes_def
  by (simp_all add: fold_keeps [of rc_pending_components] fold_keeps [of rc_fired] fold_keeps [of rc_pending_nodes])

definition unfired_work :: "reachability_closure \<Rightarrow> nat" where
  "unfired_work c = unvisited_count (rc_fired c) + length (rc_pending_nodes c)"

lemma add_node_fields [simp]:
  "rc_fired (add_node n c) = rc_fired c" "rc_pending_edges (add_node n c) = rc_pending_edges c"
  "rc_pending_components (add_node n c) = rc_pending_components c"
  "rc_survives (add_node n c) = rc_survives c" "rc_open (add_node n c) = rc_open c"
  "rc_partial (add_node n c) = rc_partial c" "rc_queued (add_node n c) = rc_queued c"
  "rc_nodes (add_node n c) = insert n (rc_nodes c)"
  "rc_sources (add_node n c) = rc_sources c" "rc_site_owners (add_node n c) = rc_site_owners c"
  "rc_site_states (add_node n c) = rc_site_states c" "rc_dirty (add_node n c) = rc_dirty c"
  "rc_missing_sources (add_node n c) = rc_missing_sources c"
  "rc_missing_parents (add_node n c) = rc_missing_parents c"
  "rc_initialized (add_node n c) = rc_initialized c"
  by (auto simp: add_node_def)

lemma add_node_pending: "length (rc_pending_nodes (add_node n c)) \<le> Suc (length (rc_pending_nodes c))"
  by (simp add: add_node_def)

text \<open>The cases of one edge.\<close>

lemma visit_edge_cases:
  assumes "visit_edge index edge (c, reachable, newly) = r"
  obtains (same) "r = Inr (c\<lparr>rc_queued := (rc_queued c)[edge := False]\<rparr>, reachable, newly)"
      and "edge \<ge> length (rc_fired c) \<or> rc_fired c ! edge
        \<or> ie_from (ri_edges index ! edge) \<notin> rc_nodes c
        \<or> (\<exists>d. ie_component (ri_edges index ! edge) = Some d \<and> \<not> rc_survives c ! d)
        \<or> \<not> rc_open c ! edge \<and> rc_partial c ! edge = 0"
  | (refuse) "r = Inl InvalidGraph" and "edge < length (rc_fired c)" and "\<not> rc_fired c ! edge"
      and "ie_from (ri_edges index ! edge) \<in> rc_nodes c"
      and "pred_option (\<lambda>d. rc_survives c ! d) (ie_component (ri_edges index ! edge))"
      and "\<not> rc_open c ! edge" and "rc_partial c ! edge \<noteq> 0"
  | (fire) "r = Inr (add_node (ie_to (ri_edges index ! edge))
            (c\<lparr>rc_queued := (rc_queued c)[edge := False], rc_fired := (rc_fired c)[edge := True]\<rparr>),
          insert (ie_to (ri_edges index ! edge)) reachable,
          if ie_to (ri_edges index ! edge) \<in> reachable then newly else newly @ [ie_to (ri_edges index ! edge)])"
      and "edge < length (rc_fired c)" and "\<not> rc_fired c ! edge"
      and "ie_from (ri_edges index ! edge) \<in> rc_nodes c"
      and "pred_option (\<lambda>d. rc_survives c ! d) (ie_component (ri_edges index ! edge))"
      and "rc_open c ! edge"
proof -
  let ?facts = "ri_edges index ! edge"
  let ?blocked = "case ie_component ?facts of None \<Rightarrow> False | Some d \<Rightarrow> \<not> rc_survives c ! d"
  have eq: "r = (if edge \<ge> length (rc_fired c) \<or> rc_fired c ! edge
        then Inr (c\<lparr>rc_queued := (rc_queued c)[edge := False]\<rparr>, reachable, newly)
      else if ie_from ?facts \<notin> rc_nodes c \<or> ?blocked
        then Inr (c\<lparr>rc_queued := (rc_queued c)[edge := False]\<rparr>, reachable, newly)
      else if \<not> rc_open c ! edge
        then (if rc_partial c ! edge \<noteq> 0 then Inl InvalidGraph
              else Inr (c\<lparr>rc_queued := (rc_queued c)[edge := False]\<rparr>, reachable, newly))
      else Inr (add_node (ie_to ?facts)
            (c\<lparr>rc_queued := (rc_queued c)[edge := False], rc_fired := (rc_fired c)[edge := True]\<rparr>),
          insert (ie_to ?facts) reachable,
          if ie_to ?facts \<in> reachable then newly else newly @ [ie_to ?facts]))"
    unfolding assms [symmetric] visit_edge_def Let_def by (cases "ie_component ?facts") simp_all
  have blocked: "?blocked \<longleftrightarrow> (\<exists>d. ie_component ?facts = Some d \<and> \<not> rc_survives c ! d)"
    "\<not> ?blocked \<longleftrightarrow> pred_option (\<lambda>d. rc_survives c ! d) (ie_component ?facts)"
    by (simp_all split: option.split)
  show thesis
  proof (cases "edge \<ge> length (rc_fired c) \<or> rc_fired c ! edge")
    case True
    with eq have "r = Inr (c\<lparr>rc_queued := (rc_queued c)[edge := False]\<rparr>, reachable, newly)" by simp
    with True show thesis by (intro same) blast+
  next
    case live: False
    show thesis
    proof (cases "ie_from ?facts \<notin> rc_nodes c \<or> ?blocked")
      case True
      then have "r = Inr (c\<lparr>rc_queued := (rc_queued c)[edge := False]\<rparr>, reachable, newly)" using eq live by simp
      moreover from True blocked have "ie_from ?facts \<notin> rc_nodes c
        \<or> (\<exists>d. ie_component ?facts = Some d \<and> \<not> rc_survives c ! d)" by blast
      ultimately show thesis by (intro same) blast+
    next
      case gates: False
      then have from_in: "ie_from ?facts \<in> rc_nodes c"
        and target: "pred_option (\<lambda>d. rc_survives c ! d) (ie_component ?facts)" using blocked by blast+
      show thesis
      proof (cases "rc_open c ! edge")
        case True
        then have "r = Inr (add_node (ie_to ?facts)
            (c\<lparr>rc_queued := (rc_queued c)[edge := False], rc_fired := (rc_fired c)[edge := True]\<rparr>),
          insert (ie_to ?facts) reachable,
          if ie_to ?facts \<in> reachable then newly else newly @ [ie_to ?facts])"
          using eq live gates by (simp only: if_False not_True_eq_False)
        with True live from_in target show thesis by (intro fire) simp_all
      next
        case closed: False
        show thesis
        proof (cases "rc_partial c ! edge = 0")
          case True
          then have "r = Inr (c\<lparr>rc_queued := (rc_queued c)[edge := False]\<rparr>, reachable, newly)"
            using eq live gates closed by (simp only: if_False if_True not_False_eq_True simp_thms)
          with True closed show thesis by (intro same) blast+
        next
          case False
          then have "r = Inl InvalidGraph"
            using eq live gates closed by (simp only: if_False if_True not_False_eq_True simp_thms)
          with False closed live from_in target show thesis by (intro refuse) simp_all
        qed
      qed
    qed
  qed
qed

lemma close_edges_work:
  assumes "close_edges index (c, reachable, newly) = Inr (c', reachable', newly')"
  shows "unfired_work c' \<le> unfired_work c \<and> rc_pending_edges c' = []
    \<and> rc_pending_components c' = rc_pending_components c
    \<and> unvisited_count (rc_fired c') \<le> unvisited_count (rc_fired c)"
proof -
  have run: "fold_result (visit_edge index) es (c, reachable, newly) = Inr (c', reachable', newly') \<Longrightarrow>
      unfired_work c' \<le> unfired_work c \<and> rc_pending_edges c' = rc_pending_edges c
      \<and> rc_pending_components c' = rc_pending_components c
      \<and> unvisited_count (rc_fired c') \<le> unvisited_count (rc_fired c)" for es c reachable newly
  proof (induction es arbitrary: c reachable newly)
    case (Cons e es)
    from Cons.prems obtain c1 reachable1 newly1 where
      step: "visit_edge index e (c, reachable, newly) = Inr (c1, reachable1, newly1)"
      and rest: "fold_result (visit_edge index) es (c1, reachable1, newly1) = Inr (c', reachable', newly')"
      by (auto simp: bind_result_eq_Inr)
    from step have "unfired_work c1 \<le> unfired_work c \<and> rc_pending_edges c1 = rc_pending_edges c
      \<and> rc_pending_components c1 = rc_pending_components c
      \<and> unvisited_count (rc_fired c1) \<le> unvisited_count (rc_fired c)"
    proof (cases rule: visit_edge_cases)
      case fire
      let ?c = "c\<lparr>rc_queued := (rc_queued c)[e := False], rc_fired := (rc_fired c)[e := True]\<rparr>"
      have "unvisited_count ((rc_fired c)[e := True]) < unvisited_count (rc_fired c)"
        using fire(2,3) by (rule unvisited_count_mark)
      moreover have "c1 = add_node (ie_to (ri_edges index ! e)) ?c" using fire(1) by simp
      ultimately show ?thesis
        using add_node_pending [of "ie_to (ri_edges index ! e)" ?c] by (simp add: unfired_work_def)
    qed (simp_all add: unfired_work_def)
    with Cons.IH [OF rest] show ?case by simp
  qed simp
  from run [of "rc_pending_edges c" "c\<lparr>rc_pending_edges := []\<rparr>"] assms show ?thesis
    by (simp add: close_edges_def unfired_work_def)
qed

lemma closure_round_work:
  assumes "closure_round index (c, reachable, newly) = Inr (c', reachable', newly')" and "\<not> nothing_pending c"
  shows "unvisited_count (rc_fired c') < unvisited_count (rc_fired c)
    \<or> unvisited_count (rc_fired c') = unvisited_count (rc_fired c) \<and> nothing_pending c'"
proof -
  let ?c = "close_nodes index (close_components index c)"
  have "rc_pending_components ?c = []" "rc_fired ?c = rc_fired c" "rc_pending_nodes ?c = []"
    using close_components_fields [of index c] by (simp_all add: close_nodes_fields)
  moreover have "close_edges index (?c, reachable, newly) = Inr (c', reachable', newly')"
    using assms(1) by (simp add: closure_round_def)
  note close_edges_work [OF this]
  ultimately have "unvisited_count (rc_fired c') + length (rc_pending_nodes c') \<le> unvisited_count (rc_fired c)"
    "rc_pending_edges c' = []" "rc_pending_components c' = []" by (simp_all add: unfired_work_def)
  then show ?thesis by (cases "rc_pending_nodes c'") (auto simp: nothing_pending_def)
qed

function closure_rounds :: "reachability_index \<Rightarrow> reachability_work \<Rightarrow> retention_error + reachability_work" where
  "closure_rounds index work =
     (if nothing_pending (fst work) then Inr work
      else bind_result (closure_round index work) (\<lambda>work. closure_rounds index work))"
  by pat_completeness auto
termination
proof (relation "measures [\<lambda>(index, work). unvisited_count (rc_fired (fst work)),
    \<lambda>(index, work). if nothing_pending (fst work) then 0 else 1]", goal_cases)
  case (2 index work work')
  then show ?case using closure_round_work [of index "fst work" "fst (snd work)" "snd (snd work)" "fst work'"
        "fst (snd work')" "snd (snd work')"] by auto
qed simp

declare closure_rounds.simps [simp del]

definition reachability_close ::
  "reachability_index \<Rightarrow> reachability_work \<Rightarrow> retention_error + reachability_work" where
  "reachability_close index = (\<lambda>(c, reachable, newly).
     bind_result (update_sites index c) (\<lambda>c. closure_rounds index (c, reachable, newly)))"

end
