(* ===== verification/Reachability_Invariant.thy ===== *)
theory Reachability_Invariant
  imports Reachability_Closure
begin

text \<open>
  The invariant of the compiler reachability closure, in three parts: the counters and states of the
  source sites, the counters of the expansion components, and the work queues of nodes and edges.
\<close>

section \<open>What is to be computed\<close>

definition site_holds :: "reachability_index \<Rightarrow> source_unit_id set \<Rightarrow> nat \<Rightarrow> nat" where
  "site_holds index R s =
     site_state (card (set (is_owners (ri_sites index ! s)) \<inter> R)) (length (is_owners (ri_sites index ! s)))"

definition sites_of_edge :: "reachability_index \<Rightarrow> nat \<Rightarrow> nat set" where
  "sites_of_edge index i = {s. s < length (ri_sites index) \<and> i \<in> set (is_edges (ri_sites index ! s))}"

definition edge_opens :: "reachability_index \<Rightarrow> source_unit_id set \<Rightarrow> nat \<Rightarrow> bool" where
  "edge_opens index R i \<longleftrightarrow>
     ie_unconditional (ri_edges index ! i) \<or> (\<exists>s \<in> sites_of_edge index i. site_holds index R s = 2)"

definition edge_torn :: "reachability_index \<Rightarrow> source_unit_id set \<Rightarrow> nat \<Rightarrow> bool" where
  "edge_torn index R i \<longleftrightarrow> (\<exists>s \<in> sites_of_edge index i. site_holds index R s = 1)"

text \<open>The components all of whose written invocations, and those above, are retained.\<close>

inductive component_alive :: "reachability_index \<Rightarrow> source_unit_id set \<Rightarrow> nat \<Rightarrow> bool" for index R where
  "d < length (ri_components index) \<Longrightarrow> set (comp_sources (ri_components index ! d)) \<subseteq> R \<Longrightarrow>
     (\<And>p. p \<in> set (comp_parents (ri_components index ! d)) \<Longrightarrow> component_alive index R p) \<Longrightarrow>
     component_alive index R d"

definition target_alive :: "reachability_index \<Rightarrow> source_unit_id set \<Rightarrow> nat \<Rightarrow> bool" where
  "target_alive index R i \<longleftrightarrow> pred_option (component_alive index R) (ie_component (ri_edges index ! i))"

inductive node_reached :: "reachability_index \<Rightarrow> source_unit_id set \<Rightarrow> graph_node set \<Rightarrow> graph_node \<Rightarrow> bool"
  for index R T where
  node_seed: "n \<in> T \<Longrightarrow> node_reached index R T n"
| node_edge: "i < length (ri_edges index) \<Longrightarrow> node_reached index R T (ie_from (ri_edges index ! i)) \<Longrightarrow>
    target_alive index R i \<Longrightarrow> edge_opens index R i \<Longrightarrow> node_reached index R T (ie_to (ri_edges index ! i))"

section \<open>Growing\<close>

lemma site_state_mono: "a \<le> b \<Longrightarrow> b \<le> n \<Longrightarrow> site_state a n \<le> site_state b n"
  by (auto simp: site_state_def)

lemma site_state_le: "site_state a n \<le> 2"
  by (simp add: site_state_def)

lemma site_holds_mono:
  assumes "R \<subseteq> R'"
  shows "site_holds index R s \<le> site_holds index R' s"
  unfolding site_holds_def
proof (rule site_state_mono)
  let ?os = "is_owners (ri_sites index ! s)"
  show "card (set ?os \<inter> R) \<le> card (set ?os \<inter> R')" using assms by (intro card_mono) auto
  have "card (set ?os \<inter> R') \<le> card (set ?os)" by (intro card_mono) auto
  also have "\<dots> \<le> length ?os" by (rule card_length)
  finally show "card (set ?os \<inter> R') \<le> length ?os" .
qed

lemma edge_opens_mono: "R \<subseteq> R' \<Longrightarrow> edge_opens index R i \<Longrightarrow> edge_opens index R' i"
proof -
  assume sub: "R \<subseteq> R'" and opens: "edge_opens index R i"
  have "site_holds index R' s = 2" if "site_holds index R s = 2" for s
    using site_holds_mono [OF sub, of index s] site_state_le that
    by (metis le_antisym site_holds_def)
  with opens show ?thesis by (auto simp: edge_opens_def)
qed

lemma component_alive_mono: "component_alive index R d \<Longrightarrow> R \<subseteq> R' \<Longrightarrow> component_alive index R' d"
  by (induction rule: component_alive.induct) (rule component_alive.intros, auto)

lemma target_alive_mono: "R \<subseteq> R' \<Longrightarrow> target_alive index R i \<Longrightarrow> target_alive index R' i"
  by (auto simp: target_alive_def option.pred_set intro: component_alive_mono)

lemma node_reached_mono:
  "node_reached index R T n \<Longrightarrow> R \<subseteq> R' \<Longrightarrow> T \<subseteq> T' \<Longrightarrow> node_reached index R' T' n"
  by (induction rule: node_reached.induct)
    (auto intro: node_reached.intros edge_opens_mono target_alive_mono)

section \<open>The parts of the invariant\<close>

definition retained_set :: "reachability_closure \<Rightarrow> source_unit_id set" where
  "retained_set c = {u. u < length (rc_sources c) \<and> rc_sources c ! u}"

definition survivor_set :: "reachability_closure \<Rightarrow> nat set" where
  "survivor_set c = {d. d < length (rc_survives c) \<and> rc_survives c ! d}"

text \<open>The site counters and states; the sites of \<open>D\<close> may still have an older state.\<close>

definition sites_part :: "reachability_index \<Rightarrow> nat set \<Rightarrow> reachability_closure \<Rightarrow> bool" where
  "sites_part index D c \<longleftrightarrow>
     length (rc_sources c) = source_count index
     \<and> length (rc_site_owners c) = length (ri_sites index)
     \<and> length (rc_site_states c) = length (ri_sites index)
     \<and> length (rc_partial c) = length (ri_edges index) \<and> length (rc_open c) = length (ri_edges index)
     \<and> D \<subseteq> {..< length (ri_sites index)}
     \<and> (\<forall>s < length (ri_sites index).
          rc_site_owners c ! s = card (set (is_owners (ri_sites index ! s)) \<inter> retained_set c)
          \<and> rc_site_states c ! s \<le> site_holds index (retained_set c) s
          \<and> (s \<notin> D \<longrightarrow> rc_site_states c ! s = site_holds index (retained_set c) s))
     \<and> (\<forall>i < length (ri_edges index).
          rc_partial c ! i = card {s \<in> sites_of_edge index i. rc_site_states c ! s = 1}
          \<and> (rc_open c ! i \<longleftrightarrow>
               ie_unconditional (ri_edges index ! i) \<or> (\<exists>s \<in> sites_of_edge index i. rc_site_states c ! s = 2)))"

text \<open>The component counters; the components of \<open>A\<close> may be ready without being queued.\<close>

definition components_part :: "reachability_index \<Rightarrow> nat set \<Rightarrow> reachability_closure \<Rightarrow> bool" where
  "components_part index A c \<longleftrightarrow>
     length (rc_survives c) = length (ri_components index)
     \<and> length (rc_missing_sources c) = length (ri_components index)
     \<and> length (rc_missing_parents c) = length (ri_components index)
     \<and> set (rc_pending_components c) \<subseteq> {..< length (ri_components index)}
     \<and> A \<subseteq> {..< length (ri_components index)}
     \<and> (\<forall>d < length (ri_components index).
          rc_missing_sources c ! d = card (set (comp_sources (ri_components index ! d)) - retained_set c)
          \<and> rc_missing_parents c ! d = card (set (comp_parents (ri_components index ! d)) - survivor_set c)
          \<and> (rc_survives c ! d \<longrightarrow> component_alive index (retained_set c) d)
          \<and> (rc_missing_sources c ! d = 0 \<and> rc_missing_parents c ! d = 0 \<longrightarrow>
               rc_survives c ! d \<or> d \<in> set (rc_pending_components c) \<union> A))"

definition queue_ok :: "reachability_closure \<Rightarrow> bool" where
  "queue_ok c \<longleftrightarrow>
     length (rc_queued c) = length (rc_fired c) \<and> set (rc_pending_edges c) \<subseteq> {..< length (rc_fired c)}
     \<and> (\<forall>i < length (rc_fired c). rc_queued c ! i \<longrightarrow> i \<in> set (rc_pending_edges c))"

text \<open>An edge from a visited node has fired, waits in the queue, or one of its gates is closed.\<close>

definition edge_settled :: "reachability_index \<Rightarrow> reachability_closure \<Rightarrow> nat \<Rightarrow> bool" where
  "edge_settled index c i \<longleftrightarrow>
     rc_fired c ! i \<or> rc_queued c ! i
     \<or> ie_from (ri_edges index ! i) \<notin> rc_nodes c - set (rc_pending_nodes c)
     \<or> (\<exists>d. ie_component (ri_edges index ! i) = Some d \<and> \<not> rc_survives c ! d)
     \<or> \<not> rc_open c ! i \<and> rc_partial c ! i = 0"

definition nodes_part :: "reachability_index \<Rightarrow> graph_node set \<Rightarrow> reachability_closure \<Rightarrow> bool" where
  "nodes_part index T c \<longleftrightarrow>
     length (rc_fired c) = length (ri_edges index) \<and> queue_ok c
     \<and> set (rc_pending_nodes c) \<subseteq> rc_nodes c
     \<and> T \<subseteq> rc_nodes c \<and> (\<forall>n \<in> rc_nodes c. node_reached index (retained_set c) T n)
     \<and> (\<forall>i < length (ri_edges index). rc_fired c ! i \<longrightarrow>
          ie_to (ri_edges index ! i) \<in> rc_nodes c \<and> edge_opens index (retained_set c) i)
     \<and> (\<forall>i < length (ri_edges index). edge_settled index c i)"

section \<open>Queueing edges\<close>

definition without_queue :: "reachability_closure \<Rightarrow> reachability_closure" where
  "without_queue c = c\<lparr>rc_queued := [], rc_pending_edges := []\<rparr>"

lemma without_queue_fields:
  assumes "without_queue c' = without_queue c"
  shows "rc_survives c' = rc_survives c" "rc_fired c' = rc_fired c" "rc_nodes c' = rc_nodes c"
    "rc_pending_nodes c' = rc_pending_nodes c" "rc_pending_components c' = rc_pending_components c"
    "rc_open c' = rc_open c" "rc_partial c' = rc_partial c" "rc_sources c' = rc_sources c"
    "rc_site_states c' = rc_site_states c" "rc_site_owners c' = rc_site_owners c"
    "rc_missing_sources c' = rc_missing_sources c" "rc_missing_parents c' = rc_missing_parents c"
    "rc_dirty c' = rc_dirty c"
  using arg_cong [OF assms, of rc_survives] arg_cong [OF assms, of rc_fired] arg_cong [OF assms, of rc_nodes]
    arg_cong [OF assms, of rc_pending_nodes] arg_cong [OF assms, of rc_pending_components]
    arg_cong [OF assms, of rc_open] arg_cong [OF assms, of rc_partial] arg_cong [OF assms, of rc_sources]
    arg_cong [OF assms, of rc_site_states] arg_cong [OF assms, of rc_site_owners]
    arg_cong [OF assms, of rc_missing_sources] arg_cong [OF assms, of rc_missing_parents]
    arg_cong [OF assms, of rc_dirty]
  by (simp_all add: without_queue_def)

text \<open>What a series of requests does to the queue.\<close>

definition queues :: "nat set \<Rightarrow> reachability_closure \<Rightarrow> reachability_closure \<Rightarrow> bool" where
  "queues es c c' \<longleftrightarrow>
     queue_ok c' \<and> (\<forall>i < length (rc_fired c). rc_queued c ! i \<or> i \<in> es \<and> \<not> rc_fired c ! i \<longrightarrow> rc_queued c' ! i)"

lemma queue_edge_queues:
  assumes "queue_ok c" and "e < length (rc_fired c)"
  shows "queues {e} c (queue_edge e c)"
  using assms by (auto simp: queues_def queue_ok_def queue_edge_def nth_list_update)

lemma queues_trans:
  "queues es c c' \<Longrightarrow> queues es' c' c'' \<Longrightarrow> rc_fired c' = rc_fired c \<Longrightarrow> queues (es \<union> es') c c''"
  unfolding queues_def by (metis UnE)

lemma queues_refl: "queue_ok c \<Longrightarrow> queues {} c c"
  by (simp add: queues_def)

lemma fold_queue_edge:
  "queue_ok c \<Longrightarrow> set es \<subseteq> {..< length (rc_fired c)} \<Longrightarrow>
     queues (set es) c (fold queue_edge es c) \<and> without_queue (fold queue_edge es c) = without_queue c"
proof (induction es arbitrary: c)
  case Nil
  then show ?case by (simp add: queues_refl)
next
  case (Cons e es)
  have first: "queues {e} c (queue_edge e c)" using Cons.prems by (intro queue_edge_queues) simp_all
  have "queues (set es) (queue_edge e c) (fold queue_edge es (queue_edge e c))
      \<and> without_queue (fold queue_edge es (queue_edge e c)) = without_queue (queue_edge e c)"
    using first Cons.prems by (intro Cons.IH) (simp_all add: queues_def)
  moreover have "without_queue (queue_edge e c) = without_queue c" by (simp add: without_queue_def queue_edge_def)
  ultimately show ?case using queues_trans [OF first] by simp
qed

section \<open>Adding a source\<close>

lemma fold_count_owner:
  "distinct ss \<Longrightarrow> list_all (\<lambda>s. s < length (rc_site_owners c)) ss \<Longrightarrow>
     \<exists>owners. fold count_owner ss c = c\<lparr>rc_site_owners := owners, rc_dirty := rc_dirty c \<union> set ss\<rparr>
       \<and> length owners = length (rc_site_owners c)
       \<and> (\<forall>s < length owners. owners ! s = rc_site_owners c ! s + (if s \<in> set ss then 1 else 0))"
proof (induction ss arbitrary: c)
  case Nil
  show ?case by (rule exI [of _ "rc_site_owners c"]) simp
next
  case (Cons s ss)
  let ?c = "count_owner s c"
  have "distinct ss" "list_all (\<lambda>s. s < length (rc_site_owners ?c)) ss" using Cons.prems by (simp_all add: count_owner_def)
  from Cons.IH [OF this] obtain owners where
    o: "fold count_owner ss ?c = ?c\<lparr>rc_site_owners := owners, rc_dirty := rc_dirty ?c \<union> set ss\<rparr>"
      "length owners = length (rc_site_owners ?c)"
      "\<And>t. t < length owners \<Longrightarrow> owners ! t = rc_site_owners ?c ! t + (if t \<in> set ss then 1 else 0)"
    by blast
  have "rc_site_owners ?c ! t = rc_site_owners c ! t + (if t = s then 1 else 0)" if "t < length (rc_site_owners c)" for t
    using that Cons.prems(2) by (simp add: count_owner_def)
  moreover have "length (rc_site_owners ?c) = length (rc_site_owners c)" by (simp add: count_owner_def)
  moreover have "fold count_owner (s # ss) c = c\<lparr>rc_site_owners := owners, rc_dirty := rc_dirty c \<union> set (s # ss)\<rparr>"
    using o(1) by (simp add: count_owner_def)
  ultimately show ?case using o(2,3) Cons.prems(1) by (intro exI [of _ owners]) auto
qed

lemma fold_count_source:
  "distinct ds \<Longrightarrow> list_all (\<lambda>d. d < length (rc_missing_sources c) \<and> rc_missing_sources c ! d \<noteq> 0) ds \<Longrightarrow>
     \<exists>missing. fold_result count_source ds (c, affected)
         = Inr (c\<lparr>rc_missing_sources := missing\<rparr>, affected \<union> set ds)
       \<and> length missing = length (rc_missing_sources c)
       \<and> (\<forall>d < length missing. missing ! d = rc_missing_sources c ! d - (if d \<in> set ds then 1 else 0))"
proof (induction ds arbitrary: c affected)
  case Nil
  show ?case by (rule exI [of _ "rc_missing_sources c"]) simp
next
  case (Cons d ds)
  let ?c = "c\<lparr>rc_missing_sources := (rc_missing_sources c)[d := rc_missing_sources c ! d - 1]\<rparr>"
  have "distinct ds" "list_all (\<lambda>d. d < length (rc_missing_sources ?c) \<and> rc_missing_sources ?c ! d \<noteq> 0) ds"
    using Cons.prems by (auto simp: list_all_iff nth_list_update)
  from Cons.IH [OF this, of "insert d affected"] obtain missing where
    m: "fold_result count_source ds (?c, insert d affected)
         = Inr (?c\<lparr>rc_missing_sources := missing\<rparr>, insert d affected \<union> set ds)"
      "length missing = length (rc_missing_sources ?c)"
      "\<And>e. e < length missing \<Longrightarrow> missing ! e = rc_missing_sources ?c ! e - (if e \<in> set ds then 1 else 0)"
    by blast
  have "count_source d (c, affected) = Inr (?c, insert d affected)" using Cons.prems(2) by (simp add: count_source_def)
  with m(1) have "fold_result count_source (d # ds) (c, affected)
      = Inr (c\<lparr>rc_missing_sources := missing\<rparr>, affected \<union> set (d # ds))" by simp
  moreover have "missing ! e = rc_missing_sources c ! e - (if e \<in> set (d # ds) then 1 else 0)"
    if "e < length missing" for e
    using m(3) [OF that] that m(2) Cons.prems(1) by (cases "e = d") auto
  moreover have "length missing = length (rc_missing_sources c)" using m(2) by simp
  ultimately show ?case by blast
qed

lemma card_insert_owner:
  "u \<notin> R \<Longrightarrow> card (set owners \<inter> insert u R) = card (set owners \<inter> R) + (if u \<in> set owners then 1 else 0)"
  by (simp add: Int_insert_right)

lemma card_remove_source:
  "u \<notin> R \<Longrightarrow> card (set sources - insert u R) = card (set sources - R) - (if u \<in> set sources then 1 else 0)"
proof -
  assume "u \<notin> R"
  have "set sources - insert u R = (set sources - R) - {u}" by blast
  then have "card (set sources - insert u R) = card ((set sources - R) - {u})" by (rule arg_cong)
  also have "\<dots> = card (set sources - R) - (if u \<in> set sources - R then 1 else 0)"
    by (subst card_Diff_singleton_if) auto
  finally show ?thesis using \<open>u \<notin> R\<close> by simp
qed

lemma retained_set_insert:
  "u < length (rc_sources c) \<Longrightarrow> retained_set (c\<lparr>rc_sources := (rc_sources c)[u := True]\<rparr>) = insert u (retained_set c)"
  by (auto simp: retained_set_def nth_list_update)

lemma site_holds_insert:
  assumes "u \<notin> R" and "u \<notin> set (is_owners (ri_sites index ! s))"
  shows "site_holds index (insert u R) s = site_holds index R s"
  using card_insert_owner [OF assms(1)] assms(2) by (simp add: site_holds_def)

text \<open>What adding a source leaves of the rest of the state.\<close>

definition adds_source :: "source_unit_id set \<Rightarrow> reachability_closure \<Rightarrow> reachability_closure \<Rightarrow> bool" where
  "adds_source U c c' \<longleftrightarrow>
     (\<exists>sources owners dirty missing queue. c' = c\<lparr>rc_sources := sources, rc_site_owners := owners, rc_dirty := dirty,
        rc_missing_sources := missing, rc_pending_components := queue\<rparr>)
     \<and> retained_set c' = retained_set c \<union> U"

lemma adds_source_trans:
  assumes "adds_source U c c'" and "adds_source V c' c''"
  shows "adds_source (U \<union> V) c c''"
proof -
  from assms(1) obtain a b d m q where c': "c' = c\<lparr>rc_sources := a, rc_site_owners := b, rc_dirty := d,
        rc_missing_sources := m, rc_pending_components := q\<rparr>" unfolding adds_source_def by blast
  from assms(2) obtain a' b' d' m' q' where "c'' = c'\<lparr>rc_sources := a', rc_site_owners := b', rc_dirty := d',
        rc_missing_sources := m', rc_pending_components := q'\<rparr>" unfolding adds_source_def by blast
  with c' have "c'' = c\<lparr>rc_sources := a', rc_site_owners := b', rc_dirty := d',
        rc_missing_sources := m', rc_pending_components := q'\<rparr>" by simp
  moreover have "retained_set c'' = retained_set c \<union> (U \<union> V)" using assms by (auto simp: adds_source_def)
  ultimately show ?thesis unfolding adds_source_def by blast
qed

lemma adds_source_refl: "adds_source {} c c"
proof -
  have "c = c\<lparr>rc_sources := rc_sources c, rc_site_owners := rc_site_owners c, rc_dirty := rc_dirty c,
      rc_missing_sources := rc_missing_sources c, rc_pending_components := rc_pending_components c\<rparr>" by simp
  then show ?thesis unfolding adds_source_def by blast
qed

lemma adds_source_fields:
  assumes "adds_source U c c'"
  shows "rc_survives c' = rc_survives c" "rc_fired c' = rc_fired c" "rc_nodes c' = rc_nodes c"
    "rc_pending_nodes c' = rc_pending_nodes c" "rc_open c' = rc_open c" "rc_partial c' = rc_partial c"
    "rc_queued c' = rc_queued c" "rc_pending_edges c' = rc_pending_edges c"
    "rc_site_states c' = rc_site_states c" "rc_missing_parents c' = rc_missing_parents c"
    "rc_initialized c' = rc_initialized c"
  using assms by (auto simp: adds_source_def)

lemma closure_add_source_step:
  assumes wf: "index_wf index" and u: "u < source_count index"
    and sites: "sites_part index (rc_dirty c) c" and comps: "components_part index A c"
  obtains c' A' where "closure_add_source index u (c, A) = Inr (c', A')"
    and "adds_source {u} c c'" and "sites_part index (rc_dirty c') c'" and "components_part index A' c'"
proof -
  let ?R = "retained_set c"
  have len: "length (rc_sources c) = source_count index" using sites by (simp add: sites_part_def)
  show thesis
  proof (cases "rc_sources c ! u")
    case True
    then have "adds_source {u} c c" using adds_source_refl [of c] u len by (auto simp: adds_source_def retained_set_def)
    moreover have "closure_add_source index u (c, A) = Inr (c, A)" using True u len by (simp add: closure_add_source_def get_at_def)
    ultimately show thesis using sites comps by (rule_tac that)
  next
    case False
    let ?ss = "ri_sites_by_source index ! u" and ?ds = "ri_components_by_source index ! u"
    let ?c1 = "c\<lparr>rc_sources := (rc_sources c)[u := True]\<rparr>"
    have ss: "distinct ?ss" "set ?ss = {s. s < length (ri_sites index) \<and> u \<in> set (is_owners (ri_sites index ! s))}"
      and ds: "distinct ?ds" "set ?ds = {d. d < length (ri_components index) \<and> u \<in> set (comp_sources (ri_components index ! d))}"
      using wf u by (simp_all add: index_wf_def)
    have new: "u \<notin> ?R" using False by (simp add: retained_set_def)
    have lens: "length (rc_site_owners c) = length (ri_sites index)"
      "length (rc_missing_sources c) = length (ri_components index)"
      using sites comps by (simp_all add: sites_part_def components_part_def)
    have "list_all (\<lambda>s. s < length (rc_site_owners ?c1)) ?ss" using ss lens by (simp add: list_all_iff)
    from fold_count_owner [OF ss(1) this] obtain owners where
      owners: "fold count_owner ?ss ?c1 = ?c1\<lparr>rc_site_owners := owners, rc_dirty := rc_dirty c \<union> set ?ss\<rparr>"
        "length owners = length (ri_sites index)"
        "\<And>s. s < length owners \<Longrightarrow> owners ! s = rc_site_owners c ! s + (if s \<in> set ?ss then 1 else 0)"
      using lens by auto
    let ?c2 = "?c1\<lparr>rc_site_owners := owners, rc_dirty := rc_dirty c \<union> set ?ss\<rparr>"
    have missing_old: "rc_missing_sources c ! d = card (set (comp_sources (ri_components index ! d)) - ?R)"
      if "d < length (ri_components index)" for d
      using comps that by (simp add: components_part_def)
    have "rc_missing_sources c ! d \<noteq> 0" if "d \<in> set ?ds" for d
    proof -
      have "u \<in> set (comp_sources (ri_components index ! d)) - ?R" "d < length (ri_components index)"
        using that ds(2) new by auto
      then show ?thesis using missing_old by (metis card_0_eq empty_iff finite_Diff finite_set)
    qed
    then have "list_all (\<lambda>d. d < length (rc_missing_sources ?c2) \<and> rc_missing_sources ?c2 ! d \<noteq> 0) ?ds"
      using ds(2) lens by (simp add: list_all_iff)
    from fold_count_source [OF ds(1) this, of A] obtain missing where
      missing: "fold_result count_source ?ds (?c2, A) = Inr (?c2\<lparr>rc_missing_sources := missing\<rparr>, A \<union> set ?ds)"
        "length missing = length (ri_components index)"
        "\<And>d. d < length missing \<Longrightarrow> missing ! d = rc_missing_sources c ! d - (if d \<in> set ?ds then 1 else 0)"
      using lens by auto
    let ?c3 = "?c2\<lparr>rc_missing_sources := missing\<rparr>"
    have R': "retained_set ?c3 = insert u ?R"
      using retained_set_insert [of u c] u len by (simp add: retained_set_def)
    have S': "survivor_set ?c3 = survivor_set c" by (simp add: survivor_set_def)
    have "closure_add_source index u (c, A) = Inr (?c3, A \<union> set ?ds)"
      using False u len owners(1) missing(1) by (simp add: closure_add_source_def get_at_def)
    moreover have "adds_source {u} c ?c3"
    proof -
      have "?c3 = c\<lparr>rc_sources := (rc_sources c)[u := True], rc_site_owners := owners, rc_dirty := rc_dirty c \<union> set ?ss,
        rc_missing_sources := missing, rc_pending_components := rc_pending_components c\<rparr>" by simp
      with R' show ?thesis unfolding adds_source_def by blast
    qed
    moreover have "sites_part index (rc_dirty ?c3) ?c3"
    proof -
      have "owners ! s = card (set (is_owners (ri_sites index ! s)) \<inter> insert u ?R)
          \<and> rc_site_states c ! s \<le> site_holds index (insert u ?R) s
          \<and> (s \<notin> rc_dirty c \<union> set ?ss \<longrightarrow> rc_site_states c ! s = site_holds index (insert u ?R) s)"
        if s: "s < length (ri_sites index)" for s
      proof (intro conjI impI)
        have old: "rc_site_owners c ! s = card (set (is_owners (ri_sites index ! s)) \<inter> ?R)"
          "rc_site_states c ! s \<le> site_holds index ?R s"
          "s \<notin> rc_dirty c \<Longrightarrow> rc_site_states c ! s = site_holds index ?R s"
          using sites s by (simp_all add: sites_part_def)
        show "owners ! s = card (set (is_owners (ri_sites index ! s)) \<inter> insert u ?R)"
          using owners(2,3) s ss(2) old(1) card_insert_owner [OF new] by simp
        show "rc_site_states c ! s \<le> site_holds index (insert u ?R) s"
          by (rule le_trans [OF old(2) site_holds_mono]) blast
        assume "s \<notin> rc_dirty c \<union> set ?ss"
        then show "rc_site_states c ! s = site_holds index (insert u ?R) s"
          using old(3) site_holds_insert [OF new] ss(2) s by simp
      qed
      then show ?thesis using sites owners(2) ss(2) unfolding sites_part_def R' by auto
    qed
    moreover have "components_part index (A \<union> set ?ds) ?c3"
    proof -
      have "missing ! d = card (set (comp_sources (ri_components index ! d)) - insert u ?R)
          \<and> (rc_survives c ! d \<longrightarrow> component_alive index (insert u ?R) d)
          \<and> (missing ! d = 0 \<and> rc_missing_parents c ! d = 0 \<longrightarrow>
               rc_survives c ! d \<or> d \<in> set (rc_pending_components c) \<union> (A \<union> set ?ds))"
        if d: "d < length (ri_components index)" for d
      proof (intro conjI impI)
        show "missing ! d = card (set (comp_sources (ri_components index ! d)) - insert u ?R)"
          using missing(2,3) d ds(2) missing_old [OF d] card_remove_source [OF new] by simp
        show "component_alive index (insert u ?R) d" if "rc_survives c ! d"
          using comps d that component_alive_mono [of index ?R d "insert u ?R"] by (auto simp: components_part_def)
        assume ready: "missing ! d = 0 \<and> rc_missing_parents c ! d = 0"
        show "rc_survives c ! d \<or> d \<in> set (rc_pending_components c) \<union> (A \<union> set ?ds)"
        proof (cases "d \<in> set ?ds")
          case False
          with ready missing(2,3) d have "rc_missing_sources c ! d = 0" by simp
          with ready comps d show ?thesis by (auto simp: components_part_def)
        qed simp
      qed
      then show ?thesis using comps missing(2) ds(2) unfolding components_part_def R' S' by auto
    qed
    ultimately show thesis by (rule_tac that)
  qed
qed

lemma closure_add_sources_fold:
  assumes "index_wf index" and "list_all (\<lambda>u. u < source_count index) us"
    and "sites_part index (rc_dirty c) c" and "components_part index A c"
  shows "\<exists>c' A'. fold_result (closure_add_source index) us (c, A) = Inr (c', A')
    \<and> adds_source (set us) c c' \<and> sites_part index (rc_dirty c') c' \<and> components_part index A' c'"
  using assms(2-)
proof (induction us arbitrary: c A)
  case Nil
  then show ?case by (auto simp: adds_source_refl)
next
  case (Cons u us)
  have u: "u < source_count index" and us: "list_all (\<lambda>u. u < source_count index) us" using Cons.prems(1) by simp_all
  from closure_add_source_step [OF assms(1) u Cons.prems(2,3)] obtain c1 A1 where
    step: "closure_add_source index u (c, A) = Inr (c1, A1)" "adds_source {u} c c1"
      "sites_part index (rc_dirty c1) c1" "components_part index A1 c1" .
  from Cons.IH [OF us step(3,4)] obtain c' A' where
    rest: "fold_result (closure_add_source index) us (c1, A1) = Inr (c', A')" "adds_source (set us) c1 c'"
      "sites_part index (rc_dirty c') c'" "components_part index A' c'" by blast
  have "adds_source (set (u # us)) c c'" using adds_source_trans [OF step(2) rest(2)] by simp
  with step(1) rest show ?case by simp
qed

text \<open>Queueing the affected components.\<close>

lemma queue_component_part:
  assumes "components_part index (insert d A) c"
  shows "components_part index A (queue_component_if_ready d c)"
proof -
  let ?c = "queue_component_if_ready d c"
  have d: "d < length (ri_components index)" using assms by (simp add: components_part_def)
  have same: "retained_set ?c = retained_set c" "survivor_set ?c = survivor_set c" "rc_survives ?c = rc_survives c"
    "rc_missing_sources ?c = rc_missing_sources c" "rc_missing_parents ?c = rc_missing_parents c"
    by (simp_all add: queue_component_if_ready_def retained_set_def survivor_set_def)
  have pend: "set (rc_pending_components ?c)
      = set (rc_pending_components c)
        \<union> (if \<not> rc_survives c ! d \<and> rc_missing_sources c ! d = 0 \<and> rc_missing_parents c ! d = 0 then {d} else {})"
    by (simp add: queue_component_if_ready_def)
  show ?thesis
    using assms d unfolding components_part_def same pend by auto
qed

lemma queue_components_part:
  "components_part index (set ds \<union> A) c \<Longrightarrow> components_part index A (fold queue_component_if_ready ds c)"
proof (induction ds arbitrary: c)
  case (Cons d ds)
  then have "components_part index (set ds \<union> A) (queue_component_if_ready d c)"
    by (intro queue_component_part) simp
  from Cons.IH [OF this] show ?case by simp
qed simp

lemma queue_component_adds: "adds_source {} c (queue_component_if_ready d c)"
proof -
  have "queue_component_if_ready d c = c\<lparr>rc_sources := rc_sources c, rc_site_owners := rc_site_owners c, rc_dirty := rc_dirty c,
      rc_missing_sources := rc_missing_sources c,
      rc_pending_components := rc_pending_components (queue_component_if_ready d c)\<rparr>"
    "retained_set (queue_component_if_ready d c) = retained_set c \<union> {}"
    by (simp_all add: queue_component_if_ready_def retained_set_def)
  then show ?thesis unfolding adds_source_def by blast
qed

lemma queue_components_adds: "adds_source {} c (fold queue_component_if_ready ds c)"
proof (induction ds arbitrary: c)
  case (Cons d ds)
  from adds_source_trans [OF queue_component_adds Cons.IH] show ?case by simp
qed (simp add: adds_source_refl)

lemma queue_component_sites: "sites_part index D (queue_component_if_ready d c) = sites_part index D c"
proof -
  have "retained_set (queue_component_if_ready d c) = retained_set c"
    by (simp add: queue_component_if_ready_def retained_set_def)
  moreover have "rc_sources (queue_component_if_ready d c) = rc_sources c"
    "rc_site_owners (queue_component_if_ready d c) = rc_site_owners c"
    "rc_site_states (queue_component_if_ready d c) = rc_site_states c"
    "rc_partial (queue_component_if_ready d c) = rc_partial c" "rc_open (queue_component_if_ready d c) = rc_open c"
    by (simp_all add: queue_component_if_ready_def)
  ultimately show ?thesis by (simp add: sites_part_def)
qed

lemma queue_components_sites:
  "sites_part index D (fold queue_component_if_ready ds c) = sites_part index D c"
  "rc_dirty (fold queue_component_if_ready ds c) = rc_dirty c"
proof -
  have dirty: "rc_dirty (queue_component_if_ready d c) = rc_dirty c" for d c
    by (simp add: queue_component_if_ready_def)
  show "sites_part index D (fold queue_component_if_ready ds c) = sites_part index D c"
    by (induction ds arbitrary: c) (simp_all add: queue_component_sites)
  show "rc_dirty (fold queue_component_if_ready ds c) = rc_dirty c"
    by (induction ds arbitrary: c) (simp_all add: dirty)
qed

lemma adds_source_nodes:
  assumes "adds_source U c c'" and "nodes_part index T c"
  shows "nodes_part index T c'"
proof -
  note fields = adds_source_fields [OF assms(1)]
  have "edge_settled index c' i = edge_settled index c i" for i by (simp add: edge_settled_def fields)
  moreover have "queue_ok c' = queue_ok c" by (simp add: queue_ok_def fields)
  moreover have "node_reached index (retained_set c') T n" if "node_reached index (retained_set c) T n" for n
    using that by (rule node_reached_mono) (use assms(1) in \<open>auto simp: adds_source_def\<close>)
  moreover have "edge_opens index (retained_set c') i" if "edge_opens index (retained_set c) i" for i
    by (rule edge_opens_mono [OF _ that]) (use assms(1) in \<open>auto simp: adds_source_def\<close>)
  ultimately show ?thesis using assms(2) unfolding nodes_part_def fields by blast
qed

definition closure_ok :: "reachability_index \<Rightarrow> graph_node set \<Rightarrow> reachability_closure \<Rightarrow> bool" where
  "closure_ok index T c \<longleftrightarrow>
     sites_part index (rc_dirty c) c \<and> components_part index {} c \<and> nodes_part index T c"

lemma closure_add_sources_ok:
  assumes "index_wf index" and "closure_ok index T c" and "list_all (\<lambda>u. u < source_count index) us"
  obtains c' where "closure_add_sources index us c = Inr c'" and "closure_ok index T c'"
    and "retained_set c' = retained_set c \<union> set us" and "rc_nodes c' = rc_nodes c"
    and "rc_initialized c' = rc_initialized c"
proof -
  have parts: "sites_part index (rc_dirty c) c" "components_part index {} c" "nodes_part index T c"
    using assms(2) by (simp_all add: closure_ok_def)
  from closure_add_sources_fold [OF assms(1,3) parts(1,2)] obtain c1 A where
    run: "fold_result (closure_add_source index) us (c, {}) = Inr (c1, A)" "adds_source (set us) c c1"
      "sites_part index (rc_dirty c1) c1" "components_part index A c1" by blast
  let ?c = "fold queue_component_if_ready (sorted_list_of_set A) c1"
  have "finite A" using run(4) by (auto simp: components_part_def intro: finite_subset)
  then have "components_part index (set (sorted_list_of_set A) \<union> {}) c1" using run(4) by simp
  then have comps: "components_part index {} ?c" by (rule queue_components_part)
  have adds: "adds_source (set us) c ?c" using adds_source_trans [OF run(2) queue_components_adds] by simp
  have "sites_part index (rc_dirty ?c) ?c" using run(3) by (simp add: queue_components_sites)
  with comps adds_source_nodes [OF adds parts(3)] have "closure_ok index T ?c" by (simp add: closure_ok_def)
  moreover have "closure_add_sources index us c = Inr ?c" using run(1) by (simp add: closure_add_sources_def)
  moreover have "retained_set ?c = retained_set c \<union> set us" using adds by (simp add: adds_source_def)
  ultimately show thesis using adds_source_fields(3,11) [OF adds] by (rule_tac that)
qed

lemma closure_add_sources_refuses:
  assumes "closure_add_sources index us c = Inl e" and "index_wf index" and "closure_ok index T c"
  shows "e = InvalidGraph \<and> \<not> list_all (\<lambda>u. u < source_count index) us"
proof -
  have "e = InvalidGraph"
  proof -
    have source: "fold_result count_source ds (c, A) = Inl e \<Longrightarrow> e = InvalidGraph" for ds c A e
      by (induction ds arbitrary: c A) (auto simp: bind_result_eq_Inl count_source_def split: if_splits)
    have "fold_result (closure_add_source index) us (c, A) = Inl e \<Longrightarrow> e = InvalidGraph" for c A e
      by (induction us arbitrary: c A)
        (auto simp: bind_result_eq_Inl closure_add_source_def split: option.splits if_splits dest: source)
    moreover have "fold_result (closure_add_source index) us (c, {}) = Inl e"
      using assms(1) by (auto simp: closure_add_sources_def bind_result_eq_Inl)
    ultimately show ?thesis .
  qed
  moreover have "\<not> list_all (\<lambda>u. u < source_count index) us"
  proof
    assume "list_all (\<lambda>u. u < source_count index) us"
    from closure_add_sources_ok [OF assms(2,3) this] assms(1) show False by (metis Inl_Inr_False)
  qed
  ultimately show ?thesis ..
qed

lemma add_node_ok:
  assumes "nodes_part index T c"
  shows "nodes_part index (insert n T) (add_node n c)"
proof -
  let ?c = "add_node n c"
  have "retained_set ?c = retained_set c" by (simp add: retained_set_def)
  moreover have "node_reached index (retained_set c) (insert n T) m" if "m \<in> rc_nodes ?c" for m
  proof (cases "m = n")
    case False
    with that assms have "node_reached index (retained_set c) T m" by (simp add: nodes_part_def)
    then show ?thesis by (rule node_reached_mono) auto
  qed (simp add: node_seed)
  moreover have "set (rc_pending_nodes ?c) \<subseteq> rc_nodes ?c" using assms by (auto simp: nodes_part_def add_node_def)
  moreover have "edge_settled index ?c i" if "i < length (ri_edges index)" for i
  proof -
    have "rc_nodes ?c - set (rc_pending_nodes ?c) \<subseteq> rc_nodes c - set (rc_pending_nodes c)"
      by (auto simp: add_node_def)
    moreover have "edge_settled index c i" using assms that by (simp add: nodes_part_def)
    ultimately show ?thesis by (auto simp: edge_settled_def)
  qed
  moreover have "queue_ok ?c = queue_ok c" by (simp add: queue_ok_def)
  ultimately show ?thesis using assms by (auto simp: nodes_part_def)
qed

lemma closure_add_reachable_ok:
  "closure_ok index T c \<Longrightarrow> closure_ok index (set ns \<union> T) (closure_add_reachable ns c)
     \<and> retained_set (closure_add_reachable ns c) = retained_set c
     \<and> rc_nodes (closure_add_reachable ns c) = rc_nodes c \<union> set ns
     \<and> rc_initialized (closure_add_reachable ns c) = rc_initialized c"
proof (induction ns arbitrary: c T)
  case Nil
  then show ?case by (simp add: closure_add_reachable_def)
next
  case (Cons n ns)
  let ?c = "add_node n c"
  have R: "retained_set ?c = retained_set c" "survivor_set ?c = survivor_set c" by (simp_all add: retained_set_def survivor_set_def)
  have "closure_ok index (insert n T) ?c"
    using Cons.prems add_node_ok [of index T c n]
    by (simp add: closure_ok_def sites_part_def components_part_def R)
  from Cons.IH [OF this] R show ?case by (simp add: closure_add_reachable_def)
qed

section \<open>The new closure\<close>

lemma closure_new_ok:
  assumes wf: "index_wf index"
  shows "closure_ok index {} (reachability_closure_new index)"
    and "retained_set (reachability_closure_new index) = {}"
    and "rc_nodes (reachability_closure_new index) = {}"
    and "rc_initialized (reachability_closure_new index) = False"
proof -
  let ?n = "length (ri_components index)" and ?e = "length (ri_edges index)"
  define c where "c = \<lparr>rc_initialized = False,
        rc_sources = replicate (length (ri_sites_by_source index)) False, rc_nodes = {},
        rc_site_owners = replicate (length (ri_sites index)) 0,
        rc_site_states = replicate (length (ri_sites index)) 0, rc_dirty = {},
        rc_missing_sources = map (\<lambda>facts. length (comp_sources facts)) (ri_components index),
        rc_missing_parents = map (\<lambda>facts. length (comp_parents facts)) (ri_components index),
        rc_survives = replicate ?n False, rc_open = map ie_unconditional (ri_edges index),
        rc_partial = replicate ?e 0, rc_fired = replicate ?e False, rc_queued = replicate ?e False,
        rc_pending_nodes = [], rc_pending_components = [], rc_pending_edges = []\<rparr>"
  have new: "reachability_closure_new index = fold queue_component_if_ready [0 ..< ?n] c"
    by (simp add: reachability_closure_new_def c_def)
  have R: "retained_set c = {}" and S: "survivor_set c = {}" by (auto simp: retained_set_def survivor_set_def c_def)
  have holds: "site_holds index {} s = 0" for s by (simp add: site_holds_def site_state_def)
  have sites: "sites_part index {} c"
    unfolding sites_part_def R by (auto simp: c_def holds source_count_def sites_of_edge_def)
  have "distinct (comp_sources (ri_components index ! d))" "distinct (comp_parents (ri_components index ! d))"
    if "d < ?n" for d
    using wf that by (simp_all add: index_wf_def component_wf_def Let_def)
  then have "components_part index (set [0 ..< ?n] \<union> {}) c"
    unfolding components_part_def R S by (auto simp: c_def distinct_card)
  then have comps: "components_part index {} (fold queue_component_if_ready [0 ..< ?n] c)"
    by (rule queue_components_part)
  have nodes: "nodes_part index {} c"
    by (simp add: nodes_part_def queue_ok_def edge_settled_def c_def)
  note adds = queue_components_adds [of c "[0 ..< ?n]"]
  have dirty: "rc_dirty c = {}" "rc_initialized c = False" "rc_nodes c = {}" by (simp_all add: c_def)
  show "closure_ok index {} (reachability_closure_new index)"
    using sites comps adds_source_nodes [OF adds nodes] by (simp add: closure_ok_def new queue_components_sites dirty)
  show "retained_set (reachability_closure_new index) = {}" using adds R by (simp add: adds_source_def new)
  show "rc_nodes (reachability_closure_new index) = {}" "rc_initialized (reachability_closure_new index) = False"
    using adds_source_fields(3,11) [OF adds] by (simp_all add: new dirty)
qed

section \<open>Dirty sites\<close>

definition without_gates :: "reachability_closure \<Rightarrow> reachability_closure" where
  "without_gates c = c\<lparr>rc_partial := [], rc_open := [], rc_queued := [], rc_pending_edges := []\<rparr>"

lemma without_gates_fields:
  assumes "without_gates c' = without_gates c"
  shows "rc_survives c' = rc_survives c" "rc_fired c' = rc_fired c" "rc_nodes c' = rc_nodes c"
    "rc_pending_nodes c' = rc_pending_nodes c" "rc_pending_components c' = rc_pending_components c"
    "rc_sources c' = rc_sources c" "rc_site_states c' = rc_site_states c" "rc_site_owners c' = rc_site_owners c"
    "rc_missing_sources c' = rc_missing_sources c" "rc_missing_parents c' = rc_missing_parents c"
    "rc_dirty c' = rc_dirty c" "rc_initialized c' = rc_initialized c"
  using arg_cong [OF assms, of rc_survives] arg_cong [OF assms, of rc_fired] arg_cong [OF assms, of rc_nodes]
    arg_cong [OF assms, of rc_pending_nodes] arg_cong [OF assms, of rc_pending_components]
    arg_cong [OF assms, of rc_sources] arg_cong [OF assms, of rc_site_states] arg_cong [OF assms, of rc_site_owners]
    arg_cong [OF assms, of rc_missing_sources] arg_cong [OF assms, of rc_missing_parents]
    arg_cong [OF assms, of rc_dirty] arg_cong [OF assms, of rc_initialized]
  by (simp_all add: without_gates_def)

definition step_partial :: "nat \<Rightarrow> nat \<Rightarrow> nat \<Rightarrow> nat" where
  "step_partial previous state k = (if previous = 1 then k - 1 else k) + (if state = 1 then 1 else 0)"

text \<open>What the update of some edges of a site does.\<close>

definition gates_updated :: "nat \<Rightarrow> nat \<Rightarrow> nat set \<Rightarrow> reachability_closure \<Rightarrow> reachability_closure \<Rightarrow> bool" where
  "gates_updated previous state es c c' \<longleftrightarrow>
     without_gates c' = without_gates c \<and> queues es c c'
     \<and> length (rc_partial c') = length (rc_partial c) \<and> length (rc_open c') = length (rc_open c)
     \<and> (\<forall>i < length (rc_partial c).
          rc_partial c' ! i = (if i \<in> es then step_partial previous state (rc_partial c ! i) else rc_partial c ! i))
     \<and> (\<forall>i < length (rc_open c). rc_open c' ! i \<longleftrightarrow> rc_open c ! i \<or> i \<in> es \<and> state = 2)"

lemma update_site_edge_step:
  assumes "queue_ok c" and "e < length (rc_fired c)" and "length (rc_partial c) = length (rc_fired c)"
    and "length (rc_open c) = length (rc_fired c)" and "previous = 1 \<Longrightarrow> rc_partial c ! e \<noteq> 0"
  obtains c' where "update_site_edge previous state e c = Inr c'" and "gates_updated previous state {e} c c'"
proof -
  let ?p = "(rc_partial c)[e := step_partial previous state (rc_partial c ! e)]"
  let ?o = "(rc_open c)[e := rc_open c ! e \<or> state = 2]"
  let ?c = "c\<lparr>rc_partial := ?p, rc_open := ?o\<rparr>"
  have "update_site_edge previous state e c = Inr (queue_edge e ?c)"
    using assms(2-5) by (auto simp: update_site_edge_def step_partial_def list_update_id)
  moreover have "queue_ok ?c" using assms(1) by (simp add: queue_ok_def)
  from queue_edge_queues [OF this, of e] assms(2) have "queues {e} c (queue_edge e ?c)" by (simp add: queues_def)
  then have "gates_updated previous state {e} c (queue_edge e ?c)"
    using assms(2-4) by (auto simp: gates_updated_def without_gates_def queue_edge_def nth_list_update)
  ultimately show thesis by (rule_tac that)
qed

lemma gates_updated_trans:
  assumes "gates_updated previous state es c c'" and "gates_updated previous state es' c' c''" and "es \<inter> es' = {}"
  shows "gates_updated previous state (es \<union> es') c c''"
proof -
  have "queues (es \<union> es') c c''"
    using assms(1,2) without_gates_fields(2) [of c' c] queues_trans by (auto simp: gates_updated_def)
  with assms show ?thesis by (auto simp: gates_updated_def)
qed

lemma update_site_edges:
  assumes "queue_ok c" and "length (rc_partial c) = length (rc_fired c)" and "length (rc_open c) = length (rc_fired c)"
    and "distinct es" and "list_all (\<lambda>e. e < length (rc_fired c)) es"
    and "previous = 1 \<Longrightarrow> list_all (\<lambda>e. rc_partial c ! e \<noteq> 0) es"
  shows "\<exists>c'. fold_result (update_site_edge previous state) es c = Inr c' \<and> gates_updated previous state (set es) c c'"
  using assms
proof (induction es arbitrary: c)
  case Nil
  then show ?case by (simp add: gates_updated_def queues_refl)
next
  case (Cons e es)
  have "e < length (rc_fired c)" "previous = 1 \<Longrightarrow> rc_partial c ! e \<noteq> 0" using Cons.prems(5,6) by simp_all
  from update_site_edge_step [OF Cons.prems(1) this(1) Cons.prems(2,3) this(2)] obtain c1 where
    step: "update_site_edge previous state e c = Inr c1" and g: "gates_updated previous state {e} c c1" by blast
  have same: "rc_fired c1 = rc_fired c" "length (rc_partial c1) = length (rc_partial c)" "length (rc_open c1) = length (rc_open c)"
    "queue_ok c1"
    using g without_gates_fields(2) [of c1 c] by (simp_all add: gates_updated_def queues_def)
  have other: "rc_partial c1 ! i = rc_partial c ! i" if "i \<noteq> e" "i < length (rc_partial c)" for i
    using g that by (simp add: gates_updated_def)
  have "previous = 1 \<Longrightarrow> list_all (\<lambda>e. rc_partial c1 ! e \<noteq> 0) es"
  proof -
    assume "previous = 1"
    with Cons.prems(6) have "list_all (\<lambda>e. rc_partial c ! e \<noteq> 0) es" by simp
    moreover have "rc_partial c1 ! i = rc_partial c ! i" if "i \<in> set es" for i
      using that Cons.prems(2,4,5) by (intro other) (auto simp: list_all_iff)
    ultimately show ?thesis by (simp add: list_all_iff)
  qed
  with same Cons.prems have "\<exists>c'. fold_result (update_site_edge previous state) es c1 = Inr c'
      \<and> gates_updated previous state (set es) c1 c'"
    by (intro Cons.IH) simp_all
  then obtain c' where rest: "fold_result (update_site_edge previous state) es c1 = Inr c'"
    "gates_updated previous state (set es) c1 c'" by blast
  have "gates_updated previous state ({e} \<union> set es) c c'"
    by (rule gates_updated_trans [OF g rest(2)]) (use Cons.prems(4) in simp)
  with step rest(1) show ?case by simp
qed

lemma finite_sites_of_edge: "finite (sites_of_edge index i)"
  by (simp add: sites_of_edge_def)

lemma count_states_update:
  assumes "s < length states" and "states ! s = previous" and "previous \<noteq> state"
  shows "card {t \<in> sites_of_edge index i. states[s := state] ! t = 1}
      = (if s \<in> sites_of_edge index i then step_partial previous state (card {t \<in> sites_of_edge index i. states ! t = 1})
         else card {t \<in> sites_of_edge index i. states ! t = 1})"
proof (cases "s \<in> sites_of_edge index i")
  case False
  then have "states[s := state] ! t = states ! t" if "t \<in> sites_of_edge index i" for t
    using that by (metis nth_list_update_neq)
  then have "{t \<in> sites_of_edge index i. states[s := state] ! t = 1} = {t \<in> sites_of_edge index i. states ! t = 1}"
    by auto
  with False show ?thesis by simp
next
  case True
  let ?S = "sites_of_edge index i"
  let ?old = "{t \<in> ?S. states ! t = 1}"
  have fin: "finite ?old" using finite_sites_of_edge by simp
  have "{t \<in> ?S. states[s := state] ! t = 1} = (?old - {s}) \<union> (if state = 1 then {s} else {})"
    using assms(1) True by (auto simp: nth_list_update)
  moreover have "card ((?old - {s}) \<union> (if state = 1 then {s} else {})) = card (?old - {s}) + card (if state = 1 then {s} else {})"
    by (rule card_Un_disjoint) (use fin in auto)
  ultimately have "card {t \<in> ?S. states[s := state] ! t = 1} = card (?old - {s}) + (if state = 1 then 1 else 0)"
    by simp
  also have "card (?old - {s}) = (if previous = 1 then card ?old - 1 else card ?old)"
    using assms(2) True fin by (simp add: card_Diff_singleton_if)
  finally show ?thesis using True by (simp add: step_partial_def)
qed

lemma site_owner_bound: "index_wf index \<Longrightarrow> s < length (ri_sites index) \<Longrightarrow>
    card (set (is_owners (ri_sites index ! s)) \<inter> R) \<le> length (is_owners (ri_sites index ! s))"
  by (rule order_trans [OF card_mono card_length]) auto

definition same_but_sites :: "reachability_closure \<Rightarrow> reachability_closure \<Rightarrow> bool" where
  "same_but_sites c c' \<longleftrightarrow>
     rc_sources c' = rc_sources c \<and> rc_survives c' = rc_survives c
     \<and> rc_missing_sources c' = rc_missing_sources c \<and> rc_missing_parents c' = rc_missing_parents c
     \<and> rc_pending_components c' = rc_pending_components c \<and> rc_nodes c' = rc_nodes c
     \<and> rc_pending_nodes c' = rc_pending_nodes c \<and> rc_fired c' = rc_fired c
     \<and> rc_dirty c' = rc_dirty c \<and> rc_initialized c' = rc_initialized c"

lemma same_but_sites_components:
  "same_but_sites c c' \<Longrightarrow> components_part index A c' = components_part index A c"
  by (simp add: same_but_sites_def components_part_def retained_set_def survivor_set_def)

lemma update_site_ok:
  assumes wf: "index_wf index" and s: "s < length (ri_sites index)"
    and sites: "sites_part index (insert s D) c" and nodes: "nodes_part index T c"
  obtains c' where "update_site index s c = Inr c'" and "sites_part index (D - {s}) c'"
    and "nodes_part index T c'"
    and "same_but_sites c c'"
proof -
  let ?R = "retained_set c" and ?es = "is_edges (ri_sites index ! s)"
  let ?state = "site_holds index ?R s" and ?previous = "rc_site_states c ! s"
  have owners: "rc_site_owners c ! s = card (set (is_owners (ri_sites index ! s)) \<inter> ?R)"
    and le: "?previous \<le> ?state" using sites s by (simp_all add: sites_part_def)
  have bound: "\<not> rc_site_owners c ! s > length (is_owners (ri_sites index ! s))"
    using site_owner_bound [OF wf s] owners by (simp add: not_less)
  have state: "site_state (rc_site_owners c ! s) (length (is_owners (ri_sites index ! s))) = ?state"
    by (simp add: site_holds_def owners)
  have D: "D - {s} \<subseteq> {..< length (ri_sites index)}" using sites by (auto simp: sites_part_def)
  show thesis
  proof (cases "?state = ?previous")
    case True
    then have "update_site index s c = Inr c" using bound state by (simp add: update_site_def Let_def)
    moreover have "sites_part index (D - {s}) c" using sites True D by (auto simp: sites_part_def)
    moreover have "same_but_sites c c" by (simp add: same_but_sites_def)
    ultimately show thesis using nodes by (intro that)
  next
    case changed: False
    let ?c = "c\<lparr>rc_site_states := (rc_site_states c)[s := ?state]\<rparr>"
    have len: "length (rc_fired c) = length (ri_edges index)" "queue_ok c"
      "length (rc_partial c) = length (ri_edges index)" "length (rc_open c) = length (ri_edges index)"
      "length (rc_site_states c) = length (ri_sites index)"
      using nodes sites by (simp_all add: nodes_part_def sites_part_def)
    have "site_wf index (ri_sites index ! s)" using wf s by (simp add: index_wf_def list_all_length)
    then have es: "distinct ?es" "set ?es \<subseteq> {..< length (ri_edges index)}" by (simp_all add: site_wf_def)
    have partial: "rc_partial c ! i = card {t \<in> sites_of_edge index i. rc_site_states c ! t = 1}"
      and opened: "rc_open c ! i \<longleftrightarrow> ie_unconditional (ri_edges index ! i)
        \<or> (\<exists>t \<in> sites_of_edge index i. rc_site_states c ! t = 2)" if "i < length (ri_edges index)" for i
      using sites that by (simp_all add: sites_part_def)
    have mem: "s \<in> sites_of_edge index i \<longleftrightarrow> i \<in> set ?es" for i using s by (simp add: sites_of_edge_def)
    have "list_all (\<lambda>e. rc_partial ?c ! e \<noteq> 0) ?es" if "?previous = 1"
    proof -
      have "rc_partial c ! e \<noteq> 0" if e: "e \<in> set ?es" for e
      proof -
        have "s \<in> {t \<in> sites_of_edge index e. rc_site_states c ! t = 1}" using \<open>?previous = 1\<close> e mem by simp
        moreover have "finite {t \<in> sites_of_edge index e. rc_site_states c ! t = 1}" using finite_sites_of_edge by simp
        ultimately have "card {t \<in> sites_of_edge index e. rc_site_states c ! t = 1} \<noteq> 0" by (metis card_0_eq empty_iff)
        then show ?thesis using partial e es(2) by auto
      qed
      then show ?thesis by (simp add: list_all_iff)
    qed
    moreover have "queue_ok ?c" using len(2) by (simp add: queue_ok_def)
    moreover have "list_all (\<lambda>e. e < length (rc_fired ?c)) ?es" using es(2) len(1) by (auto simp: list_all_iff)
    ultimately obtain c' where run: "fold_result (update_site_edge ?previous ?state) ?es ?c = Inr c'"
      and g: "gates_updated ?previous ?state (set ?es) ?c c'"
      using update_site_edges [of ?c ?es ?previous ?state] len es(1) by auto
    have upd: "update_site index s c = Inr c'" using changed bound state run by (simp add: update_site_def Let_def)
    note same = without_gates_fields [of c' ?c]
    have w: "without_gates c' = without_gates ?c" using g by (simp add: gates_updated_def)
    have R': "retained_set c' = ?R" using same(6) [OF w] by (simp add: retained_set_def)
    have states': "rc_site_states c' = (rc_site_states c)[s := ?state]" using same(7) [OF w] by simp
    have glen: "length (rc_partial c') = length (ri_edges index)" "length (rc_open c') = length (ri_edges index)"
      using g len by (simp_all add: gates_updated_def)
    have partial': "rc_partial c' ! i = (if i \<in> set ?es then step_partial ?previous ?state (rc_partial c ! i) else rc_partial c ! i)"
      and open': "rc_open c' ! i \<longleftrightarrow> rc_open c ! i \<or> i \<in> set ?es \<and> ?state = 2" if "i < length (ri_edges index)" for i
      using g that len by (simp_all add: gates_updated_def)
    have "sites_part index (D - {s}) c'"
      unfolding sites_part_def
    proof (intro conjI allI impI)
      show "length (rc_sources c') = source_count index" "length (rc_site_owners c') = length (ri_sites index)"
        using sites same(6,8) [OF w] by (simp_all add: sites_part_def)
      show "length (rc_site_states c') = length (ri_sites index)" using len(5) by (simp add: states')
    next
      fix t
      assume t: "t < length (ri_sites index)"
      have old: "rc_site_owners c ! t = card (set (is_owners (ri_sites index ! t)) \<inter> ?R)"
        "rc_site_states c ! t \<le> site_holds index ?R t"
        "t \<notin> insert s D \<Longrightarrow> rc_site_states c ! t = site_holds index ?R t" using sites t by (simp_all add: sites_part_def)
      show "rc_site_owners c' ! t = card (set (is_owners (ri_sites index ! t)) \<inter> retained_set c')"
        using old(1) same(8) [OF w] R' by simp
      show "rc_site_states c' ! t \<le> site_holds index (retained_set c') t"
        using old(2) t len(5) by (cases "t = s") (simp_all add: states' R')
      assume "t \<notin> D - {s}"
      then show "rc_site_states c' ! t = site_holds index (retained_set c') t"
        using old(3) t len(5) by (cases "t = s") (simp_all add: states' R')
    next
      fix i
      assume i: "i < length (ri_edges index)"
      show "rc_partial c' ! i = card {t \<in> sites_of_edge index i. rc_site_states c' ! t = 1}"
        using count_states_update [of s "rc_site_states c" ?previous ?state index i] s len(5) changed
          partial' [OF i] partial [OF i] mem [of i] by (simp add: states')
      have "(\<exists>t \<in> sites_of_edge index i. rc_site_states c' ! t = 2)
          \<longleftrightarrow> (\<exists>t \<in> sites_of_edge index i. rc_site_states c ! t = 2) \<or> i \<in> set ?es \<and> ?state = 2"
      proof -
        have two: "?previous \<noteq> 2" using le changed site_state_le [of "card (set (is_owners (ri_sites index ! s)) \<inter> ?R)"
              "length (is_owners (ri_sites index ! s))"] by (auto simp: site_holds_def)
        have at_s: "rc_site_states c' ! s = ?state" using s len(5) by (simp add: states')
        have at: "rc_site_states c' ! t = rc_site_states c ! t" if "t \<noteq> s" for t using that by (simp add: states')
        show ?thesis using two mem [of i] at_s at by metis
      qed
      with opened [OF i] open' [OF i]
      show "rc_open c' ! i \<longleftrightarrow> ie_unconditional (ri_edges index ! i)
        \<or> (\<exists>t \<in> sites_of_edge index i. rc_site_states c' ! t = 2)" by blast
    qed (use D glen in simp_all)
    moreover have "nodes_part index T c'"
    proof -
      have fields: "rc_fired c' = rc_fired c" "rc_nodes c' = rc_nodes c" "rc_pending_nodes c' = rc_pending_nodes c"
        "rc_survives c' = rc_survives c" using same(1-4) [OF w] by simp_all
      have q: "queue_ok c'" "\<And>i. i < length (ri_edges index) \<Longrightarrow> rc_queued c ! i \<or> i \<in> set ?es \<and> \<not> rc_fired c ! i \<Longrightarrow> rc_queued c' ! i"
      proof -
        have "queues (set ?es) ?c c'" using g by (simp add: gates_updated_def)
        then show "queue_ok c'" "\<And>i. i < length (ri_edges index) \<Longrightarrow>
            rc_queued c ! i \<or> i \<in> set ?es \<and> \<not> rc_fired c ! i \<Longrightarrow> rc_queued c' ! i"
          by (auto simp: queues_def len(1))
      qed
      have "edge_settled index c' i" if i: "i < length (ri_edges index)" for i
      proof (cases "i \<in> set ?es")
        case True
        then show ?thesis using q(2) [OF i] by (auto simp: edge_settled_def fields)
      next
        case False
        have "edge_settled index c i" using nodes i by (simp add: nodes_part_def)
        with False q(2) [OF i] partial' [OF i] open' [OF i] show ?thesis by (auto simp: edge_settled_def fields)
      qed
      with nodes q(1) show ?thesis by (simp add: nodes_part_def fields R')
    qed
    moreover have "same_but_sites c c'" using same [OF w] by (simp add: same_but_sites_def)
    ultimately show thesis using upd by (intro that)
  qed
qed

lemma update_sites_ok:
  assumes wf: "index_wf index" and ok: "closure_ok index T c"
  obtains c' where "update_sites index c = Inr c'" and "sites_part index {} c'" and "components_part index {} c'"
    and "nodes_part index T c'" and "rc_dirty c' = {}" and "retained_set c' = retained_set c"
    and "rc_nodes c' = rc_nodes c" and "rc_fired c' = rc_fired c" and "rc_initialized c' = rc_initialized c"
proof -
  let ?c = "c\<lparr>rc_dirty := {}\<rparr>"
  have R: "retained_set ?c = retained_set c" "survivor_set ?c = survivor_set c" by (simp_all add: retained_set_def survivor_set_def)
  have edges: "edge_settled index ?c i = edge_settled index c i" for i by (simp add: edge_settled_def)
  have parts: "sites_part index (rc_dirty c) ?c" "components_part index {} ?c" "nodes_part index T ?c"
  proof -
    have "sites_part index (rc_dirty c) ?c = sites_part index (rc_dirty c) c" by (simp add: sites_part_def R)
    moreover have "components_part index {} ?c = components_part index {} c" by (simp add: components_part_def R)
    moreover have "queue_ok ?c = queue_ok c" by (simp add: queue_ok_def)
    then have "nodes_part index T ?c = nodes_part index T c" by (simp add: nodes_part_def R edges)
    ultimately show "sites_part index (rc_dirty c) ?c" "components_part index {} ?c" "nodes_part index T ?c"
      using ok by (simp_all add: closure_ok_def)
  qed
  have fin: "finite (rc_dirty c)" using parts(1) by (auto simp: sites_part_def intro: finite_subset)
  have run: "sites_part index (set ss) b \<Longrightarrow> nodes_part index T b \<Longrightarrow>
      \<exists>b'. fold_result (update_site index) ss b = Inr b' \<and> sites_part index {} b' \<and> nodes_part index T b'
        \<and> same_but_sites b b'" for ss b
  proof (induction ss arbitrary: b)
    case Nil
    then show ?case by (simp add: same_but_sites_def)
  next
    case (Cons s ss)
    have s: "s < length (ri_sites index)" using Cons.prems(1) by (simp add: sites_part_def)
    have "sites_part index (insert s (set ss)) b" using Cons.prems(1) by simp
    from update_site_ok [OF wf s this Cons.prems(2)] obtain b1 where
      step: "update_site index s b = Inr b1" "sites_part index (set ss - {s}) b1" "nodes_part index T b1"
        "same_but_sites b b1" by blast
    have "set ss \<subseteq> {..< length (ri_sites index)}" using Cons.prems(1) by (auto simp: sites_part_def)
    with step(2) have "sites_part index (set ss) b1" unfolding sites_part_def by blast
    from Cons.IH [OF this step(3)] obtain b' where
      rest: "fold_result (update_site index) ss b1 = Inr b'" "sites_part index {} b'" "nodes_part index T b'"
        "same_but_sites b1 b'" by blast
    have "same_but_sites b b'" using step(4) rest(4) by (simp add: same_but_sites_def)
    with step(1) rest show ?case by simp
  qed
  have "sites_part index (set (sorted_list_of_set (rc_dirty c))) ?c" using parts(1) fin by simp
  from run [OF this parts(3)] obtain c' where
    c': "fold_result (update_site index) (sorted_list_of_set (rc_dirty c)) ?c = Inr c'"
      "sites_part index {} c'" "nodes_part index T c'" "same_but_sites ?c c'" by blast
  have "update_sites index c = Inr c'" using c'(1) by (simp add: update_sites_def)
  moreover have "components_part index {} c'" using parts(2) same_but_sites_components [OF c'(4)] by simp
  moreover have "rc_dirty c' = {}" "retained_set c' = retained_set c" "rc_nodes c' = rc_nodes c"
    "rc_fired c' = rc_fired c" "rc_initialized c' = rc_initialized c"
    using c'(4) by (simp_all add: same_but_sites_def retained_set_def)
  ultimately show thesis using c'(2,3) by (rule_tac that)
qed

section \<open>Releasing components\<close>

lemma fold_release_child:
  "distinct es \<Longrightarrow> list_all (\<lambda>e. e < length (rc_missing_parents c)) es \<Longrightarrow>
     \<exists>missing queue. fold release_child es c
         = c\<lparr>rc_missing_parents := missing, rc_pending_components := rc_pending_components c @ queue\<rparr>
       \<and> length missing = length (rc_missing_parents c)
       \<and> (\<forall>e < length missing. missing ! e = rc_missing_parents c ! e - (if e \<in> set es then 1 else 0))
       \<and> set queue = {e \<in> set es. \<not> rc_survives c ! e \<and> rc_missing_sources c ! e = 0 \<and> missing ! e = 0}"
proof (induction es arbitrary: c)
  case Nil
  show ?case by (intro exI [of _ "rc_missing_parents c"] exI [of _ "[]"]) simp
next
  case (Cons e es)
  let ?m = "(rc_missing_parents c)[e := rc_missing_parents c ! e - 1]"
  let ?q = "if \<not> rc_survives c ! e \<and> rc_missing_sources c ! e = 0 \<and> ?m ! e = 0 then [e] else []"
  let ?c = "c\<lparr>rc_missing_parents := ?m, rc_pending_components := rc_pending_components c @ ?q\<rparr>"
  have e: "e < length (rc_missing_parents c)" "e \<notin> set es" using Cons.prems by simp_all
  have step: "release_child e c = ?c"
  proof (cases "rc_missing_parents c ! e = 0")
    case True
    then have m: "?m = rc_missing_parents c" by (metis diff_0_eq_0 list_update_id)
    show ?thesis unfolding m using True by (simp add: release_child_def queue_component_if_ready_def)
  next
    case False
    then show ?thesis using e by (simp add: release_child_def queue_component_if_ready_def)
  qed
  have "distinct es" "list_all (\<lambda>e. e < length (rc_missing_parents ?c)) es" using Cons.prems by simp_all
  from Cons.IH [OF this] obtain missing queue where
    r: "fold release_child es ?c
         = ?c\<lparr>rc_missing_parents := missing, rc_pending_components := rc_pending_components ?c @ queue\<rparr>"
      "length missing = length (rc_missing_parents ?c)"
      "\<And>d. d < length missing \<Longrightarrow> missing ! d = rc_missing_parents ?c ! d - (if d \<in> set es then 1 else 0)"
      "set queue = {d \<in> set es. \<not> rc_survives ?c ! d \<and> rc_missing_sources ?c ! d = 0 \<and> missing ! d = 0}" by blast
  have at: "missing ! d = rc_missing_parents c ! d - (if d \<in> set (e # es) then 1 else 0)" if "d < length missing" for d
    using r(3) [OF that] that r(2) e by (cases "d = e") auto
  let ?P = "\<lambda>d. \<not> rc_survives c ! d \<and> rc_missing_sources c ! d = 0 \<and> missing ! d = 0"
  have me: "?m ! e = missing ! e" using at [of e] r(2) e by simp
  have "set ?q = (if ?P e then {e} else {})" unfolding me by simp
  moreover have "set queue = {d \<in> set es. ?P d}" using r(4) by simp
  moreover have "{d \<in> set (e # es). ?P d} = (if ?P e then {e} else {}) \<union> {d \<in> set es. ?P d}" by auto
  ultimately have "set (?q @ queue) = {d \<in> set (e # es). ?P d}" unfolding set_append by (simp only:)
  moreover have "fold release_child (e # es) c
      = c\<lparr>rc_missing_parents := missing, rc_pending_components := rc_pending_components c @ (?q @ queue)\<rparr>"
    using r(1) by (simp add: step)
  moreover have "length missing = length (rc_missing_parents c)" using r(2) by simp
  ultimately show ?case using at by blast
qed

lemma card_parents_release:
  assumes "d \<notin> S"
  shows "card (set ps - insert d S) = card (set ps - S) - (if d \<in> set ps then 1 else 0)"
  using card_remove_source [OF assms] .

text \<open>What work on components leaves of the rest of the state.\<close>

definition same_sources :: "reachability_closure \<Rightarrow> reachability_closure \<Rightarrow> bool" where
  "same_sources c c' \<longleftrightarrow>
     rc_sources c' = rc_sources c \<and> rc_site_owners c' = rc_site_owners c \<and> rc_site_states c' = rc_site_states c
     \<and> rc_partial c' = rc_partial c \<and> rc_open c' = rc_open c \<and> rc_dirty c' = rc_dirty c
     \<and> rc_missing_sources c' = rc_missing_sources c \<and> rc_initialized c' = rc_initialized c"

lemma same_sources_sites: "same_sources c c' \<Longrightarrow> sites_part index D c' = sites_part index D c"
  by (simp add: same_sources_def sites_part_def retained_set_def)

lemma same_sources_retained: "same_sources c c' \<Longrightarrow> retained_set c' = retained_set c"
  by (simp add: same_sources_def retained_set_def)

lemma release_component_ok:
  assumes wf: "index_wf index" and comps: "components_part index {d} c" and nodes: "nodes_part index T c"
    and d: "d < length (ri_components index)" "\<not> rc_survives c ! d" "rc_missing_sources c ! d = 0" "rc_missing_parents c ! d = 0"
  shows "components_part index {} (release_component index d c) \<and> nodes_part index T (release_component index d c)
    \<and> same_sources c (release_component index d c)
    \<and> rc_nodes (release_component index d c) = rc_nodes c"
proof -
  let ?n = "length (ri_components index)" and ?facts = "ri_components index ! d"
  let ?c1 = "c\<lparr>rc_survives := (rc_survives c)[d := True]\<rparr>"
  let ?c2 = "fold queue_edge (comp_target_edges ?facts) ?c1"
  let ?c3 = "release_component index d c"
  have dwf: "component_wf index d" using wf d(1) by (simp add: index_wf_def)
  have targets: "set (comp_target_edges ?facts) = {i. i < length (ri_edges index) \<and> ie_component (ri_edges index ! i) = Some d}"
    and kids: "distinct (comp_children ?facts)"
      "set (comp_children ?facts) = {e. e < ?n \<and> d \<in> set (comp_parents (ri_components index ! e))}"
    using dwf by (simp_all add: component_wf_def Let_def)
  have len: "length (rc_fired c) = length (ri_edges index)" "queue_ok c" "length (rc_survives c) = ?n"
    "length (rc_missing_parents c) = ?n"
    using nodes comps by (simp_all add: nodes_part_def components_part_def)
  have "queue_ok ?c1" using len(2) by (simp add: queue_ok_def)
  moreover have "set (comp_target_edges ?facts) \<subseteq> {..< length (rc_fired ?c1)}" using targets len(1) by auto
  ultimately have q: "queues (set (comp_target_edges ?facts)) ?c1 ?c2" and w: "without_queue ?c2 = without_queue ?c1"
    using fold_queue_edge by blast+
  note same = without_queue_fields [OF w]
  have "list_all (\<lambda>e. e < length (rc_missing_parents ?c2)) (comp_children ?facts)"
    using kids(2) len(4) same(12) by (simp add: list_all_iff)
  from fold_release_child [OF kids(1) this] obtain missing queue where
    c3: "?c3 = ?c2\<lparr>rc_missing_parents := missing, rc_pending_components := rc_pending_components ?c2 @ queue\<rparr>"
    and mlen: "length missing = ?n"
    and missing: "\<And>e. e < ?n \<Longrightarrow> missing ! e = rc_missing_parents c ! e - (if e \<in> set (comp_children ?facts) then 1 else 0)"
    and queue: "set queue = {e \<in> set (comp_children ?facts). \<not> rc_survives ?c2 ! e \<and> rc_missing_sources ?c2 ! e = 0 \<and> missing ! e = 0}"
    using len(4) same(12) by (auto simp: release_component_def)
  have fields: "rc_survives ?c3 = (rc_survives c)[d := True]" "rc_missing_parents ?c3 = missing"
    "rc_pending_components ?c3 = rc_pending_components c @ queue" "rc_fired ?c3 = rc_fired c" "rc_nodes ?c3 = rc_nodes c"
    "rc_pending_nodes ?c3 = rc_pending_nodes c" "rc_queued ?c3 = rc_queued ?c2" "rc_pending_edges ?c3 = rc_pending_edges ?c2"
    "rc_missing_sources ?c3 = rc_missing_sources c" "rc_partial ?c3 = rc_partial c" "rc_open ?c3 = rc_open c"
    using same by (simp_all add: c3)
  have "rc_initialized ?c2 = rc_initialized c" using arg_cong [OF w, of rc_initialized] by (simp add: without_queue_def)
  then have ss: "same_sources c ?c3" using same fields by (simp add: same_sources_def c3)
  then have R: "retained_set ?c3 = retained_set c" by (rule same_sources_retained)
  have S: "survivor_set ?c3 = insert d (survivor_set c)"
    using d(1) len(3) by (auto simp: survivor_set_def fields nth_list_update)
  have dS: "d \<notin> survivor_set c" using d(2) by (simp add: survivor_set_def)
  have old: "rc_missing_sources c ! e = card (set (comp_sources (ri_components index ! e)) - retained_set c)"
    "rc_missing_parents c ! e = card (set (comp_parents (ri_components index ! e)) - survivor_set c)"
    "rc_survives c ! e \<Longrightarrow> component_alive index (retained_set c) e"
    "rc_missing_sources c ! e = 0 \<and> rc_missing_parents c ! e = 0 \<Longrightarrow> rc_survives c ! e \<or> e \<in> set (rc_pending_components c) \<union> {d}"
    if "e < ?n" for e
    using comps that unfolding components_part_def by blast+
  have alive: "component_alive index (retained_set c) d"
  proof (rule component_alive.intros [OF d(1)])
    show "set (comp_sources ?facts) \<subseteq> retained_set c" using old(1) [OF d(1)] d(3) by simp
    fix p
    assume "p \<in> set (comp_parents ?facts)"
    moreover have "set (comp_parents ?facts) \<subseteq> survivor_set c" using old(2) [OF d(1)] d(4) by simp
    ultimately have "p < ?n" "rc_survives c ! p" using len(3) by (auto simp: survivor_set_def)
    then show "component_alive index (retained_set c) p" using old(3) by blast
  qed
  have "components_part index {} ?c3"
    unfolding components_part_def
  proof (intro conjI allI impI)
    show "length (rc_survives ?c3) = ?n" "length (rc_missing_sources ?c3) = ?n" "length (rc_missing_parents ?c3) = ?n"
      using len comps mlen by (simp_all add: fields components_part_def)
    show "set (rc_pending_components ?c3) \<subseteq> {..< ?n}"
      using comps queue kids(2) by (auto simp: fields components_part_def)
  next
    fix e
    assume e: "e < ?n"
    show "rc_missing_sources ?c3 ! e = card (set (comp_sources (ri_components index ! e)) - retained_set ?c3)"
      using old(1) [OF e] by (simp add: fields R)
    show "rc_missing_parents ?c3 ! e = card (set (comp_parents (ri_components index ! e)) - survivor_set ?c3)"
      unfolding fields(2) missing [OF e] old(2) [OF e] S card_parents_release [OF dS]
      using kids(2) e by simp
    show "component_alive index (retained_set ?c3) e" if "rc_survives ?c3 ! e"
      using that old(3) [OF e] alive by (cases "e = d") (simp_all add: fields R)
    assume ready: "rc_missing_sources ?c3 ! e = 0 \<and> rc_missing_parents ?c3 ! e = 0"
    show "rc_survives ?c3 ! e \<or> e \<in> set (rc_pending_components ?c3) \<union> {}"
    proof (cases "e = d")
      case True
      then show ?thesis using d(1) len(3) by (simp add: fields)
    next
      case False
      show ?thesis
      proof (cases "e \<in> set (comp_children ?facts)")
        case True
        then show ?thesis
          using queue ready False same(1,11) by (cases "rc_survives c ! e") (simp_all add: fields)
      next
        case not_child: False
        then have "rc_missing_parents c ! e = 0" using ready missing [OF e] by (simp add: fields)
        with ready old(4) [OF e] False show ?thesis by (auto simp: fields)
      qed
    qed
  qed simp_all
  moreover have "nodes_part index T ?c3"
  proof -
    have "queue_ok ?c3" using q by (simp add: queues_def queue_ok_def fields same(2))
    moreover have "edge_settled index ?c3 i" if i: "i < length (ri_edges index)" for i
    proof (cases "ie_component (ri_edges index ! i) = Some d")
      case True
      then have "rc_fired c ! i \<or> rc_queued ?c2 ! i" using q targets i len(1) by (auto simp: queues_def)
      then show ?thesis by (auto simp: edge_settled_def fields)
    next
      case False
      have "rc_queued c ! i \<Longrightarrow> rc_queued ?c2 ! i" using q i len(1) by (simp add: queues_def)
      moreover have "edge_settled index c i" using nodes i by (simp add: nodes_part_def)
      moreover have "rc_survives ?c3 ! e = rc_survives c ! e" if "e \<noteq> d" for e using that by (simp add: fields)
      ultimately show ?thesis using False by (auto simp: edge_settled_def fields)
    qed
    ultimately show ?thesis using nodes by (simp add: nodes_part_def fields R)
  qed
  ultimately show ?thesis using ss fields(5) by blast
qed

lemma close_components_ok:
  assumes "index_wf index" and "components_part index {} c" and "nodes_part index T c"
  shows "components_part index {} (close_components index c) \<and> nodes_part index T (close_components index c)
    \<and> same_sources c (close_components index c) \<and> rc_nodes (close_components index c) = rc_nodes c"
  using assms
proof (induction index c rule: close_components.induct)
  case (1 index c)
  show ?case
  proof (cases "rc_pending_components c")
    case Nil
    with 1 show ?thesis by (simp add: close_components_Nil same_sources_def)
  next
    case (Cons d rest)
    let ?c = "c\<lparr>rc_pending_components := rest\<rparr>"
    have R: "retained_set ?c = retained_set c" "survivor_set ?c = survivor_set c"
      by (simp_all add: retained_set_def survivor_set_def)
    have edges: "edge_settled index ?c i = edge_settled index c i" for i by (simp add: edge_settled_def)
    have "queue_ok ?c = queue_ok c" by (simp add: queue_ok_def)
    then have nodes: "nodes_part index T ?c" using 1(5) by (simp add: nodes_part_def R edges)
    have d: "d < length (ri_components index)" "length (rc_survives c) = length (ri_components index)"
      using 1(4) Cons by (simp_all add: components_part_def)
    have comps: "components_part index {d} ?c"
      using 1(4) unfolding components_part_def R Cons by auto
    have ss: "same_sources c ?c" by (simp add: same_sources_def)
    show ?thesis
    proof (cases "d < length (rc_survives c) \<and> \<not> rc_survives c ! d
             \<and> rc_missing_sources c ! d = 0 \<and> rc_missing_parents c ! d = 0")
      case True
      then have "components_part index {} (release_component index d ?c) \<and> nodes_part index T (release_component index d ?c)
          \<and> same_sources ?c (release_component index d ?c) \<and> rc_nodes (release_component index d ?c) = rc_nodes ?c"
        by (intro release_component_ok [OF 1(3) comps nodes d(1)]) simp_all
      with 1(1) [OF Cons True 1(3)] ss show ?thesis
        unfolding close_components_release [OF Cons True] by (simp add: same_sources_def)
    next
      case False
      have "components_part index {} ?c"
        using comps False d unfolding components_part_def R by auto
      with 1(2) [OF Cons False 1(3)] nodes ss show ?thesis
        unfolding close_components_skip [OF Cons False] by (simp add: same_sources_def)
    qed
  qed
qed

section \<open>Visiting nodes\<close>

lemma visit_node_edges: "visit_node index n c = fold queue_edge (edges_from index n) c"
  by (simp add: visit_node_def edges_from_def split: option.split)

lemma fold_visit_node: "fold (visit_node index) ns c = fold queue_edge (concat (map (edges_from index) ns)) c"
  by (induction ns arbitrary: c) (simp_all add: visit_node_edges)

lemma close_nodes_ok:
  assumes wf: "index_wf index" and nodes: "nodes_part index T c"
  shows "nodes_part index T (close_nodes index c) \<and> same_sources c (close_nodes index c)
    \<and> rc_nodes (close_nodes index c) = rc_nodes c \<and> rc_pending_nodes (close_nodes index c) = []
    \<and> (\<forall>A. components_part index A (close_nodes index c) = components_part index A c)"
proof -
  let ?c1 = "c\<lparr>rc_pending_nodes := []\<rparr>" and ?es = "concat (map (edges_from index) (rc_pending_nodes c))"
  let ?c2 = "close_nodes index c"
  have len: "length (rc_fired c) = length (ri_edges index)" using nodes by (simp add: nodes_part_def)
  have from_wf: "set (edges_from index n) = {i. i < length (ri_edges index) \<and> ie_from (ri_edges index ! i) = n}" for n
    using wf by (simp add: index_wf_def)
  have c2: "?c2 = fold queue_edge ?es ?c1" by (simp add: close_nodes_def fold_visit_node)
  have "queue_ok c" using nodes by (simp add: nodes_part_def)
  then have "queue_ok ?c1" by (simp add: queue_ok_def)
  moreover have "set ?es \<subseteq> {..< length (rc_fired ?c1)}" using from_wf len by auto
  ultimately have q: "queues (set ?es) ?c1 ?c2" and w: "without_queue ?c2 = without_queue ?c1"
    using fold_queue_edge unfolding c2 by blast+
  note same = without_queue_fields [OF w]
  have ss: "same_sources c ?c2"
    using same arg_cong [OF w, of rc_initialized] by (simp add: same_sources_def without_queue_def)
  have R: "retained_set ?c2 = retained_set c" using ss by (rule same_sources_retained)
  have S: "survivor_set ?c2 = survivor_set c" using same(1) by (simp add: survivor_set_def)
  have "edge_settled index ?c2 i" if i: "i < length (ri_edges index)" for i
  proof (cases "ie_from (ri_edges index ! i) \<in> set (rc_pending_nodes c)")
    case True
    then have "i \<in> set ?es" using from_wf i by auto
    then have "rc_fired c ! i \<or> rc_queued ?c2 ! i" using q i len by (auto simp: queues_def)
    then show ?thesis using same(2) by (auto simp: edge_settled_def)
  next
    case False
    have "rc_queued c ! i \<Longrightarrow> rc_queued ?c2 ! i" using q i len by (simp add: queues_def)
    moreover have "edge_settled index c i" using nodes i by (simp add: nodes_part_def)
    ultimately show ?thesis using False same(1-4,6,7) by (auto simp: edge_settled_def)
  qed
  moreover have "queue_ok ?c2" using q by (simp add: queues_def)
  ultimately have "nodes_part index T ?c2" using nodes same(2,3,4) by (simp add: nodes_part_def R)
  moreover have "components_part index A ?c2 = components_part index A c" for A
    using same by (simp add: components_part_def R S)
  ultimately show ?thesis using ss same(3,4) by simp
qed

section \<open>Visiting edges\<close>

definition gates_torn :: "reachability_index \<Rightarrow> source_unit_id set \<Rightarrow> graph_node set \<Rightarrow> bool" where
  "gates_torn index R T \<longleftrightarrow>
     (\<exists>i < length (ri_edges index). node_reached index R T (ie_from (ri_edges index ! i))
        \<and> target_alive index R i \<and> \<not> edge_opens index R i \<and> edge_torn index R i)"

text \<open>The nodes reached, also recorded for the caller: once in the set and, if new, in the list.\<close>

definition records_nodes :: "graph_node set \<times> graph_node set \<times> graph_node list
    \<Rightarrow> graph_node set \<times> graph_node set \<times> graph_node list \<Rightarrow> bool" where
  "records_nodes = (\<lambda>(N, reachable, newly) (N', reachable', newly').
     \<exists>X fresh. N' = N \<union> X \<and> reachable' = reachable \<union> X \<and> newly' = newly @ fresh
       \<and> distinct fresh \<and> set fresh = X - reachable)"

lemma records_nodes_refl: "records_nodes (N, reachable, newly) (N, reachable, newly)"
  unfolding records_nodes_def by (auto intro!: exI [of _ "{}"])

lemma records_nodes_trans:
  assumes "records_nodes (N, a, l) (N', a', l')" and "records_nodes (N', a', l') (N'', a'', l'')"
  shows "records_nodes (N, a, l) (N'', a'', l'')"
proof -
  from assms(1) obtain X f where X: "N' = N \<union> X" "a' = a \<union> X" "l' = l @ f" "distinct f" "set f = X - a"
    unfolding records_nodes_def by blast
  from assms(2) obtain Y g where Y: "N'' = N' \<union> Y" "a'' = a' \<union> Y" "l'' = l' @ g" "distinct g" "set g = Y - a'"
    unfolding records_nodes_def by blast
  have "N'' = N \<union> (X \<union> Y)" "a'' = a \<union> (X \<union> Y)" "l'' = l @ (f @ g)" using X Y by auto
  moreover have "distinct (f @ g)" "set (f @ g) = (X \<union> Y) - a" using X Y by auto
  ultimately show ?thesis unfolding records_nodes_def prod.case by blast
qed

lemma records_nodes_add:
  "records_nodes (N, reachable, newly)
     (insert n N, insert n reachable, if n \<in> reachable then newly else newly @ [n])"
  unfolding records_nodes_def prod.case
  by (rule exI [of _ "{n}"], rule exI [of _ "if n \<in> reachable then [] else [n]"]) auto

lemma node_reached_cut:
  "node_reached index R (insert n T) m \<Longrightarrow> node_reached index R T n \<Longrightarrow> node_reached index R T m"
  by (induction rule: node_reached.induct) (auto intro: node_reached.intros)

lemma add_node_reached:
  assumes "nodes_part index T c" and "node_reached index (retained_set c) T n"
  shows "nodes_part index T (add_node n c)"
proof -
  have "nodes_part index (insert n T) (add_node n c)" by (rule add_node_ok [OF assms(1)])
  moreover have "retained_set (add_node n c) = retained_set c" by (simp add: retained_set_def)
  ultimately show ?thesis using node_reached_cut [OF _ assms(2)] by (auto simp: nodes_part_def)
qed

text \<open>With no dirty sites the recorded gates are the actual ones.\<close>

lemma sites_part_gates:
  assumes "sites_part index {} c" and "i < length (ri_edges index)"
  shows "rc_open c ! i \<longleftrightarrow> edge_opens index (retained_set c) i"
    and "rc_partial c ! i \<noteq> 0 \<longleftrightarrow> edge_torn index (retained_set c) i"
proof -
  have states: "rc_site_states c ! s = site_holds index (retained_set c) s" if "s \<in> sites_of_edge index i" for s
    using assms(1) that by (simp add: sites_part_def sites_of_edge_def)
  show "rc_open c ! i \<longleftrightarrow> edge_opens index (retained_set c) i"
    using assms states by (simp add: sites_part_def edge_opens_def)
  have "rc_partial c ! i = card {s \<in> sites_of_edge index i. rc_site_states c ! s = 1}"
    using assms by (simp add: sites_part_def)
  moreover have "finite {s \<in> sites_of_edge index i. rc_site_states c ! s = 1}" using finite_sites_of_edge by simp
  ultimately have "rc_partial c ! i \<noteq> 0 \<longleftrightarrow> (\<exists>s \<in> sites_of_edge index i. rc_site_states c ! s = 1)"
    using card_0_eq by force
  with states show "rc_partial c ! i \<noteq> 0 \<longleftrightarrow> edge_torn index (retained_set c) i" by (auto simp: edge_torn_def)
qed

lemma survives_alive:
  assumes "components_part index A c" and "index_wf index" and "i < length (ri_edges index)"
    and "pred_option (\<lambda>d. rc_survives c ! d) (ie_component (ri_edges index ! i))"
  shows "target_alive index (retained_set c) i"
proof -
  have "pred_option (\<lambda>d. d < length (ri_components index)) (ie_component (ri_edges index ! i))"
    using assms(2,3) by (simp add: index_wf_def list_all_length)
  with assms(1,4) show ?thesis by (auto simp: target_alive_def components_part_def option.pred_set)
qed

lemma visit_edge_ok:
  assumes wf: "index_wf index" and sites: "sites_part index {} c" and comps: "components_part index {} c"
    and nodes: "nodes_part index T (c\<lparr>rc_pending_edges := e # es\<rparr>)"
  shows "case visit_edge index e (c, reachable, newly) of
      Inl err \<Rightarrow> err = InvalidGraph \<and> gates_torn index (retained_set c) T
    | Inr (c', reachable', newly') \<Rightarrow>
        nodes_part index T (c'\<lparr>rc_pending_edges := es\<rparr>) \<and> same_sources c c'
        \<and> components_part index {} c' \<and> rc_pending_components c' = rc_pending_components c
        \<and> records_nodes (rc_nodes c, reachable, newly) (rc_nodes c', reachable', newly')"
    (is "?G (visit_edge index e (c, reachable, newly))")
proof -
  let ?R = "retained_set c" and ?facts = "ri_edges index ! e"
  have R: "retained_set (c\<lparr>rc_pending_edges := x\<rparr>) = ?R" for x by (simp add: retained_set_def)
  have len: "length (rc_fired c) = length (ri_edges index)" and q: "queue_ok (c\<lparr>rc_pending_edges := e # es\<rparr>)"
    using nodes by (simp_all add: nodes_part_def)
  then have e: "e < length (ri_edges index)" and qlen: "length (rc_queued c) = length (ri_edges index)"
    by (simp_all add: queue_ok_def)
  have settled: "edge_settled index c i" if "i < length (ri_edges index)" for i
    using nodes that by (simp add: nodes_part_def edge_settled_def)
  let ?c1 = "c\<lparr>rc_queued := (rc_queued c)[e := False]\<rparr>"
  have q1: "queue_ok (?c1\<lparr>rc_pending_edges := es\<rparr>)"
    using q by (auto simp: queue_ok_def nth_list_update)
  obtain r where r: "visit_edge index e (c, reachable, newly) = r" by blast
  from r have "?G r"
  proof (cases rule: visit_edge_cases)
    case same
    have "edge_settled index ?c1 i" if i: "i < length (ri_edges index)" for i
    proof (cases "i = e")
      case True
      with same(2) len e show ?thesis by (auto simp: edge_settled_def)
    next
      case False
      with settled [OF i] show ?thesis by (simp add: edge_settled_def)
    qed
    then have "nodes_part index T (?c1\<lparr>rc_pending_edges := es\<rparr>)"
      using nodes q1 by (simp add: nodes_part_def edge_settled_def retained_set_def)
    moreover have "same_sources c ?c1" by (simp add: same_sources_def)
    moreover have "components_part index {} ?c1"
      using comps by (simp add: components_part_def retained_set_def survivor_set_def)
    ultimately show ?thesis using records_nodes_refl by (simp add: same(1))
  next
    case refuse
    have "ie_from ?facts \<in> rc_nodes (c\<lparr>rc_pending_edges := e # es\<rparr>)" using refuse(4) by simp
    with nodes have "node_reached index ?R T (ie_from ?facts)" unfolding nodes_part_def R by blast
    moreover have "target_alive index ?R e" by (rule survives_alive [OF comps wf e refuse(5)])
    ultimately have "gates_torn index ?R T"
      using e refuse(6,7) sites_part_gates [OF sites e] unfolding gates_torn_def by blast
    then show ?thesis by (simp add: refuse(1))
  next
    case fire
    let ?c2 = "c\<lparr>rc_queued := (rc_queued c)[e := False], rc_fired := (rc_fired c)[e := True]\<rparr>"
    let ?n = "ie_to ?facts"
    have "ie_from ?facts \<in> rc_nodes (c\<lparr>rc_pending_edges := e # es\<rparr>)" using fire(4) by simp
    with nodes have "node_reached index ?R T (ie_from ?facts)" unfolding nodes_part_def R by blast
    moreover have "target_alive index ?R e" by (rule survives_alive [OF comps wf e fire(5)])
    moreover have opens: "edge_opens index ?R e" using fire(6) sites_part_gates(1) [OF sites e] by simp
    ultimately have reached: "node_reached index ?R T ?n" by (rule node_edge [OF e])
    let ?c3 = "add_node ?n ?c2"
    have R3: "retained_set ?c3 = ?R" by (simp add: retained_set_def)
    have S3: "survivor_set ?c3 = survivor_set c" by (simp add: survivor_set_def)
    have sub: "rc_nodes ?c3 - set (rc_pending_nodes ?c3) \<subseteq> rc_nodes c - set (rc_pending_nodes c)"
      by (auto simp: add_node_def)
    have "edge_settled index ?c3 i" if i: "i < length (ri_edges index)" for i
    proof (cases "i = e")
      case True
      then show ?thesis using fire(2) by (simp add: edge_settled_def)
    next
      case False
      with settled [OF i] sub show ?thesis by (auto simp: edge_settled_def)
    qed
    moreover have "queue_ok (?c3\<lparr>rc_pending_edges := es\<rparr>)" using q1 by (simp add: queue_ok_def)
    moreover have "set (rc_pending_nodes c) \<subseteq> rc_nodes c" "T \<subseteq> rc_nodes c"
      "\<forall>n \<in> rc_nodes c. node_reached index ?R T n"
      "\<forall>i < length (ri_edges index). rc_fired c ! i \<longrightarrow>
          ie_to (ri_edges index ! i) \<in> rc_nodes c \<and> edge_opens index ?R i"
      using nodes by (simp_all add: nodes_part_def R)
    then have "set (rc_pending_nodes ?c3) \<subseteq> rc_nodes ?c3" "T \<subseteq> rc_nodes ?c3"
      "\<forall>n \<in> rc_nodes ?c3. node_reached index ?R T n"
      "\<forall>i < length (ri_edges index). rc_fired ?c3 ! i \<longrightarrow>
          ie_to (ri_edges index ! i) \<in> rc_nodes ?c3 \<and> edge_opens index ?R i"
      using reached opens fire(2) by (auto simp: add_node_def nth_list_update)
    ultimately have "nodes_part index T (?c3\<lparr>rc_pending_edges := es\<rparr>)"
      using len by (simp add: nodes_part_def edge_settled_def retained_set_def)
    moreover have "same_sources c ?c3" by (simp add: same_sources_def)
    moreover have "components_part index {} ?c3" using comps by (simp add: components_part_def R3 S3)
    moreover have "records_nodes (rc_nodes c, reachable, newly)
        (rc_nodes ?c3, insert ?n reachable, if ?n \<in> reachable then newly else newly @ [?n])"
      using records_nodes_add by simp
    ultimately show ?thesis by (simp add: fire(1))
  qed
  with r show ?thesis by simp
qed

lemma same_sources_trans: "same_sources a b \<Longrightarrow> same_sources b c \<Longrightarrow> same_sources a c"
  by (simp add: same_sources_def)

lemma close_edges_ok:
  assumes wf: "index_wf index" and sites: "sites_part index {} c" and comps: "components_part index {} c"
    and nodes: "nodes_part index T c"
  shows "case close_edges index (c, reachable, newly) of
      Inl err \<Rightarrow> err = InvalidGraph \<and> gates_torn index (retained_set c) T
    | Inr (c', reachable', newly') \<Rightarrow>
        nodes_part index T c' \<and> same_sources c c' \<and> components_part index {} c'
        \<and> records_nodes (rc_nodes c, reachable, newly) (rc_nodes c', reachable', newly')"
proof -
  have run: "sites_part index {} b \<Longrightarrow> components_part index {} b \<Longrightarrow> nodes_part index T (b\<lparr>rc_pending_edges := es\<rparr>) \<Longrightarrow>
      rc_pending_edges b = [] \<Longrightarrow>
      case fold_result (visit_edge index) es (b, a, l) of
        Inl err \<Rightarrow> err = InvalidGraph \<and> gates_torn index (retained_set b) T
      | Inr (b', a', l') \<Rightarrow>
          nodes_part index T b' \<and> same_sources b b' \<and> components_part index {} b'
          \<and> records_nodes (rc_nodes b, a, l) (rc_nodes b', a', l')" for es b a l
  proof (induction es arbitrary: b a l)
    case Nil
    have "b\<lparr>rc_pending_edges := []\<rparr> = b" using Nil(4) by simp
    with Nil(2,3) show ?case by (simp add: records_nodes_refl same_sources_def)
  next
    case (Cons e es)
    note step = visit_edge_ok [OF wf Cons.prems(1,2,3), of a l]
    show ?case
    proof (cases "visit_edge index e (b, a, l)")
      case (Inl err)
      with step show ?thesis by simp
    next
      case (Inr w)
      obtain b1 a1 l1 where w: "w = (b1, a1, l1)" by (cases w)
      with Inr step have s: "nodes_part index T (b1\<lparr>rc_pending_edges := es\<rparr>)" "same_sources b b1"
        "components_part index {} b1" "records_nodes (rc_nodes b, a, l) (rc_nodes b1, a1, l1)" by simp_all
      have pend: "rc_pending_edges b1 = []"
      proof -
        have "visit_edge index e (b, a, l) = Inr (b1, a1, l1)" using Inr w by simp
        then show ?thesis using Cons.prems(4) by (cases rule: visit_edge_cases) auto
      qed
      have sites1: "sites_part index {} b1" using Cons.prems(1) same_sources_sites [OF s(2)] by simp
      note IH = Cons.IH [OF sites1 s(3,1) pend, of a1 l1]
      show ?thesis
      proof (cases "fold_result (visit_edge index) es (b1, a1, l1)")
        case Inl
        with IH Inr w same_sources_retained [OF s(2)] show ?thesis by simp
      next
        case rest: (Inr w')
        obtain b' a' l' where w': "w' = (b', a', l')" by (cases w')
        with IH rest have t: "nodes_part index T b'" "same_sources b1 b'" "components_part index {} b'"
          "records_nodes (rc_nodes b1, a1, l1) (rc_nodes b', a', l')" by simp_all
        from t same_sources_trans [OF s(2) t(2)] records_nodes_trans [OF s(4) t(4)] Inr w rest w'
        show ?thesis by simp
      qed
    qed
  qed
  let ?c = "c\<lparr>rc_pending_edges := []\<rparr>"
  have R: "retained_set ?c = retained_set c" "survivor_set ?c = survivor_set c" by (simp_all add: retained_set_def survivor_set_def)
  have "sites_part index {} ?c" using sites by (simp add: sites_part_def R)
  moreover have "components_part index {} ?c" using comps by (simp add: components_part_def R)
  ultimately have "case fold_result (visit_edge index) (rc_pending_edges c) (?c, reachable, newly) of
        Inl err \<Rightarrow> err = InvalidGraph \<and> gates_torn index (retained_set ?c) T
      | Inr (b', a', l') \<Rightarrow>
          nodes_part index T b' \<and> same_sources ?c b' \<and> components_part index {} b'
          \<and> records_nodes (rc_nodes ?c, reachable, newly) (rc_nodes b', a', l')"
    using nodes by (intro run) simp_all
  then show ?thesis by (auto simp: close_edges_def R same_sources_def split: sum.splits)
qed

lemma closure_round_ok:
  assumes wf: "index_wf index" and sites: "sites_part index {} c" and comps: "components_part index {} c"
    and nodes: "nodes_part index T c"
  shows "case closure_round index (c, reachable, newly) of
      Inl err \<Rightarrow> err = InvalidGraph \<and> gates_torn index (retained_set c) T
    | Inr (c', reachable', newly') \<Rightarrow>
        nodes_part index T c' \<and> same_sources c c' \<and> components_part index {} c'
        \<and> records_nodes (rc_nodes c, reachable, newly) (rc_nodes c', reachable', newly')"
proof -
  let ?c1 = "close_components index c" and ?c2 = "close_nodes index (close_components index c)"
  note one = close_components_ok [OF wf comps nodes]
  then have nodes1: "nodes_part index T ?c1" by blast
  note two = close_nodes_ok [OF wf nodes1]
  have ss: "same_sources c ?c2" using one two same_sources_trans by blast
  have "sites_part index {} ?c2" using sites same_sources_sites [OF ss] by simp
  moreover have "components_part index {} ?c2" "nodes_part index T ?c2" using one two by simp_all
  ultimately have three: "case close_edges index (?c2, reachable, newly) of
      Inl err \<Rightarrow> err = InvalidGraph \<and> gates_torn index (retained_set ?c2) T
    | Inr (c', reachable', newly') \<Rightarrow>
        nodes_part index T c' \<and> same_sources ?c2 c' \<and> components_part index {} c'
        \<and> records_nodes (rc_nodes ?c2, reachable, newly) (rc_nodes c', reachable', newly')"
    by (intro close_edges_ok [OF wf])
  moreover have "rc_nodes ?c2 = rc_nodes c" "retained_set ?c2 = retained_set c"
    using one two same_sources_retained [OF ss] by simp_all
  ultimately show ?thesis
    using same_sources_trans [OF ss] by (auto simp: closure_round_def split: sum.splits)
qed

lemma closure_rounds_ok:
  assumes "index_wf index"
  shows "sites_part index {} (fst work) \<Longrightarrow> components_part index {} (fst work) \<Longrightarrow> nodes_part index T (fst work) \<Longrightarrow>
    case closure_rounds index work of
      Inl err \<Rightarrow> err = InvalidGraph \<and> gates_torn index (retained_set (fst work)) T
    | Inr (c', reachable', newly') \<Rightarrow>
        nodes_part index T c' \<and> same_sources (fst work) c' \<and> components_part index {} c' \<and> nothing_pending c'
        \<and> records_nodes (rc_nodes (fst work), fst (snd work), snd (snd work)) (rc_nodes c', reachable', newly')"
  using assms
proof (induction index work rule: closure_rounds.induct)
  case (1 index work)
  obtain c a l where work: "work = (c, a, l)" by (cases work)
  show ?case
  proof (cases "nothing_pending c")
    case True
    with 1(2-4) show ?thesis
      by (subst closure_rounds.simps) (simp add: work records_nodes_refl same_sources_def)
  next
    case False
    then have eq: "closure_rounds index work
        = bind_result (closure_round index (c, a, l)) (\<lambda>work. closure_rounds index work)"
      by (subst closure_rounds.simps) (simp add: work)
    have parts: "sites_part index {} c" "components_part index {} c" "nodes_part index T c"
      using 1(2-4) by (simp_all add: work)
    note round = closure_round_ok [OF 1(5) parts, of a l]
    show ?thesis
    proof (cases "closure_round index (c, a, l)")
      case (Inl err)
      with round show ?thesis unfolding eq by (simp add: work)
    next
      case (Inr w)
      obtain c1 a1 l1 where w: "w = (c1, a1, l1)" by (cases w)
      with Inr round have s: "nodes_part index T c1" "same_sources c c1" "components_part index {} c1"
        "records_nodes (rc_nodes c, a, l) (rc_nodes c1, a1, l1)" by simp_all
      have sites1: "sites_part index {} c1" using parts(1) same_sources_sites [OF s(2)] by simp
      have pending: "\<not> nothing_pending (fst work)" using False by (simp add: work)
      have "closure_round index work = Inr w" using Inr by (simp add: work)
      note IH = 1(1) [OF pending this, unfolded w fst_conv snd_conv, OF sites1 s(3,1) 1(5)]
      have step: "closure_rounds index work = closure_rounds index (c1, a1, l1)" by (simp add: eq Inr w)
      show ?thesis
      proof (cases "closure_rounds index (c1, a1, l1)")
        case Inl
        with IH same_sources_retained [OF s(2)] show ?thesis unfolding step by (simp add: work)
      next
        case rest: (Inr w')
        obtain c' a' l' where w': "w' = (c', a', l')" by (cases w')
        with IH rest have t: "nodes_part index T c'" "same_sources c1 c'" "components_part index {} c'"
          "nothing_pending c'" "records_nodes (rc_nodes c1, a1, l1) (rc_nodes c', a', l')" by simp_all
        from t same_sources_trans [OF s(2) t(2)] records_nodes_trans [OF s(4) t(5)] rest w'
        show ?thesis unfolding step by (simp add: work)
      qed
    qed
  qed
qed

section \<open>The closed state\<close>

lemma alive_survives:
  assumes "components_part index {} c" and "rc_pending_components c = []"
  shows "component_alive index (retained_set c) d \<Longrightarrow> rc_survives c ! d"
proof (induction rule: component_alive.induct)
  case (1 d)
  have "rc_missing_sources c ! d = card (set (comp_sources (ri_components index ! d)) - retained_set c)"
    "rc_missing_parents c ! d = card (set (comp_parents (ri_components index ! d)) - survivor_set c)"
    and ready: "rc_missing_sources c ! d = 0 \<and> rc_missing_parents c ! d = 0 \<Longrightarrow> rc_survives c ! d"
    using assms 1(1) by (auto simp: components_part_def)
  moreover have "set (comp_sources (ri_components index ! d)) - retained_set c = {}" using 1(2) by blast
  moreover have "set (comp_parents (ri_components index ! d)) - survivor_set c = {}"
  proof -
    have "p \<in> survivor_set c" if "p \<in> set (comp_parents (ri_components index ! d))" for p
    proof -
      have "component_alive index (retained_set c) p" "rc_survives c ! p" using 1(3,4) that by blast+
      moreover have "p < length (rc_survives c)"
        using calculation(1) assms(1) by (cases rule: component_alive.cases) (simp add: components_part_def)
      ultimately show ?thesis by (simp add: survivor_set_def)
    qed
    then show ?thesis by blast
  qed
  ultimately show ?case by simp
qed

lemma closed_nodes:
  assumes wf: "index_wf index" and sites: "sites_part index {} c" and comps: "components_part index {} c"
    and nodes: "nodes_part index T c" and idle: "nothing_pending c"
  shows "rc_nodes c = {n. node_reached index (retained_set c) T n}" and "\<not> gates_torn index (retained_set c) T"
proof -
  let ?R = "retained_set c"
  have q: "queue_ok c" "length (rc_fired c) = length (ri_edges index)" using nodes by (simp_all add: nodes_part_def)
  have settled: "rc_fired c ! i \<or> \<not> edge_opens index ?R i \<and> \<not> edge_torn index ?R i"
    if i: "i < length (ri_edges index)" and from_in: "ie_from (ri_edges index ! i) \<in> rc_nodes c"
      and alive: "target_alive index ?R i" for i
  proof -
    have "rc_pending_edges c = []" using idle by (simp add: nothing_pending_def)
    with q i have "\<not> rc_queued c ! i" by (simp add: queue_ok_def)
    moreover have "rc_survives c ! d" if "ie_component (ri_edges index ! i) = Some d" for d
      using alive that alive_survives [OF comps] idle by (simp add: target_alive_def nothing_pending_def)
    moreover have "edge_settled index c i" using nodes i by (simp add: nodes_part_def)
    ultimately have "rc_fired c ! i \<or> \<not> rc_open c ! i \<and> rc_partial c ! i = 0"
      using from_in idle by (auto simp: edge_settled_def nothing_pending_def)
    with sites_part_gates [OF sites i] show ?thesis by metis
  qed
  have "n \<in> rc_nodes c" if "node_reached index ?R T n" for n
    using that
  proof (induction rule: node_reached.induct)
    case (node_seed n)
    then show ?case using nodes by (auto simp: nodes_part_def)
  next
    case (node_edge i)
    from settled [OF node_edge(1) node_edge.IH node_edge(3)] node_edge(4) have "rc_fired c ! i" by blast
    then show ?case using nodes node_edge(1) by (simp add: nodes_part_def)
  qed
  with nodes show eq: "rc_nodes c = {n. node_reached index ?R T n}" by (auto simp: nodes_part_def)
  show "\<not> gates_torn index ?R T"
  proof
    assume "gates_torn index ?R T"
    then obtain i where i: "i < length (ri_edges index)" "node_reached index ?R T (ie_from (ri_edges index ! i))"
      "target_alive index ?R i" "\<not> edge_opens index ?R i" "edge_torn index ?R i" by (auto simp: gates_torn_def)
    have "ie_from (ri_edges index ! i) \<in> rc_nodes c" unfolding eq using i(2) by simp
    from settled [OF i(1) this i(3)] i(5) have "rc_fired c ! i" by blast
    with nodes i(1,4) show False by (simp add: nodes_part_def)
  qed
qed

lemma reachability_close_ok:
  assumes wf: "index_wf index" and ok: "closure_ok index T c"
  shows "case reachability_close index (c, reachable, newly) of
      Inl err \<Rightarrow> err = InvalidGraph \<and> gates_torn index (retained_set c) T
    | Inr (c', reachable', newly') \<Rightarrow>
        closure_ok index T c' \<and> retained_set c' = retained_set c
        \<and> \<not> gates_torn index (retained_set c) T
        \<and> rc_nodes c' = {n. node_reached index (retained_set c) T n}
        \<and> rc_initialized c' = rc_initialized c
        \<and> records_nodes (rc_nodes c, reachable, newly) (rc_nodes c', reachable', newly')"
proof -
  obtain c1 where
    upd: "update_sites index c = Inr c1" and parts: "sites_part index {} c1" "components_part index {} c1"
      "nodes_part index T c1" and same: "rc_dirty c1 = {}" "retained_set c1 = retained_set c" "rc_nodes c1 = rc_nodes c"
      "rc_initialized c1 = rc_initialized c"
    by (rule update_sites_ok [OF wf ok])
  have eq: "reachability_close index (c, reachable, newly) = closure_rounds index (c1, reachable, newly)"
    by (simp add: reachability_close_def upd)
  have rounds: "case closure_rounds index (c1, reachable, newly) of
      Inl err \<Rightarrow> err = InvalidGraph \<and> gates_torn index (retained_set c1) T
    | Inr (c', reachable', newly') \<Rightarrow>
        nodes_part index T c' \<and> same_sources c1 c' \<and> components_part index {} c' \<and> nothing_pending c'
        \<and> records_nodes (rc_nodes c1, reachable, newly) (rc_nodes c', reachable', newly')"
    using closure_rounds_ok [OF wf, of "(c1, reachable, newly)" T] parts unfolding fst_conv snd_conv by blast
  show ?thesis
  proof (cases "closure_rounds index (c1, reachable, newly)")
    case Inl
    with rounds same show ?thesis unfolding eq by simp
  next
    case (Inr w)
    obtain c' a l where w: "w = (c', a, l)" by (cases w)
    with rounds Inr have f: "nodes_part index T c'" "same_sources c1 c'" "components_part index {} c'" "nothing_pending c'"
      "records_nodes (rc_nodes c1, reachable, newly) (rc_nodes c', a, l)" by simp_all
    have sites: "sites_part index {} c'" using parts(1) same_sources_sites [OF f(2)] by simp
    have R: "retained_set c' = retained_set c" using same_sources_retained [OF f(2)] same(2) by simp
    have dirty: "rc_dirty c' = {}" using f(2) same(1) by (simp add: same_sources_def)
    have "rc_initialized c' = rc_initialized c" using f(2) same(4) by (simp add: same_sources_def)
    moreover note closed_nodes [OF wf sites f(3,1,4), unfolded R]
    moreover have "closure_ok index T c'" using sites f(1,3) by (simp add: closure_ok_def dirty)
    moreover note f(5) [unfolded same(3)]
    ultimately show ?thesis using R unfolding eq Inr w sum.case prod.case by blast
  qed
qed

end
