(* ===== verification/Reachability.thy ===== *)
theory Reachability
  imports Reachability_Invariant Dependency_Graph
begin

text \<open>
  What the compiler reachability closure computes, in terms of the graph and the owner lookup: the
  least set of nodes that contains the seeds and is closed under the compiler edges whose gates are
  open.  The collapsed components decide the expansion gate as the survival of all ancestors does.
\<close>

section \<open>The specification\<close>

definition gate_open :: "site_owner_index \<Rightarrow> source_unit_id set \<Rightarrow> dependency_edge \<Rightarrow> bool" where
  "gate_open owner_index R edge \<longleftrightarrow>
     site_unconditional edge \<or> (\<exists>owners \<in> site_owner_sets owner_index edge. owners \<subseteq> R)"

definition gate_torn :: "site_owner_index \<Rightarrow> source_unit_id set \<Rightarrow> dependency_edge \<Rightarrow> bool" where
  "gate_torn owner_index R edge \<longleftrightarrow>
     \<not> gate_open owner_index R edge \<and> (\<exists>owners \<in> site_owner_sets owner_index edge. owners \<inter> R \<noteq> {})"

definition expansion_survives :: "expansion_node list \<Rightarrow> source_unit_id set \<Rightarrow> expansion_id \<Rightarrow> bool" where
  "expansion_survives xs R = all_ancestors_survive xs (\<lambda>unit. Some (unit \<in> R))"

definition target_survives :: "expansion_node list \<Rightarrow> source_unit_id set \<Rightarrow> dependency_edge \<Rightarrow> bool" where
  "target_survives xs R edge \<longleftrightarrow>
     (case gated_expansion edge of None \<Rightarrow> True | Some x \<Rightarrow> x < length xs \<and> expansion_survives xs R x)"

inductive compiler_reached :: "site_owner_index \<Rightarrow> expansion_node list \<Rightarrow> dependency_edge list
    \<Rightarrow> source_unit_id set \<Rightarrow> graph_node set \<Rightarrow> graph_node \<Rightarrow> bool" for owner_index xs es R T where
  reached_seed: "n \<in> T \<Longrightarrow> compiler_reached owner_index xs es R T n"
| reached_edge: "edge \<in> set es \<Longrightarrow> compiler_reached owner_index xs es R T (e_from edge) \<Longrightarrow>
    target_survives xs R edge \<Longrightarrow> gate_open owner_index R edge \<Longrightarrow>
    compiler_reached owner_index xs es R T (e_to edge)"

definition compiler_conflict :: "site_owner_index \<Rightarrow> expansion_node list \<Rightarrow> dependency_edge list
    \<Rightarrow> source_unit_id set \<Rightarrow> graph_node set \<Rightarrow> bool" where
  "compiler_conflict owner_index xs es R T \<longleftrightarrow>
     (\<exists>edge \<in> set es. compiler_reached owner_index xs es R T (e_from edge)
        \<and> target_survives xs R edge \<and> gate_torn owner_index R edge)"

section \<open>Components decide survival\<close>

lemma expansion_ancestor_trans: "expansion_ancestor xs a b \<Longrightarrow> expansion_ancestor xs b c \<Longrightarrow> expansion_ancestor xs a c"
  by (induction rule: expansion_ancestor.induct) (auto intro: expansion_ancestor.intros)

lemma expansion_ancestor_bound:
  "expansion_ancestor xs v a \<Longrightarrow> list_all (parents_in_range xs) xs \<Longrightarrow> v < length xs \<Longrightarrow> a < length xs"
  by (induction rule: expansion_ancestor.induct) (auto simp: list_all_length parents_in_range_def)

text \<open>The lists of the components as the index keeps them.\<close>

definition indexed_components :: "expansion_node list \<Rightarrow> nat option list \<Rightarrow> reachability_index \<Rightarrow> bool" where
  "indexed_components xs assigned index \<longleftrightarrow>
     (\<forall>v < length xs. \<forall>w < length xs.
        component_of assigned v = component_of assigned w \<longleftrightarrow> w \<in> expansion_class xs v)
     \<and> (\<forall>v < length xs. component_of assigned v < length (ri_components index)
        \<and> set (comp_sources (ri_components index ! component_of assigned v)) = written_units xs (expansion_class xs v)
        \<and> set (comp_parents (ri_components index ! component_of assigned v))
            = {d. d \<noteq> component_of assigned v
                 \<and> (\<exists>e \<in> expansion_class xs v. \<exists>p. has_parent (xs ! e) p \<and> component_of assigned p = d)})"

lemma indexed_componentsD:
  assumes "indexed_components xs assigned index" and "v < length xs"
  shows "component_of assigned v < length (ri_components index)"
    and "set (comp_sources (ri_components index ! component_of assigned v)) = written_units xs (expansion_class xs v)"
    and "set (comp_parents (ri_components index ! component_of assigned v))
            = {d. d \<noteq> component_of assigned v
                 \<and> (\<exists>e \<in> expansion_class xs v. \<exists>p. has_parent (xs ! e) p \<and> component_of assigned p = d)}"
    and "w < length xs \<Longrightarrow> component_of assigned v = component_of assigned w \<longleftrightarrow> w \<in> expansion_class xs v"
  using assms unfolding indexed_components_def by blast+

lemma index_means_components:
  assumes "components_exact xs assigned components"
    and "index_means owner_index assigned components es index"
  shows "indexed_components xs assigned index"
proof -
  have same: "map (comp_target_edges_update (\<lambda>_. [])) (ri_components index)
      = map (comp_target_edges_update (\<lambda>_. [])) components"
    using assms(2) by (simp add: index_means_def)
  then have len: "length (ri_components index) = length components" by (metis length_map)
  have at: "(ri_components index ! c)\<lparr>comp_target_edges := []\<rparr> = (components ! c)\<lparr>comp_target_edges := []\<rparr>"
    if "c < length components" for c
    using arg_cong [OF same, of "\<lambda>l. l ! c"] that len by simp
  have fields: "comp_sources (ri_components index ! c) = comp_sources (components ! c)"
    "comp_parents (ri_components index ! c) = comp_parents (components ! c)" if "c < length components" for c
    using arg_cong [OF at [OF that], of comp_sources] arg_cong [OF at [OF that], of comp_parents] by simp_all
  have each: "component_of assigned v < length components \<and> component_lists xs assigned components v (component_of assigned v)"
    if "v < length xs" for v
    using assms(1) that unfolding components_exact_def by blast
  have iff: "component_of assigned v = component_of assigned w \<longleftrightarrow> w \<in> expansion_class xs v"
    if "v < length xs" "w < length xs" for v w
    using assms(1) that unfolding components_exact_def by blast
  have "component_of assigned v < length (ri_components index)
        \<and> set (comp_sources (ri_components index ! component_of assigned v)) = written_units xs (expansion_class xs v)
        \<and> set (comp_parents (ri_components index ! component_of assigned v))
            = {d. d \<noteq> component_of assigned v
                 \<and> (\<exists>e \<in> expansion_class xs v. \<exists>p. has_parent (xs ! e) p \<and> component_of assigned p = d)}"
    if "v < length xs" for v
    using each [OF that] fields by (simp add: len component_lists_def)
  with iff show ?thesis unfolding indexed_components_def by blast
qed

lemma alive_expansion_survives:
  assumes comps: "indexed_components xs assigned index" and range: "list_all (parents_in_range xs) xs"
    and alive: "component_alive index R c"
  shows "v < length xs \<Longrightarrow> component_of assigned v = c \<Longrightarrow> expansion_survives xs R v"
  using alive
proof (induction arbitrary: v rule: component_alive.induct)
  case (1 c)
  have "a < length xs \<and> unit_outcome (\<lambda>unit. Some (unit \<in> R)) (xs ! a) = Some True"
    if "expansion_ancestor xs w a" "w \<in> expansion_class xs v" for w a
    using that
  proof (induction rule: expansion_ancestor.induct)
    case (ancestor_self w)
    have w: "w < length xs" using ancestor_self expansion_ancestor_bound [OF _ range 1(5)] by (auto simp: expansion_class_def)
    have "u \<in> R" if "written_invocation (xs ! w) = Some u" for u
      using ancestor_self that 1(2) indexed_componentsD(2) [OF comps 1(5)] 1(6) by (auto simp: written_units_def)
    with w show ?case by (simp add: unit_outcome_def split: option.split)
  next
    case (ancestor_parent w p a)
    have p: "p < length xs" using ancestor_parent(1,2) range by (auto simp: list_all_length parents_in_range_def)
    show ?case
    proof (cases "p \<in> expansion_class xs v")
      case True
      then show ?thesis by (rule ancestor_parent.IH)
    next
      case False
      then have "component_of assigned p \<noteq> c" using indexed_componentsD(4) [OF comps 1(5) p] 1(6) by auto
      then have "component_of assigned p \<in> set (comp_parents (ri_components index ! c))"
        using indexed_componentsD(3) [OF comps 1(5)] 1(6) ancestor_parent(2,5) by auto
      from 1(4) [OF this p refl] have "expansion_survives xs R p" .
      with ancestor_parent(3) show ?thesis by (auto simp: expansion_survives_def all_ancestors_survive_def)
    qed
  qed
  moreover have "v \<in> expansion_class xs v" by (simp add: expansion_class_def expansion_ancestor.intros(1))
  ultimately show ?case by (auto simp: expansion_survives_def all_ancestors_survive_def)
qed

lemma expansion_survives_alive:
  assumes comps: "indexed_components xs assigned index" and range: "list_all (parents_in_range xs) xs"
  shows "v < length xs \<Longrightarrow> expansion_survives xs R v \<Longrightarrow> component_alive index R (component_of assigned v)"
proof (induction "card {a. expansion_ancestor xs v a}" arbitrary: v rule: less_induct)
  case less
  let ?c = "component_of assigned v"
  have anc: "a < length xs" "unit_outcome (\<lambda>unit. Some (unit \<in> R)) (xs ! a) = Some True"
    if "expansion_ancestor xs v a" for a
    using less.prems(2) that by (auto simp: expansion_survives_def all_ancestors_survive_def)
  show ?case
  proof (rule component_alive.intros)
    show "?c < length (ri_components index)" by (rule indexed_componentsD(1) [OF comps less.prems(1)])
    show "set (comp_sources (ri_components index ! ?c)) \<subseteq> R"
      unfolding indexed_componentsD(2) [OF comps less.prems(1)]
    proof
      fix u
      assume "u \<in> written_units xs (expansion_class xs v)"
      then obtain e where "expansion_ancestor xs v e" "written_invocation (xs ! e) = Some u"
        by (auto simp: written_units_def expansion_class_def)
      with anc(2) [of e] show "u \<in> R" by (simp add: unit_outcome_def)
    qed
    fix d
    assume "d \<in> set (comp_parents (ri_components index ! ?c))"
    then obtain e p where d: "d \<noteq> ?c" "e \<in> expansion_class xs v" "has_parent (xs ! e) p" "component_of assigned p = d"
      unfolding indexed_componentsD(3) [OF comps less.prems(1)] by blast
    have e: "expansion_ancestor xs v e" using d(2) by (simp add: expansion_class_def)
    have "expansion_ancestor xs e p" using anc(1) [OF e] d(3) by (auto intro: expansion_ancestor.intros)
    with e have vp: "expansion_ancestor xs v p" by (rule expansion_ancestor_trans)
    have p: "p < length xs" by (rule anc(1) [OF vp])
    have not_back: "\<not> expansion_ancestor xs p v"
    proof
      assume "expansion_ancestor xs p v"
      with vp have "p \<in> expansion_class xs v" by (simp add: expansion_class_def)
      with indexed_componentsD(4) [OF comps less.prems(1) p] d(1,4) show False by simp
    qed
    have "{a. expansion_ancestor xs p a} \<subseteq> {a. expansion_ancestor xs v a}"
      using expansion_ancestor_trans [OF vp] by auto
    moreover have "v \<in> {a. expansion_ancestor xs v a}" "v \<notin> {a. expansion_ancestor xs p a}"
      using not_back by (simp_all add: expansion_ancestor.intros(1))
    ultimately have "{a. expansion_ancestor xs p a} \<subset> {a. expansion_ancestor xs v a}" by blast
    moreover have "finite {a. expansion_ancestor xs v a}"
      by (rule finite_subset [of _ "{..< length xs}"]) (use anc(1) in auto)
    ultimately have smaller: "card {a. expansion_ancestor xs p a} < card {a. expansion_ancestor xs v a}"
      by (intro psubset_card_mono)
    have "expansion_survives xs R p"
      using less.prems(2) expansion_ancestor_trans [OF vp] by (auto simp: expansion_survives_def all_ancestors_survive_def)
    from less.hyps [OF smaller p this] d(4) show "component_alive index R d" by simp
  qed
qed

section \<open>The index decides the gates\<close>

lemma site_holds_iff:
  assumes "site_wf index (ri_sites index ! s)"
  shows "site_holds index R s = 2 \<longleftrightarrow> set (is_owners (ri_sites index ! s)) \<subseteq> R"
    and "site_holds index R s = 1 \<longleftrightarrow>
      set (is_owners (ri_sites index ! s)) \<inter> R \<noteq> {} \<and> \<not> set (is_owners (ri_sites index ! s)) \<subseteq> R"
proof -
  let ?os = "is_owners (ri_sites index ! s)"
  have len: "length ?os = card (set ?os)" and some: "set ?os \<noteq> {}"
    using assms by (simp_all add: site_wf_def distinct_card)
  have zero: "card (set ?os \<inter> R) = 0 \<longleftrightarrow> set ?os \<inter> R = {}" by simp
  have all: "card (set ?os \<inter> R) = card (set ?os) \<longleftrightarrow> set ?os \<subseteq> R"
  proof
    assume "card (set ?os \<inter> R) = card (set ?os)"
    then have "set ?os \<inter> R = set ?os" by (intro card_subset_eq) auto
    then show "set ?os \<subseteq> R" by blast
  next
    assume "set ?os \<subseteq> R"
    then have "set ?os \<inter> R = set ?os" by blast
    then show "card (set ?os \<inter> R) = card (set ?os)" by simp
  qed
  have apart: "\<not> set ?os \<subseteq> R" if "set ?os \<inter> R = {}"
    using some that Int_absorb2 [of "set ?os" R] by metis
  have pick: "(if P then 0 else if Q then 2 else 1) = (2 :: nat) \<longleftrightarrow> Q"
    "(if P then 0 else if Q then 2 else 1) = (1 :: nat) \<longleftrightarrow> \<not> P \<and> \<not> Q" if "P \<longrightarrow> \<not> Q" for P Q
    using that by auto
  have holds: "site_holds index R s = (if set ?os \<inter> R = {} then 0 else if set ?os \<subseteq> R then 2 else 1)"
    unfolding site_holds_def site_state_def len zero all ..
  have "set ?os \<inter> R = {} \<longrightarrow> \<not> set ?os \<subseteq> R" using apart by (rule impI)
  note picked = pick [OF this]
  show "site_holds index R s = 2 \<longleftrightarrow> set ?os \<subseteq> R" unfolding holds by (rule picked(1))
  show "site_holds index R s = 1 \<longleftrightarrow> set ?os \<inter> R \<noteq> {} \<and> \<not> set ?os \<subseteq> R" unfolding holds by (rule picked(2))
qed

lemma indexed_gates:
  assumes wf: "index_wf index" and means: "index_means owner_index assigned components es index" and i: "i < length es"
  shows "edge_opens index R i \<longleftrightarrow> gate_open owner_index R (es ! i)"
    and "\<not> edge_opens index R i \<and> edge_torn index R i \<longleftrightarrow> gate_torn owner_index R (es ! i)"
proof -
  have uncond: "ie_unconditional (ri_edges index ! i) \<longleftrightarrow> site_unconditional (es ! i)"
    using means i by (simp add: index_means_def indexed_of_def)
  have site: "site_wf index (ri_sites index ! s)" if "s \<in> sites_of_edge index i" for s
    using wf that by (simp add: index_wf_def list_all_length sites_of_edge_def)
  have sets: "indexed_owner_sets index i = (if site_unconditional (es ! i) then {} else site_owner_sets owner_index (es ! i))"
    using means i unfolding index_means_def by blast
  have ex: "(\<exists>s \<in> sites_of_edge index i. P (set (is_owners (ri_sites index ! s)))) \<longleftrightarrow> (\<exists>owners \<in> indexed_owner_sets index i. P owners)" for P
    by (auto simp: indexed_owner_sets_def sites_of_edge_def)
  have full: "(\<exists>s \<in> sites_of_edge index i. site_holds index R s = 2) \<longleftrightarrow> (\<exists>owners \<in> indexed_owner_sets index i. owners \<subseteq> R)"
    unfolding ex [symmetric] using site_holds_iff(1) [OF site] by blast
  have torn: "edge_torn index R i \<longleftrightarrow> (\<exists>owners \<in> indexed_owner_sets index i. owners \<inter> R \<noteq> {} \<and> \<not> owners \<subseteq> R)"
    unfolding ex [symmetric] edge_torn_def using site_holds_iff(2) [OF site] by blast
  show opens: "edge_opens index R i \<longleftrightarrow> gate_open owner_index R (es ! i)"
    unfolding edge_opens_def uncond full sets gate_open_def by auto
  show "\<not> edge_opens index R i \<and> edge_torn index R i \<longleftrightarrow> gate_torn owner_index R (es ! i)"
    unfolding opens torn sets gate_torn_def by (auto simp: gate_open_def)
qed

lemma indexed_targets:
  assumes exact: "components_exact xs assigned components" and range: "list_all (parents_in_range xs) xs"
    and means: "index_means owner_index assigned components es index" and i: "i < length es"
  shows "target_alive index R i \<longleftrightarrow> target_survives xs R (es ! i)"
proof (cases "gated_expansion (es ! i)")
  case None
  then have "ie_component (ri_edges index ! i) = None"
    using means i by (simp add: index_means_def indexed_of_def target_component_def)
  with None show ?thesis by (simp add: target_alive_def target_survives_def)
next
  case (Some x)
  have len: "length assigned = length xs" and total: "None \<notin> set assigned" using exact by (simp_all add: components_exact_def)
  have "target_component assigned (es ! i) \<noteq> None"
    using means i Some by (auto simp: index_means_def list_all_length)
  then have x: "x < length xs" "target_component assigned (es ! i) = assigned ! x"
    using Some len by (auto simp: target_component_def get_at_def split: if_splits)
  with total len have "assigned ! x = Some (component_of assigned x)"
    by (auto simp: component_of_def in_set_conv_nth)
  with x have "ie_component (ri_edges index ! i) = Some (component_of assigned x)"
    using means i by (simp add: index_means_def indexed_of_def)
  then have "target_alive index R i \<longleftrightarrow> component_alive index R (component_of assigned x)" by (simp add: target_alive_def)
  also have "\<dots> \<longleftrightarrow> expansion_survives xs R x"
    using alive_expansion_survives [OF index_means_components [OF exact means] range _ x(1) refl]
      expansion_survives_alive [OF index_means_components [OF exact means] range x(1)] by blast
  finally show ?thesis using Some x(1) by (simp add: target_survives_def)
qed

lemma node_reached_iff:
  assumes wf: "index_wf index" and exact: "components_exact xs assigned components"
    and range: "list_all (parents_in_range xs) xs" and means: "index_means owner_index assigned components es index"
  shows "node_reached index R T n \<longleftrightarrow> compiler_reached owner_index xs es R T n"
proof
  have edges: "length (ri_edges index) = length es" "\<And>i. i < length es \<Longrightarrow>
      ie_from (ri_edges index ! i) = e_from (es ! i) \<and> ie_to (ri_edges index ! i) = e_to (es ! i)"
    using means by (simp_all add: index_means_def indexed_of_def)
  note gates = indexed_gates(1) [OF wf means] and targets = indexed_targets [OF exact range means]
  show "compiler_reached owner_index xs es R T n" if "node_reached index R T n"
    using that
  proof (induction rule: node_reached.induct)
    case (node_edge i)
    then have i: "i < length es" by (simp add: edges)
    with node_edge edges(2) [OF i] gates [OF i] targets [OF i] show ?case
      using reached_edge [of "es ! i" es owner_index xs R T] by simp
  qed (rule reached_seed)
  show "node_reached index R T n" if "compiler_reached owner_index xs es R T n"
    using that
  proof (induction rule: compiler_reached.induct)
    case (reached_edge edge)
    then obtain i where i: "i < length es" "edge = es ! i" by (auto simp: in_set_conv_nth)
    with reached_edge edges(2) [OF i(1)] gates [OF i(1)] targets [OF i(1)] show ?case
      using node_edge [of i index R T] edges(1) by simp
  qed (rule node_seed)
qed

lemma gates_torn_iff:
  assumes wf: "index_wf index" and exact: "components_exact xs assigned components"
    and range: "list_all (parents_in_range xs) xs" and means: "index_means owner_index assigned components es index"
  shows "gates_torn index R T \<longleftrightarrow> compiler_conflict owner_index xs es R T"
proof -
  have edges: "length (ri_edges index) = length es" "\<And>i. i < length es \<Longrightarrow> ie_from (ri_edges index ! i) = e_from (es ! i)"
    using means by (simp_all add: index_means_def indexed_of_def)
  have "gates_torn index R T \<longleftrightarrow> (\<exists>i < length es. compiler_reached owner_index xs es R T (e_from (es ! i))
      \<and> target_survives xs R (es ! i) \<and> gate_torn owner_index R (es ! i))"
    unfolding gates_torn_def edges(1)
    using node_reached_iff [OF assms] indexed_gates(2) [OF wf means] indexed_targets [OF exact range means] edges(2)
    by metis
  also have "\<dots> \<longleftrightarrow> compiler_conflict owner_index xs es R T"
    unfolding compiler_conflict_def by (metis in_set_conv_nth)
  finally show ?thesis .
qed

section \<open>Sessions\<close>

text \<open>
  A client adds nodes and sources in rounds and closes after each: the first round seeds a new
  closure, the others extend it.
\<close>

fun closure_session :: "reachability_index \<Rightarrow> (graph_node list \<times> source_unit_id list) list \<Rightarrow> reachability_work
    \<Rightarrow> retention_error + reachability_work" where
  "closure_session index [] work = Inr work"
| "closure_session index ((ns, us) # rounds) (c, reachable, newly) =
     bind_result (closure_add_sources index us c) (\<lambda>c.
     bind_result (reachability_close index (closure_add_reachable ns c, reachable, newly)) (\<lambda>work.
       closure_session index rounds work))"

definition round_nodes :: "(graph_node list \<times> source_unit_id list) list \<Rightarrow> graph_node set" where
  "round_nodes rounds = (\<Union>(ns, us) \<in> set rounds. set ns)"

definition round_units :: "(graph_node list \<times> source_unit_id list) list \<Rightarrow> source_unit_id set" where
  "round_units rounds = (\<Union>(ns, us) \<in> set rounds. set us)"

lemma round_sets [simp]:
  "round_nodes [] = {}" "round_units [] = {}"
  "round_nodes ((ns, us) # rounds) = set ns \<union> round_nodes rounds"
  "round_units ((ns, us) # rounds) = set us \<union> round_units rounds"
  by (auto simp: round_nodes_def round_units_def)

lemma records_nodes_union:
  assumes "records_nodes (N, a, l) (N', a', l')"
  shows "records_nodes (N \<union> Y, a, l) (N' \<union> Y, a', l')"
proof -
  from assms obtain X fresh where "N' = N \<union> X" "a' = a \<union> X" "l' = l @ fresh" "distinct fresh" "set fresh = X - a"
    unfolding records_nodes_def by blast
  moreover from this have "N' \<union> Y = N \<union> Y \<union> X" by blast
  ultimately show ?thesis unfolding records_nodes_def prod.case by blast
qed

text \<open>Every round names units of the source and leaves no reached edge with a torn gate.\<close>

fun rounds_consistent :: "nat \<Rightarrow> (source_unit_id set \<Rightarrow> graph_node set \<Rightarrow> bool) \<Rightarrow> source_unit_id set \<Rightarrow> graph_node set
    \<Rightarrow> (graph_node list \<times> source_unit_id list) list \<Rightarrow> bool" where
  "rounds_consistent n conflict R T [] = True"
| "rounds_consistent n conflict R T ((ns, us) # rounds) =
     (list_all (\<lambda>u. u < n) us \<and> \<not> conflict (R \<union> set us) (set ns \<union> T)
      \<and> rounds_consistent n conflict (R \<union> set us) (set ns \<union> T) rounds)"

lemma count_source_sources:
  "fold_result count_source ds (c, A) = Inr (c', A') \<Longrightarrow> rc_sources c' = rc_sources c"
proof (induction ds arbitrary: c A)
  case (Cons d ds)
  from Cons.prems obtain c1 A1 where "count_source d (c, A) = Inr (c1, A1)"
    and rest: "fold_result count_source ds (c1, A1) = Inr (c', A')" by (auto simp: bind_result_eq_Inr)
  then have "rc_sources c1 = rc_sources c" by (auto simp: count_source_def split: if_splits)
  with Cons.IH [OF rest] show ?case by simp
qed simp

lemma closure_add_source_range:
  assumes "closure_add_source index u (c, A) = Inr (c', A')"
  shows "u < length (rc_sources c) \<and> length (rc_sources c') = length (rc_sources c)"
proof -
  have u: "u < length (rc_sources c)"
    using assms by (auto simp: closure_add_source_def split: option.splits)
  show ?thesis
  proof (cases "rc_sources c ! u")
    case True
    with assms u show ?thesis by (simp add: closure_add_source_def get_at_def)
  next
    case False
    have "rc_sources (fold count_owner ss b) = rc_sources b" for ss b
      by (rule fold_keeps) (simp add: count_owner_def)
    with count_source_sources False assms u show ?thesis
      by (fastforce simp: closure_add_source_def get_at_def)
  qed
qed

lemma closure_add_sources_range:
  assumes "closure_add_sources index us c = Inr c'"
  shows "list_all (\<lambda>u. u < length (rc_sources c)) us"
proof -
  have "fold_result (closure_add_source index) us (b, A) = Inr (b', A') \<Longrightarrow>
      list_all (\<lambda>u. u < length (rc_sources b)) us" for b A b' A'
  proof (induction us arbitrary: b A)
    case (Cons u us)
    from Cons.prems obtain b1 A1 where step: "closure_add_source index u (b, A) = Inr (b1, A1)"
      and rest: "fold_result (closure_add_source index) us (b1, A1) = Inr (b', A')" by (auto simp: bind_result_eq_Inr)
    from Cons.IH [OF rest] closure_add_source_range [OF step] show ?case by simp
  qed simp
  with assms show ?thesis by (auto simp: closure_add_sources_def bind_result_eq_Inr)
qed

lemma closure_session_ok:
  assumes wf: "index_wf index"
  shows "closure_ok index T c \<Longrightarrow>
    case closure_session index rounds (c, reachable, newly) of
      Inl e \<Rightarrow> e = InvalidGraph \<and> \<not> rounds_consistent (source_count index) (gates_torn index) (retained_set c) T rounds
    | Inr (c', reachable', newly') \<Rightarrow>
        rounds_consistent (source_count index) (gates_torn index) (retained_set c) T rounds
        \<and> (if rounds = [] then True
           else rc_nodes c' = {n. node_reached index (retained_set c \<union> round_units rounds) (T \<union> round_nodes rounds) n})
        \<and> records_nodes (rc_nodes c \<union> round_nodes rounds, reachable, newly)
            (rc_nodes c' \<union> round_nodes rounds, reachable', newly')"
proof (induction rounds arbitrary: T c reachable newly)
  case Nil
  then show ?case by (simp add: records_nodes_refl)
next
  case (Cons round rounds)
  obtain ns us where r: "round = (ns, us)" by force
  have len: "length (rc_sources c) = source_count index"
    using Cons.prems by (simp add: closure_ok_def sites_part_def)
  show ?case
  proof (cases "closure_add_sources index us c")
    case (Inl e)
    with closure_add_sources_refuses [OF Inl wf Cons.prems] show ?thesis by (simp add: r)
  next
    case (Inr c1)
    have us: "list_all (\<lambda>u. u < source_count index) us" using closure_add_sources_range [OF Inr] by (simp add: len)
    have ok1: "closure_ok index T c1" and R1: "retained_set c1 = retained_set c \<union> set us" and N1: "rc_nodes c1 = rc_nodes c"
      using closure_add_sources_ok [OF wf Cons.prems us] Inr by (metis sum.inject(2))+
    let ?c2 = "closure_add_reachable ns c1"
    have ok2: "closure_ok index (set ns \<union> T) ?c2" and R2: "retained_set ?c2 = retained_set c \<union> set us"
      and N2: "rc_nodes ?c2 = rc_nodes c \<union> set ns"
      using closure_add_reachable_ok [OF ok1, of ns] R1 N1 by simp_all
    note close = reachability_close_ok [OF wf ok2, of reachable newly, unfolded R2 N2]
    show ?thesis
    proof (cases "reachability_close index (?c2, reachable, newly)")
      case (Inl e)
      with close show ?thesis by (simp add: r Inr)
    next
      case done3: (Inr w)
      obtain c3 a3 l3 where w: "w = (c3, a3, l3)" by (cases w)
      from close [unfolded done3 w sum.case prod.case] have c3: "closure_ok index (set ns \<union> T) c3" "retained_set c3 = retained_set c \<union> set us"
        "\<not> gates_torn index (retained_set c \<union> set us) (set ns \<union> T)"
        "rc_nodes c3 = {n. node_reached index (retained_set c \<union> set us) (set ns \<union> T) n}"
        "records_nodes (rc_nodes c \<union> set ns, reachable, newly) (rc_nodes c3, a3, l3)" by blast+
      have step: "closure_session index (round # rounds) (c, reachable, newly) = closure_session index rounds (c3, a3, l3)"
        by (simp add: r Inr done3 w)
      have sound: "rounds_consistent (source_count index) (gates_torn index) (retained_set c) T (round # rounds)
          \<longleftrightarrow> rounds_consistent (source_count index) (gates_torn index) (retained_set c \<union> set us) (set ns \<union> T) rounds"
        using us c3(3) by (simp add: r)
      note IH = Cons.IH [OF c3(1), of a3 l3, unfolded c3(2)]
      show ?thesis
      proof (cases "closure_session index rounds (c3, a3, l3)")
        case (Inl e)
        with IH show ?thesis unfolding step sound by simp
      next
        case rest: (Inr w')
        obtain c' a' l' where w': "w' = (c', a', l')" by (cases w')
        from IH rest w' have t: "rounds_consistent (source_count index) (gates_torn index) (retained_set c \<union> set us) (set ns \<union> T) rounds"
          "if rounds = [] then True else rc_nodes c' = {n. node_reached index (retained_set c \<union> set us \<union> round_units rounds)
             (set ns \<union> T \<union> round_nodes rounds) n}"
          "records_nodes (rc_nodes c3 \<union> round_nodes rounds, a3, l3) (rc_nodes c' \<union> round_nodes rounds, a', l')" by simp_all
        have same: "rounds = [] \<Longrightarrow> c' = c3" using rest w' by simp
        have nodes: "rc_nodes c' = {n. node_reached index (retained_set c \<union> round_units (round # rounds)) (T \<union> round_nodes (round # rounds)) n}"
        proof (cases "rounds = []")
          case True
          then show ?thesis using same c3(4) by (simp add: r Un_commute)
        next
          case False
          then show ?thesis using t(2) by (simp add: r Un_ac)
        qed
        have "records_nodes (rc_nodes c \<union> set ns \<union> (set ns \<union> round_nodes rounds), reachable, newly)
            (rc_nodes c3 \<union> (set ns \<union> round_nodes rounds), a3, l3)"
          by (rule records_nodes_union [OF c3(5)])
        moreover have "records_nodes (rc_nodes c3 \<union> round_nodes rounds \<union> set ns, a3, l3)
            (rc_nodes c' \<union> round_nodes rounds \<union> set ns, a', l')"
          by (rule records_nodes_union [OF t(3)])
        moreover have "rc_nodes c \<union> set ns \<union> (set ns \<union> round_nodes rounds) = rc_nodes c \<union> round_nodes (round # rounds)"
          "rc_nodes c3 \<union> (set ns \<union> round_nodes rounds) = rc_nodes c3 \<union> round_nodes rounds \<union> set ns"
          "rc_nodes c' \<union> round_nodes rounds \<union> set ns = rc_nodes c' \<union> round_nodes (round # rounds)"
          by (auto simp: r)
        ultimately have "records_nodes (rc_nodes c \<union> round_nodes (round # rounds), reachable, newly)
            (rc_nodes c' \<union> round_nodes (round # rounds), a', l')"
          by (metis records_nodes_trans)
        then show ?thesis using t(1) nodes unfolding step sound rest w' by simp
      qed
    qed
  qed
qed

section \<open>When the index exists\<close>

definition range_indexable :: "source_inventory \<Rightarrow> site_owner_index \<Rightarrow> byte_range \<Rightarrow> bool" where
  "range_indexable source owner_index r \<longleftrightarrow>
     (case site_owners owner_index r of Inl _ \<Rightarrow> False | Inr found \<Rightarrow> valid_owners source found)"

definition edge_indexable :: "source_inventory \<Rightarrow> site_owner_index \<Rightarrow> expansion_node list \<Rightarrow> dependency_edge \<Rightarrow> bool" where
  "edge_indexable source owner_index xs edge \<longleftrightarrow>
     pred_option (\<lambda>x. x < length xs) (gated_expansion edge)
     \<and> (site_unconditional edge \<or> (\<forall>r \<in> site_ranges edge. range_indexable source owner_index r))"

lemma site_owners_error: "site_owners owner_index r = Inl e \<Longrightarrow> e = InvalidGraph"
  by (auto simp: site_owners_def Let_def split: if_splits option.splits)

lemma index_site_Inl:
  assumes "index_site source owner_index r (build, edge_sites) = Inl e"
  shows "e = InvalidGraph \<and> \<not> range_indexable source owner_index r"
proof (cases "ib_site_ids build r")
  case (Some s)
  with assms show ?thesis by (simp add: index_site_def)
next
  case None
  show ?thesis
  proof (cases "site_owners owner_index r")
    case (Inl e')
    with assms None site_owners_error [OF Inl] show ?thesis by (simp add: index_site_def range_indexable_def)
  next
    case (Inr found)
    have "sort_dedup found = [] \<longleftrightarrow> found = []" by (metis set_empty set_sort_dedup)
    then have bad: "sort_dedup found = [] \<or> list_ex (\<lambda>owner. unit_at (src_units source) owner = None) (sort_dedup found)
        \<longleftrightarrow> \<not> valid_owners source found"
      unfolding valid_owners_def list_ex_iff list_all_iff set_sort_dedup by metis
    show ?thesis
    proof (cases "valid_owners source found")
      case True
      with bad assms None Inr show ?thesis by (simp add: index_site_def Let_def)
    next
      case False
      with bad assms None Inr show ?thesis by (simp add: index_site_def range_indexable_def Let_def)
    qed
  qed
qed

lemma index_edge_sites_Inl:
  "fold_result (index_edge_site source owner_index) ss state = Inl e \<Longrightarrow>
     e = InvalidGraph \<and> (\<exists>r. SourceSite r \<in> set ss \<and> \<not> range_indexable source owner_index r)"
proof (induction ss arbitrary: state)
  case (Cons t ss)
  show ?case
  proof (cases "index_edge_site source owner_index t state")
    case (Inl e')
    with Cons.prems have "e' = e" by simp
    obtain build found where "state = (build, found)" by force
    with Inl \<open>e' = e\<close> show ?thesis
      by (auto simp: index_edge_site_def split: observation_site.splits dest: index_site_Inl)
  next
    case (Inr state1)
    with Cons.prems have "fold_result (index_edge_site source owner_index) ss state1 = Inl e" by simp
    from Cons.IH [OF this] show ?thesis by auto
  qed
qed simp

lemma conditional_has_ranges:
  assumes "\<not> site_unconditional edge"
  shows "site_ranges edge \<noteq> {}"
proof -
  from assms have "e_sites edge \<noteq> []" "\<forall>site \<in> set (e_sites edge). is_source_site site"
    by (auto simp: site_unconditional_def list_ex_iff)
  then obtain site where "site \<in> set (e_sites edge)" "is_source_site site" by (metis list.set_sel(1))
  then show ?thesis by (auto simp: site_ranges_def is_source_site_def split: observation_site.splits)
qed

lemma target_component_exact:
  assumes "components_exact xs assigned components"
  shows "target_component assigned edge \<noteq> None \<longleftrightarrow> gated_expansion edge \<noteq> None \<and> pred_option (\<lambda>x. x < length xs) (gated_expansion edge)"
proof (cases "gated_expansion edge")
  case (Some x)
  have len: "length assigned = length xs" and total: "None \<notin> set assigned" using assms by (simp_all add: components_exact_def)
  have "assigned ! x \<noteq> None" if "x < length xs" using total len that by (metis nth_mem)
  with Some len show ?thesis by (auto simp: target_component_def get_at_def)
qed (simp add: target_component_def)

lemma index_edge_indexable:
  assumes exact: "components_exact xs assigned components"
    and ok: "build_ok source owner_index assigned initial es build" and used: "\<not> edge_skipped delegated edge"
  shows "case index_edge source owner_index assigned delegated edge build of
      Inl e \<Rightarrow> e = InvalidGraph \<and> \<not> edge_indexable source owner_index xs edge
    | Inr build' \<Rightarrow> edge_indexable source owner_index xs edge"
proof -
  let ?sites = "if site_unconditional edge then Inr (build, [])
           else fold_result (index_edge_site source owner_index) (e_sites edge) (build, [])"
  note target = target_component_exact [OF exact, of edge]
  show ?thesis
  proof (cases ?sites)
    case (Inl e)
    then have "\<not> site_unconditional edge" "fold_result (index_edge_site source owner_index) (e_sites edge) (build, []) = Inl e"
      by (simp_all split: if_splits)
    moreover from index_edge_sites_Inl [OF this(2)] obtain r where "e = InvalidGraph" "r \<in> site_ranges edge"
      "\<not> range_indexable source owner_index r" by (auto simp: site_ranges_def)
    moreover have "index_edge source owner_index assigned delegated edge build = Inl e"
      using used Inl by (simp add: index_edge_def)
    ultimately show ?thesis by (auto simp: edge_indexable_def)
  next
    case (Inr w)
    obtain build1 found where w: "w = (build1, found)" by (cases w)
    have ranges: "site_unconditional edge \<or> (\<forall>r \<in> site_ranges edge. range_indexable source owner_index r)
        \<and> set found \<noteq> {}"
    proof (cases "site_unconditional edge")
      case False
      with Inr w have run: "fold_result (index_edge_site source owner_index) (e_sites edge) (build, []) = Inr (build1, found)" by simp
      have parts: "site_tables_ok source owner_index build" "site_edges_ok es build" using ok by (simp_all add: build_ok_def)
      from index_edge_sites_tables [OF run parts, of "{}"]
      have tables: "site_tables_ok source owner_index build1" and sub: "site_ranges edge \<subseteq> dom (ib_site_ids build1)"
        and ids: "set found = ids_of build1 (site_ranges edge)" by (simp_all add: ids_of_def site_ranges_def)
      have "range_indexable source owner_index r" if r: "r \<in> site_ranges edge" for r
      proof -
        obtain s where "ib_site_ids build1 r = Some s" using sub r by blast
        then have "site_indexed source owner_index r (ib_sites build1 ! s)" using tables unfolding site_tables_ok_def by blast
        then show ?thesis by (simp add: site_indexed_def range_indexable_def split: sum.splits)
      qed
      moreover have "set found \<noteq> {}" using conditional_has_ranges [OF False] sub ids by (auto simp: ids_of_def)
      ultimately show ?thesis by blast
    qed simp
    have empty: "sort_dedup found = [] \<longleftrightarrow> set found = {}" by (metis set_empty set_sort_dedup)
    let ?bad = "gated_expansion edge \<noteq> None \<and> target_component assigned edge = None"
    have bad: "?bad \<longleftrightarrow> \<not> pred_option (\<lambda>x. x < length xs) (gated_expansion edge)"
      using target by (cases "gated_expansion edge") (auto simp: target_component_def)
    have eq: "index_edge source owner_index assigned delegated edge build = Inl InvalidGraph" if ?bad
      using used that unfolding index_edge_def Inr w by (simp add: Let_def)
    have "\<exists>build'. index_edge source owner_index assigned delegated edge build = Inr build'" if "\<not> ?bad"
      using used that ranges empty unfolding index_edge_def Inr w by (auto simp: Let_def)
    with eq bad ranges show ?thesis by (cases ?bad) (auto simp: edge_indexable_def)
  qed
qed

lemma index_edges_indexable:
  assumes exact: "components_exact xs assigned components"
    and "build_ok source owner_index assigned components es build"
  shows "case fold_result (index_edge source owner_index assigned delegated) edges build of
      Inl e \<Rightarrow> e = InvalidGraph
        \<and> \<not> list_all (edge_indexable source owner_index xs) (filter (\<lambda>edge. \<not> edge_skipped delegated edge) edges)
    | Inr build' \<Rightarrow> list_all (edge_indexable source owner_index xs) (filter (\<lambda>edge. \<not> edge_skipped delegated edge) edges)"
  using assms(2)
proof (induction edges arbitrary: build es)
  case (Cons edge edges)
  show ?case
  proof (cases "edge_skipped delegated edge")
    case True
    then have "index_edge source owner_index assigned delegated edge build = Inr build" by (simp add: index_edge_def)
    then have eq: "fold_result (index_edge source owner_index assigned delegated) (edge # edges) build
        = fold_result (index_edge source owner_index assigned delegated) edges build"
      "filter (\<lambda>edge. \<not> edge_skipped delegated edge) (edge # edges) = filter (\<lambda>edge. \<not> edge_skipped delegated edge) edges"
      using True by simp_all
    show ?thesis unfolding eq by (rule Cons.IH [OF Cons.prems])
  next
    case False
    note step = index_edge_indexable [OF exact Cons.prems False]
    show ?thesis
    proof (cases "index_edge source owner_index assigned delegated edge build")
      case (Inl e)
      with step False show ?thesis by simp
    next
      case (Inr build1)
      from index_edge_ok [OF Inr Cons.prems components_exact_assigned [OF exact]] False
      have "build_ok source owner_index assigned components (es @ [edge]) build1" by simp
      from Cons.IH [OF this] step Inr False show ?thesis by (simp split: sum.splits)
    qed
  qed
qed simp

section \<open>The properties\<close>

definition reachability_indexable ::
  "source_inventory \<Rightarrow> site_owner_index \<Rightarrow> dependency_graph \<Rightarrow> expansion_id set \<Rightarrow> bool" where
  "reachability_indexable source owner_index graph delegated \<longleftrightarrow>
     expansions_indexable source (g_expansions graph)
     \<and> list_all (edge_indexable source owner_index (g_expansions graph)) (compiler_edges delegated graph)"

lemma start_build_ok:
  assumes "components_exact xs assigned components" and "list_all (parents_in_range xs) xs"
  shows "build_ok source owner_index assigned components []
    \<lparr>ib_edges = [], ib_by_from = Map.empty, ib_sites = [], ib_site_ids = Map.empty,
     ib_sites_by_source = replicate (length (src_units source)) [], ib_components = components\<rparr>"
proof -
  have "comp_target_edges (components ! c) = []" if "c < length components" for c
    using components_exact_bounds [OF assms that] by (metis component_lists_def)
  then show ?thesis
    by (simp add: build_ok_def from_ok_def site_tables_ok_def site_edges_ok_def targets_ok_def)
qed

lemma reachability_index_new_cases:
  "case reachability_index_new source owner_index graph delegated of
     Inl e \<Rightarrow> e = InvalidGraph \<and> \<not> reachability_indexable source owner_index graph delegated
   | Inr index \<Rightarrow> reachability_indexable source owner_index graph delegated"
proof (cases "expansion_components source graph")
  case (Inl e)
  with expansion_components_Inl [OF Inl] show ?thesis
    by (simp add: reachability_index_new_def reachability_indexable_def)
next
  case (Inr w)
  obtain assigned components where w: "w = (assigned, components)" by (cases w)
  note comps = expansion_components_Inr [OF Inr [unfolded w]]
  have range: "list_all (parents_in_range (g_expansions graph)) (g_expansions graph)"
    using comps(2) by (simp add: expansions_indexable_def)
  note edges = index_edges_indexable [OF comps(1) start_build_ok [OF comps(1) range],
      where source = source and owner_index = owner_index and delegated = delegated and edges = "g_edges graph"]
  let ?run = "fold_result (index_edge source owner_index assigned delegated) (g_edges graph)
    \<lparr>ib_edges = [], ib_by_from = Map.empty, ib_sites = [], ib_site_ids = Map.empty,
     ib_sites_by_source = replicate (length (src_units source)) [], ib_components = components\<rparr>"
  show ?thesis
  proof (cases ?run)
    case (Inl e)
    with edges Inr w show ?thesis
      by (simp add: reachability_index_new_def reachability_indexable_def compiler_edges_def)
  next
    case run: (Inr build)
    with edges have "list_all (edge_indexable source owner_index (g_expansions graph)) (compiler_edges delegated graph)"
      by (simp add: compiler_edges_def)
    with comps(2) have ok: "reachability_indexable source owner_index graph delegated"
      by (simp add: reachability_indexable_def)
    have "\<exists>index. reachability_index_new source owner_index graph delegated = Inr index"
      using Inr w run by (simp add: reachability_index_new_def Let_def)
    with ok show ?thesis by auto
  qed
qed

text \<open>
  C20.  The reachability index is built exactly if the expansions can be collapsed and every compiler
  edge has its target among the expansions and, where its sites gate it, only sites whose owners are
  units of the source; every refusal is \<open>InvalidGraph\<close>.
\<close>

theorem reachability_index_new_exact:
  "case reachability_index_new source owner_index graph delegated of
     Inl e \<Rightarrow> e = InvalidGraph \<and> \<not> reachability_indexable source owner_index graph delegated
   | Inr index \<Rightarrow> reachability_indexable source owner_index graph delegated"
  by (rule reachability_index_new_cases)

lemma closure_ok_initialized: "closure_ok index T (c\<lparr>rc_initialized := b\<rparr>) = closure_ok index T c"
proof -
  let ?c = "c\<lparr>rc_initialized := b\<rparr>"
  have R: "retained_set ?c = retained_set c" "survivor_set ?c = survivor_set c" by (simp_all add: retained_set_def survivor_set_def)
  have edges: "edge_settled index ?c i = edge_settled index c i" for i by (simp add: edge_settled_def)
  have "queue_ok ?c = queue_ok c" by (simp add: queue_ok_def)
  then have "nodes_part index T ?c = nodes_part index T c" by (simp add: nodes_part_def R edges)
  moreover have "sites_part index D ?c = sites_part index D c" for D by (simp add: sites_part_def R)
  moreover have "components_part index {} ?c = components_part index {} c" by (simp add: components_part_def R)
  ultimately show ?thesis by (simp add: closure_ok_def)
qed

text \<open>
  C3.  The closure of the compiler edges computes a least fixed point, and incrementally.  Seeded with
  nodes and retained units and then extended and closed in rounds, it refuses (with
  \<open>InvalidGraph\<close>) exactly when a round names a unit outside the source or lets a reached edge, whose
  target expansion survives, depend on source sites that are partly but never wholly retained.
  Otherwise it has reached exactly the least set of nodes that contains all seeds and is closed under
  the compiler edges whose target expansion survives with all its ancestors and one of whose sites is
  wholly retained, as if all nodes and units had been given at once; and it has told the caller each
  new node once.
\<close>

theorem reachability_closure_exact:
  assumes "reachability_index_new source owner_index graph delegated = Inr index"
  shows "let xs = g_expansions graph; es = compiler_edges delegated graph; all_rounds = (seeds, units) # rounds
    in case bind_result (reachability_seed index (set seeds) (set units) (reachability_closure_new index))
             (\<lambda>c. closure_session index (([], []) # rounds) (c, set seeds, [])) of
         Inl e \<Rightarrow> e = InvalidGraph
           \<and> \<not> rounds_consistent (length (src_units source)) (compiler_conflict owner_index xs es) {} {} all_rounds
       | Inr (c, reachable, newly) \<Rightarrow>
           rounds_consistent (length (src_units source)) (compiler_conflict owner_index xs es) {} {} all_rounds
           \<and> rc_nodes c = {n. compiler_reached owner_index xs es (round_units all_rounds) (round_nodes all_rounds) n}
           \<and> reachable \<union> round_nodes rounds = rc_nodes c
           \<and> set newly = reachable - set seeds \<and> distinct newly"
proof -
  let ?xs = "g_expansions graph" and ?es = "compiler_edges delegated graph" and ?n = "length (src_units source)"
  obtain assigned components where comps: "expansion_components source graph = Inr (assigned, components)"
    and wf: "index_wf index" and count: "source_count index = ?n"
    and means: "index_means owner_index assigned components ?es index"
    by (rule reachability_index_new_Inr [OF assms])
  note exact = expansion_components_Inr [OF comps]
  have range: "list_all (parents_in_range ?xs) ?xs" using exact(2) by (simp add: expansions_indexable_def)
  have torn: "gates_torn index = compiler_conflict owner_index ?xs ?es"
    by (intro ext gates_torn_iff [OF wf exact(1) range means])
  note reached = node_reached_iff [OF wf exact(1) range means]
  note new = closure_new_ok [OF wf]
  let ?c0 = "(reachability_closure_new index)\<lparr>rc_initialized := True\<rparr>"
  have R0: "retained_set ?c0 = {}" "rc_nodes ?c0 = {}" using new(2,3) by (simp_all add: retained_set_def)
  have ok0: "closure_ok index {} ?c0" using new(1) by (simp only: closure_ok_initialized)
  let ?us = "sorted_list_of_set (set units)" and ?ns = "sorted_list_of_set (set seeds)"
  have seed: "bind_result (reachability_seed index (set seeds) (set units) (reachability_closure_new index)) k
      = bind_result (closure_add_sources index ?us ?c0) (\<lambda>c. k (closure_add_reachable ?ns c))" for k
    using new(4) by (simp add: reachability_seed_def bind_result_def split: sum.split)
  show ?thesis
  proof (cases "closure_add_sources index ?us ?c0")
    case (Inl e)
    with closure_add_sources_refuses [OF Inl wf ok0] show ?thesis
      unfolding Let_def seed by (simp add: count list_all_iff)
  next
    case (Inr c1)
    have len: "length (rc_sources ?c0) = ?n" using ok0 count by (simp add: closure_ok_def sites_part_def)
    have us: "list_all (\<lambda>u. u < ?n) ?us" using closure_add_sources_range [OF Inr] by (simp only: len)
    obtain c1' where "closure_add_sources index ?us ?c0 = Inr c1'" "closure_ok index {} c1'"
      "retained_set c1' = retained_set ?c0 \<union> set ?us" "rc_nodes c1' = rc_nodes ?c0"
      by (rule closure_add_sources_ok [OF wf ok0 us [folded count]])
    with Inr R0 have ok1: "closure_ok index {} c1" and R1: "retained_set c1 = set units" and N1: "rc_nodes c1 = {}"
      by simp_all
    let ?c2 = "closure_add_reachable ?ns c1"
    have ok2: "closure_ok index (set seeds) ?c2" and R2: "retained_set ?c2 = set units" and N2: "rc_nodes ?c2 = set seeds"
      using closure_add_reachable_ok [OF ok1, of ?ns] R1 N1 by simp_all
    have units: "list_all (\<lambda>u. u < ?n) units" using us by (simp add: list_all_iff)
    let ?rounds = "([], []) # rounds"
    have consistent: "rounds_consistent (source_count index) (gates_torn index) (set units) (set seeds) ?rounds
        \<longleftrightarrow> rounds_consistent ?n (compiler_conflict owner_index ?xs ?es) {} {} ((seeds, units) # rounds)"
      using units by (simp add: count torn)
    have run: "bind_result (reachability_seed index (set seeds) (set units) (reachability_closure_new index))
          (\<lambda>c. closure_session index ?rounds (c, set seeds, []))
        = closure_session index ?rounds (?c2, set seeds, [])"
      unfolding seed Inr by simp
    note session = closure_session_ok [OF wf ok2, of ?rounds "set seeds" "[]", unfolded R2 N2 consistent]
    show ?thesis
    proof (cases "closure_session index ?rounds (?c2, set seeds, [])")
      case (Inl e)
      with session show ?thesis unfolding Let_def run by simp
    next
      case ended: (Inr w)
      obtain c reachable newly where w: "w = (c, reachable, newly)" by (cases w)
      have some: "(?rounds = []) = False" by simp
      from session [unfolded ended w sum.case prod.case some if_False]
      have ok: "rounds_consistent ?n (compiler_conflict owner_index ?xs ?es) {} {} ((seeds, units) # rounds)"
        and nodes: "rc_nodes c = {n. node_reached index (set units \<union> round_units ?rounds) (set seeds \<union> round_nodes ?rounds) n}"
        and told: "records_nodes (set seeds \<union> round_nodes ?rounds, set seeds, []) (rc_nodes c \<union> round_nodes ?rounds, reachable, newly)"
        by blast+
      have exact_nodes: "rc_nodes c = {n. compiler_reached owner_index ?xs ?es
          (round_units ((seeds, units) # rounds)) (round_nodes ((seeds, units) # rounds)) n}"
        using nodes reached by simp
      have inside: "set seeds \<union> round_nodes rounds \<subseteq> rc_nodes c"
        unfolding exact_nodes by (auto intro: reached_seed)
      from told obtain X where X: "rc_nodes c \<union> round_nodes rounds = set seeds \<union> round_nodes rounds \<union> X"
        "reachable = set seeds \<union> X" "distinct newly" "set newly = X - set seeds"
        unfolding records_nodes_def round_sets by auto
      then have "reachable \<union> round_nodes rounds = rc_nodes c" "set newly = reachable - set seeds" using inside by auto
      with ok exact_nodes X(3) show ?thesis unfolding Let_def run ended w by simp
    qed
  qed
qed

definition sample_reach_edge :: dependency_edge where
  "sample_reach_edge =
     \<lparr>e_from = NodeDefinition 0, e_to = NodeDefinition 1, e_kind = GeneratedBy,
      e_sites = [SourceSite (ByteRange 3 4)], e_evidence = EvidenceCompiler\<rparr>"

definition sample_reach_graph :: dependency_graph where
  "sample_reach_graph =
     \<lparr>g_definitions = sample_definitions, g_expansions = [], g_proofs = [], g_mono = [],
      g_edges = [sample_reach_edge], g_roots = []\<rparr>"

lemma sample_reach_owners:
  assumes "site_owner_index_new sample_site_source = Inr owner_index"
  shows "site_owners owner_index (ByteRange 3 4) = Inr [0]"
proof -
  have "well_bounded sample_site_source"
    by (auto simp: well_bounded_def sample_site_source_def sample_units_def less_Suc_eq numeral_2_eq_2)
  moreover have "all_rooted (src_units sample_site_source)" using sample_units_rooted by (simp add: sample_site_source_def)
  ultimately show ?thesis
    using site_owners_units [OF assms, of "ByteRange 3 4"]
    by (auto simp: sample_site_source_def u32_max_def units_around_def innermost_units_def Let_def
        sample_units_def range_contains_def)
qed

lemma sample_reach_edges: "compiler_edges {} sample_reach_graph = [sample_reach_edge]"
  by (simp add: compiler_edges_def sample_reach_graph_def edge_skipped_def is_compiler_dependency_def sample_reach_edge_def)

lemma sample_reach_index:
  assumes "site_owner_index_new sample_site_source = Inr owner_index"
  shows "\<exists>index. reachability_index_new sample_site_source owner_index sample_reach_graph {} = Inr index"
proof -
  have "range_indexable sample_site_source owner_index (ByteRange 3 4)"
    using sample_reach_owners [OF assms]
    by (simp add: range_indexable_def valid_owners_def sample_site_source_def sample_units_def)
  then have "reachability_indexable sample_site_source owner_index sample_reach_graph {}"
    unfolding reachability_indexable_def sample_reach_edges
    by (simp add: expansions_indexable_def sample_reach_graph_def dense_by_def edge_indexable_def
        gated_expansion_def site_ranges_def sample_reach_edge_def)
  with reachability_index_new_cases [of sample_site_source owner_index sample_reach_graph "{}"] show ?thesis
    by (cases "reachability_index_new sample_site_source owner_index sample_reach_graph {}") auto
qed

theorem reachability_closure_exact_witness:
  "\<exists>owner_index index. reachability_index_new sample_site_source owner_index sample_reach_graph {} = Inr index
     \<and> (case bind_result (reachability_seed index (set [NodeDefinition 0]) (set []) (reachability_closure_new index))
              (\<lambda>c. closure_session index (([], []) # [([], [0])]) (c, set [NodeDefinition 0], [])) of
          Inl e \<Rightarrow> False
        | Inr (c, reachable, newly) \<Rightarrow> NodeDefinition 1 \<in> rc_nodes c)"
proof -
  obtain owner_index where o: "site_owner_index_new sample_site_source = Inr owner_index"
    using sample_site_index by blast
  obtain index where i: "reachability_index_new sample_site_source owner_index sample_reach_graph {} = Inr index"
    using sample_reach_index [OF o] by blast
  let ?xs = "g_expansions sample_reach_graph"
  have sets: "site_owner_sets owner_index sample_reach_edge = {{0}}"
    using sample_reach_owners [OF o] by (auto simp: site_owner_sets_def site_ranges_def sample_reach_edge_def)
  have "\<not> site_unconditional sample_reach_edge"
    by (simp add: site_unconditional_def sample_reach_edge_def comes_from_definition_def is_source_site_def)
  then have opens: "gate_open owner_index R sample_reach_edge \<longleftrightarrow> 0 \<in> R"
    and torn: "\<not> gate_torn owner_index R sample_reach_edge" for R
    by (auto simp: gate_open_def gate_torn_def sets)
  have "compiler_reached owner_index ?xs [sample_reach_edge] {0} {NodeDefinition 0} (e_to sample_reach_edge)"
  proof (rule reached_edge)
    show "gate_open owner_index {0} sample_reach_edge" by (simp add: opens)
    show "target_survives ?xs {0} sample_reach_edge"
      by (simp add: target_survives_def gated_expansion_def sample_reach_edge_def)
    show "compiler_reached owner_index ?xs [sample_reach_edge] {0} {NodeDefinition 0} (e_from sample_reach_edge)"
      by (rule reached_seed) (simp add: sample_reach_edge_def)
  qed simp
  then have reached: "compiler_reached owner_index ?xs [sample_reach_edge] {0} {NodeDefinition 0} (NodeDefinition 1)"
    by (simp add: sample_reach_edge_def)
  have "rounds_consistent (length (src_units sample_site_source)) (compiler_conflict owner_index ?xs [sample_reach_edge]) {} {}
      (([NodeDefinition 0], []) # [([], [0])])"
    by (simp add: compiler_conflict_def torn sample_site_source_def sample_units_def)
  with reachability_closure_exact [OF i, of "[NodeDefinition 0]" "[]" "[([], [0])]"] reached i show ?thesis
    unfolding Let_def sample_reach_edges
    by (intro exI [of _ owner_index] exI [of _ index] conjI) (auto simp: round_nodes_def round_units_def split: sum.splits)
qed

end
