(* ===== verification/Choice_Ranks.thy ===== *)
theory Choice_Ranks
  imports Graph_Data Source_Closure "HOL-Library.Char_ord"
begin

text \<open>
  The ranks by which \<open>src/retention.rs\<close> chooses between definitions or crate-load carriers
  (\<open>definition_choice_rank\<close>, \<open>compiler_crate_load_carrier_rank\<close>): the size and the ranges of the
  source behind a choice, then its key.  A definition that a macro produced stands for the
  contributors of its materialization group (\<open>src/retention/macro_products.rs\<close>); their ranks are
  cached per contributor class.
\<close>

section \<open>The order of definition keys\<close>

text \<open>The derived order of \<open>DefinitionKey\<close>, as the order of an injective code.\<close>

definition generated_role_order :: "generated_role list" where
  "generated_role_order = [GenAnonymousAssociatedType, GenAnonymousConst, GenCoroutine, GenCoroutineBody,
     GenCoroutineClosure, GenElidedLifetime, GenNestedStatic, GenOpaqueLifetime, GenOpaqueType]"

definition injected_role_order :: "injected_role list" where
  "injected_role_order = [InjectedExternCrate, InjectedPreludeImport]"

type_synonym origin_code = "nat \<times> byte_range \<times> nat option"

fun origin_key_code :: "definition_origin_key \<Rightarrow> origin_code" where
  "origin_key_code (KeyWritten anchor kind) = (0, anchor, Some (written_unit_kind_rank kind))"
| "origin_key_code (KeyExpanded invocation role) = (1, invocation, map_option (position_of generated_role_order) role)"
| "origin_key_code (KeyCompilerGenerated role) = (2, ByteRange 0 0, Some (position_of generated_role_order role))"
| "origin_key_code (KeyInjected role) = (3, ByteRange 0 0, Some (position_of injected_role_order role))"

type_synonym key_code = "(definition_kind \<times> origin_code \<times> string option \<times> nat) list"

definition definition_key_code :: "definition_key \<Rightarrow> key_code" where
  "definition_key_code =
     map (\<lambda>part. (part_kind part, origin_key_code (part_origin part), part_name part, part_ordinal part))"

lemma generated_role_order_inj [simp]:
  "position_of generated_role_order r = position_of generated_role_order s \<longleftrightarrow> r = s"
proof (rule position_of_inj)
  have "r \<in> set generated_role_order" for r by (cases r) (simp_all add: generated_role_order_def)
  then show "set generated_role_order = UNIV" by auto
qed

lemma injected_role_order_inj [simp]:
  "position_of injected_role_order r = position_of injected_role_order s \<longleftrightarrow> r = s"
proof (rule position_of_inj)
  have "r \<in> set injected_role_order" for r by (cases r) (simp_all add: injected_role_order_def)
  then show "set injected_role_order = UNIV" by auto
qed

lemma origin_key_code_inj: "origin_key_code j = origin_key_code k \<longleftrightarrow> j = k"
proof (cases j; cases k)
  fix r s i l
  assume "j = KeyExpanded i r" "k = KeyExpanded l s"
  then show ?thesis by (cases r; cases s) auto
qed auto

lemma definition_key_code_inj: "definition_key_code j = definition_key_code k \<longleftrightarrow> j = k"
proof -
  have "inj (\<lambda>part :: definition_key_part. (part_kind part, origin_key_code (part_origin part), part_name part, part_ordinal part))"
  proof (rule injI)
    fix p q :: definition_key_part
    assume "(part_kind p, origin_key_code (part_origin p), part_name p, part_ordinal p)
      = (part_kind q, origin_key_code (part_origin q), part_name q, part_ordinal q)"
    then show "p = q" by (cases p; cases q) (simp add: origin_key_code_inj)
  qed
  then show ?thesis by (simp add: definition_key_code_def inj_map_eq_map)
qed

section \<open>Contributors\<close>

text \<open>The parts of \<open>ValidatedMacroProducts\<close> and of its contributor index that the ranks read.\<close>

record macro_products =
  mp_product_groups :: "graph_node \<rightharpoonup> nat"
  mp_class_by_group :: "nat list"
  mp_class_roots :: "nat list list"
  mp_node_indices :: "nat \<rightharpoonup> nat"
  mp_local_sources :: "source_unit_id list list"
  mp_parents :: "nat list list"

text \<open>The top of the stack comes first.  The index only holds positions, so the test of the bounds
  never fails.\<close>

function contributor_loop ::
  "macro_products \<Rightarrow> nat set \<Rightarrow> nat list \<Rightarrow> source_unit_id set \<Rightarrow> source_unit_id set" where
  "contributor_loop products seen [] sources = sources"
| "contributor_loop products seen (node # pending) sources =
     (if node \<in> seen \<or> node \<ge> length (mp_parents products)
      then contributor_loop products seen pending sources
      else contributor_loop products (insert node seen) (rev (mp_parents products ! node) @ pending)
             (sources \<union> set (mp_local_sources products ! node)))"
  by pat_completeness auto
termination
proof (relation "measures [\<lambda>(products, seen, pending, sources). card ({..<length (mp_parents products)} - seen),
    \<lambda>(products, seen, pending, sources). length pending]", goal_cases)
  case 1
  show ?case by (rule wf_measures)
next
  case (2 products seen node pending sources)
  show ?case unfolding in_measures prod.case by simp
next
  case (3 products seen node pending sources)
  then have "node < length (mp_parents products)" "node \<notin> seen" by (simp_all add: not_le)
  then have "{..<length (mp_parents products)} - insert node seen \<subset> {..<length (mp_parents products)} - seen"
    by blast
  then have "card ({..<length (mp_parents products)} - insert node seen) < card ({..<length (mp_parents products)} - seen)"
    by (rule psubset_card_mono [rotated]) simp
  then show ?case unfolding in_measures prod.case by simp
qed

definition contributor_sources_for_class :: "macro_products \<Rightarrow> nat \<Rightarrow> retention_error + source_unit_id list" where
  "contributor_sources_for_class products contributor_class =
     bind_result (ok_or (get_at (mp_class_roots products) contributor_class) InvalidConstraint) (\<lambda>roots.
     bind_result (map_result (\<lambda>root. ok_or (mp_node_indices products root) InvalidConstraint) roots) (\<lambda>start.
       let sources = contributor_loop products {} (rev start) {}
       in if sources = {} then Inl InvalidConstraint else Inr (sorted_list_of_set sources)))"

section \<open>Ranks\<close>

type_synonym group_rank = "nat \<times> byte_range list"
type_synonym rank_cache = "group_rank option list"
type_synonym choice_rank = "nat \<times> byte_range list \<times> key_code"

definition unit_range :: "source_inventory \<Rightarrow> source_unit_id \<Rightarrow> retention_error + byte_range" where
  "unit_range source unit = ok_or (map_option full_range (unit_at (src_units source) unit)) InvalidConstraint"

definition total_len :: "byte_range list \<Rightarrow> retention_error + nat" where
  "total_len ranges =
     fold_result (\<lambda>r size. ok_or (checked_add_u64 size (range_len r)) InvalidConstraint) ranges 0"

definition class_rank :: "source_inventory \<Rightarrow> macro_products \<Rightarrow> nat \<Rightarrow> retention_error + group_rank" where
  "class_rank source products contributor_class =
     bind_result (contributor_sources_for_class products contributor_class) (\<lambda>units.
     bind_result (map_result (unit_range source) units) (\<lambda>found.
       let ranges = sort found
       in bind_result (total_len ranges) (\<lambda>size. Inr (size, ranges))))"

definition cached_class_rank ::
  "source_inventory \<Rightarrow> macro_products \<Rightarrow> nat \<Rightarrow> rank_cache \<Rightarrow> retention_error + group_rank \<times> rank_cache" where
  "cached_class_rank source products contributor_class cache =
     (case get_at cache contributor_class of
        Some (Some rank) \<Rightarrow> Inr (rank, cache)
      | _ \<Rightarrow>
          bind_result (class_rank source products contributor_class) (\<lambda>rank.
            let resized = cache @ replicate (Suc contributor_class - length cache) None
            in Inr (rank, resized[contributor_class := Some rank])))"

definition definition_choice_rank ::
  "source_inventory \<Rightarrow> dependency_graph \<Rightarrow> source_unit_id option list \<Rightarrow> macro_products \<Rightarrow> definition_id
     \<Rightarrow> rank_cache \<Rightarrow> retention_error + choice_rank \<times> rank_cache" where
  "definition_choice_rank source graph singletons products choice cache =
     (case get_at (dg_definitions (g_definitions graph)) choice of
        None \<Rightarrow> Inl InvalidConstraint
      | Some found \<Rightarrow>
          if def_id found \<noteq> choice then Inl InvalidConstraint
          else
            let group = mp_product_groups products (NodeDefinition choice);
                singleton = (case get_at singletons choice of None \<Rightarrow> None | Some s \<Rightarrow> s)
            in bind_result
              (case (group, singleton) of
                 (Some g, None) \<Rightarrow>
                   bind_result (ok_or (get_at (mp_class_by_group products) g) InvalidConstraint)
                     (\<lambda>contributor_class. cached_class_rank source products contributor_class cache)
               | (None, Some unit) \<Rightarrow>
                   bind_result (unit_range source unit) (\<lambda>r. Inr ((range_len r, [r]), cache))
               | _ \<Rightarrow> Inl InvalidConstraint)
              (\<lambda>((size, ranges), cache). Inr ((size, ranges, definition_key_code (def_key found)), cache)))"

datatype crate_load_carrier = CarrierDefinition definition_id | CarrierSource source_unit_id

fun carrier_code :: "crate_load_carrier \<Rightarrow> nat \<times> nat" where
  "carrier_code (CarrierDefinition i) = (0, i)"
| "carrier_code (CarrierSource u) = (1, u)"

type_synonym carrier_rank = "nat \<times> byte_range list \<times> key_code option \<times> nat \<times> nat"

definition compiler_crate_load_carrier_rank ::
  "source_inventory \<Rightarrow> dependency_graph \<Rightarrow> source_unit_id option list \<Rightarrow> macro_products \<Rightarrow> crate_load_carrier
     \<Rightarrow> rank_cache \<Rightarrow> retention_error + carrier_rank \<times> rank_cache" where
  "compiler_crate_load_carrier_rank source graph singletons products carrier cache =
     (case carrier of
        CarrierDefinition choice \<Rightarrow>
          bind_result (definition_choice_rank source graph singletons products choice cache)
            (\<lambda>((size, ranges, key), cache). Inr ((size, ranges, Some key, carrier_code carrier), cache))
      | CarrierSource unit \<Rightarrow>
          bind_result (unit_range source unit) (\<lambda>r. Inr ((range_len r, [r], None, carrier_code carrier), cache)))"

text \<open>Ranking all choices of a disjunction and taking the first of the least ones: a stable sort by
  the ranks, then the first.\<close>

definition rank_choices ::
  "('c \<Rightarrow> rank_cache \<Rightarrow> retention_error + 'r \<times> rank_cache) \<Rightarrow> 'c list \<Rightarrow> rank_cache
     \<Rightarrow> retention_error + ('r \<times> 'c) list \<times> rank_cache" where
  "rank_choices rank choices cache =
     fold_result (\<lambda>choice (ranked, cache).
       bind_result (rank choice cache) (\<lambda>(r, cache). Inr (ranked @ [(r, choice)], cache))) choices ([], cache)"

definition select_ranked ::
  "('c \<Rightarrow> rank_cache \<Rightarrow> retention_error + ('r::linorder) \<times> rank_cache) \<Rightarrow> 'c list \<Rightarrow> rank_cache
     \<Rightarrow> retention_error + 'c \<times> rank_cache" where
  "select_ranked rank choices cache =
     bind_result (rank_choices rank choices cache) (\<lambda>(ranked, cache).
       case sort_key fst ranked of [] \<Rightarrow> Inl InvalidConstraint | (_, choice) # _ \<Rightarrow> Inr (choice, cache))"

section \<open>The contributors of a class\<close>

definition parent_step :: "macro_products \<Rightarrow> (nat \<times> nat) set" where
  "parent_step products = {(a, b). a < length (mp_parents products) \<and> b \<in> set (mp_parents products ! a)}"

definition nodes_above :: "macro_products \<Rightarrow> nat set \<Rightarrow> nat set" where
  "nodes_above products S = {n. n < length (mp_parents products) \<and> (\<exists>s \<in> S. (s, n) \<in> (parent_step products)\<^sup>*)}"

definition sources_of_nodes :: "macro_products \<Rightarrow> nat set \<Rightarrow> source_unit_id set" where
  "sources_of_nodes products N = (\<Union>n \<in> N. set (mp_local_sources products ! n))"

lemma nodes_above_step:
  "nodes_above products (insert node S \<union> set (mp_parents products ! node)) = nodes_above products (insert node S)"
  if "node < length (mp_parents products)"
proof
  show "nodes_above products (insert node S) \<subseteq> nodes_above products (insert node S \<union> set (mp_parents products ! node))"
    by (auto simp: nodes_above_def)
  have "(node, n) \<in> (parent_step products)\<^sup>*"
    if "p \<in> set (mp_parents products ! node)" "(p, n) \<in> (parent_step products)\<^sup>*" for p n
  proof -
    have "(node, p) \<in> parent_step products"
      using that(1) \<open>node < length (mp_parents products)\<close> by (simp add: parent_step_def)
    with that(2) show ?thesis by (rule converse_rtrancl_into_rtrancl [rotated])
  qed
  then show "nodes_above products (insert node S \<union> set (mp_parents products ! node)) \<subseteq> nodes_above products (insert node S)"
    by (auto simp: nodes_above_def)
qed

text \<open>The nodes the search has seen lead to seen or waiting nodes.\<close>

definition search_closed :: "macro_products \<Rightarrow> nat set \<Rightarrow> nat list \<Rightarrow> bool" where
  "search_closed products seen pending \<longleftrightarrow>
     seen \<subseteq> {..<length (mp_parents products)}
     \<and> (\<forall>n \<in> seen. \<forall>p \<in> set (mp_parents products ! n). p \<in> seen \<union> set pending \<or> p \<ge> length (mp_parents products))"

lemma nodes_above_closed: "search_closed products seen [] \<Longrightarrow> nodes_above products seen = seen"
proof -
  assume closed: "search_closed products seen []"
  have "n < length (mp_parents products) \<longrightarrow> n \<in> seen"
    if "(s, n) \<in> (parent_step products)\<^sup>*" "s \<in> seen" for s n
    using that
  proof (induction rule: rtrancl_induct)
    case (step m n)
    from step.hyps(2) have "m < length (mp_parents products)" "n \<in> set (mp_parents products ! m)"
      by (simp_all add: parent_step_def)
    with step closed show ?case by (fastforce simp: search_closed_def)
  qed simp
  with closed show ?thesis by (auto simp: nodes_above_def search_closed_def)
qed

lemma nodes_above_out: "node \<ge> length (mp_parents products) \<Longrightarrow> nodes_above products (insert node S) = nodes_above products S"
proof -
  assume out: "node \<ge> length (mp_parents products)"
  have "n = node" if "(node, n) \<in> (parent_step products)\<^sup>*" for n
    using that out by (cases rule: converse_rtranclE) (auto simp: parent_step_def)
  with out show ?thesis by (fastforce simp: nodes_above_def)
qed

lemma contributor_loop_exact:
  "search_closed products seen pending \<Longrightarrow> sources = sources_of_nodes products seen \<Longrightarrow>
     contributor_loop products seen pending sources
       = sources_of_nodes products (nodes_above products (seen \<union> set pending))"
proof (induction products seen pending sources rule: contributor_loop.induct)
  case (1 products seen sources)
  then show ?case by (simp add: nodes_above_closed)
next
  case (2 products seen node pending sources)
  show ?case
  proof (cases "node \<in> seen \<or> node \<ge> length (mp_parents products)")
    case True
    have "search_closed products seen pending"
      using 2(3) True by (fastforce simp: search_closed_def)
    from 2(1) [OF True this 2(4)] True
    have "contributor_loop products seen (node # pending) sources
        = sources_of_nodes products (nodes_above products (seen \<union> set pending))" by simp
    moreover have "nodes_above products (seen \<union> set (node # pending)) = nodes_above products (seen \<union> set pending)"
      using True nodes_above_out [of products node "seen \<union> set pending"] by (auto simp: insert_absorb)
    ultimately show ?thesis by simp
  next
    case False
    then have node: "node < length (mp_parents products)" by simp
    let ?pending = "rev (mp_parents products ! node) @ pending"
    have "search_closed products (insert node seen) ?pending"
      using 2(3) node by (fastforce simp: search_closed_def)
    moreover have "sources \<union> set (mp_local_sources products ! node) = sources_of_nodes products (insert node seen)"
      using 2(4) by (auto simp: sources_of_nodes_def)
    ultimately have "contributor_loop products seen (node # pending) sources
        = sources_of_nodes products (nodes_above products (insert node seen \<union> set ?pending))"
      using 2(2) [OF False] False by simp
    moreover have "insert node seen \<union> set ?pending
        = insert node (seen \<union> set pending) \<union> set (mp_parents products ! node)" by auto
    moreover have "seen \<union> set (node # pending) = insert node (seen \<union> set pending)" by auto
    ultimately show ?thesis using nodes_above_step [OF node, of "seen \<union> set pending"] by metis
  qed
qed

definition class_nodes :: "macro_products \<Rightarrow> nat \<Rightarrow> nat set option" where
  "class_nodes products contributor_class =
     (case get_at (mp_class_roots products) contributor_class of
        None \<Rightarrow> None
      | Some roots \<Rightarrow>
          if list_all (\<lambda>root. mp_node_indices products root \<noteq> None) roots
          then Some (nodes_above products {n. Some n \<in> mp_node_indices products ` set roots}) else None)"

lemma map_result_lookup:
  "map_result (\<lambda>k. ok_or (m k) e) ks =
     (if list_all (\<lambda>k. m k \<noteq> None) ks then Inr (map (\<lambda>k. the (m k)) ks) else Inl e)"
  by (induction ks) (auto simp: ok_or_def bind_result_def split: option.splits)

text \<open>The contributors of a class are the sources of all nodes its roots inherit from.\<close>

lemma contributor_sources_for_class_exact:
  "contributor_sources_for_class products contributor_class =
     (case class_nodes products contributor_class of
        None \<Rightarrow> Inl InvalidConstraint
      | Some N \<Rightarrow>
          if sources_of_nodes products N = {} then Inl InvalidConstraint
          else Inr (sorted_list_of_set (sources_of_nodes products N)))"
proof (cases "get_at (mp_class_roots products) contributor_class")
  case None
  then show ?thesis unfolding contributor_sources_for_class_def class_nodes_def None by simp
next
  case (Some roots)
  show ?thesis
  proof (cases "list_all (\<lambda>root. mp_node_indices products root \<noteq> None) roots")
    case False
    then show ?thesis
      unfolding contributor_sources_for_class_def class_nodes_def Some map_result_lookup by simp
  next
    case True
    let ?start = "map (\<lambda>root. the (mp_node_indices products root)) roots"
    have "set (rev ?start) = {n. Some n \<in> mp_node_indices products ` set roots}"
      using True by (force simp: list_all_iff)
    moreover have "contributor_loop products {} (rev ?start) {} = sources_of_nodes products (nodes_above products ({} \<union> set (rev ?start)))"
      by (rule contributor_loop_exact) (simp_all add: search_closed_def sources_of_nodes_def)
    ultimately have "contributor_loop products {} (rev ?start) {}
        = sources_of_nodes products (nodes_above products {n. Some n \<in> mp_node_indices products ` set roots})" by simp
    with True show ?thesis
      unfolding contributor_sources_for_class_def class_nodes_def Some map_result_lookup Let_def by simp
  qed
qed

section \<open>Caching does not change a rank\<close>

definition cache_valid :: "source_inventory \<Rightarrow> macro_products \<Rightarrow> rank_cache \<Rightarrow> bool" where
  "cache_valid source products cache \<longleftrightarrow>
     (\<forall>k rank. get_at cache k = Some (Some rank) \<longrightarrow> class_rank source products k = Inr rank)"

lemma cache_valid_Nil: "cache_valid source products []"
  by (simp add: cache_valid_def)

text \<open>A choice of least rank among choices that all have one.\<close>

definition least_ranked :: "('c \<Rightarrow> retention_error + 'r::linorder) \<Rightarrow> 'c list \<Rightarrow> 'c \<Rightarrow> bool" where
  "least_ranked plain choices c \<longleftrightarrow>
     c \<in> set choices \<and> (\<exists>r. plain c = Inr r \<and> (\<forall>d \<in> set choices. \<exists>q. plain d = Inr q \<and> r \<le> q))"

text \<open>A ranking with a cache agrees with a plain ranking.\<close>

locale cached_ranking =
  fixes rank :: "'c \<Rightarrow> rank_cache \<Rightarrow> retention_error + ('r::linorder) \<times> rank_cache"
    and plain :: "'c \<Rightarrow> retention_error + 'r"
    and valid :: "rank_cache \<Rightarrow> bool"
  assumes refuses: "valid cache \<Longrightarrow> rank choice cache = Inl e \<Longrightarrow> plain choice = Inl InvalidConstraint \<and> e = InvalidConstraint"
    and ranks: "valid cache \<Longrightarrow> rank choice cache = Inr (r, cache') \<Longrightarrow> plain choice = Inr r \<and> valid cache'"
begin

lemma rank_choices_from:
  assumes "valid cache"
  shows "case fold_result (\<lambda>choice (ranked, cache).
       bind_result (rank choice cache) (\<lambda>(r, cache). Inr (ranked @ [(r, choice)], cache))) choices (ranked, cache) of
     Inl e \<Rightarrow> e = InvalidConstraint \<and> (\<exists>c \<in> set choices. plain c = Inl InvalidConstraint)
   | Inr (ranked', cache') \<Rightarrow> valid cache'
       \<and> (\<exists>rs. ranked' = ranked @ zip rs choices \<and> map plain choices = map Inr rs)"
  using assms
proof (induction choices arbitrary: ranked cache)
  case Nil
  then show ?case by simp
next
  case (Cons choice choices)
  show ?case
  proof (cases "rank choice cache")
    case (Inl e)
    with refuses [OF Cons.prems Inl] show ?thesis by simp
  next
    case (Inr w)
    then obtain r cache' where w: "rank choice cache = Inr (r, cache')" by (cases w) auto
    from ranks [OF Cons.prems w] have plain: "plain choice = Inr r" and valid: "valid cache'" by simp_all
    let ?run = "fold_result (\<lambda>choice (ranked, cache). bind_result (rank choice cache)
      (\<lambda>(r, cache). Inr (ranked @ [(r, choice)], cache))) choices (ranked @ [(r, choice)], cache')"
    note IH = Cons.IH [OF valid, of "ranked @ [(r, choice)]"]
    show ?thesis
    proof (cases ?run)
      case (Inl e)
      with IH w show ?thesis by auto
    next
      case (Inr u)
      obtain ranked' cache'' where u: "u = (ranked', cache'')" by (cases u)
      from IH obtain rs where "ranked' = ranked @ (r, choice) # zip rs choices" "map plain choices = map Inr rs" "valid cache''"
        by (auto simp: Inr u)
      with plain have "ranked' = ranked @ zip (r # rs) (choice # choices)"
        "map plain (choice # choices) = map Inr (r # rs)" "valid cache''" by simp_all
      then have "valid cache'' \<and> (\<exists>rs. ranked' = ranked @ zip rs (choice # choices) \<and> map plain (choice # choices) = map Inr rs)"
        by blast
      then show ?thesis by (simp add: w Inr u)
    qed
  qed
qed

lemma select_ranked_exact:
  assumes "valid cache"
  shows "case select_ranked rank choices cache of
     Inl e \<Rightarrow> e = InvalidConstraint \<and> (choices = [] \<or> (\<exists>c \<in> set choices. plain c = Inl InvalidConstraint))
   | Inr (c, cache') \<Rightarrow> valid cache' \<and> least_ranked plain choices c"
proof (cases "rank_choices rank choices cache")
  case (Inl e)
  with rank_choices_from [OF assms, of choices "[]"] show ?thesis
    by (simp add: select_ranked_def rank_choices_def)
next
  case (Inr w)
  obtain ranked cache' where w: "w = (ranked, cache')" by (cases w)
  from rank_choices_from [OF assms, of choices "[]"] Inr w
  obtain rs where rs: "ranked = zip rs choices" "map plain choices = map Inr rs" and valid: "valid cache'"
    by (auto simp: rank_choices_def)
  have len: "length rs = length choices" using arg_cong [OF rs(2), of length] by simp
  show ?thesis
  proof (cases "sort_key fst ranked")
    case Nil
    then have "ranked = []" by (metis length_0_conv length_sort)
    with len rs(1) have "choices = []" by (auto simp: zip_eq_Nil_iff)
    then show ?thesis unfolding select_ranked_def Inr w bind_result_Inr prod.case Nil by simp
  next
    case (Cons first rest)
    obtain r c where first: "first = (r, c)" by (cases first)
    have "sorted (map fst (first # rest))" using sorted_sort_key [of fst ranked] by (simp add: Cons)
    then have least: "\<forall>x \<in> set (first # rest). r \<le> fst x" by (auto simp: first)
    have members: "set (first # rest) = set ranked" by (metis Cons set_sort)
    have pairs: "plain d = Inr q" if "(q, d) \<in> set ranked" for q d
    proof -
      from that rs(1) obtain i where "i < length choices" "q = rs ! i" "d = choices ! i" by (auto simp: set_zip)
      with arg_cong [OF rs(2), of "\<lambda>l. l ! i"] len show ?thesis by simp
    qed
    have "(r, c) \<in> set ranked" using members first by auto
    moreover have "\<exists>q. plain d = Inr q \<and> r \<le> q" if "d \<in> set choices" for d
    proof -
      from that len rs(1) obtain q where "(q, d) \<in> set ranked"
        by (metis in_set_impl_in_set_zip2)
      with pairs least members show ?thesis by (metis fst_conv)
    qed
    ultimately have "least_ranked plain choices c"
      using pairs rs(1) by (auto simp: least_ranked_def dest: set_zip_rightD)
    with valid show ?thesis unfolding select_ranked_def Inr w bind_result_Inr prod.case Cons first by simp
  qed
qed

end

text \<open>The ranks without a cache.\<close>

definition plain_choice_rank ::
  "source_inventory \<Rightarrow> dependency_graph \<Rightarrow> source_unit_id option list \<Rightarrow> macro_products \<Rightarrow> definition_id
     \<Rightarrow> retention_error + choice_rank" where
  "plain_choice_rank source graph singletons products choice =
     map_sum id fst (definition_choice_rank source graph singletons products choice [])"

definition plain_carrier_rank ::
  "source_inventory \<Rightarrow> dependency_graph \<Rightarrow> source_unit_id option list \<Rightarrow> macro_products \<Rightarrow> crate_load_carrier
     \<Rightarrow> retention_error + carrier_rank" where
  "plain_carrier_rank source graph singletons products carrier =
     map_sum id fst (compiler_crate_load_carrier_rank source graph singletons products carrier [])"

lemma cached_class_rank_valid:
  assumes "cache_valid source products cache"
  shows "case cached_class_rank source products k cache of
      Inl e \<Rightarrow> class_rank source products k = Inl e
    | Inr (rank, cache') \<Rightarrow> class_rank source products k = Inr rank \<and> cache_valid source products cache'"
proof (cases "\<exists>rank. get_at cache k = Some (Some rank)")
  case True
  then obtain rank where hit: "get_at cache k = Some (Some rank)" by blast
  with assms have "class_rank source products k = Inr rank" unfolding cache_valid_def by blast
  with assms show ?thesis unfolding cached_class_rank_def hit by simp
next
  case False
  then have miss: "cached_class_rank source products k cache
      = bind_result (class_rank source products k) (\<lambda>rank.
          Inr (rank, (cache @ replicate (Suc k - length cache) None)[k := Some rank]))"
    by (auto simp: cached_class_rank_def Let_def split: option.split)
  show ?thesis
  proof (cases "class_rank source products k")
    case (Inl e)
    with miss show ?thesis by simp
  next
    case (Inr rank)
    have "cache_valid source products ((cache @ replicate (Suc k - length cache) None)[k := Some rank])"
      unfolding cache_valid_def
    proof (intro allI impI)
      fix j q
      assume at: "get_at ((cache @ replicate (Suc k - length cache) None)[k := Some rank]) j = Some (Some q)"
      show "class_rank source products j = Inr q"
      proof (cases "j = k")
        case True
        with at Inr show ?thesis by (auto simp: nth_list_update)
      next
        case False
        with at have "get_at cache j = Some (Some q)"
          by (auto simp: nth_append split: if_splits)
        with assms show ?thesis unfolding cache_valid_def by blast
      qed
    qed
    with miss Inr show ?thesis by simp
  qed
qed

lemma class_rank_Inl: "class_rank source products k = Inl e \<Longrightarrow> e = InvalidConstraint"
proof -
  have errors: "fold_result (\<lambda>x s. ok_or (f x s) d) xs s = Inl e \<Longrightarrow> e = d" for f xs s and d :: retention_error
    by (induction xs arbitrary: s) (auto simp: bind_result_eq_Inl)
  have maps: "map_result f us = Inl e \<Longrightarrow> \<exists>u \<in> set us. f u = Inl e"
    for f :: "source_unit_id \<Rightarrow> retention_error + byte_range" and us
    by (induction us) (auto simp: bind_result_eq_Inl)
  assume "class_rank source products k = Inl e"
  then show ?thesis
    by (auto simp: class_rank_def contributor_sources_for_class_exact bind_result_eq_Inl Let_def total_len_def
        unit_range_def dest!: maps errors split: option.splits if_splits)
qed

lemma unit_range_Inl: "unit_range source unit = Inl e \<Longrightarrow> e = InvalidConstraint"
  by (simp add: unit_range_def)

text \<open>A definition's rank depends on the cache only through the rank of a contributor class.\<close>

lemma definition_choice_rank_plain:
  assumes "cache_valid source products cache"
  shows "case definition_choice_rank source graph singletons products choice cache of
      Inl e \<Rightarrow> plain_choice_rank source graph singletons products choice = Inl InvalidConstraint \<and> e = InvalidConstraint
    | Inr (r, cache') \<Rightarrow> plain_choice_rank source graph singletons products choice = Inr r \<and> cache_valid source products cache'"
proof -
  define group where "group = mp_product_groups products (NodeDefinition choice)"
  define singleton where "singleton = (case get_at singletons choice of None \<Rightarrow> None | Some s \<Rightarrow> s)"
  define body where "body = (\<lambda>cache. case (group, singleton) of
       (Some g, None) \<Rightarrow>
         bind_result (ok_or (get_at (mp_class_by_group products) g) InvalidConstraint)
           (\<lambda>contributor_class. cached_class_rank source products contributor_class cache)
     | (None, Some unit) \<Rightarrow> bind_result (unit_range source unit) (\<lambda>r. Inr ((range_len r, [r]), cache))
     | _ \<Rightarrow> Inl InvalidConstraint)"
  have body: "case body cache of
      Inl e \<Rightarrow> body [] = Inl InvalidConstraint \<and> e = InvalidConstraint
    | Inr (w, cache') \<Rightarrow> (\<exists>c. body [] = Inr (w, c)) \<and> cache_valid source products cache'"
  proof (cases "\<exists>g. group = Some g \<and> singleton = None")
    case True
    then obtain g where g: "group = Some g" "singleton = None" by blast
    show ?thesis
    proof (cases "get_at (mp_class_by_group products) g")
      case None
      have "body c = Inl InvalidConstraint" for c unfolding body_def g prod.case option.case None by simp
      then show ?thesis by simp
    next
      case (Some k)
      then have run: "body c = cached_class_rank source products k c" for c
        unfolding body_def g prod.case option.case Some by simp
      from cached_class_rank_valid [OF assms, of k] cached_class_rank_valid [OF cache_valid_Nil, of source products k]
      show ?thesis unfolding run by (auto split: sum.splits dest: class_rank_Inl)
    qed
  next
    case False
    then show ?thesis using assms
      by (auto simp: body_def bind_result_def dest: unit_range_Inl split: option.splits sum.splits)
  qed
  have run: "definition_choice_rank source graph singletons products choice c =
      (case get_at (dg_definitions (g_definitions graph)) choice of None \<Rightarrow> Inl InvalidConstraint
       | Some found \<Rightarrow> if def_id found \<noteq> choice then Inl InvalidConstraint
           else bind_result (body c) (\<lambda>((size, ranges), cache). Inr ((size, ranges, definition_key_code (def_key found)), cache)))" for c
    by (simp only: definition_choice_rank_def body_def group_def singleton_def Let_def)
  show ?thesis
    unfolding plain_choice_rank_def run using body
    by (auto split: option.splits sum.splits simp: bind_result_def)
qed

lemma carrier_rank_plain:
  assumes "cache_valid source products cache"
  shows "case compiler_crate_load_carrier_rank source graph singletons products carrier cache of
      Inl e \<Rightarrow> plain_carrier_rank source graph singletons products carrier = Inl InvalidConstraint \<and> e = InvalidConstraint
    | Inr (r, cache') \<Rightarrow> plain_carrier_rank source graph singletons products carrier = Inr r \<and> cache_valid source products cache'"
proof (cases carrier)
  case (CarrierDefinition choice)
  from definition_choice_rank_plain [OF assms, where graph = graph and singletons = singletons and choice = choice]
    definition_choice_rank_plain [OF cache_valid_Nil, where graph = graph and singletons = singletons and choice = choice]
  show ?thesis
    unfolding CarrierDefinition plain_carrier_rank_def compiler_crate_load_carrier_rank_def plain_choice_rank_def
    by (auto split: sum.splits simp: bind_result_def)
next
  case (CarrierSource unit)
  with assms show ?thesis
    by (auto simp: plain_carrier_rank_def compiler_crate_load_carrier_rank_def bind_result_def
        dest: unit_range_Inl split: option.splits sum.splits)
qed

interpretation definition_ranks: cached_ranking
  "definition_choice_rank source graph singletons products"
  "plain_choice_rank source graph singletons products"
  "cache_valid source products" for source graph singletons products
proof
  fix cache choice e r cache'
  assume valid: "cache_valid source products cache"
  note exact = definition_choice_rank_plain [OF valid, where graph = graph and singletons = singletons and choice = choice]
  show "plain_choice_rank source graph singletons products choice = Inl InvalidConstraint \<and> e = InvalidConstraint"
    if "definition_choice_rank source graph singletons products choice cache = Inl e"
    using exact that by simp
  show "plain_choice_rank source graph singletons products choice = Inr r \<and> cache_valid source products cache'"
    if "definition_choice_rank source graph singletons products choice cache = Inr (r, cache')"
    using exact that by simp
qed

interpretation carrier_ranks: cached_ranking
  "compiler_crate_load_carrier_rank source graph singletons products"
  "plain_carrier_rank source graph singletons products"
  "cache_valid source products" for source graph singletons products
proof
  fix cache carrier e r cache'
  assume valid: "cache_valid source products cache"
  note exact = carrier_rank_plain [OF valid, where graph = graph and singletons = singletons and carrier = carrier]
  show "plain_carrier_rank source graph singletons products carrier = Inl InvalidConstraint \<and> e = InvalidConstraint"
    if "compiler_crate_load_carrier_rank source graph singletons products carrier cache = Inl e"
    using exact that by simp
  show "plain_carrier_rank source graph singletons products carrier = Inr r \<and> cache_valid source products cache'"
    if "compiler_crate_load_carrier_rank source graph singletons products carrier cache = Inr (r, cache')"
    using exact that by simp
qed

end
