(* ===== verification/Disjunctions.thy ===== *)
theory Disjunctions
  imports Choice_Ranks Reachability_Index Use_Trees
begin

text \<open>
  Disjunctions of \<open>src/retention/disjunctions.rs\<close>: requirements that any one of several choices meets.
  A source disjunction is opened by a retained unit and met by one, a crate-load disjunction is
  opened by a compiler node (or always) and met by a definition or a unit, a member disjunction is
  opened and met by definitions, once for the compile presence and once for the actual demand.  The
  closure keeps what is open, what is met and what must be looked at again; \<open>select\<close> retains the best
  choice of every disjunction that is open and not met.
\<close>

section \<open>Facts\<close>

record source_disjunction =
  sd_trigger :: source_unit_id
  sd_choices :: "source_unit_id list"

record crate_load_disjunction =
  cl_trigger :: "graph_node option"
  cl_choices :: "crate_load_carrier list"

record definition_disjunction =
  dd_trigger :: definition_id
  dd_choices :: "definition_id list"

record ranked_source_disjunction =
  rs_trigger :: source_unit_id
  rs_choices :: "source_unit_id list"
  rs_selected :: source_unit_id

record ranked_compiler_disjunction =
  rk_trigger :: "graph_node option"
  rk_choices :: "crate_load_carrier list"
  rk_selected :: crate_load_carrier

record ranked_member_disjunction =
  rm_choices :: "graph_node list"
  rm_selected :: graph_node

record member_lane =
  lane_active :: "bool list"
  lane_complete :: "bool list"
  lane_pending :: "nat set"

definition member_lane_new :: "nat \<Rightarrow> member_lane" where
  "member_lane_new n =
     \<lparr>lane_active = replicate n False, lane_complete = replicate n False, lane_pending = {}\<rparr>"

text \<open>The fields of \<open>DisjunctionClosure\<close>; those the construction fixes are the index.\<close>

record disjunction_index =
  dj_source :: "ranked_source_disjunction list"
  dj_compiler :: "ranked_compiler_disjunction list"
  dj_members :: "ranked_member_disjunction list"
  dj_source_triggers :: "nat list list"
  dj_source_choices :: "nat list list"
  dj_compiler_triggers :: "graph_node \<rightharpoonup> nat list"
  dj_compiler_definition_choices :: "graph_node \<rightharpoonup> nat list"
  dj_compiler_source_choices :: "nat list list"
  dj_member_triggers :: "graph_node \<rightharpoonup> nat list"
  dj_member_choices :: "graph_node \<rightharpoonup> nat list"

record disjunction_closure =
  dc_source_active :: "bool list"
  dc_compiler_active :: "bool list"
  dc_compile_members :: member_lane
  dc_actual_members :: member_lane
  dc_source_complete :: "bool list"
  dc_compiler_complete :: "bool list"
  dc_pending_source :: "nat set"
  dc_pending_compiler :: "nat set"
  dc_seen_source :: "bool list"
  dc_seen_compile :: "graph_node set"
  dc_seen_actual :: "graph_node set"
  dc_initialized :: bool

section \<open>Construction\<close>

type_synonym source_tables = "ranked_source_disjunction list \<times> nat list list \<times> nat list list"

definition add_source_disjunction ::
  "source_inventory \<Rightarrow> nat \<times> source_disjunction \<Rightarrow> source_tables \<Rightarrow> retention_error + source_tables" where
  "add_source_disjunction source = (\<lambda>(index, d) (ranked, triggers, choices).
     bind_result
       (ok_or
         (min_by_key (\<lambda>choice. let unit = src_units source ! choice
                               in (range_len (full_range unit), full_range unit, unit_id unit)) (sd_choices d))
         InvalidConstraint)
       (\<lambda>selected. Inr
         (ranked @ [\<lparr>rs_trigger = sd_trigger d, rs_choices = sd_choices d, rs_selected = selected\<rparr>],
          push_at index (sd_trigger d) triggers,
          fold (push_at index) (sd_choices d) choices)))"

type_synonym compiler_tables =
  "ranked_compiler_disjunction list \<times> (graph_node \<rightharpoonup> nat list) \<times> (graph_node \<rightharpoonup> nat list) \<times> nat list list \<times> rank_cache"

definition add_carrier ::
  "nat \<Rightarrow> crate_load_carrier \<Rightarrow> (graph_node \<rightharpoonup> nat list) \<times> nat list list \<Rightarrow> (graph_node \<rightharpoonup> nat list) \<times> nat list list" where
  "add_carrier index carrier = (\<lambda>(definitions, sources).
     case carrier of
       CarrierDefinition i \<Rightarrow> (push_edge_entry (NodeDefinition i) index definitions, sources)
     | CarrierSource unit \<Rightarrow> (definitions, push_at index unit sources))"

definition add_compiler_disjunction ::
  "source_inventory \<Rightarrow> dependency_graph \<Rightarrow> source_unit_id option list \<Rightarrow> macro_products
     \<Rightarrow> nat \<times> crate_load_disjunction \<Rightarrow> compiler_tables \<Rightarrow> retention_error + compiler_tables" where
  "add_compiler_disjunction source graph singletons products =
     (\<lambda>(index, d) (ranked, triggers, definitions, sources, cache).
       bind_result
         (select_ranked (compiler_crate_load_carrier_rank source graph singletons products) (cl_choices d) cache)
         (\<lambda>(selected, cache).
           let triggers = (case cl_trigger d of None \<Rightarrow> triggers | Some node \<Rightarrow> push_edge_entry node index triggers);
               (definitions, sources) = fold (add_carrier index) (cl_choices d) (definitions, sources)
           in Inr
             (ranked @ [\<lparr>rk_trigger = cl_trigger d, rk_choices = cl_choices d, rk_selected = selected\<rparr>],
              triggers, definitions, sources, cache)))"

type_synonym member_tables =
  "ranked_member_disjunction list \<times> (graph_node \<rightharpoonup> nat list) \<times> (graph_node \<rightharpoonup> nat list) \<times> rank_cache"

definition add_member_disjunction ::
  "source_inventory \<Rightarrow> dependency_graph \<Rightarrow> source_unit_id option list \<Rightarrow> macro_products
     \<Rightarrow> nat \<times> definition_disjunction \<Rightarrow> member_tables \<Rightarrow> retention_error + member_tables" where
  "add_member_disjunction source graph singletons products =
     (\<lambda>(index, d) (ranked, triggers, choices, cache).
       bind_result
         (select_ranked (definition_choice_rank source graph singletons products) (dd_choices d) cache)
         (\<lambda>(selected, cache). Inr
           (ranked @ [\<lparr>rm_choices = map NodeDefinition (dd_choices d), rm_selected = NodeDefinition selected\<rparr>],
            push_edge_entry (NodeDefinition (dd_trigger d)) index triggers,
            fold (\<lambda>node. push_edge_entry node index) (map NodeDefinition (dd_choices d)) choices,
            cache)))"

definition disjunction_closure_new ::
  "source_inventory \<Rightarrow> dependency_graph \<Rightarrow> source_unit_id option list \<Rightarrow> macro_products
     \<Rightarrow> source_disjunction list \<Rightarrow> crate_load_disjunction list \<Rightarrow> definition_disjunction list
     \<Rightarrow> retention_error + disjunction_index \<times> disjunction_closure" where
  "disjunction_closure_new source graph singletons products sources compilers members =
     (let n = length (src_units source) in
      bind_result
        (fold_result (add_source_disjunction source) (enumerate 0 sources) ([], replicate n [], replicate n []))
        (\<lambda>(ranked_source, source_triggers, source_choices).
      bind_result
        (fold_result (add_compiler_disjunction source graph singletons products) (enumerate 0 compilers)
          ([], Map.empty, Map.empty, replicate n [], []))
        (\<lambda>(ranked_compiler, compiler_triggers, definition_choices, compiler_source_choices, cache).
      bind_result
        (fold_result (add_member_disjunction source graph singletons products) (enumerate 0 members)
          ([], Map.empty, Map.empty, cache))
        (\<lambda>(ranked_members, member_triggers, member_choices, cache). Inr
          (\<lparr>dj_source = ranked_source, dj_compiler = ranked_compiler, dj_members = ranked_members,
            dj_source_triggers = source_triggers, dj_source_choices = source_choices,
            dj_compiler_triggers = compiler_triggers, dj_compiler_definition_choices = definition_choices,
            dj_compiler_source_choices = compiler_source_choices,
            dj_member_triggers = member_triggers, dj_member_choices = member_choices\<rparr>,
           \<lparr>dc_source_active = replicate (length ranked_source) False,
            dc_compiler_active = map (\<lambda>d. rk_trigger d = None) ranked_compiler,
            dc_compile_members = member_lane_new (length ranked_members),
            dc_actual_members = member_lane_new (length ranked_members),
            dc_source_complete = replicate (length ranked_source) False,
            dc_compiler_complete = replicate (length ranked_compiler) False,
            dc_pending_source = {}, dc_pending_compiler = {},
            dc_seen_source = replicate n False, dc_seen_compile = {}, dc_seen_actual = {},
            dc_initialized = False\<rparr>)))))"

section \<open>Notifications\<close>

text \<open>An index is opened or looked at again; it is queued unless its disjunction is met.\<close>

definition queue_index :: "bool list \<Rightarrow> nat \<Rightarrow> nat set \<Rightarrow> nat set" where
  "queue_index complete index pending = (if complete ! index then pending else insert index pending)"

definition open_index :: "bool list \<Rightarrow> nat \<Rightarrow> bool list \<times> nat set \<Rightarrow> bool list \<times> nat set" where
  "open_index complete index = (\<lambda>(active, pending). (active[index := True], queue_index complete index pending))"

definition entries :: "('k \<rightharpoonup> nat list) \<Rightarrow> 'k \<Rightarrow> nat list" where
  "entries table k = (case table k of None \<Rightarrow> [] | Some indices \<Rightarrow> indices)"

definition queue_member_facts ::
  "graph_node \<Rightarrow> (graph_node \<rightharpoonup> nat list) \<Rightarrow> (graph_node \<rightharpoonup> nat list) \<Rightarrow> member_lane \<Rightarrow> member_lane" where
  "queue_member_facts node triggers choices lane =
     (let (active, pending) = fold (open_index (lane_complete lane)) (entries triggers node) (lane_active lane, lane_pending lane)
      in lane\<lparr>lane_active := active,
              lane_pending := fold (queue_index (lane_complete lane)) (entries choices node) pending\<rparr>)"

definition queue_compile_facts ::
  "disjunction_index \<Rightarrow> graph_node \<Rightarrow> disjunction_closure \<Rightarrow> disjunction_closure" where
  "queue_compile_facts index node c =
     (let complete = dc_compiler_complete c;
          (active, pending) = fold (open_index complete) (entries (dj_compiler_triggers index) node)
            (dc_compiler_active c, dc_pending_compiler c)
      in c\<lparr>dc_compiler_active := active,
           dc_pending_compiler :=
             fold (queue_index complete) (entries (dj_compiler_definition_choices index) node) pending,
           dc_compile_members :=
             queue_member_facts node (dj_member_triggers index) (dj_member_choices index) (dc_compile_members c)\<rparr>)"

definition queue_actual_facts ::
  "disjunction_index \<Rightarrow> graph_node \<Rightarrow> disjunction_closure \<Rightarrow> disjunction_closure" where
  "queue_actual_facts index node c =
     c\<lparr>dc_actual_members :=
         queue_member_facts node (dj_member_triggers index) (dj_member_choices index) (dc_actual_members c)\<rparr>"

definition add_compile_node :: "disjunction_index \<Rightarrow> graph_node \<Rightarrow> disjunction_closure \<Rightarrow> disjunction_closure" where
  "add_compile_node index node c =
     (if node \<in> dc_seen_compile c then c
      else queue_compile_facts index node (c\<lparr>dc_seen_compile := insert node (dc_seen_compile c)\<rparr>))"

definition disjunctions_add_compile ::
  "disjunction_index \<Rightarrow> graph_node list \<Rightarrow> disjunction_closure \<Rightarrow> disjunction_closure" where
  "disjunctions_add_compile index = fold (add_compile_node index)"

definition add_actual_node :: "disjunction_index \<Rightarrow> graph_node \<Rightarrow> disjunction_closure \<Rightarrow> disjunction_closure" where
  "add_actual_node index node c =
     (if node \<in> dc_seen_actual c then c
      else queue_actual_facts index node (c\<lparr>dc_seen_actual := insert node (dc_seen_actual c)\<rparr>))"

definition disjunctions_add_actual ::
  "disjunction_index \<Rightarrow> graph_node list \<Rightarrow> disjunction_closure \<Rightarrow> disjunction_closure" where
  "disjunctions_add_actual index = fold (add_actual_node index)"

definition add_source_unit ::
  "disjunction_index \<Rightarrow> source_unit_id \<Rightarrow> disjunction_closure \<Rightarrow> retention_error + disjunction_closure" where
  "add_source_unit index unit c =
     (case get_at (dc_seen_source c) unit of
        None \<Rightarrow> Inl InvalidConstraint
      | Some seen \<Rightarrow>
          if seen then Inr c
          else
            let complete = dc_source_complete c;
                (active, pending) = fold (open_index complete) (dj_source_triggers index ! unit)
                  (dc_source_active c, dc_pending_source c)
            in Inr (c\<lparr>dc_seen_source := (dc_seen_source c)[unit := True],
                 dc_source_active := active,
                 dc_pending_source := fold (queue_index complete) (dj_source_choices index ! unit) pending,
                 dc_pending_compiler :=
                   fold (queue_index (dc_compiler_complete c)) (dj_compiler_source_choices index ! unit)
                     (dc_pending_compiler c)\<rparr>))"

definition disjunctions_add_source ::
  "disjunction_index \<Rightarrow> source_unit_id list \<Rightarrow> disjunction_closure \<Rightarrow> retention_error + disjunction_closure" where
  "disjunctions_add_source index = fold_result (add_source_unit index)"

definition always_open :: "disjunction_index \<Rightarrow> nat set" where
  "always_open index = {i. i < length (dj_compiler index) \<and> rk_trigger (dj_compiler index ! i) = None}"

definition disjunctions_seed ::
  "disjunction_index \<Rightarrow> graph_node set \<Rightarrow> graph_node set \<Rightarrow> source_unit_id set \<Rightarrow> disjunction_closure
     \<Rightarrow> retention_error + disjunction_closure" where
  "disjunctions_seed index compile actual retained c =
     (if dc_initialized c then Inl InvalidConstraint
      else
        disjunctions_add_source index (sorted_list_of_set retained)
          (disjunctions_add_actual index (sorted_list_of_set actual)
            (disjunctions_add_compile index (sorted_list_of_set compile)
              (c\<lparr>dc_initialized := True, dc_pending_compiler := dc_pending_compiler c \<union> always_open index\<rparr>))))"

section \<open>Selection\<close>

text \<open>
  The loop of the three selections.  It pops the least pending index, puts off an index in front of
  the cursor and visits any other; \<open>visit\<close> gives the indices it queued.  What was put off stays
  pending.  An index behind the vector never occurs.
\<close>

function select_loop ::
  "nat \<Rightarrow> (nat \<Rightarrow> 's \<Rightarrow> retention_error + nat set \<times> 's) \<Rightarrow> nat \<Rightarrow> nat set \<Rightarrow> nat set \<Rightarrow> 's
     \<Rightarrow> retention_error + nat set \<times> 's" where
  "select_loop n visit cursor deferred pending s =
     (if pending = {} \<or> infinite pending then Inr (pending \<union> deferred, s)
      else
        let index = Min pending; rest = pending - {index}
        in if index < cursor then select_loop n visit cursor (insert index deferred) rest s
           else if index \<ge> n then select_loop n visit (Suc index) deferred rest s
           else bind_result (visit index s) (\<lambda>(queued, s).
             select_loop n visit (Suc index) deferred (rest \<union> queued) s))"
  by pat_completeness auto
termination
proof (relation "measures [\<lambda>(n, visit, cursor, deferred, pending, s). n - cursor,
    \<lambda>(n, visit, cursor, deferred, pending, s). card pending]", goal_cases)
  case 1
  show ?case by (rule wf_measures)
next
  case (2 n visit cursor deferred pending s index rest)
  then have "card rest < card pending" using card_Diff1_less [of pending "Min pending"] by simp
  then show ?case unfolding in_measures prod.case by simp
next
  case (3 n visit cursor deferred pending s index rest)
  then have "card rest < card pending" using card_Diff1_less [of pending "Min pending"] by simp
  with 3(5) show ?case unfolding in_measures prod.case by (simp, arith)
next
  case (4 n visit cursor deferred pending s index rest w queued s')
  then have "n - Suc index < n - cursor" by linarith
  then show ?case unfolding in_measures prod.case by simp
qed

declare select_loop.simps [simp del]

text \<open>What the driver hands to \<open>select\<close>.\<close>

record demand_state =
  dm_compile :: "graph_node set"
  dm_actual :: "graph_node set"
  dm_retained :: "source_unit_id set"
  dm_newly_compile :: "graph_node list"
  dm_newly_actual :: "graph_node list"
  dm_newly_retained :: "source_unit_id list"
  dm_token_deltas :: "source_unit_id list"

definition require_compiler_node ::
  "graph_node set \<Rightarrow> graph_node list \<Rightarrow> graph_node \<Rightarrow> bool \<times> graph_node set \<times> graph_node list" where
  "require_compiler_node required newly node =
     (if node \<in> required then (False, required, newly) else (True, insert node required, newly @ [node]))"

text \<open>
  The loops over sources and carriers hold the pending indices themselves while the field is empty;
  the notifications in them only add to the field.
\<close>

type_synonym selection_work = "disjunction_closure \<times> demand_state \<times> bool"

definition retain_selected ::
  "disjunction_index \<Rightarrow> source_unit_id \<Rightarrow> selection_work \<Rightarrow> retention_error + selection_work" where
  "retain_selected index unit = (\<lambda>(c, d, any).
     case retain_source_unit (dm_retained d) (dm_newly_retained d) unit of
       (inserted, retained, newly) \<Rightarrow>
         if \<not> inserted then Inl InvalidConstraint
         else bind_result (disjunctions_add_source index [unit] c) (\<lambda>c. Inr
           (c, d\<lparr>dm_retained := retained, dm_newly_retained := newly, dm_token_deltas := dm_token_deltas d @ [unit]\<rparr>, True)))"

definition visit_source ::
  "disjunction_index \<Rightarrow> nat \<Rightarrow> selection_work \<Rightarrow> retention_error + nat set \<times> selection_work" where
  "visit_source index i = (\<lambda>(c, d, any).
     if dc_source_complete c ! i \<or> \<not> dc_source_active c ! i then Inr ({}, c, d, any)
     else
       let facts = dj_source index ! i; c = c\<lparr>dc_source_complete := (dc_source_complete c)[i := True]\<rparr>
       in if rs_trigger facts \<in> dm_retained d \<and> list_ex (\<lambda>choice. choice \<in> dm_retained d) (rs_choices facts)
          then Inr ({}, c, d, any)
          else bind_result (retain_selected index (rs_selected facts) (c, d, any)) (\<lambda>(c, d, any).
            Inr (dc_pending_source c, c\<lparr>dc_pending_source := {}\<rparr>, d, any)))"

definition select_source :: "disjunction_index \<Rightarrow> selection_work \<Rightarrow> retention_error + selection_work" where
  "select_source index = (\<lambda>(c, d, any).
     bind_result
       (select_loop (length (dj_source index)) (visit_source index) 0 {} (dc_pending_source c)
         (c\<lparr>dc_pending_source := {}\<rparr>, d, any))
       (\<lambda>(pending, c, d, any). Inr (c\<lparr>dc_pending_source := pending\<rparr>, d, any)))"

definition carrier_is_retained :: "crate_load_carrier \<Rightarrow> graph_node set \<Rightarrow> source_unit_id set \<Rightarrow> bool" where
  "carrier_is_retained carrier compile retained =
     (case carrier of
        CarrierDefinition definition \<Rightarrow> NodeDefinition definition \<in> compile
      | CarrierSource unit \<Rightarrow> unit \<in> retained)"

definition retain_carrier ::
  "disjunction_index \<Rightarrow> crate_load_carrier \<Rightarrow> selection_work \<Rightarrow> retention_error + selection_work" where
  "retain_carrier index carrier = (\<lambda>(c, d, any).
     case carrier of
       CarrierDefinition definition \<Rightarrow>
         (case require_compiler_node (dm_compile d) (dm_newly_compile d) (NodeDefinition definition) of
            (inserted, compile, newly) \<Rightarrow>
              if \<not> inserted then Inl InvalidConstraint
              else Inr (disjunctions_add_compile index [NodeDefinition definition] c,
                d\<lparr>dm_compile := compile, dm_newly_compile := newly\<rparr>, True))
     | CarrierSource unit \<Rightarrow> retain_selected index unit (c, d, any))"

definition visit_compiler ::
  "disjunction_index \<Rightarrow> nat \<Rightarrow> selection_work \<Rightarrow> retention_error + nat set \<times> selection_work" where
  "visit_compiler index i = (\<lambda>(c, d, any).
     if dc_compiler_complete c ! i \<or> \<not> dc_compiler_active c ! i then Inr ({}, c, d, any)
     else
       let facts = dj_compiler index ! i; c = c\<lparr>dc_compiler_complete := (dc_compiler_complete c)[i := True]\<rparr>
       in if list_ex (\<lambda>choice. carrier_is_retained choice (dm_compile d) (dm_retained d)) (rk_choices facts)
          then Inr ({}, c, d, any)
          else bind_result (retain_carrier index (rk_selected facts) (c, d, any)) (\<lambda>(c, d, any).
            Inr (dc_pending_compiler c, c\<lparr>dc_pending_compiler := {}\<rparr>, d, any)))"

definition select_compiler :: "disjunction_index \<Rightarrow> selection_work \<Rightarrow> retention_error + selection_work" where
  "select_compiler index = (\<lambda>(c, d, any).
     bind_result
       (select_loop (length (dj_compiler index)) (visit_compiler index) 0 {} (dc_pending_compiler c)
         (c\<lparr>dc_pending_compiler := {}\<rparr>, d, any))
       (\<lambda>(pending, c, d, any). Inr (c\<lparr>dc_pending_compiler := pending\<rparr>, d, any)))"

type_synonym lane_work = "member_lane \<times> graph_node set \<times> graph_node list \<times> bool"

definition visit_member ::
  "ranked_member_disjunction list \<Rightarrow> nat \<Rightarrow> lane_work \<Rightarrow> retention_error + nat set \<times> lane_work" where
  "visit_member members i = (\<lambda>(lane, required, newly, any).
     if lane_complete lane ! i \<or> \<not> lane_active lane ! i then Inr ({}, lane, required, newly, any)
     else
       let facts = members ! i; lane = lane\<lparr>lane_complete := (lane_complete lane)[i := True]\<rparr>
       in if list_ex (\<lambda>choice. choice \<in> required) (rm_choices facts) then Inr ({}, lane, required, newly, any)
          else if rm_selected facts \<in> required then Inl InvalidConstraint
          else Inr ({}, lane, insert (rm_selected facts) required, newly @ [rm_selected facts], True))"

definition select_member_lane ::
  "ranked_member_disjunction list \<Rightarrow> member_lane \<Rightarrow> graph_node set \<Rightarrow> graph_node list
     \<Rightarrow> retention_error + lane_work" where
  "select_member_lane members lane required newly =
     bind_result
       (select_loop (length members) (visit_member members) 0 {} (lane_pending lane)
         (lane\<lparr>lane_pending := {}\<rparr>, required, newly, False))
       (\<lambda>(pending, lane, required, newly, any). Inr (lane\<lparr>lane_pending := pending\<rparr>, required, newly, any))"

definition mirror_nodes ::
  "graph_node list \<Rightarrow> graph_node set \<times> graph_node list \<Rightarrow> graph_node set \<times> graph_node list" where
  "mirror_nodes nodes =
     fold (\<lambda>node (required, newly). snd (require_compiler_node required newly node)) nodes"

definition select_members :: "disjunction_index \<Rightarrow> selection_work \<Rightarrow> retention_error + selection_work" where
  "select_members index = (\<lambda>(c, d, any).
     let compile_start = length (dm_newly_compile d); actual_start = length (dm_newly_actual d) in
     bind_result (select_member_lane (dj_members index) (dc_compile_members c) (dm_compile d) (dm_newly_compile d))
       (\<lambda>(compile_lane, compile, newly_compile, any_compile).
     bind_result (select_member_lane (dj_members index) (dc_actual_members c) (dm_actual d) (dm_newly_actual d))
       (\<lambda>(actual_lane, actual, newly_actual, any_actual).
         let deltas = drop actual_start newly_actual;
             (compile, newly_compile) = mirror_nodes deltas (compile, newly_compile);
             c = c\<lparr>dc_compile_members := compile_lane, dc_actual_members := actual_lane\<rparr>
         in Inr
           (disjunctions_add_actual index deltas
              (disjunctions_add_compile index (drop compile_start newly_compile) c),
            d\<lparr>dm_compile := compile, dm_newly_compile := newly_compile,
              dm_actual := actual, dm_newly_actual := newly_actual\<rparr>,
            any \<or> any_compile \<or> any_actual))))"

definition disjunctions_select ::
  "disjunction_index \<Rightarrow> disjunction_closure \<Rightarrow> demand_state \<Rightarrow> retention_error + selection_work" where
  "disjunctions_select index c d =
     bind_result (select_source index (c, d, False)) (\<lambda>w.
     bind_result (select_compiler index w) (select_members index))"

end
