(* ===== verification/Disjunction_Scan.thy ===== *)
theory Disjunction_Scan
  imports Disjunctions
begin

text \<open>
  What the disjunction closure computes.  Its reference is one pass over all disjunctions in order
  that keeps nothing between calls; the closure keeps, for every kind of disjunction, an invariant
  (a lane) that makes skipping an index that is not pending the same as passing over it.
\<close>

section \<open>The reference\<close>

definition retain_one :: "source_unit_id \<Rightarrow> demand_state \<Rightarrow> demand_state" where
  "retain_one unit d =
     d\<lparr>dm_retained := insert unit (dm_retained d), dm_newly_retained := dm_newly_retained d @ [unit],
       dm_token_deltas := dm_token_deltas d @ [unit]\<rparr>"

definition compile_one :: "graph_node \<Rightarrow> demand_state \<Rightarrow> demand_state" where
  "compile_one node d =
     d\<lparr>dm_compile := insert node (dm_compile d), dm_newly_compile := dm_newly_compile d @ [node]\<rparr>"

definition source_open :: "ranked_source_disjunction \<Rightarrow> source_unit_id set \<Rightarrow> bool" where
  "source_open facts retained \<longleftrightarrow> rs_trigger facts \<in> retained"

definition source_met :: "ranked_source_disjunction \<Rightarrow> source_unit_id set \<Rightarrow> bool" where
  "source_met facts retained \<longleftrightarrow> list_ex (\<lambda>choice. choice \<in> retained) (rs_choices facts)"

definition compiler_open :: "ranked_compiler_disjunction \<Rightarrow> graph_node set \<Rightarrow> bool" where
  "compiler_open facts compile \<longleftrightarrow> (case rk_trigger facts of None \<Rightarrow> True | Some node \<Rightarrow> node \<in> compile)"

definition compiler_met :: "ranked_compiler_disjunction \<Rightarrow> graph_node set \<Rightarrow> source_unit_id set \<Rightarrow> bool" where
  "compiler_met facts compile retained \<longleftrightarrow>
     list_ex (\<lambda>choice. carrier_is_retained choice compile retained) (rk_choices facts)"

definition member_met :: "ranked_member_disjunction \<Rightarrow> graph_node set \<Rightarrow> bool" where
  "member_met facts required \<longleftrightarrow> list_ex (\<lambda>choice. choice \<in> required) (rm_choices facts)"

definition scan_source :: "ranked_source_disjunction \<Rightarrow> demand_state \<times> bool \<Rightarrow> demand_state \<times> bool" where
  "scan_source facts = (\<lambda>(d, any).
     if source_open facts (dm_retained d) \<and> \<not> source_met facts (dm_retained d)
     then (retain_one (rs_selected facts) d, True) else (d, any))"

definition scan_compiler :: "ranked_compiler_disjunction \<Rightarrow> demand_state \<times> bool \<Rightarrow> demand_state \<times> bool" where
  "scan_compiler facts = (\<lambda>(d, any).
     if compiler_open facts (dm_compile d) \<and> \<not> compiler_met facts (dm_compile d) (dm_retained d)
     then (case rk_selected facts of
             CarrierDefinition definition \<Rightarrow> (compile_one (NodeDefinition definition) d, True)
           | CarrierSource unit \<Rightarrow> (retain_one unit d, True))
     else (d, any))"

text \<open>The members' triggers are asked once, at the start of the pass.\<close>

type_synonym scanned_nodes = "graph_node set \<times> graph_node list \<times> bool"

definition scan_member :: "graph_node set \<Rightarrow> graph_node \<times> ranked_member_disjunction \<Rightarrow> scanned_nodes \<Rightarrow> scanned_nodes" where
  "scan_member opened = (\<lambda>(trigger, facts) (required, newly, any).
     if trigger \<in> opened \<and> \<not> member_met facts required
     then (insert (rm_selected facts) required, newly @ [rm_selected facts], True) else (required, newly, any))"

definition scan_members ::
  "(graph_node \<times> ranked_member_disjunction) list \<Rightarrow> demand_state \<times> bool \<Rightarrow> demand_state \<times> bool" where
  "scan_members members = (\<lambda>(d, any).
     let (compile, newly_compile, any_compile) =
           fold (scan_member (dm_compile d)) members (dm_compile d, dm_newly_compile d, False);
         (actual, newly_actual, any_actual) =
           fold (scan_member (dm_actual d)) members (dm_actual d, dm_newly_actual d, False);
         (compile, newly_compile) =
           mirror_nodes (drop (length (dm_newly_actual d)) newly_actual) (compile, newly_compile)
     in (d\<lparr>dm_compile := compile, dm_newly_compile := newly_compile,
           dm_actual := actual, dm_newly_actual := newly_actual\<rparr>, any \<or> any_compile \<or> any_actual))"

definition scan_disjunctions ::
  "disjunction_index \<Rightarrow> graph_node list \<Rightarrow> demand_state \<Rightarrow> demand_state \<times> bool" where
  "scan_disjunctions index triggers d =
     scan_members (zip triggers (dj_members index))
       (fold scan_compiler (dj_compiler index) (fold scan_source (dj_source index) (d, False)))"

section \<open>Lanes\<close>

definition lane_ok :: "nat \<Rightarrow> bool list \<Rightarrow> bool list \<Rightarrow> nat set \<Rightarrow> (nat \<Rightarrow> bool) \<Rightarrow> (nat \<Rightarrow> bool) \<Rightarrow> bool" where
  "lane_ok n active complete pending opened met \<longleftrightarrow>
     length active = n \<and> length complete = n \<and> pending \<subseteq> {..<n}
     \<and> (\<forall>i < n. (active ! i \<longleftrightarrow> opened i) \<and> (complete ! i \<longrightarrow> met i) \<and> (opened i \<and> \<not> complete ! i \<longrightarrow> i \<in> pending))"

lemma lane_ok_met: "lane_ok n active complete pending opened met \<Longrightarrow> (\<And>i. met i \<Longrightarrow> met' i) \<Longrightarrow>
    lane_ok n active complete pending opened met'"
  by (auto simp: lane_ok_def)

lemma lane_ok_cong: "lane_ok n active complete pending opened met \<Longrightarrow> (\<And>i. i < n \<Longrightarrow> opened i = opened' i) \<Longrightarrow>
    lane_ok n active complete pending opened' met"
  by (auto simp: lane_ok_def)

lemma lane_ok_complete: "lane_ok n active complete pending opened met \<Longrightarrow> i < n \<Longrightarrow> met i \<Longrightarrow>
    lane_ok n active (complete[i := True]) (pending - {i}) opened met"
  by (auto simp: lane_ok_def nth_list_update)

lemma lane_ok_skip: "lane_ok n active complete pending opened met \<Longrightarrow> i < n \<Longrightarrow> complete ! i \<or> \<not> active ! i \<Longrightarrow>
    lane_ok n active complete (pending - {i}) opened met"
  by (auto simp: lane_ok_def)

lemma lane_ok_quiet: "lane_ok n active complete pending opened met \<Longrightarrow> i < n \<Longrightarrow> i \<notin> pending \<Longrightarrow> \<not> (opened i \<and> \<not> met i)"
  by (auto simp: lane_ok_def)

lemma fold_queue_index: "fold (queue_index complete) is pending = pending \<union> {i \<in> set is. \<not> complete ! i}"
  by (induction "is" arbitrary: pending) (auto simp: queue_index_def)

lemma fold_open_index:
  "fold (open_index complete) is (active, pending) = (fold (\<lambda>i active. active[i := True]) is active, fold (queue_index complete) is pending)"
  by (induction "is" arbitrary: active pending) (simp_all add: open_index_def)

lemma fold_mark:
  "length (fold (\<lambda>i active. active[i := True]) is active) = length active
   \<and> (\<forall>i < length active. fold (\<lambda>i active. active[i := True]) is active ! i \<longleftrightarrow> active ! i \<or> i \<in> set is)"
proof (induction "is" arbitrary: active)
  case (Cons j js)
  note IH = Cons.IH [of "active[j := True]"]
  show ?case
  proof (intro conjI allI impI)
    show "length (fold (\<lambda>i active. active[i := True]) (j # js) active) = length active" using IH by simp
    fix i
    assume i: "i < length active"
    with IH have "fold (\<lambda>i active. active[i := True]) (j # js) active ! i \<longleftrightarrow> active[j := True] ! i \<or> i \<in> set js"
      by simp
    with i show "fold (\<lambda>i active. active[i := True]) (j # js) active ! i \<longleftrightarrow> active ! i \<or> i \<in> set (j # js)"
      by (cases "i = j") simp_all
  qed
qed simp

lemma lane_ok_notify:
  assumes "lane_ok n active complete (extra \<union> pending) opened met"
    and "fold (open_index complete) is (active, pending) = (active', pending')"
    and "set is = {i. i < n \<and> opens i}" and "set js \<subseteq> {..<n}"
  shows "lane_ok n active' complete (extra \<union> fold (queue_index complete) js pending') (\<lambda>i. opened i \<or> opens i) met"
proof -
  from assms(2) have "pending' = pending \<union> {i \<in> set is. \<not> complete ! i}" "length active' = length active"
    "\<forall>i < length active. active' ! i \<longleftrightarrow> active ! i \<or> i \<in> set is"
    using fold_mark [of "is" active] by (auto simp: fold_open_index fold_queue_index)
  with assms show ?thesis by (auto simp: lane_ok_def fold_queue_index)
qed

lemma lane_ok_queue:
  assumes "lane_ok n active complete (extra \<union> pending) opened met" and "set js \<subseteq> {..<n}"
  shows "lane_ok n active complete (extra \<union> fold (queue_index complete) js pending) opened met"
  using assms by (auto simp: lane_ok_def fold_queue_index)

section \<open>The index\<close>

definition source_index_ok :: "nat \<Rightarrow> disjunction_index \<Rightarrow> bool" where
  "source_index_ok n index \<longleftrightarrow>
     length (dj_source_triggers index) = n \<and> length (dj_source_choices index) = n
     \<and> (\<forall>u < n. set (dj_source_triggers index ! u) = {i. i < length (dj_source index) \<and> rs_trigger (dj_source index ! i) = u})
     \<and> (\<forall>u < n. set (dj_source_choices index ! u) \<subseteq> {..<length (dj_source index)})
     \<and> (\<forall>facts \<in> set (dj_source index). rs_selected facts \<in> set (rs_choices facts) \<and> rs_selected facts < n)"

definition carrier_in_range :: "nat \<Rightarrow> crate_load_carrier \<Rightarrow> bool" where
  "carrier_in_range n carrier \<longleftrightarrow> (case carrier of CarrierDefinition _ \<Rightarrow> True | CarrierSource unit \<Rightarrow> unit < n)"

definition compiler_index_ok :: "nat \<Rightarrow> disjunction_index \<Rightarrow> bool" where
  "compiler_index_ok n index \<longleftrightarrow>
     length (dj_compiler_source_choices index) = n
     \<and> (\<forall>node. set (entries (dj_compiler_triggers index) node)
          = {i. i < length (dj_compiler index) \<and> rk_trigger (dj_compiler index ! i) = Some node})
     \<and> (\<forall>node. set (entries (dj_compiler_definition_choices index) node) \<subseteq> {..<length (dj_compiler index)})
     \<and> (\<forall>u < n. set (dj_compiler_source_choices index ! u) \<subseteq> {..<length (dj_compiler index)})
     \<and> (\<forall>facts \<in> set (dj_compiler index). rk_selected facts \<in> set (rk_choices facts) \<and> carrier_in_range n (rk_selected facts))"

definition member_index_ok :: "graph_node list \<Rightarrow> disjunction_index \<Rightarrow> bool" where
  "member_index_ok triggers index \<longleftrightarrow>
     length triggers = length (dj_members index)
     \<and> (\<forall>node. set (entries (dj_member_triggers index) node) = {i. i < length (dj_members index) \<and> triggers ! i = node})
     \<and> (\<forall>node. set (entries (dj_member_choices index) node) \<subseteq> {..<length (dj_members index)})
     \<and> (\<forall>facts \<in> set (dj_members index). rm_selected facts \<in> set (rm_choices facts))"

definition index_ok :: "nat \<Rightarrow> graph_node list \<Rightarrow> disjunction_index \<Rightarrow> bool" where
  "index_ok n triggers index \<longleftrightarrow> source_index_ok n index \<and> compiler_index_ok n index \<and> member_index_ok triggers index"

section \<open>The invariant\<close>

definition seen_units :: "disjunction_closure \<Rightarrow> source_unit_id set" where
  "seen_units c = {u. u < length (dc_seen_source c) \<and> dc_seen_source c ! u}"

definition source_lane_ok :: "disjunction_index \<Rightarrow> demand_state \<Rightarrow> nat set \<Rightarrow> disjunction_closure \<Rightarrow> bool" where
  "source_lane_ok index d extra c \<longleftrightarrow>
     lane_ok (length (dj_source index)) (dc_source_active c) (dc_source_complete c) (extra \<union> dc_pending_source c)
       (\<lambda>i. source_open (dj_source index ! i) (seen_units c)) (\<lambda>i. source_met (dj_source index ! i) (dm_retained d))"

definition compiler_lane_ok :: "disjunction_index \<Rightarrow> demand_state \<Rightarrow> nat set \<Rightarrow> disjunction_closure \<Rightarrow> bool" where
  "compiler_lane_ok index d extra c \<longleftrightarrow>
     lane_ok (length (dj_compiler index)) (dc_compiler_active c) (dc_compiler_complete c) (extra \<union> dc_pending_compiler c)
       (\<lambda>i. compiler_open (dj_compiler index ! i) (dc_seen_compile c))
       (\<lambda>i. compiler_met (dj_compiler index ! i) (dm_compile d) (dm_retained d))"

definition member_lane_ok ::
  "disjunction_index \<Rightarrow> graph_node list \<Rightarrow> graph_node set \<Rightarrow> graph_node set \<Rightarrow> nat set \<Rightarrow> member_lane \<Rightarrow> bool" where
  "member_lane_ok index triggers opened required extra lane \<longleftrightarrow>
     lane_ok (length (dj_members index)) (lane_active lane) (lane_complete lane) (extra \<union> lane_pending lane)
       (\<lambda>i. triggers ! i \<in> opened) (\<lambda>i. member_met (dj_members index ! i) required)"

definition disjunctions_ok ::
  "nat \<Rightarrow> disjunction_index \<Rightarrow> graph_node list \<Rightarrow> demand_state \<Rightarrow> nat set \<Rightarrow> nat set \<Rightarrow> disjunction_closure \<Rightarrow> bool" where
  "disjunctions_ok n index triggers d X Y c \<longleftrightarrow>
     length (dc_seen_source c) = n \<and> source_lane_ok index d X c \<and> compiler_lane_ok index d Y c
     \<and> member_lane_ok index triggers (dc_seen_compile c) (dm_compile d) {} (dc_compile_members c)
     \<and> member_lane_ok index triggers (dc_seen_actual c) (dm_actual d) {} (dc_actual_members c)"

definition demand_le :: "demand_state \<Rightarrow> demand_state \<Rightarrow> bool" where
  "demand_le d d' \<longleftrightarrow> dm_compile d \<subseteq> dm_compile d' \<and> dm_actual d \<subseteq> dm_actual d' \<and> dm_retained d \<subseteq> dm_retained d'"

lemma disjunctions_ok_mono:
  assumes "disjunctions_ok n index triggers d X Y c" and "demand_le d d'"
  shows "disjunctions_ok n index triggers d' X Y c"
proof -
  have source: "source_met facts (dm_retained d')" if "source_met facts (dm_retained d)" for facts
    using that assms(2) by (auto simp: source_met_def list_ex_iff demand_le_def)
  have carrier: "carrier_is_retained choice (dm_compile d') (dm_retained d')"
    if "carrier_is_retained choice (dm_compile d) (dm_retained d)" for choice
    using that assms(2) by (cases choice) (auto simp: carrier_is_retained_def demand_le_def)
  then have compiler: "compiler_met facts (dm_compile d') (dm_retained d')"
    if "compiler_met facts (dm_compile d) (dm_retained d)" for facts
    using that by (auto simp: compiler_met_def list_ex_iff)
  have member: "member_met facts S'" if "member_met facts S" "S \<subseteq> S'" for facts S S'
    using that by (auto simp: member_met_def list_ex_iff)
  from assms source compiler show ?thesis
    unfolding disjunctions_ok_def source_lane_ok_def compiler_lane_ok_def member_lane_ok_def demand_le_def
    by (auto intro: lane_ok_met member)
qed

section \<open>Notifications keep the invariant\<close>

lemma queue_member_facts_ok:
  assumes "member_index_ok triggers index" and "member_lane_ok index triggers opened required extra lane"
  shows "member_lane_ok index triggers (insert node opened) required extra
    (queue_member_facts node (dj_member_triggers index) (dj_member_choices index) lane)"
proof -
  let ?n = "length (dj_members index)"
  obtain active pending where run: "fold (open_index (lane_complete lane)) (entries (dj_member_triggers index) node)
      (lane_active lane, lane_pending lane) = (active, pending)" by (meson surj_pair)
  have lane: "lane_ok ?n active (lane_complete lane)
      (extra \<union> fold (queue_index (lane_complete lane)) (entries (dj_member_choices index) node) pending)
      (\<lambda>i. triggers ! i \<in> opened \<or> triggers ! i = node) (\<lambda>i. member_met (dj_members index ! i) required)"
    by (rule lane_ok_notify [OF _ run]) (use assms in \<open>auto simp: member_lane_ok_def member_index_ok_def\<close>)
  show ?thesis
    unfolding member_lane_ok_def queue_member_facts_def run Let_def prod.case
    by simp (rule lane_ok_cong [OF lane], auto)
qed

lemma add_compile_node_ok:
  assumes "index_ok n triggers index" and "disjunctions_ok n index triggers d X Y c"
  shows "disjunctions_ok n index triggers d X Y (add_compile_node index node c)"
    and "dc_seen_compile (add_compile_node index node c) = insert node (dc_seen_compile c)"
    and "dc_seen_source (add_compile_node index node c) = dc_seen_source c"
    and "dc_seen_actual (add_compile_node index node c) = dc_seen_actual c"
    and "dc_pending_source (add_compile_node index node c) = dc_pending_source c"
proof -
  let ?complete = "dc_compiler_complete c"
  obtain active pending where run: "fold (open_index ?complete) (entries (dj_compiler_triggers index) node)
      (dc_compiler_active c, dc_pending_compiler c) = (active, pending)" by (meson surj_pair)
  let ?c = "c\<lparr>dc_seen_compile := insert node (dc_seen_compile c), dc_compiler_active := active,
      dc_pending_compiler := fold (queue_index ?complete) (entries (dj_compiler_definition_choices index) node) pending,
      dc_compile_members := queue_member_facts node (dj_member_triggers index) (dj_member_choices index) (dc_compile_members c)\<rparr>"
  have eq: "add_compile_node index node c = (if node \<in> dc_seen_compile c then c else ?c)"
    by (simp add: add_compile_node_def queue_compile_facts_def run)
  show "dc_seen_compile (add_compile_node index node c) = insert node (dc_seen_compile c)"
    "dc_seen_source (add_compile_node index node c) = dc_seen_source c"
    "dc_seen_actual (add_compile_node index node c) = dc_seen_actual c"
    "dc_pending_source (add_compile_node index node c) = dc_pending_source c"
    by (auto simp: eq)
  have lane: "lane_ok (length (dj_compiler index)) active ?complete
      (Y \<union> fold (queue_index ?complete) (entries (dj_compiler_definition_choices index) node) pending)
      (\<lambda>i. compiler_open (dj_compiler index ! i) (dc_seen_compile c) \<or> rk_trigger (dj_compiler index ! i) = Some node)
      (\<lambda>i. compiler_met (dj_compiler index ! i) (dm_compile d) (dm_retained d))"
    by (rule lane_ok_notify [OF _ run])
      (use assms in \<open>auto simp: disjunctions_ok_def compiler_lane_ok_def index_ok_def compiler_index_ok_def\<close>)
  have "compiler_lane_ok index d Y ?c"
    unfolding compiler_lane_ok_def
    by simp (rule lane_ok_cong [OF lane], auto simp: compiler_open_def split: option.splits)
  moreover have "member_lane_ok index triggers (dc_seen_compile ?c) (dm_compile d) {} (dc_compile_members ?c)"
    using queue_member_facts_ok assms by (simp add: index_ok_def disjunctions_ok_def)
  ultimately show "disjunctions_ok n index triggers d X Y (add_compile_node index node c)"
    using assms(2) unfolding eq disjunctions_ok_def source_lane_ok_def seen_units_def by auto
qed

lemma add_actual_node_ok:
  assumes "index_ok n triggers index" and "disjunctions_ok n index triggers d X Y c"
  shows "disjunctions_ok n index triggers d X Y (add_actual_node index node c)"
    and "dc_seen_actual (add_actual_node index node c) = insert node (dc_seen_actual c)"
    and "dc_seen_source (add_actual_node index node c) = dc_seen_source c"
    and "dc_seen_compile (add_actual_node index node c) = dc_seen_compile c"
proof -
  let ?lane = "queue_member_facts node (dj_member_triggers index) (dj_member_choices index) (dc_actual_members c)"
  have eq: "add_actual_node index node c = (if node \<in> dc_seen_actual c then c
      else c\<lparr>dc_seen_actual := insert node (dc_seen_actual c), dc_actual_members := ?lane\<rparr>)"
    by (simp add: add_actual_node_def queue_actual_facts_def)
  show "dc_seen_actual (add_actual_node index node c) = insert node (dc_seen_actual c)"
    "dc_seen_source (add_actual_node index node c) = dc_seen_source c"
    "dc_seen_compile (add_actual_node index node c) = dc_seen_compile c"
    by (auto simp: eq)
  have "member_lane_ok index triggers (insert node (dc_seen_actual c)) (dm_actual d) {} ?lane"
    using queue_member_facts_ok assms by (simp add: index_ok_def disjunctions_ok_def)
  then show "disjunctions_ok n index triggers d X Y (add_actual_node index node c)"
    using assms(2) unfolding eq disjunctions_ok_def source_lane_ok_def compiler_lane_ok_def seen_units_def by auto
qed

lemma add_source_unit_ok:
  assumes "index_ok n triggers index" and "disjunctions_ok n index triggers d X Y c" and "unit < n"
  shows "\<exists>c'. add_source_unit index unit c = Inr c' \<and> disjunctions_ok n index triggers d X Y c'
    \<and> seen_units c' = insert unit (seen_units c)
    \<and> dc_seen_compile c' = dc_seen_compile c \<and> dc_seen_actual c' = dc_seen_actual c"
proof -
  have len: "length (dc_seen_source c) = n" using assms(2) by (simp add: disjunctions_ok_def)
  then have at: "get_at (dc_seen_source c) unit = Some (dc_seen_source c ! unit)" using assms(3) by simp
  show ?thesis
  proof (cases "dc_seen_source c ! unit")
    case True
    have "add_source_unit index unit c = Inr c" unfolding add_source_unit_def at option.case using True by simp
    moreover have "unit \<in> seen_units c" using True len assms(3) by (simp add: seen_units_def)
    ultimately show ?thesis using assms(2) by (simp add: insert_absorb)
  next
    case False
    let ?complete = "dc_source_complete c"
    obtain active pending where run: "fold (open_index ?complete) (dj_source_triggers index ! unit)
        (dc_source_active c, dc_pending_source c) = (active, pending)" by (meson surj_pair)
    let ?c = "c\<lparr>dc_seen_source := (dc_seen_source c)[unit := True], dc_source_active := active,
        dc_pending_source := fold (queue_index ?complete) (dj_source_choices index ! unit) pending,
        dc_pending_compiler := fold (queue_index (dc_compiler_complete c)) (dj_compiler_source_choices index ! unit)
          (dc_pending_compiler c)\<rparr>"
    have eq: "add_source_unit index unit c = Inr ?c"
      unfolding add_source_unit_def at option.case Let_def run prod.case using False by simp
    have units: "seen_units ?c = insert unit (seen_units c)"
      using len assms(3) by (auto simp: seen_units_def nth_list_update)
    have lane: "lane_ok (length (dj_source index)) active ?complete
        (X \<union> fold (queue_index ?complete) (dj_source_choices index ! unit) pending)
        (\<lambda>i. source_open (dj_source index ! i) (seen_units c) \<or> rs_trigger (dj_source index ! i) = unit)
        (\<lambda>i. source_met (dj_source index ! i) (dm_retained d))"
      by (rule lane_ok_notify [OF _ run])
        (use assms in \<open>auto simp: disjunctions_ok_def source_lane_ok_def index_ok_def source_index_ok_def\<close>)
    have "source_lane_ok index d X ?c"
      unfolding source_lane_ok_def units
      by simp (rule lane_ok_cong [OF lane], auto simp: source_open_def)
    moreover have "compiler_lane_ok index d Y ?c"
      unfolding compiler_lane_ok_def
      by simp (rule lane_ok_queue, use assms in \<open>auto simp: disjunctions_ok_def compiler_lane_ok_def index_ok_def compiler_index_ok_def\<close>)
    ultimately have "disjunctions_ok n index triggers d X Y ?c"
      using assms(2) len unfolding disjunctions_ok_def by simp
    with eq units show ?thesis by simp
  qed
qed

section \<open>The selection loop is a scan\<close>

text \<open>
  A lane of pending indices: visiting one does what the reference does, and the reference does
  nothing at an index that is not pending.
\<close>

locale pending_scan =
  fixes n :: nat and visit :: "nat \<Rightarrow> 's \<Rightarrow> retention_error + nat set \<times> 's"
    and ok :: "nat set \<Rightarrow> 's \<Rightarrow> bool" and result :: "'s \<Rightarrow> 'a" and step :: "nat \<Rightarrow> 'a \<Rightarrow> 'a"
  assumes bounded: "ok P s \<Longrightarrow> P \<subseteq> {..<n}"
    and visits: "ok P s \<Longrightarrow> i \<in> P \<Longrightarrow> i < n \<Longrightarrow>
      \<exists>queued s'. visit i s = Inr (queued, s') \<and> ok (P - {i} \<union> queued) s' \<and> result s' = step i (result s)"
    and quiet: "ok P s \<Longrightarrow> i < n \<Longrightarrow> i \<notin> P \<Longrightarrow> step i (result s) = result s"
begin

lemma quiet_range: "ok P s \<Longrightarrow> b \<le> n \<Longrightarrow> {a..<b} \<inter> P = {} \<Longrightarrow> fold step [a..<b] (result s) = result s"
proof (induction b)
  case (Suc b)
  show ?case
  proof (cases "a \<le> b")
    case True
    with Suc.prems have "fold step [a..<b] (result s) = result s"
      by (intro Suc.IH) (auto simp: disjoint_iff)
    moreover have "b \<notin> P" "b < n" using True Suc.prems by auto
    ultimately show ?thesis using True quiet [OF Suc.prems(1)] by simp
  qed simp
qed simp

lemma select_loop_scans_from:
  "m = n \<Longrightarrow> v = visit \<Longrightarrow> ok (pending \<union> deferred) s \<Longrightarrow> \<forall>j \<in> deferred. j < cursor \<Longrightarrow> cursor \<le> n \<Longrightarrow>
     \<exists>P s'. select_loop m v cursor deferred pending s = Inr (P, s') \<and> ok P s'
       \<and> result s' = fold step [cursor..<n] (result s)"
proof (induction m v cursor deferred pending s rule: select_loop.induct)
  case (1 m v cursor deferred pending s)
  have subset: "pending \<union> deferred \<subseteq> {..<n}" using 1(6) by (rule bounded)
  then have fin: "finite pending" by (auto intro: finite_subset)
  show ?case
  proof (cases "pending = {}")
    case True
    have "fold step [cursor..<n] (result s) = result s"
      by (rule quiet_range [OF 1(6)]) (use 1(7) True in auto)
    with True 1(6) show ?thesis by (simp add: select_loop.simps)
  next
    case False
    let ?i = "Min pending" and ?rest = "pending - {Min pending}"
    have go: "\<not> (pending = {} \<or> infinite pending)" using False fin by simp
    have i: "?i \<in> pending" "?i < n" using Min_in [OF fin False] subset by auto
    show ?thesis
    proof (cases "?i < cursor")
      case True
      have "select_loop m v cursor deferred pending s = select_loop m v cursor (insert ?i deferred) ?rest s"
        using go True by (subst select_loop.simps) (simp add: Let_def)
      moreover have "?rest \<union> insert ?i deferred = pending \<union> deferred" using i(1) by auto
      ultimately show ?thesis
        using 1(1) [OF go refl refl True 1(4,5)] 1(6,7,8) True by simp
    next
      case later: False
      have low: "?i \<le> j" if "j \<in> pending" for j using fin that by (rule Min_le)
      have "?i \<notin> deferred" using later 1(7) by auto
      have skip: "fold step [cursor..<?i] (result s) = result s"
        by (rule quiet_range [OF 1(6)]) (use i 1(7) low in fastforce)+
      from visits [OF 1(6), of ?i] i obtain queued s' where
        step: "visit ?i s = Inr (queued, s')" "ok (pending \<union> deferred - {?i} \<union> queued) s'"
          "result s' = step ?i (result s)" by auto
      have run: "select_loop m v cursor deferred pending s = select_loop m v (Suc ?i) deferred (?rest \<union> queued) s'"
        using go later i(2) step(1) 1(4,5)
        by (subst select_loop.simps) (simp add: Let_def not_le del: Min_less_iff Min_ge_iff)
      have sets: "pending \<union> deferred - {?i} \<union> queued = ?rest \<union> queued \<union> deferred" using \<open>?i \<notin> deferred\<close> by auto
      have "\<exists>P s''. select_loop m v (Suc ?i) deferred (?rest \<union> queued) s' = Inr (P, s'') \<and> ok P s''
          \<and> result s'' = fold step [Suc ?i..<n] (result s')"
        by (rule 1(3) [OF go refl refl later _ _ refl 1(4,5)])
          (use i step 1(4,5,7) later sets in auto)
      moreover have "[cursor..<n] = [cursor..<?i] @ ?i # [Suc ?i..<n]"
        using later i(2) by (metis le_less_linear less_imp_le_nat upt_conv_Cons upt_split)
      ultimately show ?thesis using run step(3) skip by simp
    qed
  qed
qed

lemma select_loop_scans:
  "ok pending s \<Longrightarrow> \<exists>P s'. select_loop n visit 0 {} pending s = Inr (P, s') \<and> ok P s'
     \<and> result s' = fold step [0..<n] (result s)"
  using select_loop_scans_from [of n visit pending "{}" s 0] by simp

end

section \<open>The selections\<close>

definition synced :: "disjunction_closure \<Rightarrow> demand_state \<Rightarrow> bool" where
  "synced c d \<longleftrightarrow> dc_seen_compile c = dm_compile d \<and> dc_seen_actual c = dm_actual d \<and> seen_units c = dm_retained d"

lemma disjunctions_ok_take_source:
  "disjunctions_ok n index triggers d (X \<union> dc_pending_source c) Y (c\<lparr>dc_pending_source := {}\<rparr>)
     \<longleftrightarrow> disjunctions_ok n index triggers d X Y c"
  by (simp add: disjunctions_ok_def source_lane_ok_def compiler_lane_ok_def seen_units_def)

lemma disjunctions_ok_take_compiler:
  "disjunctions_ok n index triggers d X (Y \<union> dc_pending_compiler c) (c\<lparr>dc_pending_compiler := {}\<rparr>)
     \<longleftrightarrow> disjunctions_ok n index triggers d X Y c"
  by (simp add: disjunctions_ok_def source_lane_ok_def compiler_lane_ok_def seen_units_def)

lemma disjunctions_ok_put_source:
  "dc_pending_source c = {} \<Longrightarrow>
     disjunctions_ok n index triggers d {} Y (c\<lparr>dc_pending_source := P\<rparr>) \<longleftrightarrow> disjunctions_ok n index triggers d P Y c"
  by (simp add: disjunctions_ok_def source_lane_ok_def compiler_lane_ok_def seen_units_def)

lemma disjunctions_ok_put_compiler:
  "dc_pending_compiler c = {} \<Longrightarrow>
     disjunctions_ok n index triggers d X {} (c\<lparr>dc_pending_compiler := P\<rparr>) \<longleftrightarrow> disjunctions_ok n index triggers d X P c"
  by (simp add: disjunctions_ok_def source_lane_ok_def compiler_lane_ok_def seen_units_def)

lemma synced_fields [simp]:
  "synced (c\<lparr>dc_pending_source := P\<rparr>) d = synced c d" "synced (c\<lparr>dc_pending_compiler := P\<rparr>) d = synced c d"
  "synced (c\<lparr>dc_source_complete := bs\<rparr>) d = synced c d" "synced (c\<lparr>dc_compiler_complete := bs\<rparr>) d = synced c d"
  by (simp_all add: synced_def seen_units_def)

lemma retain_selected_ok:
  assumes "index_ok n triggers index" and "disjunctions_ok n index triggers (retain_one unit d) X Y c"
    and "synced c d" and "unit \<notin> dm_retained d" and "unit < n"
  shows "\<exists>c'. retain_selected index unit (c, d, any) = Inr (c', retain_one unit d, True)
    \<and> disjunctions_ok n index triggers (retain_one unit d) X Y c' \<and> synced c' (retain_one unit d)"
proof -
  from add_source_unit_ok [OF assms(1,2,5)] obtain c' where c': "add_source_unit index unit c = Inr c'"
    "disjunctions_ok n index triggers (retain_one unit d) X Y c'" "seen_units c' = insert unit (seen_units c)"
    "dc_seen_compile c' = dc_seen_compile c" "dc_seen_actual c' = dc_seen_actual c" by blast
  have "retain_selected index unit (c, d, any) = Inr (c', retain_one unit d, True)"
    using assms(4) c'(1) by (simp add: retain_selected_def retain_source_unit_def disjunctions_add_source_def retain_one_def)
  moreover have "synced c' (retain_one unit d)"
    using c'(3-5) assms(3) by (simp add: synced_def retain_one_def)
  ultimately show ?thesis using c'(2) by blast
qed

lemma demand_le_one: "demand_le d (retain_one unit d)" "demand_le d (compile_one node d)"
  by (auto simp: demand_le_def retain_one_def compile_one_def)

definition source_work_ok ::
  "nat \<Rightarrow> disjunction_index \<Rightarrow> graph_node list \<Rightarrow> nat set \<Rightarrow> selection_work \<Rightarrow> bool" where
  "source_work_ok n index triggers P = (\<lambda>(c, d, any).
     index_ok n triggers index \<and> disjunctions_ok n index triggers d P {} c \<and> synced c d \<and> dc_pending_source c = {})"

lemma visit_source_ok:
  assumes "source_work_ok n index triggers P w" and "i \<in> P" and "i < length (dj_source index)"
  shows "\<exists>queued w'. visit_source index i w = Inr (queued, w') \<and> source_work_ok n index triggers (P - {i} \<union> queued) w'
    \<and> snd w' = scan_source (dj_source index ! i) (snd w)"
proof -
  obtain c d any where w: "w = (c, d, any)" by (cases w)
  let ?facts = "dj_source index ! i"
  from assms(1) have index: "index_ok n triggers index" and ok: "disjunctions_ok n index triggers d P {} c"
    and sync: "synced c d" and empty: "dc_pending_source c = {}" by (simp_all add: source_work_ok_def w)
  have lane: "lane_ok (length (dj_source index)) (dc_source_active c) (dc_source_complete c) P
      (\<lambda>i. source_open (dj_source index ! i) (seen_units c)) (\<lambda>i. source_met (dj_source index ! i) (dm_retained d))"
    using ok empty by (simp add: disjunctions_ok_def source_lane_ok_def)
  have opened: "dc_source_active c ! i \<longleftrightarrow> source_open ?facts (dm_retained d)"
    and met: "dc_source_complete c ! i \<longrightarrow> source_met ?facts (dm_retained d)"
    using lane assms(3) sync by (auto simp: lane_ok_def synced_def)
  show ?thesis
  proof (cases "dc_source_complete c ! i \<or> \<not> dc_source_active c ! i")
    case True
    have "lane_ok (length (dj_source index)) (dc_source_active c) (dc_source_complete c) (P - {i})
      (\<lambda>i. source_open (dj_source index ! i) (seen_units c)) (\<lambda>i. source_met (dj_source index ! i) (dm_retained d))"
      by (rule lane_ok_skip [OF lane assms(3) True])
    then have "disjunctions_ok n index triggers d (P - {i}) {} c"
      using ok empty by (simp add: disjunctions_ok_def source_lane_ok_def)
    moreover have "scan_source ?facts (d, any) = (d, any)" using True opened met by (auto simp: scan_source_def)
    ultimately show ?thesis using True index sync empty by (simp add: visit_source_def w source_work_ok_def)
  next
    case False
    let ?c = "c\<lparr>dc_source_complete := (dc_source_complete c)[i := True]\<rparr>"
    have done': "disjunctions_ok n index triggers d' (P - {i}) {} ?c"
      if "disjunctions_ok n index triggers d' P {} c" "source_met ?facts (dm_retained d')" for d'
    proof -
      have "lane_ok (length (dj_source index)) (dc_source_active c) (dc_source_complete c) P
        (\<lambda>i. source_open (dj_source index ! i) (seen_units c)) (\<lambda>i. source_met (dj_source index ! i) (dm_retained d'))"
        using that(1) empty by (simp add: disjunctions_ok_def source_lane_ok_def)
      from lane_ok_complete [OF this assms(3) that(2)] that(1) empty show ?thesis
        by (simp add: disjunctions_ok_def source_lane_ok_def compiler_lane_ok_def seen_units_def)
    qed
    from False opened have trigger: "rs_trigger ?facts \<in> dm_retained d" by (simp add: source_open_def)
    show ?thesis
    proof (cases "source_met ?facts (dm_retained d)")
      case True
      then have "visit_source index i (c, d, any) = Inr ({}, ?c, d, any)"
        using False trigger by (simp add: visit_source_def source_met_def)
      moreover have "scan_source ?facts (d, any) = (d, any)" using True by (simp add: scan_source_def)
      ultimately show ?thesis using done' [OF ok True] index sync empty by (simp add: w source_work_ok_def)
    next
      case unmet: False
      let ?unit = "rs_selected ?facts" and ?d = "retain_one (rs_selected ?facts) d"
      have selected: "?unit \<in> set (rs_choices ?facts)" "?unit < n"
        using index assms(3) by (auto simp: index_ok_def source_index_ok_def)
      then have fresh: "?unit \<notin> dm_retained d" using unmet by (auto simp: source_met_def list_ex_iff)
      have "source_met ?facts (dm_retained ?d)" using selected(1) by (auto simp: source_met_def list_ex_iff retain_one_def)
      then have "disjunctions_ok n index triggers ?d (P - {i}) {} ?c"
        using done' disjunctions_ok_mono [OF ok demand_le_one(1)] by blast
      moreover have "synced ?c d" using sync by simp
      ultimately obtain c' where c': "retain_selected index ?unit (?c, d, any) = Inr (c', ?d, True)"
        "disjunctions_ok n index triggers ?d (P - {i}) {} c'" "synced c' ?d"
        using retain_selected_ok [OF index] fresh selected(2) by blast
      have "visit_source index i (c, d, any)
          = Inr (dc_pending_source c', c'\<lparr>dc_pending_source := {}\<rparr>, ?d, True)"
        using False unmet trigger c'(1) by (simp add: visit_source_def source_met_def)
      moreover have "scan_source ?facts (d, any) = (?d, True)"
        using False opened unmet by (simp add: scan_source_def)
      moreover have "disjunctions_ok n index triggers ?d (P - {i} \<union> dc_pending_source c') {} (c'\<lparr>dc_pending_source := {}\<rparr>)"
        using c'(2) by (simp only: disjunctions_ok_take_source)
      ultimately show ?thesis using c'(3) index by (simp add: w source_work_ok_def)
    qed
  qed
qed

interpretation source_scan: pending_scan "length (dj_source index)" "visit_source index"
  "source_work_ok n index triggers" snd "\<lambda>i. scan_source (dj_source index ! i)" for n index triggers
proof
  fix P and w :: selection_work and i
  assume ok: "source_work_ok n index triggers P w"
  obtain c d any where w: "w = (c, d, any)" by (cases w)
  have lane: "lane_ok (length (dj_source index)) (dc_source_active c) (dc_source_complete c) P
      (\<lambda>i. source_open (dj_source index ! i) (seen_units c)) (\<lambda>i. source_met (dj_source index ! i) (dm_retained d))"
    using ok unfolding w source_work_ok_def disjunctions_ok_def source_lane_ok_def by auto
  then show "P \<subseteq> {..<length (dj_source index)}" by (simp add: lane_ok_def)
  show "\<exists>queued w'. visit_source index i w = Inr (queued, w') \<and> source_work_ok n index triggers (P - {i} \<union> queued) w'
      \<and> snd w' = scan_source (dj_source index ! i) (snd w)" if "i \<in> P" "i < length (dj_source index)"
    using visit_source_ok [OF ok that] .
  show "scan_source (dj_source index ! i) (snd w) = snd w" if "i < length (dj_source index)" "i \<notin> P"
    using lane_ok_quiet [OF lane that] ok by (auto simp: w scan_source_def source_work_ok_def synced_def)
qed

lemma fold_positions: "fold (\<lambda>i. f (xs ! i)) [0..<length xs] s = fold f xs s"
proof -
  have "fold f (map ((!) xs) [0..<length xs]) s = fold (\<lambda>i. f (xs ! i)) [0..<length xs] s"
    by (simp add: fold_map comp_def)
  then show ?thesis by (simp add: map_nth)
qed

lemma select_source_scans:
  assumes "index_ok n triggers index" and "disjunctions_ok n index triggers d {} {} c" and "synced c d"
  shows "\<exists>c' d' any'. select_source index (c, d, any) = Inr (c', d', any')
    \<and> (d', any') = fold scan_source (dj_source index) (d, any)
    \<and> disjunctions_ok n index triggers d' {} {} c' \<and> synced c' d'"
proof -
  have "source_work_ok n index triggers (dc_pending_source c) (c\<lparr>dc_pending_source := {}\<rparr>, d, any)"
    using assms disjunctions_ok_take_source [of n index triggers d "{}" c "{}"] by (simp add: source_work_ok_def)
  from source_scan.select_loop_scans [OF this] obtain P w where
    run: "select_loop (length (dj_source index)) (visit_source index) 0 {} (dc_pending_source c) (c\<lparr>dc_pending_source := {}\<rparr>, d, any) = Inr (P, w)"
    and ok: "source_work_ok n index triggers P w" and result: "snd w = fold scan_source (dj_source index) (d, any)"
    unfolding fold_positions snd_conv by blast
  obtain c' d' any' where w: "w = (c', d', any')" by (cases w)
  have "select_source index (c, d, any) = Inr (c'\<lparr>dc_pending_source := P\<rparr>, d', any')"
    by (simp add: select_source_def run w)
  moreover have "(d', any') = fold scan_source (dj_source index) (d, any)" using result by (simp add: w)
  moreover have "disjunctions_ok n index triggers d' {} {} (c'\<lparr>dc_pending_source := P\<rparr>)"
    "synced (c'\<lparr>dc_pending_source := P\<rparr>) d'"
    using ok disjunctions_ok_put_source [of c'] by (simp_all add: w source_work_ok_def)
  ultimately show ?thesis by blast
qed

definition compiler_work_ok ::
  "nat \<Rightarrow> disjunction_index \<Rightarrow> graph_node list \<Rightarrow> nat set \<Rightarrow> selection_work \<Rightarrow> bool" where
  "compiler_work_ok n index triggers P = (\<lambda>(c, d, any).
     index_ok n triggers index \<and> disjunctions_ok n index triggers d {} P c \<and> synced c d \<and> dc_pending_compiler c = {})"

lemma compiler_work_lane:
  assumes "compiler_work_ok n index triggers P (c, d, any)"
  shows "lane_ok (length (dj_compiler index)) (dc_compiler_active c) (dc_compiler_complete c) P
      (\<lambda>i. compiler_open (dj_compiler index ! i) (dm_compile d))
      (\<lambda>i. compiler_met (dj_compiler index ! i) (dm_compile d) (dm_retained d))"
  using assms unfolding compiler_work_ok_def disjunctions_ok_def compiler_lane_ok_def synced_def by auto

lemma retain_carrier_ok:
  assumes index: "index_ok n triggers index" and sync: "synced c d"
    and fresh: "\<not> carrier_is_retained carrier (dm_compile d) (dm_retained d)" and range: "carrier_in_range n carrier"
    and d': "d' = (case carrier of CarrierDefinition i \<Rightarrow> compile_one (NodeDefinition i) d | CarrierSource u \<Rightarrow> retain_one u d)"
    and ok: "disjunctions_ok n index triggers d' X Y c"
  shows "\<exists>c'. retain_carrier index carrier (c, d, any) = Inr (c', d', True)
    \<and> disjunctions_ok n index triggers d' X Y c' \<and> synced c' d'"
proof (cases carrier)
  case (CarrierDefinition i)
  let ?c = "add_compile_node index (NodeDefinition i) c"
  note added = add_compile_node_ok [OF index ok, of "NodeDefinition i"]
  have "retain_carrier index carrier (c, d, any) = Inr (?c, d', True)"
    using fresh by (simp add: CarrierDefinition d' retain_carrier_def require_compiler_node_def carrier_is_retained_def
        disjunctions_add_compile_def compile_one_def)
  moreover have "synced ?c d'"
    using sync added(2-4) by (simp add: synced_def CarrierDefinition d' compile_one_def seen_units_def)
  ultimately show ?thesis using added(1) by blast
next
  case (CarrierSource u)
  with d' have d': "d' = retain_one u d" by simp
  have "retain_carrier index carrier (c, d, any) = retain_selected index u (c, d, any)"
    by (simp add: CarrierSource retain_carrier_def)
  with retain_selected_ok [OF index ok [unfolded d'] sync, of any] fresh range show ?thesis
    by (simp add: CarrierSource d' carrier_is_retained_def carrier_in_range_def)
qed

lemma visit_compiler_ok:
  assumes "compiler_work_ok n index triggers P w" and "i \<in> P" and "i < length (dj_compiler index)"
  shows "\<exists>queued w'. visit_compiler index i w = Inr (queued, w') \<and> compiler_work_ok n index triggers (P - {i} \<union> queued) w'
    \<and> snd w' = scan_compiler (dj_compiler index ! i) (snd w)"
proof -
  obtain c d any where w: "w = (c, d, any)" by (cases w)
  let ?facts = "dj_compiler index ! i"
  from assms(1) have index: "index_ok n triggers index" and ok: "disjunctions_ok n index triggers d {} P c"
    and sync: "synced c d" and empty: "dc_pending_compiler c = {}" by (simp_all add: compiler_work_ok_def w)
  note lane = compiler_work_lane [OF assms(1) [unfolded w]]
  have opened: "dc_compiler_active c ! i \<longleftrightarrow> compiler_open ?facts (dm_compile d)"
    and met: "dc_compiler_complete c ! i \<longrightarrow> compiler_met ?facts (dm_compile d) (dm_retained d)"
    using lane assms(3) by (auto simp: lane_ok_def)
  show ?thesis
  proof (cases "dc_compiler_complete c ! i \<or> \<not> dc_compiler_active c ! i")
    case True
    from lane_ok_skip [OF lane assms(3) True] have "disjunctions_ok n index triggers d {} (P - {i}) c"
      using ok empty sync by (simp add: disjunctions_ok_def compiler_lane_ok_def synced_def)
    moreover have "scan_compiler ?facts (d, any) = (d, any)" using True opened met by (auto simp: scan_compiler_def)
    ultimately show ?thesis using True index sync empty by (simp add: visit_compiler_def w compiler_work_ok_def)
  next
    case False
    let ?c = "c\<lparr>dc_compiler_complete := (dc_compiler_complete c)[i := True]\<rparr>"
    have done': "disjunctions_ok n index triggers d' {} (P - {i}) ?c"
      if "disjunctions_ok n index triggers d' {} P c" "compiler_met ?facts (dm_compile d') (dm_retained d')" for d'
    proof -
      have "lane_ok (length (dj_compiler index)) (dc_compiler_active c) (dc_compiler_complete c) P
        (\<lambda>i. compiler_open (dj_compiler index ! i) (dc_seen_compile c))
        (\<lambda>i. compiler_met (dj_compiler index ! i) (dm_compile d') (dm_retained d'))"
        using that(1) empty by (simp add: disjunctions_ok_def compiler_lane_ok_def)
      from lane_ok_complete [OF this assms(3) that(2)] that(1) empty show ?thesis
        by (auto simp: disjunctions_ok_def source_lane_ok_def compiler_lane_ok_def seen_units_def)
    qed
    show ?thesis
    proof (cases "compiler_met ?facts (dm_compile d) (dm_retained d)")
      case True
      then have "visit_compiler index i (c, d, any) = Inr ({}, ?c, d, any)"
        using False by (simp add: visit_compiler_def compiler_met_def)
      moreover have "scan_compiler ?facts (d, any) = (d, any)" using True by (simp add: scan_compiler_def)
      ultimately show ?thesis using done' [OF ok True] index sync empty by (simp add: w compiler_work_ok_def)
    next
      case unmet: False
      define carrier where "carrier = rk_selected ?facts"
      define d' where "d' = (case carrier of CarrierDefinition i \<Rightarrow> compile_one (NodeDefinition i) d | CarrierSource u \<Rightarrow> retain_one u d)"
      have selected: "carrier \<in> set (rk_choices ?facts)" "carrier_in_range n carrier"
        using index assms(3) by (auto simp: index_ok_def compiler_index_ok_def carrier_def)
      then have fresh: "\<not> carrier_is_retained carrier (dm_compile d) (dm_retained d)"
        using unmet by (auto simp: compiler_met_def list_ex_iff)
      have le: "demand_le d d'" unfolding d'_def by (cases carrier) (simp_all add: demand_le_one)
      have "carrier_is_retained carrier (dm_compile d') (dm_retained d')"
        unfolding d'_def by (cases carrier) (simp_all add: carrier_is_retained_def compile_one_def retain_one_def)
      with selected(1) have "compiler_met ?facts (dm_compile d') (dm_retained d')"
        by (auto simp: compiler_met_def list_ex_iff)
      then have "disjunctions_ok n index triggers d' {} (P - {i}) ?c"
        using done' disjunctions_ok_mono [OF ok le] by blast
      moreover have "synced ?c d" using sync by simp
      ultimately obtain c' where c': "retain_carrier index carrier (?c, d, any) = Inr (c', d', True)"
        "disjunctions_ok n index triggers d' {} (P - {i}) c'" "synced c' d'"
        using retain_carrier_ok [OF index _ fresh selected(2) d'_def] by blast
      have "visit_compiler index i (c, d, any)
          = Inr (dc_pending_compiler c', c'\<lparr>dc_pending_compiler := {}\<rparr>, d', True)"
        using False unmet c'(1) by (simp add: visit_compiler_def compiler_met_def carrier_def)
      moreover have "scan_compiler ?facts (d, any) = (d', True)"
        using False opened unmet by (simp add: scan_compiler_def d'_def carrier_def split: crate_load_carrier.split)
      moreover have "disjunctions_ok n index triggers d' {} (P - {i} \<union> dc_pending_compiler c') (c'\<lparr>dc_pending_compiler := {}\<rparr>)"
        using c'(2) by (simp only: disjunctions_ok_take_compiler)
      ultimately show ?thesis using c'(3) index by (simp add: w compiler_work_ok_def)
    qed
  qed
qed

interpretation compiler_scan: pending_scan "length (dj_compiler index)" "visit_compiler index"
  "compiler_work_ok n index triggers" snd "\<lambda>i. scan_compiler (dj_compiler index ! i)" for n index triggers
proof
  fix P and w :: selection_work and i
  assume ok: "compiler_work_ok n index triggers P w"
  obtain c d any where w: "w = (c, d, any)" by (cases w)
  note lane = compiler_work_lane [OF ok [unfolded w]]
  then show "P \<subseteq> {..<length (dj_compiler index)}" by (simp add: lane_ok_def)
  show "\<exists>queued w'. visit_compiler index i w = Inr (queued, w') \<and> compiler_work_ok n index triggers (P - {i} \<union> queued) w'
      \<and> snd w' = scan_compiler (dj_compiler index ! i) (snd w)" if "i \<in> P" "i < length (dj_compiler index)"
    using visit_compiler_ok [OF ok that] .
  show "scan_compiler (dj_compiler index ! i) (snd w) = snd w" if "i < length (dj_compiler index)" "i \<notin> P"
    using lane_ok_quiet [OF lane that] by (auto simp: w scan_compiler_def)
qed

lemma select_compiler_scans:
  assumes "index_ok n triggers index" and "disjunctions_ok n index triggers d {} {} c" and "synced c d"
  shows "\<exists>c' d' any'. select_compiler index (c, d, any) = Inr (c', d', any')
    \<and> (d', any') = fold scan_compiler (dj_compiler index) (d, any)
    \<and> disjunctions_ok n index triggers d' {} {} c' \<and> synced c' d'"
proof -
  have "compiler_work_ok n index triggers (dc_pending_compiler c) (c\<lparr>dc_pending_compiler := {}\<rparr>, d, any)"
    using assms disjunctions_ok_take_compiler [of n index triggers d "{}" "{}" c] by (simp add: compiler_work_ok_def)
  from compiler_scan.select_loop_scans [OF this] obtain P w where
    run: "select_loop (length (dj_compiler index)) (visit_compiler index) 0 {} (dc_pending_compiler c) (c\<lparr>dc_pending_compiler := {}\<rparr>, d, any) = Inr (P, w)"
    and ok: "compiler_work_ok n index triggers P w" and result: "snd w = fold scan_compiler (dj_compiler index) (d, any)"
    unfolding fold_positions snd_conv by blast
  obtain c' d' any' where w: "w = (c', d', any')" by (cases w)
  have "select_compiler index (c, d, any) = Inr (c'\<lparr>dc_pending_compiler := P\<rparr>, d', any')"
    by (simp add: select_compiler_def run w)
  moreover have "(d', any') = fold scan_compiler (dj_compiler index) (d, any)" using result by (simp add: w)
  moreover have "disjunctions_ok n index triggers d' {} {} (c'\<lparr>dc_pending_compiler := P\<rparr>)"
    "synced (c'\<lparr>dc_pending_compiler := P\<rparr>) d'"
    using ok disjunctions_ok_put_compiler [of c'] by (simp_all add: w compiler_work_ok_def)
  ultimately show ?thesis by blast
qed

definition lane_work_ok ::
  "ranked_member_disjunction list \<Rightarrow> graph_node list \<Rightarrow> graph_node set \<Rightarrow> nat set \<Rightarrow> lane_work \<Rightarrow> bool" where
  "lane_work_ok members triggers opened P = (\<lambda>(lane, required, newly, any).
     length triggers = length members \<and> (\<forall>facts \<in> set members. rm_selected facts \<in> set (rm_choices facts))
     \<and> lane_ok (length members) (lane_active lane) (lane_complete lane) P
         (\<lambda>i. triggers ! i \<in> opened) (\<lambda>i. member_met (members ! i) required))"

lemma visit_member_ok:
  assumes "lane_work_ok members triggers opened P w" and "i \<in> P" and "i < length members"
  shows "\<exists>queued w'. visit_member members i w = Inr (queued, w') \<and> lane_work_ok members triggers opened (P - {i} \<union> queued) w'
    \<and> snd w' = scan_member opened (zip triggers members ! i) (snd w)"
proof -
  obtain lane required newly any where w: "w = (lane, required, newly, any)" by (cases w)
  let ?facts = "members ! i"
  from assms(1) have len: "length triggers = length members"
    and chosen: "\<forall>facts \<in> set members. rm_selected facts \<in> set (rm_choices facts)"
    and lane: "lane_ok (length members) (lane_active lane) (lane_complete lane) P
         (\<lambda>i. triggers ! i \<in> opened) (\<lambda>i. member_met (members ! i) required)" by (simp_all add: lane_work_ok_def w)
  have at: "zip triggers members ! i = (triggers ! i, ?facts)" using len assms(3) by simp
  have opened: "lane_active lane ! i \<longleftrightarrow> triggers ! i \<in> opened" and met: "lane_complete lane ! i \<longrightarrow> member_met ?facts required"
    using lane assms(3) by (auto simp: lane_ok_def)
  show ?thesis
  proof (cases "lane_complete lane ! i \<or> \<not> lane_active lane ! i")
    case True
    from lane_ok_skip [OF lane assms(3) True] True opened met len chosen show ?thesis
      unfolding at by (auto simp: visit_member_def w lane_work_ok_def scan_member_def)
  next
    case False
    let ?lane = "lane\<lparr>lane_complete := (lane_complete lane)[i := True]\<rparr>"
    show ?thesis
    proof (cases "member_met ?facts required")
      case True
      from lane_ok_complete [OF lane assms(3) True] True False len chosen show ?thesis
        unfolding at by (auto simp: visit_member_def member_met_def w lane_work_ok_def scan_member_def)
    next
      case unmet: False
      have selected: "rm_selected ?facts \<in> set (rm_choices ?facts)" using chosen assms(3) by simp
      then have fresh: "rm_selected ?facts \<notin> required" using unmet by (auto simp: member_met_def list_ex_iff)
      let ?required = "insert (rm_selected ?facts) required"
      have "lane_ok (length members) (lane_active lane) (lane_complete lane) P
         (\<lambda>i. triggers ! i \<in> opened) (\<lambda>i. member_met (members ! i) ?required)"
        by (rule lane_ok_met [OF lane]) (auto simp: member_met_def list_ex_iff)
      moreover have "member_met ?facts ?required" using selected by (auto simp: member_met_def list_ex_iff)
      ultimately have "lane_ok (length members) (lane_active lane) ((lane_complete lane)[i := True]) (P - {i})
         (\<lambda>i. triggers ! i \<in> opened) (\<lambda>i. member_met (members ! i) ?required)"
        using lane_ok_complete assms(3) by blast
      moreover have "visit_member members i w = Inr ({}, ?lane, ?required, newly @ [rm_selected ?facts], True)"
        using False unmet fresh by (simp add: visit_member_def w member_met_def Let_def)
      moreover have "scan_member opened (zip triggers members ! i) (required, newly, any)
          = (?required, newly @ [rm_selected ?facts], True)"
        using False opened unmet by (simp add: at scan_member_def)
      ultimately show ?thesis using len chosen by (simp add: lane_work_ok_def w)
    qed
  qed
qed

interpretation member_scan: pending_scan "length members" "visit_member members"
  "lane_work_ok members triggers opened" snd "\<lambda>i. scan_member opened (zip triggers members ! i)" for members triggers opened
proof
  fix P and w :: lane_work and i
  assume ok: "lane_work_ok members triggers opened P w"
  obtain lane required newly any where w: "w = (lane, required, newly, any)" by (cases w)
  have len: "length triggers = length members"
    and lane: "lane_ok (length members) (lane_active lane) (lane_complete lane) P
         (\<lambda>i. triggers ! i \<in> opened) (\<lambda>i. member_met (members ! i) required)"
    using ok by (simp_all add: lane_work_ok_def w)
  show "P \<subseteq> {..<length members}" using lane by (simp add: lane_ok_def)
  show "\<exists>queued w'. visit_member members i w = Inr (queued, w') \<and> lane_work_ok members triggers opened (P - {i} \<union> queued) w'
      \<and> snd w' = scan_member opened (zip triggers members ! i) (snd w)" if "i \<in> P" "i < length members"
    using visit_member_ok [OF ok that] .
  show "scan_member opened (zip triggers members ! i) (snd w) = snd w" if "i < length members" "i \<notin> P"
    using lane_ok_quiet [OF lane that] len that(1) by (auto simp: w scan_member_def)
qed

lemma select_member_lane_scans:
  assumes "member_index_ok triggers index" and "member_lane_ok index triggers opened required {} lane"
  shows "\<exists>lane' required' newly' any. select_member_lane (dj_members index) lane required newly = Inr (lane', required', newly', any)
    \<and> (required', newly', any) = fold (scan_member opened) (zip triggers (dj_members index)) (required, newly, False)
    \<and> member_lane_ok index triggers opened required' {} lane'"
proof -
  let ?members = "dj_members index"
  have len: "length triggers = length ?members" using assms(1) by (simp add: member_index_ok_def)
  have "lane_work_ok ?members triggers opened (lane_pending lane) (lane\<lparr>lane_pending := {}\<rparr>, required, newly, False)"
    using assms by (simp add: lane_work_ok_def member_index_ok_def member_lane_ok_def)
  from member_scan.select_loop_scans [OF this] obtain P w where
    run: "select_loop (length ?members) (visit_member ?members) 0 {} (lane_pending lane) (lane\<lparr>lane_pending := {}\<rparr>, required, newly, False) = Inr (P, w)"
    and ok: "lane_work_ok ?members triggers opened P w"
    and result: "snd w = fold (\<lambda>i. scan_member opened (zip triggers ?members ! i)) [0..<length ?members] (required, newly, False)"
    unfolding snd_conv by blast
  from result have result: "snd w = fold (scan_member opened) (zip triggers ?members) (required, newly, False)"
    using fold_positions [of "scan_member opened" "zip triggers ?members"] len by simp
  obtain lane' required' newly' any where w: "w = (lane', required', newly', any)" by (cases w)
  have "select_member_lane ?members lane required newly = Inr (lane'\<lparr>lane_pending := P\<rparr>, required', newly', any)"
    by (simp add: select_member_lane_def run w)
  moreover have "member_lane_ok index triggers opened required' {} (lane'\<lparr>lane_pending := P\<rparr>)"
    using ok by (simp add: lane_work_ok_def member_lane_ok_def w)
  moreover have "(required', newly', any) = fold (scan_member opened) (zip triggers ?members) (required, newly, False)"
    using result by (simp add: w)
  ultimately show ?thesis by blast
qed

text \<open>A pass over nodes adds to the set exactly what it appends to the list.\<close>

definition extends_nodes :: "graph_node set \<times> graph_node list \<Rightarrow> graph_node set \<times> graph_node list \<Rightarrow> bool" where
  "extends_nodes = (\<lambda>(required, newly) (required', newly'). \<exists>xs. newly' = newly @ xs \<and> required' = required \<union> set xs)"

lemma extends_nodes_refl: "extends_nodes w w"
  by (cases w) (simp add: extends_nodes_def)

lemma extends_nodes_trans: "extends_nodes u v \<Longrightarrow> extends_nodes v w \<Longrightarrow> extends_nodes u w"
  by (cases u; cases v; cases w) (auto simp: extends_nodes_def)

lemma scan_member_extends:
  "(required', newly', any') = fold (scan_member opened) members (required, newly, any)
     \<Longrightarrow> extends_nodes (required, newly) (required', newly')"
proof (induction members arbitrary: required newly any)
  case Nil
  then show ?case by (simp add: extends_nodes_refl)
next
  case (Cons m members)
  obtain required1 newly1 any1 where step: "scan_member opened m (required, newly, any) = (required1, newly1, any1)"
    by (cases "scan_member opened m (required, newly, any)")
  then have "extends_nodes (required, newly) (required1, newly1)"
    by (auto simp: scan_member_def extends_nodes_def split: prod.splits if_splits)
  moreover have "extends_nodes (required1, newly1) (required', newly')"
    using Cons.prems step by (intro Cons.IH) simp
  ultimately show ?case by (rule extends_nodes_trans)
qed

lemma mirror_nodes_extends:
  "mirror_nodes nodes w = (required', newly') \<Longrightarrow> extends_nodes w (required', newly') \<and> required' = fst w \<union> set nodes"
proof (induction nodes arbitrary: w)
  case Nil
  then show ?case by (auto simp: mirror_nodes_def extends_nodes_refl)
next
  case (Cons node nodes)
  obtain required newly where w: "w = (required, newly)" by (cases w)
  let ?w = "snd (require_compiler_node required newly node)"
  have "mirror_nodes nodes ?w = (required', newly')" using Cons.prems by (simp add: mirror_nodes_def w)
  from Cons.IH [OF this] have IH: "extends_nodes ?w (required', newly')" "required' = fst ?w \<union> set nodes" by blast+
  have "extends_nodes w ?w" "fst ?w = insert node required"
    by (auto simp: w require_compiler_node_def extends_nodes_def)
  with IH show ?case using extends_nodes_trans by (auto simp: w)
qed

lemma extends_nodes_drop:
  "extends_nodes (required, newly) (required', newly') \<Longrightarrow> required' = required \<union> set (drop (length newly) newly')"
  by (auto simp: extends_nodes_def)

lemma add_compile_ok:
  assumes "index_ok n triggers index"
  shows "disjunctions_ok n index triggers d X Y c \<Longrightarrow>
    disjunctions_ok n index triggers d X Y (disjunctions_add_compile index nodes c)
    \<and> dc_seen_compile (disjunctions_add_compile index nodes c) = dc_seen_compile c \<union> set nodes
    \<and> seen_units (disjunctions_add_compile index nodes c) = seen_units c
    \<and> dc_seen_actual (disjunctions_add_compile index nodes c) = dc_seen_actual c"
proof (induction nodes arbitrary: c)
  case (Cons node nodes)
  note step = add_compile_node_ok [OF assms Cons.prems, of node]
  from Cons.IH [OF step(1)] step(2-4) show ?case by (simp add: disjunctions_add_compile_def seen_units_def)
qed (simp add: disjunctions_add_compile_def)

lemma add_actual_ok:
  assumes "index_ok n triggers index"
  shows "disjunctions_ok n index triggers d X Y c \<Longrightarrow>
    disjunctions_ok n index triggers d X Y (disjunctions_add_actual index nodes c)
    \<and> dc_seen_actual (disjunctions_add_actual index nodes c) = dc_seen_actual c \<union> set nodes
    \<and> seen_units (disjunctions_add_actual index nodes c) = seen_units c
    \<and> dc_seen_compile (disjunctions_add_actual index nodes c) = dc_seen_compile c"
proof (induction nodes arbitrary: c)
  case (Cons node nodes)
  note step = add_actual_node_ok [OF assms Cons.prems, of node]
  from Cons.IH [OF step(1)] step(2-4) show ?case by (simp add: disjunctions_add_actual_def seen_units_def)
qed (simp add: disjunctions_add_actual_def)

lemma select_members_scans:
  assumes index: "index_ok n triggers index" and ok: "disjunctions_ok n index triggers d {} {} c" and sync: "synced c d"
  shows "\<exists>c' d' any'. select_members index (c, d, any) = Inr (c', d', any')
    \<and> (d', any') = scan_members (zip triggers (dj_members index)) (d, any)
    \<and> disjunctions_ok n index triggers d' {} {} c' \<and> synced c' d'"
proof -
  let ?members = "dj_members index"
  have members: "member_index_ok triggers index" using index by (simp add: index_ok_def)
  have compile_lane: "member_lane_ok index triggers (dm_compile d) (dm_compile d) {} (dc_compile_members c)"
    and actual_lane: "member_lane_ok index triggers (dm_actual d) (dm_actual d) {} (dc_actual_members c)"
    using ok sync by (simp_all add: disjunctions_ok_def synced_def)
  obtain lane1 compile1 newly1 any1 where one:
    "select_member_lane ?members (dc_compile_members c) (dm_compile d) (dm_newly_compile d) = Inr (lane1, compile1, newly1, any1)"
    "(compile1, newly1, any1) = fold (scan_member (dm_compile d)) (zip triggers ?members) (dm_compile d, dm_newly_compile d, False)"
    "member_lane_ok index triggers (dm_compile d) compile1 {} lane1"
    using select_member_lane_scans [OF members compile_lane] by blast
  obtain lane2 actual newly2 any2 where two:
    "select_member_lane ?members (dc_actual_members c) (dm_actual d) (dm_newly_actual d) = Inr (lane2, actual, newly2, any2)"
    "(actual, newly2, any2) = fold (scan_member (dm_actual d)) (zip triggers ?members) (dm_actual d, dm_newly_actual d, False)"
    "member_lane_ok index triggers (dm_actual d) actual {} lane2"
    using select_member_lane_scans [OF members actual_lane] by blast
  let ?deltas = "drop (length (dm_newly_actual d)) newly2"
  obtain compile newly where mirror: "mirror_nodes ?deltas (compile1, newly1) = (compile, newly)" by (meson surj_pair)
  let ?d = "d\<lparr>dm_compile := compile, dm_newly_compile := newly, dm_actual := actual, dm_newly_actual := newly2\<rparr>"
  let ?c1 = "c\<lparr>dc_compile_members := lane1, dc_actual_members := lane2\<rparr>"
  let ?added = "drop (length (dm_newly_compile d)) newly"
  let ?c2 = "disjunctions_add_compile index ?added ?c1"
  let ?c3 = "disjunctions_add_actual index ?deltas ?c2"
  have compile_ext: "extends_nodes (dm_compile d, dm_newly_compile d) (compile, newly)"
    and actual_ext: "extends_nodes (dm_actual d, dm_newly_actual d) (actual, newly2)"
    using scan_member_extends [OF one(2)] scan_member_extends [OF two(2)] mirror_nodes_extends [OF mirror]
    by (auto intro: extends_nodes_trans)
  have sets: "compile = dm_compile d \<union> set ?added" "actual = dm_actual d \<union> set ?deltas"
    using extends_nodes_drop [OF compile_ext] extends_nodes_drop [OF actual_ext] by simp_all
  have "compile1 \<subseteq> compile" using mirror_nodes_extends [OF mirror] by auto
  then have lane1: "member_lane_ok index triggers (dm_compile d) compile {} lane1"
    using one(3) unfolding member_lane_ok_def by (elim lane_ok_met) (auto simp: member_met_def list_ex_iff)
  have "demand_le d ?d" using sets by (auto simp: demand_le_def)
  from disjunctions_ok_mono [OF ok this] lane1 two(3) sync
  have c1: "disjunctions_ok n index triggers ?d {} {} ?c1"
    by (auto simp: disjunctions_ok_def source_lane_ok_def compiler_lane_ok_def synced_def seen_units_def)
  note c2 = add_compile_ok [OF index c1, of ?added]
  note c3 = add_actual_ok [OF index c2 [THEN conjunct1], of ?deltas]
  have "synced ?c3 ?d" using c2 c3 sync sets by (simp add: synced_def seen_units_def)
  moreover have "select_members index (c, d, any) = Inr (?c3, ?d, any \<or> any1 \<or> any2)"
    by (simp add: select_members_def one(1) two(1) mirror Let_def)
  moreover have "(?d, any \<or> any1 \<or> any2) = scan_members (zip triggers ?members) (d, any)"
    unfolding scan_members_def prod.case one(2) [symmetric] two(2) [symmetric] Let_def mirror by simp
  ultimately show ?thesis using c3 by blast
qed

lemma disjunctions_select_scans:
  assumes index: "index_ok n triggers index" and ok: "disjunctions_ok n index triggers d {} {} c" and sync: "synced c d"
  shows "\<exists>c' d' any. disjunctions_select index c d = Inr (c', d', any) \<and> (d', any) = scan_disjunctions index triggers d
    \<and> disjunctions_ok n index triggers d' {} {} c' \<and> synced c' d'"
proof -
  obtain c1 d1 any1 where 1: "select_source index (c, d, False) = Inr (c1, d1, any1)"
    "(d1, any1) = fold scan_source (dj_source index) (d, False)" "disjunctions_ok n index triggers d1 {} {} c1" "synced c1 d1"
    using select_source_scans [OF index ok sync] by blast
  obtain c2 d2 any2 where 2: "select_compiler index (c1, d1, any1) = Inr (c2, d2, any2)"
    "(d2, any2) = fold scan_compiler (dj_compiler index) (d1, any1)" "disjunctions_ok n index triggers d2 {} {} c2" "synced c2 d2"
    using select_compiler_scans [OF index 1(3,4)] by blast
  obtain c3 d3 any3 where 3: "select_members index (c2, d2, any2) = Inr (c3, d3, any3)"
    "(d3, any3) = scan_members (zip triggers (dj_members index)) (d2, any2)"
    "disjunctions_ok n index triggers d3 {} {} c3" "synced c3 d3"
    using select_members_scans [OF index 2(3,4)] by blast
  have "disjunctions_select index c d = Inr (c3, d3, any3)" by (simp add: disjunctions_select_def 1(1) 2(1) 3(1))
  moreover have "(d3, any3) = scan_disjunctions index triggers d"
    by (simp add: scan_disjunctions_def 3(2) 2(2) 1(2) [symmetric])
  ultimately show ?thesis using 3(3,4) by blast
qed

end
