(* ===== verification/Disjunction_Session.thy ===== *)
theory Disjunction_Session
  imports Disjunction_Scan
begin

text \<open>
  The construction of the disjunction closure, whose tables and selections are exact, and its use by
  \<open>compute_retention\<close>: seeding, then rounds of notifications and selections.  A session of the closure
  is a session of the reference that scans all disjunctions.
\<close>

section \<open>Construction\<close>

definition least_by :: "('a \<Rightarrow> 'k::linorder) \<Rightarrow> 'a list \<Rightarrow> 'a \<Rightarrow> bool" where
  "least_by f xs x \<longleftrightarrow> x \<in> set xs \<and> (\<forall>y \<in> set xs. f x \<le> f y)"

lemma min_by_key_least: "min_by_key f xs = Some x \<Longrightarrow> least_by f xs x"
proof (induction xs arbitrary: x)
  case (Cons y ys)
  show ?case
  proof (cases "min_by_key f ys")
    case None
    then have "ys = []" by (cases ys) (auto split: option.splits if_splits)
    with Cons.prems show ?thesis by (simp add: least_by_def)
  next
    case (Some z)
    from Cons.IH [OF Some] Cons.prems Some show ?thesis
      by (auto simp: least_by_def split: if_splits)
  qed
qed simp

lemma min_by_key_None: "min_by_key f xs = None \<longleftrightarrow> xs = []"
  by (cases xs) (auto split: option.splits)

definition unit_rank :: "source_inventory \<Rightarrow> source_unit_id \<Rightarrow> nat \<times> byte_range \<times> source_unit_id" where
  "unit_rank source choice =
     (let unit = src_units source ! choice in (range_len (full_range unit), full_range unit, unit_id unit))"

definition source_ranked :: "source_inventory \<Rightarrow> source_disjunction \<Rightarrow> ranked_source_disjunction \<Rightarrow> bool" where
  "source_ranked source d facts \<longleftrightarrow>
     rs_trigger facts = sd_trigger d \<and> rs_choices facts = sd_choices d
     \<and> least_by (unit_rank source) (sd_choices d) (rs_selected facts)"

definition compiler_ranked ::
  "source_inventory \<Rightarrow> dependency_graph \<Rightarrow> source_unit_id option list \<Rightarrow> macro_products
     \<Rightarrow> crate_load_disjunction \<Rightarrow> ranked_compiler_disjunction \<Rightarrow> bool" where
  "compiler_ranked source graph singletons products d facts \<longleftrightarrow>
     rk_trigger facts = cl_trigger d \<and> rk_choices facts = cl_choices d
     \<and> least_ranked (plain_carrier_rank source graph singletons products) (cl_choices d) (rk_selected facts)"

definition member_ranked ::
  "source_inventory \<Rightarrow> dependency_graph \<Rightarrow> source_unit_id option list \<Rightarrow> macro_products
     \<Rightarrow> definition_disjunction \<Rightarrow> ranked_member_disjunction \<Rightarrow> bool" where
  "member_ranked source graph singletons products d facts \<longleftrightarrow>
     rm_choices facts = map NodeDefinition (dd_choices d)
     \<and> (\<exists>choice. rm_selected facts = NodeDefinition choice
          \<and> least_ranked (plain_choice_rank source graph singletons products) (dd_choices d) choice)"

definition in_range :: "nat \<Rightarrow> source_disjunction \<Rightarrow> bool" where
  "in_range n d \<longleftrightarrow> sd_trigger d < n \<and> list_all (\<lambda>choice. choice < n) (sd_choices d)"

lemma fold_push_at:
  "length (fold (push_at x) is table) = length table
   \<and> (\<forall>u < length table. set (fold (push_at x) is table ! u) \<subseteq> insert x (set (table ! u)))"
proof (induction "is" arbitrary: table)
  case (Cons i js)
  note IH = Cons.IH [of "push_at x i table"]
  have "set (push_at x i table ! u) \<subseteq> insert x (set (table ! u))" "length (push_at x i table) = length table"
    if "u < length table" for u
    using that by (cases "u = i"; auto simp: push_at_def)+
  with IH show ?case by (fastforce simp: push_at_def)
qed auto

lemma entries_push: "entries (push_edge_entry k x m) node = entries m node @ (if node = k then [x] else [])"
  by (auto simp: entries_def push_edge_entry_def)

lemma set_entries_push:
  "set (entries (push_edge_entry k x m) node) = set (entries m node) \<union> (if node = k then {x} else {})"
  unfolding entries_push by (cases "node = k") simp_all

lemma positions_snoc:
  "{i. i < length (xs @ [x]) \<and> P ((xs @ [x]) ! i)} = {i. i < length xs \<and> P (xs ! i)} \<union> (if P x then {length xs} else {})"
proof -
  have "i < length (xs @ [x]) \<and> P ((xs @ [x]) ! i) \<longleftrightarrow> i < length xs \<and> P (xs ! i) \<or> i = length xs \<and> P x" for i
    by (cases "i < length xs") (auto simp: nth_append)
  then show ?thesis by auto
qed

lemma entries_fold_push:
  "set (entries (fold (\<lambda>k. push_edge_entry k x) ks m) node) \<subseteq> insert x (set (entries m node))"
proof (induction ks arbitrary: m)
  case (Cons k ks)
  have "set (entries (push_edge_entry k x m) node) \<subseteq> insert x (set (entries m node))"
    unfolding entries_push by (cases "node = k") auto
  with Cons.IH [of "push_edge_entry k x m"] show ?case by auto
qed auto

definition source_tables_ok :: "source_inventory \<Rightarrow> source_disjunction list \<Rightarrow> source_tables \<Rightarrow> bool" where
  "source_tables_ok source ds = (\<lambda>(ranked, triggers, choices).
     list_all2 (source_ranked source) ds ranked
     \<and> length triggers = length (src_units source) \<and> length choices = length (src_units source)
     \<and> (\<forall>u < length (src_units source). set (triggers ! u) = {i. i < length ds \<and> sd_trigger (ds ! i) = u})
     \<and> (\<forall>u < length (src_units source). set (choices ! u) \<subseteq> {..<length ds}))"

lemma source_tables_step:
  assumes "source_tables_ok source ds tables" and "in_range (length (src_units source)) d"
  shows "case add_source_disjunction source (length ds, d) tables of
     Inl e \<Rightarrow> e = InvalidConstraint \<and> sd_choices d = []
   | Inr tables' \<Rightarrow> source_tables_ok source (ds @ [d]) tables'"
proof -
  obtain ranked triggers choices where tables: "tables = (ranked, triggers, choices)" by (cases tables)
  have key: "(\<lambda>choice. let unit = src_units source ! choice in (range_len (full_range unit), full_range unit, unit_id unit)) = unit_rank source"
    by (simp add: unit_rank_def fun_eq_iff)
  show ?thesis
  proof (cases "min_by_key (unit_rank source) (sd_choices d)")
    case None
    then show ?thesis by (simp add: add_source_disjunction_def tables key min_by_key_None)
  next
    case (Some selected)
    let ?facts = "\<lparr>rs_trigger = sd_trigger d, rs_choices = sd_choices d, rs_selected = selected\<rparr>"
    have "source_ranked source d ?facts" using min_by_key_least [OF Some] by (simp add: source_ranked_def)
    then have "list_all2 (source_ranked source) (ds @ [d]) (ranked @ [?facts])"
      using assms(1) by (simp add: source_tables_ok_def tables list_all2_appendI)
    moreover have "set (push_at (length ds) (sd_trigger d) triggers ! u) = {i. i < length (ds @ [d]) \<and> sd_trigger ((ds @ [d]) ! i) = u}"
      if "u < length (src_units source)" for u
      using assms that by (auto simp: source_tables_ok_def tables push_at_def nth_list_update nth_append in_range_def)
    moreover have "set (fold (push_at (length ds)) (sd_choices d) choices ! u) \<subseteq> {..<length (ds @ [d])}"
      if "u < length (src_units source)" for u
    proof -
      have "set (choices ! u) \<subseteq> {..<length ds}" "u < length choices"
        using assms(1) that by (auto simp: source_tables_ok_def tables)
      with fold_push_at [of "length ds" "sd_choices d" choices] show ?thesis by fastforce
    qed
    moreover have "length (push_at (length ds) (sd_trigger d) triggers) = length (src_units source)"
      "length (fold (push_at (length ds)) (sd_choices d) choices) = length (src_units source)"
      using assms(1) fold_push_at by (auto simp: source_tables_ok_def tables push_at_def)
    ultimately have "source_tables_ok source (ds @ [d])
        (ranked @ [?facts], push_at (length ds) (sd_trigger d) triggers, fold (push_at (length ds)) (sd_choices d) choices)"
      unfolding source_tables_ok_def prod.case by blast
    then show ?thesis by (simp add: add_source_disjunction_def tables key Some)
  qed
qed

text \<open>Both the carriers and the members are added with the same cache.\<close>

lemma fold_enumerate_cases:
  assumes start: "good [] s"
    and step: "\<And>ds d s. good ds s \<Longrightarrow> ok d \<Longrightarrow>
      case f (length ds, d) s of Inl e \<Rightarrow> e = InvalidConstraint \<and> bad d | Inr s' \<Rightarrow> good (ds @ [d]) s'"
    and "list_all ok ds"
  shows "case fold_result f (enumerate 0 ds) s of
     Inl e \<Rightarrow> e = InvalidConstraint \<and> list_ex bad ds | Inr s' \<Rightarrow> good ds s'"
  using assms(3)
proof (induction ds rule: rev_induct)
  case Nil
  then show ?case using start by simp
next
  case (snoc d ds)
  show ?case
  proof (cases "fold_result f (enumerate 0 ds) s")
    case (Inl e)
    with snoc show ?thesis by (simp add: enumerate_append_eq fold_result_append)
  next
    case (Inr s')
    with snoc have "good ds s'" "ok d" by simp_all
    from step [OF this] Inr show ?thesis
      by (auto simp: enumerate_append_eq fold_result_append bind_result_def split: sum.splits)
  qed
qed

lemma add_carriers:
  "fold (add_carrier x) carriers (definitions, sources) = (definitions', sources') \<Longrightarrow>
     length sources' = length sources
     \<and> (\<forall>node. set (entries definitions' node) \<subseteq> insert x (set (entries definitions node)))
     \<and> (\<forall>u < length sources. set (sources' ! u) \<subseteq> insert x (set (sources ! u)))"
proof (induction carriers arbitrary: definitions sources)
  case Nil
  then show ?case by auto
next
  case (Cons carrier carriers)
  obtain definitions1 sources1 where step: "add_carrier x carrier (definitions, sources) = (definitions1, sources1)"
    by (cases "add_carrier x carrier (definitions, sources)")
  have step1: "length sources1 = length sources"
    "set (entries definitions1 node) \<subseteq> insert x (set (entries definitions node))"
    "u < length sources \<Longrightarrow> set (sources1 ! u) \<subseteq> insert x (set (sources ! u))" for node u
  proof -
    show "length sources1 = length sources" using step by (cases carrier) (auto simp: add_carrier_def push_at_def)
    show "set (entries definitions1 node) \<subseteq> insert x (set (entries definitions node))"
    proof (cases carrier)
      case (CarrierDefinition i)
      with step have "definitions1 = push_edge_entry (NodeDefinition i) x definitions" by (simp add: add_carrier_def)
      then show ?thesis unfolding entries_push by (cases "node = NodeDefinition i") (auto simp: entries_push)
    next
      case (CarrierSource u)
      with step show ?thesis by (auto simp: add_carrier_def)
    qed
    show "set (sources1 ! u) \<subseteq> insert x (set (sources ! u))" if "u < length sources"
    proof (cases carrier)
      case (CarrierDefinition i)
      with step show ?thesis by (auto simp: add_carrier_def)
    next
      case (CarrierSource v)
      with step that show ?thesis by (cases "u = v") (auto simp: add_carrier_def push_at_def)
    qed
  qed
  have "fold (add_carrier x) carriers (definitions1, sources1) = (definitions', sources')"
    using Cons.prems step by simp
  note IH = Cons.IH [OF this]
  have widen: "A \<subseteq> insert x C" if "A \<subseteq> insert x B" "B \<subseteq> insert x C" for A B C :: "nat set" using that by blast
  show ?case
  proof (intro conjI allI impI)
    show "length sources' = length sources" using IH step1(1) by simp
    show "set (entries definitions' node) \<subseteq> insert x (set (entries definitions node))" for node
      using IH step1(2) by (blast intro: widen)
    fix u
    assume u: "u < length sources"
    then have "set (sources' ! u) \<subseteq> insert x (set (sources1 ! u))" using IH step1(1) by simp
    then show "set (sources' ! u) \<subseteq> insert x (set (sources ! u))" using step1(3) [OF u] by (rule widen)
  qed
qed

definition compiler_tables_ok ::
  "source_inventory \<Rightarrow> dependency_graph \<Rightarrow> source_unit_id option list \<Rightarrow> macro_products
     \<Rightarrow> crate_load_disjunction list \<Rightarrow> compiler_tables \<Rightarrow> bool" where
  "compiler_tables_ok source graph singletons products ds = (\<lambda>(ranked, triggers, definitions, sources, cache).
     list_all2 (compiler_ranked source graph singletons products) ds ranked
     \<and> length sources = length (src_units source)
     \<and> (\<forall>node. set (entries triggers node) = {i. i < length ds \<and> cl_trigger (ds ! i) = Some node})
     \<and> (\<forall>node. set (entries definitions node) \<subseteq> {..<length ds})
     \<and> (\<forall>u < length (src_units source). set (sources ! u) \<subseteq> {..<length ds})
     \<and> cache_valid source products cache)"

definition carriers_unrankable ::
  "source_inventory \<Rightarrow> dependency_graph \<Rightarrow> source_unit_id option list \<Rightarrow> macro_products \<Rightarrow> crate_load_carrier list \<Rightarrow> bool" where
  "carriers_unrankable source graph singletons products choices \<longleftrightarrow>
     choices = [] \<or> list_ex (\<lambda>c. plain_carrier_rank source graph singletons products c = Inl InvalidConstraint) choices"

definition definitions_unrankable ::
  "source_inventory \<Rightarrow> dependency_graph \<Rightarrow> source_unit_id option list \<Rightarrow> macro_products \<Rightarrow> definition_id list \<Rightarrow> bool" where
  "definitions_unrankable source graph singletons products choices \<longleftrightarrow>
     choices = [] \<or> list_ex (\<lambda>c. plain_choice_rank source graph singletons products c = Inl InvalidConstraint) choices"

lemma compiler_tables_step:
  assumes ok: "compiler_tables_ok source graph singletons products ds tables"
  shows "case add_compiler_disjunction source graph singletons products (length ds, d) tables of
     Inl e \<Rightarrow> e = InvalidConstraint \<and> carriers_unrankable source graph singletons products (cl_choices d)
   | Inr tables' \<Rightarrow> compiler_tables_ok source graph singletons products (ds @ [d]) tables'"
proof -
  obtain ranked triggers definitions sources cache where tables: "tables = (ranked, triggers, definitions, sources, cache)"
    by (cases tables)
  have valid: "cache_valid source products cache" using ok by (simp add: compiler_tables_ok_def tables)
  let ?rank = "compiler_crate_load_carrier_rank source graph singletons products"
  note exact = carrier_ranks.select_ranked_exact [OF valid, where choices = "cl_choices d" and graph = graph and singletons = singletons]
  show ?thesis
  proof (cases "select_ranked ?rank (cl_choices d) cache")
    case (Inl e)
    with exact show ?thesis
      by (auto simp: add_compiler_disjunction_def tables carriers_unrankable_def list_ex_iff)
  next
    case (Inr w)
    obtain selected cache' where w: "w = (selected, cache')" by (cases w)
    obtain definitions' sources' where carriers: "fold (add_carrier (length ds)) (cl_choices d) (definitions, sources) = (definitions', sources')"
      by (cases "fold (add_carrier (length ds)) (cl_choices d) (definitions, sources)")
    let ?triggers = "case cl_trigger d of None \<Rightarrow> triggers | Some node \<Rightarrow> push_edge_entry node (length ds) triggers"
    let ?facts = "\<lparr>rk_trigger = cl_trigger d, rk_choices = cl_choices d, rk_selected = selected\<rparr>"
    have run: "add_compiler_disjunction source graph singletons products (length ds, d) tables
        = Inr (ranked @ [?facts], ?triggers, definitions', sources', cache')"
      by (simp add: add_compiler_disjunction_def tables Inr w carriers Let_def)
    from exact Inr w have "cache_valid source products cache'" "compiler_ranked source graph singletons products d ?facts"
      by (simp_all add: compiler_ranked_def)
    moreover have "list_all2 (compiler_ranked source graph singletons products) (ds @ [d]) (ranked @ [?facts])"
      using ok calculation(2) by (simp add: compiler_tables_ok_def tables list_all2_appendI)
    moreover have "set (entries ?triggers node) = {i. i < length (ds @ [d]) \<and> cl_trigger ((ds @ [d]) ! i) = Some node}" for node
    proof -
      have before: "set (entries triggers node) = {i. i < length ds \<and> cl_trigger (ds ! i) = Some node}"
        using ok by (simp add: compiler_tables_ok_def tables)
      note after = positions_snoc [of ds d "\<lambda>d. cl_trigger d = Some node"]
      show ?thesis
      proof (cases "cl_trigger d")
        case None
        then show ?thesis unfolding after by (simp add: before)
      next
        case (Some k)
        with before show ?thesis unfolding after by (cases "node = k") (simp_all add: set_entries_push)
      qed
    qed
    moreover have "set (entries definitions' node) \<subseteq> {..<length (ds @ [d])}" for node
    proof -
      have "set (entries definitions node) \<subseteq> {..<length ds}" using ok by (simp add: compiler_tables_ok_def tables)
      with add_carriers [OF carriers] show ?thesis by fastforce
    qed
    moreover have "length sources' = length (src_units source)"
      using ok add_carriers [OF carriers] by (simp add: compiler_tables_ok_def tables)
    moreover have "set (sources' ! u) \<subseteq> {..<length (ds @ [d])}" if "u < length (src_units source)" for u
    proof -
      have "set (sources ! u) \<subseteq> {..<length ds}" "u < length sources"
        using ok that by (simp_all add: compiler_tables_ok_def tables)
      with add_carriers [OF carriers] show ?thesis by fastforce
    qed
    ultimately show ?thesis unfolding run by (simp add: compiler_tables_ok_def)
  qed
qed

definition member_tables_ok ::
  "source_inventory \<Rightarrow> dependency_graph \<Rightarrow> source_unit_id option list \<Rightarrow> macro_products
     \<Rightarrow> definition_disjunction list \<Rightarrow> member_tables \<Rightarrow> bool" where
  "member_tables_ok source graph singletons products ds = (\<lambda>(ranked, triggers, choices, cache).
     list_all2 (member_ranked source graph singletons products) ds ranked
     \<and> (\<forall>node. set (entries triggers node) = {i. i < length ds \<and> NodeDefinition (dd_trigger (ds ! i)) = node})
     \<and> (\<forall>node. set (entries choices node) \<subseteq> {..<length ds})
     \<and> cache_valid source products cache)"

lemma member_tables_step:
  assumes ok: "member_tables_ok source graph singletons products ds tables"
  shows "case add_member_disjunction source graph singletons products (length ds, d) tables of
     Inl e \<Rightarrow> e = InvalidConstraint \<and> definitions_unrankable source graph singletons products (dd_choices d)
   | Inr tables' \<Rightarrow> member_tables_ok source graph singletons products (ds @ [d]) tables'"
proof -
  obtain ranked triggers choices cache where tables: "tables = (ranked, triggers, choices, cache)" by (cases tables)
  have valid: "cache_valid source products cache" using ok by (simp add: member_tables_ok_def tables)
  let ?rank = "definition_choice_rank source graph singletons products"
  note exact = definition_ranks.select_ranked_exact [OF valid, where choices = "dd_choices d" and graph = graph and singletons = singletons]
  show ?thesis
  proof (cases "select_ranked ?rank (dd_choices d) cache")
    case (Inl e)
    with exact show ?thesis
      by (auto simp: add_member_disjunction_def tables definitions_unrankable_def list_ex_iff)
  next
    case (Inr w)
    obtain selected cache' where w: "w = (selected, cache')" by (cases w)
    let ?facts = "\<lparr>rm_choices = map NodeDefinition (dd_choices d), rm_selected = NodeDefinition selected\<rparr>"
    let ?triggers = "push_edge_entry (NodeDefinition (dd_trigger d)) (length ds) triggers"
    let ?choices = "fold (\<lambda>node. push_edge_entry node (length ds)) (map NodeDefinition (dd_choices d)) choices"
    have run: "add_member_disjunction source graph singletons products (length ds, d) tables
        = Inr (ranked @ [?facts], ?triggers, ?choices, cache')"
      by (simp add: add_member_disjunction_def tables Inr w)
    from exact Inr w have "cache_valid source products cache'" "member_ranked source graph singletons products d ?facts"
      by (simp_all add: member_ranked_def)
    moreover have "list_all2 (member_ranked source graph singletons products) (ds @ [d]) (ranked @ [?facts])"
      using ok calculation(2) by (simp add: member_tables_ok_def tables list_all2_appendI)
    moreover have "set (entries ?triggers node) = {i. i < length (ds @ [d]) \<and> NodeDefinition (dd_trigger ((ds @ [d]) ! i)) = node}" for node
    proof -
      have before: "set (entries triggers node) = {i. i < length ds \<and> NodeDefinition (dd_trigger (ds ! i)) = node}"
        using ok by (simp add: member_tables_ok_def tables)
      show ?thesis unfolding positions_snoc [of ds d "\<lambda>d. NodeDefinition (dd_trigger d) = node"] set_entries_push before
        by (cases "node = NodeDefinition (dd_trigger d)") simp_all
    qed
    moreover have "set (entries ?choices node) \<subseteq> {..<length (ds @ [d])}" for node
    proof -
      have "set (entries choices node) \<subseteq> {..<length ds}" using ok by (simp add: member_tables_ok_def tables)
      with entries_fold_push [of "length ds" "map NodeDefinition (dd_choices d)" choices node] show ?thesis by fastforce
    qed
    ultimately show ?thesis unfolding run by (simp add: member_tables_ok_def)
  qed
qed

text \<open>When the construction refuses.\<close>

definition disjunctions_refused ::
  "source_inventory \<Rightarrow> dependency_graph \<Rightarrow> source_unit_id option list \<Rightarrow> macro_products
     \<Rightarrow> source_disjunction list \<Rightarrow> crate_load_disjunction list \<Rightarrow> definition_disjunction list \<Rightarrow> bool" where
  "disjunctions_refused source graph singletons products sources compilers members \<longleftrightarrow>
     list_ex (\<lambda>d. sd_choices d = []) sources
     \<or> list_ex (\<lambda>d. carriers_unrankable source graph singletons products (cl_choices d)) compilers
     \<or> list_ex (\<lambda>d. definitions_unrankable source graph singletons products (dd_choices d)) members"

definition disjunctions_ranked ::
  "source_inventory \<Rightarrow> dependency_graph \<Rightarrow> source_unit_id option list \<Rightarrow> macro_products
     \<Rightarrow> source_disjunction list \<Rightarrow> crate_load_disjunction list \<Rightarrow> definition_disjunction list \<Rightarrow> disjunction_index \<Rightarrow> bool" where
  "disjunctions_ranked source graph singletons products sources compilers members index \<longleftrightarrow>
     list_all2 (source_ranked source) sources (dj_source index)
     \<and> list_all2 (compiler_ranked source graph singletons products) compilers (dj_compiler index)
     \<and> list_all2 (member_ranked source graph singletons products) members (dj_members index)"

definition member_trigger_nodes :: "definition_disjunction list \<Rightarrow> graph_node list" where
  "member_trigger_nodes members = map (\<lambda>d. NodeDefinition (dd_trigger d)) members"

definition fresh_closure :: "nat \<Rightarrow> disjunction_index \<Rightarrow> disjunction_closure" where
  "fresh_closure n index =
     \<lparr>dc_source_active = replicate (length (dj_source index)) False,
      dc_compiler_active = map (\<lambda>d. rk_trigger d = None) (dj_compiler index),
      dc_compile_members = member_lane_new (length (dj_members index)),
      dc_actual_members = member_lane_new (length (dj_members index)),
      dc_source_complete = replicate (length (dj_source index)) False,
      dc_compiler_complete = replicate (length (dj_compiler index)) False,
      dc_pending_source = {}, dc_pending_compiler = {},
      dc_seen_source = replicate n False, dc_seen_compile = {}, dc_seen_actual = {},
      dc_initialized = False\<rparr>"

lemma carrier_rank_in_range:
  "plain_carrier_rank source graph singletons products carrier = Inr r \<Longrightarrow> carrier_in_range (length (src_units source)) carrier"
  by (cases carrier)
    (auto simp: plain_carrier_rank_def compiler_crate_load_carrier_rank_def unit_range_def carrier_in_range_def
      bind_result_def ok_or_def split: sum.splits option.splits)

lemma source_tables_index:
  assumes tables: "source_tables_ok source sources (dj_source index, dj_source_triggers index, dj_source_choices index)"
    and range: "list_all (in_range (length (src_units source))) sources"
  shows "source_index_ok (length (src_units source)) index"
proof -
  have all: "list_all2 (source_ranked source) sources (dj_source index)" using tables by (simp add: source_tables_ok_def)
  then have len: "length (dj_source index) = length sources" by (simp add: list_all2_lengthD)
  have ranked: "source_ranked source (sources ! i) (dj_source index ! i)" if "i < length sources" for i
    using all that by (rule list_all2_nthD)
  have "{i. i < length sources \<and> sd_trigger (sources ! i) = u}
      = {i. i < length (dj_source index) \<and> rs_trigger (dj_source index ! i) = u}" for u
    using ranked len by (auto simp: source_ranked_def)
  moreover have "rs_selected facts \<in> set (rs_choices facts) \<and> rs_selected facts < length (src_units source)"
    if "facts \<in> set (dj_source index)" for facts
  proof -
    from that obtain i where i: "i < length sources" "facts = dj_source index ! i" by (auto simp: in_set_conv_nth len)
    with ranked have "rs_choices facts = sd_choices (sources ! i)" "rs_selected facts \<in> set (sd_choices (sources ! i))"
      by (auto simp: source_ranked_def least_by_def)
    moreover have "in_range (length (src_units source)) (sources ! i)" using range i(1) by (simp add: list_all_length)
    ultimately show ?thesis by (auto simp: in_range_def list_all_iff)
  qed
  ultimately show ?thesis
    using tables by (simp add: source_index_ok_def source_tables_ok_def len)
qed

lemma compiler_tables_index:
  assumes tables: "compiler_tables_ok source graph singletons products compilers
      (dj_compiler index, dj_compiler_triggers index, dj_compiler_definition_choices index, dj_compiler_source_choices index, cache)"
  shows "compiler_index_ok (length (src_units source)) index"
proof -
  have all: "list_all2 (compiler_ranked source graph singletons products) compilers (dj_compiler index)"
    using tables by (simp add: compiler_tables_ok_def)
  then have len: "length (dj_compiler index) = length compilers" by (simp add: list_all2_lengthD)
  have ranked: "compiler_ranked source graph singletons products (compilers ! i) (dj_compiler index ! i)" if "i < length compilers" for i
    using all that by (rule list_all2_nthD)
  have "{i. i < length compilers \<and> cl_trigger (compilers ! i) = Some node}
      = {i. i < length (dj_compiler index) \<and> rk_trigger (dj_compiler index ! i) = Some node}" for node
    using ranked len by (auto simp: compiler_ranked_def)
  moreover have "rk_selected facts \<in> set (rk_choices facts) \<and> carrier_in_range (length (src_units source)) (rk_selected facts)"
    if "facts \<in> set (dj_compiler index)" for facts
  proof -
    from that obtain i where i: "i < length compilers" "facts = dj_compiler index ! i" by (auto simp: in_set_conv_nth len)
    with ranked show ?thesis
      by (auto simp: compiler_ranked_def least_ranked_def intro: carrier_rank_in_range)
  qed
  ultimately show ?thesis
    using tables by (simp add: compiler_index_ok_def compiler_tables_ok_def len)
qed

lemma member_tables_index:
  assumes tables: "member_tables_ok source graph singletons products members
      (dj_members index, dj_member_triggers index, dj_member_choices index, cache)"
  shows "member_index_ok (member_trigger_nodes members) index"
proof -
  have all: "list_all2 (member_ranked source graph singletons products) members (dj_members index)"
    using tables by (simp add: member_tables_ok_def)
  then have len: "length (dj_members index) = length members" by (simp add: list_all2_lengthD)
  have "rm_selected facts \<in> set (rm_choices facts)" if "facts \<in> set (dj_members index)" for facts
  proof -
    from that obtain i where i: "i < length members" "facts = dj_members index ! i" by (auto simp: in_set_conv_nth len)
    with list_all2_nthD [OF all i(1)] show ?thesis by (auto simp: member_ranked_def least_ranked_def)
  qed
  moreover have "{i. i < length members \<and> NodeDefinition (dd_trigger (members ! i)) = node}
      = {i. i < length members \<and> member_trigger_nodes members ! i = node}" for node
    by (auto simp: member_trigger_nodes_def)
  ultimately show ?thesis
    using tables by (simp add: member_index_ok_def member_tables_ok_def len) (simp add: member_trigger_nodes_def)
qed

lemma disjunction_closure_new_cases:
  assumes range: "list_all (in_range (length (src_units source))) sources"
  shows "case disjunction_closure_new source graph singletons products sources compilers members of
     Inl e \<Rightarrow> e = InvalidConstraint \<and> disjunctions_refused source graph singletons products sources compilers members
   | Inr (index, c) \<Rightarrow> index_ok (length (src_units source)) (member_trigger_nodes members) index
       \<and> disjunctions_ranked source graph singletons products sources compilers members index
       \<and> c = fresh_closure (length (src_units source)) index"
proof -
  let ?n = "length (src_units source)"
  let ?source = "fold_result (add_source_disjunction source) (enumerate 0 sources) ([], replicate ?n [], replicate ?n [])"
  let ?compiler = "fold_result (add_compiler_disjunction source graph singletons products) (enumerate 0 compilers)
     ([], Map.empty, Map.empty, replicate ?n [], [])"
  have 1: "case ?source of Inl e \<Rightarrow> e = InvalidConstraint \<and> list_ex (\<lambda>d. sd_choices d = []) sources
      | Inr tables \<Rightarrow> source_tables_ok source sources tables"
  proof (rule fold_enumerate_cases [where good = "source_tables_ok source" and ok = "in_range ?n"])
    show "source_tables_ok source [] ([], replicate ?n [], replicate ?n [])" by (simp add: source_tables_ok_def)
  qed (use range source_tables_step in blast)+
  have 2: "case ?compiler of Inl e \<Rightarrow> e = InvalidConstraint
        \<and> list_ex (\<lambda>d. carriers_unrankable source graph singletons products (cl_choices d)) compilers
      | Inr tables \<Rightarrow> compiler_tables_ok source graph singletons products compilers tables"
  proof (rule fold_enumerate_cases [where good = "compiler_tables_ok source graph singletons products" and ok = "\<lambda>_. True"])
    show "compiler_tables_ok source graph singletons products [] ([], Map.empty, Map.empty, replicate ?n [], [])"
      by (simp add: compiler_tables_ok_def entries_def cache_valid_Nil)
  qed (use compiler_tables_step in \<open>simp_all add: list_all_iff\<close>)
  have 3: "case fold_result (add_member_disjunction source graph singletons products) (enumerate 0 members)
        ([], Map.empty, Map.empty, cache) of
      Inl e \<Rightarrow> e = InvalidConstraint \<and> list_ex (\<lambda>d. definitions_unrankable source graph singletons products (dd_choices d)) members
      | Inr tables \<Rightarrow> member_tables_ok source graph singletons products members tables"
    if "cache_valid source products cache" for cache
  proof (rule fold_enumerate_cases [where good = "member_tables_ok source graph singletons products" and ok = "\<lambda>_. True"])
    show "member_tables_ok source graph singletons products [] ([], Map.empty, Map.empty, cache)"
      using that by (simp add: member_tables_ok_def entries_def)
  qed (use member_tables_step in \<open>simp_all add: list_all_iff\<close>)
  show ?thesis
  proof (cases ?source)
    case (Inl e)
    with 1 show ?thesis by (simp add: disjunction_closure_new_def Let_def disjunctions_refused_def)
  next
    case (Inr tables)
    obtain ranked_source source_triggers source_choices where s: "tables = (ranked_source, source_triggers, source_choices)"
      by (cases tables)
    note source_run = Inr [unfolded s]
    have source_ok: "source_tables_ok source sources (ranked_source, source_triggers, source_choices)"
      using 1 by (simp add: source_run)
    show ?thesis
    proof (cases ?compiler)
      case (Inl e)
      with 2 show ?thesis by (simp add: disjunction_closure_new_def Let_def disjunctions_refused_def source_run)
    next
      case (Inr tables)
      obtain ranked_compiler compiler_triggers definition_choices compiler_sources cache
        where k: "tables = (ranked_compiler, compiler_triggers, definition_choices, compiler_sources, cache)" by (cases tables)
      note compiler_run = Inr [unfolded k]
      have compiler_ok: "compiler_tables_ok source graph singletons products compilers
          (ranked_compiler, compiler_triggers, definition_choices, compiler_sources, cache)"
        using 2 by (simp add: compiler_run)
      then have valid: "cache_valid source products cache" by (simp add: compiler_tables_ok_def)
      let ?members = "fold_result (add_member_disjunction source graph singletons products) (enumerate 0 members)
        ([], Map.empty, Map.empty, cache)"
      show ?thesis
      proof (cases ?members)
        case (Inl e)
        with 3 [OF valid] show ?thesis
          by (simp add: disjunction_closure_new_def Let_def disjunctions_refused_def source_run compiler_run)
      next
        case (Inr tables)
        obtain ranked_members member_triggers member_choices cache'
          where m: "tables = (ranked_members, member_triggers, member_choices, cache')" by (cases tables)
        note member_run = Inr [unfolded m]
        have member_ok: "member_tables_ok source graph singletons products members
            (ranked_members, member_triggers, member_choices, cache')"
          using 3 [OF valid] by (simp add: member_run)
        let ?index = "\<lparr>dj_source = ranked_source, dj_compiler = ranked_compiler, dj_members = ranked_members,
            dj_source_triggers = source_triggers, dj_source_choices = source_choices,
            dj_compiler_triggers = compiler_triggers, dj_compiler_definition_choices = definition_choices,
            dj_compiler_source_choices = compiler_sources,
            dj_member_triggers = member_triggers, dj_member_choices = member_choices\<rparr>"
        have run: "disjunction_closure_new source graph singletons products sources compilers members
            = Inr (?index, fresh_closure ?n ?index)"
          by (simp add: disjunction_closure_new_def Let_def source_run compiler_run member_run fresh_closure_def)
        have "source_index_ok ?n ?index" using source_ok by (intro source_tables_index [OF _ range]) simp
        moreover have "compiler_index_ok ?n ?index"
          using compiler_ok by (intro compiler_tables_index [of source graph singletons products compilers _ cache]) simp
        moreover have "member_index_ok (member_trigger_nodes members) ?index"
          using member_ok by (intro member_tables_index [of source graph singletons products members _ cache']) simp
        moreover have "disjunctions_ranked source graph singletons products sources compilers members ?index"
          using source_ok compiler_ok member_ok
          by (simp add: disjunctions_ranked_def source_tables_ok_def compiler_tables_ok_def member_tables_ok_def)
        ultimately show ?thesis unfolding run by (simp add: index_ok_def)
      qed
    qed
  qed
qed

section \<open>Sessions\<close>

text \<open>
  A round of \<open>compute_retention\<close>: new demands are noted in the sets and told to the closure, which
  then selects.  Every round reports whether it selected anything.
\<close>

type_synonym demand_round = "graph_node list \<times> graph_node list \<times> source_unit_id list"

definition announce :: "demand_round \<Rightarrow> demand_state \<Rightarrow> demand_state" where
  "announce = (\<lambda>(compile, actual, units) d.
     d\<lparr>dm_compile := dm_compile d \<union> set compile, dm_actual := dm_actual d \<union> set actual,
       dm_retained := dm_retained d \<union> set units,
       dm_newly_compile := [], dm_newly_actual := [], dm_newly_retained := []\<rparr>)"

definition no_demand :: demand_state where
  "no_demand = \<lparr>dm_compile = {}, dm_actual = {}, dm_retained = {},
     dm_newly_compile = [], dm_newly_actual = [], dm_newly_retained = [], dm_token_deltas = []\<rparr>"

definition notify ::
  "disjunction_index \<Rightarrow> demand_round \<Rightarrow> disjunction_closure \<Rightarrow> retention_error + disjunction_closure" where
  "notify index = (\<lambda>(compile, actual, units) c.
     disjunctions_add_source index units
       (disjunctions_add_actual index actual (disjunctions_add_compile index compile c)))"

fun disjunction_session ::
  "disjunction_index \<Rightarrow> demand_round list \<Rightarrow> disjunction_closure \<times> demand_state \<times> bool list
     \<Rightarrow> retention_error + disjunction_closure \<times> demand_state \<times> bool list" where
  "disjunction_session index [] w = Inr w"
| "disjunction_session index (r # rounds) (c, d, reports) =
     bind_result (notify index r c) (\<lambda>c.
     bind_result (disjunctions_select index c (announce r d)) (\<lambda>(c, d, any).
       disjunction_session index rounds (c, d, reports @ [any])))"

definition run_disjunctions ::
  "disjunction_index \<Rightarrow> disjunction_closure \<Rightarrow> demand_round \<Rightarrow> demand_round list
     \<Rightarrow> retention_error + disjunction_closure \<times> demand_state \<times> bool list" where
  "run_disjunctions index c = (\<lambda>(compile, actual, units) rounds.
     bind_result (disjunctions_seed index (set compile) (set actual) (set units) c)
       (\<lambda>c. disjunction_session index rounds (c, announce (compile, actual, units) no_demand, [])))"

text \<open>The same with the reference.\<close>

fun scan_session ::
  "disjunction_index \<Rightarrow> graph_node list \<Rightarrow> demand_round list \<Rightarrow> demand_state \<times> bool list \<Rightarrow> demand_state \<times> bool list" where
  "scan_session index triggers [] w = w"
| "scan_session index triggers (r # rounds) (d, reports) =
     (case scan_disjunctions index triggers (announce r d) of
        (d, any) \<Rightarrow> scan_session index triggers rounds (d, reports @ [any]))"

definition round_units_ok :: "nat \<Rightarrow> demand_round \<Rightarrow> bool" where
  "round_units_ok n = (\<lambda>(compile, actual, units). list_all (\<lambda>u. u < n) units)"

lemma add_source_units:
  assumes "index_ok n triggers index"
  shows "disjunctions_ok n index triggers d X Y c \<Longrightarrow>
    case disjunctions_add_source index units c of
      Inl e \<Rightarrow> e = InvalidConstraint \<and> \<not> list_all (\<lambda>u. u < n) units
    | Inr c' \<Rightarrow> list_all (\<lambda>u. u < n) units \<and> disjunctions_ok n index triggers d X Y c'
        \<and> seen_units c' = seen_units c \<union> set units
        \<and> dc_seen_compile c' = dc_seen_compile c \<and> dc_seen_actual c' = dc_seen_actual c"
proof (induction units arbitrary: c)
  case Nil
  then show ?case by (simp add: disjunctions_add_source_def)
next
  case (Cons u units)
  show ?case
  proof (cases "u < n")
    case True
    obtain c' where c': "add_source_unit index u c = Inr c'" "disjunctions_ok n index triggers d X Y c'"
      "seen_units c' = insert u (seen_units c)" "dc_seen_compile c' = dc_seen_compile c" "dc_seen_actual c' = dc_seen_actual c"
      using add_source_unit_ok [OF assms Cons.prems True] by blast
    from Cons.IH [OF c'(2)] show ?thesis
      by (auto simp: disjunctions_add_source_def c'(1,3-5) True split: sum.splits)
  next
    case False
    have "length (dc_seen_source c) = n" using Cons.prems by (simp add: disjunctions_ok_def)
    with False have none: "get_at (dc_seen_source c) u = None" by simp
    have "add_source_unit index u c = Inl InvalidConstraint" unfolding add_source_unit_def none by simp
    then show ?thesis by (simp add: disjunctions_add_source_def False)
  qed
qed

lemma notify_ok:
  assumes index: "index_ok n triggers index" and ok: "disjunctions_ok n index triggers d {} {} c" and sync: "synced c d"
  shows "case notify index r c of
      Inl e \<Rightarrow> e = InvalidConstraint \<and> \<not> round_units_ok n r
    | Inr c' \<Rightarrow> round_units_ok n r \<and> disjunctions_ok n index triggers (announce r d) {} {} c' \<and> synced c' (announce r d)"
proof -
  obtain compile actual units where r: "r = (compile, actual, units)" by (cases r)
  have "demand_le d (announce r d)" by (auto simp: demand_le_def announce_def r)
  note 0 = disjunctions_ok_mono [OF ok this]
  note 1 = add_compile_ok [OF index 0, of compile]
  note 2 = add_actual_ok [OF index 1 [THEN conjunct1], of actual]
  from add_source_units [OF index 2 [THEN conjunct1], of units] 1 2 sync show ?thesis
    by (auto simp: notify_def r round_units_ok_def synced_def announce_def split: sum.splits)
qed

lemma disjunction_session_scans:
  assumes index: "index_ok n triggers index"
  shows "disjunctions_ok n index triggers d {} {} c \<Longrightarrow> synced c d \<Longrightarrow>
    case disjunction_session index rounds (c, d, reports) of
      Inl e \<Rightarrow> e = InvalidConstraint \<and> \<not> list_all (round_units_ok n) rounds
    | Inr (c', d', reports') \<Rightarrow> list_all (round_units_ok n) rounds
        \<and> (d', reports') = scan_session index triggers rounds (d, reports)"
proof (induction rounds arbitrary: c d reports)
  case Nil
  then show ?case by simp
next
  case (Cons r rounds)
  note told = notify_ok [OF index Cons.prems, of r]
  show ?case
  proof (cases "notify index r c")
    case (Inl e)
    with told show ?thesis by simp
  next
    case (Inr c1)
    with told have ok1: "round_units_ok n r" "disjunctions_ok n index triggers (announce r d) {} {} c1" "synced c1 (announce r d)"
      by simp_all
    obtain c2 d2 any where 2: "disjunctions_select index c1 (announce r d) = Inr (c2, d2, any)"
      "(d2, any) = scan_disjunctions index triggers (announce r d)" "disjunctions_ok n index triggers d2 {} {} c2" "synced c2 d2"
      using disjunctions_select_scans [OF index ok1(2,3)] by blast
    from Cons.IH [OF 2(3,4), of "reports @ [any]"] show ?thesis
      by (auto simp: Inr 2(1) 2(2) [symmetric] ok1(1) split: sum.splits)
  qed
qed

lemma fresh_seeded:
  assumes "index_ok n triggers index"
  shows "disjunctions_ok n index triggers no_demand {} {} ((fresh_closure n index)\<lparr>dc_initialized := True,
      dc_pending_compiler := dc_pending_compiler (fresh_closure n index) \<union> always_open index\<rparr>)"
  using assms
  by (auto simp: disjunctions_ok_def source_lane_ok_def compiler_lane_ok_def member_lane_ok_def lane_ok_def fresh_closure_def
      member_lane_new_def no_demand_def always_open_def seen_units_def source_open_def compiler_open_def split: option.splits)

lemma seed_is_notify:
  "disjunctions_seed index (set compile) (set actual) (set units) (fresh_closure n index)
     = notify index (sorted_list_of_set (set compile), sorted_list_of_set (set actual), sorted_list_of_set (set units))
         ((fresh_closure n index)\<lparr>dc_initialized := True,
            dc_pending_compiler := dc_pending_compiler (fresh_closure n index) \<union> always_open index\<rparr>)"
  by (simp add: disjunctions_seed_def notify_def fresh_closure_def)

lemma run_disjunctions_scans:
  assumes index: "index_ok n triggers index" and fresh: "c = fresh_closure n index"
  shows "case run_disjunctions index c seeds rounds of
      Inl e \<Rightarrow> e = InvalidConstraint \<and> \<not> list_all (round_units_ok n) (seeds # rounds)
    | Inr (c', d', reports') \<Rightarrow> list_all (round_units_ok n) (seeds # rounds)
        \<and> (d', reports') = scan_session index triggers rounds (announce seeds no_demand, [])"
proof -
  obtain compile actual units where seeds: "seeds = (compile, actual, units)" by (cases seeds)
  let ?sorted = "(sorted_list_of_set (set compile), sorted_list_of_set (set actual), sorted_list_of_set (set units))"
  let ?c = "(fresh_closure n index)\<lparr>dc_initialized := True,
      dc_pending_compiler := dc_pending_compiler (fresh_closure n index) \<union> always_open index\<rparr>"
  have "synced ?c no_demand" by (simp add: synced_def fresh_closure_def no_demand_def seen_units_def)
  note told = notify_ok [OF index fresh_seeded [OF index] this, of ?sorted]
  have same: "announce ?sorted no_demand = announce seeds no_demand" "round_units_ok n ?sorted = round_units_ok n seeds"
    by (simp_all add: announce_def seeds round_units_ok_def list_all_iff)
  have run: "run_disjunctions index c seeds rounds = bind_result (notify index ?sorted ?c)
      (\<lambda>c. disjunction_session index rounds (c, announce seeds no_demand, []))"
    by (simp add: run_disjunctions_def seeds fresh seed_is_notify)
  show ?thesis
  proof (cases "notify index ?sorted ?c")
    case (Inl e)
    with told show ?thesis unfolding run by (simp add: same)
  next
    case (Inr c1)
    with told have "disjunctions_ok n index triggers (announce seeds no_demand) {} {} c1" "synced c1 (announce seeds no_demand)"
      and ok: "round_units_ok n seeds" by (simp_all add: same)
    from disjunction_session_scans [OF index this(1,2), of rounds "[]"] show ?thesis
      unfolding run Inr by (auto simp: ok split: sum.splits)
  qed
qed

section \<open>Scans settle\<close>

text \<open>A pass over disjunctions that opens more and meets more, and meets what it finds open.\<close>

locale choice_scan =
  fixes step :: "'f \<Rightarrow> 's \<Rightarrow> 's" and flag :: "'s \<Rightarrow> bool"
    and opened :: "'f \<Rightarrow> 's \<Rightarrow> bool" and met :: "'f \<Rightarrow> 's \<Rightarrow> bool"
    and le :: "'s \<Rightarrow> 's \<Rightarrow> bool" and good :: "'f \<Rightarrow> bool"
  assumes le_refl: "le s s" and le_trans: "le s t \<Longrightarrow> le t u \<Longrightarrow> le s u"
    and opened_le: "le s t \<Longrightarrow> opened f s \<Longrightarrow> opened f t" and met_le: "le s t \<Longrightarrow> met f s \<Longrightarrow> met f t"
    and selects: "good f \<Longrightarrow> opened f s \<Longrightarrow> \<not> met f s \<Longrightarrow> flag (step f s) \<and> met f (step f s) \<and> le s (step f s)"
    and passes: "\<not> (opened f s \<and> \<not> met f s) \<Longrightarrow> step f s = s"
begin

lemma scan_settles:
  "list_all good fs \<Longrightarrow>
     le s (fold step fs s) \<and> (\<forall>f \<in> set fs. opened f s \<longrightarrow> met f (fold step fs s))
     \<and> (flag (fold step fs s) \<longleftrightarrow> flag s \<or> (\<exists>f \<in> set fs. opened f s \<and> \<not> met f s))
     \<and> (flag (fold step fs s) \<or> fold step fs s = s)"
proof (induction fs arbitrary: s)
  case Nil
  then show ?case using le_refl by auto
next
  case (Cons f fs)
  then have good: "good f" "list_all good fs" by simp_all
  note IH = Cons.IH [OF good(2), of "step f s"]
  show ?case
  proof (cases "opened f s \<and> \<not> met f s")
    case True
    with selects [OF good(1)] have step: "flag (step f s)" "met f (step f s)" "le s (step f s)" by blast+
    have "le s (fold step fs (step f s))" using step(3) IH le_trans by blast
    moreover have "met f (fold step fs (step f s))" using step(2) IH met_le by blast
    ultimately show ?thesis using IH step opened_le [OF step(3)] True by auto
  next
    case False
    then have "step f s = s" by (rule passes)
    with IH False met_le show ?thesis by auto
  qed
qed

end

definition source_good :: "ranked_source_disjunction \<Rightarrow> bool" where
  "source_good facts \<longleftrightarrow> rs_selected facts \<in> set (rs_choices facts)"

definition compiler_good :: "ranked_compiler_disjunction \<Rightarrow> bool" where
  "compiler_good facts \<longleftrightarrow> rk_selected facts \<in> set (rk_choices facts)"

definition member_good :: "graph_node \<times> ranked_member_disjunction \<Rightarrow> bool" where
  "member_good = (\<lambda>(trigger, facts). rm_selected facts \<in> set (rm_choices facts))"

lemma met_le: "R \<subseteq> R' \<Longrightarrow> source_met facts R \<Longrightarrow> source_met facts R'"
  by (auto simp: source_met_def list_ex_iff)

lemma carrier_le: "C \<subseteq> C' \<Longrightarrow> R \<subseteq> R' \<Longrightarrow> carrier_is_retained carrier C R \<Longrightarrow> carrier_is_retained carrier C' R'"
  by (cases carrier) (auto simp: carrier_is_retained_def)

lemma compiler_le: "C \<subseteq> C' \<Longrightarrow> R \<subseteq> R' \<Longrightarrow> compiler_met facts C R \<Longrightarrow> compiler_met facts C' R'"
  unfolding compiler_met_def list_ex_iff using carrier_le by blast

lemma member_le: "S \<subseteq> S' \<Longrightarrow> member_met facts S \<Longrightarrow> member_met facts S'"
  by (auto simp: member_met_def list_ex_iff)

interpretation source_settles: choice_scan scan_source snd
  "\<lambda>f s. source_open f (dm_retained (fst s))" "\<lambda>f s. source_met f (dm_retained (fst s))"
  "\<lambda>s t. dm_retained (fst s) \<subseteq> dm_retained (fst t) \<and> dm_compile (fst s) = dm_compile (fst t) \<and> dm_actual (fst s) = dm_actual (fst t)"
  source_good
proof
  fix f :: ranked_source_disjunction and s t :: "demand_state \<times> bool"
  show "source_met f (dm_retained (fst t))"
    if "dm_retained (fst s) \<subseteq> dm_retained (fst t) \<and> dm_compile (fst s) = dm_compile (fst t) \<and> dm_actual (fst s) = dm_actual (fst t)"
      "source_met f (dm_retained (fst s))" using that met_le by blast
qed (auto simp: source_open_def scan_source_def retain_one_def source_met_def source_good_def list_ex_iff split: prod.splits)

interpretation compiler_settles: choice_scan scan_compiler snd
  "\<lambda>f s. compiler_open f (dm_compile (fst s))" "\<lambda>f s. compiler_met f (dm_compile (fst s)) (dm_retained (fst s))"
  "\<lambda>s t. dm_retained (fst s) \<subseteq> dm_retained (fst t) \<and> dm_compile (fst s) \<subseteq> dm_compile (fst t) \<and> dm_actual (fst s) = dm_actual (fst t)"
  compiler_good
proof
  fix f :: ranked_compiler_disjunction and s t :: "demand_state \<times> bool"
  let ?le = "\<lambda>s t. dm_retained (fst s) \<subseteq> dm_retained (fst t) \<and> dm_compile (fst s) \<subseteq> dm_compile (fst t) \<and> dm_actual (fst s) = dm_actual (fst t)"
  let ?met = "\<lambda>s. compiler_met f (dm_compile (fst s)) (dm_retained (fst s))"
  obtain d any where s: "s = (d, any)" by (cases s)
  show "compiler_open f (dm_compile (fst t))" if "?le s t" "compiler_open f (dm_compile (fst s))"
    using that by (auto simp: compiler_open_def split: option.splits)
  show "?met t" if "?le s t" "?met s" using that compiler_le by blast
  show "snd (scan_compiler f s) \<and> ?met (scan_compiler f s) \<and> ?le s (scan_compiler f s)"
    if "compiler_good f" "compiler_open f (dm_compile (fst s))" "\<not> ?met s"
  proof -
    have met: "?met u" if "carrier_is_retained (rk_selected f) (dm_compile (fst u)) (dm_retained (fst u))" for u :: "demand_state \<times> bool"
      using that \<open>compiler_good f\<close> by (auto simp: compiler_met_def compiler_good_def list_ex_iff)
    show ?thesis
    proof (cases "rk_selected f")
      case (CarrierDefinition i)
      then have "scan_compiler f s = (compile_one (NodeDefinition i) d, True)" using that by (simp add: scan_compiler_def s)
      with met [of "scan_compiler f s"] CarrierDefinition show ?thesis by (auto simp: carrier_is_retained_def compile_one_def s)
    next
      case (CarrierSource u)
      then have "scan_compiler f s = (retain_one u d, True)" using that by (simp add: scan_compiler_def s)
      with met [of "scan_compiler f s"] CarrierSource show ?thesis by (auto simp: carrier_is_retained_def retain_one_def s)
    qed
  qed
  show "scan_compiler f s = s" if "\<not> (compiler_open f (dm_compile (fst s)) \<and> \<not> ?met s)"
    using that by (auto simp: scan_compiler_def s)
qed auto

interpretation member_settles: choice_scan "scan_member nodes" "\<lambda>s. snd (snd s)"
  "\<lambda>f s. fst f \<in> nodes" "\<lambda>f s. member_met (snd f) (fst s)" "\<lambda>s t. fst s \<subseteq> fst t" member_good
  for nodes
proof
  fix f :: "graph_node \<times> ranked_member_disjunction" and s t :: scanned_nodes
  show "member_met (snd f) (fst t)" if "fst s \<subseteq> fst t" "member_met (snd f) (fst s)" using that member_le by blast
qed (auto simp: scan_member_def member_met_def member_good_def list_ex_iff split: prod.splits)

text \<open>No disjunction is open and not met.\<close>

definition settled :: "disjunction_index \<Rightarrow> graph_node list \<Rightarrow> demand_state \<Rightarrow> bool" where
  "settled index triggers d \<longleftrightarrow>
     list_all (\<lambda>f. source_open f (dm_retained d) \<longrightarrow> source_met f (dm_retained d)) (dj_source index)
     \<and> list_all (\<lambda>f. compiler_open f (dm_compile d) \<longrightarrow> compiler_met f (dm_compile d) (dm_retained d)) (dj_compiler index)
     \<and> list_all (\<lambda>(t, f). t \<in> dm_compile d \<longrightarrow> member_met f (dm_compile d)) (zip triggers (dj_members index))
     \<and> list_all (\<lambda>(t, f). t \<in> dm_actual d \<longrightarrow> member_met f (dm_actual d)) (zip triggers (dj_members index))"

definition disjunctions_good :: "disjunction_index \<Rightarrow> graph_node list \<Rightarrow> bool" where
  "disjunctions_good index triggers \<longleftrightarrow>
     list_all source_good (dj_source index) \<and> list_all compiler_good (dj_compiler index)
     \<and> list_all member_good (zip triggers (dj_members index))"

text \<open>How many disjunctions are not met.\<close>

definition unmet_count :: "disjunction_index \<Rightarrow> graph_node list \<Rightarrow> demand_state \<Rightarrow> nat" where
  "unmet_count index triggers d =
     length (filter (\<lambda>f. \<not> source_met f (dm_retained d)) (dj_source index))
     + length (filter (\<lambda>f. \<not> compiler_met f (dm_compile d) (dm_retained d)) (dj_compiler index))
     + length (filter (\<lambda>(t, f). \<not> member_met f (dm_compile d)) (zip triggers (dj_members index)))
     + length (filter (\<lambda>(t, f). \<not> member_met f (dm_actual d)) (zip triggers (dj_members index)))"

lemma filter_weaker: "(\<And>x. x \<in> set xs \<Longrightarrow> Q x \<Longrightarrow> P x) \<Longrightarrow> length (filter Q xs) \<le> length (filter P xs)"
proof (induction xs)
  case (Cons x xs)
  then have "length (filter Q xs) \<le> length (filter P xs)" by simp
  with Cons.prems [of x] show ?case by auto
qed simp

lemma filter_weaker_strict:
  "(\<And>x. x \<in> set xs \<Longrightarrow> Q x \<Longrightarrow> P x) \<Longrightarrow> x \<in> set xs \<Longrightarrow> P x \<Longrightarrow> \<not> Q x \<Longrightarrow> length (filter Q xs) < length (filter P xs)"
proof (induction xs)
  case (Cons y ys)
  have le: "length (filter Q ys) \<le> length (filter P ys)" using Cons.prems(1) by (intro filter_weaker) simp
  show ?case
  proof (cases "x = y")
    case True
    with le Cons.prems(3,4) show ?thesis by simp
  next
    case False
    then have "length (filter Q ys) < length (filter P ys)" using Cons by simp
    with Cons.prems(1) [of y] show ?thesis by auto
  qed
qed simp

lemma unmet_parts:
  assumes "demand_le d d'"
  shows "length (filter (\<lambda>f. \<not> source_met f (dm_retained d')) (dj_source index))
      \<le> length (filter (\<lambda>f. \<not> source_met f (dm_retained d)) (dj_source index))"
    and "length (filter (\<lambda>f. \<not> compiler_met f (dm_compile d') (dm_retained d')) (dj_compiler index))
      \<le> length (filter (\<lambda>f. \<not> compiler_met f (dm_compile d) (dm_retained d)) (dj_compiler index))"
    and "length (filter (\<lambda>(t, f). \<not> member_met f (dm_compile d')) members)
      \<le> length (filter (\<lambda>(t, f). \<not> member_met f (dm_compile d)) members)"
    and "length (filter (\<lambda>(t, f). \<not> member_met f (dm_actual d')) members)
      \<le> length (filter (\<lambda>(t, f). \<not> member_met f (dm_actual d)) members)"
  using assms unfolding demand_le_def
  by (auto intro!: filter_weaker dest: met_le member_le compiler_le)

lemma unmet_count_le: "demand_le d d' \<Longrightarrow> unmet_count index triggers d' \<le> unmet_count index triggers d"
  unfolding unmet_count_def by (intro add_mono unmet_parts)

text \<open>One scan: what it found open is met, and it reports exactly when something was open and not met.\<close>

definition scan_exact :: "disjunction_index \<Rightarrow> graph_node list \<Rightarrow> demand_state \<Rightarrow> demand_state \<Rightarrow> bool \<Rightarrow> bool" where
  "scan_exact index triggers d d' any \<longleftrightarrow>
     demand_le d d' \<and> (any \<longleftrightarrow> \<not> settled index triggers d) \<and> (any \<or> d' = d)
     \<and> (any \<longrightarrow> unmet_count index triggers d' < unmet_count index triggers d)"

lemma mirror_Nil [simp]: "mirror_nodes [] w = w"
  by (simp add: mirror_nodes_def)

lemma scan_members_exact:
  assumes good: "list_all member_good members" and run: "scan_members members (d, any) = (d', any')"
  shows "demand_le d d' \<and> dm_retained d' = dm_retained d
    \<and> (\<forall>f \<in> set members. (fst f \<in> dm_compile d \<longrightarrow> member_met (snd f) (dm_compile d'))
         \<and> (fst f \<in> dm_actual d \<longrightarrow> member_met (snd f) (dm_actual d')))
    \<and> (any' \<longleftrightarrow> any \<or> (\<exists>f \<in> set members. fst f \<in> dm_compile d \<and> \<not> member_met (snd f) (dm_compile d)
         \<or> fst f \<in> dm_actual d \<and> \<not> member_met (snd f) (dm_actual d)))
    \<and> (any' \<or> d' = d)"
proof -
  obtain compile1 newly1 any1 where one:
    "fold (scan_member (dm_compile d)) members (dm_compile d, dm_newly_compile d, False) = (compile1, newly1, any1)"
    by (cases "fold (scan_member (dm_compile d)) members (dm_compile d, dm_newly_compile d, False)")
  obtain actual newly2 any2 where two:
    "fold (scan_member (dm_actual d)) members (dm_actual d, dm_newly_actual d, False) = (actual, newly2, any2)"
    by (cases "fold (scan_member (dm_actual d)) members (dm_actual d, dm_newly_actual d, False)")
  let ?deltas = "drop (length (dm_newly_actual d)) newly2"
  obtain compile newly where mirror: "mirror_nodes ?deltas (compile1, newly1) = (compile, newly)"
    by (cases "mirror_nodes ?deltas (compile1, newly1)")
  have d': "d' = d\<lparr>dm_compile := compile, dm_newly_compile := newly, dm_actual := actual, dm_newly_actual := newly2\<rparr>"
    and any': "any' \<longleftrightarrow> any \<or> any1 \<or> any2"
    using run by (auto simp: scan_members_def one two mirror Let_def)
  from member_settles.scan_settles [OF good, where nodes = "dm_compile d" and s = "(dm_compile d, dm_newly_compile d, False)"]
  have 1: "dm_compile d \<subseteq> compile1" "\<forall>f \<in> set members. fst f \<in> dm_compile d \<longrightarrow> member_met (snd f) compile1"
    "any1 \<longleftrightarrow> (\<exists>f \<in> set members. fst f \<in> dm_compile d \<and> \<not> member_met (snd f) (dm_compile d))"
    "any1 \<or> compile1 = dm_compile d \<and> newly1 = dm_newly_compile d" unfolding one by auto
  from member_settles.scan_settles [OF good, where nodes = "dm_actual d" and s = "(dm_actual d, dm_newly_actual d, False)"]
  have 2: "dm_actual d \<subseteq> actual" "\<forall>f \<in> set members. fst f \<in> dm_actual d \<longrightarrow> member_met (snd f) actual"
    "any2 \<longleftrightarrow> (\<exists>f \<in> set members. fst f \<in> dm_actual d \<and> \<not> member_met (snd f) (dm_actual d))"
    "any2 \<or> actual = dm_actual d \<and> newly2 = dm_newly_actual d" unfolding two by auto
  have sub: "compile1 \<subseteq> compile" using mirror_nodes_extends [OF mirror] by auto
  have "demand_le d d'" using 1(1) 2(1) sub by (auto simp: demand_le_def d')
  moreover have "\<forall>f \<in> set members. (fst f \<in> dm_compile d \<longrightarrow> member_met (snd f) (dm_compile d'))
         \<and> (fst f \<in> dm_actual d \<longrightarrow> member_met (snd f) (dm_actual d'))"
    using 1(2) 2(2) sub member_le by (simp add: d')
  moreover have "any' \<longleftrightarrow> any \<or> (\<exists>f \<in> set members. fst f \<in> dm_compile d \<and> \<not> member_met (snd f) (dm_compile d)
         \<or> fst f \<in> dm_actual d \<and> \<not> member_met (snd f) (dm_actual d))"
    unfolding any' 1(3) 2(3) by blast
  moreover have "any' \<or> d' = d"
  proof (cases "any1 \<or> any2")
    case False
    with 1(4) 2(4) mirror have "compile = dm_compile d" "newly = dm_newly_compile d" "actual = dm_actual d" "newly2 = dm_newly_actual d"
      by simp_all
    then show ?thesis by (simp add: d')
  qed (use any' in blast)
  ultimately show ?thesis by (simp add: d')
qed

lemma scan_disjunctions_exact:
  assumes good: "disjunctions_good index triggers" and run: "scan_disjunctions index triggers d = (d', any)"
  shows "scan_exact index triggers d d' any"
proof -
  let ?members = "zip triggers (dj_members index)"
  obtain d1 any1 where 1: "fold scan_source (dj_source index) (d, False) = (d1, any1)"
    by (cases "fold scan_source (dj_source index) (d, False)")
  obtain d2 any2 where 2: "fold scan_compiler (dj_compiler index) (d1, any1) = (d2, any2)"
    by (cases "fold scan_compiler (dj_compiler index) (d1, any1)")
  have 3: "scan_members ?members (d2, any2) = (d', any)" using run by (simp add: scan_disjunctions_def 1 2)
  have goods: "list_all source_good (dj_source index)" "list_all compiler_good (dj_compiler index)" "list_all member_good ?members"
    using good by (simp_all add: disjunctions_good_def)
  from source_settles.scan_settles [OF goods(1), of "(d, False)"]
  have s: "dm_retained d \<subseteq> dm_retained d1" "dm_compile d = dm_compile d1" "dm_actual d = dm_actual d1"
    "\<forall>f \<in> set (dj_source index). source_open f (dm_retained d) \<longrightarrow> source_met f (dm_retained d1)"
    "any1 \<longleftrightarrow> (\<exists>f \<in> set (dj_source index). source_open f (dm_retained d) \<and> \<not> source_met f (dm_retained d))"
    "any1 \<or> d1 = d" unfolding 1 by auto
  from compiler_settles.scan_settles [OF goods(2), of "(d1, any1)"]
  have k: "dm_retained d1 \<subseteq> dm_retained d2" "dm_compile d1 \<subseteq> dm_compile d2" "dm_actual d1 = dm_actual d2"
    "\<forall>f \<in> set (dj_compiler index). compiler_open f (dm_compile d1) \<longrightarrow> compiler_met f (dm_compile d2) (dm_retained d2)"
    "any2 \<longleftrightarrow> any1 \<or> (\<exists>f \<in> set (dj_compiler index). compiler_open f (dm_compile d1) \<and> \<not> compiler_met f (dm_compile d1) (dm_retained d1))"
    "any2 \<or> d2 = d1" unfolding 2 by auto
  note m = scan_members_exact [OF goods(3) 3]
  have le: "demand_le d d1" "demand_le d1 d2" "demand_le d2 d'" using s k m by (auto simp: demand_le_def)
  then have le': "demand_le d d'" by (auto simp: demand_le_def)
  have settle: "settled index triggers d \<longleftrightarrow> \<not> any" and same: "any \<or> d' = d"
  proof -
    have split_settled: "settled index triggers d \<longleftrightarrow> \<not> any1
      \<and> (\<forall>f \<in> set (dj_compiler index). compiler_open f (dm_compile d) \<longrightarrow> compiler_met f (dm_compile d) (dm_retained d))
      \<and> (\<forall>f \<in> set ?members. (fst f \<in> dm_compile d \<longrightarrow> member_met (snd f) (dm_compile d))
           \<and> (fst f \<in> dm_actual d \<longrightarrow> member_met (snd f) (dm_actual d)))"
      unfolding s(5) settled_def list_all_iff by (auto simp: case_prod_beta)
    show "settled index triggers d \<longleftrightarrow> \<not> any"
    proof (cases any2)
      case True
      then have "any" using m by blast
      moreover have "\<not> settled index triggers d"
      proof (cases any1)
        case False
        with s(6) k(5) True have "d1 = d" "\<exists>f \<in> set (dj_compiler index). compiler_open f (dm_compile d) \<and> \<not> compiler_met f (dm_compile d) (dm_retained d)"
          by auto
        then show ?thesis unfolding split_settled by blast
      qed (simp add: split_settled)
      ultimately show ?thesis by simp
    next
      case False
      with k(5,6) s(6) have eq: "d1 = d" "d2 = d" "\<not> any1" by auto
      with False k(5) m show ?thesis unfolding split_settled by blast
    qed
    show "any \<or> d' = d"
    proof (cases any2)
      case False
      with k(5,6) s(6) have "d2 = d" by auto
      with m show ?thesis by blast
    qed (use m in blast)
  qed
  have "unmet_count index triggers d' < unmet_count index triggers d" if any
  proof -
    note parts = unmet_parts(1,2) [OF le', of index] unmet_parts(3,4) [OF le', of ?members]
    from that settle have "\<not> settled index triggers d" by simp
    then consider (source) f where "f \<in> set (dj_source index)" "source_open f (dm_retained d)" "\<not> source_met f (dm_retained d)"
      | (compiler) f where "f \<in> set (dj_compiler index)" "compiler_open f (dm_compile d)" "\<not> compiler_met f (dm_compile d) (dm_retained d)"
      | (compile) f where "f \<in> set ?members" "fst f \<in> dm_compile d" "\<not> member_met (snd f) (dm_compile d)"
      | (actual) f where "f \<in> set ?members" "fst f \<in> dm_actual d" "\<not> member_met (snd f) (dm_actual d)"
      unfolding settled_def list_all_iff by (auto simp: case_prod_beta)
    then show ?thesis
    proof cases
      case source
      have "source_met f (dm_retained d')" using s(4) source le(2,3) met_le by (meson demand_le_def subset_trans)
      with source le' have "length (filter (\<lambda>f. \<not> source_met f (dm_retained d')) (dj_source index))
          < length (filter (\<lambda>f. \<not> source_met f (dm_retained d)) (dj_source index))"
        by (intro filter_weaker_strict [where x = f]) (auto simp: demand_le_def dest: met_le)
      then show ?thesis using parts unfolding unmet_count_def by linarith
    next
      case compiler
      have "compiler_open f (dm_compile d1)" using compiler(2) s(2) by simp
      then have "compiler_met f (dm_compile d2) (dm_retained d2)" using k(4) compiler(1) by blast
      then have "compiler_met f (dm_compile d') (dm_retained d')" using le(3) compiler_le by (meson demand_le_def)
      with compiler le' have "length (filter (\<lambda>f. \<not> compiler_met f (dm_compile d') (dm_retained d')) (dj_compiler index))
          < length (filter (\<lambda>f. \<not> compiler_met f (dm_compile d) (dm_retained d)) (dj_compiler index))"
        by (intro filter_weaker_strict [where x = f]) (auto simp: demand_le_def dest: compiler_le)
      then show ?thesis using parts unfolding unmet_count_def by linarith
    next
      case compile
      have "fst f \<in> dm_compile d2" using compile(2) s(2) k(2) by auto
      then have "member_met (snd f) (dm_compile d')" using m compile(1) by blast
      with compile le' have "length (filter (\<lambda>(t, f). \<not> member_met f (dm_compile d')) ?members)
          < length (filter (\<lambda>(t, f). \<not> member_met f (dm_compile d)) ?members)"
        by (intro filter_weaker_strict [where x = f]) (auto simp: demand_le_def dest: member_le)
      then show ?thesis using parts unfolding unmet_count_def by linarith
    next
      case actual
      have "fst f \<in> dm_actual d2" using actual(2) s(3) k(3) by auto
      then have "member_met (snd f) (dm_actual d')" using m actual(1) by blast
      with actual le' have "length (filter (\<lambda>(t, f). \<not> member_met f (dm_actual d')) ?members)
          < length (filter (\<lambda>(t, f). \<not> member_met f (dm_actual d)) ?members)"
        by (intro filter_weaker_strict [where x = f]) (auto simp: demand_le_def dest: member_le)
      then show ?thesis using parts unfolding unmet_count_def by linarith
    qed
  qed
  with le' settle same show ?thesis by (simp add: scan_exact_def)
qed

lemma scan_session_exact:
  assumes good: "disjunctions_good index triggers"
  shows "scan_session index triggers rounds (d, reports) = (d', reports') \<Longrightarrow>
    \<exists>rs. reports' = reports @ rs \<and> length rs = length rounds
      \<and> length (filter id rs) + unmet_count index triggers d' \<le> unmet_count index triggers d
      \<and> (rs \<noteq> [] \<and> \<not> last rs \<longrightarrow> settled index triggers d')"
proof (induction rounds arbitrary: d reports)
  case Nil
  then show ?case by simp
next
  case (Cons r rounds)
  obtain d1 any where scan: "scan_disjunctions index triggers (announce r d) = (d1, any)"
    by (cases "scan_disjunctions index triggers (announce r d)")
  from scan_disjunctions_exact [OF good scan] have one: "scan_exact index triggers (announce r d) d1 any" .
  have "demand_le d (announce r d)" by (cases r) (auto simp: demand_le_def announce_def)
  then have "unmet_count index triggers (announce r d) \<le> unmet_count index triggers d" by (rule unmet_count_le)
  moreover have "unmet_count index triggers d1 \<le> unmet_count index triggers (announce r d)"
    using one by (simp add: scan_exact_def unmet_count_le)
  ultimately have step: "length (filter id [any]) + unmet_count index triggers d1 \<le> unmet_count index triggers d"
    using one by (auto simp: scan_exact_def)
  have "scan_session index triggers rounds (d1, reports @ [any]) = (d', reports')" using Cons.prems scan by simp
  from Cons.IH [OF this] obtain rs where rs: "reports' = (reports @ [any]) @ rs" "length rs = length rounds"
    "length (filter id rs) + unmet_count index triggers d' \<le> unmet_count index triggers d1"
    "rs \<noteq> [] \<and> \<not> last rs \<longrightarrow> settled index triggers d'" by blast
  have "settled index triggers d'" if "\<not> last (any # rs)"
  proof (cases "rs = []")
    case True
    then have "rounds = []" using rs(2) by simp
    then have "d' = d1" using Cons.prems scan by simp
    moreover have "settled index triggers d1" using one that True by (auto simp: scan_exact_def)
    ultimately show ?thesis by simp
  next
    case False
    with that rs(4) show ?thesis by simp
  qed
  moreover have "length (filter id (any # rs)) + unmet_count index triggers d' \<le> unmet_count index triggers d"
    using step rs(3) by auto
  ultimately show ?case using rs(1,2) by (intro exI [of _ "any # rs"]) (auto simp: id_def)
qed

lemma index_ok_good: "index_ok n triggers index \<Longrightarrow> disjunctions_good index triggers"
  by (auto simp: index_ok_def disjunctions_good_def source_index_ok_def compiler_index_ok_def member_index_ok_def
      source_good_def compiler_good_def member_good_def list_all_iff dest: set_zip_rightD)

lemma unmet_count_bound:
  "unmet_count index triggers d \<le> length (dj_source index) + length (dj_compiler index) + 2 * length (dj_members index)"
proof -
  have "length (filter P (zip triggers (dj_members index))) \<le> length (dj_members index)" for P
    by (rule order_trans [OF length_filter_le]) simp
  then show ?thesis
    unfolding unmet_count_def mult_2 add.assoc [symmetric]
    by (intro add_mono length_filter_le) auto
qed

section \<open>Properties\<close>

text \<open>
  C6.  The construction of the disjunction closure refuses, with \<open>InvalidConstraint\<close>, exactly a
  disjunction without choices or with a choice that has no rank.  Otherwise it selects, for every
  disjunction, a choice of least rank, and the shared cache of contributor ranks changes no rank.
\<close>

theorem disjunction_closure_new_exact:
  assumes "list_all (in_range (length (src_units source))) sources"
  shows "case disjunction_closure_new source graph singletons products sources compilers members of
     Inl e \<Rightarrow> e = InvalidConstraint \<and> disjunctions_refused source graph singletons products sources compilers members
   | Inr (index, c) \<Rightarrow> \<not> disjunctions_refused source graph singletons products sources compilers members
       \<and> disjunctions_ranked source graph singletons products sources compilers members index"
proof (cases "disjunction_closure_new source graph singletons products sources compilers members")
  case (Inl e)
  with disjunction_closure_new_cases [OF assms, of graph singletons products compilers members] show ?thesis by simp
next
  case (Inr w)
  obtain index c where w: "w = (index, c)" by (cases w)
  with disjunction_closure_new_cases [OF assms, of graph singletons products compilers members] Inr
  have ranked: "disjunctions_ranked source graph singletons products sources compilers members index" by simp
  have "sd_choices d \<noteq> []" if "d \<in> set sources" for d
  proof -
    from ranked that obtain f where "source_ranked source d f"
      by (auto simp: disjunctions_ranked_def list_all2_conv_all_nth in_set_conv_nth)
    then show ?thesis by (auto simp: source_ranked_def least_by_def)
  qed
  moreover have "\<not> carriers_unrankable source graph singletons products (cl_choices d)" if "d \<in> set compilers" for d
  proof -
    from ranked that obtain f where "compiler_ranked source graph singletons products d f"
      by (auto simp: disjunctions_ranked_def list_all2_conv_all_nth in_set_conv_nth)
    then show ?thesis by (fastforce simp: compiler_ranked_def least_ranked_def carriers_unrankable_def list_ex_iff)
  qed
  moreover have "\<not> definitions_unrankable source graph singletons products (dd_choices d)" if "d \<in> set members" for d
  proof -
    from ranked that obtain f where "member_ranked source graph singletons products d f"
      by (auto simp: disjunctions_ranked_def list_all2_conv_all_nth in_set_conv_nth)
    then show ?thesis by (fastforce simp: member_ranked_def least_ranked_def definitions_unrankable_def list_ex_iff)
  qed
  ultimately show ?thesis using ranked by (auto simp: Inr w disjunctions_refused_def list_ex_iff)
qed

text \<open>
  C4.  The disjunction closure is its reference.  Seeded and then told new demands in rounds, with a
  selection after each, it never refuses but for a unit outside the source, and its demands and
  reports are those of a reference that keeps nothing between rounds and passes over all disjunctions
  in order, once per selection: the reverse indexes, the pending queues, the cursor and the deferred
  indices lose no selection and make none twice.
\<close>

theorem disjunction_session_exact:
  assumes "list_all (in_range (length (src_units source))) sources"
    and "disjunction_closure_new source graph singletons products sources compilers members = Inr (index, c)"
  shows "case run_disjunctions index c seeds rounds of
      Inl e \<Rightarrow> e = InvalidConstraint \<and> \<not> list_all (round_units_ok (length (src_units source))) (seeds # rounds)
    | Inr (c', d, reports) \<Rightarrow> list_all (round_units_ok (length (src_units source))) (seeds # rounds)
        \<and> (d, reports) = scan_session index (member_trigger_nodes members) rounds (announce seeds no_demand, [])"
  using disjunction_closure_new_cases [OF assms(1), of graph singletons products compilers members]
  by (intro run_disjunctions_scans) (simp_all add: assms(2))

text \<open>
  C5.  Selections settle.  In a session, whatever is announced, the selections that report progress
  are at most one for every source and every compiler disjunction and two for every member
  disjunction, which is met once for the compile presence and once for the actual one; and when the
  last selection reports none, every disjunction whose trigger is demanded has a choice that is.
\<close>

theorem disjunctions_settle:
  assumes "list_all (in_range (length (src_units source))) sources"
    and "disjunction_closure_new source graph singletons products sources compilers members = Inr (index, c)"
    and "run_disjunctions index c seeds rounds = Inr (c', d, reports)"
  shows "length (filter id reports) \<le> length sources + length compilers + 2 * length members
    \<and> (if rounds \<noteq> [] \<and> \<not> last reports then settled index (member_trigger_nodes members) d else True)"
proof -
  let ?triggers = "member_trigger_nodes members"
  from disjunction_closure_new_cases [OF assms(1), of graph singletons products compilers members] assms(2)
  have index: "index_ok (length (src_units source)) ?triggers index" and fresh: "c = fresh_closure (length (src_units source)) index"
    and "disjunctions_ranked source graph singletons products sources compilers members index" by simp_all
  then have sizes: "length (dj_source index) = length sources" "length (dj_compiler index) = length compilers"
    "length (dj_members index) = length members"
    by (auto simp: disjunctions_ranked_def dest: list_all2_lengthD)
  from run_disjunctions_scans [OF index fresh, of seeds rounds] assms(3)
  have "scan_session index ?triggers rounds (announce seeds no_demand, []) = (d, reports)" by simp
  from scan_session_exact [OF index_ok_good [OF index] this]
  have "length reports = length rounds" "length (filter id reports) \<le> unmet_count index ?triggers (announce seeds no_demand)"
    "reports \<noteq> [] \<and> \<not> last reports \<longrightarrow> settled index ?triggers d" by auto
  with unmet_count_bound [of index ?triggers "announce seeds no_demand"] sizes show ?thesis by auto
qed

section \<open>A sample\<close>

definition sample_choice :: source_disjunction where
  "sample_choice = \<lparr>sd_trigger = 0, sd_choices = [1]\<rparr>"

lemma sample_choice_range: "list_all (in_range (length (src_units sample_site_source))) [sample_choice]"
  by (simp add: sample_choice_def in_range_def sample_site_source_def sample_units_def)

definition empty_graph :: dependency_graph where
  "empty_graph = \<lparr>g_definitions = \<lparr>dg_definitions = [], dg_external = [], dg_edges = []\<rparr>, g_expansions = [],
     g_proofs = [], g_mono = [], g_edges = [], g_roots = []\<rparr>"

definition no_products :: macro_products where
  "no_products = \<lparr>mp_product_groups = Map.empty, mp_class_by_group = [], mp_class_roots = [],
     mp_node_indices = Map.empty, mp_local_sources = [], mp_parents = []\<rparr>"

lemma sample_disjunctions:
  obtains index c where
    "disjunction_closure_new sample_site_source empty_graph [] no_products [sample_choice] [] [] = Inr (index, c)"
    "dj_source index = [\<lparr>rs_trigger = 0, rs_choices = [1], rs_selected = 1\<rparr>]" "dj_compiler index = []" "dj_members index = []"
proof -
  note cases = disjunction_closure_new_cases [OF sample_choice_range, of empty_graph "[]" no_products "[]" "[]"]
  show thesis
  proof (cases "disjunction_closure_new sample_site_source empty_graph [] no_products [sample_choice] [] []")
    case (Inl e)
    with cases show thesis by (simp add: disjunctions_refused_def sample_choice_def)
  next
    case (Inr w)
    obtain index c where w: "w = (index, c)" by (cases w)
    with cases Inr have ranked: "disjunctions_ranked sample_site_source empty_graph [] no_products [sample_choice] [] [] index" by simp
    then obtain f where f: "dj_source index = [f]" "source_ranked sample_site_source sample_choice f"
      by (auto simp: disjunctions_ranked_def list_all2_Cons1)
    then have "f = \<lparr>rs_trigger = 0, rs_choices = [1], rs_selected = 1\<rparr>"
      by (cases f) (simp add: source_ranked_def sample_choice_def least_by_def)
    with f ranked Inr w that show thesis by (simp add: disjunctions_ranked_def)
  qed
qed

theorem disjunction_closure_new_exact_witness:
  "case disjunction_closure_new sample_site_source empty_graph [] no_products [sample_choice] [] [] of
     Inl e \<Rightarrow> False
   | Inr (index, c) \<Rightarrow> disjunctions_ranked sample_site_source empty_graph [] no_products [sample_choice] [] [] index"
  using disjunction_closure_new_exact [OF sample_choice_range, of empty_graph "[]" no_products "[]" "[]"]
  by (auto simp: disjunctions_refused_def sample_choice_def split: sum.splits)

lemma sample_scan:
  assumes "dj_source index = [\<lparr>rs_trigger = 0, rs_choices = [1], rs_selected = 1\<rparr>]" "dj_compiler index = []" "dj_members index = []"
  shows "\<exists>d. scan_session index (member_trigger_nodes []) [([], [], []), ([], [], [])] (announce ([], [], [0]) no_demand, []) = (d, [True, False])
    \<and> dm_retained d = {0, 1}"
  by (auto simp: assms scan_disjunctions_def scan_source_def scan_members_def announce_def no_demand_def source_open_def
      source_met_def retain_one_def Let_def)

lemma sample_run:
  assumes "list_all (round_units_ok n) (seeds # rounds)"
    and "case r of Inl e \<Rightarrow> e = InvalidConstraint \<and> \<not> list_all (round_units_ok n) (seeds # rounds)
      | Inr (c', d, reports) \<Rightarrow> list_all (round_units_ok n) (seeds # rounds) \<and> (d, reports) = w"
  obtains c' d reports where "r = Inr (c', d, reports)" "(d, reports) = w"
proof (cases r)
  case (Inl e)
  with assms show ?thesis by simp
next
  case (Inr v)
  obtain c' d reports where "v = (c', d, reports)" by (cases v)
  with Inr have r: "r = Inr (c', d, reports)" by simp
  with assms(2) have "(d, reports) = w" by simp
  with r show ?thesis by (rule that)
qed

theorem disjunction_session_exact_witness:
  "\<exists>index c c' d. disjunction_closure_new sample_site_source empty_graph [] no_products [sample_choice] [] [] = Inr (index, c)
     \<and> run_disjunctions index c ([], [], [0]) [([], [], []), ([], [], [])] = Inr (c', d, [True, False])
     \<and> dm_retained d = {0, 1}"
proof -
  obtain index c where new: "disjunction_closure_new sample_site_source empty_graph [] no_products [sample_choice] [] [] = Inr (index, c)"
    and lists: "dj_source index = [\<lparr>rs_trigger = 0, rs_choices = [1], rs_selected = 1\<rparr>]" "dj_compiler index = []" "dj_members index = []"
    by (rule sample_disjunctions)
  have "list_all (round_units_ok (length (src_units sample_site_source))) (([], [], [0]) # [([], [], []), ([], [], [])])"
    by (simp add: round_units_ok_def sample_site_source_def sample_units_def)
  from this disjunction_session_exact [OF sample_choice_range new, of "([], [], [0])" "[([], [], []), ([], [], [])]"]
  obtain c' d reports where run: "run_disjunctions index c ([], [], [0]) [([], [], []), ([], [], [])] = Inr (c', d, reports)"
    and "(d, reports) = scan_session index (member_trigger_nodes []) [([], [], []), ([], [], [])] (announce ([], [], [0]) no_demand, [])"
    by (rule sample_run)
  with sample_scan [OF lists] have "reports = [True, False]" "dm_retained d = {0, 1}" by (metis Pair_inject)+
  with new run show ?thesis by blast
qed

theorem disjunctions_settle_witness:
  "\<exists>index c c' d.
     disjunction_closure_new sample_site_source empty_graph [] no_products [sample_choice] [] [] = Inr (index, c)
     \<and> run_disjunctions index c ([], [], [0]) [([], [], []), ([], [], [])] = Inr (c', d, [True, False])
     \<and> length (filter id [True, False]) \<le> length [sample_choice]
     \<and> dm_retained d = {0, 1} \<and> settled index [] d \<and> dj_source index \<noteq> []"
proof -
  obtain index c where new: "disjunction_closure_new sample_site_source empty_graph [] no_products [sample_choice] [] [] = Inr (index, c)"
    and lists: "dj_source index = [\<lparr>rs_trigger = 0, rs_choices = [1], rs_selected = 1\<rparr>]" "dj_compiler index = []" "dj_members index = []"
    by (rule sample_disjunctions)
  from disjunction_closure_new_cases [OF sample_choice_range, of empty_graph "[]" no_products "[]" "[]"] new
  have "index_ok (length (src_units sample_site_source)) (member_trigger_nodes []) index"
    "c = fresh_closure (length (src_units sample_site_source)) index" by simp_all
  note scans = run_disjunctions_scans [OF this, of "([], [], [0])" "[([], [], []), ([], [], [])]"]
  have "list_all (round_units_ok (length (src_units sample_site_source))) (([], [], [0]) # [([], [], []), ([], [], [])])"
    by (simp add: round_units_ok_def sample_site_source_def sample_units_def)
  from this scans obtain c' d reports where
    run': "run_disjunctions index c ([], [], [0]) [([], [], []), ([], [], [])] = Inr (c', d, reports)"
    and "(d, reports) = scan_session index (member_trigger_nodes []) [([], [], []), ([], [], [])] (announce ([], [], [0]) no_demand, [])"
    by (rule sample_run)
  with sample_scan [OF lists] have "reports = [True, False]" and d: "dm_retained d = {0, 1}" by (metis Pair_inject)+
  with run' have run: "run_disjunctions index c ([], [], [0]) [([], [], []), ([], [], [])] = Inr (c', d, [True, False])" by simp
  have bound: "length (filter id [True, False]) \<le> length [sample_choice]"
    and "settled index (member_trigger_nodes []) d"
    using disjunctions_settle [OF sample_choice_range new run] by simp_all
  moreover have "member_trigger_nodes [] = []" by (simp add: member_trigger_nodes_def)
  ultimately have "settled index [] d" by (simp only:)
  with new run bound d lists(1) show ?thesis
    by (intro exI [of _ index] exI [of _ c] exI [of _ c'] exI [of _ d]) simp
qed

end
