(* ===== verification/Token_Requirements.thy ===== *)
theory Token_Requirements
  imports Rewrite
begin

text \<open>
  \<open>MacroRepetitionTokenRequirements\<close> of \<open>src/rewrite/macro_repetition.rs\<close>: the deletions that a
  growing set of retained units leaves inside repetitions, kept up to date one wave of units at a
  time.  A wave selects the repetitions it changes, replaces their runs, and the index of active
  deletions groups neighbours into components and equal dependency windows into cohorts; only the
  components and cohorts a wave changed are tested against the parser tokens again.

  The maps are the lists of their entries in key order, the sets of ranges are sets that are listed
  in order when the code iterates them, and a slot of \<open>components\<close> that was given up is \<open>None\<close>.
  The counters that the tests read are left out.  A step that fails ends the retention, so the state
  it leaves behind is not part of its result.
\<close>

section \<open>State\<close>

datatype retention_input = ParentInput nat | ElementInput nat nat

record repetition_deletion_state =
  repetition_active :: bool
  retained_elements :: "bool list"
  retained_count :: nat
  active_runs :: "(nat \<times> nat) list"

record active_deletion =
  active_repetition :: nat
  active_first :: nat
  active_final :: nat
  active_component :: nat
  active_window :: byte_range

record token_requirements =
  req_guard :: "token_rewrite_guard option"
  inputs_by_unit :: "retention_input list list"
  known_retained :: "bool list"
  pending_retained :: "source_unit_id list"
  req_initialized :: bool
  repetition_states :: "repetition_deletion_state list"
  active_deletions :: "(byte_range \<times> active_deletion) list"
  deletion_components :: "byte_range set option list"
  lexical_cohorts :: "(byte_range \<times> byte_range set) list"

text \<open>The state with the components and the cohorts a wave has changed so far.\<close>

type_synonym dirty_requirements = "token_requirements \<times> nat set \<times> byte_range set"

section \<open>Ordered collections\<close>

definition remove_entry :: "'k \<Rightarrow> ('k \<times> 'v) list \<Rightarrow> ('k \<times> 'v) list" where
  "remove_entry k m = filter (\<lambda>(j, _). j \<noteq> k) m"

definition greatest_below :: "'k::linorder \<Rightarrow> 'k set \<Rightarrow> 'k option" where
  "greatest_below k ks = (let below = {j \<in> ks. j < k} in if below = {} then None else Some (Max below))"

definition least_from :: "'k::linorder \<Rightarrow> 'k set \<Rightarrow> 'k option" where
  "least_from k ks = (let from_here = {j \<in> ks. k \<le> j} in if from_here = {} then None else Some (Min from_here))"

definition insert_member :: "'v \<Rightarrow> 'v set option \<Rightarrow> 'v set" where
  "insert_member x old = insert x (case old of None \<Rightarrow> {} | Some xs \<Rightarrow> xs)"

section \<open>Construction\<close>

definition push_input :: "retention_input \<Rightarrow> source_unit_id \<Rightarrow> retention_input list list
    \<Rightarrow> source_rewrite_error + retention_input list list" where
  "push_input input unit inputs =
     bind_result (ok_or (get_at inputs unit) RewriteInvalidInventory) (\<lambda>old. Inr (inputs[unit := old @ [input]]))"

definition push_repetition :: "nat \<times> macro_repetition \<Rightarrow> retention_input list list
    \<Rightarrow> source_rewrite_error + retention_input list list" where
  "push_repetition = (\<lambda>(repetition, r) inputs.
     bind_result (push_input (ParentInput repetition) (rep_parent r) inputs)
       (fold_result (\<lambda>(element, e). push_input (ElementInput repetition element) (element_unit e))
         (enumerate 0 (rep_elements r))))"

definition token_requirements_new :: "lexer \<Rightarrow> glue \<Rightarrow> source_inventory \<Rightarrow> source_rewrite_error + token_requirements" where
  "token_requirements_new tokenize glue inventory =
     bind_result
       (if src_macro_repetitions inventory = [] then Inr None
        else bind_result (map_err (\<lambda>_. RewriteInvalidInventory)
               (token_rewrite_guard_new tokenize glue (src_original inventory))) (\<lambda>guard. Inr (Some guard))) (\<lambda>guard.
     bind_result
       (fold_result push_repetition (enumerate 0 (src_macro_repetitions inventory))
         (replicate (length (src_units inventory)) [])) (\<lambda>inputs.
       Inr \<lparr>req_guard = guard, inputs_by_unit = inputs,
            known_retained = replicate (length (src_units inventory)) False,
            pending_retained = [], req_initialized = False,
            repetition_states =
              map (\<lambda>r. \<lparr>repetition_active = False,
                        retained_elements = replicate (length (rep_elements r)) False,
                        retained_count = 0, active_runs = []\<rparr>) (src_macro_repetitions inventory),
            active_deletions = [], deletion_components = [], lexical_cohorts = []\<rparr>))"

section \<open>Components\<close>

definition component_at :: "token_requirements \<Rightarrow> nat \<Rightarrow> byte_range set option" where
  "component_at st component =
     (case get_at (deletion_components st) component of None \<Rightarrow> None | Some slot \<Rightarrow> slot)"

definition component_len :: "token_requirements \<Rightarrow> nat \<Rightarrow> source_rewrite_error + nat" where
  "component_len st component = ok_or (map_option card (component_at st component)) RewriteInvalidInventory"

definition component_range :: "token_requirements \<Rightarrow> nat \<Rightarrow> byte_range option" where
  "component_range st component =
     (case component_at st component of
        None \<Rightarrow> None
      | Some deletions \<Rightarrow>
          if deletions = {} then None
          else Some (ByteRange (br_start (Min deletions)) (br_end (Max deletions))))"

definition new_component :: "token_requirements \<Rightarrow> byte_range set \<Rightarrow> token_requirements \<times> nat" where
  "new_component st deletions =
     (st\<lparr>deletion_components := deletion_components st @ [Some deletions]\<rparr>, length (deletion_components st))"

definition set_component :: "nat \<Rightarrow> byte_range set option \<Rightarrow> token_requirements \<Rightarrow> token_requirements" where
  "set_component component slot st = st\<lparr>deletion_components := (deletion_components st)[component := slot]\<rparr>"

text \<open>The deletions of a component that is merged or split move to another one.\<close>

definition move_deletion :: "nat \<Rightarrow> byte_range \<Rightarrow> (byte_range \<times> active_deletion) list
    \<Rightarrow> source_rewrite_error + (byte_range \<times> active_deletion) list" where
  "move_deletion target deletion m =
     (case map_of m deletion of
        None \<Rightarrow> Inl RewriteInvalidInventory
      | Some a \<Rightarrow> Inr (entry_update deletion (\<lambda>_. a\<lparr>active_component := target\<rparr>) m))"

definition move_deletions :: "nat \<Rightarrow> byte_range set \<Rightarrow> token_requirements \<Rightarrow> source_rewrite_error + token_requirements" where
  "move_deletions target moved st =
     bind_result (fold_result (move_deletion target) (sorted_list_of_set moved) (active_deletions st)) (\<lambda>m.
       Inr (st\<lparr>active_deletions := m\<rparr>))"

definition merge_components ::
  "nat \<Rightarrow> nat \<Rightarrow> byte_range \<Rightarrow> token_requirements \<Rightarrow> source_rewrite_error + token_requirements \<times> nat" where
  "merge_components left right deletion st =
     bind_result (component_len st left) (\<lambda>left_len.
     bind_result (component_len st right) (\<lambda>right_len.
       let (target, source) = (if left_len \<ge> right_len then (left, right) else (right, left))
       in bind_result (ok_or (component_at st source) RewriteInvalidInventory) (\<lambda>moved.
          bind_result (move_deletions target moved (set_component source None st)) (\<lambda>st.
          bind_result (ok_or (component_at st target) RewriteInvalidInventory) (\<lambda>kept.
            Inr (set_component target (Some (insert deletion (kept \<union> moved))) st, target))))))"

definition joined_component ::
  "(byte_range \<times> nat) option \<Rightarrow> (byte_range \<times> nat) option \<Rightarrow> byte_range \<Rightarrow> token_requirements
     \<Rightarrow> source_rewrite_error + token_requirements \<times> nat" where
  "joined_component left right deletion st =
     (case (left, right) of
        (None, None) \<Rightarrow> Inr (new_component st {deletion})
      | (Some (_, left), Some (_, right)) \<Rightarrow>
          if left \<noteq> right then merge_components left right deletion st else Inl RewriteInvalidInventory
      | (Some (_, component), None) \<Rightarrow>
          bind_result (ok_or (component_at st component) RewriteInvalidInventory) (\<lambda>deletions.
            Inr (set_component component (Some (insert deletion deletions)) st, component))
      | (None, Some (_, component)) \<Rightarrow>
          bind_result (ok_or (component_at st component) RewriteInvalidInventory) (\<lambda>deletions.
            Inr (set_component component (Some (insert deletion deletions)) st, component)))"

section \<open>Active deletions\<close>

definition active_neighbour :: "token_requirements \<Rightarrow> byte_range option \<Rightarrow> (byte_range \<times> nat) option" where
  "active_neighbour st key =
     (case key of
        None \<Rightarrow> None
      | Some r \<Rightarrow> map_option (\<lambda>a. (r, active_component a)) (map_of (active_deletions st) r))"

definition keep_if :: "('a \<Rightarrow> bool) \<Rightarrow> 'a option \<Rightarrow> 'a option" where
  "keep_if p x = (case x of None \<Rightarrow> None | Some y \<Rightarrow> if p y then Some y else None)"

definition insert_active_deletion ::
  "source_inventory \<Rightarrow> nat \<Rightarrow> nat \<Rightarrow> nat \<Rightarrow> dirty_requirements \<Rightarrow> source_rewrite_error + dirty_requirements" where
  "insert_active_deletion inventory repetition first final = (\<lambda>(st, dirty_components, dirty_cohorts).
     bind_result (macro_repetition_run_deletion_range inventory (src_macro_repetitions inventory ! repetition) first final)
       (\<lambda>deletion.
     bind_result
       (ok_or (case req_guard st of None \<Rightarrow> None | Some guard \<Rightarrow> deletion_dependency_window guard deletion)
         RewriteInvalidInventory) (\<lambda>window.
       let lower = ByteRange (br_start deletion) 0;
           keys = fst ` set (active_deletions st);
           previous = active_neighbour st (greatest_below lower keys);
           following = active_neighbour st (least_from lower keys)
       in if (case previous of None \<Rightarrow> False | Some (p, _) \<Rightarrow> br_end p > br_start deletion)
             \<or> (case following of None \<Rightarrow> False | Some (n, _) \<Rightarrow> br_start n < br_end deletion)
          then Inl RewriteInvalidInventory
          else
            bind_result
              (joined_component
                (keep_if (\<lambda>(p, _). br_end p = br_start deletion) previous)
                (keep_if (\<lambda>(n, _). br_start n = br_end deletion) following) deletion st) (\<lambda>(st, component).
              if deletion \<in> fst ` set (active_deletions st) then Inl RewriteInvalidInventory
              else if (case map_of (lexical_cohorts st) window of None \<Rightarrow> False | Some cohort \<Rightarrow> deletion \<in> cohort)
              then Inl RewriteInvalidInventory
              else
                Inr (st\<lparr>active_deletions :=
                          entry_update deletion
                            (\<lambda>_. \<lparr>active_repetition = repetition, active_first = first, active_final = final,
                                  active_component = component, active_window = window\<rparr>) (active_deletions st),
                        lexical_cohorts := entry_update window (insert_member deletion) (lexical_cohorts st)\<rparr>,
                     insert component dirty_components, insert window dirty_cohorts)))))"

text \<open>A component that lost a deletion between two others is split; the smaller half moves.\<close>

definition split_component ::
  "nat \<Rightarrow> byte_range \<Rightarrow> byte_range set \<Rightarrow> token_requirements \<times> nat set
     \<Rightarrow> source_rewrite_error + token_requirements \<times> nat set" where
  "split_component component deletion deletions = (\<lambda>(st, dirty_components).
     (case (greatest_below deletion deletions, least_from deletion deletions) of
        (Some left, Some right) \<Rightarrow>
          if br_end left \<noteq> br_start right then
            let right_deletions = {d \<in> deletions. right \<le> d};
                left_deletions = deletions - right_deletions;
                (kept, moved) =
                  (if card left_deletions \<ge> card right_deletions then (left_deletions, right_deletions)
                   else (right_deletions, left_deletions));
                moved_component = length (deletion_components st)
            in bind_result (move_deletions moved_component moved (set_component component (Some kept) st)) (\<lambda>st.
                 Inr (st\<lparr>deletion_components := deletion_components st @ [Some moved]\<rparr>,
                      insert moved_component dirty_components))
          else Inr (st, dirty_components)
      | _ \<Rightarrow> Inr (st, dirty_components)))"

definition remove_active_deletion ::
  "source_inventory \<Rightarrow> nat \<Rightarrow> nat \<Rightarrow> nat \<Rightarrow> dirty_requirements \<Rightarrow> source_rewrite_error + dirty_requirements" where
  "remove_active_deletion inventory repetition first final = (\<lambda>(st, dirty_components, dirty_cohorts).
     bind_result (macro_repetition_run_deletion_range inventory (src_macro_repetitions inventory ! repetition) first final)
       (\<lambda>deletion.
     bind_result (ok_or (map_of (active_deletions st) deletion) RewriteInvalidInventory) (\<lambda>active.
       if active_repetition active \<noteq> repetition \<or> active_first active \<noteq> first \<or> active_final active \<noteq> final
       then Inl RewriteInvalidInventory
       else
         bind_result (ok_or (map_of (lexical_cohorts st) (active_window active)) RewriteInvalidInventory) (\<lambda>cohort.
           if deletion \<notin> cohort then Inl RewriteInvalidInventory
           else
             let cohorts =
                   (if cohort - {deletion} = {} then remove_entry (active_window active) (lexical_cohorts st)
                    else entry_update (active_window active) (\<lambda>_. cohort - {deletion}) (lexical_cohorts st));
                 dirty_cohorts =
                   (if cohort - {deletion} = {} then dirty_cohorts else insert (active_window active) dirty_cohorts);
                 st = st\<lparr>active_deletions := remove_entry deletion (active_deletions st), lexical_cohorts := cohorts\<rparr>
             in bind_result (ok_or (component_at st (active_component active)) RewriteInvalidInventory) (\<lambda>deletions.
                  if deletion \<notin> deletions then Inl RewriteInvalidInventory
                  else if deletions - {deletion} = {} then
                    Inr (set_component (active_component active) None st, dirty_components, dirty_cohorts)
                  else
                    bind_result
                      (split_component (active_component active) deletion (deletions - {deletion})
                        (set_component (active_component active) (Some (deletions - {deletion})) st, dirty_components))
                      (\<lambda>(st, dirty_components).
                        Inr (st, insert (active_component active) dirty_components, dirty_cohorts)))))))"

section \<open>Repetitions\<close>

definition update_repetition :: "nat \<Rightarrow> repetition_deletion_state \<Rightarrow> token_requirements \<Rightarrow> token_requirements" where
  "update_repetition repetition state st =
     st\<lparr>repetition_states := (repetition_states st)[repetition := state]\<rparr>"

definition activate_repetition ::
  "source_inventory \<Rightarrow> nat \<Rightarrow> dirty_requirements \<Rightarrow> source_rewrite_error + dirty_requirements" where
  "activate_repetition inventory repetition = (\<lambda>(st, dirty).
     let r = src_macro_repetitions inventory ! repetition;
         retained = map (\<lambda>e. known_retained st ! element_unit e) (rep_elements r)
     in bind_result (from_retained_elements r retained) (\<lambda>model.
          fold_result (\<lambda>(first, final). insert_active_deletion inventory repetition first final) (unretained_runs model)
            (update_repetition repetition
               \<lparr>repetition_active = True, retained_elements = retained,
                retained_count = model_retained model, active_runs = unretained_runs model\<rparr> st, dirty)))"

text \<open>The part of a run on one side of an element that is retained now.\<close>

definition insert_run ::
  "source_inventory \<Rightarrow> nat \<Rightarrow> nat \<Rightarrow> nat \<Rightarrow> dirty_requirements \<Rightarrow> source_rewrite_error + dirty_requirements" where
  "insert_run inventory repetition first final = (\<lambda>(st, dirty).
     let state = repetition_states st ! repetition
     in insert_active_deletion inventory repetition first final
          (update_repetition repetition (state\<lparr>active_runs := entry_update first (\<lambda>_. final) (active_runs state)\<rparr>) st, dirty))"

definition retain_repetition_element ::
  "source_inventory \<Rightarrow> nat \<Rightarrow> nat \<Rightarrow> dirty_requirements \<Rightarrow> source_rewrite_error + dirty_requirements" where
  "retain_repetition_element inventory repetition element = (\<lambda>(st, dirty).
     let state = repetition_states st ! repetition
     in bind_result (ok_or (get_at (retained_elements state) element) RewriteInvalidInventory) (\<lambda>known.
        if known then Inr (st, dirty)
        else
          bind_result
            (ok_or
              (case greatest_below (Suc element) (fst ` set (active_runs state)) of
                 None \<Rightarrow> None
               | Some first \<Rightarrow>
                   keep_if (\<lambda>(_, final). element \<le> final) (map_option (Pair first) (map_of (active_runs state) first)))
              RewriteInvalidInventory) (\<lambda>(first, final).
            let state = state\<lparr>active_runs := remove_entry first (active_runs state),
                  retained_elements := (retained_elements state)[element := True],
                  retained_count := retained_count state + 1\<rparr>
            in bind_result (validate_count (src_macro_repetitions inventory ! repetition) (retained_count state)) (\<lambda>_.
               bind_result (remove_active_deletion inventory repetition first final
                   (update_repetition repetition state st, dirty)) (\<lambda>s.
               bind_result (if first < element then insert_run inventory repetition first (element - 1) s else Inr s) (\<lambda>s.
                 if element < final then insert_run inventory repetition (element + 1) final s else Inr s))))))"

section \<open>Waves\<close>

definition note_input :: "retention_input \<Rightarrow> (nat \<times> nat set) list \<Rightarrow> (nat \<times> nat set) list" where
  "note_input input changed =
     (case input of
        ParentInput repetition \<Rightarrow> entry_update repetition (\<lambda>old. case old of None \<Rightarrow> {} | Some es \<Rightarrow> es) changed
      | ElementInput repetition element \<Rightarrow> entry_update repetition (insert_member element) changed)"

definition note_unit :: "retention_input list list \<Rightarrow> source_unit_id set \<Rightarrow> source_unit_id
    \<Rightarrow> bool list \<times> (nat \<times> nat set) list \<Rightarrow> source_rewrite_error + bool list \<times> (nat \<times> nat set) list" where
  "note_unit inputs retained unit = (\<lambda>(known, changed).
     if unit \<notin> retained \<or> unit \<ge> length known then Inl RewriteInvalidRetention
     else if known ! unit then Inl RewriteInvalidRetention
     else Inr (known[unit := True], fold note_input (inputs ! unit) changed))"

definition retain_changed ::
  "source_inventory \<Rightarrow> nat \<times> nat set \<Rightarrow> dirty_requirements \<Rightarrow> source_rewrite_error + dirty_requirements" where
  "retain_changed inventory = (\<lambda>(repetition, elements) s.
     if \<not> repetition_active (repetition_states (fst s) ! repetition) then Inr s
     else fold_result (retain_repetition_element inventory repetition) (sorted_list_of_set elements) s)"

definition activate_changed ::
  "source_inventory \<Rightarrow> nat \<times> nat set \<Rightarrow> dirty_requirements \<Rightarrow> source_rewrite_error + dirty_requirements" where
  "activate_changed inventory = (\<lambda>(repetition, _) s.
     if \<not> repetition_active (repetition_states (fst s) ! repetition)
        \<and> known_retained (fst s) ! rep_parent (src_macro_repetitions inventory ! repetition)
     then activate_repetition inventory repetition s else Inr s)"

text \<open>The units of the elements that deletions remove.\<close>

definition deletion_elements ::
  "source_inventory \<Rightarrow> token_requirements \<Rightarrow> byte_range list \<Rightarrow> source_rewrite_error + source_unit_id set" where
  "deletion_elements inventory st deletions =
     fold_result (\<lambda>deletion elements.
       bind_result (ok_or (map_of (active_deletions st) deletion) RewriteInvalidInventory) (\<lambda>active.
         Inr (elements \<union> element_unit `
           set (drop (active_first active) (take (active_final active + 1)
             (rep_elements (src_macro_repetitions inventory ! active_repetition active)))))))
       deletions {}"

definition component_elements ::
  "source_inventory \<Rightarrow> token_requirements \<Rightarrow> nat \<Rightarrow> source_rewrite_error + source_unit_id set" where
  "component_elements inventory st component =
     bind_result (ok_or (component_at st component) RewriteInvalidInventory) (\<lambda>deletions.
       deletion_elements inventory st (sorted_list_of_set deletions))"

type_synonym forced_units = "source_unit_id set \<times> source_unit_id list"

definition force_units :: "source_unit_id set \<Rightarrow> forced_units \<Rightarrow> forced_units" where
  "force_units elements =
     fold (\<lambda>unit (retained, pending). if unit \<in> retained then (retained, pending) else (insert unit retained, pending @ [unit]))
       (sorted_list_of_set elements)"

definition check_component :: "lexer \<Rightarrow> glue \<Rightarrow> token_rewrite_guard \<Rightarrow> source_inventory \<Rightarrow> token_requirements \<Rightarrow> nat
    \<Rightarrow> forced_units \<Rightarrow> source_rewrite_error + forced_units" where
  "check_component tokenize glue guard inventory st component forced =
     (case component_range st component of
        None \<Rightarrow> Inr forced
      | Some deletion \<Rightarrow>
          if deletion_preserves_identity tokenize glue guard deletion then Inr forced
          else bind_result (component_elements inventory st component) (\<lambda>elements. Inr (force_units elements forced)))"

definition check_cohort :: "lexer \<Rightarrow> glue \<Rightarrow> token_rewrite_guard \<Rightarrow> source_inventory \<Rightarrow> token_requirements \<Rightarrow> byte_range
    \<Rightarrow> forced_units \<Rightarrow> source_rewrite_error + forced_units" where
  "check_cohort tokenize glue guard inventory st window forced =
     (case map_of (lexical_cohorts st) window of
        None \<Rightarrow> Inr forced
      | Some deletions \<Rightarrow>
          if deletions_preserve_identity tokenize glue guard (sorted_list_of_set deletions) then Inr forced
          else bind_result (deletion_elements inventory st (sorted_list_of_set deletions)) (\<lambda>elements.
                 Inr (force_units elements forced)))"

text \<open>The first wave must be the whole retained set, and that set must be valid.\<close>

definition start_requirements ::
  "source_inventory \<Rightarrow> source_unit_id set \<Rightarrow> source_unit_id list \<Rightarrow> token_requirements \<Rightarrow> source_rewrite_error + token_requirements" where
  "start_requirements inventory retained newly_retained st =
     (if req_initialized st then Inr st
      else
        bind_result (validate_retention inventory retained) (\<lambda>_.
          if card (set newly_retained) \<noteq> length newly_retained \<or> set newly_retained \<noteq> retained
          then Inl RewriteInvalidRetention else Inr (st\<lparr>req_initialized := True\<rparr>)))"

definition update_deletions ::
  "source_inventory \<Rightarrow> source_unit_id set \<Rightarrow> source_unit_id list \<Rightarrow> token_requirements
     \<Rightarrow> source_rewrite_error + dirty_requirements" where
  "update_deletions inventory retained newly_retained st =
     bind_result (fold_result (note_unit (inputs_by_unit st) retained) (rev newly_retained) (known_retained st, []))
       (\<lambda>(known, changed).
     bind_result (fold_result (retain_changed inventory) changed (st\<lparr>known_retained := known\<rparr>, {}, {})) (\<lambda>s.
       fold_result (activate_changed inventory) changed s))"

definition token_requirements_close ::
  "lexer \<Rightarrow> glue \<Rightarrow> source_inventory \<Rightarrow> token_requirements \<Rightarrow> source_unit_id set \<Rightarrow> source_unit_id list
     \<Rightarrow> source_rewrite_error + bool \<times> token_requirements \<times> source_unit_id set" where
  "token_requirements_close tokenize glue inventory st retained newly_retained =
     (case req_guard st of
        None \<Rightarrow> Inr (False, st, retained)
      | Some guard \<Rightarrow>
          bind_result (start_requirements inventory retained newly_retained st) (\<lambda>st.
            if pending_retained st \<noteq> [] then Inl RewriteInvalidRetention
            else
              bind_result (update_deletions inventory retained newly_retained st) (\<lambda>(st, dirty_components, dirty_cohorts).
              bind_result
                (fold_result (check_component tokenize glue guard inventory st) (sorted_list_of_set dirty_components)
                  (retained, [])) (\<lambda>forced.
              bind_result
                (fold_result (check_cohort tokenize glue guard inventory st) (sorted_list_of_set dirty_cohorts) forced)
                (\<lambda>(retained, pending).
                  Inr (pending \<noteq> [], st\<lparr>pending_retained := pending\<rparr>, retained))))))"

definition take_newly_forced_units :: "token_requirements \<Rightarrow> source_unit_id list \<times> token_requirements" where
  "take_newly_forced_units st = (pending_retained st, st\<lparr>pending_retained := []\<rparr>)"

end
