(* ===== verification/Deletion_Index.thy ===== *)
theory Deletion_Index
  imports Token_Requirements
begin

text \<open>
  The index of active deletions of \<open>MacroRepetitionTokenRequirements\<close>: its entries are disjoint,
  two deletions share a component exactly when every byte between them is deleted, components and
  cohorts list exactly the deletions that name them, and inserting or removing a deletion keeps all
  of this and marks every group it changed.
\<close>

section \<open>Ordered collections\<close>

lemma greatest_below_Some:
  assumes "finite ks"
  shows "greatest_below k ks = Some j \<longleftrightarrow> j \<in> ks \<and> j < k \<and> (\<forall>i \<in> ks. i < k \<longrightarrow> i \<le> j)"
proof -
  have fin: "finite {i \<in> ks. i < k}" using assms by simp
  show ?thesis
    unfolding greatest_below_def Let_def
    using Max_in [OF fin] Max_ge [OF fin] Max_eqI [OF fin] by (auto simp: conj_ac)
qed

lemma greatest_below_None: "greatest_below k ks = None \<longleftrightarrow> (\<forall>i \<in> ks. \<not> i < k)"
  by (auto simp: greatest_below_def Let_def)

lemma least_from_Some:
  assumes "finite ks"
  shows "least_from k ks = Some j \<longleftrightarrow> j \<in> ks \<and> k \<le> j \<and> (\<forall>i \<in> ks. k \<le> i \<longrightarrow> j \<le> i)"
proof -
  have fin: "finite {i \<in> ks. k \<le> i}" using assms by simp
  show ?thesis
    unfolding least_from_def Let_def
    using Min_in [OF fin] Min_le [OF fin] Min_eqI [OF fin] by (auto simp: conj_ac)
qed

lemma least_from_None: "least_from k ks = None \<longleftrightarrow> (\<forall>i \<in> ks. \<not> k \<le> i)"
  by (auto simp: least_from_def Let_def)

lemma remove_entry_ordered: "ordered_keys m \<Longrightarrow> ordered_keys (remove_entry k m)"
  by (simp add: ordered_keys_def remove_entry_def sorted_wrt_map sorted_wrt_filter)

lemma remove_entry_map_of: "map_of (remove_entry k m) = (map_of m)(k := None)"
  by (induction m) (auto simp: remove_entry_def fun_eq_iff)

lemma remove_entry_keys: "fst ` set (remove_entry k m) = fst ` set m - {k}"
  by (auto simp: remove_entry_def image_iff split: prod.splits)

lemma keep_if_eq [simp]:
  "keep_if p x = Some y \<longleftrightarrow> x = Some y \<and> p y" "keep_if p x = None \<longleftrightarrow> (\<forall>y. x = Some y \<longrightarrow> \<not> p y)"
  by (auto simp: keep_if_def split: option.splits)

section \<open>Groups of entries\<close>

definition slot :: "'v set \<Rightarrow> 'v set option" where
  "slot vs = (if vs = {} then None else Some vs)"

definition range_group :: "('a \<Rightarrow> 'k) \<Rightarrow> ('d \<rightharpoonup> 'a) \<Rightarrow> 'k \<Rightarrow> 'd set" where
  "range_group key A k = {d. \<exists>a. A d = Some a \<and> key a = k}"

definition grouped :: "('a \<Rightarrow> 'k) \<Rightarrow> ('d \<rightharpoonup> 'a) \<Rightarrow> ('k \<Rightarrow> 'd set option) \<Rightarrow> bool" where
  "grouped key A lookup \<longleftrightarrow> (\<forall>k. lookup k = slot (range_group key A k))"

lemma slot_eq [simp]: "slot vs = None \<longleftrightarrow> vs = {}" "slot vs = Some ws \<longleftrightarrow> vs = ws \<and> ws \<noteq> {}"
  by (auto simp: slot_def)

lemma grouped_Some: "grouped key A lookup \<Longrightarrow> lookup k = Some ds \<longleftrightarrow> ds = range_group key A k \<and> ds \<noteq> {}"
  by (auto simp: grouped_def)

lemma grouped_member: "grouped key A lookup \<Longrightarrow> A d = Some a \<Longrightarrow> \<exists>ds. lookup (key a) = Some ds \<and> d \<in> ds"
  by (auto simp: grouped_def range_group_def)

lemma range_group_finite: "finite (dom A) \<Longrightarrow> finite (range_group key A k)"
  by (rule finite_subset [of _ "dom A"]) (auto simp: range_group_def)

text \<open>Entries of the groups: insertion, removal, and a part of one group that moves to another.\<close>

definition move_entries :: "nat \<Rightarrow> byte_range set \<Rightarrow> (byte_range \<rightharpoonup> active_deletion) \<Rightarrow> byte_range \<rightharpoonup> active_deletion" where
  "move_entries target moved A =
     (\<lambda>d. map_option (\<lambda>a. if d \<in> moved then a\<lparr>active_component := target\<rparr> else a) (A d))"

lemma move_entries_none [simp]: "move_entries t {} A = A"
  by (auto simp: move_entries_def fun_eq_iff option.map_ident)

lemma move_entries_dom [simp]: "dom (move_entries t M A) = dom A"
  by (auto simp: move_entries_def dom_def)

lemma move_entries_Some:
  "move_entries t M A d = Some b \<longleftrightarrow>
     (\<exists>a. A d = Some a \<and> b = (if d \<in> M then a\<lparr>active_component := t\<rparr> else a))"
  by (auto simp: move_entries_def)

lemma range_group_insert:
  "d \<notin> dom A \<Longrightarrow> range_group key (A(d \<mapsto> a)) k = (if k = key a then insert d (range_group key A k) else range_group key A k)"
  by (auto simp: range_group_def)

lemma range_group_remove:
  "A d = Some a \<Longrightarrow> range_group key (A(d := None)) k = (if k = key a then range_group key A k - {d} else range_group key A k)"
  by (auto simp: range_group_def)

lemma range_group_move_key:
  "(\<And>a. key (a\<lparr>active_component := t\<rparr>) = key a) \<Longrightarrow> range_group key (move_entries t M A) k = range_group key A k"
proof -
  assume key: "\<And>a. key (a\<lparr>active_component := t\<rparr>) = key a"
  have "(\<exists>b. move_entries t M A d = Some b \<and> key b = k) \<longleftrightarrow> (\<exists>a. A d = Some a \<and> key a = k)" for d
    by (cases "A d"; cases "d \<in> M") (simp_all add: move_entries_def key)
  then show ?thesis by (simp add: range_group_def)
qed

lemma range_group_move:
  assumes "M \<subseteq> range_group active_component A s" "s \<noteq> t"
  shows "range_group active_component (move_entries t M A) k =
    (if k = s then range_group active_component A s - M
     else if k = t then range_group active_component A t \<union> M else range_group active_component A k)"
proof (rule set_eqI)
  fix d
  show "d \<in> range_group active_component (move_entries t M A) k \<longleftrightarrow>
    d \<in> (if k = s then range_group active_component A s - M
         else if k = t then range_group active_component A t \<union> M else range_group active_component A k)"
    using assms by (cases "A d"; cases "d \<in> M") (auto simp: range_group_def move_entries_Some)
qed

section \<open>Chains of deletions\<close>

definition deleted_bytes :: "byte_range set \<Rightarrow> nat set" where
  "deleted_bytes K = \<Union> (range_bytes ` K)"

text \<open>Every byte from the first of two deletions to the end of the second one is deleted.\<close>

definition linked :: "byte_range set \<Rightarrow> byte_range \<Rightarrow> byte_range \<Rightarrow> bool" where
  "linked K d e \<longleftrightarrow> {br_start d ..< br_end e} \<subseteq> deleted_bytes K"

definition separate :: "byte_range set \<Rightarrow> bool" where
  "separate K \<longleftrightarrow> (\<forall>d \<in> K. br_start d < br_end d) \<and> (\<forall>d \<in> K. \<forall>e \<in> K. d < e \<longrightarrow> br_end d \<le> br_start e)"

definition chained :: "byte_range set \<Rightarrow> (byte_range \<Rightarrow> nat) \<Rightarrow> bool" where
  "chained K group_of \<longleftrightarrow> (\<forall>d \<in> K. \<forall>e \<in> K. d \<le> e \<longrightarrow> (group_of d = group_of e \<longleftrightarrow> linked K d e))"

lemma separateD:
  assumes "separate K"
  shows "d \<in> K \<Longrightarrow> br_start d < br_end d" "d \<in> K \<Longrightarrow> e \<in> K \<Longrightarrow> d < e \<Longrightarrow> br_end d \<le> br_start e"
  using assms by (auto simp: separate_def)

lemma separate_subset: "separate K \<Longrightarrow> L \<subseteq> K \<Longrightarrow> separate L"
  by (auto simp: separate_def)

lemma separate_at:
  assumes "separate K" "d \<in> K" "e \<in> K" "x \<in> range_bytes d" "x \<in> range_bytes e"
  shows "d = e"
  using assms separateD(2) [OF assms(1), of d e] separateD(2) [OF assms(1), of e d]
  by (cases d e rule: linorder_cases) (auto simp: range_bytes_def)

lemma deleted_bytes_insert: "deleted_bytes (insert r K) = range_bytes r \<union> deleted_bytes K"
  by (simp add: deleted_bytes_def)

lemma separate_apart:
  assumes "separate (insert r K)" "r \<notin> K"
  shows "range_bytes r \<inter> deleted_bytes K = {}"
  using separate_at [OF assms(1), of r] assms(2) by (force simp: deleted_bytes_def)

text \<open>A deleted byte directly in front of, or directly behind, a range that is not deleted.\<close>

lemma neighbour_before:
  assumes K: "separate (insert r K)" "r \<notin> K" and "0 < br_start r" "br_start r - 1 \<in> deleted_bytes K"
  shows "\<exists>l \<in> K. br_end l = br_start r"
proof -
  from assms(4) obtain l where l: "l \<in> K" "br_start l \<le> br_start r - 1" "br_start r - 1 < br_end l"
    by (auto simp: deleted_bytes_def range_bytes_def)
  have "l < r" using l(2) assms(3) by (auto simp: less_byte_range_def)
  then have "br_end l \<le> br_start r" using K l(1) by (auto simp: separate_def)
  with l assms(3) show ?thesis by force
qed

lemma neighbour_behind:
  assumes K: "separate (insert r K)" "r \<notin> K" and "br_end r \<in> deleted_bytes K"
  shows "\<exists>n \<in> K. br_start n = br_end r"
proof -
  from assms(3) obtain n where n: "n \<in> K" "br_start n \<le> br_end r" "br_end r < br_end n"
    by (auto simp: deleted_bytes_def range_bytes_def)
  have r: "br_start r < br_end r" using K by (simp add: separate_def)
  have "\<not> n < r"
  proof
    assume "n < r"
    then have "br_end n \<le> br_start r" using K n(1) by (auto simp: separate_def)
    with r n show False by simp
  qed
  then have "r < n" using n(1) K(2) by (metis linorder_neqE)
  then have "br_end r \<le> br_start n" using K n(1) by (auto simp: separate_def)
  with n show ?thesis by force
qed

lemma linked_same_side:
  assumes K: "separate (insert r K)" "r \<notin> K" and "d \<in> K" "e \<in> K" "d \<le> e" "d < r \<longleftrightarrow> e < r"
  shows "linked (insert r K) d e \<longleftrightarrow> linked K d e"
proof -
  have "{br_start d ..< br_end e} \<inter> range_bytes r = {}"
  proof (cases "d < r")
    case True
    then have "br_end e \<le> br_start r" using assms by (auto simp: separate_def)
    then show ?thesis by (auto simp: range_bytes_def)
  next
    case False
    then have "r < d" using assms(2,3) by (metis linorder_neqE)
    then have "br_end r \<le> br_start d" using assms by (auto simp: separate_def)
    then show ?thesis by (auto simp: range_bytes_def)
  qed
  then show ?thesis unfolding linked_def deleted_bytes_insert by blast
qed

lemma linked_across: "separate (insert r K) \<Longrightarrow> r \<notin> K \<Longrightarrow> d \<in> K \<Longrightarrow> e \<in> K \<Longrightarrow> d < r \<Longrightarrow> r < e \<Longrightarrow> \<not> linked K d e"
proof
  assume K: "separate (insert r K)" "r \<notin> K" and d: "d \<in> K" "e \<in> K" "d < r" "r < e" and l: "linked K d e"
  have "br_start d < br_end d" "br_end d \<le> br_start r" "br_start r < br_end r" "br_end r \<le> br_start e" "br_start e < br_end e"
    using K d by (auto simp: separate_def)
  then have "br_start r \<in> {br_start d ..< br_end e}" "br_start r \<in> range_bytes r" by (auto simp: range_bytes_def)
  then show False using l separate_apart [OF K] by (auto simp: linked_def)
qed

lemma linked_to_new:
  assumes K: "separate (insert r K)" "r \<notin> K" and "d \<in> K" "d < r"
  shows "linked (insert r K) d r \<longleftrightarrow> (\<exists>l \<in> K. br_end l = br_start r \<and> linked K d l)"
proof
  have b: "br_start d < br_end d" "br_end d \<le> br_start r" "br_start r < br_end r"
    using assms by (auto simp: separate_def)
  {
    assume l: "linked (insert r K) d r"
    have "br_start r - 1 \<in> {br_start d ..< br_end r}" "br_start r - 1 \<notin> range_bytes r" using b by (auto simp: range_bytes_def)
    then have "br_start r - 1 \<in> deleted_bytes K" using l unfolding linked_def deleted_bytes_insert by blast
    then obtain p where p: "p \<in> K" "br_end p = br_start r" using neighbour_before [OF K] b by auto
    moreover have "linked K d p"
      using l b p unfolding linked_def deleted_bytes_insert by (auto simp: range_bytes_def subset_iff)
    ultimately show "\<exists>l \<in> K. br_end l = br_start r \<and> linked K d l" by blast
  next
    assume "\<exists>l \<in> K. br_end l = br_start r \<and> linked K d l"
    then show "linked (insert r K) d r"
      unfolding linked_def deleted_bytes_insert by (force simp: range_bytes_def subset_iff)
  }
qed

lemma linked_from_new:
  assumes K: "separate (insert r K)" "r \<notin> K" and "e \<in> K" "r < e"
  shows "linked (insert r K) r e \<longleftrightarrow> (\<exists>n \<in> K. br_start n = br_end r \<and> linked K n e)"
proof
  have b: "br_start r < br_end r" "br_end r \<le> br_start e" "br_start e < br_end e"
    using assms by (auto simp: separate_def)
  {
    assume l: "linked (insert r K) r e"
    have "br_end r \<in> {br_start r ..< br_end e}" "br_end r \<notin> range_bytes r" using b by (auto simp: range_bytes_def)
    then have "br_end r \<in> deleted_bytes K" using l unfolding linked_def deleted_bytes_insert by blast
    then obtain n where n: "n \<in> K" "br_start n = br_end r" using neighbour_behind [OF K] by auto
    have "t \<in> deleted_bytes K" if "t \<in> {br_start n ..< br_end e}" for t
    proof -
      have "t \<in> {br_start r ..< br_end e}" "t \<notin> range_bytes r" using that n b by (auto simp: range_bytes_def)
      then show ?thesis using l unfolding linked_def deleted_bytes_insert by blast
    qed
    then have "linked K n e" by (auto simp: linked_def)
    with n show "\<exists>n \<in> K. br_start n = br_end r \<and> linked K n e" by blast
  next
    assume "\<exists>n \<in> K. br_start n = br_end r \<and> linked K n e"
    then obtain n where n: "br_start n = br_end r" "linked K n e" by blast
    have "{br_start r ..< br_end e} \<subseteq> range_bytes r \<union> {br_start n ..< br_end e}"
      using n(1) by (auto simp: range_bytes_def)
    with n(2) show "linked (insert r K) r e" unfolding linked_def deleted_bytes_insert by blast
  }
qed

lemma linked_over_new:
  assumes K: "separate (insert r K)" "r \<notin> K" and "d \<in> K" "e \<in> K" "d < r" "r < e"
  shows "linked (insert r K) d e \<longleftrightarrow> linked (insert r K) d r \<and> linked (insert r K) r e"
proof -
  have "br_start d < br_end d" "br_end d \<le> br_start r" "br_start r < br_end r" "br_end r \<le> br_start e" "br_start e < br_end e"
    using assms by (auto simp: separate_def)
  then have "{br_start d ..< br_end e} = {br_start d ..< br_end r} \<union> {br_start r ..< br_end e}" by auto
  then show ?thesis by (auto simp: linked_def)
qed

text \<open>
  A deletion joins the chain that ends where it starts and the chain that starts where it ends; the
  groups keep following the chains when exactly these are put together.
\<close>

lemma chained_insert:
  assumes K: "separate (insert r K)" "r \<notin> K" and old: "chained K group_of"
    and same: "\<And>d e. d \<in> K \<Longrightarrow> e \<in> K \<Longrightarrow> new_group d = new_group e \<longleftrightarrow> group_of d = group_of e
      \<or> (\<exists>l \<in> K. \<exists>n \<in> K. br_end l = br_start r \<and> br_start n = br_end r \<and> {group_of d, group_of e} = {group_of l, group_of n})"
    and new: "\<And>d. d \<in> K \<Longrightarrow> new_group d = new_group r \<longleftrightarrow>
      (\<exists>l \<in> K. (br_end l = br_start r \<or> br_start l = br_end r) \<and> group_of d = group_of l)"
  shows "chained (insert r K) new_group"
proof -
  have linked: "group_of d = group_of e \<longleftrightarrow> linked K d e" if "d \<in> K" "e \<in> K" "d \<le> e" for d e
    using old that by (simp add: chained_def)
  have r: "br_start r < br_end r" using K by (simp add: separate_def)
  have left: "l < r" if "l \<in> K" "br_end l = br_start r" for l
    using separateD(1) [OF K(1), of l] that by (auto simp: less_byte_range_def)
  have right: "r < n" if "n \<in> K" "br_start n = br_end r" for n
    using r that by (auto simp: less_byte_range_def)
  have before_left: "d \<le> l" if "d \<in> K" "d < r" "l \<in> K" "br_end l = br_start r" for d l
  proof (rule ccontr)
    assume "\<not> d \<le> l"
    then have "br_end l \<le> br_start d" "br_start d < br_end d" "br_end d \<le> br_start r"
      using K that by (auto simp: separate_def)
    with that show False by simp
  qed
  have behind_right: "n \<le> e" if "e \<in> K" "r < e" "n \<in> K" "br_start n = br_end r" for e n
  proof (rule ccontr)
    assume "\<not> n \<le> e"
    then have "br_end e \<le> br_start n" using separateD(2) [OF K(1), of e n] that by auto
    moreover have "br_start e < br_end e" "br_end r \<le> br_start e" using K that by (auto simp: separate_def)
    ultimately have "br_end e \<le> br_start n" "br_start e < br_end e" "br_end r \<le> br_start e" by auto
    with that show False by simp
  qed
  have across: "group_of d \<noteq> group_of e" if "d \<in> K" "e \<in> K" "d < r" "r < e" for d e
    using linked [of d e] linked_across [OF K that] that by auto
  have to_new: "new_group d = new_group r \<longleftrightarrow> linked (insert r K) d r" if d: "d \<in> K" "d < r" for d
  proof -
    have "(\<exists>l \<in> K. (br_end l = br_start r \<or> br_start l = br_end r) \<and> group_of d = group_of l)
        \<longleftrightarrow> (\<exists>l \<in> K. br_end l = br_start r \<and> group_of d = group_of l)"
      using across d right by blast
    also have "\<dots> \<longleftrightarrow> (\<exists>l \<in> K. br_end l = br_start r \<and> linked K d l)"
      using linked before_left d by blast
    finally show ?thesis using new [OF d(1)] linked_to_new [OF K d] by simp
  qed
  have from_new: "new_group e = new_group r \<longleftrightarrow> linked (insert r K) r e" if e: "e \<in> K" "r < e" for e
  proof -
    have "(\<exists>l \<in> K. (br_end l = br_start r \<or> br_start l = br_end r) \<and> group_of e = group_of l)
        \<longleftrightarrow> (\<exists>n \<in> K. br_start n = br_end r \<and> group_of n = group_of e)"
      using across e left by metis
    also have "\<dots> \<longleftrightarrow> (\<exists>n \<in> K. br_start n = br_end r \<and> linked K n e)"
      using linked behind_right e by blast
    finally show ?thesis using new [OF e(1)] linked_from_new [OF K e] by simp
  qed
  have "new_group d = new_group e \<longleftrightarrow> linked (insert r K) d e" if de: "d \<in> K" "e \<in> K" "d \<le> e" for d e
  proof (cases "d < r \<longleftrightarrow> e < r")
    case True
    have "\<not> (\<exists>l \<in> K. \<exists>n \<in> K. br_end l = br_start r \<and> br_start n = br_end r
        \<and> {group_of d, group_of e} = {group_of l, group_of n} \<and> group_of d \<noteq> group_of e)"
    proof clarify
      fix l n
      assume ln: "l \<in> K" "n \<in> K" "br_end l = br_start r" "br_start n = br_end r"
        and eq: "{group_of d, group_of e} = {group_of l, group_of n}" "group_of d \<noteq> group_of e"
      have sides: "l < r" "r < n" using left right ln by auto
      from eq consider "group_of d = group_of l" "group_of e = group_of n" | "group_of d = group_of n" "group_of e = group_of l"
        by (auto simp: doubleton_eq_iff)
      then show False
      proof cases
        case 1
        show False
        proof (cases "d < r")
          case True
          then show False using 1(2) across [of e n] \<open>(d < r) = (e < r)\<close> sides ln de by auto
        next
          case False
          then have "r < d" using de(1) K(2) by (metis linorder_neqE)
          then show False using 1(1) across [of l d] sides ln de by auto
        qed
      next
        case 2
        show False
        proof (cases "d < r")
          case True
          then show False using 2(1) across [of d n] sides ln de by auto
        next
          case False
          then have "r < e" using \<open>(d < r) = (e < r)\<close> de(2) K(2) by (metis linorder_neqE)
          then show False using 2(2) across [of l e] sides ln de by auto
        qed
      qed
    qed
    then have "new_group d = new_group e \<longleftrightarrow> group_of d = group_of e" using same [OF de(1,2)] by blast
    with linked [OF de] linked_same_side [OF K de True] show ?thesis by simp
  next
    case False
    then have d: "d < r" and "\<not> e < r" using de(3) by auto
    then have e: "r < e" using de(2) K(2) by (metis linorder_neqE)
    have "new_group d = new_group e \<longleftrightarrow> (\<exists>l \<in> K. \<exists>n \<in> K. br_end l = br_start r \<and> br_start n = br_end r
        \<and> {group_of d, group_of e} = {group_of l, group_of n})"
      using same [OF de(1,2)] across [OF de(1,2) d e] by blast
    also have "\<dots> \<longleftrightarrow> new_group d = new_group r \<and> new_group e = new_group r"
    proof -
      have "group_of d \<noteq> group_of n" if "n \<in> K" "br_start n = br_end r" for n
        using across [of d n] right d that de by blast
      moreover have "group_of l \<noteq> group_of e" if "l \<in> K" "br_end l = br_start r" for l
        using across [of l e] left e that de by blast
      ultimately show ?thesis
        unfolding new [OF de(1)] new [OF de(2)] by (fastforce simp: doubleton_eq_iff)
    qed
    finally show ?thesis
      using to_new [OF de(1) d] from_new [OF de(2) e] linked_over_new [OF K de(1,2) d e] by simp
  qed
  moreover have "linked (insert r K) r r" by (auto simp: linked_def deleted_bytes_def range_bytes_def)
  ultimately show ?thesis
    unfolding chained_def using to_new from_new by (metis insert_iff le_neq_trans)
qed

lemma chained_remove:
  assumes K: "separate K" "r \<in> K" and old: "chained K group_of"
    and same: "\<And>d e. d \<in> K - {r} \<Longrightarrow> e \<in> K - {r} \<Longrightarrow> new_group d = new_group e \<longleftrightarrow>
      group_of d = group_of e \<and> (group_of d = group_of r \<longrightarrow> (d < r \<longleftrightarrow> e < r))"
  shows "chained (K - {r}) new_group"
  unfolding chained_def
proof (intro ballI impI)
  fix d e
  assume d: "d \<in> K - {r}" and e: "e \<in> K - {r}" and le: "d \<le> e"
  have K': "separate (insert r (K - {r}))" "r \<notin> K - {r}" using K by (simp_all add: insert_absorb)
  have old_iff: "group_of d = group_of e \<longleftrightarrow> linked K d e" using old d e le by (simp add: chained_def)
  show "new_group d = new_group e \<longleftrightarrow> linked (K - {r}) d e"
  proof (cases "d < r \<longleftrightarrow> e < r")
    case True
    then show ?thesis
      using same [OF d e] old_iff linked_same_side [OF K' d e le True] K(2) by (simp add: insert_absorb)
  next
    case False
    then have dr: "d < r" and er: "r < e" using le e by auto
    have "group_of d = group_of r" if "group_of d = group_of e"
    proof -
      have "linked K d r" using that old_iff linked_over_new [OF K' d e dr er] K(2) by (simp add: insert_absorb)
      then show ?thesis using old d K(2) dr by (simp add: chained_def)
    qed
    then have "new_group d \<noteq> new_group e" using same [OF d e] False by blast
    then show ?thesis using linked_across [OF K' d e dr er] by simp
  qed
qed

section \<open>The index\<close>

abbreviation actives :: "token_requirements \<Rightarrow> byte_range \<rightharpoonup> active_deletion" where
  "actives st \<equiv> map_of (active_deletions st)"

definition group_at :: "(byte_range \<rightharpoonup> active_deletion) \<Rightarrow> byte_range \<Rightarrow> nat" where
  "group_at A d = active_component (the (A d))"

definition index_consistent :: "token_requirements \<Rightarrow> bool" where
  "index_consistent st \<longleftrightarrow>
     ordered_keys (active_deletions st) \<and> ordered_keys (lexical_cohorts st)
     \<and> grouped active_component (actives st) (component_at st)
     \<and> grouped active_window (actives st) (map_of (lexical_cohorts st))
     \<and> separate (dom (actives st)) \<and> chained (dom (actives st)) (group_at (actives st))"

lemma index_consistentD:
  assumes "index_consistent st"
  shows "ordered_keys (active_deletions st)" "ordered_keys (lexical_cohorts st)"
    "grouped active_component (actives st) (component_at st)"
    "grouped active_window (actives st) (map_of (lexical_cohorts st))"
    "separate (dom (actives st))" "chained (dom (actives st)) (group_at (actives st))"
  using assms by (simp_all add: index_consistent_def)

text \<open>The index operations leave the rest of the state alone.\<close>

definition same_core :: "token_requirements \<Rightarrow> token_requirements \<Rightarrow> bool" where
  "same_core st st' \<longleftrightarrow>
     req_guard st' = req_guard st \<and> inputs_by_unit st' = inputs_by_unit st \<and> known_retained st' = known_retained st
     \<and> pending_retained st' = pending_retained st \<and> req_initialized st' = req_initialized st"

definition same_frame :: "token_requirements \<Rightarrow> token_requirements \<Rightarrow> bool" where
  "same_frame st st' \<longleftrightarrow> same_core st st' \<and> repetition_states st' = repetition_states st"

lemma same_frame_refl [simp]: "same_frame st st"
  by (simp add: same_frame_def same_core_def)

lemma group_at_Some [simp]: "A d = Some a \<Longrightarrow> group_at A d = active_component a"
  by (simp add: group_at_def)

lemma group_at_move:
  "d \<in> dom A \<Longrightarrow> group_at (move_entries t M A) d = (if d \<in> M then t else group_at A d)"
  by (auto simp: group_at_def move_entries_def)

lemma in_range_group: "d \<in> range_group active_component A k \<longleftrightarrow> d \<in> dom A \<and> group_at A d = k"
  by (auto simp: range_group_def group_at_def)

lemma move_deletion_fold:
  assumes "set ds \<subseteq> dom (map_of m)" "ordered_keys m"
  shows "\<exists>m'. fold_result (move_deletion t) ds m = Inr m' \<and> ordered_keys m' \<and> map_of m' = move_entries t (set ds) (map_of m)"
  using assms
proof (induction ds arbitrary: m)
  case (Cons d ds)
  then obtain a where a: "map_of m d = Some a" by auto
  let ?m = "entry_update d (\<lambda>_. a\<lparr>active_component := t\<rparr>) m"
  have m: "ordered_keys ?m" "map_of ?m = (map_of m)(d \<mapsto> a\<lparr>active_component := t\<rparr>)"
    using Cons.prems(2) by (simp_all add: entry_update_ordered entry_update_map_of)
  have "set ds \<subseteq> dom (map_of ?m)" using Cons.prems(1) m(2) by auto
  from Cons.IH [OF this m(1)] obtain m' where m': "fold_result (move_deletion t) ds ?m = Inr m'"
    "ordered_keys m'" "map_of m' = move_entries t (set ds) (map_of ?m)" by blast
  have "move_entries t (set ds) (map_of ?m) = move_entries t (set (d # ds)) (map_of m)"
    using a by (auto simp: m(2) move_entries_def fun_eq_iff)
  moreover have "move_deletion t d m = Inr ?m" using a by (simp add: move_deletion_def)
  ultimately show ?case using m' by simp
qed simp

lemma move_deletions_Inr:
  assumes "M \<subseteq> dom (actives st)" "ordered_keys (active_deletions st)"
  obtains m where "move_deletions t M st = Inr (st\<lparr>active_deletions := m\<rparr>)" "ordered_keys m"
    "map_of m = move_entries t M (actives st)"
proof -
  have "finite M" using assms(1) by (rule finite_subset) (rule finite_dom_map_of)
  with that move_deletion_fold [of "sorted_list_of_set M" "active_deletions st" t] assms show thesis
    by (auto simp: move_deletions_def)
qed

lemma component_at_set:
  "component_at st k \<noteq> None \<Longrightarrow> component_at (set_component k v st) = (component_at st)(k := v)"
  by (auto simp: component_at_def set_component_def get_at_def fun_eq_iff nth_list_update split: if_splits)

lemma component_at_push:
  "component_at (st\<lparr>deletion_components := deletion_components st @ [v]\<rparr>) = (component_at st)(length (deletion_components st) := v)"
  by (auto simp: component_at_def get_at_def fun_eq_iff nth_append less_Suc_eq)

lemma component_at_fresh: "component_at st (length (deletion_components st)) = None"
  by (simp add: component_at_def get_at_def)

lemma component_at_cong: "deletion_components st' = deletion_components st \<Longrightarrow> component_at st' = component_at st"
  by (simp add: component_at_def fun_eq_iff)

text \<open>The component a new deletion joins, and the deletions that moved to it.\<close>

definition joined :: "(byte_range \<rightharpoonup> active_deletion) \<Rightarrow> (byte_range \<times> nat) option \<Rightarrow> (byte_range \<times> nat) option
    \<Rightarrow> byte_range set \<Rightarrow> nat \<Rightarrow> bool" where
  "joined A left right M c \<longleftrightarrow>
     (M = {} \<or> (\<exists>s. s \<noteq> c \<and> M = range_group active_component A s))
     \<and> (\<forall>x \<in> dom A. group_at (move_entries c M A) x = c \<longleftrightarrow>
          (\<exists>l. left = Some (l, group_at A x)) \<or> (\<exists>n. right = Some (n, group_at A x)))
     \<and> (\<forall>x \<in> dom A. \<forall>y \<in> dom A. group_at (move_entries c M A) x = group_at (move_entries c M A) y \<longleftrightarrow>
          group_at A x = group_at A y
          \<or> (\<exists>l gl n gn. left = Some (l, gl) \<and> right = Some (n, gn) \<and> {group_at A x, group_at A y} = {gl, gn}))"

lemma joined_component_Inr:
  assumes st: "index_consistent st" and d: "d \<notin> dom (actives st)"
    and left: "\<And>l g. left = Some (l, g) \<Longrightarrow> l \<in> dom (actives st) \<and> g = group_at (actives st) l"
    and right: "\<And>n g. right = Some (n, g) \<Longrightarrow> n \<in> dom (actives st) \<and> g = group_at (actives st) n"
    and apart: "\<And>l g n h. left = Some (l, g) \<Longrightarrow> right = Some (n, h) \<Longrightarrow> g \<noteq> h"
  shows "\<exists>st' c M. joined_component left right d st = Inr (st', c) \<and> joined (actives st) left right M c
    \<and> ordered_keys (active_deletions st') \<and> actives st' = move_entries c M (actives st)
    \<and> lexical_cohorts st' = lexical_cohorts st \<and> same_frame st st'
    \<and> (\<forall>a. active_component a = c \<longrightarrow> grouped active_component ((actives st')(d \<mapsto> a)) (component_at st'))"
proof -
  let ?A = "actives st"
  note ordered = index_consistentD(1) [OF st] and groups = index_consistentD(3) [OF st]
  have at: "component_at st k = slot (range_group active_component ?A k)" for k
    using groups by (simp add: grouped_def)
  have some: "component_at st (group_at ?A x) = Some (range_group active_component ?A (group_at ?A x))"
    if "x \<in> dom ?A" for x
  proof -
    have "x \<in> range_group active_component ?A (group_at ?A x)" using that by (simp add: in_range_group)
    then show ?thesis unfolding at slot_eq by blast
  qed
  have one: "\<exists>st' M. Inr (set_component g (Some (insert d (range_group active_component ?A g))) st, g) = Inr (st', g)
      \<and> M = {} \<and> ordered_keys (active_deletions st') \<and> actives st' = move_entries g M ?A
      \<and> lexical_cohorts st' = lexical_cohorts st \<and> same_frame st st'
      \<and> (\<forall>a. active_component a = g \<longrightarrow> grouped active_component ((actives st')(d \<mapsto> a)) (component_at st'))"
    if x: "x \<in> dom ?A" "g = group_at ?A x" for x g
  proof -
    let ?st = "set_component g (Some (insert d (range_group active_component ?A g))) st"
    have fields: "active_deletions ?st = active_deletions st" "lexical_cohorts ?st = lexical_cohorts st" "same_frame st ?st"
      by (simp_all add: set_component_def same_frame_def same_core_def)
    have "component_at ?st = (component_at st)(g := Some (insert d (range_group active_component ?A g)))"
      using some [OF x(1)] by (intro component_at_set) (simp add: x(2))
    then have "grouped active_component (?A(d \<mapsto> a)) (component_at ?st)" if "active_component a = g" for a
      using that by (auto simp: grouped_def range_group_insert [OF d] at slot_def)
    then show ?thesis using fields ordered by auto
  qed
  consider (none) "left = None" "right = None" | (left) l g where "left = Some (l, g)" "right = None"
    | (right) n g where "left = None" "right = Some (n, g)" | (both) l g n h where "left = Some (l, g)" "right = Some (n, h)"
    by (cases left; cases right) auto
  then show ?thesis
  proof cases
    case none
    let ?c = "length (deletion_components st)"
    let ?st = "st\<lparr>deletion_components := deletion_components st @ [Some {d}]\<rparr>"
    have fresh: "range_group active_component ?A ?c = {}"
      using at [of ?c] component_at_fresh [of st] by (metis slot_eq(1))
    then have "group_at ?A x \<noteq> ?c" if "x \<in> dom ?A" for x
      using that in_range_group [of x ?A ?c] by simp
    moreover have "grouped active_component (?A(d \<mapsto> a)) (component_at ?st)" if "active_component a = ?c" for a
      using that fresh by (auto simp: grouped_def range_group_insert [OF d] at component_at_push slot_def)
    ultimately show ?thesis
      using none ordered
      by (intro exI [of _ ?st] exI [of _ ?c] exI [of _ "{}"])
        (auto simp: joined_component_def new_component_def joined_def same_frame_def same_core_def)
  next
    case (left l g)
    then have l: "l \<in> dom ?A" "g = group_at ?A l" using assms(3) by auto
    have "joined_component left right d st = Inr (set_component g (Some (insert d (range_group active_component ?A g))) st, g)"
      using left some [OF l(1)] by (simp add: joined_component_def l(2))
    moreover have "joined ?A left right {} g" using left by (auto simp: joined_def)
    ultimately show ?thesis using one [OF l] by metis
  next
    case (right n g)
    then have n: "n \<in> dom ?A" "g = group_at ?A n" using assms(4) by auto
    have "joined_component left right d st = Inr (set_component g (Some (insert d (range_group active_component ?A g))) st, g)"
      using right some [OF n(1)] by (simp add: joined_component_def n(2))
    moreover have "joined ?A left right {} g" using right by (auto simp: joined_def)
    ultimately show ?thesis using one [OF n] by metis
  next
    case (both l g n h)
    then have l: "l \<in> dom ?A" "g = group_at ?A l" and n: "n \<in> dom ?A" "h = group_at ?A n" and "g \<noteq> h"
      using assms(3-5) by auto
    let ?G = "range_group active_component ?A"
    define t where "t = (if card (?G g) \<ge> card (?G h) then g else h)"
    define s where "s = (if card (?G g) \<ge> card (?G h) then h else g)"
    have ts: "t \<noteq> s" "{t, s} = {g, h}" "s \<in> {g, h}" "t \<in> {g, h}" using \<open>g \<noteq> h\<close> by (auto simp: t_def s_def)
    have at_gh: "component_at st k = Some (?G k)" if "k \<in> {g, h}" for k
      using that some [OF l(1)] some [OF n(1)] l(2) n(2) by auto
    let ?st1 = "set_component s None st"
    have st1: "component_at ?st1 = (component_at st)(s := None)"
      using at_gh [OF ts(3)] by (intro component_at_set) simp
    have "?G s \<subseteq> dom (actives ?st1)" "ordered_keys (active_deletions ?st1)"
      using ordered by (auto simp: in_range_group set_component_def)
    then obtain m where m: "move_deletions t (?G s) ?st1 = Inr (?st1\<lparr>active_deletions := m\<rparr>)" "ordered_keys m"
      "map_of m = move_entries t (?G s) (actives ?st1)" by (rule move_deletions_Inr)
    let ?st2 = "?st1\<lparr>active_deletions := m\<rparr>"
    let ?st3 = "set_component t (Some (insert d (?G t \<union> ?G s))) ?st2"
    have st2: "component_at ?st2 = (component_at st)(s := None)"
      using st1 component_at_cong [of ?st2 ?st1] by simp
    have kept: "component_at ?st2 t = Some (?G t)" using st2 at_gh [OF ts(4)] ts(1) by simp
    then have st3: "component_at ?st3 = (component_at st)(s := None, t := Some (insert d (?G t \<union> ?G s)))"
      using st2 component_at_set [of ?st2 t] by simp
    have pair: "(if card (?G h) \<le> card (?G g) then (g, h) else (h, g)) = (t, s)" by (simp add: t_def s_def)
    have "component_at st g = Some (?G g)" "component_at st h = Some (?G h)" using at_gh by auto
    then have "merge_components g h d st = Inr (?st3, t)"
      using at_gh [OF ts(3)] m(1) kept by (simp add: merge_components_def component_len_def pair)
    then have result: "joined_component left right d st = Inr (?st3, t)"
      using both \<open>g \<noteq> h\<close> by (simp add: joined_component_def)
    have A3: "actives ?st3 = move_entries t (?G s) ?A" using m(3) by (simp add: set_component_def)
    have "grouped active_component ((actives ?st3)(d \<mapsto> a)) (component_at ?st3)" if a: "active_component a = t" for a
      unfolding grouped_def
    proof
      fix k
      have "d \<notin> dom (move_entries t (?G s) ?A)" using d by simp
      then have "range_group active_component ((actives ?st3)(d \<mapsto> a)) k =
        (if k = t then insert d (?G t \<union> ?G s) else if k = s then {} else ?G k)"
        unfolding A3 range_group_insert [OF \<open>d \<notin> dom (move_entries t (?G s) ?A)\<close>] a
        using range_group_move [OF subset_refl ts(1) [symmetric], of ?A] ts(1) by auto
      then show "component_at ?st3 k = slot (range_group active_component ((actives ?st3)(d \<mapsto> a)) k)"
        using ts(1) by (simp add: st3 at slot_def)
    qed
    moreover have "joined ?A left right (?G s) t"
    proof -
      have g: "group_at (move_entries t (?G s) ?A) x = (if group_at ?A x = s then t else group_at ?A x)" if "x \<in> dom ?A" for x
        using that by (simp add: group_at_move in_range_group)
      have "{t, s} = {g, h}" by (rule ts(2))
      then have "x = g \<or> x = h \<longleftrightarrow> x = t \<or> x = s" for x by blast
      then show ?thesis
        unfolding joined_def using both ts(1,2)
        by (intro conjI disjI2 exI [of _ s]) (auto simp: g doubleton_eq_iff)
    qed
    moreover have "ordered_keys (active_deletions ?st3)" "lexical_cohorts ?st3 = lexical_cohorts st" "same_frame st ?st3"
      using m(2) by (simp_all add: set_component_def same_frame_def same_core_def)
    ultimately show ?thesis using result A3 by blast
  qed
qed

section \<open>Insertion\<close>

definition dependency_window :: "token_requirements \<Rightarrow> byte_range \<Rightarrow> byte_range option" where
  "dependency_window st deletion =
     (case req_guard st of None \<Rightarrow> None | Some guard \<Rightarrow> deletion_dependency_window guard deletion)"

lemma dependency_window_frame: "same_frame st st' \<Longrightarrow> dependency_window st' = dependency_window st"
  by (simp add: dependency_window_def same_frame_def same_core_def fun_eq_iff)

text \<open>The neighbours of a deletion among the active ones.\<close>

definition previous_active :: "token_requirements \<Rightarrow> byte_range \<Rightarrow> (byte_range \<times> nat) option" where
  "previous_active st d = active_neighbour st (greatest_below (ByteRange (br_start d) 0) (fst ` set (active_deletions st)))"

definition following_active :: "token_requirements \<Rightarrow> byte_range \<Rightarrow> (byte_range \<times> nat) option" where
  "following_active st d = active_neighbour st (least_from (ByteRange (br_start d) 0) (fst ` set (active_deletions st)))"

definition overlaps_active :: "token_requirements \<Rightarrow> byte_range \<Rightarrow> bool" where
  "overlaps_active st d \<longleftrightarrow>
     (case previous_active st d of None \<Rightarrow> False | Some (p, _) \<Rightarrow> br_end p > br_start d)
     \<or> (case following_active st d of None \<Rightarrow> False | Some (n, _) \<Rightarrow> br_start n < br_end d)"

definition left_active :: "token_requirements \<Rightarrow> byte_range \<Rightarrow> (byte_range \<times> nat) option" where
  "left_active st d = keep_if (\<lambda>(p, _). br_end p = br_start d) (previous_active st d)"

definition right_active :: "token_requirements \<Rightarrow> byte_range \<Rightarrow> (byte_range \<times> nat) option" where
  "right_active st d = keep_if (\<lambda>(n, _). br_start n = br_end d) (following_active st d)"

lemma active_neighbour_Some:
  "active_neighbour st key = Some (r, g) \<longleftrightarrow> key = Some r \<and> r \<in> dom (actives st) \<and> g = group_at (actives st) r"
  by (auto simp: active_neighbour_def split: option.splits)

lemma neighbour_keys: "fst ` set (active_deletions st) = dom (actives st)" "finite (dom (actives st))"
  by (simp_all add: dom_map_of_conv_image_fst)

lemma below_start [simp]: "k < ByteRange s 0 \<longleftrightarrow> br_start k < s" "ByteRange s 0 \<le> k \<longleftrightarrow> s \<le> br_start k"
  by (auto simp: less_byte_range_def less_eq_byte_range_def)

lemma previous_active_Some:
  "previous_active st d = Some (p, g) \<longleftrightarrow> p \<in> dom (actives st) \<and> g = group_at (actives st) p \<and> br_start p < br_start d
     \<and> (\<forall>k \<in> dom (actives st). br_start k < br_start d \<longrightarrow> k \<le> p)"
  unfolding previous_active_def active_neighbour_Some neighbour_keys(1)
  by (subst greatest_below_Some [OF neighbour_keys(2)]) auto

lemma following_active_Some:
  "following_active st d = Some (n, g) \<longleftrightarrow> n \<in> dom (actives st) \<and> g = group_at (actives st) n \<and> br_start d \<le> br_start n
     \<and> (\<forall>k \<in> dom (actives st). br_start d \<le> br_start k \<longrightarrow> n \<le> k)"
  unfolding following_active_def active_neighbour_Some neighbour_keys(1)
  by (subst least_from_Some [OF neighbour_keys(2)]) auto

lemma previous_active_exists:
  assumes "k \<in> dom (actives st)" "br_start k < br_start d"
  shows "\<exists>p g. previous_active st d = Some (p, g) \<and> k \<le> p"
proof -
  have "greatest_below (ByteRange (br_start d) 0) (dom (actives st)) \<noteq> None"
    using assms by (auto simp: greatest_below_None)
  then obtain p where p: "greatest_below (ByteRange (br_start d) 0) (dom (actives st)) = Some p" by blast
  from p [unfolded greatest_below_Some [OF neighbour_keys(2)]] assms have "p \<in> dom (actives st)" "k \<le> p" by auto
  with p show ?thesis by (auto simp: previous_active_def neighbour_keys(1) active_neighbour_def)
qed

lemma following_active_exists:
  assumes "k \<in> dom (actives st)" "br_start d \<le> br_start k"
  shows "\<exists>n g. following_active st d = Some (n, g) \<and> n \<le> k"
proof -
  have "least_from (ByteRange (br_start d) 0) (dom (actives st)) \<noteq> None"
    using assms by (auto simp: least_from_None)
  then obtain n where n: "least_from (ByteRange (br_start d) 0) (dom (actives st)) = Some n" by blast
  from n [unfolded least_from_Some [OF neighbour_keys(2)]] assms have "n \<in> dom (actives st)" "n \<le> k" by auto
  with n show ?thesis by (auto simp: following_active_def neighbour_keys(1) active_neighbour_def)
qed

lemma range_le_start: "r \<le> s \<Longrightarrow> br_start r \<le> br_start (s :: byte_range)"
  by (auto simp: less_eq_byte_range_def)

lemma separate_end_mono: "separate K \<Longrightarrow> d \<in> K \<Longrightarrow> e \<in> K \<Longrightarrow> d \<le> e \<Longrightarrow> br_end d \<le> br_end e"
  using separateD(1) [of K e] separateD(2) [of K d e] by (auto simp: le_less)

lemma overlaps_active_iff:
  assumes K: "separate (dom (actives st))" and d: "br_start d < br_end d"
  shows "\<not> overlaps_active st d \<longleftrightarrow> d \<notin> dom (actives st) \<and> separate (insert d (dom (actives st)))"
proof
  let ?K = "dom (actives st)"
  assume no: "\<not> overlaps_active st d"
  have before: "br_end k \<le> br_start d" if k: "k \<in> ?K" "br_start k < br_start d" for k
  proof -
    from previous_active_exists [OF k] obtain p g where p: "previous_active st d = Some (p, g)" "k \<le> p" by blast
    have "br_end p \<le> br_start d" using no p(1) by (simp add: overlaps_active_def)
    moreover have "p \<in> ?K" using p(1) by (simp only: previous_active_Some)
    ultimately show ?thesis using separate_end_mono [OF K k(1) _ p(2)] by simp
  qed
  have behind: "br_end d \<le> br_start k" if k: "k \<in> ?K" "br_start d \<le> br_start k" for k
  proof -
    from following_active_exists [OF k] obtain n g where n: "following_active st d = Some (n, g)" "n \<le> k" by blast
    then have "br_end d \<le> br_start n" using no by (simp add: overlaps_active_def)
    with range_le_start [OF n(2)] show ?thesis by simp
  qed
  have out: "d \<notin> ?K" using behind [of d] d by auto
  have "br_end k \<le> br_start d" if k: "k \<in> ?K" "k < d" for k
  proof (rule before [OF k(1)], rule ccontr)
    assume "\<not> br_start k < br_start d"
    moreover have "br_start k \<le> br_start d" using range_le_start k(2) by simp
    ultimately show False using behind [OF k(1)] d by simp
  qed
  moreover have "br_end d \<le> br_start k" if "k \<in> ?K" "d < k" for k
    using behind [OF that(1)] range_le_start [of d k] that(2) by simp
  ultimately show "d \<notin> ?K \<and> separate (insert d ?K)"
    using K d out by (auto simp: separate_def)
next
  assume out: "d \<notin> dom (actives st) \<and> separate (insert d (dom (actives st)))"
  have "br_end p \<le> br_start d" if p: "previous_active st d = Some (p, g)" for p g
  proof -
    have "p \<in> dom (actives st)" "p < d" using p by (auto simp: previous_active_Some less_byte_range_def)
    then show ?thesis using out by (auto simp: separate_def)
  qed
  moreover have "br_end d \<le> br_start n" if n: "following_active st d = Some (n, g)" for n g
  proof -
    have mem: "n \<in> dom (actives st)" "br_start d \<le> br_start n" using n by (auto simp: following_active_Some)
    have "\<not> n < d"
    proof
      assume "n < d"
      then have "br_end n \<le> br_start d" "br_start n < br_end n" using out mem(1) by (auto simp: separate_def)
      with mem(2) show False by simp
    qed
    then have "d < n" using mem(1) out by (metis linorder_neqE)
    then show ?thesis using out mem(1) by (auto simp: separate_def)
  qed
  ultimately show "\<not> overlaps_active st d" by (auto simp: overlaps_active_def split: option.splits)
qed

lemma left_active_Some:
  assumes K: "separate (insert d (dom (actives st)))"
  shows "left_active st d = Some (l, g) \<longleftrightarrow> l \<in> dom (actives st) \<and> br_end l = br_start d \<and> g = group_at (actives st) l"
proof
  assume r: "l \<in> dom (actives st) \<and> br_end l = br_start d \<and> g = group_at (actives st) l"
  have l: "br_start l < br_start d" using separateD(1) [OF K, of l] r by auto
  from previous_active_exists [OF _ l, of st] r obtain p h where p: "previous_active st d = Some (p, h)" "l \<le> p" by blast
  have "p \<in> dom (actives st)" "p < d" using p(1) by (auto simp: previous_active_Some less_byte_range_def)
  then have "\<not> l < p"
    using r separateD(2) [OF K, of l p] separateD(1) [OF K, of p] separateD(2) [OF K, of p d] by auto
  then have "p = l" using p(2) by simp
  then show "left_active st d = Some (l, g)" using p(1) r by (auto simp: left_active_def previous_active_Some)
qed (auto simp: left_active_def previous_active_Some)

lemma right_active_Some:
  assumes K: "separate (insert d (dom (actives st)))" "d \<notin> dom (actives st)"
  shows "right_active st d = Some (n, g) \<longleftrightarrow> n \<in> dom (actives st) \<and> br_start n = br_end d \<and> g = group_at (actives st) n"
proof
  assume r: "n \<in> dom (actives st) \<and> br_start n = br_end d \<and> g = group_at (actives st) n"
  have d: "br_start d < br_end d" using K by (simp add: separate_def)
  then have n: "br_start d \<le> br_start n" using r by simp
  from following_active_exists [OF _ n, of st] r obtain p h where p: "following_active st d = Some (p, h)" "p \<le> n" by blast
  have pk: "p \<in> dom (actives st)" "br_start d \<le> br_start p" using p(1) by (auto simp: following_active_Some)
  have "\<not> overlaps_active st d" using overlaps_active_iff [OF _ d] K separate_subset [OF K(1)] by blast
  then have "br_end d \<le> br_start p" using p(1) by (auto simp: overlaps_active_def)
  then have "\<not> p < n" using K r pk separateD(1) [OF K(1), of p] separateD(2) [OF K(1), of p n] by auto
  then have "p = n" using p(2) by simp
  then show "right_active st d = Some (n, g)" using p(1) r by (auto simp: right_active_def following_active_Some)
qed (auto simp: right_active_def following_active_Some)

lemma run_range_forward:
  "macro_repetition_run_deletion_range inventory r first final = Inr d \<Longrightarrow> br_start d < br_end d"
  unfolding macro_repetition_run_deletion_range_def
  by (auto simp: bind_result_eq_Inr Let_def range_is_empty_def valid_source_range_def split: if_splits)

text \<open>The insertion with its tests named.\<close>

lemma insert_active_deletion_unfold:
  "insert_active_deletion inventory repetition first final (st, D, W) =
     bind_result (macro_repetition_run_deletion_range inventory (src_macro_repetitions inventory ! repetition) first final)
       (\<lambda>deletion.
     bind_result (ok_or (dependency_window st deletion) RewriteInvalidInventory) (\<lambda>window.
       if overlaps_active st deletion then Inl RewriteInvalidInventory
       else
         bind_result (joined_component (left_active st deletion) (right_active st deletion) deletion st) (\<lambda>(st, component).
           if deletion \<in> fst ` set (active_deletions st) then Inl RewriteInvalidInventory
           else if (case map_of (lexical_cohorts st) window of None \<Rightarrow> False | Some cohort \<Rightarrow> deletion \<in> cohort)
           then Inl RewriteInvalidInventory
           else
             Inr (st\<lparr>active_deletions :=
                       entry_update deletion
                         (\<lambda>_. \<lparr>active_repetition = repetition, active_first = first, active_final = final,
                               active_component = component, active_window = window\<rparr>) (active_deletions st),
                     lexical_cohorts := entry_update window (insert_member deletion) (lexical_cohorts st)\<rparr>,
                  insert component D, insert window W))))"
  by (simp only: insert_active_deletion_def dependency_window_def overlaps_active_def left_active_def right_active_def
      previous_active_def following_active_def Let_def prod.case)

definition inserted :: "token_requirements \<Rightarrow> byte_range \<Rightarrow> active_deletion \<Rightarrow> token_requirements \<Rightarrow> bool" where
  "inserted st d a st' \<longleftrightarrow>
     d \<notin> dom (actives st) \<and> same_frame st st'
     \<and> (\<exists>M. (M = {} \<or> (\<exists>s. s \<noteq> active_component a \<and> M = range_group active_component (actives st) s))
          \<and> actives st' = (move_entries (active_component a) M (actives st))(d \<mapsto> a))"

lemma insert_active_deletion_Inr:
  assumes st: "index_consistent st"
    and range: "macro_repetition_run_deletion_range inventory (src_macro_repetitions inventory ! repetition) first final = Inr d"
    and window: "dependency_window st d = Some w"
    and fits: "\<not> overlaps_active st d"
  shows "\<exists>st' a. insert_active_deletion inventory repetition first final (st, D, W)
      = Inr (st', insert (active_component a) D, insert w W)
    \<and> index_consistent st' \<and> inserted st d a st'
    \<and> active_repetition a = repetition \<and> active_first a = first \<and> active_final a = final \<and> active_window a = w"
proof -
  let ?A = "actives st" and ?left = "left_active st d" and ?right = "right_active st d"
  note c = index_consistentD [OF st]
  have out: "d \<notin> dom ?A" and K: "separate (insert d (dom ?A))"
    using overlaps_active_iff [OF c(5) run_range_forward [OF range]] fits by auto
  note left = left_active_Some [OF K] and right = right_active_Some [OF K out]
  have d: "br_start d < br_end d" using run_range_forward [OF range] .
  have before: "l < d" if "l \<in> dom ?A" "br_end l = br_start d" for l
    using separateD(1) [OF K, of l] that by (auto simp: less_byte_range_def)
  have behind: "d < n" if "n \<in> dom ?A" "br_start n = br_end d" for n
    using d that by (auto simp: less_byte_range_def)
  have "g \<noteq> h" if "?left = Some (l, g)" "?right = Some (n, h)" for l g n h
  proof -
    have ln: "l \<in> dom ?A" "n \<in> dom ?A" "l < d" "d < n" "g = group_at ?A l" "h = group_at ?A n"
      using that left right before behind by auto
    then have "\<not> linked (dom ?A) l n" by (intro linked_across [OF K out])
    with ln c(6) show ?thesis by (simp add: chained_def)
  qed
  then obtain st1 g M where join: "joined_component ?left ?right d st = Inr (st1, g)" "joined ?A ?left ?right M g"
      "ordered_keys (active_deletions st1)" "actives st1 = move_entries g M ?A"
      "lexical_cohorts st1 = lexical_cohorts st" "same_frame st st1"
      "\<And>a. active_component a = g \<Longrightarrow> grouped active_component ((actives st1)(d \<mapsto> a)) (component_at st1)"
    using joined_component_Inr [OF st out, of ?left ?right] left right by blast
  define a where "a = \<lparr>active_repetition = repetition, active_first = first, active_final = final,
    active_component = g, active_window = w\<rparr>"
  let ?st2 = "st1\<lparr>active_deletions := entry_update d (\<lambda>_. a) (active_deletions st1),
    lexical_cohorts := entry_update w (insert_member d) (lexical_cohorts st1)\<rparr>"
  have out1: "d \<notin> dom (actives st1)" using out join(4) by simp
  have cohort: "map_of (lexical_cohorts st) k = slot (range_group active_window ?A k)" for k
    using c(4) by (simp add: grouped_def)
  have fresh: "d \<notin> range_group active_window ?A w" using out by (auto simp: range_group_def)
  have A2: "actives ?st2 = (move_entries g M ?A)(d \<mapsto> a)" using join(3,4) by (simp add: entry_update_map_of)
  have "insert_active_deletion inventory repetition first final (st, D, W) = Inr (?st2, insert g D, insert w W)"
    unfolding insert_active_deletion_unfold
    using range window fits join(1) out1 fresh cohort [of w] join(5)
    by (simp add: a_def neighbour_keys(1) slot_def split: if_splits)
  moreover have "index_consistent ?st2"
    unfolding index_consistent_def
  proof (intro conjI)
    show "ordered_keys (active_deletions ?st2)" using join(3) by (simp add: entry_update_ordered)
    show "ordered_keys (lexical_cohorts ?st2)" using c(2) join(5) by (simp add: entry_update_ordered)
    show "grouped active_component (actives ?st2) (component_at ?st2)"
      using join(7) [of a] component_at_cong [of ?st2 st1] A2 join(4) by (simp add: a_def)
    show "grouped active_window (actives ?st2) (map_of (lexical_cohorts ?st2))"
    proof -
      have "range_group active_window (actives ?st2) k =
          (if k = w then insert d (range_group active_window ?A k) else range_group active_window ?A k)" for k
        unfolding A2 using out by (subst range_group_insert) (simp_all add: a_def range_group_move_key)
      moreover have "map_of (lexical_cohorts ?st2) = (map_of (lexical_cohorts st))(w \<mapsto> insert_member d (map_of (lexical_cohorts st) w))"
        using c(2) join(5) by (simp add: entry_update_map_of)
      ultimately show ?thesis by (simp add: grouped_def cohort slot_def insert_member_def)
    qed
    have dom2: "dom (actives ?st2) = insert d (dom ?A)" unfolding A2 by simp
    show "separate (dom (actives ?st2))" unfolding dom2 by (rule K)
    have new_group: "group_at (actives ?st2) x = (if x = d then g else group_at (move_entries g M ?A) x)" for x
      unfolding A2 by (simp add: group_at_def a_def)
    show "chained (dom (actives ?st2)) (group_at (actives ?st2))"
      unfolding dom2
    proof (rule chained_insert [OF K out c(6)])
      fix x y
      assume xy: "x \<in> dom ?A" "y \<in> dom ?A"
      then have "x \<noteq> d" "y \<noteq> d" using out by blast+
      have "(\<exists>l gl n gn. ?left = Some (l, gl) \<and> ?right = Some (n, gn) \<and> {group_at ?A x, group_at ?A y} = {gl, gn})
        \<longleftrightarrow> (\<exists>l \<in> dom ?A. \<exists>n \<in> dom ?A. br_end l = br_start d \<and> br_start n = br_end d
            \<and> {group_at ?A x, group_at ?A y} = {group_at ?A l, group_at ?A n})"
        unfolding left right by blast
      with join(2) xy show "group_at (actives ?st2) x = group_at (actives ?st2) y \<longleftrightarrow> group_at ?A x = group_at ?A y
        \<or> (\<exists>l \<in> dom ?A. \<exists>n \<in> dom ?A. br_end l = br_start d \<and> br_start n = br_end d
            \<and> {group_at ?A x, group_at ?A y} = {group_at ?A l, group_at ?A n})"
        unfolding joined_def new_group if_not_P [OF \<open>x \<noteq> d\<close>] if_not_P [OF \<open>y \<noteq> d\<close>] by (simp only:)
    next
      fix x
      assume x: "x \<in> dom ?A"
      then show "group_at (actives ?st2) x = group_at (actives ?st2) d \<longleftrightarrow>
        (\<exists>l \<in> dom ?A. (br_end l = br_start d \<or> br_start l = br_end d) \<and> group_at ?A x = group_at ?A l)"
        using join(2) out left right unfolding joined_def new_group by auto
    qed
  qed
  moreover have "inserted st d a ?st2"
    unfolding inserted_def
  proof (intro conjI exI [of _ M])
    show "same_frame st ?st2" using join(6) by (simp add: same_frame_def same_core_def)
    show "M = {} \<or> (\<exists>s. s \<noteq> active_component a \<and> M = range_group active_component ?A s)"
      using join(2) by (simp add: joined_def a_def)
    show "actives ?st2 = (move_entries (active_component a) M ?A)(d \<mapsto> a)" using A2 by (simp add: a_def)
  qed (rule out)
  ultimately show ?thesis by (intro exI [of _ ?st2] exI [of _ a]) (simp add: a_def)
qed

text \<open>An insertion that succeeds passed those tests.\<close>

lemma insert_active_deletion_accepts:
  assumes "insert_active_deletion inventory repetition first final (st, D, W) = Inr s"
  obtains d w where
    "macro_repetition_run_deletion_range inventory (src_macro_repetitions inventory ! repetition) first final = Inr d"
    "dependency_window st d = Some w" "\<not> overlaps_active st d"
  using assms unfolding insert_active_deletion_unfold by (auto simp: bind_result_eq_Inr split: if_splits)

section \<open>Changed groups\<close>

text \<open>The runs that the entries of a group stand for, and the entries without their component.\<close>

definition filed :: "(active_deletion \<Rightarrow> 'k) \<Rightarrow> (byte_range \<rightharpoonup> active_deletion) \<Rightarrow> 'k \<Rightarrow> (byte_range \<times> nat \<times> nat \<times> nat) set" where
  "filed key A k = {(d, active_repetition a, active_first a, active_final a) | d a. A d = Some a \<and> key a = k}"

definition entry_facts :: "(byte_range \<rightharpoonup> active_deletion) \<Rightarrow> byte_range \<rightharpoonup> nat \<times> nat \<times> nat \<times> byte_range" where
  "entry_facts A d = map_option (\<lambda>a. (active_repetition a, active_first a, active_final a, active_window a)) (A d)"

text \<open>A group that is not marked is empty now, or stands for the same runs as before.\<close>

definition tracked :: "(active_deletion \<Rightarrow> 'k) \<Rightarrow> (byte_range \<rightharpoonup> active_deletion) \<Rightarrow> (byte_range \<rightharpoonup> active_deletion) \<Rightarrow> 'k set \<Rightarrow> bool" where
  "tracked key A A' ks \<longleftrightarrow> (\<forall>k. k \<notin> ks \<longrightarrow> filed key A' k = {} \<or> filed key A' k = filed key A k)"

definition index_step :: "token_requirements \<times> nat set \<times> byte_range set \<Rightarrow> token_requirements \<times> nat set \<times> byte_range set \<Rightarrow> bool" where
  "index_step = (\<lambda>(st, D, W) (st', D', W').
     index_consistent st' \<and> same_frame st st' \<and> D \<subseteq> D' \<and> W \<subseteq> W'
     \<and> (finite D \<longrightarrow> finite D') \<and> (finite W \<longrightarrow> finite W')
     \<and> tracked active_component (actives st) (actives st') D' \<and> tracked active_window (actives st) (actives st') W')"

lemma tracked_refl [simp]: "tracked key A A ks"
  by (simp add: tracked_def)

lemma tracked_trans: "tracked key A B ks \<Longrightarrow> tracked key B C ls \<Longrightarrow> ks \<subseteq> ls \<Longrightarrow> tracked key A C ls"
  unfolding tracked_def by (metis subsetD)

lemma filed_member:
  "(d, i, f, l) \<in> filed key A k \<longleftrightarrow>
     (\<exists>a. A d = Some a \<and> key a = k \<and> active_repetition a = i \<and> active_first a = f \<and> active_final a = l)"
  by (auto simp: filed_def)

lemma filed_move_key:
  assumes "\<And>a. key (a\<lparr>active_component := t\<rparr>) = key a"
  shows "filed key (move_entries t M A) k = filed key A k"
proof -
  have "(\<exists>a. move_entries t M A d = Some a \<and> key a = k \<and> active_repetition a = i \<and> active_first a = f \<and> active_final a = l)
    \<longleftrightarrow> (\<exists>a. A d = Some a \<and> key a = k \<and> active_repetition a = i \<and> active_first a = f \<and> active_final a = l)" for d i f l
    using assms by (cases "A d"; cases "d \<in> M") (simp_all add: move_entries_def)
  then show ?thesis by (simp add: set_eq_iff filed_member)
qed

lemma filed_move:
  assumes "k \<noteq> t" "M \<inter> range_group active_component A k = {}"
  shows "filed active_component (move_entries t M A) k = filed active_component A k"
  using assms by (fastforce simp: filed_def range_group_def move_entries_Some split: if_splits)

lemma filed_empty: "filed key A k = {} \<longleftrightarrow> range_group key A k = {}"
  by (auto simp: filed_def range_group_def)

lemma filed_group: "fst ` filed key A k = range_group key A k"
  by (force simp: filed_def range_group_def)

lemma filed_update: "key a \<noteq> k \<Longrightarrow> d \<notin> dom A \<Longrightarrow> filed key (A(d \<mapsto> a)) k = filed key A k"
  by (auto simp: filed_def)

lemma filed_delete: "A d = Some a \<Longrightarrow> key a \<noteq> k \<Longrightarrow> filed key (A(d := None)) k = filed key A k"
  by (auto simp: set_eq_iff filed_member split: if_splits)

lemma entry_facts_move [simp]: "entry_facts (move_entries t M A) = entry_facts A"
  by (auto simp: entry_facts_def move_entries_def fun_eq_iff map_option_case split: option.splits)

lemma entry_facts_update [simp]:
  "entry_facts (A(d \<mapsto> a)) = (entry_facts A)(d \<mapsto> (active_repetition a, active_first a, active_final a, active_window a))"
  "entry_facts (A(d := None)) = (entry_facts A)(d := None)"
  by (auto simp: entry_facts_def fun_eq_iff)

lemma same_frame_trans: "same_frame st st1 \<Longrightarrow> same_frame st1 st2 \<Longrightarrow> same_frame st st2"
  by (simp add: same_frame_def same_core_def)

lemma index_step_trans: "index_step s s1 \<Longrightarrow> index_step s1 s2 \<Longrightarrow> index_step s s2"
  by (cases s; cases s1; cases s2) (auto simp: index_step_def intro: tracked_trans same_frame_trans)

lemma insert_active_deletion_step:
  assumes st: "index_consistent st" and r: "insert_active_deletion inventory repetition first final (st, D, W) = Inr (st', D', W')"
  obtains d w where "index_step (st, D, W) (st', D', W')" "d \<notin> dom (actives st)"
    "macro_repetition_run_deletion_range inventory (src_macro_repetitions inventory ! repetition) first final = Inr d"
    "dependency_window st d = Some w" "entry_facts (actives st') = (entry_facts (actives st))(d \<mapsto> (repetition, first, final, w))"
proof -
  from r obtain d w where d: "macro_repetition_run_deletion_range inventory (src_macro_repetitions inventory ! repetition) first final = Inr d"
    and w: "dependency_window st d = Some w" and "\<not> overlaps_active st d"
    by (rule insert_active_deletion_accepts)
  from insert_active_deletion_Inr [OF st this, of D W] r obtain a where
    s': "D' = insert (active_component a) D" "W' = insert w W" "index_consistent st'" "inserted st d a st'"
    and a: "active_repetition a = repetition" "active_first a = first" "active_final a = final" "active_window a = w"
    by auto
  from s'(4) obtain M where out: "d \<notin> dom (actives st)" and "same_frame st st'"
    and M: "M = {} \<or> (\<exists>s. s \<noteq> active_component a \<and> M = range_group active_component (actives st) s)"
    and A: "actives st' = (move_entries (active_component a) M (actives st))(d \<mapsto> a)"
    by (auto simp: inserted_def)
  have dom: "d \<notin> dom (move_entries (active_component a) M (actives st))" using out by simp
  have "filed active_component (actives st') k = {} \<or> filed active_component (actives st') k = filed active_component (actives st) k"
    if "k \<noteq> active_component a" for k
  proof -
    have f: "filed active_component (actives st') k = filed active_component (move_entries (active_component a) M (actives st)) k"
      unfolding A using that dom by (intro filed_update) simp_all
    show ?thesis
    proof (cases "M \<noteq> {} \<and> M = range_group active_component (actives st) k")
      case True
      then have "range_group active_component (move_entries (active_component a) M (actives st)) k = {}"
        using that by (subst range_group_move) auto
      then show ?thesis by (simp add: f filed_empty)
    next
      case False
      then have "M \<inter> range_group active_component (actives st) k = {}" using M by (auto simp: range_group_def)
      then show ?thesis using filed_move [OF that] by (simp add: f)
    qed
  qed
  moreover have "filed active_window (actives st') k = filed active_window (actives st) k" if "k \<noteq> w" for k
    unfolding A using that dom a by (subst filed_update) (simp_all add: filed_move_key)
  ultimately have "index_step (st, D, W) (st', D', W')"
    using s' \<open>same_frame st st'\<close> by (auto simp: index_step_def tracked_def)
  moreover have "entry_facts (actives st') = (entry_facts (actives st))(d \<mapsto> (repetition, first, final, w))"
    unfolding A by (simp add: a)
  ultimately show thesis using that out d w by blast
qed

section \<open>Removal\<close>

lemma split_component_Inr:
  assumes ordered: "ordered_keys (active_deletions st)" and groups: "grouped active_component (actives st) (component_at st)"
    and S: "component_at st c = Some S" and d: "d \<notin> dom (actives st)" "separate (insert d (dom (actives st)))"
  shows "\<exists>st' D' M t. split_component c d S (st, D) = Inr (st', D') \<and> ordered_keys (active_deletions st')
    \<and> grouped active_component (actives st') (component_at st') \<and> actives st' = move_entries t M (actives st)
    \<and> lexical_cohorts st' = lexical_cohorts st \<and> same_frame st st'
    \<and> range_group active_component (actives st) t = {} \<and> M \<subseteq> S
    \<and> D' = (if M = {} then D else insert t D) \<and> (\<forall>x \<in> S. \<forall>y \<in> S. (x \<in> M \<longleftrightarrow> y \<in> M) \<longleftrightarrow> (x < d \<longleftrightarrow> y < d))"
proof -
  let ?A = "actives st" and ?fresh = "length (deletion_components st)"
  have at: "component_at st k = slot (range_group active_component ?A k)" for k
    using groups by (simp add: grouped_def)
  have S': "S = range_group active_component ?A c" "S \<noteq> {}" using S by (simp_all add: at)
  have sub: "S \<subseteq> dom ?A" using S' by (auto simp: in_range_group)
  then have fin: "finite S" by (rule finite_subset) (rule finite_dom_map_of)
  have empty: "range_group active_component ?A ?fresh = {}"
    using at [of ?fresh] component_at_fresh [of st] by (metis slot_eq(1))
  then have fresh: "c \<noteq> ?fresh" using S' by auto
  have side: "d \<le> x \<longleftrightarrow> \<not> x < d" for x by auto
  show ?thesis
  proof (cases "greatest_below d S = None \<or> least_from d S = None")
    case True
    then have "split_component c d S (st, D) = Inr (st, D)" by (auto simp: split_component_def split: option.splits)
    moreover have "\<forall>x \<in> S. \<forall>y \<in> S. (x \<in> {} \<longleftrightarrow> y \<in> {}) \<longleftrightarrow> (x < d \<longleftrightarrow> y < d)"
      using True by (auto simp: greatest_below_None least_from_None side)
    moreover have "actives st = move_entries ?fresh {} ?A" "D = (if {} = {} then D else insert ?fresh D)" "{} \<subseteq> S"
      by simp_all
    ultimately show ?thesis using ordered groups empty same_frame_refl by blast
  next
    case False
    then obtain l r where l: "greatest_below d S = Some l" and r: "least_from d S = Some r" by auto
    note l' = l [unfolded greatest_below_Some [OF fin]] and r' = r [unfolded least_from_Some [OF fin]]
    have "r \<noteq> d" "l \<in> dom ?A" "r \<in> dom ?A" using r' l' sub d(1) by auto
    then have "l < d" "d < r" using l' r' by auto
    then have gap: "br_end l \<noteq> br_start r"
      using separateD(1) [OF d(2), of d] separateD(2) [OF d(2), of l d] separateD(2) [OF d(2), of d r]
        \<open>l \<in> dom ?A\<close> \<open>r \<in> dom ?A\<close> by auto
    define R where "R = {x \<in> S. r \<le> x}"
    have R: "x \<in> R \<longleftrightarrow> \<not> x < d" if "x \<in> S" for x
    proof (cases "x < d")
      case True
      with \<open>d < r\<close> have "\<not> r \<le> x" by (meson leD le_less_trans less_imp_le)
      with True show ?thesis by (simp add: R_def)
    next
      case False
      then have "d \<le> x" by simp
      then show ?thesis using False r' that by (simp add: R_def)
    qed
    define kept where "kept = (if card (S - R) \<ge> card R then S - R else R)"
    define moved where "moved = (if card (S - R) \<ge> card R then R else S - R)"
    have pair: "(if card R \<le> card (S - R) then (S - R, R) else (R, S - R)) = (kept, moved)"
      by (simp add: kept_def moved_def)
    have "R \<subseteq> S" "R \<noteq> {}" "S - R \<noteq> {}" using r' l' R [of l] by (auto simp: R_def)
    then have parts: "kept = S - moved" "moved \<subseteq> S" "kept \<noteq> {}" "moved \<noteq> {}" by (auto simp: kept_def moved_def)
    let ?st1 = "set_component c (Some kept) st"
    have "moved \<subseteq> dom (actives ?st1)" "ordered_keys (active_deletions ?st1)"
      using parts(2) sub ordered by (auto simp: set_component_def)
    then obtain m where m: "move_deletions ?fresh moved ?st1 = Inr (?st1\<lparr>active_deletions := m\<rparr>)" "ordered_keys m"
      "map_of m = move_entries ?fresh moved (actives ?st1)" by (rule move_deletions_Inr)
    let ?st2 = "?st1\<lparr>active_deletions := m\<rparr>"
    let ?st3 = "?st2\<lparr>deletion_components := deletion_components ?st2 @ [Some moved]\<rparr>"
    have "component_at ?st1 = (component_at st)(c := Some kept)" using S by (intro component_at_set) simp
    then have "component_at ?st2 = (component_at st)(c := Some kept)" using component_at_cong [of ?st2 ?st1] by simp
    then have st3: "component_at ?st3 = (component_at st)(c := Some kept, ?fresh := Some moved)"
      unfolding component_at_push by (simp add: set_component_def)
    have A3: "actives ?st3 = move_entries ?fresh moved ?A" using m(3) by (simp add: set_component_def)
    have "split_component c d S (st, D) = Inr (?st3, insert ?fresh D)"
      using l r gap m(1) pair by (simp add: split_component_def R_def [symmetric] Let_def)
    moreover have "grouped active_component (actives ?st3) (component_at ?st3)"
      unfolding grouped_def
    proof
      fix k
      have "range_group active_component (actives ?st3) k = (if k = c then kept else if k = ?fresh then moved else range_group active_component ?A k)"
        unfolding A3 using parts S' empty fresh by (subst range_group_move [of _ _ c]) auto
      then show "component_at ?st3 k = slot (range_group active_component (actives ?st3) k)"
        unfolding st3 using fresh parts(3,4) by (simp only: fun_upd_apply at) (simp add: slot_def)
    qed
    moreover have "\<forall>x \<in> S. \<forall>y \<in> S. (x \<in> moved \<longleftrightarrow> y \<in> moved) \<longleftrightarrow> (x < d \<longleftrightarrow> y < d)"
      using R by (auto simp: moved_def)
    moreover have "ordered_keys (active_deletions ?st3)" "lexical_cohorts ?st3 = lexical_cohorts st" "same_frame st ?st3"
      using m(2) by (simp_all add: set_component_def same_frame_def same_core_def)
    moreover have "insert ?fresh D = (if moved = {} then D else insert ?fresh D)" using parts(4) by simp
    ultimately show ?thesis using A3 empty parts(2) by blast
  qed
qed

text \<open>Removing an active deletion from a consistent index never fails.\<close>

lemma remove_active_deletion_step:
  assumes st: "index_consistent st"
    and range: "macro_repetition_run_deletion_range inventory (src_macro_repetitions inventory ! repetition) first final = Inr d"
    and active: "actives st d = Some a" "active_repetition a = repetition" "active_first a = first" "active_final a = final"
  obtains s' where "remove_active_deletion inventory repetition first final (st, D, W) = Inr s'"
    "index_step (st, D, W) s'" "entry_facts (actives (fst s')) = (entry_facts (actives st))(d := None)"
proof -
  let ?A = "actives st" and ?c = "active_component a" and ?w = "active_window a"
  let ?C = "range_group active_component ?A ?c" and ?V = "range_group active_window ?A ?w" and ?A1 = "?A(d := None)"
  note c = index_consistentD [OF st]
  note result = that
  note gone = range_group_remove [of ?A d a, OF active(1)]
  have in_C: "d \<in> ?C" and in_V: "d \<in> ?V" using active by (auto simp: range_group_def)
  have at: "component_at st k = slot (range_group active_component ?A k)" for k
    using c(3) by (simp add: grouped_def)
  have cohort: "map_of (lexical_cohorts st) w = slot (range_group active_window ?A w)" for w
    using c(4) by (simp add: grouped_def)
  define cohorts where "cohorts = (if ?V - {d} = {} then remove_entry ?w (lexical_cohorts st)
    else entry_update ?w (\<lambda>_. ?V - {d}) (lexical_cohorts st))"
  let ?W = "if ?V - {d} = {} then W else insert ?w W"
  let ?st1 = "st\<lparr>active_deletions := remove_entry d (active_deletions st), lexical_cohorts := cohorts\<rparr>"
  have A1: "actives ?st1 = ?A1" by (simp add: remove_entry_map_of)
  have ordered1: "ordered_keys (active_deletions ?st1)" "ordered_keys cohorts"
    using c(1,2) by (simp_all add: cohorts_def remove_entry_ordered entry_update_ordered)
  have window1: "grouped active_window ?A1 (map_of cohorts)"
  proof -
    have "map_of cohorts = (map_of (lexical_cohorts st))(?w := slot (?V - {d}))"
      using c(2) by (simp add: cohorts_def remove_entry_map_of entry_update_map_of slot_def)
    then show ?thesis by (simp add: grouped_def gone cohort)
  qed
  have comp1: "component_at ?st1 = component_at st" by (rule component_at_cong) simp
  have K: "separate (insert d (dom ?A1))" "d \<notin> dom ?A1" "dom ?A1 = dom ?A - {d}"
    using c(5) active(1) by (auto simp: insert_absorb domI)
  have fold: "remove_active_deletion inventory repetition first final (st, D, W) =
    (if ?C - {d} = {} then Inr (set_component ?c None ?st1, D, ?W)
     else bind_result (split_component ?c d (?C - {d}) (set_component ?c (Some (?C - {d})) ?st1, D))
       (\<lambda>(st, dirty). Inr (st, insert ?c dirty, ?W)))"
  proof -
    have "component_at (st\<lparr>active_deletions := m, lexical_cohorts := n\<rparr>) = component_at st" for m n
      by (rule component_at_cong) simp
    moreover have "map_of (lexical_cohorts st) ?w = Some ?V" "component_at st ?c = Some ?C"
      using in_V in_C by (auto simp: cohort at slot_def)
    ultimately show ?thesis
      unfolding remove_active_deletion_def using range active in_C in_V
      by (simp add: Let_def cohorts_def)
  qed
  have component1: "component_at (set_component ?c (slot (?C - {d})) ?st1) = (component_at st)(?c := slot (?C - {d}))"
  proof -
    have "component_at ?st1 ?c \<noteq> None" using in_C by (auto simp: comp1 at)
    then show ?thesis using component_at_set [of ?st1 ?c] comp1 by simp
  qed
  have groups1: "grouped active_component ?A1 (component_at (set_component ?c (slot (?C - {d})) ?st1))"
    unfolding component1 by (simp add: grouped_def gone at)
  have group1: "group_at ?A1 x = group_at ?A x" if "x \<in> dom ?A1" for x
    using that by (auto simp: group_at_def)
  have window_track: "tracked active_window ?A (move_entries t M ?A1) ?W" for t M
  proof -
    have "filed active_window (move_entries t M ?A1) k = {} \<or> filed active_window (move_entries t M ?A1) k = filed active_window ?A k"
      if k: "k \<notin> ?W" for k
    proof (cases "k = ?w")
      case True
      then have "?V - {d} = {}" using k by (auto split: if_splits)
      then have "range_group active_window ?A1 k = {}" using True by (simp add: gone)
      then show ?thesis by (simp add: filed_move_key filed_empty)
    next
      case False
      then show ?thesis using filed_delete [of ?A d a active_window k] active(1) by (simp add: filed_move_key)
    qed
    then show ?thesis by (simp add: tracked_def)
  qed
  have component_track: "tracked active_component ?A (move_entries t M ?A1) D'"
    if M: "M \<subseteq> ?C - {d}" and D': "t \<in> D' \<or> M = {}" "?c \<in> D' \<or> ?C - {d} = {}" for t M D'
  proof -
    have "filed active_component (move_entries t M ?A1) k = {} \<or> filed active_component (move_entries t M ?A1) k = filed active_component ?A k"
      if k: "k \<notin> D'" for k
    proof (cases "k = ?c")
      case True
      then have "?C - {d} = {}" "M = {}" using k D'(2) M by auto
      then have "range_group active_component ?A1 k = {}" using True by (simp add: gone)
      then show ?thesis using \<open>M = {}\<close> by (simp add: filed_empty)
    next
      case False
      have "filed active_component (move_entries t M ?A1) k = filed active_component ?A1 k"
      proof (cases "M = {}")
        case False
        then have "k \<noteq> t" using k D'(1) by auto
        moreover have "M \<inter> range_group active_component ?A1 k = {}"
          using M \<open>k \<noteq> ?c\<close> by (auto simp: range_group_def)
        ultimately show ?thesis by (rule filed_move)
      qed simp
      then show ?thesis using filed_delete [of ?A d a active_component k] active(1) False by simp
    qed
    then show ?thesis by (simp add: tracked_def)
  qed
  have finish: thesis
    if r: "remove_active_deletion inventory repetition first final (st, D, W) = Inr (st2, D2, ?W)"
      and ordered: "ordered_keys (active_deletions st2)" and groups: "grouped active_component (actives st2) (component_at st2)"
      and A2: "actives st2 = move_entries t M ?A1" and cohorts: "lexical_cohorts st2 = cohorts"
      and frame: "same_frame st st2" and M: "M \<subseteq> ?C - {d}" and fresh: "range_group active_component ?A1 t = {}"
      and D2: "t \<in> D2 \<or> M = {}" "?c \<in> D2 \<or> ?C - {d} = {}" "D \<subseteq> D2" "finite D \<Longrightarrow> finite D2"
      and sides: "\<forall>x \<in> ?C - {d}. \<forall>y \<in> ?C - {d}. (x \<in> M \<longleftrightarrow> y \<in> M) \<longleftrightarrow> (x < d \<longleftrightarrow> y < d)"
    for st2 D2 t M
  proof -
    have dom2: "dom (actives st2) = dom ?A - {d}" by (simp add: A2 K(3))
    have "chained (dom ?A - {d}) (group_at (actives st2))"
    proof (rule chained_remove [OF c(5) _ c(6)])
      show "d \<in> dom ?A" using active(1) by blast
      fix x y
      assume xy: "x \<in> dom ?A - {d}" "y \<in> dom ?A - {d}"
      have g: "group_at (actives st2) z = (if z \<in> M then t else group_at ?A z)" if "z \<in> dom ?A - {d}" for z
        using that unfolding A2 by (subst group_at_move) (auto simp: group1)
      have not_t: "group_at ?A z \<noteq> t" if "z \<in> dom ?A - {d}" for z
        using that fresh group1 [of z] in_range_group [of z ?A1 t] K(3) by auto
      have in_M: "group_at ?A z = group_at ?A d" if "z \<in> M" for z
        using that M active(1) by (auto simp: in_range_group)
      have C: "z \<in> ?C - {d} \<longleftrightarrow> group_at ?A z = group_at ?A d" if "z \<in> dom ?A - {d}" for z
        using that active(1) by (auto simp: in_range_group)
      show "group_at (actives st2) x = group_at (actives st2) y \<longleftrightarrow>
        group_at ?A x = group_at ?A y \<and> (group_at ?A x = group_at ?A d \<longrightarrow> (x < d \<longleftrightarrow> y < d))"
      proof (cases "x \<in> ?C - {d} \<and> y \<in> ?C - {d}")
        case True
        then have "(x \<in> M \<longleftrightarrow> y \<in> M) \<longleftrightarrow> (x < d \<longleftrightarrow> y < d)" using sides by blast
        moreover have "group_at ?A x = group_at ?A d" "group_at ?A y = group_at ?A d" using True C xy by blast+
        ultimately show ?thesis unfolding g [OF xy(1)] g [OF xy(2)] using not_t [OF xy(1)] by metis
      next
        case False
        then have "\<not> (group_at ?A x = group_at ?A d \<and> group_at ?A y = group_at ?A d)" using C xy by blast
        note apart = this
        show ?thesis
        proof (cases "group_at ?A x = group_at ?A d")
          case True
          then have "y \<notin> M" "group_at ?A y \<noteq> group_at ?A x" using apart in_M by auto
          then show ?thesis unfolding g [OF xy(1)] g [OF xy(2)] using not_t [OF xy(2)] by auto
        next
          case False
          then have "x \<notin> M" using in_M by blast
          have "y \<in> M \<Longrightarrow> group_at ?A y \<noteq> group_at ?A x" using False in_M [of y] by simp
          then show ?thesis
            unfolding g [OF xy(1)] g [OF xy(2)] using False \<open>x \<notin> M\<close> not_t [OF xy(1)] by auto
        qed
      qed
    qed
    moreover have "grouped active_window (actives st2) (map_of (lexical_cohorts st2))"
      using window1 unfolding A2 cohorts grouped_def by (simp add: range_group_move_key)
    moreover have "separate (dom (actives st2))"
      unfolding dom2 by (rule separate_subset [OF c(5)]) (rule Diff_subset)
    ultimately have "index_consistent st2"
      using ordered groups ordered1(2) unfolding index_consistent_def cohorts dom2 by simp
    then have "index_step (st, D, W) (st2, D2, ?W)"
      using frame D2 component_track [OF M, of t D2] window_track [of t M] by (auto simp: index_step_def A2)
    moreover have "entry_facts (actives (fst (st2, D2, ?W))) = (entry_facts ?A)(d := None)"
      by (simp add: A2)
    ultimately show thesis by (rule result [OF r])
  qed
  show thesis
  proof (cases "?C - {d} = {}")
    case True
    let ?st2 = "set_component ?c None ?st1"
    have A2: "actives ?st2 = move_entries ?c {} ?A1" using A1 by (simp add: set_component_def)
    show thesis
    proof (rule finish [of ?st2 D ?c "{}"])
      show "remove_active_deletion inventory repetition first final (st, D, W) = Inr (?st2, D, ?W)"
        unfolding fold if_P [OF True] by (rule refl)
      show "ordered_keys (active_deletions ?st2)" using ordered1(1) by (simp add: set_component_def)
      show "grouped active_component (actives ?st2) (component_at ?st2)"
        using groups1 unfolding A2 True by (simp add: slot_def)
      show "range_group active_component ?A1 ?c = {}" using True by (simp add: gone)
    qed (use True A2 in \<open>auto simp: set_component_def same_frame_def same_core_def\<close>)
  next
    case False
    let ?st2 = "set_component ?c (Some (?C - {d})) ?st1"
    have slot: "slot (?C - {d}) = Some (?C - {d})" using False by (simp add: slot_def)
    have A2: "actives ?st2 = ?A1" using A1 by (simp add: set_component_def)
    have p1: "ordered_keys (active_deletions ?st2)" using ordered1(1) by (simp add: set_component_def)
    have p2: "grouped active_component (actives ?st2) (component_at ?st2)" using groups1 unfolding A2 slot .
    have p3: "component_at ?st2 ?c = Some (?C - {d})" using component1 unfolding slot by simp
    have p4: "d \<notin> dom (actives ?st2)" "separate (insert d (dom (actives ?st2)))" using K unfolding A2 by auto
    obtain st3 D3 t M where s: "split_component ?c d (?C - {d}) (?st2, D) = Inr (st3, D3)"
        "ordered_keys (active_deletions st3)" "grouped active_component (actives st3) (component_at st3)"
        "actives st3 = move_entries t M (actives ?st2)" "lexical_cohorts st3 = lexical_cohorts ?st2" "same_frame ?st2 st3"
        "range_group active_component (actives ?st2) t = {}" "M \<subseteq> ?C - {d}" "D3 = (if M = {} then D else insert t D)"
        "\<forall>x \<in> ?C - {d}. \<forall>y \<in> ?C - {d}. (x \<in> M \<longleftrightarrow> y \<in> M) \<longleftrightarrow> (x < d \<longleftrightarrow> y < d)"
      using split_component_Inr [OF p1 p2 p3 p4, of D] by blast
    show thesis
    proof (rule finish [of st3 "insert ?c D3" t M])
      show "remove_active_deletion inventory repetition first final (st, D, W) = Inr (st3, insert ?c D3, ?W)"
        unfolding fold using False s(1) by simp
      have "same_frame st ?st2" by (simp add: same_frame_def same_core_def set_component_def)
      then show "same_frame st st3" using s(6) by (rule same_frame_trans)
      show "actives st3 = move_entries t M ?A1" using s(4) unfolding A2 .
      show "lexical_cohorts st3 = cohorts" using s(5) by (simp add: set_component_def)
      show "range_group active_component ?A1 t = {}" using s(7) unfolding A2 .
    qed (use s in \<open>auto split: if_splits\<close>)
  qed
qed

end
