(* ===== verification/Requirement_Runs.thy ===== *)
theory Requirement_Runs
  imports Deletion_Index
begin

text \<open>
  The repetitions of \<open>MacroRepetitionTokenRequirements\<close>: the runs of a repetition stay the maximal
  runs of elements that are not retained, and the index of active deletions stays the table of these
  runs, when a repetition is activated and when one of its elements is retained.
\<close>

section \<open>Runs\<close>

lemma maximal_run_unique:
  assumes "maximal_run flags (a, b)" "maximal_run flags (c, d)" "a \<le> k" "k \<le> b" "c \<le> k" "k \<le> d"
  shows "a = c \<and> b = d"
proof
  from assms show "a = c"
    by (intro run_unique [of a k flags c]) (auto simp: maximal_run_def)
  show "b = d"
  proof (rule ccontr)
    assume "b \<noteq> d"
    then consider "b < d" | "d < b" by linarith
    then show False
    proof cases
      case 1
      then have "flags ! Suc b" "c \<le> Suc b" "Suc b \<le> d" using assms by (auto simp: maximal_run_def)
      then show False using assms(2) by (auto simp: maximal_run_def)
    next
      case 2
      then have "flags ! Suc d" "a \<le> Suc d" "Suc d \<le> b" using assms by (auto simp: maximal_run_def)
      then show False using assms(1) by (auto simp: maximal_run_def)
    qed
  qed
qed

text \<open>Retaining an element splits its run.\<close>

lemma maximal_run_outside:
  assumes run: "maximal_run flags (f, l)" "f \<le> e" "e \<le> l" and ab: "b < e \<or> e < a" and out: "(a, b) \<noteq> (f, e - 1)" "(a, b) \<noteq> (e + 1, l)"
  shows "maximal_run (flags[e := True]) (a, b) \<longleftrightarrow> maximal_run flags (a, b)"
proof -
  have len: "e < length flags" using run by (auto simp: maximal_run_def)
  have gap: "\<not> flags ! i" if "f \<le> i" "i \<le> l" for i using run that by (simp add: maximal_run_def)
  have ends: "f = 0 \<or> flags ! (f - 1)" "Suc l = length flags \<or> flags ! Suc l" using run by (auto simp: maximal_run_def)
  have upd: "flags[e := True] ! i = (if i = e then True else flags ! i)" for i
    using len by (simp add: nth_list_update)
  show ?thesis
  proof
    assume m: "maximal_run (flags[e := True]) (a, b)"
    then have ab': "a \<le> b" "b < length flags" and g: "\<And>i. a \<le> i \<Longrightarrow> i \<le> b \<Longrightarrow> \<not> flags ! i"
      and lo: "a = 0 \<or> flags[e := True] ! (a - 1)" and hi: "Suc b = length flags \<or> flags[e := True] ! Suc b"
      using ab upd by (auto simp: maximal_run_def)
    have "Suc b \<noteq> e"
    proof
      assume b: "Suc b = e"
      then have "a \<le> b" "a < e" using ab' by auto
      have a: "a = 0 \<or> flags ! (a - 1)" using lo upd [of "a - 1"] ab' \<open>a < e\<close> by (auto split: if_splits)
      have "f \<noteq> e"
      proof
        assume "f = e"
        then have "flags ! (f - 1)" "f - 1 = b" using ends b by auto
        with g [of b] ab' show False by simp
      qed
      then have "a = f"
        using run_unique [of a b flags f] g a gap ends(1) b run(2,3) ab' by auto
      then show False using out(1) b by auto
    qed
    moreover have "a - 1 \<noteq> e \<or> a = 0"
    proof (rule ccontr)
      assume "\<not> (a - 1 \<noteq> e \<or> a = 0)"
      then have a: "a = Suc e" by auto
      have hi': "Suc b = length flags \<or> flags ! Suc b" using hi upd [of "Suc b"] a ab' by (auto split: if_splits)
      have "b = l"
      proof (rule ccontr)
        assume "b \<noteq> l"
        then consider "b < l" | "l < b" by linarith
        then show False
        proof cases
          case 1
          then have "flags ! Suc b" using hi' run by (auto simp: maximal_run_def)
          then show False using gap [of "Suc b"] 1 a ab' run(2) by auto
        next
          case 2
          then have "flags ! Suc l" using ends ab' by auto
          then show False using g [of "Suc l"] 2 a run(3) by auto
        qed
      qed
      then show False using out(2) a by simp
    qed
    ultimately show "maximal_run flags (a, b)"
      using ab' g lo hi upd [of "a - 1"] upd [of "Suc b"] by (auto simp: maximal_run_def split: if_splits)
  next
    assume m: "maximal_run flags (a, b)"
    then have "a \<le> b" "b < length flags" by (auto simp: maximal_run_def)
    moreover have "\<not> flags[e := True] ! i" if "a \<le> i" "i \<le> b" for i
      using that m ab upd [of i] \<open>b < length flags\<close> by (auto simp: maximal_run_def)
    moreover have "a = 0 \<or> flags[e := True] ! (a - 1)" "Suc b = length flags \<or> flags[e := True] ! Suc b"
      using m unfolding upd by (auto simp: maximal_run_def)
    ultimately show "maximal_run (flags[e := True]) (a, b)" by (auto simp: maximal_run_def)
  qed
qed

lemma maximal_runs_retain:
  assumes run: "maximal_run flags (f, l)" "f \<le> e" "e \<le> l"
  shows "Collect (maximal_run (flags[e := True])) =
    (Collect (maximal_run flags) - {(f, l)}) \<union> (if f < e then {(f, e - 1)} else {}) \<union> (if e < l then {(e + 1, l)} else {})"
proof (rule set_eqI)
  fix x :: "nat \<times> nat"
  obtain a b where x: "x = (a, b)" by (cases x)
  have len: "e < length flags" "l < length flags" using run by (auto simp: maximal_run_def)
  have upd: "flags[e := True] ! i = (if i = e then True else flags ! i)" if "i < length flags" for i
    using that by (simp add: nth_list_update)
  have left: "maximal_run (flags[e := True]) (f, e - 1)" if "f < e"
    using run that len upd by (auto simp: maximal_run_def)
  have right: "maximal_run (flags[e := True]) (e + 1, l)" if "e < l"
    using run that len upd by (auto simp: maximal_run_def nth_list_update)
  have empty: "\<not> maximal_run flags' (a, b)" if "b < a" for flags' using that by (simp add: maximal_run_def)
  show "x \<in> Collect (maximal_run (flags[e := True])) \<longleftrightarrow> x \<in> (Collect (maximal_run flags) - {(f, l)})
      \<union> (if f < e then {(f, e - 1)} else {}) \<union> (if e < l then {(e + 1, l)} else {})"
  proof (cases "b < e \<or> e < a")
    case True
    show ?thesis
    proof (cases "(a, b) = (f, e - 1) \<or> (a, b) = (e + 1, l)")
      case True
      have "\<not> maximal_run flags (a, b)" if "a \<le> b"
      proof
        assume m: "maximal_run flags (a, b)"
        from True have "(a = f \<and> b = e - 1) \<or> (a = e + 1 \<and> b = l)" by auto
        then show False
        proof
          assume ab: "a = f \<and> b = e - 1"
          then have "a = f \<and> b = l" using maximal_run_unique [OF m run(1), of f] run that by auto
          then show False using ab \<open>b < e \<or> e < a\<close> run by auto
        next
          assume ab: "a = e + 1 \<and> b = l"
          then have "a = f \<and> b = l" using maximal_run_unique [OF m run(1), of l] run that by auto
          then show False using ab run by auto
        qed
      qed
      then show ?thesis using True left right empty run \<open>b < e \<or> e < a\<close> unfolding x
        by (cases "b < a") (auto split: if_splits)
    next
      case False
      then show ?thesis using maximal_run_outside [OF run True] True run unfolding x by auto
    qed
  next
    case False
    then have k: "a \<le> e" "e \<le> b" by auto
    have "\<not> maximal_run (flags[e := True]) (a, b)" using k upd [OF len(1)] by (auto simp: maximal_run_def)
    moreover have "maximal_run flags (a, b) \<longleftrightarrow> a = f \<and> b = l"
      using maximal_run_unique [OF _ run(1) k run(2,3)] run(1) by auto
    ultimately show ?thesis using k unfolding x by auto
  qed
qed

section \<open>The table of runs\<close>

abbreviation run_range :: "source_inventory \<Rightarrow> nat \<Rightarrow> nat \<Rightarrow> nat \<Rightarrow> source_rewrite_error + byte_range" where
  "run_range inventory i first final \<equiv>
     macro_repetition_run_deletion_range inventory (src_macro_repetitions inventory ! i) first final"

text \<open>The entries of the index are the deletions of the runs \<open>R i\<close> of the repetitions \<open>i\<close>.\<close>

definition entries_match :: "source_inventory \<Rightarrow> token_requirements \<Rightarrow> (nat \<Rightarrow> (nat \<times> nat) set) \<Rightarrow> bool" where
  "entries_match inventory st R \<longleftrightarrow>
     (\<forall>d i f l w. entry_facts (actives st) d = Some (i, f, l, w) \<longrightarrow>
        (f, l) \<in> R i \<and> run_range inventory i f l = Inr d \<and> dependency_window st d = Some w)
     \<and> (\<forall>i f l. (f, l) \<in> R i \<longrightarrow> (\<exists>d w. entry_facts (actives st) d = Some (i, f, l, w)))"

definition wave_step :: "dirty_requirements \<Rightarrow> dirty_requirements \<Rightarrow> bool" where
  "wave_step = (\<lambda>(st, D, W) (st', D', W').
     index_consistent st' \<and> same_core st st' \<and> D \<subseteq> D' \<and> W \<subseteq> W'
     \<and> (finite D \<longrightarrow> finite D') \<and> (finite W \<longrightarrow> finite W')
     \<and> tracked active_component (actives st) (actives st') D' \<and> tracked active_window (actives st) (actives st') W')"

lemma wave_step_index: "index_step s s' \<Longrightarrow> wave_step s s'"
  by (cases s; cases s') (simp add: index_step_def wave_step_def same_frame_def)

lemma same_core_trans: "same_core st st1 \<Longrightarrow> same_core st1 st2 \<Longrightarrow> same_core st st2"
  by (simp add: same_core_def)

lemma wave_step_trans: "wave_step s s1 \<Longrightarrow> wave_step s1 s2 \<Longrightarrow> wave_step s s2"
  by (cases s; cases s1; cases s2) (auto simp: wave_step_def intro: tracked_trans same_core_trans)

lemma wave_step_refl: "index_consistent (fst s) \<Longrightarrow> wave_step s s"
  by (cases s) (simp add: wave_step_def same_core_def)

lemma wave_step_consistent: "wave_step s s' \<Longrightarrow> index_consistent (fst s')"
  by (cases s; cases s') (simp add: wave_step_def)

lemma wave_step_core: "wave_step s s' \<Longrightarrow> same_core (fst s) (fst s')"
  by (cases s; cases s') (simp add: wave_step_def)

lemma update_repetition_frame:
  "active_deletions (update_repetition i v st) = active_deletions st"
  "lexical_cohorts (update_repetition i v st) = lexical_cohorts st"
  "component_at (update_repetition i v st) = component_at st"
  "repetition_states (update_repetition i v st) = (repetition_states st)[i := v]"
  "dependency_window (update_repetition i v st) = dependency_window st"
  "same_core st (update_repetition i v st)"
  by (simp_all add: update_repetition_def component_at_def dependency_window_def same_core_def fun_eq_iff)

lemma update_repetition_index: "index_consistent (update_repetition i v st) = index_consistent st"
  by (simp add: index_consistent_def update_repetition_frame)

lemma update_repetition_entries: "entries_match inventory (update_repetition i v st) R = entries_match inventory st R"
  by (simp add: entries_match_def update_repetition_frame)

lemma update_repetition_step: "index_consistent st \<Longrightarrow> wave_step (st, D, W) (update_repetition i v st, D, W)"
  by (simp add: wave_step_def update_repetition_index update_repetition_frame)

lemma entry_facts_dom: "entry_facts A d = None \<longleftrightarrow> d \<notin> dom A"
  by (auto simp: entry_facts_def)

lemma entries_insert:
  assumes st: "index_consistent (fst s)" and entries: "entries_match inventory (fst s) R"
    and r: "insert_active_deletion inventory i f l s = Inr s'"
  shows "index_step s s' \<and> entries_match inventory (fst s') (R(i := insert (f, l) (R i)))"
proof -
  obtain st D W where s: "s = (st, D, W)" by (cases s)
  obtain st' D' W' where s': "s' = (st', D', W')" by (cases s')
  from st r obtain d w where step: "index_step (st, D, W) (st', D', W')" and d: "d \<notin> dom (actives st)"
    "run_range inventory i f l = Inr d" "dependency_window st d = Some w"
    and facts: "entry_facts (actives st') = (entry_facts (actives st))(d \<mapsto> (i, f, l, w))"
    unfolding s s' fst_conv by (rule insert_active_deletion_step)
  have window: "dependency_window st' = dependency_window st"
    using step by (intro dependency_window_frame) (simp add: index_step_def)
  have "entries_match inventory st' (R(i := insert (f, l) (R i)))"
    unfolding entries_match_def facts window
  proof (intro conjI allI impI)
    fix d' i' f' l' w'
    assume e: "((entry_facts (actives st))(d \<mapsto> (i, f, l, w))) d' = Some (i', f', l', w')"
    show "(f', l') \<in> (R(i := insert (f, l) (R i))) i'" "run_range inventory i' f' l' = Inr d'" "dependency_window st d' = Some w'"
      using e d entries unfolding s entries_match_def fst_conv by (auto split: if_splits)
  next
    fix i' f' l'
    assume "(f', l') \<in> (R(i := insert (f, l) (R i))) i'"
    then consider "i' = i" "f' = f" "l' = l" | "(f', l') \<in> R i'" by (auto split: if_splits)
    then show "\<exists>d' w'. ((entry_facts (actives st))(d \<mapsto> (i, f, l, w))) d' = Some (i', f', l', w')"
    proof cases
      case 2
      then obtain d' w' where "entry_facts (actives st) d' = Some (i', f', l', w')"
        using entries unfolding s entries_match_def fst_conv by blast
      then show ?thesis using d(1) entry_facts_dom [of "actives st" d] by (intro exI [of _ d'] exI [of _ w']) auto
    qed auto
  qed
  with step show ?thesis by (simp add: s s')
qed

lemma entries_remove:
  assumes st: "index_consistent (fst s)" and entries: "entries_match inventory (fst s) R" and run: "(f, l) \<in> R i"
  shows "\<exists>s'. remove_active_deletion inventory i f l s = Inr s' \<and> index_step s s'
    \<and> entries_match inventory (fst s') (R(i := R i - {(f, l)}))"
proof -
  obtain st D W where s: "s = (st, D, W)" by (cases s)
  from entries run obtain d w where d: "entry_facts (actives st) d = Some (i, f, l, w)" "run_range inventory i f l = Inr d"
    unfolding s entries_match_def fst_conv by blast
  from d(1) obtain a where a: "actives st d = Some a" "active_repetition a = i" "active_first a = f" "active_final a = l"
    by (auto simp: entry_facts_def)
  have c: "index_consistent st" using st by (simp add: s)
  obtain s' where s': "remove_active_deletion inventory i f l (st, D, W) = Inr s'" "index_step (st, D, W) s'"
    and facts: "entry_facts (actives (fst s')) = (entry_facts (actives st))(d := None)"
    by (rule remove_active_deletion_step [OF c d(2) a])
  have window: "dependency_window (fst s') = dependency_window st"
    using s'(2) by (cases s') (auto simp: index_step_def intro: dependency_window_frame)
  have "entries_match inventory (fst s') (R(i := R i - {(f, l)}))"
    unfolding entries_match_def facts window
  proof (intro conjI allI impI)
    fix d' i' f' l' w'
    assume "((entry_facts (actives st))(d := None)) d' = Some (i', f', l', w')"
    then have e: "d' \<noteq> d" "entry_facts (actives st) d' = Some (i', f', l', w')" by (auto split: if_splits)
    then have m: "(f', l') \<in> R i'" "run_range inventory i' f' l' = Inr d'" "dependency_window st d' = Some w'"
      using entries unfolding s entries_match_def fst_conv by blast+
    have "(i', f', l') \<noteq> (i, f, l)" using m(2) d(2) e(1) by auto
    with m show "(f', l') \<in> (R(i := R i - {(f, l)})) i'" "run_range inventory i' f' l' = Inr d'" "dependency_window st d' = Some w'"
      by auto
  next
    fix i' f' l'
    assume "(f', l') \<in> (R(i := R i - {(f, l)})) i'"
    then have "(f', l') \<in> R i'" "(i', f', l') \<noteq> (i, f, l)" by (auto split: if_splits)
    then obtain d' w' where e: "entry_facts (actives st) d' = Some (i', f', l', w')"
      using entries unfolding s entries_match_def fst_conv by blast
    moreover from e d(1) \<open>(i', f', l') \<noteq> (i, f, l)\<close> have "d' \<noteq> d" by auto
    ultimately show "\<exists>d' w'. ((entry_facts (actives st))(d := None)) d' = Some (i', f', l', w')" by auto
  qed
  with s' show ?thesis by (auto simp: s)
qed

section \<open>Repetitions\<close>

definition repetition_consistent :: "macro_repetition \<Rightarrow> repetition_deletion_state \<Rightarrow> bool" where
  "repetition_consistent r state \<longleftrightarrow>
     length (retained_elements state) = length (rep_elements r)
     \<and> (if repetition_active state
        then retained_count state = length (filter (\<lambda>b. b) (retained_elements state))
          \<and> validate_count r (retained_count state) = Inr ()
          \<and> active_runs state = runs_of (retained_elements state)
        else active_runs state = [])"

definition runs_at :: "token_requirements \<Rightarrow> nat \<Rightarrow> (nat \<times> nat) set" where
  "runs_at st i = (if i < length (repetition_states st) then set (active_runs (repetition_states st ! i)) else {})"

definition deletions_consistent :: "source_inventory \<Rightarrow> token_requirements \<Rightarrow> bool" where
  "deletions_consistent inventory st \<longleftrightarrow>
     index_consistent st
     \<and> list_all2 repetition_consistent (src_macro_repetitions inventory) (repetition_states st)
     \<and> entries_match inventory st (runs_at st)"

text \<open>The runs are determined by their elements.\<close>

lemma ordered_runs_unique:
  fixes m n :: "(nat \<times> nat) list"
  assumes "ordered_keys m" "ordered_keys n" "set m = set n"
  shows "m = n"
proof -
  have "sorted_wrt (<) xs" if "ordered_keys xs" for xs :: "(nat \<times> nat) list"
    using that unfolding ordered_keys_def sorted_wrt_map by (rule sorted_wrt_mono_rel [rotated]) (auto simp: less_prod_def')
  then show ?thesis using strict_sorted_equal [of n m] assms by blast
qed

lemma runs_of_unique:
  "ordered_keys runs \<Longrightarrow> set runs = Collect (maximal_run flags) \<Longrightarrow> runs = runs_of flags"
  using runs_of_exact [of flags] by (intro ordered_runs_unique) (auto simp: ordered_keys_def)

lemma runs_of_ordered: "ordered_keys (runs_of flags)"
  using runs_of_exact [of flags] by (simp add: ordered_keys_def)

lemma runs_of_set: "set (runs_of flags) = Collect (maximal_run flags)"
  using runs_of_exact [of flags] by simp

lemma runs_of_map_of: "map_of (runs_of flags) f = Some l \<longleftrightarrow> maximal_run flags (f, l)"
proof -
  have "distinct (map fst (runs_of flags))"
    using runs_of_ordered [of flags] by (simp add: ordered_keys_def strict_sorted_iff)
  then show ?thesis by (simp add: map_of_eq_Some_iff runs_of_set)
qed

lemma runs_at_update:
  "i < length (repetition_states st) \<Longrightarrow> repetition_states st' = (repetition_states st)[i := v]
    \<Longrightarrow> runs_at st' = (runs_at st)(i := set (active_runs v))"
  by (auto simp: runs_at_def fun_eq_iff nth_list_update)

lemma entry_set:
  "ordered_keys m \<Longrightarrow> (j, w) \<in> set m \<longleftrightarrow> map_of m j = Some w"
  by (auto simp: ordered_keys_def strict_sorted_iff map_of_eq_Some_iff)

lemma index_step_states: "index_step s s' \<Longrightarrow> repetition_states (fst s') = repetition_states (fst s)"
  by (cases s; cases s') (simp add: index_step_def same_frame_def)

lemma insert_run_step:
  assumes "index_consistent (fst s)" "entries_match inventory (fst s) R" "insert_run inventory i a b s = Inr s'"
  shows "wave_step s s' \<and> entries_match inventory (fst s') (R(i := insert (a, b) (R i)))
    \<and> repetition_states (fst s') = (repetition_states (fst s))
        [i := (repetition_states (fst s) ! i)\<lparr>active_runs := entry_update a (\<lambda>_. b) (active_runs (repetition_states (fst s) ! i))\<rparr>]"
proof -
  obtain st D W where s: "s = (st, D, W)" by (cases s)
  let ?v = "(repetition_states st ! i)\<lparr>active_runs := entry_update a (\<lambda>_. b) (active_runs (repetition_states st ! i))\<rparr>"
  have r: "insert_active_deletion inventory i a b (update_repetition i ?v st, D, W) = Inr s'"
    using assms(3) by (simp add: s insert_run_def Let_def)
  have c: "index_consistent st" using assms(1) by (simp add: s)
  have "index_step (update_repetition i ?v st, D, W) s' \<and> entries_match inventory (fst s') (R(i := insert (a, b) (R i)))"
    using assms by (intro entries_insert [OF _ _ r]) (simp_all add: s update_repetition_index update_repetition_entries)
  moreover from this have "repetition_states (fst s') = (repetition_states st)[i := ?v]"
    using index_step_states by (fastforce simp: update_repetition_frame)
  moreover have "wave_step s (update_repetition i ?v st, D, W)"
    unfolding s by (rule update_repetition_step [OF c])
  ultimately show ?thesis using wave_step_trans wave_step_index by (auto simp: s)
qed

lemma retain_repetition_element_step:
  assumes c: "deletions_consistent inventory (fst s)" and i: "i < length (repetition_states (fst s))"
    and active: "repetition_active (repetition_states (fst s) ! i)"
    and r: "retain_repetition_element inventory i e s = Inr s'"
  shows "wave_step s s' \<and> deletions_consistent inventory (fst s')
    \<and> (\<exists>v. repetition_states (fst s') = (repetition_states (fst s))[i := v] \<and> repetition_active v
        \<and> retained_elements v = (retained_elements (repetition_states (fst s) ! i))[e := True])"
proof -
  obtain st D W where s: "s = (st, D, W)" by (cases s)
  let ?v = "repetition_states st ! i" and ?r = "src_macro_repetitions inventory ! i"
  let ?flags = "retained_elements ?v"
  have st: "index_consistent st" "list_all2 repetition_consistent (src_macro_repetitions inventory) (repetition_states st)"
    "entries_match inventory st (runs_at st)"
    using c by (simp_all add: deletions_consistent_def s)
  have i': "i < length (repetition_states st)" using i by (simp add: s)
  then have v: "repetition_consistent ?r ?v" using list_all2_nthD2 [OF st(2)] by blast
  then have len: "length ?flags = length (rep_elements ?r)" and count: "retained_count ?v = length (filter (\<lambda>b. b) ?flags)"
    and runs: "active_runs ?v = runs_of ?flags" using active by (auto simp: repetition_consistent_def s)
  from r have e: "e < length ?flags" unfolding s retain_repetition_element_def
    by (auto simp: Let_def bind_result_eq_Inr)
  show ?thesis
  proof (cases "?flags ! e")
    case True
    then have "s' = s" "?flags[e := True] = ?flags"
      using r e unfolding s retain_repetition_element_def
      by (auto simp: Let_def bind_result_eq_Inr get_at_def split: if_splits) (metis list_update_id)
    then show ?thesis
      using c i' active wave_step_refl [of s] st(1) by (auto simp: s intro!: exI [of _ ?v])
  next
    case False
    have known: "get_at ?flags e = Some (?flags ! e)" using e by (simp add: get_at_def)
    from r False obtain x where
      sel: "(case greatest_below (Suc e) (fst ` set (active_runs ?v)) of None \<Rightarrow> None
        | Some first \<Rightarrow> keep_if (\<lambda>(_, final). e \<le> final) (map_option (Pair first) (map_of (active_runs ?v) first))) = Some x"
      and rest: "(case x of (f, l) \<Rightarrow>
        bind_result (validate_count ?r (retained_count (?v\<lparr>active_runs := remove_entry f (active_runs ?v),
          retained_elements := ?flags[e := True], retained_count := retained_count ?v + 1\<rparr>))) (\<lambda>_.
        bind_result (remove_active_deletion inventory i f l (update_repetition i (?v\<lparr>active_runs := remove_entry f (active_runs ?v),
          retained_elements := ?flags[e := True], retained_count := retained_count ?v + 1\<rparr>) st, D, W)) (\<lambda>s.
        bind_result (if f < e then insert_run inventory i f (e - 1) s else Inr s) (\<lambda>s.
          if e < l then insert_run inventory i (e + 1) l s else Inr s)))) = Inr s'"
      unfolding s retain_repetition_element_def Let_def prod.case known ok_or_Some bind_result_Inr
      by (simp only: if_False bind_result_eq_Inr [of "ok_or _ _"] ok_or_eq_Inr) blast
    obtain f l where x: "x = (f, l)" by (cases x)
    from rest obtain s1 s2 where valid: "validate_count ?r (Suc (retained_count ?v)) = Inr ()"
      and s1: "remove_active_deletion inventory i f l (update_repetition i (?v\<lparr>active_runs := remove_entry f (active_runs ?v),
          retained_elements := ?flags[e := True], retained_count := Suc (retained_count ?v)\<rparr>) st, D, W) = Inr s1"
      and s2: "(if f < e then insert_run inventory i f (e - 1) s1 else Inr s1) = Inr s2"
      and s3: "(if e < l then insert_run inventory i (e + 1) l s2 else Inr s2) = Inr s'"
      unfolding x prod.case bind_result_eq_Inr by (simp split del: if_split del: split_paired_Ex) blast
    define V where "V = (\<lambda>m. ?v\<lparr>active_runs := m, retained_elements := ?flags[e := True],
      retained_count := Suc (retained_count ?v)\<rparr>)"
    have V: "(V m)\<lparr>active_runs := m'\<rparr> = V m'" "active_runs (V m) = m" for m m'
      by (cases ?v; simp add: V_def)+
    let ?m1 = "remove_entry f (active_runs ?v)"
    have s1: "remove_active_deletion inventory i f l (update_repetition i (V ?m1) st, D, W) = Inr s1"
      using s1 by (simp add: V_def)
    let ?s0 = "(update_repetition i (V ?m1) st, D, W)" and ?R = "runs_at st"
    have "map_of (active_runs ?v) f = Some l" "f < Suc e" "e \<le> l"
      using sel by (auto simp: x greatest_below_Some split: option.splits)
    then have run: "maximal_run ?flags (f, l)" "f \<le> e" "e \<le> l" by (simp_all add: runs runs_of_map_of)
    have R: "?R i = Collect (maximal_run ?flags)" using i' by (simp add: runs_at_def runs runs_of_set)
    have c0: "index_consistent (fst ?s0)" "entries_match inventory (fst ?s0) ?R"
      using st by (simp_all add: update_repetition_index update_repetition_entries)
    have "(f, l) \<in> ?R i" using run R by simp
    from entries_remove [OF c0 this] s1 have s1': "index_step ?s0 s1"
      "entries_match inventory (fst s1) (?R(i := ?R i - {(f, l)}))" by auto
    have states1: "repetition_states (fst s1) = (repetition_states st)[i := V ?m1]"
      using index_step_states [OF s1'(1)] by (simp add: update_repetition_frame)
    have w1: "wave_step s s1"
      using wave_step_trans [OF update_repetition_step wave_step_index [OF s1'(1)]] st(1) by (simp add: s)
    let ?m2 = "if f < e then entry_update f (\<lambda>_. e - 1) ?m1 else ?m1"
    let ?R2 = "?R(i := ?R i - {(f, l)} \<union> (if f < e then {(f, e - 1)} else {}))"
    have "wave_step s1 s2 \<and> entries_match inventory (fst s2) ?R2
      \<and> repetition_states (fst s2) = (repetition_states st)[i := V ?m2]"
    proof (cases "f < e")
      case True
      then have "insert_run inventory i f (e - 1) s1 = Inr s2" using s2 by simp
      from insert_run_step [OF wave_step_consistent [OF w1] s1'(2) this] True show ?thesis
        using i' by (simp add: states1 V)
    next
      case False
      then show ?thesis using s2 s1' states1 wave_step_refl [OF wave_step_consistent [OF w1]] by simp
    qed
    then have w2: "wave_step s1 s2" and m2: "entries_match inventory (fst s2) ?R2"
      and states2: "repetition_states (fst s2) = (repetition_states st)[i := V ?m2]" by blast+
    let ?m3 = "if e < l then entry_update (Suc e) (\<lambda>_. l) ?m2 else ?m2"
    let ?R3 = "?R(i := ?R i - {(f, l)} \<union> (if f < e then {(f, e - 1)} else {}) \<union> (if e < l then {(e + 1, l)} else {}))"
    have "wave_step s2 s' \<and> entries_match inventory (fst s') ?R3
      \<and> repetition_states (fst s') = (repetition_states st)[i := V ?m3]"
    proof (cases "e < l")
      case True
      then have "insert_run inventory i (Suc e) l s2 = Inr s'" using s3 by simp
      from insert_run_step [OF wave_step_consistent [OF w2] m2 this] True show ?thesis
        using i' by (simp add: states2 V)
    next
      case False
      then show ?thesis using s3 m2 states2 wave_step_refl [OF wave_step_consistent [OF w2]] by simp
    qed
    then have w3: "wave_step s2 s'" and m3: "entries_match inventory (fst s') ?R3"
      and states3: "repetition_states (fst s') = (repetition_states st)[i := V ?m3]" by blast+
    have R3: "?R3 = ?R(i := Collect (maximal_run (?flags[e := True])))"
      unfolding maximal_runs_retain [OF run] R ..
    have ordered: "ordered_keys ?m3"
      by (simp add: runs runs_of_ordered remove_entry_ordered entry_update_ordered)
    have "set ?m3 = Collect (maximal_run (?flags[e := True]))"
    proof (rule set_eqI)
      fix x :: "nat \<times> nat"
      obtain j w where x: "x = (j, w)" by (cases x)
      have m: "map_of (active_runs ?v) j = Some w \<longleftrightarrow> maximal_run ?flags (j, w)" for j w
        by (simp add: runs runs_of_map_of)
      have start: "w = l" if "maximal_run ?flags (f, w)" for w
        using maximal_run_unique [OF that run(1), of f] that run by (auto simp: maximal_run_def)
      have inside: "\<not> maximal_run ?flags (Suc e, w)" if "e < l" for w
        using maximal_run_unique [OF _ run(1), of "Suc e" w "Suc e"] that run by (auto simp: maximal_run_def)
      have "ordered_keys ?m1" by (simp add: runs runs_of_ordered remove_entry_ordered)
      then have "map_of ?m3 = (let A = (map_of (active_runs ?v))(f := None);
          B = (if f < e then A(f \<mapsto> e - 1) else A) in if e < l then B(Suc e \<mapsto> l) else B)"
        by (simp add: Let_def entry_update_map_of entry_update_ordered remove_entry_map_of)
      then have "map_of ?m3 j = Some w \<longleftrightarrow> (j, w) \<in> (Collect (maximal_run ?flags) - {(f, l)})
          \<union> (if f < e then {(f, e - 1)} else {}) \<union> (if e < l then {(e + 1, l)} else {})"
        using m [of j w] start [of w] inside [of w] run(2) by (auto simp: Let_def)
      then show "x \<in> set ?m3 \<longleftrightarrow> x \<in> Collect (maximal_run (?flags[e := True]))"
        unfolding x entry_set [OF ordered] maximal_runs_retain [OF run] .
    qed
    with ordered have runs3: "?m3 = runs_of (?flags[e := True])" by (rule runs_of_unique)
    let ?v3 = "V (runs_of (?flags[e := True]))"
    have states: "repetition_states (fst s') = (repetition_states st)[i := ?v3]"
      using states3 unfolding runs3 .
    have count3: "Suc (length (filter (\<lambda>b. b) ?flags)) = length (filter (\<lambda>b. b) (?flags[e := True]))"
      using unmarked_mark [OF e False] sum_length_filter_compl [of "\<lambda>b. b" ?flags]
        sum_length_filter_compl [of "\<lambda>b. b" "?flags[e := True]"] by (simp add: unmarked_def)
    have v3: "repetition_active ?v3" "retained_elements ?v3 = ?flags[e := True]" "repetition_consistent ?r ?v3"
      using active len valid count count3 by (simp_all add: V_def repetition_consistent_def s)
    have "list_all2 repetition_consistent (src_macro_repetitions inventory) (repetition_states (fst s'))"
      using list_all2_update_cong [OF st(2) v3(3), of i] unfolding states by (metis list_update_id)
    moreover have "entries_match inventory (fst s') (runs_at (fst s'))"
      using m3 unfolding R3 runs_at_update [OF i' states] by (simp add: V runs_of_set)
    moreover have "wave_step s s'" using wave_step_trans [OF w1 wave_step_trans [OF w2 w3]] .
    ultimately show ?thesis
      using states v3 wave_step_consistent [of s s'] by (auto simp: deletions_consistent_def s)
  qed
qed

lemma index_step_refl: "index_consistent (fst s) \<Longrightarrow> index_step s s"
  by (cases s) (simp add: index_step_def)

lemma index_step_consistent: "index_step s s' \<Longrightarrow> index_consistent (fst s')"
  by (cases s; cases s') (simp add: index_step_def)

lemma insert_runs_step:
  assumes "index_consistent (fst s)" "entries_match inventory (fst s) R"
    and "fold_result (\<lambda>(f, l). insert_active_deletion inventory i f l) runs s = Inr s'"
  shows "index_step s s' \<and> entries_match inventory (fst s') (R(i := R i \<union> set runs))"
  using assms
proof (induction runs arbitrary: s R)
  case Nil
  then show ?case using index_step_refl by (auto simp: fun_upd_idem)
next
  case (Cons run runs)
  obtain f l where run: "run = (f, l)" by (cases run)
  from Cons.prems(3) obtain s1 where s1: "insert_active_deletion inventory i f l s = Inr s1"
    and rest: "fold_result (\<lambda>(f, l). insert_active_deletion inventory i f l) runs s1 = Inr s'"
    unfolding run by (simp add: bind_result_eq_Inr del: split_paired_Ex) blast
  note step = entries_insert [OF Cons.prems(1,2) s1]
  then have "index_consistent (fst s1)" using index_step_consistent by blast
  note last = Cons.IH [OF this conjunct2 [OF step] rest]
  have "index_step s s'" using index_step_trans [of s s1 s'] step last by simp
  moreover have "(R(i := insert (f, l) (R i)))(i := (R(i := insert (f, l) (R i))) i \<union> set runs)
      = R(i := R i \<union> set (run # runs))" by (simp add: run)
  ultimately show ?case using last by metis
qed

lemma activate_repetition_step:
  assumes c: "deletions_consistent inventory (fst s)" and i: "i < length (repetition_states (fst s))"
    and inactive: "\<not> repetition_active (repetition_states (fst s) ! i)"
    and r: "activate_repetition inventory i s = Inr s'"
  shows "wave_step s s' \<and> deletions_consistent inventory (fst s')
    \<and> (\<exists>v. repetition_states (fst s') = (repetition_states (fst s))[i := v] \<and> repetition_active v
        \<and> retained_elements v = map (\<lambda>e. known_retained (fst s) ! element_unit e) (rep_elements (src_macro_repetitions inventory ! i)))"
proof -
  obtain st D W where s: "s = (st, D, W)" by (cases s)
  let ?r = "src_macro_repetitions inventory ! i"
  let ?flags = "map (\<lambda>e. known_retained st ! element_unit e) (rep_elements ?r)"
  let ?v = "\<lparr>repetition_active = True, retained_elements = ?flags,
    retained_count = length (filter (\<lambda>b. b) ?flags), active_runs = runs_of ?flags\<rparr>"
  have st: "index_consistent st" "list_all2 repetition_consistent (src_macro_repetitions inventory) (repetition_states st)"
    "entries_match inventory st (runs_at st)"
    using c by (simp_all add: deletions_consistent_def s)
  have i': "i < length (repetition_states st)" using i by (simp add: s)
  then have "repetition_consistent ?r (repetition_states st ! i)" using list_all2_nthD2 [OF st(2)] by blast
  then have empty: "runs_at st i = {}" using inactive i' by (simp add: repetition_consistent_def runs_at_def s)
  have valid: "validate_count ?r (length (filter (\<lambda>b. b) ?flags)) = Inr ()"
    and fold: "fold_result (\<lambda>(f, l). insert_active_deletion inventory i f l) (runs_of ?flags) (update_repetition i ?v st, D, W) = Inr s'"
    using r by (auto simp: s activate_repetition_def from_retained_elements_def Let_def bind_result_eq_Inr)
  have "index_step (update_repetition i ?v st, D, W) s'
    \<and> entries_match inventory (fst s') ((runs_at st)(i := runs_at st i \<union> set (runs_of ?flags)))"
    by (rule insert_runs_step [OF _ _ fold]) (use st in \<open>simp_all add: update_repetition_index update_repetition_entries\<close>)
  then have step: "index_step (update_repetition i ?v st, D, W) s'"
    and entries: "entries_match inventory (fst s') ((runs_at st)(i := set (runs_of ?flags)))" by (simp_all add: empty)
  have states: "repetition_states (fst s') = (repetition_states st)[i := ?v]"
    using index_step_states [OF step] by (simp add: update_repetition_frame)
  have "repetition_consistent ?r ?v" using valid by (simp add: repetition_consistent_def)
  then have "list_all2 repetition_consistent (src_macro_repetitions inventory) (repetition_states (fst s'))"
    using list_all2_update_cong [OF st(2), of ?r ?v i] unfolding states by (metis list_update_id)
  moreover have "entries_match inventory (fst s') (runs_at (fst s'))"
    using entries unfolding runs_at_update [OF i' states] by simp
  moreover have "wave_step s s'"
    unfolding s by (rule wave_step_trans [OF update_repetition_step wave_step_index [OF step]]) (rule st(1))
  ultimately show ?thesis
    using states wave_step_consistent [of s s'] by (auto simp: deletions_consistent_def s)
qed

end
