(* ===== verification/Requirement_Waves.thy ===== *)
theory Requirement_Waves
  imports Requirement_Runs
begin

text \<open>
  The waves of \<open>MacroRepetitionTokenRequirements\<close>: which repetitions a unit is an input of, how a
  wave of retained units selects the repetitions it changes, and that afterwards the active
  repetitions are those with a retained parent, each with the runs of its elements that are not
  retained.
\<close>

section \<open>Inputs\<close>

definition inputs_for :: "source_inventory \<Rightarrow> source_unit_id \<Rightarrow> retention_input set" where
  "inputs_for inventory u =
     {ParentInput i | i. i < length (src_macro_repetitions inventory) \<and> rep_parent (src_macro_repetitions inventory ! i) = u}
     \<union> {ElementInput i e | i e. i < length (src_macro_repetitions inventory)
          \<and> e < length (rep_elements (src_macro_repetitions inventory ! i))
          \<and> element_unit (rep_elements (src_macro_repetitions inventory ! i) ! e) = u}"

definition inputs_exact :: "source_inventory \<Rightarrow> retention_input list list \<Rightarrow> bool" where
  "inputs_exact inventory inputs \<longleftrightarrow>
     length inputs = length (src_units inventory)
     \<and> (\<forall>u < length (src_units inventory). set (inputs ! u) = inputs_for inventory u)
     \<and> (\<forall>r \<in> set (src_macro_repetitions inventory). rep_parent r < length (src_units inventory)
          \<and> (\<forall>e \<in> set (rep_elements r). element_unit e < length (src_units inventory)))"

definition repetition_pairs :: "nat \<times> macro_repetition \<Rightarrow> (retention_input \<times> source_unit_id) list" where
  "repetition_pairs = (\<lambda>(i, r). (ParentInput i, rep_parent r)
     # map (\<lambda>(e, element). (ElementInput i e, element_unit element)) (enumerate 0 (rep_elements r)))"

lemma fold_result_concat: "fold_result (\<lambda>x. fold_result g (f x)) xs s = fold_result g (concat (map f xs)) s"
  by (induction xs arbitrary: s) (auto simp: fold_result_append intro!: bind_result_cong)

lemma fold_result_map: "fold_result g (map f xs) = fold_result (\<lambda>x. g (f x)) xs"
proof
  show "fold_result g (map f xs) s = fold_result (\<lambda>x. g (f x)) xs s" for s
    by (induction xs arbitrary: s) (auto intro!: bind_result_cong)
qed

lemma push_repetition_pairs: "push_repetition = (\<lambda>x. fold_result (\<lambda>(input, u). push_input input u) (repetition_pairs x))"
  by (auto simp: fun_eq_iff push_repetition_def repetition_pairs_def fold_result_map case_prod_beta')

lemma push_inputs:
  "fold_result (\<lambda>(input, u). push_input input u) ps inputs = Inr inputs' \<Longrightarrow>
     length inputs' = length inputs \<and> (\<forall>(input, u) \<in> set ps. u < length inputs)
     \<and> (\<forall>u < length inputs. set (inputs' ! u) = set (inputs ! u) \<union> {input. (input, u) \<in> set ps})"
proof (induction ps arbitrary: inputs)
  case (Cons p ps)
  obtain input u where p: "p = (input, u)" by (cases p)
  from Cons.prems obtain inputs1 where i1: "push_input input u inputs = Inr inputs1"
    and rest: "fold_result (\<lambda>(input, u). push_input input u) ps inputs1 = Inr inputs'"
    by (auto simp: p bind_result_eq_Inr)
  from i1 have u: "u < length inputs" "inputs1 = inputs[u := inputs ! u @ [input]]"
    by (auto simp: push_input_def bind_result_eq_Inr)
  from Cons.IH [OF rest] u show ?case by (auto simp: p nth_list_update)
qed simp

lemma repetition_pairs_all:
  "set (concat (map repetition_pairs (enumerate 0 rs))) =
     {(ParentInput i, rep_parent (rs ! i)) | i. i < length rs}
     \<union> {(ElementInput i e, element_unit (rep_elements (rs ! i) ! e)) | i e. i < length rs \<and> e < length (rep_elements (rs ! i))}"
  by (auto simp: repetition_pairs_def set_enumerate_nth image_iff)

lemma token_requirements_new_inputs:
  assumes "fold_result push_repetition (enumerate 0 (src_macro_repetitions inventory))
    (replicate (length (src_units inventory)) []) = Inr inputs"
  shows "inputs_exact inventory inputs"
proof -
  let ?rs = "src_macro_repetitions inventory" and ?ps = "concat (map repetition_pairs (enumerate 0 (src_macro_repetitions inventory)))"
  have "fold_result (\<lambda>(input, u). push_input input u) ?ps (replicate (length (src_units inventory)) []) = Inr inputs"
    using assms unfolding push_repetition_pairs fold_result_concat .
  note p = push_inputs [OF this]
  have "set (inputs ! u) = inputs_for inventory u" if "u < length (src_units inventory)" for u
  proof -
    have "set (inputs ! u) = {input. (input, u) \<in> set ?ps}" using p that by simp
    also have "\<dots> = inputs_for inventory u" unfolding repetition_pairs_all inputs_for_def by auto
    finally show ?thesis .
  qed
  moreover have "rep_parent r < length (src_units inventory) \<and> (\<forall>e \<in> set (rep_elements r). element_unit e < length (src_units inventory))"
    if r: "r \<in> set ?rs" for r
  proof -
    obtain i where i: "i < length ?rs" "r = ?rs ! i" using r unfolding in_set_conv_nth by blast
    have pairs: "(ParentInput i, rep_parent r) \<in> set ?ps"
      "e < length (rep_elements r) \<Longrightarrow> (ElementInput i e, element_unit (rep_elements r ! e)) \<in> set ?ps" for e
      using i unfolding repetition_pairs_all by auto
    have bound: "\<forall>x \<in> set ?ps. snd x < length (src_units inventory)"
      using p unfolding length_replicate by fastforce
    show ?thesis
    proof (intro conjI ballI)
      show "rep_parent r < length (src_units inventory)" using bspec [OF bound pairs(1)] by simp
      fix e
      assume "e \<in> set (rep_elements r)"
      then obtain k where "k < length (rep_elements r)" "e = rep_elements r ! k" by (metis in_set_conv_nth)
      with bspec [OF bound pairs(2), of k] show "element_unit e < length (src_units inventory)" by simp
    qed
  qed
  ultimately show ?thesis using p by (simp add: inputs_exact_def)
qed

section \<open>The changed repetitions\<close>

fun input_repetition :: "retention_input \<Rightarrow> nat" where
  "input_repetition (ParentInput i) = i"
| "input_repetition (ElementInput i e) = i"

fun input_elements :: "retention_input \<Rightarrow> nat set" where
  "input_elements (ParentInput i) = {}"
| "input_elements (ElementInput i e) = {e}"

lemma note_input_entry: "note_input input = entry_update (input_repetition input) (extend_entry input_elements input)"
  by (cases input) (auto simp: note_input_def extend_entry_def insert_member_def fun_eq_iff intro!: arg_cong2 [where f = "\<lambda>f. entry_update _ f"] split: option.splits)

definition known_units :: "token_requirements \<Rightarrow> source_unit_id set" where
  "known_units st = {u. u < length (known_retained st) \<and> known_retained st ! u}"

lemma note_units:
  "fold_result (note_unit inputs retained) us (known, changed) = Inr (known', changed') \<Longrightarrow>
     length known' = length known \<and> set us \<subseteq> retained \<and> (\<forall>u \<in> set us. u < length known \<and> \<not> known ! u)
     \<and> (\<forall>u < length known. known' ! u \<longleftrightarrow> known ! u \<or> u \<in> set us)
     \<and> changed' = fold (\<lambda>input. entry_update (input_repetition input) (extend_entry input_elements input))
         (concat (map ((!) inputs) us)) changed"
proof (induction us arbitrary: known changed)
  case (Cons u us)
  from Cons.prems have u: "u \<in> retained" "u < length known" "\<not> known ! u"
    and rest: "fold_result (note_unit inputs retained) us (known[u := True], fold note_input (inputs ! u) changed) = Inr (known', changed')"
    by (auto simp: note_unit_def [of inputs retained u] split: if_splits)
  note IH = Cons.IH [OF rest]
  have "\<forall>v \<in> set us. v < length known \<and> \<not> known ! v"
  proof
    fix v
    assume "v \<in> set us"
    then have "v < length known" "\<not> known[u := True] ! v" using IH by auto
    then show "v < length known \<and> \<not> known ! v" using u(2) by (metis nth_list_update_eq nth_list_update_neq)
  qed
  moreover have "\<forall>v < length known. known' ! v \<longleftrightarrow> known ! v \<or> v \<in> set (u # us)"
    using IH u by (auto simp: nth_list_update)
  moreover have "fold note_input xs m = fold (\<lambda>input. entry_update (input_repetition input) (extend_entry input_elements input)) xs m" for xs m
    by (induction xs arbitrary: m) (simp_all add: note_input_entry)
  ultimately show ?case using IH u by simp
qed simp

definition newly_elements :: "source_inventory \<Rightarrow> source_unit_id set \<Rightarrow> nat \<Rightarrow> nat set" where
  "newly_elements inventory newly i =
     {e. e < length (rep_elements (src_macro_repetitions inventory ! i))
        \<and> element_unit (rep_elements (src_macro_repetitions inventory ! i) ! e) \<in> newly}"

lemma newly_elements_finite [simp]: "finite (newly_elements inventory newly i)"
  by (simp add: newly_elements_def)

lemma listed_elements:
  "\<Union> (input_elements ` set (filter (\<lambda>x. input_repetition x = i) xs)) = {e. ElementInput i e \<in> set xs}"
proof (induction xs)
  case (Cons x xs)
  then show ?case by (cases x) auto
qed simp

lemma changed_repetitions:
  assumes inputs: "inputs_exact inventory inputs" and us: "\<forall>u \<in> set us. u < length (src_units inventory)"
    and changed: "changed = group_entries input_repetition (extend_entry input_elements) (concat (map ((!) inputs) us))"
  shows "ordered_keys changed"
    and "(i, E) \<in> set changed \<Longrightarrow> i < length (src_macro_repetitions inventory) \<and> E = newly_elements inventory (set us) i"
    and "i < length (src_macro_repetitions inventory) \<Longrightarrow> i \<notin> fst ` set changed \<Longrightarrow>
      rep_parent (src_macro_repetitions inventory ! i) \<notin> set us \<and> newly_elements inventory (set us) i = {}"
proof -
  let ?xs = "concat (map ((!) inputs) us)"
  show ordered: "ordered_keys changed" unfolding changed by (rule group_entries_ordered)
  have xs: "set ?xs = (\<Union>u \<in> set us. inputs_for inventory u)"
    using inputs us by (auto simp: inputs_exact_def)
  have elements: "\<Union> (input_elements ` set (filter (\<lambda>x. input_repetition x = i) ?xs)) = newly_elements inventory (set us) i"
    if "i < length (src_macro_repetitions inventory)" for i
    unfolding listed_elements xs using that by (auto simp: inputs_for_def newly_elements_def)
  have keys: "fst ` set changed = input_repetition ` set ?xs" unfolding changed by (rule group_entries_keys)
  show "i < length (src_macro_repetitions inventory) \<and> E = newly_elements inventory (set us) i" if "(i, E) \<in> set changed"
  proof
    have "i \<in> input_repetition ` set ?xs" using that keys by (metis fst_conv image_eqI)
    then show i: "i < length (src_macro_repetitions inventory)" unfolding xs by (auto simp: inputs_for_def)
    have "map_of changed i = Some E" using that entry_set [OF ordered] by simp
    then show "E = newly_elements inventory (set us) i"
      unfolding changed group_entries_map_of fold_extend using elements [OF i] by (simp del: set_concat split: if_splits)
  qed
  show "rep_parent (src_macro_repetitions inventory ! i) \<notin> set us \<and> newly_elements inventory (set us) i = {}"
    if i: "i < length (src_macro_repetitions inventory)" and out: "i \<notin> fst ` set changed"
  proof
    have none: "x \<notin> set ?xs" if "input_repetition x = i" for x using out keys that by blast
    show "rep_parent (src_macro_repetitions inventory ! i) \<notin> set us"
      using none [of "ParentInput i"] i unfolding xs by (auto simp: inputs_for_def)
    show "newly_elements inventory (set us) i = {}"
      using none elements [OF i] by (auto simp del: set_concat)
  qed
qed

section \<open>The repetitions a wave changes\<close>

abbreviation is_active :: "token_requirements \<Rightarrow> nat \<Rightarrow> bool" where
  "is_active st i \<equiv> repetition_active (repetition_states st ! i)"

abbreviation element_flags :: "token_requirements \<Rightarrow> nat \<Rightarrow> bool list" where
  "element_flags st i \<equiv> retained_elements (repetition_states st ! i)"

lemma deletions_consistent_length:
  "deletions_consistent inventory st \<Longrightarrow> length (repetition_states st) = length (src_macro_repetitions inventory)"
  by (auto simp: deletions_consistent_def dest: list_all2_lengthD)

lemma deletions_consistent_flags:
  "deletions_consistent inventory st \<Longrightarrow> i < length (src_macro_repetitions inventory) \<Longrightarrow>
     length (element_flags st i) = length (rep_elements (src_macro_repetitions inventory ! i))"
  unfolding deletions_consistent_def repetition_consistent_def by (auto dest: list_all2_nthD)

text \<open>Retaining elements of one active repetition.\<close>

lemma retain_elements_step:
  assumes "deletions_consistent inventory (fst s)" "i < length (src_macro_repetitions inventory)" "is_active (fst s) i"
    and "fold_result (retain_repetition_element inventory i) es s = Inr s'"
  shows "wave_step s s' \<and> deletions_consistent inventory (fst s')
    \<and> (\<forall>k < length (src_macro_repetitions inventory).
         is_active (fst s') k = is_active (fst s) k
         \<and> (\<forall>e < length (element_flags (fst s) k). element_flags (fst s') k ! e \<longleftrightarrow> element_flags (fst s) k ! e \<or> k = i \<and> e \<in> set es))"
  using assms
proof (induction es arbitrary: s)
  case Nil
  then show ?case using wave_step_refl by (auto simp: deletions_consistent_def)
next
  case (Cons e es)
  from Cons.prems(4) obtain s1 where s1: "retain_repetition_element inventory i e s = Inr s1"
    and rest: "fold_result (retain_repetition_element inventory i) es s1 = Inr s'"
    by (simp add: bind_result_eq_Inr del: split_paired_Ex) blast
  have len: "length (repetition_states (fst s)) = length (src_macro_repetitions inventory)"
    by (rule deletions_consistent_length [OF Cons.prems(1)])
  then have "i < length (repetition_states (fst s))" using Cons.prems(2) by simp
  from retain_repetition_element_step [OF Cons.prems(1) this Cons.prems(3) s1] obtain v where
    w: "wave_step s s1" and c: "deletions_consistent inventory (fst s1)"
    and v: "repetition_states (fst s1) = (repetition_states (fst s))[i := v]" "repetition_active v"
      "retained_elements v = (element_flags (fst s) i)[e := True]" by blast
  have "is_active (fst s1) i" using v Cons.prems(2) len by simp
  note IH = Cons.IH [OF c Cons.prems(2) this rest]
  have "is_active (fst s1) k = is_active (fst s) k
      \<and> (\<forall>j < length (element_flags (fst s) k). element_flags (fst s1) k ! j \<longleftrightarrow> element_flags (fst s) k ! j \<or> k = i \<and> j = e)
      \<and> length (element_flags (fst s1) k) = length (element_flags (fst s) k)"
    if "k < length (src_macro_repetitions inventory)" for k
  proof -
    have "xs[e := True] ! j \<longleftrightarrow> xs ! j \<or> j = e" if "j < length xs" for xs :: "bool list" and j
      using that by (cases "j = e") simp_all
    then show ?thesis using that v Cons.prems(3) len by (cases "k = i") simp_all
  qed
  with IH wave_step_trans [OF w] show ?case by auto
qed

definition pending_elements :: "(nat \<times> nat set) list \<Rightarrow> nat \<Rightarrow> nat set" where
  "pending_elements changed i = \<Union> {E. (i, E) \<in> set changed}"

lemma retain_changed_step:
  assumes "deletions_consistent inventory (fst s)"
    and "\<forall>(i, E) \<in> set changed. i < length (src_macro_repetitions inventory) \<and> finite E"
    and "fold_result (retain_changed inventory) changed s = Inr s'"
  shows "wave_step s s' \<and> deletions_consistent inventory (fst s')
    \<and> (\<forall>k < length (src_macro_repetitions inventory).
         is_active (fst s') k = is_active (fst s) k
         \<and> (\<forall>e < length (element_flags (fst s) k).
              element_flags (fst s') k ! e \<longleftrightarrow> element_flags (fst s) k ! e \<or> is_active (fst s) k \<and> e \<in> pending_elements changed k))"
  using assms
proof (induction changed arbitrary: s)
  case Nil
  then show ?case using wave_step_refl by (auto simp: deletions_consistent_def pending_elements_def)
next
  case (Cons x changed)
  obtain i E where x: "x = (i, E)" by (cases x)
  from Cons.prems(3) obtain s1 where s1: "retain_changed inventory (i, E) s = Inr s1"
    and rest: "fold_result (retain_changed inventory) changed s1 = Inr s'"
    by (simp add: x bind_result_eq_Inr del: split_paired_Ex) blast
  have i: "i < length (src_macro_repetitions inventory)" "finite E" using Cons.prems(2) by (auto simp: x)
  have one: "wave_step s s1 \<and> deletions_consistent inventory (fst s1)
    \<and> (\<forall>k < length (src_macro_repetitions inventory).
         is_active (fst s1) k = is_active (fst s) k
         \<and> (\<forall>e < length (element_flags (fst s) k).
              element_flags (fst s1) k ! e \<longleftrightarrow> element_flags (fst s) k ! e \<or> is_active (fst s) k \<and> k = i \<and> e \<in> E))"
  proof (cases "is_active (fst s) i")
    case True
    then have "fold_result (retain_repetition_element inventory i) (sorted_list_of_set E) s = Inr s1"
      using s1 by (simp add: retain_changed_def)
    from retain_elements_step [OF Cons.prems(1) i(1) True this] i(2) True show ?thesis by auto
  next
    case False
    then have "s1 = s" using s1 by (simp add: retain_changed_def)
    then show ?thesis using Cons.prems(1) wave_step_refl False by (auto simp: deletions_consistent_def)
  qed
  then have c: "deletions_consistent inventory (fst s1)" by blast
  have "\<forall>(i, E) \<in> set changed. i < length (src_macro_repetitions inventory) \<and> finite E" using Cons.prems(2) by auto
  note IH = Cons.IH [OF c this rest]
  have lens: "length (element_flags (fst s1) k) = length (element_flags (fst s) k)" if "k < length (src_macro_repetitions inventory)" for k
    using deletions_consistent_flags [OF c that] deletions_consistent_flags [OF Cons.prems(1) that] by simp
  have pend: "pending_elements (x # changed) k = (if k = i then E else {}) \<union> pending_elements changed k" for k
    by (auto simp: pending_elements_def x)
  have "wave_step s s'" using wave_step_trans [of s s1 s'] one IH by blast
  moreover have "is_active (fst s') k = is_active (fst s) k
      \<and> (\<forall>e < length (element_flags (fst s) k).
           element_flags (fst s') k ! e \<longleftrightarrow> element_flags (fst s) k ! e \<or> is_active (fst s) k \<and> e \<in> pending_elements (x # changed) k)"
    if k: "k < length (src_macro_repetitions inventory)" for k
  proof -
    have a: "is_active (fst s1) k = is_active (fst s) k" "is_active (fst s') k = is_active (fst s1) k" using one IH k by blast+
    have "element_flags (fst s') k ! e \<longleftrightarrow> element_flags (fst s) k ! e \<or> is_active (fst s) k \<and> e \<in> pending_elements (x # changed) k"
      if e: "e < length (element_flags (fst s) k)" for e
    proof -
      have "element_flags (fst s') k ! e \<longleftrightarrow> element_flags (fst s1) k ! e \<or> is_active (fst s1) k \<and> e \<in> pending_elements changed k"
        using IH k e lens [OF k] by auto
      moreover have "element_flags (fst s1) k ! e \<longleftrightarrow> element_flags (fst s) k ! e \<or> is_active (fst s) k \<and> k = i \<and> e \<in> E"
        using one k e by auto
      ultimately show ?thesis using a(1) pend [of k] by auto
    qed
    with a show ?thesis by blast
  qed
  ultimately show ?case using IH by blast
qed

text \<open>Activating the repetitions whose parent is retained now.\<close>

lemma activate_changed_step:
  assumes "deletions_consistent inventory (fst s)"
    and "\<forall>(i, E) \<in> set changed. i < length (src_macro_repetitions inventory)"
    and "fold_result (activate_changed inventory) changed s = Inr s'"
  shows "wave_step s s' \<and> deletions_consistent inventory (fst s')
    \<and> (\<forall>k < length (src_macro_repetitions inventory).
         (is_active (fst s') k \<longleftrightarrow> is_active (fst s) k
           \<or> k \<in> fst ` set changed \<and> known_retained (fst s) ! rep_parent (src_macro_repetitions inventory ! k))
         \<and> (is_active (fst s) k \<longrightarrow> element_flags (fst s') k = element_flags (fst s) k)
         \<and> (is_active (fst s') k \<and> \<not> is_active (fst s) k \<longrightarrow>
             element_flags (fst s') k = map (\<lambda>e. known_retained (fst s) ! element_unit e) (rep_elements (src_macro_repetitions inventory ! k))))"
  using assms
proof (induction changed arbitrary: s)
  case Nil
  then show ?case using wave_step_refl by (auto simp: deletions_consistent_def)
next
  case (Cons x changed)
  obtain i E where x: "x = (i, E)" by (cases x)
  let ?known = "known_retained (fst s)" and ?rs = "src_macro_repetitions inventory"
  let ?now = "\<lambda>k. map (\<lambda>e. ?known ! element_unit e) (rep_elements (?rs ! k))"
  from Cons.prems(3) obtain s1 where s1: "activate_changed inventory (i, E) s = Inr s1"
    and rest: "fold_result (activate_changed inventory) changed s1 = Inr s'"
    by (simp add: x bind_result_eq_Inr del: split_paired_Ex) blast
  have i: "i < length ?rs" using Cons.prems(2) by (auto simp: x)
  have len: "length (repetition_states (fst s)) = length ?rs" by (rule deletions_consistent_length [OF Cons.prems(1)])
  have one: "wave_step s s1 \<and> deletions_consistent inventory (fst s1)
    \<and> (\<forall>k < length ?rs. (is_active (fst s1) k \<longleftrightarrow> is_active (fst s) k \<or> k = i \<and> ?known ! rep_parent (?rs ! k))
         \<and> (is_active (fst s) k \<longrightarrow> element_flags (fst s1) k = element_flags (fst s) k)
         \<and> (is_active (fst s1) k \<and> \<not> is_active (fst s) k \<longrightarrow> element_flags (fst s1) k = ?now k))"
  proof (cases "\<not> is_active (fst s) i \<and> ?known ! rep_parent (?rs ! i)")
    case True
    then have "activate_repetition inventory i s = Inr s1" using s1 by (simp add: activate_changed_def)
    from activate_repetition_step [OF Cons.prems(1) _ _ this] True i len obtain v where
      w: "wave_step s s1" and c: "deletions_consistent inventory (fst s1)"
      and v: "repetition_states (fst s1) = (repetition_states (fst s))[i := v]" "repetition_active v" "retained_elements v = ?now i"
      by auto
    have "repetition_states (fst s1) ! k = (if k = i then v else repetition_states (fst s) ! k)" if "k < length ?rs" for k
      using v(1) that len by (simp add: nth_list_update)
    then show ?thesis using w c v(2,3) True by auto
  next
    case False
    then have "s1 = s" using s1 by (auto simp: activate_changed_def split: if_splits)
    then show ?thesis using Cons.prems(1) wave_step_refl False by (auto simp: deletions_consistent_def)
  qed
  then have c: "deletions_consistent inventory (fst s1)" and w: "wave_step s s1" by blast+
  have known: "known_retained (fst s1) = ?known" using wave_step_core [OF w] by (simp add: same_core_def)
  have "\<forall>(i, E) \<in> set changed. i < length ?rs" using Cons.prems(2) by auto
  note IH = Cons.IH [OF c this rest, unfolded known]
  have "wave_step s s'" using wave_step_trans [OF w] IH by blast
  moreover have "(is_active (fst s') k \<longleftrightarrow> is_active (fst s) k \<or> k \<in> fst ` set (x # changed) \<and> ?known ! rep_parent (?rs ! k))
      \<and> (is_active (fst s) k \<longrightarrow> element_flags (fst s') k = element_flags (fst s) k)
      \<and> (is_active (fst s') k \<and> \<not> is_active (fst s) k \<longrightarrow> element_flags (fst s') k = ?now k)"
    if k: "k < length ?rs" for k
  proof -
    from one k have o: "is_active (fst s1) k \<longleftrightarrow> is_active (fst s) k \<or> k = i \<and> ?known ! rep_parent (?rs ! k)"
      "is_active (fst s) k \<Longrightarrow> element_flags (fst s1) k = element_flags (fst s) k"
      "is_active (fst s1) k \<Longrightarrow> \<not> is_active (fst s) k \<Longrightarrow> element_flags (fst s1) k = ?now k" by blast+
    from IH k have h: "is_active (fst s') k \<longleftrightarrow> is_active (fst s1) k \<or> k \<in> fst ` set changed \<and> ?known ! rep_parent (?rs ! k)"
      "is_active (fst s1) k \<Longrightarrow> element_flags (fst s') k = element_flags (fst s1) k"
      "is_active (fst s') k \<Longrightarrow> \<not> is_active (fst s1) k \<Longrightarrow> element_flags (fst s') k = ?now k" by blast+
    have "k \<in> fst ` set (x # changed) \<longleftrightarrow> k = i \<or> k \<in> fst ` set changed" by (simp add: x)
    with o h show ?thesis by metis
  qed
  ultimately show ?case using IH by blast
qed

section \<open>One wave\<close>

definition tracks_known :: "source_inventory \<Rightarrow> token_requirements \<Rightarrow> bool" where
  "tracks_known inventory st \<longleftrightarrow>
     deletions_consistent inventory st \<and> inputs_exact inventory (inputs_by_unit st)
     \<and> length (known_retained st) = length (src_units inventory)
     \<and> (\<forall>i < length (src_macro_repetitions inventory).
          (is_active st i \<longleftrightarrow> known_retained st ! rep_parent (src_macro_repetitions inventory ! i))
          \<and> (is_active st i \<longrightarrow> element_flags st i =
               map (\<lambda>e. known_retained st ! element_unit e) (rep_elements (src_macro_repetitions inventory ! i))))"

lemma tracks_knownD:
  assumes "tracks_known inventory st"
  shows "deletions_consistent inventory st" "inputs_exact inventory (inputs_by_unit st)"
    "length (known_retained st) = length (src_units inventory)"
    "i < length (src_macro_repetitions inventory) \<Longrightarrow>
       is_active st i \<longleftrightarrow> known_retained st ! rep_parent (src_macro_repetitions inventory ! i)"
    "i < length (src_macro_repetitions inventory) \<Longrightarrow> is_active st i \<Longrightarrow> element_flags st i =
       map (\<lambda>e. known_retained st ! element_unit e) (rep_elements (src_macro_repetitions inventory ! i))"
  using assms by (simp_all add: tracks_known_def)

lemma update_deletions_step:
  assumes t: "tracks_known inventory st" and r: "update_deletions inventory retained newly st = Inr s'"
  shows "tracks_known inventory (fst s') \<and> known_units (fst s') = known_units st \<union> set newly
    \<and> set newly \<subseteq> retained \<and> known_units st \<inter> set newly = {} \<and> finite (fst (snd s')) \<and> finite (snd (snd s'))
    \<and> tracked active_component (actives st) (actives (fst s')) (fst (snd s'))
    \<and> tracked active_window (actives st) (actives (fst s')) (snd (snd s'))
    \<and> req_guard (fst s') = req_guard st \<and> pending_retained (fst s') = pending_retained st"
proof -
  let ?rs = "src_macro_repetitions inventory" and ?units = "src_units inventory"
  note c = tracks_knownD(1) [OF t] and inputs = tracks_knownD(2) [OF t] and len = tracks_knownD(3) [OF t]
  from r obtain known changed s1 where
    n: "fold_result (note_unit (inputs_by_unit st) retained) (rev newly) (known_retained st, []) = Inr (known, changed)"
    and s1: "fold_result (retain_changed inventory) changed (st\<lparr>known_retained := known\<rparr>, {}, {}) = Inr s1"
    and s2: "fold_result (activate_changed inventory) changed s1 = Inr s'"
    unfolding update_deletions_def by (simp add: bind_result_eq_Inr split_paired_Ex) blast
  note note_units = note_units [OF n]
  have known: "known ! u \<longleftrightarrow> known_retained st ! u \<or> u \<in> set newly" if "u < length ?units" for u
    using note_units that len by simp
  have new: "\<forall>u \<in> set (rev newly). u < length ?units" using note_units len by simp
  have "changed = group_entries input_repetition (extend_entry input_elements) (concat (map ((!) (inputs_by_unit st)) (rev newly)))"
    using note_units by (simp only: group_entries_def)
  note changed = changed_repetitions [OF inputs new this, unfolded set_rev]
  let ?s0 = "(st\<lparr>known_retained := known\<rparr>, {}, {})"
  have "component_at (st\<lparr>known_retained := known\<rparr>) = component_at st"
      "runs_at (st\<lparr>known_retained := known\<rparr>) = runs_at st"
      "dependency_window (st\<lparr>known_retained := known\<rparr>) = dependency_window st"
    by (simp_all add: component_at_def runs_at_def dependency_window_def fun_eq_iff)
  then have c0: "deletions_consistent inventory (fst ?s0)"
    using c by (simp add: deletions_consistent_def index_consistent_def entries_match_def)
  have "\<forall>(i, E) \<in> set changed. i < length ?rs \<and> finite E"
    using changed(2) newly_elements_finite by blast
  from retain_changed_step [OF c0 this s1] have
    w1: "wave_step ?s0 s1" and c1: "deletions_consistent inventory (fst s1)"
    and k1: "\<And>k. k < length ?rs \<Longrightarrow> is_active (fst s1) k = is_active st k"
      "\<And>k e. k < length ?rs \<Longrightarrow> e < length (element_flags st k) \<Longrightarrow>
        element_flags (fst s1) k ! e \<longleftrightarrow> element_flags st k ! e \<or> is_active st k \<and> e \<in> pending_elements changed k"
    by auto
  have "\<forall>(i, E) \<in> set changed. i < length ?rs" using changed(2) by auto
  from activate_changed_step [OF c1 this s2] have w2: "wave_step s1 s'" and c2: "deletions_consistent inventory (fst s')"
    and k2: "\<And>k. k < length ?rs \<Longrightarrow> is_active (fst s') k \<longleftrightarrow> is_active (fst s1) k
        \<or> k \<in> fst ` set changed \<and> known_retained (fst s1) ! rep_parent (?rs ! k)"
      "\<And>k. k < length ?rs \<Longrightarrow> is_active (fst s1) k \<Longrightarrow> element_flags (fst s') k = element_flags (fst s1) k"
      "\<And>k. k < length ?rs \<Longrightarrow> is_active (fst s') k \<Longrightarrow> \<not> is_active (fst s1) k \<Longrightarrow>
        element_flags (fst s') k = map (\<lambda>e. known_retained (fst s1) ! element_unit e) (rep_elements (?rs ! k))"
    by auto
  have w: "wave_step ?s0 s'" by (rule wave_step_trans [OF w1 w2])
  have known': "known_retained (fst s1) = known" "known_retained (fst s') = known"
    using wave_step_core [OF w1] wave_step_core [OF w] by (simp_all add: same_core_def)
  have pend: "pending_elements changed k = newly_elements inventory (set newly) k" if "k < length ?rs" for k
  proof (cases "k \<in> fst ` set changed")
    case True
    then obtain E where "(k, E) \<in> set changed" by auto
    then show ?thesis using changed(2) by (fastforce simp: pending_elements_def)
  next
    case False
    then have "{E. (k, E) \<in> set changed} = {}" by force
    then show ?thesis using changed(3) [OF that False] by (simp add: pending_elements_def)
  qed
  have bounds: "rep_parent (?rs ! k) < length ?units" "e < length (rep_elements (?rs ! k)) \<Longrightarrow> element_unit (rep_elements (?rs ! k) ! e) < length ?units"
    if "k < length ?rs" for k e
    using inputs nth_mem [OF that] nth_mem [of e "rep_elements (?rs ! k)"] by (auto simp: inputs_exact_def)
  have "(is_active (fst s') k \<longleftrightarrow> known ! rep_parent (?rs ! k))
      \<and> (is_active (fst s') k \<longrightarrow> element_flags (fst s') k = map (\<lambda>e. known ! element_unit e) (rep_elements (?rs ! k)))"
    if k: "k < length ?rs" for k
  proof -
    have before: "is_active st k \<longleftrightarrow> known_retained st ! rep_parent (?rs ! k)" by (rule tracks_knownD(4) [OF t k])
    have flags: "element_flags (fst s1) k = map (\<lambda>e. known ! element_unit e) (rep_elements (?rs ! k))" if a: "is_active st k"
    proof (rule nth_equalityI)
      have l: "length (element_flags st k) = length (rep_elements (?rs ! k))" by (rule deletions_consistent_flags [OF c k])
      show len1: "length (element_flags (fst s1) k) = length (map (\<lambda>e. known ! element_unit e) (rep_elements (?rs ! k)))"
        using deletions_consistent_flags [OF c1 k] by simp
      fix e
      assume "e < length (element_flags (fst s1) k)"
      then have e: "e < length (rep_elements (?rs ! k))" using len1 by simp
      have "element_flags (fst s1) k ! e \<longleftrightarrow> element_flags st k ! e \<or> e \<in> newly_elements inventory (set newly) k"
        using k1(2) [OF k, of e] l e a pend [OF k] by simp
      also have "\<dots> \<longleftrightarrow> known ! element_unit (rep_elements (?rs ! k) ! e)"
        using tracks_knownD(5) [OF t k a] e known [OF bounds(2) [OF k e]] by (simp add: newly_elements_def)
      finally show "element_flags (fst s1) k ! e = map (\<lambda>e. known ! element_unit e) (rep_elements (?rs ! k)) ! e"
        using e by simp
    qed
    have "is_active (fst s') k \<longleftrightarrow> known ! rep_parent (?rs ! k)"
    proof (cases "k \<in> fst ` set changed")
      case True
      then show ?thesis using k2(1) [OF k] k1(1) [OF k] known' before known [OF bounds(1) [OF k]] by auto
    next
      case False
      then show ?thesis using k2(1) [OF k] k1(1) [OF k] before known [OF bounds(1) [OF k]] changed(3) [OF k False] by auto
    qed
    moreover have "element_flags (fst s') k = map (\<lambda>e. known ! element_unit e) (rep_elements (?rs ! k))" if "is_active (fst s') k"
      using k2(2,3) [OF k] k1(1) [OF k] flags that known' by (cases "is_active st k") simp_all
    ultimately show ?thesis by blast
  qed
  moreover have "inputs_by_unit (fst s') = inputs_by_unit st" "req_guard (fst s') = req_guard st"
      "pending_retained (fst s') = pending_retained st"
    using wave_step_core [OF w] by (simp_all add: same_core_def)
  moreover have "length known = length ?units" using note_units len by simp
  ultimately have tracks: "tracks_known inventory (fst s')" using c2 inputs known' by (simp add: tracks_known_def)
  have "known_units (fst s') = known_units st \<union> set newly"
    using note_units len by (auto simp: known_units_def known')
  moreover have "known_units st \<inter> set newly = {}" "set newly \<subseteq> retained"
    using note_units by (auto simp: known_units_def)
  ultimately show ?thesis
    using tracks w wave_step_core [OF w] by (cases s') (auto simp: wave_step_def same_core_def)
qed

end
