(* ===== verification/Requirement_Closure.thy ===== *)
theory Requirement_Closure
  imports Requirement_Waves
begin

text \<open>
  The fixed point of \<open>MacroRepetitionTokenRequirements\<close>: a component of neighbouring deletions and a
  cohort with one dependency window are tested alike (locale \<open>group_check\<close>), a test that fails
  forces the elements of the group, and after a wave that forces nothing every group passes.
\<close>

section \<open>Forced elements\<close>

definition run_elements :: "source_inventory \<Rightarrow> nat \<times> nat \<times> nat \<Rightarrow> source_unit_id set" where
  "run_elements inventory = (\<lambda>(i, f, l).
     element_unit ` set (drop f (take (l + 1) (rep_elements (src_macro_repetitions inventory ! i)))))"

definition filed_elements :: "source_inventory \<Rightarrow> (byte_range \<times> nat \<times> nat \<times> nat) set \<Rightarrow> source_unit_id set" where
  "filed_elements inventory entries = \<Union> (run_elements inventory ` snd ` entries)"

lemma filed_finite: "finite (dom A) \<Longrightarrow> finite (filed key A k)"
proof -
  assume "finite (dom A)"
  moreover have "filed key A k \<subseteq> (\<lambda>d. (d, active_repetition (the (A d)), active_first (the (A d)), active_final (the (A d)))) ` dom A"
    by (force simp: filed_def)
  ultimately show ?thesis using finite_surj by blast
qed

lemma filed_elements_finite: "finite F \<Longrightarrow> finite (filed_elements inventory F)"
  by (simp add: filed_elements_def run_elements_def case_prod_beta')

lemma deletion_elements_fold:
  "set ds \<subseteq> dom (actives st) \<Longrightarrow>
     fold_result (\<lambda>deletion elements.
       bind_result (ok_or (map_of (active_deletions st) deletion) RewriteInvalidInventory) (\<lambda>active.
         Inr (elements \<union> element_unit `
           set (drop (active_first active) (take (active_final active + 1)
             (rep_elements (src_macro_repetitions inventory ! active_repetition active)))))))
       ds E
     = Inr (E \<union> \<Union> ((\<lambda>d. run_elements inventory (active_repetition (the (actives st d)),
         active_first (the (actives st d)), active_final (the (actives st d)))) ` set ds))"
proof (induction ds arbitrary: E)
  case (Cons d ds)
  then obtain a where "actives st d = Some a" by auto
  with Cons show ?case by (simp add: run_elements_def Un_assoc)
qed simp

lemma deletion_elements_group:
  "deletion_elements inventory st (sorted_list_of_set (range_group key (actives st) k))
     = Inr (filed_elements inventory (filed key (actives st) k))"
proof -
  have fin: "finite (range_group key (actives st) k)" by (intro range_group_finite finite_dom_map_of)
  have sub: "set (sorted_list_of_set (range_group key (actives st) k)) \<subseteq> dom (actives st)"
    using fin by (auto simp: range_group_def)
  show ?thesis
    unfolding deletion_elements_def deletion_elements_fold [OF sub] filed_elements_def set_sorted_list_of_set [OF fin]
    by (force simp: range_group_def filed_def)
qed

text \<open>Forcing units adds those that are not retained yet to the end of the pending list.\<close>

definition forces :: "forced_units \<Rightarrow> source_unit_id set \<Rightarrow> forced_units \<Rightarrow> bool" where
  "forces = (\<lambda>(R, P) E (R', P'). R' = R \<union> E \<and> (\<exists>xs. P' = P @ xs \<and> set xs = E - R \<and> distinct xs))"

lemma forces_none: "forces s {} s"
  by (cases s) (simp add: forces_def)

lemma forces_trans: "forces s E t \<Longrightarrow> forces t F u \<Longrightarrow> forces s (E \<union> F) u"
  by (cases s; cases t; cases u) (fastforce simp: forces_def)

lemma force_units_forces:
  assumes "finite E"
  shows "forces s E (force_units E s)"
proof -
  have "forces s (set es) (fold (\<lambda>unit (retained, pending). if unit \<in> retained then (retained, pending)
      else (insert unit retained, pending @ [unit])) es s)" for es
  proof (induction es arbitrary: s)
    case Nil
    then show ?case by (simp add: forces_none)
  next
    case (Cons e es)
    let ?t = "(case s of (R, P) \<Rightarrow> if e \<in> R then (R, P) else (insert e R, P @ [e]))"
    have "forces s {e} ?t" by (cases s) (auto simp: forces_def)
    from forces_trans [OF this Cons.IH] show ?case by simp
  qed
  from this [of "sorted_list_of_set E"] assms show ?thesis by (simp add: force_units_def)
qed

section \<open>Testing the groups\<close>

text \<open>The elements of the failing ones among some groups, and the groups that pass or are retained whole.\<close>

definition failing_elements :: "(active_deletion \<Rightarrow> 'k) \<Rightarrow> (byte_range set \<Rightarrow> bool) \<Rightarrow> source_inventory
    \<Rightarrow> token_requirements \<Rightarrow> 'k set \<Rightarrow> source_unit_id set" where
  "failing_elements key passes inventory st ks =
     \<Union> ((\<lambda>k. filed_elements inventory (filed key (actives st) k))
       ` {k \<in> ks. range_group key (actives st) k \<noteq> {} \<and> \<not> passes (range_group key (actives st) k)})"

definition groups_checked :: "(active_deletion \<Rightarrow> 'k) \<Rightarrow> (byte_range set \<Rightarrow> bool) \<Rightarrow> source_inventory
    \<Rightarrow> token_requirements \<Rightarrow> source_unit_id set \<Rightarrow> bool" where
  "groups_checked key passes inventory st R \<longleftrightarrow>
     (\<forall>k. range_group key (actives st) k \<noteq> {} \<longrightarrow> passes (range_group key (actives st) k)
        \<or> filed_elements inventory (filed key (actives st) k) \<subseteq> R)"

locale group_check =
  fixes key :: "active_deletion \<Rightarrow> 'k"
    and passes :: "byte_range set \<Rightarrow> bool"
    and check :: "source_inventory \<Rightarrow> token_requirements \<Rightarrow> 'k \<Rightarrow> forced_units \<Rightarrow> source_rewrite_error + forced_units"
  assumes check: "index_consistent st \<Longrightarrow> check inventory st k s =
    Inr (if range_group key (actives st) k = {} \<or> passes (range_group key (actives st) k) then s
         else force_units (filed_elements inventory (filed key (actives st) k)) s)"
begin

lemma check_all:
  assumes "index_consistent st"
  shows "\<exists>t. fold_result (check inventory st) ks s = Inr t \<and> forces s (failing_elements key passes inventory st (set ks)) t"
proof (induction ks arbitrary: s)
  case Nil
  then show ?case by (simp add: failing_elements_def forces_none)
next
  case (Cons k ks)
  let ?bad = "range_group key (actives st) k \<noteq> {} \<and> \<not> passes (range_group key (actives st) k)"
  let ?E = "if ?bad then filed_elements inventory (filed key (actives st) k) else {}"
  let ?t = "if ?bad then force_units (filed_elements inventory (filed key (actives st) k)) s else s"
  have "check inventory st k s = Inr ?t" using check [OF assms] by simp
  moreover have "finite (filed_elements inventory (filed key (actives st) k))"
    by (intro filed_elements_finite filed_finite finite_dom_map_of)
  then have "forces s ?E ?t" using force_units_forces forces_none by simp
  moreover have "failing_elements key passes inventory st (set (k # ks)) = ?E \<union> failing_elements key passes inventory st (set ks)"
    by (auto simp: failing_elements_def)
  moreover obtain t where "fold_result (check inventory st) ks ?t = Inr t"
      "forces ?t (failing_elements key passes inventory st (set ks)) t" using Cons.IH [of ?t] by blast
  ultimately have "fold_result (check inventory st) (k # ks) s = Inr t"
      "forces s (failing_elements key passes inventory st (set (k # ks))) t"
    using forces_trans [of s ?E ?t _ t] by simp_all
  then show ?case by blast
qed

text \<open>
  The groups a wave did not mark passed before: a group that failed has only retained elements, and
  deletions hold elements that are not.
\<close>

lemma checked_step:
  assumes old: "groups_checked key passes inventory st R" and track: "tracked key (actives st) (actives st') ks" and "R \<subseteq> K"
    and open_group: "\<And>k. filed key (actives st') k \<noteq> {} \<Longrightarrow> \<not> filed_elements inventory (filed key (actives st') k) \<subseteq> K"
  shows "groups_checked key passes inventory st' (K \<union> failing_elements key passes inventory st' ks)"
  unfolding groups_checked_def
proof (intro allI impI)
  fix k
  assume g: "range_group key (actives st') k \<noteq> {}"
  show "passes (range_group key (actives st') k)
    \<or> filed_elements inventory (filed key (actives st') k) \<subseteq> K \<union> failing_elements key passes inventory st' ks"
  proof (cases "k \<in> ks")
    case True
    then show ?thesis using g by (auto simp: failing_elements_def)
  next
    case False
    have "filed key (actives st') k \<noteq> {}" using g by (simp add: filed_empty)
    moreover from this have same: "filed key (actives st') k = filed key (actives st) k"
      using track False by (auto simp: tracked_def)
    moreover have "range_group key (actives st) k = range_group key (actives st') k"
      using same by (metis filed_group)
    moreover have "\<not> filed_elements inventory (filed key (actives st) k) \<subseteq> R"
      using open_group [of k] same \<open>filed key (actives st') k \<noteq> {}\<close> \<open>R \<subseteq> K\<close> by fastforce
    ultimately show ?thesis using old g unfolding groups_checked_def by metis
  qed
qed

lemma checked_settled:
  assumes "groups_checked key passes inventory st K" "range_group key (actives st) k \<noteq> {}"
    and "\<And>k. filed key (actives st) k \<noteq> {} \<Longrightarrow> \<not> filed_elements inventory (filed key (actives st) k) \<subseteq> K"
  shows "passes (range_group key (actives st) k)"
  using assms by (auto simp: groups_checked_def filed_empty)

end

section \<open>Components and cohorts\<close>

definition hull :: "byte_range set \<Rightarrow> byte_range" where
  "hull ds = ByteRange (br_start (Min ds)) (br_end (Max ds))"

interpretation components: group_check active_component
  "\<lambda>ds. deletion_preserves_identity tokenize glue guard (hull ds)" "check_component tokenize glue guard"
proof
  fix inventory st k s
  assume c: "index_consistent st"
  have at: "component_at st k = slot (range_group active_component (actives st) k)"
    using index_consistentD(3) [OF c] by (simp add: grouped_def)
  show "check_component tokenize glue guard inventory st k s =
    Inr (if range_group active_component (actives st) k = {}
          \<or> deletion_preserves_identity tokenize glue guard (hull (range_group active_component (actives st) k)) then s
         else force_units (filed_elements inventory (filed active_component (actives st) k)) s)"
    by (simp add: check_component_def component_range_def component_elements_def at slot_def hull_def deletion_elements_group)
qed

interpretation cohorts: group_check active_window
  "\<lambda>ds. deletions_preserve_identity tokenize glue guard (sorted_list_of_set ds)" "check_cohort tokenize glue guard"
proof
  fix inventory st k s
  assume c: "index_consistent st"
  have at: "map_of (lexical_cohorts st) k = slot (range_group active_window (actives st) k)"
    using index_consistentD(4) [OF c] by (simp add: grouped_def)
  show "check_cohort tokenize glue guard inventory st k s =
    Inr (if range_group active_window (actives st) k = {}
          \<or> deletions_preserve_identity tokenize glue guard (sorted_list_of_set (range_group active_window (actives st) k)) then s
         else force_units (filed_elements inventory (filed active_window (actives st) k)) s)"
    by (simp add: check_cohort_def at slot_def deletion_elements_group)
qed

section \<open>The invariant of the waves\<close>

definition requirements_invariant :: "lexer \<Rightarrow> glue \<Rightarrow> source_inventory \<Rightarrow> source_unit_id set \<Rightarrow> token_requirements \<Rightarrow> bool" where
  "requirements_invariant tokenize glue inventory R st \<longleftrightarrow>
     (case req_guard st of
        None \<Rightarrow> src_macro_repetitions inventory = [] \<and> active_deletions st = []
      | Some guard \<Rightarrow>
          token_rewrite_guard_new tokenize glue (src_original inventory) = Inr guard
          \<and> tracks_known inventory st
          \<and> groups_checked active_component (\<lambda>ds. deletion_preserves_identity tokenize glue guard (hull ds)) inventory st R
          \<and> groups_checked active_window (\<lambda>ds. deletions_preserve_identity tokenize glue guard (sorted_list_of_set ds)) inventory st R)
     \<and> distinct (pending_retained st)"

text \<open>Every group of active deletions has an element that is not retained.\<close>

lemma active_run:
  assumes "deletions_consistent inventory st" and "entry_facts (actives st) d = Some (i, f, l, w)"
  shows "i < length (src_macro_repetitions inventory) \<and> is_active st i \<and> maximal_run (element_flags st i) (f, l)
    \<and> run_range inventory i f l = Inr d \<and> dependency_window st d = Some w"
proof -
  have "(f, l) \<in> runs_at st i" and r: "run_range inventory i f l = Inr d" "dependency_window st d = Some w"
    using assms by (auto simp: deletions_consistent_def entries_match_def)
  then have i: "i < length (repetition_states st)" and run: "(f, l) \<in> set (active_runs (repetition_states st ! i))"
    by (auto simp: runs_at_def split: if_splits)
  have "repetition_consistent (src_macro_repetitions inventory ! i) (repetition_states st ! i)"
    using assms(1) i by (auto simp: deletions_consistent_def dest: list_all2_nthD2)
  with run show ?thesis
    using i r deletions_consistent_length [OF assms(1)] by (auto simp: repetition_consistent_def runs_of_set split: if_splits)
qed

lemma open_group:
  assumes t: "tracks_known inventory st" and ne: "filed key (actives st) k \<noteq> {}"
  shows "\<not> filed_elements inventory (filed key (actives st) k) \<subseteq> known_units st"
proof -
  from ne obtain d i f l where m: "(d, i, f, l) \<in> filed key (actives st) k" by auto
  then obtain a where "actives st d = Some a" "active_repetition a = i" "active_first a = f" "active_final a = l"
    by (auto simp: filed_member)
  then have "entry_facts (actives st) d = Some (i, f, l, active_window a)" by (simp add: entry_facts_def)
  note run = active_run [OF tracks_knownD(1) [OF t] this]
  let ?r = "src_macro_repetitions inventory ! i"
  have f: "f \<le> l" "l < length (rep_elements ?r)" "\<not> known_retained st ! element_unit (rep_elements ?r ! f)"
    using run tracks_knownD(5) [OF t, of i] by (auto simp: maximal_run_def)
  have "rep_elements ?r ! f \<in> set (drop f (take (l + 1) (rep_elements ?r)))"
    using f by (auto simp: in_set_conv_nth intro!: exI [of _ 0])
  then have "element_unit (rep_elements ?r ! f) \<in> filed_elements inventory (filed key (actives st) k)"
    using m by (force simp: filed_elements_def run_elements_def)
  with f(3) show ?thesis by (auto simp: known_units_def)
qed

lemma groups_checked_empty: "active_deletions st = [] \<Longrightarrow> groups_checked key passes inventory st R"
  by (simp add: groups_checked_def range_group_def)

lemma token_requirements_new_invariant:
  assumes "token_requirements_new tokenize glue inventory = Inr st"
  shows "requirements_invariant tokenize glue inventory {} st" "pending_retained st = []" "known_units st = {}"
proof -
  let ?rs = "src_macro_repetitions inventory" and ?n = "length (src_units inventory)"
  from assms obtain guard inputs where
    g: "(if ?rs = [] then Inr None else bind_result (map_err (\<lambda>_. RewriteInvalidInventory)
          (token_rewrite_guard_new tokenize glue (src_original inventory))) (\<lambda>guard. Inr (Some guard))) = Inr guard"
    and inputs: "fold_result push_repetition (enumerate 0 ?rs) (replicate ?n []) = Inr inputs"
    and st: "st = \<lparr>req_guard = guard, inputs_by_unit = inputs, known_retained = replicate ?n False,
            pending_retained = [], req_initialized = False,
            repetition_states = map (\<lambda>r. \<lparr>repetition_active = False,
                        retained_elements = replicate (length (rep_elements r)) False,
                        retained_count = 0, active_runs = []\<rparr>) ?rs,
            active_deletions = [], deletion_components = [], lexical_cohorts = []\<rparr>"
    unfolding token_requirements_new_def by (auto simp only: bind_result_eq_Inr sum.inject)
  have exact: "inputs_exact inventory inputs" by (rule token_requirements_new_inputs [OF inputs])
  have index: "index_consistent st"
    by (simp add: st index_consistent_def grouped_def component_at_def get_at_def range_group_def separate_def chained_def slot_def)
  have "list_all2 repetition_consistent ?rs (repetition_states st)"
    by (simp add: st list_all2_conv_all_nth repetition_consistent_def)
  moreover have "entries_match inventory st (runs_at st)"
    by (auto simp: st entries_match_def entry_facts_def runs_at_def)
  ultimately have "deletions_consistent inventory st" using index by (simp add: deletions_consistent_def)
  moreover have "rep_parent (?rs ! i) < ?n" if "i < length ?rs" for i
    using exact nth_mem [OF that] by (auto simp: inputs_exact_def)
  ultimately have "tracks_known inventory st" using exact by (simp add: st tracks_known_def)
  moreover have "?rs = [] \<or> (\<exists>g. guard = Some g \<and> token_rewrite_guard_new tokenize glue (src_original inventory) = Inr g)"
    using g by (auto simp: bind_result_eq_Inr split: if_splits)
  moreover have "?rs = [] \<longleftrightarrow> guard = None" using g by (auto simp: bind_result_eq_Inr split: if_splits)
  ultimately show "requirements_invariant tokenize glue inventory {} st"
    by (auto simp: requirements_invariant_def groups_checked_empty st split: option.splits)
  show "pending_retained st = []" "known_units st = {}" by (auto simp: st known_units_def)
qed

text \<open>
  A wave is given the retained set and the units it holds beyond those of the waves before; what the
  wave forces is retained afterwards and belongs to the next one.
\<close>

definition wave_of :: "token_requirements \<Rightarrow> source_unit_id set \<Rightarrow> source_unit_id set \<Rightarrow> source_unit_id list \<Rightarrow> bool" where
  "wave_of st R retained newly \<longleftrightarrow>
     R \<subseteq> retained \<and> (req_guard st \<noteq> None \<longrightarrow> retained = known_units st \<union> set newly)"

lemma token_requirements_close_step:
  assumes inv: "requirements_invariant tokenize glue inventory R st" and guard: "req_guard st = Some guard"
    and wave: "wave_of st R retained newly"
    and r: "token_requirements_close tokenize glue inventory st retained newly = Inr (changed, st', retained')"
  shows "requirements_invariant tokenize glue inventory retained' st' \<and> req_guard st' = Some guard
    \<and> known_units st' = retained \<and> (changed \<longleftrightarrow> pending_retained st' \<noteq> [])
    \<and> retained' = retained \<union> set (pending_retained st') \<and> retained \<inter> set (pending_retained st') = {}"
proof -
  let ?finish = "\<lambda>(st1, D, W).
    bind_result (fold_result (check_component tokenize glue guard inventory st1) (sorted_list_of_set D) (retained, [])) (\<lambda>forced.
    bind_result (fold_result (check_cohort tokenize glue guard inventory st1) (sorted_list_of_set W) forced) (\<lambda>(retained, pending).
      Inr (pending \<noteq> [], st1\<lparr>pending_retained := pending\<rparr>, retained)))"
  from r obtain st0 where s0: "start_requirements inventory retained newly st = Inr st0"
    and body: "(if pending_retained st0 \<noteq> [] then Inl RewriteInvalidRetention
      else bind_result (update_deletions inventory retained newly st0) ?finish) = Inr (changed, st', retained')"
    unfolding token_requirements_close_def guard option.case bind_result_eq_Inr [of "start_requirements inventory retained newly st"]
    by blast
  then have "bind_result (update_deletions inventory retained newly st0) ?finish = Inr (changed, st', retained')"
    by (cases "pending_retained st0 = []") simp_all
  then obtain s where upd: "update_deletions inventory retained newly st0 = Inr s"
    and rest: "?finish s = Inr (changed, st', retained')"
    unfolding bind_result_eq_Inr [of "update_deletions inventory retained newly st0"] by blast
  obtain st1 D W where s: "s = (st1, D, W)" by (cases s)
  have st0: "\<exists>b. st0 = st\<lparr>req_initialized := b\<rparr>"
    using s0 by (auto simp: start_requirements_def bind_result_eq_Inr split: if_splits intro: exI [of _ True] exI [of _ "req_initialized st"])
  then obtain b where st0: "st0 = st\<lparr>req_initialized := b\<rparr>" by blast
  have tracks: "tracks_known inventory st" and g: "token_rewrite_guard_new tokenize glue (src_original inventory) = Inr guard"
    and old: "groups_checked active_component (\<lambda>ds. deletion_preserves_identity tokenize glue guard (hull ds)) inventory st R"
      "groups_checked active_window (\<lambda>ds. deletions_preserve_identity tokenize glue guard (sorted_list_of_set ds)) inventory st R"
    using inv guard by (simp_all add: requirements_invariant_def)
  have "component_at st0 = component_at st" "runs_at st0 = runs_at st" "dependency_window st0 = dependency_window st"
    by (simp_all add: st0 component_at_def runs_at_def dependency_window_def fun_eq_iff)
  then have "tracks_known inventory st0"
    using tracks by (simp add: st0 tracks_known_def deletions_consistent_def index_consistent_def entries_match_def)
  note step = update_deletions_step [OF this upd, unfolded s fst_conv snd_conv]
  have known: "known_units st1 = retained"
    using step wave guard by (simp add: wave_of_def st0 known_units_def)
  have t1: "tracks_known inventory st1" using step by blast
  then have ix: "index_consistent st1" using tracks_knownD(1) by (auto simp: deletions_consistent_def)
  have R: "R \<subseteq> known_units st1" using wave known by (simp add: wave_of_def)
  let ?cpass = "\<lambda>ds. deletion_preserves_identity tokenize glue guard (hull ds)"
  let ?wpass = "\<lambda>ds. deletions_preserve_identity tokenize glue guard (sorted_list_of_set ds)"
  have actives0: "actives st0 = actives st" by (simp add: st0)
  have cc: "groups_checked active_component ?cpass inventory st1
      (known_units st1 \<union> failing_elements active_component ?cpass inventory st1 D)"
    by (rule components.checked_step [OF old(1) _ R open_group [OF t1]]) (use step in \<open>simp add: actives0\<close>)
  have cw: "groups_checked active_window ?wpass inventory st1
      (known_units st1 \<union> failing_elements active_window ?wpass inventory st1 W)"
    by (rule cohorts.checked_step [OF old(2) _ R open_group [OF t1]]) (use step in \<open>simp add: actives0\<close>)
  have fin: "set (sorted_list_of_set D) = D" "set (sorted_list_of_set W) = W" using step by simp_all
  from components.check_all [OF ix, of tokenize glue guard inventory "sorted_list_of_set D" "(retained, [])"]
  obtain f1 where f1: "fold_result (check_component tokenize glue guard inventory st1) (sorted_list_of_set D) (retained, []) = Inr f1"
    "forces (retained, []) (failing_elements active_component ?cpass inventory st1 D) f1" unfolding fin by blast
  from cohorts.check_all [OF ix, of tokenize glue guard inventory "sorted_list_of_set W" f1]
  obtain f2 where f2: "fold_result (check_cohort tokenize glue guard inventory st1) (sorted_list_of_set W) f1 = Inr f2"
    "forces f1 (failing_elements active_window ?wpass inventory st1 W) f2" unfolding fin by blast
  obtain R2 P2 where f2p: "f2 = (R2, P2)" by (cases f2)
  have result: "changed = (P2 \<noteq> [])" "st' = st1\<lparr>pending_retained := P2\<rparr>" "retained' = R2"
    using rest by (simp_all add: s f1(1) f2(1) f2p)
  let ?E = "failing_elements active_component ?cpass inventory st1 D \<union> failing_elements active_window ?wpass inventory st1 W"
  have "forces (retained, []) ?E (R2, P2)" using forces_trans [OF f1(2) f2(2)] unfolding f2p .
  then have F: "R2 = retained \<union> ?E" "set P2 = ?E - retained" "distinct P2" by (auto simp: forces_def)
  have mono: "groups_checked key passes inventory st' T" if "groups_checked key passes inventory st1 S" "S \<subseteq> T"
    for key :: "active_deletion \<Rightarrow> 'k" and passes S T
    using that by (force simp: groups_checked_def result(2))
  have "component_at st' = component_at st1" "runs_at st' = runs_at st1" "dependency_window st' = dependency_window st1"
    by (simp_all add: result(2) component_at_def runs_at_def dependency_window_def fun_eq_iff)
  then have "tracks_known inventory st'"
    using t1 by (simp add: result(2) tracks_known_def deletions_consistent_def index_consistent_def entries_match_def)
  moreover have "groups_checked active_component ?cpass inventory st' retained'" "groups_checked active_window ?wpass inventory st' retained'"
    using F(1) known unfolding result(3) by (auto intro: mono [OF cc] mono [OF cw])
  moreover have "req_guard st' = Some guard" using step guard by (simp add: result(2) st0)
  moreover have "known_units st' = retained" using known by (simp add: result(2) known_units_def)
  moreover have "pending_retained st' = P2" by (simp add: result(2))
  ultimately show ?thesis using g F by (auto simp: requirements_invariant_def result(1,3))
qed

section \<open>The index test\<close>

definition component_index_is_consistent :: "token_requirements \<Rightarrow> bool" where
  "component_index_is_consistent st \<longleftrightarrow>
     list_all (\<lambda>(r, active).
       (case component_at st (active_component active) of None \<Rightarrow> False | Some deletions \<Rightarrow> r \<in> deletions)
       \<and> (case map_of (lexical_cohorts st) (active_window active) of None \<Rightarrow> False | Some cohort \<Rightarrow> r \<in> cohort))
       (active_deletions st)
     \<and> list_all (\<lambda>(component, entry). case entry of None \<Rightarrow> True | Some deletions \<Rightarrow>
         list_all (\<lambda>(a, b). br_end a = br_start b) (windows2 (sorted_list_of_set deletions))
         \<and> list_all (\<lambda>r. case map_of (active_deletions st) r of None \<Rightarrow> False | Some a \<Rightarrow> active_component a = component)
             (sorted_list_of_set deletions))
       (enumerate 0 (deletion_components st))
     \<and> list_all (\<lambda>(window, cohort). cohort \<noteq> {}
         \<and> list_all (\<lambda>r. case map_of (active_deletions st) r of None \<Rightarrow> False | Some a \<Rightarrow> active_window a = window)
             (sorted_list_of_set cohort))
       (lexical_cohorts st)"

lemma sorted_neighbours:
  assumes "finite S" "(a, b) \<in> set (windows2 (sorted_list_of_set S))"
  shows "a \<in> S" "b \<in> S" "a < b" "x \<in> S \<Longrightarrow> a < x \<Longrightarrow> x < b \<Longrightarrow> False"
proof -
  let ?xs = "sorted_list_of_set S"
  have sorted: "sorted_wrt (<) ?xs" and set: "set ?xs = S" using assms(1) by simp_all
  from assms(2) obtain i where "i < length ?xs - 1" "a = ?xs ! i" "b = ?xs ! Suc i"
    by (auto simp: windows2_def set_zip nth_tl)
  then have i: "Suc i < length ?xs" "a = ?xs ! i" "b = ?xs ! Suc i" by linarith+
  show "a \<in> S" "b \<in> S" using i set nth_mem [of i ?xs] nth_mem [of "Suc i" ?xs] by simp_all
  show "a < b" using sorted_wrt_nth_less [OF sorted, of i "Suc i"] i by simp
  show False if x: "x \<in> S" "a < x" "x < b"
  proof -
    obtain j where j: "j < length ?xs" "x = ?xs ! j" using x(1) set unfolding in_set_conv_nth [of x ?xs, unfolded set] by blast
    have "\<not> j \<le> i" using sorted_wrt_nth_less [OF sorted, of j i] i j x(2) by (cases "j = i") auto
    moreover have "\<not> Suc i \<le> j" using sorted_wrt_nth_less [OF sorted, of "Suc i" j] i j x(3) by (cases "j = Suc i") auto
    ultimately show False by simp
  qed
qed

lemma chained_neighbours:
  assumes K: "separate K" and chain: "chained K group_of" and ab: "a \<in> K" "b \<in> K" "a < b" "group_of a = group_of b"
    and between: "\<And>x. x \<in> K \<Longrightarrow> group_of x = group_of a \<Longrightarrow> a < x \<Longrightarrow> x < b \<Longrightarrow> False"
  shows "br_end a = br_start b"
proof (rule ccontr)
  assume ne: "br_end a \<noteq> br_start b"
  have len: "br_start a < br_end a" "br_start b < br_end b" and "br_end a \<le> br_start b"
    using separateD(1) [OF K] separateD(2) [OF K ab(1-3)] ab by auto
  then have gap: "br_end a < br_start b" using ne by simp
  have link: "linked K a b" using chain ab by (simp add: chained_def)
  then have "br_end a \<in> deleted_bytes K" using len gap by (auto simp: linked_def)
  then obtain x where x: "x \<in> K" "br_start x \<le> br_end a" "br_end a < br_end x" by (auto simp: deleted_bytes_def range_bytes_def)
  have "a < x"
  proof (rule ccontr)
    assume "\<not> a < x"
    then have "x \<le> a" by simp
    from separate_end_mono [OF K x(1) ab(1) this] x(3) show False by simp
  qed
  have "x < b"
  proof (rule ccontr)
    assume "\<not> x < b"
    then have "br_start b \<le> br_start x" using range_le_start [of b x] by simp
    with x(2) gap show False by simp
  qed
  have "br_end x \<le> br_start b" by (rule separateD(2) [OF K x(1) ab(2) \<open>x < b\<close>])
  then have "linked K a x" using link len by (auto simp: linked_def)
  then have "group_of a = group_of x" using chain ab(1) x(1) \<open>a < x\<close> by (simp add: chained_def less_imp_le)
  then have "group_of x = group_of a" by simp
  then show False using between [OF x(1)] \<open>a < x\<close> \<open>x < b\<close> by blast
qed

lemma index_consistent_test:
  assumes c: "index_consistent st"
  shows "component_index_is_consistent st"
proof -
  let ?A = "actives st"
  note c = index_consistentD [OF c]
  have at: "component_at st k = slot (range_group active_component ?A k)" for k using c(3) by (simp add: grouped_def)
  have cohort: "map_of (lexical_cohorts st) w = slot (range_group active_window ?A w)" for w using c(4) by (simp add: grouped_def)
  have entry: "?A r = Some a" if "(r, a) \<in> set (active_deletions st)" for r a
    using that c(1) by (auto simp: ordered_keys_def strict_sorted_iff)
  have f1: "(case component_at st (active_component a) of None \<Rightarrow> False | Some ds \<Rightarrow> r \<in> ds)
      \<and> (case map_of (lexical_cohorts st) (active_window a) of None \<Rightarrow> False | Some ds \<Rightarrow> r \<in> ds)"
    if "(r, a) \<in> set (active_deletions st)" for r a
    using grouped_member [OF c(3) entry [OF that]] grouped_member [OF c(4) entry [OF that]] by auto
  have f2: "list_all (\<lambda>(a, b). br_end a = br_start b) (windows2 (sorted_list_of_set ds))
      \<and> list_all (\<lambda>r. case ?A r of None \<Rightarrow> False | Some a \<Rightarrow> active_component a = k) (sorted_list_of_set ds)"
    if "(k, Some ds) \<in> set (enumerate 0 (deletion_components st))" for k ds
  proof -
    have "component_at st k = Some ds" using that by (auto simp: set_enumerate_nth component_at_def get_at_def)
    then have ds: "ds = range_group active_component ?A k" by (simp add: at)
    have fin: "finite ds" unfolding ds by (intro range_group_finite finite_dom_map_of)
    have "br_end a = br_start b" if ab: "(a, b) \<in> set (windows2 (sorted_list_of_set ds))" for a b
    proof (rule chained_neighbours [OF c(5,6)])
      note n = sorted_neighbours [OF fin ab]
      show "a \<in> dom ?A" "b \<in> dom ?A" "a < b" "group_at ?A a = group_at ?A b"
        using n(1-3) by (auto simp: ds in_range_group)
      fix x
      assume "x \<in> dom ?A" "group_at ?A x = group_at ?A a" "a < x" "x < b"
      then show False using n(1) n(4) [of x] by (auto simp: ds in_range_group)
    qed
    moreover have "case ?A r of None \<Rightarrow> False | Some a \<Rightarrow> active_component a = k" if "r \<in> ds" for r
      using that by (auto simp: ds range_group_def)
    ultimately show ?thesis using fin by (auto simp: list_all_iff)
  qed
  have f3: "ds \<noteq> {} \<and> list_all (\<lambda>r. case ?A r of None \<Rightarrow> False | Some a \<Rightarrow> active_window a = w) (sorted_list_of_set ds)"
    if "(w, ds) \<in> set (lexical_cohorts st)" for w ds
  proof -
    have "map_of (lexical_cohorts st) w = Some ds" using that c(2) by (auto simp: ordered_keys_def strict_sorted_iff)
    then have ds: "ds = range_group active_window ?A w" "ds \<noteq> {}" by (simp_all add: cohort)
    have "finite ds" unfolding ds(1) by (intro range_group_finite finite_dom_map_of)
    then show ?thesis using ds by (auto simp: list_all_iff range_group_def)
  qed
  have pairs: "list_all (\<lambda>(x, y). P x y) xs" if "\<And>x y. (x, y) \<in> set xs \<Longrightarrow> P x y" for P and xs :: "('x \<times> 'y) list"
    using that by (auto simp: list_all_iff)
  show ?thesis
    unfolding component_index_is_consistent_def
  proof (intro conjI; rule pairs)
    fix k entry
    assume "(k, entry) \<in> set (enumerate 0 (deletion_components st))"
    then show "case entry of None \<Rightarrow> True | Some ds \<Rightarrow>
        list_all (\<lambda>(a, b). br_end a = br_start b) (windows2 (sorted_list_of_set ds))
        \<and> list_all (\<lambda>r. case ?A r of None \<Rightarrow> False | Some a \<Rightarrow> active_component a = k) (sorted_list_of_set ds)"
      using f2 by (cases entry) simp_all
  qed (use f1 f3 in blast)+
qed

section \<open>Runs of waves\<close>

text \<open>
  The states the retention reaches: from \<open>new\<close>, each wave takes the units the last one forced and is
  closed over the retained set.
\<close>

inductive requirement_waves :: "lexer \<Rightarrow> glue \<Rightarrow> source_inventory \<Rightarrow> token_requirements \<Rightarrow> source_unit_id set \<Rightarrow> bool"
  for tokenize glue inventory where
  waves_start: "token_requirements_new tokenize glue inventory = Inr st \<Longrightarrow> requirement_waves tokenize glue inventory st {}"
| waves_close: "requirement_waves tokenize glue inventory st R \<Longrightarrow> (forced, taken) = take_newly_forced_units st
    \<Longrightarrow> wave_of taken R retained newly
    \<Longrightarrow> token_requirements_close tokenize glue inventory taken retained newly = Inr (changed, st', retained')
    \<Longrightarrow> requirement_waves tokenize glue inventory st' retained'"

inductive_cases requirement_waves_E: "requirement_waves tokenize glue inventory st R"

lemma take_invariant:
  assumes "requirements_invariant tokenize glue inventory R st" "(forced, taken) = take_newly_forced_units st"
  shows "requirements_invariant tokenize glue inventory R taken" "req_guard taken = req_guard st" "pending_retained taken = []"
    "known_units taken = known_units st"
proof -
  have t: "taken = st\<lparr>pending_retained := []\<rparr>" using assms(2) by (simp add: take_newly_forced_units_def)
  have "component_at taken = component_at st" "runs_at taken = runs_at st" "dependency_window taken = dependency_window st"
    by (simp_all add: t component_at_def runs_at_def dependency_window_def fun_eq_iff)
  then show "requirements_invariant tokenize glue inventory R taken"
    using assms(1) by (simp add: requirements_invariant_def tracks_known_def deletions_consistent_def index_consistent_def
        entries_match_def groups_checked_def t split: option.splits)
  show "req_guard taken = req_guard st" "pending_retained taken = []" "known_units taken = known_units st"
    by (simp_all add: t known_units_def)
qed

lemma requirement_waves_invariant:
  "requirement_waves tokenize glue inventory st R \<Longrightarrow>
     requirements_invariant tokenize glue inventory R st \<and> index_consistent st
     \<and> (req_guard st \<noteq> None \<longrightarrow> R = known_units st \<union> set (pending_retained st))"
proof (induction rule: requirement_waves.induct)
  case (waves_start st)
  note new = token_requirements_new_invariant [OF waves_start]
  have "index_consistent st"
    using waves_start unfolding token_requirements_new_def
    by (auto simp: bind_result_eq_Inr index_consistent_def grouped_def component_at_def get_at_def range_group_def
        separate_def chained_def slot_def)
  then show ?case using new by simp
next
  case (waves_close st R forced taken retained newly changed st' retained')
  note taken = take_invariant [OF conjunct1 [OF waves_close.IH] waves_close.hyps(2)]
  show ?case
  proof (cases "req_guard st")
    case None
    then have "st' = taken" "retained' = retained"
      using waves_close.hyps(4) taken(2) by (simp_all add: token_requirements_close_def)
    moreover have "index_consistent taken"
      using waves_close.IH waves_close.hyps(2) component_at_cong [of taken st]
      by (simp add: index_consistent_def take_newly_forced_units_def)
    moreover have "requirements_invariant tokenize glue inventory retained taken"
      using taken(1-3) None by (simp add: requirements_invariant_def)
    ultimately show ?thesis using None taken(2) by simp
  next
    case (Some guard)
    then have "req_guard taken = Some guard" using taken(2) by simp
    note step = token_requirements_close_step [OF taken(1) this waves_close.hyps(3,4)]
    then have "index_consistent st'"
      by (auto simp: requirements_invariant_def tracks_known_def deletions_consistent_def)
    with step show ?thesis by auto
  qed
qed

section \<open>The index is the plan from scratch\<close>

text \<open>The deletions of a rewrite that retains exactly the units known so far.\<close>

lemma planned_flags:
  assumes t: "tracks_known inventory st" and i: "i < length (src_macro_repetitions inventory)" and K: "K = known_units st"
  shows "is_active st i \<longleftrightarrow> rep_parent (src_macro_repetitions inventory ! i) \<in> K"
    and "is_active st i \<Longrightarrow> element_flags st i = map (\<lambda>e. element_unit e \<in> K) (rep_elements (src_macro_repetitions inventory ! i))"
proof -
  let ?r = "src_macro_repetitions inventory ! i"
  have "rep_parent ?r < length (known_retained st)" "\<forall>e \<in> set (rep_elements ?r). element_unit e < length (known_retained st)"
    using tracks_knownD(2,3) [OF t] nth_mem [OF i] by (auto simp: inputs_exact_def)
  then show "is_active st i \<longleftrightarrow> rep_parent ?r \<in> K"
      "is_active st i \<Longrightarrow> element_flags st i = map (\<lambda>e. element_unit e \<in> K) (rep_elements ?r)"
    using tracks_knownD(4,5) [OF t i] by (simp_all add: K known_units_def)
qed

lemma planned_deletions:
  assumes t: "tracks_known inventory st" and K: "K = known_units st"
    and plans: "map_result (plan_macro_repetition_deletions inventory K) (src_macro_repetitions inventory) = Inr plans"
  shows "set (concat plans) = dom (actives st)"
proof (rule set_eqI)
  fix d
  let ?rs = "src_macro_repetitions inventory"
  note c = tracks_knownD(1) [OF t]
  have plan: "length plans = length ?rs" "\<And>i. i < length ?rs \<Longrightarrow> plan_macro_repetition_deletions inventory K (?rs ! i) = Inr (plans ! i)"
    using plans by (auto simp: map_result_eq_Inr list_all2_conv_all_nth)
  have runs: "list_all2 (\<lambda>(f, l) d. run_range inventory i f l = Inr d) (runs_of (element_flags st i)) (plans ! i)"
    if i: "i < length ?rs" "is_active st i" for i
    using plan_Inr [OF plan(2) [OF i(1)]] planned_flags [OF t i(1) K] i(2) by simp
  show "d \<in> set (concat plans) \<longleftrightarrow> d \<in> dom (actives st)"
  proof
    assume "d \<in> set (concat plans)"
    then obtain ds where "ds \<in> set plans" "d \<in> set ds" by auto
    then obtain i where i: "i < length ?rs" "d \<in> set (plans ! i)" using plan(1) by (metis in_set_conv_nth)
    have "is_active st i"
    proof (rule ccontr)
      assume "\<not> is_active st i"
      then have "plans ! i = []" using plan(2) [OF i(1)] planned_flags(1) [OF t i(1) K]
        by (simp add: plan_macro_repetition_deletions_def)
      with i(2) show False by simp
    qed
    note l = runs [OF i(1) this]
    from i(2) obtain j where j: "j < length (plans ! i)" "d = plans ! i ! j" by (auto simp: in_set_conv_nth)
    obtain f e where run: "runs_of (element_flags st i) ! j = (f, e)" by (cases "runs_of (element_flags st i) ! j")
    have range: "run_range inventory i f e = Inr d" using list_all2_nthD2 [OF l j(1)] unfolding run j(2) by simp
    have "(f, e) \<in> set (runs_of (element_flags st i))" using run j(1) list_all2_lengthD [OF l] by (metis nth_mem)
    then have "(f, e) \<in> runs_at st i"
      using \<open>is_active st i\<close> i(1) deletions_consistent_length [OF c] c
      by (auto simp: runs_at_def deletions_consistent_def repetition_consistent_def dest: list_all2_nthD)
    then obtain d' w where "entry_facts (actives st) d' = Some (i, f, e, w)"
      using c unfolding deletions_consistent_def entries_match_def by blast
    then show "d \<in> dom (actives st)" using active_run [OF c, of d' i f e w] range by (auto simp: entry_facts_def)
  next
    assume "d \<in> dom (actives st)"
    then obtain i f e w where entry: "entry_facts (actives st) d = Some (i, f, e, w)" by (auto simp: entry_facts_def)
    note run = active_run [OF c entry]
    then have "(f, e) \<in> set (runs_of (element_flags st i))" by (simp add: runs_of_set)
    then obtain j where j: "j < length (runs_of (element_flags st i))" "runs_of (element_flags st i) ! j = (f, e)"
      by (auto simp: in_set_conv_nth)
    note l = runs [of i]
    have "run_range inventory i f e = Inr (plans ! i ! j)" "j < length (plans ! i)"
      using list_all2_nthD [OF l j(1)] list_all2_lengthD [OF l] run j by auto
    then have "d \<in> set (plans ! i)" using run by (metis nth_mem sum.inject(2))
    then show "d \<in> set (concat plans)" using run plan(1) by auto
  qed
qed

text \<open>The merged deletions are the hulls of the components.\<close>

lemma separated_apart:
  assumes "separated m" "x \<in> set m" "y \<in> set m" "x \<noteq> y"
  shows "br_end x < br_start y \<or> br_end y < br_start x"
proof -
  obtain i j where ij: "i < length m" "x = m ! i" "j < length m" "y = m ! j" using assms(2,3) by (metis in_set_conv_nth)
  have sorted: "sorted_wrt (\<lambda>d d'. br_end d < br_start d') m" using assms(1) by (simp add: separated_def)
  have "i \<noteq> j" using assms(4) ij by auto
  then consider "i < j" | "j < i" by linarith
  then show ?thesis
    using sorted_wrt_nth_less [OF sorted, of i j] sorted_wrt_nth_less [OF sorted, of j i] ij by cases auto
qed

lemma covered_interval:
  assumes m: "separated m" and x: "x \<in> set m" and cover: "{p ..< q} \<subseteq> \<Union> (range_bytes ` set m)"
    and t: "p \<le> t" "t < q" "t \<in> range_bytes x"
  shows "br_start x \<le> p" "q \<le> br_end x"
proof -
  have bounds: "br_start x \<le> t" "t < br_end x" using t(3) by (auto simp: range_bytes_def)
  show "br_start x \<le> p"
  proof (rule ccontr)
    assume "\<not> br_start x \<le> p"
    then have "br_start x - 1 \<in> {p ..< q}" using t bounds by auto
    then obtain y where y: "y \<in> set m" "br_start y \<le> br_start x - 1" "br_start x - 1 < br_end y"
      using cover by (auto simp: range_bytes_def)
    moreover have "0 < br_start x" using \<open>\<not> br_start x \<le> p\<close> by simp
    ultimately show False using separated_apart [OF m x y(1)] bounds by (cases "x = y") auto
  qed
  show "q \<le> br_end x"
  proof (rule ccontr)
    assume "\<not> q \<le> br_end x"
    then have "br_end x \<in> {p ..< q}" using t bounds by auto
    then obtain y where y: "y \<in> set m" "br_start y \<le> br_end x" "br_end x < br_end y"
      using cover by (auto simp: range_bytes_def)
    then show False using separated_apart [OF m x y(1)] bounds by (cases "x = y") auto
  qed
qed

lemma merged_hull:
  assumes m: "separated m" and cover: "\<Union> (range_bytes ` set m) = deleted_bytes K"
    and K: "separate K" "finite K" and chain: "chained K group_of" and x: "x \<in> set m"
  obtains d where "d \<in> K" "x = hull {y \<in> K. group_of y = group_of d}"
proof -
  have xs: "br_start x < br_end x" using m x by (simp add: separated_def)
  then have "br_start x \<in> range_bytes x" "br_end x - 1 \<in> range_bytes x" by (auto simp: range_bytes_def)
  then have "br_start x \<in> deleted_bytes K" "br_end x - 1 \<in> deleted_bytes K"
    using x unfolding cover [symmetric] by blast+
  then obtain d d' where d: "d \<in> K" "br_start x \<in> range_bytes d" and d': "d' \<in> K" "br_end x - 1 \<in> range_bytes d'"
    by (auto simp: deleted_bytes_def)
  let ?S = "{y \<in> K. group_of y = group_of d}"
  have fin: "finite ?S" "?S \<noteq> {}" using K(2) d(1) by auto
  let ?a = "Min ?S" and ?b = "Max ?S"
  have ab: "?a \<in> ?S" "?b \<in> ?S" using Min_in [OF fin] Max_in [OF fin] by blast+
  have order: "?a \<le> d" "d \<le> ?b" using fin d(1) by (auto intro: Min_le Max_ge)
  have "?a \<le> ?b" using order by (rule order_trans)
  then have "linked K ?a ?b" using chain ab unfolding chained_def by (metis (mono_tags, lifting) mem_Collect_eq)
  then have inside: "{br_start ?a ..< br_end ?b} \<subseteq> \<Union> (range_bytes ` set m)" by (simp add: linked_def cover)
  have at: "br_start ?a \<le> br_start x" "br_start x < br_end ?b"
    using d(2) range_le_start [OF order(1)] separate_end_mono [OF K(1) d(1) _ order(2)] ab(2) by (auto simp: range_bytes_def)
  have mem: "br_start x \<in> range_bytes x" using xs by (simp add: range_bytes_def)
  note c = covered_interval [OF m x inside at mem]
  have start: "br_start ?a = br_start x" using c(1) at(1) by simp
  have e: "br_start d' \<le> br_end x - 1" "br_end x - 1 < br_end d'" using d'(2) by (auto simp: range_bytes_def)
  have "\<not> d' < ?a"
  proof
    assume "d' < ?a"
    then have "br_end d' \<le> br_start ?a" using separateD(2) [OF K(1) d'(1)] ab(1) by blast
    with e start xs show False by simp
  qed
  then have le: "?a \<le> d'" by simp
  have "linked K ?a d'"
    unfolding linked_def
  proof
    fix t
    assume t: "t \<in> {br_start ?a ..< br_end d'}"
    show "t \<in> deleted_bytes K"
    proof (cases "t < br_end x")
      case True
      then have "t \<in> range_bytes x" using t start by (simp add: range_bytes_def)
      then show ?thesis using x cover by blast
    next
      case False
      then have "t \<in> range_bytes d'" using t e by (simp add: range_bytes_def)
      then show ?thesis using d'(1) by (auto simp: deleted_bytes_def)
    qed
  qed
  then have "group_of ?a = group_of d'"
    using chain ab(1) d'(1) le unfolding chained_def by (metis (mono_tags, lifting) mem_Collect_eq)
  then have "d' \<in> ?S" using ab(1) d'(1) by simp
  then have "d' \<le> ?b" using fin(1) by (intro Max_ge)
  then have "br_end d' \<le> br_end ?b" using separate_end_mono [OF K(1) d'(1)] ab(2) by blast
  then have "br_end x = br_end ?b" using e c(2) by simp
  then have "x = hull ?S" using start by (cases x) (simp add: hull_def)
  with d(1) that show thesis by blast
qed

section \<open>Properties\<close>

text \<open>C24. In every state that a run of waves reaches, the index of deletions passes the consistency test of
  the code: every active deletion is filed under its component and its cohort, and every component
  is a chain of neighbouring deletions.\<close>

theorem requirement_waves_consistent:
  assumes "requirement_waves tokenize glue inventory st R"
  shows "component_index_is_consistent st"
  using index_consistent_test requirement_waves_invariant [OF assms] by blast

text \<open>C23. The index that the waves keep up to date is the plan from scratch: whatever the waves were, the active
  deletions are the deletions that a rewrite plans for the repetitions when exactly the units that
  the waves have seen are retained.\<close>

theorem requirement_waves_incremental:
  assumes "requirement_waves tokenize glue inventory st R"
    and "map_result (plan_macro_repetition_deletions inventory (known_units st)) (src_macro_repetitions inventory) = Inr plans"
  shows "fst ` set (active_deletions st) = set (concat plans)"
proof (cases "req_guard st")
  case None
  then have "src_macro_repetitions inventory = []" "active_deletions st = []"
    using requirement_waves_invariant [OF assms(1)] by (simp_all add: requirements_invariant_def)
  then show ?thesis using assms(2) by simp
next
  case (Some guard)
  then have "tracks_known inventory st"
    using requirement_waves_invariant [OF assms(1)] by (simp add: requirements_invariant_def)
  from planned_deletions [OF this refl assms(2)] show ?thesis by (simp add: neighbour_keys(1))
qed

text \<open>C22. When the waves have settled, that is the last one forced nothing, rewriting with the retained set is safe for
  the tokens of the parser: every merged deletion keeps the identity of the tokens around it, and so
  do the deletions that share a dependency window, taken together.\<close>

theorem requirement_waves_settled:
  assumes "requirement_waves tokenize glue inventory st R" and "pending_retained st = []"
    and "token_rewrite_guard_new tokenize glue (src_original inventory) = Inr guard"
    and "map_result (plan_macro_repetition_deletions inventory R) (src_macro_repetitions inventory) = Inr plans"
    and "merge_deletions (src_original inventory) (sort (concat plans)) boundaries = Inr merged"
  shows "list_all (deletion_preserves_identity tokenize glue guard) merged
    \<and> list_all (\<lambda>d. deletions_preserve_identity tokenize glue guard
        (sorted_list_of_set {e \<in> set (concat plans). deletion_dependency_window guard e = deletion_dependency_window guard d}))
        (concat plans)"
proof (cases "req_guard st")
  case None
  then have "src_macro_repetitions inventory = []"
    using requirement_waves_invariant [OF assms(1)] by (simp add: requirements_invariant_def)
  then show ?thesis using assms(4,5) by (simp add: merge_deletions_def)
next
  case (Some g)
  let ?A = "actives st"
  have inv: "requirements_invariant tokenize glue inventory R st" and ix: "index_consistent st" and R: "R = known_units st"
    using requirement_waves_invariant [OF assms(1)] Some assms(2) by auto
  have guard: "g = guard" and t: "tracks_known inventory st"
    and checked: "groups_checked active_component (\<lambda>ds. deletion_preserves_identity tokenize glue guard (hull ds)) inventory st R"
      "groups_checked active_window (\<lambda>ds. deletions_preserve_identity tokenize glue guard (sorted_list_of_set ds)) inventory st R"
    using inv Some assms(3) by (auto simp: requirements_invariant_def)
  have dom: "set (concat plans) = dom ?A" by (rule planned_deletions [OF t R assms(4)])
  have settled: "\<not> filed_elements inventory (filed key ?A k) \<subseteq> R" if "filed key ?A k \<noteq> {}" for key :: "active_deletion \<Rightarrow> 'k" and k
    using open_group [OF t that] by (simp add: R)
  have component: "deletion_preserves_identity tokenize glue guard (hull (range_group active_component ?A k))"
    if "range_group active_component ?A k \<noteq> {}" for k
    using components.checked_settled [OF checked(1) that settled] .
  have cohort: "deletions_preserve_identity tokenize glue guard (sorted_list_of_set (range_group active_window ?A k))"
    if "range_group active_window ?A k \<noteq> {}" for k
    using cohorts.checked_settled [OF checked(2) that settled] .
  note m = merge_deletions_Inr [OF assms(5)]
  have cover: "\<Union> (range_bytes ` set merged) = deleted_bytes (dom ?A)" using m(2) unfolding dom deleted_bytes_def .
  have "deletion_preserves_identity tokenize glue guard x" if x: "x \<in> set merged" for x
  proof -
    obtain d where d: "d \<in> dom ?A" "x = hull {y \<in> dom ?A. group_at ?A y = group_at ?A d}"
      by (rule merged_hull [OF m(1) cover index_consistentD(5) [OF ix] finite_dom_map_of index_consistentD(6) [OF ix] x])
    have "{y \<in> dom ?A. group_at ?A y = group_at ?A d} = range_group active_component ?A (group_at ?A d)"
      by (auto simp: in_range_group)
    then show ?thesis using component [of "group_at ?A d"] d by auto
  qed
  moreover have "deletions_preserve_identity tokenize glue guard
      (sorted_list_of_set {e \<in> set (concat plans). deletion_dependency_window guard e = deletion_dependency_window guard d})"
    if d: "d \<in> set (concat plans)" for d
  proof -
    have window: "deletion_dependency_window guard e = Some (active_window a)" if e: "?A e = Some a" for e a
    proof -
      have "entry_facts ?A e = Some (active_repetition a, active_first a, active_final a, active_window a)"
        using e by (simp add: entry_facts_def)
      from active_run [OF tracks_knownD(1) [OF t] this] Some guard show ?thesis by (simp add: dependency_window_def)
    qed
    obtain a where a: "?A d = Some a" using d dom by auto
    have "{e \<in> set (concat plans). deletion_dependency_window guard e = deletion_dependency_window guard d}
        = range_group active_window ?A (active_window a)"
      unfolding dom using window a by (auto simp: range_group_def)
    moreover have "d \<in> range_group active_window ?A (active_window a)" using a by (auto simp: range_group_def)
    ultimately show ?thesis using cohort [of "active_window a"] by auto
  qed
  ultimately show ?thesis by (simp only: list_all_iff) blast
qed

section \<open>Examples\<close>

text \<open>An invocation with two elements over the text \<open>a,b\<close>; the wave retains the first one.\<close>

definition wave_inventory :: source_inventory where
  "wave_inventory = sample_use_inventory\<lparr>src_original := [97, 44, 98],
     src_units := [sample_unit 0 CrateRoot 0 3 None, sample_unit 1 MacroInvocation 0 3 (Some 0),
       sample_unit 2 NestedItem 0 1 (Some 1), sample_unit 3 NestedItem 1 2 (Some 1)],
     src_macro_repetitions := [\<lparr>rep_invocation = 1, rep_rule = 0, rep_matcher_range = ByteRange 0 0, rep_parent = 1,
       rep_path = [0], rep_input_range = ByteRange 0 2, rep_elements = [plain_element 2, plain_element 3],
       rep_minimum = 1, rep_maximum = None\<rparr>]\<rparr>"

definition wave_initial :: token_requirements where
  "wave_initial =
     \<lparr>req_guard = Some sample_guard, inputs_by_unit = [[], [ParentInput 0], [ElementInput 0 0], [ElementInput 0 1]],
      known_retained = [False, False, False, False], pending_retained = [], req_initialized = False,
      repetition_states = [\<lparr>repetition_active = False, retained_elements = [False, False], retained_count = 0, active_runs = []\<rparr>],
      active_deletions = [], deletion_components = [], lexical_cohorts = []\<rparr>"

lemma wave_parts:
  "src_original wave_inventory = [97, 44, 98]"
  "src_units wave_inventory = [sample_unit 0 CrateRoot 0 3 None, sample_unit 1 MacroInvocation 0 3 (Some 0),
       sample_unit 2 NestedItem 0 1 (Some 1), sample_unit 3 NestedItem 1 2 (Some 1)]"
  "src_macro_repetitions wave_inventory = [\<lparr>rep_invocation = 1, rep_rule = 0, rep_matcher_range = ByteRange 0 0, rep_parent = 1,
       rep_path = [0], rep_input_range = ByteRange 0 2, rep_elements = [plain_element 2, plain_element 3],
       rep_minimum = 1, rep_maximum = None\<rparr>]"
  by (simp_all add: wave_inventory_def)

lemma wave_new: "token_requirements_new byte_lexer (\<lambda>_ _. None) wave_inventory = Inr wave_initial"
  by (simp add: token_requirements_new_def wave_parts sample_guard_new push_repetition_def push_input_def plain_element_def
      get_at_def enumerate_eq_zip wave_initial_def numeral_2_eq_2 numeral_3_eq_3)

lemma wave_retention: "validate_retention wave_inventory {0, 1, 2} = Inr ()"
  by (simp add: validate_retention_def wave_parts sample_unit_def check_group_def)

lemma wave_window: "deletion_dependency_window sample_guard (ByteRange 1 2) = Some (ByteRange 0 3)"
  by (simp add: guard_evaluation deletion_dependency_window_def find_deletion_boundary_def partition_point_def
      boundary_left_def boundary_right_def boundary_window_def range_contains_def)

definition wave_final :: token_requirements where
  "wave_final =
     \<lparr>req_guard = Some sample_guard, inputs_by_unit = [[], [ParentInput 0], [ElementInput 0 0], [ElementInput 0 1]],
      known_retained = [True, True, True, False], pending_retained = [], req_initialized = True,
      repetition_states = [\<lparr>repetition_active = True, retained_elements = [True, False], retained_count = 1, active_runs = [(1, 1)]\<rparr>],
      active_deletions = [(ByteRange 1 2, \<lparr>active_repetition = 0, active_first = 1, active_final = 1, active_component = 0,
        active_window = ByteRange 0 3\<rparr>)],
      deletion_components = [Some {ByteRange 1 2}], lexical_cohorts = [(ByteRange 0 3, {ByteRange 1 2})]\<rparr>"

lemma wave_range: "run_range wave_inventory 0 1 1 = Inr (ByteRange 1 2)"
  by (simp add: wave_parts macro_repetition_run_deletion_range_def nested_unit_def unit_at_def get_at_def plain_element_def
      sample_unit_def range_is_empty_def valid_source_range_def is_char_boundary_def continuation_byte_def)

lemma wave_update:
  "update_deletions wave_inventory {0, 1, 2} [0, 1, 2] (wave_initial\<lparr>req_initialized := True\<rparr>)
     = Inr (wave_final, {0}, {ByteRange 0 3})"
proof -
  let ?known = "[True, True, True, False]"
  let ?st = "wave_initial\<lparr>req_initialized := True, known_retained := ?known\<rparr>"
  have note_units: "fold_result (note_unit (inputs_by_unit wave_initial) {0, 1, 2}) (rev [0, 1, 2]) (known_retained wave_initial, [])
      = Inr (?known, [(0, {0})])"
    by (simp add: wave_initial_def note_unit_def note_input_def insert_member_def numeral_2_eq_2)
  have inactive: "\<not> is_active ?st 0" by (simp add: wave_initial_def)
  have retain: "fold_result (retain_changed wave_inventory) [(0, {0})] (?st, {}, {}) = Inr (?st, {}, {})"
    using inactive by (simp add: retain_changed_def)
  have model: "from_retained_elements (src_macro_repetitions wave_inventory ! 0) [True, False]
      = Inr \<lparr>model_retained = 1, unretained_runs = [(1, 1)]\<rparr>"
    by (simp add: wave_parts plain_element_def from_retained_elements_def validate_count_def runs_of_def)
  have known: "known_retained ?st = ?known" by simp
  have flags: "map (\<lambda>e. ?known ! element_unit e) (rep_elements (src_macro_repetitions wave_inventory ! 0)) = [True, False]"
    by (simp add: wave_parts plain_element_def)
  have "activate_repetition wave_inventory 0 (?st, {}, {}) = insert_active_deletion wave_inventory 0 1 1
      (update_repetition 0 \<lparr>repetition_active = True, retained_elements = [True, False], retained_count = 1,
         active_runs = [(1, 1)]\<rparr> ?st, {}, {})"
    unfolding activate_repetition_def Let_def prod.case known flags model bind_result_Inr
    by (simp add: bind_result_def split: sum.splits)
  also have "\<dots> = Inr (wave_final, {0}, {ByteRange 0 3})"
    using wave_range wave_window
    by (simp add: insert_active_deletion_def update_repetition_def wave_initial_def wave_final_def greatest_below_def
        least_from_def active_neighbour_def keep_if_def joined_component_def new_component_def insert_member_def)
  finally have activate: "activate_repetition wave_inventory 0 (?st, {}, {}) = Inr (wave_final, {0}, {ByteRange 0 3})" .
  have "known_retained ?st ! rep_parent (src_macro_repetitions wave_inventory ! 0)" by (simp add: wave_parts)
  then have "fold_result (activate_changed wave_inventory) [(0, {0})] (?st, {}, {}) = Inr (wave_final, {0}, {ByteRange 0 3})"
    using inactive activate by (simp add: activate_changed_def)
  moreover have "inputs_by_unit (wave_initial\<lparr>req_initialized := True\<rparr>) = inputs_by_unit wave_initial"
    "known_retained (wave_initial\<lparr>req_initialized := True\<rparr>) = known_retained wave_initial" by simp_all
  ultimately show ?thesis
    unfolding update_deletions_def using note_units retain by (simp only: bind_result_Inr prod.case)
qed

lemma wave_identity: "deletion_preserves_identity byte_lexer (\<lambda>_ _. None) sample_guard (ByteRange 1 2)"
  using sample_guard_deletion by (simp add: deletion_preserves_identity_def)

lemma wave_close: "token_requirements_close byte_lexer (\<lambda>_ _. None) wave_inventory wave_initial {0, 1, 2} [0, 1, 2]
    = Inr (False, wave_final, {0, 1, 2})"
proof -
  have start: "start_requirements wave_inventory {0, 1, 2} [0, 1, 2] wave_initial = Inr (wave_initial\<lparr>req_initialized := True\<rparr>)"
    using wave_retention by (simp add: start_requirements_def wave_initial_def)
  have checks: "check_component byte_lexer (\<lambda>_ _. None) sample_guard wave_inventory wave_final 0 s = Inr s"
    "check_cohort byte_lexer (\<lambda>_ _. None) sample_guard wave_inventory wave_final (ByteRange 0 3) s = Inr s" for s
    using wave_identity sample_guard_deletion
    by (simp_all add: check_component_def component_range_def component_at_def get_at_def check_cohort_def wave_final_def)
  have g: "req_guard wave_initial = Some sample_guard" and p: "pending_retained (wave_initial\<lparr>req_initialized := True\<rparr>) = []"
    by (simp_all add: wave_initial_def)
  have "wave_final\<lparr>pending_retained := []\<rparr> = wave_final" by (simp add: wave_final_def)
  then show ?thesis
    unfolding token_requirements_close_def g option.case start bind_result_Inr p wave_update prod.case by (simp add: checks)
qed

lemma wave_reached: "requirement_waves byte_lexer (\<lambda>_ _. None) wave_inventory wave_final {0, 1, 2}"
proof (rule waves_close [OF waves_start [OF wave_new] _ _ wave_close])
  show "([], wave_initial) = take_newly_forced_units wave_initial" by (simp add: take_newly_forced_units_def wave_initial_def)
  show "wave_of wave_initial {} {0, 1, 2} [0, 1, 2]"
    by (auto simp: wave_of_def wave_initial_def known_units_def nth_Cons' split: if_splits)
qed

lemma wave_plan: "map_result (plan_macro_repetition_deletions wave_inventory {0, 1, 2}) (src_macro_repetitions wave_inventory)
    = Inr [[ByteRange 1 2]]"
  using wave_range
  by (simp add: wave_parts plan_macro_repetition_deletions_def plain_element_def nested_unit_def unit_at_def get_at_def sample_unit_def
      from_retained_elements_def validate_count_def runs_of_def Let_def)

theorem requirement_waves_consistent_witness: "component_index_is_consistent wave_final"
  by (rule requirement_waves_consistent [OF wave_reached])

theorem requirement_waves_incremental_witness: "fst ` set (active_deletions wave_final) = {ByteRange 1 2}"
proof -
  have "known_units wave_final = {0, 1, 2}"
    by (auto simp: known_units_def wave_final_def nth_Cons' split: if_splits)
  from requirement_waves_incremental [OF wave_reached, unfolded this, OF wave_plan] show ?thesis by simp
qed

theorem requirement_waves_settled_witness:
  "pending_retained wave_final = [] \<and> deletion_preserves_identity byte_lexer (\<lambda>_ _. None) sample_guard (ByteRange 1 2)
    \<and> deletions_preserve_identity byte_lexer (\<lambda>_ _. None) sample_guard [ByteRange 1 2]"
proof -
  have pending: "pending_retained wave_final = []" by (simp add: wave_final_def)
  have guard: "token_rewrite_guard_new byte_lexer (\<lambda>_ _. None) (src_original wave_inventory) = Inr sample_guard"
    using sample_guard_new by (simp only: wave_parts)
  have merged: "merge_deletions (src_original wave_inventory) (sort (concat [[ByteRange 1 2]])) {1, 2} = Inr [ByteRange 1 2]"
    by (simp add: wave_parts merge_deletions_def validate_deletion_range_def valid_source_range_def is_char_boundary_def
        continuation_byte_def merge_deletion_def)
  have "{e \<in> set (concat [[ByteRange 1 2]]). deletion_dependency_window sample_guard e
      = deletion_dependency_window sample_guard (ByteRange 1 2)} = {ByteRange 1 2}" by auto
  then have "sorted_list_of_set {e \<in> set (concat [[ByteRange 1 2]]). deletion_dependency_window sample_guard e
      = deletion_dependency_window sample_guard (ByteRange 1 2)} = [ByteRange 1 2]" by simp
  with requirement_waves_settled [OF wave_reached pending guard wave_plan merged] pending show ?thesis
    by (simp only: list.pred_inject concat.simps append_Nil2 simp_thms)
qed

end
