(* ===== verification/Spec2Isabelle.thy ===== *)
theory Spec2Isabelle
  imports Source_Closure Splice Token_Guard Offsets Source_Units Site_Owners Dependency_Graph
    Repetition_Plan Derive_Layout Use_Trees Rewrite_Source Reachability Disjunction_Session Requirement_Closure
begin

text \<open>
  A verification library for rust-item-dependencies, a tool that removes from a one-file Rust program
  the code its execution does not need.

  \<^bold>\<open>The program.\<close>  The tool runs in five phases.
    \<^item> Observation (\<open>src/input.rs\<close>, \<open>src/definitions.rs\<close>, \<open>src/expansions/\<close>, \<open>src/monomorphization.rs\<close>,
      \<open>src/selection.rs\<close>): callbacks inside rustc record what the compiler decided about the source.
    \<^item> Inventory (\<open>src/source.rs\<close>, \<open>src/source/\<close>): the source as a tree of written units with byte ranges,
      tiled by owned pieces, with tables of facts about derives and declarative macros.
    \<^item> Graph (\<open>src/graph.rs\<close>, \<open>src/dependency_graph.rs\<close>): definitions, expansions, proofs and
      monomorphic items as nodes, typed edges with the source sites that cause them, and the roots.
    \<^item> Retention (\<open>src/retention.rs\<close>, \<open>src/retention/\<close>): the fixed point that decides which units stay.
    \<^item> Rewrite (\<open>src/rewrite.rs\<close>, \<open>src/rewrite/\<close>): the removal of the other units from the text, with a map
      from the new text back to the old.
  Everything after the observation is a function of plain data; that is what is modelled here.

  \<^bold>\<open>Conventions.\<close>  A \<open>Result\<close> is a sum whose left side is the error of the code; \<open>?\<close> is
  \<^const>\<open>bind_result\<close> and a loop that can fail is \<^const>\<open>fold_result\<close>, so that every early return of the
  source is a branch.  Identifiers and offsets are the natural numbers of their \<open>u32\<close> values, and each
  conversion, addition or subtraction that can leave the type is written out (\<open>Rid_Prelude\<close>).  The casts
  of the length of a checked source, or of a text cut from it, are the identity and are left out; so is
  \<open>index as u32\<close> of \<open>validate_units\<close>, which is the identity below \<open>2^32\<close> units.  A
  \<open>BTreeMap\<close> that is iterated is the list of its entries in key order and a \<open>BTreeSet\<close> is a set that is
  listed in order (\<open>Ordered_Map\<close>); derived orders are \<open>linorder\<close> instances.  Text is its list of bytes.

  \<^bold>\<open>Theories and code.\<close>
    \<^item> \<open>Rid_Prelude\<close>, \<open>Ordered_Map\<close>, \<open>Demand\<close>: shared vocabulary; \<open>Demand\<close> states the contract of a demand
      closure as the locale \<open>monotone_demand\<close>, interpreted in \<open>Source_Closure\<close>.
    \<^item> \<open>Source_Model\<close>: the data of \<open>source.rs\<close>, \<open>source/derive.rs\<close>, \<open>source/declarative_macro.rs\<close>.
    \<^item> \<open>Source_Units\<close>: \<open>unit_depths\<close>, \<open>validate_units\<close>, \<open>validate_inventory\<close>, \<open>MacroRuleSelectionIndex\<close> of
      \<open>source.rs\<close>.  Accepted units are one tree and the pieces tile the source inside their owners.
    \<^item> \<open>Offsets\<close>: \<open>OriginalOffsetMap\<close> of \<open>source.rs\<close>.  Normalized and original positions correspond exactly.
    \<^item> \<open>Syntax\<close>, \<open>Token_Guard\<close>: \<open>source/syntax.rs\<close>.  Balanced token ranges are the words of the bracket
      grammar, comma segments are cut at the top-level commas, and the identity test of a deletion is the
      comparison of the surviving tokens with those of the text that remains.
    \<^item> \<open>Derive_Layout\<close>: \<open>source/derive.rs\<close>, the layout of derive attributes and the check of their tables.
    \<^item> \<open>Chain_Walk\<close>, \<open>Macro_Facts\<close>, \<open>Macro_Captures\<close>, \<open>Macro_Repetitions\<close>:
      \<open>source/declarative_macro/validation.rs\<close> and the deletion layout of \<open>capture.rs\<close>: which rule, template,
      capture and repetition tables are accepted, and what acceptance means for ranges and nesting.
    \<^item> \<open>Definition_Graph\<close>: \<open>graph.rs\<close>.  Accepted definitions are a tree whose keys are paths.
    \<^item> \<open>Graph_Data\<close>, \<open>Expansions\<close>, \<open>Proof_Checks\<close>, \<open>Mono_Checks\<close>, \<open>Dependency_Graph\<close>: \<open>dependency_graph.rs\<close>,
      from the nodes and edges to \<open>DependencyGraph::new\<close>; survival of expansions, the shape of proofs,
      allocation paths, reachability from the roots, the materialization of instances, and the round trip
      of an accepted graph.
    \<^item> \<open>Source_Closure\<close>: \<open>retention/source_closure.rs\<close>.  The work list computes the least set closed under
      groups, directed and joint requirements, also when it is resumed.
    \<^item> \<open>Site_Owners\<close>: \<open>retention/source_sites.rs\<close>.  The persistent segment tree answers like the definition
      by innermost units.
    \<^item> \<open>Expansion_Components\<close>, \<open>Component_Search\<close>, \<open>Reachability_Index\<close>, \<open>Reachability_Closure\<close>,
      \<open>Reachability_Invariant\<close>, \<open>Reachability\<close>: \<open>retention/reachability.rs\<close>.  The two depth-first searches find
      the strongly connected components; the index holds the gates of every edge; the closure with its
      counters and queues keeps a three-part invariant; and its result is the least set of nodes closed
      under the open edges, where an edge is open as the graph and the owner lookup say.
    \<^item> \<open>Choice_Ranks\<close>, \<open>Disjunctions\<close>, \<open>Disjunction_Scan\<close>, \<open>Disjunction_Session\<close>: \<open>retention/disjunctions.rs\<close>
      and the ranks of \<open>retention.rs\<close>.  Caching ranks changes none (locale \<open>cached_ranking\<close>), the pending
      queues of the selections do what a pass over all disjunctions does (locale \<open>pending_scan\<close>), a session
      of the closure is a session of that reference, and selections settle, with at most one
      report of progress per source or compiler disjunction and two per member (locale \<open>choice_scan\<close>).
    \<^item> \<open>Segments\<close>, \<open>Use_Trees\<close>, \<open>Repetition_Plan\<close>, \<open>Splice\<close>, \<open>Rewrite\<close>, \<open>Rewrite_Source\<close>: \<open>rewrite.rs\<close> and
      \<open>rewrite/macro_repetition.rs\<close>.  Each editor of a list (use tree, derive attribute, repetition, capture)
      deletes inside its list, covers every dropped element and spares every retained one; \<open>splice\<close> keeps
      exactly the bytes outside the deletions; and \<open>rewrite_source\<close> refines the abstract operation that
      removes the bytes of the dropped units.

    \<^item> \<open>Token_Requirements\<close>, \<open>Deletion_Index\<close>, \<open>Requirement_Runs\<close>, \<open>Requirement_Waves\<close>,
      \<open>Requirement_Closure\<close>: \<open>MacroRepetitionTokenRequirements\<close> of \<open>rewrite/macro_repetition.rs\<close>.  The first
      holds its state and operations as the code has them.  The next three show what one step keeps:
      inserting and removing a deletion keeps the components the chains of neighbouring deletions and the
      cohorts the deletions of one window; retaining an element or activating a repetition keeps the active
      deletions those of the maximal runs; and a wave reads off exactly the repetitions its units change.
      The last one joins them, with a locale for the test of a group of deletions (\<open>group_check\<close>) interpreted
      for the components and for the cohorts, into the invariant of \<open>close\<close> over all runs of waves
      (\<open>requirement_waves\<close>): the index is the plan from scratch, and when a wave forces nothing the
      deletions of the rewrite keep the tokens of the parser.

  \<^bold>\<open>How the parts meet.\<close>  \<open>validate_inventory\<close> is assumed by nobody: \<open>rewrite_source\<close> and the owner lookup
  run or restate the checks they rest on, and the theorems have the accepted result as their hypothesis.
  The owner lookup gives the gates of the reachability index, the definition and dependency graphs give
  its edges, and the use, derive and repetition editors share the segment lemmas and the splice.  The
  waves of token requirements use the runs, ranges and windows of the repetition plan, and when they
  settle each deletion that \<open>merge_deletions\<close> makes of the plan keeps the tokens of the parser, as do the planned
  deletions of each dependency window, taken together.

  \<^bold>\<open>Termination and fuel.\<close>  All loops are total functions with measures: chain walks by the nodes not yet on
  the path, the depth-first searches by the unmarked nodes and the open stack, the closure by the edges
  that have not fired, the selections by the cursor and the pending indices.  A wave of token requirements
  is a fixed number of folds.  Only \<open>rewrite_group\<close> carries fuel; the brace groups of a call chain open
  at ever later tokens, so one more call than there are tokens is enough, which is a theorem.

  \<^bold>\<open>Parameters.\<close>  The lexer (\<open>rustc_lexer::tokenize\<close>) and the gluing of punctuation (\<open>rustc_ast\<close>) are
  arguments; theorems that need more than their type state it as a hypothesis.

  \<^bold>\<open>Not modelled.\<close>  The observers of the compiler, whose inputs are rustc's own structures (types, HIR,
  spans, hygiene data) and which have no meaning outside it: \<open>input.rs\<close>, \<open>definitions.rs\<close>,
  \<open>expansions/provenance.rs\<close> and \<open>expansions/output.rs\<close>, \<open>monomorphization.rs\<close>, \<open>selection.rs\<close>, \<open>external.rs\<close>,
  the collecting halves of \<open>source.rs\<close>, \<open>source/derive.rs\<close> and \<open>source/declarative_macro/\<close>, and the encoding
  of compiler terms.  The surroundings of the tool, which are input and output: \<open>main.rs\<close>, \<open>cargo_project.rs\<close>,
  \<open>file_output.rs\<close>, \<open>artifact.rs\<close>, \<open>digest.rs\<close>, \<open>tools/\<close> and the build files.  Of the pure code: the macro
  product closure (\<open>retention/macro_products.rs\<close>), the validations of \<open>retention.rs\<close> and its outer loop,
  which consume the products' tables, and the comparison of graph
  snapshots (\<open>snapshot.rs\<close>).
\<close>

end
